(* ===== verification/Prelude.thy ===== *)
theory Prelude
  imports Main "HOL-Library.Word" "HOL-Library.Multiset"
begin

text \<open>
  Shared vocabulary of the development: the machine integers of the stack, the faults a C++
  program can run into where HOL would silently return a value, the two collections of rewrite
  rules the component proofs use, and the generic facts on words, lists and modular indices that
  several components share.
\<close>

unbundle bit_operations_syntax

text \<open>The integer types of \<^verbatim>\<open>util/ipstack_inttypes.h\<close>; \<open>unsigned\<close> is 32 bit wide.\<close>

type_synonym u8 = "8 word"
type_synonym u16 = "16 word"
type_synonym u32 = "32 word"
type_synonym u64 = "64 word"

text \<open>
  What the source leaves undefined is a value here: a read or write outside an array, a member
  access through the null pointer, a write to memory that was given back.
\<close>

datatype fault = OutOfBounds | NullDeref | UseAfterFree

type_synonym 'a outcome = "fault + 'a"

text \<open>Sequencing: a fault ends the computation.\<close>

definition obind :: "'a outcome \<Rightarrow> ('a \<Rightarrow> 'b outcome) \<Rightarrow> 'b outcome" where
  "obind m f = (case m of Inl e \<Rightarrow> Inl e | Inr x \<Rightarrow> f x)"

lemma obind_simps [simp]: "obind (Inr x) f = f x" "obind (Inl e) f = Inl e"
  by (simp_all add: obind_def)

text \<open>\<open>returns m Q\<close>: the computation ends without a fault and its result satisfies \<open>Q\<close>.\<close>

definition returns :: "'a outcome \<Rightarrow> ('a \<Rightarrow> bool) \<Rightarrow> bool" where
  "returns m Q \<longleftrightarrow> (\<exists>x. m = Inr x \<and> Q x)"

lemma returns_Inr [simp]: "returns (Inr x) Q \<longleftrightarrow> Q x"
  by (simp add: returns_def)

lemma returns_obind: "returns m Q \<Longrightarrow> (\<And>x. Q x \<Longrightarrow> returns (f x) R) \<Longrightarrow> returns (obind m f) R"
  by (auto simp: returns_def)

lemma returns_mono: "returns m Q \<Longrightarrow> (\<And>x. Q x \<Longrightarrow> R x) \<Longrightarrow> returns m R"
  by (auto simp: returns_def)

text \<open>\<open>yields m Q\<close>: if the computation ends without a fault, its result satisfies \<open>Q\<close>.\<close>

definition yields :: "'a outcome \<Rightarrow> ('a \<Rightarrow> bool) \<Rightarrow> bool" where
  "yields m Q \<longleftrightarrow> (\<forall>x. m = Inr x \<longrightarrow> Q x)"

lemma yields_simps [simp]: "yields (Inr x) Q \<longleftrightarrow> Q x" "yields (Inl e) Q"
  by (simp_all add: yields_def)

lemma yields_obind: "yields m Q \<Longrightarrow> (\<And>x. Q x \<Longrightarrow> yields (f x) R) \<Longrightarrow> yields (obind m f) R"
  by (cases m) (auto simp: yields_def)

lemma yields_mono: "yields m Q \<Longrightarrow> (\<And>x. Q x \<Longrightarrow> R x) \<Longrightarrow> yields m R"
  by (auto simp: yields_def)

lemma returns_yields: "returns m P \<Longrightarrow> yields m Q \<Longrightarrow> returns m (\<lambda>x. P x \<and> Q x)"
  by (auto simp: returns_def yields_def)

lemma yieldsD: "yields m Q \<Longrightarrow> m = Inr x \<Longrightarrow> Q x"
  by (simp add: yields_def)

text \<open>\<open>net_defs\<close> collects small definitions that are unfolded freely, \<open>net_inv\<close> the facts that
  an operation keeps an invariant.\<close>

named_theorems net_defs
named_theorems net_inv

subsection \<open>Indices modulo a buffer size\<close>

lemma mod_distance_ge: "a \<le> b \<Longrightarrow> b < n \<Longrightarrow> (b + n - a) mod n = b - (a :: nat)"
proof -
  assume "a \<le> b" and "b < n"
  then have "b + n - a = (b - a) + n" and "b - a < n" by simp_all
  then show ?thesis by (simp only: mod_add_self2 mod_less)
qed

lemma mod_distance_lt: "b < a \<Longrightarrow> a < n \<Longrightarrow> (b + n - a) mod n = b + n - (a :: nat)"
  by simp

lemma mod_add_cancel_right:
  fixes a b n :: nat
  assumes "b < n" and "a < n"
  shows "(a + (b + n - a) mod n) mod n = b"
  using assms by (cases "a \<le> b") (simp_all add: mod_distance_ge mod_distance_lt)

lemma mod_succ_distance:
  fixes a b n :: nat
  assumes "a < n" and "b < n" and "(b + 1) mod n \<noteq> a"
  shows "((b + 1) mod n + n - a) mod n = (b + n - a) mod n + 1"
proof (cases "b + 1 = n")
  case True
  with assms have "0 < a" and "a \<le> b" by auto
  then show ?thesis using True assms by (simp add: mod_distance_ge)
next
  case False
  with assms have b: "b + 1 < n" and ab: "b + 1 \<noteq> a" by auto
  show ?thesis
  proof (cases "a \<le> b")
    case True
    then show ?thesis using b mod_distance_ge [of a b n] mod_distance_ge [of a "b + 1" n] by simp
  next
    case False
    then show ?thesis using ab b assms by simp
  qed
qed

lemma mod_distance_full:
  fixes a b n :: nat
  assumes "a < n" and "b < n"
  shows "(b + 1) mod n = a \<longleftrightarrow> (b + n - a) mod n = n - 1"
proof (cases "a \<le> b")
  case True
  then have d: "(b + n - a) mod n = b - a" using assms by (simp add: mod_distance_ge)
  show ?thesis using d True assms by (cases "b + 1 = n") auto
next
  case False
  then show ?thesis using assms by auto
qed

lemma mod_add_less_2: "a < n \<Longrightarrow> i < n \<Longrightarrow> (a + i) mod n = (if a + i < n then a + i else a + i - (n :: nat))"
  by (simp add: le_mod_geq)

lemma mod_add_inj:
  fixes a i j n :: nat
  assumes "a < n" and "i < n" and "j < n" and "(a + i) mod n = (a + j) mod n"
  shows "i = j"
  using assms by (auto simp: mod_add_less_2 split: if_splits)

lemma mod_distance_pred:
  fixes a b n :: nat
  assumes "a < n" and "b < n" and "(b + n - a) mod n = Suc m"
  shows "(b + n - (a + 1) mod n) mod n = m"
proof (cases "a + 1 = n")
  case True
  then show ?thesis using assms by (cases "a \<le> b") (auto simp: mod_distance_ge)
next
  case False
  then have a: "a + 1 < n" using assms by simp
  show ?thesis
  proof (cases "a \<le> b")
    case True
    with assms have m: "b - a = Suc m" by (simp add: mod_distance_ge)
    then show ?thesis using a assms mod_distance_ge [of "a + 1" b n] by simp
  next
    case False
    then show ?thesis using assms a by simp
  qed
qed

lemma mod_distance_less: "0 < n \<Longrightarrow> (x :: nat) mod n \<le> n - 1"
  by (metis One_nat_def Suc_pred less_Suc_eq_le mod_less_divisor)

lemma mod_cancel_left:
  fixes r x y n :: nat
  assumes "(r + x) mod n = (r + y) mod n"
  shows "x mod n = y mod n"
proof (cases "y \<le> x")
  case True
  then show ?thesis using assms mod_eq_dvd_iff_nat [of "r + y" "r + x" n] mod_eq_dvd_iff_nat [of y x n] by simp
next
  case False
  then show ?thesis using assms mod_eq_dvd_iff_nat [of "r + x" "r + y" n] mod_eq_dvd_iff_nat [of x y n] by simp
qed

subsection \<open>Words and their values\<close>

lemma unat_of_nat_u8: "n < 256 \<Longrightarrow> unat (of_nat n :: u8) = n"
  by (simp add: unat_of_nat take_bit_eq_mod)

lemma unat_of_nat_u16: "n < 65536 \<Longrightarrow> unat (of_nat n :: u16) = n"
  by (simp add: unat_of_nat take_bit_eq_mod)

lemma unat_of_nat_u32: "n < 4294967296 \<Longrightarrow> unat (of_nat n :: u32) = n"
  by (simp add: unat_of_nat take_bit_eq_mod)

lemmas unat_of_nat_uint = unat_of_nat_u8 unat_of_nat_u16 unat_of_nat_u32

lemma of_nat_u32_inj: "(of_nat a :: u32) = of_nat b \<Longrightarrow> a < 2 ^ 32 \<Longrightarrow> b < 2 ^ 32 \<Longrightarrow> a = b"
proof -
  assume eq: "(of_nat a :: u32) = of_nat b" and a: "a < 2 ^ 32" and b: "b < 2 ^ 32"
  have "unat (of_nat a :: u32) = a" using a by (simp add: unat_of_nat_u32)
  moreover have "unat (of_nat b :: u32) = b" using b by (simp add: unat_of_nat_u32)
  ultimately show ?thesis by (metis eq)
qed

lemma unat_u8_less [simp]: "unat (x :: u8) < 256"
  using unsigned_less [of x] by simp

lemma unat_u16_less [simp]: "unat (x :: u16) < 65536"
  using unsigned_less [of x] by simp

lemma unat_u32_less [simp]: "unat (x :: u32) < 4294967296"
  using unsigned_less [of x] by simp

lemma not_bit_u8 [simp]: "8 \<le> n \<Longrightarrow> \<not> bit (x :: u8) n"
  using bit_imp_le_length [of x n] by auto

lemma not_bit_u16 [simp]: "16 \<le> n \<Longrightarrow> \<not> bit (x :: u16) n"
  using bit_imp_le_length [of x n] by auto

lemma not_bit_u32 [simp]: "32 \<le> n \<Longrightarrow> \<not> bit (x :: u32) n"
  using bit_imp_le_length [of x n] by auto

text \<open>The byte masks of the source, bit by bit.\<close>

lemma mask_ints:
  "(0xff :: int) = mask 8" "(0xff00 :: int) = push_bit 8 (mask 8)" "(0xff0000 :: int) = push_bit 16 (mask 8)"
  "(0xff000000 :: int) = push_bit 24 (mask 8)" "(0xffff :: int) = mask 16" "(0xf :: int) = mask 4"
  "(0xf0 :: int) = push_bit 4 (mask 4)"
  by (simp_all add: mask_eq_exp_minus_1)

lemma bit_mask_int:
  "bit (0xff :: int) n \<longleftrightarrow> n < 8" "bit (0xff00 :: int) n \<longleftrightarrow> 8 \<le> n \<and> n < 16"
  "bit (0xff0000 :: int) n \<longleftrightarrow> 16 \<le> n \<and> n < 24" "bit (0xff000000 :: int) n \<longleftrightarrow> 24 \<le> n \<and> n < 32"
  "bit (0xffff :: int) n \<longleftrightarrow> n < 16" "bit (0xf :: int) n \<longleftrightarrow> n < 4" "bit (0xf0 :: int) n \<longleftrightarrow> 4 \<le> n \<and> n < 8"
  unfolding mask_ints by (auto simp only: bit_push_bit_iff bit_mask_iff possible_bit_int)

lemma unat_and_FFFF_u32: "unat ((c :: u32) AND 0xFFFF) = unat c mod 65536"
proof -
  have "c AND 0xFFFF = take_bit 16 c" by (simp add: take_bit_eq_mask mask_eq_exp_minus_1)
  then show ?thesis by (simp add: unsigned_take_bit_eq) (simp add: take_bit_eq_mod)
qed

lemma unat_drop_bit_word: "unat (drop_bit n (c :: 'a :: len word)) = unat c div 2 ^ n"
  by (simp add: unat_drop_bit_eq) (simp add: drop_bit_eq_div)

lemma unat_add_u32: "unat a + unat b < 2 ^ 32 \<Longrightarrow> unat (a + b :: u32) = unat a + unat b"
  by (simp add: unat_word_ariths)

lemma unat_sum_list_u32: "sum_list (map unat ws) < 2 ^ 32 \<Longrightarrow> unat (sum_list (ws :: u32 list)) = sum_list (map unat ws)"
  by (induction ws) (simp_all add: unat_add_u32)

lemma unat_ucast_u8_u16 [simp]: "unat (ucast (x :: u8) :: u16) = unat x"
  using unat_u8_less [of x] by (simp add: unsigned_ucast_eq take_bit_eq_mod del: unat_u8_less)

lemma unat_ucast_u8_u32 [simp]: "unat (ucast (x :: u8) :: u32) = unat x"
  using unat_u8_less [of x] by (simp add: unsigned_ucast_eq take_bit_eq_mod del: unat_u8_less)

lemma unat_ucast_u16_u32 [simp]: "unat (ucast (x :: u16) :: u32) = unat x"
  using unat_u16_less [of x] by (simp add: unsigned_ucast_eq take_bit_eq_mod del: unat_u16_less)

lemma unat_not_u16: "unat (NOT (x :: u16)) = 65535 - unat x"
proof -
  have "NOT x = -1 - x" by (simp add: not_eq_complement)
  then have "NOT x = of_nat (65535 - unat x)"
    using unat_u16_less [of x] by (simp add: of_nat_diff del: unat_u16_less)
  then show ?thesis by (simp add: unat_of_nat_u16)
qed

subsection \<open>Lists\<close>

lemma map_upt_snoc: "map f [0..<Suc n] = map f [0..<n] @ [f n]"
  by simp

lemma map_upt_Suc_hd: "map f [0..<Suc n] = f 0 # map (\<lambda>i. f (Suc i)) [0..<n]"
  by (simp add: upt_conv_Cons map_Suc_upt [symmetric] del: upt_Suc)

lemma length_16E:
  assumes "length xs = 16"
  obtains x0 x1 x2 x3 x4 x5 x6 x7 x8 x9 x10 x11 x12 x13 x14 x15
  where "xs = [x0, x1, x2, x3, x4, x5, x6, x7, x8, x9, x10, x11, x12, x13, x14, x15]"
  using assms by (auto simp: numeral_eq_Suc length_Suc_conv)

lemma length_4E:
  assumes "4 \<le> length xs"
  obtains x0 x1 x2 x3 ys where "xs = x0 # x1 # x2 # x3 # ys"
  using assms by (auto simp: numeral_eq_Suc Suc_le_length_iff)

lemma distinct_subset_length:
  assumes "distinct xs" and "set xs \<subseteq> A" and "finite A"
  shows "length xs \<le> card A"
  using assms by (metis card_mono distinct_card)

subsection \<open>Memory\<close>

text \<open>A block of memory is the list of its cells; an access outside it is a fault. \<open>poke_all\<close> writes consecutive
  cells, as \<^verbatim>\<open>memcpy\<close> does, \<open>peek_all\<close> reads them.\<close>

definition peek :: "'a list \<Rightarrow> nat \<Rightarrow> 'a outcome" where
  "peek s p = (if p < length s then Inr (s ! p) else Inl OutOfBounds)"

definition poke :: "nat \<Rightarrow> 'a \<Rightarrow> 'a list \<Rightarrow> 'a list outcome" where
  "poke p c s = (if p < length s then Inr (s[p := c]) else Inl OutOfBounds)"

fun poke_all :: "nat \<Rightarrow> 'a list \<Rightarrow> 'a list \<Rightarrow> 'a list outcome" where
  "poke_all p [] s = Inr s"
| "poke_all p (c # cs) s = obind (poke p c s) (poke_all (Suc p) cs)"

definition peek_all :: "'a list \<Rightarrow> nat \<Rightarrow> nat \<Rightarrow> 'a list outcome" where
  "peek_all s p n = (if p + n \<le> length s then Inr (take n (drop p s)) else Inl OutOfBounds)"

lemma peek_append: "peek (pre @ s) (length pre + k) = (if k < length s then Inr (s ! k) else Inl OutOfBounds)"
  by (simp add: peek_def nth_append)

lemma poke_append: "poke (length pre + k) c (pre @ s) = (if k < length s then Inr (pre @ s[k := c]) else Inl OutOfBounds)"
  by (simp add: poke_def list_update_append)

lemma peek_at:
  "peek (pre @ x0 # s) (length pre) = Inr x0"
  "peek (pre @ x0 # x1 # s) (Suc (length pre)) = Inr x1"
  "peek (pre @ x0 # x1 # x2 # s) (Suc (Suc (length pre))) = Inr x2"
  "peek (pre @ x0 # x1 # x2 # x3 # s) (Suc (Suc (Suc (length pre)))) = Inr x3"
  by (simp_all add: peek_def nth_append)

lemma poke_at:
  "poke (length pre) c (pre @ x0 # s) = Inr (pre @ c # s)"
  "poke (Suc (length pre)) c (pre @ x0 # x1 # s) = Inr (pre @ x0 # c # s)"
  "poke (Suc (Suc (length pre))) c (pre @ x0 # x1 # x2 # s) = Inr (pre @ x0 # x1 # c # s)"
  "poke (Suc (Suc (Suc (length pre)))) c (pre @ x0 # x1 # x2 # x3 # s) = Inr (pre @ x0 # x1 # x2 # c # s)"
  "poke (Suc (Suc (Suc (Suc (length pre))))) c (pre @ x0 # x1 # x2 # x3 # x4 # s) = Inr (pre @ x0 # x1 # x2 # x3 # c # s)"
  by (simp_all add: poke_def list_update_append)

lemma poke_four:
  "obind (poke (length pre + 0) c0 (pre @ x0 # x1 # x2 # x3 # s)) (\<lambda>s. obind (poke (length pre + 1) c1 s) (\<lambda>s.
   obind (poke (length pre + 2) c2 s) (\<lambda>s. obind (poke (length pre + 3) c3 s) f))) = f (pre @ c0 # c1 # c2 # c3 # s)"
  by (simp add: poke_at eval_nat_numeral)

lemma poke_fifth: "poke (length pre + 4) c (pre @ x0 # x1 # x2 # x3 # x4 # s) = Inr (pre @ x0 # x1 # x2 # x3 # c # s)"
  by (simp add: poke_at eval_nat_numeral)

lemma poke_all_append: "length cs \<le> length s \<Longrightarrow> poke_all (length pre) cs (pre @ s) = Inr (pre @ cs @ drop (length cs) s)"
proof (induction cs arbitrary: pre s)
  case Nil
  then show ?case by simp
next
  case (Cons c cs)
  then obtain x u where s: "s = x # u" "length cs \<le> length u" by (cases s) auto
  show ?case using Cons.IH [of u "pre @ [c]"] s by (simp add: poke_at)
qed

end
