(* ===== verification/Checksum.thy ===== *)
theory Checksum
  imports Prelude
begin

text \<open>
  Byte order and the Internet checksum: \<^verbatim>\<open>Little_Endian.ah\<close>, \<^verbatim>\<open>ip/InternetChecksum.h\<close>, the pseudo
  headers of \<^verbatim>\<open>ipv4/InternetChecksum.h\<close> and \<^verbatim>\<open>ipv6/InternetChecksum.h\<close>, and the four copies of
  \<open>calc_checksum\<close> and \<open>checksum_valid\<close> in the TCP, UDP, ICMP and ICMPv6 headers. Memory is a list of
  bytes; a \<open>uint16_t\<close> loaded from it has the first byte as its low half, as on the machines the stack
  is woven with \<^verbatim>\<open>Little_Endian.ah\<close> for.
\<close>

subsection \<open>Byte order\<close>

definition load16 :: "u8 \<Rightarrow> u8 \<Rightarrow> u16" where
  "load16 b0 b1 = ucast b0 OR push_bit 8 (ucast b1)"

definition store16 :: "u16 \<Rightarrow> u8 list" where
  "store16 v = [ucast v, ucast (drop_bit 8 v)]"

definition load32 :: "u8 \<Rightarrow> u8 \<Rightarrow> u8 \<Rightarrow> u8 \<Rightarrow> u32" where
  "load32 b0 b1 b2 b3 = ucast b0 OR push_bit 8 (ucast b1) OR push_bit 16 (ucast b2) OR push_bit 24 (ucast b3)"

definition store32 :: "u32 \<Rightarrow> u8 list" where
  "store32 v = [ucast v, ucast (drop_bit 8 v), ucast (drop_bit 16 v), ucast (drop_bit 24 v)]"

definition htons :: "u16 \<Rightarrow> u16" where
  "htons n = push_bit 8 (n AND 0xff) OR drop_bit 8 (n AND 0xff00)"

definition ntohs :: "u16 \<Rightarrow> u16" where
  "ntohs n = htons n"

definition htonl :: "u32 \<Rightarrow> u32" where
  "htonl n = push_bit 24 (n AND 0xff) OR push_bit 8 (n AND 0xff00) OR
             drop_bit 8 (n AND 0xff0000) OR drop_bit 24 (n AND 0xff000000)"

definition ntohl :: "u32 \<Rightarrow> u32" where
  "ntohl n = htonl n"

text \<open>The same swap, declared again by the checksum classes; the IPv6 class declares the identity.\<close>

definition byteswap16 :: "u16 \<Rightarrow> u16" where
  "byteswap16 v = push_bit 8 (v AND 0xFF) OR drop_bit 8 (v AND 0xFF00)"

definition V6_byteswap16 :: "u16 \<Rightarrow> u16" where
  "V6_byteswap16 v = v"

subsection \<open>InternetChecksum\<close>

definition csum_invert :: "u16 \<Rightarrow> u16" where
  "csum_invert csum = NOT csum"

lemma fold_carry_value:
  "unat ((c AND 0xFFFF) + drop_bit 16 c :: u32) = unat c mod 65536 + unat c div 65536"
proof -
  have "unat c div 65536 < 65536" using unat_u32_less [of c] by (simp add: less_mult_imp_div_less del: unat_u32_less)
  then show ?thesis by (simp add: unat_add_u32 unat_and_FFFF_u32 unat_drop_bit_word)
qed

lemma fold_carry_less: "drop_bit 16 (c :: u32) \<noteq> 0 \<Longrightarrow> unat ((c AND 0xFFFF) + drop_bit 16 c) < unat c"
proof -
  assume "drop_bit 16 c \<noteq> 0"
  then have "unat (drop_bit 16 c) \<noteq> 0" by (simp only: unsigned_eq_0_iff not_False_eq_True)
  then have "0 < unat c div 65536" by (simp add: unat_drop_bit_word)
  moreover have "unat c = unat c mod 65536 + 65536 * (unat c div 65536)" by simp
  ultimately show ?thesis unfolding fold_carry_value by linarith
qed

text \<open>The loop of \<open>accumulateCarryBits\<close> ends because folding the upper half into the lower one makes the
  sum smaller.\<close>

function accumulateCarryBits :: "u32 \<Rightarrow> u16" where
  "accumulateCarryBits csum =
     (if drop_bit 16 csum \<noteq> 0 then accumulateCarryBits ((csum AND 0xFFFF) + drop_bit 16 csum) else ucast csum)"
  by pat_completeness auto
termination by (relation "measure unat") (simp_all add: fold_carry_less)

declare accumulateCarryBits.simps [simp del]

fun add_words :: "u8 list \<Rightarrow> nat \<Rightarrow> u32 \<Rightarrow> u32" where
  "add_words (b0 # b1 # bs) (Suc n) csum = add_words bs n (csum + ucast (byteswap16 (load16 b0 b1)))"
| "add_words bs n csum = csum"

text \<open>The payload is read up to \<open>payloadlen\<close>; a shorter memory is a read outside it.\<close>

definition computePayload :: "u8 list \<Rightarrow> u16 \<Rightarrow> u32 outcome" where
  "computePayload payloaddata payloadlen =
     (if unat payloadlen \<le> length payloaddata
      then let csum = (if odd (unat payloadlen)
                       then push_bit 8 (ucast (payloaddata ! (unat payloadlen - 1)) AND 0xFF) else 0)
           in Inr (add_words payloaddata (unat payloadlen div 2) csum)
      else Inl OutOfBounds)"

definition computePayloadChecksum :: "u8 list \<Rightarrow> u16 \<Rightarrow> u16 outcome" where
  "computePayloadChecksum payloaddata payloadlen =
     map_sum id (\<lambda>csum. NOT (accumulateCarryBits csum)) (computePayload payloaddata payloadlen)"

subsection \<open>The transport headers\<close>

definition TCP_calc_checksum :: "u32 \<Rightarrow> u8 list \<Rightarrow> u16 \<Rightarrow> u16 outcome" where
  "TCP_calc_checksum csum this payloadlen =
     map_sum id (\<lambda>p. NOT (accumulateCarryBits (csum + p))) (computePayload this payloadlen)"

definition TCP_checksum_valid :: "u32 \<Rightarrow> u8 list \<Rightarrow> u16 \<Rightarrow> bool outcome" where
  "TCP_checksum_valid csum this payloadlen = map_sum id (\<lambda>c. c = 0) (TCP_calc_checksum csum this payloadlen)"

definition UDP_calc_checksum :: "u32 \<Rightarrow> u8 list \<Rightarrow> u16 \<Rightarrow> u16 outcome" where
  "UDP_calc_checksum csum this payloadlen =
     map_sum id (\<lambda>p. NOT (accumulateCarryBits (csum + p))) (computePayload this payloadlen)"

definition UDP_checksum_valid :: "u32 \<Rightarrow> u8 list \<Rightarrow> u16 \<Rightarrow> bool outcome" where
  "UDP_checksum_valid csum this payloadlen = map_sum id (\<lambda>c. c = 0) (UDP_calc_checksum csum this payloadlen)"

definition ICMP_calc_checksum :: "u32 \<Rightarrow> u8 list \<Rightarrow> u16 \<Rightarrow> u16 outcome" where
  "ICMP_calc_checksum csum this payloadlen =
     map_sum id (\<lambda>p. NOT (accumulateCarryBits (csum + p))) (computePayload this payloadlen)"

definition ICMP_checksum_valid :: "u32 \<Rightarrow> u8 list \<Rightarrow> u16 \<Rightarrow> bool outcome" where
  "ICMP_checksum_valid csum this payloadlen = map_sum id (\<lambda>c. c = 0) (ICMP_calc_checksum csum this payloadlen)"

definition ICMPv6_calc_checksum :: "u32 \<Rightarrow> u8 list \<Rightarrow> u16 \<Rightarrow> u16 outcome" where
  "ICMPv6_calc_checksum csum this payloadlen =
     map_sum id (\<lambda>p. NOT (accumulateCarryBits (csum + p))) (computePayload this payloadlen)"

definition ICMPv6_checksum_valid :: "u32 \<Rightarrow> u8 list \<Rightarrow> u16 \<Rightarrow> bool outcome" where
  "ICMPv6_checksum_valid csum this payloadlen = map_sum id (\<lambda>c. c = 0) (ICMPv6_calc_checksum csum this payloadlen)"

subsection \<open>The pseudo headers\<close>

definition V4_computePseudoHeader :: "u32 \<Rightarrow> u32 \<Rightarrow> u16 \<Rightarrow> u8 \<Rightarrow> u32" where
  "V4_computePseudoHeader src dst payloadlen upper_layer_nextheader =
     ucast payloadlen + ucast upper_layer_nextheader +
     ucast (byteswap16 (ucast src)) + ucast (byteswap16 (ucast (drop_bit 16 src))) +
     ucast (byteswap16 (ucast dst)) + ucast (byteswap16 (ucast (drop_bit 16 dst)))"

text \<open>One summand of the IPv6 pseudo header: \<open>ipaddrB8[i + 1] + (uint16_t)(ipaddrB8[i] << 8)\<close>.\<close>

definition V6_word :: "u8 list \<Rightarrow> nat \<Rightarrow> u32" where
  "V6_word ipaddrB8 i = ucast (V6_byteswap16 (ucast (ipaddrB8 ! (i + 1)) + push_bit 8 (ucast (ipaddrB8 ! i))))"

definition V6_computePseudoHeader :: "u8 list \<Rightarrow> u8 list \<Rightarrow> u16 \<Rightarrow> u8 \<Rightarrow> u32" where
  "V6_computePseudoHeader src dst payloadlen upper_layer_nextheader =
     ucast payloadlen +
     V6_word src 0 + V6_word src 2 + V6_word src 4 + V6_word src 6 +
     V6_word src 8 + V6_word src 10 + V6_word src 12 + V6_word src 14 +
     V6_word dst 0 + V6_word dst 2 + V6_word dst 4 + V6_word dst 6 +
     V6_word dst 8 + V6_word dst 10 + V6_word dst 12 + V6_word dst 14 +
     ucast upper_layer_nextheader"

subsection \<open>Facts on the byte order\<close>

lemma htons_load16: "htons (load16 a b) = load16 b a"
  unfolding htons_def load16_def by (rule bit_eqI) (auto simp: bit_simps bit_mask_int)

lemma htons_involution: "htons (htons a) = a"
  unfolding htons_def by (rule bit_eqI) (auto simp: bit_simps bit_mask_int)

lemma byteswap16_is_htons: "byteswap16 v = htons v"
  by (simp add: byteswap16_def htons_def)

lemma bit_htonl:
  "bit (htonl n) i \<longleftrightarrow> i < 8 \<and> bit n (i + 24) \<or> 8 \<le> i \<and> i < 16 \<and> bit n (i + 8) \<or>
     16 \<le> i \<and> i < 24 \<and> bit n (i - 8) \<or> 24 \<le> i \<and> i < 32 \<and> bit n (i - 24)"
proof -
  consider "i < 8" | "8 \<le> i" "i < 16" | "16 \<le> i" "i < 24" | "24 \<le> i" "i < 32" | "32 \<le> i" by linarith
  then show ?thesis by cases (auto simp: htonl_def bit_simps bit_mask_int add.commute)
qed

lemma htonl_involution: "htonl (htonl n) = n"
proof (rule bit_eqI)
  fix i :: nat
  consider "i < 8" | "8 \<le> i" "i < 16" | "16 \<le> i" "i < 24" | "24 \<le> i" "i < 32" | "32 \<le> i" by linarith
  then show "bit (htonl (htonl n)) i \<longleftrightarrow> bit n i"
    by cases (auto simp: bit_htonl)
qed

lemma load16_store16: "load16 (ucast v) (ucast (drop_bit 8 v)) = v"
  unfolding load16_def by (rule bit_eqI) (auto simp: bit_simps)

lemma load32_store32: "load32 (ucast v) (ucast (drop_bit 8 v)) (ucast (drop_bit 16 v)) (ucast (drop_bit 24 v)) = v"
proof (rule bit_eqI)
  fix i :: nat
  consider "i < 8" | "8 \<le> i" "i < 16" | "16 \<le> i" "i < 24" | "24 \<le> i" "i < 32" | "32 \<le> i" by linarith
  then show "bit (load32 (ucast v) (ucast (drop_bit 8 v)) (ucast (drop_bit 16 v)) (ucast (drop_bit 24 v))) i \<longleftrightarrow> bit v i"
    unfolding load32_def by cases (auto simp: bit_simps)
qed

lemma store16_load16: "store16 (load16 a b) = [a, b]"
  unfolding load16_def store16_def by (auto intro!: bit_eqI simp: bit_simps)

lemma store32_load32: "store32 (load32 a b c d) = [a, b, c, d]"
  unfolding load32_def store32_def by (auto intro!: bit_eqI simp: bit_simps)

lemma unat_load16: "unat (load16 a b) = unat a + 256 * unat b"
proof -
  have "(ucast a :: u16) AND push_bit 8 (ucast b) = 0" by (rule bit_eqI) (auto simp: bit_simps)
  then have "load16 a b = ucast a + push_bit 8 (ucast b)"
    unfolding load16_def by (simp add: disjunctive_add_eq_or)
  then show ?thesis using unat_u8_less [of a] unat_u8_less [of b]
    by (simp add: push_bit_eq_mult unat_word_ariths unsigned_ucast_eq take_bit_eq_mod del: unat_u8_less)
qed

subsection \<open>The one's complement sum\<close>

text \<open>What the checksum is specified to add up: the bytes as 16-bit numbers in network order, an odd last
  byte padded with zero.\<close>

fun be_sum :: "u8 list \<Rightarrow> nat" where
  "be_sum [] = 0"
| "be_sum [a] = 256 * unat a"
| "be_sum (a # b # bs) = 256 * unat a + unat b + be_sum bs"

lemma be_sum_append: "even (length xs) \<Longrightarrow> be_sum (xs @ ys) = be_sum xs + be_sum ys"
  by (induction xs rule: be_sum.induct) auto

lemma be_sum_bound: "be_sum bs \<le> 65535 * ((length bs + 1) div 2)"
proof (induction bs rule: be_sum.induct)
  case (2 a)
  then show ?case using unat_u8_less [of a] by (simp del: unat_u8_less)
next
  case (3 a b bs)
  then show ?case using unat_u8_less [of a] unat_u8_less [of b] by (simp del: unat_u8_less)
qed simp

lemma be_sum_bound_u16: "length bs \<le> 65535 \<Longrightarrow> be_sum bs \<le> 65535 * 32768"
  using be_sum_bound [of bs] by (elim order_trans) simp

lemma unat_byteswap16_load16: "unat (byteswap16 (load16 a b)) = 256 * unat a + unat b"
  by (simp add: byteswap16_is_htons htons_load16 unat_load16)

lemma add_words_value:
  "2 * n \<le> length bs \<Longrightarrow> unat csum + be_sum (take (2 * n) bs) < 2 ^ 32 \<Longrightarrow>
   unat (add_words bs n csum) = unat csum + be_sum (take (2 * n) bs)"
proof (induction bs n csum rule: add_words.induct)
  case (1 b0 b1 bs n csum)
  let ?c = "csum + ucast (byteswap16 (load16 b0 b1))"
  have c: "unat ?c = unat csum + (256 * unat b0 + unat b1)"
    using "1.prems" by (subst unat_add_u32) (simp_all add: unat_byteswap16_load16)
  have "unat (add_words bs n ?c) = unat ?c + be_sum (take (2 * n) bs)"
    using "1.prems" c by (intro "1.IH") simp_all
  then show ?case using c by simp
qed (auto simp: take_Cons')

lemma drop_take_last: "k < length xs \<Longrightarrow> drop k (take (Suc k) xs) = [xs ! k]"
  by (simp add: take_Suc_conv_app_nth)

lemma computePayload_value:
  assumes "unat len \<le> length data"
  shows "\<exists>p. computePayload data len = Inr p \<and> unat p = be_sum (take (unat len) data)"
proof -
  let ?n = "unat len div 2"
  let ?c = "if odd (unat len) then push_bit 8 (ucast (data ! (unat len - 1)) AND 0xFF) else 0 :: u32"
  have c: "unat ?c = be_sum (drop (2 * ?n) (take (unat len) data))"
  proof (cases "odd (unat len)")
    case True
    let ?b = "data ! (unat len - 1)"
    have "ucast ?b AND 0xFF = (ucast ?b :: u32)"
      by (rule bit_eqI) (auto simp: bit_simps bit_mask_int dest: bit_imp_le_length)
    moreover have "unat (push_bit 8 (ucast ?b :: u32)) = 256 * unat ?b"
      using unat_u8_less [of ?b]
      by (simp add: push_bit_eq_mult unat_word_ariths unsigned_ucast_eq take_bit_eq_mod del: unat_u8_less)
    moreover have "drop (2 * ?n) (take (unat len) data) = [?b]"
      using odd_two_times_div_two_succ [OF True] drop_take_last [of "2 * ?n" data] assms
      by (metis Suc_eq_plus1 Suc_le_lessD add_diff_cancel_right')
    ultimately show ?thesis using True by simp
  next
    case False
    then show ?thesis by (simp add: even_two_times_div_two)
  qed
  have sum: "be_sum (take (2 * ?n) data) + unat ?c = be_sum (take (unat len) data)"
  proof -
    have le: "2 * ?n \<le> unat len" by simp
    have "take (2 * ?n) data @ drop (2 * ?n) (take (unat len) data) = take (unat len) data"
      by (metis append_take_drop_id le min.absorb1 take_take)
    moreover have "even (length (take (2 * ?n) data))" using order_trans [OF le assms] by (simp add: min_absorb2)
    ultimately show ?thesis using be_sum_append c by metis
  qed
  moreover have "be_sum (take (unat len) data) < 2 ^ 32"
    using be_sum_bound_u16 [of "take (unat len) data"] unat_u16_less [of len]
    by (simp add: min_le_iff_disj del: unat_u16_less)
  ultimately show ?thesis using assms add_words_value [of ?n data ?c] by (simp add: computePayload_def Let_def)
qed

lemma accumulateCarryBits_value:
  "unat (accumulateCarryBits c) mod 65535 = unat c mod 65535 \<and> (accumulateCarryBits c = 0 \<longleftrightarrow> c = 0)"
proof (induction c rule: accumulateCarryBits.induct)
  case (1 c)
  show ?case
  proof (cases "drop_bit 16 c = 0")
    case True
    then have lt: "unat c < 65536" using unat_drop_bit_word [of 16 c] by (simp add: div_eq_0_iff)
    have "accumulateCarryBits c = ucast c" using True accumulateCarryBits.simps [of c] by simp
    moreover have "unat (ucast c :: u16) = unat c" using lt by (simp add: unsigned_ucast_eq take_bit_eq_mod)
    ultimately show ?thesis by (metis unsigned_eq_0_iff)
  next
    case False
    let ?d = "(c AND 0xFFFF) + drop_bit 16 c"
    have eq: "accumulateCarryBits c = accumulateCarryBits ?d"
      using False accumulateCarryBits.simps [of c] by simp
    have split: "unat c = unat c mod 65536 + 65536 * (unat c div 65536)" by simp
    then have "unat c = unat ?d + 65535 * (unat c div 65536)" unfolding fold_carry_value by linarith
    then have "unat ?d mod 65535 = unat c mod 65535" by (metis mod_mult_self2)
    moreover have "unat ?d = 0 \<longleftrightarrow> unat c = 0" unfolding fold_carry_value by (auto simp: div_eq_0_iff)
    ultimately show ?thesis using "1.IH" [OF False] eq by (simp add: unsigned_eq_0_iff)
  qed
qed

lemma ones_complement_zero_iff:
  "NOT (accumulateCarryBits c) = 0 \<longleftrightarrow> c \<noteq> 0 \<and> unat c mod 65535 = 0"
proof -
  let ?r = "accumulateCarryBits c"
  have "NOT ?r = 0 \<longleftrightarrow> unat (NOT ?r) = 0" by (simp add: unsigned_eq_0_iff)
  also have "\<dots> \<longleftrightarrow> unat ?r = 65535" using unat_u16_less [of ?r] by (auto simp: unat_not_u16 simp del: unat_u16_less)
  also have "\<dots> \<longleftrightarrow> unat ?r \<noteq> 0 \<and> unat ?r mod 65535 = 0"
  proof -
    have "unat ?r = 65535 \<or> unat ?r < 65535" using unat_u16_less [of ?r] by linarith
    then show ?thesis by auto
  qed
  finally show ?thesis using accumulateCarryBits_value [of c] by (simp add: unsigned_eq_0_iff)
qed

subsection \<open>The contract of a checksum field\<close>

text \<open>
  What \<open>calc_checksum\<close> and \<open>checksum_valid\<close> of a transport header promise, whichever header it is: the
  first returns the complement of the sum modulo 65535, the second tests that sum.
\<close>

locale internet_checksum =
  fixes calc :: "u32 \<Rightarrow> u8 list \<Rightarrow> u16 \<Rightarrow> u16 outcome"
    and valid :: "u32 \<Rightarrow> u8 list \<Rightarrow> u16 \<Rightarrow> bool outcome"
  assumes calc_complement:
      "unat len \<le> length bs \<Longrightarrow> unat csum + be_sum (take (unat len) bs) < 2 ^ 32 \<Longrightarrow>
       \<exists>c. calc csum bs len = Inr c \<and> (unat csum + be_sum (take (unat len) bs) + unat c) mod 65535 = 0 \<and>
           0 < unat csum + be_sum (take (unat len) bs) + unat c"
    and valid_iff:
      "unat len \<le> length bs \<Longrightarrow> unat csum + be_sum (take (unat len) bs) < 2 ^ 32 \<Longrightarrow>
       valid csum bs len = Inr (0 < unat csum + be_sum (take (unat len) bs) \<and>
                                (unat csum + be_sum (take (unat len) bs)) mod 65535 = 0)"
begin

text \<open>A field at an even offset that is zero while the checksum is computed and then holds it, in network
  order, makes the packet valid.\<close>

lemma fill_in_valid:
  assumes len: "unat len = length (pre @ 0 # 0 # post)" and ev: "even (length pre)" and csum: "unat csum < 2 ^ 31"
  shows "\<exists>c. calc csum (pre @ 0 # 0 # post) len = Inr c \<and>
             valid csum (pre @ ucast (drop_bit 8 c) # ucast c # post) len = Inr True"
proof -
  have lens: "length (pre @ 0 # 0 # post) \<le> 65535" using unat_u16_less [of len] len by (simp del: unat_u16_less)
  have sum: "be_sum (pre @ a # b # post) = be_sum pre + (256 * unat a + unat b + be_sum post)" for a b
    using ev by (simp add: be_sum_append)
  have small: "unat csum + be_sum (pre @ a # b # post) < 2 ^ 32" for a b
    using be_sum_bound_u16 [of "pre @ a # b # post"] lens csum by simp
  obtain c where c: "calc csum (pre @ 0 # 0 # post) len = Inr c"
      "(unat csum + be_sum (pre @ 0 # 0 # post) + unat c) mod 65535 = 0"
      "0 < unat csum + be_sum (pre @ 0 # 0 # post) + unat c"
    using calc_complement [of len "pre @ 0 # 0 # post" csum] small [of 0 0] len by auto
  have "256 * unat (ucast (drop_bit 8 c) :: u8) + unat (ucast c :: u8) = unat c"
    by (simp add: unsigned_ucast_eq take_bit_eq_mod unat_drop_bit_word) (simp add: mod_less less_mult_imp_div_less)
  then have eq: "be_sum (pre @ ucast (drop_bit 8 c) # ucast c # post) = be_sum (pre @ 0 # 0 # post) + unat c"
    by (simp add: sum)
  then show ?thesis
    using c valid_iff [of len "pre @ ucast (drop_bit 8 c) # ucast c # post" csum] len
      small [of "ucast (drop_bit 8 c)" "ucast c"] by (simp add: add.assoc)
qed

text \<open>Changing one 16-bit word of a valid packet is detected, unless both values are the same modulo
  65535, which only 0 and 0xFFFF are.\<close>

lemma detects_word_change:
  assumes len: "unat len = length (pre @ a # b # post)" and ev: "even (length pre)" and csum: "unat csum < 2 ^ 31"
    and v: "valid csum (pre @ a # b # post) len = Inr True"
    and diff: "(256 * unat a + unat b) mod 65535 \<noteq> (256 * unat a' + unat b') mod 65535"
  shows "valid csum (pre @ a' # b' # post) len = Inr False"
proof -
  have lens: "length (pre @ a # b # post) \<le> 65535" using unat_u16_less [of len] len by (simp del: unat_u16_less)
  have sum: "be_sum (pre @ x # y # post) = be_sum pre + (256 * unat x + unat y + be_sum post)" for x y
    using ev by (simp add: be_sum_append)
  have small: "unat csum + be_sum (pre @ x # y # post) < 2 ^ 32" for x y
    using be_sum_bound_u16 [of "pre @ x # y # post"] lens csum by simp
  let ?R = "unat csum + be_sum pre + be_sum post"
  have t: "unat csum + be_sum (pre @ x # y # post) = ?R + (256 * unat x + unat y)" for x y by (simp add: sum)
  have "(?R + (256 * unat a + unat b)) mod 65535 = 0"
    using v valid_iff [of len "pre @ a # b # post" csum] small [of a b] len by (simp add: t)
  then have "(?R + (256 * unat a' + unat b')) mod 65535 \<noteq> 0"
    using diff by (metis mod_cancel_left)
  then show ?thesis using valid_iff [of len "pre @ a' # b' # post" csum] small [of a' b'] len by (simp add: t)
qed

end

text \<open>The four headers implement the contract.\<close>

lemma calc_value:
  assumes calc: "calc csum bs len = map_sum id (\<lambda>p. NOT (accumulateCarryBits (csum + p))) (computePayload bs len)"
    and len: "unat len \<le> length bs" and small: "unat csum + be_sum (take (unat len) bs) < 2 ^ 32"
  shows "\<exists>c. calc csum bs len = Inr c \<and> (unat csum + be_sum (take (unat len) bs) + unat c) mod 65535 = 0 \<and>
      0 < unat csum + be_sum (take (unat len) bs) + unat c \<and>
      (c = 0 \<longleftrightarrow> 0 < unat csum + be_sum (take (unat len) bs) \<and> (unat csum + be_sum (take (unat len) bs)) mod 65535 = 0)"
proof -
  obtain p where p: "computePayload bs len = Inr p" "unat p = be_sum (take (unat len) bs)"
    using computePayload_value [OF len] by blast
  let ?s = "csum + p" and ?r = "accumulateCarryBits (csum + p)"
  have s: "unat ?s = unat csum + be_sum (take (unat len) bs)" using p small by (simp add: unat_add_u32)
  have r: "unat ?r mod 65535 = unat ?s mod 65535" and z: "?r = 0 \<longleftrightarrow> ?s = 0" using accumulateCarryBits_value [of ?s] by simp_all
  have n: "unat (NOT ?r) = 65535 - unat ?r" by (rule unat_not_u16)
  have "(unat ?s + unat (NOT ?r)) mod 65535 = (unat ?r + unat (NOT ?r)) mod 65535"
    using r by (metis mod_add_left_eq)
  moreover have "unat ?r + unat (NOT ?r) = 65535" using n unat_u16_less [of ?r] by (simp del: unat_u16_less)
  ultimately have f1: "(unat ?s + unat (NOT ?r)) mod 65535 = 0" by simp
  have f2: "0 < unat ?s + unat (NOT ?r)" using z n by (cases "?s = 0") (simp_all add: unat_gt_0)
  have f3: "NOT ?r = 0 \<longleftrightarrow> 0 < unat ?s \<and> unat ?s mod 65535 = 0"
    by (simp only: ones_complement_zero_iff unat_gt_0)
  have c: "calc csum bs len = Inr (NOT ?r)" using p calc by simp
  show ?thesis by (rule exI [of _ "NOT ?r"]) (use c f1 f2 f3 in \<open>simp only: s simp_thms\<close>)
qed

lemma internet_checksumI:
  assumes "\<And>csum bs len. calc csum bs len = map_sum id (\<lambda>p. NOT (accumulateCarryBits (csum + p))) (computePayload bs len)"
    and "\<And>csum bs len. valid csum bs len = map_sum id (\<lambda>c. c = 0) (calc csum bs len)"
  shows "internet_checksum calc valid"
proof
  fix csum :: u32 and bs :: "u8 list" and len :: u16
  assume h: "unat len \<le> length bs" "unat csum + be_sum (take (unat len) bs) < 2 ^ 32"
  note v = calc_value [of calc csum bs len, OF assms(1) h]
  show "\<exists>c. calc csum bs len = Inr c \<and> (unat csum + be_sum (take (unat len) bs) + unat c) mod 65535 = 0 \<and>
      0 < unat csum + be_sum (take (unat len) bs) + unat c"
    using v by (elim exE conjE) (intro exI conjI)
  show "valid csum bs len = Inr (0 < unat csum + be_sum (take (unat len) bs) \<and>
      (unat csum + be_sum (take (unat len) bs)) mod 65535 = 0)"
    using v by (elim exE conjE) (simp only: assms(2) map_sum.simps)
qed

interpretation tcp_sum: internet_checksum TCP_calc_checksum TCP_checksum_valid
  by (rule internet_checksumI) (simp_all add: TCP_calc_checksum_def TCP_checksum_valid_def)

interpretation udp_sum: internet_checksum UDP_calc_checksum UDP_checksum_valid
  by (rule internet_checksumI) (simp_all add: UDP_calc_checksum_def UDP_checksum_valid_def)

interpretation icmp_sum: internet_checksum ICMP_calc_checksum ICMP_checksum_valid
  by (rule internet_checksumI) (simp_all add: ICMP_calc_checksum_def ICMP_checksum_valid_def)

interpretation icmpv6_sum: internet_checksum ICMPv6_calc_checksum ICMPv6_checksum_valid
  by (rule internet_checksumI) (simp_all add: ICMPv6_calc_checksum_def ICMPv6_checksum_valid_def)

subsection \<open>Properties of checksums and byte order\<close>

lemma V4_pseudo_value:
  "unat (V4_computePseudoHeader (load32 a0 a1 a2 a3) (load32 b0 b1 b2 b3) len proto) =
     be_sum [a0, a1, a2, a3, b0, b1, b2, b3] + unat len + unat proto"
proof -
  have lo: "ucast (load32 x0 x1 x2 x3) = load16 x0 x1" for x0 x1 x2 x3
    unfolding load32_def load16_def by (rule bit_eqI) (auto simp: bit_simps)
  have hi: "ucast (drop_bit 16 (load32 x0 x1 x2 x3)) = load16 x2 x3" for x0 x1 x2 x3
    unfolding load32_def load16_def by (rule bit_eqI) (auto simp: bit_simps)
  have lt: "256 * unat x + unat y < 65536" for x y :: u8
    using unat_u8_less [of x] unat_u8_less [of y] by (simp del: unat_u8_less)
  show ?thesis
    using lt [of a0 a1] lt [of a2 a3] lt [of b0 b1] lt [of b2 b3] unat_u16_less [of len] unat_u8_less [of proto]
    by (simp add: V4_computePseudoHeader_def lo hi unat_add_u32 unat_byteswap16_load16
        del: unat_u16_less unat_u8_less)
qed

text \<open>C25: Filling in the checksum makes a segment valid. For a TCP segment of any even or odd length with
  any bytes before and behind the checksum field, sent between any two IPv4 addresses, the value
  \<open>calc_checksum\<close> returns over the zeroed field, stored there in network order, makes \<open>checksum_valid\<close>
  accept the segment.\<close>

theorem tcp_checksum_roundtrip:
  assumes "unat len = length (pre @ 0 # 0 # post)" and "length pre = 16"
    and "csum = V4_computePseudoHeader (load32 a0 a1 a2 a3) (load32 b0 b1 b2 b3) len 6"
  shows "\<exists>c. TCP_calc_checksum csum (pre @ 0 # 0 # post) len = Inr c \<and>
             TCP_checksum_valid csum (pre @ ucast (drop_bit 8 c) # ucast c # post) len = Inr True"
proof -
  have "unat csum < 2 ^ 31"
    using assms(3) V4_pseudo_value be_sum_bound [of "[a0, a1, a2, a3, b0, b1, b2, b3]"] unat_u16_less [of len]
    by (simp del: be_sum.simps unat_u16_less)
  with assms show ?thesis by (intro tcp_sum.fill_in_valid) simp_all
qed

theorem tcp_checksum_roundtrip_witness:
  "\<exists>c. TCP_calc_checksum (V4_computePseudoHeader (load32 10 0 0 1) (load32 10 0 0 2) 18 6) (replicate 16 7 @ 0 # 0 # []) 18 = Inr c \<and>
     TCP_checksum_valid (V4_computePseudoHeader (load32 10 0 0 1) (load32 10 0 0 2) 18 6)
       (replicate 16 7 @ ucast (drop_bit 8 c) # ucast c # []) 18 = Inr True"
  using tcp_checksum_roundtrip [of 18 "replicate 16 7" "[]" _ 10 0 0 1 10 0 0 2] by simp

text \<open>A corrupted word is detected. If a UDP datagram is accepted by \<open>checksum_valid\<close> and one of its
  16-bit words is replaced by a different one (0 and 0xFFFF count as equal), the result is rejected,
  whatever the pseudo header sum is.\<close>

theorem udp_checksum_detects_word:
  assumes "unat len = length (pre @ a # b # post)" and "even (length pre)" and "unat csum < 2 ^ 31"
    and "UDP_checksum_valid csum (pre @ a # b # post) len = Inr True"
    and "(256 * unat a + unat b) mod 65535 \<noteq> (256 * unat a' + unat b') mod 65535"
  shows "UDP_checksum_valid csum (pre @ a' # b' # post) len = Inr False"
  using assms by (rule udp_sum.detects_word_change)

theorem udp_checksum_detects_word_witness: "UDP_checksum_valid 0 ([] @ 0x12 # 0x35 # [0xED, 0xCB]) 4 = Inr False"
proof -
  have v: "UDP_checksum_valid 0 ([] @ 0x12 # 0x34 # [0xED, 0xCB]) 4 = Inr True"
    by (subst udp_sum.valid_iff) simp_all
  show ?thesis by (rule udp_checksum_detects_word [OF _ _ _ v]) simp_all
qed

lemma unat_V6_word: "unat (V6_word ip i) = 256 * unat (ip ! i) + unat (ip ! (i + 1))"
proof -
  have "push_bit 8 (ucast x) + (ucast y :: u16) = load16 y x" for x y :: u8
    unfolding load16_def by (subst disjunctive_add_eq_or) (rule bit_eqI, auto simp: bit_simps or.commute)
  then show ?thesis by (simp add: V6_word_def V6_byteswap16_def unat_load16 add.commute)
qed

text \<open>The IPv6 pseudo header sum is the sum RFC 2460 prescribes: both addresses as 16-bit words in
  network order, the upper-layer length and the next header value, added without overflow.\<close>

theorem pseudo_header_v6_sum:
  assumes "length src = 16" and "length dst = 16"
  shows "unat (V6_computePseudoHeader src dst len proto) = be_sum src + be_sum dst + unat len + unat proto"
proof -
  have lt: "unat (V6_word x i) < 65536" for x i
    using unat_u8_less [of "x ! i"] unat_u8_less [of "x ! (i + 1)"] unfolding unat_V6_word by linarith
  have words: "be_sum x = (\<Sum>i \<leftarrow> [0, 2, 4, 6, 8, 10, 12, 14]. unat (V6_word x i))" if "length x = 16" for x
    using that by (elim length_16E) (simp add: unat_V6_word)
  let ?ws = "[ucast len] @ map (V6_word src) [0, 2, 4, 6, 8, 10, 12, 14] @
    map (V6_word dst) [0, 2, 4, 6, 8, 10, 12, 14] @ [ucast proto]"
  have "sum_list (map unat ?ws) = be_sum src + be_sum dst + unat len + unat proto"
    by (simp add: words [OF assms(1)] words [OF assms(2)])
  moreover have "be_sum src + be_sum dst + unat len + unat proto < 2 ^ 32"
    using be_sum_bound [of src] be_sum_bound [of dst] unat_u16_less [of len] unat_u8_less [of proto] assms
    by (simp del: unat_u16_less unat_u8_less)
  moreover have "V6_computePseudoHeader src dst len proto = sum_list ?ws"
    by (simp add: V6_computePseudoHeader_def add.assoc)
  ultimately show ?thesis by (simp only: unat_sum_list_u32)
qed

theorem pseudo_header_v6_sum_witness:
  "unat (V6_computePseudoHeader (replicate 16 0xFF) (replicate 16 1) 8 17) =
   be_sum (replicate 16 0xFF) + be_sum (replicate 16 1) + 8 + 17"
  using pseudo_header_v6_sum [of "replicate 16 0xFF" "replicate 16 1" 8 17] by simp

text \<open>The byte-order aspect stores every 16-bit and 32-bit header field most significant byte first and
  reads it back unchanged: the woven setter followed by the woven getter is the identity.\<close>

theorem network_byte_order:
  "store16 (htons v) = [ucast (drop_bit 8 v), ucast v] \<and> ntohs (htons v) = v \<and>
   store32 (htonl w) = [ucast (drop_bit 24 w), ucast (drop_bit 16 w), ucast (drop_bit 8 w), ucast w] \<and>
   ntohl (htonl w) = w"
proof -
  have "ucast (htons v) = (ucast (drop_bit 8 v) :: u8)" "ucast (drop_bit 8 (htons v)) = (ucast v :: u8)"
    unfolding htons_def by (rule bit_eqI, auto simp: bit_simps bit_mask_int)+
  moreover have "ucast (htonl w) = (ucast (drop_bit 24 w) :: u8)" "ucast (drop_bit 8 (htonl w)) = (ucast (drop_bit 16 w) :: u8)"
    "ucast (drop_bit 16 (htonl w)) = (ucast (drop_bit 8 w) :: u8)" "ucast (drop_bit 24 (htonl w)) = (ucast w :: u8)"
    by (rule bit_eqI, auto simp: bit_simps bit_htonl ac_simps)+
  ultimately show ?thesis
    by (simp add: store16_def store32_def ntohs_def ntohl_def htons_involution htonl_involution)
qed

end
