(* ===== verification/TCP_Segment.thy ===== *)
theory TCP_Segment
  imports Checksum
begin

text \<open>
  \<^verbatim>\<open>tcp/TCP.h\<close>: the TCP header and its accessors. The record holds the fields in host order, as the
  getters and setters woven with \<^verbatim>\<open>Little_Endian.ah\<close> show them; \<open>tcp_encode\<close> and \<open>tcp_decode\<close> relate
  it to the packed structure in memory. Sequence numbers are compared in 32-bit modular arithmetic.
\<close>

subsection \<open>The header\<close>

record tcp_segment =
  seg_sport :: u16
  seg_dport :: u16
  seg_seqnum :: u32
  seg_acknum :: u32
  seg_header_len :: u8
  seg_flags :: u8
  seg_window :: u16
  seg_checksum :: u16
  seg_urgend_ptr :: u16
  seg_data :: "u8 list"

definition TCP_MIN_HEADER_SIZE :: nat where "TCP_MIN_HEADER_SIZE = 20"
definition UNUSED_PORT :: u16 where "UNUSED_PORT = 0"
definition DEFAULT_MSS :: u32 where "DEFAULT_MSS = 536"

definition FIN_FLAG :: u8 where "FIN_FLAG = 1"
definition SYN_FLAG :: u8 where "SYN_FLAG = 2"
definition RST_FLAG :: u8 where "RST_FLAG = 4"
definition PSH_FLAG :: u8 where "PSH_FLAG = 8"
definition ACK_FLAG :: u8 where "ACK_FLAG = 16"
definition URG_FLAG :: u8 where "URG_FLAG = 32"

lemmas tcp_flag_defs = FIN_FLAG_def SYN_FLAG_def RST_FLAG_def PSH_FLAG_def ACK_FLAG_def URG_FLAG_def

definition get_header_len :: "tcp_segment \<Rightarrow> u8" where
  "get_header_len s = drop_bit 4 (seg_header_len s) AND 0xF"

definition set_header_len :: "u8 \<Rightarrow> tcp_segment \<Rightarrow> tcp_segment" where
  "set_header_len len s = s\<lparr>seg_header_len := push_bit 4 len AND 0xF0\<rparr>"

definition has_FIN :: "tcp_segment \<Rightarrow> bool" where "has_FIN s = (seg_flags s AND FIN_FLAG \<noteq> 0)"
definition has_SYN :: "tcp_segment \<Rightarrow> bool" where "has_SYN s = (seg_flags s AND SYN_FLAG \<noteq> 0)"
definition has_RST :: "tcp_segment \<Rightarrow> bool" where "has_RST s = (seg_flags s AND RST_FLAG \<noteq> 0)"
definition has_PSH :: "tcp_segment \<Rightarrow> bool" where "has_PSH s = (seg_flags s AND PSH_FLAG \<noteq> 0)"
definition has_ACK :: "tcp_segment \<Rightarrow> bool" where "has_ACK s = (seg_flags s AND ACK_FLAG \<noteq> 0)"
definition has_URG :: "tcp_segment \<Rightarrow> bool" where "has_URG s = (seg_flags s AND URG_FLAG \<noteq> 0)"

definition set_FIN :: "tcp_segment \<Rightarrow> tcp_segment" where "set_FIN s = s\<lparr>seg_flags := seg_flags s OR FIN_FLAG\<rparr>"
definition set_SYN :: "tcp_segment \<Rightarrow> tcp_segment" where "set_SYN s = s\<lparr>seg_flags := seg_flags s OR SYN_FLAG\<rparr>"
definition set_RST :: "tcp_segment \<Rightarrow> tcp_segment" where "set_RST s = s\<lparr>seg_flags := seg_flags s OR RST_FLAG\<rparr>"
definition set_PSH :: "tcp_segment \<Rightarrow> tcp_segment" where "set_PSH s = s\<lparr>seg_flags := seg_flags s OR PSH_FLAG\<rparr>"
definition set_ACK :: "tcp_segment \<Rightarrow> tcp_segment" where "set_ACK s = s\<lparr>seg_flags := seg_flags s OR ACK_FLAG\<rparr>"
definition set_URG :: "tcp_segment \<Rightarrow> tcp_segment" where "set_URG s = s\<lparr>seg_flags := seg_flags s OR URG_FLAG\<rparr>"

lemmas tcp_flag_ops = has_FIN_def has_SYN_def has_RST_def has_PSH_def has_ACK_def has_URG_def
  set_FIN_def set_SYN_def set_RST_def set_PSH_def set_ACK_def set_URG_def

text \<open>The result is \<open>uint8_t\<close>: below five words it wraps.\<close>

definition get_options_len :: "tcp_segment \<Rightarrow> u8" where
  "get_options_len s = (get_header_len s - 5) * 4"

definition get_options :: "tcp_segment \<Rightarrow> u8 list" where
  "get_options s = seg_data s"

subsection \<open>Sequence numbers\<close>

definition SEQ_LT :: "u32 \<Rightarrow> u32 \<Rightarrow> bool" where "SEQ_LT a b = (sint (a - b) < 0)"
definition SEQ_LEQ :: "u32 \<Rightarrow> u32 \<Rightarrow> bool" where "SEQ_LEQ a b = (sint (a - b) \<le> 0)"
definition SEQ_GT :: "u32 \<Rightarrow> u32 \<Rightarrow> bool" where "SEQ_GT a b = (sint (a - b) > 0)"
definition SEQ_GEQ :: "u32 \<Rightarrow> u32 \<Rightarrow> bool" where "SEQ_GEQ a b = (sint (a - b) \<ge> 0)"

lemma sint_negative_u32: "sint (x :: u32) < 0 \<longleftrightarrow> 2 ^ 31 \<le> unat x"
proof -
  have "sint x < 0 \<longleftrightarrow> bit x 31" by (simp add: sint_uint signed_take_bit_negative_iff bit_uint_iff)
  also have "\<dots> \<longleftrightarrow> bit (unat x) 31" by (simp add: bit_unsigned_iff)
  also have "\<dots> \<longleftrightarrow> odd (unat x div 2 ^ 31)" by (rule bit_iff_odd)
  also have "\<dots> \<longleftrightarrow> 2 ^ 31 \<le> unat x"
  proof (cases "2 ^ 31 \<le> unat x")
    case True
    then have "unat x div 2 ^ 31 = 1" using unat_u32_less [of x] by (simp add: div_nat_eqI)
    with True show ?thesis by simp
  qed simp
  finally show ?thesis .
qed

lemma SEQ_LT_iff: "SEQ_LT a b \<longleftrightarrow> 2 ^ 31 \<le> unat (a - b)"
  by (simp only: SEQ_LT_def sint_negative_u32)

lemma SEQ_LEQ_iff: "SEQ_LEQ a b \<longleftrightarrow> a = b \<or> 2 ^ 31 \<le> unat (a - b)"
  using sint_negative_u32 [of "a - b"] signed_eq_0_iff [of "a - b"] by (auto simp: SEQ_LEQ_def order_le_less)

lemma SEQ_GT_iff: "SEQ_GT a b \<longleftrightarrow> \<not> SEQ_LEQ a b"
  by (auto simp: SEQ_GT_def SEQ_LEQ_def)

lemma SEQ_GEQ_iff: "SEQ_GEQ a b \<longleftrightarrow> \<not> SEQ_LT a b"
  by (auto simp: SEQ_GEQ_def SEQ_LT_def)

text \<open>
  On numbers that are less than \<open>2\<^sup>3\<^sup>1\<close> apart the comparisons are those of the distances from a
  common origin, so they survive the wrap-around of the sequence space.
\<close>

lemma seq_offset_diff: "j \<le> i \<Longrightarrow> i < 2 ^ 32 \<Longrightarrow> unat ((o0 + of_nat i) - (o0 + of_nat j) :: u32) = i - j"
proof -
  assume "j \<le> i" and "i < 2 ^ 32"
  have eq: "(o0 + of_nat i) - (o0 + of_nat j) = (of_nat (i - j) :: u32)"
    using \<open>j \<le> i\<close> by (simp add: of_nat_diff)
  show ?thesis unfolding eq by (rule unat_of_nat_u32) (use \<open>i < 2 ^ 32\<close> in simp)
qed

lemma seq_offset_diff_neg: "i < j \<Longrightarrow> j < 2 ^ 32 \<Longrightarrow> unat ((o0 + of_nat i) - (o0 + of_nat j) :: u32) = 2 ^ 32 - (j - i)"
proof -
  assume ij: "i < j" "j < 2 ^ 32"
  have "(o0 + of_nat i) - (o0 + of_nat j) = (- of_nat (j - i) :: u32)" using ij by (simp add: of_nat_diff)
  also have "\<dots> = of_nat (2 ^ 32 - (j - i))" using ij by (simp add: of_nat_diff)
  finally have eq: "(o0 + of_nat i) - (o0 + of_nat j) = (of_nat (2 ^ 32 - (j - i)) :: u32)" .
  show ?thesis unfolding eq by (rule unat_of_nat_u32) (use ij in simp)
qed

lemma seq_offset_order:
  assumes "i < 2 ^ 32" and "j < 2 ^ 32" and "i < j + 2 ^ 31" and "j < i + 2 ^ 31"
  shows "SEQ_LT (o0 + of_nat i) (o0 + of_nat j) = (i < j) \<and> SEQ_LEQ (o0 + of_nat i) (o0 + of_nat j) = (i \<le> j) \<and>
         SEQ_GT (o0 + of_nat i) (o0 + of_nat j) = (i > j) \<and> SEQ_GEQ (o0 + of_nat i) (o0 + of_nat j) = (i \<ge> j)"
proof -
  let ?a = "o0 + of_nat i :: u32" and ?b = "o0 + of_nat j :: u32"
  have lt: "SEQ_LT ?a ?b = (i < j)"
    using assms seq_offset_diff [of j i o0] seq_offset_diff_neg [of i j o0]
    unfolding SEQ_LT_iff by (cases "i < j") auto
  have eq: "?a = ?b \<longleftrightarrow> i = j"
    using assms(1,2) seq_offset_diff [of j i o0] seq_offset_diff_neg [of i j o0]
    by (cases i j rule: linorder_cases) auto
  show ?thesis using lt eq SEQ_LEQ_iff [of ?a ?b] SEQ_LT_iff [of ?a ?b]
    by (auto simp: SEQ_GT_iff SEQ_GEQ_iff)
qed

text \<open>Sequence number comparison is correct across the wrap-around. For two sequence numbers at the
  offsets \<open>i\<close> and \<open>j\<close> from any origin whose offsets differ by less than \<open>2\<^sup>3\<^sup>1\<close>, the four comparisons decide
  exactly the order of the offsets.\<close>

theorem seq_compare_modular:
  assumes "i < 2 ^ 32" and "j < 2 ^ 32" and "i < j + 2 ^ 31" and "j < i + 2 ^ 31"
  shows "SEQ_LT (o0 + of_nat i) (o0 + of_nat j) = (i < j) \<and> SEQ_LEQ (o0 + of_nat i) (o0 + of_nat j) = (i \<le> j) \<and>
         SEQ_GT (o0 + of_nat i) (o0 + of_nat j) = (i > j) \<and> SEQ_GEQ (o0 + of_nat i) (o0 + of_nat j) = (i \<ge> j)"
  using assms by (rule seq_offset_order)

theorem seq_compare_modular_witness:
  "SEQ_LT (0xFFFFFFF0 + of_nat 5) (0xFFFFFFF0 + of_nat 40) \<and> \<not> SEQ_GT (0xFFFFFFF0 + of_nat 5) (0xFFFFFFF0 + of_nat 40)"
  using seq_compare_modular [of 5 40 "0xFFFFFFF0"] by simp

subsection \<open>The header in memory\<close>

text \<open>The packed structure: ten fields in 20 bytes, the multi-byte ones in network order, then the options
  and the payload.\<close>

definition tcp_encode :: "tcp_segment \<Rightarrow> u8 list" where
  "tcp_encode s = store16 (htons (seg_sport s)) @ store16 (htons (seg_dport s)) @ store32 (htonl (seg_seqnum s)) @
     store32 (htonl (seg_acknum s)) @ [seg_header_len s, seg_flags s] @ store16 (htons (seg_window s)) @
     store16 (htons (seg_checksum s)) @ store16 (htons (seg_urgend_ptr s)) @ seg_data s"

fun tcp_decode :: "u8 list \<Rightarrow> tcp_segment outcome" where
  "tcp_decode (s0 # s1 # d0 # d1 # q0 # q1 # q2 # q3 # a0 # a1 # a2 # a3 # h # f # w0 # w1 # c0 # c1 # u0 # u1 # rest) =
     Inr \<lparr>seg_sport = ntohs (load16 s0 s1), seg_dport = ntohs (load16 d0 d1), seg_seqnum = ntohl (load32 q0 q1 q2 q3),
          seg_acknum = ntohl (load32 a0 a1 a2 a3), seg_header_len = h, seg_flags = f, seg_window = ntohs (load16 w0 w1),
          seg_checksum = ntohs (load16 c0 c1), seg_urgend_ptr = ntohs (load16 u0 u1), seg_data = rest\<rparr>"
| "tcp_decode bs = Inl OutOfBounds"

text \<open>\<open>get_data()\<close> points \<open>get_header_len()\<close> words behind \<open>this\<close>: the memory from there to the end of the segment.
  A header length below five points back into the header.\<close>

definition get_data :: "tcp_segment \<Rightarrow> u8 list" where
  "get_data s = drop (4 * unat (get_header_len s)) (tcp_encode s)"

lemma ntohs_load_store: "ntohs (load16 (ucast (htons v)) (ucast (drop_bit 8 (htons v)))) = v"
  by (simp add: load16_store16 ntohs_def htons_involution)

lemma ntohl_load_store:
  "ntohl (load32 (ucast (htonl v)) (ucast (drop_bit 8 (htonl v))) (ucast (drop_bit 16 (htonl v))) (ucast (drop_bit 24 (htonl v)))) = v"
  by (simp add: load32_store32 ntohl_def htonl_involution)

lemma header_len_roundtrip: "n < 16 \<Longrightarrow> get_header_len (set_header_len n s) = n"
proof -
  assume "n < 16"
  then have "unat (take_bit 4 n) = unat n"
    by (simp add: unsigned_take_bit_eq word_less_nat_alt) (simp add: take_bit_eq_mod)
  then have "take_bit 4 n = n" by (rule unsigned_word_eqI)
  moreover have "drop_bit 4 (push_bit 4 n AND 0xF0) AND 0xF = take_bit 4 n"
    by (rule bit_eqI) (auto simp: bit_simps bit_mask_int)
  moreover have "seg_header_len (s\<lparr>seg_header_len := x\<rparr>) = x" for x by simp
  ultimately show ?thesis by (simp only: get_header_len_def set_header_len_def)
qed

text \<open>The header is read back as it was written, in both directions: decoding the memory that the
  setters produced gives the field values, and any 20 or more bytes are the encoding of what the getters
  read from them; fewer bytes are a read outside the buffer.\<close>

theorem tcp_header_roundtrip:
  "tcp_decode (tcp_encode s) = Inr s \<and> (tcp_decode bs = Inr t \<longrightarrow> tcp_encode t = bs) \<and>
   (tcp_decode bs = Inl OutOfBounds \<longleftrightarrow> length bs < TCP_MIN_HEADER_SIZE)"
proof (intro conjI impI)
  show "tcp_decode (tcp_encode s) = Inr s"
    by (simp add: tcp_encode_def store16_def store32_def ntohs_load_store ntohl_load_store)
  show "tcp_encode t = bs" if "tcp_decode bs = Inr t"
    using that
    by (cases bs rule: tcp_decode.cases)
       (auto simp: tcp_encode_def ntohs_def ntohl_def htons_involution htonl_involution store16_load16 store32_load32)
  show "tcp_decode bs = Inl OutOfBounds \<longleftrightarrow> length bs < TCP_MIN_HEADER_SIZE"
    by (cases bs rule: tcp_decode.cases) (auto simp: TCP_MIN_HEADER_SIZE_def)
qed

theorem tcp_header_roundtrip_witness:
  "tcp_encode \<lparr>seg_sport = 80, seg_dport = 1, seg_seqnum = 2, seg_acknum = 3, seg_header_len = 0x50, seg_flags = 2,
     seg_window = 4, seg_checksum = 5, seg_urgend_ptr = 6, seg_data = [7]\<rparr> =
   [0, 80, 0, 1, 0, 0, 0, 2, 0, 0, 0, 3, 0x50, 2, 0, 4, 0, 5, 0, 6, 7]"
proof -
  let ?bs = "[0, 80, 0, 1, 0, 0, 0, 2, 0, 0, 0, 3, 0x50, 2, 0, 4, 0, 5, 0, 6, 7] :: u8 list"
  let ?t = "\<lparr>seg_sport = 80, seg_dport = 1, seg_seqnum = 2, seg_acknum = 3, seg_header_len = 0x50, seg_flags = 2,
     seg_window = 4, seg_checksum = 5, seg_urgend_ptr = 6, seg_data = [7]\<rparr>"
  have "tcp_decode ?bs = Inr ?t"
    by (simp add: load16_def load32_def ntohs_def ntohl_def htons_def htonl_def)
  then show ?thesis using tcp_header_roundtrip [of ?t ?bs ?t] by blast
qed

end
