(* ===== verification/Mem_Pool.thy ===== *)
theory Mem_Pool
  imports Prelude
begin

text \<open>
  The block allocators of \<^verbatim>\<open>util/Mempool.h\<close>: \<^verbatim>\<open>SingleMempool\<close>, a stack of free blocks of one size, and
  \<^verbatim>\<open>BasicMempool\<close>, a big and a small pool behind one interface. Addresses are natural numbers. A
  push on a full free stack writes behind the array; here it is the fault \<open>OutOfBounds\<close>.
\<close>

subsection \<open>SingleMempool\<close>

text \<open>\<open>smp_head\<close> is the index of \<^verbatim>\<open>head\<close> in \<^verbatim>\<open>freelist\<close>, \<open>-1\<close> when the stack is empty.\<close>

record single_mempool =
  smp_pool :: nat
  smp_freelist :: "nat list"
  smp_head :: int

definition SingleMempool :: "nat \<Rightarrow> nat \<Rightarrow> nat \<Rightarrow> single_mempool" where
  "SingleMempool BLOCKSIZE COUNT base =
     \<lparr>smp_pool = base, smp_freelist = map (\<lambda>i. base + i * BLOCKSIZE) [0..<COUNT],
      smp_head = int COUNT - 1\<rparr>"

definition smp_alloc :: "single_mempool \<Rightarrow> nat option \<times> single_mempool" where
  "smp_alloc m =
     (if smp_head m < 0 then (None, m)
      else (Some (smp_freelist m ! nat (smp_head m)), m\<lparr>smp_head := smp_head m - 1\<rparr>))"

definition smp_free :: "nat \<Rightarrow> nat \<Rightarrow> nat \<Rightarrow> single_mempool \<Rightarrow> (bool \<times> single_mempool) outcome" where
  "smp_free BLOCKSIZE COUNT mem m =
     (if mem < smp_pool m \<or> mem > smp_pool m + COUNT * BLOCKSIZE then Inr (False, m)
      else
        let rest = (mem - smp_pool m) mod BLOCKSIZE;
            h = nat (smp_head m + 1)
        in if h < length (smp_freelist m)
           then Inr (True, m\<lparr>smp_freelist := (smp_freelist m)[h := mem - rest], smp_head := smp_head m + 1\<rparr>)
           else Inl OutOfBounds)"

definition smp_hasSpace :: "single_mempool \<Rightarrow> bool" where
  "smp_hasSpace m = (smp_head m \<ge> 0)"

subsection \<open>BasicMempool\<close>

text \<open>The template sorts its two (size, count) pairs by size.\<close>

definition SIZE_BIG :: "nat \<Rightarrow> nat \<Rightarrow> nat" where
  "SIZE_BIG b1 b2 = (if b1 \<ge> b2 then b1 else b2)"

definition SIZE_SMALL :: "nat \<Rightarrow> nat \<Rightarrow> nat" where
  "SIZE_SMALL b1 b2 = (if b1 < b2 then b1 else b2)"

definition COUNT_BIG :: "nat \<Rightarrow> nat \<Rightarrow> nat \<Rightarrow> nat \<Rightarrow> nat" where
  "COUNT_BIG b1 c1 b2 c2 = (if b1 \<ge> b2 then c1 else c2)"

definition COUNT_SMALL :: "nat \<Rightarrow> nat \<Rightarrow> nat \<Rightarrow> nat \<Rightarrow> nat" where
  "COUNT_SMALL b1 c1 b2 c2 = (if b1 < b2 then c1 else c2)"

record basic_mempool =
  mempool_big :: single_mempool
  mempool_small :: single_mempool

text \<open>The size parameters a pool is instantiated with, after the sorting above.\<close>

record pool_config =
  size_big :: nat
  count_big :: nat
  size_small :: nat
  count_small :: nat

definition BasicMempool_config :: "nat \<Rightarrow> nat \<Rightarrow> nat \<Rightarrow> nat \<Rightarrow> pool_config" where
  "BasicMempool_config b1 c1 b2 c2 =
     \<lparr>size_big = SIZE_BIG b1 b2, count_big = COUNT_BIG b1 c1 b2 c2,
      size_small = SIZE_SMALL b1 b2, count_small = COUNT_SMALL b1 c1 b2 c2\<rparr>"

definition getMaxFreeBlockSize :: "pool_config \<Rightarrow> basic_mempool \<Rightarrow> nat" where
  "getMaxFreeBlockSize c m =
     (if smp_hasSpace (mempool_big m) then size_big c
      else if smp_hasSpace (mempool_small m) then size_small c else 0)"

definition mp_alloc_big :: "pool_config \<Rightarrow> nat \<Rightarrow> basic_mempool \<Rightarrow> nat option \<times> basic_mempool" where
  "mp_alloc_big c sz m =
     (if sz \<le> size_big c
      then (case smp_alloc (mempool_big m) of (p, b) \<Rightarrow> (p, m\<lparr>mempool_big := b\<rparr>))
      else (None, m))"

definition mp_alloc :: "pool_config \<Rightarrow> nat \<Rightarrow> basic_mempool \<Rightarrow> nat option \<times> basic_mempool" where
  "mp_alloc c sz m =
     (if sz \<le> size_small c
      then (case smp_alloc (mempool_small m) of
              (Some p, s) \<Rightarrow> (Some p, m\<lparr>mempool_small := s\<rparr>)
            | (None, s) \<Rightarrow> mp_alloc_big c sz (m\<lparr>mempool_small := s\<rparr>))
      else mp_alloc_big c sz m)"

definition mp_free :: "pool_config \<Rightarrow> nat \<Rightarrow> basic_mempool \<Rightarrow> basic_mempool outcome" where
  "mp_free c chunk m =
     (case smp_free (size_small c) (count_small c) chunk (mempool_small m) of
        Inl e \<Rightarrow> Inl e
      | Inr (True, s) \<Rightarrow> Inr (m\<lparr>mempool_small := s\<rparr>)
      | Inr (False, s) \<Rightarrow>
          (case smp_free (size_big c) (count_big c) chunk (mempool_big m) of
             Inl e \<Rightarrow> Inl e
           | Inr (_, b) \<Rightarrow> Inr (m\<lparr>mempool_small := s, mempool_big := b\<rparr>)))"

subsection \<open>The interface of an allocator\<close>

locale block_allocator =
  fixes alloc :: "'m \<Rightarrow> 'a option \<times> 'm"
    and release :: "'a \<Rightarrow> 'm \<Rightarrow> 'm outcome"
    and avail :: "'m \<Rightarrow> 'a set"
    and blocks :: "'m \<Rightarrow> 'a set"
    and invar :: "'m \<Rightarrow> bool"
  assumes avail_blocks: "invar m \<Longrightarrow> avail m \<subseteq> blocks m"
    and alloc_none: "invar m \<Longrightarrow> alloc m = (None, m') \<Longrightarrow> m' = m"
    and alloc_some: "invar m \<Longrightarrow> alloc m = (Some b, m') \<Longrightarrow>
           b \<in> avail m \<and> avail m' = avail m - {b} \<and> blocks m' = blocks m \<and> invar m'"
    and release_live: "invar m \<Longrightarrow> b \<in> blocks m \<Longrightarrow> b \<notin> avail m \<Longrightarrow>
           \<exists>m'. release b m = Inr m' \<and> avail m' = insert b (avail m) \<and> blocks m' = blocks m \<and> invar m'"
begin

text \<open>A block given back is available again; one handed out is no longer.\<close>

lemma alloc_release:
  assumes "invar m" and "alloc m = (Some b, m')"
  shows "\<exists>m''. release b m' = Inr m'' \<and> avail m'' = avail m \<and> blocks m'' = blocks m"
  using alloc_some [OF assms] release_live [of m' b] avail_blocks [OF assms(1)] by force

end

datatype pool_op = Alloc nat | Free nat

text \<open>A client holds the list of its live blocks; \<open>Free i\<close> gives the \<open>i\<close>-th of them back.\<close>

fun run_pool ::
  "(nat \<Rightarrow> 'm \<Rightarrow> 'a option \<times> 'm) \<Rightarrow> ('a \<Rightarrow> 'm \<Rightarrow> 'm outcome) \<Rightarrow> pool_op list \<Rightarrow> 'm \<times> 'a list \<Rightarrow>
   ('m \<times> 'a list) outcome"
where
  "run_pool al rl [] s = Inr s"
| "run_pool al rl (Alloc n # ops) (m, live) =
     (case al n m of
        (None, m') \<Rightarrow> run_pool al rl ops (m', live)
      | (Some b, m') \<Rightarrow> run_pool al rl ops (m', b # live))"
| "run_pool al rl (Free i # ops) (m, live) =
     (if i < length live
      then (case rl (live ! i) m of
              Inl e \<Rightarrow> Inl e
            | Inr m' \<Rightarrow> run_pool al rl ops (m', take i live @ drop (Suc i) live))
      else run_pool al rl ops (m, live))"

lemma mset_take_drop: "i < length xs \<Longrightarrow> add_mset (xs ! i) (mset (take i xs @ drop (Suc i) xs)) = mset xs"
  by (metis id_take_nth_drop mset_append union_mset_add_mset_right mset.simps(2))

locale sized_allocator =
  fixes alloc :: "nat \<Rightarrow> 'm \<Rightarrow> 'a option \<times> 'm"
    and release :: "'a \<Rightarrow> 'm \<Rightarrow> 'm outcome"
    and avail :: "'m \<Rightarrow> 'a set"
    and blocks :: "'m \<Rightarrow> 'a set"
    and invar :: "'m \<Rightarrow> bool"
    and block_size :: "'m \<Rightarrow> 'a \<Rightarrow> nat"
  assumes each_size: "block_allocator (alloc n) release avail blocks invar"
    and fits: "invar m \<Longrightarrow> alloc n m = (Some b, m') \<Longrightarrow> n \<le> block_size m b"

sublocale sized_allocator \<subseteq> block_allocator "alloc n" release avail blocks invar for n
  by (rule each_size)

context sized_allocator
begin

text \<open>
  The ownership invariant of a client: its live blocks are distinct and are exactly the blocks of
  the pool that are not available.
\<close>

definition owns :: "'m \<Rightarrow> 'a list \<Rightarrow> bool" where
  "owns m live \<longleftrightarrow> invar m \<and> distinct live \<and> set live = blocks m - avail m"

lemma owns_alloc: "owns m live \<Longrightarrow> alloc n m = (Some b, m') \<Longrightarrow> owns m' (b # live)"
  using alloc_some [of m n b m'] avail_blocks [of m] by (auto simp: owns_def)

lemma owns_release:
  assumes "owns m live" and "i < length live"
  shows "\<exists>m'. release (live ! i) m = Inr m' \<and> owns m' (take i live @ drop (Suc i) live)"
proof -
  let ?b = "live ! i" and ?rest = "take i live @ drop (Suc i) live"
  have inv: "invar m" and d: "distinct live" and s: "set live = blocks m - avail m"
    using assms by (auto simp: owns_def)
  have "?b \<in> set live" using assms(2) by simp
  then obtain m' where m': "release ?b m = Inr m'" "avail m' = insert ?b (avail m)"
      "blocks m' = blocks m" "invar m'"
    using release_live [OF inv, of ?b] s by blast
  have ms: "mset (?b # ?rest) = mset live" using mset_take_drop [OF assms(2)] by simp
  then have "distinct (?b # ?rest)" using d mset_eq_imp_distinct_iff by blast
  moreover have "set (?b # ?rest) = set live" using ms by (rule mset_eq_setD)
  ultimately have "owns m' ?rest" using m' s by (auto simp: owns_def)
  then show ?thesis using m' by blast
qed

lemma run_pool_owns:
  "owns m live \<Longrightarrow> \<exists>m' live'. run_pool alloc release ops (m, live) = Inr (m', live') \<and> owns m' live'"
proof (induction ops arbitrary: m live)
  case (Cons op ops)
  show ?case
  proof (cases op)
    case (Alloc n)
    obtain p m' where a: "alloc n m = (p, m')" by fastforce
    show ?thesis
    proof (cases p)
      case None
      with a Cons.prems have "m' = m" using alloc_none by (auto simp: owns_def)
      with a None Alloc Cons show ?thesis by simp
    next
      case (Some b)
      with a Alloc Cons.IH [OF owns_alloc [OF Cons.prems]] show ?thesis by simp
    qed
  next
    case (Free i)
    then show ?thesis using Cons owns_release [OF Cons.prems, of i] by (cases "i < length live") auto
  qed
qed simp

end

subsection \<open>SingleMempool implements the interface\<close>

definition smp_blocks :: "nat \<Rightarrow> nat \<Rightarrow> nat \<Rightarrow> nat set" where
  "smp_blocks BLOCKSIZE COUNT base = (\<lambda>i. base + i * BLOCKSIZE) ` {..<COUNT}"

definition smp_stack :: "single_mempool \<Rightarrow> nat list" where
  "smp_stack m = take (nat (smp_head m + 1)) (smp_freelist m)"

definition smp_inv :: "nat \<Rightarrow> nat \<Rightarrow> single_mempool \<Rightarrow> bool" where
  "smp_inv BLOCKSIZE COUNT m \<longleftrightarrow> 0 < BLOCKSIZE \<and> length (smp_freelist m) = COUNT \<and>
     -1 \<le> smp_head m \<and> smp_head m < int COUNT \<and> distinct (smp_stack m) \<and>
     set (smp_stack m) \<subseteq> smp_blocks BLOCKSIZE COUNT (smp_pool m)"

definition smp_release :: "nat \<Rightarrow> nat \<Rightarrow> nat \<Rightarrow> single_mempool \<Rightarrow> single_mempool outcome" where
  "smp_release BLOCKSIZE COUNT b m = map_sum id snd (smp_free BLOCKSIZE COUNT b m)"

lemma inj_blocks: "0 < (s::nat) \<Longrightarrow> inj_on (\<lambda>i. base + i * s) A"
  by (simp add: inj_on_def)

lemma card_smp_blocks: "0 < s \<Longrightarrow> card (smp_blocks s n base) = n"
  by (simp add: smp_blocks_def card_image inj_blocks)

lemma finite_smp_blocks [simp]: "finite (smp_blocks s n base)"
  by (simp add: smp_blocks_def)

lemma smp_blocksE:
  assumes "b \<in> smp_blocks s n base" and "0 < s"
  shows "base \<le> b" and "b + s \<le> base + n * s" and "(b - base) mod s = 0"
proof -
  obtain i where i: "i < n" "b = base + i * s" using assms by (auto simp: smp_blocks_def)
  have "Suc i * s \<le> n * s" using i(1) by (intro mult_le_mono1) simp
  then show "base \<le> b" "b + s \<le> base + n * s" "(b - base) mod s = 0" using i by simp_all
qed

lemma SingleMempool_inv: "0 < s \<Longrightarrow> smp_inv s n (SingleMempool s n base)"
  by (auto simp: smp_inv_def SingleMempool_def smp_stack_def smp_blocks_def distinct_map inj_blocks
      intro!: inj_onI)

lemma SingleMempool_stack: "set (smp_stack (SingleMempool s n base)) = smp_blocks s n base"
  by (auto simp: SingleMempool_def smp_stack_def smp_blocks_def)

lemma smp_alloc_none: "smp_alloc m = (None, m') \<Longrightarrow> m' = m \<and> smp_head m < 0"
  by (auto simp: smp_alloc_def split: if_splits)

lemma smp_alloc_some:
  assumes "smp_inv s n m" and "smp_alloc m = (Some b, m')"
  shows "smp_stack m = smp_stack m' @ [b]" and "smp_pool m' = smp_pool m" and "smp_inv s n m'"
proof -
  from assms(2) have h: "0 \<le> smp_head m" and b: "b = smp_freelist m ! nat (smp_head m)"
    and m': "m' = m\<lparr>smp_head := smp_head m - 1\<rparr>"
    by (auto simp: smp_alloc_def split: if_splits)
  have len: "nat (smp_head m) < length (smp_freelist m)" using assms(1) h by (auto simp: smp_inv_def)
  have "nat (smp_head m + 1) = Suc (nat (smp_head m))" using h by simp
  then show stk: "smp_stack m = smp_stack m' @ [b]"
    using len by (simp add: smp_stack_def m' b take_Suc_conv_app_nth)
  show "smp_pool m' = smp_pool m" by (simp add: m')
  show "smp_inv s n m'" using assms(1) stk h m' by (auto simp: smp_inv_def)
qed

lemma smp_free_block:
  assumes "smp_inv s n m" and "b \<in> smp_blocks s n (smp_pool m)" and "b \<notin> set (smp_stack m)"
  shows "\<exists>m'. smp_free s n b m = Inr (True, m') \<and> smp_stack m' = smp_stack m @ [b] \<and>
           smp_pool m' = smp_pool m \<and> smp_inv s n m'"
proof -
  have s: "0 < s" and len: "length (smp_freelist m) = n" and h: "-1 \<le> smp_head m" "smp_head m < int n"
    and d: "distinct (smp_stack m)" and sub: "set (smp_stack m) \<subseteq> smp_blocks s n (smp_pool m)"
    using assms(1) by (auto simp: smp_inv_def)
  note b = smp_blocksE [OF assms(2) s]
  have "length (b # smp_stack m) \<le> card (smp_blocks s n (smp_pool m))"
    using assms(2,3) d sub by (intro distinct_subset_length) auto
  then have room: "nat (smp_head m + 1) < n"
    using h len s by (simp add: card_smp_blocks smp_stack_def)
  let ?m = "m\<lparr>smp_freelist := (smp_freelist m)[nat (smp_head m + 1) := b], smp_head := smp_head m + 1\<rparr>"
  have f: "smp_free s n b m = Inr (True, ?m)"
    using b room len s by (simp add: smp_free_def Let_def)
  have "nat (2 + smp_head m) = Suc (nat (smp_head m + 1))" using h by simp
  then have stk: "smp_stack ?m = smp_stack m @ [b]"
    using room len by (simp add: smp_stack_def take_Suc_conv_app_nth)
  have "smp_inv s n ?m" using assms stk room h len by (auto simp: smp_inv_def)
  with f stk show ?thesis by simp
qed

interpretation single: block_allocator smp_alloc "smp_release s n" "\<lambda>m. set (smp_stack m)"
  "\<lambda>m. smp_blocks s n (smp_pool m)" "smp_inv s n" for s n
proof
  fix m m' b
  assume inv: "smp_inv s n m"
  then show "set (smp_stack m) \<subseteq> smp_blocks s n (smp_pool m)" by (simp add: smp_inv_def)
  show "m' = m" if "smp_alloc m = (None, m')" using smp_alloc_none [OF that] by simp
  show "b \<in> set (smp_stack m) \<and> set (smp_stack m') = set (smp_stack m) - {b} \<and>
      smp_blocks s n (smp_pool m') = smp_blocks s n (smp_pool m) \<and> smp_inv s n m'"
    if "smp_alloc m = (Some b, m')"
    using smp_alloc_some [OF inv that] inv by (auto simp: smp_inv_def)
  show "\<exists>m'. smp_release s n b m = Inr m' \<and> set (smp_stack m') = insert b (set (smp_stack m)) \<and>
      smp_blocks s n (smp_pool m') = smp_blocks s n (smp_pool m) \<and> smp_inv s n m'"
    if "b \<in> smp_blocks s n (smp_pool m)" and "b \<notin> set (smp_stack m)"
    using smp_free_block [OF inv that] by (auto simp: smp_release_def)
qed

subsection \<open>BasicMempool implements the interface\<close>

text \<open>
  \<^verbatim>\<open>mempool_big\<close> is declared before \<^verbatim>\<open>mempool_small\<close>, so its pool, its free stack and its head pointer
  lie below the small pool. The invariant keeps that order of the two pools.
\<close>

definition mp_inv :: "pool_config \<Rightarrow> basic_mempool \<Rightarrow> bool" where
  "mp_inv c m \<longleftrightarrow> smp_inv (size_big c) (count_big c) (mempool_big m) \<and>
     smp_inv (size_small c) (count_small c) (mempool_small m) \<and> size_small c \<le> size_big c \<and>
     smp_pool (mempool_big m) + count_big c * size_big c \<le> smp_pool (mempool_small m)"

definition mp_avail :: "basic_mempool \<Rightarrow> nat set" where
  "mp_avail m = set (smp_stack (mempool_big m)) \<union> set (smp_stack (mempool_small m))"

definition mp_big_blocks :: "pool_config \<Rightarrow> basic_mempool \<Rightarrow> nat set" where
  "mp_big_blocks c m = smp_blocks (size_big c) (count_big c) (smp_pool (mempool_big m))"

definition mp_small_blocks :: "pool_config \<Rightarrow> basic_mempool \<Rightarrow> nat set" where
  "mp_small_blocks c m = smp_blocks (size_small c) (count_small c) (smp_pool (mempool_small m))"

definition mp_blocks :: "pool_config \<Rightarrow> basic_mempool \<Rightarrow> nat set" where
  "mp_blocks c m = mp_big_blocks c m \<union> mp_small_blocks c m"

definition mp_block_size :: "pool_config \<Rightarrow> basic_mempool \<Rightarrow> nat \<Rightarrow> nat" where
  "mp_block_size c m b = (if b \<in> mp_small_blocks c m then size_small c else size_big c)"

lemmas mp_set_defs = mp_avail_def mp_blocks_def mp_big_blocks_def mp_small_blocks_def

lemma big_below_small:
  assumes "mp_inv c m" and "b \<in> mp_big_blocks c m"
  shows "b < smp_pool (mempool_small m)"
proof -
  have "0 < size_big c" using assms(1) by (simp add: mp_inv_def smp_inv_def)
  with smp_blocksE(2) [of b "size_big c" "count_big c"] assms show ?thesis
    by (fastforce simp: mp_inv_def mp_big_blocks_def)
qed

lemma small_not_big: "mp_inv c m \<Longrightarrow> b \<in> mp_small_blocks c m \<Longrightarrow> b \<notin> mp_big_blocks c m"
  using big_below_small [of c m b] smp_blocksE(1) [of b]
  by (fastforce simp: mp_inv_def smp_inv_def mp_small_blocks_def)

lemma smp_inv_stack: "smp_inv s n m \<Longrightarrow> set (smp_stack m) \<subseteq> smp_blocks s n (smp_pool m)"
  by (simp add: smp_inv_def)

lemma mp_stack_blocks:
  assumes "mp_inv c m"
  shows "set (smp_stack (mempool_big m)) \<subseteq> mp_big_blocks c m"
    and "set (smp_stack (mempool_small m)) \<subseteq> mp_small_blocks c m"
  using assms by (auto simp: mp_inv_def mp_big_blocks_def mp_small_blocks_def dest: smp_inv_stack)

lemma mp_alloc_bigD:
  assumes inv: "mp_inv c m" and a: "mp_alloc_big c sz m = (Some b, m')"
  shows "sz \<le> size_big c" and "b \<in> mp_big_blocks c m" and "b \<in> mp_avail m" and
    "mp_avail m' = mp_avail m - {b}" and "mp_big_blocks c m' = mp_big_blocks c m" and
    "mp_small_blocks c m' = mp_small_blocks c m" and "mp_inv c m'"
proof -
  from a obtain mb where sz: "sz \<le> size_big c" and al: "smp_alloc (mempool_big m) = (Some b, mb)"
    and m': "m' = m\<lparr>mempool_big := mb\<rparr>"
    by (auto simp: mp_alloc_big_def split: if_splits prod.splits)
  have ib: "smp_inv (size_big c) (count_big c) (mempool_big m)" using inv by (simp add: mp_inv_def)
  note big = smp_alloc_some [OF ib al]
  have in_big: "b \<in> set (smp_stack (mempool_big m))" using big(1) by simp
  then show bb: "b \<in> mp_big_blocks c m" using mp_stack_blocks(1) [OF inv] by blast
  then have "b \<notin> set (smp_stack (mempool_small m))"
    using mp_stack_blocks(2) [OF inv] small_not_big [OF inv] by blast
  moreover have "set (smp_stack mb) = set (smp_stack (mempool_big m)) - {b}"
    using big(1) ib by (auto simp: smp_inv_def)
  ultimately show "mp_avail m' = mp_avail m - {b}" by (auto simp: mp_avail_def m')
  show "b \<in> mp_avail m" using in_big by (simp add: mp_avail_def)
  show "sz \<le> size_big c" by (rule sz)
  show "mp_big_blocks c m' = mp_big_blocks c m" "mp_small_blocks c m' = mp_small_blocks c m" "mp_inv c m'"
    using big inv by (simp_all add: m' mp_big_blocks_def mp_small_blocks_def mp_inv_def)
qed

lemma mp_alloc_smallD:
  assumes inv: "mp_inv c m" and a: "smp_alloc (mempool_small m) = (Some b, ms)"
  defines "m' \<equiv> m\<lparr>mempool_small := ms\<rparr>"
  shows "b \<in> mp_small_blocks c m" and "b \<in> mp_avail m" and "mp_avail m' = mp_avail m - {b}" and
    "mp_big_blocks c m' = mp_big_blocks c m" and "mp_small_blocks c m' = mp_small_blocks c m" and "mp_inv c m'"
proof -
  have isml: "smp_inv (size_small c) (count_small c) (mempool_small m)" using inv by (simp add: mp_inv_def)
  note small = smp_alloc_some [OF isml a]
  have in_small: "b \<in> set (smp_stack (mempool_small m))" using small(1) by simp
  then show bs: "b \<in> mp_small_blocks c m" using mp_stack_blocks(2) [OF inv] by blast
  then have "b \<notin> set (smp_stack (mempool_big m))"
    using mp_stack_blocks(1) [OF inv] small_not_big [OF inv] by blast
  moreover have "set (smp_stack ms) = set (smp_stack (mempool_small m)) - {b}"
    using small(1) isml by (auto simp: smp_inv_def)
  ultimately show "mp_avail m' = mp_avail m - {b}" by (auto simp: mp_avail_def m'_def)
  show "b \<in> mp_avail m" using in_small by (simp add: mp_avail_def)
  show "mp_big_blocks c m' = mp_big_blocks c m" "mp_small_blocks c m' = mp_small_blocks c m" "mp_inv c m'"
    using small inv by (simp_all add: m'_def mp_big_blocks_def mp_small_blocks_def mp_inv_def)
qed

lemma mp_alloc_cases:
  assumes "mp_alloc c sz m = (r, m')"
  obtains (small) b ms where "r = Some b" "sz \<le> size_small c" "smp_alloc (mempool_small m) = (Some b, ms)"
      "m' = m\<lparr>mempool_small := ms\<rparr>"
    | (big) "mp_alloc_big c sz m = (r, m')"
proof (cases "sz \<le> size_small c")
  case True
  obtain q ms where q: "smp_alloc (mempool_small m) = (q, ms)" by fastforce
  show ?thesis
  proof (cases q)
    case None
    then have "m\<lparr>mempool_small := ms\<rparr> = m" using q smp_alloc_none [of "mempool_small m" ms] by simp
    with None q True assms show ?thesis by (intro that(2)) (simp add: mp_alloc_def)
  next
    case (Some b)
    with q True assms show ?thesis by (intro that(1) [of b ms]) (auto simp: mp_alloc_def)
  qed
qed (use assms that in \<open>simp add: mp_alloc_def\<close>)

lemma mp_free_block:
  assumes inv: "mp_inv c m" and b: "b \<in> mp_blocks c m" "b \<notin> mp_avail m"
  shows "\<exists>m'. mp_free c b m = Inr m' \<and> mp_avail m' = insert b (mp_avail m) \<and>
           mp_blocks c m' = mp_blocks c m \<and> mp_inv c m'"
proof (cases "b \<in> mp_small_blocks c m")
  case True
  then obtain s where "smp_free (size_small c) (count_small c) b (mempool_small m) = Inr (True, s)"
      "smp_stack s = smp_stack (mempool_small m) @ [b]" "smp_pool s = smp_pool (mempool_small m)"
      "smp_inv (size_small c) (count_small c) s"
    using smp_free_block [of "size_small c" "count_small c" "mempool_small m" b] inv b
    by (auto simp: mp_inv_def mp_set_defs)
  then show ?thesis using inv by (auto simp: mp_free_def mp_inv_def mp_set_defs)
next
  case False
  then have big: "b \<in> mp_big_blocks c m" using b by (simp add: mp_blocks_def)
  then obtain g where "smp_free (size_big c) (count_big c) b (mempool_big m) = Inr (True, g)"
      "smp_stack g = smp_stack (mempool_big m) @ [b]" "smp_pool g = smp_pool (mempool_big m)"
      "smp_inv (size_big c) (count_big c) g"
    using smp_free_block [of "size_big c" "count_big c" "mempool_big m" b] inv b
    by (auto simp: mp_inv_def mp_set_defs)
  moreover have "smp_free (size_small c) (count_small c) b (mempool_small m) = Inr (False, mempool_small m)"
    using big_below_small [OF inv big] by (simp add: smp_free_def)
  ultimately show ?thesis using inv by (auto simp: mp_free_def mp_inv_def mp_set_defs)
qed

interpretation basic: sized_allocator "mp_alloc c" "mp_free c" mp_avail "mp_blocks c" "mp_inv c"
  "mp_block_size c" for c
proof (rule sized_allocator.intro)
  fix n
  show "block_allocator (mp_alloc c n) (mp_free c) mp_avail (mp_blocks c) (mp_inv c)"
  proof
    fix m m' b
    assume inv: "mp_inv c m"
    show "mp_avail m \<subseteq> mp_blocks c m" using mp_stack_blocks [OF inv] by (auto simp: mp_avail_def mp_blocks_def)
    show "m' = m" if "mp_alloc c n m = (None, m')"
      using that by (cases rule: mp_alloc_cases)
        (auto simp: mp_alloc_big_def split: if_splits prod.splits dest: smp_alloc_none)
    show "b \<in> mp_avail m \<and> mp_avail m' = mp_avail m - {b} \<and> mp_blocks c m' = mp_blocks c m \<and> mp_inv c m'"
      if "mp_alloc c n m = (Some b, m')"
      using that by (cases rule: mp_alloc_cases)
        (auto simp: mp_blocks_def mp_alloc_smallD [OF inv] dest: mp_alloc_bigD [OF inv])
    show "\<exists>m'. mp_free c b m = Inr m' \<and> mp_avail m' = insert b (mp_avail m) \<and>
        mp_blocks c m' = mp_blocks c m \<and> mp_inv c m'"
      if "b \<in> mp_blocks c m" and "b \<notin> mp_avail m" using inv that by (rule mp_free_block)
  qed
next
  fix m n b m'
  assume inv: "mp_inv c m" and a: "mp_alloc c n m = (Some b, m')"
  from a show "n \<le> mp_block_size c m b"
  proof (cases rule: mp_alloc_cases)
    case (small b' ms)
    then show ?thesis using mp_alloc_smallD(1) [OF inv] by (simp add: mp_block_size_def)
  next
    case big
    then show ?thesis
      using mp_alloc_bigD(1,2) [OF inv big] small_not_big [OF inv] by (auto simp: mp_block_size_def)
  qed
qed

subsection \<open>Properties of the memory pool\<close>

definition BasicMempool :: "pool_config \<Rightarrow> nat \<Rightarrow> nat \<Rightarrow> basic_mempool" where
  "BasicMempool c base_big base_small =
     \<lparr>mempool_big = SingleMempool (size_big c) (count_big c) base_big,
      mempool_small = SingleMempool (size_small c) (count_small c) base_small\<rparr>"

lemma BasicMempool_inv:
  assumes "0 < b1" and "0 < b2" and "c = BasicMempool_config b1 c1 b2 c2"
    and "base_big + count_big c * size_big c \<le> base_small"
  shows "mp_inv c (BasicMempool c base_big base_small)"
  using assms
  by (auto simp: mp_inv_def BasicMempool_def BasicMempool_config_def SIZE_BIG_def SIZE_SMALL_def
      SingleMempool_inv) (simp_all add: SingleMempool_def)

lemma BasicMempool_owns:
  assumes "mp_inv c (BasicMempool c base_big base_small)"
  shows "basic.owns c (BasicMempool c base_big base_small) []"
  using assms
  by (simp add: basic.owns_def mp_set_defs BasicMempool_def SingleMempool_stack)
     (simp add: SingleMempool_def)

lemma mp_blocks_BasicMempool:
  "mp_blocks c (BasicMempool c g s) =
     smp_blocks (size_big c) (count_big c) g \<union> smp_blocks (size_small c) (count_small c) s"
  by (simp add: mp_set_defs BasicMempool_def SingleMempool_def)

lemma mp_alloc_max_free:
  assumes "mp_inv c m"
  shows "(fst (mp_alloc c n m) \<noteq> None) = (0 < getMaxFreeBlockSize c m \<and> n \<le> getMaxFreeBlockSize c m)"
  using assms
  by (auto simp: mp_alloc_def mp_alloc_big_def smp_alloc_def getMaxFreeBlockSize_def smp_hasSpace_def
      mp_inv_def smp_inv_def)

lemma smp_blocks_disjoint:
  assumes "a \<in> smp_blocks s n base" and "b \<in> smp_blocks s n base" and "a < b"
  shows "a + s \<le> b"
proof -
  obtain i j where ij: "a = base + i * s" "b = base + j * s" using assms by (auto simp: smp_blocks_def)
  with assms(3) have "i < j" by (metis add_le_cancel_left leD leI mult_le_mono1)
  then have "Suc i * s \<le> j * s" by (intro mult_le_mono1) simp
  with ij show ?thesis by simp
qed

lemma mp_blocks_ordered:
  assumes inv: "mp_inv c m" and ab: "a \<in> mp_blocks c m" "b \<in> mp_blocks c m" "a < b"
  shows "a + mp_block_size c m a \<le> b"
proof (cases "a \<in> mp_small_blocks c m")
  case True
  then have "smp_pool (mempool_small m) \<le> a"
    using smp_blocksE(1) inv by (auto simp: mp_small_blocks_def mp_inv_def smp_inv_def)
  then have "b \<notin> mp_big_blocks c m" using big_below_small [OF inv, of b] ab by auto
  then show ?thesis
    using True ab smp_blocks_disjoint by (auto simp: mp_blocks_def mp_small_blocks_def mp_block_size_def)
next
  case False
  then have a: "a \<in> mp_big_blocks c m" using ab by (simp add: mp_blocks_def)
  have sz: "0 < size_big c" "0 < size_small c" using inv by (simp_all add: mp_inv_def smp_inv_def)
  have le: "smp_pool (mempool_big m) + count_big c * size_big c \<le> smp_pool (mempool_small m)"
    using inv by (simp add: mp_inv_def)
  show ?thesis
  proof (cases "b \<in> mp_big_blocks c m")
    case True
    then show ?thesis
      using False a ab smp_blocks_disjoint by (auto simp: mp_big_blocks_def mp_block_size_def)
  next
    case nb: False
    then have "b \<in> mp_small_blocks c m" using ab by (simp add: mp_blocks_def)
    then have "smp_pool (mempool_small m) \<le> b" using smp_blocksE(1) sz by (auto simp: mp_small_blocks_def)
    moreover have "a + size_big c \<le> smp_pool (mempool_big m) + count_big c * size_big c"
      using smp_blocksE(2) a sz by (auto simp: mp_big_blocks_def)
    ultimately show ?thesis using False le by (simp add: mp_block_size_def)
  qed
qed

lemma smp_free_interior:
  assumes inv: "smp_inv s n m" and b: "b \<in> smp_blocks s n (smp_pool m)" and off: "off < s"
  shows "smp_free s n (b + off) m = smp_free s n b m"
proof -
  have s: "0 < s" using off by simp
  have 1: "smp_pool m \<le> b" "b + s \<le> smp_pool m + n * s" "(b - smp_pool m) mod s = 0"
    using smp_blocksE [OF b s] by simp_all
  have "(b + off - smp_pool m) mod s = ((b - smp_pool m) + off) mod s" using 1 by simp
  also have "\<dots> = ((b - smp_pool m) mod s + off) mod s" by (simp only: mod_add_left_eq)
  also have "\<dots> = off" using 1 off by simp
  finally show ?thesis using 1 off by (simp add: smp_free_def Let_def)
qed

lemma mp_free_interior:
  assumes inv: "mp_inv c m" and b: "b \<in> mp_blocks c m" and off: "off < mp_block_size c m b"
  shows "mp_free c (b + off) m = mp_free c b m"
proof (cases "b \<in> mp_small_blocks c m")
  case True
  then have "smp_free (size_small c) (count_small c) (b + off) (mempool_small m) =
      smp_free (size_small c) (count_small c) b (mempool_small m)"
    using inv off by (intro smp_free_interior) (auto simp: mp_inv_def mp_block_size_def mp_small_blocks_def)
  moreover have "smp_free (size_small c) (count_small c) b (mempool_small m) \<noteq> Inr (False, s)" for s
    using True smp_blocksE [of b] inv
    by (fastforce simp: smp_free_def Let_def mp_small_blocks_def mp_inv_def smp_inv_def split: if_splits)
  ultimately show ?thesis by (auto simp: mp_free_def split: sum.splits bool.splits)
next
  case False
  then have big: "b \<in> mp_big_blocks c m" and o: "off < size_big c"
    using b off by (simp_all add: mp_blocks_def mp_block_size_def)
  have "b + size_big c \<le> smp_pool (mempool_small m)"
    using smp_blocksE(2) [of b "size_big c" "count_big c" "smp_pool (mempool_big m)"] big inv o
    by (simp add: mp_inv_def mp_big_blocks_def)
  then have "smp_free (size_small c) (count_small c) (b + i) (mempool_small m) = Inr (False, mempool_small m)"
    if "i < size_big c" for i using that by (simp add: smp_free_def)
  from this [of 0] this [of off] show ?thesis
    using smp_free_interior [of "size_big c" "count_big c" "mempool_big m" b off] big inv o
    by (simp add: mp_free_def mp_inv_def mp_big_blocks_def)
qed

text \<open>C14: Memory safety of every client of \<open>BasicMempool\<close>: after any sequence of allocations and of
  releases of blocks the client owns, no release ran into a fault, the blocks the client holds are
  distinct, lie in the pool, are not on a free stack and together with the free stacks make up the
  whole pool, and the byte ranges of two blocks that the client holds never overlap.\<close>

theorem mempool_client_safe:
  assumes sizes: "0 < b1" "0 < b2" and c: "c = BasicMempool_config b1 c1 b2 c2"
    and layout: "base_big + count_big c * size_big c \<le> base_small"
  shows "\<exists>m live. run_pool (mp_alloc c) (mp_free c) ops (BasicMempool c base_big base_small, []) = Inr (m, live) \<and>
      distinct live \<and> set live \<inter> mp_avail m = {} \<and> set live \<union> mp_avail m = mp_blocks c m \<and>
      (\<forall>a b. a \<in> set live \<longrightarrow> b \<in> set live \<longrightarrow> a < b \<longrightarrow> a + mp_block_size c m a \<le> b)"
proof -
  have "basic.owns c (BasicMempool c base_big base_small) []"
    using BasicMempool_owns BasicMempool_inv [OF sizes c layout] by blast
  from basic.run_pool_owns [OF this, of ops] obtain m live where
    r: "run_pool (mp_alloc c) (mp_free c) ops (BasicMempool c base_big base_small, []) = Inr (m, live)"
    and o: "basic.owns c m live" by blast
  then have "mp_avail m \<subseteq> mp_blocks c m" using basic.avail_blocks by (auto simp: basic.owns_def)
  with o have "distinct live" "set live \<inter> mp_avail m = {}" "set live \<union> mp_avail m = mp_blocks c m"
    "mp_inv c m" "set live \<subseteq> mp_blocks c m" by (auto simp: basic.owns_def)
  with r mp_blocks_ordered [of c m] show ?thesis by blast
qed

theorem mempool_client_safe_witness:
  "\<exists>m live. run_pool (mp_alloc (BasicMempool_config 16 1 4 1)) (mp_free (BasicMempool_config 16 1 4 1))
      [Alloc 3, Alloc 2, Free 0, Alloc 10] (BasicMempool (BasicMempool_config 16 1 4 1) 0 100, []) = Inr (m, live) \<and>
      distinct live"
  using mempool_client_safe [of 16 4 "BasicMempool_config 16 1 4 1" 1 1 0 100 "[Alloc 3, Alloc 2, Free 0, Alloc 10]"]
  by (auto simp: BasicMempool_config_def COUNT_BIG_def SIZE_BIG_def)

text \<open>\<open>alloc\<close> of \<open>BasicMempool\<close> is complete and sized: it returns a block exactly for the sizes that
  \<open>getMaxFreeBlockSize\<close> admits, the block was free, has at least the requested size, and is the only
  one taken; giving it back at any address inside it restores the set of free blocks.\<close>

theorem mempool_alloc_exact:
  assumes inv: "mp_inv c m"
  shows "(fst (mp_alloc c n m) \<noteq> None \<longleftrightarrow> 0 < getMaxFreeBlockSize c m \<and> n \<le> getMaxFreeBlockSize c m) \<and>
    (\<forall>b m'. mp_alloc c n m = (Some b, m') \<longrightarrow>
       b \<in> mp_avail m \<and> n \<le> mp_block_size c m b \<and> mp_avail m' = mp_avail m - {b} \<and>
       (\<forall>off. off < mp_block_size c m' b \<longrightarrow>
          (\<exists>m''. mp_free c (b + off) m' = Inr m'' \<and> mp_avail m'' = mp_avail m)))"
proof (intro conjI allI impI)
  show "fst (mp_alloc c n m) \<noteq> None \<longleftrightarrow> 0 < getMaxFreeBlockSize c m \<and> n \<le> getMaxFreeBlockSize c m"
    using inv by (rule mp_alloc_max_free)
  fix b m'
  assume a: "mp_alloc c n m = (Some b, m')"
  show "b \<in> mp_avail m" "mp_avail m' = mp_avail m - {b}" using basic.alloc_some [OF inv a] by simp_all
  show "n \<le> mp_block_size c m b" by (rule basic.fits [OF inv a])
  fix off
  assume off: "off < mp_block_size c m' b"
  have "b \<in> mp_blocks c m'" "mp_inv c m'"
    using basic.alloc_some [OF inv a] basic.avail_blocks [OF inv] by auto
  with off show "\<exists>m''. mp_free c (b + off) m' = Inr m'' \<and> mp_avail m'' = mp_avail m"
    using basic.alloc_release [OF inv a] by (auto simp: mp_free_interior)
qed

theorem mempool_alloc_exact_witness:
  "fst (mp_alloc (BasicMempool_config 16 1 4 1) 10 (BasicMempool (BasicMempool_config 16 1 4 1) 0 100)) \<noteq> None"
proof -
  have "mp_inv (BasicMempool_config 16 1 4 1) (BasicMempool (BasicMempool_config 16 1 4 1) 0 100)"
    by (rule BasicMempool_inv [of 16 4]) (simp_all add: BasicMempool_config_def COUNT_BIG_def SIZE_BIG_def)
  from mempool_alloc_exact [OF this, of 10] show ?thesis
    by (simp add: getMaxFreeBlockSize_def BasicMempool_def SingleMempool_def smp_hasSpace_def
        BasicMempool_config_def COUNT_BIG_def SIZE_BIG_def)
qed

end
