(* ===== verification/Buffers.thy ===== *)
theory Buffers
  imports Mem_Pool
begin

text \<open>
  The packet buffers. \<^verbatim>\<open>SendBuffer.h\<close>: a block of a memory pool whose first \<open>sizeof(SendBuffer)\<close>
  bytes are the object and whose rest takes the frame; \<^verbatim>\<open>Socket_Send_Slice.ah\<close>: requesting, sending
  and freeing it; \<^verbatim>\<open>ReceiveBuffer.h\<close>: the copy of a received payload; \<^verbatim>\<open>SharedMemory.cpp\<close>: the list
  of all buffers of the management sockets. \<open>uint_fast16_t\<close> and \<open>unsigned\<close> are 32 bit wide.
\<close>

subsection \<open>SendBuffer\<close>

text \<open>\<open>sb_addr\<close> is \<open>this\<close>, \<open>sb_data\<close> the pointer \<open>data\<close>, and \<open>sb_mem\<close> the bytes from \<open>getDataStart()\<close>
  on that belong to the buffer.\<close>

record send_buffer =
  sb_addr :: nat
  m_memsize :: u32
  m_state :: u8
  m_interface :: "nat option"
  sb_data :: nat
  sb_mem :: "u8 list"

definition InvalidState :: u8 where "InvalidState = 0x00"
definition WritingState :: u8 where "WritingState = 0x01"
definition AboutToBeTransmittedState :: u8 where "AboutToBeTransmittedState = 0x02"
definition TransmittedState :: u8 where "TransmittedState = 0x04"
definition ResolveLinkLayerStateOption :: u8 where "ResolveLinkLayerStateOption = 0x10"

lemmas state_defs = InvalidState_def WritingState_def AboutToBeTransmittedState_def TransmittedState_def
  ResolveLinkLayerStateOption_def

text \<open>\<open>szsb\<close> is \<open>sizeof(SendBuffer)\<close>, which aspects enlarge by adding members.\<close>

definition getDataStart :: "nat \<Rightarrow> send_buffer \<Rightarrow> nat" where
  "getDataStart szsb b = sb_addr b + szsb"

definition initStartPointer :: "nat \<Rightarrow> send_buffer \<Rightarrow> send_buffer" where
  "initStartPointer szsb b = b\<lparr>sb_data := getDataStart szsb b\<rparr>"

text \<open>\<open>raw\<close> is what was in the block before; the request is computed in \<open>unsigned\<close>.\<close>

definition createInstance ::
  "nat \<Rightarrow> pool_config \<Rightarrow> (nat \<Rightarrow> u8) \<Rightarrow> u32 \<Rightarrow> nat option \<Rightarrow> basic_mempool \<Rightarrow> send_buffer option \<times> basic_mempool"
where
  "createInstance szsb c raw requestedSize ifc m =
     (case mp_alloc c (unat (requestedSize + of_nat szsb)) m of
        (None, m') \<Rightarrow> (None, m')
      | (Some a, m') \<Rightarrow>
          (Some (initStartPointer szsb
             \<lparr>sb_addr = a, m_memsize = requestedSize, m_state = WritingState, m_interface = ifc, sb_data = 0,
              sb_mem = map (\<lambda>i. raw (a + szsb + i)) [0..<unat requestedSize]\<rparr>), m'))"

definition writtenToDataPointer :: "u32 \<Rightarrow> send_buffer \<Rightarrow> send_buffer" where
  "writtenToDataPointer len b = b\<lparr>sb_data := sb_data b + unat len\<rparr>"

definition getRemainingSize :: "nat \<Rightarrow> send_buffer \<Rightarrow> u32" where
  "getRemainingSize szsb b = m_memsize b - (of_nat (sb_data b) - of_nat (getDataStart szsb b))"

definition getSize :: "send_buffer \<Rightarrow> u32" where
  "getSize b = m_memsize b"

text \<open>\<open>memcpy\<close> reads \<open>len\<close> bytes of its source and writes them from offset \<open>off\<close> on.\<close>

definition memcpy :: "nat \<Rightarrow> u8 list \<Rightarrow> nat \<Rightarrow> u8 list \<Rightarrow> u8 list outcome" where
  "memcpy off src len mem =
     (if len \<le> length src \<and> off + len \<le> length mem
      then Inr (take off mem @ take len src @ drop (off + len) mem)
      else Inl OutOfBounds)"

definition sb_write :: "nat \<Rightarrow> u8 list \<Rightarrow> u32 \<Rightarrow> send_buffer \<Rightarrow> send_buffer outcome" where
  "sb_write szsb newdata len b =
     (let availableLength = getRemainingSize szsb b;
          len = (if availableLength < len then availableLength else len)
      in case memcpy (sb_data b - getDataStart szsb b) newdata (unat len) (sb_mem b) of
           Inl e \<Rightarrow> Inl e
         | Inr mem \<Rightarrow> Inr (b\<lparr>sb_mem := mem, sb_data := sb_data b + unat len\<rparr>))"

definition setState :: "u8 \<Rightarrow> send_buffer \<Rightarrow> send_buffer" where
  "setState s b = b\<lparr>m_state := s\<rparr>"

definition getStateWithoutOptions :: "send_buffer \<Rightarrow> u8" where
  "getStateWithoutOptions b = m_state b AND 0x0f"

definition recycle :: "send_buffer \<Rightarrow> send_buffer" where
  "recycle b = b\<lparr>m_state := WritingState\<rparr>"

text \<open>\<open>sent\<close> is \<open>Interface::hasBeenSent\<close> of the network driver.\<close>

definition hasBeenSend :: "nat \<Rightarrow> (nat \<Rightarrow> bool) \<Rightarrow> send_buffer \<Rightarrow> bool" where
  "hasBeenSend szsb sent b = sent (getDataStart szsb b)"

subsection \<open>Socket_Send_Slice\<close>

text \<open>\<open>estimate\<close> and \<open>prepare\<close> stand for \<open>estimateSendBufferMinSize\<close> and \<open>prepareSendBuffer\<close>, which the
  aspects of the layers fill in.\<close>

definition requestSendBuffer ::
  "nat \<Rightarrow> pool_config \<Rightarrow> (nat \<Rightarrow> u8) \<Rightarrow> u32 \<Rightarrow> (send_buffer \<Rightarrow> send_buffer) \<Rightarrow> nat option \<Rightarrow> u32 \<Rightarrow> basic_mempool \<Rightarrow>
   send_buffer option \<times> basic_mempool"
where
  "requestSendBuffer szsb c raw estimate prepare ifc requestSize m =
     (case createInstance szsb c raw (estimate + requestSize) ifc m of
        (None, m') \<Rightarrow> (None, m')
      | (Some b, m') \<Rightarrow>
          let b = prepare b in
          if m_state b \<noteq> WritingState then (None, m') else (Some b, m'))"

text \<open>\<open>send\<close> hands \<open>getSize()\<close> bytes from \<open>getDataStart()\<close> to the interface: the frame it transmits, if any.\<close>

definition send :: "send_buffer \<Rightarrow> (bool \<times> send_buffer \<times> u8 list option) outcome" where
  "send b =
     (if m_state b \<noteq> WritingState then Inr (False, b, None)
      else case m_interface b of
             None \<Rightarrow> Inl NullDeref
           | Some i \<Rightarrow>
               if unat (getSize b) \<le> length (sb_mem b)
               then Inr (True, setState TransmittedState b, Some (take (unat (getSize b)) (sb_mem b)))
               else Inl OutOfBounds)"

text \<open>\<open>free\<close> spins until the driver reports the frame as sent: the driver is polled at most as often as the
  list \<open>polls\<close> says, and \<open>None\<close> means that the loop is still running.\<close>

fun sb_free :: "pool_config \<Rightarrow> bool list \<Rightarrow> send_buffer \<Rightarrow> basic_mempool \<Rightarrow> basic_mempool outcome option" where
  "sb_free c [] b m = None"
| "sb_free c (sent # polls) b m = (if \<not> sent then sb_free c polls b m else Some (mp_free c (sb_addr b) m))"

definition getMaxPayloadLength :: "pool_config \<Rightarrow> bool \<Rightarrow> u32 \<Rightarrow> u32 \<Rightarrow> basic_mempool \<Rightarrow> u32" where
  "getMaxPayloadLength c hasInterface estimate mtu m =
     (let headersize = (if hasInterface then estimate else 0);
          memsize = of_nat (getMaxFreeBlockSize c m);
          mtusize = (if hasInterface then mtu else 0)
      in if memsize < mtusize then memsize - headersize else mtusize - headersize)"

subsection \<open>ReceiveBuffer\<close>

record receive_buffer =
  rbuf_addr :: nat
  m_receivedSize :: u16
  m_dataStart :: "u8 list"

definition createReceiveBuffer ::
  "nat \<Rightarrow> pool_config \<Rightarrow> u8 list \<Rightarrow> u16 \<Rightarrow> basic_mempool \<Rightarrow> (receive_buffer option \<times> basic_mempool) outcome"
where
  "createReceiveBuffer szrb c payload payloadsize m =
     (case mp_alloc c (unat payloadsize + szrb) m of
        (None, m') \<Rightarrow> Inr (None, m')
      | (Some a, m') \<Rightarrow>
          if unat payloadsize \<le> length payload
          then Inr (Some \<lparr>rbuf_addr = a, m_receivedSize = payloadsize, m_dataStart = take (unat payloadsize) payload\<rparr>, m')
          else Inl OutOfBounds)"

definition rbuf_free :: "pool_config \<Rightarrow> receive_buffer \<Rightarrow> basic_mempool \<Rightarrow> basic_mempool outcome" where
  "rbuf_free c b m = mp_free c (rbuf_addr b) m"

definition rbuf_getData :: "receive_buffer \<Rightarrow> u8 list" where
  "rbuf_getData b = m_dataStart b"

definition rbuf_getSize :: "receive_buffer \<Rightarrow> u16" where
  "rbuf_getSize b = m_receivedSize b"

subsection \<open>What a send buffer holds\<close>

definition sb_ok :: "nat \<Rightarrow> send_buffer \<Rightarrow> bool" where
  "sb_ok szsb b \<longleftrightarrow> length (sb_mem b) = unat (m_memsize b) \<and> getDataStart szsb b \<le> sb_data b \<and>
     sb_data b - getDataStart szsb b \<le> length (sb_mem b)"

definition sb_written :: "nat \<Rightarrow> send_buffer \<Rightarrow> u8 list" where
  "sb_written szsb b = take (sb_data b - getDataStart szsb b) (sb_mem b)"

fun sb_write_all :: "nat \<Rightarrow> u8 list list \<Rightarrow> send_buffer \<Rightarrow> send_buffer outcome" where
  "sb_write_all szsb [] b = Inr b"
| "sb_write_all szsb (d # ds) b =
     (case sb_write szsb d (of_nat (length d)) b of Inl e \<Rightarrow> Inl e | Inr b' \<Rightarrow> sb_write_all szsb ds b')"

lemma unat_minus_of_nat_u32: "n \<le> unat x \<Longrightarrow> unat (x - of_nat n :: u32) = unat x - n"
proof -
  assume n: "n \<le> unat x"
  then have "x - of_nat n = of_nat (unat x - n)" by (simp add: of_nat_diff)
  then show ?thesis using unat_u32_less [of x] by (simp add: unat_of_nat_u32 del: unat_u32_less)
qed

lemma sb_okE:
  assumes "sb_ok szsb b"
  obtains off where "sb_data b = getDataStart szsb b + off" and "off \<le> unat (m_memsize b)"
    and "length (sb_mem b) = unat (m_memsize b)"
  using that [of "sb_data b - getDataStart szsb b"] assms by (auto simp: sb_ok_def)

lemma getRemainingSize_value:
  assumes "sb_data b = getDataStart szsb b + off" and "off \<le> unat (m_memsize b)"
  shows "unat (getRemainingSize szsb b) = unat (m_memsize b) - off"
  using assms by (simp add: getRemainingSize_def unat_minus_of_nat_u32)

lemma sb_write_step:
  assumes ok: "sb_ok szsb b" and len: "length d < 2 ^ 32"
  shows "\<exists>b'. sb_write szsb d (of_nat (length d)) b = Inr b' \<and> sb_ok szsb b' \<and>
           sb_written szsb b' = take (unat (m_memsize b)) (sb_written szsb b @ d) \<and>
           m_memsize b' = m_memsize b \<and> m_state b' = m_state b \<and> m_interface b' = m_interface b"
proof -
  obtain off where off: "sb_data b = getDataStart szsb b + off" "off \<le> unat (m_memsize b)"
      "length (sb_mem b) = unat (m_memsize b)" using ok by (rule sb_okE)
  define n where "n = min (unat (m_memsize b) - off) (length d)"
  have ul: "unat (of_nat (length d) :: u32) = length d" using len by (simp add: unat_of_nat_u32)
  have n: "unat (if getRemainingSize szsb b < of_nat (length d) then getRemainingSize szsb b else of_nat (length d)) = n"
    using getRemainingSize_value [OF off(1,2)] by (auto simp: word_less_nat_alt ul n_def)
  have fits: "off + n \<le> unat (m_memsize b)" "n \<le> length d" using off by (auto simp: n_def)
  let ?mem = "take off (sb_mem b) @ take n d @ drop (off + n) (sb_mem b)"
  let ?b = "b\<lparr>sb_mem := ?mem, sb_data := sb_data b + n\<rparr>"
  have w: "sb_write szsb d (of_nat (length d)) b = Inr ?b"
    using off fits by (simp add: sb_write_def Let_def n memcpy_def)
  have ds: "getDataStart szsb ?b = getDataStart szsb b" by (simp add: getDataStart_def)
  have "sb_ok szsb ?b" using off fits ds by (simp add: sb_ok_def)
  moreover have "sb_written szsb ?b = take (unat (m_memsize b)) (sb_written szsb b @ d)"
    using off fits ds by (auto simp: sb_written_def n_def min_def)
  ultimately show ?thesis using w by simp
qed

lemma sb_write_all_written:
  assumes "sb_ok szsb b" and "\<forall>d \<in> set ds. length d < 2 ^ 32"
  shows "\<exists>b'. sb_write_all szsb ds b = Inr b' \<and> sb_ok szsb b' \<and>
           sb_written szsb b' = take (unat (m_memsize b)) (sb_written szsb b @ concat ds) \<and>
           m_memsize b' = m_memsize b \<and> m_state b' = m_state b \<and> m_interface b' = m_interface b"
  using assms
proof (induction ds arbitrary: b)
  case Nil
  then show ?case by (auto simp: sb_written_def sb_ok_def)
next
  case (Cons d ds)
  obtain b1 where b1: "sb_write szsb d (of_nat (length d)) b = Inr b1" "sb_ok szsb b1"
      "sb_written szsb b1 = take (unat (m_memsize b)) (sb_written szsb b @ d)"
      "m_memsize b1 = m_memsize b" "m_state b1 = m_state b" "m_interface b1 = m_interface b"
    using sb_write_step [OF Cons.prems(1), of d] Cons.prems(2) by auto
  from Cons.IH [OF b1(2)] Cons.prems(2) b1 show ?case by (auto simp: min_def)
qed

lemma createInstance_ok:
  assumes "createInstance szsb c raw req ifc m = (Some b, m')"
  shows "sb_ok szsb b" and "sb_written szsb b = []" and "m_memsize b = req" and "m_state b = WritingState"
    and "m_interface b = ifc" and "mp_alloc c (unat (req + of_nat szsb)) m = (Some (sb_addr b), m')"
  using assms
  by (auto simp: createInstance_def sb_ok_def sb_written_def initStartPointer_def getDataStart_def
      split: prod.splits option.splits)

text \<open>What a socket writes is what it transmits. After any sequence of \<open>write\<close> calls on a fresh
  \<open>SendBuffer\<close>, no call has written outside the buffer, \<open>send\<close> succeeds and transmits a frame of exactly
  the requested size that starts with the written bytes in order, cut off at the requested size; a
  second \<open>send\<close> of the buffer is refused and transmits nothing until \<open>recycle\<close> is called.\<close>

theorem send_buffer_transmits_writes:
  assumes create: "createInstance szsb c raw req (Some i) m = (Some b, m')"
    and chunks: "\<forall>d \<in> set ds. length d < 2 ^ 32"
  shows "\<exists>b1 b2 frame. sb_write_all szsb ds b = Inr b1 \<and> send b1 = Inr (True, b2, Some frame) \<and>
      length frame = unat req \<and> take (length (concat ds)) frame = take (unat req) (concat ds) \<and>
      send b2 = Inr (False, b2, None) \<and> send (recycle b2) = Inr (True, b2, Some frame)"
proof -
  note cr = createInstance_ok [OF create]
  obtain b1 where w: "sb_write_all szsb ds b = Inr b1" and ok: "sb_ok szsb b1"
    and wr: "sb_written szsb b1 = take (unat req) (concat ds)"
    and eq: "m_memsize b1 = req" "m_state b1 = WritingState" "m_interface b1 = Some i"
    using sb_write_all_written [OF cr(1) chunks] cr by auto
  have len: "length (sb_mem b1) = unat req" using ok eq by (simp add: sb_ok_def)
  have "take (length (concat ds)) (sb_mem b1) = take (unat req) (concat ds)"
  proof -
    obtain off where off: "sb_data b1 = getDataStart szsb b1 + off" "off \<le> unat req"
      using sb_okE [OF ok] eq by metis
    then have "off = min (unat req) (length (concat ds))"
      using arg_cong [OF wr, of length] len by (simp add: sb_written_def)
    with wr off len show ?thesis by (auto simp: sb_written_def min_def split: if_splits)
  qed
  then show ?thesis using w eq len
    by (simp add: send_def setState_def recycle_def getSize_def state_defs)
qed

theorem send_buffer_transmits_writes_witness:
  "\<exists>b1 b2 frame. sb_write_all 8 [[1, 2], [3, 4]]
      (the (fst (createInstance 8 (BasicMempool_config 16 1 4 1) (\<lambda>_. 0) 3 (Some 0) (BasicMempool (BasicMempool_config 16 1 4 1) 0 100)))) = Inr b1 \<and>
     send b1 = Inr (True, b2, Some frame) \<and> take 4 frame = [1, 2, 3]"
proof -
  let ?c = "BasicMempool_config 16 1 4 1"
  let ?r = "createInstance 8 ?c (\<lambda>_. 0) 3 (Some 0) (BasicMempool ?c 0 100)"
  have h: "?r = (Some (the (fst ?r)), snd ?r)"
    by (simp add: createInstance_def mp_alloc_def mp_alloc_big_def BasicMempool_def SingleMempool_def smp_alloc_def
        BasicMempool_config_def COUNT_BIG_def SIZE_BIG_def SIZE_SMALL_def COUNT_SMALL_def)
  show ?thesis using send_buffer_transmits_writes [OF h, of "[[1, 2], [3, 4]]"] by auto
qed

text \<open>\<open>getMaxPayloadLength\<close> promises too much when memory is the limit: it leaves no room for the
  \<open>SendBuffer\<close> object itself, so a request for exactly the length it returned is refused.\<close>

theorem max_payload_never_fits:
  assumes inv: "mp_inv c m" and sz: "0 < szsb" "getMaxFreeBlockSize c m + szsb < 2 ^ 32"
    and limit: "of_nat (getMaxFreeBlockSize c m) < mtu" and hdr: "unat estimate \<le> getMaxFreeBlockSize c m"
  shows "fst (requestSendBuffer szsb c raw estimate prepare ifc (getMaxPayloadLength c True estimate mtu m) m) = None"
proof -
  let ?M = "getMaxFreeBlockSize c m"
  have req: "estimate + getMaxPayloadLength c True estimate mtu m = of_nat ?M"
    using limit by (simp add: getMaxPayloadLength_def Let_def)
  have "unat (of_nat ?M + of_nat szsb :: u32) = ?M + szsb"
    using sz by (simp add: unat_of_nat_u32 flip: of_nat_add)
  then have "fst (mp_alloc c (unat (of_nat ?M + of_nat szsb :: u32)) m) = None"
    using mp_alloc_max_free [OF inv, of "?M + szsb"] sz by auto
  then show ?thesis by (auto simp: requestSendBuffer_def req createInstance_def split: prod.splits)
qed

theorem max_payload_never_fits_witness:
  "fst (requestSendBuffer 8 (BasicMempool_config 16 1 4 1) (\<lambda>_. 0) 2 id (Some 0)
     (getMaxPayloadLength (BasicMempool_config 16 1 4 1) True 2 1500 (BasicMempool (BasicMempool_config 16 1 4 1) 0 100))
     (BasicMempool (BasicMempool_config 16 1 4 1) 0 100)) = None"
proof -
  let ?c = "BasicMempool_config 16 1 4 1"
  have inv: "mp_inv ?c (BasicMempool ?c 0 100)"
    by (rule BasicMempool_inv [of 16 4]) (simp_all add: BasicMempool_config_def COUNT_BIG_def SIZE_BIG_def)
  have "getMaxFreeBlockSize ?c (BasicMempool ?c 0 100) = 16"
    by (simp add: getMaxFreeBlockSize_def BasicMempool_def SingleMempool_def smp_hasSpace_def
        BasicMempool_config_def COUNT_BIG_def SIZE_BIG_def)
  then show ?thesis using max_payload_never_fits [OF inv, of 8 1500 2] by simp
qed

end
