(* ===== verification/TCP_History.thy ===== *)
theory TCP_History
  imports TCP_Segment Buffers
begin

text \<open>
  The retransmission history of a TCP socket: \<^verbatim>\<open>tcp/tcp_history/TCP_Record.h\<close>, the one-slot
  \<^verbatim>\<open>TCP_History.cpp\<close> and the doubly linked list that \<^verbatim>\<open>TCP_History_SlidingWindow.ah\<close> replaces it with.
  The pointers of the list are indices into the array \<open>records\<close>. The interface \<open>segment_history\<close> states what
  \<open>TCP_Socket\<close> relies on; both versions are interpretations of it, so the socket can be modelled on a
  list of records, newest first.
\<close>

subsection \<open>TCP_Record\<close>

text \<open>The send buffer of a record as TCP sees it: its address, its state and the segment it carries.\<close>

record tcp_buffer =
  tb_addr :: nat
  tb_state :: u8
  tb_segment :: tcp_segment

record tcp_record =
  rec_timeout :: u64
  rec_buffer :: tcp_buffer

text \<open>\<open>now\<close> is \<open>Clock::now()\<close>, \<open>ms_to_ticks\<close> and \<open>ticks_to_ms\<close> are the clock's conversions.\<close>

definition setTimeout :: "u64 \<Rightarrow> (u32 \<Rightarrow> u64) \<Rightarrow> u32 \<Rightarrow> tcp_record \<Rightarrow> tcp_record" where
  "setTimeout now ms_to_ticks msec r = r\<lparr>rec_timeout := (if msec \<noteq> 0 then now + ms_to_ticks msec else 0)\<rparr>"

definition isTimedOut :: "u64 \<Rightarrow> tcp_record \<Rightarrow> bool" where
  "isTimedOut now r = (if rec_timeout r \<noteq> 0 then now > rec_timeout r else False)"

definition getRemainingTime :: "u64 \<Rightarrow> (u64 \<Rightarrow> u32) \<Rightarrow> tcp_record \<Rightarrow> u32" where
  "getRemainingTime now ticks_to_ms r = (if now > rec_timeout r then 0 else ticks_to_ms (rec_timeout r - now))"

definition new_record :: "u64 \<Rightarrow> (u32 \<Rightarrow> u64) \<Rightarrow> tcp_buffer \<Rightarrow> u32 \<Rightarrow> tcp_record" where
  "new_record now ms_to_ticks b msec = setTimeout now ms_to_ticks msec \<lparr>rec_timeout = 0, rec_buffer = b\<rparr>"

subsection \<open>One slot\<close>

text \<open>\<open>None\<close> is the null pointer in \<open>head\<close>, \<open>Some r\<close> a head that points to \<open>records[0]\<close>.\<close>

definition slot_add :: "'r \<Rightarrow> 'r option \<Rightarrow> 'r option outcome" where
  "slot_add r h = Inr (Some r)"

definition slot_remove :: "unit \<Rightarrow> 'r option \<Rightarrow> 'r option outcome" where
  "slot_remove p h = Inr None"

definition slot_isFull :: "'r option \<Rightarrow> bool" where
  "slot_isFull h = (h \<noteq> None)"

definition slot_get :: "'r option \<Rightarrow> unit option" where
  "slot_get h = map_option (\<lambda>_. ()) h"

definition slot_getNextTimeout :: "u64 \<Rightarrow> (u64 \<Rightarrow> u32) \<Rightarrow> tcp_record option \<Rightarrow> u32" where
  "slot_getNextTimeout now ticks_to_ms h = (case h of None \<Rightarrow> 0 | Some r \<Rightarrow> getRemainingTime now ticks_to_ms r)"

subsection \<open>The sliding window list\<close>

record 'r sw_history =
  h_data :: "nat \<Rightarrow> 'r"
  h_next :: "nat \<Rightarrow> nat option"
  h_prev :: "nat \<Rightarrow> nat option"
  h_head :: "nat option"
  h_freelist :: "nat option"

definition sw_setNext :: "nat \<Rightarrow> nat option \<Rightarrow> 'r sw_history \<Rightarrow> 'r sw_history" where
  "sw_setNext i p h = h\<lparr>h_next := (h_next h)(i := p)\<rparr>"

definition sw_setPrev :: "nat \<Rightarrow> nat option \<Rightarrow> 'r sw_history \<Rightarrow> 'r sw_history" where
  "sw_setPrev i p h = h\<lparr>h_prev := (h_prev h)(i := p)\<rparr>"

text \<open>The constructor advice chains all records into the free list, then \<open>head\<close> is set to null.\<close>

definition sw_init :: "nat \<Rightarrow> (nat \<Rightarrow> 'r) \<Rightarrow> (nat \<Rightarrow> nat option) \<Rightarrow> 'r sw_history" where
  "sw_init n d pv =
     \<lparr>h_data = d, h_next = (\<lambda>i. if i < n - 1 then Some (i + 1) else None), h_prev = pv,
      h_head = None, h_freelist = (if n = 0 then None else Some 0)\<rparr>"

definition sw_add :: "'r \<Rightarrow> 'r sw_history \<Rightarrow> 'r sw_history outcome" where
  "sw_add r h =
     (case h_freelist h of
        None \<Rightarrow> Inl NullDeref
      | Some p \<Rightarrow>
          let h1 = h\<lparr>h_freelist := h_next h p\<rparr>;
              h2 = (case h_head h1 of None \<Rightarrow> h1 | Some q \<Rightarrow> sw_setPrev q (Some p) h1);
              h3 = sw_setPrev p None h2;
              h4 = sw_setNext p (h_head h3) h3
          in Inr (h4\<lparr>h_head := Some p, h_data := (h_data h4)(p := r)\<rparr>))"

definition sw_remove :: "nat \<Rightarrow> 'r sw_history \<Rightarrow> 'r sw_history outcome" where
  "sw_remove p h =
     map_sum id (\<lambda>h'. (sw_setNext p (h_freelist h') h')\<lparr>h_freelist := Some p\<rparr>)
       (if h_head h = Some p
        then let h1 = h\<lparr>h_head := h_next h p\<rparr>
             in Inr (case h_head h1 of None \<Rightarrow> h1 | Some q \<Rightarrow> sw_setPrev q None h1)
        else case h_prev h p of
               None \<Rightarrow> Inl NullDeref
             | Some pv \<Rightarrow>
                 let nx = h_next h p;
                     h1 = sw_setNext pv nx h
                 in Inr (case nx of None \<Rightarrow> h1 | Some q \<Rightarrow> sw_setPrev q (Some pv) h1))"

definition sw_isFull :: "'r sw_history \<Rightarrow> bool" where
  "sw_isFull h = (h_freelist h = None)"

text \<open>The loop of \<open>getNextTimeout\<close> over the records behind the first one, which is the first minimum.\<close>

fun min_timeout :: "tcp_record \<Rightarrow> tcp_record list \<Rightarrow> tcp_record" where
  "min_timeout mn [] = mn"
| "min_timeout mn (r # rs) =
     min_timeout (if rec_timeout r \<noteq> 0 \<and> rec_timeout r < rec_timeout mn then r else mn) rs"

definition getNextTimeout :: "u64 \<Rightarrow> (u64 \<Rightarrow> u32) \<Rightarrow> tcp_record list \<Rightarrow> u32" where
  "getNextTimeout now ticks_to_ms h =
     (case h of [] \<Rightarrow> 0 | r # rs \<Rightarrow> getRemainingTime now ticks_to_ms (min_timeout r rs))"

subsection \<open>The interface\<close>

text \<open>
  The sweep that \<open>updateHistory\<close> makes over the records: a record that \<open>done\<close> accepts is removed, the others
  may be rewritten by \<open>upd\<close> (a retransmission sets a new timeout). \<open>None\<close> means that the fuel ran out.
\<close>

fun hist_sweep ::
  "('h \<Rightarrow> 'p \<Rightarrow> 'r) \<Rightarrow> ('h \<Rightarrow> 'p \<Rightarrow> 'p option) \<Rightarrow> ('p \<Rightarrow> 'h \<Rightarrow> 'h outcome) \<Rightarrow> ('p \<Rightarrow> 'r \<Rightarrow> 'h \<Rightarrow> 'h) \<Rightarrow>
   ('r \<Rightarrow> bool) \<Rightarrow> ('r \<Rightarrow> 'r) \<Rightarrow> nat \<Rightarrow> 'p option \<Rightarrow> 'h \<Rightarrow> 'h outcome option"
where
  "hist_sweep rd nx rm wr finished upd fuel None h = Some (Inr h)"
| "hist_sweep rd nx rm wr finished upd 0 (Some p) h = None"
| "hist_sweep rd nx rm wr finished upd (Suc fuel) (Some p) h =
     (if finished (rd h p)
      then let n = nx h p in
           (case rm p h of Inl e \<Rightarrow> Some (Inl e) | Inr h' \<Rightarrow> hist_sweep rd nx rm wr finished upd fuel n h')
      else let h' = wr p (upd (rd h p)) h in hist_sweep rd nx rm wr finished upd fuel (nx h' p) h')"

locale segment_history =
  fixes add :: "'r \<Rightarrow> 'h \<Rightarrow> 'h outcome"
    and remove :: "'p \<Rightarrow> 'h \<Rightarrow> 'h outcome"
    and get :: "'h \<Rightarrow> 'p option"
    and succ :: "'h \<Rightarrow> 'p \<Rightarrow> 'p option"
    and read :: "'h \<Rightarrow> 'p \<Rightarrow> 'r"
    and rput :: "'p \<Rightarrow> 'r \<Rightarrow> 'h \<Rightarrow> 'h"
    and full :: "'h \<Rightarrow> bool"
    and ptrs :: "'h \<Rightarrow> 'p list"
    and invar :: "'h \<Rightarrow> bool"
    and cap :: nat
  assumes ptrs_distinct: "invar h \<Longrightarrow> distinct (ptrs h)"
    and ptrs_bound: "invar h \<Longrightarrow> length (ptrs h) \<le> cap"
    and full_iff: "invar h \<Longrightarrow> full h \<longleftrightarrow> length (ptrs h) = cap"
    and get_first: "invar h \<Longrightarrow> get h = (case ptrs h of [] \<Rightarrow> None | p # _ \<Rightarrow> Some p)"
    and succ_ptrs: "invar h \<Longrightarrow> ptrs h = us @ p # vs \<Longrightarrow> succ h p = (case vs of [] \<Rightarrow> None | q # _ \<Rightarrow> Some q)"
    and add_ok: "invar h \<Longrightarrow> \<not> full h \<Longrightarrow> \<exists>h' p. add r h = Inr h' \<and> invar h' \<and> ptrs h' = p # ptrs h \<and>
         read h' p = r \<and> (\<forall>q \<in> set (ptrs h). read h' q = read h q)"
    and remove_ok: "invar h \<Longrightarrow> ptrs h = us @ p # vs \<Longrightarrow> \<exists>h'. remove p h = Inr h' \<and> invar h' \<and> ptrs h' = us @ vs \<and>
         (\<forall>q \<in> set (us @ vs). read h' q = read h q)"
    and write_ok: "invar h \<Longrightarrow> p \<in> set (ptrs h) \<Longrightarrow> invar (rput p r h) \<and> ptrs (rput p r h) = ptrs h \<and>
         read (rput p r h) = (read h)(p := r)"
begin

text \<open>The records, newest first.\<close>

definition content :: "'h \<Rightarrow> 'r list" where
  "content h = map (read h) (ptrs h)"

lemma add_content: "invar h \<Longrightarrow> \<not> full h \<Longrightarrow> \<exists>h'. add r h = Inr h' \<and> invar h' \<and> content h' = r # content h"
  using add_ok [of h r] by (fastforce simp: content_def)

lemma sweep_content:
  assumes "invar h" and "ptrs h = us @ vs" and "length vs \<le> fuel"
  shows "\<exists>h'. hist_sweep read succ remove rput finished upd fuel (case vs of [] \<Rightarrow> None | q # _ \<Rightarrow> Some q) h = Some (Inr h') \<and>
           invar h' \<and> content h' = map (read h) us @ map upd (filter (\<lambda>r. \<not> finished r) (map (read h) vs))"
  using assms
proof (induction vs arbitrary: h us fuel)
  case Nil
  then show ?case by (simp add: content_def)
next
  case (Cons p vs)
  then obtain f where f: "fuel = Suc f" "length vs \<le> f" by (cases fuel) auto
  have d: "distinct (us @ p # vs)" using ptrs_distinct Cons.prems by metis
  show ?case
  proof (cases "finished (read h p)")
    case True
    obtain h1 where h1: "remove p h = Inr h1" "invar h1" "ptrs h1 = us @ vs" "\<forall>q \<in> set (us @ vs). read h1 q = read h q"
      using remove_ok Cons.prems(1,2) by blast
    have m: "map (read h1) us = map (read h) us" "map (read h1) vs = map (read h) vs" using h1(4) by simp_all
    show ?thesis
      using Cons.IH [OF h1(2,3) f(2), unfolded m] h1(1) True f succ_ptrs [OF Cons.prems(1,2)] by (simp add: Let_def)
  next
    case False
    let ?h = "rput p (upd (read h p)) h"
    have w: "invar ?h" "ptrs ?h = (us @ [p]) @ vs" "read ?h = (read h)(p := upd (read h p))"
      using write_ok [of h p "upd (read h p)"] Cons.prems by simp_all
    have m: "map (read ?h) (us @ [p]) = map (read h) us @ [upd (read h p)]" "map (read ?h) vs = map (read h) vs"
      using d by (simp_all add: w(3))
    show ?thesis
      using Cons.IH [OF w(1,2) f(2), unfolded m] False f succ_ptrs [OF w(1), of us p vs] w(2) by (simp add: Let_def)
  qed
qed

end

subsection \<open>Both versions implement it\<close>

interpretation one_slot: segment_history slot_add slot_remove slot_get "\<lambda>_ _. None" "\<lambda>h _. the h"
  "\<lambda>_ r _. Some r" slot_isFull "\<lambda>h. case h of None \<Rightarrow> [] | Some _ \<Rightarrow> [()]" "\<lambda>_. True" 1
  by unfold_locales
     (auto simp: slot_add_def slot_remove_def slot_get_def slot_isFull_def Cons_eq_append_conv
      split: option.splits if_splits)

text \<open>A list segment: following the pointers from \<open>p\<close> leads through \<open>xs\<close> to \<open>q\<close>.\<close>

fun lseg :: "(nat \<Rightarrow> nat option) \<Rightarrow> nat option \<Rightarrow> nat list \<Rightarrow> nat option \<Rightarrow> bool" where
  "lseg nx p [] q \<longleftrightarrow> p = q"
| "lseg nx p (x # xs) q \<longleftrightarrow> p = Some x \<and> lseg nx (nx x) xs q"

fun dchain :: "(nat \<Rightarrow> nat option) \<Rightarrow> nat option \<Rightarrow> nat list \<Rightarrow> bool" where
  "dchain pv q [] \<longleftrightarrow> True"
| "dchain pv q (x # xs) \<longleftrightarrow> pv x = q \<and> dchain pv (Some x) xs"

lemma lseg_append: "lseg nx p (xs @ ys) q \<longleftrightarrow> (\<exists>r. lseg nx p xs r \<and> lseg nx r ys q)"
  by (induction xs arbitrary: p) auto

lemma lseg_upd [simp]: "x \<notin> set xs \<Longrightarrow> lseg (nx(x := v)) p xs q = lseg nx p xs q"
  by (induction xs arbitrary: p) auto

lemma dchain_upd [simp]: "x \<notin> set xs \<Longrightarrow> dchain (pv(x := v)) q xs = dchain pv q xs"
  by (induction xs arbitrary: q) auto

lemma dchain_append: "dchain pv q (xs @ y # ys) \<longleftrightarrow>
    dchain pv q xs \<and> pv y = (if xs = [] then q else Some (last xs)) \<and> dchain pv (Some y) ys"
  by (induction xs arbitrary: q) auto

lemma lseg_unique: "lseg nx p xs None \<Longrightarrow> lseg nx p ys None \<Longrightarrow> xs = ys"
proof (induction xs arbitrary: p ys)
  case (Cons x xs)
  then show ?case by (cases ys) auto
qed (auto elim: lseg.elims)

definition sw_chains :: "nat \<Rightarrow> 'r sw_history \<Rightarrow> nat list \<Rightarrow> nat list \<Rightarrow> bool" where
  "sw_chains n h xs fs \<longleftrightarrow> lseg (h_next h) (h_head h) xs None \<and> dchain (h_prev h) None xs \<and>
     lseg (h_next h) (h_freelist h) fs None \<and> distinct (xs @ fs) \<and> set (xs @ fs) = {..<n}"

definition sw_inv :: "nat \<Rightarrow> 'r sw_history \<Rightarrow> bool" where
  "sw_inv n h \<longleftrightarrow> (\<exists>xs fs. sw_chains n h xs fs)"

definition sw_ptrs :: "nat \<Rightarrow> 'r sw_history \<Rightarrow> nat list" where
  "sw_ptrs n h = (THE xs. lseg (h_next h) (h_head h) xs None)"

lemma sw_chains_ptrs: "sw_chains n h xs fs \<Longrightarrow> sw_ptrs n h = xs"
  unfolding sw_ptrs_def sw_chains_def by (rule the_equality) (auto dest: lseg_unique)

lemma sw_invE:
  assumes "sw_inv n h"
  obtains fs where "sw_chains n h (sw_ptrs n h) fs"
  using assms sw_chains_ptrs unfolding sw_inv_def by metis

lemma sw_chains_length: "sw_chains n h xs fs \<Longrightarrow> length xs + length fs = n"
proof -
  assume "sw_chains n h xs fs"
  then have "distinct (xs @ fs)" "set (xs @ fs) = {..<n}" by (simp_all add: sw_chains_def)
  then show ?thesis using distinct_card [of "xs @ fs"] by simp
qed

lemma sw_init_chains: "sw_chains n (sw_init n d pv) [] [0..<n]"
proof -
  have "lseg (\<lambda>i. if i < n - 1 then Some (i + 1) else None) (if k < n then Some k else None) [k..<n] None" for k
  proof (induction "n - k" arbitrary: k)
    case (Suc m)
    then have k: "k < n" by simp
    moreover from Suc have "m = n - Suc k" by simp
    note Suc.hyps(1) [OF this]
    moreover have "(if k < n - 1 then Some (k + 1) else None) = (if Suc k < n then Some (Suc k) else None)" by auto
    ultimately show ?case using upt_conv_Cons [OF k] by simp
  qed simp
  from this [of 0] show ?thesis by (auto simp: sw_chains_def sw_init_def)
qed

lemma sw_add_chains:
  assumes "sw_chains n h xs (p # fs)"
  shows "\<exists>h'. sw_add r h = Inr h' \<and> sw_chains n h' (p # xs) fs \<and> h_data h' = (h_data h)(p := r)"
proof -
  have fl: "h_freelist h = Some p" and p: "p \<notin> set xs" "p \<notin> set fs" and ch: "lseg (h_next h) (h_head h) xs None"
    and dc: "dchain (h_prev h) None xs" and fc: "lseg (h_next h) (h_next h p) fs None"
    and d: "distinct (xs @ p # fs)" and st: "set (xs @ p # fs) = {..<n}"
    using assms by (auto simp: sw_chains_def)
  show ?thesis
  proof (cases xs)
    case Nil
    then show ?thesis using fl p ch fc d st by (auto simp: sw_add_def sw_setPrev_def sw_setNext_def sw_chains_def Let_def)
  next
    case (Cons q ys)
    then show ?thesis using fl p ch dc fc d st
      by (auto simp: sw_add_def sw_setPrev_def sw_setNext_def sw_chains_def Let_def)
  qed
qed

lemma sw_remove_chains:
  assumes "sw_chains n h (us @ p # vs) fs"
  shows "\<exists>h'. sw_remove p h = Inr h' \<and> sw_chains n h' (us @ vs) (p # fs) \<and> h_data h' = h_data h"
proof -
  have d: "distinct (us @ p # vs @ fs)" and st: "set (us @ p # vs @ fs) = {..<n}"
    and fc: "lseg (h_next h) (h_freelist h) fs None"
    and us: "lseg (h_next h) (h_head h) us (Some p)" and vs: "lseg (h_next h) (h_next h p) vs None"
    and dc: "dchain (h_prev h) None us" "h_prev h p = (if us = [] then None else Some (last us))" "dchain (h_prev h) (Some p) vs"
    using assms by (auto simp: sw_chains_def lseg_append dchain_append)
  note defs = sw_remove_def sw_setPrev_def sw_setNext_def sw_chains_def Let_def
  show ?thesis
  proof (cases us rule: rev_cases)
    case Nil
    then show ?thesis using d st fc us vs dc by (cases vs) (auto simp: defs)
  next
    case (snoc ws w)
    have hd: "h_head h \<noteq> Some p"
    proof (cases ws)
      case Nil
      then show ?thesis using us d snoc by auto
    next
      case (Cons x xs)
      then show ?thesis using us d snoc by auto
    qed
    have w: "lseg (h_next h) (h_head h) ws (Some w)" using us snoc by (auto simp: lseg_append)
    show ?thesis using snoc hd w d st fc vs dc
      by (cases vs) (auto simp: defs lseg_append dchain_append)
  qed
qed

lemma sw_chains_next: "sw_chains n h (us @ p # vs) fs \<Longrightarrow> h_next h p = (case vs of [] \<Rightarrow> None | q # _ \<Rightarrow> Some q)"
  by (cases vs) (auto simp: sw_chains_def lseg_append)

interpretation sw: segment_history sw_add sw_remove h_head h_next h_data
  "\<lambda>p r h. h\<lparr>h_data := (h_data h)(p := r)\<rparr>" sw_isFull "sw_ptrs n" "sw_inv n" n for n
proof
  fix h :: "'r sw_history" and r us p vs
  assume inv: "sw_inv n h"
  obtain fs where ch: "sw_chains n h (sw_ptrs n h) fs" using inv by (rule sw_invE)
  show "distinct (sw_ptrs n h)" "length (sw_ptrs n h) \<le> n"
    using ch sw_chains_length [OF ch] by (simp_all add: sw_chains_def)
  show "sw_isFull h \<longleftrightarrow> length (sw_ptrs n h) = n"
    using ch sw_chains_length [OF ch] by (cases fs) (auto simp: sw_chains_def sw_isFull_def)
  show "h_head h = (case sw_ptrs n h of [] \<Rightarrow> None | p # _ \<Rightarrow> Some p)"
    using ch by (cases "sw_ptrs n h") (auto simp: sw_chains_def)
  show "h_next h p = (case vs of [] \<Rightarrow> None | q # _ \<Rightarrow> Some q)" if "sw_ptrs n h = us @ p # vs"
    using sw_chains_next [of n h us p vs fs] ch that by metis
  show "\<exists>h' p. sw_add r h = Inr h' \<and> sw_inv n h' \<and> sw_ptrs n h' = p # sw_ptrs n h \<and> h_data h' p = r \<and>
      (\<forall>q \<in> set (sw_ptrs n h). h_data h' q = h_data h q)" if "\<not> sw_isFull h"
  proof -
    have "fs \<noteq> []" using ch that by (auto simp: sw_chains_def sw_isFull_def)
    then obtain p fs' where "fs = p # fs'" by (cases fs) auto
    with ch have c: "sw_chains n h (sw_ptrs n h) (p # fs')" by simp
    then have "p \<notin> set (sw_ptrs n h)" by (auto simp: sw_chains_def)
    moreover obtain h' where h': "sw_add r h = Inr h'" "sw_chains n h' (p # sw_ptrs n h) fs'" "h_data h' = (h_data h)(p := r)"
      using sw_add_chains [OF c] by blast
    moreover have "sw_inv n h'" "sw_ptrs n h' = p # sw_ptrs n h" using h'(2) sw_chains_ptrs by (auto simp: sw_inv_def)
    ultimately show ?thesis by auto
  qed
  show "\<exists>h'. sw_remove p h = Inr h' \<and> sw_inv n h' \<and> sw_ptrs n h' = us @ vs \<and>
      (\<forall>q \<in> set (us @ vs). h_data h' q = h_data h q)" if "sw_ptrs n h = us @ p # vs"
  proof -
    have "sw_chains n h (us @ p # vs) fs" using ch that by simp
    then obtain h' where h': "sw_remove p h = Inr h'" "sw_chains n h' (us @ vs) (p # fs)" "h_data h' = h_data h"
      using sw_remove_chains by blast
    then have "sw_inv n h'" "sw_ptrs n h' = us @ vs" using sw_chains_ptrs by (auto simp: sw_inv_def)
    with h' show ?thesis by simp
  qed
  let ?w = "h\<lparr>h_data := (h_data h)(p := r)\<rparr>"
  have "sw_chains n ?w (sw_ptrs n h) fs" using ch by (simp add: sw_chains_def)
  then show "sw_inv n ?w \<and> sw_ptrs n ?w = sw_ptrs n h \<and> h_data ?w = (h_data h)(p := r)"
    by (auto simp: sw_inv_def sw_chains_ptrs)
qed

subsection \<open>Properties of the history\<close>

text \<open>A run of the sliding window list: segments are added while it is not full and swept by
  \<open>updateHistory\<close>, which drops the finished records.\<close>

datatype 'r hist_op = Add 'r | Sweep "'r \<Rightarrow> bool"

fun run_sw :: "nat \<Rightarrow> 'r hist_op list \<Rightarrow> 'r sw_history \<Rightarrow> 'r sw_history outcome option" where
  "run_sw n [] h = Some (Inr h)"
| "run_sw n (Add r # ops) h =
     (if sw_isFull h then run_sw n ops h
      else case sw_add r h of Inl e \<Rightarrow> Some (Inl e) | Inr h' \<Rightarrow> run_sw n ops h')"
| "run_sw n (Sweep finished # ops) h =
     (case hist_sweep h_data h_next sw_remove (\<lambda>p r h. h\<lparr>h_data := (h_data h)(p := r)\<rparr>) finished id n (h_head h) h of
        None \<Rightarrow> None
      | Some (Inl e) \<Rightarrow> Some (Inl e)
      | Some (Inr h') \<Rightarrow> run_sw n ops h')"

fun run_hist_list :: "nat \<Rightarrow> 'r hist_op list \<Rightarrow> 'r list \<Rightarrow> 'r list" where
  "run_hist_list n [] rs = rs"
| "run_hist_list n (Add r # ops) rs = run_hist_list n ops (if length rs = n then rs else r # rs)"
| "run_hist_list n (Sweep finished # ops) rs = run_hist_list n ops (filter (\<lambda>r. \<not> finished r) rs)"

lemma run_sw_refines:
  "sw_inv n h \<Longrightarrow> \<exists>h'. run_sw n ops h = Some (Inr h') \<and> sw_inv n h' \<and> sw.content n h' = run_hist_list n ops (sw.content n h)"
proof (induction ops arbitrary: h)
  case (Cons op ops)
  have len: "length (sw.content n h) = length (sw_ptrs n h)" by (simp add: sw.content_def)
  show ?case
  proof (cases op)
    case (Add r)
    show ?thesis
    proof (cases "sw_isFull h")
      case True
      with Add Cons sw.full_iff [OF Cons.prems] len show ?thesis by simp
    next
      case False
      then obtain h' where "sw_add r h = Inr h'" "sw_inv n h'" "sw.content n h' = r # sw.content n h"
        using sw.add_content [OF Cons.prems] by blast
      with False Add Cons.IH [of h'] sw.full_iff [OF Cons.prems] len show ?thesis by simp
    qed
  next
    case (Sweep finished)
    obtain h' where "hist_sweep h_data h_next sw_remove (\<lambda>p r h. h\<lparr>h_data := (h_data h)(p := r)\<rparr>) finished id n (h_head h) h = Some (Inr h')"
        "sw_inv n h'" "sw.content n h' = filter (\<lambda>r. \<not> finished r) (sw.content n h)"
      using sw.sweep_content [OF Cons.prems, of "[]" "sw_ptrs n h" n finished id] sw.get_first [OF Cons.prems]
        sw.ptrs_bound [OF Cons.prems] by (auto simp: sw.content_def)
    with Sweep Cons.IH [of h'] show ?thesis by simp
  qed
qed simp

lemma sw_init_inv: "sw_inv n (sw_init n d pv)" and sw_init_content: "sw.content n (sw_init n d pv) = []"
  using sw_init_chains [of n d pv] sw_chains_ptrs by (auto simp: sw_inv_def sw.content_def)

text \<open>C16: The doubly linked history with its free list is a bounded list. Whatever sequence of additions
  (guarded by \<open>isFull\<close>) and of sweeps by \<open>updateHistory\<close> runs on a freshly constructed history of \<open>n\<close>
  records, no null pointer is followed, the sweep loop ends, and the records are those of a list of at most
  \<open>n\<close> elements, newest first, from which the sweeps remove exactly the finished records.\<close>

theorem history_refines_list:
  "\<exists>h. run_sw n ops (sw_init n d pv) = Some (Inr h) \<and> sw.content n h = run_hist_list n ops [] \<and>
       (sw_isFull h \<longleftrightarrow> length (run_hist_list n ops []) = n)"
proof -
  obtain h where h: "run_sw n ops (sw_init n d pv) = Some (Inr h)" "sw_inv n h"
      "sw.content n h = run_hist_list n ops []"
    using run_sw_refines [OF sw_init_inv, of n ops d pv] by (auto simp: sw_init_content)
  moreover have "length (sw.content n h) = length (sw_ptrs n h)" by (simp add: sw.content_def)
  ultimately show ?thesis using sw.full_iff [OF h(2)] by auto
qed

text \<open>A pending acknowledgement hides every retransmission timer. When the newest record has no timeout
  (an ACK segment waiting for the driver), \<open>getNextTimeout\<close> reports 0, whatever timeouts the records behind
  it have.\<close>

theorem next_timeout_masked:
  assumes "rec_timeout r = 0" and "0 < now"
  shows "getNextTimeout now ticks_to_ms (r # rs) = 0"
proof -
  have "min_timeout r rs = r" if "rec_timeout r = 0" for rs using that by (induction rs) simp_all
  then show ?thesis using assms by (simp add: getNextTimeout_def getRemainingTime_def)
qed

theorem next_timeout_masked_witness:
  "\<forall>b. getNextTimeout 5 (\<lambda>t. ucast t) [\<lparr>rec_timeout = 0, rec_buffer = b\<rparr>, \<lparr>rec_timeout = 9, rec_buffer = b\<rparr>] = 0 \<and>
       getNextTimeout 5 (\<lambda>t. ucast t) [\<lparr>rec_timeout = 9, rec_buffer = b\<rparr>] = 4"
proof
  fix b :: tcp_buffer
  show "getNextTimeout 5 (\<lambda>t. ucast t) [\<lparr>rec_timeout = 0, rec_buffer = b\<rparr>, \<lparr>rec_timeout = 9, rec_buffer = b\<rparr>] = 0 \<and>
      getNextTimeout 5 (\<lambda>t. ucast t) [\<lparr>rec_timeout = 9, rec_buffer = b\<rparr>] = 4"
    using next_timeout_masked [of "\<lparr>rec_timeout = 0, rec_buffer = b\<rparr>" 5 "\<lambda>t. ucast t" "[\<lparr>rec_timeout = 9, rec_buffer = b\<rparr>]"]
    by (simp add: getNextTimeout_def getRemainingTime_def)
qed

end
