(* ===== verification/TCP_Receive_Buffer.thy ===== *)
theory TCP_Receive_Buffer
  imports TCP_Segment
begin

text \<open>
  The receive buffer of a TCP socket: \<^verbatim>\<open>tcp/tcp_receivebuffer/TCP_RecvElement.h\<close>, the one-element
  \<^verbatim>\<open>TCP_ReceiveBuffer.cpp\<close> and the sliding window version of \<^verbatim>\<open>TCP_ReceiveBuffer_SlidingWindow_Slice.ah\<close>.
  The linked list of elements is a list; \<open>recv_continuous\<close>, a pointer to one of them, is the number of elements
  up to and including it, 0 for the null pointer; the free list is empty when the list has as many
  elements as the array. The interface \<open>stream_receiver\<close> says that the application reads the peer's byte
  stream in order, without gaps and without repetition.
\<close>

subsection \<open>TCP_RecvElement\<close>

text \<open>\<open>el_data\<close> is the memory from the pointer \<open>data\<close> on, \<open>el_segment\<close> the address of the segment.\<close>

record recv_element =
  el_len :: u32
  el_seqNum :: u32
  el_data :: "u8 list"
  el_segment :: nat

definition getNextSeqNum :: "recv_element \<Rightarrow> u32" where
  "getNextSeqNum e = el_seqNum e + el_len e"

definition el_increment :: "u32 \<Rightarrow> recv_element \<Rightarrow> recv_element" where
  "el_increment inc e =
     e\<lparr>el_data := drop (unat inc) (el_data e), el_seqNum := el_seqNum e + inc, el_len := el_len e - inc\<rparr>"

text \<open>\<open>memcpy(dst, data, n)\<close>: the copied bytes, or a read outside the segment.\<close>

definition el_copy :: "u32 \<Rightarrow> recv_element \<Rightarrow> u8 list outcome" where
  "el_copy n e = (if unat n \<le> length (el_data e) then Inr (take (unat n) (el_data e)) else Inl OutOfBounds)"

record tcp_recvbuf =
  rv_elems :: "recv_element list"
  rv_continuous :: nat
  rv_bytes :: u32
  read_firstSeqNum :: u32
  pushFlag :: bool

text \<open>\<open>read_firstSeqNum\<close> is not initialised by the constructor.\<close>

definition TCP_ReceiveBuffer :: "u32 \<Rightarrow> tcp_recvbuf" where
  "TCP_ReceiveBuffer garbage =
     \<lparr>rv_elems = [], rv_continuous = 0, rv_bytes = 0, read_firstSeqNum = garbage, pushFlag = False\<rparr>"

definition setFirstSeqNum :: "u32 \<Rightarrow> tcp_recvbuf \<Rightarrow> tcp_recvbuf" where
  "setFirstSeqNum q rb = rb\<lparr>read_firstSeqNum := q\<rparr>"

subsection \<open>One element\<close>

definition one_getRecvBytes :: "tcp_recvbuf \<Rightarrow> u32" where
  "one_getRecvBytes rb = (case rv_elems rb of [] \<Rightarrow> 0 | e # _ \<Rightarrow> el_len e)"

definition one_getAckNum :: "tcp_recvbuf \<Rightarrow> u32" where
  "one_getAckNum rb = (case rv_elems rb of [] \<Rightarrow> read_firstSeqNum rb | e # _ \<Rightarrow> getNextSeqNum e)"

text \<open>\<open>copyData\<close> gives the copied bytes and the segments it freed.\<close>

definition one_copyData :: "u32 \<Rightarrow> tcp_recvbuf \<Rightarrow> (u8 list \<times> nat list \<times> tcp_recvbuf) outcome" where
  "one_copyData len rb =
     (let rb = rb\<lparr>read_firstSeqNum := read_firstSeqNum rb + len\<rparr> in
      case rv_elems rb of
        [] \<Rightarrow> Inl NullDeref
      | e # es \<Rightarrow>
          if el_len e = len
          then map_sum id (\<lambda>bs. (bs, [el_segment e], rb\<lparr>rv_elems := [], pushFlag := False\<rparr>)) (el_copy (el_len e) e)
          else map_sum id (\<lambda>bs. (bs, [], rb\<lparr>rv_elems := el_increment len e # es\<rparr>)) (el_copy len e))"

definition one_insert :: "recv_element \<Rightarrow> bool \<Rightarrow> tcp_recvbuf \<Rightarrow> bool \<times> tcp_recvbuf" where
  "one_insert e psh rb =
     (if el_seqNum e = read_firstSeqNum rb \<and> rv_elems rb = []
      then (True, rb\<lparr>rv_elems := [e], pushFlag := pushFlag rb \<or> psh\<rparr>)
      else (False, rb))"

subsection \<open>The sliding window\<close>

definition sw_getAckNum :: "tcp_recvbuf \<Rightarrow> u32" where
  "sw_getAckNum rb =
     (if rv_continuous rb = 0 then read_firstSeqNum rb else getNextSeqNum (rv_elems rb ! (rv_continuous rb - 1)))"

definition sw_getRecvBytes :: "tcp_recvbuf \<Rightarrow> u32" where
  "sw_getRecvBytes rb = rv_bytes rb"

text \<open>The loop of \<open>updateContinuous\<close>: from the last continuous element \<open>c\<close> over the elements behind it.\<close>

fun extend_continuous :: "recv_element \<Rightarrow> recv_element list \<Rightarrow> nat \<Rightarrow> u32 \<Rightarrow> nat \<times> u32" where
  "extend_continuous c [] n b = (n, b)"
| "extend_continuous c (e # es) n b =
     (if getNextSeqNum c = el_seqNum e then extend_continuous e es (n + 1) (b + el_len e) else (n, b))"

definition updateContinuous :: "tcp_recvbuf \<Rightarrow> tcp_recvbuf" where
  "updateContinuous rb =
     (let start =
        (if rv_continuous rb = 0
         then (case rv_elems rb of
                 [] \<Rightarrow> None
               | e # _ \<Rightarrow> if read_firstSeqNum rb = el_seqNum e then Some (1, el_len e) else None)
         else Some (rv_continuous rb, rv_bytes rb))
      in case start of
           None \<Rightarrow> rb
         | Some (n, b) \<Rightarrow>
             (case extend_continuous (rv_elems rb ! (n - 1)) (drop n (rv_elems rb)) n b of
                (n', b') \<Rightarrow> rb\<lparr>rv_continuous := n', rv_bytes := b'\<rparr>))"

text \<open>The loop of \<open>copyData_SlindingWindow\<close>. \<open>recv_continuous\<close> is reset when its element goes; counted in
  elements it just drops by one with every element that goes.\<close>

fun sw_copy_loop :: "u32 \<Rightarrow> recv_element list \<Rightarrow> nat \<Rightarrow> bool \<Rightarrow> (u8 list \<times> nat list \<times> recv_element list \<times> nat \<times> bool) outcome" where
  "sw_copy_loop len [] n psh = (if len > 0 then Inl NullDeref else Inr ([], [], [], n, psh))"
| "sw_copy_loop len (e # es) n psh =
     (if len > 0
      then if el_len e \<le> len
           then (case el_copy (el_len e) e of
                   Inl x \<Rightarrow> Inl x
                 | Inr bs \<Rightarrow>
                     if es = [] then Inr (bs, [el_segment e], [], n - 1, False)
                     else (case sw_copy_loop (len - el_len e) es (n - 1) psh of
                             Inl x \<Rightarrow> Inl x
                           | Inr (bs', fr, es', n', psh') \<Rightarrow> Inr (bs @ bs', el_segment e # fr, es', n', psh')))
           else (case el_copy len e of
                   Inl x \<Rightarrow> Inl x
                 | Inr bs \<Rightarrow> Inr (bs, [], el_increment len e # es, n, psh))
      else Inr ([], [], e # es, n, psh))"

definition sw_copyData :: "u32 \<Rightarrow> tcp_recvbuf \<Rightarrow> (u8 list \<times> nat list \<times> tcp_recvbuf) outcome" where
  "sw_copyData len rb =
     (case sw_copy_loop len (rv_elems rb) (rv_continuous rb) (pushFlag rb) of
        Inl x \<Rightarrow> Inl x
      | Inr (bs, fr, es, n, psh) \<Rightarrow>
          Inr (bs, fr, rb\<lparr>rv_elems := es, rv_continuous := n, rv_bytes := rv_bytes rb - len,
                         read_firstSeqNum := read_firstSeqNum rb + len, pushFlag := psh\<rparr>))"

text \<open>The search loop of \<open>insert_SlidingWindow\<close> from index \<open>i\<close> on: the number of elements in front of the new
  one, or \<open>None\<close> for a duplicate. \<open>prev\<close> is the element before, as a number of elements.\<close>

fun sw_search :: "u32 \<Rightarrow> nat \<Rightarrow> recv_element list \<Rightarrow> nat \<Rightarrow> nat \<Rightarrow> nat option" where
  "sw_search q cont [] i prev = Some prev"
| "sw_search q cont (e # es) i prev =
     (if SEQ_GEQ q (getNextSeqNum e) then sw_search q cont es (i + 1) (i + 1)
      else if SEQ_GEQ q (el_seqNum e) then None
      else if cont = i + 1 then None
      else Some prev)"

definition sw_insert :: "nat \<Rightarrow> recv_element \<Rightarrow> bool \<Rightarrow> tcp_recvbuf \<Rightarrow> bool \<times> tcp_recvbuf" where
  "sw_insert cap e psh rb =
     (if length (rv_elems rb) \<ge> cap then (False, rb)
      else if SEQ_LT (el_seqNum e) (read_firstSeqNum rb) then (False, rb)
      else let i0 = rv_continuous rb - 1 in
        (case sw_search (el_seqNum e) (rv_continuous rb) (drop i0 (rv_elems rb)) i0 0 of
           None \<Rightarrow> (False, rb)
         | Some k \<Rightarrow>
             let rb1 = updateContinuous (rb\<lparr>rv_elems := take k (rv_elems rb) @ e # drop k (rv_elems rb)\<rparr>)
             in (True, rb1\<lparr>pushFlag := pushFlag rb1 \<or> psh\<rparr>)))"

subsection \<open>The interface\<close>

text \<open>
  The peer sends the byte stream \<open>S\<close> from the sequence number \<open>isn\<close> on. An element carries the bytes of the
  stream from offset \<open>p\<close> on when its sequence number and its data agree with \<open>S\<close> there.
\<close>

definition stream_at :: "(nat \<Rightarrow> u8) \<Rightarrow> u32 \<Rightarrow> nat \<Rightarrow> recv_element \<Rightarrow> bool" where
  "stream_at S isn p e \<longleftrightarrow> el_seqNum e = isn + of_nat p \<and> p + unat (el_len e) < 2 ^ 32 \<and>
     unat (el_len e) \<le> length (el_data e) \<and>
     take (unat (el_len e)) (el_data e) = map S [p..<p + unat (el_len e)]"

definition from_stream :: "(nat \<Rightarrow> u8) \<Rightarrow> u32 \<Rightarrow> recv_element \<Rightarrow> bool" where
  "from_stream S isn e \<longleftrightarrow> 0 < el_len e \<and> (\<exists>p. stream_at S isn p e)"

datatype recv_op = Insert recv_element bool | Read u32

text \<open>A run of insertions and reads; a read asks for at most the bytes that \<open>getRecvBytes\<close> reports and is not
  made when there are none. The result is all bytes read, in order.\<close>

fun run_recv ::
  "(recv_element \<Rightarrow> bool \<Rightarrow> 'b \<Rightarrow> bool \<times> 'b) \<Rightarrow> (u32 \<Rightarrow> 'b \<Rightarrow> (u8 list \<times> nat list \<times> 'b) outcome) \<Rightarrow> ('b \<Rightarrow> u32) \<Rightarrow>
   recv_op list \<Rightarrow> 'b \<Rightarrow> (u8 list \<times> 'b) outcome"
where
  "run_recv ins cp byt [] b = Inr ([], b)"
| "run_recv ins cp byt (Insert e psh # ops) b = run_recv ins cp byt ops (snd (ins e psh b))"
| "run_recv ins cp byt (Read n # ops) b =
     (if byt b = 0 then run_recv ins cp byt ops b
      else case cp (if n \<le> byt b then n else byt b) b of
             Inl x \<Rightarrow> Inl x
           | Inr (bs, fr, b') \<Rightarrow> map_sum id (\<lambda>(bs', b''). (bs @ bs', b'')) (run_recv ins cp byt ops b'))"

locale stream_receiver =
  fixes ins :: "recv_element \<Rightarrow> bool \<Rightarrow> 'b \<Rightarrow> bool \<times> 'b"
    and cp :: "u32 \<Rightarrow> 'b \<Rightarrow> (u8 list \<times> nat list \<times> 'b) outcome"
    and byt :: "'b \<Rightarrow> u32"
    and ack :: "'b \<Rightarrow> u32"
    and invar :: "(nat \<Rightarrow> u8) \<Rightarrow> u32 \<Rightarrow> nat \<Rightarrow> 'b \<Rightarrow> bool"
  assumes ins_invar: "invar S isn r b \<Longrightarrow> from_stream S isn e \<Longrightarrow> invar S isn r (snd (ins e psh b))"
    and cp_invar: "invar S isn r b \<Longrightarrow> 0 < byt b \<Longrightarrow> n \<le> byt b \<Longrightarrow>
         \<exists>fr b'. cp n b = Inr (map S [r..<r + unat n], fr, b') \<and> invar S isn (r + unat n) b'"
    and ack_value: "invar S isn r b \<Longrightarrow> ack b = isn + of_nat (r + unat (byt b))"
begin

lemma run_reads_stream:
  assumes "invar S isn r b" and "\<forall>e psh. Insert e psh \<in> set ops \<longrightarrow> from_stream S isn e"
  shows "\<exists>r' b'. r \<le> r' \<and> run_recv ins cp byt ops b = Inr (map S [r..<r'], b') \<and> invar S isn r' b'"
  using assms
proof (induction ops arbitrary: r b)
  case (Cons op ops)
  have rest: "\<forall>e psh. Insert e psh \<in> set ops \<longrightarrow> from_stream S isn e" using Cons.prems(2) by simp
  show ?case
  proof (cases op)
    case (Insert e psh)
    with Cons.prems have "invar S isn r (snd (ins e psh b))" by (intro ins_invar) auto
    from Cons.IH [OF this rest] Insert show ?thesis by simp
  next
    case (Read n)
    show ?thesis
    proof (cases "byt b = 0")
      case True
      with Cons.IH [OF Cons.prems(1) rest] Read show ?thesis by simp
    next
      case False
      let ?n = "if n \<le> byt b then n else byt b"
      obtain fr b1 where b1: "cp ?n b = Inr (map S [r..<r + unat ?n], fr, b1)" "invar S isn (r + unat ?n) b1"
      proof -
        have "0 < byt b" "?n \<le> byt b" using False by (simp_all add: word_neq_0_conv)
        from cp_invar [OF Cons.prems(1) this] show ?thesis using that by blast
      qed
      obtain r' b' where r': "r + unat ?n \<le> r'" "run_recv ins cp byt ops b1 = Inr (map S [r + unat ?n..<r'], b')" "invar S isn r' b'"
        using Cons.IH [OF b1(2) rest] by auto
      have "map S [r..<r + unat ?n] @ map S [r + unat ?n..<r'] = map S [r..<r']"
        using r'(1) by (metis le_add1 le_add_diff_inverse map_append upt_add_eq_append)
      with False Read b1 r' show ?thesis by (intro exI [of _ r'] exI [of _ b']) auto
    qed
  qed
qed auto

end

subsection \<open>Both versions implement it\<close>

lemma stream_at_unique:
  assumes "stream_at S isn p e" and "el_seqNum e = isn + of_nat q" and "q < 2 ^ 32"
  shows "p = q"
proof -
  have "(of_nat p :: u32) = of_nat q" using assms(1,2) by (simp add: stream_at_def)
  moreover have "p < 2 ^ 32" using assms(1) by (simp add: stream_at_def)
  ultimately show ?thesis using assms(3) by (rule of_nat_u32_inj)
qed

definition one_rinv :: "(nat \<Rightarrow> u8) \<Rightarrow> u32 \<Rightarrow> nat \<Rightarrow> tcp_recvbuf \<Rightarrow> bool" where
  "one_rinv S isn r rb \<longleftrightarrow> read_firstSeqNum rb = isn + of_nat r \<and> r < 2 ^ 32 \<and>
     (rv_elems rb = [] \<or> (\<exists>e. rv_elems rb = [e] \<and> stream_at S isn r e \<and> 0 < el_len e))"

lemma el_copy_stream:
  assumes "stream_at S isn p e" and "n \<le> el_len e"
  shows "el_copy n e = Inr (map S [p..<p + unat n])"
proof -
  have "unat n \<le> unat (el_len e)" using assms(2) by (simp add: word_le_nat_alt)
  moreover have "take (unat n) (take (unat (el_len e)) (el_data e)) = take (unat n) (map S [p..<p + unat (el_len e)])"
    using assms(1) by (simp add: stream_at_def)
  ultimately show ?thesis using assms(1)
    by (simp add: el_copy_def stream_at_def take_map min_def)
qed

lemma unat_minus_le: "n \<le> m \<Longrightarrow> unat (m - n :: u32) = unat m - unat n"
  by (simp add: unat_sub)

lemma stream_at_increment:
  assumes "stream_at S isn p e" and "n \<le> el_len e"
  shows "stream_at S isn (p + unat n) (el_increment n e)"
proof -
  have le: "unat n \<le> unat (el_len e)" using assms(2) by (simp add: word_le_nat_alt)
  have "take (unat (el_len e) - unat n) (drop (unat n) (el_data e)) = drop (unat n) (take (unat (el_len e)) (el_data e))"
    by (simp add: drop_take)
  also have "\<dots> = map S [p + unat n..<p + unat (el_len e)]" using assms(1) by (simp add: stream_at_def drop_map)
  finally show ?thesis using assms le
    by (auto simp: stream_at_def el_increment_def unat_minus_le)
qed

interpretation one: stream_receiver one_insert one_copyData one_getRecvBytes one_getAckNum one_rinv
proof
  fix S isn r b n and e :: recv_element and psh
  assume inv: "one_rinv S isn r b"
  show "one_rinv S isn r (snd (one_insert e psh b))" if "from_stream S isn e"
    using inv that stream_at_unique [of S isn _ e r] by (auto simp: one_rinv_def one_insert_def from_stream_def)
  show "one_getAckNum b = isn + of_nat (r + unat (one_getRecvBytes b))"
    using inv by (auto simp: one_rinv_def one_getAckNum_def one_getRecvBytes_def getNextSeqNum_def stream_at_def)
  show "\<exists>fr b'. one_copyData n b = Inr (map S [r..<r + unat n], fr, b') \<and> one_rinv S isn (r + unat n) b'"
    if pos: "0 < one_getRecvBytes b" and len: "n \<le> one_getRecvBytes b"
  proof -
    obtain e where e: "rv_elems b = [e]" "stream_at S isn r e" "0 < el_len e"
      using inv pos by (auto simp: one_rinv_def one_getRecvBytes_def)
    have le: "n \<le> el_len e" using len e by (simp add: one_getRecvBytes_def)
    have bound: "r + unat n < 2 ^ 32" using e(2) le by (auto simp: stream_at_def word_le_nat_alt)
    have "0 < el_len e - n" if "el_len e \<noteq> n" using that by (simp add: word_neq_0_conv [symmetric])
    then have inc: "el_len e \<noteq> n \<Longrightarrow> 0 < el_len (el_increment n e)" by (simp add: el_increment_def)
    show ?thesis
      using e inv le bound inc el_copy_stream [OF e(2) le] stream_at_increment [OF e(2) le]
      by (auto simp: one_copyData_def Let_def one_rinv_def)
  qed
qed

fun contig :: "(nat \<Rightarrow> u8) \<Rightarrow> u32 \<Rightarrow> nat \<Rightarrow> recv_element list \<Rightarrow> bool" where
  "contig S isn r [] \<longleftrightarrow> True"
| "contig S isn r (e # es) \<longleftrightarrow> stream_at S isn r e \<and> contig S isn (r + unat (el_len e)) es"

definition len_total :: "recv_element list \<Rightarrow> nat" where
  "len_total es = sum_list (map (\<lambda>e. unat (el_len e)) es)"

lemma len_total_simps [simp]: "len_total [] = 0" "len_total (e # es) = unat (el_len e) + len_total es" "len_total (xs @ ys) = len_total xs + len_total ys"
  by (simp_all add: len_total_def)

lemma contig_append: "contig S isn r (xs @ ys) \<longleftrightarrow> contig S isn r xs \<and> contig S isn (r + len_total xs) ys"
  by (induction xs arbitrary: r) (auto simp: add.assoc)

lemma contig_bound: "contig S isn r es \<Longrightarrow> r < 2 ^ 32 \<Longrightarrow> r + len_total es < 2 ^ 32"
proof (induction es arbitrary: r)
  case (Cons e es)
  then have "r + unat (el_len e) + len_total es < 2 ^ 32" by (intro Cons.IH) (auto simp: stream_at_def)
  then show ?case by (simp add: add.assoc)
qed simp

lemma contig_last_next: "contig S isn r es \<Longrightarrow> es \<noteq> [] \<Longrightarrow> getNextSeqNum (last es) = isn + of_nat (r + len_total es)"
  by (induction es arbitrary: r) (auto simp: stream_at_def getNextSeqNum_def add.assoc)

text \<open>Everything in the list is from the stream, and the first \<open>rv_continuous\<close> elements follow each other without a
  gap from the first unread byte on.\<close>

definition sw_rinv :: "(nat \<Rightarrow> u8) \<Rightarrow> u32 \<Rightarrow> nat \<Rightarrow> tcp_recvbuf \<Rightarrow> bool" where
  "sw_rinv S isn r rb \<longleftrightarrow> read_firstSeqNum rb = isn + of_nat r \<and> r < 2 ^ 32 \<and>
     rv_continuous rb \<le> length (rv_elems rb) \<and> (\<forall>e \<in> set (rv_elems rb). from_stream S isn e) \<and>
     contig S isn r (take (rv_continuous rb) (rv_elems rb)) \<and>
     unat (rv_bytes rb) = len_total (take (rv_continuous rb) (rv_elems rb))"

lemma extend_continuous_contig:
  assumes "contig S isn r pre" and "pre \<noteq> []" and "r < 2 ^ 32" and "\<forall>e \<in> set rest. from_stream S isn e"
    and "unat b = len_total pre" and "extend_continuous (last pre) rest (length pre) b = (n', b')"
  shows "n' \<le> length (pre @ rest) \<and> contig S isn r (take n' (pre @ rest)) \<and> unat b' = len_total (take n' (pre @ rest))"
  using assms
proof (induction rest arbitrary: pre b)
  case (Cons e rest)
  show ?case
  proof (cases "getNextSeqNum (last pre) = el_seqNum e")
    case True
    have P: "r + len_total pre < 2 ^ 32" using Cons.prems(1,3) by (rule contig_bound)
    obtain p where p: "stream_at S isn p e" using Cons.prems(4) by (auto simp: from_stream_def)
    have "el_seqNum e = isn + of_nat (r + len_total pre)" using True contig_last_next [OF Cons.prems(1,2)] by simp
    then have e: "stream_at S isn (r + len_total pre) e" using stream_at_unique [OF p _ P] p by simp
    then have c: "contig S isn r (pre @ [e])" using Cons.prems(1) by (simp add: contig_append)
    have "len_total (pre @ [e]) < 2 ^ 32" using contig_bound [OF c Cons.prems(3)] by simp
    then have "unat (b + el_len e) = len_total (pre @ [e])" using Cons.prems(5) by (simp add: unat_add_u32)
    with Cons.IH [OF c _ Cons.prems(3)] Cons.prems(4,6) True show ?thesis by simp
  next
    case False
    with Cons.prems show ?thesis by simp
  qed
qed simp

lemma updateContinuous_rinv:
  assumes inv: "read_firstSeqNum rb = isn + of_nat r" "r < 2 ^ 32" "rv_continuous rb \<le> length (rv_elems rb)"
      "\<forall>e \<in> set (rv_elems rb). from_stream S isn e" "contig S isn r (take (rv_continuous rb) (rv_elems rb))"
      "unat (rv_bytes rb) = len_total (take (rv_continuous rb) (rv_elems rb))"
  shows "sw_rinv S isn r (updateContinuous rb)"
proof -
  have step: "sw_rinv S isn r (case extend_continuous (rv_elems rb ! (n - 1)) (drop n (rv_elems rb)) n b of
      (n', b') \<Rightarrow> rb\<lparr>rv_continuous := n', rv_bytes := b'\<rparr>)"
    if n: "0 < n" "n \<le> length (rv_elems rb)" and c: "contig S isn r (take n (rv_elems rb))" and b: "unat b = len_total (take n (rv_elems rb))"
    for n b
  proof -
    obtain n' b' where x: "extend_continuous (rv_elems rb ! (n - 1)) (drop n (rv_elems rb)) n b = (n', b')" by fastforce
    have ne: "take n (rv_elems rb) \<noteq> []" "length (take n (rv_elems rb)) = n" using n by auto
    have "last (take n (rv_elems rb)) = rv_elems rb ! (n - 1)" using n ne by (simp add: last_conv_nth)
    then have "extend_continuous (last (take n (rv_elems rb))) (drop n (rv_elems rb)) (length (take n (rv_elems rb))) b = (n', b')"
      using x ne by simp
    from extend_continuous_contig [OF c ne(1) inv(2) _ b this] x inv set_drop_subset [of n "rv_elems rb"]
    show ?thesis by (auto simp: sw_rinv_def)
  qed
  show ?thesis
  proof (cases "rv_continuous rb = 0")
    case True
    show ?thesis
    proof (cases "rv_elems rb")
      case (Cons e es)
      show ?thesis
      proof (cases "read_firstSeqNum rb = el_seqNum e")
        case hd: True
        obtain p where "stream_at S isn p e" using inv(4) Cons by (auto simp: from_stream_def)
        then have "contig S isn r [e]" using stream_at_unique [of S isn p e r] hd inv(1,2) by auto
        then have "sw_rinv S isn r (case extend_continuous (rv_elems rb ! (1 - 1)) (drop 1 (rv_elems rb)) 1 (el_len e) of
            (n', b') \<Rightarrow> rb\<lparr>rv_continuous := n', rv_bytes := b'\<rparr>)" using Cons by (intro step) simp_all
        then show ?thesis using True Cons hd by (simp only: updateContinuous_def Let_def) simp
      next
        case False
        then have "updateContinuous rb = rb" using True Cons by (simp add: updateContinuous_def)
        then show ?thesis using inv by (simp only: sw_rinv_def)
      qed
    next
      case Nil
      then have "updateContinuous rb = rb" using True by (simp add: updateContinuous_def)
      then show ?thesis using inv by (simp only: sw_rinv_def)
    qed
  next
    case False
    then show ?thesis using step [of "rv_continuous rb" "rv_bytes rb"] inv by (simp add: updateContinuous_def Let_def)
  qed
qed

lemma sw_search_bound:
  "sw_search q cont es i prev = Some k \<Longrightarrow> prev \<le> i \<Longrightarrow> k \<le> i + length es \<and> (cont = i + 1 \<and> es \<noteq> [] \<longrightarrow> cont \<le> k) \<and> (k = prev \<or> i < k)"
  by (induction es arbitrary: i prev) (auto split: if_splits, force+)

lemma sw_search_position:
  assumes "sw_search q cont (drop (cont - 1) es) (cont - 1) 0 = Some k" and "cont \<le> length es"
  shows "cont \<le> k" and "k \<le> length es"
  using sw_search_bound [OF assms(1)] assms(2) by auto

lemma sw_insert_rinv:
  assumes inv: "sw_rinv S isn r rb" and e: "from_stream S isn e"
  shows "sw_rinv S isn r (snd (sw_insert cap e psh rb))"
proof -
  let ?i = "rv_continuous rb - 1"
  have "sw_rinv S isn r (updateContinuous (rb\<lparr>rv_elems := take k (rv_elems rb) @ e # drop k (rv_elems rb)\<rparr>))"
    if k: "sw_search (el_seqNum e) (rv_continuous rb) (drop ?i (rv_elems rb)) ?i 0 = Some k" for k
  proof -
    have kb: "rv_continuous rb \<le> k" "k \<le> length (rv_elems rb)"
      using sw_search_position [OF k] inv by (simp_all add: sw_rinv_def)
    have "take (rv_continuous rb) (take k (rv_elems rb) @ e # drop k (rv_elems rb)) = take (rv_continuous rb) (rv_elems rb)"
      using kb by (simp add: min_def)
    moreover have "set (take k (rv_elems rb) @ e # drop k (rv_elems rb)) = insert e (set (rv_elems rb))"
      by (metis append_take_drop_id insert_is_Un list.simps(15) set_append Un_insert_right)
    ultimately show ?thesis using inv e kb by (intro updateContinuous_rinv) (simp_all add: sw_rinv_def)
  qed
  then show ?thesis using inv
    by (auto simp: sw_insert_def Let_def sw_rinv_def split: option.splits)
qed

lemma sw_copy_loop_stream:
  assumes "contig S isn r (take n es)" and "n \<le> length es" and "unat len \<le> len_total (take n es)"
    and "\<forall>e \<in> set es. from_stream S isn e"
  shows "\<exists>fr es' n' psh'. sw_copy_loop len es n psh = Inr (map S [r..<r + unat len], fr, es', n', psh') \<and>
     n' \<le> length es' \<and> contig S isn (r + unat len) (take n' es') \<and>
     len_total (take n' es') = len_total (take n es) - unat len \<and> (\<forall>e \<in> set es'. from_stream S isn e)"
  using assms
proof (induction es arbitrary: r n len)
  case Nil
  then show ?case by (simp add: unat_eq_0)
next
  case (Cons e es)
  show ?case
  proof (cases "len = 0")
    case True
    with Cons.prems show ?thesis by simp
  next
    case False
    then obtain m where n: "n = Suc m" using Cons.prems(3) by (cases n) (auto simp: unat_eq_0)
    have e: "stream_at S isn r e" and rest: "contig S isn (r + unat (el_len e)) (take m es)"
      using Cons.prems(1) n by simp_all
    have pos: "0 < len" using False by (simp add: word_neq_0_conv)
    show ?thesis
    proof (cases "el_len e \<le> len")
      case True
      have u: "unat (len - el_len e) = unat len - unat (el_len e)" "unat (el_len e) \<le> unat len"
        using True by (simp_all add: unat_minus_le word_le_nat_alt)
      note cp = el_copy_stream [OF e order_refl]
      show ?thesis
      proof (cases "es = []")
        case True
        then have "unat len = unat (el_len e)" using Cons.prems(3) n u by simp
        then show ?thesis using True \<open>el_len e \<le> len\<close> pos cp Cons.prems n by auto
      next
        case ne: False
        obtain fr es' n' psh' where IH: "sw_copy_loop (len - el_len e) es m psh =
              Inr (map S [r + unat (el_len e)..<r + unat (el_len e) + unat (len - el_len e)], fr, es', n', psh')"
            "n' \<le> length es'" "contig S isn (r + unat (el_len e) + unat (len - el_len e)) (take n' es')"
            "len_total (take n' es') = len_total (take m es) - unat (len - el_len e)" "\<forall>e \<in> set es'. from_stream S isn e"
        proof -
          have "m \<le> length es" "unat (len - el_len e) \<le> len_total (take m es)" "\<forall>e \<in> set es. from_stream S isn e"
            using Cons.prems n u by simp_all
          from Cons.IH [OF rest this] show ?thesis using that by blast
        qed
        have "map S [r..<r + unat (el_len e)] @ map S [r + unat (el_len e)..<r + unat len] = map S [r..<r + unat len]"
          using u(2) by (metis add_le_cancel_left le_add1 le_add_diff_inverse map_append upt_add_eq_append)
        then show ?thesis using ne True pos cp n IH u by simp
      qed
    next
      case gt: False
      then have le: "len \<le> el_len e" by simp
      have "0 < el_len (el_increment len e)" using gt by (simp add: el_increment_def word_neq_0_conv [symmetric])
      then have fs: "from_stream S isn (el_increment len e)"
        using stream_at_increment [OF e le] by (auto simp: from_stream_def)
      have "r + unat len + unat (el_len e - len) = r + unat (el_len e)" "unat (el_len e - len) = unat (el_len e) - unat len" "unat len \<le> unat (el_len e)"
        using le by (simp_all add: unat_minus_le word_le_nat_alt)
      then show ?thesis using gt pos el_copy_stream [OF e le] stream_at_increment [OF e le] rest fs n Cons.prems
        by (simp add: el_increment_def)
    qed
  qed
qed

interpretation swr: stream_receiver "sw_insert cap" sw_copyData sw_getRecvBytes sw_getAckNum sw_rinv for cap
proof
  fix S isn r b n and e :: recv_element and psh
  assume inv: "sw_rinv S isn r b"
  show "sw_rinv S isn r (snd (sw_insert cap e psh b))" if "from_stream S isn e"
    using inv that by (rule sw_insert_rinv)
  show "sw_getAckNum b = isn + of_nat (r + unat (sw_getRecvBytes b))"
  proof (cases "rv_continuous b = 0")
    case True
    then show ?thesis using inv by (simp add: sw_rinv_def sw_getAckNum_def sw_getRecvBytes_def)
  next
    case False
    let ?t = "take (rv_continuous b) (rv_elems b)"
    have len: "rv_continuous b \<le> length (rv_elems b)" using inv by (simp add: sw_rinv_def)
    then have ne: "?t \<noteq> []" using False by auto
    then have "last ?t = rv_elems b ! (rv_continuous b - 1)" using False len by (simp add: last_conv_nth)
    with ne show ?thesis using False inv contig_last_next [of S isn r ?t]
      by (simp add: sw_rinv_def sw_getAckNum_def sw_getRecvBytes_def)
  qed
  show "\<exists>fr b'. sw_copyData n b = Inr (map S [r..<r + unat n], fr, b') \<and> sw_rinv S isn (r + unat n) b'"
    if "0 < sw_getRecvBytes b" and len: "n \<le> sw_getRecvBytes b"
  proof -
    have le: "unat n \<le> len_total (take (rv_continuous b) (rv_elems b))"
      using len inv by (simp add: sw_getRecvBytes_def sw_rinv_def word_le_nat_alt)
    have "contig S isn r (take (rv_continuous b) (rv_elems b))" "r < 2 ^ 32" using inv by (simp_all add: sw_rinv_def)
    from contig_bound [OF this] le have bound: "r + unat n < 2 ^ 32" by simp
    have "unat (rv_bytes b - n) = unat (rv_bytes b) - unat n"
      using len by (simp add: unat_minus_le sw_getRecvBytes_def)
    with sw_copy_loop_stream [of S isn r "rv_continuous b" "rv_elems b" n "pushFlag b"] inv le bound
    show ?thesis by (fastforce simp: sw_copyData_def sw_rinv_def)
  qed
qed

subsection \<open>Properties of the receive buffer\<close>

text \<open>C15: The sliding window receive buffer delivers the peer's byte stream. Segments of the stream may be
  inserted in any order, repeatedly, with gaps and with overlaps, and reads may come at any time and in any
  portions: no access leaves the buffers, the bytes read, in order, are exactly the first bytes of the
  stream, and the acknowledgement number is that of the first byte not yet received in sequence. The
  sequence numbers may wrap; the stream is shorter than \<open>2\<^sup>3\<^sup>2\<close> bytes.\<close>

theorem receive_buffer_delivers_stream:
  assumes start: "rb = setFirstSeqNum isn (TCP_ReceiveBuffer garbage)"
    and segs: "\<forall>e psh. Insert e psh \<in> set ops \<longrightarrow> from_stream S isn e"
  shows "\<exists>r rb'. run_recv (sw_insert cap) sw_copyData sw_getRecvBytes ops rb = Inr (map S [0..<r], rb') \<and>
      sw_getAckNum rb' = isn + of_nat (r + unat (sw_getRecvBytes rb'))"
proof -
  have "sw_rinv S isn 0 rb" by (simp add: sw_rinv_def start setFirstSeqNum_def TCP_ReceiveBuffer_def)
  from swr.run_reads_stream [OF this segs, of cap] show ?thesis using swr.ack_value by blast
qed

theorem receive_buffer_delivers_stream_witness:
  "\<exists>r rb'. run_recv (sw_insert 4) sw_copyData sw_getRecvBytes
     [Insert \<lparr>el_len = 2, el_seqNum = 1, el_data = [3, 4], el_segment = 0\<rparr> False,
      Insert \<lparr>el_len = 2, el_seqNum = 0xFFFFFFFF, el_data = [1, 2], el_segment = 1\<rparr> True, Read 3]
     (setFirstSeqNum 0xFFFFFFFF (TCP_ReceiveBuffer 0)) = Inr (map (\<lambda>i. of_nat (i + 1)) [0..<r], rb')"
proof -
  let ?S = "\<lambda>i. of_nat (i + 1) :: u8"
  have "from_stream ?S 0xFFFFFFFF \<lparr>el_len = 2, el_seqNum = 1, el_data = [3, 4], el_segment = 0\<rparr>"
    by (auto simp: from_stream_def stream_at_def upt_conv_Cons intro!: exI [of _ 2])
  moreover have "from_stream ?S 0xFFFFFFFF \<lparr>el_len = 2, el_seqNum = 0xFFFFFFFF, el_data = [1, 2], el_segment = 1\<rparr>"
    by (auto simp: from_stream_def stream_at_def upt_conv_Cons intro!: exI [of _ 0])
  ultimately have h: "\<forall>e psh. Insert e psh \<in> set [Insert \<lparr>el_len = 2, el_seqNum = 1, el_data = [3, 4], el_segment = 0\<rparr> False,
      Insert \<lparr>el_len = 2, el_seqNum = 0xFFFFFFFF, el_data = [1, 2], el_segment = 1\<rparr> True, Read 3] \<longrightarrow> from_stream ?S 0xFFFFFFFF e"
    by simp
  show ?thesis using receive_buffer_delivers_stream [OF refl h, of 4 0] by blast
qed

text \<open>The one-element receive buffer keeps the same promise when it is only read while it reports data:
  whatever segments of the stream are offered to it, the bytes read are exactly the first bytes of the
  stream.\<close>

theorem one_element_delivers_stream:
  assumes start: "rb = setFirstSeqNum isn (TCP_ReceiveBuffer garbage)"
    and segs: "\<forall>e psh. Insert e psh \<in> set ops \<longrightarrow> from_stream S isn e"
  shows "\<exists>r rb'. run_recv one_insert one_copyData one_getRecvBytes ops rb = Inr (map S [0..<r], rb') \<and>
      one_getAckNum rb' = isn + of_nat (r + unat (one_getRecvBytes rb'))"
proof -
  have "one_rinv S isn 0 rb" by (simp add: one_rinv_def start setFirstSeqNum_def TCP_ReceiveBuffer_def)
  from one.run_reads_stream [OF this segs] show ?thesis using one.ack_value by blast
qed

theorem one_element_delivers_stream_witness:
  "\<exists>r rb'. run_recv one_insert one_copyData one_getRecvBytes
     [Insert \<lparr>el_len = 2, el_seqNum = 5, el_data = [1, 2], el_segment = 1\<rparr> True, Read 1, Read 7]
     (setFirstSeqNum 5 (TCP_ReceiveBuffer 0)) = Inr (map (\<lambda>i. of_nat (i + 1)) [0..<r], rb')"
proof -
  let ?S = "\<lambda>i. of_nat (i + 1) :: u8"
  have "from_stream ?S 5 \<lparr>el_len = 2, el_seqNum = 5, el_data = [1, 2], el_segment = 1\<rparr>"
    by (auto simp: from_stream_def stream_at_def upt_conv_Cons intro!: exI [of _ 0])
  then have h: "\<forall>e psh. Insert e psh \<in> set [Insert \<lparr>el_len = 2, el_seqNum = 5, el_data = [1, 2], el_segment = 1\<rparr> True, Read 1, Read 7] \<longrightarrow>
      from_stream ?S 5 e" by simp
  show ?thesis using one_element_delivers_stream [OF refl h, of 0] by blast
qed

lemma SEQ_GEQ_refl [simp]: "SEQ_GEQ a a"
  by (simp add: SEQ_GEQ_def)

text \<open>The next expected segment is accepted. When everything stored so far is in sequence, fewer than
  \<open>2\<^sup>3\<^sup>1\<close> bytes are unread and an element is free, a segment with the acknowledged sequence number is
  stored, and the acknowledgement number and the readable bytes grow by its length.\<close>

theorem expected_segment_accepted:
  assumes inv: "sw_rinv S isn r rb" and all: "rv_continuous rb = length (rv_elems rb)"
    and room: "length (rv_elems rb) < cap" and small: "unat (sw_getRecvBytes rb) < 2 ^ 31"
    and e: "stream_at S isn (r + unat (sw_getRecvBytes rb)) e"
  shows "\<exists>rb'. sw_insert cap e psh rb = (True, rb') \<and> sw_getAckNum rb' = sw_getAckNum rb + el_len e \<and>
      unat (sw_getRecvBytes rb') = unat (sw_getRecvBytes rb) + unat (el_len e)"
proof -
  let ?es = "rv_elems rb"
  have q: "el_seqNum e = sw_getAckNum rb" using e swr.ack_value [OF inv] by (simp add: stream_at_def)
  have "el_seqNum e - read_firstSeqNum rb = of_nat (unat (sw_getRecvBytes rb))"
    using e inv by (simp add: stream_at_def sw_rinv_def)
  then have lt: "\<not> SEQ_LT (el_seqNum e) (read_firstSeqNum rb)"
    using small unfolding SEQ_LT_iff by simp
  have search: "sw_search (el_seqNum e) (rv_continuous rb) (drop (rv_continuous rb - 1) ?es) (rv_continuous rb - 1) 0 = Some (length ?es)"
  proof (cases ?es rule: rev_cases)
    case (snoc xs x)
    then show ?thesis using q all by (simp add: sw_getAckNum_def nth_append)
  qed simp
  have sum: "unat (rv_bytes rb + el_len e) = unat (rv_bytes rb) + unat (el_len e)"
    using e by (simp add: unat_add_u32 stream_at_def sw_getRecvBytes_def)
  show ?thesis
  proof (cases ?es rule: rev_cases)
    case Nil
    then show ?thesis using inv all room lt q
      by (simp add: sw_insert_def updateContinuous_def sw_getAckNum_def sw_getRecvBytes_def getNextSeqNum_def sw_rinv_def)
  next
    case (snoc xs x)
    then have "getNextSeqNum x = el_seqNum e" using q all by (simp add: sw_getAckNum_def nth_append)
    then show ?thesis using search all room lt q sum snoc
      by (simp add: sw_insert_def updateContinuous_def sw_getAckNum_def sw_getRecvBytes_def getNextSeqNum_def nth_append)
  qed
qed

theorem expected_segment_accepted_witness:
  "\<exists>rb'. sw_insert 4 \<lparr>el_len = 2, el_seqNum = 5, el_data = [0, 0], el_segment = 1\<rparr> True (setFirstSeqNum 5 (TCP_ReceiveBuffer 0)) = (True, rb') \<and>
     sw_getAckNum rb' = 7"
proof -
  let ?rb = "setFirstSeqNum 5 (TCP_ReceiveBuffer 0)" and ?e = "\<lparr>el_len = 2, el_seqNum = 5, el_data = [0, 0], el_segment = 1\<rparr>"
  have "sw_rinv (\<lambda>_. 0) 5 0 ?rb" "rv_continuous ?rb = length (rv_elems ?rb)" "length (rv_elems ?rb) < 4"
    "unat (sw_getRecvBytes ?rb) < 2 ^ 31" "stream_at (\<lambda>_. 0) 5 (0 + unat (sw_getRecvBytes ?rb)) ?e"
    by (simp_all add: sw_rinv_def setFirstSeqNum_def TCP_ReceiveBuffer_def sw_getRecvBytes_def stream_at_def upt_conv_Cons)
  from expected_segment_accepted [OF this, of True] obtain rb' where
    "sw_insert 4 ?e True ?rb = (True, rb')" "sw_getAckNum rb' = sw_getAckNum ?rb + el_len ?e" by blast
  moreover have "sw_getAckNum ?rb = 5" by (simp add: sw_getAckNum_def setFirstSeqNum_def TCP_ReceiveBuffer_def)
  ultimately show ?thesis by auto
qed

text \<open>Overlapping data blocks the buffer. Once the element behind the continuous data starts before its end
  and reaches beyond it, the segment with the acknowledged sequence number, the only one that could continue
  the stream, is refused as a duplicate.\<close>

theorem overlap_blocks_stream:
  assumes "rv_continuous rb = Suc n" and "rv_elems rb = pre @ c # d # post" and "length pre = n"
    and "SEQ_GEQ (sw_getAckNum rb) (el_seqNum d)" and "\<not> SEQ_GEQ (sw_getAckNum rb) (getNextSeqNum d)"
    and "el_seqNum e = sw_getAckNum rb"
  shows "sw_insert cap e psh rb = (False, rb)"
proof -
  have "drop n (rv_elems rb) = c # d # post" and "sw_getAckNum rb = getNextSeqNum c"
    using assms(1-3) by (simp_all add: sw_getAckNum_def nth_append)
  then show ?thesis using assms by (simp add: sw_insert_def)
qed

theorem overlap_blocks_stream_witness:
  "\<exists>rb. rb = snd (sw_insert 8 \<lparr>el_len = 10, el_seqNum = 5, el_data = [], el_segment = 2\<rparr> False
       (snd (sw_insert 8 \<lparr>el_len = 10, el_seqNum = 10, el_data = [], el_segment = 1\<rparr> False
         (setFirstSeqNum 5 (TCP_ReceiveBuffer 0))))) \<and>
     sw_insert 8 \<lparr>el_len = 5, el_seqNum = 15, el_data = [], el_segment = 3\<rparr> False rb = (False, rb)"
proof -
  let ?c = "\<lparr>el_len = 10, el_seqNum = 5, el_data = [], el_segment = 2\<rparr>"
  let ?d = "\<lparr>el_len = 10, el_seqNum = 10, el_data = [], el_segment = 1\<rparr>"
  let ?rb = "\<lparr>rv_elems = [?c, ?d], rv_continuous = 1, rv_bytes = 10, read_firstSeqNum = 5, pushFlag = False\<rparr>"
  have "snd (sw_insert 8 ?c False (snd (sw_insert 8 ?d False (setFirstSeqNum 5 (TCP_ReceiveBuffer 0))))) = ?rb"
    by (simp add: sw_insert_def updateContinuous_def getNextSeqNum_def setFirstSeqNum_def TCP_ReceiveBuffer_def
        SEQ_LT_def SEQ_GEQ_def)
  moreover have "sw_insert 8 \<lparr>el_len = 5, el_seqNum = 15, el_data = [], el_segment = 3\<rparr> False ?rb = (False, ?rb)"
    by (rule overlap_blocks_stream [of _ 0 "[]" ?c ?d "[]"]) (simp_all add: sw_getAckNum_def getNextSeqNum_def SEQ_GEQ_def)
  ultimately show ?thesis by metis
qed

end
