(* ===== verification/Ring_Buffer.thy ===== *)
theory Ring_Buffer
  imports Prelude
begin

text \<open>
  The packet queue of a socket: \<^verbatim>\<open>BasicRingbuffer\<close> of \<^verbatim>\<open>util/Ringbuffer.h\<close>, an array of pointers
  with two 8-bit positions. A slot holds \<open>None\<close> for the null pointer. The interface
  \<open>bounded_fifo\<close> states what the sockets rely on; the ring buffer is an interpretation of it.
\<close>

subsection \<open>The ring buffer as coded\<close>

text \<open>The array size is the template parameter cut to the range from 2 to 255.\<close>

definition BUFFERSIZE :: "nat \<Rightarrow> nat" where
  "BUFFERSIZE tBUFFERSIZE =
     (if tBUFFERSIZE < 2 then 2 else if tBUFFERSIZE > 255 then 255 else tBUFFERSIZE)"

record 'a ringbuffer =
  rb_buffer :: "'a option list"
  inpos :: u8
  outpos :: u8

text \<open>The constructor zeroes the positions; the slots keep what was in memory.\<close>

definition BasicRingbuffer :: "'a option list \<Rightarrow> 'a ringbuffer" where
  "BasicRingbuffer mem = \<lparr>rb_buffer = mem, inpos = 0, outpos = 0\<rparr>"

text \<open>\<open>(inpos_ + 1) % BUFFERSIZE\<close> is computed on \<open>int\<close> and only then cut to 8 bit.\<close>

definition rb_advance :: "nat \<Rightarrow> u8 \<Rightarrow> nat" where
  "rb_advance t p = (unat p + 1) mod BUFFERSIZE t"

definition put :: "nat \<Rightarrow> 'a option \<Rightarrow> 'a ringbuffer \<Rightarrow> 'a ringbuffer" where
  "put t val r =
     (if rb_advance t (inpos r) \<noteq> unat (outpos r)
      then r\<lparr>rb_buffer := (rb_buffer r)[unat (inpos r) := val],
             inpos := of_nat (rb_advance t (inpos r))\<rparr>
      else r)"

definition get :: "nat \<Rightarrow> 'a ringbuffer \<Rightarrow> 'a option \<times> 'a ringbuffer" where
  "get t r =
     (if outpos r \<noteq> inpos r
      then (rb_buffer r ! unat (outpos r), r\<lparr>outpos := of_nat (rb_advance t (outpos r))\<rparr>)
      else (None, r))"

definition isFull :: "nat \<Rightarrow> 'a ringbuffer \<Rightarrow> bool" where
  "isFull t r = (rb_advance t (inpos r) = unat (outpos r))"

subsection \<open>The interface\<close>

datatype 'a queue_op = Put 'a | Get

text \<open>
  A run of operations returns what the \<open>Get\<close> operations returned, in order. \<open>run_queue\<close> runs
  an implementation, \<open>run_list\<close> the specification: a list of at most \<open>cap\<close> elements, where
  an element that does not fit is dropped.
\<close>

fun run_queue ::
  "('a \<Rightarrow> 'q \<Rightarrow> 'q) \<Rightarrow> ('q \<Rightarrow> 'a option \<times> 'q) \<Rightarrow> 'a queue_op list \<Rightarrow> 'q \<Rightarrow> 'a option list \<times> 'q"
where
  "run_queue pt gt [] q = ([], q)"
| "run_queue pt gt (Put v # ops) q = run_queue pt gt ops (pt v q)"
| "run_queue pt gt (Get # ops) q =
     (case gt q of (x, q') \<Rightarrow> case run_queue pt gt ops q' of (xs, q'') \<Rightarrow> (x # xs, q''))"

fun run_list :: "nat \<Rightarrow> 'a queue_op list \<Rightarrow> 'a list \<Rightarrow> 'a option list \<times> 'a list" where
  "run_list cap [] xs = ([], xs)"
| "run_list cap (Put v # ops) xs = run_list cap ops (if length xs < cap then xs @ [v] else xs)"
| "run_list cap (Get # ops) xs =
     (case xs of
        [] \<Rightarrow> (case run_list cap ops [] of (ys, zs) \<Rightarrow> (None # ys, zs))
      | x # xs' \<Rightarrow> (case run_list cap ops xs' of (ys, zs) \<Rightarrow> (Some x # ys, zs)))"

locale bounded_fifo =
  fixes enq :: "'a \<Rightarrow> 'q \<Rightarrow> 'q"
    and deq :: "'q \<Rightarrow> 'a option \<times> 'q"
    and full :: "'q \<Rightarrow> bool"
    and elems :: "'q \<Rightarrow> 'a list"
    and invar :: "'q \<Rightarrow> bool"
    and cap :: nat
  assumes cap_pos: "0 < cap"
    and elems_bound: "invar q \<Longrightarrow> length (elems q) \<le> cap"
    and full_iff: "invar q \<Longrightarrow> full q \<longleftrightarrow> length (elems q) = cap"
    and enq_elems: "invar q \<Longrightarrow> \<not> full q \<Longrightarrow> elems (enq v q) = elems q @ [v]"
    and enq_full: "invar q \<Longrightarrow> full q \<Longrightarrow> enq v q = q"
    and enq_invar: "invar q \<Longrightarrow> invar (enq v q)"
    and deq_empty: "invar q \<Longrightarrow> elems q = [] \<Longrightarrow> deq q = (None, q)"
    and deq_value: "invar q \<Longrightarrow> elems q = x # xs \<Longrightarrow> fst (deq q) = Some x"
    and deq_elems: "invar q \<Longrightarrow> elems q = x # xs \<Longrightarrow> elems (snd (deq q)) = xs"
    and deq_invar: "invar q \<Longrightarrow> invar (snd (deq q))"
begin

lemma enq_spec:
  "invar q \<Longrightarrow> elems (enq v q) = (if length (elems q) < cap then elems q @ [v] else elems q)"
  using elems_bound [of q] full_iff [of q] enq_elems [of q v] enq_full [of q v] by force

text \<open>Every sequence of operations behaves as on the bounded list: refinement of whole runs.\<close>

lemma run_refines:
  assumes "invar q"
  shows "fst (run_queue enq deq ops q) = fst (run_list cap ops (elems q)) \<and>
         elems (snd (run_queue enq deq ops q)) = snd (run_list cap ops (elems q)) \<and>
         invar (snd (run_queue enq deq ops q))"
  using assms
proof (induction ops arbitrary: q)
  case (Cons op ops)
  show ?case
  proof (cases op)
    case (Put v)
    then show ?thesis using Cons.IH [of "enq v q"] Cons.prems by (simp add: enq_invar enq_spec)
  next
    case Get
    note IH = Cons.IH [OF deq_invar [OF Cons.prems]]
    show ?thesis
    proof (cases "elems q")
      case Nil
      with IH Get Cons.prems show ?thesis by (simp add: split_beta deq_empty)
    next
      case (Cons y ys)
      with IH Get \<open>invar q\<close> show ?thesis by (simp add: split_beta deq_value deq_elems)
    qed
  qed
qed simp

text \<open>What is put into a queue that is not full comes out after everything that was in it.\<close>

lemma enq_then_drain:
  assumes "invar q" and "\<not> full q"
  shows "fst (run_queue enq deq (replicate (length (elems q) + 1) Get) (enq v q)) =
         map Some (elems q @ [v])"
proof -
  have "fst (run_list cap (replicate (length xs) Get) xs) = map Some xs" for xs :: "'a list"
    by (induction xs) (auto simp: split_beta)
  from this [of "elems q @ [v]"] show ?thesis
    using assms run_refines [of "enq v q" "replicate (length (elems q) + 1) Get"]
    by (simp add: enq_invar enq_elems)
qed

end

subsection \<open>The ring buffer implements the interface\<close>

definition rb_inv :: "nat \<Rightarrow> 'a ringbuffer \<Rightarrow> bool" where
  "rb_inv t r \<longleftrightarrow> length (rb_buffer r) = BUFFERSIZE t \<and>
     unat (inpos r) < BUFFERSIZE t \<and> unat (outpos r) < BUFFERSIZE t"

definition rb_count :: "nat \<Rightarrow> 'a ringbuffer \<Rightarrow> nat" where
  "rb_count t r = (unat (inpos r) + BUFFERSIZE t - unat (outpos r)) mod BUFFERSIZE t"

definition rb_slot :: "nat \<Rightarrow> 'a ringbuffer \<Rightarrow> nat \<Rightarrow> nat" where
  "rb_slot t r i = (unat (outpos r) + i) mod BUFFERSIZE t"

text \<open>The content, oldest element first.\<close>

definition rb_slots :: "nat \<Rightarrow> 'a ringbuffer \<Rightarrow> 'a option list" where
  "rb_slots t r = map (\<lambda>i. rb_buffer r ! rb_slot t r i) [0..<rb_count t r]"

lemma BUFFERSIZE_bounds [simp]: "2 \<le> BUFFERSIZE t" "BUFFERSIZE t \<le> 255" "0 < BUFFERSIZE t"
  by (simp_all add: BUFFERSIZE_def)

lemma rb_advance_less [simp]: "rb_advance t p < BUFFERSIZE t"
  by (simp add: rb_advance_def)

lemma unat_rb_advance [simp]: "unat (of_nat (rb_advance t p) :: u8) = rb_advance t p"
  using rb_advance_less [of t p] BUFFERSIZE_bounds(2) [of t] by (intro unat_of_nat_u8) linarith

lemma length_rb_slots [simp]: "length (rb_slots t r) = rb_count t r"
  by (simp add: rb_slots_def)

lemma rb_count_bound: "rb_count t r \<le> BUFFERSIZE t - 1"
  unfolding rb_count_def by (rule mod_distance_less) simp

lemma isFull_iff_count: "rb_inv t r \<Longrightarrow> isFull t r \<longleftrightarrow> rb_count t r = BUFFERSIZE t - 1"
  unfolding rb_inv_def isFull_def rb_count_def rb_advance_def by (rule mod_distance_full) auto

lemma rb_count_0_iff: "rb_inv t r \<Longrightarrow> rb_count t r = 0 \<longleftrightarrow> outpos r = inpos r"
  unfolding rb_inv_def rb_count_def
  by (metis (no_types, lifting) BUFFERSIZE_bounds(3) add_0_right add_diff_cancel_left' mod_add_cancel_right
      mod_less mod_self word_unat_eq_iff)

lemma rb_slots_put:
  assumes inv: "rb_inv t r" and nf: "\<not> isFull t r"
  shows "rb_slots t (put t v r) = rb_slots t r @ [v]"
proof -
  let ?n = "BUFFERSIZE t" and ?a = "unat (outpos r)" and ?b = "unat (inpos r)"
  let ?r = "put t v r"
  have ab: "?a < ?n" "?b < ?n" using inv by (auto simp: rb_inv_def)
  have ne: "(?b + 1) mod ?n \<noteq> ?a" using nf by (simp add: isFull_def rb_advance_def)
  have r: "?r = r\<lparr>rb_buffer := (rb_buffer r)[?b := v], inpos := of_nat (rb_advance t (inpos r))\<rparr>"
    using nf by (simp add: put_def isFull_def)
  have inp: "unat (inpos ?r) = (?b + 1) mod ?n" "outpos ?r = outpos r"
    using unat_rb_advance [of t "inpos r"] by (simp_all add: r rb_advance_def)
  have count: "rb_count t ?r = rb_count t r + 1"
    using mod_succ_distance [OF ab ne] by (simp add: inp rb_count_def)
  have slot: "rb_slot t ?r i = rb_slot t r i" for i by (simp add: r rb_slot_def)
  have last: "rb_slot t r (rb_count t r) = ?b"
    using mod_add_cancel_right [OF ab(2,1)] by (simp add: rb_slot_def rb_count_def)
  have other: "?b \<noteq> rb_slot t r i" if "i < rb_count t r" for i
  proof
    assume "?b = rb_slot t r i"
    then have "(?a + i) mod ?n = (?a + rb_count t r) mod ?n" using last by (simp add: rb_slot_def)
    moreover have "rb_count t r < ?n" by (simp add: rb_count_def)
    ultimately show False using that ab mod_add_inj [of ?a ?n i "rb_count t r"] by simp
  qed
  have "rb_slots t ?r = map (\<lambda>i. rb_buffer ?r ! rb_slot t r i) [0..<rb_count t r] @
      [rb_buffer ?r ! rb_slot t r (rb_count t r)]"
    by (simp add: rb_slots_def count slot)
  also have "\<dots> = rb_slots t r @ [v]"
    using other last ab inv by (simp add: r rb_slots_def rb_inv_def)
  finally show ?thesis .
qed

lemma rb_slots_get:
  assumes inv: "rb_inv t r" and c: "rb_count t r = Suc m"
  shows "rb_slots t r = fst (get t r) # rb_slots t (snd (get t r))"
proof -
  let ?n = "BUFFERSIZE t" and ?a = "unat (outpos r)" and ?b = "unat (inpos r)"
  let ?r = "snd (get t r)"
  have ab: "?a < ?n" "?b < ?n" using inv by (auto simp: rb_inv_def)
  have ne: "outpos r \<noteq> inpos r" using rb_count_0_iff [OF inv] c by simp
  have r: "?r = r\<lparr>outpos := of_nat (rb_advance t (outpos r))\<rparr>" using ne by (simp add: get_def)
  have outp: "unat (outpos ?r) = (?a + 1) mod ?n" "inpos ?r = inpos r" "rb_buffer ?r = rb_buffer r"
    using unat_rb_advance [of t "outpos r"] by (simp_all add: r rb_advance_def)
  have slot: "rb_slot t ?r i = rb_slot t r (Suc i)" for i
    by (simp add: outp rb_slot_def mod_simps)
  have count: "rb_count t ?r = m"
    using mod_distance_pred [OF ab] c by (simp add: outp rb_count_def)
  have "fst (get t r) = rb_buffer r ! rb_slot t r 0" using ab ne by (simp add: get_def rb_slot_def)
  then show ?thesis
    by (simp add: rb_slots_def c count slot outp map_upt_Suc_hd del: upt_Suc)
qed

lemma rb_inv_put [net_inv]: "rb_inv t r \<Longrightarrow> rb_inv t (put t v r)"
  by (simp add: rb_inv_def put_def)

lemma rb_inv_get [net_inv]: "rb_inv t r \<Longrightarrow> rb_inv t (snd (get t r))"
  by (simp add: rb_inv_def get_def)

lemma put_isFull: "isFull t r \<Longrightarrow> put t v r = r"
  by (simp add: put_def isFull_def)

text \<open>Sockets queue pointers that are not null: the queue's elements are the pointers.\<close>

definition queue_inv :: "nat \<Rightarrow> 'a ringbuffer \<Rightarrow> bool" where
  "queue_inv t r \<longleftrightarrow> rb_inv t r \<and> None \<notin> set (rb_slots t r)"

definition queue_elems :: "nat \<Rightarrow> 'a ringbuffer \<Rightarrow> 'a list" where
  "queue_elems t r = map the (rb_slots t r)"

lemma get_empty: "rb_inv t r \<Longrightarrow> rb_count t r = 0 \<Longrightarrow> get t r = (None, r)"
  using rb_count_0_iff [of t r] by (simp add: get_def)

interpretation ring: bounded_fifo
  "\<lambda>v. put t (Some v)" "get t" "isFull t" "queue_elems t" "queue_inv t" "BUFFERSIZE t - 1" for t
proof
  fix q :: "'a ringbuffer" and v x :: 'a and xs
  show "0 < BUFFERSIZE t - 1" using BUFFERSIZE_bounds(1) [of t] by linarith
  show "length (queue_elems t q) \<le> BUFFERSIZE t - 1"
    using rb_count_bound [of t q] by (simp add: queue_elems_def)
  {
    assume inv: "queue_inv t q"
    then have r: "rb_inv t q" and nn: "None \<notin> set (rb_slots t q)" by (auto simp: queue_inv_def)
    show "isFull t q = (length (queue_elems t q) = BUFFERSIZE t - 1)"
      using r by (simp add: queue_elems_def isFull_iff_count)
    show "isFull t q \<Longrightarrow> put t (Some v) q = q" by (rule put_isFull)
    show "queue_elems t (put t (Some v) q) = queue_elems t q @ [v]" if "\<not> isFull t q"
      using r that by (simp add: queue_elems_def rb_slots_put)
    show "queue_inv t (put t (Some v) q)"
      using r nn by (cases "isFull t q") (auto simp: queue_inv_def rb_slots_put put_isFull rb_inv_put)
    show "get t q = (None, q)" if "queue_elems t q = []"
      using r that by (intro get_empty) (auto simp: queue_elems_def dest: arg_cong [of _ _ length])
    have split: "rb_slots t q = fst (get t q) # rb_slots t (snd (get t q))" if "queue_elems t q = x # xs"
      using r that by (intro rb_slots_get [of t q "length xs"])
        (auto simp: queue_elems_def dest: arg_cong [of _ _ length])
    show "fst (get t q) = Some x" "queue_elems t (snd (get t q)) = xs" if "queue_elems t q = x # xs"
      using split [OF that] that nn by (auto simp: queue_elems_def)
    show "queue_inv t (snd (get t q))"
    proof (cases "rb_count t q")
      case 0
      then show ?thesis using r inv by (simp add: get_empty)
    next
      case (Suc m)
      then show ?thesis using rb_slots_get [OF r Suc] r nn by (auto simp: queue_inv_def rb_inv_get)
    qed
  }
qed

subsection \<open>Properties\<close>

lemma fresh_queue_inv: "length mem = BUFFERSIZE t \<Longrightarrow> queue_inv t (BasicRingbuffer mem)"
  by (simp add: queue_inv_def rb_inv_def rb_slots_def rb_count_def BasicRingbuffer_def)

lemma fresh_queue_elems: "queue_elems t (BasicRingbuffer mem) = []"
  by (simp add: queue_elems_def rb_slots_def rb_count_def BasicRingbuffer_def)

text \<open>C13: Refinement of whole runs. Whatever sequence of \<open>put\<close> and \<open>get\<close> calls is made on a freshly
  constructed ring buffer, over whatever memory, the values returned are those of a first-in
  first-out list that holds at most \<open>BUFFERSIZE - 1\<close> pointers and drops what does not fit.\<close>

theorem ring_buffer_refines_fifo:
  assumes "length mem = BUFFERSIZE t"
  shows "fst (run_queue (\<lambda>v. put t (Some v)) (get t) ops (BasicRingbuffer mem)) =
         fst (run_list (BUFFERSIZE t - 1) ops [])"
  using ring.run_refines [OF fresh_queue_inv [OF assms], of ops] by (simp add: fresh_queue_elems)

theorem ring_buffer_refines_fifo_witness:
  "length [None, None, None :: nat option] = BUFFERSIZE 3 \<and>
   fst (run_queue (\<lambda>v. put 3 (Some v)) (get 3) [Put 7, Put 8, Put 9, Get, Get, Get]
     (BasicRingbuffer [None, None, None])) = [Some 7, Some 8, None :: nat option]"
proof -
  have h: "length [None, None, None :: nat option] = BUFFERSIZE 3" by (simp add: BUFFERSIZE_def)
  show ?thesis
    using h ring_buffer_refines_fifo [OF h, of "[Put 7, Put 8, Put 9, Get, Get, Get]"]
    by (simp add: BUFFERSIZE_def)
qed

text \<open>The fullness test is exact and it protects the data: on any ring buffer with in-range
  positions \<open>isFull\<close> holds exactly when \<open>BUFFERSIZE - 1\<close> pointers are stored, a \<open>put\<close> into a full
  buffer changes nothing, and otherwise it appends behind everything already stored.\<close>

theorem ring_buffer_put_exact:
  assumes "rb_inv t r"
  shows "(isFull t r \<longleftrightarrow> length (rb_slots t r) = BUFFERSIZE t - 1) \<and>
         (isFull t r \<longrightarrow> put t v r = r) \<and>
         (\<not> isFull t r \<longrightarrow> rb_slots t (put t v r) = rb_slots t r @ [v]) \<and>
         rb_inv t (put t v r)"
  using assms by (simp add: isFull_iff_count put_isFull rb_slots_put rb_inv_put)

theorem ring_buffer_put_exact_witness:
  "rb_slots 3 (put 3 (Some (5 :: nat)) \<lparr>rb_buffer = [None, None, Some 4], inpos = 0, outpos = 2\<rparr>) =
   [Some 4, Some 5]"
proof -
  let ?r = "\<lparr>rb_buffer = [None, None, Some (4 :: nat)], inpos = 0, outpos = 2\<rparr>"
  have h: "rb_inv 3 ?r" by (simp add: rb_inv_def BUFFERSIZE_def)
  show ?thesis
    using ring_buffer_put_exact [OF h, of "Some 5"]
    by (simp add: isFull_def rb_advance_def BUFFERSIZE_def rb_slots_def rb_count_def rb_slot_def)
qed

end
