(* ===== verification/TCP_Socket.thy ===== *)
theory TCP_Socket
  imports TCP_History TCP_Receive_Buffer Ring_Buffer
begin

text \<open>
  \<^verbatim>\<open>tcp/TCP_Socket.h\<close> and \<^verbatim>\<open>tcp/TCP_Socket.cpp\<close>: the state of a TCP socket and every operation on it below
  the state machine. The history is the list of records that both versions of \<^verbatim>\<open>TCP_History\<close> implement, the
  packet buffer the bounded queue that the ring buffer implements. What the network does is in the field
  \<open>wire\<close>: the segments handed to the interface, oldest first. What the operating system, the clock, the driver and
  the lower layers answer is in a record of type \<open>tcp_env\<close>.
\<close>

subsection \<open>State\<close>

datatype tcp_state = CLOSED | LISTEN | SYNSENT | SYNRCVD | ESTABLISHED | FINWAIT1 | FINWAIT2 | CLOSEWAIT
  | LASTACK | CLOSING | TIMEWAIT

text \<open>A received segment in its \<open>ReceiveBuffer\<close>: its block, the segment and the length the IP layer reported.\<close>

record rcv_packet =
  pk_addr :: nat
  pk_segment :: tcp_segment
  pk_len :: u32

record tcp_socket =
  state :: tcp_state
  receiving :: bool
  application_recv_len :: u32
  receiveBuffer :: tcp_recvbuf
  maxReceiveWindow_MSS :: u32
  maxReceiveWindow_Bytes :: u32
  seqnum_unacked :: u32
  seqnum_next :: u32
  history :: "tcp_record list"
  sendWindow :: u16
  lwack :: u32
  lwseq :: u32
  mempool :: basic_mempool
  packetbuffer :: "rcv_packet list"
  FIN_received :: bool
  FIN_seqnum :: u32
  ACK_triggered :: bool
  dport :: u16
  sport :: u16
  mss :: u32
  application_buf :: "u8 list"
  application_buflen :: u32
  application_data :: "u8 list"
  waiting :: bool
  wire :: "tcp_segment list"

text \<open>
  \<open>application_buf\<close> is the memory that \<^verbatim>\<open>application_buf\<close> points to while sending; \<open>application_data\<close> collects
  what was copied to it while receiving. The environment: the configuration (pool sizes, array sizes, the sliding
  receive window feature), the clock, the driver (\<open>hasBeenSent\<close>), whether there is an interface, the size of
  the lower headers, whether \<open>prepareSendBuffer\<close> left the buffer usable, and the result of \<open>block(timeout)\<close>.
\<close>

record tcp_env =
  env_pool :: pool_config
  env_szsb :: nat
  env_szrb :: nat
  env_packet_limit :: nat
  env_hist_max :: nat
  env_recv_max :: nat
  env_sw_recv :: bool
  env_now :: u64
  env_ms_to_ticks :: "u32 \<Rightarrow> u64"
  env_ticks_to_ms :: "u64 \<Rightarrow> u32"
  env_sent :: "nat \<Rightarrow> bool"
  env_interface :: bool
  env_estimate :: u32
  env_prepared :: bool
  env_timeout :: bool

subsection \<open>The receive buffer with and without the sliding window aspect\<close>

definition getRecvBytes :: "tcp_env \<Rightarrow> tcp_socket \<Rightarrow> u32" where
  "getRecvBytes E s =
     (if env_sw_recv E then sw_getRecvBytes (receiveBuffer s) else one_getRecvBytes (receiveBuffer s))"

definition getAckNum :: "tcp_env \<Rightarrow> tcp_socket \<Rightarrow> u32" where
  "getAckNum E s = (if env_sw_recv E then sw_getAckNum (receiveBuffer s) else one_getAckNum (receiveBuffer s))"

definition recv_insert :: "tcp_env \<Rightarrow> recv_element \<Rightarrow> bool \<Rightarrow> tcp_socket \<Rightarrow> bool \<times> tcp_socket" where
  "recv_insert E e psh s =
     (case (if env_sw_recv E then sw_insert (env_recv_max E) e psh (receiveBuffer s)
            else one_insert e psh (receiveBuffer s)) of
        (ok, rb) \<Rightarrow> (ok, s\<lparr>receiveBuffer := rb\<rparr>))"

subsection \<open>Memory\<close>

definition mem_free :: "tcp_env \<Rightarrow> nat \<Rightarrow> tcp_socket \<Rightarrow> tcp_socket outcome" where
  "mem_free E a s = obind (mp_free (env_pool E) a (mempool s)) (\<lambda>m. Inr (s\<lparr>mempool := m\<rparr>))"

fun mem_free_all :: "tcp_env \<Rightarrow> nat list \<Rightarrow> tcp_socket \<Rightarrow> tcp_socket outcome" where
  "mem_free_all E [] s = Inr s"
| "mem_free_all E (a # as) s = obind (mem_free E a s) (mem_free_all E as)"

definition freeReceivedSegment :: "tcp_env \<Rightarrow> rcv_packet \<Rightarrow> tcp_socket \<Rightarrow> tcp_socket outcome" where
  "freeReceivedSegment E p s = mem_free E (pk_addr p) s"

text \<open>\<open>copyData\<close> copies to the application and frees the segments it used up.\<close>

definition recv_copy :: "tcp_env \<Rightarrow> u32 \<Rightarrow> tcp_socket \<Rightarrow> tcp_socket outcome" where
  "recv_copy E len s =
     obind (if env_sw_recv E then sw_copyData len (receiveBuffer s) else one_copyData len (receiveBuffer s))
       (\<lambda>(bs, freed, rb).
          mem_free_all E freed (s\<lparr>receiveBuffer := rb, application_data := application_data s @ bs\<rparr>))"

definition packetBufferFull :: "tcp_env \<Rightarrow> tcp_socket \<Rightarrow> bool" where
  "packetBufferFull E s = (length (packetbuffer s) \<ge> BUFFERSIZE (env_packet_limit E) - 1)"

definition addToReceiveQueue :: "tcp_env \<Rightarrow> tcp_segment \<Rightarrow> u32 \<Rightarrow> tcp_socket \<Rightarrow> bool \<times> tcp_socket" where
  "addToReceiveQueue E seg len s =
     (case mp_alloc (env_pool E) (unat (ucast len :: u16) + env_szrb E) (mempool s) of
        (None, m) \<Rightarrow> (False, s\<lparr>mempool := m\<rparr>)
      | (Some a, m) \<Rightarrow>
          (True, s\<lparr>mempool := m,
                   packetbuffer := (if packetBufferFull E s then packetbuffer s
                                    else packetbuffer s @ [\<lparr>pk_addr = a, pk_segment = seg, pk_len = ucast (ucast len :: u16)\<rparr>])\<rparr>))"

subsection \<open>Reset\<close>

definition resetSocketState :: "tcp_socket \<Rightarrow> tcp_socket" where
  "resetSocketState s =
     s\<lparr>state := CLOSED, receiving := False, maxReceiveWindow_MSS := 1, maxReceiveWindow_Bytes := DEFAULT_MSS,
       FIN_received := False, ACK_triggered := False, mss := DEFAULT_MSS, application_buflen := 0, waiting := False\<rparr>"

text \<open>The constructor; \<open>m\<close> is the pool that \<^verbatim>\<open>set_Mempool\<close> hands to the socket. What the constructor does not
  initialise is as in \<open>raw\<close>.\<close>

definition new_TCP_Socket :: "basic_mempool \<Rightarrow> tcp_socket \<Rightarrow> tcp_socket" where
  "new_TCP_Socket m raw =
     resetSocketState
       (raw\<lparr>receiveBuffer := TCP_ReceiveBuffer (read_firstSeqNum (receiveBuffer raw)), history := [], mempool := m,
           packetbuffer := [], dport := UNUSED_PORT, sport := UNUSED_PORT, wire := []\<rparr>)"

subsection \<open>Sending a buffer\<close>

text \<open>\<open>send\<close> of \<^verbatim>\<open>Socket_Send_Slice.ah\<close>: only a buffer in the writing state is transmitted.\<close>

definition tcp_send :: "tcp_buffer \<Rightarrow> tcp_socket \<Rightarrow> bool \<times> tcp_buffer \<times> tcp_socket" where
  "tcp_send b s =
     (if tb_state b \<noteq> WritingState then (False, b, s)
      else (True, b\<lparr>tb_state := TransmittedState\<rparr>, s\<lparr>wire := wire s @ [tb_segment b]\<rparr>))"

definition DEFAULT_RTO :: u32 where "DEFAULT_RTO = 6000"

definition getRTO :: u32 where "getRTO = DEFAULT_RTO"

definition retransmit :: "tcp_env \<Rightarrow> tcp_record \<Rightarrow> tcp_socket \<Rightarrow> tcp_record \<times> tcp_socket" where
  "retransmit E r s =
     (case tcp_send ((rec_buffer r)\<lparr>tb_state := WritingState\<rparr>) s of
        (_, b, s') \<Rightarrow> (setTimeout (env_now E) (env_ms_to_ticks E) getRTO (r\<lparr>rec_buffer := b\<rparr>), s'))"

definition clearHistory :: "tcp_env \<Rightarrow> tcp_socket \<Rightarrow> tcp_socket outcome" where
  "clearHistory E s =
     obind (mem_free_all E (map (tb_addr \<circ> rec_buffer) (history s)) s) (\<lambda>s'. Inr (s'\<lparr>history := []\<rparr>))"

definition record_done :: "tcp_env \<Rightarrow> u32 \<Rightarrow> tcp_record \<Rightarrow> bool" where
  "record_done E unacked r \<longleftrightarrow>
     rec_timeout r \<noteq> 0 \<and> SEQ_LT (seg_seqnum (tb_segment (rec_buffer r))) unacked \<or>
     rec_timeout r = 0 \<and> env_sent E (tb_addr (rec_buffer r))"

text \<open>The loop of \<open>updateHistory\<close>: the records that stay, and the socket.\<close>

fun sweep_records :: "tcp_env \<Rightarrow> bool \<Rightarrow> tcp_record list \<Rightarrow> tcp_socket \<Rightarrow> (tcp_record list \<times> tcp_socket) outcome" where
  "sweep_records E rt [] s = Inr ([], s)"
| "sweep_records E rt (r # rs) s =
     (if record_done E (seqnum_unacked s) r
      then obind (mem_free E (tb_addr (rec_buffer r)) s) (sweep_records E rt rs)
      else case (if rt \<and> isTimedOut (env_now E) r then retransmit E r s else (r, s)) of
             (r', s') \<Rightarrow> obind (sweep_records E rt rs s') (\<lambda>(rs', s''). Inr (r' # rs', s'')))"

definition updateHistory :: "tcp_env \<Rightarrow> bool \<Rightarrow> tcp_socket \<Rightarrow> tcp_socket outcome" where
  "updateHistory E do_retransmit s =
     (if \<not> env_interface E then clearHistory E s
      else obind (sweep_records E do_retransmit (history s) s) (\<lambda>(rs, s'). Inr (s'\<lparr>history := rs\<rparr>)))"

definition historyFull :: "tcp_env \<Rightarrow> tcp_socket \<Rightarrow> bool" where
  "historyFull E s = (length (history s) \<ge> env_hist_max E)"

definition history_add :: "tcp_env \<Rightarrow> tcp_buffer \<Rightarrow> u32 \<Rightarrow> tcp_socket \<Rightarrow> tcp_socket outcome" where
  "history_add E b msec s =
     (if historyFull E s then Inl NullDeref
      else Inr (s\<lparr>history := new_record (env_now E) (env_ms_to_ticks E) b msec # history s\<rparr>))"

definition socket_nextTimeout :: "tcp_env \<Rightarrow> tcp_socket \<Rightarrow> u32" where
  "socket_nextTimeout E s = getNextTimeout (env_now E) (env_ticks_to_ms E) (history s)"

text \<open>\<open>requestSendBufferTCP\<close> gives the address of the new buffer. When \<open>prepareSendBuffer\<close> failed, the block is
  lost.\<close>

definition requestSendBufferTCP :: "tcp_env \<Rightarrow> u32 \<Rightarrow> tcp_socket \<Rightarrow> (nat option \<times> tcp_socket) outcome" where
  "requestSendBufferTCP E payloadsize s =
     obind (if historyFull E s then updateHistory E False s else Inr s)
       (\<lambda>s. if historyFull E s then Inr (None, s)
            else case mp_alloc (env_pool E)
                        (unat (env_estimate E + (20 + payloadsize) + of_nat (env_szsb E))) (mempool s) of
                   (None, m) \<Rightarrow> Inr (None, s\<lparr>mempool := m\<rparr>)
                 | (Some a, m) \<Rightarrow>
                     if env_prepared E then Inr (Some a, s\<lparr>mempool := m\<rparr>) else Inr (None, s\<lparr>mempool := m\<rparr>))"

definition requestSendBufferTCP_syn :: "tcp_env \<Rightarrow> u32 \<Rightarrow> tcp_socket \<Rightarrow> (nat option \<times> tcp_socket) outcome" where
  "requestSendBufferTCP_syn E payloadsize s = requestSendBufferTCP E payloadsize s"

subsection \<open>Headers\<close>

definition getReceiveWindow :: "tcp_env \<Rightarrow> tcp_socket \<Rightarrow> u16" where
  "getReceiveWindow E s =
     (if state s = SYNSENT \<or> state s = CLOSED then ucast DEFAULT_MSS
      else let currRecvWnd = maxReceiveWindow_Bytes s - getRecvBytes E s
           in if currRecvWnd > 0xFFFF then 0xFFFF else ucast currRecvWnd)"

definition writeHeader :: "tcp_env \<Rightarrow> tcp_socket \<Rightarrow> tcp_segment" where
  "writeHeader E s =
     set_header_len 5
       \<lparr>seg_sport = sport s, seg_dport = dport s, seg_seqnum = seqnum_next s, seg_acknum = 0, seg_header_len = 0,
        seg_flags = 0, seg_window = getReceiveWindow E s, seg_checksum = 0, seg_urgend_ptr = 0, seg_data = []\<rparr>"

definition writeHeaderWithAck :: "tcp_env \<Rightarrow> u32 \<Rightarrow> tcp_socket \<Rightarrow> tcp_segment" where
  "writeHeaderWithAck E ack s =
     (set_ACK (set_header_len 5
       \<lparr>seg_sport = sport s, seg_dport = dport s, seg_seqnum = seqnum_next s, seg_acknum = 0, seg_header_len = 0,
        seg_flags = 0, seg_window = getReceiveWindow E s, seg_checksum = 0, seg_urgend_ptr = 0, seg_data = []\<rparr>))
     \<lparr>seg_acknum := ack\<rparr>"

text \<open>Transmit a segment in the buffer at \<open>a\<close> and remember it.\<close>

definition emit :: "tcp_env \<Rightarrow> nat \<Rightarrow> tcp_segment \<Rightarrow> u32 \<Rightarrow> tcp_socket \<Rightarrow> tcp_socket outcome" where
  "emit E a seg msec s =
     (case tcp_send \<lparr>tb_addr = a, tb_state = WritingState, tb_segment = seg\<rparr> s of
        (_, b, s') \<Rightarrow> history_add E b msec s')"

definition sendACK :: "tcp_env \<Rightarrow> u32 \<Rightarrow> tcp_socket \<Rightarrow> (bool \<times> tcp_socket) outcome" where
  "sendACK E ackNum s =
     obind (requestSendBufferTCP E 0 s)
       (\<lambda>(b, s). case b of
            None \<Rightarrow> Inr (False, s)
          | Some a \<Rightarrow> obind (emit E a (writeHeaderWithAck E ackNum s) 0 s) (\<lambda>s. Inr (True, s)))"

definition sendACK_now :: "tcp_env \<Rightarrow> tcp_socket \<Rightarrow> (bool \<times> tcp_socket) outcome" where
  "sendACK_now E s = sendACK E (getAckNum E s) (s\<lparr>ACK_triggered := False\<rparr>)"

definition triggerACK :: "tcp_socket \<Rightarrow> tcp_socket" where
  "triggerACK s = s\<lparr>ACK_triggered := True\<rparr>"

definition processACK :: "tcp_env \<Rightarrow> tcp_socket \<Rightarrow> tcp_socket outcome" where
  "processACK E s = (if ACK_triggered s then obind (sendACK_now E s) (\<lambda>(_, s). Inr s) else Inr s)"

subsection \<open>Segment handlers\<close>

definition initSendWindow :: "u16 \<Rightarrow> u32 \<Rightarrow> u32 \<Rightarrow> tcp_socket \<Rightarrow> tcp_socket" where
  "initSendWindow window seqnum acknum s = s\<lparr>sendWindow := window, lwseq := seqnum, lwack := acknum\<rparr>"

definition updateSendWindow :: "tcp_segment \<Rightarrow> u32 \<Rightarrow> u32 \<Rightarrow> tcp_socket \<Rightarrow> tcp_socket" where
  "updateSendWindow seg seqnum acknum s =
     (if SEQ_LT seqnum (lwseq s) then s
      else if seqnum = lwseq s \<and> SEQ_LT acknum (lwack s) then s
      else s\<lparr>sendWindow := seg_window seg, lwseq := seqnum, lwack := acknum\<rparr>)"

definition handleACK :: "u32 \<Rightarrow> tcp_socket \<Rightarrow> tcp_socket" where
  "handleACK acknum s =
     (if SEQ_LEQ acknum (seqnum_unacked s) then s
      else if SEQ_GT acknum (seqnum_next s) then s
      else s\<lparr>seqnum_unacked := acknum\<rparr>)"

definition handleFIN :: "tcp_segment \<Rightarrow> u32 \<Rightarrow> u32 \<Rightarrow> tcp_socket \<Rightarrow> tcp_socket" where
  "handleFIN seg seqnum payload_len s =
     (if has_FIN seg \<and> \<not> FIN_received s then s\<lparr>FIN_seqnum := seqnum + payload_len, FIN_received := True\<rparr> else s)"

definition handleData :: "tcp_env \<Rightarrow> rcv_packet \<Rightarrow> u32 \<Rightarrow> u32 \<Rightarrow> tcp_socket \<Rightarrow> bool \<times> tcp_socket" where
  "handleData E p seqnum payload_len s =
     (if payload_len > 0
      then case recv_insert E \<lparr>el_len = payload_len, el_seqNum = seqnum, el_data = get_data (pk_segment p),
                              el_segment = pk_addr p\<rparr> (has_PSH (pk_segment p)) s of
             (ok, s') \<Rightarrow> (\<not> ok, triggerACK s')
      else (True, s))"

definition FIN_complete :: "tcp_env \<Rightarrow> tcp_socket \<Rightarrow> (bool \<times> tcp_socket) outcome" where
  "FIN_complete E s =
     (if FIN_received s \<and> getAckNum E s = FIN_seqnum s
      then obind (sendACK E (FIN_seqnum s + 1) s) (\<lambda>(_, s). Inr (True, s))
      else Inr (False, s))"

definition handleSYN :: "tcp_env \<Rightarrow> rcv_packet \<Rightarrow> tcp_socket \<Rightarrow> (bool \<times> tcp_socket) outcome" where
  "handleSYN E p s =
     (if has_SYN (pk_segment p)
      then obind (freeReceivedSegment E p s) (\<lambda>s. obind (sendACK_now E s) (\<lambda>(_, s). Inr (True, s)))
      else Inr (False, s))"

definition handleSYN_final :: "tcp_env \<Rightarrow> rcv_packet \<Rightarrow> tcp_socket \<Rightarrow> (bool \<times> tcp_socket) outcome" where
  "handleSYN_final E p s =
     (if has_SYN (pk_segment p)
      then obind (freeReceivedSegment E p s) (\<lambda>s. obind (sendACK E (FIN_seqnum s + 1) s) (\<lambda>(_, s). Inr (True, s)))
      else Inr (False, s))"

definition abort :: "tcp_env \<Rightarrow> tcp_socket \<Rightarrow> tcp_socket outcome" where
  "abort E s =
     obind (clearHistory E s)
       (\<lambda>s. obind (mem_free_all E (map pk_addr (packetbuffer s)) s)
              (\<lambda>s. Inr (resetSocketState (s\<lparr>packetbuffer := []\<rparr>))))"

definition handleRST :: "tcp_env \<Rightarrow> rcv_packet \<Rightarrow> tcp_socket \<Rightarrow> (bool \<times> tcp_socket) outcome" where
  "handleRST E p s =
     (if has_RST (pk_segment p)
      then obind (freeReceivedSegment E p s) (\<lambda>s. obind (abort E s) (\<lambda>s. Inr (True, s)))
      else Inr (False, s))"

subsection \<open>Sending data\<close>

definition min3 :: "u32 \<Rightarrow> u32 \<Rightarrow> u32 \<Rightarrow> u32" where
  "min3 a b c = (if a < b then if a < c then a else c else if b < c then b else c)"

definition lowerSendWindow :: "u16 \<Rightarrow> tcp_socket \<Rightarrow> tcp_socket" where
  "lowerSendWindow subtract s = s\<lparr>sendWindow := sendWindow s - subtract\<rparr>"

definition sendSegment :: "tcp_env \<Rightarrow> u32 \<Rightarrow> tcp_socket \<Rightarrow> (bool \<times> tcp_socket) outcome" where
  "sendSegment E len s =
     obind (requestSendBufferTCP E len s)
       (\<lambda>(b, s). case b of
            None \<Rightarrow> Inr (False, s)
          | Some a \<Rightarrow>
              if unat len \<le> length (application_buf s)
              then let seg = (writeHeaderWithAck E (getAckNum E s) s)\<lparr>seg_data := take (unat len) (application_buf s)\<rparr>;
                       s = s\<lparr>application_buflen := application_buflen s - len,
                            application_buf := drop (unat len) (application_buf s)\<rparr>;
                       seg = (if application_buflen s = 0 then set_PSH seg else seg);
                       s = s\<lparr>seqnum_next := seqnum_next s + len\<rparr>;
                       s = (if sendWindow s \<noteq> 0 then lowerSendWindow (ucast len) s else s)
                   in obind (emit E a seg getRTO s) (\<lambda>s. Inr (True, s))
              else Inl OutOfBounds)"

definition sendNextSegment :: "tcp_env \<Rightarrow> tcp_socket \<Rightarrow> (bool \<times> tcp_socket) outcome" where
  "sendNextSegment E s = sendSegment E (min3 (ucast (sendWindow s)) (application_buflen s) (mss s)) s"

text \<open>The loop of \<open>processSendData\<close> with fuel.\<close>

fun send_loop :: "nat \<Rightarrow> tcp_env \<Rightarrow> tcp_socket \<Rightarrow> tcp_socket outcome" where
  "send_loop 0 E s = Inr s"
| "send_loop (Suc fuel) E s =
     (if application_buflen s > 0 \<and> sendWindow s > 0
      then obind (sendNextSegment E s) (\<lambda>(ok, s). if \<not> ok then Inr s else send_loop fuel E s)
      else Inr s)"

definition processSendData :: "tcp_env \<Rightarrow> tcp_socket \<Rightarrow> tcp_socket outcome" where
  "processSendData E s =
     (if application_buflen s = 0 then Inr s
      else if sendWindow s = 0
      then if socket_nextTimeout E s = 0 then obind (sendSegment E 1 s) (\<lambda>(_, s). Inr s) else Inr s
      else send_loop (Suc (unat (application_buflen s))) E s)"

definition setMSS :: "u32 \<Rightarrow> tcp_socket \<Rightarrow> tcp_socket" where
  "setMSS max_segment_size s =
     (let maxRecvWnd = ucast (maxReceiveWindow_MSS s) * ucast max_segment_size :: u64
      in s\<lparr>mss := max_segment_size,
           maxReceiveWindow_Bytes := (if maxRecvWnd > 0xFFFFFFFF then 0xFFFFFFFF else ucast maxRecvWnd)\<rparr>)"

definition setMaxReceiveWindow :: "u32 \<Rightarrow> tcp_socket \<Rightarrow> tcp_socket" where
  "setMaxReceiveWindow mx s = s\<lparr>maxReceiveWindow_MSS := mx\<rparr>"

definition gen_initial_seqnum :: "tcp_env \<Rightarrow> tcp_socket \<Rightarrow> tcp_socket" where
  "gen_initial_seqnum E s =
     (let usec = ucast (env_ticks_to_ms E (env_now E)) * 1000 :: u64
      in s\<lparr>seqnum_next := ucast (usec div 4), seqnum_unacked := ucast (usec div 4)\<rparr>)"

end
