(* ===== verification/TCP_Statemachine.thy ===== *)
theory TCP_Statemachine
  imports TCP_Socket
begin

text \<open>
  The eleven state handlers of \<^verbatim>\<open>tcp/statemachine\<close>, the dispatch \<open>TCP_Socket::input\<close> and the calls of the
  application interface. A handler gets the next received segment, or \<open>None\<close> for the null pointer when the packet
  buffer is empty. Blocking changes nothing in the socket; what arrives meanwhile is a step of its own.
\<close>

subsection \<open>The handlers\<close>

definition closed_in :: "tcp_env \<Rightarrow> rcv_packet option \<Rightarrow> tcp_socket \<Rightarrow> tcp_socket outcome" where
  "closed_in E p s =
     obind (case p of Some p \<Rightarrow> freeReceivedSegment E p s | None \<Rightarrow> Inr s) (\<lambda>s. Inr (s\<lparr>waiting := False\<rparr>))"



definition listen_in :: "tcp_env \<Rightarrow> rcv_packet option \<Rightarrow> tcp_socket \<Rightarrow> tcp_socket outcome" where
  "listen_in E p s =
     (case p of
        None \<Rightarrow> Inr s
      | Some p \<Rightarrow>
          obind (handleRST E p s) (\<lambda>(rst, s).
          if rst then Inr s else
          obind (freeReceivedSegment E p
                   (s\<lparr>receiveBuffer := setFirstSeqNum (seg_seqnum (pk_segment p) + 1) (receiveBuffer s)\<rparr>)) (\<lambda>s.
          obind (requestSendBufferTCP_syn E 0 s) (\<lambda>(b, s).
          case b of
            None \<Rightarrow> Inr s
          | Some a \<Rightarrow>
              let s = s\<lparr>state := SYNRCVD\<rparr>;
                  seg = set_SYN (writeHeaderWithAck E (getAckNum E s) s);
                  s = s\<lparr>seqnum_next := seqnum_next s + 1\<rparr>
              in emit E a seg getRTO s))))"

definition synsent_in :: "tcp_env \<Rightarrow> rcv_packet option \<Rightarrow> tcp_socket \<Rightarrow> tcp_socket outcome" where
  "synsent_in E p s =
     (case p of
        None \<Rightarrow> updateHistory E True s
      | Some p \<Rightarrow>
          let seqnum = seg_seqnum (pk_segment p); acknum = seg_acknum (pk_segment p); window = seg_window (pk_segment p);
              hasACK = has_ACK (pk_segment p); hasSYN = has_SYN (pk_segment p); hasRST = has_RST (pk_segment p);
              send_rst = (\<lambda>s. obind (requestSendBufferTCP E 0 s) (\<lambda>(b, s).
                 case b of
                   None \<Rightarrow> Inr s
                 | Some a \<Rightarrow> emit E a (set_RST ((writeHeader E s)\<lparr>seg_seqnum := acknum\<rparr>)) 0 s))
          in obind (freeReceivedSegment E p s) (\<lambda>s.
             if hasACK
             then if hasSYN
                  then let s = handleACK acknum s in
                       if seqnum_unacked s = seqnum_next s
                       then let s = initSendWindow window seqnum acknum (s\<lparr>state := ESTABLISHED\<rparr>);
                                s = s\<lparr>receiveBuffer := setFirstSeqNum (seqnum + 1) (receiveBuffer s)\<rparr>
                            in obind (clearHistory E s) (\<lambda>s.
                               obind (sendACK_now E s) (\<lambda>(ok, s).
                               Inr (if ok then s\<lparr>waiting := False\<rparr> else s)))
                       else send_rst s
                  else if hasRST
                  then if acknum = seqnum_next s then abort E s else Inr s
                  else send_rst s
             else if hasSYN
             then obind (clearHistory E s) (\<lambda>s.
                  let s = s\<lparr>receiveBuffer := setFirstSeqNum (seqnum + 1) (receiveBuffer s)\<rparr> in
                  obind (requestSendBufferTCP_syn E 0 s) (\<lambda>(b, s).
                  case b of
                    None \<Rightarrow> Inr s
                  | Some a \<Rightarrow>
                      let s = s\<lparr>state := SYNRCVD\<rparr>;
                          seg = set_SYN ((writeHeaderWithAck E (getAckNum E s) s)\<lparr>seg_seqnum := seqnum_next s - 1\<rparr>)
                      in emit E a seg getRTO s))
             else Inr s))"

definition synrcvd_in :: "tcp_env \<Rightarrow> rcv_packet option \<Rightarrow> tcp_socket \<Rightarrow> tcp_socket outcome" where
  "synrcvd_in E p s =
     (case p of
        None \<Rightarrow> updateHistory E True s
      | Some p \<Rightarrow>
          obind (handleRST E p s) (\<lambda>(rst, s).
          if rst then Inr s else
          obind (if has_ACK (pk_segment p)
                 then let acknum = seg_acknum (pk_segment p); s = handleACK acknum s in
                      if acknum = seqnum_next s
                      then obind (clearHistory E
                                    (initSendWindow (seg_window (pk_segment p)) (seg_seqnum (pk_segment p)) acknum
                                       (s\<lparr>state := ESTABLISHED\<rparr>)))
                             (\<lambda>s. Inr (s\<lparr>waiting := False\<rparr>))
                      else Inr s
                 else if has_SYN (pk_segment p)
                 then case history s of
                        [] \<Rightarrow> Inr s
                      | r # rs \<Rightarrow>
                          (case tcp_send (rec_buffer r) s of
                             (_, b, s') \<Rightarrow> Inr (s'\<lparr>history := r\<lparr>rec_buffer := b\<rparr> # rs\<rparr>))
                 else Inr s)
            (freeReceivedSegment E p)))"

text \<open>The part that \<open>established\<close> and \<open>finwait1\<close> share up to freeing the segment: it returns whether the segment
  has to be freed.\<close>

definition payload_length :: "rcv_packet \<Rightarrow> u32" where
  "payload_length p = pk_len p - ucast (get_header_len (pk_segment p)) * 4"

definition established_in :: "tcp_env \<Rightarrow> rcv_packet option \<Rightarrow> tcp_socket \<Rightarrow> tcp_socket outcome" where
  "established_in E p s =
     (case p of
        Some p \<Rightarrow>
          obind (handleRST E p s) (\<lambda>(rst, s).
          if rst then Inr s else
          obind (handleSYN E p s) (\<lambda>(syn, s).
          if syn then Inr s else
          let payload_len = payload_length p; seqnum = seg_seqnum (pk_segment p); acknum = seg_acknum (pk_segment p);
              s = (if has_ACK (pk_segment p) then handleACK acknum s else s);
              s = handleFIN (pk_segment p) seqnum payload_len s
          in case handleData E p seqnum payload_len s of
               (needToFree, s) \<Rightarrow>
                 let s = updateSendWindow (pk_segment p) seqnum acknum s in
                 obind (if needToFree then freeReceivedSegment E p s else Inr s) (\<lambda>s.
                 obind (FIN_complete E s) (\<lambda>(fin, s).
                 let s = (if fin then s\<lparr>state := CLOSEWAIT\<rparr> else s)
                 in Inr (if getReceiveWindow E s = 0 then triggerACK s else s)))))
      | None \<Rightarrow>
          obind (updateHistory E True s) (\<lambda>s.
          if receiving s
          then let recvBytes = getRecvBytes E s in
               if recvBytes > 0
               then let pushed = pushFlag (receiveBuffer s);
                        copyBytes = (if recvBytes > application_buflen s then application_buflen s else recvBytes)
                    in obind (recv_copy E copyBytes s) (\<lambda>s.
                       let s = s\<lparr>application_recv_len := application_recv_len s + copyBytes,
                                application_buflen := application_buflen s - copyBytes\<rparr>
                       in obind (processACK E s) (\<lambda>s.
                          Inr (if application_buflen s = 0 \<or> pushed then s\<lparr>receiving := False, waiting := False\<rparr> else s)))
               else processACK E s
          else if waiting s
          then obind (processACK E s) (\<lambda>s.
               obind (processSendData E s) (\<lambda>s.
               Inr (if application_buflen s = 0 \<and> history s = [] then s\<lparr>waiting := False\<rparr> else s)))
          else Inr s))"

definition finwait1_in :: "tcp_env \<Rightarrow> rcv_packet option \<Rightarrow> tcp_socket \<Rightarrow> tcp_socket outcome" where
  "finwait1_in E p s =
     (case p of
        Some p \<Rightarrow>
          obind (handleRST E p s) (\<lambda>(rst, s).
          if rst then Inr s else
          obind (handleSYN E p s) (\<lambda>(syn, s).
          if syn then Inr s else
          let payload_len = payload_length p; seqnum = seg_seqnum (pk_segment p); acknum = seg_acknum (pk_segment p);
              s = (if has_ACK (pk_segment p) then handleACK acknum s else s);
              s = handleFIN (pk_segment p) seqnum payload_len s
          in case handleData E p seqnum payload_len s of
               (needToFree, s) \<Rightarrow>
                 let FIN_acked = (has_ACK (pk_segment p) \<and> acknum = seqnum_next s) in
                 obind (if needToFree then freeReceivedSegment E p s else Inr s) (\<lambda>s.
                 obind (FIN_complete E s) (\<lambda>(fin, s).
                 Inr (if fin then if FIN_acked then s\<lparr>state := TIMEWAIT\<rparr> else s\<lparr>state := CLOSING\<rparr> else s)))))
      | None \<Rightarrow>
          obind (updateHistory E True s) (\<lambda>s.
          obind (processACK E s) (\<lambda>s.
          Inr (if history s = [] then s\<lparr>state := FINWAIT2\<rparr> else s))))"

definition finwait2_in :: "tcp_env \<Rightarrow> rcv_packet option \<Rightarrow> tcp_socket \<Rightarrow> tcp_socket outcome" where
  "finwait2_in E p s =
     (case p of
        Some p \<Rightarrow>
          obind (handleRST E p s) (\<lambda>(rst, s).
          if rst then Inr s else
          obind (handleSYN E p s) (\<lambda>(syn, s).
          if syn then Inr s else
          let payload_len = payload_length p; seqnum = seg_seqnum (pk_segment p);
              s = handleFIN (pk_segment p) seqnum payload_len s
          in case handleData E p seqnum payload_len s of
               (needToFree, s) \<Rightarrow>
                 obind (if needToFree then freeReceivedSegment E p s else Inr s) (\<lambda>s.
                 obind (FIN_complete E s) (\<lambda>(fin, s).
                 Inr (if fin then s\<lparr>state := TIMEWAIT\<rparr> else s)))))
      | None \<Rightarrow> obind (updateHistory E True s) (processACK E))"

definition closewait_in :: "tcp_env \<Rightarrow> rcv_packet option \<Rightarrow> tcp_socket \<Rightarrow> tcp_socket outcome" where
  "closewait_in E p s =
     (case p of
        Some p \<Rightarrow>
          obind (handleRST E p s) (\<lambda>(rst, s).
          if rst then Inr s else
          obind (handleSYN_final E p s) (\<lambda>(syn, s).
          if syn then Inr s else
          let seqnum = seg_seqnum (pk_segment p); acknum = seg_acknum (pk_segment p);
              s = (if has_ACK (pk_segment p) then handleACK acknum s else s)
          in obind (if has_FIN (pk_segment p) then obind (sendACK E (FIN_seqnum s + 1) s) (\<lambda>(_, s). Inr s) else Inr s) (\<lambda>s.
             freeReceivedSegment E p (updateSendWindow (pk_segment p) seqnum acknum s))))
      | None \<Rightarrow>
          obind (updateHistory E True s) (\<lambda>s.
          if receiving s
          then let recvBytes = getRecvBytes E s;
                   s = (if application_buflen s > recvBytes then s\<lparr>application_buflen := recvBytes\<rparr> else s);
                   s = s\<lparr>application_recv_len := application_recv_len s + application_buflen s\<rparr>
               in obind (recv_copy E (application_buflen s) s) (\<lambda>s. Inr (s\<lparr>receiving := False, waiting := False\<rparr>))
          else if waiting s
          then obind (processSendData E s) (\<lambda>s.
               Inr (if application_buflen s = 0 \<and> history s = [] then s\<lparr>waiting := False\<rparr> else s))
          else Inr s))"

definition lastack_in :: "tcp_env \<Rightarrow> rcv_packet option \<Rightarrow> tcp_socket \<Rightarrow> tcp_socket outcome" where
  "lastack_in E p s =
     (case p of
        Some p \<Rightarrow>
          obind (handleRST E p s) (\<lambda>(rst, s).
          if rst then Inr s else
          obind (handleSYN_final E p s) (\<lambda>(syn, s).
          if syn then Inr s else
          freeReceivedSegment E p
            (if has_ACK (pk_segment p) then handleACK (seg_acknum (pk_segment p)) s else s)))
      | None \<Rightarrow> obind (updateHistory E True s) (\<lambda>s. if history s = [] then abort E s else Inr s))"

definition closing_in :: "tcp_env \<Rightarrow> rcv_packet option \<Rightarrow> tcp_socket \<Rightarrow> tcp_socket outcome" where
  "closing_in E p s =
     (case p of
        Some p \<Rightarrow>
          obind (handleRST E p s) (\<lambda>(rst, s).
          if rst then Inr s else
          obind (handleSYN_final E p s) (\<lambda>(syn, s).
          if syn then Inr s else
          let s = (if has_ACK (pk_segment p) then handleACK (seg_acknum (pk_segment p)) s else s) in
          obind (if has_FIN (pk_segment p) then obind (sendACK E (FIN_seqnum s + 1) s) (\<lambda>(_, s). Inr s) else Inr s)
            (freeReceivedSegment E p)))
      | None \<Rightarrow>
          obind (updateHistory E True s) (\<lambda>s. Inr (if history s = [] then s\<lparr>state := TIMEWAIT\<rparr> else s)))"

definition timewait_in :: "tcp_env \<Rightarrow> rcv_packet option \<Rightarrow> tcp_socket \<Rightarrow> tcp_socket outcome" where
  "timewait_in E p s =
     (case p of
        Some p \<Rightarrow>
          obind (handleRST E p s) (\<lambda>(rst, s).
          if rst then Inr s else
          obind (handleSYN_final E p s) (\<lambda>(syn, s).
          if syn then Inr s else
          obind (if has_FIN (pk_segment p) then obind (sendACK E (FIN_seqnum s + 1) s) (\<lambda>(_, s). Inr s) else Inr s)
            (freeReceivedSegment E p)))
      | None \<Rightarrow>
          obind (updateHistory E True s) (\<lambda>s. if env_timeout E then abort E s else Inr s))"

definition input :: "tcp_env \<Rightarrow> rcv_packet option \<Rightarrow> tcp_socket \<Rightarrow> tcp_socket outcome" where
  "input E p s =
     (case state s of
        CLOSED \<Rightarrow> closed_in E p s
      | LISTEN \<Rightarrow> listen_in E p s
      | SYNSENT \<Rightarrow> synsent_in E p s
      | SYNRCVD \<Rightarrow> synrcvd_in E p s
      | ESTABLISHED \<Rightarrow> established_in E p s
      | FINWAIT1 \<Rightarrow> finwait1_in E p s
      | FINWAIT2 \<Rightarrow> finwait2_in E p s
      | CLOSEWAIT \<Rightarrow> closewait_in E p s
      | LASTACK \<Rightarrow> lastack_in E p s
      | CLOSING \<Rightarrow> closing_in E p s
      | TIMEWAIT \<Rightarrow> timewait_in E p s)"

subsection \<open>The application interface\<close>

text \<open>The IP layer puts a segment into the packet buffer unless it is full.\<close>

definition deliver :: "tcp_env \<Rightarrow> tcp_segment \<times> u32 \<Rightarrow> tcp_socket \<Rightarrow> tcp_socket" where
  "deliver E a s = (if packetBufferFull E s then s else snd (addToReceiveQueue E (fst a) (snd a) s))"

definition recv_step :: "tcp_env \<Rightarrow> tcp_socket \<Rightarrow> tcp_socket outcome" where
  "recv_step E s =
     (case packetbuffer s of
        [] \<Rightarrow> input E None s
      | p # ps \<Rightarrow> input E (Some p) (s\<lparr>packetbuffer := ps\<rparr>))"

text \<open>\<open>recv_loop\<close>: one environment and the segments that arrive meanwhile per iteration; \<open>None\<close> when the loop is
  still waiting after all of them.\<close>

fun recv_loop :: "(tcp_env \<times> (tcp_segment \<times> u32) list) list \<Rightarrow> tcp_socket \<Rightarrow> tcp_socket outcome option" where
  "recv_loop [] s = (if waiting s then None else Some (Inr s))"
| "recv_loop ((E, arrivals) # xs) s =
     (if waiting s
      then case recv_step E (fold (deliver E) arrivals s) of
             Inl e \<Rightarrow> Some (Inl e)
           | Inr s' \<Rightarrow> recv_loop xs s'
      else Some (Inr s))"

definition loop_then :: "tcp_socket outcome option \<Rightarrow> (tcp_socket \<Rightarrow> 'a) \<Rightarrow> ('a \<times> tcp_socket) outcome option" where
  "loop_then r f = map_option (map_sum id (\<lambda>s. (f s, s))) r"

definition tcp_listen :: "tcp_env \<Rightarrow> tcp_socket \<Rightarrow> bool \<times> tcp_socket" where
  "tcp_listen E s =
     (if state s = CLOSED
      then (True, (gen_initial_seqnum E s)\<lparr>sendWindow := 0, state := LISTEN, waiting := True\<rparr>)
      else (False, s))"

text \<open>The part of \<open>connect\<close> before the loop; \<open>port\<close> is the source port that \<open>bind\<close> chose.\<close>

definition connect_start :: "tcp_env \<Rightarrow> u16 \<Rightarrow> tcp_socket \<Rightarrow> tcp_socket outcome" where
  "connect_start E port s =
     (let s = (gen_initial_seqnum E (s\<lparr>sport := port\<rparr>))\<lparr>sendWindow := 0\<rparr> in
      obind (requestSendBufferTCP_syn E 0 s) (\<lambda>(b, s).
        case b of
          None \<Rightarrow> Inr s
        | Some a \<Rightarrow>
            let seg = set_SYN (writeHeader E s);
                s = s\<lparr>seqnum_next := seqnum_next s + 1, state := SYNSENT\<rparr>
            in obind (emit E a seg getRTO s) (\<lambda>s. Inr (s\<lparr>waiting := True\<rparr>))))"

definition connect ::
  "tcp_env \<Rightarrow> bool \<Rightarrow> u16 option \<Rightarrow> (tcp_env \<times> (tcp_segment \<times> u32) list) list \<Rightarrow> tcp_socket \<Rightarrow>
   (bool \<times> tcp_socket) outcome option"
where
  "connect E valid_addresses bound xs s =
     (if \<not> valid_addresses \<or> state s \<noteq> CLOSED then Some (Inr (False, s))
      else case bound of
             None \<Rightarrow> Some (Inr (False, s\<lparr>sport := UNUSED_PORT\<rparr>))
           | Some port \<Rightarrow>
               (case connect_start E port s of
                  Inl e \<Rightarrow> Some (Inl e)
                | Inr s \<Rightarrow> loop_then (recv_loop xs s) (\<lambda>s. state s = ESTABLISHED)))"

definition close_start :: "tcp_env \<Rightarrow> tcp_socket \<Rightarrow> tcp_socket outcome" where
  "close_start E s =
     (if state s = CLOSEWAIT \<or> state s = ESTABLISHED
      then obind (requestSendBufferTCP E 0 s) (\<lambda>(b, s).
        case b of
          None \<Rightarrow> Inr s
        | Some a \<Rightarrow>
            let seg = set_FIN (writeHeaderWithAck E (getAckNum E s) s);
                s = s\<lparr>seqnum_next := seqnum_next s + 1\<rparr>
            in obind (emit E a seg getRTO s) (\<lambda>s.
               Inr (s\<lparr>waiting := True, state := (if state s = CLOSEWAIT then LASTACK else FINWAIT1)\<rparr>)))
      else Inr s)"

definition close ::
  "tcp_env \<Rightarrow> (tcp_env \<times> (tcp_segment \<times> u32) list) list \<Rightarrow> tcp_socket \<Rightarrow> (bool \<times> tcp_socket) outcome option"
where
  "close E xs s =
     (case close_start E s of
        Inl e \<Rightarrow> Some (Inl e)
      | Inr s \<Rightarrow> loop_then (recv_loop xs s) (\<lambda>s. state s = CLOSED))"

definition receive_start :: "u32 \<Rightarrow> tcp_socket \<Rightarrow> tcp_socket" where
  "receive_start buffer_len s =
     s\<lparr>application_data := [], application_buflen := buffer_len AND 0x7FFFFFFF, application_recv_len := 0,
       receiving := True, waiting := True\<rparr>"

definition receive ::
  "(tcp_env \<times> (tcp_segment \<times> u32) list) list \<Rightarrow> u32 \<Rightarrow> tcp_socket \<Rightarrow> (int \<times> tcp_socket) outcome option"
where
  "receive xs buffer_len s =
     (if state s = ESTABLISHED \<or> state s = CLOSEWAIT
      then loop_then (recv_loop xs (receive_start buffer_len s))
             (\<lambda>s. if application_recv_len s = 0 \<and> state s = CLOSEWAIT then -2 else sint (application_recv_len s))
      else Some (Inr (-1, s)))"

definition write_start :: "u8 list \<Rightarrow> u32 \<Rightarrow> tcp_socket \<Rightarrow> tcp_socket" where
  "write_start data datasize s = s\<lparr>application_buf := data, application_buflen := datasize, waiting := True\<rparr>"

definition tcp_write ::
  "(tcp_env \<times> (tcp_segment \<times> u32) list) list \<Rightarrow> u8 list \<Rightarrow> u32 \<Rightarrow> tcp_socket \<Rightarrow> (bool \<times> tcp_socket) outcome option"
where
  "tcp_write xs data datasize s =
     (if state s = ESTABLISHED \<or> state s = CLOSEWAIT
      then loop_then (recv_loop xs (write_start data datasize s)) (\<lambda>s. state s = ESTABLISHED \<or> state s = CLOSEWAIT)
      else Some (Inr (False, s)))"

text \<open>\<open>poll\<close>: all queued segments are processed, then the history is swept and an acknowledgement sent.\<close>

fun poll_loop :: "nat \<Rightarrow> tcp_env \<Rightarrow> tcp_socket \<Rightarrow> tcp_socket outcome" where
  "poll_loop 0 E s = Inr s"
| "poll_loop (Suc n) E s =
     (case packetbuffer s of
        [] \<Rightarrow> Inr s
      | p # ps \<Rightarrow> obind (input E (Some p) (s\<lparr>packetbuffer := ps\<rparr>)) (poll_loop n E))"

definition poll :: "tcp_env \<Rightarrow> (tcp_segment \<times> u32) list \<Rightarrow> tcp_socket \<Rightarrow> (int \<times> tcp_socket) outcome" where
  "poll E arrivals s =
     (if state s = ESTABLISHED \<or> state s = CLOSEWAIT
      then let queued = (packetbuffer s \<noteq> []);
               s = (if queued then s else fold (deliver E) arrivals s) in
           obind (if packetbuffer s \<noteq> [] \<and> (queued \<or> \<not> env_timeout E)
                  then obind (poll_loop (length (packetbuffer s)) E s) (\<lambda>s. obind (updateHistory E True s) (processACK E))
                  else Inr s)
             (\<lambda>s. Inr (sint (getRecvBytes E s AND 0x7FFFFFFF), s))
      else Inr (-1, s))"

end
