(* ===== verification/TCP_Transitions.thy ===== *)
theory TCP_Transitions
  imports TCP_Statemachine
begin

text \<open>
  Which parts of a socket each operation leaves alone, and from that the transition diagram of the state machine:
  the state changes that \<open>input\<close> can make, whatever segment arrives and whatever the environment answers.
\<close>

subsection \<open>Frames\<close>

text \<open>Sending and history bookkeeping touch the pool, the history, the wire and the ACK flag only.\<close>

definition frame :: "tcp_socket \<Rightarrow> tcp_socket \<Rightarrow> bool" where
  "frame s s' \<longleftrightarrow>
     state s' = state s \<and> receiving s' = receiving s \<and> application_recv_len s' = application_recv_len s \<and>
     receiveBuffer s' = receiveBuffer s \<and> maxReceiveWindow_MSS s' = maxReceiveWindow_MSS s \<and>
     maxReceiveWindow_Bytes s' = maxReceiveWindow_Bytes s \<and> seqnum_unacked s' = seqnum_unacked s \<and>
     seqnum_next s' = seqnum_next s \<and> sendWindow s' = sendWindow s \<and> lwack s' = lwack s \<and> lwseq s' = lwseq s \<and>
     packetbuffer s' = packetbuffer s \<and> FIN_received s' = FIN_received s \<and> FIN_seqnum s' = FIN_seqnum s \<and>
     dport s' = dport s \<and> sport s' = sport s \<and> mss s' = mss s \<and> application_buf s' = application_buf s \<and>
     application_buflen s' = application_buflen s \<and> application_data s' = application_data s \<and> waiting s' = waiting s"

lemma frame_refl [simp]: "frame s s"
  by (simp add: frame_def)

lemma frame_trans [trans]: "frame s s' \<Longrightarrow> frame s' s'' \<Longrightarrow> frame s s''"
  by (simp add: frame_def)

lemma frame_fields:
  assumes "frame s s'"
  shows "state s' = state s" "receiving s' = receiving s" "application_recv_len s' = application_recv_len s"
    "receiveBuffer s' = receiveBuffer s" "maxReceiveWindow_Bytes s' = maxReceiveWindow_Bytes s"
    "seqnum_unacked s' = seqnum_unacked s" "seqnum_next s' = seqnum_next s" "sendWindow s' = sendWindow s"
    "packetbuffer s' = packetbuffer s" "FIN_received s' = FIN_received s" "FIN_seqnum s' = FIN_seqnum s"
    "mss s' = mss s" "application_buf s' = application_buf s" "application_buflen s' = application_buflen s"
    "waiting s' = waiting s" "application_data s' = application_data s" "lwseq s' = lwseq s" "lwack s' = lwack s"
  using assms by (simp_all add: frame_def)

lemma frame_updates [simp]:
  "frame s (s'\<lparr>mempool := m\<rparr>) = frame s s'" "frame s (s'\<lparr>history := h\<rparr>) = frame s s'"
  "frame s (s'\<lparr>wire := w\<rparr>) = frame s s'" "frame s (s'\<lparr>ACK_triggered := a\<rparr>) = frame s s'"
  "frame (s\<lparr>mempool := m\<rparr>) s' = frame s s'" "frame (s\<lparr>history := h\<rparr>) s' = frame s s'"
  "frame (s\<lparr>wire := w\<rparr>) s' = frame s s'" "frame (s\<lparr>ACK_triggered := a\<rparr>) s' = frame s s'"
  by (simp_all add: frame_def)

lemma frame_mem_free: "yields (mem_free E a s) (frame s)"
  unfolding mem_free_def by (rule yields_obind [where Q = "\<lambda>_. True"]) (auto simp: yields_def)

lemma frame_mem_free_all: "yields (mem_free_all E as s) (frame s)"
proof (induction as arbitrary: s)
  case (Cons a as)
  show ?case unfolding mem_free_all.simps
    by (rule yields_obind [OF frame_mem_free]) (rule yields_mono [OF Cons.IH], rule frame_trans)
qed simp

lemma frame_free: "yields (freeReceivedSegment E p s) (frame s)"
  unfolding freeReceivedSegment_def by (rule frame_mem_free)

lemma frame_clearHistory: "yields (clearHistory E s) (frame s)"
  unfolding clearHistory_def
  by (rule yields_obind [OF frame_mem_free_all]) (auto intro: frame_trans)

lemma frame_tcp_send: "frame s (snd (snd (tcp_send b s)))"
  by (simp add: tcp_send_def)

lemma frame_retransmit: "frame s (snd (retransmit E r s))"
  using frame_tcp_send by (simp add: retransmit_def split_beta)

lemma frame_sweep: "yields (sweep_records E rt rs s) (\<lambda>(rs', s'). frame s s')"
proof (induction rs arbitrary: s)
  case (Cons r rs)
  show ?case
  proof (cases "record_done E (seqnum_unacked s) r")
    case True
    have "yields (obind (mem_free E (tb_addr (rec_buffer r)) s) (sweep_records E rt rs)) (\<lambda>(rs', s'). frame s s')"
      by (rule yields_obind [OF frame_mem_free]) (rule yields_mono [OF Cons.IH], auto intro: frame_trans)
    with True show ?thesis by simp
  next
    case False
    obtain r' s' where r': "(if rt \<and> isTimedOut (env_now E) r then retransmit E r s else (r, s)) = (r', s')" by fastforce
    then have f: "frame s s'" using frame_retransmit [of s E r] by (auto split: if_splits)
    have "yields (obind (sweep_records E rt rs s') (\<lambda>(rs', s''). Inr (r' # rs', s''))) (\<lambda>(rs', s'). frame s s')"
      by (rule yields_obind [OF Cons.IH]) (auto intro: frame_trans [OF f])
    with False r' show ?thesis by (simp only: sweep_records.simps if_False prod.case)
  qed
qed simp

lemma frame_updateHistory: "yields (updateHistory E rt s) (frame s)"
  unfolding updateHistory_def
  by (auto intro!: yields_obind [OF frame_sweep] frame_clearHistory intro: frame_trans)

lemma frame_request: "yields (requestSendBufferTCP E n s) (\<lambda>(b, s'). frame s s')"
  unfolding requestSendBufferTCP_def
  by (rule yields_obind [where Q = "frame s"])
     (auto simp: frame_updateHistory intro: frame_trans split: prod.splits option.splits)

lemma frame_emit: "yields (emit E a seg t s) (frame s)"
  using frame_tcp_send [of s "\<lparr>tb_addr = a, tb_state = WritingState, tb_segment = seg\<rparr>"]
  by (auto simp: emit_def history_add_def split_beta intro: frame_trans)

lemma frame_sendACK: "yields (sendACK E n s) (\<lambda>(ok, s'). frame s s')"
  unfolding sendACK_def
proof (rule yields_obind [OF frame_request])
  fix x :: "nat option \<times> tcp_socket"
  assume "case x of (b, s') \<Rightarrow> frame s s'"
  then have f: "frame s (snd x)" by (simp add: split_beta)
  have "yields (obind (emit E a seg 0 (snd x)) (\<lambda>s. Inr (True, s))) (\<lambda>(ok, s'). frame s s')" for a seg
    by (rule yields_obind [OF frame_emit]) (simp add: frame_trans [OF f])
  then show "yields (case x of (None, s) \<Rightarrow> Inr (False, s)
      | (Some a, s) \<Rightarrow> obind (emit E a (writeHeaderWithAck E n s) 0 s) (\<lambda>s. Inr (True, s))) (\<lambda>(ok, s'). frame s s')"
    using f by (simp add: split_beta split: option.splits)
qed

lemma frame_sendACK_now: "yields (sendACK_now E s) (\<lambda>(ok, s'). frame s s')"
  unfolding sendACK_now_def
  by (rule yields_mono [OF frame_sendACK]) auto

lemma frame_processACK: "yields (processACK E s) (frame s)"
  unfolding processACK_def by (auto intro!: yields_obind [OF frame_sendACK_now])

lemma frame_FIN_complete: "yields (FIN_complete E s) (\<lambda>(f, s'). frame s s')"
  unfolding FIN_complete_def by (auto intro!: yields_obind [OF frame_sendACK])

lemma frame_handleSYN: "yields (handleSYN E p s) (\<lambda>(b, s'). frame s s' \<and> (\<not> b \<longrightarrow> s' = s))"
  unfolding handleSYN_def
  by (auto intro!: yields_obind [OF frame_free] yields_obind [OF frame_sendACK_now] intro: frame_trans)

lemma frame_handleSYN_final: "yields (handleSYN_final E p s) (\<lambda>(b, s'). frame s s' \<and> (\<not> b \<longrightarrow> s' = s))"
  unfolding handleSYN_final_def
  by (auto intro!: yields_obind [OF frame_free] yields_obind [OF frame_sendACK] intro: frame_trans)

lemmas frame_rules = frame_mem_free frame_free frame_clearHistory frame_updateHistory frame_request frame_emit
  frame_sendACK frame_sendACK_now frame_processACK frame_FIN_complete

subsection \<open>What the other operations do to the state\<close>

lemma frame_mem_free_all_state: "yields (abort E s) (\<lambda>s'. state s' = CLOSED \<and> \<not> waiting s' \<and> \<not> receiving s' \<and> application_buflen s' = 0)"
  unfolding abort_def
  by (rule yields_obind [where Q = "\<lambda>_. True"], simp add: yields_def)
     (rule yields_obind [where Q = "\<lambda>_. True"], simp_all add: yields_def resetSocketState_def)

lemmas abort_state = frame_mem_free_all_state

lemma handleRST_state: "yields (handleRST E p s) (\<lambda>(b, s'). if b then state s' = CLOSED else s' = s)"
  unfolding handleRST_def
  by (cases "has_RST (pk_segment p)")
     (auto intro!: yields_obind [OF frame_free] yields_obind [OF abort_state])

lemma state_handleACK [simp]: "state (handleACK a s) = state s"
  by (simp add: handleACK_def)

lemma state_handleFIN [simp]: "state (handleFIN seg q n s) = state s"
  by (simp add: handleFIN_def)

lemma state_updateSendWindow [simp]: "state (updateSendWindow seg q a s) = state s"
  by (simp add: updateSendWindow_def)

lemma state_initSendWindow [simp]: "state (initSendWindow w q a s) = state s"
  by (simp add: initSendWindow_def)

lemma state_triggerACK [simp]: "state (triggerACK s) = state s"
  by (simp add: triggerACK_def)

lemma state_recv_insert [simp]: "state (snd (recv_insert E e psh s)) = state s"
  by (simp add: recv_insert_def split_beta)

lemma state_handleData [simp]: "state (snd (handleData E p q n s)) = state s"
  by (simp add: handleData_def split_beta)

lemma state_tcp_send [simp]: "state (snd (snd (tcp_send b s))) = state s"
  by (simp add: tcp_send_def)

lemma recv_copy_state: "yields (recv_copy E n s) (\<lambda>s'. state s' = state s)"
  unfolding recv_copy_def
  by (rule yields_obind [where Q = "\<lambda>_. True"])
     (auto simp: yields_def frame_fields dest!: yieldsD [OF frame_mem_free_all])

lemma sendSegment_state: "yields (sendSegment E n s) (\<lambda>(ok, s'). state s' = state s)"
  unfolding sendSegment_def
  by (rule yields_obind [OF frame_request])
     (auto split: option.splits simp: Let_def lowerSendWindow_def frame_fields intro!: yields_obind [OF frame_emit])

lemma send_loop_state: "yields (send_loop n E s) (\<lambda>s'. state s' = state s)"
proof (induction n arbitrary: s)
  case (Suc n)
  show ?case
    by (auto simp: sendNextSegment_def intro!: yields_obind [OF sendSegment_state] yields_mono [OF Suc.IH])
qed simp

lemma processSendData_state: "yields (processSendData E s) (\<lambda>s'. state s' = state s)"
  unfolding processSendData_def
  by (auto intro!: yields_obind [OF sendSegment_state] send_loop_state simp del: send_loop.simps)

subsection \<open>The transition diagram\<close>

text \<open>The edges of the diagram that a received segment or an empty packet buffer can take; every state may also
  stay, and every state but \<open>CLOSED\<close> may be left for \<open>CLOSED\<close> by a reset, a timeout or the final ACK.\<close>

definition tcp_edge :: "tcp_state \<Rightarrow> tcp_state \<Rightarrow> bool" where
  "tcp_edge s t \<longleftrightarrow> s = t \<or> t = CLOSED \<or>
     (s, t) \<in> set [(LISTEN, SYNRCVD), (SYNSENT, ESTABLISHED), (SYNSENT, SYNRCVD), (SYNRCVD, ESTABLISHED),
       (ESTABLISHED, CLOSEWAIT), (FINWAIT1, FINWAIT2), (FINWAIT1, CLOSING), (FINWAIT1, TIMEWAIT),
       (FINWAIT2, TIMEWAIT), (CLOSING, TIMEWAIT)]"

lemma tcp_edge_refl [simp]: "tcp_edge s s" and tcp_edge_closed [simp]: "tcp_edge s CLOSED"
  by (simp_all add: tcp_edge_def)

lemma tcp_edges [simp]:
  "tcp_edge LISTEN SYNRCVD" "tcp_edge SYNSENT ESTABLISHED" "tcp_edge SYNSENT SYNRCVD" "tcp_edge SYNRCVD ESTABLISHED"
  "tcp_edge ESTABLISHED CLOSEWAIT" "tcp_edge FINWAIT1 FINWAIT2" "tcp_edge FINWAIT1 CLOSING" "tcp_edge FINWAIT1 TIMEWAIT"
  "tcp_edge FINWAIT2 TIMEWAIT" "tcp_edge CLOSING TIMEWAIT"
  by (simp_all add: tcp_edge_def)

lemma handle_opt_ack_state [simp]: "state (if b then handleACK a s else s) = state s"
  by simp

lemma frame_opt_free: "yields (if b then freeReceivedSegment E p s else Inr s) (frame s)"
  using frame_free by simp

lemma frame_ack_only: "yields (obind (sendACK E n s) (\<lambda>(_, s). Inr s)) (frame s)"
  by (auto intro!: yields_obind [OF frame_sendACK])

lemma closed_edge: "state s = CLOSED \<Longrightarrow> yields (closed_in E p s) (\<lambda>s'. tcp_edge CLOSED (state s'))"
  unfolding closed_in_def
  by (rule yields_obind [where Q = "frame s"]) (auto simp: frame_free frame_fields split: option.splits)

lemma listen_edge: "state s = LISTEN \<Longrightarrow> yields (listen_in E p s) (\<lambda>s'. tcp_edge LISTEN (state s'))"
  unfolding listen_in_def requestSendBufferTCP_syn_def
  by (auto split: option.splits if_splits simp: Let_def frame_fields
      intro!: yields_obind [OF handleRST_state] yields_obind [OF frame_free] yields_obind [OF frame_request]
        yields_mono [OF frame_emit])

lemma yields_state: "yields m (frame s) \<Longrightarrow> yields m (\<lambda>s'. state s' = state s)"
  by (auto elim: yields_mono simp: frame_fields)

lemma send_rst_state:
  "yields (obind (requestSendBufferTCP E 0 s) (\<lambda>(b, s). case b of
       None \<Rightarrow> Inr s | Some a \<Rightarrow> emit E a (f s) t s)) (\<lambda>s'. state s' = state s)"
  by (rule yields_obind [OF frame_request])
     (auto split: option.splits simp: frame_fields intro!: yields_mono [OF frame_emit])

lemma synsent_edge: "state s = SYNSENT \<Longrightarrow> yields (synsent_in E p s) (\<lambda>s'. tcp_edge SYNSENT (state s'))"
proof (cases p)
  case None
  assume "state s = SYNSENT"
  with None show ?thesis by (auto simp: synsent_in_def frame_fields intro!: yields_mono [OF frame_updateHistory])
next
  case (Some q)
  assume st: "state s = SYNSENT"
  have rst: "yields (obind (requestSendBufferTCP E 0 s1) (\<lambda>(b, s). case b of
       None \<Rightarrow> Inr s | Some a \<Rightarrow> emit E a (f s) t s)) (\<lambda>s'. tcp_edge SYNSENT (state s'))"
    if "state s1 = SYNSENT" for s1 f t
    by (rule yields_mono [OF send_rst_state]) (simp add: that)
  show ?thesis
    unfolding synsent_in_def requestSendBufferTCP_syn_def Some option.case Let_def
    by (rule yields_obind [OF frame_free])
       (auto split: option.splits simp: frame_fields st Let_def
         intro!: rst yields_obind [OF frame_clearHistory] yields_obind [OF frame_sendACK_now] yields_mono [OF abort_state]
           yields_obind [OF frame_request] yields_mono [OF frame_emit])
qed

lemma synrcvd_edge: "state s = SYNRCVD \<Longrightarrow> yields (synrcvd_in E p s) (\<lambda>s'. tcp_edge SYNRCVD (state s'))"
proof (cases p)
  case None
  assume "state s = SYNRCVD"
  with None show ?thesis by (auto simp: synrcvd_in_def frame_fields intro!: yields_mono [OF frame_updateHistory])
next
  case (Some q)
  assume st: "state s = SYNRCVD"
  have ack: "yields (let acknum = a; s = handleACK acknum s in
       if acknum = seqnum_next s
       then obind (clearHistory E (initSendWindow w n acknum (s\<lparr>state := ESTABLISHED\<rparr>))) (\<lambda>s. Inr (s\<lparr>waiting := False\<rparr>))
       else Inr s) (\<lambda>s'. state s' \<in> {SYNRCVD, ESTABLISHED})" for a w n
    using st by (auto simp: Let_def frame_fields intro!: yields_obind [OF frame_clearHistory])
  have syn: "yields (case history s of [] \<Rightarrow> Inr s
      | r # rs \<Rightarrow> (case tcp_send (rec_buffer r) s of (_, b, s') \<Rightarrow> Inr (s'\<lparr>history := r\<lparr>rec_buffer := b\<rparr> # rs\<rparr>)))
      (\<lambda>s'. state s' \<in> {SYNRCVD, ESTABLISHED})"
    using st by (auto simp: split_beta split: list.splits)
  show ?thesis
    unfolding synrcvd_in_def Some option.case
    by (rule yields_obind [OF handleRST_state])
       (auto simp: st intro!: yields_obind [OF ack] yields_obind [OF syn] yields_mono [OF frame_free] simp: frame_fields)
qed

lemma established_edge: "state s = ESTABLISHED \<Longrightarrow> yields (established_in E p s) (\<lambda>s'. tcp_edge ESTABLISHED (state s'))"
proof (cases p)
  case None
  assume "state s = ESTABLISHED"
  with None show ?thesis
    by (auto simp: established_in_def Let_def frame_fields intro!: yields_obind [OF frame_updateHistory]
        yields_obind [OF recv_copy_state] yields_obind [OF frame_processACK] yields_mono [OF frame_processACK]
        yields_obind [OF processSendData_state])
next
  case (Some q)
  assume st: "state s = ESTABLISHED"
  show ?thesis
    unfolding established_in_def Some option.case
    by (rule yields_obind [OF handleRST_state])
       (auto simp: st Let_def split_beta frame_fields intro!: yields_obind [OF frame_handleSYN]
         yields_obind [OF frame_free] yields_obind [OF frame_FIN_complete])
qed

lemma finwait1_edge: "state s = FINWAIT1 \<Longrightarrow> yields (finwait1_in E p s) (\<lambda>s'. tcp_edge FINWAIT1 (state s'))"
proof (cases p)
  case None
  assume "state s = FINWAIT1"
  with None show ?thesis
    by (auto simp: finwait1_in_def frame_fields intro!: yields_obind [OF frame_updateHistory] yields_obind [OF frame_processACK])
next
  case (Some q)
  assume st: "state s = FINWAIT1"
  show ?thesis
    unfolding finwait1_in_def Some option.case
    by (rule yields_obind [OF handleRST_state])
       (auto simp: st Let_def split_beta frame_fields intro!: yields_obind [OF frame_handleSYN]
         yields_obind [OF frame_free] yields_obind [OF frame_FIN_complete])
qed

lemma finwait2_edge: "state s = FINWAIT2 \<Longrightarrow> yields (finwait2_in E p s) (\<lambda>s'. tcp_edge FINWAIT2 (state s'))"
proof (cases p)
  case None
  assume "state s = FINWAIT2"
  with None show ?thesis
    by (auto simp: finwait2_in_def frame_fields intro!: yields_obind [OF frame_updateHistory] yields_mono [OF frame_processACK])
next
  case (Some q)
  assume st: "state s = FINWAIT2"
  show ?thesis
    unfolding finwait2_in_def Some option.case
    by (rule yields_obind [OF handleRST_state])
       (auto simp: st Let_def split_beta frame_fields intro!: yields_obind [OF frame_handleSYN]
         yields_obind [OF frame_free] yields_obind [OF frame_FIN_complete])
qed

lemma closewait_edge: "state s = CLOSEWAIT \<Longrightarrow> yields (closewait_in E p s) (\<lambda>s'. tcp_edge CLOSEWAIT (state s'))"
proof (cases p)
  case None
  assume "state s = CLOSEWAIT"
  with None show ?thesis
    by (auto simp: closewait_in_def Let_def frame_fields intro!: yields_obind [OF frame_updateHistory]
        yields_obind [OF recv_copy_state] yields_obind [OF processSendData_state])
next
  case (Some q)
  assume st: "state s = CLOSEWAIT"
  show ?thesis
    unfolding closewait_in_def Some option.case
    by (rule yields_obind [OF handleRST_state])
       (auto simp: st Let_def split_beta frame_fields intro!: yields_obind [OF frame_handleSYN_final]
         yields_mono [OF frame_free] yields_obind [OF frame_ack_only])
qed

lemma lastack_edge: "state s = LASTACK \<Longrightarrow> yields (lastack_in E p s) (\<lambda>s'. tcp_edge LASTACK (state s'))"
proof (cases p)
  case None
  assume "state s = LASTACK"
  with None show ?thesis
    by (auto simp: lastack_in_def frame_fields intro!: yields_obind [OF frame_updateHistory] yields_mono [OF abort_state])
next
  case (Some q)
  assume st: "state s = LASTACK"
  show ?thesis
    unfolding lastack_in_def Some option.case
    by (rule yields_obind [OF handleRST_state])
       (auto simp: st split_beta frame_fields intro!: yields_obind [OF frame_handleSYN_final] yields_mono [OF frame_free])
qed

lemma closing_edge: "state s = CLOSING \<Longrightarrow> yields (closing_in E p s) (\<lambda>s'. tcp_edge CLOSING (state s'))"
proof (cases p)
  case None
  assume "state s = CLOSING"
  with None show ?thesis by (auto simp: closing_in_def frame_fields intro!: yields_obind [OF frame_updateHistory])
next
  case (Some q)
  assume st: "state s = CLOSING"
  show ?thesis
    unfolding closing_in_def Some option.case
    by (rule yields_obind [OF handleRST_state])
       (auto simp: st Let_def split_beta frame_fields intro!: yields_obind [OF frame_handleSYN_final]
         yields_mono [OF frame_free] yields_obind [OF frame_ack_only])
qed

lemma timewait_edge: "state s = TIMEWAIT \<Longrightarrow> yields (timewait_in E p s) (\<lambda>s'. tcp_edge TIMEWAIT (state s'))"
proof (cases p)
  case None
  assume "state s = TIMEWAIT"
  with None show ?thesis
    by (auto simp: timewait_in_def frame_fields intro!: yields_obind [OF frame_updateHistory] yields_mono [OF abort_state])
next
  case (Some q)
  assume st: "state s = TIMEWAIT"
  show ?thesis
    unfolding timewait_in_def Some option.case
    by (rule yields_obind [OF handleRST_state])
       (auto simp: st split_beta frame_fields intro!: yields_obind [OF frame_handleSYN_final]
         yields_mono [OF frame_free] yields_obind [OF frame_ack_only])
qed



end
