(* ===== verification/TCP_Safety.thy ===== *)
theory TCP_Safety
  imports TCP_Transitions
begin

text \<open>
  Memory safety of a TCP socket. Every block of the socket's pool that is not free belongs to exactly one owner: a
  record of the history, a queued packet, an element of the receive buffer, or the segment that a handler is
  working on. The handlers keep that balance and run into no fault, whatever well-formed segments arrive. The
  receive buffer is that of the sliding window version.
\<close>

subsection \<open>Ownership of blocks as multisets\<close>

definition pool_owns :: "pool_config \<Rightarrow> basic_mempool \<Rightarrow> nat multiset \<Rightarrow> bool" where
  "pool_owns c m M \<longleftrightarrow> (\<exists>live. mset live = M \<and> basic.owns c m live)"

lemma pool_owns_alloc: "pool_owns c m M \<Longrightarrow> mp_alloc c n m = (Some a, m') \<Longrightarrow> pool_owns c m' (add_mset a M)"
  unfolding pool_owns_def by (metis basic.owns_alloc mset.simps(2))

lemma pool_owns_none: "pool_owns c m M \<Longrightarrow> mp_alloc c n m = (None, m') \<Longrightarrow> m' = m"
  using basic.alloc_none [of c m n m'] by (auto simp: pool_owns_def basic.owns_def)

lemma pool_owns_free:
  assumes "pool_owns c m (add_mset a M)"
  shows "\<exists>m'. mp_free c a m = Inr m' \<and> pool_owns c m' M"
proof -
  obtain live where live: "mset live = add_mset a M" "basic.owns c m live" using assms by (auto simp: pool_owns_def)
  then have "a \<in> set live" by (metis set_mset_mset union_single_eq_member)
  then obtain i where i: "i < length live" "live ! i = a" by (auto simp: in_set_conv_nth)
  have "mset (take i live @ drop (Suc i) live) = M" using mset_take_drop [OF i(1)] live(1) i(2) by simp
  with basic.owns_release [OF live(2) i(1)] i(2) show ?thesis unfolding pool_owns_def by metis
qed

definition rec_addr :: "tcp_record \<Rightarrow> nat" where
  "rec_addr r = tb_addr (rec_buffer r)"

text \<open>\<open>held E X s\<close>: the blocks in use are those of the history and \<open>X\<close>, and the history has its bounded length.\<close>

definition held :: "tcp_env \<Rightarrow> nat multiset \<Rightarrow> tcp_socket \<Rightarrow> bool" where
  "held E X s \<longleftrightarrow> pool_owns (env_pool E) (mempool s) (image_mset rec_addr (mset (history s)) + X) \<and>
     length (history s) \<le> env_hist_max E"

lemma held_frame_updates [simp]:
  "held E X (s\<lparr>state := st\<rparr>) = held E X s" "held E X (s\<lparr>receiving := b\<rparr>) = held E X s"
  "held E X (s\<lparr>wire := w\<rparr>) = held E X s" "held E X (s\<lparr>ACK_triggered := b\<rparr>) = held E X s"
  "held E X (s\<lparr>waiting := b\<rparr>) = held E X s" "held E X (s\<lparr>seqnum_next := n\<rparr>) = held E X s"
  "held E X (s\<lparr>seqnum_unacked := n\<rparr>) = held E X s" "held E X (s\<lparr>receiveBuffer := rb\<rparr>) = held E X s"
  "held E X (s\<lparr>packetbuffer := pb\<rparr>) = held E X s" "held E X (s\<lparr>application_buflen := n\<rparr>) = held E X s"
  "held E X (s\<lparr>application_buf := bs\<rparr>) = held E X s" "held E X (s\<lparr>application_data := bs\<rparr>) = held E X s"
  "held E X (s\<lparr>application_recv_len := n\<rparr>) = held E X s" "held E X (s\<lparr>sendWindow := w16\<rparr>) = held E X s"
  "held E X (s\<lparr>lwseq := n\<rparr>) = held E X s" "held E X (s\<lparr>lwack := n\<rparr>) = held E X s"
  "held E X (s\<lparr>FIN_seqnum := n\<rparr>) = held E X s" "held E X (s\<lparr>FIN_received := b\<rparr>) = held E X s"
  "held E X (s\<lparr>sport := w16\<rparr>) = held E X s" "held E X (s\<lparr>mss := n\<rparr>) = held E X s"
  by (simp_all add: held_def)

lemma mem_free_owned:
  assumes "pool_owns (env_pool E) (mempool s) (add_mset a M)"
  shows "returns (mem_free E a s) (\<lambda>s'. \<exists>m. s' = s\<lparr>mempool := m\<rparr> \<and> pool_owns (env_pool E) m M)"
  using pool_owns_free [OF assms] by (auto simp: mem_free_def)

lemma mem_free_all_owned:
  "pool_owns (env_pool E) (mempool s) (mset as + M) \<Longrightarrow>
   returns (mem_free_all E as s) (\<lambda>s'. \<exists>m. s' = s\<lparr>mempool := m\<rparr> \<and> pool_owns (env_pool E) m M)"
proof (induction as arbitrary: s)
  case Nil
  then show ?case by (auto intro!: exI [of _ "mempool s"])
next
  case (Cons a as)
  have "returns (mem_free_all E as s') (\<lambda>s'. \<exists>m. s' = s\<lparr>mempool := m\<rparr> \<and> pool_owns (env_pool E) m M)"
    if "\<exists>m. s' = s\<lparr>mempool := m\<rparr> \<and> pool_owns (env_pool E) m (mset as + M)" for s'
    using that Cons.IH [of s'] by (auto elim: returns_mono)
  then show ?case unfolding mem_free_all.simps
    using Cons.prems by (intro returns_obind [OF mem_free_owned]) simp_all
qed

lemma held_free: "held E (add_mset a X) s \<Longrightarrow> returns (mem_free E a s) (held E X)"
  by (rule returns_mono [OF mem_free_owned]) (auto simp: held_def)

lemma held_clearHistory: "held E X s \<Longrightarrow> returns (clearHistory E s) (\<lambda>s'. held E X s' \<and> history s' = [])"
  unfolding clearHistory_def
  by (rule returns_obind [OF mem_free_all_owned [of _ _ _ X]])
     (auto simp: held_def rec_addr_def [abs_def] comp_def)

lemma rec_addr_retransmit: "rec_addr (fst (retransmit E r s)) = rec_addr r" "mempool (snd (retransmit E r s)) = mempool s"
  by (simp_all add: retransmit_def tcp_send_def rec_addr_def setTimeout_def)

lemma held_sweep:
  "pool_owns (env_pool E) (mempool s) (image_mset rec_addr (mset rs) + X) \<Longrightarrow>
   returns (sweep_records E rt rs s)
     (\<lambda>(rs', s'). pool_owns (env_pool E) (mempool s') (image_mset rec_addr (mset rs') + X) \<and> length rs' \<le> length rs)"
proof (induction rs arbitrary: s X)
  case Nil
  then show ?case by simp
next
  case (Cons r rs)
  show ?case
  proof (cases "record_done E (seqnum_unacked s) r")
    case True
    have "returns (sweep_records E rt rs s') (\<lambda>(rs', s'). pool_owns (env_pool E) (mempool s') (image_mset rec_addr (mset rs') + X) \<and>
        length rs' \<le> Suc (length rs))"
      if "\<exists>m. s' = s\<lparr>mempool := m\<rparr> \<and> pool_owns (env_pool E) m (image_mset rec_addr (mset rs) + X)" for s'
      using that Cons.IH [of s' X] by (auto elim!: returns_mono)
    then have "returns (obind (mem_free E (rec_addr r) s) (sweep_records E rt rs))
        (\<lambda>(rs', s'). pool_owns (env_pool E) (mempool s') (image_mset rec_addr (mset rs') + X) \<and> length rs' \<le> Suc (length rs))"
      using Cons.prems by (intro returns_obind [OF mem_free_owned]) simp_all
    with True show ?thesis by (simp flip: rec_addr_def)
  next
    case False
    obtain r' s' where r': "(if rt \<and> isTimedOut (env_now E) r then retransmit E r s else (r, s)) = (r', s')" by fastforce
    then have eq: "rec_addr r' = rec_addr r" "mempool s' = mempool s"
      using rec_addr_retransmit [of E r s] by (auto split: if_splits)
    have "returns (sweep_records E rt rs s') (\<lambda>(rs', s'). pool_owns (env_pool E) (mempool s')
        (image_mset rec_addr (mset rs') + add_mset (rec_addr r) X) \<and> length rs' \<le> length rs)"
      using Cons.prems eq by (intro Cons.IH) simp
    then have "returns (obind (sweep_records E rt rs s') (\<lambda>(rs', s''). Inr (r' # rs', s'')))
        (\<lambda>(rs', s'). pool_owns (env_pool E) (mempool s') (image_mset rec_addr (mset rs') + X) \<and> length rs' \<le> Suc (length rs))"
      by (rule returns_obind) (auto simp: eq)
    with False r' show ?thesis by (simp only: sweep_records.simps if_False prod.case list.size add_Suc_right add_0_right)
  qed
qed

lemma held_updateHistory: "held E X s \<Longrightarrow> returns (updateHistory E rt s) (held E X)"
  unfolding updateHistory_def
  by (auto intro!: returns_mono [OF held_clearHistory] returns_obind [OF held_sweep [of _ _ _ X]] simp: held_def)

text \<open>The environment lets \<open>prepareSendBuffer\<close> succeed; otherwise the requested block is lost.\<close>

lemma held_request:
  assumes "held E X s" and prep: "env_prepared E"
  shows "returns (requestSendBufferTCP E n s)
    (\<lambda>(b, s'). case b of None \<Rightarrow> held E X s' | Some a \<Rightarrow> held E (add_mset a X) s' \<and> length (history s') < env_hist_max E)"
proof -
  have "returns (if historyFull E s then Inr (None, s)
      else case mp_alloc (env_pool E) k (mempool s) of
             (None, m) \<Rightarrow> Inr (None, s\<lparr>mempool := m\<rparr>)
           | (Some a, m) \<Rightarrow> if env_prepared E then Inr (Some a, s\<lparr>mempool := m\<rparr>) else Inr (None, s\<lparr>mempool := m\<rparr>))
     (\<lambda>(b, s'). case b of None \<Rightarrow> held E X s' | Some a \<Rightarrow> held E (add_mset a X) s' \<and> length (history s') < env_hist_max E)"
    if "held E X s" for s k
    using that prep
    by (auto simp: held_def historyFull_def split: prod.splits option.splits dest: pool_owns_none pool_owns_alloc)
  then show ?thesis unfolding requestSendBufferTCP_def
    using assms by (intro returns_obind [where Q = "held E X"]) (auto intro: held_updateHistory)
qed

lemma held_emit:
  assumes "held E (add_mset a X) s" and "length (history s) < env_hist_max E"
  shows "returns (emit E a seg t s) (held E X)"
  using assms by (simp add: emit_def tcp_send_def history_add_def historyFull_def held_def new_record_def setTimeout_def rec_addr_def)

lemma held_sendACK: "held E X s \<Longrightarrow> env_prepared E \<Longrightarrow> returns (sendACK E n s) (\<lambda>(ok, s'). held E X s')"
  unfolding sendACK_def
  by (rule returns_obind [OF held_request]) (auto split: option.splits intro!: returns_obind [OF held_emit])

lemma held_sendACK_now: "held E X s \<Longrightarrow> env_prepared E \<Longrightarrow> returns (sendACK_now E s) (\<lambda>(ok, s'). held E X s')"
  unfolding sendACK_now_def by (rule held_sendACK) simp_all

lemma held_processACK: "held E X s \<Longrightarrow> env_prepared E \<Longrightarrow> returns (processACK E s) (held E X)"
  unfolding processACK_def by (auto intro!: returns_obind [OF held_sendACK_now])

lemma held_FIN_complete: "held E X s \<Longrightarrow> env_prepared E \<Longrightarrow> returns (FIN_complete E s) (\<lambda>(b, s'). held E X s')"
  unfolding FIN_complete_def by (auto intro!: returns_obind [OF held_sendACK])

subsection \<open>The receive buffer as an owner\<close>

definition rv_blocks :: "tcp_recvbuf \<Rightarrow> nat multiset" where
  "rv_blocks rb = image_mset el_segment (mset (rv_elems rb))"

definition el_ok :: "recv_element \<Rightarrow> bool" where
  "el_ok e \<longleftrightarrow> unat (el_len e) \<le> length (el_data e) \<and> unat (el_len e) < 65536"

definition rcv_ok :: "nat \<Rightarrow> tcp_recvbuf \<Rightarrow> bool" where
  "rcv_ok cap rb \<longleftrightarrow> length (rv_elems rb) \<le> cap \<and> cap < 65536 \<and> rv_continuous rb \<le> length (rv_elems rb) \<and>
     (\<forall>e \<in> set (rv_elems rb). el_ok e) \<and> unat (rv_bytes rb) = len_total (take (rv_continuous rb) (rv_elems rb))"

lemma len_total_bound: "\<forall>e \<in> set es. el_ok e \<Longrightarrow> len_total es \<le> length es * 65535"
  by (induction es) (auto simp: el_ok_def)

lemma len_total_take_bound:
  assumes "\<forall>e \<in> set es. el_ok e" and "length es < 65536"
  shows "len_total (take n es) < 2 ^ 32"
proof -
  have "len_total (take n es) \<le> length (take n es) * 65535"
    using assms(1) by (intro len_total_bound) (meson in_set_takeD)
  also have "\<dots> \<le> 65535 * 65535" using assms(2) by (intro mult_le_mono1) simp
  finally show ?thesis by simp
qed

lemma extend_continuous_ok:
  assumes "extend_continuous c es n b = (n', b')" and "unat b = len_total pre" and "length pre = n"
    and "\<forall>e \<in> set (pre @ es). el_ok e" and "length (pre @ es) < 65536"
  shows "n' \<le> length (pre @ es) \<and> unat b' = len_total (take n' (pre @ es))"
  using assms
proof (induction es arbitrary: c n b pre)
  case (Cons e es)
  show ?case
  proof (cases "getNextSeqNum c = el_seqNum e")
    case True
    have "len_total (take (length (pre @ [e])) (pre @ e # es)) < 2 ^ 32" using Cons.prems(4,5) by (rule len_total_take_bound)
    then have "unat (b + el_len e) = len_total (pre @ [e])" using Cons.prems(2) by (simp add: unat_add_u32)
    with Cons.IH [of e "n + 1" "b + el_len e" "pre @ [e]"] True Cons.prems show ?thesis by simp
  qed (use Cons.prems in auto)
qed auto

lemma updateContinuous_ok:
  assumes "rcv_ok cap rb"
  shows "rcv_ok cap (updateContinuous rb)" and "rv_elems (updateContinuous rb) = rv_elems rb"
proof -
  let ?es = "rv_elems rb"
  have step: "rcv_ok cap (case extend_continuous (?es ! (n - 1)) (drop n ?es) n b of
       (n', b') \<Rightarrow> rb\<lparr>rv_continuous := n', rv_bytes := b'\<rparr>)"
    if "n \<le> length ?es" and "unat b = len_total (take n ?es)" for n b
  proof -
    obtain n' b' where x: "extend_continuous (?es ! (n - 1)) (drop n ?es) n b = (n', b')" by fastforce
    from extend_continuous_ok [OF x that(2)] that assms
    have "n' \<le> length ?es \<and> unat b' = len_total (take n' ?es)" by (simp add: rcv_ok_def)
    then show ?thesis using assms x by (simp add: rcv_ok_def)
  qed
  show "rcv_ok cap (updateContinuous rb)"
    using step [of "rv_continuous rb" "rv_bytes rb"] step [of 1 "el_len (?es ! 0)"] assms
    by (auto simp: updateContinuous_def Let_def rcv_ok_def split: list.splits)
  show "rv_elems (updateContinuous rb) = ?es"
    by (simp add: updateContinuous_def Let_def split: list.splits prod.splits option.splits)
qed

lemma sw_insert_ok:
  assumes ok: "rcv_ok cap rb" and e: "el_ok e" and ins: "sw_insert cap e psh rb = (b, rb')"
  shows "rcv_ok cap rb'" and "rv_blocks rb' = (if b then add_mset (el_segment e) (rv_blocks rb) else rv_blocks rb)"
proof -
  let ?c = "rv_continuous rb" and ?es = "rv_elems rb"
  have main: "rcv_ok cap (snd (sw_insert cap e psh rb)) \<and>
     rv_blocks (snd (sw_insert cap e psh rb)) =
       (if fst (sw_insert cap e psh rb) then add_mset (el_segment e) (rv_blocks rb) else rv_blocks rb)"
  proof (cases "length ?es \<ge> cap \<or> SEQ_LT (el_seqNum e) (read_firstSeqNum rb) \<or>
      sw_search (el_seqNum e) ?c (drop (?c - 1) ?es) (?c - 1) 0 = None")
    case True
    then show ?thesis using ok by (auto simp: sw_insert_def Let_def)
  next
    case False
    then obtain k where k: "sw_search (el_seqNum e) ?c (drop (?c - 1) ?es) (?c - 1) 0 = Some k" by auto
    let ?rb = "rb\<lparr>rv_elems := take k ?es @ e # drop k ?es\<rparr>"
    have kb: "?c \<le> k" "k \<le> length ?es" using sw_search_position [OF k] ok by (simp_all add: rcv_ok_def)
    have "set (take k ?es @ e # drop k ?es) = insert e (set ?es)"
      by (metis append_take_drop_id insert_is_Un list.simps(15) set_append Un_insert_right)
    then have "rcv_ok cap ?rb" using ok e kb False by (simp add: rcv_ok_def min_def)
    note u = updateContinuous_ok [OF this]
    have "mset (take k ?es) + mset (drop k ?es) = mset ?es" by (metis append_take_drop_id mset_append)
    then have "image_mset el_segment (mset (take k ?es)) + image_mset el_segment (mset (drop k ?es)) = rv_blocks rb"
      by (metis image_mset_union rv_blocks_def)
    then have "rv_blocks (updateContinuous ?rb) = add_mset (el_segment e) (rv_blocks rb)"
      by (simp add: rv_blocks_def u(2))
    then show ?thesis using False k u(1) by (simp add: sw_insert_def Let_def rv_blocks_def rcv_ok_def)
  qed
  from main show "rcv_ok cap rb'" "rv_blocks rb' = (if b then add_mset (el_segment e) (rv_blocks rb) else rv_blocks rb)"
    by (simp_all add: ins)
qed

lemma sw_copy_loop_ok:
  assumes "n \<le> length es" and "unat len \<le> len_total (take n es)" and "\<forall>e \<in> set es. el_ok e"
  shows "\<exists>bs fr es' n' psh'. sw_copy_loop len es n psh = Inr (bs, fr, es', n', psh') \<and> length bs = unat len \<and>
     n' \<le> length es' \<and> length es' \<le> length es \<and> len_total (take n' es') = len_total (take n es) - unat len \<and>
     (\<forall>e \<in> set es'. el_ok e) \<and>
     image_mset el_segment (mset es) = mset fr + image_mset el_segment (mset es')"
  using assms
proof (induction es arbitrary: n len)
  case Nil
  then show ?case by (simp add: unat_eq_0)
next
  case (Cons e es)
  show ?case
  proof (cases "len = 0")
    case True
    with Cons.prems show ?thesis by simp
  next
    case False
    then obtain m where n: "n = Suc m" using Cons.prems(2) by (cases n) (auto simp: unat_eq_0)
    have pos: "0 < len" using False by (simp add: word_neq_0_conv)
    have ok: "el_ok e" "\<forall>e \<in> set es. el_ok e" using Cons.prems(3) by simp_all
    show ?thesis
    proof (cases "el_len e \<le> len")
      case True
      have u: "unat (len - el_len e) = unat len - unat (el_len e)" "unat (el_len e) \<le> unat len"
        using True by (simp_all add: unat_minus_le word_le_nat_alt)
      have cp: "el_copy (el_len e) e = Inr (take (unat (el_len e)) (el_data e))" using ok(1) by (simp add: el_copy_def el_ok_def)
      show ?thesis
      proof (cases "es = []")
        case True
        then show ?thesis using \<open>el_len e \<le> len\<close> pos cp Cons.prems n u ok(1) by (auto simp: el_ok_def)
      next
        case ne: False
        have "m \<le> length es" "unat (len - el_len e) \<le> len_total (take m es)" using Cons.prems n u by simp_all
        from Cons.IH [OF this ok(2)] obtain bs fr es' n' psh' where IH:
            "sw_copy_loop (len - el_len e) es m psh = Inr (bs, fr, es', n', psh')" "length bs = unat (len - el_len e)"
            "n' \<le> length es'" "length es' \<le> length es" "len_total (take n' es') = len_total (take m es) - unat (len - el_len e)"
            "\<forall>e \<in> set es'. el_ok e" "image_mset el_segment (mset es) = mset fr + image_mset el_segment (mset es')" by blast
        then show ?thesis using ne True pos cp n u ok(1) by (simp add: el_ok_def)
      qed
    next
      case gt: False
      then have le: "unat len \<le> unat (el_len e)" by (simp add: word_le_nat_alt)
      then have inc: "el_ok (el_increment len e)" "unat (el_len (el_increment len e)) = unat (el_len e) - unat len"
        using ok(1) by (auto simp: el_ok_def el_increment_def unat_minus_le word_le_nat_alt)
      have "el_copy len e = Inr (take (unat len) (el_data e))" using ok(1) le by (simp add: el_copy_def el_ok_def)
      then show ?thesis using gt pos inc ok le n Cons.prems
        by (simp add: el_ok_def) (simp add: el_increment_def)
    qed
  qed
qed

lemma sw_copyData_ok:
  assumes ok: "rcv_ok cap rb" and len: "len \<le> sw_getRecvBytes rb"
  shows "\<exists>bs fr rb'. sw_copyData len rb = Inr (bs, fr, rb') \<and> length bs = unat len \<and> rcv_ok cap rb' \<and>
    rv_blocks rb = mset fr + rv_blocks rb'"
proof -
  have "unat len \<le> len_total (take (rv_continuous rb) (rv_elems rb))"
    using len ok by (simp add: rcv_ok_def sw_getRecvBytes_def word_le_nat_alt)
  from sw_copy_loop_ok [OF _ this, of "pushFlag rb"] ok obtain bs fr es' n' psh' where
    "sw_copy_loop len (rv_elems rb) (rv_continuous rb) (pushFlag rb) = Inr (bs, fr, es', n', psh')" "length bs = unat len"
    "n' \<le> length es'" "length es' \<le> length (rv_elems rb)"
    "len_total (take n' es') = len_total (take (rv_continuous rb) (rv_elems rb)) - unat len" "\<forall>e \<in> set es'. el_ok e"
    "image_mset el_segment (mset (rv_elems rb)) = mset fr + image_mset el_segment (mset es')"
    unfolding rcv_ok_def by blast
  moreover have "unat (rv_bytes rb - len) = unat (rv_bytes rb) - unat len"
    using len by (simp add: unat_minus_le sw_getRecvBytes_def)
  ultimately show ?thesis using ok by (simp add: sw_copyData_def rcv_ok_def rv_blocks_def)
qed

subsection \<open>The invariant of a socket\<close>

text \<open>A well-formed segment: the header length field covers at most the bytes that arrived.\<close>

definition pk_ok :: "rcv_packet \<Rightarrow> bool" where
  "pk_ok p \<longleftrightarrow> unat (pk_len p) = length (tcp_encode (pk_segment p)) \<and> unat (pk_len p) < 65536 \<and>
     4 * unat (get_header_len (pk_segment p)) \<le> unat (pk_len p)"

text \<open>While the application sends, its buffer covers what is still to be sent.\<close>

definition app_ok :: "tcp_socket \<Rightarrow> bool" where
  "app_ok s \<longleftrightarrow>
     (state s \<in> {CLOSED, LISTEN, SYNSENT, SYNRCVD} \<longrightarrow> application_buflen s = 0) \<and>
     (waiting s \<and> \<not> receiving s \<and> state s \<in> {ESTABLISHED, CLOSEWAIT} \<longrightarrow>
        unat (application_buflen s) \<le> length (application_buf s))"

definition others :: "tcp_socket \<Rightarrow> nat multiset" where
  "others s = mset (map pk_addr (packetbuffer s)) + rv_blocks (receiveBuffer s)"

definition sock_inv :: "tcp_env \<Rightarrow> nat multiset \<Rightarrow> tcp_socket \<Rightarrow> bool" where
  "sock_inv E X s \<longleftrightarrow> held E (others s + X) s \<and> rcv_ok (env_recv_max E) (receiveBuffer s) \<and>
     (\<forall>p \<in> set (packetbuffer s). pk_ok p) \<and> app_ok s"

definition env_ok :: "tcp_env \<Rightarrow> bool" where
  "env_ok E \<longleftrightarrow> env_prepared E \<and> env_sw_recv E"

lemma frame_others: "frame s s' \<Longrightarrow> others s' = others s"
  by (simp add: frame_def others_def)

lemma sock_inv_frame: "frame s s' \<Longrightarrow> sock_inv E X s \<Longrightarrow> held E (others s + X') s' \<Longrightarrow> sock_inv E X' s'"
  by (simp add: sock_inv_def frame_others) (simp add: frame_def app_ok_def)

lemma sock_inv_held: "sock_inv E X s \<Longrightarrow> held E (others s + X) s"
  by (simp add: sock_inv_def)

text \<open>An operation that only sends and keeps books keeps the invariant.\<close>

lemma inv_framed:
  assumes "returns m (held E (others s + X'))" and "yields m (frame s)" and "sock_inv E X s"
  shows "returns m (\<lambda>s'. sock_inv E X' s' \<and> frame s s')"
  by (rule returns_mono [OF returns_yields [OF assms(1,2)]]) (use assms(3) sock_inv_frame in blast)

lemma inv_framed_pair:
  assumes "returns m (\<lambda>(b, s'). held E (others s + X') s')" and "yields m (\<lambda>(b, s'). frame s s')" and "sock_inv E X s"
  shows "returns m (\<lambda>(b, s'). sock_inv E X' s' \<and> frame s s')"
  by (rule returns_mono [OF returns_yields [OF assms(1,2)]]) (use assms(3) sock_inv_frame in blast)

lemma inv_free:
  assumes "sock_inv E (add_mset (pk_addr p) X) s"
  shows "returns (freeReceivedSegment E p s) (\<lambda>s'. sock_inv E X s' \<and> frame s s')"
  by (rule inv_framed [OF _ frame_free assms])
     (use assms in \<open>auto simp: freeReceivedSegment_def sock_inv_def intro: held_free\<close>)

lemma inv_updateHistory: "sock_inv E X s \<Longrightarrow> returns (updateHistory E rt s) (\<lambda>s'. sock_inv E X s' \<and> frame s s')"
  by (rule inv_framed [OF held_updateHistory frame_updateHistory]) (auto intro: sock_inv_held)

lemma inv_clearHistory: "sock_inv E X s \<Longrightarrow> returns (clearHistory E s) (\<lambda>s'. sock_inv E X s' \<and> frame s s')"
  by (rule inv_framed [OF returns_mono [OF held_clearHistory] frame_clearHistory]) (auto intro: sock_inv_held)

lemma inv_sendACK: "sock_inv E X s \<Longrightarrow> env_prepared E \<Longrightarrow> returns (sendACK E n s) (\<lambda>(ok, s'). sock_inv E X s' \<and> frame s s')"
  by (rule inv_framed_pair [OF held_sendACK frame_sendACK]) (auto intro: sock_inv_held)

lemma inv_sendACK_now: "sock_inv E X s \<Longrightarrow> env_prepared E \<Longrightarrow> returns (sendACK_now E s) (\<lambda>(ok, s'). sock_inv E X s' \<and> frame s s')"
  by (rule inv_framed_pair [OF held_sendACK_now frame_sendACK_now]) (auto intro: sock_inv_held)

lemma inv_processACK: "sock_inv E X s \<Longrightarrow> env_prepared E \<Longrightarrow> returns (processACK E s) (\<lambda>s'. sock_inv E X s' \<and> frame s s')"
  by (rule inv_framed [OF held_processACK frame_processACK]) (auto intro: sock_inv_held)

lemma inv_FIN_complete: "sock_inv E X s \<Longrightarrow> env_prepared E \<Longrightarrow> returns (FIN_complete E s) (\<lambda>(b, s'). sock_inv E X s' \<and> frame s s')"
  by (rule inv_framed_pair [OF held_FIN_complete frame_FIN_complete]) (auto intro: sock_inv_held)

lemma inv_request:
  assumes "sock_inv E X s" and "env_prepared E"
  shows "returns (requestSendBufferTCP E n s) (\<lambda>(b, s'). frame s s' \<and>
    (case b of None \<Rightarrow> sock_inv E X s'
     | Some a \<Rightarrow> sock_inv E (add_mset a X) s' \<and> length (history s') < env_hist_max E))"
  by (rule returns_mono [OF returns_yields [OF held_request [OF sock_inv_held [OF assms(1)] assms(2)] frame_request]])
     (use assms(1) in \<open>auto split: option.splits intro: sock_inv_frame\<close>)

lemma inv_emit:
  assumes "sock_inv E (add_mset a X) s" and "length (history s) < env_hist_max E"
  shows "returns (emit E a seg t s) (\<lambda>s'. sock_inv E X s' \<and> frame s s')"
  by (rule inv_framed [OF held_emit frame_emit assms(1)]) (use assms in \<open>auto simp: sock_inv_def\<close>)

subsection \<open>The segment handlers\<close>

lemma inv_handleACK [simp]: "sock_inv E X (handleACK a s) = sock_inv E X s"
  by (simp add: handleACK_def sock_inv_def others_def app_ok_def)

lemma inv_handleFIN [simp]: "sock_inv E X (handleFIN seg q n s) = sock_inv E X s"
  by (simp add: handleFIN_def sock_inv_def others_def app_ok_def)

lemma inv_updateSendWindow [simp]: "sock_inv E X (updateSendWindow seg q a s) = sock_inv E X s"
  by (simp add: updateSendWindow_def sock_inv_def others_def app_ok_def)

lemma inv_initSendWindow [simp]: "sock_inv E X (initSendWindow w q a s) = sock_inv E X s"
  by (simp add: initSendWindow_def sock_inv_def others_def app_ok_def)

lemma inv_triggerACK [simp]: "sock_inv E X (triggerACK s) = sock_inv E X s"
  by (simp add: triggerACK_def sock_inv_def others_def app_ok_def)

lemma inv_updates [simp]:
  "sock_inv E X (s\<lparr>seqnum_next := n\<rparr>) = sock_inv E X s" "sock_inv E X (s\<lparr>wire := w\<rparr>) = sock_inv E X s"
  "sock_inv E X (s\<lparr>sendWindow := w16\<rparr>) = sock_inv E X s" "sock_inv E X (s\<lparr>application_recv_len := n\<rparr>) = sock_inv E X s"
  "sock_inv E X (s\<lparr>sport := w16\<rparr>) = sock_inv E X s" "sock_inv E X (s\<lparr>application_data := bs\<rparr>) = sock_inv E X s"
  "sock_inv E X (s\<lparr>seqnum_unacked := n\<rparr>) = sock_inv E X s"
  by (simp_all add: sock_inv_def others_def app_ok_def)

lemma inv_setFirstSeqNum [simp]:
  "sock_inv E X (s\<lparr>receiveBuffer := setFirstSeqNum q (receiveBuffer s)\<rparr>) = sock_inv E X s"
  by (simp add: sock_inv_def others_def app_ok_def setFirstSeqNum_def rv_blocks_def rcv_ok_def)

lemma inv_not_waiting: "sock_inv E X s \<Longrightarrow> sock_inv E X (s\<lparr>waiting := False\<rparr>)"
  by (auto simp: sock_inv_def others_def app_ok_def)

lemma inv_handleData:
  assumes inv: "sock_inv E (add_mset (pk_addr p) X) s" and p: "pk_ok p" and env: "env_sw_recv E"
    and h: "handleData E p q (payload_length p) s = (f, s')"
  shows "sock_inv E (if f then add_mset (pk_addr p) X else X) s'"
proof (cases "payload_length p > 0")
  case True
  let ?e = "\<lparr>el_len = payload_length p, el_seqNum = q, el_data = get_data (pk_segment p), el_segment = pk_addr p\<rparr>"
  obtain ok rb where ins: "sw_insert (env_recv_max E) ?e (has_PSH (pk_segment p)) (receiveBuffer s) = (ok, rb)" by fastforce
  have hl: "unat (ucast (get_header_len (pk_segment p)) * 4 :: u32) = 4 * unat (get_header_len (pk_segment p))"
    using p by (simp add: pk_ok_def unat_mult_lem [THEN iffD1])
  have len: "unat (payload_length p) = unat (pk_len p) - 4 * unat (get_header_len (pk_segment p))"
    using p hl unfolding payload_length_def pk_ok_def by (subst unat_minus_le) (simp_all add: word_le_nat_alt)
  have "el_ok ?e" using p len by (auto simp: el_ok_def pk_ok_def get_data_def)
  moreover have "rcv_ok (env_recv_max E) (receiveBuffer s)" using inv by (simp add: sock_inv_def)
  ultimately have rb: "rcv_ok (env_recv_max E) rb"
      "rv_blocks rb = (if ok then add_mset (pk_addr p) (rv_blocks (receiveBuffer s)) else rv_blocks (receiveBuffer s))"
    using sw_insert_ok [OF _ _ ins] by simp_all
  have "f = (\<not> ok)" and "s' = triggerACK (s\<lparr>receiveBuffer := rb\<rparr>)"
    using h True ins env by (auto simp: handleData_def recv_insert_def)
  then show ?thesis using inv rb by (simp add: sock_inv_def others_def app_ok_def triggerACK_def)
qed (use assms in \<open>simp add: handleData_def\<close>)

lemma handleData_fields:
  assumes "handleData E p q n s = (f, s')"
  shows "state s' = state s" "history s' = history s"
  using assms by (auto simp: handleData_def recv_insert_def triggerACK_def split: if_splits prod.splits)

lemma inv_reset:
  assumes "sock_inv E X s" and "pool_owns (env_pool E) m (image_mset rec_addr (mset (history s)) + (rv_blocks (receiveBuffer s) + X))"
  shows "sock_inv E X (resetSocketState (s\<lparr>mempool := m, packetbuffer := []\<rparr>))"
  using assms by (simp add: resetSocketState_def sock_inv_def held_def others_def app_ok_def)

lemma inv_abort:
  assumes "sock_inv E X s"
  shows "returns (abort E s) (\<lambda>s'. sock_inv E X s' \<and> state s' = CLOSED)"
proof -
  have drop: "returns (obind (mem_free_all E (map pk_addr (packetbuffer s1)) s1)
         (\<lambda>s. Inr (resetSocketState (s\<lparr>packetbuffer := []\<rparr>)))) (\<lambda>s'. sock_inv E X s' \<and> state s' = CLOSED)"
    if inv: "sock_inv E X s1" for s1
  proof (rule returns_obind [OF mem_free_all_owned])
    show "pool_owns (env_pool E) (mempool s1) (mset (map pk_addr (packetbuffer s1)) +
        (image_mset rec_addr (mset (history s1)) + (rv_blocks (receiveBuffer s1) + X)))"
      using inv by (simp add: sock_inv_def held_def others_def ac_simps)
    fix s' :: tcp_socket
    assume "\<exists>m. s' = s1\<lparr>mempool := m\<rparr> \<and> pool_owns (env_pool E) m (image_mset rec_addr (mset (history s1)) + (rv_blocks (receiveBuffer s1) + X))"
    then obtain m where m: "s' = s1\<lparr>mempool := m\<rparr>"
      "pool_owns (env_pool E) m (image_mset rec_addr (mset (history s1)) + (rv_blocks (receiveBuffer s1) + X))" by blast
    have "s'\<lparr>packetbuffer := []\<rparr> = s1\<lparr>mempool := m, packetbuffer := []\<rparr>" by (simp add: m(1))
    then show "returns (Inr (resetSocketState (s'\<lparr>packetbuffer := []\<rparr>))) (\<lambda>s'. sock_inv E X s' \<and> state s' = CLOSED)"
      using inv_reset [OF inv m(2)] by (simp add: resetSocketState_def)
  qed
  show ?thesis unfolding abort_def
    by (rule returns_obind [OF inv_clearHistory [OF assms]]) (simp add: drop)
qed

lemma inv_handleRST:
  assumes "sock_inv E (add_mset (pk_addr p) X) s"
  shows "returns (handleRST E p s)
    (\<lambda>(b, s'). if b then sock_inv E X s' \<and> state s' = CLOSED else s' = s)"
  unfolding handleRST_def using assms
  by (auto intro!: returns_obind [OF inv_free] returns_obind [OF inv_abort])

lemma inv_handleSYN:
  assumes "sock_inv E (add_mset (pk_addr p) X) s" and "env_prepared E"
  shows "returns (handleSYN E p s) (\<lambda>(b, s'). if b then sock_inv E X s' \<and> frame s s' else s' = s)"
  unfolding handleSYN_def using assms
  by (auto intro!: returns_obind [OF inv_free] returns_obind [OF inv_sendACK_now] intro: frame_trans)

lemma inv_handleSYN_final:
  assumes "sock_inv E (add_mset (pk_addr p) X) s" and "env_prepared E"
  shows "returns (handleSYN_final E p s) (\<lambda>(b, s'). if b then sock_inv E X s' \<and> frame s s' else s' = s)"
  unfolding handleSYN_final_def using assms
  by (auto intro!: returns_obind [OF inv_free] returns_obind [OF inv_sendACK] intro: frame_trans)

text \<open>The state may change as long as the condition on the application's buffer is kept.\<close>

lemma inv_state: "sock_inv E X s \<Longrightarrow> app_ok (s\<lparr>state := t\<rparr>) \<Longrightarrow> sock_inv E X (s\<lparr>state := t\<rparr>)"
  by (simp add: sock_inv_def others_def)

lemma app_ok_data: "app_ok s \<Longrightarrow> state s \<in> {ESTABLISHED, CLOSEWAIT} \<Longrightarrow> t \<notin> {CLOSED, LISTEN, SYNSENT, SYNRCVD} \<Longrightarrow>
    app_ok (s\<lparr>state := t\<rparr>)"
  by (auto simp: app_ok_def)

lemma app_ok_closing: "t \<in> {FINWAIT1, FINWAIT2, LASTACK, CLOSING, TIMEWAIT} \<Longrightarrow> app_ok (s\<lparr>state := t\<rparr>)"
  by (auto simp: app_ok_def)

lemma app_ok_handshake: "app_ok s \<Longrightarrow> state s \<in> {CLOSED, LISTEN, SYNSENT, SYNRCVD} \<Longrightarrow>
    t \<in> {LISTEN, SYNSENT, SYNRCVD, ESTABLISHED} \<Longrightarrow> app_ok (s\<lparr>state := t\<rparr>)"
  by (auto simp: app_ok_def)

lemma sock_inv_app: "sock_inv E X s \<Longrightarrow> app_ok s"
  by (simp add: sock_inv_def)

lemma inv_ack_only:
  assumes "sock_inv E X s" and "env_prepared E"
  shows "returns (if b then obind (sendACK E n s) (\<lambda>(_, s). Inr s) else Inr s) (\<lambda>s'. sock_inv E X s' \<and> frame s s')"
  using assms by (auto intro!: returns_obind [OF inv_sendACK])

lemma inv_if_free:
  assumes "sock_inv E (if b then add_mset (pk_addr p) X else X) s"
  shows "returns (if b then freeReceivedSegment E p s else Inr s) (\<lambda>s'. sock_inv E X s' \<and> frame s s')"
  using assms inv_free by auto

subsection \<open>The handlers keep the invariant\<close>

definition in_hand :: "rcv_packet option \<Rightarrow> nat multiset" where
  "in_hand p = (case p of None \<Rightarrow> {#} | Some p \<Rightarrow> {#pk_addr p#})"

lemma in_hand_simps [simp]: "in_hand None = {#}" "in_hand (Some p) = {#pk_addr p#}"
  by (simp_all add: in_hand_def)

definition handler_ok :: "tcp_env \<Rightarrow> rcv_packet option \<Rightarrow> tcp_socket \<Rightarrow> bool" where
  "handler_ok E p s \<longleftrightarrow> sock_inv E (in_hand p) s \<and> env_ok E \<and> (case p of None \<Rightarrow> True | Some q \<Rightarrow> pk_ok q)"

lemma inv_emit_plain:
  assumes "sock_inv E (add_mset a X) s" and "length (history s) < env_hist_max E"
  shows "returns (emit E a seg t s) (sock_inv E X)"
  by (rule returns_mono [OF inv_emit [OF assms]]) simp

lemma closed_ok: "handler_ok E p s \<Longrightarrow> returns (closed_in E p s) (sock_inv E {#})"
  unfolding closed_in_def handler_ok_def
  by (cases p) (auto intro!: returns_obind [OF inv_free] inv_not_waiting)

text \<open>The pattern of every answer: request a buffer and, if there is one, fill it in and transmit it.\<close>

lemma inv_respond:
  assumes "sock_inv E X s" and "env_prepared E"
    and "\<And>s'. sock_inv E X s' \<Longrightarrow> frame s s' \<Longrightarrow> Q s'"
    and "\<And>a s'. sock_inv E (add_mset a X) s' \<Longrightarrow> frame s s' \<Longrightarrow> length (history s') < env_hist_max E \<Longrightarrow> returns (f a s') Q"
  shows "returns (obind (requestSendBufferTCP E n s) (\<lambda>(b, s). case b of None \<Rightarrow> Inr s | Some a \<Rightarrow> f a s)) Q"
  by (rule returns_obind [OF inv_request [OF assms(1,2)]]) (use assms(3,4) in \<open>auto split: option.splits\<close>)

lemma inv_handshake: "sock_inv E X s \<Longrightarrow> state s \<in> {CLOSED, LISTEN, SYNSENT, SYNRCVD} \<Longrightarrow>
    t \<in> {LISTEN, SYNSENT, SYNRCVD, ESTABLISHED} \<Longrightarrow> sock_inv E X (s\<lparr>state := t\<rparr>)"
  by (rule inv_state, assumption) (rule app_ok_handshake [OF sock_inv_app])

lemma listen_ok:
  assumes "handler_ok E p s" and st: "state s = LISTEN"
  shows "returns (listen_in E p s) (sock_inv E {#})"
proof (cases p)
  case None
  with assms show ?thesis by (simp add: listen_in_def handler_ok_def)
next
  case (Some q)
  have inv: "sock_inv E {#pk_addr q#} s" and env: "env_prepared E"
    using assms Some by (simp_all add: handler_ok_def env_ok_def)
  show ?thesis unfolding listen_in_def Some option.case requestSendBufferTCP_syn_def Let_def
    by (rule returns_obind [OF inv_handleRST [OF inv]])
       (auto split: if_splits simp: inv env st frame_fields
         intro!: returns_obind [OF inv_free [where X = "{#}"]] inv_respond [where X = "{#}"] inv_emit_plain inv_handshake)
qed

lemma synsent_ok:
  assumes "handler_ok E p s" and st: "state s = SYNSENT"
  shows "returns (synsent_in E p s) (sock_inv E {#})"
proof (cases p)
  case None
  with assms show ?thesis
    by (auto simp: synsent_in_def handler_ok_def intro!: returns_mono [OF inv_updateHistory])
next
  case (Some q)
  have inv: "sock_inv E {#pk_addr q#} s" and env: "env_prepared E"
    using assms Some by (simp_all add: handler_ok_def env_ok_def)
  have rst: "returns (obind (requestSendBufferTCP E 0 s') (\<lambda>(b, s). case b of
       None \<Rightarrow> Inr s | Some a \<Rightarrow> emit E a (g s) 0 s)) (sock_inv E {#})" if "sock_inv E {#} s'" for s' g
    using that env by (auto intro!: inv_respond [where X = "{#}"] inv_emit_plain)
  have est: "returns (obind (clearHistory E s') (\<lambda>s. obind (sendACK_now E s) (\<lambda>(ok, s). Inr (if ok then s\<lparr>waiting := False\<rparr> else s))))
      (sock_inv E {#})" if "sock_inv E {#} s'" for s'
    using that env by (auto intro!: returns_obind [OF inv_clearHistory [where X = "{#}"]]
        returns_obind [OF inv_sendACK_now [where X = "{#}"]] inv_not_waiting)
  have syn: "returns (obind (clearHistory E s') (\<lambda>s. obind (requestSendBufferTCP E 0 (s\<lparr>receiveBuffer := setFirstSeqNum n (receiveBuffer s)\<rparr>))
      (\<lambda>(b, s). case b of None \<Rightarrow> Inr s | Some a \<Rightarrow> emit E a (g s) getRTO (s\<lparr>state := SYNRCVD\<rparr>)))) (sock_inv E {#})"
    if "sock_inv E {#} s'" and "state s' = SYNSENT" for s' n g
    using that env by (auto intro!: returns_obind [OF inv_clearHistory [where X = "{#}"]] inv_respond [where X = "{#}"]
        inv_emit_plain inv_handshake simp: frame_fields(1))
  show ?thesis unfolding synsent_in_def Some option.case requestSendBufferTCP_syn_def Let_def
    by (rule returns_obind [OF inv_free [OF inv]])
       (auto simp: st frame_fields 
         intro!: rst est syn returns_mono [OF inv_abort [where X = "{#}"]] inv_handshake)
qed

lemma synrcvd_ok:
  assumes "handler_ok E p s" and st: "state s = SYNRCVD"
  shows "returns (synrcvd_in E p s) (sock_inv E {#})"
proof (cases p)
  case None
  with assms show ?thesis
    by (auto simp: synrcvd_in_def handler_ok_def intro!: returns_mono [OF inv_updateHistory])
next
  case (Some q)
  let ?X = "{#pk_addr q#}"
  have inv: "sock_inv E ?X s" and env: "env_prepared E"
    using assms Some by (simp_all add: handler_ok_def env_ok_def)
  have resend: "sock_inv E ?X (snd (snd (tcp_send (rec_buffer r) s))\<lparr>history := r\<lparr>rec_buffer := fst (snd (tcp_send (rec_buffer r) s))\<rparr> # rs\<rparr>)"
    if "history s = r # rs" for r rs
    using that inv by (simp add: tcp_send_def sock_inv_def held_def others_def app_ok_def rec_addr_def)
  have ack: "returns (let acknum = a; s = handleACK acknum s in
       if acknum = seqnum_next s
       then obind (clearHistory E (initSendWindow w n acknum (s\<lparr>state := ESTABLISHED\<rparr>))) (\<lambda>s. Inr (s\<lparr>waiting := False\<rparr>))
       else Inr s) (sock_inv E ?X)" for a w n
    using inv st by (auto simp: Let_def intro!: returns_obind [OF inv_clearHistory [where X = ?X]] inv_handshake inv_not_waiting)
  have syn: "returns (case history s of [] \<Rightarrow> Inr s
      | r # rs \<Rightarrow> (case tcp_send (rec_buffer r) s of (_, b, s') \<Rightarrow> Inr (s'\<lparr>history := r\<lparr>rec_buffer := b\<rparr> # rs\<rparr>)))
      (sock_inv E ?X)"
    using inv resend by (simp add: split_beta split: list.splits)
  have "returns (obind (if has_ACK (pk_segment q)
                 then let acknum = seg_acknum (pk_segment q); s = handleACK acknum s in
                      if acknum = seqnum_next s
                      then obind (clearHistory E
                                    (initSendWindow (seg_window (pk_segment q)) (seg_seqnum (pk_segment q)) acknum
                                       (s\<lparr>state := ESTABLISHED\<rparr>)))
                             (\<lambda>s. Inr (s\<lparr>waiting := False\<rparr>))
                      else Inr s
                 else if has_SYN (pk_segment q)
                 then case history s of
                        [] \<Rightarrow> Inr s
                      | r # rs \<Rightarrow>
                          (case tcp_send (rec_buffer r) s of
                             (_, b, s') \<Rightarrow> Inr (s'\<lparr>history := r\<lparr>rec_buffer := b\<rparr> # rs\<rparr>))
                 else Inr s)
            (freeReceivedSegment E q)) (sock_inv E {#})"
    by (rule returns_obind [where Q = "sock_inv E ?X"])
       (use ack syn inv in \<open>auto simp: Let_def intro: returns_mono [OF inv_free [where X = "{#}"]]\<close>)
  then show ?thesis unfolding synrcvd_in_def Some option.case
    by (intro returns_obind [OF inv_handleRST [OF inv]]) (auto split: if_splits)
qed

text \<open>The segments that carry data.\<close>

lemma inv_data_state: "sock_inv E X s \<Longrightarrow> state s \<in> {ESTABLISHED, CLOSEWAIT} \<Longrightarrow>
    t \<notin> {CLOSED, LISTEN, SYNSENT, SYNRCVD} \<Longrightarrow> sock_inv E X (s\<lparr>state := t\<rparr>)"
  by (rule inv_state, assumption) (rule app_ok_data [OF sock_inv_app])

lemma inv_closing_state: "sock_inv E X s \<Longrightarrow> t \<in> {FINWAIT1, FINWAIT2, LASTACK, CLOSING, TIMEWAIT} \<Longrightarrow> sock_inv E X (s\<lparr>state := t\<rparr>)"
  by (rule inv_state, assumption) (rule app_ok_closing)

lemma segment_head:
  assumes inv: "sock_inv E {#pk_addr p#} s" and env: "env_ok E"
    and rest: "returns (g s) (sock_inv E {#})"
  shows "returns (obind (handleRST E p s) (\<lambda>(rst, s). if rst then Inr s else
      obind (handleSYN E p s) (\<lambda>(syn, s). if syn then Inr s else g s))) (sock_inv E {#})"
proof (rule returns_obind [OF inv_handleRST [OF inv]])
  fix x :: "bool \<times> tcp_socket"
  assume x: "case x of (b, s') \<Rightarrow> if b then sock_inv E {#} s' \<and> state s' = CLOSED else s' = s"
  have "returns (obind (handleSYN E p s) (\<lambda>(syn, s). if syn then Inr s else g s)) (sock_inv E {#})"
    by (rule returns_obind [OF inv_handleSYN [OF inv]]) (use env rest in \<open>auto simp: env_ok_def split: if_splits\<close>)
  with x show "returns (case x of (rst, s) \<Rightarrow> if rst then Inr s else
      obind (handleSYN E p s) (\<lambda>(syn, s). if syn then Inr s else g s)) (sock_inv E {#})"
    by (auto split: if_splits)
qed

lemma segment_head_final:
  assumes inv: "sock_inv E {#pk_addr p#} s" and env: "env_ok E"
    and rest: "returns (g s) (sock_inv E {#})"
  shows "returns (obind (handleRST E p s) (\<lambda>(rst, s). if rst then Inr s else
      obind (handleSYN_final E p s) (\<lambda>(syn, s). if syn then Inr s else g s))) (sock_inv E {#})"
proof (rule returns_obind [OF inv_handleRST [OF inv]])
  fix x :: "bool \<times> tcp_socket"
  assume x: "case x of (b, s') \<Rightarrow> if b then sock_inv E {#} s' \<and> state s' = CLOSED else s' = s"
  have "returns (obind (handleSYN_final E p s) (\<lambda>(syn, s). if syn then Inr s else g s)) (sock_inv E {#})"
    by (rule returns_obind [OF inv_handleSYN_final [OF inv]]) (use env rest in \<open>auto simp: env_ok_def split: if_splits\<close>)
  with x show "returns (case x of (rst, s) \<Rightarrow> if rst then Inr s else
      obind (handleSYN_final E p s) (\<lambda>(syn, s). if syn then Inr s else g s)) (sock_inv E {#})"
    by (auto split: if_splits)
qed

text \<open>From the data on: the segment is stored or freed, then a complete \<open>FIN\<close> is acknowledged.\<close>

lemma segment_data:
  assumes inv: "sock_inv E {#pk_addr p#} s" and env: "env_ok E" and p: "pk_ok p"
    and u: "\<And>s'. sock_inv E (if fst (handleData E p q (payload_length p) s) then {#pk_addr p#} else {#}) s' \<Longrightarrow>
              sock_inv E (if fst (handleData E p q (payload_length p) s) then {#pk_addr p#} else {#}) (h s')"
    and st: "\<And>s'. state (h s') = state s'"
    and k: "\<And>s1 fin s'. sock_inv E {#} s' \<Longrightarrow> state s' = state s \<Longrightarrow> sock_inv E {#} (k s1 fin s')"
  shows "returns (case handleData E p q (payload_length p) s of (f, s) \<Rightarrow>
     obind (if f then freeReceivedSegment E p (h s) else Inr (h s)) (\<lambda>s''.
     obind (FIN_complete E s'') (\<lambda>(fin, s'). Inr (k s fin s')))) (sock_inv E {#})"
proof -
  obtain f s1 where h: "handleData E p q (payload_length p) s = (f, s1)" by fastforce
  have "sock_inv E (if f then {#pk_addr p#} else {#}) s1"
    using inv_handleData [OF _ p _ h, of "{#}"] inv env by (simp add: env_ok_def)
  then have s1: "sock_inv E (if f then add_mset (pk_addr p) {#} else {#}) (h s1)" using u h by simp
  have st1: "state (h s1) = state s" using handleData_fields(1) [OF h] by (simp add: st)
  have "returns (obind (if f then freeReceivedSegment E p (h s1) else Inr (h s1)) (\<lambda>s.
     obind (FIN_complete E s) (\<lambda>(fin, s). Inr (k s1 fin s)))) (sock_inv E {#})"
    by (rule returns_obind [OF inv_if_free [OF s1]])
       (use env in \<open>auto intro!: returns_obind [OF inv_FIN_complete [where X = "{#}"]] k simp: frame_fields(1) st1 env_ok_def\<close>)
  with h show ?thesis by simp
qed

lemma established_segment_ok:
  assumes "handler_ok E (Some p) s" and st: "state s = ESTABLISHED"
  shows "returns (established_in E (Some p) s) (sock_inv E {#})"
proof -
  have inv: "sock_inv E {#pk_addr p#} s" and env: "env_ok E" and p: "pk_ok p"
    using assms by (simp_all add: handler_ok_def)
  let ?s = "handleFIN (pk_segment p) (seg_seqnum (pk_segment p)) (payload_length p)
      (if has_ACK (pk_segment p) then handleACK (seg_acknum (pk_segment p)) s else s)"
  have s: "sock_inv E {#pk_addr p#} ?s" and st': "state ?s = ESTABLISHED" using inv st by simp_all
  note data = segment_data [OF s env p,
    where h = "updateSendWindow (pk_segment p) (seg_seqnum (pk_segment p)) (seg_acknum (pk_segment p))"
      and k = "\<lambda>_ fin s. if getReceiveWindow E (if fin then s\<lparr>state := CLOSEWAIT\<rparr> else s) = 0
                 then triggerACK (if fin then s\<lparr>state := CLOSEWAIT\<rparr> else s) else if fin then s\<lparr>state := CLOSEWAIT\<rparr> else s"]
  show ?thesis unfolding established_in_def option.case Let_def
    by (rule segment_head [OF inv env], rule data) (auto simp: st intro!: inv_data_state)
qed

lemma finwait1_segment_ok:
  assumes "handler_ok E (Some p) s"
  shows "returns (finwait1_in E (Some p) s) (sock_inv E {#})"
proof -
  have inv: "sock_inv E {#pk_addr p#} s" and env: "env_ok E" and p: "pk_ok p"
    using assms by (simp_all add: handler_ok_def)
  let ?s = "handleFIN (pk_segment p) (seg_seqnum (pk_segment p)) (payload_length p)
      (if has_ACK (pk_segment p) then handleACK (seg_acknum (pk_segment p)) s else s)"
  have s: "sock_inv E {#pk_addr p#} ?s" using inv by simp
  note data = segment_data [OF s env p, where h = "\<lambda>s. s" and k = "\<lambda>s1 fin s. if fin
      then if has_ACK (pk_segment p) \<and> seg_acknum (pk_segment p) = seqnum_next s1 then s\<lparr>state := TIMEWAIT\<rparr> else s\<lparr>state := CLOSING\<rparr>
      else s"]
  show ?thesis unfolding finwait1_in_def option.case Let_def
    by (rule segment_head [OF inv env], rule data) (auto intro!: inv_closing_state)
qed

lemma finwait2_segment_ok:
  assumes "handler_ok E (Some p) s"
  shows "returns (finwait2_in E (Some p) s) (sock_inv E {#})"
proof -
  have inv: "sock_inv E {#pk_addr p#} s" and env: "env_ok E" and p: "pk_ok p"
    using assms by (simp_all add: handler_ok_def)
  have s: "sock_inv E {#pk_addr p#} (handleFIN (pk_segment p) (seg_seqnum (pk_segment p)) (payload_length p) s)" using inv by simp
  note data = segment_data [OF s env p, where h = "\<lambda>s. s" and k = "\<lambda>_ fin s. if fin then s\<lparr>state := TIMEWAIT\<rparr> else s"]
  show ?thesis unfolding finwait2_in_def option.case Let_def
    by (rule segment_head [OF inv env], rule data) (auto intro!: inv_closing_state)
qed

lemma inv_free_plain: "sock_inv E {#pk_addr p#} s \<Longrightarrow> returns (freeReceivedSegment E p s) (sock_inv E {#})"
  by (rule returns_mono [OF inv_free [where X = "{#}"]]) simp_all

lemma ack_then_free:
  assumes "sock_inv E {#pk_addr p#} s" and "env_ok E"
  shows "returns (obind (if b then obind (sendACK E n s) (\<lambda>(_, s). Inr s) else Inr s) (freeReceivedSegment E p)) (sock_inv E {#})"
    and "returns (obind (if b then obind (sendACK E n s) (\<lambda>(_, s). Inr s) else Inr s)
          (\<lambda>s. freeReceivedSegment E p (updateSendWindow seg q a s))) (sock_inv E {#})"
proof -
  have ack: "returns (if b then obind (sendACK E n s) (\<lambda>(_, s). Inr s) else Inr s) (sock_inv E {#pk_addr p#})"
    using inv_ack_only [OF assms(1), of b n] assms(2) by (auto simp: env_ok_def elim!: returns_mono)
  show "returns (obind (if b then obind (sendACK E n s) (\<lambda>(_, s). Inr s) else Inr s) (freeReceivedSegment E p)) (sock_inv E {#})"
    by (rule returns_obind [OF ack]) (rule inv_free_plain)
  show "returns (obind (if b then obind (sendACK E n s) (\<lambda>(_, s). Inr s) else Inr s)
          (\<lambda>s. freeReceivedSegment E p (updateSendWindow seg q a s))) (sock_inv E {#})"
    by (rule returns_obind [OF ack]) (simp add: inv_free_plain)
qed

lemma closewait_segment_ok:
  assumes "handler_ok E (Some p) s"
  shows "returns (closewait_in E (Some p) s) (sock_inv E {#})"
  unfolding closewait_in_def option.case Let_def
  by (rule segment_head_final, use assms in \<open>simp_all only: handler_ok_def in_hand_simps\<close>)
     (rule ack_then_free, simp_all)

lemma lastack_segment_ok:
  assumes "handler_ok E (Some p) s"
  shows "returns (lastack_in E (Some p) s) (sock_inv E {#})"
  unfolding lastack_in_def option.case Let_def
  by (rule segment_head_final) (use assms in \<open>auto simp: handler_ok_def env_ok_def intro!: inv_free_plain\<close>)

lemma closing_segment_ok:
  assumes "handler_ok E (Some p) s"
  shows "returns (closing_in E (Some p) s) (sock_inv E {#})"
  unfolding closing_in_def option.case Let_def
  by (rule segment_head_final, use assms in \<open>simp_all only: handler_ok_def in_hand_simps\<close>)
     (rule ack_then_free, simp_all)

lemma timewait_segment_ok:
  assumes "handler_ok E (Some p) s"
  shows "returns (timewait_in E (Some p) s) (sock_inv E {#})"
  unfolding timewait_in_def option.case Let_def
  by (rule segment_head_final, use assms in \<open>simp_all only: handler_ok_def in_hand_simps\<close>)
     (rule ack_then_free, simp_all)

subsection \<open>Sending and the empty queue\<close>

definition send_ok :: "tcp_socket \<Rightarrow> bool" where
  "send_ok s \<longleftrightarrow> unat (application_buflen s) \<le> length (application_buf s) \<and> state s \<in> {ESTABLISHED, CLOSEWAIT}"

lemma send_ok_frame: "frame s s' \<Longrightarrow> send_ok s' = send_ok s"
  by (simp add: send_ok_def frame_def)

lemma send_ok_updates [simp]:
  "send_ok (s\<lparr>seqnum_next := n\<rparr>) = send_ok s" "send_ok (s\<lparr>sendWindow := w\<rparr>) = send_ok s"
  by (simp_all add: send_ok_def)

lemma inv_sent:
  assumes "sock_inv E X s" and "send_ok (s\<lparr>application_buflen := n, application_buf := bs\<rparr>)"
  shows "sock_inv E X (s\<lparr>application_buflen := n, application_buf := bs\<rparr>)"
  using assms by (simp add: sock_inv_def others_def app_ok_def send_ok_def) auto

lemma inv_sendSegment:
  assumes inv: "sock_inv E {#} s" and env: "env_ok E" and ok: "send_ok s" and len: "len \<le> application_buflen s"
  shows "returns (sendSegment E len s) (\<lambda>(b, s'). sock_inv E {#} s' \<and> send_ok s')"
  unfolding sendSegment_def
proof (rule returns_obind [OF inv_request [OF inv]])
  show "env_prepared E" using env by (simp add: env_ok_def)
  fix x :: "nat option \<times> tcp_socket"
  assume x: "case x of (b, s') \<Rightarrow> frame s s' \<and> (case b of None \<Rightarrow> sock_inv E {#} s'
     | Some a \<Rightarrow> sock_inv E (add_mset a {#}) s' \<and> length (history s') < env_hist_max E)"
  obtain b s1 where bs: "x = (b, s1)" by fastforce
  have f: "frame s s1" using x bs by simp
  have l: "unat len \<le> unat (application_buflen s1)" "unat (application_buflen s1) \<le> length (application_buf s1)"
    using len ok send_ok_frame [OF f] frame_fields [OF f] by (auto simp: word_le_nat_alt send_ok_def)
  let ?s = "s1\<lparr>application_buflen := application_buflen s1 - len, application_buf := drop (unat len) (application_buf s1)\<rparr>"
  have so: "send_ok ?s" using ok l frame_fields(1) [OF f]
    by (auto simp: send_ok_def unat_minus_le word_le_nat_alt)
  have emit: "returns (obind (emit E a seg t s') (\<lambda>s. Inr (True, s))) (\<lambda>(b, s'). sock_inv E {#} s' \<and> send_ok s')"
    if "sock_inv E {#a#} s'" "length (history s') < env_hist_max E" "send_ok s'" for a seg t s'
    by (rule returns_obind [OF inv_emit [where X = "{#}"]]) (use that send_ok_frame in auto)
  show "returns (case x of (None, s) \<Rightarrow> Inr (False, s)
      | (Some a, s) \<Rightarrow>
         if unat len \<le> length (application_buf s)
         then let seg = (writeHeaderWithAck E (getAckNum E s) s)\<lparr>seg_data := take (unat len) (application_buf s)\<rparr>;
                  s = s\<lparr>application_buflen := application_buflen s - len, application_buf := drop (unat len) (application_buf s)\<rparr>;
                  seg = (if application_buflen s = 0 then set_PSH seg else seg);
                  s = s\<lparr>seqnum_next := seqnum_next s + len\<rparr>;
                  s = (if sendWindow s \<noteq> 0 then lowerSendWindow (ucast len) s else s)
              in obind (emit E a seg getRTO s) (\<lambda>s. Inr (True, s))
         else Inl OutOfBounds) (\<lambda>(b, s'). sock_inv E {#} s' \<and> send_ok s')"
  proof (cases b)
    case None
    with x bs ok send_ok_frame [OF f] show ?thesis by simp
  next
    case (Some a)
    then have i: "sock_inv E {#a#} s1" "length (history s1) < env_hist_max E" using x bs by simp_all
    from inv_sent [OF i(1) so] have "sock_inv E {#a#} ?s" .
    then show ?thesis using bs Some l so i(2) unfolding Let_def lowerSendWindow_def
      by (simp only: prod.case option.case if_P order.trans) (rule emit, simp_all)
  qed
qed

lemma min3_le: "min3 a b c \<le> b"
  by (auto simp: min3_def)

lemma inv_send_loop: "sock_inv E {#} s \<Longrightarrow> env_ok E \<Longrightarrow> send_ok s \<Longrightarrow> returns (send_loop n E s) (\<lambda>s'. sock_inv E {#} s' \<and> send_ok s')"
proof (induction n arbitrary: s)
  case (Suc n)
  have "returns (obind (sendNextSegment E s) (\<lambda>(ok, s). if \<not> ok then Inr s else send_loop n E s)) (\<lambda>s'. sock_inv E {#} s' \<and> send_ok s')"
    unfolding sendNextSegment_def
    by (rule returns_obind [OF inv_sendSegment [OF Suc.prems min3_le]]) (use Suc in auto)
  then show ?case using Suc.prems by simp
qed simp

lemma inv_processSendData:
  assumes "sock_inv E {#} s" and "env_ok E" and "send_ok s"
  shows "returns (processSendData E s) (\<lambda>s'. sock_inv E {#} s' \<and> send_ok s')"
proof -
  have "returns (obind (sendSegment E 1 s) (\<lambda>(_, s). Inr s)) (\<lambda>s'. sock_inv E {#} s' \<and> send_ok s')"
    if "application_buflen s \<noteq> 0"
  proof -
    have "1 \<le> application_buflen s" using that by (simp add: word_le_nat_alt Suc_leI word_neq_0_conv unat_gt_0)
    from inv_sendSegment [OF assms this] show ?thesis by (rule returns_obind) auto
  qed
  then show ?thesis using assms inv_send_loop [OF assms] by (simp add: processSendData_def del: send_loop.simps)
qed

lemma inv_recv_copy:
  assumes inv: "sock_inv E {#} s" and env: "env_ok E" and len: "len \<le> getRecvBytes E s"
  shows "returns (recv_copy E len s) (\<lambda>s'. sock_inv E {#} s' \<and>
    (\<exists>rb bs m. s' = s\<lparr>receiveBuffer := rb, application_data := bs, mempool := m\<rparr>))"
proof -
  have "rcv_ok (env_recv_max E) (receiveBuffer s)" using inv by (simp add: sock_inv_def)
  moreover have "len \<le> sw_getRecvBytes (receiveBuffer s)" using len env by (simp add: getRecvBytes_def env_ok_def)
  ultimately obtain bs fr rb where cp: "sw_copyData len (receiveBuffer s) = Inr (bs, fr, rb)"
    and rb: "rcv_ok (env_recv_max E) rb" "rv_blocks (receiveBuffer s) = mset fr + rv_blocks rb"
    using sw_copyData_ok by blast
  let ?s = "s\<lparr>receiveBuffer := rb, application_data := application_data s @ bs\<rparr>"
  have "pool_owns (env_pool E) (mempool ?s) (mset fr + (image_mset rec_addr (mset (history s)) +
      (mset (map pk_addr (packetbuffer s)) + rv_blocks rb)))"
    using inv rb(2) by (simp add: sock_inv_def held_def others_def ac_simps)
  note free = mem_free_all_owned [OF this]
  have "returns (mem_free_all E fr ?s) (\<lambda>s'. sock_inv E {#} s' \<and>
     (\<exists>rb bs m. s' = s\<lparr>receiveBuffer := rb, application_data := bs, mempool := m\<rparr>))"
  proof (rule returns_mono [OF free], elim exE conjE, intro conjI)
    fix s' :: tcp_socket and m
    assume m: "s' = ?s\<lparr>mempool := m\<rparr>"
      "pool_owns (env_pool E) m (image_mset rec_addr (mset (history s)) + (mset (map pk_addr (packetbuffer s)) + rv_blocks rb))"
    show "sock_inv E {#} s'" using inv rb(1) m by (simp add: sock_inv_def held_def others_def app_ok_def)
    show "\<exists>rb bs m. s' = s\<lparr>receiveBuffer := rb, application_data := bs, mempool := m\<rparr>"
      by (rule exI [of _ rb], rule exI [of _ "application_data s @ bs"], rule exI [of _ m]) (simp add: m)
  qed
  with cp env show ?thesis by (simp add: recv_copy_def env_ok_def)
qed

lemma inv_done: "sock_inv E X s \<Longrightarrow> sock_inv E X (s\<lparr>receiving := False, waiting := False\<rparr>)"
  by (auto simp: sock_inv_def others_def app_ok_def)

lemma inv_buflen: "sock_inv E X s \<Longrightarrow> receiving s \<Longrightarrow> state s \<in> {ESTABLISHED, CLOSEWAIT} \<Longrightarrow>
    sock_inv E X (s\<lparr>application_buflen := n\<rparr>)"
  by (auto simp: sock_inv_def others_def app_ok_def)

lemma sock_inv_send_ok: "sock_inv E X s \<Longrightarrow> waiting s \<Longrightarrow> \<not> receiving s \<Longrightarrow> state s \<in> {ESTABLISHED, CLOSEWAIT} \<Longrightarrow> send_ok s"
  by (auto simp: sock_inv_def app_ok_def send_ok_def)

text \<open>The reading half of \<open>established\<close>.\<close>

lemma established_read_ok:
  assumes inv: "sock_inv E {#} s" and env: "env_ok E" and st: "state s = ESTABLISHED" "receiving s"
    and cb: "cb \<le> getRecvBytes E s"
  shows "returns (obind (recv_copy E cb s) (\<lambda>s.
      obind (processACK E (s\<lparr>application_recv_len := application_recv_len s + cb, application_buflen := application_buflen s - cb\<rparr>))
        (\<lambda>s. Inr (if application_buflen s = 0 \<or> pushed then s\<lparr>receiving := False, waiting := False\<rparr> else s)))) (sock_inv E {#})"
proof (rule returns_obind [OF inv_recv_copy [OF inv env cb]])
  fix s1 :: tcp_socket
  assume s1: "sock_inv E {#} s1 \<and> (\<exists>rb bs m. s1 = s\<lparr>receiveBuffer := rb, application_data := bs, mempool := m\<rparr>)"
  then have "state s1 = ESTABLISHED" "receiving s1" using st by auto
  then have "sock_inv E {#} (s1\<lparr>application_recv_len := application_recv_len s1 + cb, application_buflen := application_buflen s1 - cb\<rparr>)"
    using inv_buflen [of E "{#}" "s1\<lparr>application_recv_len := application_recv_len s1 + cb\<rparr>"] s1 by simp
  then show "returns (obind (processACK E (s1\<lparr>application_recv_len := application_recv_len s1 + cb, application_buflen := application_buflen s1 - cb\<rparr>))
        (\<lambda>s. Inr (if application_buflen s = 0 \<or> pushed then s\<lparr>receiving := False, waiting := False\<rparr> else s))) (sock_inv E {#})"
    by (rule returns_obind [OF inv_processACK]) (use env inv_done in \<open>auto simp: env_ok_def\<close>)
qed

lemma sending_ok:
  assumes "sock_inv E {#} s" and "env_ok E" and "send_ok s"
  shows "returns (obind (processSendData E s) (\<lambda>s. Inr (if application_buflen s = 0 \<and> history s = [] then s\<lparr>waiting := False\<rparr> else s)))
    (sock_inv E {#})"
  by (rule returns_obind [OF inv_processSendData [OF assms]]) (auto intro: inv_not_waiting)

lemma established_idle_ok:
  assumes "handler_ok E None s" and st: "state s = ESTABLISHED"
  shows "returns (established_in E None s) (sock_inv E {#})"
proof -
  have inv: "sock_inv E {#} s" and env: "env_ok E" using assms by (simp_all add: handler_ok_def)
  show ?thesis unfolding established_in_def option.case
  proof (rule returns_obind [OF inv_updateHistory [OF inv]], elim conjE)
    fix s1 :: tcp_socket
    assume i: "sock_inv E {#} s1" and f: "frame s s1"
    have st1: "state s1 = ESTABLISHED" using st frame_fields(1) [OF f] by simp
    let ?n = "getRecvBytes E s1"
    have le: "(if ?n > application_buflen s1 then application_buflen s1 else ?n) \<le> ?n" by (auto intro: less_imp_le)
    have snd: "returns (obind (processACK E s1) (\<lambda>s. obind (processSendData E s) (\<lambda>s.
        Inr (if application_buflen s = 0 \<and> history s = [] then s\<lparr>waiting := False\<rparr> else s)))) (sock_inv E {#})"
      if "waiting s1" "\<not> receiving s1"
    proof (rule returns_obind [OF inv_processACK [OF i]], goal_cases)
      case (2 s2)
      moreover have "send_ok s2" using sock_inv_send_ok [OF i] that st1 send_ok_frame 2 by auto
      ultimately show ?case using env by (intro sending_ok) auto
    qed (use env in \<open>simp add: env_ok_def\<close>)
    show "returns (if receiving s1
          then let recvBytes = getRecvBytes E s1 in
               if recvBytes > 0
               then let pushed = pushFlag (receiveBuffer s1);
                        copyBytes = (if recvBytes > application_buflen s1 then application_buflen s1 else recvBytes)
                    in obind (recv_copy E copyBytes s1) (\<lambda>s.
                       let s = s\<lparr>application_recv_len := application_recv_len s + copyBytes,
                                application_buflen := application_buflen s - copyBytes\<rparr>
                       in obind (processACK E s) (\<lambda>s.
                          Inr (if application_buflen s = 0 \<or> pushed then s\<lparr>receiving := False, waiting := False\<rparr> else s)))
               else processACK E s1
          else if waiting s1
          then obind (processACK E s1) (\<lambda>s.
               obind (processSendData E s) (\<lambda>s.
               Inr (if application_buflen s = 0 \<and> history s = [] then s\<lparr>waiting := False\<rparr> else s)))
          else Inr s1) (sock_inv E {#})"
      using established_read_ok [OF i env st1 _ le] snd i env
      by (auto simp: Let_def env_ok_def intro: returns_mono [OF inv_processACK])
  qed
qed

lemma closewait_idle_ok:
  assumes "handler_ok E None s" and st: "state s = CLOSEWAIT"
  shows "returns (closewait_in E None s) (sock_inv E {#})"
proof -
  have inv: "sock_inv E {#} s" and env: "env_ok E" using assms by (simp_all add: handler_ok_def)
  have read: "returns (obind (recv_copy E (application_buflen s2) s2) (\<lambda>s. Inr (s\<lparr>receiving := False, waiting := False\<rparr>))) (sock_inv E {#})"
    if "sock_inv E {#} s2" "application_buflen s2 \<le> getRecvBytes E s2" for s2
    by (rule returns_obind [OF inv_recv_copy [OF that(1) env that(2)]]) (auto intro: inv_done)
  show ?thesis unfolding closewait_in_def option.case
  proof (rule returns_obind [OF inv_updateHistory [OF inv]], elim conjE)
    fix s1 :: tcp_socket
    assume i: "sock_inv E {#} s1" and f: "frame s s1"
    have st1: "state s1 = CLOSEWAIT" using st frame_fields(1) [OF f] by simp
    let ?n = "getRecvBytes E s1"
    let ?s = "if application_buflen s1 > ?n then s1\<lparr>application_buflen := ?n\<rparr> else s1"
    have b: "getRecvBytes E (s1\<lparr>application_buflen := a\<rparr>) = ?n"
      "getRecvBytes E (s1\<lparr>application_buflen := a, application_recv_len := c\<rparr>) = ?n"
      "getRecvBytes E (s1\<lparr>application_recv_len := c\<rparr>) = ?n" for a c
      by (simp_all add: getRecvBytes_def)
    have rd: "returns (obind (recv_copy E (application_buflen (?s\<lparr>application_recv_len := application_recv_len ?s + application_buflen ?s\<rparr>))
         (?s\<lparr>application_recv_len := application_recv_len ?s + application_buflen ?s\<rparr>))
         (\<lambda>s. Inr (s\<lparr>receiving := False, waiting := False\<rparr>))) (sock_inv E {#})" if "receiving s1"
      by (rule read) (use that i inv_buflen [OF i, of ?n] st1 in \<open>auto simp: b not_less\<close>)
    have wr: "returns (obind (processSendData E s1) (\<lambda>s.
        Inr (if application_buflen s = 0 \<and> history s = [] then s\<lparr>waiting := False\<rparr> else s))) (sock_inv E {#})"
      if "\<not> receiving s1" "waiting s1"
      using sending_ok [OF i env sock_inv_send_ok [OF i that(2,1)]] st1 by simp
    show "returns (if receiving s1
          then let recvBytes = getRecvBytes E s1;
                   s = (if application_buflen s1 > recvBytes then s1\<lparr>application_buflen := recvBytes\<rparr> else s1);
                   s = s\<lparr>application_recv_len := application_recv_len s + application_buflen s\<rparr>
               in obind (recv_copy E (application_buflen s) s) (\<lambda>s. Inr (s\<lparr>receiving := False, waiting := False\<rparr>))
          else if waiting s1
          then obind (processSendData E s1) (\<lambda>s.
               Inr (if application_buflen s = 0 \<and> history s = [] then s\<lparr>waiting := False\<rparr> else s))
          else Inr s1) (sock_inv E {#})"
    proof (cases "receiving s1")
      case True
      from rd [OF this] show ?thesis using True unfolding Let_def by (simp only: if_True)
    next
      case False
      then show ?thesis using wr i by simp
    qed
  qed
qed

lemma closing_idle_ok:
  assumes "handler_ok E None s"
  shows "returns (finwait1_in E None s) (sock_inv E {#})" "returns (finwait2_in E None s) (sock_inv E {#})"
    "returns (lastack_in E None s) (sock_inv E {#})" "returns (closing_in E None s) (sock_inv E {#})"
    "returns (timewait_in E None s) (sock_inv E {#})"
proof -
  have inv: "sock_inv E {#} s" and env: "env_prepared E" using assms by (simp_all add: handler_ok_def env_ok_def)
  note upd = returns_obind [OF inv_updateHistory [OF inv]] and ack = inv_processACK [where X = "{#}", OF _ env]
  show "returns (finwait1_in E None s) (sock_inv E {#})"
    unfolding finwait1_in_def option.case by (rule upd) (auto intro!: returns_obind [OF ack] inv_closing_state)
  show "returns (finwait2_in E None s) (sock_inv E {#})"
    unfolding finwait2_in_def option.case by (rule upd) (auto intro!: returns_mono [OF ack])
  show "returns (lastack_in E None s) (sock_inv E {#})"
    unfolding lastack_in_def option.case by (rule upd) (auto intro!: returns_mono [OF inv_abort [where X = "{#}"]])
  show "returns (closing_in E None s) (sock_inv E {#})"
    unfolding closing_in_def option.case by (rule upd) (auto intro!: inv_closing_state)
  show "returns (timewait_in E None s) (sock_inv E {#})"
    unfolding timewait_in_def option.case by (rule upd) (auto intro!: returns_mono [OF inv_abort [where X = "{#}"]])
qed

lemma input_ok:
  assumes ok: "handler_ok E p s"
  shows "returns (input E p s) (sock_inv E {#})"
proof (cases p)
  case None
  then show ?thesis
    using ok closed_ok [OF ok] listen_ok [OF ok] synsent_ok [OF ok] synrcvd_ok [OF ok] established_idle_ok [of E s]
      closewait_idle_ok [of E s] closing_idle_ok [of E s]
    by (cases "state s") (simp_all add: input_def)
next
  case (Some q)
  then show ?thesis
    using ok closed_ok [OF ok] listen_ok [OF ok] synsent_ok [OF ok] synrcvd_ok [OF ok] established_segment_ok [of E q s]
      finwait1_segment_ok [of E q s] finwait2_segment_ok [of E q s] closewait_segment_ok [of E q s]
      lastack_segment_ok [of E q s] closing_segment_ok [of E q s] timewait_segment_ok [of E q s]
    by (cases "state s") (simp_all add: input_def)
qed

subsection \<open>Whole runs\<close>

text \<open>
  What can happen to a socket: the IP layer delivers a segment, the loop of a blocking call makes an iteration, or
  the application starts a call. A call only starts when no other call is still waiting.
\<close>

datatype tcp_call = Deliver tcp_segment u32 | Loop | Listen | Connect u16 | Close | Receive u32
  | Write "u8 list" u32 | Poll "(tcp_segment \<times> u32) list"

definition tcp_call_step :: "tcp_env \<Rightarrow> tcp_call \<Rightarrow> tcp_socket \<Rightarrow> tcp_socket outcome" where
  "tcp_call_step E c s =
     (case c of
        Deliver seg len \<Rightarrow> Inr (deliver E (seg, len) s)
      | Loop \<Rightarrow> if waiting s then recv_step E s else Inr s
      | Listen \<Rightarrow> if waiting s then Inr s else Inr (snd (tcp_listen E s))
      | Connect port \<Rightarrow> if waiting s \<or> state s \<noteq> CLOSED then Inr s else connect_start E port s
      | Close \<Rightarrow> if waiting s then Inr s else close_start E s
      | Receive n \<Rightarrow> if waiting s \<or> state s \<notin> {ESTABLISHED, CLOSEWAIT} then Inr s else Inr (receive_start n s)
      | Write bs n \<Rightarrow> if waiting s \<or> state s \<notin> {ESTABLISHED, CLOSEWAIT} then Inr s else Inr (write_start bs n s)
      | Poll as \<Rightarrow> if waiting s then Inr s else map_sum id snd (poll E as s))"

fun tcp_run :: "(tcp_env \<times> tcp_call) list \<Rightarrow> tcp_socket \<Rightarrow> tcp_socket outcome" where
  "tcp_run [] s = Inr s"
| "tcp_run ((E, c) # cs) s = obind (tcp_call_step E c s) (tcp_run cs)"

definition arrival_ok :: "tcp_segment \<Rightarrow> u32 \<Rightarrow> bool" where
  "arrival_ok seg len \<longleftrightarrow> unat len = length (tcp_encode seg) \<and> unat len < 65536 \<and> 4 * unat (get_header_len seg) \<le> unat len"

definition call_ok :: "tcp_call \<Rightarrow> bool" where
  "call_ok c = (case c of Deliver seg len \<Rightarrow> arrival_ok seg len | Write bs n \<Rightarrow> unat n \<le> length bs
     | Poll as \<Rightarrow> list_all (\<lambda>(seg, len). arrival_ok seg len) as | _ \<Rightarrow> True)"

definition same_config :: "tcp_env \<Rightarrow> tcp_env \<Rightarrow> bool" where
  "same_config E E' \<longleftrightarrow> env_pool E' = env_pool E \<and> env_hist_max E' = env_hist_max E \<and> env_recv_max E' = env_recv_max E"

lemma sock_inv_config: "same_config E E' \<Longrightarrow> sock_inv E' X s = sock_inv E X s"
  by (simp add: same_config_def sock_inv_def held_def)

lemma inv_deliver:
  assumes inv: "sock_inv E {#} s" and ok: "arrival_ok seg len"
  shows "sock_inv E {#} (deliver E (seg, len) s)"
proof -
  have "unat (ucast (ucast len :: u16) :: u32) = unat (ucast len :: u16)" by (rule unat_ucast_u16_u32)
  also have "\<dots> = take_bit 16 (unat len)" by (simp only: unsigned_ucast_eq) simp
  also have "\<dots> = unat len" using ok by (simp add: arrival_ok_def take_bit_eq_mod)
  finally have l: "unat (ucast (ucast len :: u16) :: u32) = unat len" .
  then have "pk_ok \<lparr>pk_addr = a, pk_segment = seg, pk_len = ucast (ucast len :: u16)\<rparr>" for a
    using ok by (simp add: pk_ok_def arrival_ok_def)
  moreover have "app_ok (s\<lparr>mempool := m, packetbuffer := ps\<rparr>) = app_ok s" for m ps by (simp add: app_ok_def)
  ultimately show ?thesis using inv
    by (auto simp: deliver_def addToReceiveQueue_def sock_inv_def held_def others_def app_ok_def ac_simps
        split: prod.splits option.splits dest: pool_owns_none pool_owns_alloc)
qed

lemma handler_take:
  assumes "sock_inv E {#} s" and "env_ok E" and "packetbuffer s = p # ps"
  shows "handler_ok E (Some p) (s\<lparr>packetbuffer := ps\<rparr>)"
  using assms by (simp add: handler_ok_def sock_inv_def others_def held_def app_ok_def)

lemma inv_recv_step:
  assumes "sock_inv E {#} s" and "env_ok E"
  shows "returns (recv_step E s) (sock_inv E {#})"
  using assms input_ok [of E None s] input_ok [OF handler_take [OF assms]]
  by (simp add: recv_step_def handler_ok_def split: list.splits)

lemma inv_poll_loop: "sock_inv E {#} s \<Longrightarrow> env_ok E \<Longrightarrow> returns (poll_loop n E s) (sock_inv E {#})"
proof (induction n arbitrary: s)
  case (Suc n)
  show ?case
  proof (cases "packetbuffer s")
    case (Cons p ps)
    from input_ok [OF handler_take [OF Suc.prems Cons]] Suc show ?thesis
      by (simp add: Cons) (rule returns_obind, assumption, simp)
  qed (use Suc.prems in simp)
qed simp

lemma inv_fold_deliver:
  "sock_inv E {#} s \<Longrightarrow> list_all (\<lambda>(seg, len). arrival_ok seg len) as \<Longrightarrow> sock_inv E {#} (fold (deliver E) as s)"
  by (induction as arbitrary: s) (auto intro: inv_deliver)

lemma inv_poll:
  assumes "sock_inv E {#} s" and "env_ok E" and "list_all (\<lambda>(seg, len). arrival_ok seg len) as"
  shows "returns (poll E as s) (\<lambda>(n, s'). sock_inv E {#} s')"
proof -
  have i: "sock_inv E {#} (fold (deliver E) as s)" using assms by (simp add: inv_fold_deliver)
  have "returns (obind (if b then obind (poll_loop n E s') (\<lambda>s. obind (updateHistory E True s) (processACK E)) else Inr s')
      (\<lambda>s. Inr (sint (getRecvBytes E s AND 0x7FFFFFFF), s))) (\<lambda>(n, s'). sock_inv E {#} s')"
    if s': "sock_inv E {#} s'" for b n s'
  proof -
    have "returns (obind (poll_loop n E s') (\<lambda>s. obind (updateHistory E True s) (processACK E))) (sock_inv E {#})"
      using assms(2) by (auto intro!: returns_obind [OF inv_poll_loop [OF s']] returns_obind [OF inv_updateHistory [where X = "{#}"]]
        returns_mono [OF inv_processACK [where X = "{#}"]] simp: env_ok_def)
    then show ?thesis using s' by (intro returns_obind [where Q = "sock_inv E {#}"]) auto
  qed
  note run = this
  show ?thesis using assms(1) run [OF assms(1), of True] run [OF i, of True] run [OF i, of False]
    unfolding poll_def Let_def by simp
qed

lemma inv_connect_start:
  assumes "sock_inv E {#} s" and "env_ok E" and "state s = CLOSED"
  shows "returns (connect_start E port s) (sock_inv E {#})"
proof -
  have w: "sock_inv E {#} (s'\<lparr>waiting := True\<rparr>)" if "sock_inv E {#} s'" "state s' = SYNSENT" for s'
    using that by (simp add: sock_inv_def others_def app_ok_def)
  have i: "sock_inv E {#} ((gen_initial_seqnum E (s\<lparr>sport := port\<rparr>))\<lparr>sendWindow := 0\<rparr>)"
    "state ((gen_initial_seqnum E (s\<lparr>sport := port\<rparr>))\<lparr>sendWindow := 0\<rparr>) = CLOSED"
    using assms by (simp_all add: gen_initial_seqnum_def Let_def)
  have send: "returns (obind (emit E a seg t (s'\<lparr>seqnum_next := q, state := SYNSENT\<rparr>)) (\<lambda>s. Inr (s\<lparr>waiting := True\<rparr>))) (sock_inv E {#})"
    if "sock_inv E {#a#} s'" "state s' = CLOSED" "length (history s') < env_hist_max E" for a seg t s' q
  proof -
    have "sock_inv E {#a#} (s'\<lparr>seqnum_next := q, state := SYNSENT\<rparr>)" using that by (intro inv_handshake) simp_all
    then show ?thesis using that
      by (auto intro!: returns_obind [OF inv_emit [where X = "{#}"]] w simp: frame_fields(1))
  qed
  show ?thesis unfolding connect_start_def Let_def requestSendBufferTCP_syn_def
    by (rule inv_respond [OF i(1)]) (use assms(2) i(2) send in \<open>auto simp: env_ok_def frame_fields(1)\<close>)
qed

lemma inv_close_start:
  assumes "sock_inv E {#} s" and "env_ok E"
  shows "returns (close_start E s) (sock_inv E {#})"
proof -
  have w: "sock_inv E {#} (s'\<lparr>waiting := True, state := t\<rparr>)" if "sock_inv E {#} s'" "t \<in> {LASTACK, FINWAIT1}" for s' t
    using that by (auto simp: sock_inv_def others_def app_ok_def)
  have "returns (obind (emit E a seg t s') (\<lambda>s. Inr (s\<lparr>waiting := True, state := if state s = CLOSEWAIT then LASTACK else FINWAIT1\<rparr>)))
      (sock_inv E {#})" if "sock_inv E {#a#} s'" "length (history s') < env_hist_max E" for a seg t s'
    using that by (auto intro!: returns_obind [OF inv_emit [where X = "{#}"]] w)
  then show ?thesis unfolding close_start_def Let_def
    using assms by (auto simp: env_ok_def intro!: inv_respond [where X = "{#}"])
qed

lemma inv_call:
  assumes inv: "sock_inv E {#} s" and env: "env_ok E" and c: "call_ok c"
  shows "returns (tcp_call_step E c s) (sock_inv E {#})"
proof (cases c)
  case (Poll as)
  from inv_poll [OF inv env] c Poll have "returns (poll E as s) (\<lambda>(n, s'). sock_inv E {#} s')" by (simp add: call_ok_def)
  then have "returns (map_sum id snd (poll E as s)) (sock_inv E {#})" by (auto simp: returns_def)
  then show ?thesis using Poll inv by (simp add: tcp_call_step_def)
next
  case (Receive n)
  then show ?thesis using inv
    by (auto simp: tcp_call_step_def receive_start_def sock_inv_def others_def app_ok_def held_def)
next
  case (Write bs n)
  then show ?thesis using inv c
    by (auto simp: tcp_call_step_def write_start_def sock_inv_def others_def app_ok_def held_def call_ok_def)
next
  case Listen
  then show ?thesis using inv
    by (auto simp: tcp_call_step_def tcp_listen_def gen_initial_seqnum_def Let_def sock_inv_def others_def app_ok_def held_def)
next
  case (Deliver seg len)
  then show ?thesis using inv_deliver [OF inv] c by (simp add: tcp_call_step_def call_ok_def)
next
  case Loop
  then show ?thesis using inv inv_recv_step [OF inv env] by (simp add: tcp_call_step_def)
next
  case (Connect port)
  then show ?thesis using inv inv_connect_start [OF inv env] by (simp add: tcp_call_step_def)
next
  case Close
  then show ?thesis using inv inv_close_start [OF inv env] by (simp add: tcp_call_step_def)
qed

lemma inv_run:
  assumes "sock_inv E0 {#} s" and "\<forall>(E, c) \<in> set cs. same_config E0 E \<and> env_ok E \<and> call_ok c"
  shows "returns (tcp_run cs s) (sock_inv E0 {#})"
  using assms
proof (induction cs arbitrary: s)
  case (Cons x cs)
  obtain E c where x: "x = (E, c)" by fastforce
  then have e: "same_config E0 E" "env_ok E" "call_ok c" using Cons.prems(2) by auto
  have "sock_inv E {#} s" using Cons.prems(1) sock_inv_config [OF e(1)] by simp
  from inv_call [OF this e(2,3)] have "returns (tcp_call_step E c s) (sock_inv E0 {#})"
    by (rule returns_mono) (simp add: sock_inv_config [OF e(1)])
  then show ?case unfolding x tcp_run.simps by (rule returns_obind) (use Cons in auto)
qed simp

definition socket_blocks :: "tcp_socket \<Rightarrow> nat list" where
  "socket_blocks s = map rec_addr (history s) @ map pk_addr (packetbuffer s) @ map el_segment (rv_elems (receiveBuffer s))"

lemma sock_inv_blocks:
  assumes "sock_inv E {#} s"
  shows "distinct (socket_blocks s)" and "set (socket_blocks s) = mp_blocks (env_pool E) (mempool s) - mp_avail (mempool s)"
proof -
  have "pool_owns (env_pool E) (mempool s) (mset (socket_blocks s))"
    using assms by (simp add: sock_inv_def held_def others_def socket_blocks_def rv_blocks_def)
  then obtain live where l: "mset live = mset (socket_blocks s)" "distinct live"
    "set live = mp_blocks (env_pool E) (mempool s) - mp_avail (mempool s)"
    by (auto simp: pool_owns_def basic.owns_def)
  show "distinct (socket_blocks s)" using l(1,2) mset_eq_imp_distinct_iff by blast
  show "set (socket_blocks s) = mp_blocks (env_pool E) (mempool s) - mp_avail (mempool s)" using l(1,3) mset_eq_setD by blast
qed

lemma new_socket_inv:
  assumes "mp_inv (env_pool E) (BasicMempool (env_pool E) g b)" and "env_recv_max E < 65536"
  shows "sock_inv E {#} (new_TCP_Socket (BasicMempool (env_pool E) g b) raw)"
  using BasicMempool_owns [OF assms(1)] assms(2)
  by (auto simp: new_TCP_Socket_def resetSocketState_def sock_inv_def held_def others_def app_ok_def rv_blocks_def rcv_ok_def
      TCP_ReceiveBuffer_def pool_owns_def)

text \<open>A concrete configuration: two blocks of 256 and two of 64 bytes, three records, three elements.\<close>

definition witness_env :: tcp_env where
  "witness_env = \<lparr>env_pool = BasicMempool_config 256 2 64 2, env_szsb = 16, env_szrb = 8, env_packet_limit = 4, env_hist_max = 3,
     env_recv_max = 3, env_sw_recv = True, env_now = 5, env_ms_to_ticks = ucast, env_ticks_to_ms = ucast, env_sent = (\<lambda>_. True),
     env_interface = True, env_estimate = 20, env_prepared = True, env_timeout = False\<rparr>"

definition witness_syn :: tcp_segment where
  "witness_syn = \<lparr>seg_sport = 1, seg_dport = 2, seg_seqnum = 9, seg_acknum = 0, seg_header_len = 0x50, seg_flags = 2, seg_window = 100,
     seg_checksum = 0, seg_urgend_ptr = 0, seg_data = []\<rparr>"

lemma witness_pool:
  "env_pool witness_env = BasicMempool_config 256 2 64 2"
  "0 + count_big (env_pool witness_env) * size_big (env_pool witness_env) \<le> 1000" "env_recv_max witness_env < 65536" "env_ok witness_env"
  by (simp_all add: witness_env_def BasicMempool_config_def COUNT_BIG_def SIZE_BIG_def env_ok_def)

definition witness_socket :: "tcp_socket \<Rightarrow> tcp_socket" where
  "witness_socket raw = new_TCP_Socket (BasicMempool (env_pool witness_env) 0 1000) raw"

lemma witness_socket_inv: "sock_inv witness_env {#} (witness_socket raw)"
  unfolding witness_socket_def
  by (rule new_socket_inv [OF BasicMempool_inv [OF _ _ witness_pool(1)]]) (use witness_pool in simp_all)



end
