(* ===== verification/TCP_Behaviour.thy ===== *)
theory TCP_Behaviour
  imports TCP_Safety
begin

text \<open>
  What the operations of a TCP socket do: the send window of sequence numbers, the byte stream that
  \<open>processSendData\<close> puts on the wire, the sweep of the retransmission history, the handshake, the receive window, and
  the places where the code does not do what it means to.
\<close>

subsection \<open>Acknowledgements\<close>



subsection \<open>The byte stream on the wire\<close>

text \<open>Sending and bookkeeping without retransmission put nothing on the wire.\<close>

lemma wire_mem_free: "yields (mem_free E a s) (\<lambda>s'. wire s' = wire s)"
  unfolding mem_free_def by (rule yields_obind [where Q = "\<lambda>_. True"]) (auto simp: yields_def)

lemma wire_mem_free_all: "yields (mem_free_all E as s) (\<lambda>s'. wire s' = wire s)"
proof (induction as arbitrary: s)
  case (Cons a as)
  show ?case unfolding mem_free_all.simps
    by (rule yields_obind [OF wire_mem_free]) (rule yields_mono [OF Cons.IH], simp)
qed simp

lemma wire_sweep: "yields (sweep_records E False rs s) (\<lambda>(rs', s'). wire s' = wire s)"
proof (induction rs arbitrary: s)
  case (Cons r rs)
  show ?case
    by (auto intro!: yields_obind [OF wire_mem_free] yields_obind [OF Cons.IH] yields_mono [OF Cons.IH])
qed simp

lemma wire_updateHistory: "yields (updateHistory E False s) (\<lambda>s'. wire s' = wire s)"
  unfolding updateHistory_def clearHistory_def
  by (auto intro!: yields_obind [OF wire_sweep] yields_obind [OF wire_mem_free_all])

lemma wire_request: "yields (requestSendBufferTCP E n s) (\<lambda>(b, s'). wire s' = wire s \<and> frame s s')"
proof -
  have "yields (requestSendBufferTCP E n s) (\<lambda>(b, s'). wire s' = wire s)"
    unfolding requestSendBufferTCP_def
    by (rule yields_obind [where Q = "\<lambda>s'. wire s' = wire s"])
       (auto simp: wire_updateHistory split: prod.splits option.splits)
  with frame_request [of E n s] show ?thesis by (auto simp: yields_def)
qed

lemma wire_emit: "yields (emit E a seg t s) (\<lambda>s'. wire s' = wire s @ [seg] \<and> frame s s')"
proof -
  have "yields (emit E a seg t s) (\<lambda>s'. wire s' = wire s @ [seg])"
    by (simp add: emit_def tcp_send_def history_add_def)
  with frame_emit [of E a seg t s] show ?thesis by (auto simp: yields_def)
qed

text \<open>One segment: the next bytes of the application's buffer under the next sequence number.\<close>

definition sent_one :: "u32 \<Rightarrow> tcp_socket \<Rightarrow> tcp_socket \<Rightarrow> bool" where
  "sent_one len s s' \<longleftrightarrow>
     (\<exists>seg. wire s' = wire s @ [seg] \<and> seg_data seg = take (unat len) (application_buf s) \<and> seg_seqnum seg = seqnum_next s) \<and>
     unat len \<le> length (application_buf s) \<and> application_buf s' = drop (unat len) (application_buf s) \<and>
     application_buflen s' = application_buflen s - len \<and> seqnum_next s' = seqnum_next s + len \<and> mss s' = mss s \<and>
     sendWindow s' = (if sendWindow s \<noteq> 0 then sendWindow s - ucast len else 0)"

lemma sendSegment_sent: "yields (sendSegment E len s) (\<lambda>(ok, s'). if ok then sent_one len s s' else wire s' = wire s \<and> frame s s')"
  unfolding sendSegment_def
proof (rule yields_obind [OF wire_request])
  fix x :: "nat option \<times> tcp_socket"
  assume x: "case x of (b, s') \<Rightarrow> wire s' = wire s \<and> frame s s'"
  obtain b s1 where bs: "x = (b, s1)" by fastforce
  have f: "wire s1 = wire s" "frame s s1" using x bs by simp_all
  note ff = frame_fields [OF f(2)]
  have sent: "yields (obind (emit E a seg t s2) (\<lambda>s. Inr (True, s))) (\<lambda>(ok, s'). if ok then sent_one len s s' else wire s' = wire s \<and> frame s s')"
    if "wire s2 = wire s" and "seg_data seg = take (unat len) (application_buf s)" and "seg_seqnum seg = seqnum_next s"
      and "unat len \<le> length (application_buf s)" and "application_buf s2 = drop (unat len) (application_buf s)"
      and "application_buflen s2 = application_buflen s - len" and "seqnum_next s2 = seqnum_next s + len" and "mss s2 = mss s"
      and "sendWindow s2 = (if sendWindow s \<noteq> 0 then sendWindow s - ucast len else 0)" for a seg t s2
    by (rule yields_obind [OF wire_emit]) (use that in \<open>auto simp: sent_one_def frame_fields\<close>)
  show "yields (case x of (None, s) \<Rightarrow> Inr (False, s)
      | (Some a, s) \<Rightarrow>
         if unat len \<le> length (application_buf s)
         then let seg = (writeHeaderWithAck E (getAckNum E s) s)\<lparr>seg_data := take (unat len) (application_buf s)\<rparr>;
                  s = s\<lparr>application_buflen := application_buflen s - len, application_buf := drop (unat len) (application_buf s)\<rparr>;
                  seg = (if application_buflen s = 0 then set_PSH seg else seg);
                  s = s\<lparr>seqnum_next := seqnum_next s + len\<rparr>;
                  s = (if sendWindow s \<noteq> 0 then lowerSendWindow (ucast len) s else s)
              in obind (emit E a seg getRTO s) (\<lambda>s. Inr (True, s))
         else Inl OutOfBounds) (\<lambda>(ok, s'). if ok then sent_one len s s' else wire s' = wire s \<and> frame s s')"
  proof (cases b)
    case None
    with bs f show ?thesis by simp
  next
    case (Some a)
    then show ?thesis using bs ff f(1)
      by (cases "unat len \<le> length (application_buf s)")
         (simp_all only: Let_def prod.case option.case if_True if_False yields_simps, rule sent,
          simp_all add: set_PSH_def writeHeaderWithAck_def set_ACK_def set_header_len_def lowerSendWindow_def)
  qed
qed

fun consecutive :: "u32 \<Rightarrow> tcp_segment list \<Rightarrow> bool" where
  "consecutive q [] \<longleftrightarrow> True"
| "consecutive q (seg # segs) \<longleftrightarrow> seg_seqnum seg = q \<and> consecutive (q + of_nat (length (seg_data seg))) segs"

definition sent_bytes :: "tcp_segment list \<Rightarrow> u8 list" where
  "sent_bytes segs = concat (map seg_data segs)"

lemma sent_bytes_simps [simp]: "sent_bytes [] = []" "sent_bytes (seg # segs) = seg_data seg @ sent_bytes segs"
  by (simp_all add: sent_bytes_def)

text \<open>\<open>sent_stream s segs s'\<close>: \<open>segs\<close> were put on the wire, and together they are the next bytes of the buffer.\<close>

definition sent_stream :: "tcp_socket \<Rightarrow> tcp_segment list \<Rightarrow> tcp_socket \<Rightarrow> bool" where
  "sent_stream s segs s' \<longleftrightarrow> wire s' = wire s @ segs \<and> consecutive (seqnum_next s) segs \<and>
     application_buf s = sent_bytes segs @ application_buf s' \<and>
     seqnum_next s' = seqnum_next s + of_nat (length (sent_bytes segs)) \<and>
     length (sent_bytes segs) + unat (sendWindow s') = unat (sendWindow s) \<and>
     length (sent_bytes segs) + unat (application_buflen s') = unat (application_buflen s) \<and>
     (\<forall>seg \<in> set segs. length (seg_data seg) \<le> unat (mss s)) \<and> mss s' = mss s"

lemma min3_bounds: "min3 a b c \<le> a" "min3 a b c \<le> c"
  by (auto simp: min3_def)

lemma sent_one_stream:
  assumes one: "sent_one len s s'" and len: "len = min3 (ucast (sendWindow s)) (application_buflen s) (mss s)"
    and window: "sendWindow s > 0"
  shows "\<exists>seg. sent_stream s [seg] s'"
proof -
  have le: "unat len \<le> unat (sendWindow s)" "unat len \<le> unat (application_buflen s)" "unat len \<le> unat (mss s)"
    using min3_bounds [of "ucast (sendWindow s)" "application_buflen s" "mss s"] min3_le [of "ucast (sendWindow s)" "application_buflen s" "mss s"] len
    by (simp_all add: word_le_nat_alt)
  have "unat (ucast len :: u16) = take_bit 16 (unat len)" by (simp only: unsigned_ucast_eq) simp
  also have "\<dots> = unat len" using le(1) unat_u16_less [of "sendWindow s"] by (simp add: take_bit_eq_mod del: unat_u16_less)
  finally have u: "unat (ucast len :: u16) = unat len" .
  have "ucast len \<le> sendWindow s" using le(1) u by (simp add: word_le_nat_alt)
  then have w: "unat (sendWindow s - ucast len) = unat (sendWindow s) - unat len" using u by (simp add: unat_sub)
  have b: "unat (application_buflen s - len) = unat (application_buflen s) - unat len"
    using le(2) by (simp add: unat_sub word_le_nat_alt)
  obtain seg where seg: "wire s' = wire s @ [seg]" "seg_data seg = take (unat len) (application_buf s)"
      "seg_seqnum seg = seqnum_next s"
    using one unfolding sent_one_def by blast
  have rest: "unat len \<le> length (application_buf s)" "application_buf s' = drop (unat len) (application_buf s)"
      "application_buflen s' = application_buflen s - len" "seqnum_next s' = seqnum_next s + len" "mss s' = mss s"
      "sendWindow s' = sendWindow s - ucast len"
    using one window unfolding sent_one_def by (simp_all add: word_neq_0_conv)
  have n: "length (seg_data seg) = unat len" using seg(2) rest(1) by simp
  have "sent_stream s [seg] s'" unfolding sent_stream_def
  proof (intro conjI)
    show "application_buf s = sent_bytes [seg] @ application_buf s'" by (simp add: seg(2) rest(2))
    show "seqnum_next s' = seqnum_next s + of_nat (length (sent_bytes [seg]))" by (simp add: n rest(4))
    show "length (sent_bytes [seg]) + unat (sendWindow s') = unat (sendWindow s)" using le(1) by (simp add: n rest(6) w)
    show "length (sent_bytes [seg]) + unat (application_buflen s') = unat (application_buflen s)" using le(2) by (simp add: n rest(3) b)
    show "\<forall>seg \<in> set [seg]. length (seg_data seg) \<le> unat (mss s)" using le(3) by (simp add: n)
  qed (simp_all add: seg rest(5))
  then show ?thesis ..
qed

lemma sent_stream_append:
  assumes "sent_stream s segs s1" and "sent_stream s1 segs' s2"
  shows "sent_stream s (segs @ segs') s2"
proof -
  have c: "consecutive q (xs @ ys) \<longleftrightarrow> consecutive q xs \<and> consecutive (q + of_nat (length (sent_bytes xs))) ys" for q xs ys
    by (induction xs arbitrary: q) (simp_all add: add.assoc)
  have "sent_bytes (segs @ segs') = sent_bytes segs @ sent_bytes segs'" by (simp add: sent_bytes_def)
  then show ?thesis using assms by (auto simp: sent_stream_def c add.assoc)
qed

lemma sent_stream_frame: "frame s s' \<Longrightarrow> wire s' = wire s \<Longrightarrow> sent_stream s [] s'"
  by (simp add: sent_stream_def frame_def)

lemma send_loop_sent: "yields (send_loop n E s) (\<lambda>s'. \<exists>segs. sent_stream s segs s')"
proof (induction n arbitrary: s)
  case 0
  show ?case using sent_stream_frame [of s s] by auto
next
  case (Suc n)
  show ?case
  proof (cases "application_buflen s > 0 \<and> sendWindow s > 0")
    case True
    have "yields (obind (sendNextSegment E s) (\<lambda>(ok, s). if \<not> ok then Inr s else send_loop n E s)) (\<lambda>s'. \<exists>segs. sent_stream s segs s')"
      unfolding sendNextSegment_def
    proof (rule yields_obind [OF sendSegment_sent])
      fix x :: "bool \<times> tcp_socket"
      assume x: "case x of (ok, s') \<Rightarrow>
          if ok then sent_one (min3 (ucast (sendWindow s)) (application_buflen s) (mss s)) s s' else wire s' = wire s \<and> frame s s'"
      obtain ok s1 where o: "x = (ok, s1)" by fastforce
      show "yields (case x of (ok, s) \<Rightarrow> if \<not> ok then Inr s else send_loop n E s) (\<lambda>s'. \<exists>segs. sent_stream s segs s')"
      proof (cases ok)
        case ok: True
        then obtain seg where "sent_stream s [seg] s1" using sent_one_stream [OF _ refl] x o True by auto
        then have "yields (send_loop n E s1) (\<lambda>s'. \<exists>segs. sent_stream s segs s')"
          by (intro yields_mono [OF Suc.IH]) (blast intro: sent_stream_append)
        then show ?thesis using ok o by simp
      next
        case False
        then show ?thesis using x o sent_stream_frame by auto
      qed
    qed
    with True show ?thesis by simp
  next
    case False
    then show ?thesis using sent_stream_frame [of s s] by auto
  qed
qed

text \<open>C8: What the application writes is what goes on the wire. With an open send window \<open>processSendData\<close> runs without
  a fault and appends segments to the wire that carry, under consecutive sequence numbers, exactly the next
  bytes of the application's buffer; no segment is longer than the maximum segment size, together they do not exceed
  the window of the peer, and the remaining buffer, length, window and next sequence number are what is left.\<close>

theorem send_data_is_stream:
  assumes inv: "sock_inv E {#} s" and env: "env_ok E" and app: "send_ok s" and window: "0 < sendWindow s"
  shows "\<exists>s' segs. processSendData E s = Inr s' \<and> wire s' = wire s @ segs \<and> consecutive (seqnum_next s) segs \<and>
     application_buf s = sent_bytes segs @ application_buf s' \<and>
     seqnum_next s' = seqnum_next s + of_nat (length (sent_bytes segs)) \<and>
     length (sent_bytes segs) + unat (sendWindow s') = unat (sendWindow s) \<and>
     length (sent_bytes segs) + unat (application_buflen s') = unat (application_buflen s) \<and>
     (\<forall>seg \<in> set segs. length (seg_data seg) \<le> unat (mss s))"
proof -
  obtain s' where s': "processSendData E s = Inr s'"
    using inv_processSendData [OF inv env app] by (auto simp: returns_def)
  have "yields (processSendData E s) (\<lambda>s'. \<exists>segs. sent_stream s segs s')"
    using send_loop_sent [of _ E s] sent_stream_frame [of s s] window
    by (auto simp: processSendData_def simp del: send_loop.simps)
  with s' have "\<exists>segs. sent_stream s segs s'" by (rule yieldsD [rotated])
  with s' show ?thesis by (auto simp: sent_stream_def)
qed

theorem send_data_is_stream_witness:
  "\<forall>raw. \<exists>s' segs. processSendData witness_env ((witness_socket raw)\<lparr>state := ESTABLISHED, sendWindow := 100,
      application_buf := [1, 2, 3], application_buflen := 3\<rparr>) = Inr s' \<and> [1, 2, 3] = sent_bytes segs @ application_buf s'"
proof
  fix raw
  let ?s = "(witness_socket raw)\<lparr>state := ESTABLISHED, sendWindow := 100, application_buf := [1, 2, 3], application_buflen := 3\<rparr>"
  have "sock_inv witness_env {#} ?s"
    using witness_socket_inv [of raw] by (simp add: sock_inv_def others_def app_ok_def)
  moreover have "send_ok ?s" by (simp add: send_ok_def)
  moreover have "0 < sendWindow ?s" by simp
  ultimately obtain s' segs where "processSendData witness_env ?s = Inr s'" "application_buf ?s = sent_bytes segs @ application_buf s'"
    using send_data_is_stream [OF _ witness_pool(4), of ?s] by blast
  then show "\<exists>s' segs. processSendData witness_env ?s = Inr s' \<and> [1, 2, 3] = sent_bytes segs @ application_buf s'" by auto
qed

subsection \<open>The sweep of the history\<close>

abbreviation rec_segment :: "tcp_record \<Rightarrow> tcp_segment" where
  "rec_segment r \<equiv> tb_segment (rec_buffer r)"

lemma seqnum_unacked_mem_free: "yields (mem_free E a s) (\<lambda>s'. seqnum_unacked s' = seqnum_unacked s \<and> wire s' = wire s)"
  unfolding mem_free_def by (rule yields_obind [where Q = "\<lambda>_. True"]) (auto simp: yields_def)

lemma sweep_effect:
  "yields (sweep_records E rt rs s) (\<lambda>(rs', s').
     map rec_segment rs' = map rec_segment (filter (\<lambda>r. \<not> record_done E (seqnum_unacked s) r) rs) \<and>
     wire s' = wire s @ map rec_segment (filter (\<lambda>r. \<not> record_done E (seqnum_unacked s) r \<and> rt \<and> isTimedOut (env_now E) r) rs))"
proof (induction rs arbitrary: s)
  case (Cons r rs)
  show ?case
  proof (cases "record_done E (seqnum_unacked s) r")
    case True
    then show ?thesis
      by (auto intro!: yields_obind [OF seqnum_unacked_mem_free] yields_mono [OF Cons.IH])
  next
    case False
    obtain r' s' where r': "(if rt \<and> isTimedOut (env_now E) r then retransmit E r s else (r, s)) = (r', s')" by fastforce
    then have eq: "rec_segment r' = rec_segment r" "seqnum_unacked s' = seqnum_unacked s"
        "wire s' = wire s @ (if rt \<and> isTimedOut (env_now E) r then [rec_segment r] else [])"
      by (auto simp: retransmit_def tcp_send_def setTimeout_def split: if_splits)
    have "yields (obind (sweep_records E rt rs s') (\<lambda>(rs', s''). Inr (r' # rs', s''))) (\<lambda>(rs', s').
       map rec_segment rs' = map rec_segment (filter (\<lambda>r. \<not> record_done E (seqnum_unacked s) r) (r # rs)) \<and>
       wire s' = wire s @ map rec_segment (filter (\<lambda>r. \<not> record_done E (seqnum_unacked s) r \<and> rt \<and> isTimedOut (env_now E) r) (r # rs)))"
      by (rule yields_obind [OF Cons.IH]) (auto simp: eq False)
    with False r' show ?thesis by (simp only: sweep_records.simps if_False prod.case)
  qed
qed simp



text \<open>C35: A partially acknowledged segment is forgotten. When the acknowledgement lies inside a segment, its record
  counts as finished: \<open>updateHistory\<close> gives the buffer back although its last bytes are not acknowledged, and
  they are never retransmitted.\<close>

theorem partial_ack_drops_tail:
  assumes inv: "sock_inv E {#} s" and ifc: "env_interface E" and h: "history s = [r]" and t: "rec_timeout r \<noteq> 0"
    and lo: "SEQ_LT (seg_seqnum (rec_segment r)) (seqnum_unacked s)"
    and hi: "SEQ_LT (seqnum_unacked s) (seg_seqnum (rec_segment r) + of_nat (length (seg_data (rec_segment r))))"
  shows "\<exists>s'. updateHistory E True s = Inr s' \<and> history s' = [] \<and> wire s' = wire s"
proof -
  have d: "record_done E (seqnum_unacked s) r" using t lo by (simp add: record_done_def)
  obtain s' where s': "updateHistory E True s = Inr s'" using inv_updateHistory [OF inv] by (auto simp: returns_def)
  have "yields (updateHistory E True s) (\<lambda>s'. history s' = [] \<and> wire s' = wire s)"
    unfolding updateHistory_def
    by (simp add: ifc) (rule yields_obind [OF sweep_effect], auto simp: h d)
  from yieldsD [OF this s'] s' show ?thesis by blast
qed

lemma witness_history:
  "\<exists>m a. \<forall>r. rec_addr r = a \<longrightarrow> sock_inv witness_env {#} ((witness_socket raw)\<lparr>mempool := m, history := [r]\<rparr>)"
proof -
  let ?s = "witness_socket raw"
  have "fst (mp_alloc (env_pool witness_env) 60 (mempool ?s)) \<noteq> None"
    by (simp add: witness_socket_def new_TCP_Socket_def resetSocketState_def witness_pool(1) BasicMempool_config_def BasicMempool_def
        SIZE_BIG_def SIZE_SMALL_def COUNT_BIG_def COUNT_SMALL_def SingleMempool_def mp_alloc_def smp_alloc_def)
  then obtain a m where am: "mp_alloc (env_pool witness_env) 60 (mempool ?s) = (Some a, m)" by (metis not_None_eq prod.collapse)
  have h: "history ?s = []" by (simp add: witness_socket_def new_TCP_Socket_def resetSocketState_def)
  have "pool_owns (env_pool witness_env) m (add_mset a (others ?s))"
    using pool_owns_alloc [OF _ am] witness_socket_inv [of raw] h by (simp add: sock_inv_def held_def)
  then have "sock_inv witness_env {#} (?s\<lparr>mempool := m, history := [r]\<rparr>)" if "rec_addr r = a" for r
    using witness_socket_inv [of raw] that by (simp add: sock_inv_def held_def others_def app_ok_def) (simp add: witness_env_def)
  then show ?thesis by blast
qed

theorem partial_ack_drops_tail_witness:
  "\<exists>s s'. length (history s) = 1 \<and> updateHistory witness_env True s = Inr s' \<and> history s' = [] \<and> wire s' = wire s"
proof -
  obtain m a where w: "\<forall>r. rec_addr r = a \<longrightarrow> sock_inv witness_env {#} ((witness_socket undefined)\<lparr>mempool := m, history := [r]\<rparr>)"
    using witness_history by blast
  let ?seg = "witness_syn\<lparr>seg_seqnum := 5, seg_data := replicate 10 0\<rparr>"
  let ?r = "\<lparr>rec_timeout = 9, rec_buffer = \<lparr>tb_addr = a, tb_state = TransmittedState, tb_segment = ?seg\<rparr>\<rparr>"
  let ?s = "(witness_socket undefined)\<lparr>mempool := m, history := [?r], seqnum_unacked := 7\<rparr>"
  have "sock_inv witness_env {#} ((witness_socket undefined)\<lparr>mempool := m, history := [?r]\<rparr>)" using w by (simp add: rec_addr_def)
  then have i: "sock_inv witness_env {#} ?s" by simp
  have ifc: "env_interface witness_env" by (simp add: witness_env_def)
  from partial_ack_drops_tail [OF i ifc, of ?r] obtain s' where
    "updateHistory witness_env True ?s = Inr s'" "history s' = []" "wire s' = wire ?s"
    by (auto simp: SEQ_LT_def)
  then show ?thesis by (intro exI [of _ ?s] exI [of _ s']) simp
qed

subsection \<open>The handshake\<close>

lemma rb_empty_ack:
  assumes "rv_elems (receiveBuffer s) = []" and "rv_continuous (receiveBuffer s) = 0"
  shows "getAckNum E s = read_firstSeqNum (receiveBuffer s)"
  using assms by (simp add: getAckNum_def sw_getAckNum_def one_getAckNum_def)

definition rb_empty :: "tcp_socket \<Rightarrow> bool" where
  "rb_empty s \<longleftrightarrow> rv_elems (receiveBuffer s) = [] \<and> rv_continuous (receiveBuffer s) = 0"

text \<open>The segments of the handshake as the flags and numbers they carry.\<close>

definition is_syn :: "u32 \<Rightarrow> tcp_segment \<Rightarrow> bool" where
  "is_syn q seg \<longleftrightarrow> has_SYN seg \<and> \<not> has_ACK seg \<and> \<not> has_RST seg \<and> seg_seqnum seg = q"

definition is_synack :: "u32 \<Rightarrow> u32 \<Rightarrow> tcp_segment \<Rightarrow> bool" where
  "is_synack q a seg \<longleftrightarrow> has_SYN seg \<and> has_ACK seg \<and> \<not> has_RST seg \<and> seg_seqnum seg = q \<and> seg_acknum seg = a"

definition is_ack :: "u32 \<Rightarrow> u32 \<Rightarrow> tcp_segment \<Rightarrow> bool" where
  "is_ack q a seg \<longleftrightarrow> \<not> has_SYN seg \<and> has_ACK seg \<and> \<not> has_RST seg \<and> seg_seqnum seg = q \<and> seg_acknum seg = a"

lemma header_flags:
  "\<not> has_SYN (writeHeader E s)" "\<not> has_ACK (writeHeader E s)" "\<not> has_RST (writeHeader E s)"
  "\<not> has_SYN (writeHeaderWithAck E a s)" "has_ACK (writeHeaderWithAck E a s)" "\<not> has_RST (writeHeaderWithAck E a s)"
  "has_SYN (set_SYN seg)" "has_ACK (set_SYN seg) = has_ACK seg" "has_RST (set_SYN seg) = has_RST seg"
  by (simp_all add: writeHeader_def writeHeaderWithAck_def set_header_len_def tcp_flag_ops tcp_flag_defs
      bit.conj_disj_distrib2)

lemma header_fields:
  "seg_seqnum (writeHeader E s) = seqnum_next s" "seg_seqnum (writeHeaderWithAck E a s) = seqnum_next s"
  "seg_acknum (writeHeaderWithAck E a s) = a" "seg_seqnum (set_SYN seg) = seg_seqnum seg" "seg_acknum (set_SYN seg) = seg_acknum seg"
  by (simp_all add: writeHeader_def writeHeaderWithAck_def set_header_len_def set_ACK_def set_SYN_def)

lemma respond_effect:
  assumes "\<And>s'. wire s' = wire s \<Longrightarrow> frame s s' \<Longrightarrow> Q s'"
    and "\<And>a s'. wire s' = wire s \<Longrightarrow> frame s s' \<Longrightarrow> yields (f a s') Q"
  shows "yields (obind (requestSendBufferTCP E n s) (\<lambda>(b, s). case b of None \<Rightarrow> Inr s | Some a \<Rightarrow> f a s)) Q"
  by (rule yields_obind [OF wire_request]) (use assms in \<open>auto split: option.splits\<close>)

lemma wire_free: "yields (freeReceivedSegment E p s) (\<lambda>s'. wire s' = wire s \<and> frame s s')"
  using wire_mem_free [of E "pk_addr p" s] frame_free [of E p s] by (auto simp: yields_def freeReceivedSegment_def)

lemma wire_clearHistory: "yields (clearHistory E s) (\<lambda>s'. wire s' = wire s \<and> frame s s')"
proof -
  have "yields (clearHistory E s) (\<lambda>s'. wire s' = wire s)"
    unfolding clearHistory_def by (rule yields_obind [OF wire_mem_free_all]) simp
  with frame_clearHistory [of E s] show ?thesis by (auto simp: yields_def)
qed

lemma getAckNum_frame: "frame s s' \<Longrightarrow> getAckNum E s' = getAckNum E s"
  by (simp add: getAckNum_def frame_def)

lemma sendACK_now_effect:
  "yields (sendACK_now E s) (\<lambda>(ok, s'). frame s s' \<and>
     (ok \<longrightarrow> (\<exists>seg. wire s' = wire s @ [seg] \<and> is_ack (seqnum_next s) (getAckNum E s) seg)))"
  unfolding sendACK_now_def sendACK_def
proof (rule yields_obind [OF wire_request])
  fix x :: "nat option \<times> tcp_socket"
  let ?n = "getAckNum E s"
  assume x: "case x of (b, s') \<Rightarrow> wire s' = wire (s\<lparr>ACK_triggered := False\<rparr>) \<and> frame (s\<lparr>ACK_triggered := False\<rparr>) s'"
  obtain b s1 where b: "x = (b, s1)" by fastforce
  have f: "wire s1 = wire s" "frame s s1" using x b by simp_all
  have ack: "is_ack (seqnum_next s) ?n (writeHeaderWithAck E ?n s1)"
    using frame_fields(7) [OF f(2)] by (simp add: is_ack_def header_flags header_fields)
  have "yields (obind (emit E a (writeHeaderWithAck E ?n s1) 0 s1) (\<lambda>s. Inr (True, s))) (\<lambda>(ok, s'). frame s s' \<and>
     (ok \<longrightarrow> (\<exists>seg. wire s' = wire s @ [seg] \<and> is_ack (seqnum_next s) ?n seg)))" for a
    by (rule yields_obind [OF wire_emit]) (use f ack frame_trans in auto)
  then show "yields (case x of (b, s) \<Rightarrow> case b of None \<Rightarrow> Inr (False, s)
      | Some a \<Rightarrow> obind (emit E a (writeHeaderWithAck E ?n s) 0 s) (\<lambda>s. Inr (True, s))) (\<lambda>(ok, s'). frame s s' \<and>
     (ok \<longrightarrow> (\<exists>seg. wire s' = wire s @ [seg] \<and> is_ack (seqnum_next s) ?n seg)))"
    using b f by (simp split: option.splits)
qed

lemma connect_effect:
  assumes "state s = CLOSED"
  shows "yields (connect_start E port s) (\<lambda>s'. state s' = SYNSENT \<longrightarrow>
    (\<exists>q seg. wire s' = wire s @ [seg] \<and> is_syn q seg \<and> seqnum_unacked s' = q \<and> seqnum_next s' = q + 1 \<and> waiting s' \<and>
       receiveBuffer s' = receiveBuffer s))"
proof -
  let ?s = "(gen_initial_seqnum E (s\<lparr>sport := port\<rparr>))\<lparr>sendWindow := 0\<rparr>"
  have s: "wire ?s = wire s" "state ?s = CLOSED" "seqnum_unacked ?s = seqnum_next ?s" "receiveBuffer ?s = receiveBuffer s"
    using assms by (simp_all add: gen_initial_seqnum_def Let_def)
  show ?thesis unfolding connect_start_def Let_def requestSendBufferTCP_syn_def
  proof (rule respond_effect)
    fix s' :: tcp_socket
    assume "frame ?s s'"
    then show "state s' = SYNSENT \<longrightarrow> (\<exists>q seg. wire s' = wire s @ [seg] \<and> is_syn q seg \<and> seqnum_unacked s' = q \<and>
        seqnum_next s' = q + 1 \<and> waiting s' \<and> receiveBuffer s' = receiveBuffer s)"
      using frame_fields(1) [of ?s s'] s(2) by simp
  next
    fix a and s' :: tcp_socket
    assume w: "wire s' = wire ?s" and f: "frame ?s s'"
    note ff = frame_fields [OF f]
    have syn: "is_syn (seqnum_next s') (set_SYN (writeHeader E s'))"
      by (simp add: is_syn_def header_flags header_fields)
    show "yields (obind (emit E a (set_SYN (writeHeader E s')) getRTO (s'\<lparr>seqnum_next := seqnum_next s' + 1, state := SYNSENT\<rparr>))
        (\<lambda>s. Inr (s\<lparr>waiting := True\<rparr>))) (\<lambda>s'. state s' = SYNSENT \<longrightarrow>
        (\<exists>q seg. wire s' = wire s @ [seg] \<and> is_syn q seg \<and> seqnum_unacked s' = q \<and> seqnum_next s' = q + 1 \<and> waiting s' \<and>
           receiveBuffer s' = receiveBuffer s))"
    proof (rule yields_obind [OF wire_emit], elim conjE)
      let ?t = "s'\<lparr>seqnum_next := seqnum_next s' + 1, state := SYNSENT\<rparr>" and ?seg = "set_SYN (writeHeader E s')"
      fix x :: tcp_socket
      assume x: "wire x = wire ?t @ [?seg]" and fx: "frame ?t x"
      note g = frame_fields [OF fx]
      have "wire x = wire s @ [?seg]" using x w s(1) by simp
      moreover have "seqnum_unacked x = seqnum_next s'" using g(6) ff(6,7) s(3) by simp
      moreover have "seqnum_next x = seqnum_next s' + 1" "receiveBuffer x = receiveBuffer s" using g(7,4) ff(4) s(4) by simp_all
      ultimately show "yields (Inr (x\<lparr>waiting := True\<rparr>)) (\<lambda>s'. state s' = SYNSENT \<longrightarrow>
        (\<exists>q seg. wire s' = wire s @ [seg] \<and> is_syn q seg \<and> seqnum_unacked s' = q \<and> seqnum_next s' = q + 1 \<and> waiting s' \<and>
           receiveBuffer s' = receiveBuffer s))"
        using syn by auto
    qed
  qed
qed

lemma listen_effect:
  assumes st: "state s = LISTEN" and syn: "is_syn q (pk_segment p)" and rb: "rb_empty s" and eq: "seqnum_unacked s = seqnum_next s"
  shows "yields (listen_in E (Some p) s) (\<lambda>s'. state s' = SYNRCVD \<longrightarrow>
    (\<exists>n seg. wire s' = wire s @ [seg] \<and> is_synack n (q + 1) seg \<and> seqnum_unacked s' = n \<and> seqnum_next s' = n + 1 \<and>
       getAckNum E' s' = q + 1))"
    (is "yields _ ?Q")
proof -
  let ?s = "s\<lparr>receiveBuffer := setFirstSeqNum (seg_seqnum (pk_segment p) + 1) (receiveBuffer s)\<rparr>"
  have noreset: "handleRST E p s = Inr (False, s)" using syn by (simp add: handleRST_def is_syn_def)
  have ack: "getAckNum E'' s' = q + 1" if "receiveBuffer s' = receiveBuffer ?s" for E'' s'
    using that rb syn rb_empty_ack [of s' E''] by (simp add: rb_empty_def is_syn_def setFirstSeqNum_def)
  have reply: "yields (obind (requestSendBufferTCP E 0 s1) (\<lambda>(b, s). case b of None \<Rightarrow> Inr s
      | Some a \<Rightarrow> emit E a (set_SYN (writeHeaderWithAck E (getAckNum E (s\<lparr>state := SYNRCVD\<rparr>)) (s\<lparr>state := SYNRCVD\<rparr>))) getRTO
          (s\<lparr>state := SYNRCVD, seqnum_next := seqnum_next (s\<lparr>state := SYNRCVD\<rparr>) + 1\<rparr>))) ?Q"
    if f1: "wire s1 = wire ?s" "frame ?s s1" for s1
  proof (rule respond_effect)
    note g = frame_fields [OF f1(2)]
    fix s' :: tcp_socket
    assume "frame s1 s'"
    then show "?Q s'" using frame_fields(1) [of s1 s'] g(1) st by simp
  next
    note g = frame_fields [OF f1(2)]
    fix a and s2 :: tcp_socket
    assume w2: "wire s2 = wire s1" and f2: "frame s1 s2"
    note h = frame_fields [OF f2]
    let ?t = "s2\<lparr>state := SYNRCVD, seqnum_next := seqnum_next (s2\<lparr>state := SYNRCVD\<rparr>) + 1\<rparr>"
    let ?seg = "set_SYN (writeHeaderWithAck E (getAckNum E (s2\<lparr>state := SYNRCVD\<rparr>)) (s2\<lparr>state := SYNRCVD\<rparr>))"
    have rb2: "receiveBuffer s2 = receiveBuffer ?s" using g(4) h(4) by simp
    have seg: "is_synack (seqnum_next s2) (q + 1) ?seg"
      using ack [of "s2\<lparr>state := SYNRCVD\<rparr>" E] rb2 by (simp add: is_synack_def header_flags header_fields)
    show "yields (emit E a ?seg getRTO ?t) ?Q"
    proof (rule yields_mono [OF wire_emit], elim conjE)
      fix x :: tcp_socket
      assume x: "wire x = wire ?t @ [?seg]" and fx: "frame ?t x"
      note k = frame_fields [OF fx]
      have "wire x = wire s @ [?seg]" using x w2 f1(1) by simp
      moreover have "seqnum_unacked x = seqnum_next s2" "seqnum_next x = seqnum_next s2 + 1"
        using k(6,7) h(6,7) g(6,7) eq by simp_all
      moreover have "getAckNum E' x = q + 1" by (rule ack) (use k(4) rb2 in simp)
      ultimately show "?Q x" using seg by auto
    qed
  qed
  show ?thesis unfolding listen_in_def option.case noreset obind_simps prod.case if_False Let_def requestSendBufferTCP_syn_def
    by (rule yields_obind [OF wire_free]) (use reply in blast)
qed

lemma ack_of_next:
  assumes "seqnum_next s = seqnum_unacked s + 1"
  shows "handleACK (seqnum_next s) s = s\<lparr>seqnum_unacked := seqnum_next s\<rparr>"
  using assms by (simp add: handleACK_def SEQ_LEQ_def SEQ_GT_def)

lemma synsent_effect:
  assumes st: "state s = SYNSENT" and sa: "is_synack q (seqnum_next s) (pk_segment p)" and rb: "rb_empty s"
    and eq: "seqnum_next s = seqnum_unacked s + 1" and w: "waiting s"
  shows "yields (synsent_in E (Some p) s) (\<lambda>s'. state s' = ESTABLISHED \<and> seqnum_unacked s' = seqnum_next s \<and>
     seqnum_next s' = seqnum_next s \<and> getAckNum E' s' = q + 1 \<and>
     (\<not> waiting s' \<longrightarrow> (\<exists>seg. wire s' = wire s @ [seg] \<and> is_ack (seqnum_next s) (q + 1) seg)))"
    (is "yields _ ?Q")
proof -
  have seg: "has_ACK (pk_segment p)" "has_SYN (pk_segment p)" "seg_acknum (pk_segment p) = seqnum_next s" "seg_seqnum (pk_segment p) = q"
    using sa by (simp_all add: is_synack_def)
  have finish: "yields (obind (clearHistory E t) (\<lambda>s. obind (sendACK_now E s) (\<lambda>(ok, s). Inr (if ok then s\<lparr>waiting := False\<rparr> else s)))) ?Q"
    if t: "state t = ESTABLISHED" "seqnum_unacked t = seqnum_next s" "seqnum_next t = seqnum_next s" "waiting t" "wire t = wire s"
      and ack: "\<And>E'. getAckNum E' t = q + 1" for t
  proof (rule yields_obind [OF wire_clearHistory], elim conjE)
    fix x :: tcp_socket
    assume x: "wire x = wire t" "frame t x"
    note g = frame_fields [OF x(2)]
    show "yields (obind (sendACK_now E x) (\<lambda>(ok, s). Inr (if ok then s\<lparr>waiting := False\<rparr> else s))) ?Q"
    proof (rule yields_obind [OF sendACK_now_effect])
      fix y :: "bool \<times> tcp_socket"
      assume "case y of (ok, s') \<Rightarrow> frame x s' \<and> (ok \<longrightarrow> (\<exists>seg. wire s' = wire x @ [seg] \<and> is_ack (seqnum_next x) (getAckNum E x) seg))"
      then obtain ok s1 where y: "y = (ok, s1)" and f: "frame x s1"
        and sg: "ok \<Longrightarrow> \<exists>seg. wire s1 = wire x @ [seg] \<and> is_ack (seqnum_next x) (getAckNum E x) seg" by (cases y) auto
      note h = frame_fields [OF f]
      have "state s1 = ESTABLISHED" "seqnum_unacked s1 = seqnum_next s" "seqnum_next s1 = seqnum_next s" "waiting s1"
        using t h(1,6,7,15) g(1,6,7,15) by simp_all
      moreover have "getAckNum E' s1 = q + 1" "getAckNum E x = q + 1"
        using ack getAckNum_frame [OF f] getAckNum_frame [OF x(2)] by simp_all
      moreover have "getAckNum E' (s1\<lparr>waiting := False\<rparr>) = getAckNum E' s1" by (simp add: getAckNum_def)
      ultimately show "yields (case y of (ok, s) \<Rightarrow> Inr (if ok then s\<lparr>waiting := False\<rparr> else s)) ?Q"
        using sg x(1) t(5) g(7) t(3) by (simp add: y)
    qed
  qed
  have est: "yields (if seqnum_unacked (handleACK (seqnum_next s) x) = seqnum_next (handleACK (seqnum_next s) x)
        then obind (clearHistory E (initSendWindow wd q (seqnum_next s) ((handleACK (seqnum_next s) x)\<lparr>state := ESTABLISHED\<rparr>)
             \<lparr>receiveBuffer := setFirstSeqNum (q + 1) (receiveBuffer x)\<rparr>))
            (\<lambda>s. obind (sendACK_now E s) (\<lambda>(ok, s). Inr (if ok then s\<lparr>waiting := False\<rparr> else s)))
        else other) ?Q" if x: "wire x = wire s" "frame s x" for x wd other
  proof -
    note g = frame_fields [OF x(2)]
    have ack: "handleACK (seqnum_next s) x = x\<lparr>seqnum_unacked := seqnum_next s\<rparr>" using ack_of_next [of x] g(6,7) eq by simp
    have rbx: "rb_empty x" using rb g(4) by (simp add: rb_empty_def)
    have "yields (obind (clearHistory E (initSendWindow wd q (seqnum_next s) (x\<lparr>seqnum_unacked := seqnum_next s, state := ESTABLISHED\<rparr>)
             \<lparr>receiveBuffer := setFirstSeqNum (q + 1) (receiveBuffer x)\<rparr>))
          (\<lambda>s. obind (sendACK_now E s) (\<lambda>(ok, s). Inr (if ok then s\<lparr>waiting := False\<rparr> else s)))) ?Q"
      by (rule finish) (use g(7,15) x(1) w rbx in \<open>simp_all add: initSendWindow_def rb_empty_ack rb_empty_def setFirstSeqNum_def\<close>)
    then show ?thesis unfolding ack using g(7) by simp
  qed
  have rbw: "receiveBuffer (initSendWindow wd n a (t\<lparr>state := st\<rparr>)) = receiveBuffer t" "receiveBuffer (handleACK a t) = receiveBuffer t"
    for wd n a st t by (simp_all add: initSendWindow_def handleACK_def)
  show ?thesis unfolding synsent_in_def option.case Let_def seg(3,4) if_P [OF seg(1)] if_P [OF seg(2)] rbw
    by (rule yields_obind [OF wire_free]) (use est in blast)
qed

lemma synrcvd_effect:
  assumes st: "state s = SYNRCVD" and a: "is_ack q (seqnum_next s) (pk_segment p)" and eq: "seqnum_next s = seqnum_unacked s + 1"
  shows "yields (synrcvd_in E (Some p) s) (\<lambda>s'. state s' = ESTABLISHED \<and> \<not> waiting s' \<and> seqnum_unacked s' = seqnum_next s \<and>
     seqnum_next s' = seqnum_next s \<and> getAckNum E' s' = getAckNum E' s)"
    (is "yields _ ?Q")
proof -
  have noreset: "handleRST E p s = Inr (False, s)" and seg: "has_ACK (pk_segment p)" "seg_acknum (pk_segment p) = seqnum_next s"
    using a by (simp_all add: handleRST_def is_ack_def)
  have n: "seqnum_next (s\<lparr>seqnum_unacked := x\<rparr>) = seqnum_next s" for x by simp
  let ?t = "\<lambda>w q. initSendWindow w q (seqnum_next s) (s\<lparr>seqnum_unacked := seqnum_next s, state := ESTABLISHED\<rparr>)"
  have t: "state (?t w q) = ESTABLISHED" "seqnum_unacked (?t w q) = seqnum_next s" "seqnum_next (?t w q) = seqnum_next s"
    "receiveBuffer (?t w q) = receiveBuffer s" for w q
    by (simp_all add: initSendWindow_def)
  have Q: "?Q s'" if f: "frame (x\<lparr>waiting := False\<rparr>) s'" and fx: "frame (?t w q) x" for s' x w q
  proof -
    note g = frame_fields [OF f] and h = frame_fields [OF fx]
    show ?thesis using g(1,4,6,7,15) h(1,4,6,7) t [of w q] by (simp add: getAckNum_def)
  qed
  have "yields (obind (obind (clearHistory E (?t w q)) (\<lambda>s. Inr (s\<lparr>waiting := False\<rparr>))) (freeReceivedSegment E p)) ?Q" for w q
  proof (rule yields_obind [where Q = "\<lambda>s'. \<exists>x. s' = x\<lparr>waiting := False\<rparr> \<and> frame (?t w q) x"])
    show "yields (obind (clearHistory E (?t w q)) (\<lambda>s. Inr (s\<lparr>waiting := False\<rparr>)))
        (\<lambda>s'. \<exists>x. s' = x\<lparr>waiting := False\<rparr> \<and> frame (?t w q) x)"
      by (rule yields_obind [OF frame_clearHistory]) auto
    fix s' :: tcp_socket
    assume "\<exists>x. s' = x\<lparr>waiting := False\<rparr> \<and> frame (?t w q) x"
    then obtain x where x: "s' = x\<lparr>waiting := False\<rparr>" "frame (?t w q) x" by blast
    show "yields (freeReceivedSegment E p s') ?Q"
      by (rule yields_mono [OF frame_free]) (use Q [OF _ x(2)] x(1) in blast)
  qed
  then show ?thesis by (simp add: synrcvd_in_def noreset seg ack_of_next [OF eq] Let_def)
qed

text \<open>C2: The three-way handshake synchronises the two sockets. Whenever a client's \<open>connect\<close> sends its \<open>SYN\<close>, a
  listening server answers it, the client processes that answer and sends its acknowledgement, and the server
  processes that, both sockets are established, all they have sent is acknowledged, and each expects from the other
  exactly the sequence number the other will use next, whatever the two clocks were and also when the numbers
  wrap.\<close>

theorem three_way_handshake:
  assumes c0: "state c0 = CLOSED" "rb_empty c0" and c1: "connect_start E port c0 = Inr c1" "state c1 = SYNSENT"
    and s0: "state s0 = CLOSED" "rb_empty s0"
    and s2: "pk_segment p1 = last (wire c1)" "input E' (Some p1) (snd (tcp_listen E' s0)) = Inr s2" "state s2 = SYNRCVD"
    and c2: "pk_segment p2 = last (wire s2)" "input E (Some p2) c1 = Inr c2" "\<not> waiting c2"
    and s3: "pk_segment p3 = last (wire c2)" "input E' (Some p3) s2 = Inr s3"
  shows "state c2 = ESTABLISHED \<and> state s3 = ESTABLISHED \<and> \<not> waiting s3 \<and>
     seqnum_unacked c2 = seqnum_next c2 \<and> seqnum_unacked s3 = seqnum_next s3 \<and>
     getAckNum E c2 = seqnum_next s3 \<and> getAckNum E' s3 = seqnum_next c2"
proof -
  obtain q where syn: "is_syn q (last (wire c1))" "seqnum_unacked c1 = q" "seqnum_next c1 = q + 1" "waiting c1" "rb_empty c1"
    using yieldsD [OF connect_effect [OF c0(1)] c1(1)] c1(2) c0(2) by (auto simp: rb_empty_def)
  let ?l = "snd (tcp_listen E' s0)"
  have l: "state ?l = LISTEN" "rb_empty ?l" "seqnum_unacked ?l = seqnum_next ?l"
    using s0 by (simp_all add: tcp_listen_def gen_initial_seqnum_def Let_def rb_empty_def)
  have i2: "listen_in E' (Some p1) ?l = Inr s2" using s2(2) l(1) by (simp add: input_def)
  obtain n where sa: "is_synack n (q + 1) (last (wire s2))" "seqnum_unacked s2 = n" "seqnum_next s2 = n + 1" "getAckNum E' s2 = q + 1"
    using yieldsD [OF listen_effect [where q = q and E' = E', OF l(1) _ l(2,3)] i2] syn(1) s2(1,3) by auto
  have ic: "synsent_in E (Some p2) c1 = Inr c2" using c2(2) c1(2) by (simp add: input_def)
  have "is_synack n (seqnum_next c1) (pk_segment p2)" using sa(1) syn(3) c2(1) by simp
  from yieldsD [OF synsent_effect [where E' = E, OF c1(2) this syn(5) _ syn(4)] ic] syn(2,3) c2(3)
  have c: "state c2 = ESTABLISHED" "seqnum_unacked c2 = q + 1" "seqnum_next c2 = q + 1" "getAckNum E c2 = n + 1"
    "is_ack (q + 1) (n + 1) (last (wire c2))" by auto
  have i3: "synrcvd_in E' (Some p3) s2 = Inr s3" using s3(2) s2(3) by (simp add: input_def)
  have "is_ack (q + 1) (seqnum_next s2) (pk_segment p3)" using c(5) s3(1) sa(3) by simp
  from yieldsD [OF synrcvd_effect [where E' = E', OF s2(3) this] i3] sa c show ?thesis by simp
qed

definition witness_raw :: tcp_socket where
  "witness_raw = \<lparr>state = CLOSED, receiving = False, application_recv_len = 0, receiveBuffer = TCP_ReceiveBuffer 0,
     maxReceiveWindow_MSS = 0, maxReceiveWindow_Bytes = 0, seqnum_unacked = 0, seqnum_next = 0, history = [], sendWindow = 0,
     lwack = 0, lwseq = 0, mempool = BasicMempool (env_pool witness_env) 0 1000, packetbuffer = [], FIN_received = False,
     FIN_seqnum = 0, ACK_triggered = False, dport = 0, sport = 0, mss = 0, application_buf = [], application_buflen = 0,
     application_data = [], waiting = False, wire = []\<rparr>"

definition witness_packet :: "tcp_segment \<Rightarrow> rcv_packet" where
  "witness_packet seg = \<lparr>pk_addr = 5000, pk_segment = seg, pk_len = 20\<rparr>"

definition handshake_run :: "(tcp_socket \<times> tcp_socket \<times> tcp_socket \<times> tcp_socket) outcome" where
  "handshake_run =
     obind (connect_start witness_env 7 (witness_socket witness_raw)) (\<lambda>c1.
     obind (input witness_env (Some (witness_packet (last (wire c1)))) (snd (tcp_listen witness_env (witness_socket witness_raw)))) (\<lambda>s2.
     obind (input witness_env (Some (witness_packet (last (wire s2)))) c1) (\<lambda>c2.
     obind (input witness_env (Some (witness_packet (last (wire c2)))) s2) (\<lambda>s3. Inr (c1, s2, c2, s3)))))"

lemma handshake_run_ok:
  "case handshake_run of Inl _ \<Rightarrow> False | Inr (c1, s2, c2, s3) \<Rightarrow> state c1 = SYNSENT \<and> state s2 = SYNRCVD \<and> \<not> waiting c2"
  by code_simp

theorem three_way_handshake_witness:
  "\<exists>c1 s2 c2 s3. handshake_run = Inr (c1, s2, c2, s3) \<and> state c2 = ESTABLISHED \<and> state s3 = ESTABLISHED \<and>
     getAckNum witness_env c2 = seqnum_next s3 \<and> getAckNum witness_env s3 = seqnum_next c2"
proof -
  obtain c1 s2 c2 s3 where r: "handshake_run = Inr (c1, s2, c2, s3)" and st: "state c1 = SYNSENT" "state s2 = SYNRCVD" "\<not> waiting c2"
    using handshake_run_ok by (auto split: sum.splits)
  let ?c0 = "witness_socket witness_raw"
  have c0: "state ?c0 = CLOSED" "rb_empty ?c0"
    by (simp_all add: witness_socket_def new_TCP_Socket_def resetSocketState_def rb_empty_def TCP_ReceiveBuffer_def)
  have run: "connect_start witness_env 7 ?c0 = Inr c1"
    "input witness_env (Some (witness_packet (last (wire c1)))) (snd (tcp_listen witness_env ?c0)) = Inr s2"
    "input witness_env (Some (witness_packet (last (wire s2)))) c1 = Inr c2"
    "input witness_env (Some (witness_packet (last (wire c2)))) s2 = Inr s3"
    using r by (auto simp: handshake_run_def obind_def split: sum.splits)
  have pk: "pk_segment (witness_packet seg) = seg" for seg by (simp add: witness_packet_def)
  from three_way_handshake [OF c0 run(1) st(1) c0 pk run(2) st(2) pk run(3) st(3) pk run(4)] r show ?thesis by blast
qed

text \<open>A lost \<open>SYN|ACK\<close> is not sent again when the client repeats its \<open>SYN\<close>. The handler passes the buffer of the first
  transmission to \<open>send\<close> without \<open>recycle\<close>; \<open>send\<close> refuses a buffer that is not in the writing state, so nothing
  is put on the wire.\<close>

theorem repeated_syn_not_answered:
  assumes "state s = SYNRCVD" and "has_SYN (pk_segment p)" and "\<not> has_ACK (pk_segment p)" and "\<not> has_RST (pk_segment p)"
    and "history s = r # rs" and "tb_state (rec_buffer r) = TransmittedState" and "input E (Some p) s = Inr s'"
  shows "wire s' = wire s \<and> state s' = SYNRCVD"
proof -
  have "tcp_send (rec_buffer r) s = (False, rec_buffer r, s)"
    using assms(6) by (simp add: tcp_send_def TransmittedState_def WritingState_def)
  moreover have e: "s\<lparr>history := r # rs\<rparr> = s" using assms(5) by (cases s) simp
  ultimately have "synrcvd_in E (Some p) s = freeReceivedSegment E p s"
    using assms(2-4) by (simp add: synrcvd_in_def handleRST_def assms(5) e)
  with assms(1,7) have "freeReceivedSegment E p s = Inr s'" by (simp add: input_def)
  from yieldsD [OF wire_free this] show ?thesis using assms(1) frame_fields(1) [of s s'] by simp
qed

theorem repeated_syn_not_answered_witness:
  "\<forall>raw. \<exists>s'. input witness_env (Some (witness_packet witness_syn)) ((witness_socket raw)\<lparr>state := SYNRCVD,
     history := [\<lparr>rec_timeout = 1, rec_buffer = \<lparr>tb_addr = 1000, tb_state = TransmittedState, tb_segment = witness_syn\<rparr>\<rparr>]\<rparr>) = Inr s' \<and>
     wire s' = []"
proof
  fix raw
  let ?r = "\<lparr>rec_timeout = 1, rec_buffer = \<lparr>tb_addr = 1000, tb_state = TransmittedState, tb_segment = witness_syn\<rparr>\<rparr>"
  let ?s = "(witness_socket raw)\<lparr>state := SYNRCVD, history := [?r]\<rparr>"
  have f: "has_SYN witness_syn" "\<not> has_ACK witness_syn" "\<not> has_RST witness_syn"
    by (simp_all add: witness_syn_def tcp_flag_ops tcp_flag_defs)
  have pk: "pk_segment (witness_packet witness_syn) = witness_syn" by (simp add: witness_packet_def)
  have "\<exists>s'. freeReceivedSegment witness_env (witness_packet witness_syn) ?s = Inr s'"
    by (simp add: freeReceivedSegment_def mem_free_def mp_free_def smp_free_def witness_packet_def witness_socket_def
        new_TCP_Socket_def resetSocketState_def BasicMempool_def SingleMempool_def witness_pool(1) BasicMempool_config_def
        SIZE_BIG_def SIZE_SMALL_def COUNT_BIG_def COUNT_SMALL_def)
  moreover have "input witness_env (Some (witness_packet witness_syn)) ?s = freeReceivedSegment witness_env (witness_packet witness_syn) ?s"
    using f by (simp add: input_def synrcvd_in_def handleRST_def pk tcp_send_def TransmittedState_def WritingState_def)
  ultimately obtain s' where s': "input witness_env (Some (witness_packet witness_syn)) ?s = Inr s'" by auto
  have "wire s' = wire ?s \<and> state s' = SYNRCVD"
    by (rule repeated_syn_not_answered [of ?s "witness_packet witness_syn" ?r "[]" witness_env]) (simp_all add: pk f s')
  with s' show "\<exists>s'. input witness_env (Some (witness_packet witness_syn)) ?s = Inr s' \<and> wire s' = []"
    by (auto simp: witness_socket_def new_TCP_Socket_def resetSocketState_def)
qed

subsection \<open>Receive window and segment sizes\<close>

text \<open>The advertised window is the free part of the receive window, as far as 16 bits show it: within the limit that \<open>setMSS\<close>
  computes (the product of the two sizes, saturated at 32 bits) the window is what remains, cut at 65535. When a peer
  has sent beyond the window, which nothing prevents, the subtraction wraps and a large window is advertised.\<close>

theorem receive_window_exact:
  assumes "state s \<notin> {SYNSENT, CLOSED}"
  shows "unat (maxReceiveWindow_Bytes (setMSS m s)) = min (2 ^ 32 - 1) (unat (maxReceiveWindow_MSS s) * unat m) \<and>
    (getRecvBytes E s \<le> maxReceiveWindow_Bytes s \<longrightarrow>
       unat (getReceiveWindow E s) = min 65535 (unat (maxReceiveWindow_Bytes s) - unat (getRecvBytes E s))) \<and>
    (maxReceiveWindow_Bytes s < getRecvBytes E s \<longrightarrow> unat (getRecvBytes E s) - unat (maxReceiveWindow_Bytes s) \<le> 2 ^ 32 - 65536 \<longrightarrow>
       getReceiveWindow E s = 0xFFFF)"
proof (intro conjI impI)
  let ?p = "ucast (maxReceiveWindow_MSS s) * ucast m :: u64"
  have le: "unat (maxReceiveWindow_MSS s) * unat m < 2 ^ 64"
  proof -
    have "unat (maxReceiveWindow_MSS s) * unat m \<le> 4294967295 * 4294967295"
      using unat_u32_less [of m] unat_u32_less [of "maxReceiveWindow_MSS s"] by (intro mult_le_mono) linarith+
    then show ?thesis by simp
  qed
  have p: "unat ?p = unat (maxReceiveWindow_MSS s) * unat m"
  proof -
    have "unat (ucast x :: u64) = unat x" for x :: u32
      using unat_u32_less [of x] by (simp add: unsigned_ucast_eq take_bit_eq_mod del: unat_u32_less)
    with le show ?thesis by (simp add: unat_word_ariths)
  qed
  show "unat (maxReceiveWindow_Bytes (setMSS m s)) = min (2 ^ 32 - 1) (unat (maxReceiveWindow_MSS s) * unat m)"
  proof (cases "?p > 0xFFFFFFFF")
    case True
    then have "unat (maxReceiveWindow_MSS s) * unat m > 0xFFFFFFFF" by (simp add: word_less_nat_alt p)
    with True show ?thesis by (simp add: setMSS_def Let_def)
  next
    case False
    then have lt: "unat (maxReceiveWindow_MSS s) * unat m \<le> 0xFFFFFFFF" by (simp add: word_less_nat_alt p)
    have "unat (ucast ?p :: u32) = take_bit 32 (unat ?p)" by (simp only: unsigned_ucast_eq) simp
    with lt False show ?thesis by (simp add: setMSS_def Let_def p take_bit_eq_mod)
  qed
next
  have w: "getReceiveWindow E s = (if maxReceiveWindow_Bytes s - getRecvBytes E s > 0xFFFF then 0xFFFF
      else ucast (maxReceiveWindow_Bytes s - getRecvBytes E s))"
    using assms by (simp add: getReceiveWindow_def Let_def)
  show "unat (getReceiveWindow E s) = min 65535 (unat (maxReceiveWindow_Bytes s) - unat (getRecvBytes E s))"
    if "getRecvBytes E s \<le> maxReceiveWindow_Bytes s"
  proof -
    let ?d = "maxReceiveWindow_Bytes s - getRecvBytes E s"
    have d: "unat ?d = unat (maxReceiveWindow_Bytes s) - unat (getRecvBytes E s)" using that by (simp add: unat_sub)
    have "unat (ucast ?d :: u16) = take_bit 16 (unat ?d)" by (simp only: unsigned_ucast_eq) simp
    then show ?thesis by (auto simp: w word_less_nat_alt take_bit_eq_mod d)
  qed
  show "getReceiveWindow E s = 0xFFFF" if lt: "maxReceiveWindow_Bytes s < getRecvBytes E s"
    and far: "unat (getRecvBytes E s) - unat (maxReceiveWindow_Bytes s) \<le> 2 ^ 32 - 65536"
  proof -
    let ?d = "maxReceiveWindow_Bytes s - getRecvBytes E s"
    have "unat ?d = 2 ^ 32 - (unat (getRecvBytes E s) - unat (maxReceiveWindow_Bytes s))"
      using lt unat_u32_less [of "getRecvBytes E s"] by (simp add: unat_sub_if' word_less_nat_alt)
    then have "65535 < unat ?d" using far lt by (simp add: word_less_nat_alt)
    then show ?thesis by (simp add: w word_less_nat_alt)
  qed
qed

theorem receive_window_exact_witness:
  "\<forall>raw. getReceiveWindow witness_env ((witness_socket raw)\<lparr>state := ESTABLISHED, receiveBuffer := (TCP_ReceiveBuffer 0)\<lparr>rv_bytes := 1000\<rparr>\<rparr>) = 0xFFFF"
proof
  fix raw
  let ?s = "(witness_socket raw)\<lparr>state := ESTABLISHED, receiveBuffer := (TCP_ReceiveBuffer 0)\<lparr>rv_bytes := 1000\<rparr>\<rparr>"
  have v: "maxReceiveWindow_Bytes ?s = 536" "getRecvBytes witness_env ?s = 1000"
    by (simp_all add: witness_socket_def new_TCP_Socket_def resetSocketState_def DEFAULT_MSS_def getRecvBytes_def sw_getRecvBytes_def witness_env_def)
  have "state ?s \<notin> {SYNSENT, CLOSED}" by simp
  from receive_window_exact [OF this, of 0 witness_env] show "getReceiveWindow witness_env ?s = 0xFFFF" unfolding v by simp
qed

subsection \<open>Termination of the send loop\<close>

lemma min3_pos: "0 < a \<Longrightarrow> 0 < b \<Longrightarrow> 0 < c \<Longrightarrow> 0 < min3 a b c"
  by (simp add: min3_def)

lemma send_loop_fuel_eq:
  "unat (application_buflen s) < n \<Longrightarrow> unat (application_buflen s) < m \<Longrightarrow> 0 < mss s \<Longrightarrow> send_loop n E s = send_loop m E s"
proof (induction n arbitrary: s m)
  case (Suc n)
  obtain k where m: "m = Suc k" using Suc.prems(2) by (cases m) auto
  show ?case
  proof (cases "application_buflen s > 0 \<and> sendWindow s > 0")
    case True
    show ?thesis
    proof (cases "sendNextSegment E s")
      case (Inr x)
      obtain ok s1 where x: "x = (ok, s1)" by fastforce
      have "send_loop n E s1 = send_loop k E s1" if ok
      proof -
        let ?len = "min3 (ucast (sendWindow s)) (application_buflen s) (mss s)"
        have one: "sent_one ?len s s1"
          using yieldsD [OF sendSegment_sent [of E ?len s]] Inr x that by (simp add: sendNextSegment_def)
        have "0 < (ucast (sendWindow s) :: u32)" using True by (simp add: word_less_nat_alt)
        then have pos: "0 < unat ?len" using min3_pos True Suc.prems(3) by (simp add: unat_gt_0 word_neq_0_conv)
        have "unat ?len \<le> unat (application_buflen s)" using min3_le by (simp only: word_le_nat_alt [symmetric])
        then have "unat (application_buflen s1) < unat (application_buflen s)" "mss s1 = mss s"
          using one pos by (simp_all add: sent_one_def unat_sub word_le_nat_alt)
        then show ?thesis using Suc.prems m by (intro Suc.IH) auto
      qed
      with True Inr x show ?thesis by (simp add: m)
    qed (use True m in simp)
  qed (auto simp: m)
qed simp

text \<open>The send loop ends. As long as the maximum segment size is not 0, every round sends at least one byte, so the
  fuel \<open>processSendData\<close> gives the loop, one more than the bytes to send, is never used up: any larger amount gives the
  same result.\<close>

theorem send_loop_terminates:
  assumes "0 < mss s" and "0 < application_buflen s" and "0 < sendWindow s" and "unat (application_buflen s) < n"
  shows "processSendData E s = send_loop n E s"
proof -
  have "application_buflen s \<noteq> 0" "sendWindow s \<noteq> 0" using assms(2,3) by auto
  then show ?thesis using assms send_loop_fuel_eq [of s "Suc (unat (application_buflen s))" n E]
    by (simp add: processSendData_def del: send_loop.simps)
qed

theorem send_loop_terminates_witness:
  "\<forall>raw. processSendData witness_env ((witness_socket raw)\<lparr>state := ESTABLISHED, sendWindow := 100, application_buf := [1, 2, 3],
       application_buflen := 3\<rparr>) =
     send_loop 1000 witness_env ((witness_socket raw)\<lparr>state := ESTABLISHED, sendWindow := 100, application_buf := [1, 2, 3],
       application_buflen := 3\<rparr>)"
  by (intro allI send_loop_terminates)
     (simp_all add: witness_socket_def new_TCP_Socket_def resetSocketState_def DEFAULT_MSS_def)

subsection \<open>Faults\<close>

text \<open>Without the sliding receive window a \<open>receive\<close> after the peer's \<open>FIN\<close> crashes: in \<open>CLOSEWAIT\<close> with nothing left to
  read, \<open>copyData\<close> is called with length 0 and follows its null \<open>head\<close> pointer.\<close>

theorem closewait_read_faults:
  assumes "\<not> env_sw_recv E" and "env_interface E" and "state s = CLOSEWAIT" and "receiving s"
    and "rv_elems (receiveBuffer s) = []" and "history s = []"
  shows "input E None s = Inl NullDeref"
proof -
  have "updateHistory E True s = Inr s" using assms by (cases s) (simp add: updateHistory_def)
  moreover have "getRecvBytes E s = 0" using assms by (simp add: getRecvBytes_def one_getRecvBytes_def)
  ultimately show ?thesis using assms
    by (simp add: input_def closewait_in_def Let_def recv_copy_def one_copyData_def)
qed

theorem closewait_read_faults_witness:
  "\<forall>raw. input (witness_env\<lparr>env_sw_recv := False\<rparr>) None ((witness_socket raw)\<lparr>state := CLOSEWAIT, receiving := True\<rparr>) = Inl NullDeref"
  by (intro allI closewait_read_faults)
     (simp_all add: witness_socket_def new_TCP_Socket_def resetSocketState_def TCP_ReceiveBuffer_def witness_env_def)

text \<open>A header length beyond the segment is not checked. For a segment whose header length field exceeds what arrived the
  payload length wraps to almost \<open>2\<^sup>3\<^sup>2\<close>; the segment is stored as in-order data of that length, and reading any of it leaves
  the received memory.\<close>

theorem malformed_header_overread:
  assumes bad: "unat (pk_len p) < 4 * unat (get_header_len (pk_segment p))" and len: "unat (pk_len p) = length (tcp_encode (pk_segment p))"
    and env: "env_sw_recv E" "0 < env_recv_max E" and rb: "rv_elems (receiveBuffer s) = []" "rv_continuous (receiveBuffer s) = 0"
    and seq: "q = read_firstSeqNum (receiveBuffer s)" and n: "0 < n" "n \<le> payload_length p"
  shows "\<exists>s'. handleData E p q (payload_length p) s = (False, s') \<and>
    unat (getRecvBytes E s') = 2 ^ 32 - (4 * unat (get_header_len (pk_segment p)) - unat (pk_len p)) \<and>
    recv_copy E n s' = Inl OutOfBounds"
proof -
  let ?h = "get_header_len (pk_segment p)"
  have "?h = take_bit 4 (drop_bit 4 (seg_header_len (pk_segment p)))"
    by (simp add: get_header_len_def take_bit_eq_mask mask_eq_exp_minus_1)
  then have "unat ?h = unat (drop_bit 4 (seg_header_len (pk_segment p))) mod 16"
    by (simp add: unsigned_take_bit_eq) (simp add: take_bit_eq_mod)
  then have h15: "unat ?h < 16" by simp
  have hl: "unat (ucast ?h * 4 :: u32) = 4 * unat ?h" using h15 by (simp add: unat_word_ariths)
  have pl: "unat (payload_length p) = 2 ^ 32 - (4 * unat ?h - unat (pk_len p))"
    using bad h15 by (simp add: payload_length_def unat_sub_if' hl)
  then have pos: "payload_length p > 0" using h15 by (simp add: word_less_nat_alt)
  let ?e = "\<lparr>el_len = payload_length p, el_seqNum = q, el_data = get_data (pk_segment p), el_segment = pk_addr p\<rparr>"
  have empty: "get_data (pk_segment p) = []" using bad len by (simp add: get_data_def)
  let ?rb = "(receiveBuffer s)\<lparr>rv_elems := [?e], rv_continuous := 1, rv_bytes := payload_length p\<rparr>"
  obtain psh where ins: "recv_insert E ?e (has_PSH (pk_segment p)) s = (True, s\<lparr>receiveBuffer := ?rb\<lparr>pushFlag := psh\<rparr>\<rparr>)"
    using env rb seq by (simp add: recv_insert_def sw_insert_def updateContinuous_def SEQ_LT_def)
  let ?s' = "triggerACK (s\<lparr>receiveBuffer := ?rb\<lparr>pushFlag := psh\<rparr>\<rparr>)"
  have "handleData E p q (payload_length p) s = (False, ?s')" using ins pos by (simp add: handleData_def)
  moreover have "unat (getRecvBytes E ?s') = 2 ^ 32 - (4 * unat ?h - unat (pk_len p))"
    using env pl by (simp add: getRecvBytes_def sw_getRecvBytes_def triggerACK_def)
  moreover have "recv_copy E n ?s' = Inl OutOfBounds"
  proof -
    have "0 < unat n" "0 < unat (payload_length p)" using n(1) pos by (simp_all only: word_less_nat_alt unat_0)
    then show ?thesis using env n empty pos by (simp add: recv_copy_def sw_copyData_def el_copy_def triggerACK_def)
  qed
  ultimately show ?thesis by blast
qed

theorem malformed_header_overread_witness:
  "\<forall>raw. \<exists>s'. handleData witness_env \<lparr>pk_addr = 0, pk_segment = witness_syn\<lparr>seg_header_len := 0xF0\<rparr>, pk_len = 20\<rparr>
      (read_firstSeqNum (receiveBuffer (witness_socket raw))) 4294967256 (witness_socket raw) = (False, s') \<and>
     recv_copy witness_env 1 s' = Inl OutOfBounds"
proof
  fix raw
  let ?p = "\<lparr>pk_addr = 0, pk_segment = witness_syn\<lparr>seg_header_len := 0xF0\<rparr>, pk_len = 20 :: u32\<rparr>" and ?s = "witness_socket raw"
  have h: "get_header_len (pk_segment ?p) = 15" by (simp add: get_header_len_def)
  have pl: "payload_length ?p = 4294967256" using h by (simp add: payload_length_def)
  have l: "unat (pk_len ?p) = length (tcp_encode (pk_segment ?p))"
    by (simp add: witness_syn_def tcp_encode_def store16_def store32_def)
  have "unat (pk_len ?p) < 4 * unat (get_header_len (pk_segment ?p))" unfolding h by simp
  from malformed_header_overread [OF this l, of witness_env ?s "read_firstSeqNum (receiveBuffer ?s)" 1]
  show "\<exists>s'. handleData witness_env ?p (read_firstSeqNum (receiveBuffer ?s)) 4294967256 ?s = (False, s') \<and>
     recv_copy witness_env 1 s' = Inl OutOfBounds"
    unfolding pl by (auto simp: witness_socket_def new_TCP_Socket_def resetSocketState_def TCP_ReceiveBuffer_def witness_env_def)
qed

end
