(* ===== verification/Shared_Memory.thy ===== *)
theory Shared_Memory
  imports Buffers
begin

text \<open>
  \<^verbatim>\<open>ip_management_memory/SharedMemory.cpp\<close> and its aspect \<^verbatim>\<open>SharedMemory.ah\<close>: the management sockets share
  one pool and never free their send buffers; every allocation first frees the buffers that were sent.
  A \<open>SendBuffer*\<close> is an address and the heap maps an address to the object that was created there.
\<close>

type_synonym sb_heap = "nat \<rightharpoonup> send_buffer"

record shared_memory =
  shm_pool :: basic_mempool
  allocatedMemories :: "nat option list"

definition SLOTS :: "pool_config \<Rightarrow> nat" where
  "SLOTS c = count_big c + count_small c"

definition SharedMemory :: "pool_config \<Rightarrow> basic_mempool \<Rightarrow> shared_memory" where
  "SharedMemory c m = \<lparr>shm_pool = m, allocatedMemories = replicate (SLOTS c) None\<rparr>"

text \<open>The loop of \<open>insert\<close>, on the slots that are left to look at.\<close>

fun shm_insert_slots :: "nat \<Rightarrow> nat option list \<Rightarrow> bool \<times> nat option list" where
  "shm_insert_slots a [] = (False, [])"
| "shm_insert_slots a (None # xs) = (True, Some a # xs)"
| "shm_insert_slots a (Some y # xs) = (case shm_insert_slots a xs of (r, ys) \<Rightarrow> (r, Some y # ys))"

definition shm_insert :: "nat \<Rightarrow> shared_memory \<Rightarrow> bool \<times> shared_memory" where
  "shm_insert a sm =
     (case shm_insert_slots a (allocatedMemories sm) of (r, ys) \<Rightarrow> (r, sm\<lparr>allocatedMemories := ys\<rparr>))"

definition shm_remove ::
  "nat \<Rightarrow> pool_config \<Rightarrow> (nat \<Rightarrow> bool) \<Rightarrow> sb_heap \<Rightarrow> nat \<Rightarrow> shared_memory \<Rightarrow> (bool \<times> shared_memory) outcome"
where
  "shm_remove szsb c sent h i sm =
     (if i \<ge> length (allocatedMemories sm) then Inl OutOfBounds
      else case allocatedMemories sm ! i of
             None \<Rightarrow> Inl NullDeref
           | Some a \<Rightarrow>
               (case h a of
                  None \<Rightarrow> Inl UseAfterFree
                | Some b \<Rightarrow>
                    if m_state b = InvalidState \<or> m_state b = TransmittedState \<and> hasBeenSend szsb sent b
                    then (case mp_free c a (shm_pool sm) of
                            Inl e \<Rightarrow> Inl e
                          | Inr m \<Rightarrow> Inr (True, sm\<lparr>shm_pool := m,
                                          allocatedMemories := (allocatedMemories sm)[i := None]\<rparr>))
                    else Inr (False, sm)))"

text \<open>\<open>getNext\<close> returns the pointer and leaves the index where it was found.\<close>

function shm_getNext :: "shared_memory \<Rightarrow> nat \<Rightarrow> nat option \<times> nat" where
  "shm_getNext sm i =
     (if i < length (allocatedMemories sm)
      then (case allocatedMemories sm ! i of Some a \<Rightarrow> (Some a, i) | None \<Rightarrow> shm_getNext sm (i + 1))
      else (None, i))"
  by pat_completeness auto
termination by (relation "measure (\<lambda>(sm, i). length (allocatedMemories sm) - i)") auto

fun shm_free_indices ::
  "nat \<Rightarrow> pool_config \<Rightarrow> (nat \<Rightarrow> bool) \<Rightarrow> sb_heap \<Rightarrow> nat list \<Rightarrow> shared_memory \<Rightarrow> shared_memory outcome"
where
  "shm_free_indices szsb c sent h [] sm = Inr sm"
| "shm_free_indices szsb c sent h (i # ixs) sm =
     (if i \<ge> length (allocatedMemories sm) then Inl OutOfBounds
      else if allocatedMemories sm ! i \<noteq> None
      then (case shm_remove szsb c sent h i sm of
              Inl e \<Rightarrow> Inl e
            | Inr (_, sm') \<Rightarrow> shm_free_indices szsb c sent h ixs sm')
      else shm_free_indices szsb c sent h ixs sm)"

definition freeAllUnused ::
  "nat \<Rightarrow> pool_config \<Rightarrow> (nat \<Rightarrow> bool) \<Rightarrow> sb_heap \<Rightarrow> shared_memory \<Rightarrow> shared_memory outcome"
where
  "freeAllUnused szsb c sent h sm = shm_free_indices szsb c sent h [0..<SLOTS c] sm"

text \<open>\<open>SendBuffer::createInstance\<close> on the shared pool, with the advice before and after it.\<close>

definition shm_createInstance ::
  "nat \<Rightarrow> pool_config \<Rightarrow> (nat \<Rightarrow> u8) \<Rightarrow> (nat \<Rightarrow> bool) \<Rightarrow> u32 \<Rightarrow> nat option \<Rightarrow> sb_heap \<Rightarrow> shared_memory \<Rightarrow>
   (send_buffer option \<times> sb_heap \<times> shared_memory) outcome"
where
  "shm_createInstance szsb c raw sent req ifc h sm =
     (case freeAllUnused szsb c sent h sm of
        Inl e \<Rightarrow> Inl e
      | Inr sm1 \<Rightarrow>
          (case createInstance szsb c raw req ifc (shm_pool sm1) of
             (None, m) \<Rightarrow> Inr (None, h, sm1\<lparr>shm_pool := m\<rparr>)
           | (Some b, m) \<Rightarrow>
               Inr (Some b, h(sb_addr b \<mapsto> b), snd (shm_insert (sb_addr b) (sm1\<lparr>shm_pool := m\<rparr>)))))"

subsection \<open>The list tracks every live block\<close>

fun slot_ptrs :: "'a option list \<Rightarrow> 'a list" where
  "slot_ptrs [] = []"
| "slot_ptrs (None # xs) = slot_ptrs xs"
| "slot_ptrs (Some a # xs) = a # slot_ptrs xs"

lemma set_slot_ptrs: "a \<in> set (slot_ptrs xs) \<longleftrightarrow> Some a \<in> set xs"
  by (induction xs rule: slot_ptrs.induct) auto

lemma slot_ptrs_replicate [simp]: "slot_ptrs (replicate n None) = []"
  by (induction n) auto

lemma slot_ptrs_remove:
  "i < length xs \<Longrightarrow> xs ! i = Some a \<Longrightarrow> \<exists>j < length (slot_ptrs xs). slot_ptrs xs ! j = a \<and>
     slot_ptrs (xs[i := None]) = take j (slot_ptrs xs) @ drop (Suc j) (slot_ptrs xs)"
proof (induction xs arbitrary: i rule: slot_ptrs.induct)
  case (2 xs)
  then show ?case by (cases i) auto
next
  case (3 y xs)
  show ?case
  proof (cases i)
    case 0
    with 3 show ?thesis by (intro exI [of _ 0]) auto
  next
    case (Suc k)
    with 3 obtain j where "j < length (slot_ptrs xs)" "slot_ptrs xs ! j = a"
      "slot_ptrs (xs[k := None]) = take j (slot_ptrs xs) @ drop (Suc j) (slot_ptrs xs)" by auto
    with Suc show ?thesis by (intro exI [of _ "Suc j"]) auto
  qed
qed simp

lemma shm_insert_slots_room:
  assumes "length (slot_ptrs xs) < length xs"
  shows "fst (shm_insert_slots a xs)" and "mset (slot_ptrs (snd (shm_insert_slots a xs))) = add_mset a (mset (slot_ptrs xs))"
    and "length (snd (shm_insert_slots a xs)) = length xs"
proof -
  have "None \<in> set xs" using assms by (induction xs rule: slot_ptrs.induct) auto
  then show "fst (shm_insert_slots a xs)" "mset (slot_ptrs (snd (shm_insert_slots a xs))) = add_mset a (mset (slot_ptrs xs))"
    "length (snd (shm_insert_slots a xs)) = length xs"
    by (induction xs rule: slot_ptrs.induct) (auto simp: split_beta)
qed

lemma card_mp_blocks: "mp_inv c m \<Longrightarrow> card (mp_blocks c m) \<le> SLOTS c"
proof -
  assume "mp_inv c m"
  then have "card (mp_big_blocks c m) = count_big c" "card (mp_small_blocks c m) = count_small c"
    by (simp_all add: mp_big_blocks_def mp_small_blocks_def card_smp_blocks mp_inv_def smp_inv_def)
  then show ?thesis using card_Un_le [of "mp_big_blocks c m" "mp_small_blocks c m"]
    by (simp add: mp_blocks_def SLOTS_def)
qed

lemma finite_mp_blocks [simp]: "finite (mp_blocks c m)"
  by (simp add: mp_blocks_def mp_big_blocks_def mp_small_blocks_def)

lemma owns_length: "basic.owns c m live \<Longrightarrow> length live \<le> SLOTS c"
  using card_mp_blocks [of c m] distinct_subset_length [of live "mp_blocks c m"]
  by (auto simp: basic.owns_def intro: order_trans)

lemma owns_mset: "basic.owns c m xs \<Longrightarrow> mset xs = mset ys \<Longrightarrow> basic.owns c m ys"
  by (metis basic.owns_def mset_eq_imp_distinct_iff mset_eq_setD)

definition shm_inv :: "pool_config \<Rightarrow> sb_heap \<Rightarrow> shared_memory \<Rightarrow> bool" where
  "shm_inv c h sm \<longleftrightarrow> length (allocatedMemories sm) = SLOTS c \<and>
     basic.owns c (shm_pool sm) (slot_ptrs (allocatedMemories sm)) \<and>
     (\<forall>a. Some a \<in> set (allocatedMemories sm) \<longrightarrow> (\<exists>b. h a = Some b \<and> sb_addr b = a))"

lemma shm_remove_inv:
  assumes inv: "shm_inv c h sm" and i: "i < SLOTS c" "allocatedMemories sm ! i = Some a"
  shows "\<exists>r sm'. shm_remove szsb c sent h i sm = Inr (r, sm') \<and> shm_inv c h sm'"
proof -
  let ?xs = "allocatedMemories sm"
  have len: "i < length ?xs" and own: "basic.owns c (shm_pool sm) (slot_ptrs ?xs)"
    using inv i by (simp_all add: shm_inv_def)
  have "Some a \<in> set ?xs" using len i(2) nth_mem by metis
  then obtain b where b: "h a = Some b" using inv by (auto simp: shm_inv_def)
  obtain j where j: "j < length (slot_ptrs ?xs)" "slot_ptrs ?xs ! j = a"
      "slot_ptrs (?xs[i := None]) = take j (slot_ptrs ?xs) @ drop (Suc j) (slot_ptrs ?xs)"
    using slot_ptrs_remove [OF len i(2)] by blast
  from basic.owns_release [OF own j(1)] obtain m where m: "mp_free c a (shm_pool sm) = Inr m"
      "basic.owns c m (slot_ptrs (?xs[i := None]))" using j by auto
  have "\<forall>x. Some x \<in> set (?xs[i := None]) \<longrightarrow> (\<exists>b. h x = Some b \<and> sb_addr b = x)"
    using inv set_update_subset_insert [of ?xs i None] by (auto simp: shm_inv_def)
  with m inv b len i show ?thesis by (auto simp: shm_remove_def shm_inv_def)
qed

lemma shm_free_indices_inv:
  "shm_inv c h sm \<Longrightarrow> set ixs \<subseteq> {..<SLOTS c} \<Longrightarrow>
   \<exists>sm'. shm_free_indices szsb c sent h ixs sm = Inr sm' \<and> shm_inv c h sm'"
proof (induction ixs arbitrary: sm)
  case (Cons i ixs)
  have len: "length (allocatedMemories sm) = SLOTS c" using Cons.prems by (simp add: shm_inv_def)
  show ?case
  proof (cases "allocatedMemories sm ! i")
    case None
    with Cons len show ?thesis by auto
  next
    case (Some a)
    with Cons.prems shm_remove_inv [of c h sm i a szsb sent] obtain r sm' where
      "shm_remove szsb c sent h i sm = Inr (r, sm')" "shm_inv c h sm'" by auto
    with Cons.IH [of sm'] Cons.prems Some len show ?thesis by auto
  qed
qed simp

lemma shm_insert_slots_set: "Some x \<in> set (snd (shm_insert_slots a xs)) \<Longrightarrow> x = a \<or> Some x \<in> set xs"
  by (induction a xs rule: shm_insert_slots.induct) (auto simp: split_beta)

lemma shm_createInstance_inv:
  assumes inv: "shm_inv c h sm"
  shows "\<exists>r h' sm'. shm_createInstance szsb c raw sent req ifc h sm = Inr (r, h', sm') \<and> shm_inv c h' sm' \<and>
           (\<forall>b. r = Some b \<longrightarrow> Some (sb_addr b) \<in> set (allocatedMemories sm'))"
proof -
  obtain sm1 where f: "freeAllUnused szsb c sent h sm = Inr sm1" and inv1: "shm_inv c h sm1"
    using shm_free_indices_inv [OF inv, of "[0..<SLOTS c]" szsb sent]
    by (auto simp: freeAllUnused_def atLeast0LessThan)
  have own: "basic.owns c (shm_pool sm1) (slot_ptrs (allocatedMemories sm1))" using inv1 by (simp add: shm_inv_def)
  obtain r m where cr: "createInstance szsb c raw req ifc (shm_pool sm1) = (r, m)" by fastforce
  show ?thesis
  proof (cases r)
    case None
    then have "mp_alloc c (unat (req + of_nat szsb)) (shm_pool sm1) = (None, m)"
      using cr by (auto simp: createInstance_def split: prod.splits option.splits)
    then have "m = shm_pool sm1" using basic.alloc_none own by (auto simp: basic.owns_def)
    with None cr f inv1 show ?thesis by (simp add: shm_createInstance_def)
  next
    case (Some b)
    let ?ys = "snd (shm_insert_slots (sb_addr b) (allocatedMemories sm1))"
    have al: "mp_alloc c (unat (req + of_nat szsb)) (shm_pool sm1) = (Some (sb_addr b), m)"
      using createInstance_ok(6) cr Some by blast
    have own': "basic.owns c m (sb_addr b # slot_ptrs (allocatedMemories sm1))"
      using basic.owns_alloc [OF own al] .
    then have "length (slot_ptrs (allocatedMemories sm1)) < length (allocatedMemories sm1)"
      using owns_length [OF own'] inv1 by (simp add: shm_inv_def)
    note room = shm_insert_slots_room [OF this, of "sb_addr b"]
    have "basic.owns c m (slot_ptrs ?ys)" using owns_mset [OF own'] room(2) by simp
    moreover have "length ?ys = SLOTS c" using room(3) inv1 by (simp add: shm_inv_def)
    moreover have "Some (sb_addr b) \<in> set ?ys"
      using mset_eq_setD [of "slot_ptrs ?ys" "sb_addr b # slot_ptrs (allocatedMemories sm1)"] room(2)
      by (simp add: set_slot_ptrs [symmetric])
    moreover have "\<forall>a. Some a \<in> set ?ys \<longrightarrow> (\<exists>b'. (h(sb_addr b \<mapsto> b)) a = Some b' \<and> sb_addr b' = a)"
      using inv1 shm_insert_slots_set by (fastforce simp: shm_inv_def)
    ultimately show ?thesis using cr Some f
      by (simp add: shm_createInstance_def shm_insert_def split_beta shm_inv_def)
  qed
qed

subsection \<open>Every history of the shared memory\<close>

text \<open>
  A state of the shared memory is reached by creations, with any request and any answers of the driver,
  and by what the sockets do with a buffer they hold: write to it, send it, set its state.
\<close>

inductive shm_reach :: "nat \<Rightarrow> pool_config \<Rightarrow> basic_mempool \<Rightarrow> sb_heap \<Rightarrow> shared_memory \<Rightarrow> bool" for szsb c m0 where
  start: "shm_reach szsb c m0 Map.empty (SharedMemory c m0)"
| create: "shm_reach szsb c m0 h sm \<Longrightarrow> shm_createInstance szsb c raw sent req ifc h sm = Inr (r, h', sm') \<Longrightarrow>
    shm_reach szsb c m0 h' sm'"
| touch: "shm_reach szsb c m0 h sm \<Longrightarrow> Some a \<in> set (allocatedMemories sm) \<Longrightarrow> sb_addr b = a \<Longrightarrow>
    shm_reach szsb c m0 (h(a \<mapsto> b)) sm"

lemma shm_reach_inv:
  assumes "shm_reach szsb c m0 h sm" and "basic.owns c m0 []"
  shows "shm_inv c h sm"
  using assms
proof (induction rule: shm_reach.induct)
  case start
  then show ?case by (simp add: shm_inv_def SharedMemory_def in_set_replicate)
next
  case (create h sm raw sent req ifc r h' sm')
  then show ?case using shm_createInstance_inv [of c h sm szsb raw sent req ifc] by auto
qed (auto simp: shm_inv_def)



end
