(* ===== verification/Address_Text.thy ===== *)
theory Address_Text
  imports Prelude
begin

text \<open>
  Addresses and their texts: \<^verbatim>\<open>ipv6/IPv6AddressUtilities.h\<close>, \<^verbatim>\<open>ipv6/IPv6AddressUtilities.cpp\<close>,
  \<^verbatim>\<open>ethernet/EthernetAddressUtilities.h\<close> and \<^verbatim>\<open>ethernet/EthernetAddressUtilities.cpp\<close>. A character pointer
  is a position in a block of memory (a list of characters); a position behind the block is a fault, and so is a
  write behind the four digits the parser has room for.
\<close>

subsection \<open>IPv6 addresses\<close>

record ipv6addr =
  ipaddrB8 :: "u8 list"

abbreviation byte6 :: "ipv6addr \<Rightarrow> nat \<Rightarrow> u8" where
  "byte6 a i \<equiv> ipaddrB8 a ! i"

definition ipv6_ok :: "ipv6addr \<Rightarrow> bool" where
  "ipv6_ok a \<longleftrightarrow> length (ipaddrB8 a) = 16"

datatype IPv6_ADDRESS_STATE = IPV6_ADDRESS_PRELIMINARY | IPV6_ADDRESS_OK

datatype IPv6_ADDRESS_SCOPE =
  IPV6_SCOPE_NONDEFINED
| IPV6_SCOPE_LOOPBACK
| IPV6_SCOPE_LINKLOCAL
| IPV6_SCOPE_UNIQUE_LOCAL_UNICAST
| IPV6_SCOPE_MULTICAST
| IPV6_SCOPE_GLOBAL_UNICAST
| IPV6_SCOPE_NOT_RECOGNICED

fun getIPv6AddressScopePrefixLength :: "IPv6_ADDRESS_SCOPE \<Rightarrow> u8" where
  "getIPv6AddressScopePrefixLength IPV6_SCOPE_LINKLOCAL = 64"
| "getIPv6AddressScopePrefixLength IPV6_SCOPE_GLOBAL_UNICAST = 3"
| "getIPv6AddressScopePrefixLength IPV6_SCOPE_MULTICAST = 8"
| "getIPv6AddressScopePrefixLength IPV6_SCOPE_UNIQUE_LOCAL_UNICAST = 7"
| "getIPv6AddressScopePrefixLength _ = 0"

definition getIPv6AddressScope :: "ipv6addr \<Rightarrow> IPv6_ADDRESS_SCOPE" where
  "getIPv6AddressScope a =
     (if byte6 a 0 AND 0x30 = 1 then IPV6_SCOPE_GLOBAL_UNICAST
      else if byte6 a 0 = 0xff then IPV6_SCOPE_MULTICAST
      else if byte6 a 0 = 0xfe \<and> byte6 a 1 = 0x80 then IPV6_SCOPE_LINKLOCAL
      else if byte6 a 0 = 0xfc \<or> byte6 a 0 = 0xfd then IPV6_SCOPE_UNIQUE_LOCAL_UNICAST
      else if \<forall>i < 10. byte6 a i = 0
      then if byte6 a 10 = 0xff \<and> byte6 a 11 = 0xff then IPV6_SCOPE_GLOBAL_UNICAST
           else if byte6 a 10 = 0 \<and> byte6 a 12 = 0 \<and> byte6 a 13 = 0 \<and> byte6 a 14 = 0
           then if byte6 a 15 = 0 then IPV6_SCOPE_NONDEFINED
                else if byte6 a 15 = 1 then IPV6_SCOPE_LOOPBACK
                else IPV6_SCOPE_NOT_RECOGNICED
           else IPV6_SCOPE_NOT_RECOGNICED
      else IPV6_SCOPE_NOT_RECOGNICED)"

definition copy_ipv6_addr :: "ipv6addr \<Rightarrow> ipv6addr \<Rightarrow> ipv6addr" where
  "copy_ipv6_addr src dest = dest\<lparr>ipaddrB8 := take 16 (ipaddrB8 src) @ drop 16 (ipaddrB8 dest)\<rparr>"

definition get_unspecified_ipv6_address :: "ipv6addr \<Rightarrow> ipv6addr" where
  "get_unspecified_ipv6_address dest =
     dest\<lparr>ipaddrB8 := [0, 0, 0, 0, 0, 0, 0, 0, 0, 0, 0, 0, 0, 0, 0, 0] @ drop 16 (ipaddrB8 dest)\<rparr>"

definition is_not_unspecified_ipv6_address :: "ipv6addr \<Rightarrow> bool" where
  "is_not_unspecified_ipv6_address dest \<longleftrightarrow> fold (\<lambda>i u. u OR byte6 dest i) [0..<16] 0 \<noteq> 0"

definition solicitedNode_multicast_addr :: "ipv6addr \<Rightarrow> ipv6addr \<Rightarrow> ipv6addr" where
  "solicitedNode_multicast_addr src dest =
     dest\<lparr>ipaddrB8 := [0xff, 0x02, 0, 0, 0, 0, 0, 0, 0, 0, 0, 0x01, 0xff, byte6 src 13, byte6 src 14, byte6 src 15]
                        @ drop 16 (ipaddrB8 dest)\<rparr>"

text \<open>The operator \<^verbatim>\<open>^\<close> in the mask of the source is the exclusive or; the arithmetic is that of \<open>int\<close> (32 bit),
  cut to 8 bits.\<close>

definition prefix_mask :: "u8 \<Rightarrow> u8" where
  "prefix_mask prefixlen = ucast (NOT ((2 XOR (7 - ucast prefixlen)) - 1 :: u32))"

fun compare_prefix_from :: "nat \<Rightarrow> u8 list \<Rightarrow> u8 list \<Rightarrow> u8 \<Rightarrow> bool" where
  "compare_prefix_from 0 as ps prefixlen = True"
| "compare_prefix_from (Suc n) as ps prefixlen =
     (if prefixlen \<ge> 8
      then if as ! (15 - n) \<noteq> ps ! (15 - n) then False
           else if prefixlen - 8 = 0 then True
           else compare_prefix_from n as ps (prefixlen - 8)
      else as ! (15 - n) AND prefix_mask prefixlen = ps ! (15 - n) AND prefix_mask prefixlen)"

definition compare_ipv6_addr_prefix :: "ipv6addr \<Rightarrow> ipv6addr \<Rightarrow> u8 \<Rightarrow> bool" where
  "compare_ipv6_addr_prefix addr addrprefix prefixlen =
     compare_prefix_from 16 (ipaddrB8 addr) (ipaddrB8 addrprefix) prefixlen"

definition compare_ipv6_addr :: "ipv6addr \<Rightarrow> ipv6addr \<Rightarrow> bool" where
  "compare_ipv6_addr addr addr2 \<longleftrightarrow> take 16 (ipaddrB8 addr) = take 16 (ipaddrB8 addr2)"

subsection \<open>Digits\<close>

definition hex_digits :: string where "hex_digits = ''0123456789abcdef''"

definition hex_values :: "(char \<times> u8) list" where
  "hex_values =
     [(CHR ''0'', 0), (CHR ''1'', 1), (CHR ''2'', 2), (CHR ''3'', 3), (CHR ''4'', 4), (CHR ''5'', 5), (CHR ''6'', 6),
      (CHR ''7'', 7), (CHR ''8'', 8), (CHR ''9'', 9), (CHR ''a'', 10), (CHR ''A'', 10), (CHR ''b'', 11), (CHR ''B'', 11),
      (CHR ''c'', 12), (CHR ''C'', 12), (CHR ''d'', 13), (CHR ''D'', 13), (CHR ''e'', 14), (CHR ''E'', 14),
      (CHR ''f'', 15), (CHR ''F'', 15)]"

definition numberFromAscii :: "char \<Rightarrow> u8" where
  "numberFromAscii c = (case map_of hex_values c of Some d \<Rightarrow> d | None \<Rightarrow> 0)"

definition numberToAscii :: "u8 \<Rightarrow> char" where
  "numberToAscii digit = (if digit < 16 then hex_digits ! unat digit else CHR '' '')"

text \<open>The Ethernet file has its own copies.\<close>

definition numberFromAsciiE :: "char \<Rightarrow> u8" where
  "numberFromAsciiE c = (case map_of hex_values c of Some d \<Rightarrow> d | None \<Rightarrow> 0)"

definition numberToAsciiE :: "u8 \<Rightarrow> char" where
  "numberToAsciiE digit = (if digit < 16 then hex_digits ! unat digit else CHR '' '')"

subsection \<open>Printing\<close>

text \<open>Blocks \<open>8 - n, \<dots>, 7\<close> of an address; every character goes to its own cell of \<open>addrstr\<close>.\<close>

fun print_blocks :: "nat \<Rightarrow> ipv6addr \<Rightarrow> nat \<Rightarrow> string \<Rightarrow> string outcome" where
  "print_blocks 0 a off s = Inr s"
| "print_blocks (Suc n) a off s =
     (let block = 7 - n in
      obind (poke (off + 0) (numberToAscii (drop_bit 4 (byte6 a (block * 2 + 0)))) s) (\<lambda>s.
      obind (poke (off + 1) (numberToAscii (byte6 a (block * 2 + 0) AND 0x0f)) s) (\<lambda>s.
      obind (poke (off + 2) (numberToAscii (drop_bit 4 (byte6 a (block * 2 + 1)))) s) (\<lambda>s.
      obind (poke (off + 3) (numberToAscii (byte6 a (block * 2 + 1) AND 0x0f)) s) (\<lambda>s.
      obind (if block < 7 then poke (off + 4) (CHR '':'') s else Inr s) (\<lambda>s.
      print_blocks n a (off + 5) s))))))"

definition ipv6_addr_toString :: "ipv6addr \<Rightarrow> string \<Rightarrow> string outcome" where
  "ipv6_addr_toString a addrstr = print_blocks 8 a 0 addrstr"

definition is_eth_addr_set :: "u8 list \<Rightarrow> bool" where
  "is_eth_addr_set a \<longleftrightarrow> a ! 3 \<noteq> 0 \<or> a ! 4 \<noteq> 0 \<or> a ! 5 \<noteq> 0"

definition ethernet_addr_tostring :: "u8 list \<Rightarrow> string \<Rightarrow> string outcome" where
  "ethernet_addr_tostring a addrstr =
     poke_all 0
       [numberToAsciiE (drop_bit 4 (a ! 0 AND 0x0f)), numberToAsciiE (a ! 0 AND 0x0f), CHR '':'',
        numberToAsciiE (drop_bit 4 (a ! 1)), numberToAsciiE (a ! 1 AND 0x0f), CHR '':'',
        numberToAsciiE (drop_bit 4 (a ! 2)), numberToAsciiE (a ! 2 AND 0x0f), CHR '':'',
        numberToAsciiE (drop_bit 4 (a ! 3)), numberToAsciiE (a ! 3 AND 0x0f), CHR '':'',
        numberToAsciiE (drop_bit 4 (a ! 4)), numberToAsciiE (a ! 4 AND 0x0f), CHR '':'',
        numberToAsciiE (drop_bit 4 (a ! 5)), numberToAsciiE (a ! 5 AND 0x0f)]
       addrstr"

subsection \<open>Parsing\<close>

text \<open>The length of a block (8 bit) and the position behind it.\<close>

function block_length :: "string \<Rightarrow> nat \<Rightarrow> u8 \<Rightarrow> (u8 \<times> nat) outcome" where
  "block_length s p n =
     (if p < length s
      then if s ! p \<noteq> CHR '':'' \<and> s ! p \<noteq> CHR 0x00 then block_length s (p + 1) (n + 1) else Inr (n, p)
      else Inl OutOfBounds)"
  by pat_completeness auto
termination by (relation "measure (\<lambda>(s, p, n). length s - p)") auto

declare block_length.simps [simp del]

text \<open>The digits of a block from \<open>p\<close> on into \<open>blockdata\<close>, the last one to index 0.\<close>

fun block_digits :: "nat \<Rightarrow> string \<Rightarrow> nat \<Rightarrow> u8 list \<Rightarrow> (u8 list \<times> nat) outcome" where
  "block_digits 0 s p blockdata = Inr (blockdata, p)"
| "block_digits (Suc n) s p blockdata =
     obind (peek s p) (\<lambda>c.
     obind (poke n (numberFromAscii c) blockdata) (\<lambda>blockdata.
     block_digits n s (p + 1) blockdata))"

text \<open>The main loop, \<open>n\<close> blocks before the eighth is read.\<close>

fun parse_blocks :: "nat \<Rightarrow> string \<Rightarrow> nat \<Rightarrow> ipv6addr \<Rightarrow> (nat \<times> ipv6addr) outcome" where
  "parse_blocks 0 s p a = Inr (8, a)"
| "parse_blocks (Suc n) s p a =
     (let blockIndex = 7 - n in
      obind (block_length s p 0) (\<lambda>(blockLength, q).
      obind (block_digits (unat blockLength) s (q - unat blockLength) (replicate 4 0)) (\<lambda>(blockdata, q).
      obind (poke (blockIndex * 2 + 0) (blockdata ! 2 OR push_bit 4 (blockdata ! 3)) (ipaddrB8 a)) (\<lambda>bs.
      obind (poke (blockIndex * 2 + 1) (blockdata ! 0 OR push_bit 4 (blockdata ! 1)) bs) (\<lambda>bs.
      let a = a\<lparr>ipaddrB8 := bs\<rparr> in
      obind (peek s q) (\<lambda>c.
      if c = CHR 0x00 then Inr (blockIndex + 1, a) else parse_blocks n s (q + 1) a))))))"

definition parse_ipv6_addr :: "string \<Rightarrow> ipv6addr \<Rightarrow> (bool \<times> ipv6addr) outcome" where
  "parse_ipv6_addr addrstr a =
     obind (parse_blocks 8 addrstr 0 a) (\<lambda>(blockIndex, a). Inr (if blockIndex \<noteq> 8 then False else True, a))"

text \<open>At most two digits of an Ethernet block, the first one to index 0.\<close>

fun eth_digits :: "nat \<Rightarrow> string \<Rightarrow> nat \<Rightarrow> u8 list \<Rightarrow> (u8 list \<times> nat) outcome" where
  "eth_digits 0 s p blockdata = Inr (blockdata, p)"
| "eth_digits (Suc n) s p blockdata =
     obind (peek s p) (\<lambda>c.
     if c = CHR '':'' then Inr (blockdata, p)
     else obind (poke (1 - n) (numberFromAsciiE c) blockdata) (\<lambda>blockdata. eth_digits n s (p + 1) blockdata))"

fun eth_blocks :: "nat \<Rightarrow> string \<Rightarrow> nat \<Rightarrow> u8 list \<Rightarrow> (nat \<times> u8 list) outcome" where
  "eth_blocks 0 s p a = Inr (6, a)"
| "eth_blocks (Suc n) s p a =
     (let blockIndex = 5 - n in
      obind (eth_digits 2 s p (replicate 2 0)) (\<lambda>(blockdata, p).
      obind (poke blockIndex (blockdata ! 1 OR push_bit 4 (blockdata ! 0)) a) (\<lambda>a.
      obind (peek s p) (\<lambda>c.
      if c = CHR 0x00 then Inr (blockIndex + 1, a) else eth_blocks n s (p + 1) a))))"

definition parse_ethernet_addr :: "string \<Rightarrow> u8 list \<Rightarrow> (bool \<times> u8 list) outcome" where
  "parse_ethernet_addr addrstr a =
     obind (eth_blocks 6 addrstr 0 a) (\<lambda>(blockIndex, a). Inr (if blockIndex \<noteq> 6 then False else True, a))"

subsection \<open>Digits and bytes\<close>

lemma hex_table:
  "\<forall>n \<in> set [0..<16]. numberFromAscii (hex_digits ! n) = of_nat n \<and> numberFromAsciiE (hex_digits ! n) = of_nat n \<and>
     hex_digits ! n \<noteq> CHR '':'' \<and> hex_digits ! n \<noteq> CHR 0x00"
  by code_simp

lemma digit_round:
  assumes "d < 16"
  shows "numberFromAscii (numberToAscii d) = d" "numberFromAsciiE (numberToAsciiE d) = d"
    "numberToAscii d \<noteq> CHR '':''" "numberToAscii d \<noteq> CHR 0x00" "numberToAsciiE d \<noteq> CHR '':''" "numberToAsciiE d \<noteq> CHR 0x00"
proof -
  have "unat d \<in> set [0..<16]" using assms by (simp add: word_less_nat_alt)
  then have "numberFromAscii (hex_digits ! unat d) = of_nat (unat d) \<and> numberFromAsciiE (hex_digits ! unat d) = of_nat (unat d) \<and>
     hex_digits ! unat d \<noteq> CHR '':'' \<and> hex_digits ! unat d \<noteq> CHR 0x00"
    by (rule bspec [OF hex_table])
  then show "numberFromAscii (numberToAscii d) = d" "numberFromAsciiE (numberToAsciiE d) = d"
    "numberToAscii d \<noteq> CHR '':''" "numberToAscii d \<noteq> CHR 0x00" "numberToAsciiE d \<noteq> CHR '':''" "numberToAsciiE d \<noteq> CHR 0x00"
    using assms by (simp_all add: numberToAscii_def numberToAsciiE_def)
qed

lemma nibble_less: "drop_bit 4 (b :: u8) < 16" "(b :: u8) AND 0x0f < 16"
proof -
  show "drop_bit 4 b < 16" using unat_u8_less [of b] by (simp add: word_less_nat_alt unat_drop_bit_word del: unat_u8_less)
  have "b AND 0x0f = take_bit 4 b" by (simp add: take_bit_eq_mask mask_eq_exp_minus_1)
  then show "b AND 0x0f < 16" by (simp add: word_less_nat_alt unsigned_take_bit_eq) (simp add: take_bit_eq_mod)
qed

lemmas nibble_round = digit_round [OF nibble_less(1)] digit_round [OF nibble_less(2)]

lemma nibbles_join: "((b :: u8) AND 0x0f) OR push_bit 4 (drop_bit 4 b) = b"
proof (rule bit_word_eqI)
  fix n assume "n < LENGTH(8)"
  then show "bit ((b AND 0x0f) OR push_bit 4 (drop_bit 4 b)) n = bit b n"
    by (cases "n < 4") (simp_all add: bit_simps bit_mask_int)
qed

subsection \<open>Printing\<close>

text \<open>The four digits of block \<open>k\<close> and the text of the blocks from \<open>8 - n\<close> on.\<close>

definition block_text :: "ipv6addr \<Rightarrow> nat \<Rightarrow> string" where
  "block_text a k = map numberToAscii
     [drop_bit 4 (byte6 a (2 * k)), byte6 a (2 * k) AND 0x0f, drop_bit 4 (byte6 a (2 * k + 1)), byte6 a (2 * k + 1) AND 0x0f]"

fun text_from :: "nat \<Rightarrow> ipv6addr \<Rightarrow> string" where
  "text_from 0 a = []"
| "text_from (Suc n) a = block_text a (7 - n) @ (if n = 0 then [] else CHR '':'' # text_from n a)"

lemma block_text_length [simp]: "length (block_text a k) = 4"
  by (simp add: block_text_def)

lemma text_from_length: "length (text_from n a) = 5 * n - 1"
  by (induction n) auto

lemma print_blocks_text:
  "n \<le> 8 \<Longrightarrow> 5 * n - 1 \<le> length s \<Longrightarrow>
   print_blocks n a (length pre) (pre @ s) = Inr (pre @ text_from n a @ drop (5 * n - 1) s)"
proof (induction n arbitrary: pre s)
  case 0
  then show ?case by simp
next
  case (Suc n)
  then have "4 \<le> length s" by simp
  then obtain x0 x1 x2 x3 t where s: "s = x0 # x1 # x2 # x3 # t" by (rule length_4E)
  show ?case
  proof (cases n)
    case 0
    then show ?thesis using s by (simp only: print_blocks.simps Let_def poke_four) (simp add: block_text_def)
  next
    case (Suc m)
    then obtain x4 u where t: "t = x4 # u" using s Suc.prems by (cases t) auto
    have lt: "6 - m < 7" by arith
    let ?pre = "pre @ block_text a (7 - n) @ [CHR '':'']"
    have len: "length pre + 5 = length ?pre" by (simp add: block_text_def)
    have "print_blocks n a (length ?pre) (?pre @ u) = Inr (?pre @ text_from n a @ drop (5 * n - 1) u)"
      using Suc.IH [of u ?pre] Suc.prems s t by simp
    moreover have "print_blocks (Suc n) a (length pre) (pre @ s) = print_blocks n a (length ?pre) (?pre @ u)"
      using Suc Suc.prems unfolding len [symmetric] s t print_blocks.simps Let_def poke_four
      by (simp add: lt poke_fifth block_text_def mult.commute del: print_blocks.simps)
    moreover have "5 * Suc n - 1 = Suc (Suc (Suc (Suc (Suc (5 * n - 1)))))" using Suc by simp
    then have "drop (5 * Suc n - 1) s = drop (5 * n - 1) u" using s t by (simp only: drop_Suc_Cons)
    ultimately show ?thesis using Suc by simp
  qed
qed

subsection \<open>The parser on printed blocks\<close>

abbreviation separator :: "char \<Rightarrow> bool" where
  "separator c \<equiv> c = CHR '':'' \<or> c = CHR 0x00"

lemma block_length_run:
  "\<forall>c \<in> set cs. \<not> separator c \<Longrightarrow> separator t \<Longrightarrow>
   block_length (pre @ cs @ t # s) (length pre) n = Inr (n + of_nat (length cs), length pre + length cs)"
proof (induction cs arbitrary: pre n)
  case Nil
  then show ?case by (subst block_length.simps) (auto simp: nth_append)
next
  case (Cons c cs)
  have "block_length ((pre @ [c]) @ cs @ t # s) (length (pre @ [c])) (n + 1)
      = Inr (n + 1 + of_nat (length cs), length (pre @ [c]) + length cs)"
    using Cons.prems by (intro Cons.IH) auto
  then show ?case using Cons.prems by (subst block_length.simps) (simp add: nth_append algebra_simps)
qed

lemma block_digits_four:
  "block_digits 4 (pre @ [c0, c1, c2, c3] @ s) (length pre) [0, 0, 0, 0]
   = Inr ([numberFromAscii c3, numberFromAscii c2, numberFromAscii c1, numberFromAscii c0], length pre + 4)"
  by (simp add: eval_nat_numeral peek_at poke_def)

lemma parse_block_step:
  assumes "separator t" and "n < 8" and "ipv6_ok a"
  shows "parse_blocks (Suc n) (pre @ block_text b (7 - n) @ t # s) (length pre) a =
     (let a' = a\<lparr>ipaddrB8 := (ipaddrB8 a)[2 * (7 - n) := byte6 b (2 * (7 - n)), 2 * (7 - n) + 1 := byte6 b (2 * (7 - n) + 1)]\<rparr> in
      if t = CHR 0x00 then Inr (7 - n + 1, a') else parse_blocks n (pre @ block_text b (7 - n) @ t # s) (length pre + 5) a')"
proof -
  let ?cs = "block_text b (7 - n)"
  have "\<forall>c \<in> set ?cs. \<not> separator c" by (simp add: block_text_def nibble_round)
  from block_length_run [OF this assms(1), of pre s 0]
  have bl: "block_length (pre @ ?cs @ t # s) (length pre) 0 = Inr (4, length pre + 4)" by (simp add: block_text_def)
  have bd: "block_digits 4 (pre @ ?cs @ t # s) (length pre) [0, 0, 0, 0] =
      Inr ([byte6 b (2 * (7 - n) + 1) AND 0x0f, drop_bit 4 (byte6 b (2 * (7 - n) + 1)),
            byte6 b (2 * (7 - n)) AND 0x0f, drop_bit 4 (byte6 b (2 * (7 - n)))], length pre + 4)"
    using block_digits_four [of pre _ _ _ _ "t # s"] by (simp add: block_text_def nibble_round)
  have pk: "peek (pre @ ?cs @ t # s) (length pre + 4) = Inr t" by (simp add: peek_append block_text_def)
  have r: "replicate 4 (0 :: u8) = [0, 0, 0, 0]" by (simp add: numeral_eq_Suc)
  have lt: "2 * (7 - n) < 15" by arith
  have len: "length (ipaddrB8 a) = 16" using assms(3) by (simp add: ipv6_ok_def)
  show ?thesis
    using assms(1,2) len lt
    by (simp add: bl bd pk r poke_def nibbles_join Let_def mult.commute less_Suc_eq_le [of _ 7, simplified] add.commute [of 5])
qed

lemma parse_blocks_text:
  assumes "ipv6_ok b" and "separator t"
  shows "n \<le> 8 \<Longrightarrow> ipv6_ok a \<Longrightarrow> 0 < n \<Longrightarrow>
    parse_blocks n (pre @ text_from n b @ t # s) (length pre) a =
      Inr (8, a\<lparr>ipaddrB8 := take (16 - 2 * n) (ipaddrB8 a) @ drop (16 - 2 * n) (ipaddrB8 b)\<rparr>)"
proof (induction n arbitrary: pre a)
  case 0
  then show ?case by simp
next
  case (Suc n)
  let ?k = "7 - n"
  let ?a = "a\<lparr>ipaddrB8 := (ipaddrB8 a)[2 * ?k := byte6 b (2 * ?k), 2 * ?k + 1 := byte6 b (2 * ?k + 1)]\<rparr>"
  have la: "length (ipaddrB8 a) = 16" and lb: "length (ipaddrB8 b) = 16" using Suc.prems(2) assms(1) by (simp_all add: ipv6_ok_def)
  have upd: "take (16 - 2 * n) (ipaddrB8 ?a) @ drop (16 - 2 * n) (ipaddrB8 b)
      = take (16 - 2 * Suc n) (ipaddrB8 a) @ drop (16 - 2 * Suc n) (ipaddrB8 b)"
    using Suc.prems(1) la lb by (intro nth_equalityI) (auto simp: nth_append nth_list_update)
  show ?case
  proof (cases "n = 0")
    case True
    have "parse_blocks (Suc 0) (pre @ block_text b 7 @ t # s) (length pre) a = Inr (8, ?a)"
      using parse_block_step [OF assms(2) _ Suc.prems(2), of 0 pre b s] True by (simp add: Let_def)
    then show ?thesis using upd la lb True by simp
  next
    case False
    let ?pre = "pre @ block_text b ?k @ [CHR '':'']"
    have "parse_blocks n (?pre @ text_from n b @ t # s) (length ?pre) ?a =
        Inr (8, ?a\<lparr>ipaddrB8 := take (16 - 2 * n) (ipaddrB8 ?a) @ drop (16 - 2 * n) (ipaddrB8 b)\<rparr>)"
      using False Suc.prems by (intro Suc.IH) (simp_all add: ipv6_ok_def)
    moreover have "parse_blocks (Suc n) (pre @ text_from (Suc n) b @ t # s) (length pre) a =
        parse_blocks n (?pre @ text_from n b @ t # s) (length ?pre) ?a"
      using parse_block_step [of "CHR '':''" n a pre b "text_from n b @ t # s"] False Suc.prems
      by (simp add: Let_def block_text_length del: parse_blocks.simps)
    ultimately show ?thesis using upd by simp
  qed
qed

subsection \<open>The properties of the texts\<close>

text \<open>C29: Printing and parsing an IPv6 address are inverse. \<open>ipv6_addr_toString\<close> writes exactly 39 characters and nothing
  behind them; once the caller has put the terminating zero there, \<open>parse_ipv6_addr\<close> accepts the text and gives the
  address back, whatever the address was and whatever the target held before.\<close>

theorem ipv6_text_roundtrip:
  assumes "ipv6_ok a" and "ipv6_ok b" and "40 \<le> length mem" and "mem ! 39 = CHR 0x00"
  shows "\<exists>out. ipv6_addr_toString a mem = Inr out \<and> length out = length mem \<and> drop 39 out = drop 39 mem \<and>
     parse_ipv6_addr out b = Inr (True, a)"
proof -
  have dm: "drop 39 mem = CHR 0x00 # drop 40 mem" using assms(3,4) Cons_nth_drop_Suc [of 39 mem] by simp
  have "ipv6_addr_toString a mem = Inr (text_from 8 a @ drop 39 mem)"
    using print_blocks_text [of 8 mem a "[]"] assms(3) by (simp add: ipv6_addr_toString_def)
  moreover have "parse_blocks 8 (text_from 8 a @ CHR 0x00 # drop 40 mem) 0 b = Inr (8, b\<lparr>ipaddrB8 := ipaddrB8 a\<rparr>)"
    using parse_blocks_text [of a "CHR 0x00" 8 b "[]" "drop 40 mem"] assms(1,2) by simp
  moreover have "b\<lparr>ipaddrB8 := ipaddrB8 a\<rparr> = a" by simp
  ultimately show ?thesis using assms(3) dm text_from_length [of 8 a] by (simp add: parse_ipv6_addr_def)
qed

definition witness_ipv6 :: ipv6addr where
  "witness_ipv6 = \<lparr>ipaddrB8 = [0x20, 0x01, 0x0d, 0xb8, 0, 0, 0x08, 0xd3, 0, 0, 0x8a, 0x2e, 0, 0x70, 0x73, 0x44]\<rparr>"

theorem ipv6_text_roundtrip_witness:
  "\<exists>out. ipv6_addr_toString witness_ipv6 (replicate 40 (CHR 0x00)) = Inr out \<and>
     take 39 out = ''2001:0db8:0000:08d3:0000:8a2e:0070:7344'' \<and>
     parse_ipv6_addr out \<lparr>ipaddrB8 = replicate 16 0\<rparr> = Inr (True, witness_ipv6)"
proof -
  have "ipv6_ok witness_ipv6" "ipv6_ok \<lparr>ipaddrB8 = replicate 16 0\<rparr>" by (simp_all add: ipv6_ok_def witness_ipv6_def)
  from ipv6_text_roundtrip [OF this, of "replicate 40 (CHR 0x00)"] obtain out
    where out: "ipv6_addr_toString witness_ipv6 (replicate 40 (CHR 0x00)) = Inr out"
      "parse_ipv6_addr out \<lparr>ipaddrB8 = replicate 16 0\<rparr> = Inr (True, witness_ipv6)" by auto
  have "case ipv6_addr_toString witness_ipv6 (replicate 40 (CHR 0x00)) of Inl _ \<Rightarrow> False
      | Inr s \<Rightarrow> take 39 s = ''2001:0db8:0000:08d3:0000:8a2e:0070:7344''" by code_simp
  then show ?thesis using out by simp
qed

lemma eth_digits_two:
  assumes "c \<noteq> CHR '':''" and "d \<noteq> CHR '':''"
  shows "eth_digits 2 (pre @ c # d # s) (length pre) [0, 0] = Inr ([numberFromAsciiE c, numberFromAsciiE d], length pre + 2)"
  using assms by (simp add: peek_at poke_def eval_nat_numeral)

lemma eth_block_step:
  assumes "separator t" and "k < 6" and "length a = 6" and "h < 16" and "l < 16" and p: "p = length pre"
  shows "eth_blocks (Suc (5 - k)) (pre @ numberToAsciiE h # numberToAsciiE l # t # s) p a =
    (if t = CHR 0x00 then Inr (Suc k, a[k := l OR push_bit 4 h])
     else eth_blocks (5 - k) (pre @ numberToAsciiE h # numberToAsciiE l # t # s) (p + 3) (a[k := l OR push_bit 4 h]))"
proof -
  have k: "5 - (5 - k) = k" using assms(2) by arith
  have r: "replicate 2 (0 :: u8) = [0, 0]" by (simp add: numeral_eq_Suc)
  have d: "eth_digits 2 (pre @ numberToAsciiE h # numberToAsciiE l # t # s) p [0, 0] = Inr ([h, l], p + 2)"
    unfolding p using eth_digits_two digit_round [OF assms(4)] digit_round [OF assms(5)] by simp
  have pk: "peek (pre @ numberToAsciiE h # numberToAsciiE l # t # s) (p + 2) = Inr t"
    unfolding p using peek_at(3) [of pre] by simp
  show ?thesis using assms(2,3) pk by (simp add: k r d poke_def Let_def numeral_3_eq_3)
qed

text \<open>The seventeen characters of an address whose first digit is \<open>h\<close>.\<close>

definition eth_text :: "u8 \<Rightarrow> u8 list \<Rightarrow> string" where
  "eth_text h a =
     [numberToAsciiE h, numberToAsciiE (a ! 0 AND 0x0f), CHR '':'',
      numberToAsciiE (drop_bit 4 (a ! 1)), numberToAsciiE (a ! 1 AND 0x0f), CHR '':'',
      numberToAsciiE (drop_bit 4 (a ! 2)), numberToAsciiE (a ! 2 AND 0x0f), CHR '':'',
      numberToAsciiE (drop_bit 4 (a ! 3)), numberToAsciiE (a ! 3 AND 0x0f), CHR '':'',
      numberToAsciiE (drop_bit 4 (a ! 4)), numberToAsciiE (a ! 4 AND 0x0f), CHR '':'',
      numberToAsciiE (drop_bit 4 (a ! 5)), numberToAsciiE (a ! 5 AND 0x0f)]"

lemma parse_eth_text:
  assumes "h < 16" and "length a = 6" and "length b = 6"
  shows "parse_ethernet_addr (eth_text h a @ CHR 0x00 # s) b = Inr (True, a[0 := (a ! 0 AND 0x0f) OR push_bit 4 h])"
proof -
  obtain a0 a1 a2 a3 a4 a5 where a: "a = [a0, a1, a2, a3, a4, a5]" using assms(2) by (auto simp: numeral_eq_Suc length_Suc_conv)
  obtain b0 b1 b2 b3 b4 b5 where b: "b = [b0, b1, b2, b3, b4, b5]" using assms(3) by (auto simp: numeral_eq_Suc length_Suc_conv)
  let ?d = "\<lambda>h l. [numberToAsciiE h, numberToAsciiE l, CHR '':'']"
  let ?l = "\<lambda>x. x AND 0x0f" and ?h = "\<lambda>x. drop_bit 4 x"
  let ?t1 = "?d h (?l a0)" let ?t2 = "?t1 @ ?d (?h a1) (?l a1)" let ?t3 = "?t2 @ ?d (?h a2) (?l a2)"
  let ?t4 = "?t3 @ ?d (?h a3) (?l a3)" let ?t5 = "?t4 @ ?d (?h a4) (?l a4)"
  let ?t = "eth_text h a @ CHR 0x00 # s"
  have t: "?t = [] @ numberToAsciiE h # numberToAsciiE (?l a0) # CHR '':'' # drop 3 ?t"
    "?t = ?t1 @ numberToAsciiE (?h a1) # numberToAsciiE (?l a1) # CHR '':'' # drop 6 ?t"
    "?t = ?t2 @ numberToAsciiE (?h a2) # numberToAsciiE (?l a2) # CHR '':'' # drop 9 ?t"
    "?t = ?t3 @ numberToAsciiE (?h a3) # numberToAsciiE (?l a3) # CHR '':'' # drop 12 ?t"
    "?t = ?t4 @ numberToAsciiE (?h a4) # numberToAsciiE (?l a4) # CHR '':'' # drop 15 ?t"
    "?t = ?t5 @ numberToAsciiE (?h a5) # numberToAsciiE (?l a5) # CHR 0x00 # s"
    by (simp_all add: eth_text_def a)
  have s0: "eth_blocks 6 ?t 0 b = eth_blocks 5 ?t 3 [?l a0 OR push_bit 4 h, b1, b2, b3, b4, b5]"
    using eth_block_step [of "CHR '':''" 0 b h "?l a0" 0 "[]" "drop 3 ?t", folded t(1)] assms(1) b by (simp add: nibble_less del: eth_blocks.simps)
  have s1: "eth_blocks 5 ?t 3 [x0, b1, b2, b3, b4, b5] = eth_blocks 4 ?t 6 [x0, a1, b2, b3, b4, b5]" for x0
    using eth_block_step [of "CHR '':''" 1 "[x0, b1, b2, b3, b4, b5]" "?h a1" "?l a1" 3 ?t1 "drop 6 ?t", folded t(2)]
    by (simp add: nibble_less nibbles_join del: eth_blocks.simps)
  have s2: "eth_blocks 4 ?t 6 [x0, x1, b2, b3, b4, b5] = eth_blocks 3 ?t 9 [x0, x1, a2, b3, b4, b5]" for x0 x1
    using eth_block_step [of "CHR '':''" 2 "[x0, x1, b2, b3, b4, b5]" "?h a2" "?l a2" 6 ?t2 "drop 9 ?t", folded t(3)]
    by (simp add: nibble_less nibbles_join del: eth_blocks.simps)
  have s3: "eth_blocks 3 ?t 9 [x0, x1, x2, b3, b4, b5] = eth_blocks 2 ?t 12 [x0, x1, x2, a3, b4, b5]" for x0 x1 x2
    using eth_block_step [of "CHR '':''" 3 "[x0, x1, x2, b3, b4, b5]" "?h a3" "?l a3" 9 ?t3 "drop 12 ?t", folded t(4)]
    by (simp add: nibble_less nibbles_join del: eth_blocks.simps)
  have s4: "eth_blocks 2 ?t 12 [x0, x1, x2, x3, b4, b5] = eth_blocks (Suc 0) ?t 15 [x0, x1, x2, x3, a4, b5]" for x0 x1 x2 x3
    using eth_block_step [of "CHR '':''" 4 "[x0, x1, x2, x3, b4, b5]" "?h a4" "?l a4" 12 ?t4 "drop 15 ?t", folded t(5)]
    by (simp add: numeral_2_eq_2 nibble_less nibbles_join del: eth_blocks.simps)
  have s5: "eth_blocks (Suc 0) ?t 15 [x0, x1, x2, x3, x4, b5] = Inr (6, [x0, x1, x2, x3, x4, a5])" for x0 x1 x2 x3 x4
    using eth_block_step [of "CHR 0x00" 5 "[x0, x1, x2, x3, x4, b5]" "?h a5" "?l a5" 15 ?t5 s, folded t(6)]
    by (simp add: nibble_less nibbles_join del: eth_blocks.simps)
  show ?thesis by (simp add: parse_ethernet_addr_def s0 s1 s2 s3 s4 s5 del: eth_blocks.simps) (simp add: a)
qed

text \<open>The same for Ethernet addresses, but for one digit: \<open>ethernet_addr_tostring\<close> masks the first byte before it shifts,
  so the first digit is always \<open>0\<close> and the text parses to the address with the upper half of its first byte lost.\<close>

theorem ethernet_text_roundtrip:
  assumes "length a = 6" and "length b = 6" and "18 \<le> length mem" and "mem ! 17 = CHR 0x00"
  shows "\<exists>out. ethernet_addr_tostring a mem = Inr out \<and> length out = length mem \<and> out ! 0 = CHR ''0'' \<and>
     parse_ethernet_addr out b = Inr (True, a[0 := a ! 0 AND 0x0f])"
proof -
  have dm: "drop 17 mem = CHR 0x00 # drop 18 mem" using assms(3,4) Cons_nth_drop_Suc [of 17 mem] by simp
  have z: "drop_bit 4 (x AND 0x0f) = (0 :: u8)" for x
    by (rule bit_word_eqI) (simp add: bit_simps bit_mask_int)
  have l: "length (eth_text 0 a) = 17" by (simp add: eth_text_def)
  have "ethernet_addr_tostring a mem = poke_all 0 (eth_text 0 a) mem"
    by (simp add: ethernet_addr_tostring_def eth_text_def z del: poke_all.simps)
  also have "\<dots> = Inr (eth_text 0 a @ CHR 0x00 # drop 18 mem)"
    using poke_all_append [of "eth_text 0 a" mem "[]"] assms(3) l dm by simp
  finally have o: "ethernet_addr_tostring a mem = Inr (eth_text 0 a @ CHR 0x00 # drop 18 mem)" .
  have "parse_ethernet_addr (eth_text 0 a @ CHR 0x00 # drop 18 mem) b = Inr (True, a[0 := a ! 0 AND 0x0f])"
    using parse_eth_text [of 0 a b] assms(1,2) by simp
  moreover have "(eth_text 0 a @ CHR 0x00 # drop 18 mem) ! 0 = CHR ''0''"
    by (simp add: eth_text_def numberToAsciiE_def hex_digits_def)
  ultimately show ?thesis using o l assms(3) by simp
qed

theorem ethernet_text_roundtrip_witness:
  "\<exists>out. ethernet_addr_tostring [0xF2, 1, 2, 3, 4, 5] (replicate 18 (CHR 0x00)) = Inr out \<and>
     parse_ethernet_addr out [0, 0, 0, 0, 0, 0] = Inr (True, [0x02, 1, 2, 3, 4, 5])"
  using ethernet_text_roundtrip [of "[0xF2, 1, 2, 3, 4, 5]" "[0, 0, 0, 0, 0, 0]" "replicate 18 (CHR 0x00)"] by auto

subsection \<open>What the IPv6 parser does with other texts\<close>

lemma block_digits_overflow:
  "length cs = n \<Longrightarrow> 4 < n \<Longrightarrow> length bd = 4 \<Longrightarrow> block_digits n (pre @ cs @ s) (length pre) bd = Inl OutOfBounds"
  by (cases n; cases cs) (auto simp: peek_at poke_def)

text \<open>Two promises of the parser do not hold. A block of more than four digits is written behind the array for its
  digits, and although the comment says that the target is only changed by a successful parse, a text that ends too
  early has already overwritten the bytes of its blocks when the parser answers \<open>False\<close>.\<close>

theorem parse_ipv6_promises:
  assumes "\<forall>c \<in> set cs. c \<noteq> CHR '':'' \<and> c \<noteq> CHR 0x00" and "length cs < 256" and "ipv6_ok a"
  shows "(4 < length cs \<longrightarrow> parse_ipv6_addr (cs @ CHR '':'' # s) a = Inl OutOfBounds) \<and>
    (\<forall>h i j k. cs = map numberToAscii [h, i, j, k] \<longrightarrow> h < 16 \<longrightarrow> i < 16 \<longrightarrow> j < 16 \<longrightarrow> k < 16 \<longrightarrow>
      parse_ipv6_addr (cs @ CHR 0x00 # s) a =
        Inr (False, a\<lparr>ipaddrB8 := (i OR push_bit 4 h) # (k OR push_bit 4 j) # drop 2 (ipaddrB8 a)\<rparr>))"
proof (intro conjI allI impI)
  have l: "unat (of_nat (length cs) :: u8) = length cs" using assms(2) by (simp add: unat_of_nat_u8)
  assume "4 < length cs"
  then show "parse_ipv6_addr (cs @ CHR '':'' # s) a = Inl OutOfBounds"
    using block_length_run [of cs "CHR '':''" "[]" s 0] assms(1) l block_digits_overflow [of cs "length cs" "replicate 4 0" "[]" "CHR '':'' # s"]
    by (simp add: parse_ipv6_addr_def parse_blocks.simps(2) [of 7, simplified] Let_def)
next
  fix h i j k
  assume cs: "cs = map numberToAscii [h, i, j, k]" and d: "h < 16" "i < 16" "j < 16" "k < 16"
  obtain a0 a1 r where a: "ipaddrB8 a = a0 # a1 # r"
    using assms(3) by (auto simp: ipv6_ok_def numeral_eq_Suc length_Suc_conv)
  have bd: "block_digits 4 (cs @ CHR 0x00 # s) 0 [0, 0, 0, 0] = Inr ([k, j, i, h], 4)"
    using block_digits_four [of "[]"] d by (simp add: cs digit_round)
  have bl: "block_length (cs @ CHR 0x00 # s) 0 0 = Inr (4, 4)" using block_length_run [of cs "CHR 0x00" "[]" s 0] assms(1) by (simp add: cs)
  have r4: "replicate 4 (0 :: u8) = [0, 0, 0, 0]" by (simp add: numeral_eq_Suc)
  have pk: "peek (cs @ CHR 0x00 # s) 4 = Inr (CHR 0x00)" by (simp add: cs peek_def)
  show "parse_ipv6_addr (cs @ CHR 0x00 # s) a =
        Inr (False, a\<lparr>ipaddrB8 := (i OR push_bit 4 h) # (k OR push_bit 4 j) # drop 2 (ipaddrB8 a)\<rparr>)"
    by (simp add: parse_ipv6_addr_def parse_blocks.simps(2) [of 7, simplified] bl bd r4 pk poke_def a Let_def)
qed

theorem parse_ipv6_promises_witness:
  "parse_ipv6_addr (''20010'' @ CHR '':'' # []) witness_ipv6 = Inl OutOfBounds \<and>
   parse_ipv6_addr (''fe80'' @ CHR 0x00 # []) witness_ipv6 =
     Inr (False, witness_ipv6\<lparr>ipaddrB8 := 0xfe # 0x80 # drop 2 (ipaddrB8 witness_ipv6)\<rparr>)"
proof
  have ok: "ipv6_ok witness_ipv6" by (simp add: ipv6_ok_def witness_ipv6_def)
  show "parse_ipv6_addr (''20010'' @ CHR '':'' # []) witness_ipv6 = Inl OutOfBounds"
    using parse_ipv6_promises [of "''20010''" witness_ipv6 "[]"] ok by simp
  have m: "''fe80'' = map numberToAscii [15, 14, 8, 0]" by code_simp
  have c: "\<forall>c \<in> set ''fe80''. c \<noteq> CHR '':'' \<and> c \<noteq> CHR 0x00" "length ''fe80'' < 256" by simp_all
  from parse_ipv6_promises [OF c ok, THEN conjunct2, rule_format, OF m, of "[]"]
  show "parse_ipv6_addr (''fe80'' @ CHR 0x00 # []) witness_ipv6 =
     Inr (False, witness_ipv6\<lparr>ipaddrB8 := 0xfe # 0x80 # drop 2 (ipaddrB8 witness_ipv6)\<rparr>)" by simp
qed

subsection \<open>Prefixes\<close>

text \<open>The reference: the first \<open>k\<close> bits, counted from the left, are the same.\<close>

definition addr_bit :: "u8 list \<Rightarrow> nat \<Rightarrow> bool" where
  "addr_bit bs i = bit (bs ! (i div 8)) (7 - i mod 8)"

definition same_prefix :: "nat \<Rightarrow> ipv6addr \<Rightarrow> ipv6addr \<Rightarrow> bool" where
  "same_prefix k a b \<longleftrightarrow> (\<forall>i < k. addr_bit (ipaddrB8 a) i = addr_bit (ipaddrB8 b) i)"

lemma byte_bits: "x = y \<longleftrightarrow> (\<forall>i < 8. bit (x :: u8) (7 - i) = bit y (7 - i))"
proof
  assume r: "\<forall>i < 8. bit x (7 - i) = bit y (7 - i)"
  show "x = y"
  proof (rule bit_word_eqI)
    fix n assume "n < LENGTH(8)"
    then show "bit x n = bit y n" using r [rule_format, of "7 - n"] by simp
  qed
qed simp

lemma and_FE_bits: "(x :: u8) AND 0xFE = y AND 0xFE \<longleftrightarrow> (\<forall>i < 7. bit x (7 - i) = bit y (7 - i))"
proof
  have m: "bit (0xFE :: u8) n \<longleftrightarrow> 0 < n \<and> n < 8" for n
  proof -
    have "(0xFE :: u8) = push_bit 1 (mask 7)" by (simp add: mask_eq_exp_minus_1)
    then show ?thesis by (simp only: bit_push_bit_iff bit_mask_iff) auto
  qed
  { assume e: "x AND 0xFE = y AND 0xFE"
    show "\<forall>i < 7. bit x (7 - i) = bit y (7 - i)"
    proof (intro allI impI)
      fix i :: nat assume "i < 7"
      then have "bit (x AND 0xFE) (7 - i) = bit x (7 - i)" "bit (y AND 0xFE) (7 - i) = bit y (7 - i)"
        by (simp_all only: bit_and_iff m) auto
      then show "bit x (7 - i) = bit y (7 - i)" by (simp add: e)
    qed }
  assume r: "\<forall>i < 7. bit x (7 - i) = bit y (7 - i)"
  show "x AND 0xFE = y AND 0xFE"
  proof (rule bit_word_eqI)
    fix n assume "n < LENGTH(8)"
    then show "bit (x AND 0xFE) n = bit (y AND 0xFE) n"
      using r [rule_format, of "7 - n"] by (cases "n = 0") (simp_all only: bit_and_iff m, auto)
  qed
qed

lemma prefix_masks: "prefix_mask 7 = 0xFE" "prefix_mask 5 = 0"
  by (simp_all add: prefix_mask_def)

text \<open>The bits of byte \<open>15 - n\<close>, and those behind it.\<close>

lemma split_bits:
  assumes "8 \<le> r" and "n \<le> 15"
  shows "(\<forall>i < r. addr_bit as (8 * (15 - n) + i) = addr_bit ps (8 * (15 - n) + i)) \<longleftrightarrow>
    as ! (15 - n) = ps ! (15 - n) \<and> (\<forall>i < r - 8. addr_bit as (8 * (16 - n) + i) = addr_bit ps (8 * (16 - n) + i))"
proof -
  have head: "(\<forall>i < 8. addr_bit as (8 * (15 - n) + i) = addr_bit ps (8 * (15 - n) + i)) \<longleftrightarrow> as ! (15 - n) = ps ! (15 - n)"
    by (subst byte_bits) (auto simp: addr_bit_def)
  have e: "8 * (15 - n) + (8 + j) = 8 * (16 - n) + j" for j using assms(2) by simp
  have "(\<forall>i < r. Q i) \<longleftrightarrow> (\<forall>i < 8. Q i) \<and> (\<forall>j < r - 8. Q (8 + j))" for Q :: "nat \<Rightarrow> bool"
  proof
    assume a: "(\<forall>i < 8. Q i) \<and> (\<forall>j < r - 8. Q (8 + j))"
    show "\<forall>i < r. Q i"
    proof (intro allI impI)
      fix i assume "i < r"
      then show "Q i" using a [THEN conjunct1, rule_format, of i] a [THEN conjunct2, rule_format, of "i - 8"]
        by (cases "i < 8") simp_all
    qed
  qed (use assms(1) in auto)
  from this [of "\<lambda>i. addr_bit as (8 * (15 - n) + i) = addr_bit ps (8 * (15 - n) + i)"]
  show ?thesis unfolding head e .
qed

lemma compare_prefix_exact:
  "n \<le> 16 \<Longrightarrow> 0 < unat r \<Longrightarrow> unat r mod 8 = 0 \<or> unat r mod 8 = 7 \<Longrightarrow> unat r \<le> 8 * n \<Longrightarrow>
   compare_prefix_from n as ps r \<longleftrightarrow>
     (\<forall>i < unat r. addr_bit as (8 * (16 - n) + i) = addr_bit ps (8 * (16 - n) + i))"
proof (induction n arbitrary: r)
  case 0
  then show ?case by simp
next
  case (Suc n)
  show ?case
  proof (cases "r \<ge> 8")
    case False
    then have "unat r < 8" by (simp add: word_le_nat_alt)
    then have r7: "unat r = 7" using Suc.prems by auto
    then have "r = 7" by (simp add: word_unat_eq_iff)
    then show ?thesis by (simp add: prefix_masks and_FE_bits addr_bit_def)
  next
    case True
    then have r8: "8 \<le> unat r" by (simp add: word_le_nat_alt)
    then have u: "unat (r - 8) = unat r - 8" using True by (simp add: unat_sub)
    have s: "(\<forall>i < unat r. addr_bit as (8 * (15 - n) + i) = addr_bit ps (8 * (15 - n) + i)) \<longleftrightarrow>
        as ! (15 - n) = ps ! (15 - n) \<and> (\<forall>i < unat (r - 8). addr_bit as (8 * (16 - n) + i) = addr_bit ps (8 * (16 - n) + i))"
      unfolding u using r8 Suc.prems(1) by (intro split_bits) simp_all
    show ?thesis
    proof (cases "r - 8 = 0")
      case z: True
      then show ?thesis using True s by (simp add: z)
    next
      case False
      then have "0 < unat (r - 8)" by (simp add: unat_gt_0)
      moreover have "unat (r - 8) mod 8 = unat r mod 8" unfolding u using r8 by (simp add: le_mod_geq)
      ultimately have "compare_prefix_from n as ps (r - 8) \<longleftrightarrow>
          (\<forall>i < unat (r - 8). addr_bit as (8 * (16 - n) + i) = addr_bit ps (8 * (16 - n) + i))"
        using Suc.prems u by (intro Suc.IH) simp_all
      then show ?thesis using True False s by simp
    qed
  qed
qed

lemma compare_prefix_five:
  "n \<le> 16 \<Longrightarrow> unat r mod 8 = 5 \<Longrightarrow> unat r < 8 * n \<Longrightarrow>
   compare_prefix_from n as ps r \<longleftrightarrow>
     (\<forall>i < unat r - 5. addr_bit as (8 * (16 - n) + i) = addr_bit ps (8 * (16 - n) + i))"
proof (induction n arbitrary: r)
  case 0
  then show ?case by simp
next
  case (Suc n)
  show ?case
  proof (cases "r \<ge> 8")
    case False
    then have "unat r < 8" by (simp add: word_le_nat_alt)
    then have "unat r = 5" using Suc.prems by auto
    then have "r = 5" by (simp add: word_unat_eq_iff)
    then show ?thesis by (simp add: prefix_masks)
  next
    case True
    then have r8: "8 \<le> unat r" by (simp add: word_le_nat_alt)
    then have u: "unat (r - 8) = unat r - 8" using True by (simp add: unat_sub)
    have r13: "13 \<le> unat r" using r8 Suc.prems(2) by presburger
    have s: "(\<forall>i < unat r - 5. addr_bit as (8 * (15 - n) + i) = addr_bit ps (8 * (15 - n) + i)) \<longleftrightarrow>
        as ! (15 - n) = ps ! (15 - n) \<and> (\<forall>i < unat r - 5 - 8. addr_bit as (8 * (16 - n) + i) = addr_bit ps (8 * (16 - n) + i))"
      using r13 Suc.prems(1) by (intro split_bits) simp_all
    have z: "r - 8 \<noteq> 0"
    proof
      assume "r - 8 = 0"
      then have "unat (r - 8) = 0" by (simp only: unat_0)
      then show False using u r13 by simp
    qed
    have "compare_prefix_from n as ps (r - 8) \<longleftrightarrow>
        (\<forall>i < unat (r - 8) - 5. addr_bit as (8 * (16 - n) + i) = addr_bit ps (8 * (16 - n) + i))"
      using Suc.prems u r8 by (intro Suc.IH) (simp_all add: le_mod_geq)
    moreover have "unat (r - 8) - 5 = unat r - 5 - 8" unfolding u by simp
    ultimately show ?thesis using True z s by simp
  qed
qed

text \<open>Comparing with a prefix is comparing bits, for some lengths. When the prefix length is a multiple of 8 or ends one bit
  before one, \<open>compare_ipv6_addr\<close> decides exactly whether the first bits agree. The mask for other lengths is
  wrong, because \<^verbatim>\<open>^\<close> is not the power: five bits behind a byte boundary, for example, are not compared at all.\<close>

theorem compare_prefix_equivalence:
  assumes "0 < prefixlen" and "prefixlen \<le> 128"
  shows "(unat prefixlen mod 8 \<in> {0, 7} \<longrightarrow>
      compare_ipv6_addr_prefix a p prefixlen = same_prefix (unat prefixlen) a p) \<and>
    (unat prefixlen mod 8 = 5 \<longrightarrow>
      compare_ipv6_addr_prefix a p prefixlen = same_prefix (unat prefixlen - 5) a p)"
proof -
  have p: "0 < unat prefixlen" "unat prefixlen \<le> 128" using assms by (simp_all add: unat_gt_0 word_le_nat_alt)
  show ?thesis
  proof (intro conjI impI)
    assume "unat prefixlen mod 8 \<in> {0, 7}"
    then show "compare_ipv6_addr_prefix a p prefixlen = same_prefix (unat prefixlen) a p"
      unfolding compare_ipv6_addr_prefix_def same_prefix_def
      using p by (subst compare_prefix_exact) simp_all
  next
    assume m: "unat prefixlen mod 8 = 5"
    then have "unat prefixlen < 128" using p(2) by (cases "unat prefixlen = 128") simp_all
    then show "compare_ipv6_addr_prefix a p prefixlen = same_prefix (unat prefixlen - 5) a p"
      unfolding compare_ipv6_addr_prefix_def same_prefix_def
      using m by (subst compare_prefix_five) simp_all
  qed
qed

theorem compare_prefix_equivalence_witness:
  "compare_ipv6_addr_prefix \<lparr>ipaddrB8 = 0x20 # replicate 15 0\<rparr> \<lparr>ipaddrB8 = 0xff # replicate 15 0\<rparr> 5 = True \<and>
   compare_ipv6_addr_prefix \<lparr>ipaddrB8 = 0x20 # replicate 15 0\<rparr> \<lparr>ipaddrB8 = 0xff # replicate 15 0\<rparr> 7 = False"
proof
  show "compare_ipv6_addr_prefix \<lparr>ipaddrB8 = 0x20 # replicate 15 0\<rparr> \<lparr>ipaddrB8 = 0xff # replicate 15 0\<rparr> 5 = True"
    using compare_prefix_equivalence [of 5] by (simp add: same_prefix_def)
  have "bit (0xff :: u8) 7" "\<not> bit (0x20 :: u8) 7" by simp_all
  then have "\<not> same_prefix 7 \<lparr>ipaddrB8 = 0x20 # replicate 15 0\<rparr> \<lparr>ipaddrB8 = 0xff # replicate 15 0\<rparr>"
    by (auto simp: same_prefix_def addr_bit_def intro!: exI [of _ 0])
  then show "compare_ipv6_addr_prefix \<lparr>ipaddrB8 = 0x20 # replicate 15 0\<rparr> \<lparr>ipaddrB8 = 0xff # replicate 15 0\<rparr> 7 = False"
    using compare_prefix_equivalence [of 7] by simp
qed

subsection \<open>Building and classifying addresses\<close>

lemma fold_or_zero: "fold (\<lambda>i u. u OR f i) xs u = (0 :: u8) \<longleftrightarrow> u = 0 \<and> (\<forall>i \<in> set xs. f i = 0)"
  by (induction xs arbitrary: u) (auto simp: or_eq_0_iff)

text \<open>C40: Every operation on IPv6 addresses gives a well-formed address of sixteen bytes and does what its name says: a copy
  compares equal to its source, the unspecified address is recognised and any other is not, and the solicited node
  address is a multicast address that depends on the last three bytes of its argument only.\<close>

theorem ipv6_operations_typed:
  assumes "ipv6_ok a" and "ipv6_ok b"
  shows "ipv6_ok (copy_ipv6_addr a b) \<and> compare_ipv6_addr (copy_ipv6_addr a b) a \<and>
    ipv6_ok (get_unspecified_ipv6_address a) \<and>
    (is_not_unspecified_ipv6_address a \<longleftrightarrow> \<not> compare_ipv6_addr a (get_unspecified_ipv6_address a)) \<and>
    ipv6_ok (solicitedNode_multicast_addr a b) \<and>
    getIPv6AddressScope (solicitedNode_multicast_addr a b) = IPV6_SCOPE_MULTICAST \<and>
    (compare_ipv6_addr (solicitedNode_multicast_addr a b) (solicitedNode_multicast_addr b a) \<longleftrightarrow>
       drop 13 (ipaddrB8 a) = drop 13 (ipaddrB8 b))"
proof -
  obtain a0 a1 a2 a3 a4 a5 a6 a7 a8 a9 a10 a11 a12 a13 a14 a15
    where a: "ipaddrB8 a = [a0, a1, a2, a3, a4, a5, a6, a7, a8, a9, a10, a11, a12, a13, a14, a15]"
    using assms(1) unfolding ipv6_ok_def by (rule length_16E)
  obtain b0 b1 b2 b3 b4 b5 b6 b7 b8 b9 b10 b11 b12 b13 b14 b15
    where b: "ipaddrB8 b = [b0, b1, b2, b3, b4, b5, b6, b7, b8, b9, b10, b11, b12, b13, b14, b15]"
    using assms(2) unfolding ipv6_ok_def by (rule length_16E)
  have u: "[0..<16] = [0, 1, 2, 3, 4, 5, 6, 7, 8, 9, 10, 11, 12, 13, 14, 15]" by (simp add: upt_rec)
  have n: "is_not_unspecified_ipv6_address a \<longleftrightarrow> ipaddrB8 a \<noteq> replicate 16 0"
    unfolding is_not_unspecified_ipv6_address_def fold_or_zero u a by (simp add: numeral_eq_Suc)
  show ?thesis
    unfolding n by (simp add: ipv6_ok_def copy_ipv6_addr_def compare_ipv6_addr_def get_unspecified_ipv6_address_def
      solicitedNode_multicast_addr_def a b numeral_eq_Suc) (simp add: getIPv6AddressScope_def)
qed

theorem ipv6_operations_typed_witness:
  "ipv6_ok (solicitedNode_multicast_addr witness_ipv6 (get_unspecified_ipv6_address witness_ipv6)) \<and>
   is_not_unspecified_ipv6_address witness_ipv6"
proof -
  have ok: "ipv6_ok witness_ipv6" "ipv6_ok (get_unspecified_ipv6_address witness_ipv6)"
    by (simp_all add: ipv6_ok_def witness_ipv6_def get_unspecified_ipv6_address_def)
  have "\<not> compare_ipv6_addr witness_ipv6 (get_unspecified_ipv6_address witness_ipv6)" by code_simp
  then show ?thesis using ipv6_operations_typed [OF ok] by simp
qed

text \<open>No global address is recognised. The test for \<open>2000::/3\<close> compares two bits of the middle of the byte with \<open>1\<close>, which
  never holds, so the only addresses of global scope are the IPv4 mapped ones; every address the standard
  allocates as global unicast is reported as not recognised.\<close>

theorem global_scope_missed:
  assumes "drop_bit 5 (byte6 a 0) = 1"
  shows "getIPv6AddressScope a = IPV6_SCOPE_NOT_RECOGNICED"
proof -
  have m: "x AND 0x30 \<noteq> (1 :: u8)" for x
  proof
    assume "x AND 0x30 = 1"
    then have "bit (x AND 0x30) 0" by simp
    then show False by (simp add: bit_and_iff)
  qed
  have "unat (byte6 a 0) div 32 = 1" using arg_cong [OF assms, of unat] by (simp add: unat_drop_bit_word)
  then have "byte6 a 0 \<noteq> 0xff" "byte6 a 0 \<noteq> 0xfe" "byte6 a 0 \<noteq> 0xfc" "byte6 a 0 \<noteq> 0xfd" "byte6 a 0 \<noteq> 0" by auto
  moreover from this have "\<not> (\<forall>i < 10. byte6 a i = 0)" by (auto intro!: exI [of _ 0])
  ultimately show ?thesis using m by (simp add: getIPv6AddressScope_def)
qed

theorem global_scope_missed_witness:
  "getIPv6AddressScope witness_ipv6 = IPV6_SCOPE_NOT_RECOGNICED"
  by (rule global_scope_missed) (simp add: witness_ipv6_def)

end
