(* ===== verification/Header_Compression.thy ===== *)
theory Header_Compression
  imports Address_Text
begin

text \<open>
  \<^verbatim>\<open>6lowpan/IPv6iphc.h\<close> and \<^verbatim>\<open>6lowpan/IPv6iphc.cpp\<close>: the compressed IPv6 header, as it is without the aspects that
  compress an address. \<open>hc_data\<close> is the memory behind \<^verbatim>\<open>data\<close>; the features of the build are the fields of \<open>hc_config\<close>. A
  \<^verbatim>\<open>switch\<close> is translated with its fall-through: where the source has no \<^verbatim>\<open>break\<close> after a case, the sizes of the next case
  are added.
\<close>

subsection \<open>State and macros\<close>

record hc_config =
  hopcount_uncompressed :: bool
  hopcount_255 :: bool
  hopcount_64 :: bool
  hopcount_1 :: bool
  char_signed :: bool

record IPv6hc_Packet =
  fragmentheader0 :: u8
  fragmentheader1 :: u8
  datagram_tag :: u16
  hc_data :: "u8 list"

definition HOPLIMIT_SIZE :: "hc_config \<Rightarrow> u8" where
  "HOPLIMIT_SIZE C = (if hopcount_uncompressed C then 1 else 0)"

definition HC_HEADERSIZE_WITHOUT_FRAG_HEADER :: u8 where "HC_HEADERSIZE_WITHOUT_FRAG_HEADER = 2"
definition HC_FRAG_HEADER :: u8 where "HC_FRAG_HEADER = 4"

definition TF :: "u8 \<Rightarrow> u8" where "TF d0 = d0 AND 0x18"
definition NH :: "u8 \<Rightarrow> u8" where "NH d0 = d0 AND 0x04"
definition HLIM :: "u8 \<Rightarrow> u8" where "HLIM d0 = d0 AND 0x03"
definition CID :: "u8 \<Rightarrow> u8" where "CID d1 = d1 AND 0x80"
definition SAC :: "u8 \<Rightarrow> u8" where "SAC d1 = d1 AND 0x40"
definition SAM :: "u8 \<Rightarrow> u8" where "SAM d1 = d1 AND 0x30"
definition M_bit :: "u8 \<Rightarrow> u8" where "M_bit d1 = d1 AND 0x08"
definition DAC :: "u8 \<Rightarrow> u8" where "DAC d1 = d1 AND 0x04"
definition DAM :: "u8 \<Rightarrow> u8" where "DAM d1 = d1 AND 0x03"

lemmas hc_macros = TF_def NH_def HLIM_def CID_def SAC_def SAM_def M_bit_def DAC_def DAM_def

subsection \<open>The fragment header\<close>

text \<open>A \<^verbatim>\<open>char\<close> in an expression; its sign is up to the platform.\<close>

definition promote_char :: "hc_config \<Rightarrow> u8 \<Rightarrow> u32" where
  "promote_char C c = (if char_signed C then signed_take_bit 7 (ucast c) else ucast c)"

text \<open>The counter for the tags is a static variable: it is passed in and given back.\<close>

definition writeFragmentHeader :: "u16 \<Rightarrow> u16 \<Rightarrow> IPv6hc_Packet \<Rightarrow> IPv6hc_Packet \<times> u16" where
  "writeFragmentHeader len counter p =
     (p\<lparr>fragmentheader0 := ucast (0xC0 OR (0x0700 AND ucast len) :: u32),
        fragmentheader1 := ucast (0x00FF AND ucast len :: u32), datagram_tag := counter\<rparr>, counter + 1)"

definition hc_get_payload_len :: "hc_config \<Rightarrow> IPv6hc_Packet \<Rightarrow> u16" where
  "hc_get_payload_len C p =
     ucast ((promote_char C (fragmentheader0 p) AND push_bit 8 0x07) OR promote_char C (fragmentheader1 p))"

definition hc_set_payload_len :: "u16 \<Rightarrow> u16 \<Rightarrow> IPv6hc_Packet \<Rightarrow> IPv6hc_Packet \<times> u16" where
  "hc_set_payload_len len counter p = writeFragmentHeader len counter p"

subsection \<open>Sizes\<close>

definition getWriteSrcHeaderSize :: u8 where "getWriteSrcHeaderSize = 16"
definition getWriteDestHeaderSize :: u8 where "getWriteDestHeaderSize = 16"
definition getWriteMulticastDestHeaderSize :: u8 where "getWriteMulticastDestHeaderSize = 16"

definition getWriteHeaderSize :: "hc_config \<Rightarrow> u8" where
  "getWriteHeaderSize C = 1 + HOPLIMIT_SIZE C + HC_HEADERSIZE_WITHOUT_FRAG_HEADER + HC_FRAG_HEADER"

definition calculateHCHeaderSizeWithoutFragmentSize :: "u8 list \<Rightarrow> u8 outcome" where
  "calculateHCHeaderSizeWithoutFragmentSize data =
     obind (peek data 1) (\<lambda>d1. Inr (2 + (if CID d1 = 1 then 1 else 0)))"

definition tf_size :: "u8 \<Rightarrow> u8" where
  "tf_size d0 = (if TF d0 = 0 then 4 else if TF d0 = 1 then 3 else if TF d0 = 2 then 1 else 0)"

definition nh_size :: "u8 \<Rightarrow> u8" where
  "nh_size d0 = (if NH d0 = 0 then 1 else 0)"

definition src_size :: "u8 \<Rightarrow> u8" where
  "src_size d1 =
     (let case1 = (if SAM d1 = 1 then 8 else if SAM d1 = 2 then 2 else 0) in
      if SAC d1 = 0
      then (if SAM d1 = 0 then 16 else if SAM d1 = 1 then 8 else if SAM d1 = 2 then 2 else 0) + case1
      else if SAC d1 = 1 then case1
      else 0)"

definition unicast_size :: "u8 \<Rightarrow> u8" where
  "unicast_size d1 =
     (let case1 = (if DAM d1 = 1 then 8 else if DAM d1 = 2 then 2 else 0) in
      if DAC d1 = 0
      then (if DAM d1 = 0 then 16 else if DAM d1 = 1 then 8 else if DAM d1 = 2 then 2 else 0) + case1
      else if DAC d1 = 1 then case1
      else 0)"

definition multicast_size :: "u8 \<Rightarrow> u8" where
  "multicast_size d1 =
     (let case1 = (if DAM d1 = 0 then 6 else 0) in
      if DAC d1 = 0
      then (if DAM d1 = 0 then 16 else if DAM d1 = 1 then 6 else if DAM d1 = 2 then 4 else if DAM d1 = 3 then 1 else 0) + case1
      else if DAC d1 = 1 then case1
      else 0)"

definition dest_size :: "u8 \<Rightarrow> u8" where
  "dest_size d1 =
     (if M_bit d1 = 0 then unicast_size d1 + multicast_size d1
      else if M_bit d1 = 1 then multicast_size d1
      else 0)"

definition calculateHeaderSize :: "u8 list \<Rightarrow> u8 outcome" where
  "calculateHeaderSize data =
     obind (peek data 0) (\<lambda>d0. obind (peek data 1) (\<lambda>d1.
       Inr (4 + tf_size d0 + nh_size d0 + (if HLIM d0 = 0 then 1 else 0) + (if CID d1 = 1 then 1 else 0)
            + src_size d1 + dest_size d1)))"

text \<open>\<open>get_payload\<close> is the position of the payload in \<open>data\<close>.\<close>

definition hc_get_payload :: "u8 list \<Rightarrow> nat outcome" where
  "hc_get_payload data = obind (calculateHeaderSize data) (\<lambda>n. Inr (unat n))"

subsection \<open>Reading and writing the fields\<close>

definition hc_setUpHeader :: "hc_config \<Rightarrow> u8 list \<Rightarrow> u8 list outcome" where
  "hc_setUpHeader C data =
     obind (poke 0 (0x60 OR (if hopcount_255 C then 3 else 0) OR (if hopcount_64 C then 2 else 0)
                         OR (if hopcount_1 C then 1 else 0)) data) (\<lambda>data. poke 1 0 data)"

definition hc_get_hoplimit :: "u8 list \<Rightarrow> u8 outcome" where
  "hc_get_hoplimit data =
     obind (peek data 0) (\<lambda>d0.
       if HLIM d0 = 0
       then obind (calculateHCHeaderSizeWithoutFragmentSize data) (\<lambda>n. peek data (unat (n + tf_size d0 + nh_size d0)))
       else if HLIM d0 = 1 then Inr 1
       else if HLIM d0 = 2 then Inr 64
       else if HLIM d0 = 3 then Inr 255
       else Inr 0)"

definition hc_set_hoplimit :: "hc_config \<Rightarrow> u8 \<Rightarrow> u8 list \<Rightarrow> u8 list outcome" where
  "hc_set_hoplimit C t data =
     (if hopcount_uncompressed C then poke (unat (HC_HEADERSIZE_WITHOUT_FRAG_HEADER + 1)) t data else Inr data)"

definition hc_get_nextheader :: "u8 list \<Rightarrow> u8 outcome" where
  "hc_get_nextheader data =
     obind (peek data 0) (\<lambda>d0.
       if NH d0 = 0
       then obind (calculateHCHeaderSizeWithoutFragmentSize data) (\<lambda>n. peek data (unat (n + tf_size d0)))
       else Inr 0)"

definition hc_set_nextheader :: "u8 \<Rightarrow> u8 list \<Rightarrow> u8 list outcome" where
  "hc_set_nextheader i data = poke (unat HC_HEADERSIZE_WITHOUT_FRAG_HEADER) i data"

text \<open>
  Case 0 reads the sixteen bytes of an address from the place of the local variable \<^verbatim>\<open>readPtr\<close>, which holds a pointer,
  instead of from where it points to: a read behind that variable. The labels \<^verbatim>\<open>00\<close>, \<^verbatim>\<open>01\<close>, \<^verbatim>\<open>10\<close> and \<^verbatim>\<open>11\<close> are the numbers
  0, 1, 10 and 11. \<open>upper\<close> is \<^verbatim>\<open>get_dest_ip_from_upper_protocol_addr\<close>, which an aspect fills in.
\<close>

definition read_compressed_ipaddr ::
    "(ipv6addr \<Rightarrow> ipv6addr) \<Rightarrow> ipv6addr \<Rightarrow> u8 list \<Rightarrow> nat \<Rightarrow> u8 \<Rightarrow> ipv6addr outcome" where
  "read_compressed_ipaddr upper mem data readPtr flagbyte =
     (let unspecified = get_unspecified_ipv6_address mem in
      if flagbyte = 0 then Inl OutOfBounds
      else if flagbyte = 1
      then obind (peek_all data readPtr 8)
             (\<lambda>r. Inr (unspecified\<lparr>ipaddrB8 :=
               take 8 ((ipaddrB8 unspecified)[0 := 0xfe, 1 := 0x80]) @ r @ drop 16 (ipaddrB8 unspecified)\<rparr>))
      else if flagbyte = 10
      then obind (peek data (readPtr + 0)) (\<lambda>r0. obind (peek data (readPtr + 1)) (\<lambda>r1.
             Inr (unspecified\<lparr>ipaddrB8 := (ipaddrB8 unspecified)[0 := 0xfe, 1 := 0x80, 11 := 0xff, 12 := 0xfe, 14 := r0, 15 := r1]\<rparr>)))
      else if flagbyte = 11 then Inr (upper (unspecified\<lparr>ipaddrB8 := (ipaddrB8 unspecified)[0 := 0xfe, 1 := 0x80]\<rparr>))
      else Inr unspecified)"

definition read_compressed_multicast_dest_ipaddr :: "ipv6addr \<Rightarrow> u8 list \<Rightarrow> nat \<Rightarrow> u8 \<Rightarrow> ipv6addr outcome" where
  "read_compressed_multicast_dest_ipaddr mem data readPtr flagbyte =
     (let unspecified = get_unspecified_ipv6_address mem; bs = ipaddrB8 unspecified in
      if flagbyte = 0 then Inl OutOfBounds
      else if flagbyte = 1
      then obind (peek_all data readPtr 6) (\<lambda>r. Inr (unspecified\<lparr>ipaddrB8 :=
             bs[0 := 0xff, 1 := r ! 0, 11 := r ! 1, 12 := r ! 2, 13 := r ! 3, 14 := r ! 4, 15 := r ! 5]\<rparr>))
      else if flagbyte = 10
      then obind (peek_all data readPtr 4) (\<lambda>r. Inr (unspecified\<lparr>ipaddrB8 :=
             bs[0 := 0xff, 1 := r ! 0, 13 := r ! 1, 14 := r ! 2, 15 := r ! 3]\<rparr>))
      else if flagbyte = 11
      then obind (peek data readPtr) (\<lambda>r. Inr (unspecified\<lparr>ipaddrB8 := bs[0 := 0xff, 1 := 0x02, 15 := r]\<rparr>))
      else Inr unspecified)"

definition write_compressed_src_ipaddr :: "ipv6addr \<Rightarrow> nat \<Rightarrow> u8 list \<Rightarrow> u8 list outcome" where
  "write_compressed_src_ipaddr addr writePtr data = poke_all writePtr (take 16 (ipaddrB8 addr)) data"

definition write_compressed_dst_ipaddr :: "ipv6addr \<Rightarrow> nat \<Rightarrow> u8 list \<Rightarrow> u8 list outcome" where
  "write_compressed_dst_ipaddr addr writePtr data = poke_all writePtr (take 16 (ipaddrB8 addr)) data"

definition write_compressed_multicast_dst_ipaddr :: "ipv6addr \<Rightarrow> nat \<Rightarrow> u8 list \<Rightarrow> u8 list outcome" where
  "write_compressed_multicast_dst_ipaddr addr writePtr data =
     obind (peek data 1) (\<lambda>flagbyte. obind (poke 1 (flagbyte OR 0x08) data) (\<lambda>data.
       poke_all writePtr (take 16 (ipaddrB8 addr)) data))"

definition hc_get_src_ipaddr :: "hc_config \<Rightarrow> (ipv6addr \<Rightarrow> ipv6addr) \<Rightarrow> ipv6addr \<Rightarrow> u8 list \<Rightarrow> ipv6addr outcome" where
  "hc_get_src_ipaddr C upper mem data =
     obind (calculateHCHeaderSizeWithoutFragmentSize data) (\<lambda>offset.
     let offset = offset + 1 + HOPLIMIT_SIZE C in
     obind (peek data 1) (\<lambda>d1. read_compressed_ipaddr upper mem data (unat offset) (d1 AND 0x30)))"

definition hc_set_src_ipaddr :: "hc_config \<Rightarrow> ipv6addr \<Rightarrow> u8 list \<Rightarrow> u8 list outcome" where
  "hc_set_src_ipaddr C addr data =
     (let offset = HC_HEADERSIZE_WITHOUT_FRAG_HEADER + 1 + HOPLIMIT_SIZE C
      in write_compressed_src_ipaddr addr (unat offset) data)"

definition hc_get_dst_ipaddr :: "hc_config \<Rightarrow> (ipv6addr \<Rightarrow> ipv6addr) \<Rightarrow> ipv6addr \<Rightarrow> u8 list \<Rightarrow> ipv6addr outcome" where
  "hc_get_dst_ipaddr C upper mem data =
     obind (calculateHCHeaderSizeWithoutFragmentSize data) (\<lambda>offset.
     let offset = offset + 1 + HOPLIMIT_SIZE C + getWriteSrcHeaderSize in
     obind (peek data 1) (\<lambda>d1.
       if d1 AND 0x08 \<noteq> 0 then read_compressed_multicast_dest_ipaddr mem data (unat offset) (d1 AND 0x03)
       else read_compressed_ipaddr upper mem data (unat offset) (d1 AND 0x03)))"

definition hc_set_dst_ipaddr :: "hc_config \<Rightarrow> ipv6addr \<Rightarrow> u8 list \<Rightarrow> u8 list outcome" where
  "hc_set_dst_ipaddr C addr data =
     (let offset = HC_HEADERSIZE_WITHOUT_FRAG_HEADER + 1 + HOPLIMIT_SIZE C + getWriteSrcHeaderSize in
      if getIPv6AddressScope addr = IPV6_SCOPE_MULTICAST then write_compressed_multicast_dst_ipaddr addr (unat offset) data
      else write_compressed_dst_ipaddr addr (unat offset) data)"

subsection \<open>What the sender writes and what the receiver reads\<close>

text \<open>The sender's sequence of calls.\<close>

definition hc_write :: "hc_config \<Rightarrow> u8 \<Rightarrow> u8 \<Rightarrow> ipv6addr \<Rightarrow> ipv6addr \<Rightarrow> u8 list \<Rightarrow> u8 list outcome" where
  "hc_write C nh hl src dst data =
     obind (hc_setUpHeader C data) (\<lambda>data. obind (hc_set_nextheader nh data) (\<lambda>data.
     obind (hc_set_hoplimit C hl data) (\<lambda>data. obind (hc_set_src_ipaddr C src data) (hc_set_dst_ipaddr C dst))))"

definition hc_flags :: "hc_config \<Rightarrow> u8" where
  "hc_flags C = 0x60 OR (if hopcount_255 C then 3 else 0) OR (if hopcount_64 C then 2 else 0) OR (if hopcount_1 C then 1 else 0)"

definition hc_layout :: "hc_config \<Rightarrow> u8 \<Rightarrow> u8 \<Rightarrow> ipv6addr \<Rightarrow> ipv6addr \<Rightarrow> u8 list" where
  "hc_layout C nh hl src dst =
     [hc_flags C, if getIPv6AddressScope dst = IPV6_SCOPE_MULTICAST then 0x08 else 0, nh]
       @ (if hopcount_uncompressed C then [hl] else []) @ ipaddrB8 src @ ipaddrB8 dst"

lemma poke_all_at:
  "p = length pre \<Longrightarrow> length cs \<le> length s \<Longrightarrow> poke_all p cs (pre @ s) = Inr (pre @ cs @ drop (length cs) s)"
  by (simp add: poke_all_append)

lemma hc_flags_fields:
  "TF (hc_flags C) = 0" "NH (hc_flags C) = 0"
  "HLIM (hc_flags C) = 0 \<longleftrightarrow> \<not> hopcount_255 C \<and> \<not> hopcount_64 C \<and> \<not> hopcount_1 C"
  by (simp_all add: hc_flags_def hc_macros)

lemma hc_flags_sizes: "tf_size (hc_flags C) = 4" "nh_size (hc_flags C) = 1"
  by (simp_all add: tf_size_def nh_size_def hc_flags_fields)

lemma hc_sizes:
  "src_size 0 = 16" "src_size 8 = 16" "dest_size 0 = 38" "dest_size 8 = 0" "CID 0 \<noteq> 1" "CID 8 \<noteq> 1"
  by code_simp+

lemma length_hc_layout:
  "ipv6_ok src \<Longrightarrow> ipv6_ok dst \<Longrightarrow> length (hc_layout C nh hl src dst) = (if hopcount_uncompressed C then 36 else 35)"
  by (simp add: hc_layout_def ipv6_ok_def)

text \<open>The sender lays the compressed header out as the format says: flags, address modes, next header, the hop limit when it is
  not compressed, then the two addresses, and nothing behind them is touched.\<close>

theorem hc_write_layout:
  assumes "ipv6_ok src" and "ipv6_ok dst" and "36 \<le> length data"
  shows "hc_write C nh hl src dst data =
    Inr (hc_layout C nh hl src dst @ drop (length (hc_layout C nh hl src dst)) data)"
proof -
  have "4 \<le> length data" using assms(3) by simp
  then obtain x0 x1 x2 x3 ys where data: "data = x0 # x1 # x2 # x3 # ys" by (rule length_4E)
  have ys: "32 \<le> length ys" using assms(3) data by simp
  have ls: "length (ipaddrB8 src) = 16" "length (ipaddrB8 dst) = 16" using assms(1,2) by (simp_all add: ipv6_ok_def)
  let ?f = "hc_flags C" and ?d = "if getIPv6AddressScope dst = IPV6_SCOPE_MULTICAST then 0x08 else (0 :: u8)"
  let ?h = "if hopcount_uncompressed C then [hl] else []"
  let ?r = "if hopcount_uncompressed C then ys else x3 # ys"
  have r: "32 \<le> length ?r" using ys by simp
  have up: "hc_setUpHeader C data = Inr (?f # 0 # x2 # x3 # ys)"
    by (simp add: hc_setUpHeader_def hc_flags_def poke_def data)
  have nx: "hc_set_nextheader nh (?f # 0 # x2 # x3 # ys) = Inr (?f # 0 # nh # x3 # ys)"
    by (simp add: hc_set_nextheader_def HC_HEADERSIZE_WITHOUT_FRAG_HEADER_def poke_def)
  have ho: "hc_set_hoplimit C hl (?f # 0 # nh # x3 # ys) = Inr ([?f, 0, nh] @ ?h @ ?r)"
    by (simp add: hc_set_hoplimit_def HC_HEADERSIZE_WITHOUT_FRAG_HEADER_def poke_def)
  have off: "unat (HC_HEADERSIZE_WITHOUT_FRAG_HEADER + 1 + HOPLIMIT_SIZE C) = length ([?f, d, nh] @ ?h)"
    "unat (HC_HEADERSIZE_WITHOUT_FRAG_HEADER + 1 + HOPLIMIT_SIZE C + getWriteSrcHeaderSize) = length ([?f, d, nh] @ ?h @ ipaddrB8 src)" for d
    by (simp_all add: HC_HEADERSIZE_WITHOUT_FRAG_HEADER_def HOPLIMIT_SIZE_def getWriteSrcHeaderSize_def ls)
  have sr: "hc_set_src_ipaddr C src ([?f, 0, nh] @ ?h @ ?r) = Inr ([?f, 0, nh] @ ?h @ ipaddrB8 src @ drop 16 ?r)"
    using poke_all_at [OF off(1), of "ipaddrB8 src" ?r 0] r ls
    by (simp add: hc_set_src_ipaddr_def write_compressed_src_ipaddr_def)
  have ds: "poke_all (unat (HC_HEADERSIZE_WITHOUT_FRAG_HEADER + 1 + HOPLIMIT_SIZE C + getWriteSrcHeaderSize))
      (ipaddrB8 dst) ([?f, d, nh] @ ?h @ ipaddrB8 src @ drop 16 ?r) = Inr ([?f, d, nh] @ ?h @ ipaddrB8 src @ ipaddrB8 dst @ drop 32 ?r)" for d
    using poke_all_at [OF off(2), of "ipaddrB8 dst" "drop 16 ?r" d] r ls by simp
  have dt: "hc_set_dst_ipaddr C dst ([?f, 0, nh] @ ?h @ ipaddrB8 src @ drop 16 ?r) =
      Inr ([?f, ?d, nh] @ ?h @ ipaddrB8 src @ ipaddrB8 dst @ drop 32 ?r)"
    using ds [of 0] ds [of 8] ls
    by (simp add: hc_set_dst_ipaddr_def write_compressed_dst_ipaddr_def write_compressed_multicast_dst_ipaddr_def peek_def poke_def Let_def)
  have "drop (length (hc_layout C nh hl src dst)) data = drop 32 ?r"
    using length_hc_layout [OF assms(1,2), of C nh hl] data by (simp add: numeral_eq_Suc)
  then show ?thesis
    unfolding hc_write_def by (simp only: up nx ho sr dt obind_simps) (simp add: hc_layout_def)
qed

theorem hc_write_layout_witness:
  "\<exists>out. hc_write \<lparr>hopcount_uncompressed = True, hopcount_255 = False, hopcount_64 = False, hopcount_1 = False, char_signed = True\<rparr>
       58 255 witness_ipv6 witness_ipv6 (replicate 40 0) = Inr out \<and> take 4 out = [0x60, 0, 58, 255] \<and>
     drop 36 out = [0, 0, 0, 0]"
proof -
  have ok: "ipv6_ok witness_ipv6" by (simp add: ipv6_ok_def witness_ipv6_def)
  have s: "getIPv6AddressScope witness_ipv6 \<noteq> IPV6_SCOPE_MULTICAST" by code_simp
  let ?C = "\<lparr>hopcount_uncompressed = True, hopcount_255 = False, hopcount_64 = False, hopcount_1 = False, char_signed = True\<rparr>"
  have "length (hc_layout ?C 58 255 witness_ipv6 witness_ipv6) = 36" "hc_flags ?C = 0x60"
    using length_hc_layout [OF ok ok, of ?C] by (simp_all add: hc_flags_def)
  then show ?thesis
    using hc_write_layout [OF ok ok, of "replicate 40 0" ?C 58 255] s by (simp add: hc_layout_def numeral_eq_Suc)
qed

text \<open>The bytes of the fragment header, and what the receiver makes of them.\<close>

lemma fragment_masks:
  "(0xFF :: u32) = mask 8" "(0x0700 :: u32) = push_bit 8 (mask 3)" "(0xC0 :: u32) = push_bit 6 (mask 2)"
  "(0xFF :: u16) = mask 8" "(0x0700 :: u16) = push_bit 8 (mask 3)" "(0xFF00 :: u16) = push_bit 8 (mask 8)"
  "(0xC0 :: u8) = push_bit 6 (mask 2)"
  by (simp_all add: mask_eq_exp_minus_1)

lemma fragment_bytes:
  "(ucast (0xC0 OR (0x0700 AND ucast (len :: u16)) :: u32) :: u8) = 0xC0"
  "(ucast (0xFF AND ucast (len :: u16) :: u32) :: u8) = ucast len"
  unfolding fragment_masks by (rule bit_word_eqI, auto simp: bit_simps)+

lemma fragment_value:
  "(ucast (ucast (ucast (len :: u16) :: u8) :: u32) :: u16) = len AND 0xFF"
  "(ucast (0x0700 OR signed_take_bit 7 (ucast (ucast (len :: u16) :: u8) :: u32)) :: u16) =
     (if bit len 7 then 0xFF00 else 0x0700) OR (len AND 0xFF)"
proof -
  show "(ucast (ucast (ucast len :: u8) :: u32) :: u16) = len AND 0xFF"
    unfolding fragment_masks by (rule bit_word_eqI) (auto simp: bit_simps)
  show "(ucast (0x0700 OR signed_take_bit 7 (ucast (ucast len :: u8) :: u32)) :: u16) =
     (if bit len 7 then 0xFF00 else 0x0700) OR (len AND 0xFF)"
  proof (rule bit_word_eqI)
    fix n assume "n < LENGTH(16)"
    then show "bit (ucast (0x0700 OR signed_take_bit 7 (ucast (ucast len :: u8) :: u32)) :: u16) n =
       bit ((if bit len 7 then 0xFF00 else 0x0700) OR (len AND 0xFF)) n"
      unfolding fragment_masks by (cases "n = 7") (auto simp: bit_simps min_def)
  qed
qed

text \<open>C32: The receiver does not understand what the sender wrote. The tests of the fields compare masked but unshifted bits with
  1, 2 and 3, and the written flags announce a traffic class and a flow label that nobody writes, so that for every
  configuration, every address and every next header both addresses are read from outside their memory, the next
  header is a byte of the source address, and the payload is looked for at the wrong place. Of the length of the
  payload only the low byte arrives, and where \<^verbatim>\<open>char\<close> is signed not even that.\<close>

theorem hc_reader_mismatch:
  assumes "ipv6_ok src" and "ipv6_ok dst" and "36 \<le> length data" and "hc_write C nh hl src dst data = Inr out"
  shows "hc_get_src_ipaddr C upper mem out = Inl OutOfBounds \<and> hc_get_dst_ipaddr C upper mem out = Inl OutOfBounds \<and>
     hc_get_nextheader out = Inr (ipaddrB8 src ! (if hopcount_uncompressed C then 2 else 3)) \<and>
     hc_get_payload out \<noteq> Inr (length (hc_layout C nh hl src dst)) \<and>
     hc_get_payload_len C (fst (hc_set_payload_len len counter p)) =
       (if char_signed C then (if bit len 7 then 0xFF00 else 0x0700) OR (len AND 0xFF) else len AND 0xFF)"
proof -
  let ?d = "if getIPv6AddressScope dst = IPV6_SCOPE_MULTICAST then 0x08 else (0 :: u8)"
  let ?h = "if hopcount_uncompressed C then [hl] else []"
  obtain rest where out: "out = hc_flags C # ?d # nh # ?h @ ipaddrB8 src @ rest"
    using hc_write_layout [OF assms(1-3), of C nh hl] assms(4) by (simp add: hc_layout_def)
  have ls: "length (ipaddrB8 src) = 16" using assms(1) by (simp add: ipv6_ok_def)
  have pk: "peek out 0 = Inr (hc_flags C)" "peek out (Suc 0) = Inr ?d" by (simp_all add: peek_def out)
  have p6: "peek out 6 = Inr (ipaddrB8 src ! (if hopcount_uncompressed C then 2 else 3))"
    using ls by (simp add: peek_def out nth_append)
  have sz: "calculateHCHeaderSizeWithoutFragmentSize out = Inr 2"
    by (simp add: calculateHCHeaderSizeWithoutFragmentSize_def pk hc_macros)
  have "hc_get_src_ipaddr C upper mem out = Inl OutOfBounds"
    by (simp add: hc_get_src_ipaddr_def sz pk read_compressed_ipaddr_def Let_def)
  moreover have "hc_get_dst_ipaddr C upper mem out = Inl OutOfBounds"
    by (simp add: hc_get_dst_ipaddr_def sz pk read_compressed_ipaddr_def read_compressed_multicast_dest_ipaddr_def Let_def)
  moreover have "hc_get_nextheader out = Inr (ipaddrB8 src ! (if hopcount_uncompressed C then 2 else 3))"
    by (simp add: hc_get_nextheader_def pk sz p6 tf_size_def hc_flags_fields)
  moreover have "hc_get_payload out \<noteq> Inr (length (hc_layout C nh hl src dst))"
  proof -
    have s: "src_size ?d = 16" "dest_size ?d = (if getIPv6AddressScope dst = IPV6_SCOPE_MULTICAST then 0 else 38)" "CID ?d \<noteq> 1"
      using hc_sizes by auto
    have "calculateHeaderSize out = Inr (4 + 4 + 1 + (if HLIM (hc_flags C) = 0 then 1 else 0) + 0 + 16
        + (if getIPv6AddressScope dst = IPV6_SCOPE_MULTICAST then 0 else 38))"
      unfolding calculateHeaderSize_def pk One_nat_def obind_simps hc_flags_sizes s(1,2) by (simp only: s(3) if_False)
    then show ?thesis unfolding length_hc_layout [OF assms(1,2)] hc_get_payload_def by simp
  qed
  moreover have "hc_get_payload_len C (fst (hc_set_payload_len len counter p)) =
       (if char_signed C then (if bit len 7 then 0xFF00 else 0x0700) OR (len AND 0xFF) else len AND 0xFF)"
  proof -
    have v: "(ucast (0xC0 :: u8) :: u32) AND push_bit 8 7 = 0" "signed_take_bit 7 (ucast (0xC0 :: u8) :: u32) AND push_bit 8 7 = 0x0700"
      by simp_all
    have "hc_get_payload_len C (fst (hc_set_payload_len len counter p)) =
        ucast ((promote_char C 0xC0 AND push_bit 8 7) OR promote_char C (ucast len))"
      by (simp only: hc_get_payload_len_def hc_set_payload_len_def writeFragmentHeader_def fst_conv fragment_bytes) simp
    then show ?thesis
      by (cases "char_signed C") (simp_all only: promote_char_def if_True if_False v fragment_value or.left_neutral)
  qed
  ultimately show ?thesis by simp
qed

theorem hc_reader_mismatch_witness:
  "\<exists>out. hc_write \<lparr>hopcount_uncompressed = True, hopcount_255 = False, hopcount_64 = False, hopcount_1 = False, char_signed = True\<rparr>
       58 255 witness_ipv6 witness_ipv6 (replicate 40 0) = Inr out \<and> hc_get_nextheader out = Inr 0x0d"
proof -
  have ok: "ipv6_ok witness_ipv6" by (simp add: ipv6_ok_def witness_ipv6_def)
  let ?C = "\<lparr>hopcount_uncompressed = True, hopcount_255 = False, hopcount_64 = False, hopcount_1 = False, char_signed = True\<rparr>"
  have "\<not> isl (hc_write ?C 58 255 witness_ipv6 witness_ipv6 (replicate 40 0))" by code_simp
  then obtain out where "hc_write ?C 58 255 witness_ipv6 witness_ipv6 (replicate 40 0) = Inr out" by (cases "hc_write ?C 58 255 witness_ipv6 witness_ipv6 (replicate 40 0)") auto
  then show ?thesis
    using hc_reader_mismatch [OF ok ok, of "replicate 40 0" ?C 58 255 out] by (simp add: witness_ipv6_def)
qed

end
