(* ===== verification/IPv4_Layer.thy ===== *)
theory IPv4_Layer
  imports Checksum
begin

text \<open>
  IPv4: the packet class of \<^verbatim>\<open>ipv4/IPv4.h\<close>, the sender's side of a socket (\<^verbatim>\<open>ipv4/IPv4onSockets.h\<close>,
  \<^verbatim>\<open>ipv4/IPv4onSockets.cpp\<close>), the interfaces and the router it consults (\<^verbatim>\<open>router/Router.cpp\<close>, the IPv4 slices) and the
  checks of the receiver (\<^verbatim>\<open>ipv4/IPv4_Receive.ah\<close>). The fields of a packet hold what is in memory; the getters and setters
  of 16 bits are woven with \<^verbatim>\<open>Little_Endian.ah\<close>, those of \<^verbatim>\<open>hdr_checksum\<close> that do not go through them are not.
\<close>

subsection \<open>The packet\<close>

record IPv4_Packet =
  v4_ihl :: u8
  v4_version :: u8
  v4_tos :: u8
  v4_total_len :: u16
  v4_id :: u16
  v4_flags_offset :: u16
  v4_ttl :: u8
  v4_protocol :: u8
  v4_hdr_checksum :: u16
  v4_src :: u32
  v4_dst :: u32
  v4_data :: "u8 list"

definition IPV4_VERSION :: u8 where "IPV4_VERSION = 4"
definition IPV4_MIN_HEADER_SIZE :: u32 where "IPV4_MIN_HEADER_SIZE = 20"
definition IPV4_MF_FLAG :: u8 where "IPV4_MF_FLAG = 1"
definition IPV4_DEFAULT_TOS :: u8 where "IPV4_DEFAULT_TOS = 0"
definition IPV4_DEFAULT_TTL :: u8 where "IPV4_DEFAULT_TTL = 64"
definition IPV4_DEFAULT_FLAGS :: u8 where "IPV4_DEFAULT_FLAGS = 0"
definition IPV4_NO_FRAGMENT_OFFSET :: u16 where "IPV4_NO_FRAGMENT_OFFSET = 0"
definition FRAGMENT_MASK :: u16 where "FRAGMENT_MASK = 0xFF1F"

lemmas ipv4_constants = IPV4_VERSION_def IPV4_MIN_HEADER_SIZE_def IPV4_MF_FLAG_def IPV4_DEFAULT_TOS_def IPV4_DEFAULT_TTL_def
  IPV4_DEFAULT_FLAGS_def IPV4_NO_FRAGMENT_OFFSET_def FRAGMENT_MASK_def

definition v4_get_total_len :: "IPv4_Packet \<Rightarrow> u16" where "v4_get_total_len p = ntohs (v4_total_len p)"
definition v4_set_total_len :: "u16 \<Rightarrow> IPv4_Packet \<Rightarrow> IPv4_Packet" where
  "v4_set_total_len len p = p\<lparr>v4_total_len := htons len\<rparr>"

definition v4_get_ihl :: "IPv4_Packet \<Rightarrow> u8" where "v4_get_ihl p = v4_ihl p"
definition v4_set_ihl :: "u8 \<Rightarrow> IPv4_Packet \<Rightarrow> IPv4_Packet" where "v4_set_ihl i p = p\<lparr>v4_ihl := i AND 0xF\<rparr>"

definition v4_payload_len :: "IPv4_Packet \<Rightarrow> u16" where
  "v4_payload_len p = v4_get_total_len p - ucast (v4_get_ihl p) * 4"

definition v4_get_version :: "IPv4_Packet \<Rightarrow> u8" where "v4_get_version p = v4_version p"
definition v4_set_version :: "u8 \<Rightarrow> IPv4_Packet \<Rightarrow> IPv4_Packet" where "v4_set_version v p = p\<lparr>v4_version := v AND 0xF\<rparr>"

definition v4_get_tos :: "IPv4_Packet \<Rightarrow> u8" where "v4_get_tos p = v4_tos p"
definition v4_set_tos :: "u8 \<Rightarrow> IPv4_Packet \<Rightarrow> IPv4_Packet" where "v4_set_tos t p = p\<lparr>v4_tos := t\<rparr>"

definition v4_get_id :: "IPv4_Packet \<Rightarrow> u16" where "v4_get_id p = ntohs (v4_id p)"
definition v4_set_id :: "u16 \<Rightarrow> IPv4_Packet \<Rightarrow> IPv4_Packet" where "v4_set_id i p = p\<lparr>v4_id := htons i\<rparr>"

definition v4_get_flags :: "IPv4_Packet \<Rightarrow> u8" where
  "v4_get_flags p = ucast (drop_bit 5 (v4_flags_offset p) AND 0x7)"

definition v4_set_flags :: "u8 \<Rightarrow> IPv4_Packet \<Rightarrow> IPv4_Packet" where
  "v4_set_flags f p = p\<lparr>v4_flags_offset := (v4_flags_offset p AND FRAGMENT_MASK) OR push_bit 5 (ucast (f AND 0x7))\<rparr>"

definition v4_get_fragment_offset :: "IPv4_Packet \<Rightarrow> u16" where
  "v4_get_fragment_offset p = ntohs (v4_flags_offset p AND FRAGMENT_MASK)"

definition v4_set_fragment_offset :: "u16 \<Rightarrow> IPv4_Packet \<Rightarrow> IPv4_Packet" where
  "v4_set_fragment_offset fo p =
     p\<lparr>v4_flags_offset := (v4_flags_offset p AND NOT FRAGMENT_MASK) OR (htons fo AND FRAGMENT_MASK)\<rparr>"

definition v4_get_ttl :: "IPv4_Packet \<Rightarrow> u8" where "v4_get_ttl p = v4_ttl p"
definition v4_set_ttl :: "u8 \<Rightarrow> IPv4_Packet \<Rightarrow> IPv4_Packet" where "v4_set_ttl t p = p\<lparr>v4_ttl := t\<rparr>"

definition v4_get_protocol :: "IPv4_Packet \<Rightarrow> u8" where "v4_get_protocol p = v4_protocol p"
definition v4_set_protocol :: "u8 \<Rightarrow> IPv4_Packet \<Rightarrow> IPv4_Packet" where "v4_set_protocol t p = p\<lparr>v4_protocol := t\<rparr>"

definition v4_get_hdr_checksum :: "IPv4_Packet \<Rightarrow> u16" where "v4_get_hdr_checksum p = ntohs (v4_hdr_checksum p)"
definition v4_set_hdr_checksum :: "u16 \<Rightarrow> IPv4_Packet \<Rightarrow> IPv4_Packet" where
  "v4_set_hdr_checksum c p = p\<lparr>v4_hdr_checksum := htons c\<rparr>"

definition v4_get_src_ipaddr :: "IPv4_Packet \<Rightarrow> u32" where "v4_get_src_ipaddr p = v4_src p"
definition v4_set_src_ipaddr :: "u32 \<Rightarrow> IPv4_Packet \<Rightarrow> IPv4_Packet" where "v4_set_src_ipaddr a p = p\<lparr>v4_src := a\<rparr>"
definition v4_get_dst_ipaddr :: "IPv4_Packet \<Rightarrow> u32" where "v4_get_dst_ipaddr p = v4_dst p"
definition v4_set_dst_ipaddr :: "u32 \<Rightarrow> IPv4_Packet \<Rightarrow> IPv4_Packet" where "v4_set_dst_ipaddr a p = p\<lparr>v4_dst := a\<rparr>"

text \<open>The distance of \<open>get_data\<close> from the start of the packet.\<close>

definition v4_get_data :: "IPv4_Packet \<Rightarrow> nat" where "v4_get_data p = 4 * unat (v4_get_ihl p)"

lemmas ipv4_fields = v4_get_total_len_def v4_set_total_len_def v4_get_ihl_def v4_set_ihl_def v4_get_version_def v4_set_version_def
  v4_get_tos_def v4_set_tos_def v4_get_id_def v4_set_id_def v4_get_flags_def v4_set_flags_def v4_get_fragment_offset_def
  v4_set_fragment_offset_def v4_get_ttl_def v4_set_ttl_def v4_get_protocol_def v4_set_protocol_def v4_get_hdr_checksum_def
  v4_set_hdr_checksum_def v4_get_src_ipaddr_def v4_set_src_ipaddr_def v4_get_dst_ipaddr_def v4_set_dst_ipaddr_def

definition convert_ipv4_addr :: "u8 \<Rightarrow> u8 \<Rightarrow> u8 \<Rightarrow> u8 \<Rightarrow> u32" where
  "convert_ipv4_addr a b c d =
     ucast (a AND 0xFF) OR push_bit 8 (ucast (b AND 0xFF)) OR push_bit 16 (ucast (c AND 0xFF)) OR push_bit 24 (ucast (d AND 0xFF))"

definition convert_ipv4_addr_bytes :: "u32 \<Rightarrow> u8 \<times> u8 \<times> u8 \<times> u8" where
  "convert_ipv4_addr_bytes ip =
     (ucast ip AND 0xFF, ucast (drop_bit 8 ip) AND 0xFF, ucast (drop_bit 16 ip) AND 0xFF, ucast (drop_bit 24 ip) AND 0xFF)"

subsection \<open>Length and checksum\<close>

definition v4_validPacketLength :: "u32 \<Rightarrow> IPv4_Packet \<Rightarrow> u32" where
  "v4_validPacketLength packet_len p =
     (if packet_len < IPV4_MIN_HEADER_SIZE then 0
      else let ihl = v4_get_ihl p * 4 in
      if ucast ihl < IPV4_MIN_HEADER_SIZE then 0
      else if ucast ihl > packet_len then 0
      else let total_len = v4_get_total_len p in
      if total_len < ucast ihl then 0
      else if ucast total_len > packet_len then 0
      else ucast total_len)"

text \<open>The packet as the 16-bit words of a little-endian memory.\<close>

fun words_of :: "u8 list \<Rightarrow> u16 list" where
  "words_of (b0 # b1 # bs) = load16 b0 b1 # words_of bs"
| "words_of _ = []"

definition v4_words :: "IPv4_Packet \<Rightarrow> u16 list" where
  "v4_words p =
     [load16 (v4_ihl p OR push_bit 4 (v4_version p)) (v4_tos p), v4_total_len p, v4_id p, v4_flags_offset p,
      load16 (v4_ttl p) (v4_protocol p), v4_hdr_checksum p, ucast (v4_src p), ucast (drop_bit 16 (v4_src p)),
      ucast (v4_dst p), ucast (drop_bit 16 (v4_dst p))] @ words_of (v4_data p)"

definition v4_cksum :: "u16 list \<Rightarrow> nat \<Rightarrow> u16 outcome" where
  "v4_cksum buf nwords =
     obind (peek_all buf 0 nwords) (\<lambda>ws.
       let sum = sum_list (map ucast ws) :: u32;
           sum = drop_bit 16 sum + (sum AND 0xffff);
           sum = sum + drop_bit 16 sum
       in Inr (ucast (NOT sum)))"

definition v4_validPacketChecksum :: "IPv4_Packet \<Rightarrow> bool outcome" where
  "v4_validPacketChecksum p = obind (v4_cksum (v4_words p) (unat (v4_get_ihl p) * 2)) (\<lambda>c. Inr (c = 0))"

definition v4_clearChecksum :: "IPv4_Packet \<Rightarrow> IPv4_Packet" where
  "v4_clearChecksum p = p\<lparr>v4_hdr_checksum := 0\<rparr>"

definition v4_computeChecksum :: "IPv4_Packet \<Rightarrow> IPv4_Packet outcome" where
  "v4_computeChecksum p =
     (let p = p\<lparr>v4_hdr_checksum := 0\<rparr>
      in obind (v4_cksum (v4_words p) (unat (v4_get_ihl p) * 2)) (\<lambda>c. Inr (p\<lparr>v4_hdr_checksum := c\<rparr>)))"

subsection \<open>Interfaces and router\<close>

record v4_interface =
  if_ipv4_addr :: u32
  if_ipv4_subnetmask :: u32
  if_ipv4_up :: bool

record v4_router =
  interfaces :: "v4_interface list"
  ipv4_gateway_addr :: u32

text \<open>The interfaces are a linked list; a pointer to one is its position, the null pointer is \<open>None\<close>.\<close>

fun next_interface :: "v4_router \<Rightarrow> nat option \<Rightarrow> nat option" where
  "next_interface R None = None"
| "next_interface R (Some i) = (if i + 1 < length (interfaces R) then Some (i + 1) else None)"

definition head_interface :: "v4_router \<Rightarrow> nat option" where
  "head_interface R = (if interfaces R = [] then None else Some 0)"

fun interface_after :: "v4_router \<Rightarrow> nat \<Rightarrow> nat option \<Rightarrow> nat option" where
  "interface_after R (Suc n) (Some i) = interface_after R n (next_interface R (Some i))"
| "interface_after R n i = i"

definition get_interface :: "v4_router \<Rightarrow> int \<Rightarrow> nat option" where
  "get_interface R index = interface_after R (nat index) (head_interface R)"

definition route_matches :: "u32 \<Rightarrow> v4_interface \<Rightarrow> bool" where
  "route_matches dst ifc \<longleftrightarrow>
     if_ipv4_up ifc \<and> if_ipv4_addr ifc AND if_ipv4_subnetmask ifc = dst AND if_ipv4_subnetmask ifc \<and> if_ipv4_addr ifc \<noteq> dst"

fun find_route_from :: "nat \<Rightarrow> u32 \<Rightarrow> v4_interface list \<Rightarrow> nat option" where
  "find_route_from i dst [] = None"
| "find_route_from i dst (ifc # ifs) = (if route_matches dst ifc then Some i else find_route_from (Suc i) dst ifs)"

definition ipv4_find_route :: "v4_router \<Rightarrow> u32 \<Rightarrow> nat option" where
  "ipv4_find_route R dst = find_route_from 0 dst (interfaces R)"

subsection \<open>The socket's side\<close>

record IPV4 =
  v4s_interface :: "nat option"
  v4s_using_gateway :: bool
  v4s_dst_addr :: u32
  v4s_id :: u16

definition new_IPV4 :: "IPV4 \<Rightarrow> IPV4" where
  "new_IPV4 raw = raw\<lparr>v4s_interface := None, v4s_dst_addr := 0, v4s_id := 0\<rparr>"

definition v4s_resolveRoute :: "v4_router \<Rightarrow> IPV4 \<Rightarrow> IPV4" where
  "v4s_resolveRoute R s =
     (let s = s\<lparr>v4s_interface := ipv4_find_route R (v4s_dst_addr s), v4s_using_gateway := False\<rparr> in
      if v4s_interface s \<noteq> None then s
      else s\<lparr>v4s_interface := ipv4_find_route R (ipv4_gateway_addr R), v4s_using_gateway := True\<rparr>)"

definition v4s_hasValidInterface :: "IPV4 \<Rightarrow> bool" where
  "v4s_hasValidInterface s \<longleftrightarrow> v4s_interface s \<noteq> None"

definition v4s_getSpecificHeaderSize :: u32 where "v4s_getSpecificHeaderSize = IPV4_MIN_HEADER_SIZE"

definition v4s_get_src_addr :: "v4_router \<Rightarrow> IPV4 \<Rightarrow> u32" where
  "v4s_get_src_addr R s = (case v4s_interface s of None \<Rightarrow> 0 | Some i \<Rightarrow> if_ipv4_addr (interfaces R ! i))"

definition v4s_hasValidSrcDestAddresses :: "v4_router \<Rightarrow> IPV4 \<Rightarrow> bool" where
  "v4s_hasValidSrcDestAddresses R s \<longleftrightarrow>
     (case v4s_interface s of None \<Rightarrow> False | Some i \<Rightarrow> if_ipv4_addr (interfaces R ! i) \<noteq> 0 \<and> v4s_dst_addr s \<noteq> 0)"

definition v4s_set_dst_addr :: "v4_router \<Rightarrow> u32 \<Rightarrow> IPV4 \<Rightarrow> IPV4" where
  "v4s_set_dst_addr R dst s = v4s_resolveRoute R (s\<lparr>v4s_dst_addr := dst\<rparr>)"

definition v4s_set_dst_addr_bytes :: "v4_router \<Rightarrow> u8 \<Rightarrow> u8 \<Rightarrow> u8 \<Rightarrow> u8 \<Rightarrow> IPV4 \<Rightarrow> IPV4" where
  "v4s_set_dst_addr_bytes R a b c d s = v4s_set_dst_addr R (convert_ipv4_addr a b c d) s"

definition v4s_get_dst_addr :: "IPV4 \<Rightarrow> u32" where "v4s_get_dst_addr s = v4s_dst_addr s"

definition v4s_get_nexthop_ipaddr :: "v4_router \<Rightarrow> IPV4 \<Rightarrow> u32" where
  "v4s_get_nexthop_ipaddr R s = (if \<not> v4s_using_gateway s then v4s_dst_addr s else ipv4_gateway_addr R)"

definition v4s_setupHeader :: "v4_router \<Rightarrow> u32 \<Rightarrow> IPV4 \<Rightarrow> IPv4_Packet \<Rightarrow> IPv4_Packet \<times> IPV4" where
  "v4s_setupHeader R datasize s p =
     (let p = v4_set_ihl (ucast (IPV4_MIN_HEADER_SIZE div 4)) p;
          p = v4_set_version IPV4_VERSION p;
          p = v4_set_tos IPV4_DEFAULT_TOS p;
          p = v4_set_total_len (ucast datasize) p;
          p = v4_set_id (v4s_id s) p;
          s = s\<lparr>v4s_id := v4s_id s + 1\<rparr>;
          p = v4_set_flags IPV4_DEFAULT_FLAGS p;
          p = v4_set_fragment_offset IPV4_NO_FRAGMENT_OFFSET p;
          p = v4_set_ttl IPV4_DEFAULT_TTL p;
          p = v4_set_src_ipaddr (v4s_get_src_addr R s) p;
          p = v4_set_dst_ipaddr (v4s_dst_addr s) p
      in (p, s))"

subsection \<open>The receiver\<close>

datatype ipv4_verdict = Dropped | Time_Exceeded | Delivered IPv4_Packet u32 | Forwarded IPv4_Packet u32

text \<open>The advice around \<open>ipv4_demux\<close>; \<open>reassemble\<close> is \<^verbatim>\<open>ipv4_reassemble\<close>, which gives the complete packet and its length
  when the fragment was the last one.\<close>

definition ipv4_receive ::
    "(IPv4_Packet \<Rightarrow> u32 \<Rightarrow> u16 \<Rightarrow> (IPv4_Packet \<times> u32) option) \<Rightarrow> v4_interface \<Rightarrow> u32 \<Rightarrow> IPv4_Packet \<Rightarrow> ipv4_verdict outcome" where
  "ipv4_receive reassemble ifc len p =
     (if \<not> if_ipv4_up ifc then Inr Dropped
      else let len = v4_validPacketLength len p in
      if len = 0 then Inr Dropped
      else if v4_get_version p \<noteq> IPV4_VERSION then Inr Dropped
      else if v4_get_ttl p = 0 then Inr Time_Exceeded
      else obind (v4_validPacketChecksum p) (\<lambda>ok.
      if \<not> ok then Inr Dropped
      else if v4_get_dst_ipaddr p = if_ipv4_addr ifc
      then let fragment_offset = v4_get_fragment_offset p in
           if v4_get_flags p = IPV4_MF_FLAG \<or> fragment_offset \<noteq> 0
           then case reassemble p len (fragment_offset * 8) of
                  None \<Rightarrow> Inr Dropped
                | Some (p', len') \<Rightarrow> Inr (Delivered p' len')
           else Inr (Delivered p len)
      else if v4_get_ttl p \<le> 1 then Inr Time_Exceeded
      else Inr (Forwarded p len)))"

subsection \<open>Flags and fragment offset share a word\<close>

lemma bit_FRAGMENT_MASK: "bit FRAGMENT_MASK n \<longleftrightarrow> n < 5 \<or> 8 \<le> n \<and> n < 16"
proof -
  have m: "FRAGMENT_MASK = mask 5 OR push_bit 8 (mask 8)" by (simp add: FRAGMENT_MASK_def mask_eq_exp_minus_1)
  show ?thesis unfolding m by (auto simp: bit_simps)
qed

lemma bit_7_int: "bit (7 :: int) n \<longleftrightarrow> n < 3"
proof -
  have m: "(7 :: int) = mask 3" by (simp add: mask_eq_exp_minus_1)
  show ?thesis unfolding m by (simp add: bit_mask_iff)
qed

lemma bit_htons: "bit (htons v) n \<longleftrightarrow> n < 8 \<and> bit v (8 + n) \<or> 8 \<le> n \<and> n < 16 \<and> bit v (n - 8)"
  unfolding htons_def by (auto simp: bit_simps bit_mask_int)

lemma flags_and_offset:
  "v4_get_flags (v4_set_flags f p) = f AND 7"
  "v4_get_fragment_offset (v4_set_flags f p) = v4_get_fragment_offset p"
  "v4_get_flags (v4_set_fragment_offset fo p) = v4_get_flags p"
  "v4_get_fragment_offset (v4_set_fragment_offset fo p) = fo AND 0x1FFF"
proof -
  show "v4_get_flags (v4_set_flags f p) = f AND 7"
    unfolding v4_get_flags_def v4_set_flags_def
    by (rule bit_word_eqI) (auto simp: bit_simps bit_FRAGMENT_MASK bit_7_int)
  show "v4_get_fragment_offset (v4_set_flags f p) = v4_get_fragment_offset p"
    unfolding v4_get_fragment_offset_def v4_set_flags_def ntohs_def
    by (rule bit_word_eqI) (auto simp: bit_simps bit_htons bit_FRAGMENT_MASK bit_7_int)
  show "v4_get_flags (v4_set_fragment_offset fo p) = v4_get_flags p"
    unfolding v4_get_flags_def v4_set_fragment_offset_def
    by (rule bit_word_eqI) (auto simp: bit_simps bit_FRAGMENT_MASK bit_7_int)
  have m: "(0x1FFF :: u16) = mask 13" by (simp add: mask_eq_exp_minus_1)
  show "v4_get_fragment_offset (v4_set_fragment_offset fo p) = fo AND 0x1FFF"
    unfolding v4_get_fragment_offset_def v4_set_fragment_offset_def ntohs_def m
    by (rule bit_word_eqI) (auto simp: bit_simps bit_htons bit_FRAGMENT_MASK)
qed

lemma convert_ipv4_addr_inverse:
  "convert_ipv4_addr_bytes (convert_ipv4_addr a b c d) = (a, b, c, d)"
  unfolding convert_ipv4_addr_def convert_ipv4_addr_bytes_def
  by (auto intro!: bit_word_eqI simp: bit_simps bit_mask_int)

subsection \<open>The header checksum\<close>

text \<open>Folding a sum of at most 30 words twice is reducing it modulo \<open>65535\<close>, with \<open>65535\<close> instead of \<open>0\<close> for a positive sum.\<close>

definition fold_twice :: "nat \<Rightarrow> nat" where
  "fold_twice s = (let t = s div 65536 + s mod 65536 in (t + t div 65536) mod 65536)"

lemma fold_twice_value:
  assumes "s < 65535 * 65536"
  shows "fold_twice s < 65536 \<and> fold_twice s mod 65535 = s mod 65535 \<and> (fold_twice s = 0 \<longleftrightarrow> s = 0)"
proof -
  define h l where "h = s div 65536" and "l = s mod 65536"
  have s: "s = 65536 * h + l" "l < 65536" by (simp_all add: h_def l_def)
  have h: "h < 65535" using assms by (simp add: h_def div_less_iff_less_mult)
  have m: "s mod 65535 = (h + l) mod 65535"
  proof -
    have "s = 65535 * h + (h + l)" using s(1) by simp
    then show ?thesis by (simp only: mod_mult_self4)
  qed
  show ?thesis
  proof (cases "h + l < 65536")
    case True
    then have "fold_twice s = h + l" by (simp add: fold_twice_def h_def [symmetric] l_def [symmetric])
    then show ?thesis using True m s(1) by auto
  next
    case False
    then have "(h + l) div 65536 = 1" using h s(2) by (intro div_nat_eqI) simp_all
    then have "fold_twice s = (h + l + 1) mod 65536" by (simp add: fold_twice_def h_def [symmetric] l_def [symmetric])
    also have "\<dots> = h + l + 1 - 65536" using False h s(2) by (simp add: mod_if)
    finally have f: "fold_twice s = h + l - 65535" using False by simp
    have "(h + l) mod 65535 = (h + l - 65535) mod 65535" using False by (simp add: le_mod_geq)
    then show ?thesis using f m False h s by auto
  qed
qed

lemma word_sum_bound: "sum_list (map unat (ws :: u16 list)) \<le> 65535 * length ws"
proof (induction ws)
  case (Cons a ws)
  then show ?case using unat_u16_less [of a] by (simp del: unat_u16_less)
qed simp

lemma cksum_value:
  assumes "nwords \<le> length buf" and "nwords \<le> 30"
  shows "\<exists>c. v4_cksum buf nwords = Inr c \<and> unat c = 65535 - fold_twice (sum_list (map unat (take nwords buf)))"
proof -
  let ?ws = "take nwords buf" let ?s = "sum_list (map ucast ?ws) :: u32" and ?n = "sum_list (map unat (take nwords buf))"
  have b: "?n \<le> 65535 * 30" using word_sum_bound [of ?ws] assms by (elim order_trans) simp
  have e: "map (unat \<circ> (ucast :: u16 \<Rightarrow> u32)) ?ws = map unat ?ws" by simp
  have s: "unat ?s = ?n"
    using unat_sum_list_u32 [of "map ucast ?ws"] b by (simp add: e)
  let ?t = "drop_bit 16 ?s + (?s AND 0xffff)"
  have t: "unat ?t = ?n div 65536 + ?n mod 65536"
    using b by (subst unat_add_u32) (simp_all add: unat_and_FFFF_u32 unat_drop_bit_word s)
  have tb: "unat ?t < 2 * 65536" unfolding t using b by (simp add: div_less_iff_less_mult)
  let ?u = "?t + drop_bit 16 ?t"
  have u: "unat ?u = unat ?t + unat ?t div 65536"
    using tb by (subst unat_add_u32) (simp_all add: unat_drop_bit_word)
  have n: "(ucast (NOT ?u) :: u16) = NOT (ucast ?u)" by (rule bit_word_eqI) (simp add: bit_simps)
  have "unat (ucast ?u :: u16) = unat ?u mod 65536" by (simp only: unsigned_ucast_eq) (simp add: take_bit_eq_mod)
  then have "unat (ucast (NOT ?u) :: u16) = 65535 - fold_twice ?n"
    unfolding n unat_not_u16 u t by (simp add: fold_twice_def Let_def)
  moreover have "v4_cksum buf nwords = Inr (ucast (NOT ?u))"
    using assms(1) by (simp add: v4_cksum_def peek_all_def Let_def)
  ultimately show ?thesis by blast
qed

text \<open>The words of the header with the checksum taken out.\<close>

lemma v4_words_sum:
  assumes "6 \<le> n"
  shows "sum_list (map unat (take n (v4_words (p\<lparr>v4_hdr_checksum := c\<rparr>)))) =
    unat c + sum_list (map unat (take n (v4_words (p\<lparr>v4_hdr_checksum := 0\<rparr>))))"
proof -
  obtain m where m: "n = 6 + m" using assms le_Suc_ex by blast
  have "take n (v4_words (p\<lparr>v4_hdr_checksum := d\<rparr>)) =
      take 5 (v4_words p) @ [d] @ take m (drop 6 (v4_words p))" for d
    by (simp add: v4_words_def m numeral_eq_Suc)
  then show ?thesis by simp
qed

lemma complement_folds:
  assumes c: "c = 65535 - fold_twice S" and S: "S \<le> 65535 * 30"
  shows "fold_twice (c + S) = 65535"
proof -
  have "S < 65535 * 65536" "c + S < 65535 * 65536" using S c by simp_all
  note f = fold_twice_value [OF this(1)] and g = fold_twice_value [OF this(2)]
  have e: "c + fold_twice S = 65535" using c f by simp
  have "(c + S) mod 65535 = (c + fold_twice S) mod 65535" using f by (metis mod_add_right_eq)
  then have m: "(c + S) mod 65535 = 0" unfolding e by simp
  have "c + S \<noteq> 0" using c f by auto
  then have "fold_twice (c + S) \<noteq> 0" "fold_twice (c + S) mod 65535 = 0" "fold_twice (c + S) < 65536" using g m by auto
  then show ?thesis by (metis mod_less less_Suc_eq numeral_plus_one Suc_eq_plus1 semiring_norm(5) semiring_norm(2) semiring_norm(8))
qed

lemma computeChecksum_valid:
  assumes "3 \<le> v4_ihl p" and "v4_ihl p \<le> 15" and "2 * unat (v4_ihl p) \<le> length (v4_words p)"
  shows "\<exists>c. v4_computeChecksum p = Inr (p\<lparr>v4_hdr_checksum := c\<rparr>) \<and> v4_validPacketChecksum (p\<lparr>v4_hdr_checksum := c\<rparr>) = Inr True"
proof -
  have i: "3 \<le> unat (v4_ihl p)" "unat (v4_ihl p) \<le> 15" using assms(1,2) by (simp_all add: word_le_nat_alt)
  let ?n = "unat (v4_ihl p) * 2" let ?S = "sum_list (map unat (take ?n (v4_words (p\<lparr>v4_hdr_checksum := 0\<rparr>))))"
  have len: "length (v4_words (p\<lparr>v4_hdr_checksum := d\<rparr>)) = length (v4_words p)" for d by (simp add: v4_words_def)
  have n6: "6 \<le> ?n" and n30: "?n \<le> 30" "?n \<le> length (v4_words p)" using i assms(3) by simp_all
  have S: "?S \<le> 65535 * 30" using word_sum_bound [of "take ?n (v4_words (p\<lparr>v4_hdr_checksum := 0\<rparr>))"] i by (elim order_trans) simp
  obtain c where c: "v4_cksum (v4_words (p\<lparr>v4_hdr_checksum := 0\<rparr>)) ?n = Inr c" "unat c = 65535 - fold_twice ?S"
    using cksum_value [of ?n "v4_words (p\<lparr>v4_hdr_checksum := 0\<rparr>)"] n30 len [of 0] by auto
  obtain d where d: "v4_cksum (v4_words (p\<lparr>v4_hdr_checksum := c\<rparr>)) ?n = Inr d" "unat d = 65535 - fold_twice (unat c + ?S)"
    using cksum_value [of ?n "v4_words (p\<lparr>v4_hdr_checksum := c\<rparr>)"] v4_words_sum [OF n6, where p = p and c = c] n30 len [of c] by auto
  have "fold_twice (unat c + ?S) = 65535" by (rule complement_folds [OF c(2) S])
  then have "d = 0" using d(2) by (simp add: unat_eq_0)
  then show ?thesis
    using c(1) d(1) by (auto simp: v4_computeChecksum_def v4_validPacketChecksum_def v4_get_ihl_def Let_def)
qed

subsection \<open>Lengths\<close>

lemma unat_ihl4: "v4_ihl p \<le> 15 \<Longrightarrow> unat (v4_ihl p * 4) = 4 * unat (v4_ihl p)"
  by (simp add: word_le_nat_alt unat_word_ariths)

lemma ucast_less_iff: "ucast (a :: u16) < (b :: u32) \<longleftrightarrow> unat a < unat b" "(b :: u32) < ucast (a :: u16) \<longleftrightarrow> unat b < unat a"
  by (simp_all add: word_less_nat_alt)

text \<open>The length check lets exactly the consistent packets through: \<open>validPacketLength\<close> answers the total length when the header has
  at least 20 bytes, fits into the total length, and that fits into what was received; otherwise it answers 0.\<close>

theorem ipv4_length_exact:
  assumes "v4_ihl p \<le> 15"
  shows "unat (v4_validPacketLength packet_len p) =
    (if 20 \<le> 4 * unat (v4_ihl p) \<and> 4 * unat (v4_ihl p) \<le> unat (v4_get_total_len p) \<and> unat (v4_get_total_len p) \<le> unat packet_len
     then unat (v4_get_total_len p) else 0)"
proof -
  have i: "unat (v4_ihl p * 4) = 4 * unat (v4_ihl p)" using assms by (rule unat_ihl4)
  show ?thesis
    unfolding v4_validPacketLength_def Let_def v4_get_ihl_def ipv4_constants word_less_nat_alt
    by (simp add: i)
qed

theorem ipv4_length_exact_witness:
  "unat (v4_validPacketLength 60
     \<lparr>v4_ihl = 5, v4_version = 4, v4_tos = 0, v4_total_len = 0x2800, v4_id = 0, v4_flags_offset = 0, v4_ttl = 64, v4_protocol = 6,
      v4_hdr_checksum = 0, v4_src = 0, v4_dst = 0, v4_data = []\<rparr>) = 40"
  by (subst ipv4_length_exact) (simp_all add: v4_get_total_len_def ntohs_def htons_def)

subsection \<open>From sender to receiver\<close>

lemma setupHeader_fields:
  assumes "v4s_setupHeader R datasize s p = (p', s')"
  shows "v4_ihl p' = 5" "v4_version p' = 4" "v4_get_total_len p' = ucast datasize" "v4_get_fragment_offset p' = 0" "v4_get_flags p' = 0"
    "v4_ttl p' = 64" "v4_src p' = v4s_get_src_addr R s" "v4_dst p' = v4s_dst_addr s" "v4_get_id p' = v4s_id s"
    "s' = s\<lparr>v4s_id := v4s_id s + 1\<rparr>" "v4_data p' = v4_data p"
proof -
  have z: "(0 :: u16) AND 0x1FFF = 0" "(0 :: u8) AND 7 = 0" by simp_all
  have e: "p' = v4_set_dst_ipaddr (v4s_dst_addr s) (v4_set_src_ipaddr (v4s_get_src_addr R (s\<lparr>v4s_id := v4s_id s + 1\<rparr>)) (v4_set_ttl 64
      (v4_set_fragment_offset 0 (v4_set_flags 0 (v4_set_id (v4s_id s) (v4_set_total_len (ucast datasize) (v4_set_tos 0
        (v4_set_version 4 (v4_set_ihl 5 p)))))))))"
    and s: "s' = s\<lparr>v4s_id := v4s_id s + 1\<rparr>"
    using assms by (auto simp: v4s_setupHeader_def Let_def ipv4_constants)
  show "s' = s\<lparr>v4s_id := v4s_id s + 1\<rparr>" by (rule s)
  show "v4_ihl p' = 5" "v4_version p' = 4" "v4_ttl p' = 64" "v4_src p' = v4s_get_src_addr R s" "v4_dst p' = v4s_dst_addr s"
    "v4_get_id p' = v4s_id s" "v4_get_total_len p' = ucast datasize" "v4_data p' = v4_data p"
    unfolding e by (simp_all add: ipv4_fields ntohs_def htons_involution v4s_get_src_addr_def)
  have "v4_get_fragment_offset p' = v4_get_fragment_offset (v4_set_fragment_offset 0 (v4_set_flags 0 (v4_set_id (v4s_id s)
      (v4_set_total_len (ucast datasize) (v4_set_tos 0 (v4_set_version 4 (v4_set_ihl 5 p)))))))"
    unfolding e by (simp add: v4_get_fragment_offset_def v4_set_dst_ipaddr_def v4_set_src_ipaddr_def v4_set_ttl_def)
  then show "v4_get_fragment_offset p' = 0" unfolding flags_and_offset z .
  have "v4_get_flags p' = v4_get_flags (v4_set_fragment_offset 0 (v4_set_flags 0 (v4_set_id (v4s_id s)
      (v4_set_total_len (ucast datasize) (v4_set_tos 0 (v4_set_version 4 (v4_set_ihl 5 p)))))))"
    unfolding e by (simp add: v4_get_flags_def v4_set_dst_ipaddr_def v4_set_src_ipaddr_def v4_set_ttl_def)
  then show "v4_get_flags p' = 0" unfolding flags_and_offset z .
qed

text \<open>A packet that passes every check of the receiver, also when the frame was padded.\<close>

lemma header_accepted:
  assumes "v4_ihl p = 5" and "v4_get_version p = IPV4_VERSION" and "v4_get_total_len p = ucast datasize" and "v4_get_fragment_offset p = 0"
    and "v4_get_flags p = 0" and "v4_get_ttl p = 64" and "v4_validPacketChecksum p = Inr True"
    and "20 \<le> datasize" and "datasize < 65536" and "datasize \<le> framelen" and "if_ipv4_up ifc"
  shows "ipv4_receive reassemble ifc framelen p =
    Inr (if v4_get_dst_ipaddr p = if_ipv4_addr ifc then Delivered p datasize else Forwarded p datasize)"
proof -
  have ds: "20 \<le> unat datasize" "unat datasize < 65536" "unat datasize \<le> unat framelen"
    using assms(8-10) by (simp_all add: word_le_nat_alt word_less_nat_alt)
  have ut: "unat (ucast datasize :: u16) = unat datasize"
  proof -
    have "unat (ucast datasize :: u16) = unat datasize mod 65536" by (simp only: unsigned_ucast_eq) (simp add: take_bit_eq_mod)
    then show ?thesis using ds(2) by simp
  qed
  have "unat (v4_validPacketLength framelen p) = unat datasize"
    using ds by (subst ipv4_length_exact) (simp_all only: assms(1,3) ut, simp_all)
  then have len: "v4_validPacketLength framelen p = datasize" by (simp only: word_unat_eq_iff)
  have "datasize \<noteq> 0" using assms(8) by auto
  then show ?thesis
    using assms(11) unfolding ipv4_receive_def len Let_def assms(2,4-7) by (simp add: IPV4_MF_FLAG_def word_le_nat_alt)
qed

text \<open>What a socket sends the other side accepts. A packet whose header \<open>setupHeader\<close> filled, whose protocol was set, and whose
  checksum was computed passes every check of a receiver whose interface is up, also when the frame was padded: it is
  delivered with its protocol and its length when it is for the interface, and forwarded otherwise; and the socket has
  used up one identification number.\<close>

theorem ipv4_sender_accepted:
  assumes "v4s_setupHeader R datasize s p0 = (p1, s1)" and "20 \<le> datasize" and "datasize < 65536" and "datasize \<le> framelen"
    and "if_ipv4_up ifc"
  shows "\<exists>p. v4_computeChecksum (v4_set_protocol pr p1) = Inr p \<and> v4_get_protocol p = pr \<and> v4_get_src_ipaddr p = v4s_get_src_addr R s \<and>
    v4_get_id p = v4s_id s \<and> v4s_id s1 = v4s_id s + 1 \<and>
    ipv4_receive reassemble ifc framelen p =
      Inr (if v4s_dst_addr s = if_ipv4_addr ifc then Delivered p datasize else Forwarded p datasize)"
proof -
  note f = setupHeader_fields [OF assms(1)]
  let ?p = "v4_set_protocol pr p1"
  have i: "v4_ihl ?p = 5" using f(1) by (simp add: v4_set_protocol_def)
  obtain c where c: "v4_computeChecksum ?p = Inr (?p\<lparr>v4_hdr_checksum := c\<rparr>)" "v4_validPacketChecksum (?p\<lparr>v4_hdr_checksum := c\<rparr>) = Inr True"
    using computeChecksum_valid [of ?p] i by (auto simp: v4_words_def)
  let ?q = "?p\<lparr>v4_hdr_checksum := c\<rparr>"
  have rest: "v4_ihl ?q = 5" "v4_get_version ?q = IPV4_VERSION" "v4_get_total_len ?q = ucast datasize" "v4_get_fragment_offset ?q = 0"
      "v4_get_flags ?q = 0" "v4_get_ttl ?q = 64" "v4_get_dst_ipaddr ?q = v4s_dst_addr s" "v4_get_protocol ?q = pr"
      "v4_get_src_ipaddr ?q = v4s_get_src_addr R s" "v4_get_id ?q = v4s_id s"
    using f by (simp_all add: ipv4_fields ipv4_constants)
  note header_accepted [OF rest(1-6) c(2) assms(2-5)]
  then show ?thesis using c(1) rest f(10) by auto
qed

theorem ipv4_sender_accepted_witness:
  "\<exists>p. ipv4_receive (\<lambda>_ _ _. None) \<lparr>if_ipv4_addr = 0x0200000A, if_ipv4_subnetmask = 0x00FFFFFF, if_ipv4_up = True\<rparr> 60 p = Inr (Delivered p 40)"
proof -
  let ?R = "\<lparr>interfaces = [\<lparr>if_ipv4_addr = 0x0100000A, if_ipv4_subnetmask = 0x00FFFFFF, if_ipv4_up = True\<rparr>], ipv4_gateway_addr = 0\<rparr>"
  let ?s = "\<lparr>v4s_interface = Some 0, v4s_using_gateway = False, v4s_dst_addr = 0x0200000A, v4s_id = 7\<rparr>"
  let ?p = "\<lparr>v4_ihl = 0, v4_version = 0, v4_tos = 0, v4_total_len = 0, v4_id = 0, v4_flags_offset = 0, v4_ttl = 0, v4_protocol = 0,
      v4_hdr_checksum = 0, v4_src = 0, v4_dst = 0, v4_data = []\<rparr>"
  obtain p1 s1 where "v4s_setupHeader ?R 40 ?s ?p = (p1, s1)" by (cases "v4s_setupHeader ?R 40 ?s ?p")
  from ipv4_sender_accepted [OF this, of 60 "\<lparr>if_ipv4_addr = 0x0200000A, if_ipv4_subnetmask = 0x00FFFFFF, if_ipv4_up = True\<rparr>" 6 "\<lambda>_ _ _. None"]
  show ?thesis by auto
qed

end
