(* ===== verification/IPv4_Reassembly.thy ===== *)
theory IPv4_Reassembly
  imports IPv4_Layer
begin

text \<open>
  Reassembly of IPv4 fragments (\<^verbatim>\<open>ipv4/fragmentation/IPv4_Receive_Fragment_Reassembly.ah\<close>): one buffer for one packet, a
  bit for every eight bytes of it, and the time at which the fragments in it expire. The buffer is a list of bytes that
  is read as a packet through the layout of the header (\<open>v4_encode\<close>, \<open>v4_decode\<close>); an access behind the buffer or the
  bitmap is a fault.
\<close>

subsection \<open>The bytes of a packet\<close>

definition v4_encode :: "IPv4_Packet \<Rightarrow> u8 list" where
  "v4_encode p =
     [v4_ihl p OR push_bit 4 (v4_version p), v4_tos p] @ store16 (v4_total_len p) @ store16 (v4_id p) @
     store16 (v4_flags_offset p) @ [v4_ttl p, v4_protocol p] @ store16 (v4_hdr_checksum p) @
     store32 (v4_src p) @ store32 (v4_dst p) @ v4_data p"

fun v4_decode :: "u8 list \<Rightarrow> IPv4_Packet outcome" where
  "v4_decode (b0 # b1 # b2 # b3 # b4 # b5 # b6 # b7 # b8 # b9 # b10 # b11 # b12 # b13 # b14 # b15 # b16 # b17 # b18 # b19 # bs) =
     Inr \<lparr>v4_ihl = b0 AND 0xF, v4_version = drop_bit 4 b0, v4_tos = b1, v4_total_len = load16 b2 b3, v4_id = load16 b4 b5,
          v4_flags_offset = load16 b6 b7, v4_ttl = b8, v4_protocol = b9, v4_hdr_checksum = load16 b10 b11,
          v4_src = load32 b12 b13 b14 b15, v4_dst = load32 b16 b17 b18 b19, v4_data = bs\<rparr>"
| "v4_decode _ = Inl OutOfBounds"

subsection \<open>The aspect\<close>

definition TIMEOUT :: u32 where "TIMEOUT = 60"
definition REASSEMBLY_BUFFERSIZE :: nat where "REASSEMBLY_BUFFERSIZE = 768"

record reassembly =
  fr_expired_time :: u64
  fr_buffer :: "u8 list"
  fr_bitmap :: "u8 list"
  fr_header_len :: u8
  fr_total_len :: u16

function mark_blocks :: "nat \<Rightarrow> nat \<Rightarrow> u8 list \<Rightarrow> u8 list outcome" where
  "mark_blocks i e bitmap =
     (if i \<le> e
      then obind (peek bitmap (i div 64)) (\<lambda>b.
           obind (poke (i div 64) (b OR push_bit (i mod 64 div 8) 1) bitmap) (mark_blocks (i + 8) e))
      else Inr bitmap)"
  by pat_completeness auto
termination by (relation "measure (\<lambda>(i, e, _). e + 8 - i)") auto

definition update_bitmap :: "u32 \<Rightarrow> u32 \<Rightarrow> u8 list \<Rightarrow> u8 list outcome" where
  "update_bitmap start e bitmap = mark_blocks (unat (start AND 0xFFFFFFF8)) (unat e) bitmap"

function bytes_full :: "nat \<Rightarrow> nat \<Rightarrow> u8 list \<Rightarrow> bool outcome" where
  "bytes_full i n bitmap =
     (if i < n then obind (peek bitmap i) (\<lambda>b. if b \<noteq> 0xFF then Inr False else bytes_full (i + 1) n bitmap) else Inr True)"
  by pat_completeness auto
termination by (relation "measure (\<lambda>(i, n, _). n - i)") auto

function last_value :: "nat \<Rightarrow> nat \<Rightarrow> u8 \<Rightarrow> u8" where
  "last_value i len v = (if i \<le> len then last_value (i + 8) len (v OR push_bit (i mod 64 div 8) 1) else v)"
  by pat_completeness auto
termination by (relation "measure (\<lambda>(i, n, _). n + 8 - i)") auto

declare mark_blocks.simps [simp del] bytes_full.simps [simp del] last_value.simps [simp del]

text \<open>The number of bytes to compare is unsigned: for less than 64 bytes it is the largest number.\<close>

definition full_bitmap :: "u16 \<Rightarrow> u8 list \<Rightarrow> bool outcome" where
  "full_bitmap total_len bitmap =
     obind (bytes_full 0 (unat (of_nat (unat total_len div 64) - 1 :: u32)) bitmap) (\<lambda>full.
     if \<not> full then Inr False
     else let last_byte = unat ((ucast total_len :: u32) AND 0xFFFFFF40);
              value = last_value last_byte (unat total_len) 0
          in obind (peek bitmap (unat total_len div 64)) (\<lambda>b. Inr (b = value)))"

definition clear_bitmap :: "u8 list \<Rightarrow> u8 list" where "clear_bitmap bitmap = replicate (length bitmap) 0"

text \<open>What happens when the buffer is cold: it takes over the header of the fragment.\<close>

definition start_reassembly :: "IPv4_Packet \<Rightarrow> reassembly \<Rightarrow> reassembly outcome" where
  "start_reassembly packet st =
     (let header_len = v4_get_ihl packet * 4 in
      obind (peek_all (v4_encode packet) 0 (unat header_len)) (\<lambda>header.
      obind (poke_all 0 header (fr_buffer st)) (\<lambda>buffer.
      obind (update_bitmap 0 (ucast header_len) (clear_bitmap (fr_bitmap st))) (\<lambda>bitmap.
      Inr (st\<lparr>fr_total_len := 0, fr_header_len := header_len, fr_buffer := buffer, fr_bitmap := bitmap\<rparr>)))))"

definition belongs_to_buffer :: "IPv4_Packet \<Rightarrow> reassembly \<Rightarrow> bool outcome" where
  "belongs_to_buffer packet st =
     obind (v4_decode (fr_buffer st)) (\<lambda>header.
     Inr (v4_get_src_ipaddr header = v4_get_src_ipaddr packet \<and> v4_get_dst_ipaddr header = v4_get_dst_ipaddr packet \<and>
          v4_get_id header = v4_get_id packet))"

text \<open>The packet in the buffer, once it is complete.\<close>

definition finish_reassembly :: "reassembly \<Rightarrow> (IPv4_Packet \<times> u32) outcome" where
  "finish_reassembly st =
     obind (v4_decode (fr_buffer st)) (\<lambda>packet.
     let packet = v4_set_fragment_offset 0 packet;
         packet = v4_set_flags 0 packet;
         packet = v4_set_total_len (fr_total_len st) packet
     in Inr (packet, ucast (fr_total_len st)))"

text \<open>What happens when the fragment belongs to the buffer: its payload is copied.\<close>

definition copy_fragment ::
    "(u32 \<Rightarrow> u64) \<Rightarrow> u64 \<Rightarrow> IPv4_Packet \<Rightarrow> u16 \<Rightarrow> reassembly \<Rightarrow> ((IPv4_Packet \<times> u32) option \<times> reassembly) outcome" where
  "copy_fragment ms_to_ticks curr_time packet fragment_offset st =
     (let data_start = ucast (fr_header_len st) + ucast fragment_offset :: u32;
          data_len = ucast (v4_get_total_len packet) - ucast (fr_header_len st) :: u32;
          data_end = data_start + data_len
      in if unat data_end > REASSEMBLY_BUFFERSIZE then Inr (None, st\<lparr>fr_expired_time := 0\<rparr>)
      else obind (peek_all (v4_encode packet) (v4_get_data packet) (unat data_len)) (\<lambda>payload.
           obind (poke_all (unat data_start) payload (fr_buffer st)) (\<lambda>buffer.
           obind (update_bitmap data_start data_end (fr_bitmap st)) (\<lambda>bitmap.
           let st = st\<lparr>fr_buffer := buffer, fr_bitmap := bitmap\<rparr>;
               st = (if v4_get_flags packet \<noteq> IPV4_MF_FLAG then st\<lparr>fr_total_len := ucast data_end\<rparr> else st);
               waiting = Inr (None, st\<lparr>fr_expired_time := curr_time + ms_to_ticks (TIMEOUT * 1000)\<rparr>)
           in if fr_total_len st \<noteq> 0
              then obind (full_bitmap (fr_total_len st) (fr_bitmap st)) (\<lambda>full.
                   if full then obind (finish_reassembly st) (\<lambda>r. Inr (Some r, st\<lparr>fr_expired_time := 0\<rparr>)) else waiting)
              else waiting))))"

definition ipv4_reassemble ::
    "(u32 \<Rightarrow> u64) \<Rightarrow> u64 \<Rightarrow> IPv4_Packet \<Rightarrow> u16 \<Rightarrow> reassembly \<Rightarrow> ((IPv4_Packet \<times> u32) option \<times> reassembly) outcome" where
  "ipv4_reassemble ms_to_ticks curr_time packet fragment_offset st =
     (if curr_time < fr_expired_time st
      then obind (belongs_to_buffer packet st) (\<lambda>belongs.
           if belongs then copy_fragment ms_to_ticks curr_time packet fragment_offset st else Inr (None, st))
      else obind (start_reassembly packet st) (copy_fragment ms_to_ticks curr_time packet fragment_offset))"

subsection \<open>The bitmap\<close>

definition marked :: "u8 list \<Rightarrow> nat \<Rightarrow> bool" where
  "marked bitmap k = bit (bitmap ! (k div 8)) (k mod 8)"

lemma block_index: "8 * a div 64 = a div 8" "8 * a mod 64 div 8 = a mod (8 :: nat)"
  using mod_mult_mult1 [of 8 a 8] by simp_all

lemma marked_update:
  assumes "length bitmap = 12" and "a < 96"
  shows "marked (bitmap[a div 8 := bitmap ! (a div 8) OR push_bit (a mod 8) 1]) k = (marked bitmap k \<or> k = a)"
proof (cases "k div 8 = a div 8")
  case True
  have "a div 8 < length bitmap" using assms by simp
  moreover have "k = a" if "k mod 8 = a mod 8" using True that by (metis div_mult_mod_eq)
  ultimately show ?thesis using True by (auto simp: marked_def bit_simps)
next
  case False
  then show ?thesis by (auto simp: marked_def)
qed

lemma mark_blocks_exact:
  assumes "length bitmap = 12" and "e < 768"
  shows "\<exists>bitmap'. mark_blocks (8 * a) e bitmap = Inr bitmap' \<and> length bitmap' = 12 \<and>
    (\<forall>k. marked bitmap' k = (marked bitmap k \<or> a \<le> k \<and> k \<le> e div 8))"
  using assms
proof (induction "e + 8 - 8 * a" arbitrary: a bitmap rule: less_induct)
  case less
  show ?case
  proof (cases "8 * a \<le> e")
    case False
    then have "\<not> (a \<le> k \<and> k \<le> e div 8)" for k by auto
    then show ?thesis using False less.prems by (auto simp: mark_blocks.simps)
  next
    case True
    then have a: "a < 96" "a div 8 < 12" using less.prems by simp_all
    define b where "b = bitmap[a div 8 := bitmap ! (a div 8) OR push_bit (a mod 8) 1]"
    have step: "mark_blocks (8 * a) e bitmap = mark_blocks (8 * Suc a) e b"
      using True a less.prems(1) by (subst mark_blocks.simps) (simp add: block_index peek_def poke_def b_def add.commute)
    have "e + 8 - 8 * Suc a < e + 8 - 8 * a" "length b = 12" using True less.prems(1) by (simp_all add: b_def)
    then obtain bitmap' where *: "mark_blocks (8 * Suc a) e b = Inr bitmap'" "length bitmap' = 12"
        "\<And>k. marked bitmap' k = (marked b k \<or> Suc a \<le> k \<and> k \<le> e div 8)"
      using less.hyps [of "Suc a" b] less.prems(2) by blast
    have "marked bitmap' k = (marked bitmap k \<or> a \<le> k \<and> k \<le> e div 8)" for k
    proof -
      have "marked b k = (marked bitmap k \<or> k = a)" unfolding b_def by (rule marked_update [OF less.prems(1) a(1)])
      moreover have "a \<le> e div 8" using True by simp
      ultimately show ?thesis using *(3) [of k] by auto
    qed
    then show ?thesis using * step by simp
  qed
qed

lemma mark_blocks_fault:
  assumes "length bitmap = 12" and "768 \<le> e" and "a \<le> 96"
  shows "mark_blocks (8 * a) e bitmap = Inl OutOfBounds"
  using assms
proof (induction "96 - a" arbitrary: a bitmap)
  case 0
  then have "a = 96" by simp
  then show ?case using 0 by (subst mark_blocks.simps) (simp add: peek_def)
next
  case (Suc n)
  have "mark_blocks (8 * a + 8) e (bitmap[a div 8 := x]) = Inl OutOfBounds" for x
    using Suc Suc.hyps(1) [of "Suc a" "bitmap[a div 8 := x]"] by (simp add: add.commute)
  then show ?case using Suc.prems Suc.hyps(2) by (subst mark_blocks.simps) (simp add: peek_def poke_def block_index)
qed

lemma byte_full: "(b :: u8) = 0xFF \<longleftrightarrow> (\<forall>j<8. bit b j)"
proof -
  have "(0xFF :: u8) = mask 8" by (simp add: mask_eq_exp_minus_1)
  then show ?thesis by (simp only: bit_eq_iff) (auto simp: bit_mask_iff)
qed

lemma bytes_full_exact: "n \<le> length bitmap \<Longrightarrow> bytes_full i n bitmap = Inr (\<forall>j. i \<le> j \<and> j < n \<longrightarrow> bitmap ! j = 0xFF)"
proof (induction "n - i" arbitrary: i)
  case 0
  then show ?case by (auto simp: bytes_full.simps)
next
  case (Suc m)
  then have i: "i < n" "i < length bitmap" and "bytes_full (Suc i) n bitmap = Inr (\<forall>j. Suc i \<le> j \<and> j < n \<longrightarrow> bitmap ! j = 0xFF)" by auto
  moreover have "(\<forall>j. i \<le> j \<and> j < n \<longrightarrow> bitmap ! j = 0xFF) = (bitmap ! i = 0xFF \<and> (\<forall>j. Suc i \<le> j \<and> j < n \<longrightarrow> bitmap ! j = 0xFF))"
    using i(1) by (metis Suc_leD Suc_leI le_neq_implies_less le_refl)
  ultimately show ?case by (subst bytes_full.simps) (auto simp: peek_def)
qed

lemma bytes_full_stops: "bitmap ! j \<noteq> 0xFF \<Longrightarrow> i \<le> j \<Longrightarrow> j < n \<Longrightarrow> j < length bitmap \<Longrightarrow> bytes_full i n bitmap = Inr False"
proof (induction "j - i" arbitrary: i)
  case 0
  then show ?case by (subst bytes_full.simps) (simp add: peek_def)
next
  case (Suc m)
  then have "bytes_full (Suc i) n bitmap = Inr False" by auto
  then show ?case using Suc.prems Suc.hyps(2) by (subst bytes_full.simps) (auto simp: peek_def)
qed

lemma exists_from: "(\<exists>k\<ge>a. P k) = (P a \<or> (\<exists>k\<ge>Suc a. P k))"
  by (metis Suc_leD not_less_eq_eq order_antisym_conv order_refl)

lemma bit_last_value: "j < 8 \<Longrightarrow> bit (last_value (8 * a) len v) j = (bit v j \<or> (\<exists>k\<ge>a. 8 * k \<le> len \<and> k mod 8 = j))"
proof (induction "len + 8 - 8 * a" arbitrary: a v rule: less_induct)
  case less
  show ?case
  proof (cases "8 * a \<le> len")
    case False
    then have "\<not> (\<exists>k\<ge>a. 8 * k \<le> len \<and> k mod 8 = j)" by auto
    then show ?thesis using False by (auto simp: last_value.simps)
  next
    case True
    have "bit (last_value (8 * a) len v) j = bit (last_value (8 * Suc a) len (v OR push_bit (a mod 8) 1)) j"
      using True by (subst last_value.simps) (simp add: block_index add.commute)
    also have "\<dots> = (bit (v OR push_bit (a mod 8) 1) j \<or> (\<exists>k\<ge>Suc a. 8 * k \<le> len \<and> k mod 8 = j))"
      using True less.prems by (intro less.hyps) auto
    also have "bit (v OR push_bit (a mod 8) 1) j = (bit v j \<or> j = a mod 8)" using less.prems by (auto simp: bit_simps)
    finally show ?thesis using True exists_from [of a "\<lambda>k. 8 * k \<le> len \<and> k mod 8 = j"] by auto
  qed
qed

lemma last_byte:
  "unat ((ucast (t :: u16) :: u32) AND 0xFFFFFF40) = 64 * (unat t div 64 - (if bit t 7 then 2 else 0))"
proof -
  define q where "q = drop_bit 6 (ucast t :: u32)"
  have c: "(0xFFFFFF40 :: u32) = push_bit 8 (mask 24) OR push_bit 6 1" by (simp add: mask_eq_exp_minus_1 push_bit_eq_mult)
  have "(ucast t :: u32) AND (push_bit 8 (mask 24) OR push_bit 6 1) = push_bit 6 (unset_bit 1 q)"
    unfolding q_def by (intro bit_word_eqI) (simp only: bit_simps, auto simp: bit_simps)
  then have "(ucast t :: u32) AND 0xFFFFFF40 = push_bit 6 (unset_bit 1 q)" by (simp only: c)
  moreover have "unset_bit 1 q = q - of_bool (bit t 7) * 2" by (simp add: unset_bit_eq q_def bit_simps)
  moreover have q: "unat q = unat t div 64" by (simp add: q_def unat_drop_bit_word)
  moreover have "2 \<le> unat q" if "bit t 7"
  proof -
    have "bit (unat q) 1" using that by (simp add: q_def bit_simps)
    then show ?thesis by (auto simp: bit_iff_odd intro: ccontr)
  qed
  then have "unat (q - of_bool (bit t 7) * 2) = unat q - (if bit t 7 then 2 else 0)"
    by (simp add: unat_sub word_le_nat_alt)
  moreover have "unat (push_bit 6 w) = 64 * unat w" if "unat w < 1024" for w :: u32
    using that by (simp add: push_bit_eq_mult unat_word_ariths)
  moreover have "unat q < 1024" using q less_mult_imp_div_less [of "unat t" 1024 64] unsigned_less [of t] by simp
  ultimately show ?thesis by simp
qed

lemma bytes_marked: "(\<forall>j<n. bitmap ! j = 0xFF) \<longleftrightarrow> (\<forall>k<8 * n. marked bitmap k)"
proof
  assume l: "\<forall>j<n. bitmap ! j = 0xFF"
  show "\<forall>k<8 * n. marked bitmap k"
  proof (intro allI impI)
    fix k assume "k < 8 * n"
    then have "bitmap ! (k div 8) = 0xFF" using l by (simp add: less_mult_imp_div_less)
    then show "marked bitmap k" unfolding marked_def byte_full by simp
  qed
next
  assume r: "\<forall>k<8 * n. marked bitmap k"
  show "\<forall>j<n. bitmap ! j = 0xFF"
  proof (intro allI impI)
    fix j assume "j < n"
    then have "marked bitmap (8 * j + i)" if "i < 8" for i using r that by simp
    then show "bitmap ! j = 0xFF" unfolding byte_full by (simp add: marked_def)
  qed
qed

lemma byte_eq_iff: "(b :: u8) = c \<longleftrightarrow> (\<forall>j<8. bit b j = bit c j)"
  by (auto intro: bit_word_eqI)

definition last_group_full :: "u16 \<Rightarrow> u8 list \<Rightarrow> bool" where
  "last_group_full t bitmap \<longleftrightarrow>
     (\<forall>j<8. marked bitmap (8 * (unat t div 64) + j) = (bit t 7 \<or> j \<le> unat t mod 64 div 8))"

lemma last_value_exact:
  assumes "64 \<le> unat (t :: u16)" and "j < 8"
  shows "bit (last_value (unat ((ucast t :: u32) AND 0xFFFFFF40)) (unat t) 0) j = (bit t 7 \<or> j \<le> unat t mod 64 div 8)"
proof -
  define q where "q = unat t div 64"
  define a where "a = 8 * (q - (if bit t 7 then 2 else 0))"
  have q: "unat t = 64 * q + unat t mod 64" by (simp add: q_def)
  have "unat ((ucast t :: u32) AND 0xFFFFFF40) = 8 * a" using last_byte [of t] by (simp add: a_def q_def)
  then have *: "bit (last_value (unat ((ucast t :: u32) AND 0xFFFFFF40)) (unat t) 0) j = (\<exists>k\<ge>a. 8 * k \<le> unat t \<and> k mod 8 = j)"
    using bit_last_value [OF assms(2), of a "unat t" 0] by simp
  show ?thesis
  proof (cases "bit t 7")
    case True
    then have "bit (drop_bit 6 (unat t)) 1" by (simp add: bit_simps)
    then have "bit q 1" by (simp add: q_def drop_bit_eq_div)
    then have "2 \<le> q" by (auto simp: bit_iff_odd intro: ccontr)
    then have "a \<le> 8 * (q - 1) + j" "8 * (8 * (q - 1) + j) \<le> unat t" "(8 * (q - 1) + j) mod 8 = j"
      using q assms(2) True by (simp_all add: a_def)
    then show ?thesis using * True by blast
  next
    case False
    have "(\<exists>k\<ge>8 * q. 8 * k \<le> unat t \<and> k mod 8 = j) = (8 * (8 * q + j) \<le> unat t)"
    proof
      assume "\<exists>k\<ge>8 * q. 8 * k \<le> unat t \<and> k mod 8 = j"
      then obtain k where k: "8 * q \<le> k" "8 * k \<le> unat t" "k mod 8 = j" by auto
      then have "8 * q + j \<le> k" by presburger
      then show "8 * (8 * q + j) \<le> unat t" using k by simp
    next
      assume "8 * (8 * q + j) \<le> unat t"
      then show "\<exists>k\<ge>8 * q. 8 * k \<le> unat t \<and> k mod 8 = j" using assms(2) by (intro exI [of _ "8 * q + j"]) simp
    qed
    also have "\<dots> = (8 * j \<le> unat t mod 64)"
    proof -
      obtain r where "unat t mod 64 = r" "unat t = 64 * q + r" using q by simp
      then show ?thesis by simp
    qed
    also have "\<dots> = (j \<le> unat t mod 64 div 8)" by (simp add: less_eq_div_iff_mult_less_eq mult.commute)
    finally show ?thesis using * False by (simp add: a_def)
  qed
qed

lemma full_bitmap_exact:
  assumes "length bitmap = 12" and "64 \<le> unat t" and "unat t < 768"
  shows "full_bitmap t bitmap = Inr ((\<forall>k<8 * (unat t div 64 - 1). marked bitmap k) \<and> last_group_full t bitmap)"
proof -
  define q where "q = unat t div 64"
  have q: "1 \<le> q" "q < 12" using assms(2,3) by (simp_all add: q_def)
  have "unat (of_nat q - 1 :: u32) = q - 1" using q by (simp add: unat_sub word_le_nat_alt unat_of_nat_u32)
  moreover have "bytes_full 0 (q - 1) bitmap = Inr (\<forall>k<8 * (q - 1). marked bitmap k)"
    using q assms(1) bytes_marked [of "q - 1" bitmap] by (subst bytes_full_exact) simp_all
  moreover have "(bitmap ! q = last_value (unat ((ucast t :: u32) AND 0xFFFFFF40)) (unat t) 0) = last_group_full t bitmap"
    unfolding byte_eq_iff [of "bitmap ! q"] using last_value_exact [OF assms(2)] by (simp add: last_group_full_def marked_def q_def)
  ultimately show ?thesis using q assms(1)
    unfolding full_bitmap_def Let_def q_def [symmetric] by (auto simp: peek_def)
qed

text \<open>Below 64 bytes the loop over the whole bytes does not stop before one that is not full.\<close>

lemma full_bitmap_short:
  assumes "length bitmap = 12" and "unat t < 64" and "\<not> marked bitmap 8"
  shows "full_bitmap t bitmap = Inr False"
proof -
  have "bitmap ! 1 \<noteq> 0xFF" using assms(3) by (auto simp: marked_def byte_full intro: exI [of _ 0])
  then have "bytes_full 0 (unat (- 1 :: u32)) bitmap = Inr False" using assms(1) by (intro bytes_full_stops [of _ 1]) (auto simp: unsigned_minus_1_eq_mask mask_eq_exp_minus_1)
  then show ?thesis using assms(2) by (simp add: full_bitmap_def)
qed

subsection \<open>Reading the header of the buffer\<close>

lemma v4_decode_any:
  assumes "20 \<le> length b"
  shows "\<exists>p. v4_decode b = Inr p \<and> v4_data p = drop 20 b"
proof -
  obtain h t where b: "b = h @ t" "length h = 20" using assms by (metis append_take_drop_id length_take min.absorb2)
  then show ?thesis by (auto simp: numeral_eq_Suc length_Suc_conv)
qed

lemma v4_decode_header:
  assumes "v4_decode b = Inr q" and "take 20 b = take 20 (v4_encode p)"
  shows "v4_src q = v4_src p" "v4_dst q = v4_dst p" "v4_id q = v4_id p" "v4_protocol q = v4_protocol p"
proof -
  have "v4_encode p = take 20 (v4_encode p) @ v4_data p" by (simp add: v4_encode_def store16_def store32_def)
  have l: "length (take 20 (v4_encode p)) = 20" by (simp add: v4_encode_def store16_def store32_def)
  have "b = take 20 (v4_encode p) @ drop 20 b" using assms(2) by (metis append_take_drop_id)
  then obtain d where "b = take 20 (v4_encode p) @ d" by blast
  then have "b = [v4_ihl p OR push_bit 4 (v4_version p), v4_tos p] @ store16 (v4_total_len p) @ store16 (v4_id p) @
     store16 (v4_flags_offset p) @ [v4_ttl p, v4_protocol p] @ store16 (v4_hdr_checksum p) @
     store32 (v4_src p) @ store32 (v4_dst p) @ d" by (simp add: v4_encode_def store16_def store32_def)
  then have "b = (v4_ihl p OR push_bit 4 (v4_version p)) # v4_tos p # ucast (v4_total_len p) # ucast (drop_bit 8 (v4_total_len p)) #
      ucast (v4_id p) # ucast (drop_bit 8 (v4_id p)) # ucast (v4_flags_offset p) # ucast (drop_bit 8 (v4_flags_offset p)) #
      v4_ttl p # v4_protocol p # ucast (v4_hdr_checksum p) # ucast (drop_bit 8 (v4_hdr_checksum p)) #
      ucast (v4_src p) # ucast (drop_bit 8 (v4_src p)) # ucast (drop_bit 16 (v4_src p)) # ucast (drop_bit 24 (v4_src p)) #
      ucast (v4_dst p) # ucast (drop_bit 8 (v4_dst p)) # ucast (drop_bit 16 (v4_dst p)) # ucast (drop_bit 24 (v4_dst p)) # d"
    by (simp add: store16_def store32_def)
  then show "v4_src q = v4_src p" "v4_dst q = v4_dst p" "v4_id q = v4_id p" "v4_protocol q = v4_protocol p"
    using assms(1) by (simp_all only: v4_decode.simps) (auto simp: load16_store16 load32_store32)
qed

subsection \<open>Writing and reading stretches of the buffer\<close>

lemma poke_all_nth:
  assumes "s + length cs \<le> length b"
  shows "\<exists>b'. poke_all s cs b = Inr b' \<and> length b' = length b \<and>
    (\<forall>i<length b. b' ! i = (if s \<le> i \<and> i < s + length cs then cs ! (i - s) else b ! i))"
proof -
  have b: "b = take s b @ drop s b" and s: "length (take s b) = s" using assms by simp_all
  have "poke_all s cs b = Inr (take s b @ cs @ drop (length cs) (drop s b))"
    using poke_all_append [of cs "drop s b" "take s b"] assms s b by simp
  moreover have "(take s b @ cs @ drop (length cs) (drop s b)) ! i = (if s \<le> i \<and> i < s + length cs then cs ! (i - s) else b ! i)"
    if "i < length b" for i
    using that assms by (auto simp: nth_append add.commute)
  ultimately show ?thesis using assms by simp
qed

lemma peek_all_ok: "p + n \<le> length s \<Longrightarrow> peek_all s p n = Inr (take n (drop p s))"
  by (simp add: peek_all_def)

lemma block_start: "unat (s AND 0xFFFFFFF8 :: u32) = 8 * (unat s div 8)"
proof -
  have "(0xFFFFFFF8 :: u32) = NOT (mask 3)" by (simp add: mask_eq_exp_minus_1)
  then have "s AND 0xFFFFFFF8 = push_bit 3 (drop_bit 3 s)"
    by (auto intro!: bit_word_eqI simp only: bit_simps) (auto simp: bit_simps)
  moreover have "unat (push_bit 3 (drop_bit 3 s)) = 8 * (unat s div 8) mod 2 ^ 32"
    by (simp add: push_bit_eq_mult unat_word_ariths unat_drop_bit_word mult.commute)
  moreover have "8 * (unat s div 8) < 2 ^ 32"
    by (rule le_less_trans [of _ "unat s"]) simp_all
  ultimately show ?thesis by simp
qed

lemma update_bitmap_exact:
  assumes "length bitmap = 12" and "unat e < 768"
  shows "\<exists>bitmap'. update_bitmap s e bitmap = Inr bitmap' \<and> length bitmap' = 12 \<and>
    (\<forall>k. marked bitmap' k = (marked bitmap k \<or> unat s div 8 \<le> k \<and> k \<le> unat e div 8))"
  unfolding update_bitmap_def block_start using mark_blocks_exact [OF assms] by presburger

subsection \<open>Fragments of one datagram\<close>

text \<open>A datagram: what its fragments agree in, the length of its header, and its payload.\<close>

record datagram =
  dg_src :: u32
  dg_dst :: u32
  dg_id :: u16
  dg_header :: nat
  dg_payload :: "u8 list"

definition dg_length :: "datagram \<Rightarrow> nat" where "dg_length d = dg_header d + length (dg_payload d)"

definition frag_len :: "datagram \<Rightarrow> IPv4_Packet \<Rightarrow> nat" where
  "frag_len d p = unat (v4_get_total_len p) - dg_header d"

definition fragment_of :: "datagram \<Rightarrow> IPv4_Packet \<Rightarrow> u16 \<Rightarrow> bool" where
  "fragment_of d p fo \<longleftrightarrow>
     v4_src p = dg_src d \<and> v4_dst p = dg_dst d \<and> v4_id p = dg_id d \<and>
     v4_ihl p \<le> 15 \<and> 4 * unat (v4_ihl p) = dg_header d \<and> 20 \<le> dg_header d \<and>
     dg_header d \<le> unat (v4_get_total_len p) \<and> unat (v4_get_total_len p) \<le> length (v4_encode p) \<and>
     unat fo + frag_len d p \<le> length (dg_payload d) \<and>
     take (frag_len d p) (drop (dg_header d) (v4_encode p)) = take (frag_len d p) (drop (unat fo) (dg_payload d)) \<and>
     (v4_get_flags p \<noteq> IPV4_MF_FLAG \<longleftrightarrow> unat fo + frag_len d p = length (dg_payload d))"

definition piece :: "datagram \<Rightarrow> IPv4_Packet \<Rightarrow> u16 \<Rightarrow> nat \<times> nat" where
  "piece d p fo = (dg_header d + unat fo, dg_header d + unat fo + frag_len d p)"

definition received :: "(nat \<times> nat) list \<Rightarrow> nat \<Rightarrow> bool" where
  "received ps i \<longleftrightarrow> (\<exists>(s, e)\<in>set ps. s \<le> i \<and> i < e)"

definition touched :: "datagram \<Rightarrow> (nat \<times> nat) list \<Rightarrow> nat \<Rightarrow> bool" where
  "touched d ps k \<longleftrightarrow> k \<le> dg_header d div 8 \<or> (\<exists>(s, e)\<in>set ps. s div 8 \<le> k \<and> k \<le> e div 8)"

definition holding :: "datagram \<Rightarrow> u8 list \<Rightarrow> (nat \<times> nat) list \<Rightarrow> reassembly \<Rightarrow> bool" where
  "holding d b0 ps st \<longleftrightarrow>
     length (fr_buffer st) = 768 \<and> length (fr_bitmap st) = 12 \<and> unat (fr_header_len st) = dg_header d \<and>
     (\<exists>p. take 20 (fr_buffer st) = take 20 (v4_encode p) \<and> v4_src p = dg_src d \<and> v4_dst p = dg_dst d \<and> v4_id p = dg_id d) \<and>
     (\<forall>i<length (dg_payload d). fr_buffer st ! (dg_header d + i) =
        (if received ps (dg_header d + i) then dg_payload d ! i else b0 ! (dg_header d + i))) \<and>
     (\<forall>k<96. marked (fr_bitmap st) k = touched d ps k) \<and>
     unat (fr_total_len st) = (if \<exists>s. (s, dg_length d) \<in> set ps then dg_length d else 0)"

definition complete :: "datagram \<Rightarrow> (nat \<times> nat) list \<Rightarrow> bool" where
  "complete d ps \<longleftrightarrow>
     (\<exists>s. (s, dg_length d) \<in> set ps) \<and> 64 \<le> dg_length d \<and> (\<forall>k<8 * (dg_length d div 64 - 1). touched d ps k) \<and>
     (\<forall>j<8. touched d ps (8 * (dg_length d div 64) + j) = (odd (dg_length d div 128) \<or> j \<le> dg_length d mod 64 div 8))"

definition delivered :: "datagram \<Rightarrow> u8 list \<Rightarrow> (nat \<times> nat) list \<Rightarrow> IPv4_Packet \<times> u32 \<Rightarrow> bool" where
  "delivered d b0 ps r \<longleftrightarrow> (case r of (p, len) \<Rightarrow>
     unat len = dg_length d \<and> unat (v4_get_total_len p) = dg_length d \<and> v4_get_flags p = 0 \<and> v4_get_fragment_offset p = 0 \<and>
     v4_src p = dg_src d \<and> v4_dst p = dg_dst d \<and> v4_id p = dg_id d \<and> length (v4_data p) = 748 \<and>
     (\<forall>i<length (dg_payload d). v4_data p ! (dg_header d - 20 + i) =
        (if received ps (dg_header d + i) then dg_payload d ! i else b0 ! (dg_header d + i))))"

lemma unat_header: "x \<le> 15 \<Longrightarrow> unat ((x :: u8) * 4) = 4 * unat x"
proof -
  assume "x \<le> 15"
  then have "unat x \<le> 15" by (simp add: word_le_nat_alt)
  then show ?thesis by (simp add: unat_word_ariths)
qed

lemma marked_clear: "k < 96 \<Longrightarrow> \<not> marked (replicate 12 0) k"
  by (simp add: marked_def less_mult_imp_div_less)

lemma start_holding:
  assumes "fragment_of d p fo" and "length (fr_buffer st) = 768" and "length (fr_bitmap st) = 12" and "dg_length d < 768"
  shows "\<exists>st'. start_reassembly p st = Inr st' \<and> holding d (fr_buffer st) [] st'"
proof -
  define h where "h = take (dg_header d) (v4_encode p)"
  have f: "unat (v4_ihl p * 4) = dg_header d" "20 \<le> dg_header d" "dg_header d \<le> length (v4_encode p)" "dg_header d \<le> 60"
    using assms(1) unat_header [of "v4_ihl p"] by (auto simp: fragment_of_def word_le_nat_alt)
  then have lh: "length h = dg_header d" by (simp add: h_def)
  have read: "peek_all (v4_encode p) 0 (dg_header d) = Inr h" using f(3) by (simp add: peek_all_def h_def)
  obtain b where b: "poke_all 0 h (fr_buffer st) = Inr b" "length b = 768"
      "\<And>i. i < 768 \<Longrightarrow> b ! i = (if i < dg_header d then h ! i else fr_buffer st ! i)"
    using poke_all_nth [of 0 h "fr_buffer st"] assms(2) f lh by auto
  obtain m where m: "update_bitmap 0 (ucast (v4_ihl p * 4)) (replicate 12 0) = Inr m" "length m = 12"
      "\<And>k. marked m k = (marked (replicate 12 0) k \<or> k \<le> dg_header d div 8)"
    using update_bitmap_exact [of "replicate 12 0" "ucast (v4_ihl p * 4)" 0] f by auto
  define st' where "st' = st\<lparr>fr_total_len := 0, fr_header_len := v4_ihl p * 4, fr_buffer := b, fr_bitmap := m\<rparr>"
  have "start_reassembly p st = Inr st'"
    using f(1) read b(1) m(1) assms(3) by (simp add: start_reassembly_def v4_get_ihl_def clear_bitmap_def st'_def)
  moreover have "take 20 b = take 20 (v4_encode p)"
    using b(2,3) f(2,3) lh by (intro nth_equalityI) (auto simp: h_def)
  moreover have "v4_src p = dg_src d" "v4_dst p = dg_dst d" "v4_id p = dg_id d" using assms(1) by (simp_all add: fragment_of_def)
  ultimately show ?thesis using assms(4) f b(2,3) m(2,3) marked_clear
    by (auto simp: holding_def st'_def touched_def received_def dg_length_def)
qed

lemma belongs:
  assumes "holding d b0 ps st" and "v4_src p = dg_src d" and "v4_dst p = dg_dst d" and "v4_id p = dg_id d"
  shows "belongs_to_buffer p st = Inr True"
proof -
  obtain q where q: "v4_decode (fr_buffer st) = Inr q" using v4_decode_any [of "fr_buffer st"] assms(1) by (auto simp: holding_def)
  obtain p0 where "take 20 (fr_buffer st) = take 20 (v4_encode p0)" "v4_src p0 = dg_src d" "v4_dst p0 = dg_dst d" "v4_id p0 = dg_id d"
    using assms(1) by (auto simp: holding_def)
  then show ?thesis using v4_decode_header [OF q, of p0] assms(2-4) q
    by (simp add: belongs_to_buffer_def v4_get_src_ipaddr_def v4_get_dst_ipaddr_def v4_get_id_def)
qed

lemma finish_delivered:
  assumes "holding d b0 ps st" and "unat (fr_total_len st) = dg_length d" and "20 \<le> dg_header d" and "dg_length d < 768"
  shows "\<exists>r. finish_reassembly st = Inr r \<and> delivered d b0 ps r"
proof -
  obtain q where q: "v4_decode (fr_buffer st) = Inr q" "v4_data q = drop 20 (fr_buffer st)"
    using v4_decode_any [of "fr_buffer st"] assms(1) by (auto simp: holding_def)
  obtain p0 where "take 20 (fr_buffer st) = take 20 (v4_encode p0)" "v4_src p0 = dg_src d" "v4_dst p0 = dg_dst d" "v4_id p0 = dg_id d"
    using assms(1) by (auto simp: holding_def)
  then have f: "v4_src q = dg_src d" "v4_dst q = dg_dst d" "v4_id q = dg_id d" using v4_decode_header [OF q(1), of p0] by simp_all
  define p where "p = v4_set_total_len (fr_total_len st) (v4_set_flags 0 (v4_set_fragment_offset 0 q))"
  have "length (v4_data p) = 748"
    using assms(1) q(2) by (simp add: p_def v4_set_total_len_def v4_set_flags_def v4_set_fragment_offset_def holding_def)
  moreover have "v4_data p ! (dg_header d - 20 + i) = fr_buffer st ! (dg_header d + i)" if "i < length (dg_payload d)" for i
    using that assms(1,3,4) q(2) by (simp add: p_def v4_set_total_len_def v4_set_flags_def v4_set_fragment_offset_def holding_def dg_length_def)
  moreover have "v4_get_flags p = 0" "v4_get_fragment_offset p = 0" "v4_get_total_len p = fr_total_len st"
  proof -
    have "v4_get_flags (v4_set_total_len l x) = v4_get_flags x" "v4_get_fragment_offset (v4_set_total_len l x) = v4_get_fragment_offset x" for l x
      by (simp_all add: v4_get_flags_def v4_get_fragment_offset_def v4_set_total_len_def)
    then show "v4_get_flags p = 0" "v4_get_fragment_offset p = 0" by (simp_all add: p_def flags_and_offset)
    show "v4_get_total_len p = fr_total_len st" by (simp add: p_def v4_get_total_len_def v4_set_total_len_def htons_involution ntohs_def)
  qed
  moreover have "finish_reassembly st = Inr (p, ucast (fr_total_len st))" using q(1) by (simp add: finish_reassembly_def p_def)
  moreover have "v4_src p = dg_src d \<and> v4_dst p = dg_dst d \<and> v4_id p = dg_id d"
    using f by (simp add: p_def v4_set_total_len_def v4_set_flags_def v4_set_fragment_offset_def)
  ultimately show ?thesis using assms(1,2) by (simp add: delivered_def holding_def)
qed

lemma received_snoc: "received (ps @ [(s, e)]) i = (received ps i \<or> s \<le> i \<and> i < e)"
  by (auto simp: received_def)

lemma touched_snoc: "touched d (ps @ [(s, e)]) k = (touched d ps k \<or> s div 8 \<le> k \<and> k \<le> e div 8)"
  by (auto simp: touched_def)

text \<open>The state after the payload of a fragment is in the buffer.\<close>

definition with_fragment :: "u32 \<Rightarrow> IPv4_Packet \<Rightarrow> u8 list \<Rightarrow> u8 list \<Rightarrow> reassembly \<Rightarrow> reassembly" where
  "with_fragment data_end p buffer bitmap st =
     (let st = st\<lparr>fr_buffer := buffer, fr_bitmap := bitmap\<rparr>
      in if v4_get_flags p \<noteq> IPV4_MF_FLAG then st\<lparr>fr_total_len := ucast data_end\<rparr> else st)"

lemma fragment_positions:
  assumes "unat hl = dg_header d" and "dg_header d \<le> unat (v4_get_total_len p)" and "dg_header d + unat fo + frag_len d p \<le> 768"
  shows "unat (ucast (hl :: u8) + ucast (fo :: u16) :: u32) = dg_header d + unat fo"
    and "unat (ucast (v4_get_total_len p) - ucast hl :: u32) = frag_len d p"
    and "unat (ucast hl + ucast fo + (ucast (v4_get_total_len p) - ucast hl) :: u32) = dg_header d + unat fo + frag_len d p"
proof -
  show 1: "unat (ucast hl + ucast fo :: u32) = dg_header d + unat fo"
    using assms(1,3) by (subst unat_add_u32) simp_all
  show 2: "unat (ucast (v4_get_total_len p) - ucast hl :: u32) = frag_len d p"
    using assms(1,2) by (subst unat_sub) (simp_all add: frag_len_def word_le_nat_alt)
  show "unat (ucast hl + ucast fo + (ucast (v4_get_total_len p) - ucast hl) :: u32) = dg_header d + unat fo + frag_len d p"
    using assms(3) by (subst unat_add_u32) (simp_all add: 1 2)
qed

lemma fragment_within:
  assumes "fragment_of d p fo" and "dg_length d < 768"
  shows "dg_header d \<le> unat (v4_get_total_len p)" and "dg_header d + unat fo + frag_len d p \<le> 768"
  using assms by (auto simp: fragment_of_def dg_length_def)

lemma copy_writes:
  assumes "holding d b0 ps st" and "fragment_of d p fo" and "dg_length d < 768"
  shows "\<exists>b m. peek_all (v4_encode p) (v4_get_data p) (frag_len d p) = Inr (take (frag_len d p) (drop (unat fo) (dg_payload d))) \<and>
    poke_all (dg_header d + unat fo) (take (frag_len d p) (drop (unat fo) (dg_payload d))) (fr_buffer st) = Inr b \<and>
    update_bitmap (ucast (fr_header_len st) + ucast fo) (ucast (fr_header_len st) + ucast fo + (ucast (v4_get_total_len p) - ucast (fr_header_len st))) (fr_bitmap st) = Inr m \<and>
    holding d b0 (ps @ [piece d p fo]) (with_fragment (ucast (fr_header_len st) + ucast fo + (ucast (v4_get_total_len p) - ucast (fr_header_len st))) p b m st)"
proof -
  define n where "n = frag_len d p"
  define cs where "cs = take n (drop (unat fo) (dg_payload d))"
  define e where "e = (ucast (fr_header_len st) + ucast fo + (ucast (v4_get_total_len p) - ucast (fr_header_len st)) :: u32)"
  have h: "unat (fr_header_len st) = dg_header d" "length (fr_buffer st) = 768" "length (fr_bitmap st) = 12"
    using assms(1) by (simp_all add: holding_def)
  have f: "unat fo + n \<le> length (dg_payload d)" "v4_get_data p = dg_header d" "dg_header d + n \<le> length (v4_encode p)"
      "cs = take n (drop (dg_header d) (v4_encode p))" "20 \<le> dg_header d"
      "v4_get_flags p \<noteq> IPV4_MF_FLAG \<longleftrightarrow> unat fo + n = length (dg_payload d)"
    using assms(2) by (auto simp: fragment_of_def cs_def n_def v4_get_data_def v4_get_ihl_def frag_len_def)
  note pos = fragment_positions [OF h(1) fragment_within [OF assms(2,3)], folded e_def n_def]
  have read: "peek_all (v4_encode p) (v4_get_data p) n = Inr cs" using f(2,3,4) by (simp add: peek_all_def)
  have lcs: "length cs = n" using f(1) by (simp add: cs_def)
  obtain b where b: "poke_all (dg_header d + unat fo) cs (fr_buffer st) = Inr b" "length b = 768"
      "\<And>i. i < 768 \<Longrightarrow> b ! i = (if dg_header d + unat fo \<le> i \<and> i < dg_header d + unat fo + n then cs ! (i - (dg_header d + unat fo)) else fr_buffer st ! i)"
    using poke_all_nth [of "dg_header d + unat fo" cs "fr_buffer st"] f(1) lcs h(2) assms(3) by (auto simp: dg_length_def)
  have "unat e < 768" using pos(3) f(1) assms(3) by (simp add: dg_length_def)
  then obtain m where m: "update_bitmap (ucast (fr_header_len st) + ucast fo) e (fr_bitmap st) = Inr m" "length m = 12"
      "\<And>k. marked m k = (marked (fr_bitmap st) k \<or> (dg_header d + unat fo) div 8 \<le> k \<and> k \<le> (dg_header d + unat fo + n) div 8)"
    using update_bitmap_exact [OF h(3), of e "ucast (fr_header_len st) + ucast fo"] pos by auto
  have "take 20 b = take 20 (fr_buffer st)" using b(2,3) h(2) f(5) by (intro nth_equalityI) auto
  moreover have "b ! (dg_header d + i) = (if received (ps @ [piece d p fo]) (dg_header d + i) then dg_payload d ! i else b0 ! (dg_header d + i))"
    if "i < length (dg_payload d)" for i
    using that assms(1,3) b(3) [of "dg_header d + i"] f(1)
    by (auto simp: piece_def received_snoc holding_def n_def [symmetric] dg_length_def cs_def)
  moreover have "unat (fr_total_len (with_fragment e p b m st)) = (if \<exists>s. (s, dg_length d) \<in> set (ps @ [piece d p fo]) then dg_length d else 0)"
  proof -
    have "unat (ucast e :: u16) = unat e" using \<open>unat e < 768\<close> by (simp add: unsigned_ucast_eq take_bit_eq_mod)
    moreover have "(\<exists>s. (s, dg_length d) \<in> set (ps @ [piece d p fo])) =
        ((\<exists>s. (s, dg_length d) \<in> set ps) \<or> unat fo + n = length (dg_payload d))"
      by (auto simp: piece_def n_def [symmetric] dg_length_def)
    moreover have "unat (fr_total_len st) = (if \<exists>s. (s, dg_length d) \<in> set ps then dg_length d else 0)" using assms(1) by (simp add: holding_def)
    moreover have "unat e = dg_length d" if "unat fo + n = length (dg_payload d)" using pos(3) that by (simp add: dg_length_def)
    ultimately show ?thesis using f(6) by (auto simp: with_fragment_def Let_def)
  qed
  moreover have "fr_buffer (with_fragment e p b m st) = b" "fr_bitmap (with_fragment e p b m st) = m"
      "fr_header_len (with_fragment e p b m st) = fr_header_len st" by (simp_all add: with_fragment_def Let_def)
  moreover have "marked m k = touched d (ps @ [piece d p fo]) k" if "k < 96" for k
    using that assms(1) m(3) by (simp add: piece_def touched_snoc n_def [symmetric] holding_def)
  ultimately have "holding d b0 (ps @ [piece d p fo]) (with_fragment e p b m st)"
    using assms(1) b(2) m(2) h(1) by (simp add: holding_def)
  then show ?thesis using read b(1) m(1) unfolding n_def [symmetric] cs_def [symmetric] e_def [symmetric] by blast
qed

lemma full_bitmap_complete:
  assumes "holding d b0 ps st" and "dg_length d < 768" and "\<exists>s. (s, dg_length d) \<in> set ps" and "\<forall>(s, e)\<in>set ps. e \<le> dg_length d"
  shows "full_bitmap (fr_total_len st) (fr_bitmap st) = Inr (complete d ps)"
proof -
  have t: "unat (fr_total_len st) = dg_length d" and l: "length (fr_bitmap st) = 12"
    and m: "\<And>k. k < 96 \<Longrightarrow> marked (fr_bitmap st) k = touched d ps k"
    using assms(1,3) by (auto simp: holding_def)
  show ?thesis
  proof (cases "64 \<le> dg_length d")
    case True
    have "bit (fr_total_len st) 7 = odd (dg_length d div 128)"
    proof -
      have "bit (fr_total_len st) 7 = bit (unat (fr_total_len st)) 7" by (simp add: bit_simps)
      then show ?thesis unfolding t by (simp add: bit_iff_odd)
    qed
    moreover have "dg_length d div 64 \<le> 11" using assms(2) by simp
    ultimately show ?thesis
      using full_bitmap_exact [OF l, of "fr_total_len st"] t True assms(2,3) m
      by (auto simp: complete_def last_group_full_def)
  next
    case False
    then have "\<not> touched d ps 8" using assms(4) by (auto simp: touched_def dg_length_def)
    then show ?thesis using full_bitmap_short [OF l, of "fr_total_len st"] t False m by (simp add: complete_def)
  qed
qed

definition pieces_of :: "datagram \<Rightarrow> (u64 \<times> IPv4_Packet \<times> u16) list \<Rightarrow> (nat \<times> nat) list" where
  "pieces_of d fs = map (\<lambda>(t, p, fo). piece d p fo) fs"

definition bounded :: "datagram \<Rightarrow> (nat \<times> nat) list \<Rightarrow> bool" where
  "bounded d ps \<longleftrightarrow> (\<forall>(s, e)\<in>set ps. e \<le> dg_length d)"

lemma copy_exact:
  assumes "holding d b0 ps st" and "fragment_of d p fo" and "dg_length d < 768" and "bounded d ps"
  shows "\<exists>r st'. copy_fragment f t p fo st = Inr (r, st') \<and> (case r of
      None \<Rightarrow> \<not> complete d (ps @ [piece d p fo]) \<and> holding d b0 (ps @ [piece d p fo]) st' \<and> fr_expired_time st' = t + f (TIMEOUT * 1000)
    | Some x \<Rightarrow> complete d (ps @ [piece d p fo]) \<and> delivered d b0 (ps @ [piece d p fo]) x)"
proof -
  let ?ps = "ps @ [piece d p fo]"
  define e where "e = (ucast (fr_header_len st) + ucast fo + (ucast (v4_get_total_len p) - ucast (fr_header_len st)) :: u32)"
  obtain b m where w: "peek_all (v4_encode p) (v4_get_data p) (frag_len d p) = Inr (take (frag_len d p) (drop (unat fo) (dg_payload d)))"
      "poke_all (dg_header d + unat fo) (take (frag_len d p) (drop (unat fo) (dg_payload d))) (fr_buffer st) = Inr b"
      "update_bitmap (ucast (fr_header_len st) + ucast fo) e (fr_bitmap st) = Inr m"
      "holding d b0 ?ps (with_fragment e p b m st)"
    using copy_writes [OF assms(1-3)] unfolding e_def by blast
  define st1 where "st1 = with_fragment e p b m st"
  have h: "unat (fr_header_len st) = dg_header d" using assms(1) by (simp add: holding_def)
  have fr: "unat fo + frag_len d p \<le> length (dg_payload d)" "20 \<le> dg_header d" using assms(2) by (simp_all add: fragment_of_def)
  have small: "\<not> REASSEMBLY_BUFFERSIZE < unat e"
    using fragment_positions(3) [OF h fragment_within [OF assms(2,3)]] fr assms(3) by (simp add: e_def REASSEMBLY_BUFFERSIZE_def dg_length_def)
  have b': "\<forall>(s, e)\<in>set ?ps. e \<le> dg_length d" using assms(4) fr by (auto simp: bounded_def piece_def dg_length_def)
  have copy: "copy_fragment f t p fo st =
      (if fr_total_len st1 \<noteq> 0
       then obind (full_bitmap (fr_total_len st1) (fr_bitmap st1)) (\<lambda>full.
            if full then obind (finish_reassembly st1) (\<lambda>r. Inr (Some r, st1\<lparr>fr_expired_time := 0\<rparr>))
            else Inr (None, st1\<lparr>fr_expired_time := t + f (TIMEOUT * 1000)\<rparr>))
       else Inr (None, st1\<lparr>fr_expired_time := t + f (TIMEOUT * 1000)\<rparr>))"
    unfolding copy_fragment_def Let_def e_def [symmetric] fragment_positions(1,2) [OF h fragment_within [OF assms(2,3)]]
    using small by (simp add: w(1-3) st1_def with_fragment_def Let_def cong: if_cong)
  have total: "unat (fr_total_len st1) = (if \<exists>s. (s, dg_length d) \<in> set ?ps then dg_length d else 0)"
    using w(4) by (simp only: holding_def st1_def)
  have hold: "holding d b0 ?ps (st1\<lparr>fr_expired_time := x\<rparr>)" for x using w(4) by (simp add: holding_def st1_def)
  show ?thesis
  proof (cases "\<exists>s. (s, dg_length d) \<in> set ?ps")
    case False
    then have "fr_total_len st1 = 0" "\<not> complete d ?ps" using total by (simp_all add: complete_def unat_eq_0)
    then show ?thesis using copy hold by simp
  next
    case True
    then have t: "unat (fr_total_len st1) = dg_length d" using total by (simp only: if_True)
    then have nz: "fr_total_len st1 \<noteq> 0" using fr(2) by (auto simp: dg_length_def)
    have full: "full_bitmap (fr_total_len st1) (fr_bitmap st1) = Inr (complete d ?ps)"
      using w(4) assms(3) True b' unfolding st1_def by (rule full_bitmap_complete)
    obtain r where r: "finish_reassembly st1 = Inr r" "delivered d b0 ?ps r"
      using finish_delivered [of d b0 ?ps st1] w(4) t fr(2) assms(3) by (auto simp: st1_def)
    show ?thesis using copy nz full r hold by (cases "complete d ?ps") simp_all
  qed
qed

subsection \<open>A sequence of fragments\<close>

fun receive_fragments ::
    "(u32 \<Rightarrow> u64) \<Rightarrow> (u64 \<times> IPv4_Packet \<times> u16) list \<Rightarrow> reassembly \<Rightarrow> ((IPv4_Packet \<times> u32) option \<times> reassembly) outcome" where
  "receive_fragments f [] st = Inr (None, st)"
| "receive_fragments f ((t, p, fo) # fs) st =
     obind (ipv4_reassemble f t p fo st) (\<lambda>(r, st). case r of Some x \<Rightarrow> Inr (Some x, st) | None \<Rightarrow> receive_fragments f fs st)"

text \<open>Each fragment arrives before the ones before it expire.\<close>

fun in_time :: "(u32 \<Rightarrow> u64) \<Rightarrow> u64 \<Rightarrow> (u64 \<times> IPv4_Packet \<times> u16) list \<Rightarrow> bool" where
  "in_time f expired [] = True"
| "in_time f expired ((t, p, fo) # fs) = (t < expired \<and> in_time f (t + f (TIMEOUT * 1000)) fs)"

definition fragments_of :: "datagram \<Rightarrow> (u64 \<times> IPv4_Packet \<times> u16) list \<Rightarrow> bool" where
  "fragments_of d fs \<longleftrightarrow> (\<forall>(t, p, fo)\<in>set fs. fragment_of d p fo)"

lemma bounded_pieces: "fragments_of d fs \<Longrightarrow> bounded d (pieces_of d fs)"
  by (auto simp: fragments_of_def bounded_def pieces_of_def piece_def fragment_of_def dg_length_def)

text \<open>\<open>delivers d b0 ps fs m\<close>: the run \<open>m\<close> over the fragments \<open>fs\<close>, with the pieces \<open>ps\<close> already in the buffer, ends without a
  fault; it gives the datagram at the first fragment that completes it, and nothing when none does.\<close>

definition delivers ::
    "datagram \<Rightarrow> u8 list \<Rightarrow> (nat \<times> nat) list \<Rightarrow> (u64 \<times> IPv4_Packet \<times> u16) list \<Rightarrow> ((IPv4_Packet \<times> u32) option \<times> reassembly) outcome \<Rightarrow> bool" where
  "delivers d b0 ps fs m \<longleftrightarrow> (\<exists>r st. m = Inr (r, st) \<and> (case r of
      None \<Rightarrow> \<forall>n<length fs. \<not> complete d (ps @ pieces_of d (take (Suc n) fs))
    | Some x \<Rightarrow> \<exists>n<length fs. complete d (ps @ pieces_of d (take (Suc n) fs)) \<and>
        (\<forall>k<n. \<not> complete d (ps @ pieces_of d (take (Suc k) fs))) \<and> delivered d b0 (ps @ pieces_of d (take (Suc n) fs)) x))"

lemma pieces_Nil [simp]: "pieces_of d [] = []"
  by (simp add: pieces_of_def)

lemma pieces_Cons [simp]: "pieces_of d ((t, p, fo) # fs) = piece d p fo # pieces_of d fs"
  by (simp add: pieces_of_def)

lemma delivers_Cons:
  assumes "\<not> complete d (ps @ [piece d p fo])" and "delivers d b0 (ps @ [piece d p fo]) fs m"
  shows "delivers d b0 ps ((t, p, fo) # fs) m"
proof -
  let ?ps = "ps @ [piece d p fo]"
  obtain r st where m: "m = Inr (r, st)" using assms(2) by (auto simp: delivers_def)
  show ?thesis
  proof (cases r)
    case None
    then show ?thesis using assms m by (auto simp: delivers_def less_Suc_eq_0_disj)
  next
    case (Some x)
    then obtain n where "n < length fs" "complete d (?ps @ pieces_of d (take (Suc n) fs))"
        "\<forall>k<n. \<not> complete d (?ps @ pieces_of d (take (Suc k) fs))" "delivered d b0 (?ps @ pieces_of d (take (Suc n) fs)) x"
      using assms(2) m by (auto simp: delivers_def)
    then have "\<exists>n<length ((t, p, fo) # fs). complete d (ps @ pieces_of d (take (Suc n) ((t, p, fo) # fs))) \<and>
        (\<forall>k<n. \<not> complete d (ps @ pieces_of d (take (Suc k) ((t, p, fo) # fs)))) \<and>
        delivered d b0 (ps @ pieces_of d (take (Suc n) ((t, p, fo) # fs))) x"
      using assms(1) by (intro exI [of _ "Suc n"]) (auto simp: less_Suc_eq_0_disj)
    then show ?thesis unfolding delivers_def m Some by simp
  qed
qed

text \<open>One fragment, whether it finds the buffer hot or cold.\<close>

lemma receive_step:
  assumes "ipv4_reassemble f t p fo st = copy_fragment f t p fo st1" and "holding d b0 ps st1" and "fragment_of d p fo"
    and "dg_length d < 768" and "bounded d ps"
    and "\<And>st'. holding d b0 (ps @ [piece d p fo]) st' \<Longrightarrow> fr_expired_time st' = t + f (TIMEOUT * 1000) \<Longrightarrow>
        delivers d b0 (ps @ [piece d p fo]) fs (receive_fragments f fs st')"
  shows "delivers d b0 ps ((t, p, fo) # fs) (receive_fragments f ((t, p, fo) # fs) st)"
proof -
  let ?ps = "ps @ [piece d p fo]"
  obtain r st' where c: "copy_fragment f t p fo st1 = Inr (r, st')" "case r of
      None \<Rightarrow> \<not> complete d ?ps \<and> holding d b0 ?ps st' \<and> fr_expired_time st' = t + f (TIMEOUT * 1000)
    | Some x \<Rightarrow> complete d ?ps \<and> delivered d b0 ?ps x"
    using copy_exact [OF assms(2-5), of f t] by blast
  show ?thesis
  proof (cases r)
    case (Some x)
    then show ?thesis using c assms(1) by (auto simp: delivers_def intro!: exI [of _ 0])
  next
    case None
    then show ?thesis using c assms(1,6) by (simp add: delivers_Cons)
  qed
qed

lemma receive_hot:
  assumes "holding d b0 ps st" and "bounded d ps" and "fragments_of d fs" and "dg_length d < 768" and "in_time f (fr_expired_time st) fs"
  shows "delivers d b0 ps fs (receive_fragments f fs st)"
  using assms
proof (induction fs arbitrary: ps st)
  case Nil
  then show ?case by (simp add: delivers_def)
next
  case (Cons a fs)
  obtain t p fo where a: "a = (t, p, fo)" by (cases a)
  have fr: "fragment_of d p fo" "fragments_of d fs" using Cons.prems(3) by (auto simp: fragments_of_def a)
  have b: "bounded d (ps @ [piece d p fo])" using Cons.prems(2) fr(1) by (auto simp: bounded_def piece_def fragment_of_def dg_length_def)
  have "ipv4_reassemble f t p fo st = copy_fragment f t p fo st"
    using belongs [OF Cons.prems(1), of p] fr(1) Cons.prems(5) by (simp add: ipv4_reassemble_def fragment_of_def a)
  then show ?case unfolding a
    by (rule receive_step [OF _ Cons.prems(1) fr(1) Cons.prems(4,2)]) (use Cons.IH b fr(2) Cons.prems(4,5) in \<open>simp add: a\<close>)
qed

lemma receive_cold:
  assumes "length (fr_buffer st) = 768" and "length (fr_bitmap st) = 12" and "\<not> t < fr_expired_time st"
    and "fragments_of d ((t, p, fo) # fs)" and "dg_length d < 768" and "in_time f (t + f (TIMEOUT * 1000)) fs"
  shows "delivers d (fr_buffer st) [] ((t, p, fo) # fs) (receive_fragments f ((t, p, fo) # fs) st)"
proof -
  have fr: "fragment_of d p fo" "fragments_of d fs" using assms(4) by (auto simp: fragments_of_def)
  obtain st1 where st1: "start_reassembly p st = Inr st1" "holding d (fr_buffer st) [] st1"
    using start_holding [OF fr(1) assms(1,2,5)] by blast
  have "bounded d [piece d p fo]" using fr(1) by (auto simp: bounded_def piece_def fragment_of_def dg_length_def)
  moreover have "ipv4_reassemble f t p fo st = copy_fragment f t p fo st1" using st1(1) assms(3) by (simp add: ipv4_reassemble_def)
  ultimately show ?thesis
    by (intro receive_step [OF _ st1(2) fr(1) assms(5)]) (simp_all add: bounded_def [of d "[]"] receive_hot fr(2) assms(5,6))
qed

lemma div_8_split: "x div 8 = 8 * (x div 64) + x mod 64 div (8 :: nat)"
proof -
  obtain q r where x: "x = 64 * q + r" "r < 64" by (metis mod_less_divisor mult_div_mod_eq zero_less_numeral)
  have "(r + 8 * (8 * q)) div 8 = 8 * q + r div 8" by (rule div_mult_self2) simp
  then show ?thesis using x by (simp add: add.commute)
qed

lemma touched_le: "bounded d ps \<Longrightarrow> touched d ps k \<Longrightarrow> k \<le> dg_length d div 8"
  by (auto simp: touched_def bounded_def dg_length_def)

lemma received_touched: "received ps (8 * k) \<Longrightarrow> touched d ps k"
  by (force simp: received_def touched_def dest: div_le_mono [of _ "8 * k" 8] less_imp_le)

text \<open>The bitmap is only looked at up to the last 64 bytes but one, and at the last ones.\<close>

lemma complete_when:
  assumes "bounded d ps" and "(s, dg_length d) \<in> set ps" and "s \<le> dg_length d" and "64 \<le> dg_length d"
    and "even (dg_length d div 128) \<or> 56 \<le> dg_length d mod 64"
    and "\<And>i. dg_header d \<le> i \<Longrightarrow> i < dg_length d \<Longrightarrow> i div 64 \<noteq> dg_length d div 64 - 1 \<Longrightarrow> received ps i"
  shows "complete d ps"
proof -
  define q where "q = dg_length d div 64"
  have len: "dg_length d div 8 = 8 * q + dg_length d mod 64 div 8" unfolding q_def by (rule div_8_split)
  have t: "touched d ps k" if "k \<le> dg_length d div 8" and "k div 8 \<noteq> q - 1" for k
  proof -
    have "8 * k \<le> dg_length d" using that(1) by (simp add: less_eq_div_iff_mult_less_eq mult.commute)
    then consider "8 * k < dg_header d" | "dg_header d \<le> 8 * k" "8 * k < dg_length d" | "8 * k = dg_length d" by linarith
    then show ?thesis
    proof cases
      case 1
      then show ?thesis by (simp add: touched_def less_eq_div_iff_mult_less_eq mult.commute)
    next
      case 2
      have "8 * k div 64 = k div 8" by (rule block_index)
      then show ?thesis using 2 that(2) assms(6) [of "8 * k"] by (simp add: q_def received_touched)
    next
      case 3
      then have "k = dg_length d div 8" by simp
      then show ?thesis using assms(2,3) by (auto simp: touched_def div_le_mono intro!: bexI [of _ "(s, dg_length d)"])
    qed
  qed
  have "touched d ps k" if "k < 8 * (q - 1)" for k using that t [of k] len by (simp add: less_mult_imp_div_less)
  moreover have "touched d ps (8 * q + j) = (odd (dg_length d div 128) \<or> j \<le> dg_length d mod 64 div 8)" if "j < 8" for j
  proof -
    have "touched d ps (8 * q + j) = (j \<le> dg_length d mod 64 div 8)"
      using t [of "8 * q + j"] touched_le [OF assms(1), of "8 * q + j"] len that assms(4) by (auto simp: q_def)
    moreover have "j \<le> dg_length d mod 64 div 8" if "56 \<le> dg_length d mod 64"
      using \<open>j < 8\<close> div_le_mono [OF that, of 8] by simp
    ultimately show ?thesis using assms(5) by auto
  qed
  ultimately show ?thesis using assms(2,4) by (auto simp: complete_def q_def)
qed

lemma last_completes:
  assumes "delivers d b0 [] fs m" and "fs \<noteq> []" and "complete d (pieces_of d fs)" and "\<forall>(s, e)\<in>set (pieces_of d (butlast fs)). e < dg_length d"
  shows "\<exists>x st. m = Inr (Some x, st) \<and> delivered d b0 (pieces_of d fs) x"
proof -
  obtain r st where m: "m = Inr (r, st)" using assms(1) by (auto simp: delivers_def)
  show ?thesis
  proof (cases r)
    case None
    obtain k where k: "length fs = Suc k" using assms(2) by (cases fs) auto
    have "\<forall>n<length fs. \<not> complete d (pieces_of d (take (Suc n) fs))" using assms(1) m None by (simp add: delivers_def)
    then have "\<not> complete d (pieces_of d (take (Suc k) fs))" unfolding k by blast
    then show ?thesis using assms(3) k by simp
  next
    case (Some x)
    then obtain n where n: "n < length fs" "complete d (pieces_of d (take (Suc n) fs))" "delivered d b0 (pieces_of d (take (Suc n) fs)) x"
      using assms(1) m by (auto simp: delivers_def)
    have "set (pieces_of d (take (Suc n) fs)) \<subseteq> set (pieces_of d (butlast fs))" if "Suc n < length fs"
      unfolding pieces_of_def set_map butlast_conv_take using that by (intro image_mono set_take_subset_set_take) simp
    then have "\<not> Suc n < length fs" using n(2) assms(4) by (fastforce simp: complete_def)
    then show ?thesis using n m Some by simp
  qed
qed

lemma reassembly_core:
  assumes "length (fr_buffer st) = 768" and "length (fr_bitmap st) = 12" and "\<not> fst (hd fs) < fr_expired_time st" and "fs \<noteq> []"
    and "fragments_of d fs" and "in_time f (fst (hd fs) + f (TIMEOUT * 1000)) (tl fs)"
    and "dg_length d < 768" and "64 \<le> dg_length d" and "even (dg_length d div 128) \<or> 56 \<le> dg_length d mod 64"
    and "\<forall>(s, e)\<in>set (pieces_of d (butlast fs)). e < dg_length d" and "snd (last (pieces_of d fs)) = dg_length d"
    and "\<And>i. dg_header d \<le> i \<Longrightarrow> i < dg_length d \<Longrightarrow> i div 64 \<noteq> dg_length d div 64 - 1 \<Longrightarrow> received (pieces_of d fs) i"
  shows "\<exists>x st'. receive_fragments f fs st = Inr (Some x, st') \<and> delivered d (fr_buffer st) (pieces_of d fs) x"
proof -
  obtain t p fo gs where fs: "fs = (t, p, fo) # gs" using assms(4) by (cases fs) auto
  have "delivers d (fr_buffer st) [] fs (receive_fragments f fs st)"
    unfolding fs by (rule receive_cold) (use assms fs in auto)
  moreover have "last (pieces_of d fs) \<in> set (pieces_of d fs)" using assms(4) by (intro last_in_set) (simp add: pieces_of_def)
  then obtain s where "(s, dg_length d) \<in> set (pieces_of d fs)" using assms(11) by (metis prod.collapse)
  moreover from this have "s \<le> dg_length d" by (auto simp: pieces_of_def piece_def)
  ultimately show ?thesis
    using bounded_pieces [OF assms(5)] assms(4,8-10,12) by (intro last_completes complete_when) auto
qed

text \<open>C24: Reassembly is right when the last fragment arrives last: the fragments before it may come in any order and more
  than once, and once every byte of the payload has come, the receiver gets a packet with the header of the first
  fragment, the length of the whole datagram and exactly its payload. The datagram has 64 to 767 bytes, and bit 7 of its length is clear or its
  length modulo 64 is at least 56.\<close>

theorem fragments_reassembled:
  assumes "length (fr_buffer st) = 768" and "length (fr_bitmap st) = 12" and "\<not> fst (hd fs) < fr_expired_time st" and "fs \<noteq> []"
    and "fragments_of d fs" and "in_time f (fst (hd fs) + f (TIMEOUT * 1000)) (tl fs)"
    and "64 \<le> dg_length d" and "dg_length d < 768" and "even (dg_length d div 128) \<or> 56 \<le> dg_length d mod 64"
    and "\<forall>(s, e)\<in>set (pieces_of d (butlast fs)). e < dg_length d" and "snd (last (pieces_of d fs)) = dg_length d"
    and "\<forall>i<length (dg_payload d). received (pieces_of d fs) (dg_header d + i)"
  shows "\<exists>p len st'. receive_fragments f fs st = Inr (Some (p, len), st') \<and> unat len = dg_length d \<and>
    unat (v4_get_total_len p) = dg_length d \<and> v4_get_flags p = 0 \<and> v4_get_fragment_offset p = 0 \<and>
    v4_src p = dg_src d \<and> v4_dst p = dg_dst d \<and> v4_id p = dg_id d \<and>
    take (length (dg_payload d)) (drop (dg_header d - 20) (v4_data p)) = dg_payload d"
proof -
  have "received (pieces_of d fs) i" if "dg_header d \<le> i" "i < dg_length d" for i
    using assms(12) that by (metis add_diff_inverse_nat dg_length_def less_diff_conv2 add.commute not_less)
  then obtain p len st' where r: "receive_fragments f fs st = Inr (Some (p, len), st')" "delivered d (fr_buffer st) (pieces_of d fs) (p, len)"
    using reassembly_core [OF assms(1-6,8,7,9-11)] by (metis surj_pair)
  have "20 \<le> dg_header d" using assms(4,5) by (cases fs) (auto simp: fragments_of_def fragment_of_def)
  then have "take (length (dg_payload d)) (drop (dg_header d - 20) (v4_data p)) = dg_payload d"
    using r(2) assms(8,12) by (intro nth_equalityI) (auto simp: delivered_def dg_length_def)
  then show ?thesis using r by (auto simp: delivered_def)
qed

text \<open>C33: The 64 bytes before the last group of 64 are not checked: when the other bytes have come, the packet counts as complete, and
  in place of the missing bytes the receiver gets what the buffer held before, parts of packets of other senders.\<close>

theorem missing_fragment_unnoticed:
  assumes "length (fr_buffer st) = 768" and "length (fr_bitmap st) = 12" and "\<not> fst (hd fs) < fr_expired_time st" and "fs \<noteq> []"
    and "fragments_of d fs" and "in_time f (fst (hd fs) + f (TIMEOUT * 1000)) (tl fs)"
    and "64 \<le> dg_length d" and "dg_length d < 768" and "even (dg_length d div 128) \<or> 56 \<le> dg_length d mod 64"
    and "\<forall>(s, e)\<in>set (pieces_of d (butlast fs)). e < dg_length d" and "snd (last (pieces_of d fs)) = dg_length d"
    and "\<forall>i. dg_header d \<le> i \<and> i < dg_length d \<and> i div 64 \<noteq> dg_length d div 64 - 1 \<longrightarrow> received (pieces_of d fs) i"
  shows "\<exists>p len st'. receive_fragments f fs st = Inr (Some (p, len), st') \<and> unat len = dg_length d \<and>
    (\<forall>i<length (dg_payload d). v4_data p ! (dg_header d - 20 + i) =
       (if received (pieces_of d fs) (dg_header d + i) then dg_payload d ! i else fr_buffer st ! (dg_header d + i)))"
proof -
  obtain p len st' where "receive_fragments f fs st = Inr (Some (p, len), st')" "delivered d (fr_buffer st) (pieces_of d fs) (p, len)"
    using reassembly_core [OF assms(1-6,8,7,9-11)] assms(12) by (metis surj_pair)
  then show ?thesis by (auto simp: delivered_def)
qed

text \<open>Datagrams of other lengths never arrive: the mask that is to give the start of the last group also clears bit 7.\<close>

theorem length_never_complete:
  assumes "length (fr_buffer st) = 768" and "length (fr_bitmap st) = 12" and "\<not> fst (hd fs) < fr_expired_time st" and "fs \<noteq> []"
    and "fragments_of d fs" and "in_time f (fst (hd fs) + f (TIMEOUT * 1000)) (tl fs)"
    and "dg_length d < 768" and "dg_length d < 64 \<or> odd (dg_length d div 128) \<and> dg_length d mod 64 < 56"
  shows "\<exists>st'. receive_fragments f fs st = Inr (None, st')"
proof -
  obtain t p fo gs where fs: "fs = (t, p, fo) # gs" using assms(4) by (cases fs) auto
  have never: "\<not> complete d ps" if "bounded d ps" for ps
  proof
    assume c: "complete d ps"
    then have b: "64 \<le> dg_length d" "touched d ps (8 * (dg_length d div 64) + 7)" using assms(8) by (auto simp: complete_def)
    then have "8 * (dg_length d div 64) + 7 \<le> 8 * (dg_length d div 64) + dg_length d mod 64 div 8"
      using touched_le [OF that b(2)] div_8_split [of "dg_length d"] by simp
    moreover have "dg_length d mod 64 div 8 < 7" using assms(8) b(1) by (simp add: less_mult_imp_div_less)
    ultimately show False by simp
  qed
  have "bounded d (pieces_of d (take n fs))" for n
    by (rule bounded_pieces) (use assms(5) in_set_takeD in \<open>fastforce simp: fragments_of_def\<close>)
  then have none: "\<not> complete d ([] @ pieces_of d (take n fs))" for n using never by simp
  have "delivers d (fr_buffer st) [] fs (receive_fragments f fs st)"
    unfolding fs by (rule receive_cold) (use assms fs in auto)
  then obtain r st' where r: "receive_fragments f fs st = Inr (r, st')" and c: "case r of None \<Rightarrow> \<forall>n<length fs. \<not> complete d ([] @ pieces_of d (take (Suc n) fs))
    | Some x \<Rightarrow> \<exists>n<length fs. complete d ([] @ pieces_of d (take (Suc n) fs)) \<and>
        (\<forall>k<n. \<not> complete d ([] @ pieces_of d (take (Suc k) fs))) \<and> delivered d (fr_buffer st) ([] @ pieces_of d (take (Suc n) fs)) x"
    unfolding delivers_def by blast
  show ?thesis using r c none by (cases r) auto
qed

text \<open>Two more ways to leave the buffer. A fragment that ends exactly at the end of the buffer is accepted, but its end is
  marked behind the bitmap; and a fragment whose own header is shorter than that of the first one (options need not be
  copied to all fragments) can be shorter than the header length it is measured with: its length wraps around.\<close>

theorem full_size_overflows_bitmap:
  assumes "holding d b0 ps st" and "v4_src p = dg_src d" and "v4_dst p = dg_dst d" and "v4_id p = dg_id d"
    and "t < fr_expired_time st" and "dg_header d \<le> unat (v4_get_total_len p)"
    and "dg_header d + unat fo + frag_len d p = 768" and "v4_get_data p + frag_len d p \<le> length (v4_encode p)"
  shows "ipv4_reassemble f t p fo st = Inl OutOfBounds"
proof -
  define e where "e = (ucast (fr_header_len st) + ucast fo + (ucast (v4_get_total_len p) - ucast (fr_header_len st)) :: u32)"
  have h: "unat (fr_header_len st) = dg_header d" "length (fr_buffer st) = 768" "length (fr_bitmap st) = 12"
    using assms(1) by (simp_all add: holding_def)
  have le: "dg_header d + unat fo + frag_len d p \<le> 768" using assms(7) by simp
  note pos = fragment_positions [OF h(1) assms(6) le]
  define cs where "cs = take (frag_len d p) (drop (v4_get_data p) (v4_encode p))"
  have "peek_all (v4_encode p) (v4_get_data p) (frag_len d p) = Inr cs" using assms(8) by (simp add: peek_all_def cs_def)
  moreover have "length cs = frag_len d p" using assms(8) by (simp add: cs_def)
  then obtain b where "poke_all (dg_header d + unat fo) cs (fr_buffer st) = Inr b"
    using poke_all_nth [of "dg_header d + unat fo" cs "fr_buffer st"] le h(2) by auto
  moreover have "update_bitmap (ucast (fr_header_len st) + ucast fo) e (fr_bitmap st) = Inl OutOfBounds"
    unfolding update_bitmap_def block_start pos(1) e_def pos(3) using assms(7) by (intro mark_blocks_fault [OF h(3)]) simp_all
  moreover have "\<not> REASSEMBLY_BUFFERSIZE < unat e" using pos(3) le by (simp add: e_def REASSEMBLY_BUFFERSIZE_def)
  ultimately have "copy_fragment f t p fo st = Inl OutOfBounds"
    unfolding copy_fragment_def Let_def e_def [symmetric] pos(1,2) by simp
  then show ?thesis using belongs [OF assms(1-4)] assms(5) by (simp add: ipv4_reassemble_def)
qed

theorem short_fragment_overruns:
  assumes "holding d b0 ps st" and "v4_src p = dg_src d" and "v4_dst p = dg_dst d" and "v4_id p = dg_id d"
    and "t < fr_expired_time st" and "unat (v4_get_total_len p) < dg_header d" and "unat fo + unat (v4_get_total_len p) \<le> 768"
    and "length (v4_encode p) < 2147483648"
  shows "ipv4_reassemble f t p fo st = Inl OutOfBounds"
proof -
  define hl where "hl = fr_header_len st"
  define n where "n = (ucast (v4_get_total_len p) - ucast hl :: u32)"
  have h: "unat hl = dg_header d" using assms(1) by (simp add: holding_def hl_def)
  have sum: "ucast hl + ucast fo + n = ucast fo + ucast (v4_get_total_len p)" by (simp add: n_def)
  have "unat (ucast hl + ucast fo + n) = unat fo + unat (v4_get_total_len p)" unfolding sum using assms(7) by (simp add: unat_add_u32)
  then have small: "\<not> REASSEMBLY_BUFFERSIZE < unat (ucast hl + ucast fo + n)" using assms(7) by (simp add: REASSEMBLY_BUFFERSIZE_def)
  have "unat n = 4294967296 + unat (v4_get_total_len p) - unat hl"
    using assms(6) h by (simp add: n_def unat_sub_if_size word_le_nat_alt word_size)
  then have "length (v4_encode p) < unat n" using assms(8) unat_u8_less [of hl] by linarith
  then have "peek_all (v4_encode p) (v4_get_data p) (unat n) = Inl OutOfBounds" by (simp add: peek_all_def)
  then have "copy_fragment f t p fo st = Inl OutOfBounds"
    unfolding copy_fragment_def Let_def hl_def [symmetric] n_def [symmetric] using small by simp
  then show ?thesis using belongs [OF assms(1-4)] assms(5) by (simp add: ipv4_reassemble_def)
qed

definition witness_dg :: datagram where
  "witness_dg = \<lparr>dg_src = 1, dg_dst = 2, dg_id = 7, dg_header = 20, dg_payload = replicate 40 5 @ replicate 40 6\<rparr>"

definition witness_fragment :: "bool \<Rightarrow> IPv4_Packet" where
  "witness_fragment mf =
     \<lparr>v4_ihl = 5, v4_version = 4, v4_tos = 0, v4_total_len = htons 60, v4_id = 7, v4_flags_offset = (if mf then 32 else 0),
      v4_ttl = 9, v4_protocol = 17, v4_hdr_checksum = 0, v4_src = 1, v4_dst = 2, v4_data = replicate 40 (if mf then 5 else 6)\<rparr>"

definition witness_reassembly :: reassembly where
  "witness_reassembly =
     \<lparr>fr_expired_time = 0, fr_buffer = replicate 768 0xEE, fr_bitmap = replicate 12 0, fr_header_len = 0, fr_total_len = 0\<rparr>"

lemma witness_dg_simps [simp]: "dg_length witness_dg = 100" "dg_header witness_dg = 20" "length (dg_payload witness_dg) = 80"
  by (simp_all add: dg_length_def witness_dg_def)

lemma witness_fragments [simp]: "fragment_of witness_dg (witness_fragment True) 0" "fragment_of witness_dg (witness_fragment False) 40"
  by code_simp+

lemma witness_pieces [simp]: "piece witness_dg (witness_fragment True) 0 = (20, 60)" "piece witness_dg (witness_fragment False) 40 = (60, 100)"
  by code_simp+

lemma witness_reassembly_simps [simp]: "fr_expired_time witness_reassembly = 0" "fr_buffer witness_reassembly = replicate 768 0xEE"
  "fr_bitmap witness_reassembly = replicate 12 0"
  by (simp_all add: witness_reassembly_def)

theorem fragments_reassembled_witness:
  "\<exists>p len st'. receive_fragments (\<lambda>ms. 1000) [(5, witness_fragment True, 0), (9, witness_fragment False, 40)] witness_reassembly = Inr (Some (p, len), st') \<and>
     unat len = 100 \<and> take 80 (v4_data p) = replicate 40 5 @ replicate 40 6"
proof -
  let ?fs = "[(5, witness_fragment True, 0), (9, witness_fragment False, 40)] :: (u64 \<times> IPv4_Packet \<times> u16) list"
  have "\<forall>i<length (dg_payload witness_dg). received (pieces_of witness_dg ?fs) (dg_header witness_dg + i)" by (auto simp: received_def)
  then obtain p len st' where "receive_fragments (\<lambda>ms. 1000) ?fs witness_reassembly = Inr (Some (p, len), st')" "unat len = 100"
      "take 80 (drop 0 (v4_data p)) = dg_payload witness_dg"
    using fragments_reassembled [of witness_reassembly ?fs witness_dg "\<lambda>ms. 1000"]
    by (auto simp: fragments_of_def simp del: receive_fragments.simps)
  then show ?thesis by (auto simp: witness_dg_def simp del: receive_fragments.simps)
qed

theorem missing_fragment_unnoticed_witness:
  "\<exists>p len st'. receive_fragments (\<lambda>ms. 1000) [(9, witness_fragment False, 40)] witness_reassembly = Inr (Some (p, len), st') \<and>
     (\<forall>i<40. v4_data p ! i = 0xEE)"
proof -
  let ?fs = "[(9, witness_fragment False, 40)] :: (u64 \<times> IPv4_Packet \<times> u16) list"
  have "\<forall>i. dg_header witness_dg \<le> i \<and> i < dg_length witness_dg \<and> i div 64 \<noteq> dg_length witness_dg div 64 - 1 \<longrightarrow> received (pieces_of witness_dg ?fs) i"
    by (auto simp: received_def)
  then obtain p len st' where "receive_fragments (\<lambda>ms. 1000) ?fs witness_reassembly = Inr (Some (p, len), st')"
      "\<forall>i<80. v4_data p ! i = (if received (pieces_of witness_dg ?fs) (20 + i) then dg_payload witness_dg ! i else fr_buffer witness_reassembly ! (20 + i))"
    using missing_fragment_unnoticed [of witness_reassembly ?fs witness_dg "\<lambda>ms. 1000"]
    by (auto simp: fragments_of_def simp del: receive_fragments.simps)
  then show ?thesis by (auto simp: received_def simp del: receive_fragments.simps)
qed

end
