(* ===== verification/Address_Memory.thy ===== *)
theory Address_Memory
  imports Address_Text
begin

text \<open>
  The memory of an interface for IPv6 addresses, neighbours and multicast groups: \<^verbatim>\<open>ipv6/AddressMemory.h\<close>,
  \<^verbatim>\<open>ipv6/ndpcache/NDPCacheEntry.h\<close>, \<^verbatim>\<open>ipv6/multicast/MulticastEntry.h\<close>. The memory is an array of bytes, cut into equal
  slots; the first byte of a slot says what it holds, a pointer to an entry is the position of that byte, and the fields of
  the packed structures are at fixed offsets from it.
\<close>

subsection \<open>The entries\<close>

record memory_config =
  entry_size :: nat
  cache_entries :: nat

text \<open>An entry has at least the 21 bytes of an \<open>AddressEntry\<close> (the link layer adds to the others), and a \<^verbatim>\<open>uint8_t\<close> counts the
  entries.\<close>

definition config_ok :: "memory_config \<Rightarrow> bool" where
  "config_ok C \<longleftrightarrow> 21 \<le> entry_size C \<and> cache_entries C < 256"

definition AddressEntry_ID :: u8 where "AddressEntry_ID = 252"
definition NDPCacheEntry_ID :: u8 where "NDPCacheEntry_ID = 250"
definition MulticastGroupEntry_ID :: u8 where "MulticastGroupEntry_ID = 240"
definition FreeEntry_ID :: u8 where "FreeEntry_ID = 0"
definition EntryUndefined :: u8 where "EntryUndefined = 255"
definition AddressEntryStateTemporary :: u8 where "AddressEntryStateTemporary = 0"
definition AddressEntryStateValid :: u8 where "AddressEntryStateValid = 1"

datatype NDP_state =
  NDPCacheEntryState_Incomplete
| NDPCacheEntryState_Stale
| NDPCacheEntryState_Delay
| NDPCacheEntryState_Probe
| NDPCacheEntryState_Reachable

type_synonym memory = "u8 list"

definition entry_id :: "memory \<Rightarrow> nat \<Rightarrow> u8" where "entry_id m p = m ! p"
definition entry_ipv6 :: "memory \<Rightarrow> nat \<Rightarrow> ipv6addr" where "entry_ipv6 m p = \<lparr>ipaddrB8 = take 16 (drop (p + 1) m)\<rparr>"
definition entry_prefixlen :: "memory \<Rightarrow> nat \<Rightarrow> u8" where "entry_prefixlen m p = m ! (p + 17)"
definition entry_stateflag :: "memory \<Rightarrow> nat \<Rightarrow> u8" where "entry_stateflag m p = m ! (p + 18)"
definition entry_state :: "memory \<Rightarrow> nat \<Rightarrow> u8" where "entry_state m p = entry_stateflag m p AND 3"
definition entry_isOnLink :: "memory \<Rightarrow> nat \<Rightarrow> bool" where "entry_isOnLink m p = bit (entry_stateflag m p) 2"
definition entry_toBeRemoved :: "memory \<Rightarrow> nat \<Rightarrow> bool" where "entry_toBeRemoved m p = bit (entry_stateflag m p) 3"
definition entry_routerEntryPosition :: "memory \<Rightarrow> nat \<Rightarrow> u8" where "entry_routerEntryPosition m p = m ! (p + 19)"
definition entry_hoplimit :: "memory \<Rightarrow> nat \<Rightarrow> u8" where "entry_hoplimit m p = m ! (p + 20)"

text \<open>The fields of a neighbour behind its address.\<close>

definition ndp_state :: "memory \<Rightarrow> nat \<Rightarrow> u8" where "ndp_state m p = m ! (p + 17)"
definition ndp_isRouter :: "memory \<Rightarrow> nat \<Rightarrow> bool" where "ndp_isRouter m p = bit (m ! (p + 18)) 0"
definition ndp_isRouting :: "memory \<Rightarrow> nat \<Rightarrow> bool" where "ndp_isRouting m p = bit (m ! (p + 18)) 1"

definition multicast_state :: "memory \<Rightarrow> nat \<Rightarrow> u8" where "multicast_state m p = m ! (p + 17)"

definition address_reserve :: "nat \<Rightarrow> memory \<Rightarrow> memory" where "address_reserve p m = m[p := AddressEntry_ID]"
definition ndp_reserve :: "nat \<Rightarrow> memory \<Rightarrow> memory" where "ndp_reserve p m = m[p := NDPCacheEntry_ID]"
definition multicast_reserve :: "nat \<Rightarrow> memory \<Rightarrow> memory" where "multicast_reserve p m = m[p := MulticastGroupEntry_ID]"

subsection \<open>The memory\<close>

fun clear_ids :: "memory_config \<Rightarrow> nat \<Rightarrow> memory \<Rightarrow> memory" where
  "clear_ids C 0 m = m"
| "clear_ids C (Suc n) m = (let i = cache_entries C - Suc n in clear_ids C n (m[i * entry_size C := 0]))"

definition new_AddressMemory :: "memory_config \<Rightarrow> memory \<Rightarrow> memory" where
  "new_AddressMemory C raw = clear_ids C (cache_entries C) raw"

definition freeEntry :: "nat \<Rightarrow> memory \<Rightarrow> memory" where "freeEntry p m = m[p := 0]"

text \<open>The search from slot \<open>i\<close> on; \<open>n\<close> slots are left. The result is the position of the entry and the next slot to look at.\<close>

fun find_slot :: "memory_config \<Rightarrow> nat \<Rightarrow> nat \<Rightarrow> u8 \<Rightarrow> memory \<Rightarrow> (nat \<times> nat) option" where
  "find_slot C 0 i type m = None"
| "find_slot C (Suc n) i type m =
     (if m ! (i * entry_size C) = type then Some (i * entry_size C, i + 1) else find_slot C n (i + 1) type m)"

definition findEntry :: "memory_config \<Rightarrow> nat \<Rightarrow> u8 \<Rightarrow> memory \<Rightarrow> (nat \<times> nat) option" where
  "findEntry C startentry type m = find_slot C (cache_entries C - startentry) startentry type m"

fun free_all_from :: "memory_config \<Rightarrow> nat \<Rightarrow> nat \<Rightarrow> u8 \<Rightarrow> memory \<Rightarrow> memory" where
  "free_all_from C 0 i type m = m"
| "free_all_from C (Suc n) i type m =
     free_all_from C n (i + 1) type (if m ! (i * entry_size C) = type then freeEntry (i * entry_size C) m else m)"

definition freeAll :: "memory_config \<Rightarrow> u8 \<Rightarrow> memory \<Rightarrow> memory" where
  "freeAll C type m = free_all_from C (cache_entries C) 0 type m"

fun position_from :: "memory_config \<Rightarrow> nat \<Rightarrow> nat \<Rightarrow> nat \<Rightarrow> u8" where
  "position_from C 0 i p = EntryUndefined"
| "position_from C (Suc n) i p = (if i * entry_size C = p then of_nat i else position_from C n (i + 1) p)"

definition getPosition :: "memory_config \<Rightarrow> nat \<Rightarrow> u8" where
  "getPosition C p = position_from C (cache_entries C) 0 p"

definition getEntryAtPosition :: "memory_config \<Rightarrow> u8 \<Rightarrow> nat" where
  "getEntryAtPosition C i = unat i * entry_size C"

text \<open>The loop \<^verbatim>\<open>while (entry = findEntry<type>(&nextEntry))\<close> of the clients: the entries it visits.\<close>

function visited_entries :: "memory_config \<Rightarrow> nat \<Rightarrow> u8 \<Rightarrow> memory \<Rightarrow> nat list" where
  "visited_entries C start type m =
     (case findEntry C start type m of None \<Rightarrow> [] | Some (p, next_start) \<Rightarrow> p # visited_entries C next_start type m)"
  by pat_completeness auto

lemma find_slot_next:
  "find_slot C n i type m = Some (p, j) \<Longrightarrow> \<exists>k. i \<le> k \<and> k < i + n \<and> p = k * entry_size C \<and> j = k + 1 \<and> m ! p = type \<and>
     (\<forall>l. i \<le> l \<and> l < k \<longrightarrow> m ! (l * entry_size C) \<noteq> type)"
proof (induction n arbitrary: i)
  case 0
  then show ?case by simp
next
  case (Suc n)
  show ?case
  proof (cases "m ! (i * entry_size C) = type")
    case True
    then show ?thesis using Suc.prems by (intro exI [of _ i]) auto
  next
    case False
    then obtain k where k: "i + 1 \<le> k" "k < i + 1 + n" "p = k * entry_size C" "j = k + 1" "m ! p = type"
        "\<forall>l. i + 1 \<le> l \<and> l < k \<longrightarrow> m ! (l * entry_size C) \<noteq> type"
      using Suc.IH [of "i + 1"] Suc.prems by auto
    have "\<forall>l. i \<le> l \<and> l < k \<longrightarrow> m ! (l * entry_size C) \<noteq> type"
      using k(6) False by (metis Suc_eq_plus1 le_antisym not_less_eq_eq)
    then show ?thesis using k by (intro exI [of _ k]) simp
  qed
qed

lemma find_slot_None:
  "find_slot C n i type m = None \<longleftrightarrow> (\<forall>l. i \<le> l \<and> l < i + n \<longrightarrow> m ! (l * entry_size C) \<noteq> type)"
proof (induction n arbitrary: i)
  case (Suc n)
  show ?case
  proof (cases "m ! (i * entry_size C) = type")
    case False
    then have "(\<forall>l. i \<le> l \<and> l < i + Suc n \<longrightarrow> m ! (l * entry_size C) \<noteq> type) \<longleftrightarrow>
        (\<forall>l. i + 1 \<le> l \<and> l < i + 1 + n \<longrightarrow> m ! (l * entry_size C) \<noteq> type)"
      by (metis Suc_eq_plus1 add_Suc add_Suc_right le_antisym not_less_eq_eq Suc_leD)
    then show ?thesis using Suc.IH [of "i + 1"] False by simp
  qed auto
qed auto

termination visited_entries
proof (relation "measure (\<lambda>(C, start, type, m). cache_entries C - start)", simp)
  fix C :: memory_config and start type m x and p nx
  assume "findEntry C start type m = Some x" and "(p, nx) = x"
  then have "find_slot C (cache_entries C - start) start type m = Some (p, nx)" by (simp add: findEntry_def)
  from find_slot_next [OF this] show "((C, nx, type, m), (C, start, type, m)) \<in> measure (\<lambda>(C, start, type, m). cache_entries C - start)"
    by auto
qed

declare visited_entries.simps [simp del]

subsection \<open>The abstract view: a list of slot types\<close>

definition memory_ok :: "memory_config \<Rightarrow> memory \<Rightarrow> bool" where
  "memory_ok C m \<longleftrightarrow> config_ok C \<and> length m = cache_entries C * entry_size C"

definition slots :: "memory_config \<Rightarrow> memory \<Rightarrow> u8 list" where
  "slots C m = map (\<lambda>i. m ! (i * entry_size C)) [0..<cache_entries C]"

definition positions :: "memory_config \<Rightarrow> u8 \<Rightarrow> u8 list \<Rightarrow> nat list" where
  "positions C type ts = map (\<lambda>i. i * entry_size C) (filter (\<lambda>i. ts ! i = type) [0..<cache_entries C])"

lemma slot_inside: "config_ok C \<Longrightarrow> i < n \<Longrightarrow> o' < entry_size C \<Longrightarrow> i * entry_size C + o' < n * entry_size C"
proof -
  assume i: "i < n" and o: "o' < entry_size C"
  have "i * entry_size C + o' < (i + 1) * entry_size C" using o by (simp add: algebra_simps)
  also have "\<dots> \<le> n * entry_size C" using i by (intro mult_le_mono1) simp
  finally show ?thesis .
qed

lemma slot_positions_inj: "config_ok C \<Longrightarrow> i * entry_size C = j * entry_size C \<longleftrightarrow> i = j"
  by (auto simp: config_ok_def)

lemma slots_update:
  assumes "memory_ok C m" and "i < cache_entries C"
  shows "slots C (m[i * entry_size C := v]) = (slots C m)[i := v]"
proof (rule nth_equalityI)
  show "length (slots C (m[i * entry_size C := v])) = length ((slots C m)[i := v])" by (simp add: slots_def)
  fix j assume "j < length (slots C (m[i * entry_size C := v]))"
  then have j: "j < cache_entries C" by (simp add: slots_def)
  have "j * entry_size C < length m" using slot_inside [of C j "cache_entries C" 0] assms(1) j by (auto simp: memory_ok_def config_ok_def)
  then show "slots C (m[i * entry_size C := v]) ! j = (slots C m)[i := v] ! j"
    using assms j slot_positions_inj [of C i j] by (auto simp: slots_def memory_ok_def nth_list_update)
qed

lemma field_write_keeps_slots:
  assumes "memory_ok C m" and "0 < o'" and "o' < entry_size C"
  shows "slots C (m[i * entry_size C + o' := v]) = slots C m"
proof -
  have "i * entry_size C + o' \<noteq> j * entry_size C" for j
  proof
    assume e: "i * entry_size C + o' = j * entry_size C"
    then have "(i * entry_size C + o') mod entry_size C = 0" by simp
    then show False using assms by simp
  qed
  then show ?thesis by (simp add: slots_def nth_list_update)
qed

lemma clear_ids_slots:
  "memory_ok C m \<Longrightarrow> n \<le> cache_entries C \<Longrightarrow>
   slots C (clear_ids C n m) = take (cache_entries C - n) (slots C m) @ replicate n 0 \<and> memory_ok C (clear_ids C n m)"
proof (induction n arbitrary: m)
  case 0
  then show ?case by (simp add: slots_def)
next
  case (Suc n)
  let ?i = "cache_entries C - Suc n" let ?m = "m[?i * entry_size C := 0]"
  have ok: "memory_ok C ?m" using Suc.prems by (simp add: memory_ok_def)
  have s: "slots C ?m = (slots C m)[?i := 0]" using Suc.prems by (intro slots_update) auto
  have l: "length (slots C m) = cache_entries C" by (simp add: slots_def)
  have "take (cache_entries C - n) ((slots C m)[?i := 0]) = take ?i (slots C m) @ [0]"
  proof -
    have "cache_entries C - n = Suc ?i" using Suc.prems by simp
    then show ?thesis using l Suc.prems by (simp add: take_Suc_conv_app_nth)
  qed
  then show ?case using Suc.IH [OF ok] Suc.prems s by (simp add: Let_def)
qed

lemma visited_from:
  assumes "memory_ok C m"
  shows "visited_entries C start type m =
    map (\<lambda>i. i * entry_size C) (filter (\<lambda>i. m ! (i * entry_size C) = type) [start..<cache_entries C])"
proof (induction "cache_entries C - start" arbitrary: start rule: less_induct)
  case less
  show ?case
  proof (cases "findEntry C start type m")
    case None
    then have "\<forall>l. start \<le> l \<and> l < start + (cache_entries C - start) \<longrightarrow> m ! (l * entry_size C) \<noteq> type"
      by (simp add: findEntry_def find_slot_None)
    then have "filter (\<lambda>i. m ! (i * entry_size C) = type) [start..<cache_entries C] = []"
      by (auto simp: filter_empty_conv)
    then show ?thesis using None by (subst visited_entries.simps) simp
  next
    case (Some x)
    obtain p j where x: "x = (p, j)" by (cases x)
    from find_slot_next [of C "cache_entries C - start" start type m p j] Some x
    obtain k where k: "start \<le> k" "k < start + (cache_entries C - start)" "p = k * entry_size C" "j = k + 1" "m ! p = type"
      "\<forall>l. start \<le> l \<and> l < k \<longrightarrow> m ! (l * entry_size C) \<noteq> type" by (auto simp: findEntry_def)
    have kn: "k < cache_entries C" using k by simp
    have "[start..<cache_entries C] = [start..<k] @ k # [Suc k..<cache_entries C]"
      using upt_add_eq_append [OF k(1), of "cache_entries C - k"] kn upt_conv_Cons [OF kn] by simp
    moreover have "filter (\<lambda>i. m ! (i * entry_size C) = type) [start..<k] = []" using k(6) by (auto simp: filter_empty_conv)
    ultimately show ?thesis
      using less.hyps [of "k + 1"] k kn Some x by (subst visited_entries.simps) simp
  qed
qed

lemma free_all_slots:
  "memory_ok C m \<Longrightarrow> i + n = cache_entries C \<Longrightarrow>
   slots C (free_all_from C n i type m) = take i (slots C m) @ map (\<lambda>t. if t = type then 0 else t) (drop i (slots C m)) \<and>
   length (free_all_from C n i type m) = length m"
proof (induction n arbitrary: i m)
  case 0
  then show ?case by (simp add: slots_def)
next
  case (Suc n)
  let ?m = "if m ! (i * entry_size C) = type then freeEntry (i * entry_size C) m else m"
  have ok: "memory_ok C ?m" "length ?m = length m" using Suc.prems by (simp_all add: memory_ok_def freeEntry_def)
  have i: "i < cache_entries C" using Suc.prems by simp
  have l: "length (slots C m) = cache_entries C" "slots C m ! i = m ! (i * entry_size C)" using i by (simp_all add: slots_def)
  have s: "slots C ?m = (slots C m)[i := (if slots C m ! i = type then 0 else slots C m ! i)]"
    using slots_update [OF Suc.prems(1) i, of 0] l list_update_id [of "slots C m" i] by (simp add: freeEntry_def)
  have IH: "slots C (free_all_from C n (i + 1) type ?m) = take (i + 1) (slots C ?m) @ map (\<lambda>t. if t = type then 0 else t) (drop (i + 1) (slots C ?m))"
    "length (free_all_from C n (i + 1) type ?m) = length m"
    using Suc.IH [OF ok(1), of "i + 1"] Suc.prems(2) ok(2) by auto
  have "drop i (slots C m) = slots C m ! i # drop (Suc i) (slots C m)" using i l(1) by (simp only: Cons_nth_drop_Suc)
  then show ?case using IH i l by (simp add: s take_Suc_conv_app_nth)
qed

lemma position_from_value:
  "config_ok C \<Longrightarrow> i \<le> k \<Longrightarrow> k < i + n \<Longrightarrow> position_from C n i (k * entry_size C) = of_nat k"
proof (induction n arbitrary: i)
  case (Suc n)
  then show ?case using slot_positions_inj [of C i k] by (cases "i = k") auto
qed simp

lemma position_from_undefined:
  "\<forall>k. i \<le> k \<and> k < i + n \<longrightarrow> k * entry_size C \<noteq> p \<Longrightarrow> position_from C n i p = EntryUndefined"
  by (induction n arbitrary: i) auto

text \<open>C27: The byte array implements a table of typed slots. A fresh memory has only free slots; a search finds the first slot of its
  type from the start position on, and the loop of the clients visits all of them once, in order; reserving an entry
  changes the type of that slot only, writing the fields of an entry changes no type, \<open>freeAll\<close> frees exactly the
  slots of a type; and positions and entries correspond one to one.\<close>

theorem address_memory_refines_slots:
  assumes "memory_ok C m" and "i < cache_entries C" and "0 < off" and "off < entry_size C"
  shows "slots C (new_AddressMemory C m) = replicate (cache_entries C) 0 \<and>
    (findEntry C start type m = None \<longleftrightarrow> (\<forall>k. start \<le> k \<and> k < cache_entries C \<longrightarrow> slots C m ! k \<noteq> type)) \<and>
    visited_entries C 0 type m = positions C type (slots C m) \<and>
    slots C (address_reserve (i * entry_size C) m) = (slots C m)[i := AddressEntry_ID] \<and>
    slots C (ndp_reserve (i * entry_size C) m) = (slots C m)[i := NDPCacheEntry_ID] \<and>
    slots C (multicast_reserve (i * entry_size C) m) = (slots C m)[i := MulticastGroupEntry_ID] \<and>
    slots C (freeEntry (i * entry_size C) m) = (slots C m)[i := FreeEntry_ID] \<and>
    slots C (m[i * entry_size C + off := v]) = slots C m \<and>
    slots C (freeAll C type m) = map (\<lambda>t. if t = type then FreeEntry_ID else t) (slots C m) \<and>
    getPosition C (i * entry_size C) = of_nat i \<and> getEntryAtPosition C (of_nat i) = i * entry_size C \<and>
    getPosition C (i * entry_size C + off) = EntryUndefined"
proof (intro conjI)
  have C: "config_ok C" using assms(1) by (simp add: memory_ok_def)
  show "slots C (new_AddressMemory C m) = replicate (cache_entries C) 0"
    using clear_ids_slots [OF assms(1), of "cache_entries C"] by (simp add: new_AddressMemory_def)
  show "findEntry C start type m = None \<longleftrightarrow> (\<forall>k. start \<le> k \<and> k < cache_entries C \<longrightarrow> slots C m ! k \<noteq> type)"
    by (auto simp: findEntry_def find_slot_None slots_def)
  show "visited_entries C 0 type m = positions C type (slots C m)"
    unfolding visited_from [OF assms(1)] positions_def by (intro arg_cong [of _ _ "map _"] filter_cong) (simp_all add: slots_def)
  show "slots C (address_reserve (i * entry_size C) m) = (slots C m)[i := AddressEntry_ID]"
    "slots C (ndp_reserve (i * entry_size C) m) = (slots C m)[i := NDPCacheEntry_ID]"
    "slots C (multicast_reserve (i * entry_size C) m) = (slots C m)[i := MulticastGroupEntry_ID]"
    "slots C (freeEntry (i * entry_size C) m) = (slots C m)[i := FreeEntry_ID]"
    by (simp_all add: address_reserve_def ndp_reserve_def multicast_reserve_def freeEntry_def FreeEntry_ID_def
      slots_update [OF assms(1,2)])
  show "slots C (m[i * entry_size C + off := v]) = slots C m" by (rule field_write_keeps_slots [OF assms(1,3,4)])
  show "slots C (freeAll C type m) = map (\<lambda>t. if t = type then FreeEntry_ID else t) (slots C m)"
    using free_all_slots [OF assms(1), of 0 "cache_entries C"] by (simp add: freeAll_def FreeEntry_ID_def)
  show "getPosition C (i * entry_size C) = of_nat i"
    using position_from_value [OF C, of 0 i "cache_entries C"] assms(2) by (simp add: getPosition_def)
  show "getEntryAtPosition C (of_nat i) = i * entry_size C"
    using assms(2) C by (simp add: getEntryAtPosition_def config_ok_def unat_of_nat_u8)
  have "k * entry_size C \<noteq> i * entry_size C + off" for k
  proof
    assume e: "k * entry_size C = i * entry_size C + off"
    then have "(i * entry_size C + off) mod entry_size C = 0" by (metis mod_mult_self2_is_0)
    then show False using assms(3,4) by simp
  qed
  then show "getPosition C (i * entry_size C + off) = EntryUndefined"
    unfolding getPosition_def by (intro position_from_undefined) simp
qed

definition witness_memory_config :: memory_config where
  "witness_memory_config = \<lparr>entry_size = 26, cache_entries = 10\<rparr>"

theorem address_memory_refines_slots_witness:
  "visited_entries witness_memory_config 0 AddressEntry_ID ((replicate 260 0)[26 := AddressEntry_ID, 78 := AddressEntry_ID]) = [26, 78]"
proof -
  let ?m = "(replicate 260 0)[26 := AddressEntry_ID, 78 := AddressEntry_ID]"
  have "memory_ok witness_memory_config ?m" "1 < cache_entries witness_memory_config" "0 < (1 :: nat)" "1 < entry_size witness_memory_config"
    by (simp_all add: memory_ok_def config_ok_def witness_memory_config_def)
  from address_memory_refines_slots [OF this, of 0 AddressEntry_ID]
  have "visited_entries witness_memory_config 0 AddressEntry_ID ?m = positions witness_memory_config AddressEntry_ID (slots witness_memory_config ?m)"
    by blast
  also have "\<dots> = [26, 78]" by code_simp
  finally show ?thesis .
qed

end
