(* ===== verification/IPv6_Layer.thy ===== *)
theory IPv6_Layer
  imports Address_Memory Checksum
begin

text \<open>
  IPv6: the packet class of \<^verbatim>\<open>ipv6/IPv6.h\<close>, the addresses of an interface (\<^verbatim>\<open>ipv6/Interface_IPv6_Slice.ah\<close>), the route
  search (\<^verbatim>\<open>ipv6/RouteResult.h\<close>, \<^verbatim>\<open>ipv6/Router_IPv6_Slice.ah\<close>) and the sender's side of a socket (\<^verbatim>\<open>ipv6/IPv6onSockets.h\<close>,
  \<^verbatim>\<open>ipv6/IPv6onSockets.cpp\<close>). \<open>v6_payload_length\<close> is the field in memory; its getter and setter are woven with
  \<^verbatim>\<open>Little_Endian.ah\<close>.
\<close>

subsection \<open>The packet\<close>

record IPv6_Packet =
  v6_traffic_class1 :: u8
  v6_version :: u8
  v6_traffic_class2_flowLabel1 :: u8
  v6_flowLabel2 :: u8
  v6_flowLabel3 :: u8
  v6_payload_length :: u16
  v6_nextheader :: u8
  v6_hoplimit :: u8
  v6_src :: ipv6addr
  v6_dst :: ipv6addr
  v6_payload :: "u8 list"

definition IPV6_VERSION :: u8 where "IPV6_VERSION = 6"
definition IPV6_HEADER_SIZE_IN_BYTES :: u32 where "IPV6_HEADER_SIZE_IN_BYTES = 40"
definition IPV6_DEFAULT_HOPLIMIT :: u8 where "IPV6_DEFAULT_HOPLIMIT = 255"

lemmas ipv6_constants = IPV6_VERSION_def IPV6_HEADER_SIZE_IN_BYTES_def IPV6_DEFAULT_HOPLIMIT_def

definition v6_setUpHeader :: "IPv6_Packet \<Rightarrow> IPv6_Packet" where
  "v6_setUpHeader p = p\<lparr>v6_flowLabel3 := 0, v6_flowLabel2 := 0, v6_traffic_class2_flowLabel1 := 0, v6_traffic_class1 := 0,
                        v6_version := IPV6_VERSION\<rparr>"

definition v6_get_payload_len :: "IPv6_Packet \<Rightarrow> u16" where "v6_get_payload_len p = ntohs (v6_payload_length p)"
definition v6_set_payload_len :: "u16 \<Rightarrow> IPv6_Packet \<Rightarrow> IPv6_Packet" where
  "v6_set_payload_len len p = p\<lparr>v6_payload_length := htons len\<rparr>"
definition v6_get_version :: "IPv6_Packet \<Rightarrow> u8" where "v6_get_version p = v6_version p"
definition v6_get_hoplimit :: "IPv6_Packet \<Rightarrow> u8" where "v6_get_hoplimit p = v6_hoplimit p"
definition v6_set_hoplimit :: "u8 \<Rightarrow> IPv6_Packet \<Rightarrow> IPv6_Packet" where "v6_set_hoplimit t p = p\<lparr>v6_hoplimit := t\<rparr>"
definition v6_get_nextheader :: "IPv6_Packet \<Rightarrow> u8" where "v6_get_nextheader p = v6_nextheader p"
definition v6_set_nextheader :: "u8 \<Rightarrow> IPv6_Packet \<Rightarrow> IPv6_Packet" where "v6_set_nextheader i p = p\<lparr>v6_nextheader := i\<rparr>"
definition v6_get_src_ipaddr :: "IPv6_Packet \<Rightarrow> ipv6addr" where "v6_get_src_ipaddr p = v6_src p"
definition v6_set_src_ipaddr :: "ipv6addr \<Rightarrow> IPv6_Packet \<Rightarrow> IPv6_Packet" where
  "v6_set_src_ipaddr addr p = p\<lparr>v6_src := copy_ipv6_addr addr (v6_src p)\<rparr>"
definition v6_get_dst_ipaddr :: "IPv6_Packet \<Rightarrow> ipv6addr" where "v6_get_dst_ipaddr p = v6_dst p"
definition v6_set_dst_ipaddr :: "ipv6addr \<Rightarrow> IPv6_Packet \<Rightarrow> IPv6_Packet" where
  "v6_set_dst_ipaddr addr p = p\<lparr>v6_dst := copy_ipv6_addr addr (v6_dst p)\<rparr>"
definition v6_get_payload :: "IPv6_Packet \<Rightarrow> u8 list" where "v6_get_payload p = v6_payload p"

lemmas ipv6_fields = v6_get_payload_len_def v6_set_payload_len_def v6_get_version_def v6_get_hoplimit_def v6_set_hoplimit_def
  v6_get_nextheader_def v6_set_nextheader_def v6_get_src_ipaddr_def v6_set_src_ipaddr_def v6_get_dst_ipaddr_def
  v6_set_dst_ipaddr_def v6_get_payload_def

definition v6_validPacketLength :: "u32 \<Rightarrow> IPv6_Packet \<Rightarrow> u32" where
  "v6_validPacketLength packet_len p =
     (if packet_len < IPV6_HEADER_SIZE_IN_BYTES then 0
      else let total_len = v6_get_payload_len p in
      if ucast total_len > packet_len then 0 else ucast total_len)"

subsection \<open>Interfaces\<close>

record v6_interface =
  if_ipv6_up :: bool
  if_addressmemory :: memory

definition isIPv6Up :: "v6_interface \<Rightarrow> bool" where "isIPv6Up ifc = if_ipv6_up ifc"

definition setIPv6Up :: "memory_config \<Rightarrow> bool \<Rightarrow> v6_interface \<Rightarrow> v6_interface" where
  "setIPv6Up C up ifc =
     (let ifc = (if \<not> up \<and> if_ipv6_up ifc then ifc\<lparr>if_addressmemory := freeAll C AddressEntry_ID (if_addressmemory ifc)\<rparr> else ifc)
      in ifc\<lparr>if_ipv6_up := up\<rparr>)"

definition hasIPv6Address :: "memory_config \<Rightarrow> ipv6addr \<Rightarrow> v6_interface \<Rightarrow> bool" where
  "hasIPv6Address C addr ifc =
     list_ex (\<lambda>e. compare_ipv6_addr_prefix addr (entry_ipv6 (if_addressmemory ifc) e) (entry_prefixlen (if_addressmemory ifc) e))
       (visited_entries C 0 AddressEntry_ID (if_addressmemory ifc))"

subsection \<open>Routes\<close>

text \<open>A route: the position of the proposed source address in the memory of the interface it is on, the interface, and the
  flag.\<close>

record RouteResult =
  proposed_src_addr :: "(nat \<times> nat) option"
  route_interface :: "nat option"
  isDefaultRouter :: bool

definition invalid_route :: "bool \<Rightarrow> RouteResult" where
  "invalid_route raw = \<lparr>proposed_src_addr = None, route_interface = None, isDefaultRouter = raw\<rparr>"

definition valid_route :: "nat \<Rightarrow> nat \<Rightarrow> RouteResult" where
  "valid_route i e = \<lparr>proposed_src_addr = Some (i, e), route_interface = Some i, isDefaultRouter = False\<rparr>"

definition ipv6_find_route_is_matching :: "ipv6addr \<Rightarrow> memory \<Rightarrow> nat \<Rightarrow> bool" where
  "ipv6_find_route_is_matching dst m e = compare_ipv6_addr_prefix dst (entry_ipv6 m e) (entry_prefixlen m e)"

text \<open>The loop over the address entries of interface \<open>i\<close>: the route when one matches, otherwise the remembered default.\<close>

fun try_addresses :: "ipv6addr \<Rightarrow> nat \<Rightarrow> memory \<Rightarrow> nat list \<Rightarrow> RouteResult \<Rightarrow> RouteResult + RouteResult" where
  "try_addresses dst i m [] backup = Inr backup"
| "try_addresses dst i m (e # es) backup =
     (if ipv6_find_route_is_matching dst m e then Inl (valid_route i e)
      else try_addresses dst i m es
        (if route_interface backup = None \<and> getIPv6AddressScope (entry_ipv6 m e) = IPV6_SCOPE_GLOBAL_UNICAST
         then backup\<lparr>proposed_src_addr := Some (i, e)\<rparr> else backup))"

definition try_routers :: "nat \<Rightarrow> memory \<Rightarrow> nat list \<Rightarrow> RouteResult \<Rightarrow> RouteResult" where
  "try_routers i m es backup =
     (if route_interface backup = None \<and> list_ex (ndp_isRouting m) es then backup\<lparr>route_interface := Some i\<rparr> else backup)"

fun find_route6_from :: "memory_config \<Rightarrow> nat \<Rightarrow> ipv6addr \<Rightarrow> v6_interface list \<Rightarrow> RouteResult \<Rightarrow> RouteResult" where
  "find_route6_from C i dst [] backup = backup\<lparr>isDefaultRouter := True\<rparr>"
| "find_route6_from C i dst (ifc # ifs) backup =
     (if isIPv6Up ifc
      then case try_addresses dst i (if_addressmemory ifc) (visited_entries C 0 AddressEntry_ID (if_addressmemory ifc)) backup of
             Inl route \<Rightarrow> route
           | Inr backup \<Rightarrow> find_route6_from C (i + 1) dst ifs
               (try_routers i (if_addressmemory ifc) (visited_entries C 0 NDPCacheEntry_ID (if_addressmemory ifc)) backup)
      else find_route6_from C (i + 1) dst ifs backup)"

definition ipv6_find_route :: "memory_config \<Rightarrow> bool \<Rightarrow> ipv6addr \<Rightarrow> v6_interface list \<Rightarrow> RouteResult" where
  "ipv6_find_route C raw dst ifs = find_route6_from C 0 dst ifs (invalid_route raw)"

subsection \<open>The socket's side\<close>

record IPV6 =
  v6s_interface :: "nat option"
  v6s_src_addr :: ipv6addr
  v6s_dst_addr :: ipv6addr
  v6s_hoplimit :: u8

definition v6s_restoreDefaultSendingConfiguration :: "IPV6 \<Rightarrow> IPV6" where
  "v6s_restoreDefaultSendingConfiguration s = s\<lparr>v6s_hoplimit := IPV6_DEFAULT_HOPLIMIT\<rparr>"

definition new_IPV6 :: "IPV6 \<Rightarrow> IPV6" where
  "new_IPV6 raw = v6s_restoreDefaultSendingConfiguration
     (raw\<lparr>v6s_interface := None, v6s_src_addr := get_unspecified_ipv6_address (v6s_src_addr raw),
          v6s_dst_addr := get_unspecified_ipv6_address (v6s_dst_addr raw)\<rparr>)"

definition v6s_resolveRoute :: "memory_config \<Rightarrow> bool \<Rightarrow> v6_interface list \<Rightarrow> IPV6 \<Rightarrow> (nat \<times> nat) option \<times> IPV6" where
  "v6s_resolveRoute C raw ifs s =
     (if byte6 (v6s_dst_addr s) 0 = 0 then (None, s\<lparr>v6s_interface := None\<rparr>)
      else let route = ipv6_find_route C raw (v6s_dst_addr s) ifs;
               s = (case proposed_src_addr route of
                      Some (i, e) \<Rightarrow>
                        let m = if_addressmemory (ifs ! i);
                            s = s\<lparr>v6s_src_addr := copy_ipv6_addr (entry_ipv6 m e) (v6s_src_addr s)\<rparr>
                        in if entry_hoplimit m e \<noteq> 0 then s\<lparr>v6s_hoplimit := entry_hoplimit m e\<rparr>
                           else s\<lparr>v6s_hoplimit := IPV6_DEFAULT_HOPLIMIT\<rparr>
                    | None \<Rightarrow> s\<lparr>v6s_src_addr := get_unspecified_ipv6_address (v6s_src_addr s)\<rparr>)
           in (proposed_src_addr route, s\<lparr>v6s_interface := route_interface route\<rparr>))"

definition v6s_get_nexthop_ipaddr :: "IPV6 \<Rightarrow> ipv6addr" where "v6s_get_nexthop_ipaddr s = v6s_dst_addr s"

definition v6s_setupHeader :: "u32 \<Rightarrow> IPV6 \<Rightarrow> IPv6_Packet \<Rightarrow> IPv6_Packet" where
  "v6s_setupHeader datasize s p =
     (let p = v6_setUpHeader p;
          p = v6_set_payload_len (ucast (datasize - IPV6_HEADER_SIZE_IN_BYTES)) p;
          p = v6_set_hoplimit (v6s_hoplimit s) p;
          p = v6_set_src_ipaddr (v6s_src_addr s) p
      in v6_set_dst_ipaddr (v6s_dst_addr s) p)"

definition v6s_hasValidInterface :: "IPV6 \<Rightarrow> bool" where "v6s_hasValidInterface s \<longleftrightarrow> v6s_interface s \<noteq> None"

definition v6s_getSpecificHeaderSize :: u32 where "v6s_getSpecificHeaderSize = IPV6_HEADER_SIZE_IN_BYTES"

definition v6s_setHoplimit :: "u8 \<Rightarrow> IPV6 \<Rightarrow> IPV6" where "v6s_setHoplimit h s = s\<lparr>v6s_hoplimit := h\<rparr>"

definition v6s_set_dst_addr :: "memory_config \<Rightarrow> bool \<Rightarrow> v6_interface list \<Rightarrow> ipv6addr \<Rightarrow> nat option \<Rightarrow> IPV6 \<Rightarrow> IPV6" where
  "v6s_set_dst_addr C raw ifs dst ifc s =
     (let s = s\<lparr>v6s_dst_addr := copy_ipv6_addr dst (v6s_dst_addr s)\<rparr> in
      case ifc of None \<Rightarrow> snd (v6s_resolveRoute C raw ifs s) | Some i \<Rightarrow> s\<lparr>v6s_interface := Some i\<rparr>)"

definition v6s_set_src_addr :: "ipv6addr \<Rightarrow> IPV6 \<Rightarrow> IPV6" where
  "v6s_set_src_addr src s = s\<lparr>v6s_src_addr := copy_ipv6_addr src (v6s_src_addr s)\<rparr>"

definition v6s_get_dst_addr :: "IPV6 \<Rightarrow> ipv6addr" where "v6s_get_dst_addr s = v6s_dst_addr s"
definition v6s_get_src_addr :: "IPV6 \<Rightarrow> ipv6addr" where "v6s_get_src_addr s = v6s_src_addr s"

definition v6s_hasValidSrcDestAddresses :: "IPV6 \<Rightarrow> bool" where
  "v6s_hasValidSrcDestAddresses s \<longleftrightarrow> byte6 (v6s_src_addr s) 0 \<noteq> 0 \<and> byte6 (v6s_dst_addr s) 0 \<noteq> 0"

subsection \<open>The search for a route\<close>

definition address_entries :: "memory_config \<Rightarrow> v6_interface \<Rightarrow> nat list" where
  "address_entries C ifc = visited_entries C 0 AddressEntry_ID (if_addressmemory ifc)"

definition neighbour_entries :: "memory_config \<Rightarrow> v6_interface \<Rightarrow> nat list" where
  "neighbour_entries C ifc = visited_entries C 0 NDPCacheEntry_ID (if_addressmemory ifc)"

definition has_prefix_route :: "memory_config \<Rightarrow> ipv6addr \<Rightarrow> v6_interface \<Rightarrow> bool" where
  "has_prefix_route C dst ifc \<longleftrightarrow>
     isIPv6Up ifc \<and> (\<exists>e \<in> set (address_entries C ifc). ipv6_find_route_is_matching dst (if_addressmemory ifc) e)"

definition has_router :: "memory_config \<Rightarrow> v6_interface \<Rightarrow> bool" where
  "has_router C ifc \<longleftrightarrow> isIPv6Up ifc \<and> (\<exists>e \<in> set (neighbour_entries C ifc). ndp_isRouting (if_addressmemory ifc) e)"

text \<open>What is right about a route of the interfaces from \<open>i\<close> on, when a default is already remembered or not.\<close>

definition route_ok :: "memory_config \<Rightarrow> nat \<Rightarrow> ipv6addr \<Rightarrow> v6_interface list \<Rightarrow> nat option \<Rightarrow> RouteResult \<Rightarrow> bool" where
  "route_ok C i dst ifs known r \<longleftrightarrow>
     (if isDefaultRouter r
      then (\<forall>ifc \<in> set ifs. \<not> has_prefix_route C dst ifc) \<and>
           route_interface r = (case known of Some j \<Rightarrow> Some j
                                | None \<Rightarrow> map_option (\<lambda>k. i + k) (List.find (\<lambda>k. has_router C (ifs ! k)) [0..<length ifs]))
      else \<exists>k < length ifs. \<exists>e. r = valid_route (i + k) e \<and> isIPv6Up (ifs ! k) \<and> e \<in> set (address_entries C (ifs ! k)) \<and>
             ipv6_find_route_is_matching dst (if_addressmemory (ifs ! k)) e \<and>
             (\<forall>j < k. \<not> has_prefix_route C dst (ifs ! j)))"

lemma try_addresses_cases:
  "case try_addresses dst i m es backup of
     Inl r \<Rightarrow> \<exists>e \<in> set es. r = valid_route i e \<and> ipv6_find_route_is_matching dst m e
   | Inr b \<Rightarrow> (\<forall>e \<in> set es. \<not> ipv6_find_route_is_matching dst m e) \<and> route_interface b = route_interface backup"
proof (induction es arbitrary: backup)
  case (Cons e es)
  show ?case
  proof (cases "ipv6_find_route_is_matching dst m e")
    case False
    define b where "b = (if route_interface backup = None \<and> getIPv6AddressScope (entry_ipv6 m e) = IPV6_SCOPE_GLOBAL_UNICAST
         then backup\<lparr>proposed_src_addr := Some (i, e)\<rparr> else backup)"
    have "route_interface b = route_interface backup" by (simp add: b_def)
    then show ?thesis using Cons.IH [of b] False
      unfolding try_addresses.simps b_def [symmetric] by (auto split: sum.splits)
  qed simp
qed simp

lemma find_upt_Suc:
  "List.find P [0..<Suc n] = (if P 0 then Some 0 else map_option Suc (List.find (\<lambda>k. P (Suc k)) [0..<n]))"
proof -
  have "List.find P (map Suc xs) = map_option Suc (List.find (\<lambda>k. P (Suc k)) xs)" for xs
    by (induction xs) auto
  then show ?thesis by (simp add: upt_conv_Cons map_Suc_upt [symmetric] del: upt_Suc)
qed

lemma route_ok_Cons:
  assumes r: "route_ok C (i + 1) dst ifs known' r" and no: "\<not> has_prefix_route C dst ifc"
    and known: "known' = (case known of Some j \<Rightarrow> Some j | None \<Rightarrow> if has_router C ifc then Some i else None)"
  shows "route_ok C i dst (ifc # ifs) known r"
proof (cases "isDefaultRouter r")
  have e: "(\<lambda>k. i + Suc k) = (+) (Suc i)" by auto
  case True
  then have "route_interface r = (case known' of Some j \<Rightarrow> Some j
      | None \<Rightarrow> map_option (\<lambda>k. i + Suc k) (List.find (\<lambda>k. has_router C (ifs ! k)) [0..<length ifs]))"
    and "\<forall>ifc \<in> set ifs. \<not> has_prefix_route C dst ifc"
    unfolding e using r by (simp_all add: route_ok_def)
  moreover have "List.find (\<lambda>k. has_router C ((ifc # ifs) ! k)) [0..<length (ifc # ifs)] =
      (if has_router C ifc then Some 0 else map_option Suc (List.find (\<lambda>k. has_router C (ifs ! k)) [0..<length ifs]))"
    using find_upt_Suc [of "\<lambda>k. has_router C ((ifc # ifs) ! k)" "length ifs"] by (simp del: upt_Suc)
  ultimately show ?thesis
    using True no unfolding route_ok_def known by (cases known) (simp_all add: option.map_comp o_def del: upt_Suc list.size)
next
  case False
  then obtain k e where k: "k < length ifs" "r = valid_route (i + 1 + k) e" "isIPv6Up (ifs ! k)" "e \<in> set (address_entries C (ifs ! k))"
      "ipv6_find_route_is_matching dst (if_addressmemory (ifs ! k)) e" "\<forall>j < k. \<not> has_prefix_route C dst (ifs ! j)"
    using r by (auto simp: route_ok_def)
  have "\<forall>j < Suc k. \<not> has_prefix_route C dst ((ifc # ifs) ! j)" using k(6) no by (auto simp: less_Suc_eq_0_disj)
  then show ?thesis using False k unfolding route_ok_def if_not_P [OF False]
    by (intro exI [of _ "Suc k"] conjI exI [of _ e]) auto
qed

lemma find_route6_ok: "route_ok C i dst ifs (route_interface backup) (find_route6_from C i dst ifs backup)"
proof (induction ifs arbitrary: i backup)
  case Nil
  then show ?case by (simp add: route_ok_def split: option.split)
next
  case (Cons ifc ifs)
  let ?m = "if_addressmemory ifc"
  show ?case
  proof (cases "isIPv6Up ifc")
    case False
    then have "\<not> has_prefix_route C dst ifc" "\<not> has_router C ifc" by (simp_all add: has_prefix_route_def has_router_def)
    then show ?thesis using False Cons.IH [of "i + 1" backup]
      by (intro route_ok_Cons [where known' = "route_interface backup"]) (auto split: option.split)
  next
    case up: True
    show ?thesis
    proof (cases "try_addresses dst i ?m (visited_entries C 0 AddressEntry_ID ?m) backup")
      case (Inl r)
      then obtain e where e: "e \<in> set (visited_entries C 0 AddressEntry_ID ?m)" "r = valid_route i e" "ipv6_find_route_is_matching dst ?m e"
        using try_addresses_cases [where dst = dst and i = i and m = ?m and es = "visited_entries C 0 AddressEntry_ID ?m" and backup = backup] by auto
      then show ?thesis using up Inl by (auto simp: route_ok_def valid_route_def address_entries_def)
    next
      case (Inr b)
      then have b: "\<forall>e \<in> set (visited_entries C 0 AddressEntry_ID ?m). \<not> ipv6_find_route_is_matching dst ?m e"
          "route_interface b = route_interface backup"
        using try_addresses_cases [where dst = dst and i = i and m = ?m and es = "visited_entries C 0 AddressEntry_ID ?m" and backup = backup] by auto
      let ?b = "try_routers i ?m (visited_entries C 0 NDPCacheEntry_ID ?m) b"
      have "route_interface ?b = (case route_interface backup of Some j \<Rightarrow> Some j | None \<Rightarrow> if has_router C ifc then Some i else None)"
        using up b(2) by (auto simp: try_routers_def has_router_def neighbour_entries_def list_ex_iff split: option.split)
      moreover have "\<not> has_prefix_route C dst ifc" using b(1) by (simp add: has_prefix_route_def address_entries_def)
      ultimately have "route_ok C i dst (ifc # ifs) (route_interface backup) (find_route6_from C (i + 1) dst ifs ?b)"
        by (intro route_ok_Cons [OF Cons.IH])
      then show ?thesis using up Inr by simp
    qed
  qed
qed

lemma map_option_add_0: "map_option ((+) 0) x = (x :: nat option)"
  by (cases x) simp_all



subsection \<open>From sender to receiver\<close>

text \<open>A packet that a socket built is accepted with its exact payload length from every frame that holds it, and keeps its
  hop limit and addresses; but the check compares the payload with the whole frame and forgets the header, so the
  packet is also accepted from a frame that lost up to 40 of its last bytes.\<close>

theorem ipv6_sender_accepted:
  assumes "ipv6_ok (v6s_src_addr s)" and "ipv6_ok (v6s_dst_addr s)" and "ipv6_ok (v6_src p)" and "ipv6_ok (v6_dst p)"
    and "40 < datasize" and "datasize < 65536"
  shows "v6_get_version (v6s_setupHeader datasize s p) = 6 \<and> v6_get_hoplimit (v6s_setupHeader datasize s p) = v6s_hoplimit s \<and>
    v6_get_src_ipaddr (v6s_setupHeader datasize s p) = v6s_src_addr s \<and>
    v6_get_dst_ipaddr (v6s_setupHeader datasize s p) = v6s_dst_addr s \<and>
    (v6_validPacketLength framelen (v6s_setupHeader datasize s p) =
       (if 40 \<le> framelen \<and> datasize - 40 \<le> framelen then datasize - 40 else 0))"
proof -
  let ?p = "v6s_setupHeader datasize s p"
  have c: "copy_ipv6_addr a b = a" if "ipv6_ok a" "ipv6_ok b" for a b :: ipv6addr
    using that by (cases a; cases b) (simp add: copy_ipv6_addr_def ipv6_ok_def)
  have f: "v6_get_version ?p = 6" "v6_get_hoplimit ?p = v6s_hoplimit s" "v6_get_src_ipaddr ?p = v6s_src_addr s"
      "v6_get_dst_ipaddr ?p = v6s_dst_addr s" "v6_get_payload_len ?p = ucast (datasize - 40)"
    using assms(1-4) by (simp_all add: v6s_setupHeader_def Let_def v6_setUpHeader_def ipv6_fields ipv6_constants c ntohs_def htons_involution)
  have d: "40 < unat datasize" "unat datasize < 65536" using assms(5,6) by (simp_all add: word_less_nat_alt)
  then have u: "unat (datasize - 40) = unat datasize - 40" by (simp add: unat_sub word_le_nat_alt)
  have w: "(ucast (ucast (datasize - 40) :: u16) :: u32) = datasize - 40"
  proof -
    have "unat (ucast (datasize - 40) :: u16) = unat (datasize - 40) mod 65536" by (simp only: unsigned_ucast_eq) (simp add: take_bit_eq_mod)
    then have "unat (ucast (ucast (datasize - 40) :: u16) :: u32) = unat (datasize - 40)" using u d by simp
    then show ?thesis by (simp only: word_unat_eq_iff)
  qed
  show ?thesis unfolding v6_validPacketLength_def f Let_def w IPV6_HEADER_SIZE_IN_BYTES_def using f by auto
qed

theorem ipv6_sender_accepted_witness:
  "\<exists>p. v6_get_version p = 6 \<and> v6_validPacketLength 100 p = 60 \<and> v6_validPacketLength 60 p = 60"
proof -
  let ?a = "\<lparr>ipaddrB8 = replicate 16 0\<rparr>"
  let ?s = "\<lparr>v6s_interface = None, v6s_src_addr = ?a, v6s_dst_addr = witness_ipv6, v6s_hoplimit = 255\<rparr>"
  let ?p = "\<lparr>v6_traffic_class1 = 0, v6_version = 0, v6_traffic_class2_flowLabel1 = 0, v6_flowLabel2 = 0, v6_flowLabel3 = 0,
     v6_payload_length = 0, v6_nextheader = 0, v6_hoplimit = 0, v6_src = ?a, v6_dst = ?a, v6_payload = []\<rparr>"
  have ok: "ipv6_ok (v6s_src_addr ?s)" "ipv6_ok (v6s_dst_addr ?s)" "ipv6_ok (v6_src ?p)" "ipv6_ok (v6_dst ?p)"
    by (simp_all add: ipv6_ok_def witness_ipv6_def)
  show ?thesis
    using ipv6_sender_accepted [OF ok, of 100 100] ipv6_sender_accepted [OF ok, of 100 60] by auto
qed

end
