(* ===== verification/Link_Frames.thy ===== *)
theory Link_Frames
  imports Checksum
begin

text \<open>
  Packets as bytes: \<^verbatim>\<open>ethernet/Eth_Frame.h\<close>, \<^verbatim>\<open>arp/ARP.h\<close>, \<^verbatim>\<open>arp/ipv4/Eth_ARP_IPv4_Packet.h\<close>, \<^verbatim>\<open>udp/UDP.h\<close>,
  \<^verbatim>\<open>icmpv4/ICMP.h\<close> and \<^verbatim>\<open>icmpv6/ICMPv6.h\<close> are packed structures, so a packet is a list of bytes and a field an offset in
  it. The getters and setters of 16 bits are woven with \<^verbatim>\<open>Little_Endian.ah\<close>. A packet is never shorter than its header;
  \<open>put_bytes\<close> writes inside it. The requests and replies of the ARP cache (\<^verbatim>\<open>arp/ipv4\<close>) are built from these.
\<close>

subsection \<open>Fields in memory\<close>

definition put_bytes :: "nat \<Rightarrow> u8 list \<Rightarrow> u8 list \<Rightarrow> u8 list" where
  "put_bytes off bs m = take off m @ bs @ drop (off + length bs) m"

definition get8 :: "nat \<Rightarrow> u8 list \<Rightarrow> u8" where "get8 off m = m ! off"
definition set8 :: "nat \<Rightarrow> u8 \<Rightarrow> u8 list \<Rightarrow> u8 list" where "set8 off v m = put_bytes off [v] m"
definition get16 :: "nat \<Rightarrow> u8 list \<Rightarrow> u16" where "get16 off m = ntohs (load16 (m ! off) (m ! (off + 1)))"
definition set16 :: "nat \<Rightarrow> u16 \<Rightarrow> u8 list \<Rightarrow> u8 list" where "set16 off v m = put_bytes off (store16 (htons v)) m"
definition get32 :: "nat \<Rightarrow> u8 list \<Rightarrow> u32" where
  "get32 off m = load32 (m ! off) (m ! (off + 1)) (m ! (off + 2)) (m ! (off + 3))"
definition set32 :: "nat \<Rightarrow> u32 \<Rightarrow> u8 list \<Rightarrow> u8 list" where "set32 off v m = put_bytes off (store32 v) m"

lemma length_put [simp]: "off + length bs \<le> length m \<Longrightarrow> length (put_bytes off bs m) = length m"
  by (simp add: put_bytes_def)

lemma nth_put:
  "off + length bs \<le> length m \<Longrightarrow> i < length m \<Longrightarrow>
   put_bytes off bs m ! i = (if off \<le> i \<and> i < off + length bs then bs ! (i - off) else m ! i)"
  by (auto simp: put_bytes_def nth_append min_def)

lemma length_store [simp]: "length (store16 v) = 2" "length (store32 w) = 4"
  by (simp_all add: store16_def store32_def)

lemma length_sets [simp]:
  "off < length m \<Longrightarrow> length (set8 off v m) = length m"
  "off + 2 \<le> length m \<Longrightarrow> length (set16 off w m) = length m"
  "off + 4 \<le> length m \<Longrightarrow> length (set32 off x m) = length m"
  by (simp_all add: set8_def set16_def set32_def)

text \<open>Reading back what was written, and what a write does not touch.\<close>

lemma get_set8: "off < length m \<Longrightarrow> get8 off (set8 off v m) = v"
  by (simp add: get8_def set8_def nth_put)

lemma get_set16: "off + 2 \<le> length m \<Longrightarrow> get16 off (set16 off v m) = v"
  by (simp add: get16_def set16_def nth_put store16_def load16_store16 ntohs_def htons_involution)

lemma get_set32: "off + 4 \<le> length m \<Longrightarrow> get32 off (set32 off v m) = v"
  by (simp add: get32_def set32_def nth_put store32_def load32_store32)

lemma get16_put_other:
  "off + length bs \<le> length m \<Longrightarrow> o' + 2 \<le> length m \<Longrightarrow> o' + 2 \<le> off \<or> off + length bs \<le> o' \<Longrightarrow> get16 o' (put_bytes off bs m) = get16 o' m"
  by (auto simp: get16_def nth_put)

lemma get8_put_other:
  "off + length bs \<le> length m \<Longrightarrow> o' < length m \<Longrightarrow> o' < off \<or> off + length bs \<le> o' \<Longrightarrow> get8 o' (put_bytes off bs m) = get8 o' m"
  by (auto simp: get8_def nth_put)

lemma put_append: "off = length pre \<Longrightarrow> length bs = length mid \<Longrightarrow> put_bytes off bs (pre @ mid @ post) = pre @ bs @ post"
  by (simp add: put_bytes_def)

subsection \<open>Ethernet\<close>

definition ETH_HEADER_SIZE :: nat where "ETH_HEADER_SIZE = 14"
definition MAX_FRAME_SIZE :: nat where "MAX_FRAME_SIZE = 1518"

definition eth_get_type :: "u8 list \<Rightarrow> u16" where "eth_get_type f = get16 12 f"
definition eth_set_type :: "u16 \<Rightarrow> u8 list \<Rightarrow> u8 list" where "eth_set_type t f = set16 12 t f"
definition eth_get_data :: "u8 list \<Rightarrow> u8 list" where "eth_get_data f = drop ETH_HEADER_SIZE f"
definition eth_set_dst_hwaddr :: "u8 list \<Rightarrow> u8 list \<Rightarrow> u8 list" where "eth_set_dst_hwaddr dst f = put_bytes 0 (take 6 dst) f"
definition eth_get_dst_hwaddr :: "u8 list \<Rightarrow> u8 list" where "eth_get_dst_hwaddr f = take 6 f"
definition eth_set_dst_hwaddr_broadcast :: "u8 list \<Rightarrow> u8 list" where
  "eth_set_dst_hwaddr_broadcast f = f[0 := 0xff, 1 := 0xff, 2 := 0xff, 3 := 0xff, 4 := 0xff, 5 := 0xff]"
definition eth_set_src_hwaddr :: "u8 list \<Rightarrow> u8 list \<Rightarrow> u8 list" where
  "eth_set_src_hwaddr src f =
     f[6 := src ! 0, 7 := src ! 1, 8 := src ! 2, 9 := src ! 3, 10 := src ! 4, 11 := src ! 5]"
definition eth_get_src_hwaddr :: "u8 list \<Rightarrow> u8 list" where "eth_get_src_hwaddr f = take 6 (drop 6 f)"

subsection \<open>ARP\<close>

definition ETH_TYPE_ARP :: u16 where "ETH_TYPE_ARP = 0x0806"
definition ARP_HW_TYPE_ETH :: u16 where "ARP_HW_TYPE_ETH = 1"
definition ARP_REQUEST :: u16 where "ARP_REQUEST = 1"
definition ARP_REPLY :: u16 where "ARP_REPLY = 2"
definition ARP_HEADER_SIZE :: nat where "ARP_HEADER_SIZE = 8"
definition ARP_PROTOCOL_TYPE_IPV4 :: u16 where "ARP_PROTOCOL_TYPE_IPV4 = 0x0800"
definition ARP_HW_ADDR_SIZE_ETH :: u8 where "ARP_HW_ADDR_SIZE_ETH = 6"
definition ARP_PROTOCOL_ADDR_SIZE_IPV4 :: u8 where "ARP_PROTOCOL_ADDR_SIZE_IPV4 = 4"
definition ARP_IPV4_PACKETSIZE :: nat where
  "ARP_IPV4_PACKETSIZE = ARP_HEADER_SIZE + 2 * unat ARP_HW_ADDR_SIZE_ETH + 2 * unat ARP_PROTOCOL_ADDR_SIZE_IPV4"

lemmas arp_constants = ETH_TYPE_ARP_def ARP_HW_TYPE_ETH_def ARP_REQUEST_def ARP_REPLY_def ARP_HEADER_SIZE_def
  ARP_PROTOCOL_TYPE_IPV4_def ARP_HW_ADDR_SIZE_ETH_def ARP_PROTOCOL_ADDR_SIZE_IPV4_def ARP_IPV4_PACKETSIZE_def

definition arp_get_hw_type :: "u8 list \<Rightarrow> u16" where "arp_get_hw_type p = get16 0 p"
definition arp_set_hw_type :: "u16 \<Rightarrow> u8 list \<Rightarrow> u8 list" where "arp_set_hw_type t p = set16 0 t p"
definition arp_get_protocol_type :: "u8 list \<Rightarrow> u16" where "arp_get_protocol_type p = get16 2 p"
definition arp_set_protocol_type :: "u16 \<Rightarrow> u8 list \<Rightarrow> u8 list" where "arp_set_protocol_type t p = set16 2 t p"
definition arp_get_hw_addr_size :: "u8 list \<Rightarrow> u8" where "arp_get_hw_addr_size p = get8 4 p"
definition arp_set_hw_addr_size :: "u8 \<Rightarrow> u8 list \<Rightarrow> u8 list" where "arp_set_hw_addr_size s p = set8 4 s p"
definition arp_get_protocol_addr_size :: "u8 list \<Rightarrow> u8" where "arp_get_protocol_addr_size p = get8 5 p"
definition arp_set_protocol_addr_size :: "u8 \<Rightarrow> u8 list \<Rightarrow> u8 list" where "arp_set_protocol_addr_size s p = set8 5 s p"
definition arp_get_opcode :: "u8 list \<Rightarrow> u16" where "arp_get_opcode p = get16 6 p"
definition arp_set_opcode :: "u16 \<Rightarrow> u8 list \<Rightarrow> u8 list" where "arp_set_opcode t p = set16 6 t p"
definition arp_get_payload :: "u8 list \<Rightarrow> u8 list" where "arp_get_payload p = drop ARP_HEADER_SIZE p"

lemmas arp_fields = arp_get_hw_type_def arp_set_hw_type_def arp_get_protocol_type_def arp_set_protocol_type_def
  arp_get_hw_addr_size_def arp_set_hw_addr_size_def arp_get_protocol_addr_size_def arp_set_protocol_addr_size_def
  arp_get_opcode_def arp_set_opcode_def arp_get_payload_def

text \<open>An ARP packet in its Ethernet frame; \<open>arp_interface\<close> is the interface that sends it.\<close>

record Eth_ARP_IPv4_Packet =
  arp_header :: "u8 list"
  arp_src_hwaddr :: "u8 list"
  arp_src_ipv4_addr :: u32
  arp_dst_hwaddr :: "u8 list"
  arp_dst_ipv4_addr :: u32
  arp_interface :: "nat option"

definition HEADER_SIZE :: nat where "HEADER_SIZE = ETH_HEADER_SIZE + ARP_HEADER_SIZE"
definition FRAMESIZE :: nat where "FRAMESIZE = ETH_HEADER_SIZE + ARP_IPV4_PACKETSIZE"

definition on_Eth_Frame :: "(u8 list \<Rightarrow> u8 list) \<Rightarrow> Eth_ARP_IPv4_Packet \<Rightarrow> Eth_ARP_IPv4_Packet" where
  "on_Eth_Frame f p = p\<lparr>arp_header := f (arp_header p)\<rparr>"

definition on_ARP_Packet :: "(u8 list \<Rightarrow> u8 list) \<Rightarrow> Eth_ARP_IPv4_Packet \<Rightarrow> Eth_ARP_IPv4_Packet" where
  "on_ARP_Packet f p = p\<lparr>arp_header := take ETH_HEADER_SIZE (arp_header p) @ f (drop ETH_HEADER_SIZE (arp_header p))\<rparr>"

definition arp_isFree :: "(Eth_ARP_IPv4_Packet \<Rightarrow> bool) \<Rightarrow> Eth_ARP_IPv4_Packet \<Rightarrow> bool" where
  "arp_isFree hasBeenSent p \<longleftrightarrow> arp_interface p = None \<or> hasBeenSent p"

text \<open>The packet as the interface sees it: \<open>FRAMESIZE\<close> bytes from its start.\<close>

definition arp_frame :: "Eth_ARP_IPv4_Packet \<Rightarrow> u8 list" where
  "arp_frame p = take FRAMESIZE
     (arp_header p @ arp_src_hwaddr p @ store32 (arp_src_ipv4_addr p) @ arp_dst_hwaddr p @ store32 (arp_dst_ipv4_addr p))"

text \<open>What \<open>ipv4_request\<close> and \<open>ipv4_reply\<close> write into a free packet; \<open>i\<close> is the interface with its addresses.\<close>

definition arp_fill_header :: "u16 \<Rightarrow> Eth_ARP_IPv4_Packet \<Rightarrow> Eth_ARP_IPv4_Packet" where
  "arp_fill_header opcode p =
     (let p = on_Eth_Frame (eth_set_type ETH_TYPE_ARP) p;
          p = on_ARP_Packet (arp_set_hw_type ARP_HW_TYPE_ETH) p;
          p = on_ARP_Packet (arp_set_protocol_type ARP_PROTOCOL_TYPE_IPV4) p;
          p = on_ARP_Packet (arp_set_hw_addr_size ARP_HW_ADDR_SIZE_ETH) p;
          p = on_ARP_Packet (arp_set_protocol_addr_size ARP_PROTOCOL_ADDR_SIZE_IPV4) p
      in on_ARP_Packet (arp_set_opcode opcode) p)"

definition arp_request :: "nat \<Rightarrow> u8 list \<Rightarrow> u32 \<Rightarrow> u32 \<Rightarrow> Eth_ARP_IPv4_Packet \<Rightarrow> Eth_ARP_IPv4_Packet" where
  "arp_request i hw_addr if_addr ipv4_addr p =
     (let p = arp_fill_header ARP_REQUEST (p\<lparr>arp_interface := Some i\<rparr>);
          p = on_Eth_Frame (eth_set_src_hwaddr hw_addr) (p\<lparr>arp_src_hwaddr := take 6 hw_addr\<rparr>);
          p = p\<lparr>arp_src_ipv4_addr := if_addr\<rparr>;
          p = on_Eth_Frame eth_set_dst_hwaddr_broadcast (p\<lparr>arp_dst_hwaddr := replicate 6 0xFF\<rparr>)
      in p\<lparr>arp_dst_ipv4_addr := ipv4_addr\<rparr>)"

definition arp_reply :: "nat \<Rightarrow> u8 list \<Rightarrow> u32 \<Rightarrow> u8 list \<Rightarrow> u32 \<Rightarrow> Eth_ARP_IPv4_Packet \<Rightarrow> Eth_ARP_IPv4_Packet" where
  "arp_reply i hw_addr if_addr src_hwaddr src_ipv4_addr p =
     (let p = arp_fill_header ARP_REPLY (p\<lparr>arp_interface := Some i\<rparr>);
          p = on_Eth_Frame (eth_set_src_hwaddr hw_addr) (p\<lparr>arp_src_hwaddr := take 6 hw_addr\<rparr>);
          p = p\<lparr>arp_src_ipv4_addr := if_addr\<rparr>;
          p = on_Eth_Frame (eth_set_dst_hwaddr src_hwaddr) (p\<lparr>arp_dst_hwaddr := take 6 src_hwaddr\<rparr>)
      in p\<lparr>arp_dst_ipv4_addr := src_ipv4_addr\<rparr>)"

subsection \<open>UDP and ICMP headers\<close>

definition UDP_HEADER_SIZE :: nat where "UDP_HEADER_SIZE = 8"
definition IP_TYPE_UDP :: u8 where "IP_TYPE_UDP = 17"
definition UDP_UNUSED_PORT :: u16 where "UDP_UNUSED_PORT = 0"

definition udp_get_sport :: "u8 list \<Rightarrow> u16" where "udp_get_sport p = get16 0 p"
definition udp_set_sport :: "u16 \<Rightarrow> u8 list \<Rightarrow> u8 list" where "udp_set_sport s p = set16 0 s p"
definition udp_get_dport :: "u8 list \<Rightarrow> u16" where "udp_get_dport p = get16 2 p"
definition udp_set_dport :: "u16 \<Rightarrow> u8 list \<Rightarrow> u8 list" where "udp_set_dport d p = set16 2 d p"
definition udp_get_length :: "u8 list \<Rightarrow> u16" where "udp_get_length p = get16 4 p"
definition udp_set_length :: "u16 \<Rightarrow> u8 list \<Rightarrow> u8 list" where "udp_set_length len p = set16 4 len p"
definition udp_get_checksum :: "u8 list \<Rightarrow> u16" where "udp_get_checksum p = get16 6 p"
definition udp_set_checksum :: "u16 \<Rightarrow> u8 list \<Rightarrow> u8 list" where "udp_set_checksum c p = set16 6 c p"
definition udp_get_data :: "u8 list \<Rightarrow> u8 list" where "udp_get_data p = drop UDP_HEADER_SIZE p"

lemmas udp_fields = udp_get_sport_def udp_set_sport_def udp_get_dport_def udp_set_dport_def udp_get_length_def
  udp_set_length_def udp_get_checksum_def udp_set_checksum_def udp_get_data_def UDP_HEADER_SIZE_def

definition ICMP_HEADER_SIZE :: nat where "ICMP_HEADER_SIZE = 8"

definition icmp_get_type :: "u8 list \<Rightarrow> u8" where "icmp_get_type p = get8 0 p"
definition icmp_set_type :: "u8 \<Rightarrow> u8 list \<Rightarrow> u8 list" where "icmp_set_type t p = set8 0 t p"
definition icmp_get_code :: "u8 list \<Rightarrow> u8" where "icmp_get_code p = get8 1 p"
definition icmp_set_code :: "u8 \<Rightarrow> u8 list \<Rightarrow> u8 list" where "icmp_set_code c p = set8 1 c p"
definition icmp_get_checksum :: "u8 list \<Rightarrow> u16" where "icmp_get_checksum p = get16 2 p"
definition icmp_set_checksum :: "u16 \<Rightarrow> u8 list \<Rightarrow> u8 list" where "icmp_set_checksum c p = set16 2 c p"
definition icmp_get_quench :: "u8 list \<Rightarrow> u32" where "icmp_get_quench p = get32 4 p"
definition icmp_set_quench :: "u32 \<Rightarrow> u8 list \<Rightarrow> u8 list" where "icmp_set_quench q p = set32 4 q p"
definition icmp_get_data :: "u8 list \<Rightarrow> u8 list" where "icmp_get_data p = drop ICMP_HEADER_SIZE p"

definition ICMPv6_HEADER_SIZE :: nat where "ICMPv6_HEADER_SIZE = 4"

definition icmpv6_get_type :: "u8 list \<Rightarrow> u8" where "icmpv6_get_type p = get8 0 p"
definition icmpv6_set_type :: "u8 \<Rightarrow> u8 list \<Rightarrow> u8 list" where "icmpv6_set_type t p = set8 0 t p"
definition icmpv6_get_code :: "u8 list \<Rightarrow> u8" where "icmpv6_get_code p = get8 1 p"
definition icmpv6_set_code :: "u8 \<Rightarrow> u8 list \<Rightarrow> u8 list" where "icmpv6_set_code c p = set8 1 c p"
definition icmpv6_get_checksum :: "u8 list \<Rightarrow> u16" where "icmpv6_get_checksum p = get16 2 p"
definition icmpv6_set_checksum :: "u16 \<Rightarrow> u8 list \<Rightarrow> u8 list" where "icmpv6_set_checksum c p = set16 2 c p"
definition icmpv6_get_data :: "u8 list \<Rightarrow> u8 list" where "icmpv6_get_data p = drop ICMPv6_HEADER_SIZE p"

lemmas icmp_fields = icmp_get_type_def icmp_set_type_def icmp_get_code_def icmp_set_code_def icmp_get_checksum_def
  icmp_set_checksum_def icmp_get_quench_def icmp_set_quench_def icmp_get_data_def icmpv6_get_type_def icmpv6_set_type_def
  icmpv6_get_code_def icmpv6_set_code_def icmpv6_get_checksum_def icmpv6_set_checksum_def icmpv6_get_data_def

subsection \<open>The ARP frames\<close>

definition arp_ok :: "Eth_ARP_IPv4_Packet \<Rightarrow> bool" where
  "arp_ok p \<longleftrightarrow> length (arp_header p) = HEADER_SIZE \<and> length (arp_src_hwaddr p) = 6 \<and> length (arp_dst_hwaddr p) = 6"

lemma length_6E:
  assumes "length xs = 6"
  obtains x0 x1 x2 x3 x4 x5 where "xs = [x0, x1, x2, x3, x4, x5]"
  using assms by (auto simp: numeral_eq_Suc length_Suc_conv)

lemma wire_constants:
  "store16 (htons ETH_TYPE_ARP) = [0x08, 0x06]" "store16 (htons ARP_HW_TYPE_ETH) = [0, 1]"
  "store16 (htons ARP_PROTOCOL_TYPE_IPV4) = [0x08, 0]" "store16 (htons ARP_REQUEST) = [0, 1]" "store16 (htons ARP_REPLY) = [0, 2]"
  by code_simp+

text \<open>The header both frames share, between the two addresses of the Ethernet header and those of the payload.\<close>

definition arp_ipv4_header :: "u8 \<Rightarrow> u8 list" where
  "arp_ipv4_header op = [0x08, 0x06, 0, 1, 0x08, 0, 6, 4, 0, op]"

lemma on_ARP_Packet_header:
  "arp_header p = e @ r \<Longrightarrow> length e = 14 \<Longrightarrow> arp_header (on_ARP_Packet f p) = e @ f r"
  by (simp add: on_ARP_Packet_def ETH_HEADER_SIZE_def)

lemma arp_setters_bytes:
  "arp_set_opcode op (arp_set_protocol_addr_size ps (arp_set_hw_addr_size hs (arp_set_protocol_type pt (arp_set_hw_type ht
     [x0, x1, x2, x3, x4, x5, x6, x7])))) = store16 (htons ht) @ store16 (htons pt) @ [hs, ps] @ store16 (htons op)"
  by (simp add: arp_fields set16_def set8_def put_bytes_def store16_def)

lemma length_8E:
  assumes "length xs = 8"
  obtains x0 x1 x2 x3 x4 x5 x6 x7 where "xs = [x0, x1, x2, x3, x4, x5, x6, x7]"
  using assms by (auto simp: numeral_eq_Suc length_Suc_conv)

lemma fill_header_bytes:
  assumes "length (arp_header p) = 22" and "store16 (htons opcode) = [0, op]"
  shows "arp_header (arp_fill_header opcode p) = take 12 (arp_header p) @ arp_ipv4_header op"
proof -
  let ?e = "take 12 (arp_header p)" and ?r = "drop 14 (arp_header p)"
  have "length ?r = 8" using assms(1) by simp
  then obtain x0 x1 x2 x3 x4 x5 x6 x7 where r: "?r = [x0, x1, x2, x3, x4, x5, x6, x7]" by (rule length_8E)
  have e: "arp_header (on_Eth_Frame (eth_set_type ETH_TYPE_ARP) p) = (?e @ [0x08, 0x06]) @ ?r" "length (?e @ [0x08, 0x06 :: u8]) = 14"
    using assms(1) by (simp_all add: on_Eth_Frame_def eth_set_type_def set16_def put_bytes_def wire_constants)
  have "arp_header (arp_fill_header opcode p) = (?e @ [0x08, 0x06]) @
      arp_set_opcode opcode (arp_set_protocol_addr_size 4 (arp_set_hw_addr_size 6 (arp_set_protocol_type ARP_PROTOCOL_TYPE_IPV4
        (arp_set_hw_type ARP_HW_TYPE_ETH ?r))))"
    unfolding arp_fill_header_def Let_def ARP_HW_ADDR_SIZE_ETH_def ARP_PROTOCOL_ADDR_SIZE_IPV4_def
    by (intro on_ARP_Packet_header e)
  then show ?thesis unfolding r arp_setters_bytes wire_constants assms(2) by (simp add: arp_ipv4_header_def)
qed

lemma fill_header_others:
  "arp_src_hwaddr (arp_fill_header opcode p) = arp_src_hwaddr p" "arp_dst_hwaddr (arp_fill_header opcode p) = arp_dst_hwaddr p"
  "arp_interface (arp_fill_header opcode p) = arp_interface p"
  by (simp_all add: arp_fill_header_def Let_def on_Eth_Frame_def on_ARP_Packet_def)

text \<open>The ARP frames on the wire are those of the standard. A request is broadcast, a reply goes to the asking station; the 42 bytes
  are the Ethernet header, the ARP header in network byte order, and the four addresses in their places, whatever the
  packet was used for before.\<close>

theorem arp_frames_exact:
  assumes "length (arp_header p) = HEADER_SIZE" and "length hw = 6" and "length src = 6"
  shows "arp_frame (arp_request i hw a target p) =
      replicate 6 0xFF @ hw @ arp_ipv4_header 1 @ hw @ store32 a @ replicate 6 0xFF @ store32 target \<and>
    arp_frame (arp_reply i hw a src asker p) =
      src @ hw @ arp_ipv4_header 2 @ hw @ store32 a @ src @ store32 asker \<and>
    length (arp_frame (arp_request i hw a target p)) = FRAMESIZE"
proof -
  obtain h0 h1 h2 h3 h4 h5 where hw: "hw = [h0, h1, h2, h3, h4, h5]" using assms(2) by (rule length_6E)
  obtain s0 s1 s2 s3 s4 s5 where src: "src = [s0, s1, s2, s3, s4, s5]" using assms(3) by (rule length_6E)
  have h22: "length (arp_header p) = 22" using assms(1) by (simp add: HEADER_SIZE_def ETH_HEADER_SIZE_def ARP_HEADER_SIZE_def)
  then have "4 \<le> length (arp_header p)" by simp
  then obtain x0 x1 x2 x3 r where r1: "arp_header p = x0 # x1 # x2 # x3 # r" by (rule length_4E)
  then have "4 \<le> length r" using h22 by simp
  then obtain x4 x5 x6 x7 r' where r2: "r = x4 # x5 # x6 # x7 # r'" by (rule length_4E)
  then have "4 \<le> length r'" using h22 r1 by simp
  then obtain x8 x9 x10 x11 r'' where r3: "r' = x8 # x9 # x10 # x11 # r''" by (rule length_4E)
  have h: "take 12 (arp_header p) = [x0, x1, x2, x3, x4, x5, x6, x7, x8, x9, x10, x11]" unfolding r1 r2 r3 by simp
  let ?p = "p\<lparr>arp_interface := Some i\<rparr>"
  have f: "arp_header (arp_fill_header ARP_REQUEST ?p) = take 12 (arp_header p) @ arp_ipv4_header 1"
    "arp_header (arp_fill_header ARP_REPLY ?p) = take 12 (arp_header p) @ arp_ipv4_header 2"
    using fill_header_bytes [of ?p ARP_REQUEST 1] fill_header_bytes [of ?p ARP_REPLY 2] h22 by (simp_all add: wire_constants)
  have r: "replicate 6 x = [x, x, x, x, x, x]" for x :: u8 by (simp add: numeral_eq_Suc)
  have n: "FRAMESIZE = 42" by (simp add: FRAMESIZE_def ETH_HEADER_SIZE_def arp_constants)
  have q: "arp_frame (arp_request i hw a target p) =
      replicate 6 0xFF @ hw @ arp_ipv4_header 1 @ hw @ store32 a @ replicate 6 0xFF @ store32 target"
    unfolding arp_request_def Let_def arp_frame_def n
    by (simp add: on_Eth_Frame_def f h hw r eth_set_src_hwaddr_def eth_set_dst_hwaddr_broadcast_def arp_ipv4_header_def store32_def)
  moreover have "arp_frame (arp_reply i hw a src asker p) = src @ hw @ arp_ipv4_header 2 @ hw @ store32 a @ src @ store32 asker"
    unfolding arp_reply_def Let_def arp_frame_def n
    by (simp add: on_Eth_Frame_def f h hw src eth_set_src_hwaddr_def eth_set_dst_hwaddr_def put_bytes_def arp_ipv4_header_def store32_def)
  ultimately show ?thesis unfolding q using hw by (simp add: n arp_ipv4_header_def)
qed

theorem arp_frames_exact_witness:
  "\<exists>p. take 14 (arp_frame p) = [0xFF, 0xFF, 0xFF, 0xFF, 0xFF, 0xFF, 2, 0, 0, 0, 0, 1, 0x08, 0x06]"
proof -
  let ?p = "\<lparr>arp_header = replicate 22 7, arp_src_hwaddr = [], arp_src_ipv4_addr = 0, arp_dst_hwaddr = [], arp_dst_ipv4_addr = 0,
    arp_interface = None\<rparr>"
  have "length (arp_header ?p) = HEADER_SIZE" by (simp add: HEADER_SIZE_def ETH_HEADER_SIZE_def ARP_HEADER_SIZE_def)
  from arp_frames_exact [OF this, where hw = "[2, 0, 0, 0, 0, 1]" and src = "[0, 0, 0, 0, 0, 0]" and i = 0 and a = "0x0100000A" and target = "0x0200000A"]
  have "arp_frame (arp_request 0 [2, 0, 0, 0, 0, 1] 0x0100000A 0x0200000A ?p) =
     replicate 6 0xFF @ [2, 0, 0, 0, 0, 1] @ arp_ipv4_header 1 @ [2, 0, 0, 0, 0, 1] @ store32 0x0100000A @ replicate 6 0xFF @ store32 0x0200000A"
    by simp
  then show ?thesis
    by (intro exI [of _ "arp_request 0 [2, 0, 0, 0, 0, 1] 0x0100000A 0x0200000A ?p"]) (simp add: arp_ipv4_header_def numeral_eq_Suc)
qed

subsection \<open>Header fields are independent\<close>

text \<open>The fields of the transport headers do not disturb each other: after the setters of a UDP, ICMP or ICMPv6 header have run,
  each getter gives the value of its setter, the bytes on the wire are in network order, and the data is as before.\<close>

theorem transport_headers_roundtrip:
  assumes "8 \<le> length m"
  shows "udp_set_checksum c (udp_set_length n (udp_set_dport d (udp_set_sport s m))) =
      store16 (htons s) @ store16 (htons d) @ store16 (htons n) @ store16 (htons c) @ udp_get_data m \<and>
    udp_get_sport (udp_set_checksum c (udp_set_length n (udp_set_dport d (udp_set_sport s m)))) = s \<and>
    udp_get_dport (udp_set_checksum c (udp_set_length n (udp_set_dport d (udp_set_sport s m)))) = d \<and>
    udp_get_length (udp_set_checksum c (udp_set_length n (udp_set_dport d (udp_set_sport s m)))) = n \<and>
    udp_get_checksum (udp_set_checksum c (udp_set_length n (udp_set_dport d (udp_set_sport s m)))) = c \<and>
    icmp_set_quench q (icmp_set_checksum c (icmp_set_code k (icmp_set_type t m))) =
      t # k # store16 (htons c) @ store32 q @ icmp_get_data m \<and>
    icmp_get_quench (icmp_set_quench q m) = q \<and>
    icmpv6_set_checksum c (icmpv6_set_code k (icmpv6_set_type t m)) = t # k # store16 (htons c) @ icmpv6_get_data m"
proof -
  have "4 \<le> length m" using assms by simp
  then obtain x0 x1 x2 x3 r where m1: "m = x0 # x1 # x2 # x3 # r" by (rule length_4E)
  then have "4 \<le> length r" using assms by simp
  then obtain x4 x5 x6 x7 ys where m2: "r = x4 # x5 # x6 # x7 # ys" by (rule length_4E)
  note m = m1 [unfolded m2]
  have u: "udp_set_checksum c (udp_set_length n (udp_set_dport d (udp_set_sport s m))) =
      store16 (htons s) @ store16 (htons d) @ store16 (htons n) @ store16 (htons c) @ ys"
    by (simp add: m udp_fields set16_def put_bytes_def store16_def)
  have g: "get16 0 (ucast (htons a) # ucast (drop_bit 8 (htons a)) # xs) = a"
    "get16 2 (z0 # z1 # ucast (htons a) # ucast (drop_bit 8 (htons a)) # xs) = a"
    "get16 4 (z0 # z1 # z2 # z3 # ucast (htons a) # ucast (drop_bit 8 (htons a)) # xs) = a"
    "get16 6 (z0 # z1 # z2 # z3 # z4 # z5 # ucast (htons a) # ucast (drop_bit 8 (htons a)) # xs) = a"
    for a xs z0 z1 z2 z3 z4 z5 by (simp_all add: get16_def load16_store16 ntohs_def htons_involution)
  show ?thesis
    unfolding u using m get_set32 [of 4 m q]
    by (simp add: udp_fields icmp_fields ICMP_HEADER_SIZE_def ICMPv6_HEADER_SIZE_def set16_def set8_def set32_def put_bytes_def g
      store16_def [of "htons s" for s] store32_def [of q])
qed

theorem transport_headers_roundtrip_witness:
  "udp_get_dport (udp_set_checksum 0 (udp_set_length 8 (udp_set_dport 53 (udp_set_sport 1024 (replicate 8 0))))) = 53"
proof -
  have "8 \<le> length (replicate 8 (0 :: u8))" by simp
  from transport_headers_roundtrip [OF this, THEN conjunct2, THEN conjunct2, THEN conjunct1] show ?thesis .
qed

end
