(* ===== verification/IPv6_Messages.thy ===== *)
theory IPv6_Messages
  imports IPv6_Layer Link_Frames
begin

text \<open>
  Options and messages of IPv6: \<^verbatim>\<open>ipv6/ExtensionHeaderOptions.h\<close>, \<^verbatim>\<open>ipv6/ipv6_hopbyhopheader/IPv6HopByHop.h\<close>,
  \<^verbatim>\<open>icmpv6/ndp/NDPMessages.h\<close>, \<^verbatim>\<open>icmpv6/ndp/NDPNeighborMessages.h\<close> with its \<^verbatim>\<open>.cpp\<close>,
  \<^verbatim>\<open>icmpv6/ndp_router/NDPRouterMessages.h\<close> and \<^verbatim>\<open>icmpv6/mld/MLDMessages.h\<close>. Messages are bytes at fixed offsets; a
  pointer into one is a position, and an access behind the memory is a fault. A loop that need not end is a partial
  function whose result \<open>None\<close> means that it does not.
\<close>

subsection \<open>Options of extension headers\<close>

definition parseOption :: "u8 \<Rightarrow> u8 \<Rightarrow> nat \<Rightarrow> u8 list \<Rightarrow> bool" where
  "parseOption type data_len p data = (if type AND 0xC0 \<noteq> 0 then False else True)"

partial_function (option) parseOptions ::
    "(u8 \<Rightarrow> u8 \<Rightarrow> nat \<Rightarrow> u8 list \<Rightarrow> bool) \<Rightarrow> u8 list \<Rightarrow> nat \<Rightarrow> u32 \<Rightarrow> bool outcome option" where
  "parseOptions parse data p remaining_length =
     (if remaining_length = 0 then Some (Inr True)
      else case peek data (p + 1) of
             Inl e \<Rightarrow> Some (Inl e)
           | Inr option_len \<Rightarrow>
             (case peek data p of
                Inl e \<Rightarrow> Some (Inl e)
              | Inr type \<Rightarrow>
                  if \<not> parse type option_len (p + 2) data then Some (Inr False)
                  else if ucast option_len > remaining_length then Some (Inr False)
                  else parseOptions parse data (p + unat option_len) (remaining_length - ucast option_len)))"

definition writePaddingOption :: "nat \<Rightarrow> u8 \<Rightarrow> u8 list \<Rightarrow> u8 list outcome" where
  "writePaddingOption p remainingBytes data =
     (if remainingBytes = 1 then poke p 0 data
      else obind (poke p 1 data) (poke (p + 1) (remainingBytes - 2)))"

subsection \<open>The hop-by-hop header\<close>

text \<open>\<open>minsize\<close> is what the aspects make of \<open>getMinSize\<close> (0 without any), \<open>writeOptions\<close> what they make of the function of that
  name: it writes from a position on and gives the number of bytes it used.\<close>

definition hbh_getSize :: "u32 \<Rightarrow> u32" where
  "hbh_getSize minsize =
     (if minsize = 0 then 0
      else let rest = ucast (minsize mod 8) :: u8 in
      if rest = 0 then minsize else minsize + (8 - ucast rest))"

definition writeExtensionHeader ::
    "u32 \<Rightarrow> (nat \<Rightarrow> u8 list \<Rightarrow> (u32 \<times> u8 list) outcome) \<Rightarrow> u8 list \<Rightarrow> (u32 \<times> u8 list) outcome" where
  "writeExtensionHeader minsize writeOptions data =
     (if minsize = 0 then Inr (0, data)
      else let all_size = hbh_getSize minsize in
      obind (writeOptions 2 data) (\<lambda>(used_size, data).
      obind (poke 1 (ucast (all_size div 8 - 1)) data) (\<lambda>data.
      let used_size = all_size - used_size in
      if used_size \<noteq> 0
      then obind (writePaddingOption (2 + unat used_size) (ucast used_size - 2) data) (\<lambda>data. Inr (all_size, data))
      else Inr (all_size, data))))"

subsection \<open>Options of neighbour discovery\<close>

definition SourceLinkLayer :: u8 where "SourceLinkLayer = 1"
definition TargetLinkLayer :: u8 where "TargetLinkLayer = 2"

lemma obind_cong [fundef_cong]: "m = m' \<Longrightarrow> (\<And>x. m' = Inr x \<Longrightarrow> f x = f' x) \<Longrightarrow> obind m f = obind m' f'"
  by (cases m') simp_all

lemma unat_octets: "unat (ucast (len :: u8) * 8 :: u32) = 8 * unat len"
  using unat_u8_less [of len] by (simp add: unat_word_ariths mult.commute del: unat_u8_less)

lemma option_step_less:
  assumes "len \<noteq> (0 :: u8)" and "\<not> ucast len * 8 > (rem :: u32)"
  shows "unat (rem - ucast len * 8) < unat rem" "unat (rem - ucast len * 8) = unat rem - 8 * unat len" "8 * unat len \<le> unat rem"
proof -
  have l: "0 < unat len" using assms(1) by (simp add: unat_gt_0)
  have u: "unat (ucast len * 8 :: u32) = 8 * unat len" by (rule unat_octets)
  then show le: "8 * unat len \<le> unat rem" using assms(2) by (simp add: word_less_nat_alt not_less)
  then show d: "unat (rem - ucast len * 8) = unat rem - 8 * unat len" using u by (simp add: unat_sub word_le_nat_alt)
  show "unat (rem - ucast len * 8) < unat rem" unfolding d using l le by simp
qed

function get_option_linklayer_address :: "u8 \<Rightarrow> u8 list \<Rightarrow> nat \<Rightarrow> u32 \<Rightarrow> u8 list option outcome" where
  "get_option_linklayer_address type data p remaining =
     obind (peek data (p + 1)) (\<lambda>len.
       if len = 0 \<or> ucast len * 8 > remaining then Inr None
       else obind (peek data p) (\<lambda>t.
         if t = type then obind (peek_all data (p + 2) 6) (\<lambda>mac. Inr (Some mac))
         else get_option_linklayer_address type data (p + 8 * unat len) (remaining - ucast len * 8)))"
  by pat_completeness auto
termination
  by (relation "measure (\<lambda>(type, data, p, remaining). unat remaining)") (auto intro: option_step_less(1) simp: not_less)

declare get_option_linklayer_address.simps [simp del]

definition multiple_of_octets :: "u8 \<Rightarrow> u8" where
  "multiple_of_octets origSize = (if origSize div 8 + origSize mod 8 \<noteq> 0 then 1 else 0)"

definition write_option_linklayer_address :: "u8 \<Rightarrow> nat \<Rightarrow> u8 list \<Rightarrow> u8 \<Rightarrow> u8 list \<Rightarrow> u8 list outcome" where
  "write_option_linklayer_address type p linklayerAddress addressSize data =
     obind (poke p type data) (\<lambda>data.
     obind (poke (p + 1) (if addressSize > 6 then 1 + multiple_of_octets addressSize else 1) data) (\<lambda>data.
     obind (peek_all linklayerAddress 0 (unat addressSize)) (\<lambda>addr. poke_all (p + 2) addr data)))"

function get_prefix_option :: "u8 list \<Rightarrow> nat \<Rightarrow> u32 \<Rightarrow> nat option outcome" where
  "get_prefix_option data p remaining =
     obind (peek data (p + 1)) (\<lambda>len.
       if len = 0 \<or> ucast len * 8 > remaining then Inr None
       else obind (peek data p) (\<lambda>t.
         if t = 3 then Inr (Some p)
         else get_prefix_option data (p + 8 * unat len) (remaining - ucast len * 8)))"
  by pat_completeness auto
termination
  by (relation "measure (\<lambda>(data, p, remaining). unat remaining)") (auto intro: option_step_less(1) simp: not_less)

declare get_prefix_option.simps [simp del]

text \<open>The fields of a prefix option at \<open>p\<close>. The pointcut of \<^verbatim>\<open>Little_Endian.ah\<close> for the two lifetimes names another class, so they
  are read in the order of the machine.\<close>

definition prefix_length :: "u8 list \<Rightarrow> nat \<Rightarrow> u8" where "prefix_length data p = get8 (p + 2) data"
definition prefix_isOnLink :: "u8 list \<Rightarrow> nat \<Rightarrow> bool" where "prefix_isOnLink data p \<longleftrightarrow> 0x80 AND get8 (p + 3) data \<noteq> 0"
definition useForStatelessAddressConfiguration :: "u8 list \<Rightarrow> nat \<Rightarrow> bool" where
  "useForStatelessAddressConfiguration data p \<longleftrightarrow> 0x40 AND get8 (p + 3) data \<noteq> 0"
definition get_valid_lifetime :: "u8 list \<Rightarrow> nat \<Rightarrow> u32" where "get_valid_lifetime data p = get32 (p + 4) data"
definition get_preferred_lifetime :: "u8 list \<Rightarrow> nat \<Rightarrow> u32" where "get_preferred_lifetime data p = get32 (p + 8) data"
definition prefix_address :: "u8 list \<Rightarrow> nat \<Rightarrow> ipv6addr" where "prefix_address data p = \<lparr>ipaddrB8 = take 16 (drop (p + 16) data)\<rparr>"

text \<open>The fields of a router advertisement.\<close>

definition ra_curHopLimit :: "u8 list \<Rightarrow> u8" where "ra_curHopLimit m = get8 4 m"
definition ra_flags :: "u8 list \<Rightarrow> u8" where "ra_flags m = get8 5 m"
definition ra_options :: nat where "ra_options = 16"
definition rs_options :: nat where "rs_options = 8"

subsection \<open>Neighbour messages\<close>

definition na_isRouter :: "u8 list \<Rightarrow> bool" where "na_isRouter m \<longleftrightarrow> 0x80 AND get8 4 m \<noteq> 0"
definition na_isResponse :: "u8 list \<Rightarrow> bool" where "na_isResponse m \<longleftrightarrow> 0x40 AND get8 4 m \<noteq> 0"
definition na_isOverride :: "u8 list \<Rightarrow> bool" where "na_isOverride m \<longleftrightarrow> 0x20 AND get8 4 m \<noteq> 0"
definition na_setRouter :: "bool \<Rightarrow> u8 list \<Rightarrow> u8 list" where
  "na_setRouter v m = (if v then set8 4 (get8 4 m OR 0x80) m else m)"
definition na_setResponse :: "bool \<Rightarrow> u8 list \<Rightarrow> u8 list" where
  "na_setResponse v m = (if v then set8 4 (get8 4 m OR 0x40) m else m)"
definition na_setOverride :: "bool \<Rightarrow> u8 list \<Rightarrow> u8 list" where
  "na_setOverride v m = (if v then set8 4 (get8 4 m OR 0x20) m else m)"

text \<open>\<open>send_neighbor_solicitation\<close>: what it sets in the socket, the size it asks for, and the message it writes into the buffer it gets;
  the 24 bytes of the structure come before the option.\<close>

definition ns_addresses :: "ipv6addr \<Rightarrow> ipv6addr \<Rightarrow> nat \<Rightarrow> bool \<Rightarrow> IPV6 \<Rightarrow> IPV6" where
  "ns_addresses src dst i useSolicitatedMulticastAddress s =
     (let s = s\<lparr>v6s_dst_addr := copy_ipv6_addr dst (v6s_dst_addr s), v6s_interface := Some i\<rparr>;
          s = (if useSolicitatedMulticastAddress
               then s\<lparr>v6s_dst_addr := solicitedNode_multicast_addr dst (v6s_dst_addr s)\<rparr> else s)
      in v6s_set_src_addr src s)"

definition ns_size :: "u8 \<Rightarrow> u8" where "ns_size addressSize = 24 + multiple_of_octets addressSize * 8"

definition ns_message :: "ipv6addr \<Rightarrow> u8 list \<Rightarrow> u8 \<Rightarrow> u8 list \<Rightarrow> u8 list outcome" where
  "ns_message dst address addressSize buf =
     obind (poke 0 135 buf) (\<lambda>buf. obind (poke 1 0 buf) (\<lambda>buf.
     obind (poke_all 4 [0, 0, 0, 0] buf) (\<lambda>buf. obind (poke_all 8 (take 16 (ipaddrB8 dst)) buf) (\<lambda>buf.
     write_option_linklayer_address SourceLinkLayer 24 address addressSize buf))))"

subsection \<open>Multicast listener messages\<close>

definition write_mldv1_listener_report :: "ipv6addr \<Rightarrow> u8 list \<Rightarrow> u8 list outcome" where
  "write_mldv1_listener_report multicast_addr data =
     obind (poke_all 0 [131, 0, 0, 0, 0, 0, 0, 0] data) (poke_all 8 (take 16 (ipaddrB8 multicast_addr)))"

definition write_mldv1_listener_done :: "ipv6addr \<Rightarrow> u8 list \<Rightarrow> u8 list outcome" where
  "write_mldv1_listener_done multicast_addr data =
     obind (poke_all 0 [132, 0, 0, 0, 0, 0, 0, 0] data) (poke_all 8 (take 16 (ipaddrB8 multicast_addr)))"

definition mldv2_CHANGE_TO_INCLUDE_MODE :: u8 where "mldv2_CHANGE_TO_INCLUDE_MODE = 3"
definition mldv2_CHANGE_TO_EXCLUDE_MODE :: u8 where "mldv2_CHANGE_TO_EXCLUDE_MODE = 4"

definition write_mldv2_listener_report_message :: "ipv6addr \<Rightarrow> u8 \<Rightarrow> u8 list \<Rightarrow> u8 list outcome" where
  "write_mldv2_listener_report_message multicast_addr rtype data =
     obind (poke_all 0 [143, 0, 0, 0, 0, 0, 0, 1] data) (\<lambda>data.
     obind (poke_all 8 [rtype, 0, 0, 0] data) (poke_all 12 (take 16 (ipaddrB8 multicast_addr))))"

definition mldv2_listener_report_message_size :: u8 where "mldv2_listener_report_message_size = 8 + 20"

subsection \<open>The option parser\<close>

text \<open>A list of options as the parser counts them: a type, the number of bytes, and the bytes behind these two.\<close>

definition option_bytes :: "u8 \<times> u8 list \<Rightarrow> u8 list" where
  "option_bytes o' = (case o' of (t, body) \<Rightarrow> t # of_nat (length body + 2) # body)"

definition options_bytes :: "(u8 \<times> u8 list) list \<Rightarrow> u8 list" where
  "options_bytes os = concat (map option_bytes os)"

lemma parseOptions_step:
  assumes "parse t (of_nat (length body + 2)) (length pre + 2) (pre @ option_bytes (t, body) @ post)" and "length body + 2 < 256"
    and "length body + 2 \<le> unat n"
  shows "parseOptions parse (pre @ option_bytes (t, body) @ post) (length pre) n =
     parseOptions parse (pre @ option_bytes (t, body) @ post) (length (pre @ option_bytes (t, body))) (n - of_nat (length body + 2))"
proof -
  let ?l = "of_nat (length body + 2) :: u8"
  have l: "unat ?l = length body + 2" using assms(2) by (rule unat_of_nat_u8)
  have "unat (of_nat (length body + 2) :: u32) = length body + 2" by (rule unat_of_nat_u32) (use assms(2) in simp)
  then have u: "ucast ?l = (of_nat (length body + 2) :: u32)"
    by (simp only: word_unat_eq_iff unat_ucast_u8_u32 l)
  have n: "n \<noteq> 0" using assms(3) by auto
  have le: "\<not> ucast ?l > n" using assms(3) l by (simp only: word_less_nat_alt unat_ucast_u8_u32 not_less)
  have pk: "peek (pre @ option_bytes (t, body) @ post) (length pre + 1) = Inr ?l" "peek (pre @ option_bytes (t, body) @ post) (length pre) = Inr t"
    by (simp_all add: option_bytes_def peek_at)
  have len: "length pre + unat ?l = length (pre @ option_bytes (t, body))" by (simp only: l) (simp add: option_bytes_def)
  show ?thesis
    by (subst parseOptions.simps) (simp only: n pk assms(1) le [unfolded u] u len if_False not_True_eq_False sum.case refl)
qed

lemma parseOptions_prefix:
  "\<forall>(t, body) \<in> set os. t AND 0xC0 = 0 \<and> length body + 2 < 256 \<Longrightarrow> length (options_bytes os) + k < 2 ^ 32 \<Longrightarrow>
   parseOptions parseOption (pre @ options_bytes os @ post) (length pre) (of_nat (length (options_bytes os) + k)) =
   parseOptions parseOption (pre @ options_bytes os @ post) (length pre + length (options_bytes os)) (of_nat k)"
proof (induction os arbitrary: pre)
  case Nil
  then show ?case by (simp add: options_bytes_def)
next
  case (Cons o' os)
  obtain t body where o: "o' = (t, body)" by (cases o')
  have b: "options_bytes (o' # os) = option_bytes (t, body) @ options_bytes os" by (simp add: options_bytes_def o)
  have lb: "length (option_bytes (t, body)) = length body + 2" by (simp add: option_bytes_def)
  have small: "length body + 2 + length (options_bytes os) + k < 2 ^ 32" using Cons.prems(2) by (simp add: b lb)
  let ?n = "of_nat (length (options_bytes (o' # os)) + k) :: u32"
  have n: "unat ?n = length body + 2 + length (options_bytes os) + k"
    unfolding b length_append lb by (rule unat_of_nat_u32) (use small in simp)
  have m: "?n - of_nat (length body + 2) = of_nat (length (options_bytes os) + k)"
    unfolding b length_append lb by (simp add: algebra_simps)
  have "parseOptions parseOption (pre @ option_bytes (t, body) @ (options_bytes os @ post)) (length pre) ?n =
      parseOptions parseOption (pre @ option_bytes (t, body) @ (options_bytes os @ post)) (length (pre @ option_bytes (t, body)))
        (?n - of_nat (length body + 2))"
    using Cons.prems(1) o n by (intro parseOptions_step) (auto simp: parseOption_def)
  also have "\<dots> = parseOptions parseOption ((pre @ option_bytes (t, body)) @ options_bytes os @ post)
      (length (pre @ option_bytes (t, body))) (of_nat (length (options_bytes os) + k))"
    unfolding m by simp
  also have "\<dots> = parseOptions parseOption ((pre @ option_bytes (t, body)) @ options_bytes os @ post)
      (length (pre @ option_bytes (t, body)) + length (options_bytes os)) (of_nat k)"
    using Cons.prems small by (intro Cons.IH) auto
  finally show ?case unfolding b by (simp add: add.assoc)
qed

lemma parseOptions_stuck:
  assumes "parseOptions parse data p n = Some r"
  shows "\<not> (n \<noteq> 0 \<and> p + 1 < length data \<and> data ! (p + 1) = 0 \<and> parse (data ! p) 0 (p + 2) data)"
proof (rule parseOptions.raw_induct [OF _ assms])
  fix f :: "(u8 \<Rightarrow> u8 \<Rightarrow> nat \<Rightarrow> u8 list \<Rightarrow> bool) \<Rightarrow> u8 list \<Rightarrow> nat \<Rightarrow> u32 \<Rightarrow> bool outcome option" and parse data p n r
  assume IH: "\<And>parse data p n r. f parse data p n = Some r \<Longrightarrow>
      \<not> (n \<noteq> 0 \<and> p + 1 < length data \<and> data ! (p + 1) = 0 \<and> parse (data ! p) 0 (p + 2) data)"
    and r: "(if n = 0 then Some (Inr True)
      else case peek data (p + 1) of Inl e \<Rightarrow> Some (Inl e)
        | Inr option_len \<Rightarrow> (case peek data p of Inl e \<Rightarrow> Some (Inl e)
            | Inr type \<Rightarrow> if \<not> parse type option_len (p + 2) data then Some (Inr False)
                else if ucast option_len > n then Some (Inr False)
                else f parse data (p + unat option_len) (n - ucast option_len))) = Some r"
  show "\<not> (n \<noteq> 0 \<and> p + 1 < length data \<and> data ! (p + 1) = 0 \<and> parse (data ! p) 0 (p + 2) data)"
  proof
    assume a: "n \<noteq> 0 \<and> p + 1 < length data \<and> data ! (p + 1) = 0 \<and> parse (data ! p) 0 (p + 2) data"
    then have pk: "peek data (p + 1) = Inr 0" "peek data p = Inr (data ! p)" by (simp_all add: peek_def)
    have "f parse data p n = Some r" using r a unfolding pk by simp
    from IH [OF this] show False using a by blast
  qed
qed

text \<open>C34: The option parser loops forever on a padding the stack writes itself. It reads a well-formed list of options to its end, as
  long as every length is counted with its header; but an option of length 0 moves nothing, so from the first one on
  the parser never returns. \<open>writePaddingOption\<close> fills a gap of two bytes with exactly such an option.\<close>

theorem padding_hangs_parser:
  assumes "\<forall>(t, body) \<in> set os. t AND 0xC0 = 0 \<and> length body + 2 < 256" and "length (options_bytes os) + 2 < 2 ^ 32"
    and "writePaddingOption (length (options_bytes os)) 2 (options_bytes os @ [x, y]) = Inr out"
  shows "parseOptions parseOption out 0 (of_nat (length (options_bytes os))) = Some (Inr True) \<and>
    parseOptions parseOption out 0 (of_nat (length out)) = None"
proof -
  let ?b = "options_bytes os"
  have out: "out = ?b @ [1, 0]"
    using assms(3) by (simp add: writePaddingOption_def poke_at)
  have "parseOptions parseOption out 0 (of_nat (length ?b)) = parseOptions parseOption out (length ?b) 0"
    using parseOptions_prefix [OF assms(1), of 0 "[]" "[1, 0]"] assms(2) by (simp add: out)
  also have "\<dots> = Some (Inr True)" by (subst parseOptions.simps) simp
  finally have fine: "parseOptions parseOption out 0 (of_nat (length ?b)) = Some (Inr True)" .
  have p: "parseOptions parseOption out 0 (of_nat (length out)) = parseOptions parseOption out (length ?b) 2"
    using parseOptions_prefix [OF assms(1), of 2 "[]" "[1, 0]"] assms(2) by (simp add: out)
  have "parseOptions parseOption out (length ?b) 2 \<noteq> Some r" for r
    using parseOptions_stuck [of parseOption out "length ?b" 2 r] by (auto simp: out nth_append parseOption_def)
  then show ?thesis using fine p by (cases "parseOptions parseOption out (length ?b) 2") auto
qed

theorem padding_hangs_parser_witness:
  "\<exists>out. writePaddingOption (length (options_bytes [(5, [0, 0])])) 2 (options_bytes [(5, [0, 0])] @ [7, 7]) = Inr out \<and>
     parseOptions parseOption out 0 (of_nat (length out)) = None"
proof -
  have "writePaddingOption (length (options_bytes [(5, [0, 0])])) 2 (options_bytes [(5, [0, 0])] @ [7, 7]) = Inr [5, 4, 0, 0, 1, 0]"
    by (simp add: writePaddingOption_def options_bytes_def option_bytes_def poke_def)
  then show ?thesis using padding_hangs_parser [of "[(5, [0, 0])]" 7 7] by (simp add: options_bytes_def option_bytes_def)
qed

subsection \<open>The search for a link layer address\<close>

text \<open>An option of neighbour discovery fills whole units of eight bytes and counts these units.\<close>

definition ndp_option :: "u8 \<times> u8 list \<Rightarrow> u8 list" where
  "ndp_option o' = (case o' of (t, body) \<Rightarrow> t # of_nat ((length body + 2) div 8) # body)"

definition ndp_options :: "(u8 \<times> u8 list) list \<Rightarrow> u8 list" where
  "ndp_options os = concat (map ndp_option os)"

definition ndp_well_formed :: "(u8 \<times> u8 list) \<Rightarrow> bool" where
  "ndp_well_formed o' \<longleftrightarrow> 8 dvd length (snd o') + 2 \<and> (length (snd o') + 2) div 8 < 256"

lemma ndp_option_simps [simp]: "length (ndp_option (t, body)) = length body + 2" "ndp_options [] = []"
  "ndp_options (o' # os) = ndp_option o' @ ndp_options os"
  by (simp_all add: ndp_option_def ndp_options_def)

lemma ndp_search_first:
  assumes w: "ndp_well_formed (t, body)" and n: "length body + 2 \<le> unat n"
  shows "get_option_linklayer_address type (pre @ ndp_option (t, body) @ post) (length pre) n =
    (if t = type then Inr (Some (take 6 body))
     else get_option_linklayer_address type (pre @ ndp_option (t, body) @ post) (length (pre @ ndp_option (t, body)))
       (n - of_nat (length body + 2)))"
proof -
  define k where "k = (length body + 2) div 8"
  have k: "length body + 2 = 8 * k" "k < 256" "0 < k" using w by (auto simp: ndp_well_formed_def k_def)
  let ?l = "of_nat k :: u8"
  have l: "unat ?l = k" using k(2) by (rule unat_of_nat_u8)
  have l0: "?l \<noteq> 0" using l k(3) by auto
  have u: "unat (ucast ?l * 8 :: u32) = 8 * k" by (simp only: unat_octets l)
  have "8 * k < 4294967296" using k(2) by simp
  then have "unat (of_nat (8 * k) :: u32) = 8 * k" by (rule unat_of_nat_u32)
  then have v: "ucast ?l * 8 = (of_nat (8 * k) :: u32)" by (simp only: word_unat_eq_iff u)
  have le: "\<not> ucast ?l * 8 > n" using n by (simp only: word_less_nat_alt u k(1) not_less)
  let ?d = "pre @ ndp_option (t, body) @ post"
  have o: "ndp_option (t, body) = t # ?l # body" by (simp add: ndp_option_def k_def)
  have pk: "peek ?d (length pre + 1) = Inr ?l" "peek ?d (length pre) = Inr t"
    by (simp_all add: o peek_at)
  have "6 \<le> length body" using k(1,3) by linarith
  then have mac: "peek_all ?d (length pre + 2) 6 = Inr (take 6 body)" by (simp add: o peek_all_def)
  have len: "length pre + 8 * unat ?l = length (pre @ ndp_option (t, body))" by (simp only: l) (simp add: o k(1) [symmetric])
  show ?thesis
    unfolding k(1) by (subst get_option_linklayer_address.simps)
      (simp only: pk l0 le [unfolded v] v mac len obind_simps if_False simp_thms cong: if_cong)
qed

text \<open>The search for a link layer address answers the first six bytes of the first option of the type it is asked for, whatever
  options stand before it. Only a message without such an option makes it read the byte behind the message: the loop tests
  the length of an option before it tests that there is one.\<close>

theorem link_option_search_exact:
  assumes "\<forall>o' \<in> set os. ndp_well_formed o'" and "length (ndp_options os) < 2 ^ 32"
  shows "get_option_linklayer_address type (pre @ ndp_options os) (length pre) (of_nat (length (ndp_options os))) =
    (case find (\<lambda>(t, body). t = type) os of Some (t, body) \<Rightarrow> Inr (Some (take 6 body)) | None \<Rightarrow> Inl OutOfBounds)"
  using assms
proof (induction os arbitrary: pre)
  case Nil
  show ?case by (subst get_option_linklayer_address.simps) (simp add: peek_def)
next
  case (Cons o' os)
  obtain t body where o: "o' = (t, body)" by (cases o')
  have len: "length (ndp_options (o' # os)) = length body + 2 + length (ndp_options os)" by (simp add: o)
  have small: "length body + 2 + length (ndp_options os) < 4294967296" using Cons.prems(2) len by simp
  have n: "unat (of_nat (length (ndp_options (o' # os))) :: u32) = length body + 2 + length (ndp_options os)"
    unfolding len by (rule unat_of_nat_u32 [OF small])
  have m: "(of_nat (length (ndp_options (o' # os))) :: u32) - of_nat (length body + 2) = of_nat (length (ndp_options os))"
    unfolding len by (simp add: algebra_simps)
  have first: "get_option_linklayer_address type (pre @ ndp_option (t, body) @ ndp_options os) (length pre) (of_nat (length (ndp_options (o' # os)))) =
    (if t = type then Inr (Some (take 6 body))
     else get_option_linklayer_address type (pre @ ndp_option (t, body) @ ndp_options os) (length (pre @ ndp_option (t, body)))
       (of_nat (length (ndp_options os))))"
    unfolding m [symmetric] using Cons.prems(1) n o by (intro ndp_search_first) auto
  have "get_option_linklayer_address type ((pre @ ndp_option (t, body)) @ ndp_options os) (length (pre @ ndp_option (t, body)))
      (of_nat (length (ndp_options os))) =
    (case find (\<lambda>(t, body). t = type) os of Some (t, body) \<Rightarrow> Inr (Some (take 6 body)) | None \<Rightarrow> Inl OutOfBounds)"
    by (rule Cons.IH) (use Cons.prems small in auto)
  then show ?case using first by (simp add: o)
qed

theorem link_option_search_exact_witness:
  "get_option_linklayer_address 2 ([9] @ ndp_options [(1, [1, 2, 3, 4, 5, 6]), (2, [7, 8, 9, 10, 11, 12])]) 1 16 = Inr (Some [7, 8, 9, 10, 11, 12]) \<and>
   get_option_linklayer_address 3 ([9] @ ndp_options [(1, [1, 2, 3, 4, 5, 6])]) 1 8 = Inl OutOfBounds"
proof -
  have w: "ndp_well_formed (1, [1, 2, 3, 4, 5, 6])" "ndp_well_formed (2, [7, 8, 9, 10, 11, 12])" by code_simp+
  show ?thesis
    using w link_option_search_exact [of "[(1, [1, 2, 3, 4, 5, 6]), (2, [7, 8, 9, 10, 11, 12])]" 2 "[9]"]
    link_option_search_exact [of "[(1, [1, 2, 3, 4, 5, 6])]" 3 "[9]"]
    by (simp add: ndp_option_def)
qed

lemma poke_all_outside: "cs \<noteq> [] \<Longrightarrow> length s < p + length cs \<Longrightarrow> \<exists>e. poke_all p cs s = Inl e"
proof (induction cs arbitrary: p s)
  case Nil
  then show ?case by simp
next
  case (Cons c cs)
  show ?case
  proof (cases "p < length s")
    case True
    then have "cs \<noteq> []" using Cons.prems(2) by auto
    moreover have "length (s[p := c]) < Suc p + length cs" using Cons.prems(2) by simp
    ultimately show ?thesis using Cons.IH [of "s[p := c]" "Suc p"] True by (simp add: poke_def)
  qed (simp add: poke_def)
qed

lemma octets_of_address: "multiple_of_octets n = (if n = 0 then 0 else 1)"
proof (cases "n = 0")
  case False
  then have p: "0 < unat n" by (simp add: unat_gt_0)
  have d: "unat (n div 8) + unat (n mod 8) < 256"
    using unat_u8_less [of n] by (simp add: unat_div unat_mod del: unat_u8_less)
  have "unat (n div 8 + n mod 8) = unat (n div 8) + unat (n mod 8)"
    using d by (simp add: unat_word_ariths)
  also have "\<dots> \<noteq> 0" using p div_mult_mod_eq [of "unat n" 8] by (auto simp: unat_div unat_mod)
  finally have "n div 8 + n mod 8 \<noteq> 0" by auto
  then show ?thesis using False by (simp add: multiple_of_octets_def)
qed (simp add: multiple_of_octets_def)

lemma poke_all_behind: "length pre = p \<Longrightarrow> length cs \<le> length s \<Longrightarrow> poke_all p cs (pre @ s) = Inr (pre @ cs @ drop (length cs) s)"
  using poke_all_append by blast

lemma two_first: "length s = k + 2 \<Longrightarrow> \<exists>a b r. s = a # b # r \<and> length r = k"
  by (cases s; cases "tl s") auto

lemma solicitation_head:
  assumes "length (ipaddrB8 dst) = 16" and "length buf = 24 + k"
  shows "ns_message dst address n buf = write_option_linklayer_address SourceLinkLayer 24 address n
    ([135, 0] @ take 2 (drop 2 buf) @ [0, 0, 0, 0] @ ipaddrB8 dst @ drop 24 buf)"
proof -
  have "length buf = (22 + k) + 2" using assms(2) by simp
  then obtain a b s where s: "buf = a # b # s" and "length s = (20 + k) + 2" using two_first [of buf "22 + k"] by auto
  then obtain c d rest where cd: "s = c # d # rest" and rest: "length rest = 20 + k" using two_first [of s "20 + k"] by auto
  have buf: "buf = a # b # c # d # rest" by (simp add: s cd)
  have q: "poke_all 4 [0, 0, 0, 0] ([135, 0, c, d] @ rest) = Inr ([135, 0, c, d] @ [0, 0, 0, 0] @ drop 4 rest)"
    using rest by (subst poke_all_behind) (simp_all add: eval_nat_numeral)
  have r: "poke_all 8 (ipaddrB8 dst) ([135, 0, c, d, 0, 0, 0, 0] @ drop 4 rest) =
      Inr ([135, 0, c, d, 0, 0, 0, 0] @ ipaddrB8 dst @ drop 16 (drop 4 rest))"
    using rest assms(1) by (subst poke_all_behind) simp_all
  show ?thesis
    using q r assms(1) by (simp add: ns_message_def buf poke_def del: poke_all.simps)
qed

text \<open>A neighbour solicitation fits the buffer the stack asks for exactly when the link layer address has one to six bytes; then
  its receiver finds this address in it. The size is rounded by an expression in which \<open>?:\<close> takes the whole sum, so a
  longer address is written past the end of the buffer.\<close>

theorem solicitation_carries_address:
  assumes "length (ipaddrB8 dst) = 16" and "length address = unat n" and "length buf = unat (ns_size n)"
  shows "if 1 \<le> n \<and> n \<le> 6
    then \<exists>m. ns_message dst address n buf = Inr m \<and>
      (\<exists>rest. get_option_linklayer_address SourceLinkLayer m 24 8 = Inr (Some (address @ rest)))
    else \<exists>e. ns_message dst address n buf = Inl e"
proof (cases "n = 0")
  case True
  then have "length buf = 24" using assms(3) by (simp add: ns_size_def octets_of_address)
  then have "ns_message dst address n buf = Inl OutOfBounds"
    using solicitation_head [OF assms(1), of buf 0] assms(1)
    by (simp add: write_option_linklayer_address_def poke_def)
  then show ?thesis using True by simp
next
  case False
  define pre where "pre = [135, 0] @ take 2 (drop 2 buf) @ [0, 0, 0, 0] @ ipaddrB8 dst"
  have "length buf = 24 + 8" using assms(3) False by (simp add: ns_size_def octets_of_address)
  then have m: "ns_message dst address n buf = write_option_linklayer_address SourceLinkLayer 24 address n (pre @ drop 24 buf)"
    and pre: "length pre = 24" and "length (drop 24 buf) = 6 + 2"
    using solicitation_head [OF assms(1), of buf 8] assms(1) by (simp_all add: pre_def)
  then obtain a b rest where d: "drop 24 buf = a # b # rest" and rest: "length rest = 6"
    using two_first by blast
  have pos: "address \<noteq> []" using assms(2) False by (metis list.size(3) unat_eq_zero)
  have addr: "peek_all address 0 (unat n) = Inr address" by (simp add: peek_all_def assms(2))
  have w: "ns_message dst address n buf =
      poke_all 26 address (pre @ SourceLinkLayer # (if n > 6 then 2 else 1) # rest)"
    using poke_at [where pre = pre] pre False
    by (simp add: m d write_option_linklayer_address_def addr octets_of_address del: poke_all.simps)
  show ?thesis
  proof (cases "n \<le> 6")
    case True
    then have len: "length address \<le> 6" using assms(2) by (simp add: word_le_nat_alt)
    have s: "ns_message dst address n buf = Inr (pre @ SourceLinkLayer # 1 # address @ drop (length address) rest)"
      using poke_all_behind [of "pre @ [SourceLinkLayer, 1]" 26 address rest] True len rest pre by (simp add: w leD)
    let ?body = "address @ drop (length address) rest"
    have body: "length ?body = 6" using len rest by simp
    have "get_option_linklayer_address SourceLinkLayer (pre @ ndp_option (SourceLinkLayer, ?body) @ []) (length pre) 8 = Inr (Some (take 6 ?body))"
      by (subst ndp_search_first) (use body in \<open>simp_all add: ndp_well_formed_def\<close>)
    moreover have "ndp_option (SourceLinkLayer, ?body) = SourceLinkLayer # 1 # ?body" using body by (simp add: ndp_option_def)
    moreover have "1 \<le> n" using False by (simp add: word_le_nat_alt unat_gt_0 Suc_le_eq)
    ultimately show ?thesis using s True pre body by auto
  next
    case n: False
    then have "6 < length address" using assms(2) by (simp add: word_le_nat_alt)
    then have "\<exists>e. ns_message dst address n buf = Inl e"
      unfolding w using pos pre rest by (intro poke_all_outside) simp_all
    then show ?thesis using n by simp
  qed
qed

theorem solicitation_carries_address_witness:
  "(\<exists>m. ns_message \<lparr>ipaddrB8 = replicate 16 7\<rparr> [1, 2, 3, 4, 5, 6] 6 (replicate 32 0) = Inr m) \<and>
   (\<exists>e. ns_message \<lparr>ipaddrB8 = replicate 16 7\<rparr> [1, 2, 3, 4, 5, 6, 7, 8] 8 (replicate 32 0) = Inl e)"
  using solicitation_carries_address [of "\<lparr>ipaddrB8 = replicate 16 7\<rparr>" "[1, 2, 3, 4, 5, 6]" 6 "replicate 32 0"]
    solicitation_carries_address [of "\<lparr>ipaddrB8 = replicate 16 7\<rparr>" "[1, 2, 3, 4, 5, 6, 7, 8]" 8 "replicate 32 0"]
  by (simp add: ns_size_def octets_of_address) blast

end
