(* ===== verification/Socket_List.thy ===== *)
theory Socket_List
  imports Prelude
begin

text \<open>
  \<^verbatim>\<open>demux/DemuxLinkedListContainer.h\<close>: the template that puts a \<open>next\<close> pointer into a socket, and the loops that the
  tables of sockets run over such a list. The loops are written out in \<^verbatim>\<open>udp/Demux_UDP_Slice.ah\<close>,
  \<^verbatim>\<open>tcp/Demux_TCP_Slice.ah\<close> and \<^verbatim>\<open>tcp/Demux_TCP_Listen_Slice.ah\<close>; here each is one function that takes the pointer and
  the port of a socket as arguments. A socket is kept at its address, \<open>None\<close> is the null pointer, and a loop that need not
  end is a partial function whose result \<open>None\<close> means that it does not.
\<close>

subsection \<open>The loops\<close>

type_synonym 's sockets = "nat \<Rightarrow> 's option"

definition deref :: "nat \<Rightarrow> 's sockets \<Rightarrow> 's outcome" where
  "deref p h = (case h p of None \<Rightarrow> Inl UseAfterFree | Some s \<Rightarrow> Inr s)"

definition update_at :: "nat \<Rightarrow> ('s \<Rightarrow> 's) \<Rightarrow> 's sockets \<Rightarrow> 's sockets" where
  "update_at p f h = h(p := map_option f (h p))"

text \<open>Sequencing of computations that may not return: a fault ends them.\<close>

definition lbind :: "'a outcome option \<Rightarrow> ('a \<Rightarrow> 'b outcome option) \<Rightarrow> 'b outcome option" where
  "lbind m f = Option.bind m (\<lambda>r. case r of Inl e \<Rightarrow> Some (Inl e) | Inr x \<Rightarrow> f x)"

lemma lbind_simps [simp]: "lbind None f = None" "lbind (Some (Inl e)) f = Some (Inl e)" "lbind (Some (Inr x)) f = f x"
  by (simp_all add: lbind_def)

text \<open>The first socket from \<open>current\<close> on of which \<open>P\<close> holds.\<close>

partial_function (option) list_find ::
    "('s \<Rightarrow> nat option) \<Rightarrow> ('s \<Rightarrow> bool) \<Rightarrow> 's sockets \<Rightarrow> nat option \<Rightarrow> nat option outcome option" where
  "list_find nxt P h current =
     (case current of
        None \<Rightarrow> Some (Inr None)
      | Some p \<Rightarrow> (case deref p h of Inl e \<Rightarrow> Some (Inl e)
        | Inr s \<Rightarrow> if P s then Some (Inr (Some p)) else list_find nxt P h (nxt s)))"

definition next_port :: "u16 \<Rightarrow> u16" where
  "next_port port = (let port = port + 1 in if port < 1024 then 1024 else port)"

text \<open>The search for a free port: it starts at the head again whenever the port is taken.\<close>

partial_function (option) list_free_port ::
    "('s \<Rightarrow> nat option) \<Rightarrow> ('s \<Rightarrow> u16) \<Rightarrow> 's sockets \<Rightarrow> nat option \<Rightarrow> u16 \<Rightarrow> nat option \<Rightarrow> u16 outcome option" where
  "list_free_port nxt sport h head port current =
     (case current of
        None \<Rightarrow> Some (Inr port)
      | Some p \<Rightarrow> (case deref p h of Inl e \<Rightarrow> Some (Inl e)
        | Inr s \<Rightarrow> if sport s = port then list_free_port nxt sport h head (next_port port) head
                   else list_free_port nxt sport h head port (nxt s)))"

text \<open>Insertion at the front, and removal: the head is replaced, any other socket is skipped by its predecessor.\<close>

definition list_push :: "(nat option \<Rightarrow> 's \<Rightarrow> 's) \<Rightarrow> nat \<Rightarrow> nat option \<Rightarrow> 's sockets \<Rightarrow> nat option \<times> 's sockets" where
  "list_push set_next p head h = (Some p, update_at p (set_next head) h)"

partial_function (option) list_unlink ::
    "('s \<Rightarrow> nat option) \<Rightarrow> (nat option \<Rightarrow> 's \<Rightarrow> 's) \<Rightarrow> nat \<Rightarrow> nat \<Rightarrow> nat option \<Rightarrow> 's sockets \<Rightarrow> 's sockets outcome option" where
  "list_unlink nxt set_next socket current n h =
     (case n of
        None \<Rightarrow> Some (Inr h)
      | Some n \<Rightarrow> (case deref n h of Inl e \<Rightarrow> Some (Inl e)
        | Inr s \<Rightarrow> if n = socket then Some (Inr (update_at current (set_next (nxt s)) h))
                   else list_unlink nxt set_next socket n (nxt s) h))"

definition list_remove ::
    "('s \<Rightarrow> nat option) \<Rightarrow> (nat option \<Rightarrow> 's \<Rightarrow> 's) \<Rightarrow> nat \<Rightarrow> nat option \<Rightarrow> 's sockets \<Rightarrow> (nat option \<times> 's sockets) outcome option" where
  "list_remove nxt set_next p head h =
     (if head = Some p
      then Some (obind (deref p h) (\<lambda>s. Inr (nxt s, h)))
      else case head of
          None \<Rightarrow> Some (Inl NullDeref)
        | Some current \<Rightarrow> (case deref current h of Inl e \<Rightarrow> Some (Inl e)
          | Inr s \<Rightarrow> map_option (map_sum id (Pair head)) (list_unlink nxt set_next p current (nxt s) h)))"

subsection \<open>Chains\<close>

text \<open>\<open>list_chain nxt h current ps\<close>: from \<open>current\<close> on the sockets at \<open>ps\<close> follow one another.\<close>

fun list_chain :: "('s \<Rightarrow> nat option) \<Rightarrow> 's sockets \<Rightarrow> nat option \<Rightarrow> nat list \<Rightarrow> bool" where
  "list_chain nxt h current [] \<longleftrightarrow> current = None"
| "list_chain nxt h current (p # ps) \<longleftrightarrow> current = Some p \<and> h p \<noteq> None \<and> list_chain nxt h (nxt (the (h p))) ps"

lemma deref_Some [simp]: "h p = Some s \<Longrightarrow> deref p h = Inr s"
  by (simp add: deref_def)

lemma update_at_simps [simp]: "update_at p f h p = map_option f (h p)" "q \<noteq> p \<Longrightarrow> update_at p f h q = h q"
  by (simp_all add: update_at_def)

lemma update_at_apply: "update_at p f h q = (if q = p then map_option f (h p) else h q)"
  by (simp add: update_at_def)

lemma list_chain_cong:
  "(\<And>p. p \<in> set ps \<Longrightarrow> map_option nxt (h' p) = map_option nxt (h p)) \<Longrightarrow> list_chain nxt h' current ps = list_chain nxt h current ps"
proof (induction ps arbitrary: current)
  case (Cons p ps)
  have "map_option nxt (h' p) = map_option nxt (h p)" using Cons.prems by simp
  then have "h' p = None \<longleftrightarrow> h p = None" and "h p \<noteq> None \<Longrightarrow> nxt (the (h' p)) = nxt (the (h p))"
    by (cases "h' p"; cases "h p"; simp)+
  then show ?case using Cons by auto
qed simp

lemma list_chain_sockets: "list_chain nxt h current ps \<Longrightarrow> p \<in> set ps \<Longrightarrow> \<exists>s. h p = Some s"
  by (induction ps arbitrary: current) auto

lemma list_chain_unique: "list_chain nxt h current ps \<Longrightarrow> list_chain nxt h current qs \<Longrightarrow> ps = qs"
  by (induction ps arbitrary: current qs) (auto elim: list_chain.elims)

lemma list_find_chain: "list_chain nxt h current ps \<Longrightarrow> list_find nxt P h current = Some (Inr (find (\<lambda>p. P (the (h p))) ps))"
proof (induction ps arbitrary: current)
  case Nil
  then show ?case by (subst list_find.simps) simp
next
  case (Cons p ps)
  then obtain s where "current = Some p" "h p = Some s" "list_chain nxt h (nxt s) ps" by auto
  then show ?case using Cons.IH by (subst list_find.simps) simp
qed

lemma find_unique:
  assumes "p \<in> set ps" and "\<And>q. q \<in> set ps \<Longrightarrow> P q \<longleftrightarrow> q = p"
  shows "find P ps = Some p"
proof -
  have "find P ps = find (\<lambda>q. q = p) ps" using assms(2) by (intro find_cong) auto
  also have "\<dots> = Some p" using assms(1) by (induction ps) auto
  finally show ?thesis .
qed

subsection \<open>Free ports\<close>

definition ports_used :: "('s \<Rightarrow> u16) \<Rightarrow> 's sockets \<Rightarrow> nat list \<Rightarrow> u16 set" where
  "ports_used sport h ps = (\<lambda>p. sport (the (h p))) ` set ps"

lemma list_free_port_scan:
  "list_chain nxt h current ps \<Longrightarrow> list_free_port nxt sport h head port current =
    (if port \<in> ports_used sport h ps then list_free_port nxt sport h head (next_port port) head else Some (Inr port))"
proof (induction ps arbitrary: current)
  case Nil
  then show ?case by (subst list_free_port.simps) (simp add: ports_used_def)
next
  case (Cons p ps)
  then obtain s where "current = Some p" "h p = Some s" "list_chain nxt h (nxt s) ps" by auto
  then show ?case using Cons.IH by (subst list_free_port.simps) (auto simp: ports_used_def)
qed

lemma list_free_port_found:
  assumes "list_chain nxt h head ps"
  shows "(next_port ^^ k) port \<notin> ports_used sport h ps \<Longrightarrow>
    \<exists>j. list_free_port nxt sport h head port head = Some (Inr ((next_port ^^ j) port)) \<and> (next_port ^^ j) port \<notin> ports_used sport h ps"
proof (induction k arbitrary: port)
  case 0
  then show ?case using list_free_port_scan [OF assms, of sport head port] by (intro exI [of _ 0]) simp
next
  case (Suc k)
  show ?case
  proof (cases "port \<in> ports_used sport h ps")
    case True
    obtain j where "list_free_port nxt sport h head (next_port port) head = Some (Inr ((next_port ^^ j) (next_port port)))"
        "(next_port ^^ j) (next_port port) \<notin> ports_used sport h ps"
      using Suc.IH [of "next_port port"] Suc.prems by (auto simp: funpow_swap1)
    then show ?thesis
      using list_free_port_scan [OF assms, of sport head port] True by (intro exI [of _ "Suc j"]) (simp add: funpow_swap1)
  next
    case False
    then show ?thesis using list_free_port_scan [OF assms, of sport head port] by (intro exI [of _ 0]) simp
  qed
qed

lemma unat_next_port: "unat (next_port port) = (if unat port + 1 < 1024 \<or> unat port = 65535 then 1024 else unat port + 1)"
proof (cases "unat port = 65535")
  case True
  then have "unat (port + 1) = 0" by (simp add: unat_word_ariths)
  then show ?thesis using True by (simp add: next_port_def Let_def word_less_nat_alt)
next
  case False
  then have "unat (port + 1) = unat port + 1" using unat_u16_less [of port] by (simp add: unat_word_ariths del: unat_u16_less)
  then show ?thesis using False by (simp add: next_port_def Let_def word_less_nat_alt)
qed

lemma next_port_mod: "(if 1024 + x mod 64512 + 1 < 1024 \<or> 1024 + x mod 64512 = 65535 then 1024 else 1024 + x mod 64512 + 1) =
    1024 + Suc x mod (64512 :: nat)"
  by (simp add: mod_Suc)

lemma unat_next_ports:
  "1024 \<le> unat port \<Longrightarrow> unat ((next_port ^^ k) port) = 1024 + (unat port - 1024 + k) mod 64512"
proof (induction k)
  case 0
  then show ?case using unat_u16_less [of port] by (simp del: unat_u16_less)
next
  case (Suc k)
  then have "unat ((next_port ^^ k) port) = 1024 + (unat port - 1024 + k) mod 64512" by blast
  then show ?case using next_port_mod [of "unat port - 1024 + k"] by (simp only: funpow.simps comp_def unat_next_port add_Suc_right)
qed

lemma free_port_exists:
  assumes "length ps < 64512" and "1024 \<le> unat port"
  shows "\<exists>k. (next_port ^^ k) port \<notin> ports_used sport h ps"
proof -
  have inj: "inj_on (\<lambda>k. (next_port ^^ k) port) {..<64512}"
  proof (rule inj_onI)
    fix i j :: nat assume ij: "i \<in> {..<64512}" "j \<in> {..<64512}" and e: "(next_port ^^ i) port = (next_port ^^ j) port"
    have "(unat port - 1024 + i) mod 64512 = (unat port - 1024 + j) mod 64512"
      using arg_cong [OF e, of unat] assms(2) by (simp add: unat_next_ports)
    then show "i = j" using ij mod_add_inj [of "unat port - 1024" 64512 i j] unat_u16_less [of port] by (simp del: unat_u16_less)
  qed
  have "card (ports_used sport h ps) < card ((\<lambda>k. (next_port ^^ k) port) ` {..<64512})"
    using card_image_le [of "set ps" "\<lambda>p. sport (the (h p))"] card_length [of ps] assms(1)
    by (simp add: card_image [OF inj] ports_used_def)
  moreover have "finite (ports_used sport h ps)" by (simp add: ports_used_def)
  ultimately have "\<not> (\<lambda>k. (next_port ^^ k) port) ` {..<64512} \<subseteq> ports_used sport h ps"
    using card_mono leD by blast
  then show ?thesis by blast
qed

lemma list_free_port_spec:
  assumes "list_chain nxt h head ps" and "length ps < 64512"
  obtains port where "list_free_port nxt sport h head (next_port l) head = Some (Inr port)"
    and "port \<notin> ports_used sport h ps" and "1024 \<le> unat port"
proof -
  have p: "1024 \<le> unat (next_port l)" by (simp add: unat_next_port)
  obtain k where "(next_port ^^ k) (next_port l) \<notin> ports_used sport h ps" using free_port_exists [OF assms(2) p] by blast
  then obtain j where "list_free_port nxt sport h head (next_port l) head = Some (Inr ((next_port ^^ j) (next_port l)))"
      "(next_port ^^ j) (next_port l) \<notin> ports_used sport h ps"
    using list_free_port_found [OF assms(1)] by blast
  then show thesis using unat_next_ports [OF p, of j] by (intro that) auto
qed

subsection \<open>The list as an abstract list\<close>

text \<open>Two stores that differ in the pointers only.\<close>

definition same_bodies :: "('s \<Rightarrow> 'b) \<Rightarrow> 's sockets \<Rightarrow> 's sockets \<Rightarrow> bool" where
  "same_bodies body h' h \<longleftrightarrow> (\<forall>q. map_option body (h' q) = map_option body (h q))"

lemma same_bodies_refl [simp]: "same_bodies body h h"
  by (simp add: same_bodies_def)

text \<open>What a socket has to offer to be kept in such a list: a pointer that is read as it was written and that does not touch
  the rest of the socket, \<open>body\<close>.\<close>

locale chained =
  fixes nxt :: "'s \<Rightarrow> nat option" and set_next :: "nat option \<Rightarrow> 's \<Rightarrow> 's" and body :: "'s \<Rightarrow> 'b"
  assumes nxt_set [simp]: "nxt (set_next n s) = n" and body_set [simp]: "body (set_next n s) = body s"
begin

lemma same_bodies_update [simp]: "same_bodies body (update_at p (set_next n) h) h"
  by (auto simp: same_bodies_def update_at_apply option.map_comp comp_def)

lemma push_chain:
  assumes "list_chain nxt h head ps" and "h p \<noteq> None" and "p \<notin> set ps" and "list_push set_next p head h = (head', h')"
  shows "head' = Some p" and "list_chain nxt h' head' (p # ps)" and "same_bodies body h' h" and "\<And>q. q \<noteq> p \<Longrightarrow> h' q = h q"
proof -
  have h': "head' = Some p" "h' = update_at p (set_next head) h" using assms(4) by (auto simp: list_push_def)
  then show "head' = Some p" and "same_bodies body h' h" and "\<And>q. q \<noteq> p \<Longrightarrow> h' q = h q" by simp_all
  have "list_chain nxt h' head ps = list_chain nxt h head ps" using assms(3) h' by (intro list_chain_cong) (auto simp: update_at_apply)
  then show "list_chain nxt h' head' (p # ps)" using assms(1,2) h' by auto
qed

lemma unlink_chain:
  "list_chain nxt h (Some c) (c # rest) \<Longrightarrow> distinct (c # rest) \<Longrightarrow> \<exists>h'. list_unlink nxt set_next p c (nxt (the (h c))) h = Some (Inr h') \<and>
     list_chain nxt h' (Some c) (c # remove1 p rest) \<and> same_bodies body h' h \<and> (\<forall>q. q \<notin> set (c # rest) \<longrightarrow> h' q = h q) \<and>
     (p \<notin> set rest \<longrightarrow> h' = h)"
proof (induction rest arbitrary: c)
  case Nil
  then show ?case by (subst list_unlink.simps) auto
next
  case (Cons n rest)
  obtain s where s: "h n = Some s" using Cons.prems(1) by auto
  obtain sc where sc: "h c = Some sc" "nxt sc = Some n" using Cons.prems(1) by auto
  have c: "c \<noteq> n" "c \<notin> set rest" "n \<notin> set rest" using Cons.prems(2) by auto
  show ?case
  proof (cases "n = p")
    case True
    let ?h = "update_at c (set_next (nxt s)) h"
    have "list_chain nxt ?h (nxt s) rest = list_chain nxt h (nxt s) rest" using c by (intro list_chain_cong) (auto simp: update_at_apply)
    moreover have "list_chain nxt h (nxt s) rest" using Cons.prems(1) s by simp
    ultimately have "list_chain nxt ?h (Some c) (c # remove1 p (n # rest))" using True sc by simp
    moreover have "list_unlink nxt set_next p c (nxt (the (h c))) h = Some (Inr ?h)"
      using True s sc by (subst list_unlink.simps) simp
    ultimately show ?thesis using True by auto
  next
    case False
    have "list_unlink nxt set_next p c (nxt (the (h c))) h = list_unlink nxt set_next p n (nxt (the (h n))) h"
      using False s sc by (subst list_unlink.simps) simp
    moreover obtain h' where h': "list_unlink nxt set_next p n (nxt (the (h n))) h = Some (Inr h')"
        "list_chain nxt h' (Some n) (n # remove1 p rest)" "same_bodies body h' h"
        "\<forall>q. q \<notin> set (n # rest) \<longrightarrow> h' q = h q" "p \<notin> set rest \<longrightarrow> h' = h"
      using Cons.IH [of n] Cons.prems sc by auto
    moreover have "list_chain nxt h' (Some c) (c # remove1 p (n # rest))" using h'(2,4) c sc False by auto
    ultimately show ?thesis using False by (intro exI [of _ h']) auto
  qed
qed

lemma remove_empty: "list_remove nxt set_next p None h = Some (Inl NullDeref)"
  by (simp add: list_remove_def)

lemma remove_chain:
  assumes "list_chain nxt h head ps" and "distinct ps" and "ps \<noteq> []"
  obtains head' h' where "list_remove nxt set_next p head h = Some (Inr (head', h'))" and "list_chain nxt h' head' (remove1 p ps)"
    and "same_bodies body h' h" and "\<And>q. q \<notin> set ps \<Longrightarrow> h' q = h q" and "p \<notin> set ps \<Longrightarrow> h' = h \<and> head' = head"
proof -
  obtain c rest where ps: "ps = c # rest" using assms(3) by (cases ps) auto
  have head: "head = Some c" using assms(1) ps by simp
  obtain s where s: "h c = Some s" "list_chain nxt h (nxt s) rest" using assms(1) ps by auto
  show thesis
  proof (cases "p = c")
    case True
    then have "list_remove nxt set_next p head h = Some (Inr (nxt s, h))" using head s by (simp add: list_remove_def)
    then show thesis using that [of "nxt s" h] s True ps by simp
  next
    case False
    obtain h' where h': "list_unlink nxt set_next p c (nxt (the (h c))) h = Some (Inr h')" "list_chain nxt h' (Some c) (c # remove1 p rest)"
        "same_bodies body h' h" "\<forall>q. q \<notin> set (c # rest) \<longrightarrow> h' q = h q" "p \<notin> set rest \<longrightarrow> h' = h"
      using unlink_chain [of h c rest p] assms(1,2) ps by auto
    have "list_remove nxt set_next p head h = Some (Inr (head, h'))" using False head s h'(1) by (simp add: list_remove_def)
    then show thesis using that [of head h'] h' False ps head by auto
  qed
qed

end

end
