(* ===== verification/Datagram_Sockets.thy ===== *)
theory Datagram_Sockets
  imports Socket_List Buffers Ring_Buffer Link_Frames TCP_Segment
begin

text \<open>
  The sockets of UDP and the way of a datagram to them: \<^verbatim>\<open>udp/UDP_Socket.h\<close> and \<^verbatim>\<open>.cpp\<close>, the list of bound sockets of
  \<^verbatim>\<open>demux/DemuxLinkedListContainer.h\<close> and \<^verbatim>\<open>udp/Demux_UDP_Slice.ah\<close>, the receive buffers that remember the sender
  (\<^verbatim>\<open>ipv4/udp/ReceiveBufferUDPIPv4.h\<close>, \<^verbatim>\<open>ipv6/udp/ReceiveBufferUDPIPv6.h\<close>) and their queue. The list is kept by
  addresses: a socket is found at its address, \<open>None\<close> is the null pointer, and a loop that need not end is a partial
  function whose result \<open>None\<close> means that it does not. The answer to a segment without a socket
  (\<^verbatim>\<open>tcp/Management_TCP_Socket.cpp\<close>) stands at the end.
\<close>

subsection \<open>UDP sockets\<close>

record UDP_Socket =
  us_next :: "nat option"
  us_dport :: u16
  us_sport :: u16
  us_receivequeue :: "receive_buffer ringbuffer"
  us_mempool :: basic_mempool

definition new_UDP_Socket :: "receive_buffer ringbuffer \<Rightarrow> basic_mempool \<Rightarrow> UDP_Socket" where
  "new_UDP_Socket queue pool =
     \<lparr>us_next = None, us_dport = UDP_UNUSED_PORT, us_sport = UDP_UNUSED_PORT, us_receivequeue = queue, us_mempool = pool\<rparr>"

definition us_set_dport :: "u16 \<Rightarrow> UDP_Socket \<Rightarrow> UDP_Socket" where "us_set_dport d s = s\<lparr>us_dport := d\<rparr>"
definition us_get_dport :: "UDP_Socket \<Rightarrow> u16" where "us_get_dport s = us_dport s"
definition us_set_sport :: "u16 \<Rightarrow> UDP_Socket \<Rightarrow> UDP_Socket" where "us_set_sport d s = s\<lparr>us_sport := d\<rparr>"
definition us_get_sport :: "UDP_Socket \<Rightarrow> u16" where "us_get_sport s = us_sport s"
definition getNext :: "UDP_Socket \<Rightarrow> nat option" where "getNext s = us_next s"
definition setNext :: "nat option \<Rightarrow> UDP_Socket \<Rightarrow> UDP_Socket" where "setNext n s = s\<lparr>us_next := n\<rparr>"
definition get_Mempool :: "UDP_Socket \<Rightarrow> basic_mempool" where "get_Mempool s = us_mempool s"
definition set_Mempool :: "basic_mempool \<Rightarrow> UDP_Socket \<Rightarrow> UDP_Socket" where "set_Mempool m s = s\<lparr>us_mempool := m\<rparr>"
definition set_ReceiveQueue :: "receive_buffer ringbuffer \<Rightarrow> UDP_Socket \<Rightarrow> UDP_Socket" where
  "set_ReceiveQueue q s = s\<lparr>us_receivequeue := q\<rparr>"

definition us_setupHeader :: "u32 \<Rightarrow> UDP_Socket \<Rightarrow> u8 list \<Rightarrow> u8 list" where
  "us_setupHeader datasize s packet =
     (let packet = udp_set_dport (us_dport s) packet;
          packet = udp_set_sport (us_sport s) packet;
          packet = udp_set_length (ucast datasize) packet
      in udp_set_checksum 0 packet)"

subsection \<open>The list of bound sockets\<close>

record udp_demux =
  udp_last_default_port :: u16
  udp_head_socket :: "nat option"
  udp_sockets :: "nat \<Rightarrow> UDP_Socket option"

definition socket_at :: "nat \<Rightarrow> udp_demux \<Rightarrow> UDP_Socket outcome" where
  "socket_at p d = deref p (udp_sockets d)"

definition at_socket :: "nat \<Rightarrow> (UDP_Socket \<Rightarrow> UDP_Socket) \<Rightarrow> udp_demux \<Rightarrow> udp_demux" where
  "at_socket p f d = d\<lparr>udp_sockets := update_at p f (udp_sockets d)\<rparr>"

text \<open>The first socket from \<open>current\<close> on with a given port.\<close>

definition find_port :: "udp_demux \<Rightarrow> u16 \<Rightarrow> nat option \<Rightarrow> nat option outcome option" where
  "find_port d port current = list_find getNext (\<lambda>s. us_get_sport s = port) (udp_sockets d) current"

definition udp_get_free_port :: "udp_demux \<Rightarrow> (u16 \<times> udp_demux) outcome option" where
  "udp_get_free_port d =
     map_option (map_sum id (\<lambda>port. (port, d\<lparr>udp_last_default_port := port\<rparr>)))
       (list_free_port getNext us_get_sport (udp_sockets d) (udp_head_socket d) (next_port (udp_last_default_port d)) (udp_head_socket d))"

definition insert_at_front :: "nat \<Rightarrow> udp_demux \<Rightarrow> udp_demux" where
  "insert_at_front p d =
     (case list_push setNext p (udp_head_socket d) (udp_sockets d) of (head, h) \<Rightarrow> d\<lparr>udp_head_socket := head, udp_sockets := h\<rparr>)"

definition udp_bind :: "nat \<Rightarrow> udp_demux \<Rightarrow> (bool \<times> udp_demux) outcome option" where
  "udp_bind p d =
     (case socket_at p d of
        Inl e \<Rightarrow> Some (Inl e)
      | Inr s \<Rightarrow>
        let sport = us_get_sport s in
        if sport = UDP_UNUSED_PORT
        then map_option (map_sum id (\<lambda>(port, d). (True, insert_at_front p (at_socket p (us_set_sport port) d)))) (udp_get_free_port d)
        else map_option (map_sum id (\<lambda>found. if found \<noteq> None then (False, d) else (True, insert_at_front p d)))
          (find_port d sport (udp_head_socket d)))"

definition udp_unbind :: "nat \<Rightarrow> udp_demux \<Rightarrow> udp_demux outcome option" where
  "udp_unbind p d =
     map_option (map_sum id (\<lambda>(head, h). d\<lparr>udp_head_socket := head, udp_sockets := h\<rparr>))
       (list_remove getNext setNext p (udp_head_socket d) (udp_sockets d))"

subsection \<open>Receive buffers with a sender\<close>

text \<open>\<open>RemoteInfo\<close> with IPv4: address at 0, port at 4, \<open>id\<close> at 6, eight bytes in all; with IPv6: \<open>id\<close> at 0, port at 2,
  address at 4, twenty bytes in all.\<close>

definition udp4_padding :: "u16 \<Rightarrow> nat" where
  "udp4_padding payloadsize = (4 - ((unat payloadsize + 8) mod 4)) mod 4"

definition createReceiveBufferUDPIPv4 ::
    "nat \<Rightarrow> pool_config \<Rightarrow> u8 list \<Rightarrow> u16 \<Rightarrow> u16 \<Rightarrow> u32 \<Rightarrow> basic_mempool \<Rightarrow> (receive_buffer option \<times> basic_mempool) outcome" where
  "createReceiveBufferUDPIPv4 szrb c payload payloadsize remoteport ipv4 m =
     (let padding = udp4_padding payloadsize in
      obind (createReceiveBuffer szrb c payload (of_nat (unat payloadsize + 8 + padding)) m) (\<lambda>(r, m).
        case r of None \<Rightarrow> Inr (None, m)
        | Some r \<Rightarrow>
          let d = unat payloadsize + padding in
          obind (poke (d + 6) 0x34 (m_dataStart r)) (\<lambda>data.
          obind (poke_all (d + 4) (store16 remoteport) data) (\<lambda>data.
          obind (poke_all d (store32 ipv4) data) (\<lambda>data.
          Inr (Some (r\<lparr>m_receivedSize := payloadsize, m_dataStart := data\<rparr>), m))))))"

definition getRemoteInfo_ipv4 :: "receive_buffer \<Rightarrow> (u32 \<times> u16 \<times> u8) outcome" where
  "getRemoteInfo_ipv4 r =
     (let d = unat (m_receivedSize r) + udp4_padding (m_receivedSize r) in
      obind (peek_all (m_dataStart r) d 8) (\<lambda>info.
        Inr (load32 (info ! 0) (info ! 1) (info ! 2) (info ! 3), load16 (info ! 4) (info ! 5), info ! 6)))"

definition cast_ipv4 :: "receive_buffer \<Rightarrow> receive_buffer option outcome" where
  "cast_ipv4 b = obind (getRemoteInfo_ipv4 b) (\<lambda>(_, _, id'). Inr (if id' \<noteq> 0x34 then None else Some b))"

definition createReceiveBufferUDPIPv6 ::
    "nat \<Rightarrow> pool_config \<Rightarrow> u8 list \<Rightarrow> u16 \<Rightarrow> u16 \<Rightarrow> u8 list \<Rightarrow> basic_mempool \<Rightarrow> (receive_buffer option \<times> basic_mempool) outcome" where
  "createReceiveBufferUDPIPv6 szrb c payload payloadsize remoteport ipv6 m =
     obind (createReceiveBuffer szrb c payload (payloadsize + 20) m) (\<lambda>(r, m).
       case r of None \<Rightarrow> Inr (None, m)
       | Some r \<Rightarrow>
         let d = unat payloadsize in
         obind (poke d 0x36 (m_dataStart r)) (\<lambda>data.
         obind (poke_all (d + 2) (store16 remoteport) data) (\<lambda>data.
         obind (poke_all (d + 4) (take 16 ipv6) data) (\<lambda>data.
         Inr (Some (r\<lparr>m_receivedSize := payloadsize, m_dataStart := data\<rparr>), m)))))"

definition getRemoteInfo_ipv6 :: "receive_buffer \<Rightarrow> (u8 \<times> u16 \<times> u8 list) outcome" where
  "getRemoteInfo_ipv6 r =
     obind (peek_all (m_dataStart r) (unat (m_receivedSize r)) 20) (\<lambda>info.
       Inr (info ! 0, load16 (info ! 2) (info ! 3), drop 4 info))"

text \<open>\<open>cast\<close> looks at \<open>id\<close> alone.\<close>

definition cast_ipv6 :: "receive_buffer \<Rightarrow> receive_buffer option outcome" where
  "cast_ipv6 b = obind (peek (m_dataStart b) (unat (m_receivedSize b))) (\<lambda>id'. Inr (if id' \<noteq> 0x36 then None else Some b))"

subsection \<open>Receiving\<close>

definition us_addToReceiveQueue :: "nat \<Rightarrow> receive_buffer option \<Rightarrow> UDP_Socket \<Rightarrow> bool \<times> UDP_Socket" where
  "us_addToReceiveQueue t r s =
     (if isFull t (us_receivequeue s) then (False, s) else (True, s\<lparr>us_receivequeue := put t r (us_receivequeue s)\<rparr>))"

definition udp_receive :: "nat \<Rightarrow> UDP_Socket \<Rightarrow> receive_buffer option \<times> UDP_Socket" where
  "udp_receive t s = (case get t (us_receivequeue s) of (r, q) \<Rightarrow> (r, s\<lparr>us_receivequeue := q\<rparr>))"

datatype udp_verdict = Proceed | Dropped_UDP | Port_Not_Reachable | Queued nat "bool" "bool"

text \<open>\<open>Queued p memory queue\<close>: the socket \<open>p\<close> was found, and whether \<open>error_receiving_memory_too_small\<close> and
  \<open>error_receiving_queue_full\<close> were called. \<open>udp\<close> is the memory from the UDP header on.\<close>

definition ipv4_udp_receive ::
    "nat \<Rightarrow> pool_config \<Rightarrow> nat \<Rightarrow> u8 \<Rightarrow> u32 \<Rightarrow> u8 \<Rightarrow> u32 \<Rightarrow> u8 list \<Rightarrow> udp_demux \<Rightarrow> (udp_verdict \<times> udp_demux) outcome option" where
  "ipv4_udp_receive szrb c t protocol len ihl src udp d =
     (if protocol \<noteq> IP_TYPE_UDP then Some (Inr (Proceed, d))
      else if len < 8 \<or> len < ucast ihl * 4 then Some (Inr (Dropped_UDP, d))
      else map_option (\<lambda>found. obind found (\<lambda>found.
        case found of
          None \<Rightarrow> Inr (Port_Not_Reachable, d)
        | Some p \<Rightarrow>
          obind (socket_at p d) (\<lambda>s.
          obind (createReceiveBufferUDPIPv4 szrb c (udp_get_data udp) (udp_get_length udp - 8) (udp_get_sport udp) src (get_Mempool s)) (\<lambda>(r, m).
          case us_addToReceiveQueue t r (set_Mempool m s) of
            (queued, s) \<Rightarrow> Inr (Queued p (r = None) (\<not> queued), at_socket p (\<lambda>_. s) d)))))
        (find_port d (udp_get_dport udp) (udp_head_socket d)))"

definition ipv6_udp_receive ::
    "nat \<Rightarrow> pool_config \<Rightarrow> nat \<Rightarrow> u8 \<Rightarrow> u32 \<Rightarrow> u8 list \<Rightarrow> u8 list \<Rightarrow> udp_demux \<Rightarrow> (udp_verdict \<times> udp_demux) outcome option" where
  "ipv6_udp_receive szrb c t nextHeader payload_length src udp d =
     (if nextHeader \<noteq> IP_TYPE_UDP then Some (Inr (Proceed, d))
      else if payload_length < 8 then Some (Inr (Dropped_UDP, d))
      else map_option (\<lambda>found. obind found (\<lambda>found.
        case found of
          None \<Rightarrow> Inr (Port_Not_Reachable, d)
        | Some p \<Rightarrow>
          obind (socket_at p d) (\<lambda>s.
          obind (createReceiveBufferUDPIPv6 szrb c (udp_get_data udp) (udp_get_length udp - 8) (udp_get_sport udp) src (get_Mempool s)) (\<lambda>(r, m).
          case us_addToReceiveQueue t r (set_Mempool m s) of
            (queued, s) \<Rightarrow> Inr (Queued p (r = None) (\<not> queued), at_socket p (\<lambda>_. s) d)))))
        (find_port d (udp_get_dport udp) (udp_head_socket d)))"

subsection \<open>The answer to a segment without a socket\<close>

definition prepareResponse :: "tcp_segment \<Rightarrow> u32 \<Rightarrow> tcp_segment \<Rightarrow> tcp_segment" where
  "prepareResponse incoming payload_len segment =
     (let segment = segment\<lparr>seg_dport := seg_sport incoming, seg_sport := seg_dport incoming\<rparr>;
          segment = set_header_len (of_nat TCP_MIN_HEADER_SIZE div 4) segment;
          segment = segment\<lparr>seg_window := 0, seg_urgend_ptr := 0, seg_checksum := 0\<rparr>
      in if has_ACK incoming
         then segment\<lparr>seg_seqnum := seg_acknum incoming, seg_flags := RST_FLAG, seg_acknum := 0\<rparr>
         else let payload_len = (if has_SYN incoming \<or> has_FIN incoming then payload_len + 1 else payload_len)
           in segment\<lparr>seg_seqnum := 0, seg_flags := RST_FLAG OR ACK_FLAG, seg_acknum := seg_seqnum incoming + payload_len\<rparr>)"

subsection \<open>The list as a table\<close>

text \<open>\<open>chain d current ps\<close>: from \<open>current\<close> on the sockets at \<open>ps\<close> follow one another.\<close>

abbreviation chain :: "udp_demux \<Rightarrow> nat option \<Rightarrow> nat list \<Rightarrow> bool" where "chain d \<equiv> list_chain us_next (udp_sockets d)"

definition port_of :: "udp_demux \<Rightarrow> nat \<Rightarrow> u16" where "port_of d p = us_sport (the (udp_sockets d p))"

definition used_ports :: "udp_demux \<Rightarrow> nat list \<Rightarrow> u16 set" where "used_ports d ps = port_of d ` set ps"

definition demux_ok :: "udp_demux \<Rightarrow> nat list \<Rightarrow> bool" where
  "demux_ok d ps \<longleftrightarrow> chain d (udp_head_socket d) ps \<and> distinct ps \<and> distinct (map (port_of d) ps) \<and> UDP_UNUSED_PORT \<notin> used_ports d ps"

text \<open>The sockets of UDP can be chained; their ports are not touched by it.\<close>

interpretation udp_list: chained us_next setNext "setNext None"
  by unfold_locales (simp_all add: setNext_def)

lemma udp_accessors [simp]: "getNext = us_next" "us_get_sport = us_sport" "us_sport (setNext n s) = us_sport s"
  by (auto simp: getNext_def us_get_sport_def setNext_def)

lemma same_ports: "same_bodies (setNext None) h' h \<Longrightarrow> us_sport (the (h' q)) = us_sport (the (h q))"
proof -
  assume "same_bodies (setNext None) h' h"
  then have "map_option us_sport (map_option (setNext None) (h' q)) = map_option us_sport (map_option (setNext None) (h q))"
    by (simp add: same_bodies_def)
  then show ?thesis by (cases "h q"; cases "h' q") (simp_all add: setNext_def)
qed

lemma socket_at_Some [simp]: "udp_sockets d p = Some s \<Longrightarrow> socket_at p d = Inr s"
  by (simp add: socket_at_def)

lemma ports_used_udp [simp]: "ports_used us_sport (udp_sockets d) ps = used_ports d ps"
  by (auto simp: ports_used_def used_ports_def port_of_def)

lemma find_port_chain: "chain d current ps \<Longrightarrow> find_port d port current = Some (Inr (find (\<lambda>p. port_of d p = port) ps))"
  by (simp add: find_port_def list_find_chain port_of_def)

lemma free_port_spec:
  assumes "chain d (udp_head_socket d) ps" and "length ps < 64512"
  obtains port where "udp_get_free_port d = Some (Inr (port, d\<lparr>udp_last_default_port := port\<rparr>))"
    and "port \<notin> used_ports d ps" and "1024 \<le> unat port"
proof -
  obtain port where "list_free_port us_next us_sport (udp_sockets d) (udp_head_socket d) (next_port (udp_last_default_port d)) (udp_head_socket d) =
      Some (Inr port)" "port \<notin> ports_used us_sport (udp_sockets d) ps" "1024 \<le> unat port"
    by (rule list_free_port_spec [OF assms])
  then show thesis by (intro that) (simp_all add: udp_get_free_port_def)
qed

lemma at_socket_simps [simp]: "udp_head_socket (at_socket p f d) = udp_head_socket d"
  "udp_last_default_port (at_socket p f d) = udp_last_default_port d"
  "udp_sockets (at_socket p f d) = (udp_sockets d)(p := map_option f (udp_sockets d p))"
  by (simp_all add: at_socket_def update_at_def)

lemma insert_at_front_simps [simp]: "udp_head_socket (insert_at_front p d) = Some p"
  "udp_sockets (insert_at_front p d) = (udp_sockets d)(p := map_option (setNext (udp_head_socket d)) (udp_sockets d p))"
  by (simp_all add: insert_at_front_def list_push_def update_at_def)

text \<open>A socket that is not in the list, with a port that is not in use, becomes its head.\<close>

lemma insert_demux_ok:
  assumes ok: "demux_ok d ps" and "udp_head_socket d' = udp_head_socket d" and p: "udp_sockets d' p = Some s'"
    and other: "\<And>q. q \<noteq> p \<Longrightarrow> udp_sockets d' q = udp_sockets d q"
    and "p \<notin> set ps" and "us_sport s' \<notin> used_ports d ps" and "us_sport s' \<noteq> UDP_UNUSED_PORT"
  shows "demux_ok (insert_at_front p d') (p # ps)" and "port_of (insert_at_front p d') p = us_sport s'"
proof -
  let ?d = "insert_at_front p d'"
  have ports: "port_of ?d q = port_of d q" if "q \<in> set ps" for q
    using that assms(5) other by (auto simp: port_of_def)
  show port: "port_of ?d p = us_sport s'" by (simp add: port_of_def p)
  have "chain d' (udp_head_socket d') ps = chain d (udp_head_socket d) ps"
    unfolding assms(2) using other assms(5) by (intro list_chain_cong) (metis)
  then have "chain ?d (Some p) (p # ps)"
    using ok p assms(5) udp_list.push_chain(2) [of "udp_sockets d'" "udp_head_socket d'" ps p "Some p" "udp_sockets ?d"]
    by (simp add: demux_ok_def list_push_def update_at_def)
  moreover have m: "map (port_of ?d) ps = map (port_of d) ps" using ports by simp
  have "distinct (map (port_of ?d) ps)" unfolding m using ok by (simp add: demux_ok_def)
  moreover have "port_of ?d ` set ps = used_ports d ps" using arg_cong [OF m, of set] by (simp add: used_ports_def)
  ultimately show "demux_ok ?d (p # ps)"
    using ok assms(5-7) port by (simp add: demux_ok_def used_ports_def)
qed

lemma bound_is_used: "chain d current ps \<Longrightarrow> p \<in> set ps \<Longrightarrow> udp_sockets d p = Some s \<Longrightarrow> us_sport s \<in> used_ports d ps"
  by (auto simp: used_ports_def port_of_def intro!: image_eqI)

lemma find_None_used: "find (\<lambda>p. port_of d p = port) ps = None \<longleftrightarrow> port \<notin> used_ports d ps"
  by (auto simp: find_None_iff used_ports_def)

text \<open>C18: Binding a UDP socket always ends. It succeeds exactly when no bound socket has the port of the socket; the socket is then
  the head of the list, with its own port, or, if it had none, with one from 1024 on that no bound socket has, which
  the search finds as long as one of the 64512 is left. The ports in the list stay distinct, and a refused call changes
  nothing.\<close>

theorem udp_bind_exact:
  assumes "demux_ok d ps" and "udp_sockets d p = Some s" and "length ps < 64512"
  shows "\<exists>ok d'. udp_bind p d = Some (Inr (ok, d')) \<and> (ok \<longleftrightarrow> us_sport s \<notin> used_ports d ps) \<and>
    (if ok then demux_ok d' (p # ps) \<and> (\<forall>q. q \<noteq> p \<longrightarrow> udp_sockets d' q = udp_sockets d q) \<and>
       (if us_sport s = UDP_UNUSED_PORT then 1024 \<le> unat (port_of d' p) else port_of d' p = us_sport s)
     else d' = d)"
proof -
  have chain: "chain d (udp_head_socket d) ps" using assms(1) by (simp add: demux_ok_def)
  show ?thesis
  proof (cases "us_sport s = UDP_UNUSED_PORT")
    case True
    obtain port where port: "udp_get_free_port d = Some (Inr (port, d\<lparr>udp_last_default_port := port\<rparr>))"
        "port \<notin> used_ports d ps" "1024 \<le> unat port"
      using free_port_spec [OF chain assms(3)] by blast
    let ?d = "at_socket p (us_set_sport port) (d\<lparr>udp_last_default_port := port\<rparr>)"
    have free: "us_sport s \<notin> used_ports d ps" using assms(1) True by (simp add: demux_ok_def)
    then have "p \<notin> set ps" using bound_is_used [OF chain _ assms(2)] by blast
    moreover have "port \<noteq> 0" using port(3) by auto
    ultimately have "demux_ok (insert_at_front p ?d) (p # ps)" "port_of (insert_at_front p ?d) p = us_sport (us_set_sport port s)"
      using assms(2) port(2,3) insert_demux_ok [OF assms(1), of ?d p "us_set_sport port s"]
      by (auto simp: us_set_sport_def UDP_UNUSED_PORT_def)
    moreover have "udp_bind p d = Some (Inr (True, insert_at_front p ?d))"
      using True port assms(2) by (simp add: udp_bind_def us_get_sport_def)
    ultimately show ?thesis using True free port(3) by (auto simp: us_set_sport_def)
  next
    case False
    have b: "udp_bind p d = Some (Inr (if us_sport s \<in> used_ports d ps then (False, d) else (True, insert_at_front p d)))"
      using False assms(2) find_port_chain [OF chain, of "us_sport s"] find_None_used [of d "us_sport s" ps]
      by (auto simp: udp_bind_def us_get_sport_def)
    show ?thesis
    proof (cases "us_sport s \<in> used_ports d ps")
      case True
      then show ?thesis using b by (intro exI [of _ False] exI [of _ d]) simp
    next
      case free: False
      then have "p \<notin> set ps" using bound_is_used [OF chain _ assms(2)] by blast
      then have "demux_ok (insert_at_front p d) (p # ps)" "port_of (insert_at_front p d) p = us_sport s"
        using assms(2) free False insert_demux_ok [OF assms(1), of d p s] by auto
      then show ?thesis using b free False by auto
    qed
  qed
qed

text \<open>Three sockets, of which the first has no port and the others have 53 and 69.\<close>

definition witness_pool :: basic_mempool where "witness_pool = BasicMempool (BasicMempool_config 32 1 4 1) 0 100"

definition witness_socket :: UDP_Socket where "witness_socket = new_UDP_Socket (BasicRingbuffer [None, None]) witness_pool"

definition witness_sockets :: "nat \<Rightarrow> UDP_Socket option" where
  "witness_sockets p =
     (if p = 0 then Some witness_socket
      else if p = 1 then Some (us_set_sport 53 witness_socket)
      else if p = 2 then Some (setNext (Some 1) (us_set_sport 69 witness_socket))
      else None)"

definition witness_demux :: udp_demux where
  "witness_demux = \<lparr>udp_last_default_port = 65535, udp_head_socket = Some 2, udp_sockets = witness_sockets\<rparr>"

lemma witness_demux_ok: "demux_ok witness_demux [2, 1]"
  by (simp add: demux_ok_def witness_demux_def witness_sockets_def port_of_def used_ports_def us_set_sport_def setNext_def
      witness_socket_def new_UDP_Socket_def UDP_UNUSED_PORT_def)

theorem udp_bind_exact_witness: "\<exists>ok d'. udp_bind 0 witness_demux = Some (Inr (ok, d')) \<and> ok \<and> demux_ok d' [0, 2, 1]"
  using udp_bind_exact [OF witness_demux_ok, of 0]
  by (fastforce simp: witness_demux_def witness_sockets_def port_of_def used_ports_def us_set_sport_def setNext_def
      witness_socket_def new_UDP_Socket_def UDP_UNUSED_PORT_def)

text \<open>Unbinding a socket takes exactly this socket out of the list and leaves the list alone when the socket is not in it, but
  with no socket bound it follows a null pointer. The destructor of every UDP socket unbinds, so this is what the end of a
  socket does that was never bound.\<close>

theorem udp_unbind_exact:
  assumes "demux_ok d ps"
  shows "if ps = [] then udp_unbind p d = Some (Inl NullDeref)
    else \<exists>d'. udp_unbind p d = Some (Inr d') \<and> demux_ok d' (remove1 p ps) \<and> (\<forall>q. port_of d' q = port_of d q) \<and> (p \<notin> set ps \<longrightarrow> d' = d)"
proof (cases "ps = []")
  case True
  then show ?thesis using assms by (simp add: demux_ok_def udp_unbind_def udp_list.remove_empty)
next
  case False
  have ch: "chain d (udp_head_socket d) ps" and dist: "distinct ps" using assms by (simp_all add: demux_ok_def)
  obtain head h where r: "list_remove us_next setNext p (udp_head_socket d) (udp_sockets d) = Some (Inr (head, h))"
      "list_chain us_next h head (remove1 p ps)" "same_bodies (setNext None) h (udp_sockets d)"
      "p \<notin> set ps \<Longrightarrow> h = udp_sockets d \<and> head = udp_head_socket d"
    using udp_list.remove_chain [OF ch dist False, of p] by blast
  let ?d = "d\<lparr>udp_head_socket := head, udp_sockets := h\<rparr>"
  have ports: "port_of ?d q = port_of d q" for q
    using same_ports [OF r(3)] by (simp add: port_of_def)
  then have f: "port_of ?d = port_of d" by blast
  have sub: "set (remove1 p ps) \<subseteq> set ps" by (rule set_remove1_subset)
  have "distinct (map (port_of d) (remove1 p ps))"
    using assms inj_on_subset [OF _ sub] unfolding demux_ok_def distinct_map by (blast intro: distinct_remove1)
  moreover have "UDP_UNUSED_PORT \<notin> port_of d ` set (remove1 p ps)" using assms sub unfolding demux_ok_def used_ports_def by blast
  ultimately have "demux_ok ?d (remove1 p ps)" using r(2) dist by (simp add: demux_ok_def used_ports_def f)
  moreover have "udp_unbind p d = Some (Inr ?d)" using r(1) by (simp add: udp_unbind_def)
  ultimately show ?thesis using False ports r(4) by auto
qed

theorem udp_unbind_exact_witness:
  "(\<exists>d'. udp_unbind 1 witness_demux = Some (Inr d') \<and> demux_ok d' [2]) \<and>
   udp_unbind 1 (witness_demux\<lparr>udp_head_socket := None\<rparr>) = Some (Inl NullDeref)"
proof -
  have "demux_ok (witness_demux\<lparr>udp_head_socket := None\<rparr>) []" by (simp add: demux_ok_def used_ports_def)
  then show ?thesis using udp_unbind_exact [OF witness_demux_ok, of 1] udp_unbind_exact [of "witness_demux\<lparr>udp_head_socket := None\<rparr>" "[]" 1] by auto
qed

subsection \<open>The way of a datagram\<close>

text \<open>The number of bytes the buffer for a datagram takes: the payload, the filling and the sender.\<close>

definition udp4_size :: "u16 \<Rightarrow> nat" where "udp4_size payloadsize = unat payloadsize + 8 + udp4_padding payloadsize"

lemma udp4_padding_less: "udp4_padding payloadsize < 4" by (simp add: udp4_padding_def)

lemma poke_all_between:
  "length mid = length cs \<Longrightarrow> length pre = p \<Longrightarrow> poke_all p cs (pre @ mid @ post) = Inr (pre @ cs @ post)"
  using poke_all_append [of cs "mid @ post" pre] by simp

text \<open>The eight bytes behind the payload and its filling become the sender.\<close>

lemma create_ipv4:
  assumes "udp4_size payloadsize < 2 ^ 16" and "mp_alloc c (udp4_size payloadsize + szrb) m = (Some a, m')"
    and "udp4_size payloadsize \<le> length payload"
  shows "\<exists>x. createReceiveBufferUDPIPv4 szrb c payload payloadsize remoteport ipv4 m =
    Inr (Some \<lparr>rbuf_addr = a, m_receivedSize = payloadsize,
      m_dataStart = take (unat payloadsize + udp4_padding payloadsize) payload @ store32 ipv4 @ store16 remoteport @ [0x34, x]\<rparr>, m')"
proof -
  let ?d = "unat payloadsize + udp4_padding payloadsize"
  have size: "udp4_size payloadsize = ?d + 8" by (simp add: udp4_size_def)
  have small: "udp4_size payloadsize < 65536" using assms(1) by simp
  have u: "unat (of_nat (udp4_size payloadsize) :: u16) = udp4_size payloadsize" using small by (rule unat_of_nat_u16)
  obtain p0 p1 p2 p3 p4 p5 p6 p7 where p: "take 8 (drop ?d payload) = [p0, p1, p2, p3, p4, p5, p6, p7]"
    using assms(3) by (auto simp: size intro: length_8E [of "take 8 (drop ?d payload)"])
  define pre where "pre = take ?d payload"
  have pre: "length pre = ?d" using assms(3) by (simp add: pre_def size)
  have data: "take (udp4_size payloadsize) payload = pre @ [p0, p1, p2, p3] @ [p4, p5] @ [p6, p7]"
    by (simp add: size take_add pre_def p)
  have r: "createReceiveBuffer szrb c payload (of_nat (unat payloadsize + 8 + udp4_padding payloadsize)) m =
      Inr (Some \<lparr>rbuf_addr = a, m_receivedSize = of_nat (udp4_size payloadsize), m_dataStart = pre @ [p0, p1, p2, p3] @ [p4, p5] @ [p6, p7]\<rparr>, m')"
    unfolding udp4_size_def [symmetric] using assms(2,3) by (simp only: createReceiveBuffer_def u data) simp
  have w1: "poke (?d + 6) 0x34 (pre @ [p0, p1, p2, p3] @ [p4, p5] @ [p6, p7]) = Inr ((pre @ [p0, p1, p2, p3]) @ [p4, p5] @ [0x34, p7])"
    using poke_append [of pre 6 "0x34" "[p0, p1, p2, p3, p4, p5, p6, p7]"] by (simp add: pre)
  have w2: "poke_all (?d + 4) (store16 remoteport) ((pre @ [p0, p1, p2, p3]) @ [p4, p5] @ [0x34, p7]) =
      Inr ((pre @ [p0, p1, p2, p3]) @ store16 remoteport @ [0x34, p7])"
    by (rule poke_all_between) (simp_all add: store16_def pre)
  have w3: "poke_all ?d (store32 ipv4) (pre @ [p0, p1, p2, p3] @ (store16 remoteport @ [0x34, p7])) =
      Inr (pre @ store32 ipv4 @ (store16 remoteport @ [0x34, p7]))"
    by (rule poke_all_between) (simp_all add: store32_def pre)
  show ?thesis
    unfolding createReceiveBufferUDPIPv4_def Let_def r obind_simps prod.case option.case receive_buffer.select_convs w1 w2
    using w3 by (simp add: pre_def)
qed

lemma remote_info_ipv4:
  assumes "m_dataStart r = pre @ store32 ipv4 @ store16 remoteport @ [0x34, x]"
    and "length pre = unat (m_receivedSize r) + udp4_padding (m_receivedSize r)"
  shows "getRemoteInfo_ipv4 r = Inr (ipv4, remoteport, 0x34)"
  using assms by (simp add: getRemoteInfo_ipv4_def peek_all_def store32_def store16_def load32_store32 load16_store16)

lemma at_socket_demux_ok:
  assumes "demux_ok d ps" and "udp_sockets d p = Some s" and "us_next s' = us_next s" and "us_sport s' = us_sport s"
  shows "demux_ok (at_socket p (\<lambda>_. s') d) ps"
proof -
  have "chain (at_socket p (\<lambda>_. s') d) (udp_head_socket d) ps = chain d (udp_head_socket d) ps"
    using assms by (intro list_chain_cong) auto
  moreover have "port_of (at_socket p (\<lambda>_. s') d) = port_of d" using assms(2,4) by (auto simp: port_of_def fun_eq_iff)
  ultimately show ?thesis using assms(1) by (simp add: demux_ok_def used_ports_def)
qed

lemma find_port_of: "demux_ok d ps \<Longrightarrow> p \<in> set ps \<Longrightarrow> find_port d (port_of d p) (udp_head_socket d) = Some (Inr (Some p))"
proof -
  assume ok: "demux_ok d ps" and p: "p \<in> set ps"
  have inj: "inj_on (port_of d) (set ps)" using ok by (simp add: demux_ok_def distinct_map)
  have "find (\<lambda>q. port_of d q = port_of d p) ps = Some p"
    by (rule find_unique [OF p]) (use inj_on_eq_iff [OF inj _ p] in simp)
  moreover have "chain d (udp_head_socket d) ps" using ok by (simp add: demux_ok_def)
  ultimately show ?thesis by (simp add: find_port_chain)
qed

text \<open>What becomes of the socket of a datagram, and the buffer \<open>r\<close> that is queued.\<close>

lemma datagram_queued:
  assumes "demux_ok d ps" and "p \<in> set ps" and "udp_sockets d p = Some s" and "us_sport s = udp_get_dport udp"
    and "8 \<le> len" and "ucast ihl * 4 \<le> len" and "\<not> isFull t (us_receivequeue s)"
    and "udp4_size (udp_get_length udp - 8) < 2 ^ 16" and "udp4_size (udp_get_length udp - 8) \<le> length (udp_get_data udp)"
    and "mp_alloc c (udp4_size (udp_get_length udp - 8) + szrb) (us_mempool s) = (Some a, m')"
  obtains r where "ipv4_udp_receive szrb c t IP_TYPE_UDP len ihl src udp d = Some (Inr (Queued p False False,
      at_socket p (\<lambda>_. s\<lparr>us_mempool := m', us_receivequeue := put t (Some r) (us_receivequeue s)\<rparr>) d))"
    and "rbuf_getSize r = udp_get_length udp - 8" and "take (unat (rbuf_getSize r)) (rbuf_getData r) = take (unat (rbuf_getSize r)) (udp_get_data udp)"
    and "getRemoteInfo_ipv4 r = Inr (src, udp_get_sport udp, 0x34)"
proof -
  define n where "n = udp_get_length udp - 8"
  have found: "find_port d (udp_get_dport udp) (udp_head_socket d) = Some (Inr (Some p))"
    using find_port_of [OF assms(1,2)] assms(3,4) by (simp add: port_of_def)
  obtain x where x: "createReceiveBufferUDPIPv4 szrb c (udp_get_data udp) n (udp_get_sport udp) src (us_mempool s) =
      Inr (Some \<lparr>rbuf_addr = a, m_receivedSize = n,
        m_dataStart = take (unat n + udp4_padding n) (udp_get_data udp) @ store32 src @ store16 (udp_get_sport udp) @ [0x34, x]\<rparr>, m')"
    using create_ipv4 [OF assms(8,10,9)] unfolding n_def by blast
  define r where "r = \<lparr>rbuf_addr = a, m_receivedSize = n,
      m_dataStart = take (unat n + udp4_padding n) (udp_get_data udp) @ store32 src @ store16 (udp_get_sport udp) @ [0x34, x]\<rparr>"
  have long: "unat n + udp4_padding n + 8 \<le> length (udp_get_data udp)" using assms(9) by (simp add: udp4_size_def n_def)
  show thesis
  proof (rule that [of r])
    show "getRemoteInfo_ipv4 r = Inr (src, udp_get_sport udp, 0x34)"
      by (rule remote_info_ipv4 [of r "take (unat n + udp4_padding n) (udp_get_data udp)" _ _ x])
        (use long in \<open>simp_all add: r_def\<close>)
    show "ipv4_udp_receive szrb c t IP_TYPE_UDP len ihl src udp d = Some (Inr (Queued p False False,
        at_socket p (\<lambda>_. s\<lparr>us_mempool := m', us_receivequeue := put t (Some r) (us_receivequeue s)\<rparr>) d))"
      using assms(3,5-7) x found
      by (simp add: ipv4_udp_receive_def get_Mempool_def set_Mempool_def us_addToReceiveQueue_def n_def [symmetric] r_def [symmetric] not_less)
    show "take (unat (rbuf_getSize r)) (rbuf_getData r) = take (unat (rbuf_getSize r)) (udp_get_data udp)"
      using long by (simp add: r_def rbuf_getData_def rbuf_getSize_def)
    show "rbuf_getSize r = udp_get_length udp - 8" by (simp add: r_def rbuf_getSize_def n_def)
  qed
qed

text \<open>A datagram for a bound port ends up, with its payload and the address and port of its sender, as the last
  element in the queue of the one socket that has this port, and the other sockets stay as they are. This holds when the
  queue has room, the pool has a block, and, because the buffer is filled by one copy that covers the place of the
  sender as well, when up to eleven bytes behind the payload can be read.\<close>

theorem udp_datagram_delivered:
  assumes "demux_ok d ps" and "p \<in> set ps" and "udp_sockets d p = Some s" and "us_sport s = udp_get_dport udp"
    and "8 \<le> len" and "ucast ihl * 4 \<le> len" and "queue_inv t (us_receivequeue s)" and "\<not> isFull t (us_receivequeue s)"
    and "udp4_size (udp_get_length udp - 8) < 2 ^ 16" and "udp4_size (udp_get_length udp - 8) \<le> length (udp_get_data udp)"
    and "mp_alloc c (udp4_size (udp_get_length udp - 8) + szrb) (us_mempool s) = (Some a, m')"
  shows "\<exists>d' s' r. ipv4_udp_receive szrb c t IP_TYPE_UDP len ihl src udp d = Some (Inr (Queued p False False, d')) \<and> demux_ok d' ps \<and>
    udp_sockets d' p = Some s' \<and> (\<forall>q. q \<noteq> p \<longrightarrow> udp_sockets d' q = udp_sockets d q) \<and>
    queue_inv t (us_receivequeue s') \<and> queue_elems t (us_receivequeue s') = queue_elems t (us_receivequeue s) @ [r] \<and>
    rbuf_getSize r = udp_get_length udp - 8 \<and>
    take (unat (rbuf_getSize r)) (rbuf_getData r) = take (unat (rbuf_getSize r)) (udp_get_data udp) \<and>
    getRemoteInfo_ipv4 r = Inr (src, udp_get_sport udp, 0x34) \<and> cast_ipv4 r = Inr (Some r)"
proof -
  obtain r where r: "ipv4_udp_receive szrb c t IP_TYPE_UDP len ihl src udp d = Some (Inr (Queued p False False,
        at_socket p (\<lambda>_. s\<lparr>us_mempool := m', us_receivequeue := put t (Some r) (us_receivequeue s)\<rparr>) d))"
      "rbuf_getSize r = udp_get_length udp - 8" "take (unat (rbuf_getSize r)) (rbuf_getData r) = take (unat (rbuf_getSize r)) (udp_get_data udp)"
      "getRemoteInfo_ipv4 r = Inr (src, udp_get_sport udp, 0x34)"
    using datagram_queued [OF assms(1-6,8-11)] by blast
  let ?s' = "s\<lparr>us_mempool := m', us_receivequeue := put t (Some r) (us_receivequeue s)\<rparr>"
  have "demux_ok (at_socket p (\<lambda>_. ?s') d) ps" using assms(1,3) by (rule at_socket_demux_ok) simp_all
  moreover have "queue_inv t (us_receivequeue ?s')" using ring.enq_invar [OF assms(7)] by simp
  moreover have "queue_elems t (us_receivequeue ?s') = queue_elems t (us_receivequeue s) @ [r]"
    using ring.enq_elems [OF assms(7,8)] by simp
  moreover have "cast_ipv4 r = Inr (Some r)" by (simp add: cast_ipv4_def r(4))
  ultimately show ?thesis
    using r assms(3) by (intro exI [of _ "at_socket p (\<lambda>_. ?s') d"] exI [of _ ?s'] exI [of _ r]) auto
qed

text \<open>The memory from the UDP header of a datagram with two bytes on.\<close>

definition witness_datagram :: "u8 list" where
  "witness_datagram = [0, 9, 0, 53, 0, 10, 0, 0, 1, 2] @ replicate 10 0"

lemma witness_datagram_fields [simp]: "udp_get_length witness_datagram = 10" "udp_get_dport witness_datagram = 53"
  "udp_get_data witness_datagram = [1, 2] @ replicate 10 0"
  by code_simp+

lemma witness_alloc: "n \<le> 32 \<Longrightarrow> 4 < n \<Longrightarrow> \<exists>m'. mp_alloc (BasicMempool_config 32 1 4 1) n witness_pool = (Some 0, m')"
  by (simp add: witness_pool_def mp_alloc_def mp_alloc_big_def BasicMempool_def SingleMempool_def smp_alloc_def
      BasicMempool_config_def COUNT_BIG_def SIZE_BIG_def SIZE_SMALL_def COUNT_SMALL_def)

theorem udp_datagram_delivered_witness:
  "\<exists>d' s' r. ipv4_udp_receive 8 (BasicMempool_config 32 1 4 1) 2 IP_TYPE_UDP 30 5 7 witness_datagram witness_demux = Some (Inr (Queued 1 False False, d')) \<and>
     udp_sockets d' 1 = Some s' \<and> queue_elems 2 (us_receivequeue s') = [r] \<and> take 2 (rbuf_getData r) = [1, 2]"
proof -
  have p: "udp4_padding 2 = 2" "udp4_size 2 = 12" by (simp_all add: udp4_padding_def udp4_size_def)
  obtain m' where m': "mp_alloc (BasicMempool_config 32 1 4 1) (12 + 8) witness_pool = (Some 0, m')" using witness_alloc [of "12 + 8"] by auto
  have s: "udp_sockets witness_demux 1 = Some (us_set_sport 53 witness_socket)" by (simp add: witness_demux_def witness_sockets_def)
  have q: "us_receivequeue (us_set_sport 53 witness_socket) = BasicRingbuffer [None, None]" "us_mempool (us_set_sport 53 witness_socket) = witness_pool"
    "us_sport (us_set_sport 53 witness_socket) = 53"
    by (simp_all add: us_set_sport_def witness_socket_def new_UDP_Socket_def)
  have inv: "queue_inv 2 (BasicRingbuffer [None, None] :: receive_buffer ringbuffer)" by (rule fresh_queue_inv) (simp add: BUFFERSIZE_def)
  have room: "\<not> isFull 2 (BasicRingbuffer [None, None] :: receive_buffer ringbuffer)"
    by (simp add: isFull_def rb_advance_def BasicRingbuffer_def BUFFERSIZE_def)
  show ?thesis
    using udp_datagram_delivered [OF witness_demux_ok, of 1 "us_set_sport 53 witness_socket" witness_datagram 30 5 2 "BasicMempool_config 32 1 4 1" 8 0 m' 7]
      s q inv room m' p by (simp add: fresh_queue_elems) fastforce
qed

text \<open>The length in the UDP header is believed. A datagram that claims fewer than eight bytes makes the size of its payload
  wrap around to at least 65528; the size of the buffer, taken with 16 bits, is then at most eight, and the sender is
  written more than 65000 bytes behind it. Anyone who can send to a bound port can do this.\<close>

theorem udp_short_length_overflow:
  assumes "demux_ok d ps" and "p \<in> set ps" and "udp_sockets d p = Some s" and "us_sport s = udp_get_dport udp"
    and "8 \<le> len" and "ucast ihl * 4 \<le> len" and "unat (udp_get_length udp) < 8" and "8 \<le> length (udp_get_data udp)"
    and "mp_alloc c (unat (of_nat (udp4_size (udp_get_length udp - 8)) :: u16) + szrb) (us_mempool s) = (Some a, m')"
  shows "ipv4_udp_receive szrb c t IP_TYPE_UDP len ihl src udp d = Some (Inl OutOfBounds)"
proof -
  define n where "n = udp_get_length udp - 8"
  define k where "k = unat (udp_get_length udp)"
  have k: "k < 8" using assms(7) by (simp add: k_def)
  have "n = udp_get_length udp + 65528" by (simp add: n_def)
  then have n: "unat n = 65528 + k" using k by (simp add: unat_word_ariths k_def)
  have ks: "k = 0 \<or> k = 1 \<or> k = 2 \<or> k = 3 \<or> k = 4 \<or> k = 5 \<or> k = 6 \<or> k = 7" using k by linarith
  have size: "udp4_size n = 65536 + (k + (4 - k mod 4) mod 4)"
    using ks by (auto simp: udp4_size_def udp4_padding_def n)
  have le: "k + (4 - k mod 4) mod 4 \<le> 8" using ks by auto
  have u: "unat (of_nat (udp4_size n) :: u16) = k + (4 - k mod 4) mod 4"
    unfolding size using le by (simp add: unat_of_nat take_bit_eq_mod del: of_nat_add)
  have r: "createReceiveBuffer szrb c (udp_get_data udp) (of_nat (unat n + 8 + udp4_padding n)) (us_mempool s) =
      Inr (Some \<lparr>rbuf_addr = a, m_receivedSize = of_nat (udp4_size n), m_dataStart = take (k + (4 - k mod 4) mod 4) (udp_get_data udp)\<rparr>, m')"
    unfolding udp4_size_def [symmetric] using assms(8,9) le by (simp only: createReceiveBuffer_def u n_def [symmetric]) simp
  have "poke (unat n + udp4_padding n + 6) 0x34 (take (k + (4 - k mod 4) mod 4) (udp_get_data udp)) = Inl OutOfBounds"
    using n le by (simp add: poke_def)
  then have "createReceiveBufferUDPIPv4 szrb c (udp_get_data udp) n (udp_get_sport udp) src (us_mempool s) = Inl OutOfBounds"
    unfolding createReceiveBufferUDPIPv4_def Let_def r by simp
  moreover have "find_port d (udp_get_dport udp) (udp_head_socket d) = Some (Inr (Some p))"
    using find_port_of [OF assms(1,2)] assms(3,4) by (simp add: port_of_def)
  ultimately show ?thesis
    using assms(3,5,6) by (simp add: ipv4_udp_receive_def get_Mempool_def n_def [symmetric] not_less)
qed

theorem udp_short_length_overflow_witness:
  "ipv4_udp_receive 8 (BasicMempool_config 32 1 4 1) 2 IP_TYPE_UDP 30 5 7 (witness_datagram[5 := 0]) witness_demux = Some (Inl OutOfBounds)"
proof -
  have f: "udp_get_length (witness_datagram[5 := 0]) = 0" "udp_get_dport (witness_datagram[5 := 0]) = 53"
    "udp_get_data (witness_datagram[5 := 0]) = [1, 2] @ replicate 10 0"
    by code_simp+
  have s: "udp_sockets witness_demux 1 = Some (us_set_sport 53 witness_socket)" by (simp add: witness_demux_def witness_sockets_def)
  have q: "us_mempool (us_set_sport 53 witness_socket) = witness_pool" "us_sport (us_set_sport 53 witness_socket) = 53"
    by (simp_all add: us_set_sport_def witness_socket_def new_UDP_Socket_def)
  obtain m' where m': "mp_alloc (BasicMempool_config 32 1 4 1) 8 witness_pool = (Some 0, m')" using witness_alloc [of 8] by auto
  have z: "udp4_size (0 - 8) = 65536" by (simp add: udp4_size_def udp4_padding_def)
  show ?thesis
    by (rule udp_short_length_overflow [OF witness_demux_ok _ s, where a = 0 and m' = m']) (use f q m' z in simp_all)
qed

text \<open>The answer to a segment that reaches no socket is the reset of RFC 793: the ports are exchanged; a segment with
  an acknowledgement is reset with the sequence number it acknowledges, any other one with sequence number zero and an
  acknowledgement of all it holds, where SYN or FIN count for one byte.\<close>

theorem reset_answers_segment:
  "let r = prepareResponse incoming payload_len segment in
   seg_sport r = seg_dport incoming \<and> seg_dport r = seg_sport incoming \<and> has_RST r \<and> \<not> has_SYN r \<and> \<not> has_FIN r \<and>
   get_header_len r = 5 \<and> has_ACK r = (\<not> has_ACK incoming) \<and>
   seg_seqnum r = (if has_ACK incoming then seg_acknum incoming else 0) \<and>
   (\<not> has_ACK incoming \<longrightarrow> seg_acknum r = seg_seqnum incoming + payload_len + (if has_SYN incoming \<or> has_FIN incoming then 1 else 0))"
proof -
  have f: "RST_FLAG AND SYN_FLAG = 0" "RST_FLAG AND FIN_FLAG = 0" "RST_FLAG AND ACK_FLAG = 0" "RST_FLAG AND RST_FLAG \<noteq> 0"
    "(RST_FLAG OR ACK_FLAG) AND SYN_FLAG = 0" "(RST_FLAG OR ACK_FLAG) AND FIN_FLAG = 0" "(RST_FLAG OR ACK_FLAG) AND ACK_FLAG \<noteq> 0"
    "(RST_FLAG OR ACK_FLAG) AND RST_FLAG \<noteq> 0"
    by (simp_all add: RST_FLAG_def SYN_FLAG_def FIN_FLAG_def ACK_FLAG_def)
  have flags: "has_RST s \<and> \<not> has_SYN s \<and> \<not> has_FIN s \<and> \<not> has_ACK s" if "seg_flags s = RST_FLAG" for s
    using that f by (simp add: has_RST_def has_SYN_def has_FIN_def has_ACK_def)
  have ack: "has_RST s \<and> \<not> has_SYN s \<and> \<not> has_FIN s \<and> has_ACK s" if "seg_flags s = RST_FLAG OR ACK_FLAG" for s
    using that f by (simp add: has_RST_def has_SYN_def has_FIN_def has_ACK_def)
  show ?thesis
    by (simp add: prepareResponse_def Let_def TCP_MIN_HEADER_SIZE_def flags ack) (simp add: get_header_len_def set_header_len_def)
qed

end
