(* ===== verification/Family_Model.thy ===== *)
theory Family_Model
  imports Prelude "HOL-Library.Char_ord" "HOL-Library.List_Lexorder"
begin

text \<open>
  The tool that selects the files of a configuration: \<^verbatim>\<open>buildsystem/determine_relevant_files\<close>. \<^verbatim>\<open>parsekconfig.h\<close> reads the output of
  kconfig, \<^verbatim>\<open>determine_files.h\<close> and \<^verbatim>\<open>.cpp\<close> walk through the family model, \<^verbatim>\<open>main.cpp\<close> handles the options and puts both
  together. A string is the list of its characters; \<open>None\<close> stands for the end of the program by a failed assertion or an
  exception nobody catches. A \<^verbatim>\<open>std::set\<close> of strings is the sorted list of its members, a \<^verbatim>\<open>std::map\<close> the list of its
  pairs in the order of the keys.
\<close>

subsection \<open>The configuration\<close>

record kconfigparser =
  kconfig_enabled :: "string list"
  kconfig_keyvalue :: "(string \<times> string) list"

definition hasEnding :: "string \<Rightarrow> string \<Rightarrow> bool" where
  "hasEnding fullString ending =
     (if length fullString \<ge> length ending then drop (length fullString - length ending) fullString = ending else False)"

definition set_insert :: "string \<Rightarrow> string list \<Rightarrow> string list" where
  "set_insert x xs = (if x \<in> set xs then xs else insort x xs)"

definition map_insert :: "string \<Rightarrow> string \<Rightarrow> (string \<times> string) list \<Rightarrow> (string \<times> string) list" where
  "map_insert k v m = (if map_of m k = None then insort_key fst (k, v) m else m)"

definition kconfig_line :: "kconfigparser \<Rightarrow> string \<Rightarrow> kconfigparser option" where
  "kconfig_line p line =
     (if length line < 2 \<or> hd line = CHR ''#'' then Some p
      else let key = drop 7 line in
      if hasEnding key ''=y''
      then Some (p\<lparr>kconfig_enabled := set_insert (take (length key - 2) key) (kconfig_enabled p)\<rparr>)
      else if CHR ''='' \<notin> set key then None
      else let value = key; key = takeWhile (\<lambda>c. c \<noteq> CHR ''='') key; value = drop (length key + 1) value
      in Some (p\<lparr>kconfig_keyvalue := map_insert key value (kconfig_keyvalue p)\<rparr>))"

fun kconfig_lines :: "string list \<Rightarrow> kconfigparser \<Rightarrow> kconfigparser option" where
  "kconfig_lines [] p = Some p"
| "kconfig_lines (line # ls) p = Option.bind (kconfig_line p line) (kconfig_lines ls)"

text \<open>\<open>getline\<close> as long as the stream is good: the lines between the line ends, the last one may be empty.\<close>

fun split_lines :: "string \<Rightarrow> string list" where
  "split_lines [] = [[]]"
| "split_lines (c # s) =
     (if c = CHR 0x0A then [] # split_lines s else (case split_lines s of l # ls \<Rightarrow> (c # l) # ls | [] \<Rightarrow> [[c]]))"

definition load_kconfig_file :: "string option \<Rightarrow> kconfigparser \<Rightarrow> (bool \<times> kconfigparser) option" where
  "load_kconfig_file file p =
     (case file of None \<Rightarrow> Some (False, p)
      | Some content \<Rightarrow> Option.bind (kconfig_lines (split_lines content) p) (\<lambda>p. Some (True, p)))"

subsection \<open>Values of the family model\<close>

text \<open>What the JSON parser hands over; the value of a number is never looked at. Reading a value as a type it does not have
  fails an assertion.\<close>

datatype json = JNull | JBool bool | JNumber | JString string | JArray "json list" | JObject "(string \<times> json) list"

definition getMapString :: "(string \<times> json) list \<Rightarrow> string \<Rightarrow> string option" where
  "getMapString obj name = (case map_of obj name of None \<Rightarrow> Some [] | Some (JString s) \<Rightarrow> Some s | Some _ \<Rightarrow> None)"

fun array_strings :: "json list \<Rightarrow> string list option" where
  "array_strings [] = Some []"
| "array_strings (JString s # vs) = Option.bind (array_strings vs) (\<lambda>ss. Some (s # ss))"
| "array_strings (_ # vs) = None"

definition get_files :: "(string \<times> json) list \<Rightarrow> string list option" where
  "get_files obj =
     (case map_of obj ''file'' of
        Some (JString s) \<Rightarrow> Some [s]
      | Some _ \<Rightarrow> None
      | None \<Rightarrow> (case map_of obj ''files'' of None \<Rightarrow> Some [] | Some (JArray arr) \<Rightarrow> array_strings arr | Some _ \<Rightarrow> None))"

subsection \<open>Dependencies\<close>

definition is_space :: "char \<Rightarrow> bool" where
  "is_space c \<longleftrightarrow> c \<in> {CHR '' '', CHR 0x09, CHR 0x0A, CHR 0x0B, CHR 0x0C, CHR 0x0D}"

lemma length_dropWhile_less: "length (dropWhile P xs) < Suc (length xs)"
  by (simp add: length_dropWhile_le less_Suc_eq_le)

text \<open>The words \<open>>>\<close> reads one after the other.\<close>

function split_words :: "string \<Rightarrow> string list" where
  "split_words [] = []"
| "split_words (c # s) =
     (if is_space c then split_words s
      else (c # takeWhile (\<lambda>c. \<not> is_space c) s) # split_words (dropWhile (\<lambda>c. \<not> is_space c) s))"
  by pat_completeness auto
termination by (relation "measure length") (auto simp: length_dropWhile_less)

fun depend_words :: "string list \<Rightarrow> bool \<Rightarrow> bool \<Rightarrow> bool \<Rightarrow> bool \<Rightarrow> string list \<Rightarrow> bool" where
  "depend_words E ok negate_depend all_depend min_one_depend [] = ok"
| "depend_words E ok negate_depend all_depend min_one_depend (sub # ws) =
     (if all_depend \<and> \<not> ok then ok
      else if sub = ''not'' then depend_words E ok True all_depend min_one_depend ws
      else if sub = ''and'' then depend_words E ok False True False ws
      else if sub = ''or'' then depend_words E ok False False True ws
      else if take 1 sub = ''&''
      then let enabled = drop 1 sub \<in> set E;
               enabled = (enabled \<and> \<not> negate_depend) \<or> (\<not> enabled \<and> negate_depend);
               ok = (if all_depend then ok \<and> enabled else if min_one_depend then ok \<or> enabled else ok \<and> enabled)
           in depend_words E ok negate_depend all_depend min_one_depend ws
      else False)"

definition checkDepends :: "string list \<Rightarrow> string \<Rightarrow> bool" where
  "checkDepends E depends = depend_words E True False False False (split_words depends)"

subsection \<open>Directories\<close>

definition new_Dir :: "string \<Rightarrow> string" where
  "new_Dir dir = map (\<lambda>c. if c = CHR 0x5C then CHR ''/'' else c) dir"

definition cd :: "string \<Rightarrow> string \<Rightarrow> string" where
  "cd sub dir = (if sub \<noteq> [] \<and> hd sub \<noteq> CHR ''/'' then dir @ ''/'' else dir) @ sub"

definition up :: "string \<Rightarrow> string" where
  "up dir = (if CHR ''/'' \<in> set dir then rev (drop 1 (dropWhile (\<lambda>c. c \<noteq> CHR ''/'') (rev dir))) else dir)"

subsection \<open>The walk through the family model\<close>

record FeatureToFiles =
  mEnabled :: "string list"
  output_files_stream :: string
  all_features :: bool
  ff_in :: int
  mdir :: string

definition output_files :: "string list \<Rightarrow> FeatureToFiles \<Rightarrow> FeatureToFiles" where
  "output_files files s =
     s\<lparr>output_files_stream := output_files_stream s @ concat (map (\<lambda>file. mdir s @ ''/'' @ file @ '';'') files)\<rparr>"

definition leave_node :: "string \<Rightarrow> FeatureToFiles \<Rightarrow> FeatureToFiles" where
  "leave_node subdir s = (if subdir \<noteq> [] then s\<lparr>mdir := up (mdir s), ff_in := ff_in s - 1\<rparr> else s\<lparr>ff_in := ff_in s - 1\<rparr>)"

lemma size_member: "map_of obj k = Some v \<Longrightarrow> size v < size (JObject obj)"
  by (induction obj) (fastforce split: if_splits)+

function node :: "(string \<times> json) list \<Rightarrow> FeatureToFiles \<Rightarrow> (bool \<times> FeatureToFiles) option"
  and component :: "json list \<Rightarrow> FeatureToFiles \<Rightarrow> (bool \<times> FeatureToFiles) option" where
  "node obj s =
     (let s = s\<lparr>ff_in := ff_in s + 1\<rparr> in
      Option.bind (getMapString obj ''vname'') (\<lambda>_.
      Option.bind (getMapString obj ''name'') (\<lambda>_.
      Option.bind (getMapString obj ''subdir'') (\<lambda>subdir.
      Option.bind (getMapString obj ''depends'') (\<lambda>depends.
      Option.bind (get_files obj) (\<lambda>files.
      if \<not> all_features s \<and> depends \<noteq> [] \<and> \<not> checkDepends (mEnabled s) depends then Some (True, s)
      else let s = (if subdir \<noteq> [] then s\<lparr>mdir := cd subdir (mdir s)\<rparr> else s);
               s = output_files files s
      in case map_of obj ''comp'' of
           None \<Rightarrow> Some (True, leave_node subdir s)
         | Some (JArray arr) \<Rightarrow> Option.bind (component arr s) (\<lambda>(result, s). Some (result, leave_node subdir s))
         | Some _ \<Rightarrow> Some (False, s)))))))"
| "component [] s = Some (True, s)"
| "component (value # vs) s =
     (case value of
        JObject obj \<Rightarrow> Option.bind (node obj s) (\<lambda>(result, s). if \<not> result then Some (False, s) else component vs s)
      | _ \<Rightarrow> Some (False, s))"
  by pat_completeness auto
termination
proof (relation "measure (case_sum (\<lambda>(obj, s). size (JObject obj)) (\<lambda>(arr, s). size (JArray arr)))")
qed (auto dest: size_member)

declare node.simps [simp del]

definition new_FeatureToFiles :: "string \<Rightarrow> (string \<times> json) list \<Rightarrow> string list \<Rightarrow> bool \<Rightarrow> (bool \<times> FeatureToFiles) option" where
  "new_FeatureToFiles basedir obj enabled all =
     node obj \<lparr>mEnabled = enabled, output_files_stream = [], all_features = all, ff_in = 0, mdir = new_Dir basedir\<rparr>"

subsection \<open>The program\<close>

record main_options =
  output_files_file :: "string option"
  output_definitions_file :: "string option"
  kconfigfile :: string
  base_directory :: string
  definitions_prefix :: string
  featureToFilesRelationfile :: string
  opt_all_features :: bool
  definitions :: bool
  featureFiles :: bool

definition default_options :: main_options where
  "default_options = \<lparr>output_files_file = None, output_definitions_file = None, kconfigfile = [], base_directory = [],
     definitions_prefix = [], featureToFilesRelationfile = [], opt_all_features = False, definitions = False, featureFiles = False\<rparr>"

text \<open>Opening a file for output: a buffer that is already open stays with its file. \<open>None\<close> is the exit with a failure.\<close>

definition open_output :: "(string \<Rightarrow> bool) \<Rightarrow> string \<Rightarrow> string option \<Rightarrow> string option option" where
  "open_output writable name buffer =
     (if name = [] then Some buffer
      else case buffer of Some opened \<Rightarrow> Some (Some opened)
      | None \<Rightarrow> if writable name then Some (Some name) else None)"

definition parse_option :: "(string \<Rightarrow> bool) \<Rightarrow> char \<times> string \<Rightarrow> main_options \<Rightarrow> main_options option" where
  "parse_option writable opt o' =
     (case opt of (c, optarg) \<Rightarrow>
      if c = CHR ''o'' then Option.bind (open_output writable optarg (output_files_file o'))
        (\<lambda>b. Some (o'\<lparr>featureFiles := True, output_files_file := b\<rparr>))
      else if c = CHR ''d'' then Option.bind (open_output writable optarg (output_definitions_file o'))
        (\<lambda>b. Some (o'\<lparr>definitions := True, output_definitions_file := b\<rparr>))
      else if c = CHR ''p'' then Some (o'\<lparr>definitions_prefix := optarg\<rparr>)
      else if c = CHR ''k'' then Some (o'\<lparr>kconfigfile := optarg\<rparr>)
      else if c = CHR ''b'' then Some (o'\<lparr>base_directory := optarg\<rparr>)
      else if c = CHR ''f'' then Some (o'\<lparr>featureToFilesRelationfile := optarg\<rparr>)
      else if c = CHR ''a'' then Some (o'\<lparr>opt_all_features := True\<rparr>)
      else None)"

fun parse_arguments :: "(string \<Rightarrow> bool) \<Rightarrow> (char \<times> string) list \<Rightarrow> main_options \<Rightarrow> main_options option" where
  "parse_arguments writable [] o' = Some o'"
| "parse_arguments writable (opt # opts) o' = Option.bind (parse_option writable opt o') (parse_arguments writable opts)"

definition refused :: "main_options \<Rightarrow> bool" where
  "refused o' \<longleftrightarrow>
     kconfigfile o' = [] \<and> definitions o' \<or>
     kconfigfile o' = [] \<and> \<not> opt_all_features o' \<or>
     featureToFilesRelationfile o' = [] \<and> (\<not> definitions o' \<or> featureFiles o') \<or>
     output_files_file o' = None \<and> output_definitions_file o' = None"

definition write_definitions :: "string \<Rightarrow> kconfigparser \<Rightarrow> string" where
  "write_definitions prefix kparser =
     concat (map (\<lambda>(k, v). ''#define '' @ prefix @ k @ '' '' @ v @ [CHR 0x0A]) (kconfig_keyvalue kparser)) @
     concat (map (\<lambda>k. ''#define '' @ prefix @ k @ [CHR 0x0A]) (kconfig_enabled kparser))"

text \<open>What a run leaves behind: the exit status, and the texts written to the files, or to the standard output in place of
  a file that was not named.\<close>

record run =
  exit_status :: int
  files_text :: "string option \<times> string"
  definitions_text :: "string option \<times> string"

definition ended :: "main_options \<Rightarrow> int \<Rightarrow> string \<Rightarrow> string \<Rightarrow> run option" where
  "ended o' status files defs =
     Some \<lparr>exit_status = status, files_text = (output_files_file o', files), definitions_text = (output_definitions_file o', defs)\<rparr>"

definition main_program ::
    "(string \<Rightarrow> bool) \<Rightarrow> (string \<Rightarrow> string option) \<Rightarrow> (string \<Rightarrow> string option) \<Rightarrow> (string \<Rightarrow> string + json) \<Rightarrow>
     (char \<times> string) list \<Rightarrow> run option" where
  "main_program writable open_update open_read parse_json args =
     (case parse_arguments writable args default_options of
        None \<Rightarrow> ended default_options 1 [] []
      | Some o' \<Rightarrow>
        if refused o' then ended o' 1 [] []
        else Option.bind
          (if definitions o' \<or> \<not> opt_all_features o'
           then load_kconfig_file (open_update (kconfigfile o')) \<lparr>kconfig_enabled = [], kconfig_keyvalue = []\<rparr>
           else Some (True, \<lparr>kconfig_enabled = [], kconfig_keyvalue = []\<rparr>))
          (\<lambda>(loaded, kparser).
            if \<not> loaded then ended o' 1 [] []
            else let defs = (if definitions o' then write_definitions (definitions_prefix o') kparser else []) in
            if \<not> featureFiles o' then ended o' 0 [] defs
            else case open_read (featureToFilesRelationfile o') of
                None \<Rightarrow> ended o' 1 [] defs
              | Some content \<Rightarrow>
                (case parse_json content of
                   Inr (JObject obj) \<Rightarrow>
                     Option.bind (new_FeatureToFiles (base_directory o') obj (kconfig_enabled kparser) (opt_all_features o'))
                       (\<lambda>(success, s). ended o' (if success then 0 else 1) (output_files_stream s) defs)
                 | _ \<Rightarrow> ended o' 1 [] defs)))"

subsection \<open>The meaning of a dependency\<close>

datatype junctor = And_word | Or_word

text \<open>A literal: whether it is negated, and the feature.\<close>

definition literal_words :: "bool \<times> string \<Rightarrow> string list" where
  "literal_words l = (if fst l then [''not''] else []) @ [CHR ''&'' # snd l]"

definition formula_words :: "bool \<times> string \<Rightarrow> (junctor \<times> bool \<times> string) list \<Rightarrow> string list" where
  "formula_words l rest = literal_words l @
     concat (map (\<lambda>(j, l). (case j of And_word \<Rightarrow> ''and'' | Or_word \<Rightarrow> ''or'') # literal_words l) rest)"

fun unwords :: "string list \<Rightarrow> string" where
  "unwords [] = []"
| "unwords [w] = w"
| "unwords (w # ws) = w @ '' '' @ unwords ws"

definition literal_holds :: "string list \<Rightarrow> bool \<times> string \<Rightarrow> bool" where
  "literal_holds E l \<longleftrightarrow> (snd l \<in> set E) \<noteq> fst l"

definition is_word :: "string \<Rightarrow> bool" where "is_word w \<longleftrightarrow> w \<noteq> [] \<and> (\<forall>c \<in> set w. \<not> is_space c)"

lemma split_word_end: "(\<forall>c \<in> set w. \<not> is_space c) \<Longrightarrow> is_space d \<Longrightarrow>
    takeWhile (\<lambda>c. \<not> is_space c) (w @ d # s) = w \<and> dropWhile (\<lambda>c. \<not> is_space c) (w @ d # s) = d # s"
  by (induction w) auto

lemma split_word_all: "(\<forall>c \<in> set w. \<not> is_space c) \<Longrightarrow>
    takeWhile (\<lambda>c. \<not> is_space c) w = w \<and> dropWhile (\<lambda>c. \<not> is_space c) w = []"
  by (induction w) auto

lemma split_words_unwords: "\<forall>w \<in> set ws. is_word w \<Longrightarrow> split_words (unwords ws) = ws"
proof (induction ws rule: unwords.induct)
  case (2 w)
  then obtain c s where w: "w = c # s" by (cases w) (auto simp: is_word_def)
  then have s: "\<not> is_space c" "\<forall>c \<in> set s. \<not> is_space c" using 2 by (auto simp: is_word_def)
  from split_word_all [OF s(2)] s(1) show ?case by (simp only: w unwords.simps split_words.simps if_False)
next
  case (3 w v ws)
  then obtain c s where w: "w = c # s" by (cases w) (auto simp: is_word_def)
  have "is_space (CHR '' '')" by (simp add: is_space_def)
  then show ?case using 3 w split_word_end [of s "CHR '' ''" "unwords (v # ws)"] by (simp add: is_word_def)
qed simp

lemma is_word_keyword [simp]: "is_word ''not''" "is_word ''and''" "is_word ''or''" "is_word (CHR ''&'' # x) \<longleftrightarrow> (\<forall>c \<in> set x. \<not> is_space c)"
  by (simp_all add: is_word_def is_space_def)

lemma is_word_junctor [simp]: "is_word (case j of And_word \<Rightarrow> ''and'' | Or_word \<Rightarrow> ''or'')"
  by (cases j) simp_all

lemma is_word_literal: "\<forall>c \<in> set (snd l). \<not> is_space c \<Longrightarrow> w \<in> set (literal_words l) \<Longrightarrow> is_word w"
  by (auto simp: literal_words_def split: if_splits)

lemma is_word_formula: "\<forall>l \<in> insert first (snd ` set rest). \<forall>c \<in> set (snd l). \<not> is_space c \<Longrightarrow> w \<in> set (formula_words first rest) \<Longrightarrow> is_word w"
  unfolding formula_words_def by (induction rest) (auto dest: is_word_literal)

lemma depend_literal:
  "depend_words E ok False all one (literal_words l @ ws) =
   (if all \<and> \<not> ok then False
    else depend_words E (if one \<and> \<not> all then ok \<or> literal_holds E l else ok \<and> literal_holds E l) (fst l) all one ws)"
  by (auto simp: literal_words_def literal_holds_def Let_def)

lemma depend_rest:
  "depend_words E ok n all one (concat (map (\<lambda>(j, l). (case j of And_word \<Rightarrow> ''and'' | Or_word \<Rightarrow> ''or'') # literal_words l) rest)) \<longleftrightarrow>
   \<not> (all \<and> \<not> ok) \<and> (ok \<or> (\<exists>(j, l) \<in> set (takeWhile (\<lambda>(j, l). j = Or_word) rest). literal_holds E l)) \<and>
   (\<forall>(j, l) \<in> set rest. j = And_word \<longrightarrow> literal_holds E l)"
proof (induction rest arbitrary: ok n all one)
  case (Cons r rest)
  obtain j l where r: "r = (j, l)" by (cases r)
  show ?case
    by (cases j; cases ok; cases "literal_holds E l") (auto simp: r depend_literal Cons.IH)
qed auto

text \<open>A dependency is read from left to right without precedence. It holds exactly when one of its leading literals, up to
  the first \<open>and\<close>, holds, and every literal right behind an \<open>and\<close> holds; a literal behind an \<open>or\<close> that follows an
  \<open>and\<close> counts for nothing.\<close>

theorem depends_semantics:
  assumes "\<forall>l \<in> insert first (snd ` set rest). \<forall>c \<in> set (snd l). \<not> is_space c"
  shows "checkDepends E (unwords (formula_words first rest)) \<longleftrightarrow>
    (literal_holds E first \<or> (\<exists>(j, l) \<in> set (takeWhile (\<lambda>(j, l). j = Or_word) rest). literal_holds E l)) \<and>
    (\<forall>(j, l) \<in> set rest. j = And_word \<longrightarrow> literal_holds E l)"
proof -
  have "\<forall>w \<in> set (formula_words first rest). is_word w" using is_word_formula [OF assms] by blast
  then have "checkDepends E (unwords (formula_words first rest)) = depend_words E True False False False (formula_words first rest)"
    by (simp add: checkDepends_def split_words_unwords)
  then show ?thesis by (simp add: formula_words_def depend_literal depend_rest)
qed

theorem depends_semantics_witness:
  "\<not> checkDepends [''ipv6'', ''udp''] (unwords (formula_words (False, ''ipv4'') [(And_word, False, ''udp''), (Or_word, False, ''ipv6'')]))"
  using depends_semantics [of "(False, ''ipv4'')" "[(And_word, False, ''udp''), (Or_word, False, ''ipv6'')]" "[''ipv6'', ''udp'']"]
  by (simp add: literal_holds_def is_space_def)

subsection \<open>The files of a configuration\<close>

text \<open>A family model as its authors think of it: a feature has a dependency, a directory, files and parts. Its files
  are those of the features whose dependency holds, together with those of all features around them, each in the
  directory of its feature.\<close>

datatype feature = Feature (depends: string) (subdir: string) (feature_files: "string list") (parts: "feature list")

fun to_json :: "feature \<Rightarrow> (string \<times> json) list" where
  "to_json (Feature d sub fs ps) =
     [(''depends'', JString d), (''subdir'', JString sub), (''files'', JArray (map JString fs)),
      (''comp'', JArray (map (\<lambda>p. JObject (to_json p)) ps))]"

fun relevant :: "string list \<Rightarrow> bool \<Rightarrow> string \<Rightarrow> feature \<Rightarrow> string list" where
  "relevant E all dir (Feature d sub fs ps) =
     (if \<not> all \<and> d \<noteq> [] \<and> \<not> checkDepends E d then []
      else map (\<lambda>file. cd sub dir @ ''/'' @ file) fs @ concat (map (relevant E all (cd sub dir)) ps))"

definition one_directory :: "string \<Rightarrow> bool" where
  "one_directory sub \<longleftrightarrow> CHR ''/'' \<notin> set (if sub \<noteq> [] \<and> hd sub = CHR ''/'' then tl sub else sub)"

fun plain_directories :: "feature \<Rightarrow> bool" where
  "plain_directories (Feature d sub fs ps) \<longleftrightarrow> one_directory sub \<and> (\<forall>p \<in> set ps. plain_directories p)"

lemma cd_slash: "sub \<noteq> [] \<Longrightarrow> cd sub dir = dir @ CHR ''/'' # (if hd sub = CHR ''/'' then tl sub else sub)"
  by (cases sub) (auto simp: cd_def)

lemma cd_nothing [simp]: "cd [] dir = dir" by (simp add: cd_def)

lemma dropWhile_no_slash: "CHR ''/'' \<notin> set xs \<Longrightarrow> dropWhile (\<lambda>c. c \<noteq> CHR ''/'') (xs @ CHR ''/'' # ys) = CHR ''/'' # ys"
  by (induction xs) auto

lemma up_slash: "CHR ''/'' \<notin> set name \<Longrightarrow> up (dir @ CHR ''/'' # name) = dir"
  using dropWhile_no_slash [of "rev name" "rev dir"] by (simp add: up_def)

lemma length_up: "CHR ''/'' \<in> set name \<Longrightarrow> length dir < length (up (dir @ CHR ''/'' # name))"
proof -
  assume "CHR ''/'' \<in> set name"
  then obtain a b where n: "name = a @ CHR ''/'' # b" and b: "CHR ''/'' \<notin> set b" by (auto dest: split_list_last)
  have "up (dir @ CHR ''/'' # name) = dir @ CHR ''/'' # a"
    using up_slash [OF b, of "dir @ CHR ''/'' # a"] by (simp add: n)
  then show ?thesis by simp
qed

lemma directory_restored:
  assumes "sub \<noteq> []"
  shows "up (cd sub dir) = dir \<longleftrightarrow> one_directory sub"
proof (cases "one_directory sub")
  case True
  then show ?thesis using assms by (simp add: cd_slash up_slash one_directory_def split: if_splits)
next
  case False
  then have "length dir < length (up (cd sub dir))"
    using assms by (simp add: cd_slash one_directory_def length_up split: if_splits)
  then show ?thesis using False by auto
qed

text \<open>The walk comes back to the directory it started from after a feature with a directory of its own exactly when
  this directory is a single one. A path of two directories is entered as a whole but left one step only, so that
  the files of the features behind it get a wrong directory.\<close>

theorem directory_restored_exact:
  assumes "sub \<noteq> []"
  shows "up (cd sub dir) = dir \<longleftrightarrow> one_directory sub"
  using assms by (rule directory_restored)

theorem directory_restored_exact_witness:
  "up (cd ''/tcp'' ''src'') = ''src'' \<and> up (cd ''tcp/v6'' ''src'') \<noteq> ''src''"
  using directory_restored_exact [of "''/tcp''" "''src''"] directory_restored_exact [of "''tcp/v6''" "''src''"]
  by (simp add: one_directory_def)

lemma array_strings_map [simp]: "array_strings (map JString fs) = Some fs"
  by (induction fs) simp_all

lemma to_json_lookup [simp]: "getMapString (to_json f) ''vname'' = Some []" "getMapString (to_json f) ''name'' = Some []"
  "getMapString (to_json f) ''subdir'' = Some (subdir f)" "getMapString (to_json f) ''depends'' = Some (depends f)"
  "get_files (to_json f) = Some (feature_files f)" "map_of (to_json f) ''comp'' = Some (JArray (map (\<lambda>p. JObject (to_json p)) (parts f)))"
  by (cases f; simp add: getMapString_def get_files_def)+

declare to_json.simps [simp del]

definition listing :: "string list \<Rightarrow> string" where "listing files = concat (map (\<lambda>file. file @ '';'') files)"

lemma listing_append [simp]: "listing (xs @ ys) = listing xs @ listing ys" "listing [] = []"
  by (simp_all add: listing_def)

lemma output_files_listing:
  "output_files fs s = s\<lparr>output_files_stream := output_files_stream s @ listing (map (\<lambda>file. mdir s @ ''/'' @ file) fs)\<rparr>"
  by (simp add: output_files_def listing_def comp_def)

text \<open>Where the walk is after some files: the counter \<open>in\<close> is left out, an unmet dependency does not restore it.\<close>

definition walked :: "FeatureToFiles \<Rightarrow> string list \<Rightarrow> bool \<times> FeatureToFiles \<Rightarrow> bool" where
  "walked s files r \<longleftrightarrow> (\<exists>k. r = (True, s\<lparr>output_files_stream := output_files_stream s @ listing files, ff_in := k\<rparr>))"

lemma walked_trans: "walked s xs (True, t) \<Longrightarrow> walked t ys r \<Longrightarrow> walked s (xs @ ys) r"
  by (auto simp: walked_def)

lemma component_walk:
  assumes "\<And>p s. p \<in> set ps \<Longrightarrow> \<exists>r. node (to_json p) s = Some r \<and> walked s (relevant (mEnabled s) (all_features s) (mdir s) p) r"
  shows "\<exists>r. component (map (\<lambda>p. JObject (to_json p)) ps) s = Some r \<and>
    walked s (concat (map (relevant (mEnabled s) (all_features s) (mdir s)) ps)) r"
  using assms
proof (induction ps arbitrary: s)
  case Nil
  show ?case by (simp add: walked_def) (metis FeatureToFiles.surjective FeatureToFiles.update_convs(4))
next
  case (Cons p ps)
  obtain r0 where r0: "node (to_json p) s = Some r0" "walked s (relevant (mEnabled s) (all_features s) (mdir s) p) r0"
    using Cons.prems [of p s] by auto
  then obtain t where t: "node (to_json p) s = Some (True, t)" "walked s (relevant (mEnabled s) (all_features s) (mdir s) p) (True, t)"
    unfolding walked_def by blast
  then have same: "mEnabled t = mEnabled s" "all_features t = all_features s" "mdir t = mdir s" by (auto simp: walked_def)
  obtain r where r: "component (map (\<lambda>p. JObject (to_json p)) ps) t = Some r"
      "walked t (concat (map (relevant (mEnabled t) (all_features t) (mdir t)) ps)) r"
    using Cons.IH [of t] Cons.prems by auto
  show ?case using t r walked_trans by (auto simp: same)
qed

text \<open>The walk through a family model of plain directories writes exactly the relevant files, one after the other, and comes back to
  where it was.\<close>

lemma node_walk:
  "plain_directories f \<Longrightarrow> \<exists>r. node (to_json f) s = Some r \<and> walked s (relevant (mEnabled s) (all_features s) (mdir s) f) r"
proof (induction f arbitrary: s)
  case (Feature d sub fs ps)
  show ?case
  proof (cases "\<not> all_features s \<and> d \<noteq> [] \<and> \<not> checkDepends (mEnabled s) d")
    case True
    then show ?thesis by (subst node.simps) (auto simp: walked_def Let_def)
  next
    case False
    let ?s = "output_files fs (s\<lparr>ff_in := ff_in s + 1, mdir := cd sub (mdir s)\<rparr>)"
    have "\<exists>r. component (map (\<lambda>p. JObject (to_json p)) ps) ?s = Some r \<and>
        walked ?s (concat (map (relevant (mEnabled ?s) (all_features ?s) (mdir ?s)) ps)) r"
      using Feature by (intro component_walk) (auto simp: output_files_listing)
    then obtain k where r: "component (map (\<lambda>p. JObject (to_json p)) ps) ?s =
        Some (True, ?s\<lparr>output_files_stream := output_files_stream ?s @
          listing (concat (map (relevant (mEnabled s) (all_features s) (cd sub (mdir s))) ps)), ff_in := k\<rparr>)"
      by (auto simp: walked_def output_files_listing)
    have dir: "up (cd sub (mdir s)) = mdir s" if "sub \<noteq> []"
      using that Feature.prems directory_restored by simp
    let ?files = "map (\<lambda>file. cd sub (mdir s) @ ''/'' @ file) fs @
      concat (map (relevant (mEnabled s) (all_features s) (cd sub (mdir s))) ps)"
    have "node (to_json (Feature d sub fs ps)) s =
        Some (True, s\<lparr>output_files_stream := output_files_stream s @ listing ?files, ff_in := k - 1\<rparr>)"
      by (subst node.simps; cases "sub = []")
        (use False r dir in \<open>auto simp: Let_def leave_node_def output_files_listing\<close>)
    moreover have "relevant (mEnabled s) (all_features s) (mdir s) (Feature d sub fs ps) = ?files"
      by (simp only: relevant.simps False if_False)
    ultimately show ?thesis unfolding walked_def by metis
  qed
qed

subsection \<open>The configuration read back\<close>

datatype config_line = Comment string | Enabled string | Setting string string

fun config_text :: "config_line \<Rightarrow> string" where
  "config_text (Comment c) = ''#'' @ c"
| "config_text (Enabled k) = ''CONFIG_'' @ k @ ''=y''"
| "config_text (Setting k v) = ''CONFIG_'' @ k @ ''='' @ v"

definition config_file :: "config_line list \<Rightarrow> string" where
  "config_file ls = concat (map (\<lambda>l. config_text l @ [CHR 0x0A]) ls)"

fun config_line_ok :: "config_line \<Rightarrow> bool" where
  "config_line_ok (Comment c) \<longleftrightarrow> CHR 0x0A \<notin> set c"
| "config_line_ok (Enabled k) \<longleftrightarrow> CHR 0x0A \<notin> set k"
| "config_line_ok (Setting k v) \<longleftrightarrow> CHR 0x0A \<notin> set k \<and> CHR 0x0A \<notin> set v \<and> CHR ''='' \<notin> set k \<and> v \<noteq> ''y'' \<and> \<not> hasEnding v ''=y''"

definition enabled_in :: "config_line list \<Rightarrow> string set" where "enabled_in ls = {k. Enabled k \<in> set ls}"

fun settings :: "config_line list \<Rightarrow> (string \<times> string) list" where
  "settings [] = []"
| "settings (Setting k v # ls) = (k, v) # settings ls"
| "settings (_ # ls) = settings ls"

lemma hasEnding_append [simp]: "hasEnding (k @ e) e"
  by (simp add: hasEnding_def)

lemma hasEnding_setting: "hasEnding (k @ CHR ''='' # v) ''=y'' \<longleftrightarrow> v = ''y'' \<or> hasEnding v ''=y''"
proof (cases v rule: rev_cases)
  case (snoc w c)
  show ?thesis
  proof (cases w rule: rev_cases)
    case Nil
    then show ?thesis by (simp add: snoc hasEnding_def)
  next
    case (snoc u d)
    then show ?thesis by (simp add: \<open>v = w @ [c]\<close> hasEnding_def)
  qed
next
  case Nil
  then show ?thesis by (cases k rule: rev_cases) (simp_all add: hasEnding_def)
qed

lemma split_lines_line: "CHR 0x0A \<notin> set l \<Longrightarrow> split_lines (l @ CHR 0x0A # s) = l # split_lines s"
  by (induction l) auto

lemma split_lines_file: "\<forall>l \<in> set ls. config_line_ok l \<Longrightarrow> split_lines (config_file ls) = map config_text ls @ [[]]"
proof (induction ls)
  case (Cons l ls)
  then have "CHR 0x0A \<notin> set (config_text l)" by (cases l) auto
  then show ?case using Cons split_lines_line [of "config_text l" "config_file ls"] by (simp add: config_file_def)
qed (simp add: config_file_def)

lemma takeWhile_key: "CHR ''='' \<notin> set k \<Longrightarrow> takeWhile (\<lambda>c. c \<noteq> CHR ''='') (k @ CHR ''='' # v) = k"
  by (induction k) auto

lemma kconfig_line_text:
  assumes "config_line_ok l"
  shows "kconfig_line p (config_text l) = Some (case l of Comment _ \<Rightarrow> p
    | Enabled k \<Rightarrow> p\<lparr>kconfig_enabled := set_insert k (kconfig_enabled p)\<rparr>
    | Setting k v \<Rightarrow> p\<lparr>kconfig_keyvalue := map_insert k v (kconfig_keyvalue p)\<rparr>)"
proof (cases l)
  case (Enabled k)
  have "hasEnding (k @ ''=y'') ''=y''" by simp
  then show ?thesis by (simp add: Enabled kconfig_line_def Let_def)
next
  case (Setting k v)
  then have n: "\<not> hasEnding (k @ CHR ''='' # v) ''=y''" using assms by (simp add: hasEnding_setting)
  have "takeWhile (\<lambda>c. c \<noteq> CHR ''='') (k @ CHR ''='' # v) = k" using assms by (intro takeWhile_key) (simp add: Setting)
  then show ?thesis using n by (simp add: Setting kconfig_line_def Let_def)
qed (simp add: kconfig_line_def)

lemma set_set_insert: "set (set_insert x xs) = insert x (set xs)"
  by (auto simp: set_insert_def set_insort_key)

lemma map_of_insort: "map_of m k = None \<Longrightarrow> map_of (insort_key fst (k, v) m) = (map_of m)(k \<mapsto> v)"
  by (induction m) (auto simp: fun_eq_iff split: if_splits)

lemma map_of_map_insert: "map_of (map_insert k v m) = [k \<mapsto> v] ++ map_of m"
  by (auto simp: map_insert_def map_of_insort map_add_def fun_eq_iff split: option.split)

lemma kconfig_lines_text:
  "\<forall>l \<in> set ls. config_line_ok l \<Longrightarrow> \<exists>q. kconfig_lines (map config_text ls @ [[]]) p = Some q \<and>
     set (kconfig_enabled q) = set (kconfig_enabled p) \<union> enabled_in ls \<and>
     map_of (kconfig_keyvalue q) = map_of (settings ls) ++ map_of (kconfig_keyvalue p)"
proof (induction ls arbitrary: p)
  case Nil
  show ?case by (simp add: kconfig_line_def enabled_in_def)
next
  case (Cons l ls)
  have step: "kconfig_lines (map config_text (l # ls) @ [[]]) p = kconfig_lines (map config_text ls @ [[]]) (case l of Comment _ \<Rightarrow> p
      | Enabled k \<Rightarrow> p\<lparr>kconfig_enabled := set_insert k (kconfig_enabled p)\<rparr>
      | Setting k v \<Rightarrow> p\<lparr>kconfig_keyvalue := map_insert k v (kconfig_keyvalue p)\<rparr>)"
    using Cons.prems kconfig_line_text [of l p] by (simp del: config_text.simps)
  show ?case
  proof (cases l)
    case (Comment c)
    then show ?thesis unfolding step using Cons.prems Cons.IH [of p] by (simp add: enabled_in_def)
  next
    case (Enabled k)
    then show ?thesis
      unfolding step using Cons.prems Cons.IH [of "p\<lparr>kconfig_enabled := set_insert k (kconfig_enabled p)\<rparr>"]
      by (auto simp: enabled_in_def set_set_insert)
  next
    case (Setting k v)
    then show ?thesis
      unfolding step using Cons.prems Cons.IH [of "p\<lparr>kconfig_keyvalue := map_insert k v (kconfig_keyvalue p)\<rparr>"]
      by (auto simp: enabled_in_def map_of_map_insert fun_upd_def [symmetric])
  qed
qed

text \<open>A configuration of comments, enabled options and settings is read back: the set of the enabled options is as
  written, and a setting has the value of its first line.\<close>

lemma kconfig_roundtrip:
  assumes "\<forall>l \<in> set ls. config_line_ok l"
  obtains q where "load_kconfig_file (Some (config_file ls)) \<lparr>kconfig_enabled = [], kconfig_keyvalue = []\<rparr> = Some (True, q)"
    and "set (kconfig_enabled q) = enabled_in ls" and "map_of (kconfig_keyvalue q) = map_of (settings ls)"
  using kconfig_lines_text [OF assms, of "\<lparr>kconfig_enabled = [], kconfig_keyvalue = []\<rparr>"]
  by (auto simp: load_kconfig_file_def split_lines_file [OF assms])

subsection \<open>Runs of the program\<close>

lemma checkDepends_enabled:
  assumes "set E = set E'"
  shows "checkDepends E d = checkDepends E' d"
proof -
  have "depend_words E ok n a m ws = depend_words E' ok n a m ws" for ok n a m ws
    by (induction ws arbitrary: ok n a m) (simp_all add: assms Let_def)
  then show ?thesis by (simp add: checkDepends_def)
qed

lemma relevant_enabled:
  assumes "set E = set E'"
  shows "relevant E all dir f = relevant E' all dir f"
proof (induction f arbitrary: dir)
  case (Feature d sub fs ps)
  then show ?case by (cases all) (simp_all add: checkDepends_enabled [OF assms] cong: map_cong)
qed



text \<open>The usage text offers the standard output for the files or for the definitions. But whatever the other options are, when
  every output is named by the empty string that asks for it, the program ends with a failure and writes nothing.\<close>

theorem stdout_mode_refused:
  assumes "\<forall>(c, arg) \<in> set args. c = CHR ''o'' \<or> c = CHR ''d'' \<longrightarrow> arg = []"
  shows "main_program writable open_update open_read parse_json args =
    Some \<lparr>exit_status = 1, files_text = (None, []), definitions_text = (None, [])\<rparr>"
proof -
  have inv: "output_files_file o'' = None \<and> output_definitions_file o'' = None"
    if "parse_arguments writable args o' = Some o''" "output_files_file o' = None" "output_definitions_file o' = None" for o' o''
    using that assms
    by (induction args arbitrary: o')
      (fastforce simp: parse_option_def open_output_def split: bind_splits if_splits prod.splits)+
  show ?thesis
  proof (cases "parse_arguments writable args default_options")
    case None
    then show ?thesis by (simp add: main_program_def ended_def default_options_def)
  next
    case (Some o')
    then show ?thesis using inv [OF Some] by (simp add: main_program_def ended_def default_options_def refused_def)
  qed
qed

theorem stdout_mode_refused_witness:
  "main_program (\<lambda>_. True) (\<lambda>_. Some []) (\<lambda>_. Some []) (\<lambda>_. Inl []) [(CHR ''o'', []), (CHR ''f'', ''m.json''), (CHR ''a'', [])] =
    Some \<lparr>exit_status = 1, files_text = (None, []), definitions_text = (None, [])\<rparr>"
  by (rule stdout_mode_refused) simp

end
