(* ===== verification/TCP_Extensions.thy ===== *)
theory TCP_Extensions
  imports TCP_Transitions
begin

text \<open>
  The optional features of TCP: slow start and congestion avoidance (\<^verbatim>\<open>tcp/congestion_avoidance\<close>), the estimation of
  round trip times with exponential backoff (\<^verbatim>\<open>tcp/rtt_estimation\<close>), the tracking of retransmissions
  (\<^verbatim>\<open>tcp/retransmissionTracker\<close>), the avoidance of silly windows (\<^verbatim>\<open>tcp/sws\<close>) and the maximum segment size option
  (\<^verbatim>\<open>tcp/tcp_options\<close>). A slice adds fields to the socket; here they are a second record, and an operation whose execution has
  advice acts on the pair of both. The order of advice is the one its comments ask for.
\<close>

subsection \<open>The fields that the slices add\<close>

record tcp_slices =
  cwnd :: u32
  sstresh :: u32
  outstanding_bytes :: u16
  retransmitting :: bool
  rtt_seqnum :: u32
  rrt_time :: u64
  rrt_active :: bool
  srtt :: int
  rtt_var :: int
  rto :: u32
  max_sendWindow :: u16

type_synonym woven_socket = "tcp_socket \<times> tcp_slices"

subsection \<open>Slow start\<close>

definition initSlowStart :: "u32 \<Rightarrow> tcp_slices \<Rightarrow> tcp_slices" where
  "initSlowStart m x = x\<lparr>cwnd := m, sstresh := 0xFFFFFFFF, outstanding_bytes := 0\<rparr>"

definition increment_cwnd :: "u32 \<Rightarrow> u16 \<Rightarrow> tcp_slices \<Rightarrow> tcp_slices" where
  "increment_cwnd m bytes_acked x =
     (let cwnd_old = cwnd x;
          new = (if cwnd x \<le> sstresh x then cwnd x + ucast bytes_acked
                 else cwnd x + (ucast bytes_acked * m) div cwnd x)
      in x\<lparr>cwnd := (if new < cwnd_old then 0xFFFFFFFF else new)\<rparr>)"

definition drop_cwnd :: "u32 \<Rightarrow> tcp_slices \<Rightarrow> tcp_slices" where
  "drop_cwnd m x =
     (if cwnd x = m then x
      else let half = cwnd x div 2; min_sstresh = 2 * m
           in x\<lparr>sstresh := (if half < min_sstresh then min_sstresh else half), cwnd := m, outstanding_bytes := 0\<rparr>)"

definition cwnd_opened :: "tcp_slices \<Rightarrow> bool" where
  "cwnd_opened x \<longleftrightarrow> cwnd x > ucast (outstanding_bytes x)"

definition forget_acked :: "u16 \<Rightarrow> tcp_slices \<Rightarrow> tcp_slices" where
  "forget_acked acked x =
     x\<lparr>outstanding_bytes := (if acked < outstanding_bytes x then outstanding_bytes x - acked else 0)\<rparr>"

subsection \<open>Round trip times\<close>

text \<open>\<^verbatim>\<open>int32_t\<close>: the values wrap around at 32 bits; \<open>>>\<close> of a negative value rounds down.\<close>

definition i32 :: "int \<Rightarrow> int" where "i32 v = signed_take_bit 31 v"

definition LOWER_RTO_BOUND :: u32 where "LOWER_RTO_BOUND = 200"
definition UPPER_RTO_BOUND :: u32 where "UPPER_RTO_BOUND = 64000"

definition update_SRTT :: "int \<Rightarrow> tcp_slices \<Rightarrow> tcp_slices" where
  "update_SRTT meassured_rtt x =
     (if srtt x = 0
      then let v = i32 (push_bit 1 meassured_rtt)
           in x\<lparr>srtt := i32 (push_bit 3 meassured_rtt), rtt_var := v, rto := word_of_int (i32 (meassured_rtt + i32 (push_bit 1 v)))\<rparr>
      else let error = i32 (meassured_rtt - drop_bit 3 (srtt x));
               s = i32 (srtt x + error);
               error = (if error < 0 then i32 (- error) else error);
               v = i32 (rtt_var x + i32 (error - drop_bit 2 (rtt_var x)))
           in x\<lparr>srtt := s, rtt_var := v, rto := word_of_int (i32 (drop_bit 3 s + v))\<rparr>)"

definition rtt_init :: "tcp_slices \<Rightarrow> tcp_slices" where
  "rtt_init x = x\<lparr>rrt_active := False, srtt := 0, rtt_var := 3000, rto := 6000\<rparr>"

definition start_RTT_Estimation :: "tcp_env \<Rightarrow> woven_socket \<Rightarrow> woven_socket" where
  "start_RTT_Estimation E = (\<lambda>(s, x).
     (s, if \<not> rrt_active x then x\<lparr>rrt_active := True, rtt_seqnum := seqnum_next s, rrt_time := env_now E\<rparr> else x))"

text \<open>With the exponential backoff of \<^verbatim>\<open>RTT_Exponential_Backoff.ah\<close> before it.\<close>

definition back_off :: "tcp_slices \<Rightarrow> tcp_slices" where
  "back_off x = x\<lparr>rto := (if rto x < UPPER_RTO_BOUND then push_bit 1 (rto x) else UPPER_RTO_BOUND)\<rparr>"

definition abort_RTT_Estimation :: "tcp_slices \<Rightarrow> tcp_slices" where
  "abort_RTT_Estimation x = (back_off x)\<lparr>rrt_active := False\<rparr>"

definition take_measurement :: "u32 \<Rightarrow> tcp_slices \<Rightarrow> tcp_slices" where
  "take_measurement meassured_rtt x =
     (let msec = uint (meassured_rtt AND 0x7FFFFFFF);
          x = update_SRTT msec x
      in x\<lparr>rto := (if rto x < LOWER_RTO_BOUND then LOWER_RTO_BOUND else rto x)\<rparr>)"

definition update_RTT_Estimation :: "tcp_env \<Rightarrow> u32 \<Rightarrow> tcp_slices \<Rightarrow> tcp_slices" where
  "update_RTT_Estimation E acknum x =
     (if rrt_active x \<and> SEQ_LT (rtt_seqnum x) acknum
      then (take_measurement (env_ticks_to_ms E (env_now E - rrt_time x)) x)\<lparr>rrt_active := False\<rparr>
      else x)"

subsection \<open>The socket with the advice around its operations\<close>

definition woven_lowerSendWindow :: "u16 \<Rightarrow> woven_socket \<Rightarrow> woven_socket" where
  "woven_lowerSendWindow subtract = (\<lambda>(s, x).
     (lowerSendWindow subtract s, x\<lparr>outstanding_bytes := outstanding_bytes x + subtract\<rparr>))"

definition woven_set_seqnum_unacked :: "tcp_env \<Rightarrow> u32 \<Rightarrow> woven_socket \<Rightarrow> woven_socket" where
  "woven_set_seqnum_unacked E acknum = (\<lambda>(s, x).
     let acked = ucast (acknum - seqnum_unacked s);
         x = increment_cwnd (mss s) acked (forget_acked acked x);
         s = s\<lparr>seqnum_unacked := acknum\<rparr>
     in (s, update_RTT_Estimation E acknum x))"

definition woven_handleACK :: "tcp_env \<Rightarrow> u32 \<Rightarrow> woven_socket \<Rightarrow> woven_socket" where
  "woven_handleACK E acknum = (\<lambda>(s, x).
     if SEQ_LEQ acknum (seqnum_unacked s) then (s, x)
     else if SEQ_GT acknum (seqnum_next s) then (s, x)
     else woven_set_seqnum_unacked E acknum (s, x))"

definition woven_getSendWindow :: "woven_socket \<Rightarrow> u16" where
  "woven_getSendWindow = (\<lambda>(s, x). if cwnd_opened x \<and> \<not> retransmitting x then sendWindow s else 0)"

definition setRetransmitting :: "woven_socket \<Rightarrow> woven_socket" where
  "setRetransmitting = (\<lambda>(s, x).
     let x = (if \<not> retransmitting x then drop_cwnd (mss s) x else x);
         x = abort_RTT_Estimation x
     in (s, x\<lparr>retransmitting := True\<rparr>))"

definition clearRetransmitting :: "woven_socket \<Rightarrow> woven_socket" where
  "clearRetransmitting = (\<lambda>(s, x). (s, x\<lparr>outstanding_bytes := 0, retransmitting := False\<rparr>))"

definition woven_setMSS :: "u32 \<Rightarrow> woven_socket \<Rightarrow> woven_socket" where
  "woven_setMSS max_segment_size = (\<lambda>(s, x). let s = setMSS max_segment_size s in (s, initSlowStart (mss s) x))"

definition woven_gen_initial_seqnum :: "tcp_env \<Rightarrow> woven_socket \<Rightarrow> woven_socket" where
  "woven_gen_initial_seqnum E = (\<lambda>(s, x). (gen_initial_seqnum E s, rtt_init x))"

text \<open>What slow start takes for the payload of a record: the bytes of its segment less the header length, which counts words
  of four bytes.\<close>

definition record_payload :: "tcp_record \<Rightarrow> u32" where
  "record_payload r =
     (let seg = tb_segment (rec_buffer r)
      in of_nat (TCP_MIN_HEADER_SIZE + length (seg_data seg)) - ucast (get_header_len seg))"

definition woven_retransmit :: "tcp_env \<Rightarrow> tcp_record \<Rightarrow> woven_socket \<Rightarrow> tcp_record \<times> woven_socket" where
  "woven_retransmit E r w =
     (let first = (seg_seqnum (tb_segment (rec_buffer r)) = seqnum_unacked (fst w));
          (s, x) = (if first then setRetransmitting w else w)
      in if first \<or> cwnd_opened x
         then let x = x\<lparr>outstanding_bytes := ucast (ucast (outstanding_bytes x) + record_payload r)\<rparr>
              in case tcp_send ((rec_buffer r)\<lparr>tb_state := WritingState\<rparr>) s of
                   (_, b, s) \<Rightarrow> (setTimeout (env_now E) (env_ms_to_ticks E) (rto x) (r\<lparr>rec_buffer := b\<rparr>), (s, x))
         else (r, (s, x)))"

fun woven_sweep :: "tcp_env \<Rightarrow> bool \<Rightarrow> tcp_record list \<Rightarrow> woven_socket \<Rightarrow> (tcp_record list \<times> woven_socket) outcome" where
  "woven_sweep E rt [] w = Inr ([], w)"
| "woven_sweep E rt (r # rs) w =
     (if record_done E (seqnum_unacked (fst w)) r
      then obind (mem_free E (tb_addr (rec_buffer r)) (fst w)) (\<lambda>s. woven_sweep E rt rs (s, snd w))
      else case (if rt \<and> isTimedOut (env_now E) r then woven_retransmit E r w else (r, w)) of
             (r', w') \<Rightarrow> obind (woven_sweep E rt rs w') (\<lambda>(rs', w''). Inr (r' # rs', w'')))"

definition woven_updateHistory :: "tcp_env \<Rightarrow> bool \<Rightarrow> woven_socket \<Rightarrow> woven_socket outcome" where
  "woven_updateHistory E do_retransmit = (\<lambda>(s, x).
     if \<not> env_interface E then obind (clearHistory E s) (\<lambda>s. Inr (s, x))
     else obind (woven_sweep E do_retransmit (history s) (if history s = [] then clearRetransmitting (s, x) else (s, x)))
            (\<lambda>(rs, (s, x)). Inr (s\<lparr>history := rs\<rparr>, x)))"

definition woven_sendSegment :: "tcp_env \<Rightarrow> u32 \<Rightarrow> woven_socket \<Rightarrow> (bool \<times> woven_socket) outcome" where
  "woven_sendSegment E len = (\<lambda>(s, x).
     obind (requestSendBufferTCP E len s)
       (\<lambda>(b, s). case b of
            None \<Rightarrow> Inr (False, (s, x))
          | Some a \<Rightarrow>
              if unat len \<le> length (application_buf s)
              then let seg = (writeHeaderWithAck E (getAckNum E s) s)\<lparr>seg_data := take (unat len) (application_buf s)\<rparr>;
                       s = s\<lparr>application_buflen := application_buflen s - len,
                            application_buf := drop (unat len) (application_buf s)\<rparr>;
                       seg = (if application_buflen s = 0 then set_PSH seg else seg);
                       s = s\<lparr>seqnum_next := seqnum_next s + len\<rparr>;
                       (s, x) = (if sendWindow s \<noteq> 0 then woven_lowerSendWindow (ucast len) (s, x) else (s, x))
                   in obind (emit E a seg (rto x) s) (\<lambda>s. Inr (True, (s, x)))
              else Inl OutOfBounds))"

text \<open>The sender's avoidance of silly windows around \<open>sendNextSegment\<close>: \<open>block(500)\<close> answers whether the time is over.\<close>

definition woven_sendNextSegment :: "tcp_env \<Rightarrow> woven_socket \<Rightarrow> (bool \<times> woven_socket) outcome" where
  "woven_sendNextSegment E = (\<lambda>(s, x).
     if application_buflen s > ucast (sendWindow s) \<and> ucast (sendWindow s) * 2 < (ucast (max_sendWindow x) :: u32) \<and>
        ucast (sendWindow s) < mss s \<and> \<not> env_timeout E
     then Inr (False, (s, x))
     else woven_sendSegment E (min3 (ucast (woven_getSendWindow (s, x))) (application_buflen s) (mss s)) (s, x))"

fun woven_send_loop :: "nat \<Rightarrow> tcp_env \<Rightarrow> woven_socket \<Rightarrow> woven_socket outcome" where
  "woven_send_loop 0 E w = Inr w"
| "woven_send_loop (Suc fuel) E w =
     (if application_buflen (fst w) > 0 \<and> woven_getSendWindow w > 0
      then obind (woven_sendNextSegment E w) (\<lambda>(ok, w). if \<not> ok then Inr w else woven_send_loop fuel E w)
      else Inr w)"

definition woven_processSendData :: "tcp_env \<Rightarrow> woven_socket \<Rightarrow> woven_socket outcome" where
  "woven_processSendData E w =
     (if application_buflen (fst w) = 0 then Inr w
      else if sendWindow (fst w) = 0
      then if socket_nextTimeout E (fst w) = 0 then obind (woven_sendSegment E 1 w) (\<lambda>(_, w). Inr w) else Inr w
      else woven_send_loop (Suc (unat (application_buflen (fst w)))) E w)"

subsection \<open>Silly windows\<close>

definition woven_updateSendWindow :: "tcp_segment \<Rightarrow> u32 \<Rightarrow> u32 \<Rightarrow> woven_socket \<Rightarrow> woven_socket" where
  "woven_updateSendWindow seg seqnum acknum = (\<lambda>(s, x).
     let s = updateSendWindow seg seqnum acknum s
     in (s, if sendWindow s > max_sendWindow x then x\<lparr>max_sendWindow := sendWindow s\<rparr> else x))"

definition woven_initSendWindow :: "u16 \<Rightarrow> u32 \<Rightarrow> u32 \<Rightarrow> woven_socket \<Rightarrow> woven_socket" where
  "woven_initSendWindow window seqnum acknum = (\<lambda>(s, x). (initSendWindow window seqnum acknum s, x\<lparr>max_sendWindow := 0\<rparr>))"

definition woven_getReceiveWindow :: "tcp_env \<Rightarrow> tcp_socket \<Rightarrow> u16" where
  "woven_getReceiveWindow E s =
     (let window = getReceiveWindow E s
      in if state s \<noteq> SYNSENT \<and> state s \<noteq> CLOSED \<and> ucast window * 2 < maxReceiveWindow_Bytes s \<and> ucast window < mss s
         then 0 else window)"

text \<open>Reading data opens the window again; then an acknowledgement tells the peer.\<close>

definition woven_recv_copy :: "tcp_env \<Rightarrow> u32 \<Rightarrow> tcp_socket \<Rightarrow> tcp_socket outcome" where
  "woven_recv_copy E len s =
     (let receiveWindowClosed = (woven_getReceiveWindow E s = 0)
      in obind (recv_copy E len s) (\<lambda>s.
           if receiveWindowClosed \<and> woven_getReceiveWindow E s \<noteq> 0 then obind (sendACK_now E s) (\<lambda>(_, s). Inr s) else Inr s))"

subsection \<open>The maximum segment size option\<close>

definition MSS_OPTION_BYTES :: nat where "MSS_OPTION_BYTES = 4"

text \<open>The data of a segment start with its options; the value is written and read through the advice of
  \<^verbatim>\<open>Little_Endian.ah\<close>, also when it has eight bits.\<close>

definition set_option_mss :: "u16 \<Rightarrow> tcp_segment \<Rightarrow> tcp_segment outcome" where
  "set_option_mss v seg =
     obind (poke_all (unat (get_options_len seg)) ([2, 4] @ store16 (htons v)) (seg_data seg))
       (\<lambda>data. Inr (set_header_len (get_header_len seg + 1) (seg\<lparr>seg_data := data\<rparr>)))"

text \<open>The loop need not end: an option of length zero is never left.\<close>

partial_function (option) find_option_mss :: "u8 list \<Rightarrow> nat \<Rightarrow> nat \<Rightarrow> u16 outcome option" where
  "find_option_mss data opt_len i =
     (if i < opt_len
      then case peek data i of
             Inl e \<Rightarrow> Some (Inl e)
           | Inr kind \<Rightarrow>
               if kind = 0 then Some (Inr 0)
               else if kind = 1 then find_option_mss data opt_len (i + 1)
               else case peek data (i + 1) of
                      Inl e \<Rightarrow> Some (Inl e)
                    | Inr len \<Rightarrow>
                        if kind = 2
                        then if len \<ge> 4
                             then Some (obind (peek_all data (i + 2) 2) (\<lambda>d. Inr (load16 (d ! 0) (d ! 1))))
                             else Some (obind (peek data (i + 2)) (\<lambda>d. Inr (ucast d)))
                        else find_option_mss data opt_len (i + unat len)
      else Some (Inr 0))"

definition get_option_mss :: "tcp_segment \<Rightarrow> u16 outcome option" where
  "get_option_mss seg =
     map_option (\<lambda>r. obind r (\<lambda>v. Inr (ntohs v))) (find_option_mss (seg_data seg) (unat (get_options_len seg)) 0)"

text \<open>\<open>headersize\<close> is what \<^verbatim>\<open>estimateSendBufferMinSize\<close>, \<open>memsize\<close> what the pool and \<open>mtusize\<close> what \<^verbatim>\<open>getMTU\<close> gives.\<close>

definition recalculate_mss :: "u32 \<Rightarrow> u32 \<Rightarrow> u32 \<Rightarrow> woven_socket \<Rightarrow> woven_socket" where
  "recalculate_mss headersize memsize mtusize =
     woven_setMSS (if memsize < mtusize then memsize - headersize else mtusize - headersize)"

definition accept_remote_mss :: "tcp_segment \<Rightarrow> woven_socket \<Rightarrow> woven_socket outcome option" where
  "accept_remote_mss seg w =
     (if \<not> has_SYN seg then Some (Inr w)
      else map_option (\<lambda>r. obind r (\<lambda>recv_mss.
             Inr (if recv_mss \<noteq> 0 \<and> ucast recv_mss < mss (fst w) then woven_setMSS (ucast recv_mss) w else w)))
           (get_option_mss seg))"

subsection \<open>The congestion window\<close>

lemma saturating_add:
  "unat (if (c :: u32) + d < c then 0xFFFFFFFF else c + d) = min (unat c + unat d) 0xFFFFFFFF"
proof (cases "unat c + unat d < 4294967296")
  case True
  then have "unat (c + d) = unat c + unat d" by (simp add: unat_add_u32)
  then show ?thesis using True by (simp add: word_less_nat_alt)
next
  case False
  then have "unat (c + d) = unat c + unat d - 4294967296"
    using unat_u32_less [of c] unat_u32_less [of d] by (simp add: unat_word_ariths le_mod_geq del: unat_u32_less)
  then have "c + d < c" using unat_u32_less [of d] False by (simp add: word_less_nat_alt del: unat_u32_less)
  then show ?thesis using False by simp
qed

lemma u32_max: "(a :: u32) \<le> 0xFFFFFFFF"
  using unat_u32_less [of a] by (simp add: word_le_nat_alt del: unat_u32_less)

text \<open>An acknowledgement lets the congestion window grow by the bytes it acknowledges in slow start and by one segment
  per window in congestion avoidance, up to the largest number: the product that a comment in the code is worried about does not
  overflow while the maximum segment size has 16 bits.\<close>

theorem congestion_window_growth:
  assumes "unat m < 65536"
  shows "unat (cwnd (increment_cwnd m acked x)) =
    min (unat (cwnd x) + (if cwnd x \<le> sstresh x then unat acked else unat acked * unat m div unat (cwnd x))) 0xFFFFFFFF"
proof -
  have "unat acked * unat m \<le> 65535 * 65535" using assms less_Suc_eq_le [of "unat acked" 65535] by (intro mult_mono) simp_all
  then have prod: "unat (ucast acked * m :: u32) = unat acked * unat m" by (simp add: unat_word_ariths)
  then have quot: "unat ((ucast acked * m) div cwnd x) = unat acked * unat m div unat (cwnd x)" by (simp add: unat_div)
  show ?thesis
  proof (cases "cwnd x \<le> sstresh x")
    case True
    then show ?thesis using saturating_add [of "cwnd x" "ucast acked"] by (simp add: increment_cwnd_def Let_def del: if_split)
  next
    case False
    then show ?thesis using saturating_add [of "cwnd x" "(ucast acked * m) div cwnd x"] by (simp add: increment_cwnd_def Let_def quot del: if_split)
  qed
qed

definition witness_slices :: tcp_slices where
  "witness_slices =
     \<lparr>cwnd = 14600, sstresh = 2920, outstanding_bytes = 0, retransmitting = False, rtt_seqnum = 0, rrt_time = 0,
      rrt_active = False, srtt = 0, rtt_var = 0, rto = 6000, max_sendWindow = 0\<rparr>"

theorem congestion_window_growth_witness: "unat (cwnd (increment_cwnd 1460 1000 witness_slices)) = 14700"
  using congestion_window_growth [of 1460 1000 witness_slices] by (simp add: witness_slices_def)

text \<open>What can happen to the variables of slow start on a connection with maximum segment size \<open>m\<close>.\<close>

inductive congestion_step :: "u32 \<Rightarrow> tcp_slices \<Rightarrow> tcp_slices \<Rightarrow> bool" for m where
  acknowledged: "congestion_step m x (increment_cwnd m acked (forget_acked acked x))"
| sent: "cwnd_opened x \<Longrightarrow> congestion_step m x (x\<lparr>outstanding_bytes := outstanding_bytes x + n\<rparr>)"
| lost: "congestion_step m x (drop_cwnd m x)"
| all_acknowledged: "congestion_step m x (x\<lparr>outstanding_bytes := 0\<rparr>)"

inductive_cases congestion_stepE: "congestion_step m x y"

definition congestion_ok :: "u32 \<Rightarrow> tcp_slices \<Rightarrow> bool" where
  "congestion_ok m x \<longleftrightarrow> m \<le> cwnd x \<and> 2 * m \<le> sstresh x"

lemma increment_cwnd_mono: "cwnd x \<le> cwnd (increment_cwnd m acked x)"
  using u32_max by (auto simp: increment_cwnd_def Let_def not_less)

lemma congestion_step_ok: "congestion_step m x y \<Longrightarrow> congestion_ok m x \<Longrightarrow> congestion_ok m y"
proof (erule congestion_stepE)
  fix acked
  assume "congestion_ok m x" and y: "y = increment_cwnd m acked (forget_acked acked x)"
  then show "congestion_ok m y"
    using increment_cwnd_mono [of "forget_acked acked x" m acked]
    by (auto simp: congestion_ok_def forget_acked_def increment_cwnd_def Let_def)
qed (auto simp: congestion_ok_def drop_cwnd_def Let_def)

text \<open>On every run of a connection the congestion window holds at least one full segment and the threshold at least two, so with nothing
  outstanding the sender may always send: congestion control slows a connection down but never stops it.\<close>

theorem congestion_window_never_closes:
  assumes "(congestion_step m)\<^sup>*\<^sup>* (initSlowStart m x) y" and "0 < unat m" and "unat m < 2 ^ 31"
  shows "m \<le> cwnd y \<and> 2 * m \<le> sstresh y \<and> (outstanding_bytes y = 0 \<longrightarrow> cwnd_opened y)"
proof -
  have "congestion_ok m y" using assms(1)
  proof induction
    case base
    show ?case using u32_max by (simp add: congestion_ok_def initSlowStart_def)
  next
    case (step y z)
    then show ?case by (simp add: congestion_step_ok)
  qed
  then show ?thesis using assms(2) by (auto simp: congestion_ok_def cwnd_opened_def word_le_nat_alt word_less_nat_alt)
qed

theorem congestion_window_never_closes_witness:
  "let x = increment_cwnd 1460 1000 (forget_acked 1000 (initSlowStart 1460 witness_slices)); y = drop_cwnd 1460 x
   in 1460 \<le> cwnd y \<and> cwnd_opened y"
proof -
  let ?x = "increment_cwnd 1460 1000 (forget_acked 1000 (initSlowStart 1460 witness_slices))"
  have "(congestion_step 1460)\<^sup>*\<^sup>* (initSlowStart 1460 witness_slices) (drop_cwnd 1460 ?x)"
    by (rule rtranclp_trans [OF r_into_rtranclp r_into_rtranclp]) (rule acknowledged, rule lost)
  moreover have "outstanding_bytes (drop_cwnd 1460 ?x) = 0" by code_simp
  ultimately show ?thesis using congestion_window_never_closes [of 1460 witness_slices "drop_cwnd 1460 ?x"] by simp
qed

subsection \<open>The estimate of the round trip time\<close>

lemma i32_id: "- 2147483648 \<le> v \<Longrightarrow> v < 2147483648 \<Longrightarrow> i32 v = v"
  by (simp add: i32_def signed_take_bit_int_eq_self)

definition rtt_ok :: "int \<Rightarrow> tcp_slices \<Rightarrow> bool" where
  "rtt_ok M x \<longleftrightarrow> 0 \<le> srtt x \<and> srtt x \<le> 8 * M \<and> (srtt x \<noteq> 0 \<longrightarrow> 0 \<le> rtt_var x \<and> rtt_var x \<le> 4 * M)"

definition next_srtt :: "int \<Rightarrow> tcp_slices \<Rightarrow> int" where
  "next_srtt m x = (if srtt x = 0 then 8 * m else srtt x - srtt x div 8 + m)"

definition next_var :: "int \<Rightarrow> tcp_slices \<Rightarrow> int" where
  "next_var m x = (if srtt x = 0 then 2 * m else rtt_var x - rtt_var x div 4 + \<bar>m - srtt x div 8\<bar>)"

definition next_rto :: "int \<Rightarrow> tcp_slices \<Rightarrow> int" where
  "next_rto m x = (if srtt x = 0 then 5 * m else next_srtt m x div 8 + next_var m x)"

lemma next_bounds:
  assumes "rtt_ok M x" and "0 \<le> m" and "m \<le> M"
  shows "0 \<le> next_srtt m x" and "next_srtt m x \<le> 8 * M" and "0 \<le> next_var m x" and "next_var m x \<le> 4 * M"
    and "0 \<le> next_rto m x" and "next_rto m x \<le> 5 * M"
proof -
  show s: "0 \<le> next_srtt m x" "next_srtt m x \<le> 8 * M" using assms by (auto simp: next_srtt_def rtt_ok_def)
  have three: "v - v div 4 \<le> 3 * M" "v div 4 \<le> v" if "0 \<le> v" "v \<le> 4 * M" for v using that by presburger+
  have "\<bar>m - srtt x div 8\<bar> \<le> M" using assms by (auto simp: rtt_ok_def)
  then show v: "0 \<le> next_var m x" "next_var m x \<le> 4 * M"
    using assms three [of "rtt_var x"] by (auto simp: next_var_def rtt_ok_def)
  show "0 \<le> next_rto m x" "next_rto m x \<le> 5 * M" using s v assms(2,3) by (auto simp: next_rto_def)
qed

text \<open>No step of the computation leaves the 32 bits.\<close>

lemma update_SRTT_exact:
  assumes "rtt_ok M x" and "0 \<le> m" and "m \<le> M" and "M < 268435456"
  shows "update_SRTT m x = x\<lparr>srtt := next_srtt m x, rtt_var := next_var m x, rto := word_of_int (next_rto m x)\<rparr>"
proof (cases "srtt x = 0")
  case True
  then show ?thesis using assms by (simp add: update_SRTT_def next_srtt_def next_var_def next_rto_def push_bit_eq_mult i32_id Let_def)
next
  case False
  then have b: "0 \<le> srtt x" "srtt x \<le> 8 * M" "0 \<le> rtt_var x" "rtt_var x \<le> 4 * M" using assms(1) by (auto simp: rtt_ok_def)
  note n = next_bounds [OF assms(1-3)]
  define err where "err = m - srtt x div 8"
  have e: "- M \<le> err" "err \<le> M" using b assms(2,3) by (auto simp: err_def)
  have e1: "i32 err = err" using e assms(4) by (intro i32_id) auto
  have e2: "(if err < 0 then i32 (- err) else err) = \<bar>err\<bar>" using e assms(4) by (auto simp: i32_id)
  have s: "i32 (srtt x + err) = next_srtt m x" using n(1,2) False assms(4) by (subst i32_id) (auto simp: next_srtt_def err_def)
  have v: "i32 (rtt_var x + i32 (\<bar>err\<bar> - rtt_var x div 4)) = next_var m x"
  proof -
    have "i32 (\<bar>err\<bar> - rtt_var x div 4) = \<bar>err\<bar> - rtt_var x div 4" using e b assms(4) by (intro i32_id) auto
    then show ?thesis using n(3,4) False assms(4) by (simp only:) (subst i32_id; auto simp: next_var_def err_def)
  qed
  have r: "i32 (next_srtt m x div 8 + next_var m x) = next_rto m x" using n(5,6) False assms(4) by (subst i32_id) (auto simp: next_rto_def)
  show ?thesis using False
    by (simp add: update_SRTT_def Let_def drop_bit_eq_div err_def [symmetric] e1 e2 s v r)
qed

lemma take_measurement_exact:
  assumes "rtt_ok M x" and "uint r \<le> M" and "M < 268435456"
  shows "take_measurement r x =
    x\<lparr>srtt := next_srtt (uint r) x, rtt_var := next_var (uint r) x, rto := word_of_int (max 200 (next_rto (uint r) x))\<rparr>"
    and "uint (rto (take_measurement r x)) = max 200 (next_rto (uint r) x)" and "rtt_ok M (take_measurement r x)"
proof -
  have "(0x7FFFFFFF :: u32) = mask 31" by (simp add: mask_eq_exp_minus_1)
  then have "r AND 0x7FFFFFFF = take_bit 31 r" by (simp add: take_bit_eq_mask)
  then have u: "uint (r AND 0x7FFFFFFF) = uint r" using assms(2,3) by (simp add: unsigned_take_bit_eq take_bit_int_eq_self)
  note n = next_bounds [OF assms(1) _ assms(2)]
  have w: "uint (word_of_int (next_rto (uint r) x) :: u32) = next_rto (uint r) x"
    using n(5,6) assms(3) by (simp add: unsigned_of_int take_bit_int_eq_self)
  have lt: "word_of_int (next_rto (uint r) x) < LOWER_RTO_BOUND \<longleftrightarrow> next_rto (uint r) x < 200"
    by (simp add: LOWER_RTO_BOUND_def word_less_def w)
  show 1: "take_measurement r x =
    x\<lparr>srtt := next_srtt (uint r) x, rtt_var := next_var (uint r) x, rto := word_of_int (max 200 (next_rto (uint r) x))\<rparr>"
    using update_SRTT_exact [OF assms(1) _ assms(2,3)] by (simp add: take_measurement_def u Let_def lt) (simp add: LOWER_RTO_BOUND_def max_def)
  show "uint (rto (take_measurement r x)) = max 200 (next_rto (uint r) x)"
    using n(5,6) assms(3) by (simp add: 1 unsigned_of_int take_bit_int_eq_self)
  show "rtt_ok M (take_measurement r x)" using n by (simp add: 1 rtt_ok_def)
qed

text \<open>The computation of the retransmission timeout stays within its 32 bits: as long as every measured round trip takes less than
  \<open>M\<close> milliseconds (below three days), the timeout is at least 200 milliseconds and at most \<open>5 * M\<close>.\<close>

theorem rto_bounded:
  assumes "\<forall>r\<in>set rs. uint r \<le> M" and "rs \<noteq> []" and "40 \<le> M" and "M < 268435456"
  shows "200 \<le> uint (rto (fold take_measurement rs (rtt_init x))) \<and> uint (rto (fold take_measurement rs (rtt_init x))) \<le> 5 * M"
proof -
  have ok: "rtt_ok M (fold take_measurement rs x)" if "rtt_ok M x" "\<forall>r\<in>set rs. uint r \<le> M" for rs x
    using that by (induction rs arbitrary: x) (simp_all add: take_measurement_exact(3) assms(4))
  obtain rs' r where rs: "rs = rs' @ [r]" using assms(2) by (metis rev_exhaust)
  have "rtt_ok M (rtt_init x)" using assms(3) by (simp add: rtt_ok_def rtt_init_def)
  then have o': "rtt_ok M (fold take_measurement rs' (rtt_init x))" using assms(1) rs by (intro ok) auto
  have r: "uint r \<le> M" using assms(1) rs by simp
  show ?thesis using take_measurement_exact(2) [OF o' r assms(4)] next_bounds(6) [OF o' _ r] assms(3) by (simp add: rs)
qed

theorem rto_bounded_witness:
  "200 \<le> uint (rto (fold take_measurement [30, 2000, 90] (rtt_init witness_slices))) \<and>
   uint (rto (fold take_measurement [30, 2000, 90] (rtt_init witness_slices))) \<le> 10000"
  using rto_bounded [of "[30, 2000, 90]" 2000 witness_slices] by simp

lemma settle_step: "0 \<le> v \<Longrightarrow> v \<le> max 3 k \<Longrightarrow> v - v div 4 \<le> max 3 (k - 1) \<and> v div 4 \<le> (v :: int)"
  by (cases "v \<le> 3") auto

lemma measure_again: "fold take_measurement (replicate (Suc n) r) x = take_measurement r (fold take_measurement (replicate n r) x)"
  by (simp add: replicate_append_same [symmetric])

lemma rtt_settles:
  assumes "1 \<le> uint r" and "uint r < 268435456"
  shows "srtt (fold take_measurement (replicate (Suc n) r) (rtt_init x)) = 8 * uint r \<and>
    0 \<le> rtt_var (fold take_measurement (replicate (Suc n) r) (rtt_init x)) \<and>
    rtt_var (fold take_measurement (replicate (Suc n) r) (rtt_init x)) \<le> max 3 (2 * uint r - int n) \<and>
    rtt_ok (uint r) (fold take_measurement (replicate (Suc n) r) (rtt_init x))"
proof (induction n)
  case 0
  have "rtt_ok (uint r) (rtt_init x)" by (simp add: rtt_ok_def rtt_init_def)
  then show ?case using take_measurement_exact(1,3) [of "uint r" "rtt_init x" r] assms
    by (simp add: next_srtt_def next_var_def rtt_init_def)
next
  case (Suc n)
  define y where "y = fold take_measurement (replicate (Suc n) r) (rtt_init x)"
  have f: "fold take_measurement (replicate (Suc (Suc n)) r) (rtt_init x) = take_measurement r y"
    unfolding y_def by (rule measure_again)
  have y: "srtt y = 8 * uint r" "0 \<le> rtt_var y" "rtt_var y \<le> max 3 (2 * uint r - int n)" "rtt_ok (uint r) y"
    using Suc by (simp_all only: y_def [symmetric])
  then show ?case using take_measurement_exact(1,3) [OF y(4) order_refl assms(2)] settle_step [OF y(2,3)] assms(1) unfolding f
    by (simp add: next_srtt_def next_var_def algebra_simps)
qed

text \<open>When the round trip time is constant, the retransmission timeout converges to it: after at most twice as many measurements as
  the round trip has milliseconds it exceeds it by at most three (but is never below 200).\<close>

theorem rto_converges:
  assumes "1 \<le> uint r" and "uint r < 268435456" and "2 * uint r < int n"
  shows "max 200 (uint r) \<le> uint (rto (fold take_measurement (replicate n r) (rtt_init x))) \<and>
    uint (rto (fold take_measurement (replicate n r) (rtt_init x))) \<le> max 200 (uint r + 3)"
proof -
  have "2 \<le> n" using assms(1,3) by linarith
  then obtain k where n: "n = Suc (Suc k)" by (metis add_2_eq_Suc le_Suc_ex)
  define y where "y = fold take_measurement (replicate (Suc k) r) (rtt_init x)"
  have f: "fold take_measurement (replicate n r) (rtt_init x) = take_measurement r y" unfolding y_def n by (rule measure_again)
  have y: "srtt y = 8 * uint r" "0 \<le> rtt_var y" "rtt_var y \<le> max 3 (2 * uint r - int k)" "rtt_ok (uint r) y"
    using rtt_settles [OF assms(1,2), of k x] by (simp_all only: y_def)
  have "next_rto (uint r) y \<le> uint r + 3" "uint r \<le> next_rto (uint r) y"
    using settle_step [OF y(2,3)] y(1,2) assms n by (auto simp: next_rto_def next_srtt_def next_var_def)
  then show ?thesis unfolding f take_measurement_exact(2) [OF y(4) order_refl assms(2)] by linarith
qed

theorem rto_converges_witness:
  "uint (rto (fold take_measurement (replicate 701 350) (rtt_init witness_slices))) \<in> {350..353}"
  using rto_converges [of 350 701 witness_slices] by simp

subsection \<open>The advice on a socket\<close>

lemma woven_retransmit_slices:
  "woven_retransmit E r w = (r', (s', x')) \<Longrightarrow>
     x' = snd w\<lparr>outstanding_bytes := outstanding_bytes x'\<rparr> \<or>
     x' = snd (setRetransmitting w)\<lparr>outstanding_bytes := outstanding_bytes x'\<rparr>"
  by (cases w) (auto simp: woven_retransmit_def Let_def setRetransmitting_def split: if_splits prod.splits)

text \<open>What a connection does to the pair: everything with advice, and any change of the socket itself.\<close>

inductive woven_step :: "woven_socket \<Rightarrow> woven_socket \<Rightarrow> bool" where
  acknowledge: "woven_step w (woven_handleACK E acknum w)"
| send: "woven_processSendData E w = Inr w' \<Longrightarrow> woven_step w w'"
| sweep: "woven_updateHistory E rt w = Inr w' \<Longrightarrow> woven_step w w'"
| set_mss: "woven_step w (woven_setMSS m w)"
| new_window: "woven_step w (woven_updateSendWindow seg seqnum acknum w)"
| first_window: "woven_step w (woven_initSendWindow window seqnum acknum w)"
| socket: "woven_step (s, x) (s', x)"

inductive_cases woven_stepE: "woven_step w w'"

definition unmeasured :: "tcp_slices \<Rightarrow> bool" where
  "unmeasured x \<longleftrightarrow> \<not> rrt_active x \<and> srtt x = 0 \<and> rto x \<in> {6000, 12000, 24000, 48000, 96000, 64000}"

lemma unmeasured_simps [simp]:
  "unmeasured (x\<lparr>outstanding_bytes := n\<rparr>) = unmeasured x" "unmeasured (x\<lparr>retransmitting := b\<rparr>) = unmeasured x"
  "unmeasured (x\<lparr>max_sendWindow := v\<rparr>) = unmeasured x" "unmeasured (x\<lparr>cwnd := c\<rparr>) = unmeasured x"
  "unmeasured (drop_cwnd m x) = unmeasured x" "unmeasured (initSlowStart m x) = unmeasured x"
  "unmeasured (increment_cwnd m a x) = unmeasured x" "unmeasured (forget_acked a x) = unmeasured x"
  by (simp_all add: unmeasured_def drop_cwnd_def initSlowStart_def increment_cwnd_def forget_acked_def Let_def)

lemma unmeasured_update: "unmeasured x \<Longrightarrow> update_RTT_Estimation E acknum x = x"
  by (simp add: unmeasured_def update_RTT_Estimation_def)

lemma unmeasured_abort: "unmeasured x \<Longrightarrow> unmeasured (abort_RTT_Estimation x)"
  by (auto simp: unmeasured_def abort_RTT_Estimation_def back_off_def UPPER_RTO_BOUND_def push_bit_eq_mult)

lemma unmeasured_setRetransmitting: "unmeasured (snd w) \<Longrightarrow> unmeasured (snd (setRetransmitting w))"
  by (cases w) (simp add: setRetransmitting_def Let_def unmeasured_abort)

lemma unmeasured_retransmit: "unmeasured (snd w) \<Longrightarrow> woven_retransmit E r w = (r', w') \<Longrightarrow> unmeasured (snd w')"
  using woven_retransmit_slices [of E r w r' "fst w'" "snd w'"] unmeasured_setRetransmitting [of w]
  by (metis prod.collapse unmeasured_simps(1))

lemma unmeasured_sweep: "unmeasured (snd w) \<Longrightarrow> yields (woven_sweep E rt rs w) (\<lambda>(rs', w'). unmeasured (snd w'))"
proof (induction rs arbitrary: w)
  case Nil
  then show ?case by simp
next
  case (Cons r rs)
  show ?case
  proof (cases "record_done E (seqnum_unacked (fst w)) r")
    case True
    then show ?thesis using Cons by (auto intro!: yields_obind [where Q = "\<lambda>_. True"] simp: yields_def [of _ "\<lambda>_. True"])
  next
    case False
    obtain r' w' where w': "(if rt \<and> isTimedOut (env_now E) r then woven_retransmit E r w else (r, w)) = (r', w')" by (metis surj_pair)
    then have "unmeasured (snd w')" using Cons.prems unmeasured_retransmit [of w E r r' w'] by (auto split: if_splits)
    then have "yields (woven_sweep E rt rs w') (\<lambda>(rs', w'). unmeasured (snd w'))" by (rule Cons.IH)
    then show ?thesis using False w' by (auto intro!: yields_obind)
  qed
qed

lemma sendSegment_slices:
  "yields (woven_sendSegment E len (s, x)) (\<lambda>(ok, w). snd w = x \<or> snd w = x\<lparr>outstanding_bytes := outstanding_bytes x + ucast len\<rparr>)"
  unfolding woven_sendSegment_def prod.case
  by (rule yields_obind [where Q = "\<lambda>_. True"])
    (auto simp: yields_def Let_def woven_lowerSendWindow_def obind_def split: option.splits if_splits sum.splits prod.splits)

lemma unmeasured_sendSegment: "unmeasured (snd w) \<Longrightarrow> yields (woven_sendSegment E len w) (\<lambda>(ok, w'). unmeasured (snd w'))"
  by (cases w) (auto intro!: yields_mono [OF sendSegment_slices])

lemma unmeasured_send_loop: "unmeasured (snd w) \<Longrightarrow> yields (woven_send_loop n E w) (\<lambda>w'. unmeasured (snd w'))"
proof (induction n E w rule: woven_send_loop.induct)
  case (2 n E w)
  have "yields (woven_sendNextSegment E w) (\<lambda>(ok, w'). unmeasured (snd w'))"
    using 2(2) by (cases w) (simp add: woven_sendNextSegment_def unmeasured_sendSegment)
  then show ?case using 2 by (auto intro!: yields_obind)
qed simp

lemma unmeasured_updateHistory:
  assumes "unmeasured (snd w)"
  shows "yields (woven_updateHistory E rt w) (\<lambda>w'. unmeasured (snd w'))"
proof (cases w)
  case (Pair s x)
  have u: "unmeasured (snd (if history s = [] then clearRetransmitting (s, x) else (s, x)))"
    using assms by (simp add: Pair clearRetransmitting_def)
  have "yields (obind (woven_sweep E rt (history s) (if history s = [] then clearRetransmitting (s, x) else (s, x)))
      (\<lambda>(rs, (s, x)). Inr (s\<lparr>history := rs\<rparr>, x))) (\<lambda>w'. unmeasured (snd w'))"
    by (rule yields_obind [OF unmeasured_sweep [OF u]]) auto
  moreover have "yields (obind (clearHistory E s) (\<lambda>s. Inr (s, x))) (\<lambda>w'. unmeasured (snd w'))"
    using assms by (intro yields_obind [where Q = "\<lambda>_. True"]) (simp_all add: Pair yields_def [of _ "\<lambda>_. True"])
  ultimately show ?thesis by (simp add: woven_updateHistory_def Pair)
qed

lemma unmeasured_step: "woven_step w w' \<Longrightarrow> unmeasured (snd w) \<Longrightarrow> unmeasured (snd w')"
proof (erule woven_stepE)
  fix E acknum
  assume "unmeasured (snd w)" and "w' = woven_handleACK E acknum w"
  then show "unmeasured (snd w')"
    by (cases w) (simp add: woven_handleACK_def woven_set_seqnum_unacked_def Let_def unmeasured_update)
next
  fix E
  assume u: "unmeasured (snd w)" and "woven_processSendData E w = Inr w'"
  moreover have "yields (woven_processSendData E w) (\<lambda>w'. unmeasured (snd w'))"
    unfolding woven_processSendData_def using u unmeasured_send_loop [OF u] yields_obind [OF unmeasured_sendSegment [OF u, of E 1], of "\<lambda>(_, w). Inr w" "\<lambda>w'. unmeasured (snd w')"]
    by (simp add: split_beta del: woven_send_loop.simps)
  ultimately show "unmeasured (snd w')" by (auto dest: yieldsD)
next
  fix E rt
  assume "unmeasured (snd w)" and "woven_updateHistory E rt w = Inr w'"
  then show "unmeasured (snd w')" using unmeasured_updateHistory [of w E rt] by (auto dest: yieldsD)
qed (auto simp: woven_setMSS_def woven_updateSendWindow_def woven_initSendWindow_def Let_def split: prod.splits)

text \<open>The round trip time is never measured. The advice that starts a measurement is bound to calls of \<open>send\<close> in
  \<open>sendNextSegment\<close>, but the call is in \<open>sendSegment\<close>: whatever a connection does, the timeout keeps its first value of
  six seconds, except that losses double it, up to 96 seconds, beyond the bound of 64.\<close>

theorem rtt_never_measured:
  assumes "woven_step\<^sup>*\<^sup>* (woven_gen_initial_seqnum E w) w'"
  shows "\<not> rrt_active (snd w') \<and> srtt (snd w') = 0 \<and> rto (snd w') \<in> {6000, 12000, 24000, 48000, 96000, 64000}"
proof -
  have "unmeasured (snd w')" using assms
  proof induction
    case base
    show ?case by (cases w) (simp add: woven_gen_initial_seqnum_def unmeasured_def rtt_init_def)
  next
    case (step y z)
    then show ?case using unmeasured_step by blast
  qed
  then show ?thesis by (simp add: unmeasured_def)
qed

theorem rtt_never_measured_witness:
  "\<forall>E acknum w. \<not> rrt_active (snd (woven_handleACK E acknum (woven_gen_initial_seqnum E w)))"
  using rtt_never_measured [OF r_into_rtranclp [of woven_step, OF acknowledge]] by blast

subsection \<open>How much slow start lets out\<close>

text \<open>The slices after data were sent: \<open>outstanding_bytes\<close> counts them, and slow start allows less than its window and one
  segment.\<close>

definition flight :: "woven_socket \<Rightarrow> woven_socket \<Rightarrow> bool" where
  "flight w w' \<longleftrightarrow> mss (fst w') = mss (fst w) \<and> cwnd (snd w') = cwnd (snd w) \<and>
     unat (outstanding_bytes (snd w)) \<le> unat (outstanding_bytes (snd w')) \<and>
     unat (outstanding_bytes (snd w')) \<le> max (unat (outstanding_bytes (snd w))) (unat (cwnd (snd w)) + unat (mss (fst w)) - 1) \<and>
     seqnum_next (fst w') - seqnum_next (fst w) = ucast (outstanding_bytes (snd w') - outstanding_bytes (snd w))"

lemma flight_refl: "flight w w"
  by (simp add: flight_def)

lemma flight_trans: "flight w w1 \<Longrightarrow> flight w1 w2 \<Longrightarrow> flight w w2"
proof -
  assume a: "flight w w1" "flight w1 w2"
  let ?o = "\<lambda>w. outstanding_bytes (snd w)"
  have le: "unat (?o w) \<le> unat (?o w1)" "unat (?o w1) \<le> unat (?o w2)" using a by (simp_all add: flight_def)
  have n: "seqnum_next (fst w2) - seqnum_next (fst w) = ucast (?o w1 - ?o w) + ucast (?o w2 - ?o w1)"
    using a by (simp add: flight_def algebra_simps)
  have "unat (ucast (?o w1 - ?o w) + ucast (?o w2 - ?o w1) :: u32) = unat (?o w1 - ?o w) + unat (?o w2 - ?o w1)"
    using unat_u16_less [of "?o w1 - ?o w"] unat_u16_less [of "?o w2 - ?o w1"] by (subst unat_add_u32) (simp_all del: unat_u16_less)
  also have "\<dots> = unat (ucast (?o w2 - ?o w) :: u32)" using le by (simp add: unat_sub word_le_nat_alt)
  finally have "(ucast (?o w1 - ?o w) + ucast (?o w2 - ?o w1) :: u32) = ucast (?o w2 - ?o w)" by (rule word_unat_eq_iff [THEN iffD2])
  then show ?thesis using a n by (auto simp: flight_def)
qed

lemma woven_sendSegment_flight:
  assumes "sendWindow s \<noteq> 0" and "unat len \<le> unat (mss s)" and "cwnd_opened x" and "unat (cwnd x) + unat (mss s) \<le> 65535"
  shows "yields (woven_sendSegment E len (s, x)) (\<lambda>(ok, w). flight (s, x) w)"
  unfolding woven_sendSegment_def prod.case
proof (rule yields_obind [OF frame_request])
  fix bs :: "nat option \<times> tcp_socket"
  assume f: "case bs of (b, s') \<Rightarrow> frame s s'"
  have o: "unat (outstanding_bytes x) < unat (cwnd x)" using assms(3) by (simp add: cwnd_opened_def word_less_nat_alt)
  have l: "unat (ucast len :: u16) = unat len" using assms(2,4) by (simp add: unsigned_ucast_eq take_bit_eq_mod)
  then have sum: "unat (outstanding_bytes x + ucast len) = unat (outstanding_bytes x) + unat len"
    using o assms(2,4) by (simp add: unat_word_ariths)
  have ul: "ucast (ucast len :: u16) = len" using l by (metis unat_ucast_u16_u32 word_unat_eq_iff)
  have sent: "flight (s, x) (s', x\<lparr>outstanding_bytes := outstanding_bytes x + ucast len\<rparr>)"
    if "seqnum_next s' = seqnum_next s + len" "mss s' = mss s" for s'
    using that o assms(2,4) by (auto simp: flight_def sum ul)
  show "yields (case bs of (None, s) \<Rightarrow> Inr (False, s, x)
      | (Some a, s) \<Rightarrow>
          if unat len \<le> length (application_buf s)
          then let seg = (writeHeaderWithAck E (getAckNum E s) s)\<lparr>seg_data := take (unat len) (application_buf s)\<rparr>;
                   s = s\<lparr>application_buflen := application_buflen s - len, application_buf := drop (unat len) (application_buf s)\<rparr>;
                   seg = (if application_buflen s = 0 then set_PSH seg else seg);
                   s = s\<lparr>seqnum_next := seqnum_next s + len\<rparr>;
                   (s, x) = (if sendWindow s \<noteq> 0 then woven_lowerSendWindow (ucast len) (s, x) else (s, x))
               in obind (emit E a seg (rto x) s) (\<lambda>s. Inr (True, s, x))
          else Inl OutOfBounds) (\<lambda>(ok, w). flight (s, x) w)"
  proof (cases bs)
    case (Pair b s1)
    then have f1: "frame s s1" using f by simp
    note ff = frame_fields [OF f1]
    show ?thesis
    proof (cases b)
      case None
      then show ?thesis using Pair ff by (simp add: flight_def)
    next
      case (Some a)
      have "yields (emit E a seg t s2) (\<lambda>s'. seqnum_next s' = seqnum_next s2 \<and> mss s' = mss s2)" for seg t s2
        by (rule yields_mono [OF frame_emit]) (simp add: frame_fields)
      then have "yields (obind (emit E a seg t s2) (\<lambda>s. Inr (True, s, x\<lparr>outstanding_bytes := outstanding_bytes x + ucast len\<rparr>))) (\<lambda>(ok, w). flight (s, x) w)"
        if "seqnum_next s2 = seqnum_next s + len" "mss s2 = mss s" for seg t s2
        by (rule yields_obind) (use that sent in simp)
      then show ?thesis using Pair Some ff assms(1) by (simp add: Let_def woven_lowerSendWindow_def lowerSendWindow_def)
    qed
  qed
qed

lemma min3_third: "min3 a b c \<le> c"
  by (auto simp: min3_def)

lemma woven_send_loop_flight:
  assumes "unat (cwnd (snd w)) + unat (mss (fst w)) \<le> 65535"
  shows "yields (woven_send_loop n E w) (flight w)"
  using assms
proof (induction n E w rule: woven_send_loop.induct)
  case (1 E w)
  then show ?case by (simp add: flight_refl)
next
  case (2 n E w)
  obtain s x where w: "w = (s, x)" by (cases w)
  show ?case
  proof (cases "application_buflen (fst w) > 0 \<and> woven_getSendWindow w > 0")
    case False
    then show ?thesis by (simp only: woven_send_loop.simps if_False yields_simps flight_refl)
  next
    case True
    then have o: "cwnd_opened x" "sendWindow s \<noteq> 0" by (auto simp: woven_getSendWindow_def w split: if_splits)
    have "yields (woven_sendNextSegment E w) (\<lambda>(ok, w'). flight w w')"
      using 2(2) o woven_sendSegment_flight [OF o(2) _ o(1)] min3_third
      by (simp add: woven_sendNextSegment_def w flight_refl word_le_nat_alt)
    then have "yields (obind (woven_sendNextSegment E w) (\<lambda>(ok, w'). if \<not> ok then Inr w' else woven_send_loop n E w')) (flight w)"
    proof (rule yields_obind)
      fix r :: "bool \<times> woven_socket"
      assume "case r of (ok, w') \<Rightarrow> flight w w'"
      then obtain ok w' where r: "r = (ok, w')" "flight w w'" by (cases r) auto
      then have "unat (cwnd (snd w')) + unat (mss (fst w')) \<le> 65535" using 2(2) by (simp add: flight_def)
      then have "yields (woven_send_loop n E w') (flight w')" if ok using 2(1) True r that by (cases w') auto
      then show "yields (case r of (ok, w') \<Rightarrow> if \<not> ok then Inr w' else woven_send_loop n E w') (flight w)"
        using r by (auto intro: yields_mono flight_trans)
    qed
    then show ?thesis using True by simp
  qed
qed

text \<open>C11: Slow start bounds the data in flight: while window and segment size fit in 16 bits together, one call of \<open>processSendData\<close> leaves less
  than the congestion window and one segment outstanding (or what was outstanding before, if that is more), and what it counts as
  outstanding is exactly what it sent.\<close>

theorem slow_start_bounds_flight:
  assumes "unat (cwnd x) + unat (mss s) \<le> 65535" and "sendWindow s \<noteq> 0" and "woven_processSendData E (s, x) = Inr (s', x')"
  shows "unat (outstanding_bytes x') \<le> max (unat (outstanding_bytes x)) (unat (cwnd x) + unat (mss s) - 1) \<and>
    unat (seqnum_next s' - seqnum_next s) = unat (outstanding_bytes x') - unat (outstanding_bytes x)"
proof -
  have "flight (s, x) (s', x')"
  proof (cases "application_buflen s = 0")
    case True
    then show ?thesis using assms(3) flight_refl by (simp add: woven_processSendData_def)
  next
    case False
    then have "woven_send_loop (Suc (unat (application_buflen s))) E (s, x) = Inr (s', x')"
      using assms(2,3) by (simp add: woven_processSendData_def del: woven_send_loop.simps)
    moreover have "yields (woven_send_loop (Suc (unat (application_buflen s))) E (s, x)) (flight (s, x))"
      using assms(1) by (intro woven_send_loop_flight) simp
    ultimately show ?thesis by (metis yieldsD)
  qed
  then show ?thesis by (simp add: flight_def unat_sub word_le_nat_alt)
qed

definition witness_sender_env :: tcp_env where
  "witness_sender_env = \<lparr>env_pool = BasicMempool_config 256 2 64 2, env_szsb = 16, env_szrb = 8, env_packet_limit = 4, env_hist_max = 3,
     env_recv_max = 3, env_sw_recv = True, env_now = 5, env_ms_to_ticks = ucast, env_ticks_to_ms = ucast, env_sent = (\<lambda>_. True),
     env_interface = True, env_estimate = 20, env_prepared = True, env_timeout = False\<rparr>"

definition witness_sender :: tcp_socket where
  "witness_sender = \<lparr>state = ESTABLISHED, receiving = False, application_recv_len = 0, receiveBuffer = TCP_ReceiveBuffer 0,
     maxReceiveWindow_MSS = 2, maxReceiveWindow_Bytes = 20, seqnum_unacked = 0, seqnum_next = 0, history = [], sendWindow = 100,
     lwack = 0, lwseq = 0, mempool = BasicMempool (BasicMempool_config 256 2 64 2) 0 1000, packetbuffer = [], FIN_received = False,
     FIN_seqnum = 0, ACK_triggered = False, dport = 0, sport = 0, mss = 4, application_buf = replicate 20 7, application_buflen = 20,
     application_data = [], waiting = False, wire = []\<rparr>"

lemma witness_sender_run:
  "case woven_processSendData witness_sender_env (witness_sender, initSlowStart 4 witness_slices) of
     Inl _ \<Rightarrow> False | Inr (s, x) \<Rightarrow> outstanding_bytes x = 4 \<and> seqnum_next s = 4 \<and> application_buflen s = 16"
  by code_simp

theorem slow_start_bounds_flight_witness:
  "\<exists>s x. woven_processSendData witness_sender_env (witness_sender, initSlowStart 4 witness_slices) = Inr (s, x) \<and>
     unat (outstanding_bytes x) \<le> 7 \<and> unat (seqnum_next s) = 4"
proof -
  obtain s x where r: "woven_processSendData witness_sender_env (witness_sender, initSlowStart 4 witness_slices) = Inr (s, x)"
      "outstanding_bytes x = 4"
    using witness_sender_run by (auto split: sum.splits)
  have i: "cwnd (initSlowStart 4 witness_slices) = 4" "outstanding_bytes (initSlowStart 4 witness_slices) = 0" "mss witness_sender = 4"
    "sendWindow witness_sender = 100" "seqnum_next witness_sender = 0"
    by (simp_all add: initSlowStart_def witness_sender_def)
  show ?thesis using slow_start_bounds_flight [OF _ _ r(1)] r i by simp
qed

subsection \<open>The advice is transparent while nothing limits it\<close>

definition without_slices :: "woven_socket outcome \<Rightarrow> tcp_socket outcome" where
  "without_slices m = obind m (\<lambda>(s, x). Inr s)"

definition unlimited :: "tcp_slices \<Rightarrow> bool" where
  "unlimited x \<longleftrightarrow> 65535 < unat (cwnd x) \<and> \<not> retransmitting x \<and> rto x = getRTO \<and> max_sendWindow x = 0"

lemma obind_obind: "obind (obind m f) g = obind m (\<lambda>x. obind (f x) g)"
  by (cases m) simp_all

lemma unlimited_window: "unlimited x \<Longrightarrow> woven_getSendWindow (s, x) = sendWindow s"
  using unat_u16_less [of "outstanding_bytes x"]
  by (simp add: unlimited_def woven_getSendWindow_def cwnd_opened_def word_less_nat_alt del: unat_u16_less)

lemma unlimited_sendSegment:
  assumes "unlimited x"
  shows "obind (woven_sendSegment E len (s, x)) (\<lambda>(ok, (s, x)). Inr (ok, s)) = sendSegment E len s"
proof -
  have "rto x = getRTO" using assms by (simp add: unlimited_def)
  then show ?thesis
    unfolding woven_sendSegment_def sendSegment_def prod.case obind_obind
    by (intro arg_cong [where f = "obind (requestSendBufferTCP E len s)"] ext)
      (auto simp: Let_def woven_lowerSendWindow_def obind_obind split: option.splits prod.splits)
qed

lemma unlimited_sendNextSegment:
  assumes "unlimited x"
  shows "obind (woven_sendNextSegment E (s, x)) (\<lambda>(ok, (s, x)). Inr (ok, s)) = sendNextSegment E s"
    and "yields (woven_sendNextSegment E (s, x)) (\<lambda>(ok, (s, x)). unlimited x)"
proof -
  have s: "woven_sendNextSegment E (s, x) = woven_sendSegment E (min3 (ucast (sendWindow s)) (application_buflen s) (mss s)) (s, x)"
    using assms unlimited_window [OF assms] by (simp add: woven_sendNextSegment_def unlimited_def word_less_nat_alt)
  show "obind (woven_sendNextSegment E (s, x)) (\<lambda>(ok, (s, x)). Inr (ok, s)) = sendNextSegment E s"
    unfolding s unlimited_sendSegment [OF assms] sendNextSegment_def by (rule refl)
  show "yields (woven_sendNextSegment E (s, x)) (\<lambda>(ok, (s, x)). unlimited x)"
    unfolding s by (rule yields_mono [OF sendSegment_slices]) (use assms in \<open>auto simp: unlimited_def\<close>)
qed

lemma unlimited_send_loop: "unlimited x \<Longrightarrow> without_slices (woven_send_loop n E (s, x)) = send_loop n E s"
proof (induction n arbitrary: s x)
  case 0
  then show ?case by (simp add: without_slices_def)
next
  case (Suc n)
  note w = unlimited_window [OF Suc.prems, of s]
  show ?case
  proof (cases "application_buflen s > 0 \<and> sendWindow s > 0")
    case False
    then show ?thesis by (cases "application_buflen s > 0") (simp_all add: w without_slices_def)
  next
    case True
    have "obind (woven_sendNextSegment E (s, x)) (\<lambda>r. without_slices (case r of (ok, w) \<Rightarrow> if \<not> ok then Inr w else woven_send_loop n E w)) =
        obind (woven_sendNextSegment E (s, x)) (\<lambda>r. case r of (ok, (s, x)) \<Rightarrow> if \<not> ok then Inr s else send_loop n E s)"
    proof (cases "woven_sendNextSegment E (s, x)")
      case (Inr r)
      then obtain ok s' x' where r: "r = (ok, (s', x'))" by (cases r) auto
      then have "unlimited x'" using unlimited_sendNextSegment(2) [OF Suc.prems, of E s] Inr by (auto dest: yieldsD)
      then show ?thesis using Suc.IH Inr r by (simp add: without_slices_def)
    qed simp
    also have "\<dots> = obind (sendNextSegment E s) (\<lambda>(ok, s). if \<not> ok then Inr s else send_loop n E s)"
      unfolding unlimited_sendNextSegment(1) [OF Suc.prems, symmetric] by (simp add: obind_obind split_beta)
    finally show ?thesis using True w by (simp add: without_slices_def obind_obind)
  qed
qed



subsection \<open>Silly windows\<close>

text \<open>The window a connection advertises is closed or worth sending to: at least a full segment or half of the buffer.\<close>

theorem no_silly_window:
  assumes "state s \<noteq> SYNSENT" and "state s \<noteq> CLOSED"
  shows "woven_getReceiveWindow E s = 0 \<or> mss s \<le> ucast (woven_getReceiveWindow E s) \<or>
    maxReceiveWindow_Bytes s \<le> 2 * ucast (woven_getReceiveWindow E s)"
  using assms by (auto simp: woven_getReceiveWindow_def Let_def not_less mult.commute)

subsection \<open>Reading the options of a segment\<close>

datatype tcp_option = No_Operation | Option u8 "u8 list"

fun option_bytes :: "tcp_option \<Rightarrow> u8 list" where
  "option_bytes No_Operation = [1]"
| "option_bytes (Option kind v) = kind # of_nat (length v + 2) # v"

fun option_ok :: "tcp_option \<Rightarrow> bool" where
  "option_ok No_Operation = True"
| "option_ok (Option kind v) = (kind \<noteq> 0 \<and> kind \<noteq> 1 \<and> length v < 254 \<and> (kind = 2 \<longrightarrow> v \<noteq> []))"

text \<open>The value of the first option of kind 2, as it lies in memory.\<close>

fun first_mss :: "tcp_option list \<Rightarrow> u16" where
  "first_mss [] = 0"
| "first_mss (No_Operation # os) = first_mss os"
| "first_mss (Option kind v # os) =
     (if kind = 2 then case v of b0 # b1 # _ \<Rightarrow> load16 b0 b1 | [b0] \<Rightarrow> ucast b0 | [] \<Rightarrow> 0 else first_mss os)"

definition options_bytes :: "tcp_option list \<Rightarrow> u8 list" where
  "options_bytes os = concat (map option_bytes os)"

lemma options_bytes_simps [simp]: "options_bytes [] = []" "options_bytes (x # os) = option_bytes x @ options_bytes os"
  by (simp_all add: options_bytes_def)

lemma peek_second: "peek (pre @ x0 # x1 # s) (length pre + 1) = Inr x1"
  by (simp add: peek_at)

lemma find_option_exact:
  assumes "list_all option_ok os"
  shows "find_option_mss (pre @ options_bytes os @ replicate n 0 @ rest) (length pre + length (options_bytes os) + n) (length pre) =
    Some (Inr (first_mss os))"
  using assms
proof (induction os arbitrary: pre)
  case Nil
  show ?case
  proof (cases n)
    case 0
    then show ?thesis by (subst find_option_mss.simps) simp
  next
    case (Suc m)
    then show ?thesis by (subst find_option_mss.simps) (simp add: peek_at)
  qed
next
  case (Cons x os)
  define d where "d = options_bytes os @ replicate n 0 @ rest"
  show ?case
  proof (cases x)
    case No_Operation
    have "find_option_mss (pre @ 1 # d) (length pre + Suc (length (options_bytes os)) + n) (length pre) =
        find_option_mss (pre @ 1 # d) (length pre + Suc (length (options_bytes os)) + n) (length pre + 1)"
      by (subst find_option_mss.simps) (simp add: peek_at)
    then show ?thesis using Cons.IH [of "pre @ [1]"] Cons.prems No_Operation by (simp add: d_def)
  next
    case (Option kind v)
    then have ok: "kind \<noteq> 0" "kind \<noteq> 1" "length v < 254" "kind = 2 \<Longrightarrow> v \<noteq> []" using Cons.prems by auto
    have l: "unat (of_nat (length v + 2) :: u8) = length v + 2" using ok(3) by (subst unat_of_nat_u8) simp_all
    let ?data = "pre @ kind # of_nat (length v + 2) # v @ d"
    let ?len = "length pre + Suc (Suc (length v + length (options_bytes os))) + n"
    have pk: "peek ?data (length pre) = Inr kind" "peek ?data (length pre + 1) = Inr (of_nat (length v + 2))"
      by (simp_all add: peek_at)
    have long: "(4 :: u8) \<le> of_nat (length v + 2) \<longleftrightarrow> 2 \<le> length v" using l by (simp add: word_le_nat_alt)
    have read: "find_option_mss ?data ?len (length pre) =
        (if kind = 2
         then if 2 \<le> length v then Some (obind (peek_all ?data (length pre + 2) 2) (\<lambda>d. Inr (load16 (d ! 0) (d ! 1))))
              else Some (obind (peek ?data (length pre + 2)) (\<lambda>d. Inr (ucast d)))
         else find_option_mss ?data ?len (length pre + (length v + 2)))"
      by (subst find_option_mss.simps) (simp add: pk [simplified] ok(1,2) l [simplified] long [simplified])
    show ?thesis
    proof (cases "kind = 2")
      case True
      then obtain b0 v' where v: "v = b0 # v'" using ok(4) by (cases v) auto
      show ?thesis using read True v Option by (cases v') (simp_all add: d_def peek_all_def peek_def nth_append)
    next
      case False
      then show ?thesis using read Cons.IH [of "pre @ kind # of_nat (length v + 2) # v"] Cons.prems Option by (simp add: d_def add.commute add.left_commute)
    qed
  qed
qed

text \<open>Options of other kinds are passed over, whatever follows them.\<close>

lemma find_option_prefix:
  assumes "list_all option_ok os" and "\<forall>v. Option 2 v \<notin> set os" and "length pre + length (options_bytes os) \<le> len"
  shows "find_option_mss (pre @ options_bytes os @ rest) len (length pre) =
    find_option_mss (pre @ options_bytes os @ rest) len (length pre + length (options_bytes os))"
  using assms
proof (induction os arbitrary: pre)
  case Nil
  then show ?case by simp
next
  case (Cons x os)
  define d where "d = options_bytes os @ rest"
  show ?case
  proof (cases x)
    case No_Operation
    have "find_option_mss (pre @ 1 # d) len (length pre) = find_option_mss (pre @ 1 # d) len (length pre + 1)"
      by (subst find_option_mss.simps) (use Cons.prems(3) No_Operation in \<open>simp add: peek_at\<close>)
    then show ?thesis using Cons.IH [of "pre @ [1]"] Cons.prems No_Operation by (simp add: d_def)
  next
    case (Option kind v)
    then have ok: "kind \<noteq> 0" "kind \<noteq> 1" "length v < 254" "kind \<noteq> 2" using Cons.prems by auto
    have l: "unat (of_nat (length v + 2) :: u8) = length v + 2" using ok(3) by (subst unat_of_nat_u8) simp_all
    let ?data = "pre @ kind # of_nat (length v + 2) # v @ d"
    have pk: "peek ?data (length pre) = Inr kind" "peek ?data (length pre + 1) = Inr (of_nat (length v + 2))"
      by (simp_all add: peek_at)
    have "find_option_mss ?data len (length pre) = find_option_mss ?data len (length pre + (length v + 2))"
      by (subst find_option_mss.simps) (use Cons.prems(3) Option in \<open>simp add: pk [simplified] ok l [simplified]\<close>)
    then show ?thesis using Cons.IH [of "pre @ kind # of_nat (length v + 2) # v"] Cons.prems Option
      by (simp add: d_def add.commute add.left_commute)
  qed
qed

lemma find_option_stuck:
  assumes "find_option_mss data opt_len i = Some r"
  shows "\<not> (i < opt_len \<and> i + 1 < length data \<and> data ! i \<notin> {0, 1, 2} \<and> data ! (i + 1) = 0)"
proof (rule find_option_mss.raw_induct [OF _ assms])
  fix f :: "u8 list \<Rightarrow> nat \<Rightarrow> nat \<Rightarrow> u16 outcome option" and data opt_len i r
  assume IH: "\<And>data opt_len i r. f data opt_len i = Some r \<Longrightarrow>
      \<not> (i < opt_len \<and> i + 1 < length data \<and> data ! i \<notin> {0, 1, 2} \<and> data ! (i + 1) = 0)"
    and r: "(if i < opt_len
      then case peek data i of Inl e \<Rightarrow> Some (Inl e)
           | Inr kind \<Rightarrow> if kind = 0 then Some (Inr 0) else if kind = 1 then f data opt_len (i + 1)
               else (case peek data (i + 1) of Inl e \<Rightarrow> Some (Inl e)
                    | Inr len \<Rightarrow> if kind = 2
                        then if len \<ge> 4 then Some (obind (peek_all data (i + 2) 2) (\<lambda>d. Inr (load16 (d ! 0) (d ! 1))))
                             else Some (obind (peek data (i + 2)) (\<lambda>d. Inr (ucast d)))
                        else f data opt_len (i + unat len))
      else Some (Inr 0)) = Some r"
  show "\<not> (i < opt_len \<and> i + 1 < length data \<and> data ! i \<notin> {0, 1, 2} \<and> data ! (i + 1) = 0)"
  proof
    assume a: "i < opt_len \<and> i + 1 < length data \<and> data ! i \<notin> {0, 1, 2} \<and> data ! (i + 1) = 0"
    then have pk: "peek data i = Inr (data ! i)" "peek data (i + 1) = Inr 0" by (simp_all add: peek_def)
    have "f data opt_len i = Some r" using r a unfolding pk by simp
    from IH [OF this] show False using a by blast
  qed
qed

text \<open>The search for the maximum segment size reads every well-formed list of options to its end, also when it is padded
  with zeros, and gives the value of the first option of that kind, in host byte order, and zero without one.\<close>

theorem mss_option_search:
  assumes "list_all option_ok os" and "length (options_bytes os) + n = unat (get_options_len seg)"
    and "seg_data seg = options_bytes os @ replicate n 0 @ rest"
  shows "get_option_mss seg = Some (Inr (ntohs (first_mss os)))"
  using find_option_exact [OF assms(1), of "[]" n rest] assms(2,3) by (simp add: get_option_mss_def)

definition witness_options :: tcp_segment where
  "witness_options = \<lparr>seg_sport = 1, seg_dport = 2, seg_seqnum = 9, seg_acknum = 0, seg_header_len = 0x80, seg_flags = 2, seg_window = 100,
     seg_checksum = 0, seg_urgend_ptr = 0, seg_data = [1, 3, 3, 7, 2, 4, 5, 180, 4, 2, 0, 0, 99]\<rparr>"

theorem mss_option_search_witness: "get_option_mss witness_options = Some (Inr 1460)"
proof -
  let ?os = "[No_Operation, Option 3 [7], Option 2 [5, 180], Option 4 []]"
  have "list_all option_ok ?os" "length (options_bytes ?os) + 2 = unat (get_options_len witness_options)"
    "seg_data witness_options = options_bytes ?os @ replicate 2 0 @ [99]" "ntohs (first_mss ?os) = 1460"
    by code_simp+
  then show ?thesis using mss_option_search [of ?os 2 witness_options "[99]"] by simp
qed

text \<open>Any peer can hang the stack with its SYN: an option of another kind with length zero makes the search run forever.\<close>

theorem mss_option_hangs:
  assumes "list_all option_ok os" and "seg_data seg = options_bytes os @ kind # 0 # rest" and "kind \<notin> {0, 1, 2}"
    and "\<forall>v. Option 2 v \<notin> set os" and "length (options_bytes os) < unat (get_options_len seg)" and "has_SYN seg"
  shows "accept_remote_mss seg w = None"
proof -
  let ?n = "unat (get_options_len seg)" and ?k = "length (options_bytes os)"
  have "find_option_mss (seg_data seg) ?n 0 = find_option_mss (seg_data seg) ?n ?k"
    using find_option_prefix [OF assms(1,4), of "[]" ?n "kind # 0 # rest"] assms(2,5) by simp
  also have "\<dots> = None"
  proof (cases "find_option_mss (seg_data seg) ?n ?k")
    case (Some r)
    from find_option_stuck [OF this] show ?thesis using assms(2,3,5) by (simp add: nth_append)
  qed
  finally show ?thesis using assms(6) by (simp add: accept_remote_mss_def get_option_mss_def)
qed

theorem mss_option_hangs_witness:
  "accept_remote_mss (witness_options\<lparr>seg_data := [1, 3, 3, 7, 8, 0, 5, 180, 4, 2, 0, 0, 99]\<rparr>) (witness_sender, witness_slices) = None"
proof -
  let ?os = "[No_Operation, Option 3 [7]]" and ?seg = "witness_options\<lparr>seg_data := [1, 3, 3, 7, 8, 0, 5, 180, 4, 2, 0, 0, 99]\<rparr>"
  have "list_all option_ok ?os" "seg_data ?seg = options_bytes ?os @ 8 # 0 # [5, 180, 4, 2, 0, 0, 99]"
    "length (options_bytes ?os) < unat (get_options_len ?seg)" "has_SYN ?seg"
    by code_simp+
  then show ?thesis by (intro mss_option_hangs [of ?os ?seg 8]) simp_all
qed

text \<open>What the option writer leaves in a SYN is what the peer reads.\<close>

theorem mss_option_roundtrip:
  assumes "get_header_len seg = 5" and "4 \<le> length (seg_data seg)"
  shows "\<exists>seg'. set_option_mss v seg = Inr seg' \<and> get_header_len seg' = 6 \<and> get_option_mss seg' = Some (Inr v)"
proof -
  obtain d0 d1 d2 d3 ds where d: "seg_data seg = d0 # d1 # d2 # d3 # ds" using assms(2) by (rule length_4E)
  define seg' where "seg' = set_header_len 6 (seg\<lparr>seg_data := [2, 4] @ store16 (htons v) @ ds\<rparr>)"
  have set: "set_option_mss v seg = Inr seg'"
    using poke_all_append [of "[2, 4] @ store16 (htons v)" "seg_data seg" "[]"] assms(1)
    by (simp add: set_option_mss_def get_options_len_def seg'_def d store16_def)
  have h: "get_header_len seg' = 6" by (simp add: seg'_def header_len_roundtrip)
  have "seg_data seg' = [2, 4] @ store16 (htons v) @ ds" by (simp add: seg'_def set_header_len_def)
  moreover have "unat (get_options_len seg') = 4" by (simp add: get_options_len_def h)
  ultimately have "get_option_mss seg' = Some (Inr (ntohs (first_mss [Option 2 (store16 (htons v))])))"
    using find_option_exact [of "[Option 2 (store16 (htons v))]" "[]" 0 ds] by (simp add: get_option_mss_def store16_def eval_nat_numeral)
  moreover have "first_mss [Option 2 (store16 (htons v))] = htons v" by (simp add: store16_def load16_store16)
  ultimately show ?thesis using set h by (simp add: ntohs_def htons_involution)
qed

end
