(* ===== verification/TCP_Demux.thy ===== *)
theory TCP_Demux
  imports Socket_List Datagram_Sockets IPv4_Layer IPv6_Layer TCP_Behaviour
begin

text \<open>
  The way of a TCP segment to its socket: the two lists of \<^verbatim>\<open>tcp/Demux_TCP_Slice.ah\<close> (bound sockets) and
  \<^verbatim>\<open>tcp/Demux_TCP_Listen_Slice.ah\<close> (listening sockets), the advice that receives, accepts and rejects segments
  (\<^verbatim>\<open>ipv4/tcp\<close>, \<^verbatim>\<open>ipv6/tcp\<close>), and the advice around \<open>listen\<close> that waits for a connection (\<^verbatim>\<open>tcp/TCP_Listen.ah\<close>). Both lists
  use the same \<open>next\<close> pointer of a socket. A result \<open>None\<close> means that the code does not return, or, for the calls that
  wait, not with the segments given.
\<close>

subsection \<open>Sockets and their lists\<close>

record tcp_entry =
  ts_next :: "nat option"
  ts_socket :: tcp_socket
  ts_ipv4 :: IPV4
  ts_ipv6 :: IPV6

definition tcp_setNext :: "nat option \<Rightarrow> tcp_entry \<Rightarrow> tcp_entry" where "tcp_setNext n e = e\<lparr>ts_next := n\<rparr>"

definition tcp_get_sport :: "tcp_socket \<Rightarrow> u16" where "tcp_get_sport s = sport s"
definition tcp_get_dport :: "tcp_socket \<Rightarrow> u16" where "tcp_get_dport s = dport s"
definition tcp_set_sport :: "u16 \<Rightarrow> tcp_socket \<Rightarrow> tcp_socket" where "tcp_set_sport p s = s\<lparr>sport := p\<rparr>"
definition tcp_set_dport :: "u16 \<Rightarrow> tcp_socket \<Rightarrow> tcp_socket" where "tcp_set_dport p s = s\<lparr>dport := p\<rparr>"

definition isEstablished :: "tcp_socket \<Rightarrow> bool" where "isEstablished s \<longleftrightarrow> state s = ESTABLISHED"
definition isListening :: "tcp_socket \<Rightarrow> bool" where "isListening s \<longleftrightarrow> state s = LISTEN"
definition waiting_for_input :: "tcp_socket \<Rightarrow> bool" where "waiting_for_input s \<longleftrightarrow> waiting s"

definition at_tcp :: "(tcp_socket \<Rightarrow> tcp_socket) \<Rightarrow> tcp_entry \<Rightarrow> tcp_entry" where
  "at_tcp f e = e\<lparr>ts_socket := f (ts_socket e)\<rparr>"

record tcp_demux =
  tcp_last_default_port :: u16
  tcp_head_socket :: "nat option"
  tcp_head_listen_socket :: "nat option"
  tcp_sockets :: "tcp_entry sockets"

definition update_tcp :: "nat \<Rightarrow> (tcp_entry \<Rightarrow> tcp_entry) \<Rightarrow> tcp_demux \<Rightarrow> tcp_demux" where
  "update_tcp p f d = d\<lparr>tcp_sockets := update_at p f (tcp_sockets d)\<rparr>"

definition tcp_get_free_port :: "tcp_demux \<Rightarrow> (u16 \<times> tcp_demux) outcome option" where
  "tcp_get_free_port d =
     lbind (list_free_port ts_next (tcp_get_sport \<circ> ts_socket) (tcp_sockets d) (tcp_head_socket d)
              (next_port (tcp_last_default_port d)) (tcp_head_socket d))
       (\<lambda>port. Some (Inr (port, d\<lparr>tcp_last_default_port := port\<rparr>)))"

text \<open>The loop of \<open>bind\<close> over the bound sockets. \<open>current = current->getNext()\<close> stands behind the loop, not in it.\<close>

partial_function (option) bind_check :: "u16 \<Rightarrow> u16 \<Rightarrow> tcp_entry sockets \<Rightarrow> nat option \<Rightarrow> bool outcome option" where
  "bind_check s_port d_port h current =
     (case current of
        None \<Rightarrow> Some (Inr False)
      | Some p \<Rightarrow> (case deref p h of Inl e \<Rightarrow> Some (Inl e)
        | Inr e \<Rightarrow> if tcp_get_sport (ts_socket e) = s_port \<and> tcp_get_dport (ts_socket e) = d_port then Some (Inr True)
                   else bind_check s_port d_port h current))"

definition tcp_push :: "nat \<Rightarrow> tcp_demux \<Rightarrow> tcp_demux" where
  "tcp_push p d =
     (case list_push tcp_setNext p (tcp_head_socket d) (tcp_sockets d) of (head, h) \<Rightarrow> d\<lparr>tcp_head_socket := head, tcp_sockets := h\<rparr>)"

definition tcp_bind :: "nat \<Rightarrow> tcp_demux \<Rightarrow> (bool \<times> tcp_demux) outcome option" where
  "tcp_bind p d =
     lbind (Some (deref p (tcp_sockets d))) (\<lambda>e.
     let s_port = tcp_get_sport (ts_socket e) in
     if s_port = UNUSED_PORT
     then lbind (tcp_get_free_port d) (\<lambda>(port, d). Some (Inr (True, tcp_push p (update_tcp p (at_tcp (tcp_set_sport port)) d))))
     else lbind (bind_check s_port (tcp_get_dport (ts_socket e)) (tcp_sockets d) (tcp_head_socket d)) (\<lambda>used.
          Some (Inr (if used then (False, d) else (True, tcp_push p d)))))"

definition tcp_unbind :: "nat \<Rightarrow> tcp_demux \<Rightarrow> tcp_demux outcome option" where
  "tcp_unbind p d =
     lbind (list_remove ts_next tcp_setNext p (tcp_head_socket d) (tcp_sockets d)) (\<lambda>(head, h).
       Some (Inr (d\<lparr>tcp_head_socket := head, tcp_sockets := h\<rparr>)))"

definition demux_listen :: "nat \<Rightarrow> tcp_demux \<Rightarrow> (bool \<times> tcp_demux) outcome" where
  "demux_listen p d =
     obind (deref p (tcp_sockets d)) (\<lambda>e.
     if tcp_get_sport (ts_socket e) = UNUSED_PORT then Inr (False, d)
     else case list_push tcp_setNext p (tcp_head_listen_socket d) (tcp_sockets d) of
            (head, h) \<Rightarrow> Inr (True, d\<lparr>tcp_head_listen_socket := head, tcp_sockets := h\<rparr>))"

definition deaf :: "nat \<Rightarrow> tcp_demux \<Rightarrow> tcp_demux outcome option" where
  "deaf p d =
     lbind (list_remove ts_next tcp_setNext p (tcp_head_listen_socket d) (tcp_sockets d)) (\<lambda>(head, h).
       Some (Inr (d\<lparr>tcp_head_listen_socket := head, tcp_sockets := h\<rparr>)))"

subsection \<open>A segment in an IPv4 packet\<close>

text \<open>What became of a packet: it is for the next advice, it was dropped, no socket takes the reset, there was no buffer
  for the answer, this answer was sent, or it was for the socket at an address, whose packet buffer was full, whose
  pool had no block, or which took it.\<close>

datatype tcp_verdict = Not_Handled | Dropped_TCP | Reset_Ignored | No_Answer | Answered tcp_segment
  | Queue_Full nat | Memory_Too_Small nat | Taken nat

definition IP_TYPE_TCP :: u8 where "IP_TYPE_TCP = 6"

text \<open>The two branches every receiver shares: a full queue, and what \<open>addToReceiveQueue\<close> says.\<close>

definition enqueue_segment ::
    "tcp_env \<Rightarrow> tcp_segment \<Rightarrow> u32 \<Rightarrow> nat \<Rightarrow> tcp_demux \<Rightarrow> (tcp_verdict \<times> tcp_demux) outcome" where
  "enqueue_segment E seg len p d =
     obind (deref p (tcp_sockets d)) (\<lambda>e.
     if packetBufferFull E (ts_socket e) then Inr (Queue_Full p, d)
     else case addToReceiveQueue E (seg\<lparr>seg_data := take (unat len - TCP_MIN_HEADER_SIZE) (seg_data seg)\<rparr>) len (ts_socket e) of
            (ok, s) \<Rightarrow> Inr (if ok then Taken p else Memory_Too_Small p, update_tcp p (at_tcp (\<lambda>_. s)) d))"

text \<open>The four comparisons of \<^verbatim>\<open>IPv4_TCP_Receive.ah\<close>; \<open>R\<close> is the router, which knows the addresses of the interfaces.\<close>

definition ipv4_qualified :: "v4_router \<Rightarrow> IPv4_Packet \<Rightarrow> tcp_segment \<Rightarrow> tcp_entry \<Rightarrow> bool" where
  "ipv4_qualified R packet seg e \<longleftrightarrow>
     tcp_get_sport (ts_socket e) = seg_dport seg \<and> tcp_get_dport (ts_socket e) = seg_sport seg \<and>
     v4s_get_dst_addr (ts_ipv4 e) = v4_get_src_ipaddr packet \<and> v4s_get_src_addr R (ts_ipv4 e) = v4_get_dst_ipaddr packet"

text \<open>\<open>tcp\<close> is the memory from the TCP header on, \<open>proceed\<close> the advice behind.\<close>

definition ipv4_tcp_receive ::
    "(tcp_demux \<Rightarrow> (tcp_verdict \<times> tcp_demux) outcome option) \<Rightarrow> tcp_env \<Rightarrow> v4_router \<Rightarrow> v4_interface \<Rightarrow> IPv4_Packet \<Rightarrow> u8 list \<Rightarrow> u32 \<Rightarrow>
     tcp_demux \<Rightarrow> (tcp_verdict \<times> tcp_demux) outcome option" where
  "ipv4_tcp_receive proceed E R ifc packet tcp len d =
     (if v4_get_protocol packet \<noteq> IP_TYPE_TCP then proceed d
      else if if_ipv4_addr ifc = 0 then Some (Inr (Dropped_TCP, d))
      else if len < of_nat TCP_MIN_HEADER_SIZE \<or> len < ucast (v4_get_ihl packet) * 4 then Some (Inr (Dropped_TCP, d))
      else let len = len - ucast (v4_get_ihl packet) * 4 in
      lbind (Some (TCP_checksum_valid (V4_computePseudoHeader (v4_get_src_ipaddr packet) (v4_get_dst_ipaddr packet) (ucast len) IP_TYPE_TCP)
                     tcp (ucast len))) (\<lambda>valid.
      if \<not> valid then Some (Inr (Dropped_TCP, d))
      else lbind (Some (tcp_decode tcp)) (\<lambda>seg.
      lbind (list_find ts_next (ipv4_qualified R packet seg) (tcp_sockets d) (tcp_head_socket d)) (\<lambda>found.
      case found of
        Some p \<Rightarrow> Some (enqueue_segment E seg len p d)
      | None \<Rightarrow> proceed d))))"

definition ipv4_tcp_listen ::
    "(tcp_demux \<Rightarrow> (tcp_verdict \<times> tcp_demux) outcome option) \<Rightarrow> tcp_env \<Rightarrow> v4_router \<Rightarrow> IPv4_Packet \<Rightarrow> u8 list \<Rightarrow> u32 \<Rightarrow>
     tcp_demux \<Rightarrow> (tcp_verdict \<times> tcp_demux) outcome option" where
  "ipv4_tcp_listen proceed E R packet tcp len d =
     (if v4_get_protocol packet \<noteq> IP_TYPE_TCP then proceed d
      else lbind (Some (tcp_decode tcp)) (\<lambda>seg.
      if \<not> has_SYN seg then proceed d
      else let len = len - ucast (v4_get_ihl packet) * 4 in
      lbind (list_find ts_next (\<lambda>e. tcp_get_sport (ts_socket e) = seg_dport seg) (tcp_sockets d) (tcp_head_listen_socket d)) (\<lambda>found.
      case found of
        None \<Rightarrow> proceed d
      | Some p \<Rightarrow>
          lbind (Some (enqueue_segment E seg len p d)) (\<lambda>(v, d).
          if v \<noteq> Taken p then Some (Inr (v, d))
          else lbind (deaf p d) (\<lambda>d.
               Some (Inr (v, update_tcp p (\<lambda>e. e\<lparr>ts_ipv4 := v4s_set_dst_addr R (v4_get_src_ipaddr packet) (ts_ipv4 e)\<rparr>) d)))))))"

text \<open>The reset; \<open>buffer\<close> is the memory of the buffer the shared management memory gives for the answer, if it has one.\<close>

definition ipv4_tcp_reset ::
    "(tcp_demux \<Rightarrow> (tcp_verdict \<times> tcp_demux) outcome option) \<Rightarrow> tcp_segment option \<Rightarrow> IPv4_Packet \<Rightarrow> u8 list \<Rightarrow>
     tcp_demux \<Rightarrow> (tcp_verdict \<times> tcp_demux) outcome option" where
  "ipv4_tcp_reset proceed buffer packet tcp d =
     (if v4_get_protocol packet \<noteq> IP_TYPE_TCP then proceed d
      else lbind (Some (tcp_decode tcp)) (\<lambda>seg.
      if has_RST seg then Some (Inr (Reset_Ignored, d))
      else case buffer of
        None \<Rightarrow> Some (Inr (No_Answer, d))
      | Some raw \<Rightarrow>
          Some (Inr (Answered (prepareResponse seg
            (ucast (v4_get_total_len packet) - (ucast (v4_get_ihl packet) + ucast (get_header_len seg)) * 4) raw), d))))"

text \<open>The advice in its order.\<close>

definition ipv4_tcp_demux ::
    "(tcp_demux \<Rightarrow> (tcp_verdict \<times> tcp_demux) outcome option) \<Rightarrow> tcp_segment option \<Rightarrow> tcp_env \<Rightarrow> v4_router \<Rightarrow> v4_interface \<Rightarrow>
     IPv4_Packet \<Rightarrow> u8 list \<Rightarrow> u32 \<Rightarrow> tcp_demux \<Rightarrow> (tcp_verdict \<times> tcp_demux) outcome option" where
  "ipv4_tcp_demux proceed buffer E R ifc packet tcp len =
     ipv4_tcp_receive (ipv4_tcp_listen (ipv4_tcp_reset proceed buffer packet tcp) E R packet tcp len) E R ifc packet tcp len"

subsection \<open>A segment in an IPv6 packet\<close>

text \<open>The advice is on \<open>ipv6_payload_demux\<close>, whose result says whether the packet has been parsed. The result is the pair of
  it and the verdict.\<close>

definition ipv6_qualified :: "IPv6_Packet \<Rightarrow> tcp_segment \<Rightarrow> tcp_entry \<Rightarrow> bool" where
  "ipv6_qualified packet seg e \<longleftrightarrow>
     tcp_get_sport (ts_socket e) = seg_dport seg \<and> tcp_get_dport (ts_socket e) = seg_sport seg \<and>
     compare_ipv6_addr (v6s_get_dst_addr (ts_ipv6 e)) (v6_get_src_ipaddr packet) \<and>
     compare_ipv6_addr (v6s_get_src_addr (ts_ipv6 e)) (v6_get_dst_ipaddr packet)"

definition ipv6_tcp_receive ::
    "(tcp_demux \<Rightarrow> ((bool \<times> tcp_verdict) \<times> tcp_demux) outcome option) \<Rightarrow> tcp_env \<Rightarrow> IPv6_Packet \<Rightarrow> u8 list \<Rightarrow> u32 \<Rightarrow> u8 \<Rightarrow>
     tcp_demux \<Rightarrow> ((bool \<times> tcp_verdict) \<times> tcp_demux) outcome option" where
  "ipv6_tcp_receive proceed E packet tcp payload_len nextHeader d =
     (if nextHeader \<noteq> IP_TYPE_TCP then proceed d
      else if payload_len < of_nat TCP_MIN_HEADER_SIZE then Some (Inr ((True, Dropped_TCP), d))
      else lbind (Some (TCP_checksum_valid
        (V6_computePseudoHeader (ipaddrB8 (v6_get_src_ipaddr packet)) (ipaddrB8 (v6_get_dst_ipaddr packet)) (ucast payload_len) IP_TYPE_TCP)
        tcp (ucast payload_len))) (\<lambda>valid.
      if \<not> valid then Some (Inr ((True, Dropped_TCP), d))
      else lbind (Some (tcp_decode tcp)) (\<lambda>seg.
      lbind (list_find ts_next (ipv6_qualified packet seg) (tcp_sockets d) (tcp_head_socket d)) (\<lambda>found.
      case found of
        Some p \<Rightarrow> lbind (Some (enqueue_segment E seg payload_len p d)) (\<lambda>(v, d). Some (Inr ((True, v), d)))
      | None \<Rightarrow> proceed d))))"

definition ipv6_tcp_listen ::
    "(tcp_demux \<Rightarrow> ((bool \<times> tcp_verdict) \<times> tcp_demux) outcome option) \<Rightarrow> tcp_env \<Rightarrow> (ipv6addr \<Rightarrow> IPV6 \<Rightarrow> IPV6) \<Rightarrow> IPv6_Packet \<Rightarrow>
     u8 list \<Rightarrow> u32 \<Rightarrow> u8 \<Rightarrow> tcp_demux \<Rightarrow> ((bool \<times> tcp_verdict) \<times> tcp_demux) outcome option" where
  "ipv6_tcp_listen proceed E set_dst_addr packet tcp payload_len nextHeader d =
     (if nextHeader \<noteq> IP_TYPE_TCP then proceed d
      else lbind (Some (tcp_decode tcp)) (\<lambda>seg.
      if \<not> has_SYN seg then proceed d
      else lbind (list_find ts_next (\<lambda>e. tcp_get_sport (ts_socket e) = seg_dport seg) (tcp_sockets d) (tcp_head_listen_socket d)) (\<lambda>found.
      case found of
        None \<Rightarrow> proceed d
      | Some p \<Rightarrow>
          lbind (Some (enqueue_segment E seg payload_len p d)) (\<lambda>(v, d).
          if v \<noteq> Taken p then Some (Inr ((True, v), d))
          else lbind (deaf p d) (\<lambda>d.
               Some (Inr ((True, v), update_tcp p (\<lambda>e. e\<lparr>ts_ipv6 := set_dst_addr (v6_get_src_ipaddr packet) (ts_ipv6 e)\<rparr>) d)))))))"

text \<open>With a reset nothing is done, and \<open>result\<close> stays as the receiver left it.\<close>

definition ipv6_tcp_reset ::
    "(tcp_demux \<Rightarrow> ((bool \<times> tcp_verdict) \<times> tcp_demux) outcome option) \<Rightarrow> tcp_segment option \<Rightarrow> u8 list \<Rightarrow> u32 \<Rightarrow> u8 \<Rightarrow>
     tcp_demux \<Rightarrow> ((bool \<times> tcp_verdict) \<times> tcp_demux) outcome option" where
  "ipv6_tcp_reset proceed buffer tcp payload_len nextHeader d =
     (if nextHeader \<noteq> IP_TYPE_TCP then proceed d
      else lbind (Some (tcp_decode tcp)) (\<lambda>seg.
      if has_RST seg then Some (Inr ((False, Reset_Ignored), d))
      else case buffer of
        None \<Rightarrow> Some (Inr ((True, No_Answer), d))
      | Some raw \<Rightarrow> Some (Inr ((True, Answered (prepareResponse seg payload_len raw)), d))))"

definition ipv6_tcp_demux ::
    "(tcp_demux \<Rightarrow> ((bool \<times> tcp_verdict) \<times> tcp_demux) outcome option) \<Rightarrow> tcp_segment option \<Rightarrow> tcp_env \<Rightarrow> (ipv6addr \<Rightarrow> IPV6 \<Rightarrow> IPV6) \<Rightarrow>
     IPv6_Packet \<Rightarrow> u8 list \<Rightarrow> u32 \<Rightarrow> u8 \<Rightarrow> tcp_demux \<Rightarrow> ((bool \<times> tcp_verdict) \<times> tcp_demux) outcome option" where
  "ipv6_tcp_demux proceed buffer E set_dst_addr packet tcp len nextHeader =
     ipv6_tcp_receive (ipv6_tcp_listen (ipv6_tcp_reset proceed buffer tcp len nextHeader) E set_dst_addr packet tcp len nextHeader)
       E packet tcp len nextHeader"

subsection \<open>Waiting for a connection\<close>

text \<open>A packet that arrives while the socket waits, with the buffer there is for a reset.\<close>

record tcp_arrival =
  ar_interface :: v4_interface
  ar_packet :: IPv4_Packet
  ar_tcp :: "u8 list"
  ar_len :: u32
  ar_buffer :: "tcp_segment option"

fun arrive :: "tcp_env \<Rightarrow> v4_router \<Rightarrow> tcp_arrival list \<Rightarrow> tcp_demux \<Rightarrow> tcp_demux outcome option" where
  "arrive E R [] d = Some (Inr d)"
| "arrive E R (a # as) d =
     lbind (ipv4_tcp_demux (\<lambda>d. Some (Inr (Not_Handled, d))) (ar_buffer a) E R (ar_interface a) (ar_packet a) (ar_tcp a) (ar_len a) d)
       (\<lambda>(_, d). arrive E R as d)"

definition packetbuffer_get :: "nat \<Rightarrow> tcp_demux \<Rightarrow> (rcv_packet option \<times> tcp_demux) outcome" where
  "packetbuffer_get p d =
     obind (deref p (tcp_sockets d)) (\<lambda>e.
     case packetbuffer (ts_socket e) of
       [] \<Rightarrow> Inr (None, d)
     | pk # pks \<Rightarrow> Inr (Some pk, update_tcp p (at_tcp (\<lambda>s. s\<lparr>packetbuffer := pks\<rparr>)) d))"

definition on_socket :: "(tcp_socket \<Rightarrow> tcp_socket outcome) \<Rightarrow> nat \<Rightarrow> tcp_demux \<Rightarrow> tcp_demux outcome" where
  "on_socket f p d =
     obind (deref p (tcp_sockets d)) (\<lambda>e. obind (f (ts_socket e)) (\<lambda>s. Inr (update_tcp p (at_tcp (\<lambda>_. s)) d)))"

text \<open>The SYN has arrived: take the port of the client, bind, and go on, or listen again.\<close>

definition accept_syn :: "tcp_env \<Rightarrow> rcv_packet \<Rightarrow> nat \<Rightarrow> tcp_demux \<Rightarrow> tcp_demux outcome option" where
  "accept_syn E pk p d =
     lbind (tcp_bind p (update_tcp p (at_tcp (tcp_set_dport (seg_sport (pk_segment pk)))) d)) (\<lambda>(ok, d).
     Some (if \<not> ok
           then obind (on_socket (freeReceivedSegment E pk) p d) (\<lambda>d. obind (demux_listen p d) (\<lambda>(_, d). Inr d))
           else on_socket (input E (Some pk)) p d))"

text \<open>The two loops take one environment and the packets that arrive meanwhile per iteration.\<close>

fun wait_for_syn :: "v4_router \<Rightarrow> (tcp_env \<times> tcp_arrival list) list \<Rightarrow> nat \<Rightarrow> tcp_demux \<Rightarrow> tcp_demux outcome option" where
  "wait_for_syn R [] p d =
     lbind (Some (deref p (tcp_sockets d))) (\<lambda>e. if isListening (ts_socket e) then None else Some (Inr d))"
| "wait_for_syn R ((E, as) # xs) p d =
     lbind (Some (deref p (tcp_sockets d))) (\<lambda>e.
     if \<not> isListening (ts_socket e) then Some (Inr d)
     else lbind (arrive E R as d) (\<lambda>d.
          lbind (Some (packetbuffer_get p d)) (\<lambda>(pk, d).
          lbind (case pk of None \<Rightarrow> Some (on_socket (input E None) p d) | Some pk \<Rightarrow> accept_syn E pk p d) (wait_for_syn R xs p))))"

fun demux_recv_loop :: "v4_router \<Rightarrow> (tcp_env \<times> tcp_arrival list) list \<Rightarrow> nat \<Rightarrow> tcp_demux \<Rightarrow> tcp_demux outcome option" where
  "demux_recv_loop R [] p d =
     lbind (Some (deref p (tcp_sockets d))) (\<lambda>e. if waiting_for_input (ts_socket e) then None else Some (Inr d))"
| "demux_recv_loop R ((E, as) # xs) p d =
     lbind (Some (deref p (tcp_sockets d))) (\<lambda>e.
     if \<not> waiting_for_input (ts_socket e) then Some (Inr d)
     else lbind (arrive E R as d) (\<lambda>d.
          lbind (Some (packetbuffer_get p d)) (\<lambda>(pk, d).
          lbind (Some (on_socket (input E pk) p d)) (demux_recv_loop R xs p))))"

text \<open>The advice around \<open>listen\<close>: per iteration the environment of the call, and what happens in the two loops.\<close>

fun listen_call ::
    "v4_router \<Rightarrow> (tcp_env \<times> (tcp_env \<times> tcp_arrival list) list \<times> (tcp_env \<times> tcp_arrival list) list) list \<Rightarrow> nat \<Rightarrow>
     tcp_demux \<Rightarrow> (bool \<times> tcp_demux) outcome option" where
  "listen_call R [] p d =
     lbind (Some (deref p (tcp_sockets d))) (\<lambda>e. if isEstablished (ts_socket e) then Some (Inr (True, d)) else None)"
| "listen_call R ((E, xs, ys) # zs) p d =
     lbind (Some (deref p (tcp_sockets d))) (\<lambda>e.
     if isEstablished (ts_socket e) then Some (Inr (True, d))
     else lbind (Some (demux_listen p d)) (\<lambda>(ok, d).
     if \<not> ok then Some (Inr (False, d))
     else lbind (Some (on_socket (\<lambda>s. Inr (snd (tcp_listen E s))) p d)) (\<lambda>d.
          lbind (wait_for_syn R xs p d) (\<lambda>d.
          lbind (demux_recv_loop R ys p d) (\<lambda>d.
          lbind (Some (deref p (tcp_sockets d))) (\<lambda>e.
          if isEstablished (ts_socket e) then listen_call R zs p d
          else lbind (tcp_unbind p d) (listen_call R zs p)))))))"

subsection \<open>The tables as two disjoint lists\<close>

interpretation tcp_list: chained ts_next tcp_setNext "tcp_setNext None"
  by unfold_locales (simp_all add: tcp_setNext_def)

text \<open>The bound sockets are those at \<open>bs\<close>, the listening ones those at \<open>ls\<close>, and no socket is in both lists.\<close>

definition tcp_lists :: "tcp_demux \<Rightarrow> nat list \<Rightarrow> nat list \<Rightarrow> bool" where
  "tcp_lists d bs ls \<longleftrightarrow>
     list_chain ts_next (tcp_sockets d) (tcp_head_socket d) bs \<and> list_chain ts_next (tcp_sockets d) (tcp_head_listen_socket d) ls \<and>
     distinct (bs @ ls)"

abbreviation entry :: "tcp_demux \<Rightarrow> nat \<Rightarrow> tcp_entry" where "entry d p \<equiv> the (tcp_sockets d p)"

definition ports_at :: "tcp_demux \<Rightarrow> nat \<Rightarrow> u16 \<times> u16" where
  "ports_at d p = (sport (ts_socket (entry d p)), dport (ts_socket (entry d p)))"

text \<open>Everything in a socket but the pointer.\<close>

definition same_but_next :: "tcp_demux \<Rightarrow> tcp_demux \<Rightarrow> bool" where
  "same_but_next d' d \<longleftrightarrow> same_bodies (tcp_setNext None) (tcp_sockets d') (tcp_sockets d)"

lemma tcp_accessors [simp]: "tcp_get_sport s = sport s" "tcp_get_dport s = dport s" "isEstablished s \<longleftrightarrow> state s = ESTABLISHED"
  "isListening s \<longleftrightarrow> state s = LISTEN" "waiting_for_input s = waiting s" "ts_socket (tcp_setNext n e) = ts_socket e"
  "ts_ipv4 (tcp_setNext n e) = ts_ipv4 e" "ts_ipv6 (tcp_setNext n e) = ts_ipv6 e" "ts_next (at_tcp f e) = ts_next e"
  "ts_socket (at_tcp f e) = f (ts_socket e)" "ts_ipv4 (at_tcp f e) = ts_ipv4 e" "ts_next (tcp_setNext n e) = n"
  by (simp_all add: tcp_get_sport_def tcp_get_dport_def isEstablished_def isListening_def waiting_for_input_def tcp_setNext_def at_tcp_def)

lemma update_tcp_simps [simp]: "tcp_sockets (update_tcp p f d) = update_at p f (tcp_sockets d)"
  "tcp_head_socket (update_tcp p f d) = tcp_head_socket d" "tcp_head_listen_socket (update_tcp p f d) = tcp_head_listen_socket d"
  "tcp_last_default_port (update_tcp p f d) = tcp_last_default_port d"
  by (simp_all add: update_tcp_def)

lemma update_at_chain: "(\<And>e. ts_next (f e) = ts_next e) \<Longrightarrow> list_chain ts_next (update_at p f h) current ps = list_chain ts_next h current ps"
  by (rule list_chain_cong) (auto simp: update_at_apply option.map_comp comp_def)

lemma update_tcp_lists: "(\<And>e. ts_next (f e) = ts_next e) \<Longrightarrow> tcp_lists (update_tcp p f d) bs ls = tcp_lists d bs ls"
  by (simp add: tcp_lists_def update_at_chain)

lemma same_bodies_entry:
  assumes "same_bodies (tcp_setNext None) h' h" and "h p = Some e"
  obtains e' where "h' p = Some e'" and "ts_socket e' = ts_socket e" and "ts_ipv4 e' = ts_ipv4 e" and "ts_ipv6 e' = ts_ipv6 e"
proof -
  have m: "map_option (tcp_setNext None) (h' p) = Some (tcp_setNext None e)" using assms by (auto simp: same_bodies_def)
  then obtain e' where h': "h' p = Some e'" and eq: "tcp_setNext None e' = tcp_setNext None e" by auto
  have "ts_socket e' = ts_socket e" using arg_cong [OF eq, of ts_socket] by simp
  moreover have "ts_ipv4 e' = ts_ipv4 e" using arg_cong [OF eq, of ts_ipv4] by simp
  moreover have "ts_ipv6 e' = ts_ipv6 e" using arg_cong [OF eq, of ts_ipv6] by simp
  ultimately show thesis by (intro that [OF h'])
qed

lemma same_ports_at: "same_but_next d' d \<Longrightarrow> tcp_sockets d q = Some x \<Longrightarrow> ports_at d' q = ports_at d q"
  by (erule same_bodies_entry [of "tcp_sockets d'" "tcp_sockets d" q x, unfolded same_but_next_def [symmetric]])
     (simp_all add: ports_at_def)

lemma chain_other: "(\<And>q. q \<in> set ps \<Longrightarrow> h' q = h q) \<Longrightarrow> list_chain nxt h' current ps = list_chain nxt h current ps"
  by (rule list_chain_cong) simp

lemma lists_sockets: "tcp_lists d bs ls \<Longrightarrow> q \<in> set bs \<union> set ls \<Longrightarrow> \<exists>x. tcp_sockets d q = Some x"
  unfolding tcp_lists_def using list_chain_sockets by fastforce

lemma push_bound:
  assumes "tcp_lists d bs ls" and "tcp_sockets d p \<noteq> None" and "p \<notin> set bs \<union> set ls"
  shows "tcp_lists (tcp_push p d) (p # bs) ls" and "same_but_next (tcp_push p d) d"
proof -
  obtain head h where pu: "list_push tcp_setNext p (tcp_head_socket d) (tcp_sockets d) = (head, h)" by (cases "list_push tcp_setNext p (tcp_head_socket d) (tcp_sockets d)")
  have ch: "list_chain ts_next (tcp_sockets d) (tcp_head_socket d) bs" and d: "distinct (bs @ ls)" and p: "p \<notin> set bs" "p \<notin> set ls"
    using assms by (auto simp: tcp_lists_def)
  note r = tcp_list.push_chain [OF ch assms(2) p(1) pu]
  have "list_chain ts_next h (tcp_head_listen_socket d) ls = list_chain ts_next (tcp_sockets d) (tcp_head_listen_socket d) ls"
    using p(2) by (intro chain_other r(4)) auto
  then show "tcp_lists (tcp_push p d) (p # bs) ls" using assms(1) r(1,2) d p by (simp add: tcp_lists_def tcp_push_def pu)
  show "same_but_next (tcp_push p d) d" using r(3) by (simp add: same_but_next_def tcp_push_def pu)
qed

lemma bind_check_empty: "bind_check s_port d_port h None = Some (Inr False)"
  by (subst bind_check.simps) simp

lemma bind_check_hit:
  "h p = Some e \<Longrightarrow> sport (ts_socket e) = s_port \<Longrightarrow> dport (ts_socket e) = d_port \<Longrightarrow> bind_check s_port d_port h (Some p) = Some (Inr True)"
  by (subst bind_check.simps) simp

lemma bind_check_stuck:
  assumes "bind_check s_port d_port h current = Some r"
  shows "\<not> (\<exists>p e. current = Some p \<and> h p = Some e \<and> (sport (ts_socket e), dport (ts_socket e)) \<noteq> (s_port, d_port))"
proof (rule bind_check.raw_induct [OF _ assms])
  fix f :: "u16 \<Rightarrow> u16 \<Rightarrow> tcp_entry sockets \<Rightarrow> nat option \<Rightarrow> bool outcome option" and s_port d_port h current r
  assume IH: "\<And>s_port d_port h current r. f s_port d_port h current = Some r \<Longrightarrow>
      \<not> (\<exists>p e. current = Some p \<and> h p = Some e \<and> (sport (ts_socket e), dport (ts_socket e)) \<noteq> (s_port, d_port))"
    and r: "(case current of None \<Rightarrow> Some (Inr False)
      | Some p \<Rightarrow> (case deref p h of Inl e \<Rightarrow> Some (Inl e)
        | Inr e \<Rightarrow> if tcp_get_sport (ts_socket e) = s_port \<and> tcp_get_dport (ts_socket e) = d_port then Some (Inr True)
                   else f s_port d_port h current)) = Some r"
  show "\<not> (\<exists>p e. current = Some p \<and> h p = Some e \<and> (sport (ts_socket e), dport (ts_socket e)) \<noteq> (s_port, d_port))"
    using r IH [of s_port d_port h current] by (auto split: if_splits)
qed

lemma bind_check_hangs:
  "h p = Some e \<Longrightarrow> (sport (ts_socket e), dport (ts_socket e)) \<noteq> (s_port, d_port) \<Longrightarrow> bind_check s_port d_port h (Some p) = None"
  using bind_check_stuck [of s_port d_port h "Some p"] by (cases "bind_check s_port d_port h (Some p)") auto

lemma free_port_tcp:
  assumes "tcp_lists d bs ls" and "length bs < 64512"
  obtains port where "tcp_get_free_port d = Some (Inr (port, d\<lparr>tcp_last_default_port := port\<rparr>))"
    and "\<And>q. q \<in> set bs \<Longrightarrow> fst (ports_at d q) \<noteq> port" and "1024 \<le> unat port"
proof -
  have ch: "list_chain ts_next (tcp_sockets d) (tcp_head_socket d) bs" using assms by (simp add: tcp_lists_def)
  obtain port where port: "list_free_port ts_next (tcp_get_sport \<circ> ts_socket) (tcp_sockets d) (tcp_head_socket d)
      (next_port (tcp_last_default_port d)) (tcp_head_socket d) = Some (Inr port)"
    "port \<notin> ports_used (tcp_get_sport \<circ> ts_socket) (tcp_sockets d) bs" "1024 \<le> unat port"
    by (rule list_free_port_spec [OF ch assms(2)])
  show thesis
    using port(2) by (intro that [OF _ _ port(3)]) (auto simp: tcp_get_free_port_def port(1) ports_used_def ports_at_def)
qed

text \<open>What \<open>bind\<close> does with a socket that is in no list. Without a port it gets one that no bound socket has. With a port
  it is bound if no other socket is; if another one is bound, only the head of the list is looked at: the call is refused
  when it has both ports, and otherwise it never returns.\<close>

theorem tcp_bind_exact:
  assumes "tcp_lists d bs ls" and "tcp_sockets d p = Some e" and "p \<notin> set bs \<union> set ls" and "length bs < 64512"
  shows "if sport (ts_socket e) = UNUSED_PORT
    then \<exists>d'. tcp_bind p d = Some (Inr (True, d')) \<and> tcp_lists d' (p # bs) ls \<and> 1024 \<le> unat (fst (ports_at d' p)) \<and>
      (\<forall>q \<in> set bs. ports_at d' q = ports_at d q \<and> fst (ports_at d q) \<noteq> fst (ports_at d' p))
    else if bs = [] then \<exists>d'. tcp_bind p d = Some (Inr (True, d')) \<and> tcp_lists d' [p] ls \<and> ports_at d' p = ports_at d p
    else if ports_at d (hd bs) = ports_at d p then tcp_bind p d = Some (Inr (False, d))
    else tcp_bind p d = None"
proof (cases "sport (ts_socket e) = UNUSED_PORT")
  case True
  obtain port where port: "tcp_get_free_port d = Some (Inr (port, d\<lparr>tcp_last_default_port := port\<rparr>))"
      "\<And>q. q \<in> set bs \<Longrightarrow> fst (ports_at d q) \<noteq> port" "1024 \<le> unat port"
    using free_port_tcp [OF assms(1,4)] by blast
  let ?d = "update_tcp p (at_tcp (tcp_set_sport port)) (d\<lparr>tcp_last_default_port := port\<rparr>)"
  have l: "tcp_lists ?d bs ls" using assms(1) by (simp add: update_tcp_lists) (simp add: tcp_lists_def)
  have e: "tcp_sockets ?d p = Some (at_tcp (tcp_set_sport port) e)" using assms(2) by simp
  have keep: "ports_at (tcp_push p ?d) q = ports_at ?d q" if "tcp_sockets ?d q = Some x" for q x
    using push_bound(2) [OF l _ assms(3)] e that by (intro same_ports_at) auto
  have "tcp_bind p d = Some (Inr (True, tcp_push p ?d))" using True assms(2) port(1) by (simp add: tcp_bind_def)
  moreover have "tcp_lists (tcp_push p ?d) (p # bs) ls" using push_bound(1) [OF l _ assms(3)] assms(2) by simp
  moreover have "fst (ports_at (tcp_push p ?d) p) = port" using keep [OF e] assms(2) by (simp add: ports_at_def tcp_set_sport_def)
  moreover have "ports_at (tcp_push p ?d) q = ports_at d q" if "q \<in> set bs" for q
  proof -
    obtain x where "tcp_sockets ?d q = Some x" using lists_sockets [OF l] \<open>q \<in> set bs\<close> by blast
    moreover have "q \<noteq> p" using that assms(3) by auto
    ultimately show ?thesis using keep [of q x] by (simp add: ports_at_def)
  qed
  ultimately show ?thesis using True port(2,3) by auto
next
  case False
  note l = assms(1)
  show ?thesis
  proof (cases bs)
    case Nil
    then have head: "tcp_head_socket d = None" using l by (simp add: tcp_lists_def)
    have "tcp_bind p d = Some (Inr (True, tcp_push p d))" using False assms(2) head by (simp add: tcp_bind_def bind_check_empty)
    moreover have "ports_at (tcp_push p d) p = ports_at d p"
      using push_bound(2) [OF l _ assms(3)] assms(2) by (intro same_ports_at) auto
    ultimately show ?thesis using False Nil push_bound(1) [OF l _ assms(3)] assms(2) by auto
  next
    case (Cons q qs)
    then obtain x where q: "tcp_head_socket d = Some q" "tcp_sockets d q = Some x" using l by (auto simp: tcp_lists_def)
    show ?thesis
      using False Cons q assms(2) bind_check_hit [of "tcp_sockets d" q x] bind_check_hangs [of "tcp_sockets d" q x]
      by (auto simp: tcp_bind_def ports_at_def)
  qed
qed

lemma unbind_lists:
  assumes "tcp_lists d bs ls" and "bs \<noteq> []"
  obtains d' where "tcp_unbind p d = Some (Inr d')" and "tcp_lists d' (remove1 p bs) ls" and "same_but_next d' d"
proof -
  have ch: "list_chain ts_next (tcp_sockets d) (tcp_head_socket d) bs" "distinct bs" using assms by (simp_all add: tcp_lists_def)
  obtain head h where r: "list_remove ts_next tcp_setNext p (tcp_head_socket d) (tcp_sockets d) = Some (Inr (head, h))"
    "list_chain ts_next h head (remove1 p bs)" "same_bodies (tcp_setNext None) h (tcp_sockets d)"
    "\<And>q. q \<notin> set bs \<Longrightarrow> h q = tcp_sockets d q"
    using tcp_list.remove_chain [OF ch assms(2), of p] by blast
  have "list_chain ts_next h (tcp_head_listen_socket d) ls = list_chain ts_next (tcp_sockets d) (tcp_head_listen_socket d) ls"
    using assms(1) by (intro chain_other r(4)) (auto simp: tcp_lists_def)
  then have "tcp_lists (d\<lparr>tcp_head_socket := head, tcp_sockets := h\<rparr>) (remove1 p bs) ls"
    using assms(1) r(2) set_remove1_subset [of p bs] by (auto simp: tcp_lists_def)
  then show thesis using r(1,3) by (intro that) (auto simp: tcp_unbind_def same_but_next_def)
qed

lemma deaf_lists:
  assumes "tcp_lists d bs ls" and "ls \<noteq> []"
  obtains d' where "deaf p d = Some (Inr d')" and "tcp_lists d' bs (remove1 p ls)" and "same_but_next d' d"
proof -
  have ch: "list_chain ts_next (tcp_sockets d) (tcp_head_listen_socket d) ls" "distinct ls" using assms by (simp_all add: tcp_lists_def)
  obtain head h where r: "list_remove ts_next tcp_setNext p (tcp_head_listen_socket d) (tcp_sockets d) = Some (Inr (head, h))"
    "list_chain ts_next h head (remove1 p ls)" "same_bodies (tcp_setNext None) h (tcp_sockets d)"
    "\<And>q. q \<notin> set ls \<Longrightarrow> h q = tcp_sockets d q"
    using tcp_list.remove_chain [OF ch assms(2), of p] by blast
  have "list_chain ts_next h (tcp_head_socket d) bs = list_chain ts_next (tcp_sockets d) (tcp_head_socket d) bs"
    using assms(1) by (intro chain_other r(4)) (auto simp: tcp_lists_def)
  then have "tcp_lists (d\<lparr>tcp_head_listen_socket := head, tcp_sockets := h\<rparr>) bs (remove1 p ls)"
    using assms(1) r(2) set_remove1_subset [of p ls] by (auto simp: tcp_lists_def)
  then show thesis using r(1,3) by (intro that) (auto simp: deaf_def same_but_next_def)
qed

lemma listen_lists:
  assumes "tcp_lists d bs ls" and "tcp_sockets d p = Some e" and "p \<notin> set bs \<union> set ls" and "sport (ts_socket e) \<noteq> UNUSED_PORT"
  obtains d' where "demux_listen p d = Inr (True, d')" and "tcp_lists d' bs (p # ls)" and "same_but_next d' d"
proof -
  obtain head h where pu: "list_push tcp_setNext p (tcp_head_listen_socket d) (tcp_sockets d) = (head, h)"
    by (cases "list_push tcp_setNext p (tcp_head_listen_socket d) (tcp_sockets d)")
  have ch: "list_chain ts_next (tcp_sockets d) (tcp_head_listen_socket d) ls" "tcp_sockets d p \<noteq> None" "p \<notin> set ls"
    using assms by (simp_all add: tcp_lists_def)
  note r = tcp_list.push_chain [OF ch pu]
  have "list_chain ts_next h (tcp_head_socket d) bs = list_chain ts_next (tcp_sockets d) (tcp_head_socket d) bs"
    using assms(3) by (intro chain_other r(4)) auto
  then have "tcp_lists (d\<lparr>tcp_head_listen_socket := head, tcp_sockets := h\<rparr>) bs (p # ls)"
    using assms(1,3) r(1,2) by (auto simp: tcp_lists_def)
  then show thesis using assms(2,4) pu r(3) by (intro that) (auto simp: demux_listen_def same_but_next_def)
qed

text \<open>The other operations on the tables are those on two lists: \<open>unbind\<close> and \<open>deaf\<close> take exactly the socket out of the bound
  or the listening ones, \<open>listen\<close> puts a socket that has a port in front of the listening ones, and but for the pointers
  no socket is changed. On an empty list \<open>unbind\<close> and \<open>deaf\<close> follow a null pointer; every destructor calls \<open>unbind\<close>.\<close>

theorem tcp_tables_refine_lists:
  assumes "tcp_lists d bs ls"
  shows "(if bs = [] then tcp_unbind p d = Some (Inl NullDeref)
      else \<exists>d'. tcp_unbind p d = Some (Inr d') \<and> tcp_lists d' (remove1 p bs) ls \<and> same_but_next d' d) \<and>
    (if ls = [] then deaf p d = Some (Inl NullDeref)
      else \<exists>d'. deaf p d = Some (Inr d') \<and> tcp_lists d' bs (remove1 p ls) \<and> same_but_next d' d) \<and>
    (tcp_sockets d p = Some e \<longrightarrow> p \<notin> set bs \<union> set ls \<longrightarrow>
      (if sport (ts_socket e) = UNUSED_PORT then demux_listen p d = Inr (False, d)
       else \<exists>d'. demux_listen p d = Inr (True, d') \<and> tcp_lists d' bs (p # ls) \<and> same_but_next d' d))"
proof (intro conjI impI)
  show "if bs = [] then tcp_unbind p d = Some (Inl NullDeref)
      else \<exists>d'. tcp_unbind p d = Some (Inr d') \<and> tcp_lists d' (remove1 p bs) ls \<and> same_but_next d' d"
    using unbind_lists [OF assms, of p] assms by (fastforce simp: tcp_unbind_def tcp_list.remove_empty tcp_lists_def)
  show "if ls = [] then deaf p d = Some (Inl NullDeref)
      else \<exists>d'. deaf p d = Some (Inr d') \<and> tcp_lists d' bs (remove1 p ls) \<and> same_but_next d' d"
    using deaf_lists [OF assms, of p] assms by (fastforce simp: deaf_def tcp_list.remove_empty tcp_lists_def)
  show "if sport (ts_socket e) = UNUSED_PORT then demux_listen p d = Inr (False, d)
      else \<exists>d'. demux_listen p d = Inr (True, d') \<and> tcp_lists d' bs (p # ls) \<and> same_but_next d' d"
    if "tcp_sockets d p = Some e" "p \<notin> set bs \<union> set ls"
  proof (cases "sport (ts_socket e) = UNUSED_PORT")
    case True
    then show ?thesis using that by (simp add: demux_listen_def)
  next
    case False
    then show ?thesis using listen_lists [OF assms that] by (metis (full_types))
  qed
qed

subsection \<open>Where a segment goes\<close>

text \<open>A segment of length \<open>n\<close> in the block at \<open>a\<close>.\<close>

definition queued_packet :: "nat \<Rightarrow> tcp_segment \<Rightarrow> u32 \<Rightarrow> rcv_packet" where
  "queued_packet a seg n =
     \<lparr>pk_addr = a, pk_segment = seg\<lparr>seg_data := take (unat n - TCP_MIN_HEADER_SIZE) (seg_data seg)\<rparr>, pk_len = ucast (ucast n :: u16)\<rparr>"

text \<open>What the socket \<open>s\<close> at \<open>p\<close> does with a segment: it refuses it when its packet buffer is full or its pool empty, and otherwise
  puts it behind the segments it has.\<close>

definition block_for :: "tcp_env \<Rightarrow> u32 \<Rightarrow> tcp_socket \<Rightarrow> nat option \<times> basic_mempool" where
  "block_for E n s = mp_alloc (env_pool E) (unat (ucast n :: u16) + env_szrb E) (mempool s)"

definition offered :: "tcp_env \<Rightarrow> tcp_segment \<Rightarrow> u32 \<Rightarrow> nat \<Rightarrow> tcp_socket \<Rightarrow> tcp_verdict \<Rightarrow> tcp_socket \<Rightarrow> bool" where
  "offered E seg n p s v s' \<longleftrightarrow>
     (if packetBufferFull E s then v = Queue_Full p \<and> s' = s
      else case block_for E n s of
             (None, m) \<Rightarrow> v = Memory_Too_Small p \<and> s' = s\<lparr>mempool := m\<rparr>
           | (Some a, m) \<Rightarrow> v = Taken p \<and> s' = s\<lparr>mempool := m, packetbuffer := packetbuffer s @ [queued_packet a seg n]\<rparr>)"

lemma update_tcp_same: "tcp_sockets d p = Some e \<Longrightarrow> update_tcp p (at_tcp (\<lambda>_. ts_socket e)) d = d"
  by (simp add: update_tcp_def update_at_def at_tcp_def fun_upd_idem)

lemma enqueue_offers:
  assumes e: "tcp_sockets d p = Some e"
  obtains v s' where "enqueue_segment E seg n p d = Inr (v, update_tcp p (at_tcp (\<lambda>_. s')) d)"
    and "offered E seg n p (ts_socket e) v s'"
proof (cases "packetBufferFull E (ts_socket e)")
  case True
  then show thesis using e by (intro that) (simp_all add: enqueue_segment_def update_tcp_same offered_def)
next
  case False
  let ?seg = "seg\<lparr>seg_data := take (unat n - TCP_MIN_HEADER_SIZE) (seg_data seg)\<rparr>"
  have enq: "enqueue_segment E seg n p d = (case addToReceiveQueue E ?seg n (ts_socket e) of
      (ok, s) \<Rightarrow> Inr (if ok then Taken p else Memory_Too_Small p, update_tcp p (at_tcp (\<lambda>_. s)) d))"
    unfolding enqueue_segment_def deref_Some [of "tcp_sockets d" p e, OF e] obind_simps if_not_P [OF False] ..
  have add: "addToReceiveQueue E ?seg n (ts_socket e) = (case block_for E n (ts_socket e) of
      (None, m) \<Rightarrow> (False, (ts_socket e)\<lparr>mempool := m\<rparr>)
    | (Some a, m) \<Rightarrow> (True, (ts_socket e)\<lparr>mempool := m, packetbuffer := packetbuffer (ts_socket e) @ [queued_packet a seg n]\<rparr>))"
    unfolding addToReceiveQueue_def block_for_def if_not_P [OF False] queued_packet_def ..
  obtain b m where bm: "block_for E n (ts_socket e) = (b, m)" by fastforce
  show thesis
    using that enq add unfolding offered_def if_not_P [OF False] bm by (cases b) simp_all
qed

text \<open>The segment was offered to the socket at \<open>p\<close> and to no other one.\<close>

definition offered_only :: "tcp_env \<Rightarrow> tcp_segment \<Rightarrow> u32 \<Rightarrow> nat \<Rightarrow> tcp_verdict \<Rightarrow> tcp_demux \<Rightarrow> tcp_demux \<Rightarrow> bool" where
  "offered_only E seg n p v d d' \<longleftrightarrow>
     offered E seg n p (ts_socket (entry d p)) v (ts_socket (entry d' p)) \<and>
     (\<forall>q. q \<noteq> p \<longrightarrow> ts_socket (entry d' q) = ts_socket (entry d q)) \<and> dom (tcp_sockets d') = dom (tcp_sockets d)"

lemma update_at_dom [simp]: "dom (update_at p f h) = dom h"
  by (auto simp: update_at_apply split: if_splits)

lemma same_dom:
  assumes "same_but_next d' d"
  shows "dom (tcp_sockets d') = dom (tcp_sockets d)"
proof -
  have "map_option (tcp_setNext None) (tcp_sockets d' q) = map_option (tcp_setNext None) (tcp_sockets d q)" for q
    using assms by (simp add: same_but_next_def same_bodies_def)
  then have "tcp_sockets d' q = None \<longleftrightarrow> tcp_sockets d q = None" for q by (metis option.map_disc_iff)
  then show ?thesis by (simp add: dom_def)
qed

lemma same_sockets:
  assumes "same_but_next d' d"
  shows "ts_socket (entry d' q) = ts_socket (entry d q)"
proof (cases "tcp_sockets d q")
  case None
  then have "tcp_sockets d' q = None" using assms by (auto simp: same_but_next_def same_bodies_def dest: spec [of _ q])
  then show ?thesis using None by simp
next
  case (Some e)
  then show ?thesis using assms by (elim same_bodies_entry [of "tcp_sockets d'" "tcp_sockets d" q e, folded same_but_next_def]) simp_all
qed

lemma offered_onlyI:
  assumes "tcp_sockets d p = Some e" and "offered E seg n p (ts_socket e) v s'" and "same_but_next d' (update_tcp p (at_tcp (\<lambda>_. s')) d)"
  shows "offered_only E seg n p v d d'"
  using assms same_sockets [OF assms(3)] same_dom [OF assms(3)] by (simp add: offered_only_def)

lemma same_but_next_refl [simp]: "same_but_next d d"
  by (simp add: same_but_next_def)

lemma v4s_dst_set [simp]: "v4s_get_dst_addr (v4s_set_dst_addr R a s) = a"
  by (simp add: v4s_get_dst_addr_def v4s_set_dst_addr_def v4s_resolveRoute_def Let_def)

lemma find_in: "find P ps = Some p \<Longrightarrow> p \<in> set ps \<and> P p"
  by (metis find_Some_iff nth_mem)

text \<open>A SYN that a listening socket takes: it leaves the list and gets the address of the client.\<close>

lemma listen_takes:
  assumes "tcp_lists d bs ls" and "v4_get_protocol packet = IP_TYPE_TCP" and "tcp_decode tcp = Inr seg"
    and n_def: "n = len - ucast (v4_get_ihl packet) * 4"
  shows "case (if has_SYN seg then find (\<lambda>p. sport (ts_socket (entry d p)) = seg_dport seg) ls else None) of
      None \<Rightarrow> ipv4_tcp_listen proceed E R packet tcp len d = proceed d
    | Some p \<Rightarrow> \<exists>v d'. ipv4_tcp_listen proceed E R packet tcp len d = Some (Inr (v, d')) \<and> offered_only E seg n p v d d' \<and>
        tcp_lists d' bs (if v = Taken p then remove1 p ls else ls) \<and>
        (v = Taken p \<longrightarrow> ts_ipv4 (entry d' p) = v4s_set_dst_addr R (v4_get_src_ipaddr packet) (ts_ipv4 (entry d p)))"
proof (cases "if has_SYN seg then find (\<lambda>p. sport (ts_socket (entry d p)) = seg_dport seg) ls else None")
  case None
  have ch: "list_chain ts_next (tcp_sockets d) (tcp_head_listen_socket d) ls" using assms(1) by (simp add: tcp_lists_def)
  show ?thesis unfolding None option.case
    using None assms(2,3) by (auto simp: ipv4_tcp_listen_def list_find_chain [OF ch] split: if_splits)
next
  case (Some p)
  have ch: "list_chain ts_next (tcp_sockets d) (tcp_head_listen_socket d) ls" using assms(1) by (simp add: tcp_lists_def)
  have syn: "has_SYN seg" and f: "find (\<lambda>p. sport (ts_socket (entry d p)) = seg_dport seg) ls = Some p" using Some by (auto split: if_splits)
  then have p: "p \<in> set ls" using find_in by fast
  then obtain e where e: "tcp_sockets d p = Some e" using lists_sockets [OF assms(1)] by auto
  obtain v s' where enq: "enqueue_segment E seg n p d = Inr (v, update_tcp p (at_tcp (\<lambda>_. s')) d)"
    and off: "offered E seg n p (ts_socket e) v s'"
    using enqueue_offers [OF e] by blast
  let ?d = "update_tcp p (at_tcp (\<lambda>_. s')) d"
  have l: "tcp_lists ?d bs ls" using assms(1) by (simp add: update_tcp_lists)
  have step: "ipv4_tcp_listen proceed E R packet tcp len d =
      (if v \<noteq> Taken p then Some (Inr (v, ?d))
       else lbind (deaf p ?d) (\<lambda>d. Some (Inr (v, update_tcp p (\<lambda>e. e\<lparr>ts_ipv4 := v4s_set_dst_addr R (v4_get_src_ipaddr packet) (ts_ipv4 e)\<rparr>) d))))"
    using syn assms(2,3) enq f by (simp add: ipv4_tcp_listen_def list_find_chain [OF ch] n_def Let_def)
  have "\<exists>v d'. ipv4_tcp_listen proceed E R packet tcp len d = Some (Inr (v, d')) \<and> offered_only E seg n p v d d' \<and>
        tcp_lists d' bs (if v = Taken p then remove1 p ls else ls) \<and>
        (v = Taken p \<longrightarrow> ts_ipv4 (entry d' p) = v4s_set_dst_addr R (v4_get_src_ipaddr packet) (ts_ipv4 (entry d p)))"
  proof (cases "v = Taken p")
    case False
    then have "ipv4_tcp_listen proceed E R packet tcp len d = Some (Inr (v, ?d))" using step by simp
    then show ?thesis using l offered_onlyI [OF e off same_but_next_refl] False by (intro exI [of _ v] exI [of _ ?d]) simp
  next
    case True
    have "ls \<noteq> []" using p by auto
    then obtain d1 where d1: "deaf p ?d = Some (Inr d1)" "tcp_lists d1 bs (remove1 p ls)" "same_but_next d1 ?d"
      by (rule deaf_lists [OF l])
    let ?f = "\<lambda>e. e\<lparr>ts_ipv4 := v4s_set_dst_addr R (v4_get_src_ipaddr packet) (ts_ipv4 e)\<rparr>"
    obtain e1 where e1: "tcp_sockets d1 p = Some e1" "ts_ipv4 e1 = ts_ipv4 e"
      by (rule same_bodies_entry [OF d1(3) [unfolded same_but_next_def], of p "at_tcp (\<lambda>_. s') e"]) (use e in simp_all)
    have "offered_only E seg n p v d d1" by (rule offered_onlyI [OF e off d1(3)])
    moreover have "ts_socket (entry (update_tcp p ?f d1) q) = ts_socket (entry d1 q)" for q
      using e1 by (cases "q = p") simp_all
    ultimately have "offered_only E seg n p v d (update_tcp p ?f d1)" by (simp add: offered_only_def del: update_tcp_simps) (simp only: update_tcp_simps update_at_dom)
    moreover have "tcp_lists (update_tcp p ?f d1) bs (remove1 p ls)" using d1(2) by (simp add: update_tcp_lists)
    moreover have "ipv4_tcp_listen proceed E R packet tcp len d = Some (Inr (v, update_tcp p ?f d1))" using step d1(1) True by simp
    ultimately show ?thesis using True e e1 by (intro exI [of _ v] exI [of _ "update_tcp p ?f d1"]) simp
  qed
  then show ?thesis unfolding Some option.case .
qed

text \<open>The specification: the socket a segment is offered to, or the answer.\<close>

definition dispatched ::
    "v4_router \<Rightarrow> tcp_env \<Rightarrow> IPv4_Packet \<Rightarrow> tcp_segment option \<Rightarrow> tcp_segment \<Rightarrow> u32 \<Rightarrow> nat list \<Rightarrow> nat list \<Rightarrow> tcp_demux \<Rightarrow> tcp_verdict \<Rightarrow>
     tcp_demux \<Rightarrow> bool" where
  "dispatched R E packet buffer seg n bs ls d v d' \<longleftrightarrow>
    (case find (\<lambda>p. ipv4_qualified R packet seg (entry d p)) bs of
       Some p \<Rightarrow> offered_only E seg n p v d d' \<and> tcp_lists d' bs ls
     | None \<Rightarrow> (case if has_SYN seg then find (\<lambda>p. sport (ts_socket (entry d p)) = seg_dport seg) ls else None of
         Some p \<Rightarrow> offered_only E seg n p v d d' \<and> tcp_lists d' bs (if v = Taken p then remove1 p ls else ls) \<and>
           (v = Taken p \<longrightarrow> ts_ipv4 (entry d' p) = v4s_set_dst_addr R (v4_get_src_ipaddr packet) (ts_ipv4 (entry d p)))
       | None \<Rightarrow> d' = d \<and> v = (if has_RST seg then Reset_Ignored else case buffer of None \<Rightarrow> No_Answer
           | Some raw \<Rightarrow> Answered (prepareResponse seg
               (ucast (v4_get_total_len packet) - (ucast (v4_get_ihl packet) + ucast (get_header_len seg)) * 4) raw))))"

lemma dispatch_cases:
  assumes "tcp_lists d bs ls" and "v4_get_protocol packet = IP_TYPE_TCP" and "if_ipv4_addr ifc \<noteq> 0"
    and "20 \<le> len" and "ucast (v4_get_ihl packet) * 4 \<le> len" and "n = len - ucast (v4_get_ihl packet) * 4"
    and "TCP_checksum_valid (V4_computePseudoHeader (v4_get_src_ipaddr packet) (v4_get_dst_ipaddr packet) (ucast n) IP_TYPE_TCP) tcp (ucast n) = Inr True"
    and "tcp_decode tcp = Inr seg"
  shows "\<exists>v d'. ipv4_tcp_demux proceed buffer E R ifc packet tcp len d = Some (Inr (v, d')) \<and>
    dispatched R E packet buffer seg n bs ls d v d'"
proof -
  have ch: "list_chain ts_next (tcp_sockets d) (tcp_head_socket d) bs" using assms(1) by (simp add: tcp_lists_def)
  have short: "\<not> (len < of_nat TCP_MIN_HEADER_SIZE \<or> len < ucast (v4_get_ihl packet) * 4)"
    using assms(4,5) by (simp add: TCP_MIN_HEADER_SIZE_def not_less)
  let ?reset = "ipv4_tcp_reset proceed buffer packet tcp"
  have step: "ipv4_tcp_demux proceed buffer E R ifc packet tcp len d =
      (case find (\<lambda>p. ipv4_qualified R packet seg (entry d p)) bs of
         Some p \<Rightarrow> Some (enqueue_segment E seg n p d)
       | None \<Rightarrow> ipv4_tcp_listen ?reset E R packet tcp len d)"
    using assms(2,3,7,8) short by (simp add: ipv4_tcp_demux_def ipv4_tcp_receive_def list_find_chain [OF ch] Let_def assms(6) [symmetric])
  show ?thesis
  proof (cases "find (\<lambda>p. ipv4_qualified R packet seg (entry d p)) bs")
    case (Some p)
    then have "p \<in> set bs" using find_in by fast
    then obtain e where e: "tcp_sockets d p = Some e" using lists_sockets [OF assms(1)] by auto
    obtain v s' where enq: "enqueue_segment E seg n p d = Inr (v, update_tcp p (at_tcp (\<lambda>_. s')) d)"
      and off: "offered E seg n p (ts_socket e) v s'"
      using enqueue_offers [OF e] by blast
    have "tcp_lists (update_tcp p (at_tcp (\<lambda>_. s')) d) bs ls" using assms(1) by (simp add: update_tcp_lists)
    then show ?thesis using step Some enq offered_onlyI [OF e off same_but_next_refl] by (auto simp: dispatched_def)
  next
    case None
    have reset: "?reset d = Some (Inr (if has_RST seg then Reset_Ignored else case buffer of None \<Rightarrow> No_Answer
        | Some raw \<Rightarrow> Answered (prepareResponse seg
            (ucast (v4_get_total_len packet) - (ucast (v4_get_ihl packet) + ucast (get_header_len seg)) * 4) raw), d))"
      using assms(2,8) by (simp add: ipv4_tcp_reset_def split: option.split)
    show ?thesis
      using listen_takes [OF assms(1,2,8,6), of ?reset E R] unfolding step dispatched_def None option.case
      by (auto simp: reset split: option.splits)
  qed
qed


subsection \<open>Accepting a connection\<close>

text \<open>The packet of an arrival passes every check and holds the segment \<open>seg\<close> of length \<open>n\<close>.\<close>

definition valid_arrival :: "tcp_arrival \<Rightarrow> tcp_segment \<Rightarrow> u32 \<Rightarrow> bool" where
  "valid_arrival a seg n \<longleftrightarrow>
     v4_get_protocol (ar_packet a) = IP_TYPE_TCP \<and> if_ipv4_addr (ar_interface a) \<noteq> 0 \<and> 20 \<le> ar_len a \<and>
     ucast (v4_get_ihl (ar_packet a)) * 4 \<le> ar_len a \<and> n = ar_len a - ucast (v4_get_ihl (ar_packet a)) * 4 \<and>
     TCP_checksum_valid (V4_computePseudoHeader (v4_get_src_ipaddr (ar_packet a)) (v4_get_dst_ipaddr (ar_packet a)) (ucast n) IP_TYPE_TCP)
       (ar_tcp a) (ucast n) = Inr True \<and>
     tcp_decode (ar_tcp a) = Inr seg"

text \<open>A SYN of length \<open>n\<close> for the first listening socket, which takes it into the block at \<open>b\<close>.\<close>

definition syn_for :: "tcp_env \<Rightarrow> v4_router \<Rightarrow> tcp_arrival \<Rightarrow> tcp_segment \<Rightarrow> u32 \<Rightarrow> nat \<Rightarrow> basic_mempool \<Rightarrow> nat \<Rightarrow> nat list \<Rightarrow> tcp_demux \<Rightarrow> bool" where
  "syn_for E R a seg n b m p bs d \<longleftrightarrow>
     valid_arrival a seg n \<and> has_SYN seg \<and> sport (ts_socket (entry d p)) = seg_dport seg \<and>
     find (\<lambda>p. ipv4_qualified R (ar_packet a) seg (entry d p)) bs = None \<and>
     \<not> packetBufferFull E (ts_socket (entry d p)) \<and> block_for E n (ts_socket (entry d p)) = (Some b, m)"

lemma offered_taken:
  "offered E seg n p s v s' \<Longrightarrow> \<not> packetBufferFull E s \<Longrightarrow> block_for E n s = (Some b, m) \<Longrightarrow>
    v = Taken p \<and> s' = s\<lparr>mempool := m, packetbuffer := packetbuffer s @ [queued_packet b seg n]\<rparr>"
  by (simp add: offered_def)

text \<open>A packet for a bound socket.\<close>

lemma segment_arrives:
  assumes "tcp_lists d bs ls" and "valid_arrival a seg n" and "find (\<lambda>p. ipv4_qualified R (ar_packet a) seg (entry d p)) bs = Some p"
    and "\<not> packetBufferFull E (ts_socket (entry d p))" and "block_for E n (ts_socket (entry d p)) = (Some b, m)"
  obtains d1 where "arrive E R [a] d = Some (Inr d1)" and "tcp_lists d1 bs ls"
    and "ts_socket (entry d1 p) = (ts_socket (entry d p))\<lparr>mempool := m, packetbuffer := packetbuffer (ts_socket (entry d p)) @ [queued_packet b seg n]\<rparr>"
proof -
  let ?k = "\<lambda>d. Some (Inr (Not_Handled, d))"
  obtain v d1 where d1: "ipv4_tcp_demux ?k (ar_buffer a) E R (ar_interface a) (ar_packet a) (ar_tcp a) (ar_len a) d = Some (Inr (v, d1))"
      "offered_only E seg n p v d d1" "tcp_lists d1 bs ls"
    using dispatch_cases [OF assms(1), of "ar_packet a" "ar_interface a" "ar_len a" n "ar_tcp a" seg ?k "ar_buffer a" E R]
      assms(2) [unfolded valid_arrival_def] assms(3)
    by (auto simp: dispatched_def)
  then show thesis using offered_taken [OF _ assms(4,5)] by (intro that [of d1]) (auto simp: offered_only_def)
qed

lemma syn_arrives:
  assumes "tcp_lists d bs (p # ls)" and "syn_for E R a seg n b m p bs d"
  obtains d1 where "arrive E R [a] d = Some (Inr d1)" and "tcp_lists d1 bs ls"
    and "ts_socket (entry d1 p) = (ts_socket (entry d p))\<lparr>mempool := m, packetbuffer := packetbuffer (ts_socket (entry d p)) @ [queued_packet b seg n]\<rparr>"
    and "ts_ipv4 (entry d1 p) = v4s_set_dst_addr R (v4_get_src_ipaddr (ar_packet a)) (ts_ipv4 (entry d p))" and "tcp_sockets d1 p \<noteq> None"
    and "\<And>q. q \<noteq> p \<Longrightarrow> ts_socket (entry d1 q) = ts_socket (entry d q)"
proof -
  note syn = assms(2) [unfolded syn_for_def]
  have found: "(if has_SYN seg then find (\<lambda>p. sport (ts_socket (entry d p)) = seg_dport seg) (p # ls) else None) = Some p"
    using syn by simp
  let ?k = "\<lambda>d. Some (Inr (Not_Handled, d))"
  obtain v d1 where d1: "ipv4_tcp_demux ?k (ar_buffer a) E R (ar_interface a) (ar_packet a) (ar_tcp a) (ar_len a) d = Some (Inr (v, d1))"
      "offered_only E seg n p v d d1" "tcp_lists d1 bs (if v = Taken p then remove1 p (p # ls) else p # ls)"
      "v = Taken p \<longrightarrow> ts_ipv4 (entry d1 p) = v4s_set_dst_addr R (v4_get_src_ipaddr (ar_packet a)) (ts_ipv4 (entry d p))"
    using dispatch_cases [OF assms(1), of "ar_packet a" "ar_interface a" "ar_len a" n "ar_tcp a" seg ?k "ar_buffer a" E R]
      syn [unfolded valid_arrival_def] found
    by (auto simp: dispatched_def)
  have t: "v = Taken p \<and> ts_socket (entry d1 p) = (ts_socket (entry d p))\<lparr>mempool := m, packetbuffer := packetbuffer (ts_socket (entry d p)) @ [queued_packet b seg n]\<rparr>"
    by (rule offered_taken [of E]) (use d1(2) syn in \<open>simp_all add: offered_only_def\<close>)
  have "tcp_sockets d1 p \<noteq> None" using d1(2) lists_sockets [OF assms(1), of p] unfolding offered_only_def dom_def by auto
  then show thesis using d1 t by (intro that [of d1]) (auto simp: offered_only_def)
qed

text \<open>The state in which \<open>accept_syn\<close> binds the socket.\<close>

lemma accept_start:
  assumes "tcp_lists d bs (p # ls)" and "syn_for E R a seg n b m p bs d" and "packetbuffer (ts_socket (entry d p)) = []"
    and "state (ts_socket (entry d p)) = LISTEN"
  obtains d1 where "wait_for_syn R ((E, [a]) # xs) p d = lbind (lbind (tcp_bind p d1) (\<lambda>(ok, d).
      Some (if \<not> ok
            then obind (on_socket (freeReceivedSegment E (queued_packet b seg n)) p d) (\<lambda>d. obind (demux_listen p d) (\<lambda>(_, d). Inr d))
            else on_socket (input E (Some (queued_packet b seg n))) p d))) (wait_for_syn R xs p)"
    and "tcp_lists d1 bs ls" and "ts_socket (entry d1 p) = (ts_socket (entry d p))\<lparr>mempool := m, dport := seg_sport seg\<rparr>"
    and "ts_ipv4 (entry d1 p) = v4s_set_dst_addr R (v4_get_src_ipaddr (ar_packet a)) (ts_ipv4 (entry d p))" and "tcp_sockets d1 p \<noteq> None"
    and "\<And>q. q \<noteq> p \<Longrightarrow> ts_socket (entry d1 q) = ts_socket (entry d q)"
proof -
  obtain d0 where d0: "arrive E R [a] d = Some (Inr d0)" "tcp_lists d0 bs ls"
    "ts_socket (entry d0 p) = (ts_socket (entry d p))\<lparr>mempool := m, packetbuffer := [queued_packet b seg n]\<rparr>"
    "ts_ipv4 (entry d0 p) = v4s_set_dst_addr R (v4_get_src_ipaddr (ar_packet a)) (ts_ipv4 (entry d p))" "tcp_sockets d0 p \<noteq> None"
    "\<And>q. q \<noteq> p \<Longrightarrow> ts_socket (entry d0 q) = ts_socket (entry d q)"
    by (rule syn_arrives [OF assms(1,2)]) (simp_all add: assms(3))
  obtain e where e: "tcp_sockets d p = Some e" using lists_sockets [OF assms(1), of p] by auto
  obtain e0 where e0: "tcp_sockets d0 p = Some e0" using d0(5) by blast
  let ?d1 = "update_tcp p (at_tcp (tcp_set_dport (seg_sport seg))) (update_tcp p (at_tcp (\<lambda>s. s\<lparr>packetbuffer := []\<rparr>)) d0)"
  have "ts_socket e0 = (ts_socket e)\<lparr>mempool := m, packetbuffer := [queued_packet b seg n]\<rparr>" using d0(3) e e0 by simp
  then have get: "packetbuffer_get p d0 = Inr (Some (queued_packet b seg n), update_tcp p (at_tcp (\<lambda>s. s\<lparr>packetbuffer := []\<rparr>)) d0)"
    using e0 by (simp add: packetbuffer_get_def)
  have "wait_for_syn R ((E, [a]) # xs) p d =
      lbind (accept_syn E (queued_packet b seg n) p (update_tcp p (at_tcp (\<lambda>s. s\<lparr>packetbuffer := []\<rparr>)) d0)) (wait_for_syn R xs p)"
    using e assms(4) d0(1) get by simp
  moreover have "seg_sport (pk_segment (queued_packet b seg n)) = seg_sport seg" by (simp add: queued_packet_def)
  moreover have "tcp_lists ?d1 bs ls" using d0(2) by (simp add: update_tcp_lists)
  moreover have "ts_socket (entry ?d1 p) = (ts_socket (entry d p))\<lparr>mempool := m, dport := seg_sport seg\<rparr>"
    using d0(3,4) e0 e assms(3) by (simp add: tcp_set_dport_def)
  moreover have "ts_ipv4 (entry ?d1 p) = v4s_set_dst_addr R (v4_get_src_ipaddr (ar_packet a)) (ts_ipv4 (entry d p))" using d0(4) e0 by simp
  moreover have "tcp_sockets ?d1 p \<noteq> None" using e0 by simp
  moreover have "ts_socket (entry ?d1 q) = ts_socket (entry d q)" if "q \<noteq> p" for q using d0(6) that by simp
  ultimately show thesis using that unfolding accept_syn_def by auto
qed

lemma listen_keeps:
  assumes "\<not> has_RST (pk_segment pk)"
  shows "yields (listen_in E (Some pk) s) (\<lambda>s'. packetbuffer s' = packetbuffer s \<and> sport s' = sport s \<and> dport s' = dport s \<and> waiting s' = waiting s)"
  using assms unfolding listen_in_def requestSendBufferTCP_syn_def handleRST_def
  by (auto split: option.splits simp: Let_def frame_def
      intro!: yields_obind [OF frame_free] yields_obind [OF frame_request] yields_mono [OF frame_emit])

lemma synrcvd_keeps:
  assumes "\<not> has_RST (pk_segment pk)" and "has_ACK (pk_segment pk)"
  shows "yields (synrcvd_in E (Some pk) s) (\<lambda>s'. sport s' = sport s \<and> dport s' = dport s)"
  using assms unfolding synrcvd_in_def handleRST_def
  by (auto simp: Let_def frame_def handleACK_def initSendWindow_def
      intro!: yields_obind [where Q = "\<lambda>s'. sport s' = sport s \<and> dport s' = dport s"] yields_mono [OF frame_free] yields_mono [OF frame_clearHistory])

text \<open>The start of the call on a closed socket.\<close>

lemma listen_call_start:
  assumes "tcp_lists d bs ls" and "tcp_sockets d p = Some e" and "p \<notin> set bs \<union> set ls" and "sport (ts_socket e) \<noteq> UNUSED_PORT"
    and "state (ts_socket e) = CLOSED"
  obtains d1 where "listen_call R ((E, xs, ys) # zs) p d = lbind (wait_for_syn R xs p d1) (\<lambda>d.
      lbind (demux_recv_loop R ys p d) (\<lambda>d.
      lbind (Some (deref p (tcp_sockets d))) (\<lambda>e.
      if isEstablished (ts_socket e) then listen_call R zs p d else lbind (tcp_unbind p d) (listen_call R zs p))))"
    and "tcp_lists d1 bs (p # ls)" and "ts_socket (entry d1 p) = snd (tcp_listen E (ts_socket e))"
    and "\<And>q. q \<noteq> p \<Longrightarrow> ts_socket (entry d1 q) = ts_socket (entry d q)"
    and "\<And>q. ts_ipv4 (entry d1 q) = ts_ipv4 (entry d q)"
proof -
  obtain d0 where d0: "demux_listen p d = Inr (True, d0)" "tcp_lists d0 bs (p # ls)" "same_but_next d0 d"
    by (rule listen_lists [OF assms(1-4)])
  obtain e0 where e0: "tcp_sockets d0 p = Some e0" "ts_socket e0 = ts_socket e" "ts_ipv4 e0 = ts_ipv4 e"
    using d0(3) assms(2) by (elim same_bodies_entry [of "tcp_sockets d0" "tcp_sockets d" p e, folded same_but_next_def]) auto
  let ?d1 = "update_tcp p (at_tcp (\<lambda>_. snd (tcp_listen E (ts_socket e)))) d0"
  have ip: "ts_ipv4 (entry d0 q) = ts_ipv4 (entry d q)" for q
  proof (cases "tcp_sockets d q")
    case None
    then have "tcp_sockets d0 q = None" using same_dom [OF d0(3)] by (metis domIff)
    then show ?thesis using None by simp
  next
    case (Some x)
    then show ?thesis using d0(3) by (elim same_bodies_entry [of "tcp_sockets d0" "tcp_sockets d" q x, folded same_but_next_def]) simp_all
  qed
  have "listen_call R ((E, xs, ys) # zs) p d = lbind (wait_for_syn R xs p ?d1) (\<lambda>d.
      lbind (demux_recv_loop R ys p d) (\<lambda>d.
      lbind (Some (deref p (tcp_sockets d))) (\<lambda>e.
      if isEstablished (ts_socket e) then listen_call R zs p d else lbind (tcp_unbind p d) (listen_call R zs p))))"
    using assms(2,5) d0(1) e0 by (simp add: on_socket_def)
  moreover have "tcp_lists ?d1 bs (p # ls)" using d0(2) by (simp add: update_tcp_lists)
  moreover have "ts_socket (entry ?d1 p) = snd (tcp_listen E (ts_socket e))" using e0 by simp
  moreover have "ts_socket (entry ?d1 q) = ts_socket (entry d q)" if "q \<noteq> p" for q
    using same_sockets [OF d0(3), of q] that by simp
  moreover have "ts_ipv4 (entry ?d1 q) = ts_ipv4 (entry d q)" for q
    using ip [of q] e0 by (cases "q = p") simp_all
  ultimately show thesis by (rule that)
qed

lemma tcp_listen_fields:
  assumes "state s = CLOSED"
  shows "state (snd (tcp_listen E s)) = LISTEN" "waiting (snd (tcp_listen E s))" "packetbuffer (snd (tcp_listen E s)) = packetbuffer s"
    "mempool (snd (tcp_listen E s)) = mempool s" "sport (snd (tcp_listen E s)) = sport s" "dport (snd (tcp_listen E s)) = dport s"
    "receiveBuffer (snd (tcp_listen E s)) = receiveBuffer s" "seqnum_unacked (snd (tcp_listen E s)) = seqnum_next (snd (tcp_listen E s))"
  using assms by (simp_all add: tcp_listen_def gen_initial_seqnum_def Let_def)

lemma ipv4_qualified_cong: "sport (ts_socket e') = sport (ts_socket e) \<Longrightarrow> dport (ts_socket e') = dport (ts_socket e) \<Longrightarrow> ts_ipv4 e' = ts_ipv4 e \<Longrightarrow>
    ipv4_qualified R packet seg e' = ipv4_qualified R packet seg e"
  by (simp add: ipv4_qualified_def)

text \<open>Only one connection at a time. A closed socket starts to listen while another socket is bound, and a SYN from a client
  that is not connected arrives for it. The check in \<open>bind\<close> then goes round forever, unless the socket at the head of
  the list has the two ports of the new connection: the call of \<open>listen\<close> does not return, whatever arrives after.\<close>

theorem second_connection_hangs:
  assumes "tcp_lists d (b # bs) ls" and "tcp_sockets d p = Some e" and "p \<notin> set (b # bs) \<union> set ls"
    and "sport (ts_socket e) \<noteq> UNUSED_PORT" and "state (ts_socket e) = CLOSED" and "packetbuffer (ts_socket e) = []"
    and "syn_for E' R a seg n c m p (b # bs) d" and "ports_at d b \<noteq> (seg_dport seg, seg_sport seg)"
  shows "listen_call R ((E, (E', [a]) # xs, ys) # zs) p d = None"
proof -
  obtain d1 where d1: "listen_call R ((E, (E', [a]) # xs, ys) # zs) p d = lbind (wait_for_syn R ((E', [a]) # xs) p d1) (\<lambda>d.
      lbind (demux_recv_loop R ys p d) (\<lambda>d.
      lbind (Some (deref p (tcp_sockets d))) (\<lambda>e.
      if isEstablished (ts_socket e) then listen_call R zs p d else lbind (tcp_unbind p d) (listen_call R zs p))))"
    "tcp_lists d1 (b # bs) (p # ls)" "ts_socket (entry d1 p) = snd (tcp_listen E (ts_socket e))"
    "\<And>q. q \<noteq> p \<Longrightarrow> ts_socket (entry d1 q) = ts_socket (entry d q)" "\<And>q. ts_ipv4 (entry d1 q) = ts_ipv4 (entry d q)"
    by (rule listen_call_start [OF assms(1-5), of R E "(E', [a]) # xs" ys zs]) blast
  note f = tcp_listen_fields [OF assms(5), of E]
  have q: "find (\<lambda>p. ipv4_qualified R (ar_packet a) seg (entry d1 p)) (b # bs) = find (\<lambda>p. ipv4_qualified R (ar_packet a) seg (entry d p)) (b # bs)"
  proof (rule find_cong [OF refl])
    fix q assume "q \<in> set (b # bs)"
    then have "q \<noteq> p" using assms(3) by auto
    then show "ipv4_qualified R (ar_packet a) seg (entry d1 q) = ipv4_qualified R (ar_packet a) seg (entry d q)"
      using d1(4,5) by (intro ipv4_qualified_cong) simp_all
  qed
  have syn: "syn_for E' R a seg n c m p (b # bs) d1"
    using assms(7) assms(2) d1(3) f unfolding syn_for_def q by (simp add: packetBufferFull_def block_for_def)
  have st: "packetbuffer (ts_socket (entry d1 p)) = []" "state (ts_socket (entry d1 p)) = LISTEN" using d1(3) f assms(6) by simp_all
  obtain d2 where d2: "wait_for_syn R ((E', [a]) # xs) p d1 = lbind (lbind (tcp_bind p d2) (\<lambda>(ok, d).
      Some (if \<not> ok
            then obind (on_socket (freeReceivedSegment E' (queued_packet c seg n)) p d) (\<lambda>d. obind (demux_listen p d) (\<lambda>(_, d). Inr d))
            else on_socket (input E' (Some (queued_packet c seg n))) p d))) (wait_for_syn R xs p)"
    "tcp_lists d2 (b # bs) ls" "ts_socket (entry d2 p) = (ts_socket (entry d1 p))\<lparr>mempool := m, dport := seg_sport seg\<rparr>"
    "tcp_sockets d2 p \<noteq> None" "\<And>q. q \<noteq> p \<Longrightarrow> ts_socket (entry d2 q) = ts_socket (entry d1 q)"
    by (rule accept_start [OF d1(2) syn st, of xs]) blast
  obtain x where x: "tcp_head_socket d2 = Some b" "tcp_sockets d2 b = Some x" using d2(2) by (auto simp: tcp_lists_def)
  obtain e2 where e2: "tcp_sockets d2 p = Some e2" using d2(4) by blast
  have "b \<noteq> p" using assms(3) by auto
  then have "(sport (ts_socket x), dport (ts_socket x)) = ports_at d b" using d1(4) [of b] d2(5) [of b] x by (simp add: ports_at_def)
  moreover have "sport (ts_socket e2) = seg_dport seg" "dport (ts_socket e2) = seg_sport seg" "sport (ts_socket e2) \<noteq> UNUSED_PORT"
    using d2(3) e2 d1(3) f assms(2,4,7) by (simp_all add: syn_for_def)
  ultimately have "tcp_bind p d2 = None"
    using assms(8) x e2 bind_check_hangs [of "tcp_sockets d2" b x "seg_dport seg" "seg_sport seg"] by (simp add: tcp_bind_def)
  then show ?thesis using d1(1) d2(1) by simp
qed

text \<open>The two halves of the call when no socket is bound: the SYN, and a segment of the client.\<close>

lemma syn_phase:
  assumes "tcp_lists d [] (p # ls)" and "syn_for E R a seg n b m p [] d" and "packetbuffer (ts_socket (entry d p)) = []"
    and "state (ts_socket (entry d p)) = LISTEN" and "sport (ts_socket (entry d p)) \<noteq> UNUSED_PORT"
    and "input E (Some (queued_packet b seg n)) ((ts_socket (entry d p))\<lparr>mempool := m, dport := seg_sport seg\<rparr>) = Inr s" and "state s \<noteq> LISTEN"
  obtains d1 where "wait_for_syn R [(E, [a])] p d = Some (Inr d1)" and "tcp_lists d1 [p] ls" and "ts_socket (entry d1 p) = s"
    and "ts_ipv4 (entry d1 p) = v4s_set_dst_addr R (v4_get_src_ipaddr (ar_packet a)) (ts_ipv4 (entry d p))"
proof -
  let ?pk = "queued_packet b seg n" and ?s = "(ts_socket (entry d p))\<lparr>mempool := m, dport := seg_sport seg\<rparr>"
  obtain d2 where d2: "wait_for_syn R [(E, [a])] p d = lbind (lbind (tcp_bind p d2) (\<lambda>(ok, d).
      Some (if \<not> ok then obind (on_socket (freeReceivedSegment E ?pk) p d) (\<lambda>d. obind (demux_listen p d) (\<lambda>(_, d). Inr d))
            else on_socket (input E (Some ?pk)) p d))) (wait_for_syn R [] p)"
    "tcp_lists d2 [] ls" "ts_socket (entry d2 p) = ?s" "tcp_sockets d2 p \<noteq> None"
    "ts_ipv4 (entry d2 p) = v4s_set_dst_addr R (v4_get_src_ipaddr (ar_packet a)) (ts_ipv4 (entry d p))"
    by (rule accept_start [OF assms(1-4), of "[]"]) blast
  obtain e2 where e2: "tcp_sockets d2 p = Some e2" using d2(4) by blast
  have bind: "tcp_bind p d2 = Some (Inr (True, tcp_push p d2))"
    using assms(5) d2(2,3) e2 by (simp add: tcp_bind_def tcp_lists_def bind_check_empty)
  have "p \<notin> set [] \<union> set ls" using assms(1) by (simp add: tcp_lists_def)
  note l = push_bound [OF d2(2,4) this]
  obtain e3 where e3: "tcp_sockets (tcp_push p d2) p = Some e3" "ts_socket e3 = ?s" "ts_ipv4 e3 = ts_ipv4 e2"
    using l(2) e2 d2(3) by (elim same_bodies_entry [of "tcp_sockets (tcp_push p d2)" "tcp_sockets d2" p e2, folded same_but_next_def]) auto
  let ?d4 = "update_tcp p (at_tcp (\<lambda>_. s)) (tcp_push p d2)"
  have "wait_for_syn R [(E, [a])] p d = Some (Inr ?d4)" using d2(1) bind e3 assms(6,7) by (simp add: on_socket_def)
  moreover have "tcp_lists ?d4 [p] ls" using l(1) by (simp add: update_tcp_lists)
  ultimately show thesis using e3 e2 d2(5) by (intro that [of ?d4]) simp_all
qed

lemma segment_phase:
  assumes "tcp_lists d [p] ls" and "valid_arrival a seg n" and "ipv4_qualified R (ar_packet a) seg (entry d p)"
    and "waiting (ts_socket (entry d p))" and "packetbuffer (ts_socket (entry d p)) = []" and "\<not> packetBufferFull E (ts_socket (entry d p))"
    and "block_for E n (ts_socket (entry d p)) = (Some b, m)"
    and "input E (Some (queued_packet b seg n)) ((ts_socket (entry d p))\<lparr>mempool := m\<rparr>) = Inr s" and "\<not> waiting s"
  obtains d1 where "demux_recv_loop R [(E, [a])] p d = Some (Inr d1)" and "tcp_lists d1 [p] ls" and "ts_socket (entry d1 p) = s"
    and "tcp_sockets d1 p \<noteq> None"
proof -
  let ?pk = "queued_packet b seg n"
  have "find (\<lambda>p. ipv4_qualified R (ar_packet a) seg (entry d p)) [p] = Some p" using assms(3) by simp
  then obtain d1 where d1: "arrive E R [a] d = Some (Inr d1)" "tcp_lists d1 [p] ls"
      "ts_socket (entry d1 p) = (ts_socket (entry d p))\<lparr>mempool := m, packetbuffer := packetbuffer (ts_socket (entry d p)) @ [?pk]\<rparr>"
    by (rule segment_arrives [OF assms(1,2) _ assms(6,7)])
  obtain e where e: "tcp_sockets d p = Some e" using lists_sockets [OF assms(1), of p] by auto
  obtain e1 where e1: "tcp_sockets d1 p = Some e1" using lists_sockets [OF d1(2), of p] by auto
  have s1: "ts_socket e1 = (ts_socket e)\<lparr>mempool := m, packetbuffer := [?pk]\<rparr>" using d1(3) e e1 assms(5) by simp
  have s2: "(ts_socket e)\<lparr>mempool := m, packetbuffer := []\<rparr> = (ts_socket e)\<lparr>mempool := m\<rparr>"
    using assms(5) e by (cases "ts_socket e") simp
  let ?d2 = "update_tcp p (at_tcp (\<lambda>_. s)) (update_tcp p (at_tcp (\<lambda>s. s\<lparr>packetbuffer := []\<rparr>)) d1)"
  have "demux_recv_loop R [(E, [a])] p d = Some (Inr ?d2)"
    using e assms(4,8,9) d1(1) e1 s1 s2 by (simp add: packetbuffer_get_def on_socket_def)
  moreover have "tcp_lists ?d2 [p] ls" using d1(2) by (simp add: update_tcp_lists)
  ultimately show thesis using e1 by (intro that [of ?d2]) simp_all
qed

text \<open>The handshake as the listening socket sees it.\<close>

lemma server_handshake:
  assumes "state s = CLOSED" and "rb_empty s" and "packetbuffer s = []" and "is_syn q (pk_segment pk1)"
    and "input E' (Some pk1) ((snd (tcp_listen E s))\<lparr>mempool := m1, dport := c\<rparr>) = Inr s2" and "state s2 = SYNRCVD"
    and "is_ack q2 (seqnum_next s2) (pk_segment pk2)" and "input E'' (Some pk2) (s2\<lparr>mempool := m2\<rparr>) = Inr s3"
  shows "packetbuffer s2 = [] \<and> sport s2 = sport s \<and> dport s2 = c \<and> waiting s2"
    and "state s3 = ESTABLISHED \<and> \<not> waiting s3 \<and> seqnum_unacked s3 = seqnum_next s3 \<and> getAckNum E'' s3 = q + 1 \<and>
      sport s3 = sport s \<and> dport s3 = c"
proof -
  let ?l = "(snd (tcp_listen E s))\<lparr>mempool := m1, dport := c\<rparr>"
  note f = tcp_listen_fields [OF assms(1), of E]
  have i2: "listen_in E' (Some pk1) ?l = Inr s2" using assms(5) f(1) by (simp add: input_def)
  have "\<not> has_RST (pk_segment pk1)" using assms(4) by (simp add: is_syn_def)
  from yieldsD [OF listen_keeps [OF this] i2] f assms(3)
  show k2: "packetbuffer s2 = [] \<and> sport s2 = sport s \<and> dport s2 = c \<and> waiting s2" by simp
  have sa: "seqnum_next s2 = seqnum_unacked s2 + 1" "getAckNum E'' s2 = q + 1"
    using yieldsD [OF listen_effect [where E' = E'', OF _ assms(4)] i2] f assms(2,6) by (auto simp: rb_empty_def)
  have i3: "synrcvd_in E'' (Some pk2) (s2\<lparr>mempool := m2\<rparr>) = Inr s3" using assms(6,8) by (simp add: input_def)
  have k3: "sport s3 = sport s2 \<and> dport s3 = dport s2"
    using yieldsD [OF synrcvd_keeps [where s = "s2\<lparr>mempool := m2\<rparr>"] i3] assms(7) by (simp add: is_ack_def)
  have "is_ack q2 (seqnum_next (s2\<lparr>mempool := m2\<rparr>)) (pk_segment pk2)" using assms(7) by simp
  moreover have "getAckNum E'' (s2\<lparr>mempool := m2\<rparr>) = getAckNum E'' s2" by (simp add: getAckNum_def)
  ultimately show "state s3 = ESTABLISHED \<and> \<not> waiting s3 \<and> seqnum_unacked s3 = seqnum_next s3 \<and> getAckNum E'' s3 = q + 1 \<and>
      sport s3 = sport s \<and> dport s3 = c"
    using yieldsD [OF synrcvd_effect [where s = "s2\<lparr>mempool := m2\<rparr>" and p = pk2 and q = q2 and E = E'' and E' = E''] i3] k2 k3 sa assms(6)
    by simp
qed

text \<open>C7: The first connection. When no socket is bound, a closed socket with a port starts to listen, a SYN arrives for it, its answer
  can be sent, and the client acknowledges that answer, \<open>listen\<close> returns true: the socket is established with the
  ports of the client and itself, bound, and no longer listening; what it sent is acknowledged, and it expects the first
  byte of the client. The memory for the two segments and the route back to the client are assumed.\<close>

theorem first_connection_established:
  assumes d: "tcp_lists d [] ls" "tcp_sockets d p = Some e" "p \<notin> set ls" "sport (ts_socket e) \<noteq> UNUSED_PORT"
      "state (ts_socket e) = CLOSED" "packetbuffer (ts_socket e) = []" "rb_empty (ts_socket e)"
    and syn: "syn_for E' R a1 seg1 n1 b1 m1 p [] d" "is_syn q seg1"
    and answer: "input E' (Some (queued_packet b1 seg1 n1)) ((snd (tcp_listen E (ts_socket e)))\<lparr>mempool := m1, dport := seg_sport seg1\<rparr>) = Inr s2"
      "state s2 = SYNRCVD"
    and ack: "valid_arrival a2 seg2 n2" "is_ack q2 (seqnum_next s2) seg2" "seg_sport seg2 = seg_sport seg1" "seg_dport seg2 = seg_dport seg1"
      "v4_get_src_ipaddr (ar_packet a2) = v4_get_src_ipaddr (ar_packet a1)"
      "v4s_get_src_addr R (v4s_set_dst_addr R (v4_get_src_ipaddr (ar_packet a1)) (ts_ipv4 e)) = v4_get_dst_ipaddr (ar_packet a2)"
      "block_for E'' n2 s2 = (Some b2, m2)" "\<not> packetBufferFull E'' s2"
      "input E'' (Some (queued_packet b2 seg2 n2)) (s2\<lparr>mempool := m2\<rparr>) = Inr s3"
  shows "\<exists>d'. listen_call R [(E, [(E', [a1])], [(E'', [a2])])] p d = Some (Inr (True, d')) \<and> tcp_lists d' [p] ls \<and>
    ts_socket (entry d' p) = s3 \<and> state s3 = ESTABLISHED \<and> sport s3 = seg_dport seg1 \<and> dport s3 = seg_sport seg1 \<and>
    seqnum_unacked s3 = seqnum_next s3 \<and> getAckNum E'' s3 = q + 1"
proof -
  obtain d1 where d1: "listen_call R [(E, [(E', [a1])], [(E'', [a2])])] p d = lbind (wait_for_syn R [(E', [a1])] p d1) (\<lambda>d.
      lbind (demux_recv_loop R [(E'', [a2])] p d) (\<lambda>d.
      lbind (Some (deref p (tcp_sockets d))) (\<lambda>e.
      if isEstablished (ts_socket e) then listen_call R [] p d else lbind (tcp_unbind p d) (listen_call R [] p))))"
    "tcp_lists d1 [] (p # ls)" "ts_socket (entry d1 p) = snd (tcp_listen E (ts_socket e))" "\<And>q. ts_ipv4 (entry d1 q) = ts_ipv4 (entry d q)"
    by (rule listen_call_start [OF d(1,2) _ d(4,5), of R E "[(E', [a1])]" "[(E'', [a2])]" "[]"]) (use d(3) in \<open>simp, blast\<close>)
  note f = tcp_listen_fields [OF d(5), of E]
  let ?pk1 = "queued_packet b1 seg1 n1" and ?pk2 = "queued_packet b2 seg2 n2"
  have pk: "is_syn q (pk_segment ?pk1)" "is_ack q2 (seqnum_next s2) (pk_segment ?pk2)"
    using syn(2) ack(2) by (simp_all add: queued_packet_def is_syn_def is_ack_def has_RST_def has_SYN_def has_ACK_def)
  note hs = server_handshake [OF d(5,7,6) pk(1) answer pk(2) ack(9)]
  have s1: "syn_for E' R a1 seg1 n1 b1 m1 p [] d1"
    using syn(1) d(2) d1(3) f unfolding syn_for_def by (simp add: packetBufferFull_def block_for_def)
  have port: "sport (ts_socket e) = seg_dport seg1" using syn(1) d(2) by (simp add: syn_for_def)
  obtain d4 where d4: "wait_for_syn R [(E', [a1])] p d1 = Some (Inr d4)" "tcp_lists d4 [p] ls" "ts_socket (entry d4 p) = s2"
      "ts_ipv4 (entry d4 p) = v4s_set_dst_addr R (v4_get_src_ipaddr (ar_packet a1)) (ts_ipv4 e)"
    using syn_phase [OF d1(2) s1, of s2] d1(3,4) f d(2,4,6) answer by auto
  have "ipv4_qualified R (ar_packet a2) seg2 (entry d4 p)"
    using d4(3,4) hs(1) port ack(3-6) by (simp add: ipv4_qualified_def)
  then obtain d6 where d6: "demux_recv_loop R [(E'', [a2])] p d4 = Some (Inr d6)" "tcp_lists d6 [p] ls" "ts_socket (entry d6 p) = s3"
      "tcp_sockets d6 p \<noteq> None"
    using segment_phase [OF d4(2) ack(1), of R E'' b2 m2 s3] d4(3) hs ack(7-9) by auto
  have "listen_call R [(E, [(E', [a1])], [(E'', [a2])])] p d = Some (Inr (True, d6))"
    unfolding d1(1) d4(1) using d6 hs(2) by auto
  then show ?thesis using d6 hs(2) port by auto
qed

subsection \<open>Where the lists break\<close>

text \<open>A listening socket whose answer could not be sent, for want of memory, stays bound. When the client repeats its SYN, \<open>bind\<close>
  finds the socket itself in the list and refuses, and the socket is put into the listening list although it is still
  in the other one. As both lists use one pointer, the bound list now goes on with the listening sockets, and all other
  bound sockets have left it.\<close>

theorem repeated_syn_merges_lists:
  assumes "tcp_lists d (p # bs) ls" and "sport (ts_socket (entry d p)) \<noteq> UNUSED_PORT"
    and "freeReceivedSegment E pk ((ts_socket (entry d p))\<lparr>dport := seg_sport (pk_segment pk)\<rparr>) = Inr s"
  shows "\<exists>d'. accept_syn E pk p d = Some (Inr d') \<and> tcp_head_listen_socket d' = Some p \<and>
    list_chain ts_next (tcp_sockets d') (tcp_head_socket d') (p # ls)"
proof -
  obtain e where e: "tcp_sockets d p = Some e" using lists_sockets [OF assms(1), of p] by auto
  have p: "p \<notin> set ls" "tcp_head_socket d = Some p" using assms(1) by (simp_all add: tcp_lists_def)
  let ?d1 = "update_tcp p (at_tcp (tcp_set_dport (seg_sport (pk_segment pk)))) d" and ?d2 = "update_tcp p (at_tcp (\<lambda>_. s))"
  have bind: "tcp_bind p ?d1 = Some (Inr (False, ?d1))"
    using e p(2) assms(2) by (simp add: tcp_bind_def bind_check_hit tcp_set_dport_def)
  have "sport s = sport ((ts_socket e)\<lparr>dport := seg_sport (pk_segment pk)\<rparr>)"
    using yieldsD [OF frame_free assms(3)] e by (simp add: frame_def)
  then have sp: "sport s \<noteq> UNUSED_PORT" using assms(2) e by simp
  have l: "tcp_lists (?d2 ?d1) (p # bs) ls" using assms(1) by (simp add: update_tcp_lists)
  have e2: "tcp_sockets (?d2 ?d1) p = Some (at_tcp (\<lambda>_. s) (at_tcp (tcp_set_dport (seg_sport (pk_segment pk))) e))" using e by simp
  obtain head h where pu: "list_push tcp_setNext p (tcp_head_listen_socket (?d2 ?d1)) (tcp_sockets (?d2 ?d1)) = (head, h)" by fastforce
  have ch: "list_chain ts_next (tcp_sockets (?d2 ?d1)) (tcp_head_listen_socket (?d2 ?d1)) ls" using l by (simp add: tcp_lists_def)
  have ne: "tcp_sockets (?d2 ?d1) p \<noteq> None" using e by simp
  note r = tcp_list.push_chain [OF ch ne p(1) pu]
  have "on_socket (freeReceivedSegment E pk) p ?d1 = Inr (?d2 ?d1)"
    using e assms(3) by (simp add: on_socket_def tcp_set_dport_def)
  then have "accept_syn E pk p d = Some (Inr ((?d2 ?d1)\<lparr>tcp_head_listen_socket := head, tcp_sockets := h\<rparr>))"
    unfolding accept_syn_def bind using e2 sp pu by (simp add: demux_listen_def del: update_tcp_simps)
  then show ?thesis using r(1,2) p(2) by auto
qed

text \<open>Listening on a connection that the peer has closed follows a null pointer. A socket in the state CLOSEWAIT is not
  established, so the advice puts it into the listening list, and since it neither listens nor waits, takes it out of the
  bound list at once; the second time round the bound list is empty.\<close>

theorem listen_half_closed_crashes:
  assumes "tcp_lists d [p] []" and "state (ts_socket (entry d p)) = CLOSEWAIT" and "\<not> waiting (ts_socket (entry d p))"
    and "sport (ts_socket (entry d p)) \<noteq> UNUSED_PORT"
  shows "listen_call R ((E, xs, ys) # (E', xs', ys') # zs) p d = Some (Inl NullDeref)"
proof -
  obtain e where e: "tcp_sockets d p = Some e" using lists_sockets [OF assms(1), of p] by auto
  have heads: "tcp_head_socket d = Some p" "tcp_head_listen_socket d = None" using assms(1) by (simp_all add: tcp_lists_def)
  have idle: "wait_for_syn R xs p d' = Some (Inr d')" "demux_recv_loop R xs p d' = Some (Inr d')"
    if "tcp_sockets d' p = Some e'" "state (ts_socket e') \<noteq> LISTEN" "\<not> waiting (ts_socket e')" for xs d' e'
    using that by (cases xs; auto)+
  have same: "snd (tcp_listen E s) = s" if "state s = CLOSEWAIT" for E s using that by (simp add: tcp_listen_def)
  have step: "listen_call R ((E, xs, ys) # zs) p d' =
      lbind (tcp_unbind p (d'\<lparr>tcp_head_listen_socket := Some p, tcp_sockets := update_at p (tcp_setNext (tcp_head_listen_socket d')) (tcp_sockets d')\<rparr>))
        (listen_call R zs p)"
    if d': "tcp_sockets d' p = Some e'" "ts_socket e' = ts_socket e" for d' e' E xs ys zs
  proof -
    let ?d = "d'\<lparr>tcp_head_listen_socket := Some p, tcp_sockets := update_at p (tcp_setNext (tcp_head_listen_socket d')) (tcp_sockets d')\<rparr>"
    have e': "tcp_sockets ?d p = Some (tcp_setNext (tcp_head_listen_socket d') e')" using d'(1) by simp
    have "update_tcp p (at_tcp (\<lambda>_. ts_socket e)) ?d = ?d" using update_tcp_same [OF e'] d'(2) by simp
    then have "on_socket (\<lambda>s. Inr (snd (tcp_listen E s))) p ?d = Inr ?d"
      using e' d'(2) same assms(2) e by (simp add: on_socket_def)
    then show ?thesis
      using d' e assms(2-4) idle [OF e', of xs] idle [OF e', of ys] e' by (simp add: demux_listen_def list_push_def)
  qed
  let ?d1 = "d\<lparr>tcp_head_listen_socket := Some p, tcp_sockets := update_at p (tcp_setNext None) (tcp_sockets d)\<rparr>"
  have "tcp_unbind p ?d1 = Some (Inr (?d1\<lparr>tcp_head_socket := None\<rparr>))"
    using heads e by (simp add: tcp_unbind_def list_remove_def)
  moreover have "tcp_unbind p (d'\<lparr>tcp_head_listen_socket := x, tcp_sockets := h\<rparr>) = Some (Inl NullDeref)" if "tcp_head_socket d' = None" for d' x h
    using that by (simp add: tcp_unbind_def tcp_list.remove_empty)
  ultimately show ?thesis
    using step [OF e refl, of E xs ys "(E', xs', ys') # zs"] heads e step [of "?d1\<lparr>tcp_head_socket := None\<rparr>" "tcp_setNext None e" E' xs' ys' zs]
    by simp
qed

subsection \<open>Resets\<close>

text \<open>A connection attempt to a closed port is refused over IPv4 but not over IPv6. The reset acknowledges the SYN and the length of
  the segment; over IPv4 that is the length of its data, over IPv6 the TCP header is counted as well. The client compares
  the acknowledged number with the one it will use next: it closes on the reset of IPv4, and drops that of IPv6 and
  keeps on trying.\<close>

theorem ipv6_reset_ignored:
  assumes "tcp_decode tcp = Inr seg" and "is_syn q seg" and "len \<noteq> 0" and "state s = SYNSENT" and "seqnum_next s = q + 1"
    and "v4_get_protocol packet = IP_TYPE_TCP"
    and "ucast (v4_get_total_len packet) = (ucast (v4_get_ihl packet) + ucast (get_header_len seg)) * (4 :: u32)"
  shows "\<exists>r6 r4. ipv6_tcp_reset proceed6 (Some raw) tcp len IP_TYPE_TCP d = Some (Inr ((True, Answered r6), d)) \<and>
    ipv4_tcp_reset proceed4 (Some raw) packet tcp d = Some (Inr (Answered r4, d)) \<and>
    (\<forall>E pk s'. pk_segment pk = r6 \<and> input E (Some pk) s = Inr s' \<longrightarrow> state s' = SYNSENT) \<and>
    (\<forall>E pk s'. pk_segment pk = r4 \<and> input E (Some pk) s = Inr s' \<longrightarrow> state s' = CLOSED)"
proof -
  let ?r = "\<lambda>n. prepareResponse seg n raw"
  have syn: "has_SYN seg" "\<not> has_ACK seg" "\<not> has_RST seg" "seg_seqnum seg = q" using assms(2) by (simp_all add: is_syn_def)
  have r: "has_RST (?r n)" "has_ACK (?r n)" "\<not> has_SYN (?r n)" "seg_acknum (?r n) = q + n + 1" for n
    using reset_answers_segment [of seg n raw] syn by (simp_all add: Let_def)
  have "ipv6_tcp_reset proceed6 (Some raw) tcp len IP_TYPE_TCP d = Some (Inr ((True, Answered (?r len)), d))"
    using assms(1) syn by (simp add: ipv6_tcp_reset_def)
  moreover have "ipv4_tcp_reset proceed4 (Some raw) packet tcp d = Some (Inr (Answered (?r 0), d))"
    using assms(1,6,7) syn by (simp add: ipv4_tcp_reset_def)
  moreover have "state s' = SYNSENT" if "pk_segment pk = ?r len" "input E (Some pk) s = Inr s'" for E pk s'
  proof -
    have "synsent_in E (Some pk) s = obind (freeReceivedSegment E pk s) (\<lambda>s. Inr s)"
      using that(1) r [of len] assms(3,5) yieldsD [OF frame_free [of E pk s]]
      by (cases "freeReceivedSegment E pk s") (auto simp: synsent_in_def Let_def frame_fields)
    then show ?thesis using that(2) assms(4) yieldsD [OF frame_free [of E pk s]]
      by (cases "freeReceivedSegment E pk s") (auto simp: input_def frame_fields)
  qed
  moreover have "state s' = CLOSED" if "pk_segment pk = ?r 0" "input E (Some pk) s = Inr s'" for E pk s'
  proof -
    have "synsent_in E (Some pk) s = obind (freeReceivedSegment E pk s) (abort E)"
      using that(1) r [of 0] assms(5) yieldsD [OF frame_free [of E pk s]]
      by (cases "freeReceivedSegment E pk s") (auto simp: synsent_in_def Let_def frame_fields)
    then show ?thesis using that(2) assms(4) yieldsD [OF abort_state]
      by (cases "freeReceivedSegment E pk s") (auto simp: input_def)
  qed
  ultimately show ?thesis by blast
qed

subsection \<open>A concrete server\<close>

text \<open>A socket at 0 with port 80 that is closed, one at 1 that is bound with the ports 22 and 7, on one interface with
  address 1.\<close>

definition witness_entry :: "tcp_socket \<Rightarrow> tcp_entry" where
  "witness_entry s = \<lparr>ts_next = None, ts_socket = s,
     ts_ipv4 = \<lparr>v4s_interface = None, v4s_using_gateway = False, v4s_dst_addr = 0, v4s_id = 0\<rparr>,
     ts_ipv6 = \<lparr>v6s_interface = None, v6s_src_addr = \<lparr>ipaddrB8 = replicate 16 0\<rparr>, v6s_dst_addr = \<lparr>ipaddrB8 = replicate 16 0\<rparr>, v6s_hoplimit = 64\<rparr>\<rparr>"

definition witness_server :: tcp_socket where "witness_server = tcp_set_sport 80 (witness_socket witness_raw)"

definition witness_tcp_sockets :: "tcp_entry sockets" where
  "witness_tcp_sockets p =
     (if p = 0 then Some (witness_entry witness_server)
      else if p = 1 then Some (witness_entry (tcp_set_dport 7 (tcp_set_sport 22 (witness_socket witness_raw))))
      else None)"

definition witness_tables :: "nat option \<Rightarrow> tcp_demux" where
  "witness_tables bound =
     \<lparr>tcp_last_default_port = 5000, tcp_head_socket = bound, tcp_head_listen_socket = None, tcp_sockets = witness_tcp_sockets\<rparr>"

definition witness_router :: v4_router where
  "witness_router = \<lparr>interfaces = [\<lparr>if_ipv4_addr = 1, if_ipv4_subnetmask = 0, if_ipv4_up = True\<rparr>], ipv4_gateway_addr = 0\<rparr>"

text \<open>Its client has address 2 and port 1000.\<close>

definition witness_ipv4 :: IPv4_Packet where
  "witness_ipv4 = \<lparr>v4_ihl = 5, v4_version = 4, v4_tos = 0, v4_total_len = htons 40, v4_id = 0, v4_flags_offset = 0, v4_ttl = 64, v4_protocol = 6,
     v4_hdr_checksum = 0, v4_src = 2, v4_dst = 1, v4_data = []\<rparr>"

definition witness_arrival :: "u8 list \<Rightarrow> tcp_arrival" where
  "witness_arrival bs = \<lparr>ar_interface = hd (interfaces witness_router), ar_packet = witness_ipv4, ar_tcp = bs, ar_len = 40, ar_buffer = None\<rparr>"

definition syn_bytes :: "u8 list" where "syn_bytes = [3, 232, 0, 80, 0, 0, 0, 9, 0, 0, 0, 0, 80, 2, 0, 100, 168, 62, 0, 0]"
definition ack_bytes :: "u8 list" where "ack_bytes = [3, 232, 0, 80, 0, 0, 0, 10, 0, 0, 4, 227, 80, 16, 0, 100, 163, 76, 0, 0]"

definition client_syn :: tcp_segment where
  "client_syn = \<lparr>seg_sport = 1000, seg_dport = 80, seg_seqnum = 9, seg_acknum = 0, seg_header_len = 0x50, seg_flags = 2, seg_window = 100,
     seg_checksum = 43070, seg_urgend_ptr = 0, seg_data = []\<rparr>"

definition client_ack :: tcp_segment where
  "client_ack = \<lparr>seg_sport = 1000, seg_dport = 80, seg_seqnum = 10, seg_acknum = 1251, seg_header_len = 0x50, seg_flags = 16, seg_window = 100,
     seg_checksum = 41804, seg_urgend_ptr = 0, seg_data = []\<rparr>"

lemma client_segments:
  "valid_arrival (witness_arrival syn_bytes) client_syn 20" "valid_arrival (witness_arrival ack_bytes) client_ack 20"
  "is_syn 9 client_syn" "is_ack 10 1251 client_ack"
  by code_simp+

lemma witness_tables_lists: "tcp_lists (witness_tables None) [] []" "tcp_lists (witness_tables (Some 1)) [1] []"
  by (simp_all add: tcp_lists_def witness_tables_def witness_tcp_sockets_def witness_entry_def)

lemma witness_server_fields [simp]: "sport witness_server = 80" "state witness_server = CLOSED" "packetbuffer witness_server = []" "rb_empty witness_server"
  by (simp_all add: witness_server_def tcp_set_sport_def witness_socket_def new_TCP_Socket_def resetSocketState_def rb_empty_def TCP_ReceiveBuffer_def)

lemma witness_entries [simp]: "tcp_sockets (witness_tables b) 0 = Some (witness_entry witness_server)" "ts_socket (witness_entry s) = s"
  by (simp_all add: witness_tables_def witness_tcp_sockets_def witness_entry_def)

lemma witness_ports [simp]: "ports_at (witness_tables b) 0 = (80, 0)" "ports_at (witness_tables b) 1 = (22, 7)"
  by (simp_all add: ports_at_def witness_tables_def witness_tcp_sockets_def witness_entry_def witness_server_def tcp_set_sport_def tcp_set_dport_def
      witness_socket_def new_TCP_Socket_def resetSocketState_def UNUSED_PORT_def)

theorem tcp_bind_exact_witness: "tcp_bind 0 (witness_tables (Some 1)) = None"
  using tcp_bind_exact [OF witness_tables_lists(2), of 0 "witness_entry witness_server"] witness_ports
  by (simp add: UNUSED_PORT_def)

theorem tcp_tables_refine_lists_witness:
  "(\<exists>d'. tcp_unbind 1 (witness_tables (Some 1)) = Some (Inr d') \<and> tcp_lists d' [] []) \<and> deaf 0 (witness_tables (Some 1)) = Some (Inl NullDeref) \<and>
   (\<exists>d'. demux_listen 0 (witness_tables (Some 1)) = Inr (True, d') \<and> tcp_lists d' [1] [0])"
  using tcp_tables_refine_lists [OF witness_tables_lists(2), where p = 1]
    tcp_tables_refine_lists [OF witness_tables_lists(2), where p = 0 and e = "witness_entry witness_server"]
  by (auto simp: UNUSED_PORT_def)

text \<open>The server accepts the client; its answer and the rest of its pool are computed.\<close>

definition witness_accept :: "(nat \<times> basic_mempool \<times> tcp_socket \<times> nat \<times> basic_mempool \<times> tcp_socket) outcome" where
  "witness_accept =
     (case block_for witness_env 20 witness_server of (Some b1, m1) \<Rightarrow>
        obind (input witness_env (Some (queued_packet b1 client_syn 20))
                 ((snd (tcp_listen witness_env witness_server))\<lparr>mempool := m1, dport := 1000\<rparr>)) (\<lambda>s2.
        case block_for witness_env 20 s2 of (Some b2, m2) \<Rightarrow>
          obind (input witness_env (Some (queued_packet b2 client_ack 20)) (s2\<lparr>mempool := m2\<rparr>)) (\<lambda>s3. Inr (b1, m1, s2, b2, m2, s3))
        | _ \<Rightarrow> Inl OutOfBounds)
      | _ \<Rightarrow> Inl OutOfBounds)"

lemma witness_accept_ok:
  "case witness_accept of Inl _ \<Rightarrow> False | Inr (b1, m1, s2, b2, m2, s3) \<Rightarrow> state s2 = SYNRCVD \<and> seqnum_next s2 = 1251 \<and> packetbuffer s2 = []"
  by code_simp

lemma witness_accept_steps:
  obtains b1 m1 s2 b2 m2 s3 where "block_for witness_env 20 witness_server = (Some b1, m1)"
    and "input witness_env (Some (queued_packet b1 client_syn 20)) ((snd (tcp_listen witness_env witness_server))\<lparr>mempool := m1, dport := 1000\<rparr>) = Inr s2"
    and "state s2 = SYNRCVD" and "seqnum_next s2 = 1251" and "packetbuffer s2 = []" and "block_for witness_env 20 s2 = (Some b2, m2)"
    and "input witness_env (Some (queued_packet b2 client_ack 20)) (s2\<lparr>mempool := m2\<rparr>) = Inr s3"
proof -
  obtain b1 m1 s2 b2 m2 s3 where r: "witness_accept = Inr (b1, m1, s2, b2, m2, s3)" "state s2 = SYNRCVD" "seqnum_next s2 = 1251" "packetbuffer s2 = []"
    using witness_accept_ok by (auto split: sum.splits)
  then show thesis
    by (intro that [of b1 m1 s2 b2 m2 s3]) (auto simp: witness_accept_def obind_def split: prod.splits option.splits sum.splits)
qed

lemma witness_room: "packetbuffer s = [] \<Longrightarrow> \<not> packetBufferFull witness_env s"
  by (simp add: packetBufferFull_def witness_env_def BUFFERSIZE_def)

lemma witness_syn_for:
  "block_for witness_env 20 witness_server = (Some b, m) \<Longrightarrow>
    syn_for witness_env witness_router (witness_arrival syn_bytes) client_syn 20 b m 0 [] (witness_tables x)"
  using client_segments(1) witness_room [of witness_server]
  by (simp add: syn_for_def) (simp add: client_syn_def has_SYN_def SYN_FLAG_def)

theorem first_connection_established_witness:
  "\<exists>d'. listen_call witness_router [(witness_env, [(witness_env, [witness_arrival syn_bytes])], [(witness_env, [witness_arrival ack_bytes])])] 0
      (witness_tables None) = Some (Inr (True, d')) \<and> tcp_lists d' [0] [] \<and> state (ts_socket (entry d' 0)) = ESTABLISHED"
proof -
  obtain b1 m1 s2 b2 m2 s3 where r: "block_for witness_env 20 witness_server = (Some b1, m1)"
    "input witness_env (Some (queued_packet b1 client_syn 20)) ((snd (tcp_listen witness_env witness_server))\<lparr>mempool := m1, dport := 1000\<rparr>) = Inr s2"
    "state s2 = SYNRCVD" "seqnum_next s2 = 1251" "packetbuffer s2 = []" "block_for witness_env 20 s2 = (Some b2, m2)"
    "input witness_env (Some (queued_packet b2 client_ack 20)) (s2\<lparr>mempool := m2\<rparr>) = Inr s3"
    by (rule witness_accept_steps)
  have ports: "seg_sport client_syn = 1000" "seg_sport client_ack = 1000" "seg_dport client_syn = 80" "seg_dport client_ack = 80"
    by (simp_all add: client_syn_def client_ack_def)
  have route: "v4s_get_src_addr witness_router (v4s_set_dst_addr witness_router 2 (ts_ipv4 (witness_entry witness_server))) = 1" by code_simp
  have src: "v4_get_src_ipaddr (ar_packet (witness_arrival bs)) = 2" "v4_get_dst_ipaddr (ar_packet (witness_arrival bs)) = 1" for bs
    by (simp_all add: witness_arrival_def witness_ipv4_def v4_get_src_ipaddr_def v4_get_dst_ipaddr_def)
  have "\<exists>d'. listen_call witness_router [(witness_env, [(witness_env, [witness_arrival syn_bytes])], [(witness_env, [witness_arrival ack_bytes])])] 0
      (witness_tables None) = Some (Inr (True, d')) \<and> tcp_lists d' [0] [] \<and> ts_socket (entry d' 0) = s3 \<and> state s3 = ESTABLISHED \<and>
      sport s3 = seg_dport client_syn \<and> dport s3 = seg_sport client_syn \<and> seqnum_unacked s3 = seqnum_next s3 \<and> getAckNum witness_env s3 = 9 + 1"
    by (rule first_connection_established [where ?q2.0 = 10, OF witness_tables_lists(1) witness_entries(1) _ _ _ _ _ witness_syn_for [OF r(1)] client_segments(3) _ r(3)
        client_segments(2) _ _ _ _ _ r(6) witness_room [OF r(5)] r(7)])
       (simp_all add: UNUSED_PORT_def ports r(2,4) src route client_segments(4))
  then show ?thesis by blast
qed

theorem second_connection_hangs_witness:
  "listen_call witness_router ((witness_env, (witness_env, [witness_arrival syn_bytes]) # [], []) # []) 0 (witness_tables (Some 1)) = None"
proof -
  obtain b1 m1 where r: "block_for witness_env 20 witness_server = (Some b1, m1)" by (rule witness_accept_steps)
  have "find (\<lambda>p. ipv4_qualified witness_router (ar_packet (witness_arrival syn_bytes)) client_syn (entry (witness_tables (Some 1)) p)) [1] = None"
    using witness_ports(2) [of "Some 1"] by (simp add: ipv4_qualified_def ports_at_def client_syn_def)
  then have syn: "syn_for witness_env witness_router (witness_arrival syn_bytes) client_syn 20 b1 m1 0 [1] (witness_tables (Some 1))"
    using witness_syn_for [OF r, of "Some 1"] unfolding syn_for_def by blast
  then show ?thesis
    using second_connection_hangs [OF witness_tables_lists(2) witness_entries(1) _ _ _ _ syn] witness_ports
    by (simp add: UNUSED_PORT_def client_syn_def del: listen_call.simps)
qed


theorem listen_half_closed_crashes_witness:
  "listen_call witness_router [(witness_env, [], []), (witness_env, [], [])] 0
     (update_tcp 0 (at_tcp (\<lambda>s. s\<lparr>state := CLOSEWAIT\<rparr>)) ((witness_tables None)\<lparr>tcp_head_socket := Some 0\<rparr>)) = Some (Inl NullDeref)"
proof -
  let ?d = "(witness_tables None)\<lparr>tcp_head_socket := Some 0\<rparr>"
  have e: "tcp_sockets ?d 0 = Some (witness_entry witness_server)" by simp
  have "tcp_lists ?d [0] []" by (simp add: tcp_lists_def witness_entry_def) (simp add: witness_tables_def)
  then have "tcp_lists (update_tcp 0 (at_tcp (\<lambda>s. s\<lparr>state := CLOSEWAIT\<rparr>)) ?d) [0] []" by (simp add: update_tcp_lists)
  then show ?thesis
    by (rule listen_half_closed_crashes)
       (simp_all add: UNUSED_PORT_def, simp add: witness_server_def tcp_set_sport_def witness_socket_def new_TCP_Socket_def resetSocketState_def)
qed

theorem ipv6_reset_ignored_witness:
  "\<exists>r6 r4. ipv6_tcp_reset (\<lambda>d. None) (Some client_syn) syn_bytes 20 IP_TYPE_TCP (witness_tables None) =
      Some (Inr ((True, Answered r6), witness_tables None)) \<and>
    ipv4_tcp_reset (\<lambda>d. None) (Some client_syn) witness_ipv4 syn_bytes (witness_tables None) = Some (Inr (Answered r4, witness_tables None)) \<and>
    (\<forall>E pk s'. pk_segment pk = r6 \<and> input E (Some pk) (witness_server\<lparr>state := SYNSENT, seqnum_next := 10\<rparr>) = Inr s' \<longrightarrow> state s' = SYNSENT) \<and>
    (\<forall>E pk s'. pk_segment pk = r4 \<and> input E (Some pk) (witness_server\<lparr>state := SYNSENT, seqnum_next := 10\<rparr>) = Inr s' \<longrightarrow> state s' = CLOSED)"
proof -
  note v = client_segments(1) [unfolded valid_arrival_def witness_arrival_def tcp_arrival.select_convs]
  have len: "ucast (v4_get_total_len witness_ipv4) = (ucast (v4_get_ihl witness_ipv4) + ucast (get_header_len client_syn)) * (4 :: u32)" by code_simp
  show ?thesis
    by (rule ipv6_reset_ignored [OF _ client_segments(3) _ _ _ _ len]) (use v in simp_all)
qed

theorem repeated_syn_merges_lists_witness:
  "\<exists>d'. accept_syn witness_env (witness_packet client_syn) 1 (witness_tables (Some 1)) = Some (Inr d') \<and>
     list_chain ts_next (tcp_sockets d') (tcp_head_socket d') [1]"
proof -
  have p: "sport (ts_socket (entry (witness_tables (Some 1)) 1)) \<noteq> UNUSED_PORT"
    using witness_ports(2) [of "Some 1"] by (simp add: ports_at_def UNUSED_PORT_def)
  have "\<exists>s. freeReceivedSegment witness_env (witness_packet client_syn)
      ((ts_socket (entry (witness_tables (Some 1)) 1))\<lparr>dport := seg_sport (pk_segment (witness_packet client_syn))\<rparr>) = Inr s"
    by (simp add: freeReceivedSegment_def mem_free_def mp_free_def smp_free_def witness_packet_def witness_tables_def witness_tcp_sockets_def
        witness_entry_def tcp_set_sport_def tcp_set_dport_def witness_socket_def new_TCP_Socket_def resetSocketState_def BasicMempool_def
        SingleMempool_def witness_pool(1) BasicMempool_config_def SIZE_BIG_def SIZE_SMALL_def COUNT_BIG_def COUNT_SMALL_def)
  then show ?thesis using repeated_syn_merges_lists [OF witness_tables_lists(2) p] by blast
qed

end
