(* ===== verification/ARP_Cache.thy ===== *)
theory ARP_Cache
  imports Link_Frames IPv4_Layer
begin

text \<open>
  Address resolution: the cache of \<^verbatim>\<open>arp/ARP_Cache.h\<close> with its slices (\<^verbatim>\<open>arp/ipv4\<close>), the way of an ARP packet to it
  (\<^verbatim>\<open>arp/ARP_Ethernet.ah\<close>, \<^verbatim>\<open>arp/ipv4/IPv4_ARP_Send_Receive.ah\<close>), requests, replies and the waiting lookup
  (\<^verbatim>\<open>IPv4_ARP_Send.ah\<close>, \<^verbatim>\<open>IPv4_ARP_Receive.ah\<close>, \<^verbatim>\<open>IPv4_ARP_Static.ah\<close>), and the time after which all entries are forgotten
  (\<^verbatim>\<open>ARP_Cache_Global_Timeout.ah\<close>). What is sent is the result of an operation, a list of frames. A lookup waits in a
  loop for frames that arrive meanwhile; they and the clock are arguments, and a result \<open>None\<close> means that the loop is
  still running when they are used up.
\<close>

subsection \<open>The cache\<close>

record cache_entry =
  ce_ipv4_addr :: u32
  ce_hw_addr :: "u8 list"

definition MAX_CACHE_ENTRIES :: nat where "MAX_CACHE_ENTRIES = 5"
definition MAX_STATIC_ENTRIES :: nat where "MAX_STATIC_ENTRIES = 1"
definition MAX_PACKETS :: nat where "MAX_PACKETS = 1"

record arp_cache =
  entries :: "cache_entry list"
  static_entries :: "cache_entry list"
  packet_pool :: "Eth_ARP_IPv4_Packet list"
  timeout_window :: u64

text \<open>An interface as the cache sees it: the pointer to it, its hardware address, and what the IPv4 slice adds.\<close>

record eth_interface = v4_interface +
  if_pointer :: nat
  if_hw_addr :: "u8 list"

definition ipv4_clear :: "arp_cache \<Rightarrow> arp_cache" where
  "ipv4_clear c = c\<lparr>entries := map (\<lambda>e. e\<lparr>ce_ipv4_addr := 0\<rparr>) (entries c)\<rparr>"

fun find_entry :: "u32 \<Rightarrow> cache_entry list \<Rightarrow> u8 list option" where
  "find_entry addr [] = None"
| "find_entry addr (e # es) = (if ce_ipv4_addr e = addr then Some (ce_hw_addr e) else find_entry addr es)"

definition ipv4_find :: "u32 \<Rightarrow> arp_cache \<Rightarrow> u8 list option" where
  "ipv4_find addr c = find_entry addr (entries c)"

text \<open>The loop of \<open>ipv4_update\<close> from position \<open>i\<close> on: the index selected, if any, and the first free one.\<close>

fun scan_entries :: "u32 \<Rightarrow> nat \<Rightarrow> nat option \<Rightarrow> cache_entry list \<Rightarrow> nat option \<times> nat option" where
  "scan_entries addr i free [] = (None, free)"
| "scan_entries addr i free (e # es) =
     (if ce_ipv4_addr e = addr then (Some i, free)
      else if ce_ipv4_addr e = 0 then scan_entries addr (Suc i) (case free of None \<Rightarrow> Some i | Some j \<Rightarrow> Some j) es
      else scan_entries addr (Suc i) free es)"

definition selected_index :: "u32 \<Rightarrow> arp_cache \<Rightarrow> nat" where
  "selected_index addr c =
     (case scan_entries addr 0 None (entries c) of
        (Some i, _) \<Rightarrow> i
      | (None, Some i) \<Rightarrow> i
      | (None, None) \<Rightarrow> 0)"

definition ipv4_update :: "u32 \<Rightarrow> u8 list \<Rightarrow> arp_cache \<Rightarrow> arp_cache" where
  "ipv4_update addr hw_addr c =
     c\<lparr>entries := (entries c)[selected_index addr c := \<lparr>ce_ipv4_addr = addr, ce_hw_addr = take 6 hw_addr\<rparr>]\<rparr>"

subsection \<open>Static entries\<close>

fun static_free :: "nat \<Rightarrow> u32 \<Rightarrow> cache_entry list \<Rightarrow> nat option" where
  "static_free i addr [] = None"
| "static_free i addr (e # es) = (if ce_ipv4_addr e = addr then Some i else static_free (Suc i) addr es)"

definition ipv4_insert :: "u32 \<Rightarrow> u8 list \<Rightarrow> arp_cache \<Rightarrow> bool \<times> arp_cache" where
  "ipv4_insert addr hw_addr c =
     (case static_free 0 0 (static_entries c) of
        None \<Rightarrow> (False, c)
      | Some i \<Rightarrow> (True, c\<lparr>static_entries := (static_entries c)[i := \<lparr>ce_ipv4_addr = addr, ce_hw_addr = take 6 hw_addr\<rparr>]\<rparr>))"

definition ipv4_remove :: "u32 \<Rightarrow> arp_cache \<Rightarrow> arp_cache" where
  "ipv4_remove addr c =
     (case static_free 0 addr (static_entries c) of
        None \<Rightarrow> c
      | Some i \<Rightarrow> c\<lparr>static_entries := (static_entries c)[i := (static_entries c ! i)\<lparr>ce_ipv4_addr := 0\<rparr>]\<rparr>)"

subsection \<open>Requests and replies\<close>

text \<open>\<open>sent\<close> is what the drivers say about the packets of the pool (\<open>hasBeenSent\<close>).\<close>

fun getNextFreePacket :: "(nat \<Rightarrow> bool) \<Rightarrow> nat \<Rightarrow> Eth_ARP_IPv4_Packet list \<Rightarrow> nat option" where
  "getNextFreePacket sent i [] = None"
| "getNextFreePacket sent i (p # ps) = (if arp_isFree (\<lambda>_. sent i) p then Some i else getNextFreePacket sent (Suc i) ps)"

definition send_arp :: "(Eth_ARP_IPv4_Packet \<Rightarrow> Eth_ARP_IPv4_Packet) \<Rightarrow> (nat \<Rightarrow> bool) \<Rightarrow> arp_cache \<Rightarrow> u8 list list \<times> arp_cache" where
  "send_arp fill sent c =
     (case getNextFreePacket sent 0 (packet_pool c) of
        None \<Rightarrow> ([], c)
      | Some i \<Rightarrow> let p = fill (packet_pool c ! i) in ([arp_frame p], c\<lparr>packet_pool := (packet_pool c)[i := p]\<rparr>))"

definition ipv4_request :: "u32 \<Rightarrow> eth_interface \<Rightarrow> (nat \<Rightarrow> bool) \<Rightarrow> arp_cache \<Rightarrow> u8 list list \<times> arp_cache" where
  "ipv4_request addr ifc = send_arp (arp_request (if_pointer ifc) (if_hw_addr ifc) (if_ipv4_addr ifc) addr)"

definition ipv4_reply :: "u8 list \<Rightarrow> u32 \<Rightarrow> eth_interface \<Rightarrow> (nat \<Rightarrow> bool) \<Rightarrow> arp_cache \<Rightarrow> u8 list list \<times> arp_cache" where
  "ipv4_reply src_hwaddr src_ipv4_addr ifc =
     send_arp (arp_reply (if_pointer ifc) (if_hw_addr ifc) (if_ipv4_addr ifc) src_hwaddr src_ipv4_addr)"

subsection \<open>Receiving\<close>

text \<open>\<open>arp\<close> is the memory from the ARP header on, of which \<open>len\<close> bytes were received.\<close>

definition arp_demux :: "u8 list \<Rightarrow> u32 \<Rightarrow> eth_interface \<Rightarrow> (nat \<Rightarrow> bool) \<Rightarrow> arp_cache \<Rightarrow> u8 list list \<times> arp_cache" where
  "arp_demux arp len ifc sent c =
     (if arp_get_protocol_type arp = ARP_PROTOCOL_TYPE_IPV4 then
        if \<not> if_ipv4_up ifc then ([], c)
        else if len < of_nat ARP_IPV4_PACKETSIZE then ([], c)
        else let dst_ipv4_addr = get32 16 (arp_get_payload arp) in
        if if_ipv4_addr ifc = dst_ipv4_addr then
          let src_hw_addr = arp_get_payload arp; src_ipv4_addr = get32 6 (arp_get_payload arp) in
          if arp_get_opcode arp = ARP_REQUEST then ipv4_reply src_hw_addr src_ipv4_addr ifc sent c
          else if arp_get_opcode arp = ARP_REPLY then ([], ipv4_update src_ipv4_addr src_hw_addr c)
          else ([], c)
        else ([], c)
      else ([], c))"

definition arp_ethernet :: "u8 list \<Rightarrow> eth_interface \<Rightarrow> (nat \<Rightarrow> bool) \<Rightarrow> arp_cache \<Rightarrow> u8 list list \<times> arp_cache" where
  "arp_ethernet eth_frame ifc sent c =
     (if eth_get_type eth_frame \<noteq> ETH_TYPE_ARP then ([], c)
      else let framelen = of_nat (length eth_frame) - of_nat ETH_HEADER_SIZE in
      if framelen < of_nat ARP_HEADER_SIZE then ([], c)
      else let packet = eth_get_data eth_frame in
      if arp_get_hw_type packet \<noteq> ARP_HW_TYPE_ETH then ([], c)
      else arp_demux packet framelen ifc sent c)"

text \<open>The driver hands over a frame; a frame that is no ARP packet does not touch the cache.\<close>

definition arp_receive :: "u8 list \<Rightarrow> eth_interface \<Rightarrow> (nat \<Rightarrow> bool) \<Rightarrow> arp_cache \<Rightarrow> u8 list list \<times> arp_cache" where
  "arp_receive frame ifc sent c =
     (if length frame < ETH_HEADER_SIZE \<or> MAX_FRAME_SIZE < length frame then ([], c) else arp_ethernet frame ifc sent c)"

subsection \<open>Lookup\<close>

record arrival =
  av_frame :: "u8 list"
  av_interface :: eth_interface
  av_sent :: "nat \<Rightarrow> bool"

fun arp_arrivals :: "arrival list \<Rightarrow> arp_cache \<Rightarrow> u8 list list \<times> arp_cache" where
  "arp_arrivals [] c = ([], c)"
| "arp_arrivals (a # as) c =
     (case arp_receive (av_frame a) (av_interface a) (av_sent a) c of (out, c) \<Rightarrow>
      case arp_arrivals as c of (out', c) \<Rightarrow> (out @ out', c))"

text \<open>One check of the condition of the loop per element: what arrived before it, and the time.\<close>

fun ipv4_wait :: "u64 \<Rightarrow> u32 \<Rightarrow> (arrival list \<times> u64) list \<Rightarrow> arp_cache \<Rightarrow> (u8 list list \<times> arp_cache) option" where
  "ipv4_wait timeout addr [] c = None"
| "ipv4_wait timeout addr ((as, now) # steps) c =
     (case arp_arrivals as c of (out, c) \<Rightarrow>
      if now < timeout \<and> ipv4_find addr c = None
      then map_option (\<lambda>(out', c). (out @ out', c)) (ipv4_wait timeout addr steps c)
      else Some (out, c))"

text \<open>The attempts: what the drivers say before the request, the time when the wait starts, and its steps.\<close>

fun lookup_attempts ::
    "(u32 \<Rightarrow> u64) \<Rightarrow> u32 \<Rightarrow> eth_interface \<Rightarrow> nat \<Rightarrow> ((nat \<Rightarrow> bool) \<times> u64 \<times> (arrival list \<times> u64) list) list \<Rightarrow> arp_cache \<Rightarrow>
     (u8 list option \<times> u8 list list \<times> arp_cache) option" where
  "lookup_attempts ms_to_ticks addr ifc n [] c =
     (if ipv4_find addr c = None \<and> 0 < n then None else Some (ipv4_find addr c, [], c))"
| "lookup_attempts ms_to_ticks addr ifc n ((sent, now, steps) # xs) c =
     (if ipv4_find addr c = None \<and> 0 < n then
        case ipv4_request addr ifc sent c of (out, c) \<Rightarrow>
        case ipv4_wait (now + ms_to_ticks 1000) addr steps c of
          None \<Rightarrow> None
        | Some (out', c) \<Rightarrow>
            map_option (\<lambda>(hw, out'', c). (hw, out @ out' @ out'', c)) (lookup_attempts ms_to_ticks addr ifc (n - 1) xs c)
      else Some (ipv4_find addr c, [], c))"

definition ipv4_lookup ::
    "(u32 \<Rightarrow> u64) \<Rightarrow> u32 \<Rightarrow> eth_interface \<Rightarrow> ((nat \<Rightarrow> bool) \<times> u64 \<times> (arrival list \<times> u64) list) list \<Rightarrow> arp_cache \<Rightarrow>
     (u8 list option \<times> u8 list list \<times> arp_cache) option" where
  "ipv4_lookup ms_to_ticks addr ifc xs c =
     (case find_entry addr (static_entries c) of
        Some hw \<Rightarrow> Some (Some hw, [], c)
      | None \<Rightarrow> lookup_attempts ms_to_ticks addr ifc 3 xs c)"

definition TIMEOUT_ARP :: u32 where "TIMEOUT_ARP = 20 * 60"

text \<open>The advice before every lookup.\<close>

definition global_timeout :: "(u32 \<Rightarrow> u64) \<Rightarrow> u64 \<Rightarrow> arp_cache \<Rightarrow> arp_cache" where
  "global_timeout ms_to_ticks curr_time c =
     (if timeout_window c < curr_time
      then ipv4_clear (c\<lparr>timeout_window := curr_time + ms_to_ticks (TIMEOUT_ARP * 1000)\<rparr>) else c)"

subsection \<open>A cache that forgets\<close>

text \<open>What its users can rely on: a lookup right after an update finds the value, other keys keep theirs or lose them, and no
  operation invents one. \<open>key\<close> are the keys that can be looked up, \<open>stored\<close> what is kept of a value.\<close>

datatype ('k, 'v) cache_op = Learn 'k 'v | Forget

locale forgetful_map =
  fixes find :: "'k \<Rightarrow> 'c \<Rightarrow> 'v option" and update :: "'k \<Rightarrow> 'v \<Rightarrow> 'c \<Rightarrow> 'c" and clear :: "'c \<Rightarrow> 'c"
    and inv :: "'c \<Rightarrow> bool" and key :: "'k \<Rightarrow> bool" and stored :: "'v \<Rightarrow> 'v"
  assumes inv_update: "inv c \<Longrightarrow> inv (update k v c)"
    and inv_clear: "inv c \<Longrightarrow> inv (clear c)"
    and find_same: "inv c \<Longrightarrow> key k \<Longrightarrow> find k (update k v c) = Some (stored v)"
    and find_other: "inv c \<Longrightarrow> key k \<Longrightarrow> k' \<noteq> k \<Longrightarrow> find k (update k' v c) = Some w \<Longrightarrow> find k c = Some w"
    and find_clear: "inv c \<Longrightarrow> key k \<Longrightarrow> find k (clear c) = None"
begin

fun perform :: "('k, 'v) cache_op \<Rightarrow> 'c \<Rightarrow> 'c" where
  "perform (Learn k v) c = update k v c"
| "perform Forget c = clear c"

text \<open>What a map that forgets nothing would answer.\<close>

fun recall :: "'k \<Rightarrow> ('k, 'v) cache_op list \<Rightarrow> 'v option" where
  "recall k [] = None"
| "recall k (Learn k' v # ops) = (if k' = k then Some v else recall k ops)"
| "recall k (Forget # ops) = None"

lemma perform_inv: "inv c \<Longrightarrow> inv (foldr perform ops c)"
proof (induction ops)
  case (Cons op ops)
  then show ?case by (cases op) (simp_all add: inv_update inv_clear)
qed simp

text \<open>\<open>ops\<close> has the latest operation first.\<close>

lemma find_recall:
  assumes "inv c" and "key k" and "find k c = None" and "find k (foldr perform ops c) = Some w"
  shows "\<exists>v. recall k ops = Some v \<and> w = stored v"
  using assms(4)
proof (induction ops)
  case Nil
  then show ?case using assms(3) by simp
next
  case (Cons op ops)
  have i: "inv (foldr perform ops c)" using assms(1) by (rule perform_inv)
  show ?case
  proof (cases op)
    case (Learn k' v)
    then show ?thesis
      using Cons find_same [OF i assms(2), of v] find_other [OF i assms(2), of k' v w] by (cases "k' = k") auto
  next
    case Forget
    then show ?thesis using Cons.prems find_clear [OF i assms(2)] by simp
  qed
qed

end

subsection \<open>The entries as a map\<close>

definition cache_ok :: "arp_cache \<Rightarrow> bool" where
  "cache_ok c \<longleftrightarrow> length (entries c) = MAX_CACHE_ENTRIES \<and>
     (\<forall>i < length (entries c). \<forall>j < length (entries c).
        ce_ipv4_addr (entries c ! i) \<noteq> 0 \<longrightarrow> ce_ipv4_addr (entries c ! i) = ce_ipv4_addr (entries c ! j) \<longrightarrow> i = j)"

lemma find_entry_Some:
  "find_entry a es = Some hw \<Longrightarrow> \<exists>i < length es. ce_ipv4_addr (es ! i) = a \<and> ce_hw_addr (es ! i) = hw"
proof (induction es)
  case (Cons e es)
  show ?case
  proof (cases "ce_ipv4_addr e = a")
    case True
    then show ?thesis using Cons.prems by (intro exI [of _ 0]) simp
  next
    case False
    then obtain i where "i < length es \<and> ce_ipv4_addr (es ! i) = a \<and> ce_hw_addr (es ! i) = hw" using Cons by auto
    then show ?thesis by (intro exI [of _ "Suc i"]) simp
  qed
qed simp

lemma find_entry_None: "find_entry a es = None \<longleftrightarrow> (\<forall>i < length es. ce_ipv4_addr (es ! i) \<noteq> a)"
  by (induction es) (auto simp: less_Suc_eq_0_disj)

lemma find_at:
  assumes "cache_ok c" and "a \<noteq> 0" and "i < length (entries c)" and "ce_ipv4_addr (entries c ! i) = a"
  shows "ipv4_find a c = Some (ce_hw_addr (entries c ! i))"
proof -
  obtain hw where hw: "find_entry a (entries c) = Some hw" using assms(3,4) find_entry_None by (cases "find_entry a (entries c)") blast+
  then obtain j where j: "j < length (entries c)" "ce_ipv4_addr (entries c ! j) = a" "ce_hw_addr (entries c ! j) = hw"
    using find_entry_Some by blast
  then have "j = i" using assms by (auto simp: cache_ok_def)
  then show ?thesis using hw j by (simp add: ipv4_find_def)
qed

text \<open>The scan finds the position of the address, or that of the first free entry.\<close>

lemma scan_Some: "scan_entries a i free es = (Some j, x) \<Longrightarrow> i \<le> j \<and> j < i + length es \<and> ce_ipv4_addr (es ! (j - i)) = a"
proof (induction es arbitrary: i free)
  case (Cons e es)
  show ?case
  proof (cases "ce_ipv4_addr e = a")
    case True
    then show ?thesis using Cons.prems by simp
  next
    case False
    let ?free = "if ce_ipv4_addr e = 0 then (case free of None \<Rightarrow> Some i | Some j \<Rightarrow> Some j) else free"
    have "scan_entries a (Suc i) ?free es = (Some j, x)" using Cons.prems False by (auto split: if_splits)
    then have "Suc i \<le> j \<and> j < Suc i + length es \<and> ce_ipv4_addr (es ! (j - Suc i)) = a" by (rule Cons.IH)
    then show ?thesis using Suc_diff_Suc [of i j] by auto
  qed
qed simp

lemma scan_None:
  "scan_entries a i free es = (None, f) \<Longrightarrow> (\<forall>k < length es. ce_ipv4_addr (es ! k) \<noteq> a) \<and>
     (case free of Some j \<Rightarrow> f = Some j
      | None \<Rightarrow> (case f of None \<Rightarrow> \<forall>k < length es. ce_ipv4_addr (es ! k) \<noteq> 0
          | Some j \<Rightarrow> i \<le> j \<and> j < i + length es \<and> ce_ipv4_addr (es ! (j - i)) = 0))"
proof (induction es arbitrary: i free)
  case Nil
  then show ?case by (cases free) auto
next
  case (Cons e es)
  have e: "ce_ipv4_addr e \<noteq> a" using Cons.prems by (auto split: if_splits)
  let ?free = "if ce_ipv4_addr e = 0 then Some (case free of None \<Rightarrow> i | Some j \<Rightarrow> j) else free"
  have "scan_entries a (Suc i) ?free es = (None, f)" using Cons.prems e by (auto split: if_splits option.splits)
  note IH = Cons.IH [OF this]
  have all: "\<forall>k < length (e # es). ce_ipv4_addr ((e # es) ! k) \<noteq> a" using IH e by (auto simp: less_Suc_eq_0_disj)
  show ?case
  proof (cases free)
    case (Some j)
    then show ?thesis using IH all by (simp split: if_splits)
  next
    case None
    show ?thesis
    proof (cases "ce_ipv4_addr e = 0")
      case True
      then show ?thesis using IH all None by simp
    next
      case False
      then show ?thesis using IH all None by (auto simp: less_Suc_eq_0_disj nth_Cons' Suc_le_eq split: option.splits)
    qed
  qed
qed

lemma selected_cases:
  assumes "cache_ok c"
  obtains (known) "selected_index a c < length (entries c)" "ce_ipv4_addr (entries c ! selected_index a c) = a"
  | (free) "selected_index a c < length (entries c)" "\<And>k. k < length (entries c) \<Longrightarrow> ce_ipv4_addr (entries c ! k) \<noteq> a"
      "ce_ipv4_addr (entries c ! selected_index a c) = 0"
  | (full) "selected_index a c = 0" "\<And>k. k < length (entries c) \<Longrightarrow> ce_ipv4_addr (entries c ! k) \<noteq> a"
      "\<And>k. k < length (entries c) \<Longrightarrow> ce_ipv4_addr (entries c ! k) \<noteq> 0"
proof -
  obtain s f where s: "scan_entries a 0 None (entries c) = (s, f)" by (cases "scan_entries a 0 None (entries c)")
  show thesis
  proof (cases s)
    case (Some j)
    then show thesis using scan_Some [of a 0 None "entries c" j f] s known by (simp add: selected_index_def)
  next
    case None
    then have n: "\<And>k. k < length (entries c) \<Longrightarrow> ce_ipv4_addr (entries c ! k) \<noteq> a"
        "case f of None \<Rightarrow> \<forall>k < length (entries c). ce_ipv4_addr (entries c ! k) \<noteq> 0
          | Some j \<Rightarrow> j < length (entries c) \<and> ce_ipv4_addr (entries c ! j) = 0"
      using scan_None [of a 0 None "entries c" f] s by (auto split: option.splits)
    show thesis
    proof (cases f)
      case (Some j)
      then show thesis using n None s free by (simp add: selected_index_def)
    next
      case None': None
      then show thesis using n None s full by (simp add: selected_index_def)
    qed
  qed
qed

lemma selected_less: "cache_ok c \<Longrightarrow> selected_index a c < length (entries c)"
  by (cases rule: selected_cases [of c a]) (auto simp: cache_ok_def MAX_CACHE_ENTRIES_def)

text \<open>The selected entry is the only one that has the address.\<close>

lemma selected_unique:
  assumes "cache_ok c" and "a \<noteq> 0" and "k < length (entries c)" and "ce_ipv4_addr (entries c ! k) = a"
  shows "k = selected_index a c"
proof (cases a rule: selected_cases [OF assms(1), case_names known free full])
  case known
  then show ?thesis using assms by (auto simp: cache_ok_def)
qed (use assms in auto)

lemma update_nth:
  "k < length (entries c) \<Longrightarrow> entries (ipv4_update b hw c) ! k =
     (if k = selected_index b c then \<lparr>ce_ipv4_addr = b, ce_hw_addr = take 6 hw\<rparr> else entries c ! k)"
  "length (entries (ipv4_update b hw c)) = length (entries c)"
  by (auto simp: ipv4_update_def nth_list_update)

lemma update_ok: "cache_ok c \<Longrightarrow> cache_ok (ipv4_update a hw c)"
proof -
  assume ok: "cache_ok c"
  show ?thesis
    unfolding cache_ok_def
  proof (intro conjI allI impI)
    show "length (entries (ipv4_update a hw c)) = MAX_CACHE_ENTRIES" using ok by (simp add: cache_ok_def update_nth)
    fix i j
    assume ij: "i < length (entries (ipv4_update a hw c))" "j < length (entries (ipv4_update a hw c))"
      and nz: "ce_ipv4_addr (entries (ipv4_update a hw c) ! i) \<noteq> 0"
      and eq: "ce_ipv4_addr (entries (ipv4_update a hw c) ! i) = ce_ipv4_addr (entries (ipv4_update a hw c) ! j)"
    have u: "\<And>k. k < length (entries c) \<Longrightarrow> a \<noteq> 0 \<Longrightarrow> ce_ipv4_addr (entries c ! k) = a \<Longrightarrow> k = selected_index a c"
      using selected_unique [OF ok] by blast
    show "i = j"
      using ij nz eq u ok unfolding update_nth(2) by (auto simp: update_nth(1) cache_ok_def split: if_splits)
  qed
qed

lemma clear_ok: "cache_ok c \<Longrightarrow> cache_ok (ipv4_clear c)"
  by (simp add: cache_ok_def ipv4_clear_def)

lemma find_update_same: "cache_ok c \<Longrightarrow> a \<noteq> 0 \<Longrightarrow> ipv4_find a (ipv4_update a hw c) = Some (take 6 hw)"
  using find_at [OF update_ok, of c a "selected_index a c" a hw] selected_less [of c a] by (simp add: ipv4_update_def)

lemma find_update_other:
  assumes "cache_ok c" and "a \<noteq> 0" and "b \<noteq> a"
  shows "ipv4_find a (ipv4_update b hw c) = (if ce_ipv4_addr (entries c ! selected_index b c) = a then None else ipv4_find a c)"
proof -
  let ?c = "ipv4_update b hw c"
  show ?thesis
  proof (cases "\<exists>k < length (entries c). k \<noteq> selected_index b c \<and> ce_ipv4_addr (entries c ! k) = a")
    case True
    then obtain k where k: "k < length (entries c)" "k \<noteq> selected_index b c" "ce_ipv4_addr (entries c ! k) = a" by blast
    then have "ce_ipv4_addr (entries c ! selected_index b c) \<noteq> a"
      using assms(1,2) selected_less [OF assms(1), of b] by (auto simp: cache_ok_def)
    then show ?thesis
      using k find_at [OF update_ok [OF assms(1)] assms(2), of k b hw] find_at [OF assms(1,2) k(1,3)] update_nth(1) [of k c b hw] update_nth(2) [of b hw c] by simp
  next
    case False
    then have "ipv4_find a ?c = None"
      using assms(3) by (auto simp: ipv4_find_def find_entry_None update_nth)
    moreover have "ipv4_find a c = None" if "ce_ipv4_addr (entries c ! selected_index b c) \<noteq> a"
      using False that by (auto simp: ipv4_find_def find_entry_None)
    ultimately show ?thesis by simp
  qed
qed

lemma find_clear: "a \<noteq> 0 \<Longrightarrow> ipv4_find a (ipv4_clear c) = None"
  by (simp add: ipv4_find_def ipv4_clear_def find_entry_None)

interpretation arp: forgetful_map ipv4_find ipv4_update ipv4_clear cache_ok "\<lambda>a. a \<noteq> 0" "take 6"
  by unfold_locales
     (simp_all add: update_ok clear_ok find_update_same find_clear, metis find_update_other option.distinct(1))

text \<open>The addresses the cache knows.\<close>

definition arp_map :: "arp_cache \<Rightarrow> u32 \<Rightarrow> u8 list option" where
  "arp_map c a = (if a = 0 then None else ipv4_find a c)"

definition has_free_entry :: "arp_cache \<Rightarrow> bool" where
  "has_free_entry c \<longleftrightarrow> (\<exists>e \<in> set (entries c). ce_ipv4_addr e = 0)"

text \<open>C21: The cache implements a map of at most five addresses. A new address takes a free entry; when there is none it takes the
  place of the first entry, whose address is forgotten, and no other. An address that is known gets its new hardware
  address and nothing else changes, and after \<open>ipv4_clear\<close> nothing is known. Looking up address 0, that of free entries,
  is no lookup in the map.\<close>

theorem arp_cache_refines_map:
  assumes "cache_ok c" and "b \<noteq> 0"
  shows "cache_ok (ipv4_update b hw c) \<and> arp_map (ipv4_update b hw c) =
    (if arp_map c b = None \<and> \<not> has_free_entry c then (arp_map c)(ce_ipv4_addr (entries c ! 0) := None) else arp_map c)(b \<mapsto> take 6 hw) \<and>
    cache_ok (ipv4_clear c) \<and> arp_map (ipv4_clear c) = Map.empty"
proof (intro conjI)
  have full: "\<not> has_free_entry c \<longleftrightarrow> (\<forall>k < length (entries c). ce_ipv4_addr (entries c ! k) \<noteq> 0)"
    by (fastforce simp: has_free_entry_def in_set_conv_nth)
  have unknown: "arp_map c b = None \<longleftrightarrow> (\<forall>k < length (entries c). ce_ipv4_addr (entries c ! k) \<noteq> b)"
    using assms(2) by (simp add: arp_map_def ipv4_find_def find_entry_None)
  show "arp_map (ipv4_update b hw c) =
    (if arp_map c b = None \<and> \<not> has_free_entry c then (arp_map c)(ce_ipv4_addr (entries c ! 0) := None) else arp_map c)(b \<mapsto> take 6 hw)"
  proof
    fix a
    have l: "0 < length (entries c)" using assms(1) by (simp add: cache_ok_def MAX_CACHE_ENTRIES_def)
    show "arp_map (ipv4_update b hw c) a =
      ((if arp_map c b = None \<and> \<not> has_free_entry c then (arp_map c)(ce_ipv4_addr (entries c ! 0) := None) else arp_map c)(b \<mapsto> take 6 hw)) a"
    proof (cases "a = 0 \<or> a = b")
      case True
      then show ?thesis using assms find_update_same [OF assms] by (auto simp: arp_map_def)
    next
      case False
      then have f: "arp_map (ipv4_update b hw c) a = (if ce_ipv4_addr (entries c ! selected_index b c) = a then None else arp_map c a)"
        using find_update_other [OF assms(1), of a b hw] by (auto simp: arp_map_def)
      show ?thesis
      proof (cases b rule: selected_cases [OF assms(1), case_names known free full])
        case known
        then show ?thesis using False f unknown by auto
      next
        case free
        then have "has_free_entry c" using full by blast
        then show ?thesis using False f free by simp
      next
        case full
        then have "arp_map c b = None \<and> \<not> has_free_entry c" using unknown \<open>\<not> has_free_entry c \<longleftrightarrow> _\<close> by blast
        then show ?thesis using False f full(1) by auto
      qed
    qed
  qed
qed (use assms in \<open>auto simp: update_ok clear_ok arp_map_def find_clear\<close>)

subsection \<open>How long an address is used\<close>

text \<open>What happens to the cache, with the time at which it happens: an address is learnt, or a lookup begins.\<close>

datatype arp_event = Learnt u32 "u8 list" | Lookup_Begins

definition arp_event :: "(u32 \<Rightarrow> u64) \<Rightarrow> u64 \<times> arp_event \<Rightarrow> arp_cache \<Rightarrow> arp_cache" where
  "arp_event ms_to_ticks e c =
     (case snd e of Learnt a hw \<Rightarrow> ipv4_update a hw c | Lookup_Begins \<Rightarrow> global_timeout ms_to_ticks (fst e) c)"

definition arp_history :: "(u32 \<Rightarrow> u64) \<Rightarrow> (u64 \<times> arp_event) list \<Rightarrow> arp_cache \<Rightarrow> arp_cache" where
  "arp_history ms_to_ticks es c = fold (arp_event ms_to_ticks) es c"

text \<open>Every address known was learnt, and the window of the cache ends no later than a full period after that.\<close>

definition fresh :: "u64 \<Rightarrow> (u64 \<times> arp_event) list \<Rightarrow> arp_cache \<Rightarrow> bool" where
  "fresh period es c \<longleftrightarrow> cache_ok c \<and> (\<forall>a hw. a \<noteq> 0 \<longrightarrow> ipv4_find a c = Some hw \<longrightarrow>
     (\<exists>t h. (t, Learnt a h) \<in> set es \<and> hw = take 6 h \<and> unat (timeout_window c) \<le> unat t + unat period))"

lemma global_timeout_cases:
  "timeout_window c < now \<Longrightarrow> a \<noteq> 0 \<Longrightarrow> ipv4_find a (global_timeout ms_to_ticks now c) = None"
  "\<not> timeout_window c < now \<Longrightarrow> global_timeout ms_to_ticks now c = c"
  by (simp_all add: global_timeout_def find_clear)

lemma global_timeout_ok: "cache_ok c \<Longrightarrow> cache_ok (global_timeout ms_to_ticks now c)"
  using clear_ok [of "c\<lparr>timeout_window := now + ms_to_ticks (TIMEOUT_ARP * 1000)\<rparr>"] by (simp add: global_timeout_def cache_ok_def)

lemma fresh_event:
  assumes "fresh period es c" and "unat (timeout_window c) \<le> unat t + unat period" and that: "period = ms_to_ticks (TIMEOUT_ARP * 1000)"
  shows "fresh (ms_to_ticks (TIMEOUT_ARP * 1000)) (es @ [(t, e)]) (arp_event ms_to_ticks (t, e) c)"
proof (cases e)
  case (Learnt b h)
  have "\<exists>t' h'. (t', Learnt a h') \<in> set (es @ [(t, e)]) \<and> hw = take 6 h' \<and> unat (timeout_window c) \<le> unat t' + unat period"
    if a: "a \<noteq> 0" "ipv4_find a (ipv4_update b h c) = Some hw" for a hw
  proof (cases "a = b")
    case True
    then have "hw = take 6 h" using a find_update_same [of c a h] assms(1) by (simp add: fresh_def)
    then show ?thesis using True assms(2) Learnt by auto
  next
    case False
    then have "ipv4_find a c = Some hw" using a assms(1) find_update_other [of c a b h] by (auto simp: fresh_def split: if_splits)
    then show ?thesis using a assms(1) by (fastforce simp: fresh_def)
  qed
  moreover have "timeout_window (ipv4_update b h c) = timeout_window c" by (simp add: ipv4_update_def)
  ultimately show ?thesis using assms(1) Learnt that update_ok by (simp add: fresh_def arp_event_def)
next
  case Lookup_Begins
  show ?thesis
  proof (cases "timeout_window c < t")
    case True
    then show ?thesis using assms(1) Lookup_Begins by (simp add: fresh_def arp_event_def global_timeout_cases global_timeout_ok)
  next
    case False
    then show ?thesis using assms(1) Lookup_Begins that by (fastforce simp: fresh_def arp_event_def global_timeout_cases)
  qed
qed

lemma history_fresh:
  assumes "cache_ok c" and "\<And>a. a \<noteq> 0 \<Longrightarrow> ipv4_find a c = None" and "timeout_window c = 0"
    and "sorted (map (unat \<circ> fst) es)" and "\<And>t e. (t, e) \<in> set es \<Longrightarrow> unat t + unat (ms_to_ticks (TIMEOUT_ARP * 1000)) < 2 ^ 64"
  shows "fresh (ms_to_ticks (TIMEOUT_ARP * 1000)) es (arp_history ms_to_ticks es c) \<and>
    (\<forall>now. (\<forall>t e. (t, e) \<in> set es \<longrightarrow> t \<le> now) \<longrightarrow>
       unat (timeout_window (arp_history ms_to_ticks es c)) \<le> unat now + unat (ms_to_ticks (TIMEOUT_ARP * 1000)))"
  using assms(4,5)
proof (induction es rule: rev_induct)
  case Nil
  then show ?case using assms(1-3) by (simp add: fresh_def arp_history_def)
next
  case (snoc x es)
  obtain t e where x: "x = (t, e)" by (cases x)
  let ?P = "ms_to_ticks (TIMEOUT_ARP * 1000)" and ?c = "arp_history ms_to_ticks es c"
  have s: "sorted (map (unat \<circ> fst) es)" using snoc.prems(1) by (simp add: sorted_append comp_def)
  have le: "t' \<le> t" if "(t', e') \<in> set es" for t' e'
    using snoc.prems(1) x that by (fastforce simp: sorted_append word_le_nat_alt)
  have both: "fresh ?P es ?c \<and> (\<forall>now. (\<forall>t e. (t, e) \<in> set es \<longrightarrow> t \<le> now) \<longrightarrow> unat (timeout_window ?c) \<le> unat now + unat ?P)"
    by (rule snoc.IH [OF s]) (use snoc.prems(2) in auto)
  then have IH: "fresh ?P es ?c" and W: "unat (timeout_window ?c) \<le> unat t + unat ?P" using le by blast+
  have step: "arp_history ms_to_ticks (es @ [x]) c = arp_event ms_to_ticks (t, e) ?c" by (simp add: arp_history_def x)
  have "unat (timeout_window (arp_event ms_to_ticks (t, e) ?c)) \<le> unat t + unat ?P"
  proof (cases e)
    case (Learnt a hw)
    then show ?thesis using W by (simp add: arp_event_def ipv4_update_def)
  next
    case Lookup_Begins
    have "unat (t + ?P) = unat t + unat ?P" using snoc.prems(2) [of t e] x by (simp add: unat_word_ariths)
    then show ?thesis using W Lookup_Begins by (simp add: arp_event_def global_timeout_def ipv4_clear_def)
  qed
  note window = this
  have "unat (timeout_window (arp_event ms_to_ticks (t, e) ?c)) \<le> unat now + unat ?P" if "\<forall>t e. (t, e) \<in> set (es @ [x]) \<longrightarrow> t \<le> now" for now
    using that x window by (fastforce simp: word_le_nat_alt)
  then show ?case
    using fresh_event [where ms_to_ticks = ms_to_ticks and e = e, OF IH W refl] unfolding step by (simp add: x)
qed

text \<open>No lookup uses an address that was learnt more than twenty minutes ago. Whatever is learnt and looked up, as long as the
  clock does not go backwards and does not wrap around: what a lookup finds in the cache without asking was learnt, for
  this address, at most the period of twenty minutes before.\<close>

theorem arp_entry_lifetime:
  assumes "cache_ok c" and "\<And>a. a \<noteq> 0 \<Longrightarrow> ipv4_find a c = None" and "timeout_window c = 0"
    and "sorted (map (unat \<circ> fst) (es @ [(now, Lookup_Begins)]))"
    and "\<And>t e. (t, e) \<in> set es \<Longrightarrow> unat t + unat (ms_to_ticks (TIMEOUT_ARP * 1000)) < 2 ^ 64"
    and "a \<noteq> 0" and "ipv4_find a (global_timeout ms_to_ticks now (arp_history ms_to_ticks es c)) = Some hw"
  shows "\<exists>t h. (t, Learnt a h) \<in> set es \<and> hw = take 6 h \<and> t \<le> now \<and> unat now - unat t \<le> unat (ms_to_ticks (20 * 60 * 1000))"
proof -
  let ?c = "arp_history ms_to_ticks es c"
  have "sorted (map (unat \<circ> fst) es)" using assms(4) by (simp add: sorted_append)
  then have f: "fresh (ms_to_ticks (TIMEOUT_ARP * 1000)) es ?c" using history_fresh [of c es ms_to_ticks] assms(1-3,5) by blast
  have w: "\<not> timeout_window ?c < now" using assms(6,7) global_timeout_cases(1) [of ?c now a ms_to_ticks] by auto
  then have "ipv4_find a ?c = Some hw" using assms(7) global_timeout_cases(2) [of ?c now ms_to_ticks] by simp
  then obtain t h where t: "(t, Learnt a h) \<in> set es" "hw = take 6 h"
      "unat (timeout_window ?c) \<le> unat t + unat (ms_to_ticks (TIMEOUT_ARP * 1000))"
    using f assms(6) unfolding fresh_def by blast
  have "unat t \<le> unat now" using assms(4) t(1) by (fastforce simp: sorted_append)
  moreover have "unat now \<le> unat (timeout_window ?c)" using w by (simp add: word_le_nat_alt not_less)
  ultimately show ?thesis using t by (intro exI [of _ t] exI [of _ h]) (simp add: TIMEOUT_ARP_def word_le_nat_alt)
qed

subsection \<open>Hosts that answer and hosts that do not\<close>

text \<open>The packet of the pool is ready, and so is the interface.\<close>

definition pool_ready :: "(nat \<Rightarrow> bool) \<Rightarrow> arp_cache \<Rightarrow> bool" where
  "pool_ready sent c \<longleftrightarrow> (\<exists>p. packet_pool c = [p] \<and> arp_isFree (\<lambda>_. sent 0) p \<and> length (arp_header p) = HEADER_SIZE)"

definition request_bytes :: "u8 list \<Rightarrow> u32 \<Rightarrow> u32 \<Rightarrow> u8 list" where
  "request_bytes hw a target =
     replicate 6 0xFF @ hw @ arp_ipv4_header 1 @ hw @ store32 a @ replicate 6 0xFF @ store32 target"

definition reply_bytes :: "u8 list \<Rightarrow> u32 \<Rightarrow> u8 list \<Rightarrow> u32 \<Rightarrow> u8 list" where
  "reply_bytes hw a asker_hw asker = asker_hw @ hw @ arp_ipv4_header 2 @ hw @ store32 a @ asker_hw @ store32 asker"

lemma receive_arp_frame:
  assumes "length dst = 6" and "length src = 6" and "length hw = 6" and "length hw' = 6" and "op = 1 \<or> op = 2"
  shows "arp_receive (dst @ src @ arp_ipv4_header op @ hw @ store32 a @ hw' @ store32 target) ifc sent c =
    (if if_ipv4_up ifc \<and> if_ipv4_addr ifc = target
     then if op = 1 then ipv4_reply (hw @ store32 a @ hw' @ store32 target) a ifc sent c
          else ([], ipv4_update a (hw @ store32 a @ hw' @ store32 target) c)
     else ([], c))"
proof -
  obtain d0 d1 d2 d3 d4 d5 where d: "dst = [d0, d1, d2, d3, d4, d5]" using assms(1) by (rule length_6E)
  obtain s0 s1 s2 s3 s4 s5 where s: "src = [s0, s1, s2, s3, s4, s5]" using assms(2) by (rule length_6E)
  obtain h0 h1 h2 h3 h4 h5 where h: "hw = [h0, h1, h2, h3, h4, h5]" using assms(3) by (rule length_6E)
  obtain k0 k1 k2 k3 k4 k5 where k: "hw' = [k0, k1, k2, k3, k4, k5]" using assms(4) by (rule length_6E)
  let ?arp = "[0, 1, 0x08, 0, 6, 4, 0, op] @ hw @ store32 a @ hw' @ store32 target"
  have types: "ntohs (load16 0x08 0x06) = ETH_TYPE_ARP" "ntohs (load16 0 1) = ARP_HW_TYPE_ETH" "ntohs (load16 0x08 0) = ARP_PROTOCOL_TYPE_IPV4"
      "ntohs (load16 0 1) = ARP_REQUEST" "ntohs (load16 0 2) = ARP_REPLY" "ARP_REPLY \<noteq> ARP_REQUEST"
    by code_simp+
  have addr: "get32 16 (drop 8 ?arp) = target" "get32 6 (drop 8 ?arp) = a"
    by (simp_all add: h k get32_def store32_def load32_store32)
  have "arp_receive (dst @ src @ arp_ipv4_header op @ hw @ store32 a @ hw' @ store32 target) ifc sent c = arp_demux ?arp 28 ifc sent c"
    by (simp add: arp_receive_def arp_ethernet_def MAX_FRAME_SIZE_def ETH_HEADER_SIZE_def ARP_HEADER_SIZE_def eth_get_type_def get16_def
        arp_get_hw_type_def eth_get_data_def d s h k arp_ipv4_header_def store32_def types)
  also have "\<dots> = (if if_ipv4_up ifc \<and> if_ipv4_addr ifc = target
     then if op = 1 then ipv4_reply (hw @ store32 a @ hw' @ store32 target) a ifc sent c
          else ([], ipv4_update a (hw @ store32 a @ hw' @ store32 target) c)
     else ([], c))"
  proof -
    have f: "arp_get_protocol_type ?arp = ARP_PROTOCOL_TYPE_IPV4" "arp_get_payload ?arp = hw @ store32 a @ hw' @ store32 target"
      "arp_get_opcode ?arp = (if op = 1 then ARP_REQUEST else ARP_REPLY)"
      using assms(5) types by (auto simp: arp_fields get16_def ARP_HEADER_SIZE_def)
    have n: "of_nat ARP_IPV4_PACKETSIZE = (28 :: u32)" by (simp add: arp_constants)
    show ?thesis using addr unfolding arp_demux_def f n by (simp add: types(6))
  qed
  finally show ?thesis .
qed

lemma arp_request_header_length:
  "length (arp_header p) = HEADER_SIZE \<Longrightarrow> length (arp_header (arp_request i hw a b p)) = HEADER_SIZE"
  using fill_header_bytes [of "p\<lparr>arp_interface := Some i\<rparr>" ARP_REQUEST 1]
  by (simp add: arp_request_def Let_def on_Eth_Frame_def eth_set_src_hwaddr_def eth_set_dst_hwaddr_broadcast_def wire_constants
      arp_ipv4_header_def HEADER_SIZE_def ETH_HEADER_SIZE_def ARP_HEADER_SIZE_def)

lemma send_when_ready:
  assumes "pool_ready sent c" and "length (if_hw_addr ifc) = 6"
  shows "\<exists>p. ipv4_request b ifc sent c = ([request_bytes (if_hw_addr ifc) (if_ipv4_addr ifc) b], c\<lparr>packet_pool := [p]\<rparr>)"
    and "length hw = 6 \<Longrightarrow> \<exists>p. ipv4_reply (hw @ rest) a ifc sent c =
      ([reply_bytes (if_hw_addr ifc) (if_ipv4_addr ifc) hw a], c\<lparr>packet_pool := [p]\<rparr>)"
proof -
  obtain p where p: "packet_pool c = [p]" "arp_isFree (\<lambda>_. sent 0) p" "length (arp_header p) = HEADER_SIZE"
    using assms(1) by (auto simp: pool_ready_def)
  note f = arp_frames_exact [OF p(3) assms(2)]
  have "ipv4_request b ifc sent c = ([request_bytes (if_hw_addr ifc) (if_ipv4_addr ifc) b],
      c\<lparr>packet_pool := [arp_request (if_pointer ifc) (if_hw_addr ifc) (if_ipv4_addr ifc) b p]\<rparr>)"
    using f [of "replicate 6 0" "if_pointer ifc" "if_ipv4_addr ifc" b] p by (simp add: ipv4_request_def send_arp_def request_bytes_def Let_def)
  then show "\<exists>p. ipv4_request b ifc sent c = ([request_bytes (if_hw_addr ifc) (if_ipv4_addr ifc) b], c\<lparr>packet_pool := [p]\<rparr>)" by blast
  assume hw: "length hw = 6"
  have set_dst: "eth_set_dst_hwaddr (hw @ rest) = eth_set_dst_hwaddr hw" by (rule ext) (simp add: eth_set_dst_hwaddr_def hw)
  have eq: "arp_reply (if_pointer ifc) (if_hw_addr ifc) (if_ipv4_addr ifc) (hw @ rest) a p =
      arp_reply (if_pointer ifc) (if_hw_addr ifc) (if_ipv4_addr ifc) hw a p"
    using set_dst by (simp add: arp_reply_def hw)
  have "ipv4_reply (hw @ rest) a ifc sent c = ([reply_bytes (if_hw_addr ifc) (if_ipv4_addr ifc) hw a],
      c\<lparr>packet_pool := [arp_reply (if_pointer ifc) (if_hw_addr ifc) (if_ipv4_addr ifc) hw a p]\<rparr>)"
    using f [OF hw, of "if_pointer ifc" "if_ipv4_addr ifc" _ a] p eq by (simp add: ipv4_reply_def send_arp_def reply_bytes_def Let_def)
  then show "\<exists>p. ipv4_reply (hw @ rest) a ifc sent c = ([reply_bytes (if_hw_addr ifc) (if_ipv4_addr ifc) hw a], c\<lparr>packet_pool := [p]\<rparr>)" by blast
qed

lemma wait_idle:
  "(\<And>t. t \<in> set ts \<Longrightarrow> t < timeout) \<Longrightarrow> ipv4_find a c = None \<Longrightarrow>
    ipv4_wait timeout a (map (\<lambda>t. ([], t)) ts @ steps) c = ipv4_wait timeout a steps c"
  by (induction ts) (simp_all add: map_option_case split: option.split)

text \<open>C20: Two hosts on a link. A host that looks up an address it does not know broadcasts a request with its own addresses; the host
  that has the address answers to the asker alone; when the answer arrives before the second is over, the lookup returns
  the hardware address of the answering host and it is in the cache for the next time. The answering host learns nothing.\<close>

theorem arp_resolves_address:
  assumes A: "find_entry (if_ipv4_addr ifB) (static_entries A) = None" "ipv4_find (if_ipv4_addr ifB) A = None" "cache_ok A" "pool_ready sentA A"
      "if_ipv4_up ifA" "length (if_hw_addr ifA) = 6"
    and B: "pool_ready sentB B" "if_ipv4_up ifB" "length (if_hw_addr ifB) = 6" "if_ipv4_addr ifB \<noteq> 0"
    and time: "\<And>t. t \<in> set ts \<Longrightarrow> t < start + ms_to_ticks 1000"
  shows "\<exists>reply A' B'.
    arp_receive (request_bytes (if_hw_addr ifA) (if_ipv4_addr ifA) (if_ipv4_addr ifB)) ifB sentB B = ([reply], B') \<and> entries B' = entries B \<and>
    eth_get_dst_hwaddr reply = if_hw_addr ifA \<and>
    ipv4_lookup ms_to_ticks (if_ipv4_addr ifB) ifA
      ((sentA, start, map (\<lambda>t. ([], t)) ts @ ([\<lparr>av_frame = reply, av_interface = ifA, av_sent = sentA'\<rparr>], t) # steps) # attempts) A =
      Some (Some (if_hw_addr ifB), [request_bytes (if_hw_addr ifA) (if_ipv4_addr ifA) (if_ipv4_addr ifB)], A') \<and>
    ipv4_lookup ms_to_ticks (if_ipv4_addr ifB) ifC [] A' = Some (Some (if_hw_addr ifB), [], A')"
proof -
  let ?a = "if_ipv4_addr ifA" and ?b = "if_ipv4_addr ifB" and ?hA = "if_hw_addr ifA" and ?hB = "if_hw_addr ifB"
  obtain p where req: "ipv4_request ?b ifA sentA A = ([request_bytes ?hA ?a ?b], A\<lparr>packet_pool := [p]\<rparr>)"
    using send_when_ready(1) [OF A(4,6)] by blast
  obtain q where rep: "ipv4_reply (?hA @ store32 ?a @ replicate 6 0xFF @ store32 ?b) ?a ifB sentB B =
      ([reply_bytes ?hB ?b ?hA ?a], B\<lparr>packet_pool := [q]\<rparr>)"
    using send_when_ready(2) [OF B(1,3) A(6)] by blast
  let ?A = "A\<lparr>packet_pool := [p]\<rparr>" and ?rest = "store32 ?b @ ?hA @ store32 ?a"
  let ?A' = "ipv4_update ?b (?hB @ ?rest) ?A"
  have ok: "cache_ok ?A" using A(3) by (simp add: cache_ok_def)
  have find: "ipv4_find ?b ?A' = Some ?hB" using find_update_same [OF ok B(4), of "?hB @ ?rest"] B(3) by simp
  have none: "ipv4_find ?b ?A = None" using A(2) by (simp add: ipv4_find_def)
  have "arp_receive (request_bytes ?hA ?a ?b) ifB sentB B = ([reply_bytes ?hB ?b ?hA ?a], B\<lparr>packet_pool := [q]\<rparr>)"
    using receive_arp_frame [of "replicate 6 0xFF" ?hA ?hA "replicate 6 0xFF" 1 ?a ?b ifB sentB B] A(6) B(2) rep
    by (simp add: request_bytes_def)
  moreover have "arp_receive (reply_bytes ?hB ?b ?hA ?a) ifA sentA' ?A = ([], ?A')"
    using receive_arp_frame [of ?hA ?hB ?hB ?hA 2 ?b ?a ifA sentA' ?A] A(5,6) B(3) by (simp add: reply_bytes_def)
  then have "ipv4_wait (start + ms_to_ticks 1000) ?b
      (map (\<lambda>t. ([], t)) ts @ ([\<lparr>av_frame = reply_bytes ?hB ?b ?hA ?a, av_interface = ifA, av_sent = sentA'\<rparr>], t) # steps) ?A = Some ([], ?A')"
    using find by (subst wait_idle [OF time none]) simp_all
  then have "lookup_attempts ms_to_ticks ?b ifA 3 ((sentA, start, map (\<lambda>t. ([], t)) ts @
      ([\<lparr>av_frame = reply_bytes ?hB ?b ?hA ?a, av_interface = ifA, av_sent = sentA'\<rparr>], t) # steps) # attempts) A =
      Some (Some ?hB, [request_bytes ?hA ?a ?b], ?A')"
    using A(2) req find by (cases attempts) auto
  moreover have "eth_get_dst_hwaddr (reply_bytes ?hB ?b ?hA ?a) = ?hA" using A(6) by (simp add: eth_get_dst_hwaddr_def reply_bytes_def)
  moreover have "static_entries ?A' = static_entries A" by (simp add: ipv4_update_def)
  ultimately show ?thesis
    using A(1) find
    by (intro exI [of _ "reply_bytes ?hB ?b ?hA ?a"] exI [of _ ?A'] exI [of _ "B\<lparr>packet_pool := [q]\<rparr>"])
       (simp add: ipv4_lookup_def)
qed

text \<open>A host that does not answer. The lookup sends three requests, waits for each until the clock has passed a second, and then
  returns a null pointer; nothing has been learnt. (The driver has sent the packet of the pool before each attempt.)\<close>

theorem unanswered_lookup_fails:
  assumes "find_entry b (static_entries c) = None" and "ipv4_find b c = None" and "pool_ready (\<lambda>_. True) c" and "length (if_hw_addr ifc) = 6"
    and "\<And>i t. i < 3 \<Longrightarrow> t \<in> set (early i) \<Longrightarrow> t < start i + ms_to_ticks 1000" and "\<And>i. i < 3 \<Longrightarrow> start i + ms_to_ticks 1000 \<le> late i"
  shows "\<exists>c'. ipv4_lookup ms_to_ticks b ifc
      (map (\<lambda>i. (\<lambda>_. True, start i, map (\<lambda>t. ([], t)) (early i) @ [([], late i)])) [0, 1, 2 :: nat]) c =
      Some (None, replicate 3 (request_bytes (if_hw_addr ifc) (if_ipv4_addr ifc) b), c') \<and> entries c' = entries c"
proof -
  let ?P = "\<lambda>c'. entries c' = entries c \<and> static_entries c' = static_entries c \<and> pool_ready (\<lambda>_. True) c'"
  let ?x = "\<lambda>i. (\<lambda>_. True, start i, map (\<lambda>t. ([], t)) (early i) @ [([], late i)])"
  have step: "\<exists>c'. ?P c' \<and> lookup_attempts ms_to_ticks b ifc (Suc n) (?x i # xs) d =
      map_option (\<lambda>(hw, out, c). (hw, request_bytes (if_hw_addr ifc) (if_ipv4_addr ifc) b # out, c)) (lookup_attempts ms_to_ticks b ifc n xs c')"
    if d: "?P d" and i: "i < 3" for d n i xs
  proof -
    have none: "ipv4_find b d = None" using d assms(2) by (simp add: ipv4_find_def)
    obtain p where p: "packet_pool d = [p]" "arp_isFree (\<lambda>_. True) p" "length (arp_header p) = HEADER_SIZE" using d by (auto simp: pool_ready_def)
    let ?p = "arp_request (if_pointer ifc) (if_hw_addr ifc) (if_ipv4_addr ifc) b p"
    have req: "ipv4_request b ifc (\<lambda>_. True) d = ([request_bytes (if_hw_addr ifc) (if_ipv4_addr ifc) b], d\<lparr>packet_pool := [?p]\<rparr>)"
      using arp_frames_exact [OF p(3) assms(4), of "replicate 6 0" "if_pointer ifc" "if_ipv4_addr ifc" b] p
      by (simp add: ipv4_request_def send_arp_def request_bytes_def Let_def)
    have "length (arp_header ?p) = HEADER_SIZE"
      using p(3) assms(4) by (simp add: arp_request_header_length)
    then have P: "?P (d\<lparr>packet_pool := [?p]\<rparr>)" using d by (simp add: pool_ready_def arp_isFree_def)
    have none': "ipv4_find b (d\<lparr>packet_pool := [?p]\<rparr>) = None" using none by (simp add: ipv4_find_def)
    have "ipv4_wait (start i + ms_to_ticks 1000) b (map (\<lambda>t. ([], t)) (early i) @ [([], late i)]) (d\<lparr>packet_pool := [?p]\<rparr>) =
        Some ([], d\<lparr>packet_pool := [?p]\<rparr>)"
      using assms(5) [OF i] assms(6) [OF i] by (subst wait_idle [OF _ none']) (auto simp: not_less)
    then show ?thesis using P none req by (intro exI [of _ "d\<lparr>packet_pool := [?p]\<rparr>"]) simp
  qed
  obtain c1 where c1: "?P c1" "lookup_attempts ms_to_ticks b ifc 3 (map ?x [0, 1, 2]) c =
      map_option (\<lambda>(hw, out, c). (hw, request_bytes (if_hw_addr ifc) (if_ipv4_addr ifc) b # out, c)) (lookup_attempts ms_to_ticks b ifc 2 (map ?x [1, 2]) c1)"
    using step [of c 0 2 "map ?x [1, 2]"] assms(3) by (auto simp: numeral_eq_Suc)
  obtain c2 where c2: "?P c2" "lookup_attempts ms_to_ticks b ifc 2 (map ?x [1, 2]) c1 =
      map_option (\<lambda>(hw, out, c). (hw, request_bytes (if_hw_addr ifc) (if_ipv4_addr ifc) b # out, c)) (lookup_attempts ms_to_ticks b ifc 1 (map ?x [2]) c2)"
    using step [OF c1(1), of 1 1 "map ?x [2]"] by (auto simp: numeral_eq_Suc)
  obtain c3 where c3: "?P c3" "lookup_attempts ms_to_ticks b ifc 1 (map ?x [2]) c2 =
      map_option (\<lambda>(hw, out, c). (hw, request_bytes (if_hw_addr ifc) (if_ipv4_addr ifc) b # out, c)) (lookup_attempts ms_to_ticks b ifc 0 [] c3)"
    using step [OF c2(1), of 2 0 "[]"] by (auto simp: numeral_eq_Suc)
  have "lookup_attempts ms_to_ticks b ifc 0 [] c3 = Some (None, [], c3)" using c3(1) assms(2) by (simp add: ipv4_find_def)
  then show ?thesis using c1(2) c2(2) c3 assms(1) by (simp add: ipv4_lookup_def numeral_eq_Suc)
qed

subsection \<open>Witnesses\<close>

definition empty_cache :: arp_cache where
  "empty_cache = \<lparr>entries = replicate 5 \<lparr>ce_ipv4_addr = 0, ce_hw_addr = replicate 6 0\<rparr>, static_entries = [],
     packet_pool = [\<lparr>arp_header = replicate 22 0, arp_src_hwaddr = replicate 6 0, arp_src_ipv4_addr = 0, arp_dst_hwaddr = replicate 6 0,
       arp_dst_ipv4_addr = 0, arp_interface = None\<rparr>], timeout_window = 0\<rparr>"

definition interface_of :: "u32 \<Rightarrow> u8 \<Rightarrow> eth_interface" where
  "interface_of a n = \<lparr>if_ipv4_addr = a, if_ipv4_subnetmask = 0x00FFFFFF, if_ipv4_up = True, if_pointer = 0, if_hw_addr = [2, 0, 0, 0, 0, n]\<rparr>"

lemma empty_cache_ok: "cache_ok empty_cache" "pool_ready sent empty_cache" "a \<noteq> 0 \<Longrightarrow> ipv4_find a empty_cache = None"
  "find_entry a (static_entries empty_cache) = None" "timeout_window empty_cache = 0"
  by (simp_all add: cache_ok_def empty_cache_def MAX_CACHE_ENTRIES_def pool_ready_def arp_isFree_def HEADER_SIZE_def ETH_HEADER_SIZE_def
      ARP_HEADER_SIZE_def ipv4_find_def find_entry_None)

theorem arp_cache_refines_map_witness:
  "arp_map (ipv4_update 7 [2, 0, 0, 0, 0, 1] empty_cache) 7 = Some [2, 0, 0, 0, 0, 1]"
  using arp_cache_refines_map [OF empty_cache_ok(1), of 7 "[2, 0, 0, 0, 0, 1]"] by simp

theorem arp_entry_lifetime_witness:
  "\<exists>(t :: u64) h. (t, Learnt 7 h) \<in> set [(5, Lookup_Begins), (6, Learnt 7 [2, 0, 0, 0, 0, 1])] \<and> t \<le> 9 \<and> unat (9 :: u64) - unat t \<le> 1200000"
proof -
  have f: "ipv4_find 7 (global_timeout ucast 9 (arp_history ucast [(5, Lookup_Begins), (6, Learnt 7 [2, 0, 0, 0, 0, 1])] empty_cache)) =
      Some [2, 0, 0, 0, 0, 1]"
    by code_simp
  have u: "unat (ucast (20 * 60 * 1000 :: u32) :: u64) = 1200000" "unat (ucast (TIMEOUT_ARP * 1000) :: u64) = 1200000" by (simp_all add: TIMEOUT_ARP_def)
  have "\<exists>(t :: u64) h. (t, Learnt 7 h) \<in> set [(5, Lookup_Begins), (6, Learnt 7 [2, 0, 0, 0, 0, 1])] \<and> [2, 0, 0, 0, 0, 1] = take 6 h \<and> t \<le> 9 \<and>
      unat (9 :: u64) - unat t \<le> unat (ucast (20 * 60 * 1000 :: u32) :: u64)"
    by (rule arp_entry_lifetime [where c = empty_cache and ms_to_ticks = ucast and now = 9 and a = 7])
       (use f u(2) in \<open>auto simp: empty_cache_ok\<close>)
  then show ?thesis unfolding u(1) by blast
qed

theorem arp_resolves_address_witness:
  "\<exists>reply A'. ipv4_lookup ucast 0x0200000A (interface_of 0x0100000A 1)
      [(\<lambda>_. True, 0, [([], 1), ([\<lparr>av_frame = reply, av_interface = interface_of 0x0100000A 1, av_sent = \<lambda>_. True\<rparr>], 2)])] empty_cache =
      Some (Some [2, 0, 0, 0, 0, 2], [request_bytes [2, 0, 0, 0, 0, 1] 0x0100000A 0x0200000A], A')"
proof -
  let ?A = "interface_of 0x0100000A 1" and ?B = "interface_of 0x0200000A 2"
  have f: "if_ipv4_addr ?A = 0x0100000A" "if_ipv4_addr ?B = 0x0200000A" "if_hw_addr ?A = [2, 0, 0, 0, 0, 1]" "if_hw_addr ?B = [2, 0, 0, 0, 0, 2]"
    "if_ipv4_up ?A" "if_ipv4_up ?B"
    by (simp_all add: interface_of_def)
  have time: "t \<in> set [1] \<Longrightarrow> t < 0 + ucast (1000 :: u32)" for t :: u64 by simp
  have "\<exists>reply A' B'. arp_receive (request_bytes (if_hw_addr ?A) (if_ipv4_addr ?A) (if_ipv4_addr ?B)) ?B (\<lambda>_. True) empty_cache = ([reply], B') \<and> entries B' = entries empty_cache \<and>
    eth_get_dst_hwaddr reply = if_hw_addr ?A \<and>
    ipv4_lookup ucast (if_ipv4_addr ?B) ?A
      ((\<lambda>_. True, 0, map (\<lambda>t. ([], t)) [1] @ ([\<lparr>av_frame = reply, av_interface = ?A, av_sent = \<lambda>_. True\<rparr>], 2) # []) # []) empty_cache =
      Some (Some (if_hw_addr ?B), [request_bytes (if_hw_addr ?A) (if_ipv4_addr ?A) (if_ipv4_addr ?B)], A') \<and>
    ipv4_lookup ucast (if_ipv4_addr ?B) ?A [] A' = Some (Some (if_hw_addr ?B), [], A')"
    by (rule arp_resolves_address [where ms_to_ticks = ucast and ts = "[1]" and start = 0]) (use time in \<open>simp_all add: empty_cache_ok f\<close>)
  then show ?thesis unfolding f by auto
qed

theorem unanswered_lookup_fails_witness:
  "\<exists>c'. ipv4_lookup ucast 0x0200000A (interface_of 0x0100000A 1)
      (map (\<lambda>i. (\<lambda>_. True, 0, map (\<lambda>t. ([], t)) [999] @ [([], 1000)])) [0, 1, 2 :: nat]) empty_cache =
      Some (None, replicate 3 (request_bytes [2, 0, 0, 0, 0, 1] 0x0100000A 0x0200000A), c')"
proof -
  let ?A = "interface_of 0x0100000A 1"
  have f: "if_ipv4_addr ?A = 0x0100000A" "if_hw_addr ?A = [2, 0, 0, 0, 0, 1]" by (simp_all add: interface_of_def)
  have "\<exists>c'. ipv4_lookup ucast 0x0200000A ?A
      (map (\<lambda>i. (\<lambda>_. True, (\<lambda>_. 0) i, map (\<lambda>t. ([], t)) ((\<lambda>_. [999]) i) @ [([], (\<lambda>_. 1000) i)])) [0, 1, 2 :: nat]) empty_cache =
      Some (None, replicate 3 (request_bytes (if_hw_addr ?A) (if_ipv4_addr ?A) 0x0200000A), c') \<and> entries c' = entries empty_cache"
    by (rule unanswered_lookup_fails [where ms_to_ticks = ucast]) (simp_all add: empty_cache_ok f)
  then show ?thesis unfolding f by blast
qed

end
