(* ===== verification/IPv4_Ethernet.thy ===== *)
theory IPv4_Ethernet
  imports ARP_Cache IPv4_Layer Datagram_Sockets
begin

text \<open>
  From a socket to the wire and back, over IPv4 and Ethernet: the advice that puts the headers into a send buffer
  (\<^verbatim>\<open>ipv4/ethernet/Send_IPv4.ah\<close>, \<^verbatim>\<open>ipv4/SendBuffer_IPv4.ah\<close>, \<^verbatim>\<open>arp/ipv4/IPv4_Ethernet_ARP.ah\<close>, \<^verbatim>\<open>udp/SendBuffer_UDP.ah\<close>), the
  advice that completes them before the frame is sent (\<^verbatim>\<open>ipv4/SendBuffer_IPv4_checksum.ah\<close>,
  \<^verbatim>\<open>ipv4/udp/IPv4_UDP_Tx_Checksumming.ah\<close>), and the way of a received frame through the layers
  (\<^verbatim>\<open>ethernet/Receive_Ethernet.ah\<close>, \<^verbatim>\<open>ipv4/ethernet/IPv4_Receive_Ethernet.ah\<close>, \<^verbatim>\<open>ipv4/IPv4_Receive.ah\<close>,
  \<^verbatim>\<open>ipv4/udp/IPv4_UDP_Rx_Checksumming.ah\<close>). The stack is configured for IPv4 alone. Around advice takes the
  advice behind it as its argument \<open>proceed\<close>; a result \<open>None\<close> is a lookup that has not returned.
\<close>

subsection \<open>IPv4 headers in memory\<close>

definition v4_header_bytes :: "IPv4_Packet \<Rightarrow> u8 list" where
  "v4_header_bytes p =
     [v4_ihl p OR push_bit 4 (v4_version p), v4_tos p] @ store16 (v4_total_len p) @ store16 (v4_id p) @ store16 (v4_flags_offset p) @
     [v4_ttl p, v4_protocol p] @ store16 (v4_hdr_checksum p) @ store32 (v4_src p) @ store32 (v4_dst p)"

definition v4_header_at :: "u8 list \<Rightarrow> IPv4_Packet" where
  "v4_header_at m =
     \<lparr>v4_ihl = m ! 0 AND 0xF, v4_version = drop_bit 4 (m ! 0), v4_tos = m ! 1, v4_total_len = load16 (m ! 2) (m ! 3),
      v4_id = load16 (m ! 4) (m ! 5), v4_flags_offset = load16 (m ! 6) (m ! 7), v4_ttl = m ! 8, v4_protocol = m ! 9,
      v4_hdr_checksum = load16 (m ! 10) (m ! 11), v4_src = load32 (m ! 12) (m ! 13) (m ! 14) (m ! 15),
      v4_dst = load32 (m ! 16) (m ! 17) (m ! 18) (m ! 19), v4_data = drop 20 m\<rparr>"

subsection \<open>Send buffers with headers\<close>

text \<open>The pointers that slices add to \<open>SendBuffer\<close>, as offsets from the start of the frame.\<close>

record net_buffer =
  nb_buffer :: send_buffer
  memstart_ethernet :: nat
  memstart_ip :: nat
  memstart_transport :: nat
  nextheaderfield_ip :: nat

definition data_offset :: "nat \<Rightarrow> net_buffer \<Rightarrow> nat" where
  "data_offset szsb b = sb_data (nb_buffer b) - getDataStart szsb (nb_buffer b)"

definition frame_memory :: "net_buffer \<Rightarrow> u8 list" where "frame_memory b = sb_mem (nb_buffer b)"

text \<open>A header of \<open>n\<close> bytes at an offset is changed in place.\<close>

definition in_mem :: "nat \<Rightarrow> nat \<Rightarrow> (u8 list \<Rightarrow> u8 list) \<Rightarrow> net_buffer \<Rightarrow> net_buffer outcome" where
  "in_mem off n f b =
     (if off + n \<le> length (frame_memory b)
      then Inr (b\<lparr>nb_buffer := (nb_buffer b)\<lparr>sb_mem :=
             take off (frame_memory b) @ f (take n (drop off (frame_memory b))) @ drop (off + n) (frame_memory b)\<rparr>\<rparr>)
      else Inl OutOfBounds)"

definition written :: "u32 \<Rightarrow> net_buffer \<Rightarrow> net_buffer" where
  "written len b = b\<lparr>nb_buffer := writtenToDataPointer len (nb_buffer b)\<rparr>"

definition set_state :: "u8 \<Rightarrow> net_buffer \<Rightarrow> net_buffer" where
  "set_state s b = b\<lparr>nb_buffer := setState s (nb_buffer b)\<rparr>"

text \<open>What the host knows: its router with the interfaces, their hardware addresses, and which of them are Ethernet devices.\<close>

record host =
  ho_router :: v4_router
  ho_address :: "nat \<Rightarrow> u8 list"
  ho_ethernet :: "nat \<Rightarrow> bool"

definition host_interface :: "host \<Rightarrow> nat \<Rightarrow> eth_interface" where
  "host_interface H i = v4_interface.extend (interfaces (ho_router H) ! i) \<lparr>if_pointer = i, if_hw_addr = ho_address H i\<rparr>"

text \<open>What sending changes: the buffer, the IPv4 part of the socket, the ARP cache, and what ARP has sent.\<close>

record sending =
  sg_buffer :: net_buffer
  sg_ipv4 :: IPV4
  sg_arp :: arp_cache
  sg_frames :: "u8 list list"

type_synonym sending_step = "sending \<Rightarrow> sending outcome option"

definition with_buffer :: "(net_buffer \<Rightarrow> net_buffer outcome) \<Rightarrow> sending_step \<Rightarrow> sending_step" where
  "with_buffer f proceed st = lbind (Some (f (sg_buffer st))) (\<lambda>b. proceed (st\<lparr>sg_buffer := b\<rparr>))"

definition ETH_TYPE_IPV4 :: u16 where "ETH_TYPE_IPV4 = 0x0800"

text \<open>The destination of a frame by the next hop \<open>ip\<close>: broadcast, multicast, or to be resolved.\<close>

definition set_link_destination :: "u32 \<Rightarrow> nat \<Rightarrow> net_buffer \<Rightarrow> net_buffer outcome" where
  "set_link_destination ip off b =
     (let leftpart = ucast (drop_bit 24 ip) :: u8 in
      if ip = -1 then in_mem off ETH_HEADER_SIZE eth_set_dst_hwaddr_broadcast b
      else if 224 \<le> leftpart \<and> leftpart \<le> 239
      then in_mem off ETH_HEADER_SIZE (eth_set_dst_hwaddr [0x01, 0x00, 0x5e, leftpart AND 0x7f, ucast (drop_bit 16 ip), ucast ip]) b
      else Inr (set_state (WritingState OR ResolveLinkLayerStateOption) b))"

definition prepare_ethernet :: "host \<Rightarrow> nat \<Rightarrow> sending_step \<Rightarrow> sending_step" where
  "prepare_ethernet H szsb proceed st =
     (case v4s_interface (sg_ipv4 st) of
        None \<Rightarrow> Some (Inl NullDeref)
      | Some i \<Rightarrow>
        if \<not> ho_ethernet H i then proceed st
        else let off = data_offset szsb (sg_buffer st) in
        with_buffer (\<lambda>b. obind (in_mem off ETH_HEADER_SIZE (\<lambda>f. eth_set_src_hwaddr (ho_address H i) (eth_set_type ETH_TYPE_IPV4 f))
              (written (of_nat ETH_HEADER_SIZE) (b\<lparr>memstart_ethernet := off\<rparr>)))
            (set_link_destination (v4s_get_nexthop_ipaddr (ho_router H) (sg_ipv4 st)) off))
          proceed st)"

definition prepare_ipv4 :: "host \<Rightarrow> nat \<Rightarrow> sending_step \<Rightarrow> sending_step" where
  "prepare_ipv4 H szsb proceed st =
     (let off = data_offset szsb (sg_buffer st); datasize = getRemainingSize szsb (nb_buffer (sg_buffer st)); ip = sg_ipv4 st in
      with_buffer (\<lambda>b. obind (in_mem off 20 (\<lambda>m. v4_header_bytes (fst (v4s_setupHeader (ho_router H) datasize ip (v4_header_at m))))
            (b\<lparr>memstart_ip := off\<rparr>)) (\<lambda>b. Inr (written v4s_getSpecificHeaderSize b\<lparr>nextheaderfield_ip := off + 9\<rparr>)))
        (\<lambda>st. proceed (st\<lparr>sg_ipv4 := ip\<lparr>v4s_id := v4s_id ip + 1\<rparr>\<rparr>)) st)"

text \<open>The lookup: \<open>xs\<close> is what happens while it waits. It is for the destination in the packet.\<close>

definition prepare_arp ::
    "host \<Rightarrow> (u32 \<Rightarrow> u64) \<Rightarrow> ((nat \<Rightarrow> bool) \<times> u64 \<times> (arrival list \<times> u64) list) list \<Rightarrow> sending_step \<Rightarrow> sending_step" where
  "prepare_arp H ms_to_ticks xs proceed st =
     (if m_state (nb_buffer (sg_buffer st)) AND ResolveLinkLayerStateOption = 0 then proceed st
      else case m_interface (nb_buffer (sg_buffer st)) of
        None \<Rightarrow> Some (Inl NullDeref)
      | Some i \<Rightarrow>
        Option.bind (ipv4_lookup ms_to_ticks
            (v4_get_dst_ipaddr (v4_header_at (drop (memstart_ip (sg_buffer st)) (frame_memory (sg_buffer st))))) (host_interface H i) xs (sg_arp st))
          (\<lambda>(hw, out, c).
            let st = st\<lparr>sg_arp := c, sg_frames := sg_frames st @ out\<rparr> in
            case hw of
              None \<Rightarrow> Some (Inr (st\<lparr>sg_buffer := set_state InvalidState (sg_buffer st)\<rparr>))
            | Some hw \<Rightarrow>
              with_buffer (\<lambda>b. obind (in_mem (memstart_ethernet b) ETH_HEADER_SIZE (eth_set_dst_hwaddr hw) b) (\<lambda>b. Inr (set_state WritingState b)))
                proceed st))"

text \<open>The part of UDP, after everything else.\<close>

definition prepare_udp :: "nat \<Rightarrow> UDP_Socket \<Rightarrow> sending_step" where
  "prepare_udp szsb s =
     with_buffer (\<lambda>b.
       obind (in_mem (nextheaderfield_ip b) 1 (\<lambda>_. [IP_TYPE_UDP]) b) (\<lambda>b.
       let off = data_offset szsb b in
       obind (in_mem off UDP_HEADER_SIZE (us_setupHeader (getRemainingSize szsb (nb_buffer b)) s) (b\<lparr>memstart_transport := off\<rparr>)) (\<lambda>b.
       Inr (written (of_nat UDP_HEADER_SIZE) b)))) (\<lambda>st. Some (Inr st))"

text \<open>The advice in its order, around the part \<open>transport\<close> of the socket.\<close>

definition prepareSendBuffer ::
    "host \<Rightarrow> nat \<Rightarrow> (u32 \<Rightarrow> u64) \<Rightarrow> ((nat \<Rightarrow> bool) \<times> u64 \<times> (arrival list \<times> u64) list) list \<Rightarrow> sending_step \<Rightarrow> sending_step" where
  "prepareSendBuffer H szsb ms_to_ticks xs transport =
     prepare_ethernet H szsb (prepare_ipv4 H szsb (prepare_arp H ms_to_ticks xs transport))"

definition estimateSendBufferMinSize :: "host \<Rightarrow> u32 \<Rightarrow> IPV4 \<Rightarrow> u32 outcome" where
  "estimateSendBufferMinSize H transport ip =
     (case v4s_interface ip of
        None \<Rightarrow> Inl NullDeref
      | Some i \<Rightarrow> Inr ((if ho_ethernet H i then of_nat ETH_HEADER_SIZE else 0) + v4s_getSpecificHeaderSize + transport))"

text \<open>\<open>raw\<close> is what was in the memory before; the pointers of a new buffer are not initialised, \<open>junk\<close> are their values.\<close>

definition net_requestSendBuffer ::
    "host \<Rightarrow> nat \<Rightarrow> pool_config \<Rightarrow> (nat \<Rightarrow> u8) \<Rightarrow> net_buffer \<Rightarrow> u32 \<Rightarrow> (u32 \<Rightarrow> u64) \<Rightarrow>
     ((nat \<Rightarrow> bool) \<times> u64 \<times> (arrival list \<times> u64) list) list \<Rightarrow> sending_step \<Rightarrow> nat option \<Rightarrow> u32 \<Rightarrow> IPV4 \<Rightarrow> arp_cache \<Rightarrow> basic_mempool \<Rightarrow>
     (net_buffer option \<times> IPV4 \<times> arp_cache \<times> u8 list list \<times> basic_mempool) outcome option" where
  "net_requestSendBuffer H szsb c raw junk transport_size ms_to_ticks xs transport ifc requestSize ip arp m =
     lbind (Some (estimateSendBufferMinSize H transport_size ip)) (\<lambda>estimate.
     case createInstance szsb c raw (estimate + requestSize) ifc m of
       (None, m) \<Rightarrow> Some (Inr (None, ip, arp, [], m))
     | (Some b, m) \<Rightarrow>
       lbind (prepareSendBuffer H szsb ms_to_ticks xs transport \<lparr>sg_buffer = junk\<lparr>nb_buffer := b\<rparr>, sg_ipv4 = ip, sg_arp = arp, sg_frames = []\<rparr>)
         (\<lambda>st. Some (Inr (if m_state (nb_buffer (sg_buffer st)) \<noteq> WritingState then None else Some (sg_buffer st),
                          sg_ipv4 st, sg_arp st, sg_frames st, m))))"

definition net_write :: "nat \<Rightarrow> u8 list \<Rightarrow> u32 \<Rightarrow> net_buffer \<Rightarrow> net_buffer outcome" where
  "net_write szsb d len b = obind (sb_write szsb d len (nb_buffer b)) (\<lambda>s. Inr (b\<lparr>nb_buffer := s\<rparr>))"

subsection \<open>Sending\<close>

definition send_ipv4_checksum :: "net_buffer \<Rightarrow> net_buffer outcome" where
  "send_ipv4_checksum b =
     (if memstart_ip b + 20 \<le> length (frame_memory b)
      then obind (v4_computeChecksum (v4_header_at (drop (memstart_ip b) (frame_memory b)))) (\<lambda>p.
           in_mem (memstart_ip b) 20 (\<lambda>_. v4_header_bytes p) b)
      else Inl OutOfBounds)"

definition send_udp_checksum :: "nat \<Rightarrow> net_buffer \<Rightarrow> net_buffer outcome" where
  "send_udp_checksum szsb b =
     (let packet = v4_header_at (drop (memstart_ip b) (frame_memory b));
          payloadsize = of_nat (data_offset szsb b - memstart_transport b) :: u16 in
      obind (in_mem (memstart_transport b) UDP_HEADER_SIZE (udp_set_checksum 0) b) (\<lambda>b.
      obind (UDP_calc_checksum (V4_computePseudoHeader (v4_get_src_ipaddr packet) (v4_get_dst_ipaddr packet) payloadsize IP_TYPE_UDP)
          (drop (memstart_transport b) (frame_memory b)) payloadsize) (\<lambda>c.
      in_mem (memstart_transport b) UDP_HEADER_SIZE (udp_set_checksum c) b)))"

definition udp_send :: "nat \<Rightarrow> net_buffer \<Rightarrow> (bool \<times> net_buffer \<times> u8 list option) outcome" where
  "udp_send szsb b =
     obind (send_ipv4_checksum b) (\<lambda>b.
     obind (send_udp_checksum szsb b) (\<lambda>b.
     obind (send (nb_buffer b)) (\<lambda>(ok, s, frame). Inr (ok, b\<lparr>nb_buffer := s\<rparr>, frame))))"

subsection \<open>Receiving\<close>

text \<open>The checksum of UDP is verified before the advice behind, \<open>proceed\<close>, is reached. \<open>udp\<close> is the memory from the UDP
  header on.\<close>

definition ipv4_udp_checksumming ::
    "((udp_verdict \<times> udp_demux) outcome option) \<Rightarrow> IPv4_Packet \<Rightarrow> u32 \<Rightarrow> u8 list \<Rightarrow> udp_demux \<Rightarrow> (udp_verdict \<times> udp_demux) outcome option" where
  "ipv4_udp_checksumming proceed packet len udp d =
     (if v4_get_protocol packet \<noteq> IP_TYPE_UDP then proceed
      else if len < IPV4_MIN_HEADER_SIZE + of_nat UDP_HEADER_SIZE then Some (Inr (Dropped_UDP, d))
      else let len = len - ucast (v4_get_ihl packet) * 4 in
      if udp_get_checksum udp \<noteq> 0
      then lbind (Some (UDP_checksum_valid (V4_computePseudoHeader (v4_get_src_ipaddr packet) (v4_get_dst_ipaddr packet) (ucast len) IP_TYPE_UDP)
             udp (ucast len))) (\<lambda>valid. if valid then proceed else Some (Inr (Dropped_UDP, d)))
      else proceed)"

text \<open>A frame of \<open>framelen\<close> bytes at the start of \<open>mem\<close>, the buffer of the driver, for an Ethernet interface; \<open>None\<close> is a frame
  that goes no further.\<close>

definition ipv4_frame_receive ::
    "(IPv4_Packet \<Rightarrow> u32 \<Rightarrow> u16 \<Rightarrow> (IPv4_Packet \<times> u32) option) \<Rightarrow> v4_interface \<Rightarrow> u8 list \<Rightarrow> u32 \<Rightarrow> ipv4_verdict outcome option" where
  "ipv4_frame_receive reassemble ifc mem framelen =
     (if framelen < of_nat ETH_HEADER_SIZE \<or> of_nat MAX_FRAME_SIZE < framelen then None
      else if eth_get_type mem \<noteq> ETH_TYPE_IPV4 then None
      else Some (ipv4_receive reassemble ifc (framelen - of_nat ETH_HEADER_SIZE) (v4_header_at (eth_get_data mem))))"

definition udp_frame_receive ::
    "nat \<Rightarrow> pool_config \<Rightarrow> nat \<Rightarrow> (IPv4_Packet \<Rightarrow> u32 \<Rightarrow> u16 \<Rightarrow> (IPv4_Packet \<times> u32) option) \<Rightarrow> v4_interface \<Rightarrow> u8 list \<Rightarrow> u32 \<Rightarrow> udp_demux \<Rightarrow>
     (udp_verdict \<times> udp_demux) outcome option" where
  "udp_frame_receive szrb c t reassemble ifc mem framelen d =
     (case ipv4_frame_receive reassemble ifc mem framelen of
        None \<Rightarrow> Some (Inr (Proceed, d))
      | Some verdict \<Rightarrow>
        lbind (Some verdict) (\<lambda>v. case v of
          Delivered packet len \<Rightarrow>
            let udp = drop (v4_get_data packet - 20) (v4_data packet) in
            ipv4_udp_checksumming
              (ipv4_udp_receive szrb c t (v4_get_protocol packet) len (v4_get_ihl packet) (v4_get_src_ipaddr packet) udp d) packet len udp d
        | _ \<Rightarrow> Some (Inr (Dropped_UDP, d))))"

subsection \<open>Headers written and read back\<close>

lemma length_v4_header_bytes [simp]: "length (v4_header_bytes p) = 20"
  by (simp add: v4_header_bytes_def)

lemma nibbles:
  fixes i v :: u8
  assumes "i AND 0xF = i" and "v AND 0xF = v"
  shows "(i OR push_bit 4 v) AND 0xF = i" and "drop_bit 4 (i OR push_bit 4 v) = v"
proof -
  have m: "(0xF :: u8) = mask 4" by (simp add: mask_eq_exp_minus_1)
  have i: "bit i n \<Longrightarrow> n < 4" and v: "bit v n \<Longrightarrow> n < 4" for n
    using arg_cong [OF assms(1), of "\<lambda>w. bit w n"] arg_cong [OF assms(2), of "\<lambda>w. bit w n"] by (auto simp: m bit_simps)
  show "(i OR push_bit 4 v) AND 0xF = i"
    by (rule bit_word_eqI) (use i in \<open>auto simp: m bit_simps\<close>)
  show "drop_bit 4 (i OR push_bit 4 v) = v"
    by (rule bit_word_eqI) (use i v in \<open>fastforce simp: bit_simps\<close>)
qed

lemma v4_header_at_encode:
  assumes "v4_ihl p AND 0xF = v4_ihl p" and "v4_version p AND 0xF = v4_version p"
  shows "v4_header_at (v4_header_bytes p @ rest) = p\<lparr>v4_data := rest\<rparr>"
  using nibbles [OF assms] by (simp add: v4_header_at_def v4_header_bytes_def store16_def store32_def load16_store16 load32_store32)

lemma in_mem_split:
  assumes "frame_memory b = pre @ mid @ post" and "length pre = off" and "length mid = n"
  shows "in_mem off n f b = Inr (b\<lparr>nb_buffer := (nb_buffer b)\<lparr>sb_mem := pre @ f mid @ post\<rparr>\<rparr>)"
  using assms by (simp add: in_mem_def)

lemma frame_memory_simps [simp]:
  "frame_memory (b\<lparr>nb_buffer := s\<rparr>) = sb_mem s" "frame_memory (b\<lparr>memstart_ethernet := x\<rparr>) = frame_memory b"
  "frame_memory (b\<lparr>memstart_ip := x\<rparr>) = frame_memory b" "frame_memory (b\<lparr>memstart_transport := x\<rparr>) = frame_memory b"
  "frame_memory (b\<lparr>nextheaderfield_ip := x\<rparr>) = frame_memory b" "frame_memory (written n b) = frame_memory b"
  "frame_memory (set_state st b) = frame_memory b"
  by (simp_all add: frame_memory_def written_def set_state_def setState_def writtenToDataPointer_def)

lemma eth_header_bytes:
  assumes "length m = 14" and "length hw = 6" and "length mac = 6"
  shows "eth_set_dst_hwaddr mac (eth_set_src_hwaddr hw (eth_set_type ETH_TYPE_IPV4 m)) = mac @ hw @ [0x08, 0x00]"
proof -
  obtain h0 h1 h2 h3 h4 h5 where h: "hw = [h0, h1, h2, h3, h4, h5]" using assms(2) by (rule length_6E)
  obtain k0 k1 k2 k3 k4 k5 where k: "mac = [k0, k1, k2, k3, k4, k5]" using assms(3) by (rule length_6E)
  have t: "store16 (htons ETH_TYPE_IPV4) = [0x08, 0x00]" by code_simp
  have l: "length (take 8 m) = 8" "length (drop 8 m) = 6" using assms(1) by simp_all
  obtain x0 x1 x2 x3 x4 x5 x6 x7 where "take 8 m = [x0, x1, x2, x3, x4, x5, x6, x7]" using l(1) by (rule length_8E)
  moreover obtain y0 y1 y2 y3 y4 y5 where "drop 8 m = [y0, y1, y2, y3, y4, y5]" using l(2) by (rule length_6E)
  ultimately have "m = [x0, x1, x2, x3, x4, x5, x6, x7, y0, y1, y2, y3, y4, y5]" using append_take_drop_id [of 8 m] by simp
  then show ?thesis
    by (simp add: h k eth_set_src_hwaddr_def eth_set_dst_hwaddr_def eth_set_type_def set16_def put_bytes_def t)
qed

lemma udp_header_bytes:
  assumes "length m = 8"
  shows "us_setupHeader n s m = store16 (htons (us_sport s)) @ store16 (htons (us_dport s)) @ store16 (htons (ucast n)) @ [0, 0]"
    and "udp_set_checksum c (store16 a @ store16 b @ store16 d @ [x, y]) = store16 a @ store16 b @ store16 d @ store16 (htons c)"
proof -
  obtain x0 x1 x2 x3 x4 x5 x6 x7 where "m = [x0, x1, x2, x3, x4, x5, x6, x7]" using assms by (rule length_8E)
  then show "us_setupHeader n s m = store16 (htons (us_sport s)) @ store16 (htons (us_dport s)) @ store16 (htons (ucast n)) @ [0, 0]"
    by (simp add: us_setupHeader_def udp_fields set16_def put_bytes_def store16_def htons_def)
  show "udp_set_checksum c (store16 a @ store16 b @ store16 d @ [x, y]) = store16 a @ store16 b @ store16 d @ store16 (htons c)"
    by (simp add: udp_fields set16_def put_bytes_def store16_def)
qed

subsection \<open>The frame of a UDP datagram\<close>

lemma set_protocol_bytes: "take 9 (v4_header_bytes p) @ [x] @ drop 10 (v4_header_bytes p) = v4_header_bytes (v4_set_protocol x p)"
  by (simp add: v4_header_bytes_def v4_set_protocol_def store16_def store32_def)

lemma setupHeader_decodes:
  assumes "p = fst (v4s_setupHeader R n ip q)"
  shows "v4_header_at (v4_header_bytes p @ rest) = p\<lparr>v4_data := rest\<rparr>" and "v4_dst p = v4s_dst_addr ip"
    and "snd (v4s_setupHeader R n ip q) = ip\<lparr>v4s_id := v4s_id ip + 1\<rparr>"
proof -
  have e: "v4s_setupHeader R n ip q = (p, snd (v4s_setupHeader R n ip q))" by (simp add: assms)
  note f = setupHeader_fields [OF e]
  show "v4_header_at (v4_header_bytes p @ rest) = p\<lparr>v4_data := rest\<rparr>" by (rule v4_header_at_encode) (simp_all add: f(1,2))
  show "v4_dst p = v4s_dst_addr ip" by (rule f(8))
  show "snd (v4s_setupHeader R n ip q) = ip\<lparr>v4s_id := v4s_id ip + 1\<rparr>" by (rule f(10))
qed

text \<open>Neither broadcast nor what the code takes for multicast.\<close>

definition resolved_by_arp :: "u32 \<Rightarrow> bool" where
  "resolved_by_arp ip \<longleftrightarrow> ip \<noteq> -1 \<and> \<not> (224 \<le> (ucast (drop_bit 24 ip) :: u8) \<and> (ucast (drop_bit 24 ip) :: u8) \<le> 239)"

lemma link_destination_resolved:
  "resolved_by_arp ip \<Longrightarrow> set_link_destination ip off b = Inr (set_state (WritingState OR ResolveLinkLayerStateOption) b)"
  by (auto simp: set_link_destination_def resolved_by_arp_def Let_def)

lemma remaining_after:
  assumes "sb_data b = getDataStart szsb b + off" and "unat (m_memsize b) = off + k"
  shows "getRemainingSize szsb b = of_nat k"
proof -
  have "off + k < 2 ^ 32" using assms(2) unat_u32_less [of "m_memsize b"] by (simp del: unat_u32_less)
  then have "unat (of_nat k :: u32) = k" by (simp add: unat_of_nat_u32)
  then show ?thesis using getRemainingSize_value [OF assms(1)] assms(2) by (simp add: word_unat_eq_iff)
qed

definition udp_header :: "UDP_Socket \<Rightarrow> nat \<Rightarrow> u16 \<Rightarrow> u8 list" where
  "udp_header s n c = store16 (htons (us_sport s)) @ store16 (htons (us_dport s)) @ store16 (htons (of_nat (8 + n))) @ store16 (htons c)"

lemma length_udp_header [simp]: "length (udp_header s n c) = 8"
  by (simp add: udp_header_def)

text \<open>The buffer is written last, and in it the memory first.\<close>

lemma field_order:
  "x\<lparr>nb_buffer := b, memstart_ethernet := k\<rparr> = x\<lparr>memstart_ethernet := k, nb_buffer := b\<rparr>"
  "x\<lparr>nb_buffer := b, memstart_ip := k\<rparr> = x\<lparr>memstart_ip := k, nb_buffer := b\<rparr>"
  "x\<lparr>nb_buffer := b, memstart_transport := k\<rparr> = x\<lparr>memstart_transport := k, nb_buffer := b\<rparr>"
  "x\<lparr>nb_buffer := b, nextheaderfield_ip := k\<rparr> = x\<lparr>nextheaderfield_ip := k, nb_buffer := b\<rparr>"
  "y\<lparr>m_state := s, sb_mem := m\<rparr> = y\<lparr>sb_mem := m, m_state := s\<rparr>"
  "y\<lparr>m_state := s, sb_data := d\<rparr> = y\<lparr>sb_data := d, m_state := s\<rparr>"
  "y\<lparr>sb_data := d, sb_mem := m\<rparr> = y\<lparr>sb_mem := m, sb_data := d\<rparr>"
  by simp_all

lemma ucast_of_nat_u16: "(ucast (of_nat k :: u32) :: u16) = of_nat k"
  by transfer simp

lemma prepare_ethernet_frame:
  assumes "v4s_interface ip = Some i" and "ho_ethernet H i" and "resolved_by_arp (v4s_get_nexthop_ipaddr (ho_router H) ip)"
    and "sb_data b = getDataStart szsb b" and "sb_mem b = E @ rest" and "length E = 14"
  shows "prepare_ethernet H szsb proceed \<lparr>sg_buffer = junk\<lparr>nb_buffer := b\<rparr>, sg_ipv4 = ip, sg_arp = arp, sg_frames = out\<rparr> =
    proceed \<lparr>sg_buffer = junk\<lparr>nb_buffer := b\<lparr>m_state := WritingState OR ResolveLinkLayerStateOption, sb_data := getDataStart szsb b + 14,
        sb_mem := eth_set_src_hwaddr (ho_address H i) (eth_set_type ETH_TYPE_IPV4 E) @ rest\<rparr>, memstart_ethernet := 0\<rparr>,
      sg_ipv4 = ip, sg_arp = arp, sg_frames = out\<rparr>"
proof -
  have off: "data_offset szsb (junk\<lparr>nb_buffer := b\<rparr>) = 0" using assms(4) by (simp add: data_offset_def)
  have m: "in_mem 0 ETH_HEADER_SIZE f (written (of_nat ETH_HEADER_SIZE) (junk\<lparr>memstart_ethernet := 0, nb_buffer := b\<rparr>)) =
      Inr (junk\<lparr>memstart_ethernet := 0, nb_buffer := b\<lparr>sb_mem := f E @ rest, sb_data := getDataStart szsb b + 14\<rparr>\<rparr>)" for f
    using assms(4-6) by (subst in_mem_split [of _ "[]" E rest]) (simp_all add: written_def writtenToDataPointer_def ETH_HEADER_SIZE_def field_order)
  show ?thesis
    using assms(1,2) by (simp add: prepare_ethernet_def with_buffer_def off Let_def m link_destination_resolved [OF assms(3)] set_state_def setState_def field_order)
qed

lemma prepare_ipv4_frame:
  assumes "sb_data b = getDataStart szsb b + length E" and "sb_mem b = E @ I @ rest" and "length I = 20" and "unat (m_memsize b) = length E + k"
    and "p = fst (v4s_setupHeader (ho_router H) (of_nat k) ip (v4_header_at I))"
  shows "prepare_ipv4 H szsb proceed \<lparr>sg_buffer = nb\<lparr>nb_buffer := b\<rparr>, sg_ipv4 = ip, sg_arp = arp, sg_frames = out\<rparr> =
    proceed \<lparr>sg_buffer = nb\<lparr>nb_buffer := b\<lparr>sb_data := getDataStart szsb b + length E + 20, sb_mem := E @ v4_header_bytes p @ rest\<rparr>,
        memstart_ip := length E, nextheaderfield_ip := length E + 9\<rparr>,
      sg_ipv4 = ip\<lparr>v4s_id := v4s_id ip + 1\<rparr>, sg_arp = arp, sg_frames = out\<rparr>"
proof -
  have off: "data_offset szsb (nb\<lparr>nb_buffer := b\<rparr>) = length E" using assms(1) by (simp add: data_offset_def)
  have m: "in_mem (length E) 20 f (nb\<lparr>memstart_ip := length E, nb_buffer := b\<rparr>) =
      Inr (nb\<lparr>memstart_ip := length E, nb_buffer := b\<lparr>sb_mem := E @ f I @ rest\<rparr>\<rparr>)" for f
    using assms(2,3) by (subst in_mem_split [of _ E I rest]) simp_all
  show ?thesis
    using assms(1,5) remaining_after [OF assms(1,4)]
    by (simp add: prepare_ipv4_def with_buffer_def off Let_def m written_def writtenToDataPointer_def v4s_getSpecificHeaderSize_def IPV4_MIN_HEADER_SIZE_def field_order)
qed

lemma prepare_arp_frame:
  assumes "m_state b = WritingState OR ResolveLinkLayerStateOption" and "m_interface b = Some j" and "memstart_ethernet nb = 0"
    and "memstart_ip nb = 14" and "sb_mem b = E @ v4_header_bytes p @ rest" and "length E = 14" and "p = fst (v4s_setupHeader R n ip q)"
    and "ipv4_lookup ms_to_ticks (v4s_dst_addr ip) (host_interface H j) xs arp = Some (Some mac, out', arp')"
  shows "prepare_arp H ms_to_ticks xs proceed \<lparr>sg_buffer = nb\<lparr>nb_buffer := b\<rparr>, sg_ipv4 = ip', sg_arp = arp, sg_frames = out\<rparr> =
    proceed \<lparr>sg_buffer = nb\<lparr>nb_buffer := b\<lparr>m_state := WritingState, sb_mem := eth_set_dst_hwaddr mac E @ v4_header_bytes p @ rest\<rparr>\<rparr>,
      sg_ipv4 = ip', sg_arp = arp', sg_frames = out @ out'\<rparr>"
proof -
  have s: "(WritingState OR ResolveLinkLayerStateOption) AND ResolveLinkLayerStateOption \<noteq> 0" by (simp add: state_defs)
  have d: "v4_get_dst_ipaddr (v4_header_at (drop 14 (sb_mem b))) = v4s_dst_addr ip"
    using assms(5,6) setupHeader_decodes(1,2) [OF assms(7)] by (simp add: v4_get_dst_ipaddr_def)
  have m: "in_mem 0 ETH_HEADER_SIZE f (nb\<lparr>nb_buffer := b\<rparr>) = Inr (nb\<lparr>nb_buffer := b\<lparr>sb_mem := f E @ v4_header_bytes p @ rest\<rparr>\<rparr>)" for f
    using assms(5,6) by (subst in_mem_split [of _ "[]" E "v4_header_bytes p @ rest"]) (simp_all add: ETH_HEADER_SIZE_def)
  show ?thesis
    using assms(1-4,8) s d m by (simp add: prepare_arp_def with_buffer_def Let_def set_state_def setState_def field_order)
qed

lemma prepare_udp_frame:
  assumes "sb_data b = getDataStart szsb b + 34" and "sb_mem b = E @ v4_header_bytes p @ U @ P" and "length E = 14" and "length U = 8"
    and "unat (m_memsize b) = 42 + n" and "nextheaderfield_ip nb = 23"
  shows "prepare_udp szsb s \<lparr>sg_buffer = nb\<lparr>nb_buffer := b\<rparr>, sg_ipv4 = ip, sg_arp = arp, sg_frames = out\<rparr> = Some (Inr
    \<lparr>sg_buffer = nb\<lparr>nb_buffer := b\<lparr>sb_data := getDataStart szsb b + 42, sb_mem := E @ v4_header_bytes (v4_set_protocol IP_TYPE_UDP p) @ udp_header s n 0 @ P\<rparr>,
        memstart_transport := 34\<rparr>,
      sg_ipv4 = ip, sg_arp = arp, sg_frames = out\<rparr>)"
proof -
  let ?p = "v4_set_protocol IP_TYPE_UDP p"
  have split: "v4_header_bytes p = take 9 (v4_header_bytes p) @ take 1 (drop 9 (v4_header_bytes p)) @ drop 10 (v4_header_bytes p)"
    by (metis append_take_drop_id drop_drop numeral_plus_one semiring_norm(5) add.commute one_plus_numeral add_num_simps(8) semiring_norm(2) semiring_norm(8))
  have m1: "in_mem 23 1 (\<lambda>_. [IP_TYPE_UDP]) (nb\<lparr>nb_buffer := b\<rparr>) = Inr (nb\<lparr>nb_buffer := b\<lparr>sb_mem := E @ v4_header_bytes ?p @ U @ P\<rparr>\<rparr>)"
  proof -
    have "frame_memory (nb\<lparr>nb_buffer := b\<rparr>) = (E @ take 9 (v4_header_bytes p)) @ take 1 (drop 9 (v4_header_bytes p)) @ drop 10 (v4_header_bytes p) @ U @ P"
      using assms(2) split by simp
    moreover have "length (E @ take 9 (v4_header_bytes p)) = 23" "length (take 1 (drop 9 (v4_header_bytes p))) = 1" using assms(3) by simp_all
    ultimately have "in_mem 23 1 (\<lambda>_. [IP_TYPE_UDP]) (nb\<lparr>nb_buffer := b\<rparr>) =
        Inr (nb\<lparr>nb_buffer := b\<lparr>sb_mem := (E @ take 9 (v4_header_bytes p)) @ [IP_TYPE_UDP] @ drop 10 (v4_header_bytes p) @ U @ P\<rparr>\<rparr>)"
      by (simp only: in_mem_split) simp
    then show ?thesis by (simp only: set_protocol_bytes [symmetric] append_assoc)
  qed
  have m2: "in_mem 34 8 f (nb\<lparr>memstart_transport := 34, nb_buffer := b\<lparr>sb_mem := E @ v4_header_bytes ?p @ U @ P\<rparr>\<rparr>) =
      Inr (nb\<lparr>memstart_transport := 34, nb_buffer := b\<lparr>sb_mem := E @ v4_header_bytes ?p @ f U @ P\<rparr>\<rparr>)" for f
    using assms(3,4) by (subst in_mem_split [of _ "E @ v4_header_bytes ?p" U P]) simp_all
  have n: "getRemainingSize szsb (b\<lparr>sb_mem := x\<rparr>) = of_nat (8 + n)" for x
    using remaining_after [of "b\<lparr>sb_mem := x\<rparr>" szsb 34 "8 + n"] assms(1,5) by (simp add: getDataStart_def)
  have h: "us_setupHeader (of_nat (8 + n)) s U = udp_header s n 0"
    unfolding udp_header_bytes(1) [OF assms(4)] udp_header_def ucast_of_nat_u16 by (simp add: htons_def store16_def)
  show ?thesis
    using assms(1,6) n h by (simp add: prepare_udp_def with_buffer_def Let_def m1 [unfolded One_nat_def] m2 data_offset_def getDataStart_def written_def writtenToDataPointer_def
        UDP_HEADER_SIZE_def field_order)
qed

text \<open>A request of \<open>n\<close> bytes for a destination whose hardware address is found: the buffer holds the headers.\<close>

definition udp_packet :: "host \<Rightarrow> IPV4 \<Rightarrow> nat \<Rightarrow> IPv4_Packet \<Rightarrow> IPv4_Packet" where
  "udp_packet H ip n q = v4_set_protocol IP_TYPE_UDP (fst (v4s_setupHeader (ho_router H) (of_nat (28 + n)) ip q))"

lemma udp_packet_fields:
  "v4_ihl (udp_packet H ip n q) = 5" "v4_get_version (udp_packet H ip n q) = IPV4_VERSION"
  "v4_get_total_len (udp_packet H ip n q) = of_nat (28 + n)" "v4_get_fragment_offset (udp_packet H ip n q) = 0"
  "v4_get_flags (udp_packet H ip n q) = 0" "v4_get_ttl (udp_packet H ip n q) = 64" "v4_get_src_ipaddr (udp_packet H ip n q) = v4s_get_src_addr (ho_router H) ip"
  "v4_get_dst_ipaddr (udp_packet H ip n q) = v4s_dst_addr ip" "v4_get_protocol (udp_packet H ip n q) = IP_TYPE_UDP"
  "v4_header_at (v4_header_bytes (udp_packet H ip n q\<lparr>v4_hdr_checksum := c\<rparr>) @ rest) = udp_packet H ip n q\<lparr>v4_hdr_checksum := c, v4_data := rest\<rparr>"
  "v4_header_at (v4_header_bytes (udp_packet H ip n q) @ rest) = udp_packet H ip n q\<lparr>v4_data := rest\<rparr>"
proof -
  obtain p s' where e: "v4s_setupHeader (ho_router H) (of_nat (28 + n)) ip q = (p, s')" by (cases "v4s_setupHeader (ho_router H) (of_nat (28 + n)) ip q")
  note f = setupHeader_fields [OF e]
  have p: "udp_packet H ip n q = v4_set_protocol IP_TYPE_UDP p" by (simp add: udp_packet_def e del: of_nat_add)
  show "v4_ihl (udp_packet H ip n q) = 5" "v4_get_version (udp_packet H ip n q) = IPV4_VERSION" "v4_get_fragment_offset (udp_packet H ip n q) = 0"
    "v4_get_flags (udp_packet H ip n q) = 0" "v4_get_ttl (udp_packet H ip n q) = 64" "v4_get_src_ipaddr (udp_packet H ip n q) = v4s_get_src_addr (ho_router H) ip"
    "v4_get_dst_ipaddr (udp_packet H ip n q) = v4s_dst_addr ip" "v4_get_protocol (udp_packet H ip n q) = IP_TYPE_UDP"
    using f by (simp_all add: p ipv4_fields ipv4_constants)
  show "v4_get_total_len (udp_packet H ip n q) = of_nat (28 + n)"
    using f(3) unfolding ucast_of_nat_u16 by (simp add: p v4_get_total_len_def v4_set_protocol_def)
  show "v4_header_at (v4_header_bytes (udp_packet H ip n q\<lparr>v4_hdr_checksum := c\<rparr>) @ rest) = udp_packet H ip n q\<lparr>v4_hdr_checksum := c, v4_data := rest\<rparr>"
    by (rule v4_header_at_encode) (simp_all add: p v4_set_protocol_def f(1,2))
  show "v4_header_at (v4_header_bytes (udp_packet H ip n q) @ rest) = udp_packet H ip n q\<lparr>v4_data := rest\<rparr>"
    by (rule v4_header_at_encode) (simp_all add: p v4_set_protocol_def f(1,2))
qed

text \<open>A new buffer, and what the headers of Ethernet and IPv4 make of it, before ARP is asked.\<close>

lemma request_instance:
  assumes "v4s_interface ip = Some i" and "ho_ethernet H i" and "34 + unat ts + unat n + szsb < 2 ^ 32"
    and "mp_alloc c (34 + unat ts + unat n + szsb) m = (Some a, m')"
  shows "net_requestSendBuffer H szsb c raw junk ts ms_to_ticks xs transport ifc n ip arp m =
    lbind (prepareSendBuffer H szsb ms_to_ticks xs transport
        \<lparr>sg_buffer = junk\<lparr>nb_buffer := \<lparr>sb_addr = a, m_memsize = 34 + ts + n, m_state = WritingState, m_interface = ifc, sb_data = a + szsb,
           sb_mem = map (\<lambda>k. raw (a + szsb + k)) [0..<34 + unat ts + unat n]\<rparr>\<rparr>, sg_ipv4 = ip, sg_arp = arp, sg_frames = []\<rparr>)
      (\<lambda>st. Some (Inr (if m_state (nb_buffer (sg_buffer st)) \<noteq> WritingState then None else Some (sg_buffer st),
                       sg_ipv4 st, sg_arp st, sg_frames st, m')))"
proof -
  have e: "34 + ts + n = of_nat (34 + unat ts + unat n)" by simp
  have N: "unat (34 + ts + n) = 34 + unat ts + unat n" unfolding e using assms(3) by (intro unat_of_nat_u32) simp
  have "34 + ts + n + of_nat szsb = of_nat (34 + unat ts + unat n + szsb)" by simp
  then have size: "unat (34 + ts + n + of_nat szsb) = 34 + unat ts + unat n + szsb" using assms(3) by (simp only:) (intro unat_of_nat_u32, simp)
  have est: "estimateSendBufferMinSize H ts ip = Inr (34 + ts)"
    using assms(1,2) by (simp add: estimateSendBufferMinSize_def ETH_HEADER_SIZE_def v4s_getSpecificHeaderSize_def IPV4_MIN_HEADER_SIZE_def)
  have "createInstance szsb c raw (34 + ts + n) ifc m = (Some \<lparr>sb_addr = a, m_memsize = 34 + ts + n, m_state = WritingState, m_interface = ifc,
      sb_data = a + szsb, sb_mem = map (\<lambda>k. raw (a + szsb + k)) [0..<34 + unat ts + unat n]\<rparr>, m')"
    using assms(4) unfolding createInstance_def size N by (simp add: initStartPointer_def getDataStart_def)
  then show ?thesis by (simp add: net_requestSendBuffer_def est)
qed

lemma prepare_headers:
  assumes "v4s_interface ip = Some i" and "ho_ethernet H i" and "resolved_by_arp (v4s_get_nexthop_ipaddr (ho_router H) ip)"
    and "sb_data b = getDataStart szsb b" and "sb_mem b = E @ I @ rest" and "length E = 14" and "length I = 20" and "unat (m_memsize b) = 34 + k"
  shows "prepareSendBuffer H szsb ms_to_ticks xs transport \<lparr>sg_buffer = junk\<lparr>nb_buffer := b\<rparr>, sg_ipv4 = ip, sg_arp = arp, sg_frames = []\<rparr> =
    prepare_arp H ms_to_ticks xs transport
      \<lparr>sg_buffer = junk\<lparr>memstart_ethernet := 0, memstart_ip := 14, nextheaderfield_ip := 23,
         nb_buffer := b\<lparr>sb_mem := eth_set_src_hwaddr (ho_address H i) (eth_set_type ETH_TYPE_IPV4 E) @
             v4_header_bytes (fst (v4s_setupHeader (ho_router H) (of_nat (20 + k)) ip (v4_header_at I))) @ rest,
           sb_data := getDataStart szsb b + 34, m_state := WritingState OR ResolveLinkLayerStateOption\<rparr>\<rparr>,
       sg_ipv4 = ip\<lparr>v4s_id := v4s_id ip + 1\<rparr>, sg_arp = arp, sg_frames = []\<rparr>"
proof -
  let ?E = "eth_set_src_hwaddr (ho_address H i) (eth_set_type ETH_TYPE_IPV4 E)"
  let ?b1 = "b\<lparr>sb_mem := ?E @ I @ rest, sb_data := getDataStart szsb b + 14, m_state := WritingState OR ResolveLinkLayerStateOption\<rparr>"
  have lE: "length ?E = 14" using assms(6) by (simp add: eth_set_src_hwaddr_def eth_set_type_def set16_def)
  have s1: "prepare_ethernet H szsb proceed \<lparr>sg_buffer = junk\<lparr>nb_buffer := b\<rparr>, sg_ipv4 = ip, sg_arp = arp, sg_frames = []\<rparr> =
      proceed \<lparr>sg_buffer = junk\<lparr>memstart_ethernet := 0, nb_buffer := ?b1\<rparr>, sg_ipv4 = ip, sg_arp = arp, sg_frames = []\<rparr>" for proceed
    using prepare_ethernet_frame [OF assms(1-6)] by (simp only: field_order)
  show ?thesis
    unfolding prepareSendBuffer_def s1
    using prepare_ipv4_frame [of ?b1 szsb ?E I rest "20 + k" _ H ip _ "junk\<lparr>memstart_ethernet := 0\<rparr>" arp "[]", OF _ _ assms(7) _ refl] lE assms(8)
    by (simp add: getDataStart_def field_order add_ac del: of_nat_add)
qed

lemma request_udp:
  assumes "v4s_interface ip = Some i" and "ho_ethernet H i" and "length (ho_address H i) = 6"
    and "resolved_by_arp (v4s_get_nexthop_ipaddr (ho_router H) ip)"
    and "ipv4_lookup ms_to_ticks (v4s_dst_addr ip) (host_interface H j) xs arp = Some (Some mac, out, arp')" and "length mac = 6"
    and "mp_alloc c (42 + n + szsb) m = (Some a, m')" and "42 + n + szsb < 2 ^ 32"
  obtains P q where "net_requestSendBuffer H szsb c raw junk (of_nat UDP_HEADER_SIZE) ms_to_ticks xs (prepare_udp szsb s) (Some j) (of_nat n) ip arp m =
      Some (Inr (Some (junk\<lparr>memstart_ethernet := 0, memstart_ip := 14, nextheaderfield_ip := 23, memstart_transport := 34,
        nb_buffer := \<lparr>sb_addr = a, m_memsize = of_nat (42 + n), m_state = WritingState, m_interface = Some j, sb_data = a + szsb + 42,
          sb_mem = (mac @ ho_address H i @ [0x08, 0x00]) @ v4_header_bytes (udp_packet H ip n q) @ udp_header s n 0 @ P\<rparr>\<rparr>),
      ip\<lparr>v4s_id := v4s_id ip + 1\<rparr>, arp', out, m'))" and "length P = n"
proof -
  define mem where "mem = map (\<lambda>k. raw (a + szsb + k)) [0..<42 + n]"
  define E I U P where "E = take 14 mem" and "I = take 20 (drop 14 mem)" and "U = take 8 (drop 34 mem)" and "P = drop 42 mem"
  have l: "length E = 14" "length I = 20" "length U = 8" "length P = n" by (simp_all add: E_def I_def U_def P_def mem_def)
  have mem: "mem = E @ I @ U @ P"
    using append_take_drop_id [of 14 mem] append_take_drop_id [of 20 "drop 14 mem"] append_take_drop_id [of 8 "drop 34 mem"]
    by (simp add: E_def I_def U_def P_def)
  define b where "b = \<lparr>sb_addr = a, m_memsize = of_nat (42 + n), m_state = WritingState, m_interface = Some j, sb_data = a + szsb, sb_mem = mem\<rparr>"
  have b: "sb_data b = getDataStart szsb b" "sb_mem b = E @ I @ U @ P" "unat (m_memsize b) = 34 + (8 + n)" "m_interface b = Some j"
    using assms(8) unat_of_nat_u32 [of "42 + n"] by (simp_all add: b_def getDataStart_def mem del: of_nat_add)
  have ts: "unat (of_nat UDP_HEADER_SIZE :: u32) = 8" "unat (of_nat n :: u32) = n" "34 + of_nat UDP_HEADER_SIZE + of_nat n = (of_nat (42 + n) :: u32)"
    using assms(8) by (simp_all add: UDP_HEADER_SIZE_def unat_of_nat_u32)
  let ?E = "eth_set_src_hwaddr (ho_address H i) (eth_set_type ETH_TYPE_IPV4 E)" and ?p = "fst (v4s_setupHeader (ho_router H) (of_nat (28 + n)) ip (v4_header_at I))"
  have E: "length ?E = 14" "eth_set_dst_hwaddr mac ?E = mac @ ho_address H i @ [0x08, 0x00]" "length (eth_set_dst_hwaddr mac ?E) = 14"
    using l(1) assms(3,6) eth_header_bytes [OF l(1) assms(3,6)] by (simp_all add: eth_set_src_hwaddr_def eth_set_type_def set16_def)
  let ?nb' = "junk\<lparr>memstart_ethernet := 0, memstart_ip := 14, nextheaderfield_ip := 23\<rparr>"
  let ?b2 = "b\<lparr>sb_mem := ?E @ v4_header_bytes ?p @ U @ P, sb_data := getDataStart szsb b + 34, m_state := WritingState OR ResolveLinkLayerStateOption\<rparr>"
  let ?b3 = "b\<lparr>sb_mem := eth_set_dst_hwaddr mac ?E @ v4_header_bytes ?p @ U @ P, sb_data := getDataStart szsb b + 34, m_state := WritingState\<rparr>"
  have s1: "prepareSendBuffer H szsb ms_to_ticks xs (prepare_udp szsb s) \<lparr>sg_buffer = junk\<lparr>nb_buffer := b\<rparr>, sg_ipv4 = ip, sg_arp = arp, sg_frames = []\<rparr> =
      prepare_arp H ms_to_ticks xs (prepare_udp szsb s) \<lparr>sg_buffer = ?nb'\<lparr>nb_buffer := ?b2\<rparr>, sg_ipv4 = ip\<lparr>v4s_id := v4s_id ip + 1\<rparr>, sg_arp = arp, sg_frames = []\<rparr>"
    using prepare_headers [OF assms(1,2,4) b(1,2) l(1,2) b(3), of ms_to_ticks xs "prepare_udp szsb s" junk arp] by (simp del: of_nat_add)
  have s2: "prepare_arp H ms_to_ticks xs proceed \<lparr>sg_buffer = ?nb'\<lparr>nb_buffer := ?b2\<rparr>, sg_ipv4 = ip\<lparr>v4s_id := v4s_id ip + 1\<rparr>, sg_arp = arp, sg_frames = []\<rparr> =
      proceed \<lparr>sg_buffer = ?nb'\<lparr>nb_buffer := ?b3\<rparr>, sg_ipv4 = ip\<lparr>v4s_id := v4s_id ip + 1\<rparr>, sg_arp = arp', sg_frames = out\<rparr>" for proceed
    using prepare_arp_frame [of ?b2 j ?nb' ?E ?p "U @ P" _ _ _ _ ms_to_ticks H xs arp mac out arp' proceed] b(4) E(1) assms(5)
    by (simp add: field_order del: of_nat_add)
  have s3: "prepare_udp szsb s \<lparr>sg_buffer = ?nb'\<lparr>nb_buffer := ?b3\<rparr>, sg_ipv4 = ip\<lparr>v4s_id := v4s_id ip + 1\<rparr>, sg_arp = arp', sg_frames = out\<rparr> = Some (Inr
      \<lparr>sg_buffer = ?nb'\<lparr>memstart_transport := 34, nb_buffer := b\<lparr>sb_mem := eth_set_dst_hwaddr mac ?E @ v4_header_bytes (v4_set_protocol IP_TYPE_UDP ?p) @
        udp_header s n 0 @ P, sb_data := getDataStart szsb b + 42, m_state := WritingState\<rparr>\<rparr>,
        sg_ipv4 = ip\<lparr>v4s_id := v4s_id ip + 1\<rparr>, sg_arp = arp', sg_frames = out\<rparr>)"
    using prepare_udp_frame [of ?b3 szsb "eth_set_dst_hwaddr mac ?E" ?p U P n ?nb' s] l(3) E(3) b(3)
    by (simp add: getDataStart_def field_order del: of_nat_add)
  have "net_requestSendBuffer H szsb c raw junk (of_nat UDP_HEADER_SIZE) ms_to_ticks xs (prepare_udp szsb s) (Some j) (of_nat n) ip arp m =
    lbind (prepareSendBuffer H szsb ms_to_ticks xs (prepare_udp szsb s) \<lparr>sg_buffer = junk\<lparr>nb_buffer := b\<rparr>, sg_ipv4 = ip, sg_arp = arp, sg_frames = []\<rparr>)
      (\<lambda>st. Some (Inr (if m_state (nb_buffer (sg_buffer st)) \<noteq> WritingState then None else Some (sg_buffer st),
                       sg_ipv4 st, sg_arp st, sg_frames st, m')))"
    using request_instance [OF assms(1,2), of "of_nat UDP_HEADER_SIZE" "of_nat n" szsb c m a m'] assms(7,8) unfolding ts b_def mem_def
    by (simp del: of_nat_add)
  then show thesis
    unfolding s1 s2 s3 unfolding E(2) using l(4)
    by (intro that [of "v4_header_at I" P]) (simp_all add: b_def udp_packet_def getDataStart_def del: of_nat_add)
qed

subsection \<open>Checksums filled in\<close>

lemma pseudo_header_small: "unat (V4_computePseudoHeader src dst len proto) < 2 ^ 31"
proof -
  let ?b = "\<lambda>x :: u32. [ucast x :: u8, ucast (drop_bit 8 x), ucast (drop_bit 16 x), ucast (drop_bit 24 x)]"
  have "be_sum (?b src @ ?b dst) \<le> 255 * 256 * 8" using be_sum_bound [of "?b src @ ?b dst"] by simp
  then show ?thesis
    using V4_pseudo_value [of "ucast src" "ucast (drop_bit 8 src)" "ucast (drop_bit 16 src)" "ucast (drop_bit 24 src)"
        "ucast dst" "ucast (drop_bit 8 dst)" "ucast (drop_bit 16 dst)" "ucast (drop_bit 24 dst)" len proto]
      unat_u16_less [of len] unat_u8_less [of proto]
    by (simp add: load32_store32 del: unat_u16_less unat_u8_less)
qed

lemma htons_bytes: "store16 (htons v) = [ucast (drop_bit 8 v), ucast v]"
  by (rule network_byte_order [THEN conjunct1])

lemma cksum_prefix: "take n buf = take n buf' \<Longrightarrow> n \<le> length buf \<Longrightarrow> n \<le> length buf' \<Longrightarrow> v4_cksum buf n = v4_cksum buf' n"
  by (simp add: v4_cksum_def peek_all_def)

lemma udp_checksum_filled:
  assumes "length d = n" and "8 + n < 65536"
  obtains c where "UDP_calc_checksum (V4_computePseudoHeader src dst (of_nat (8 + n)) pr) (udp_header s n 0 @ d) (of_nat (8 + n)) = Inr c"
    and "\<And>rest. UDP_checksum_valid (V4_computePseudoHeader src dst (of_nat (8 + n)) pr) (udp_header s n c @ d @ rest) (of_nat (8 + n)) = Inr True"
proof -
  let ?l = "of_nat (8 + n) :: u16" let ?p = "V4_computePseudoHeader src dst ?l pr"
  let ?pre = "store16 (htons (us_sport s)) @ store16 (htons (us_dport s)) @ store16 (htons ?l)"
  have l: "unat ?l = 8 + n" using assms(2) by (intro unat_of_nat_u16) simp
  have h: "udp_header s n c @ r = ?pre @ ucast (drop_bit 8 c) # ucast c # r" for c r
    by (simp add: udp_header_def htons_bytes)
  have h0: "udp_header s n 0 @ d = ?pre @ 0 # 0 # d" using h [of 0 d] by simp
  have small: "unat ?p + be_sum (take (unat ?l) m) < 2 ^ 32" for m
  proof -
    have "length (take (unat ?l) m) \<le> 65535" using unat_u16_less [of ?l] by (simp del: unat_u16_less)
    then show ?thesis using be_sum_bound_u16 [of "take (unat ?l) m"] pseudo_header_small [of src dst ?l pr] by simp
  qed
  obtain c where c: "UDP_calc_checksum ?p (?pre @ 0 # 0 # d) ?l = Inr c"
      "UDP_checksum_valid ?p (?pre @ ucast (drop_bit 8 c) # ucast c # d) ?l = Inr True"
    using udp_sum.fill_in_valid [of ?l ?pre d ?p] l assms(1) pseudo_header_small [of src dst ?l pr] by (auto simp del: of_nat_add)
  have "UDP_checksum_valid ?p (udp_header s n c @ d @ rest) ?l = Inr True" for rest
  proof -
    have t: "take (unat ?l) (udp_header s n c @ d @ rest) = udp_header s n c @ d" using l assms(1) by (simp del: of_nat_add)
    have t': "take (unat ?l) (udp_header s n c @ d) = udp_header s n c @ d" using l assms(1) by (simp del: of_nat_add)
    note v = udp_sum.valid_iff [of ?l "udp_header s n c @ d @ rest" ?p] udp_sum.valid_iff [of ?l "udp_header s n c @ d" ?p]
    have "UDP_checksum_valid ?p (udp_header s n c @ d @ rest) ?l = UDP_checksum_valid ?p (udp_header s n c @ d) ?l"
      using v l assms(1) small [of "udp_header s n c @ d @ rest"] small [of "udp_header s n c @ d"] unfolding t t' by (simp del: of_nat_add)
    then show ?thesis using c(2) by (simp only: h)
  qed
  then show thesis using c(1) that h0 by metis
qed

lemma v4_checksum_filled:
  assumes "v4_ihl p = 5"
  obtains c where "\<And>rest. v4_computeChecksum (p\<lparr>v4_data := rest\<rparr>) = Inr (p\<lparr>v4_hdr_checksum := c, v4_data := rest\<rparr>)"
    and "\<And>rest. v4_validPacketChecksum (p\<lparr>v4_hdr_checksum := c, v4_data := rest\<rparr>) = Inr True"
proof -
  obtain c where c: "v4_computeChecksum p = Inr (p\<lparr>v4_hdr_checksum := c\<rparr>)" "v4_validPacketChecksum (p\<lparr>v4_hdr_checksum := c\<rparr>) = Inr True"
    using computeChecksum_valid [of p] assms by (auto simp: v4_words_def)
  have w: "v4_cksum (v4_words (q\<lparr>v4_data := rest\<rparr>)) 10 = v4_cksum (v4_words q) 10" for q :: IPv4_Packet and rest
    by (rule cksum_prefix) (simp_all add: v4_words_def)
  have k: "v4_cksum (v4_words (p\<lparr>v4_hdr_checksum := 0\<rparr>)) 10 = Inr c"
  proof (cases "v4_cksum (v4_words (p\<lparr>v4_hdr_checksum := 0\<rparr>)) 10")
    case (Inr x)
    then have "p\<lparr>v4_hdr_checksum := x\<rparr> = p\<lparr>v4_hdr_checksum := c\<rparr>" using c(1) assms by (simp add: v4_computeChecksum_def v4_get_ihl_def Let_def)
    then have "v4_hdr_checksum (p\<lparr>v4_hdr_checksum := x\<rparr>) = v4_hdr_checksum (p\<lparr>v4_hdr_checksum := c\<rparr>)" by (rule arg_cong)
    then have "x = c" by simp
    then show ?thesis using Inr by simp
  qed (use c(1) assms in \<open>simp add: v4_computeChecksum_def v4_get_ihl_def Let_def\<close>)
  have swap: "p\<lparr>v4_data := rest, v4_hdr_checksum := x\<rparr> = p\<lparr>v4_hdr_checksum := x, v4_data := rest\<rparr>" for rest x by simp
  show thesis
  proof (rule that [of c])
    fix rest
    show "v4_computeChecksum (p\<lparr>v4_data := rest\<rparr>) = Inr (p\<lparr>v4_hdr_checksum := c, v4_data := rest\<rparr>)"
      using k w [of rest "p\<lparr>v4_hdr_checksum := 0\<rparr>"] assms by (simp add: v4_computeChecksum_def v4_get_ihl_def Let_def swap)
    show "v4_validPacketChecksum (p\<lparr>v4_hdr_checksum := c, v4_data := rest\<rparr>) = Inr True"
      using c(2) w [of rest "p\<lparr>v4_hdr_checksum := c\<rparr>"] assms by (simp add: v4_validPacketChecksum_def v4_get_ihl_def)
  qed
qed

subsection \<open>The frame that is sent\<close>

lemma write_payload:
  assumes "sb_data b = getDataStart szsb b + off" and "sb_mem b = pre @ P" and "length pre = off" and "length P = n" and "length d = n"
    and "unat (m_memsize b) = off + n"
  shows "sb_write szsb d (of_nat n) b = Inr (b\<lparr>sb_mem := pre @ d, sb_data := getDataStart szsb b + off + n\<rparr>)"
proof -
  have n: "unat (of_nat n :: u32) = n" using assms(6) unat_u32_less [of "m_memsize b"] by (intro unat_of_nat_u32) (simp del: unat_u32_less)
  show ?thesis
    using assms n remaining_after [OF assms(1,6)] by (simp add: sb_write_def Let_def memcpy_def)
qed

lemma encode_without_data [simp]: "v4_header_bytes (p\<lparr>v4_data := rest\<rparr>) = v4_header_bytes p"
  by (simp add: v4_header_bytes_def)

lemma udp_send_frame:
  assumes "frame_memory nb = E @ v4_header_bytes p @ udp_header s n 0 @ d" and "length E = 14" and "length d = n" and "8 + n < 65536"
    and "v4_ihl p = 5" and "v4_version p AND 0xF = v4_version p" and "memstart_ip nb = 14" and "memstart_transport nb = 34"
    and "data_offset szsb nb = 42 + n" and "m_state (nb_buffer nb) = WritingState" and "m_interface (nb_buffer nb) = Some j"
    and "unat (m_memsize (nb_buffer nb)) = 42 + n"
  obtains c c' nb' where "udp_send szsb nb = Inr (True, nb', Some (E @ v4_header_bytes (p\<lparr>v4_hdr_checksum := c\<rparr>) @ udp_header s n c' @ d))"
    and "m_state (nb_buffer nb') = TransmittedState"
    and "\<And>rest. v4_validPacketChecksum (p\<lparr>v4_hdr_checksum := c, v4_data := rest\<rparr>) = Inr True"
    and "\<And>rest. UDP_checksum_valid (V4_computePseudoHeader (v4_get_src_ipaddr p) (v4_get_dst_ipaddr p) (of_nat (8 + n)) IP_TYPE_UDP)
      (udp_header s n c' @ d @ rest) (of_nat (8 + n)) = Inr True"
proof -
  obtain c where c: "\<And>rest. v4_computeChecksum (p\<lparr>v4_data := rest\<rparr>) = Inr (p\<lparr>v4_hdr_checksum := c, v4_data := rest\<rparr>)"
      "\<And>rest. v4_validPacketChecksum (p\<lparr>v4_hdr_checksum := c, v4_data := rest\<rparr>) = Inr True"
    using v4_checksum_filled [OF assms(5)] by blast
  let ?p = "p\<lparr>v4_hdr_checksum := c\<rparr>" and ?csum = "V4_computePseudoHeader (v4_get_src_ipaddr p) (v4_get_dst_ipaddr p) (of_nat (8 + n)) IP_TYPE_UDP"
  obtain c' where c': "UDP_calc_checksum ?csum (udp_header s n 0 @ d) (of_nat (8 + n)) = Inr c'"
      "\<And>rest. UDP_checksum_valid ?csum (udp_header s n c' @ d @ rest) (of_nat (8 + n)) = Inr True"
    using udp_checksum_filled [OF assms(3,4)] by blast
  have nibble: "v4_ihl p AND 0xF = v4_ihl p" by (simp add: assms(5))
  let ?mem = "\<lambda>q h. E @ v4_header_bytes q @ h @ d" and ?nb = "\<lambda>m. nb\<lparr>nb_buffer := (nb_buffer nb)\<lparr>sb_mem := m\<rparr>\<rparr>"
  have "v4_header_at (drop 14 (frame_memory nb)) = p\<lparr>v4_data := udp_header s n 0 @ d\<rparr>"
    using assms(1,2) v4_header_at_encode [OF nibble assms(6)] by simp
  moreover have "in_mem 14 20 (\<lambda>_. v4_header_bytes ?p) nb = Inr (?nb (?mem ?p (udp_header s n 0)))"
    using assms(1,2) by (subst in_mem_split [of _ E "v4_header_bytes p" "udp_header s n 0 @ d"]) simp_all
  ultimately have ip: "send_ipv4_checksum nb = Inr (?nb (?mem ?p (udp_header s n 0)))"
    using assms(1-3,7) c(1) by (simp add: send_ipv4_checksum_def)
  have nibble': "v4_ihl ?p AND 0xF = v4_ihl ?p" "v4_version ?p AND 0xF = v4_version ?p" using nibble assms(6) by simp_all
  have dec: "v4_header_at (v4_header_bytes ?p @ r) = ?p\<lparr>v4_data := r\<rparr>" for r by (rule v4_header_at_encode [OF nibble'])
  have addr: "v4_get_src_ipaddr (?p\<lparr>v4_data := r\<rparr>) = v4_get_src_ipaddr p" "v4_get_dst_ipaddr (?p\<lparr>v4_data := r\<rparr>) = v4_get_dst_ipaddr p" for r
    by (simp_all add: v4_get_src_ipaddr_def v4_get_dst_ipaddr_def)
  have sum: "in_mem 34 UDP_HEADER_SIZE (udp_set_checksum k) (?nb (?mem ?p (udp_header s n 0))) = Inr (?nb (?mem ?p (udp_header s n k)))" for k
  proof -
    have "udp_set_checksum k (udp_header s n 0) = udp_header s n k"
      using udp_header_bytes(2) [of "replicate 8 0" k "htons (us_sport s)" "htons (us_dport s)" "htons (of_nat (8 + n))"]
      by (simp add: udp_header_def htons_bytes [of 0])
    then show ?thesis
      using assms(2) by (subst in_mem_split [of _ "E @ v4_header_bytes ?p" "udp_header s n 0" d]) (simp_all add: UDP_HEADER_SIZE_def)
  qed
  have off: "data_offset szsb (?nb m) = 42 + n" for m using assms(9) by (simp add: data_offset_def getDataStart_def)
  have udp: "send_udp_checksum szsb (?nb (?mem ?p (udp_header s n 0))) = Inr (?nb (?mem ?p (udp_header s n c')))"
    using assms(2,7,8) c'(1) unfolding send_udp_checksum_def Let_def off
    by (simp add: dec addr sum frame_memory_def del: of_nat_add)
  have "send (nb_buffer (?nb (?mem ?p (udp_header s n c')))) =
      Inr (True, setState TransmittedState (nb_buffer (?nb (?mem ?p (udp_header s n c')))), Some (?mem ?p (udp_header s n c')))"
    using assms(2,3,10-12) by (simp add: send_def getSize_def)
  then have "udp_send szsb nb = Inr (True, ?nb (?mem ?p (udp_header s n c'))\<lparr>nb_buffer := setState TransmittedState (nb_buffer (?nb (?mem ?p (udp_header s n c'))))\<rparr>,
      Some (?mem ?p (udp_header s n c')))"
    by (simp add: udp_send_def ip udp)
  then show thesis by (rule that [OF _ _ c(2) c'(2)]) (simp add: setState_def)
qed

subsection \<open>The frame that is received\<close>

lemma udp_header_fields:
  "udp_get_length (udp_header s n c @ r) = of_nat (8 + n)" "udp_get_dport (udp_header s n c @ r) = us_dport s"
  "udp_get_sport (udp_header s n c @ r) = us_sport s" "udp_get_checksum (udp_header s n c @ r) = c" "udp_get_data (udp_header s n c @ r) = r"
  by (simp_all add: udp_fields get16_def udp_header_def store16_def load16_store16 ntohs_def htons_involution UDP_HEADER_SIZE_def del: of_nat_add)

lemma eth_type_ipv4: "length mac = 6 \<Longrightarrow> length hw = 6 \<Longrightarrow> eth_get_type ((mac @ hw @ [0x08, 0x00]) @ r) = ETH_TYPE_IPV4"
proof -
  have "ntohs (load16 0x08 0x00) = ETH_TYPE_IPV4" by code_simp
  then show "length mac = 6 \<Longrightarrow> length hw = 6 \<Longrightarrow> eth_get_type ((mac @ hw @ [0x08, 0x00]) @ r) = ETH_TYPE_IPV4"
    by (simp add: eth_get_type_def get16_def nth_append)
qed

lemma fields_without_data [simp]:
  "v4_get_ihl (p\<lparr>v4_data := r\<rparr>) = v4_get_ihl p" "v4_get_data (p\<lparr>v4_data := r\<rparr>) = v4_get_data p"
  "v4_get_version (p\<lparr>v4_data := r\<rparr>) = v4_get_version p" "v4_get_total_len (p\<lparr>v4_data := r\<rparr>) = v4_get_total_len p"
  "v4_get_fragment_offset (p\<lparr>v4_data := r\<rparr>) = v4_get_fragment_offset p" "v4_get_flags (p\<lparr>v4_data := r\<rparr>) = v4_get_flags p"
  "v4_get_ttl (p\<lparr>v4_data := r\<rparr>) = v4_get_ttl p" "v4_get_protocol (p\<lparr>v4_data := r\<rparr>) = v4_get_protocol p"
  "v4_get_src_ipaddr (p\<lparr>v4_data := r\<rparr>) = v4_get_src_ipaddr p" "v4_get_dst_ipaddr (p\<lparr>v4_data := r\<rparr>) = v4_get_dst_ipaddr p"
  by (simp_all add: ipv4_fields v4_get_data_def v4_get_ihl_def v4_get_fragment_offset_def v4_get_flags_def)

text \<open>The frame is taken through the layers below, whatever the packet carries.\<close>

lemma frame_delivered:
  fixes p :: IPv4_Packet and framelen :: u32
  assumes p: "v4_ihl p = 5" "v4_get_version p = IPV4_VERSION" "v4_get_total_len p = of_nat (28 + n)" "v4_get_fragment_offset p = 0"
      "v4_get_flags p = 0" "v4_get_ttl p = 64" "v4_version p AND 0xF = v4_version p"
    and valid: "\<And>rest. v4_validPacketChecksum (p\<lparr>v4_data := rest\<rparr>) = Inr True"
    and ifc: "if_ipv4_up ifc" "v4_get_dst_ipaddr p = if_ipv4_addr ifc"
    and len: "n \<le> 1476" "42 + n \<le> unat framelen" "unat framelen \<le> MAX_FRAME_SIZE" and "length mac = 6" and "length hw = 6"
  shows "ipv4_frame_receive reassemble ifc ((mac @ hw @ [0x08, 0x00]) @ v4_header_bytes p @ r) framelen = Some (Inr (Delivered (p\<lparr>v4_data := r\<rparr>) (of_nat (28 + n))))"
proof -
  let ?mem = "(mac @ hw @ [0x08, 0x00]) @ v4_header_bytes p @ r" and ?p = "p\<lparr>v4_data := r\<rparr>"
  have N: "unat (of_nat (28 + n) :: u32) = 28 + n" using len(1) by (intro unat_of_nat_u32) simp
  have data: "eth_get_data ?mem = v4_header_bytes p @ r" using assms(14,15) by (simp add: eth_get_data_def ETH_HEADER_SIZE_def)
  have dec: "v4_header_at (eth_get_data ?mem) = ?p" unfolding data by (rule v4_header_at_encode) (simp_all add: p(1,7))
  have fields: "v4_ihl ?p = 5" "v4_get_version ?p = IPV4_VERSION" "v4_get_total_len ?p = ucast (of_nat (28 + n) :: u32)" "v4_get_fragment_offset ?p = 0"
      "v4_get_flags ?p = 0" "v4_get_ttl ?p = 64" "v4_get_dst_ipaddr ?p = if_ipv4_addr ifc"
    using p(1-6) ifc(2) unfolding ucast_of_nat_u16 by simp_all
  have fl: "unat (framelen - of_nat ETH_HEADER_SIZE) = unat framelen - 14"
    using unat_minus_of_nat_u32 [of 14 framelen] len(2) by (simp add: ETH_HEADER_SIZE_def)
  have "ipv4_receive reassemble ifc (framelen - of_nat ETH_HEADER_SIZE) ?p = Inr (Delivered ?p (of_nat (28 + n)))"
    using header_accepted [OF fields(1-6) valid(1), of "framelen - of_nat ETH_HEADER_SIZE" ifc reassemble] N fl len ifc(1)
    by (simp add: ifc(2) word_le_nat_alt word_less_nat_alt del: of_nat_add)
  moreover have "\<not> (framelen < of_nat ETH_HEADER_SIZE \<or> of_nat MAX_FRAME_SIZE < framelen)"
    using len by (simp add: word_less_nat_alt ETH_HEADER_SIZE_def MAX_FRAME_SIZE_def)
  ultimately show ?thesis
    by (simp add: ipv4_frame_receive_def dec eth_type_ipv4 [OF assms(14,15)] del: append_assoc of_nat_add)
qed

lemma udp_frame_accepted:
  fixes p :: IPv4_Packet and framelen :: u32
  assumes p: "v4_ihl p = 5" "v4_get_version p = IPV4_VERSION" "v4_get_total_len p = of_nat (28 + n)" "v4_get_fragment_offset p = 0"
      "v4_get_flags p = 0" "v4_get_ttl p = 64" "v4_get_protocol p = IP_TYPE_UDP" "v4_version p AND 0xF = v4_version p"
    and valid: "\<And>rest. v4_validPacketChecksum (p\<lparr>v4_data := rest\<rparr>) = Inr True"
      "\<And>rest. UDP_checksum_valid (V4_computePseudoHeader (v4_get_src_ipaddr p) (v4_get_dst_ipaddr p) (of_nat (8 + n)) IP_TYPE_UDP)
        (udp_header s n c @ d @ rest) (of_nat (8 + n)) = Inr True"
    and ifc: "if_ipv4_up ifc" "v4_get_dst_ipaddr p = if_ipv4_addr ifc"
    and len: "n \<le> 1476" "42 + n \<le> unat framelen" "unat framelen \<le> MAX_FRAME_SIZE" and "length mac = 6" and "length hw = 6"
  shows "udp_frame_receive szrb cf t reassemble ifc ((mac @ hw @ [0x08, 0x00]) @ v4_header_bytes p @ udp_header s n c @ d @ behind) framelen D =
    ipv4_udp_receive szrb cf t IP_TYPE_UDP (of_nat (28 + n)) 5 (v4_get_src_ipaddr p) (udp_header s n c @ d @ behind) D"
proof -
  let ?mem = "(mac @ hw @ [0x08, 0x00]) @ v4_header_bytes p @ udp_header s n c @ d @ behind" and ?p = "p\<lparr>v4_data := udp_header s n c @ d @ behind\<rparr>"
  have N: "unat (of_nat (28 + n) :: u32) = 28 + n" using len(1) by (intro unat_of_nat_u32) simp
  have rcv: "ipv4_frame_receive reassemble ifc ?mem framelen = Some (Inr (Delivered ?p (of_nat (28 + n))))"
    by (rule frame_delivered [OF p(1-6,8) valid(1) ifc len assms(16,17)])
  have l16: "ucast (of_nat (28 + n) - 20 :: u32) = (of_nat (8 + n) :: u16)"
  proof -
    have "of_nat (28 + n) - 20 = (of_nat (8 + n) :: u32)" by simp
    then show ?thesis by (simp only: ucast_of_nat_u16)
  qed
  have big: "\<not> of_nat (28 + n) < IPV4_MIN_HEADER_SIZE + of_nat UDP_HEADER_SIZE"
    using N(1) by (simp add: word_less_nat_alt IPV4_MIN_HEADER_SIZE_def UDP_HEADER_SIZE_def del: of_nat_add)
  have ihl: "v4_get_ihl p = 5" "v4_get_data p = 20" using p(1) by (simp_all add: v4_get_ihl_def v4_get_data_def)
  show ?thesis
    unfolding udp_frame_receive_def rcv
    using valid(2) l16 big ifc(2) by (simp add: ipv4_udp_checksumming_def Let_def p(7) ihl udp_header_fields del: of_nat_add)
qed

subsection \<open>From socket to socket\<close>

text \<open>C3: A datagram crosses the wire. A socket requests a buffer for its data, writes and sends it; the destination is on the link
  and its hardware address, if it is not in the cache, is answered in time. Then one frame is sent, to this hardware address, with the
  headers of Ethernet, IPv4 and UDP and both checksums; and the host that has the address, whatever else is in the memory behind the
  frame and however it was padded, queues the data, with the address and port of the sender, at the socket with the destination
  port, and at no other one. This holds for every length that fits into a frame, as long as both pools have a block and the queue has
  room, and when up to eleven bytes behind the data can be read (see \<open>datagram_queued\<close>).\<close>

theorem udp_crosses_the_wire:
  fixes data :: "u8 list" and framelen :: u32
  defines "n \<equiv> length data"
  assumes S: "v4s_interface ip = Some i" "ho_ethernet H i" "length (ho_address H i) = 6" "resolved_by_arp (v4s_get_nexthop_ipaddr (ho_router H) ip)"
      "ipv4_lookup ms_to_ticks (v4s_dst_addr ip) (host_interface H i) xs arp = Some (Some mac, out, arp')" "length mac = 6"
      "mp_alloc c (42 + n + szsb) m = (Some a, m')" "42 + n + szsb < 2 ^ 32"
    and R: "if_ipv4_up ifc" "if_ipv4_addr ifc = v4s_dst_addr ip" "demux_ok D ps" "p \<in> set ps" "udp_sockets D p = Some u" "us_sport u = us_dport s"
      "queue_inv t (us_receivequeue u)" "\<not> isFull t (us_receivequeue u)" "mp_alloc c' (udp4_size (of_nat n) + szrb) (us_mempool u) = (Some a', mu)"
    and L: "n \<le> 1476" "udp4_size (of_nat n) \<le> n + length behind" "42 + n \<le> unat framelen" "unat framelen \<le> MAX_FRAME_SIZE"
  shows "\<exists>b b' b'' frame D' u' r.
    net_requestSendBuffer H szsb c raw junk (of_nat UDP_HEADER_SIZE) ms_to_ticks xs (prepare_udp szsb s) (Some i) (of_nat n) ip arp m =
      Some (Inr (Some b, ip\<lparr>v4s_id := v4s_id ip + 1\<rparr>, arp', out, m')) \<and>
    net_write szsb data (of_nat n) b = Inr b' \<and> udp_send szsb b' = Inr (True, b'', Some frame) \<and>
    length frame = 42 + n \<and> take 6 frame = mac \<and>
    udp_frame_receive szrb c' t reassemble ifc (frame @ behind) framelen D = Some (Inr (Queued p False False, D')) \<and>
    demux_ok D' ps \<and> udp_sockets D' p = Some u' \<and> (\<forall>q. q \<noteq> p \<longrightarrow> udp_sockets D' q = udp_sockets D q) \<and>
    queue_elems t (us_receivequeue u') = queue_elems t (us_receivequeue u) @ [r] \<and>
    rbuf_getSize r = of_nat n \<and> take n (rbuf_getData r) = data \<and>
    getRemoteInfo_ipv4 r = Inr (v4s_get_src_addr (ho_router H) ip, us_sport s, 0x34)"
proof -
  obtain P q where P: "length P = n" and req: "net_requestSendBuffer H szsb c raw junk (of_nat UDP_HEADER_SIZE) ms_to_ticks xs (prepare_udp szsb s) (Some i) (of_nat n) ip arp m =
      Some (Inr (Some (junk\<lparr>memstart_ethernet := 0, memstart_ip := 14, nextheaderfield_ip := 23, memstart_transport := 34,
        nb_buffer := \<lparr>sb_addr = a, m_memsize = of_nat (42 + n), m_state = WritingState, m_interface = Some i, sb_data = a + szsb + 42,
          sb_mem = (mac @ ho_address H i @ [0x08, 0x00]) @ v4_header_bytes (udp_packet H ip n q) @ udp_header s n 0 @ P\<rparr>\<rparr>),
      ip\<lparr>v4s_id := v4s_id ip + 1\<rparr>, arp', out, m'))"
    using request_udp [OF S] by blast
  let ?E = "mac @ ho_address H i @ [0x08, 0x00]" and ?p = "udp_packet H ip n q"
  let ?B = "\<lambda>d k. \<lparr>sb_addr = a, m_memsize = of_nat (42 + n), m_state = WritingState, m_interface = Some i, sb_data = a + szsb + k,
      sb_mem = ?E @ v4_header_bytes ?p @ udp_header s n 0 @ d\<rparr>"
  let ?b = "\<lambda>d k. junk\<lparr>memstart_ethernet := 0, memstart_ip := 14, nextheaderfield_ip := 23, memstart_transport := 34, nb_buffer := ?B d k\<rparr>"
  note f = udp_packet_fields(1-9) [of H ip n q]
  have E: "length ?E = 14" using S(3,6) by simp
  have N: "unat (of_nat (42 + n) :: u32) = 42 + n" using L(1) by (intro unat_of_nat_u32) simp
  have ver: "v4_version ?p AND 0xF = v4_version ?p" using f(2) by (simp add: v4_get_version_def IPV4_VERSION_def)
  have len_data: "length data = n" by (simp add: n_def)
  have off: "sb_data (?B d k) = getDataStart szsb (?B d k) + k" for d k by (simp add: getDataStart_def)
  have "length (?E @ v4_header_bytes ?p @ udp_header s n 0) = 42" using E by simp
  then have "sb_write szsb data (of_nat n) (?B P 42) = Inr (?B P 42\<lparr>sb_mem := (?E @ v4_header_bytes ?p @ udp_header s n 0) @ data,
      sb_data := getDataStart szsb (?B P 42) + 42 + n\<rparr>)"
    by (intro write_payload [OF off _ _ P len_data]) (simp_all only: send_buffer.select_convs N append_assoc)
  then have wr: "net_write szsb data (of_nat n) (?b P 42) = Inr (?b data (42 + n))"
    by (simp only: net_write_def getDataStart_def) simp
  have l16: "8 + n < 65536" using L(1) by simp
  have at: "frame_memory (?b data (42 + n)) = ?E @ v4_header_bytes ?p @ udp_header s n 0 @ data" "memstart_ip (?b data (42 + n)) = 14"
      "memstart_transport (?b data (42 + n)) = 34" "data_offset szsb (?b data (42 + n)) = 42 + n"
      "m_state (nb_buffer (?b data (42 + n))) = WritingState" "m_interface (nb_buffer (?b data (42 + n))) = Some i"
      "unat (m_memsize (nb_buffer (?b data (42 + n)))) = 42 + n"
    using N by (simp_all add: frame_memory_def data_offset_def getDataStart_def del: of_nat_add)
  obtain k k' b'' where send: "udp_send szsb (?b data (42 + n)) = Inr (True, b'', Some (?E @ v4_header_bytes (?p\<lparr>v4_hdr_checksum := k\<rparr>) @ udp_header s n k' @ data))"
      and valid: "\<And>rest. v4_validPacketChecksum (?p\<lparr>v4_hdr_checksum := k, v4_data := rest\<rparr>) = Inr True"
        "\<And>rest. UDP_checksum_valid (V4_computePseudoHeader (v4_get_src_ipaddr ?p) (v4_get_dst_ipaddr ?p) (of_nat (8 + n)) IP_TYPE_UDP)
          (udp_header s n k' @ data @ rest) (of_nat (8 + n)) = Inr True"
    by (rule udp_send_frame [OF at(1) E len_data l16 f(1) ver at(2-7)]) iprover
  let ?p' = "?p\<lparr>v4_hdr_checksum := k\<rparr>" and ?frame = "?E @ v4_header_bytes (?p\<lparr>v4_hdr_checksum := k\<rparr>) @ udp_header s n k' @ data"
  have f': "v4_ihl ?p' = 5" "v4_get_version ?p' = IPV4_VERSION" "v4_get_total_len ?p' = of_nat (28 + n)" "v4_get_fragment_offset ?p' = 0"
      "v4_get_flags ?p' = 0" "v4_get_ttl ?p' = 64" "v4_get_protocol ?p' = IP_TYPE_UDP" "v4_version ?p' AND 0xF = v4_version ?p'"
      "v4_get_src_ipaddr ?p' = v4_get_src_ipaddr ?p" "v4_get_dst_ipaddr ?p' = v4_get_dst_ipaddr ?p"
    using f(1-9) ver by (simp_all add: ipv4_fields v4_get_fragment_offset_def v4_get_flags_def del: of_nat_add)
  have rcv: "udp_frame_receive szrb c' t reassemble ifc (?frame @ behind) framelen D =
      ipv4_udp_receive szrb c' t IP_TYPE_UDP (of_nat (28 + n)) 5 (v4s_get_src_addr (ho_router H) ip) (udp_header s n k' @ data @ behind) D"
    using udp_frame_accepted [OF f'(1-8), where c = k' and d = data and s = s] valid R(1,2) L(1,3,4) S(3,6) f(7,8)
    by (simp add: f'(9,10) del: of_nat_add)
  have n16: "of_nat (8 + n) - 8 = (of_nat n :: u16)" by simp
  have un: "unat (of_nat n :: u16) = n" using L(1) by (intro unat_of_nat_u16) simp
  have len: "8 \<le> (of_nat (28 + n) :: u32)" "ucast (5 :: u8) * 4 \<le> (of_nat (28 + n) :: u32)"
    using unat_of_nat_u32 [of "28 + n"] L(1) by (simp_all add: word_le_nat_alt del: of_nat_add)
  have small: "udp4_size (of_nat n) < 2 ^ 16" using L(1) un by (simp add: udp4_size_def udp4_padding_def)
  obtain r where r: "ipv4_udp_receive szrb c' t IP_TYPE_UDP (of_nat (28 + n)) 5 (v4s_get_src_addr (ho_router H) ip) (udp_header s n k' @ data @ behind) D =
        Some (Inr (Queued p False False, at_socket p (\<lambda>_. u\<lparr>us_mempool := mu, us_receivequeue := put t (Some r) (us_receivequeue u)\<rparr>) D))"
      "rbuf_getSize r = of_nat n" "take (unat (rbuf_getSize r)) (rbuf_getData r) = take (unat (rbuf_getSize r)) (data @ behind)"
      "getRemoteInfo_ipv4 r = Inr (v4s_get_src_addr (ho_router H) ip, us_sport s, 0x34)"
    using datagram_queued [OF R(3-5), where udp = "udp_header s n k' @ data @ behind" and ihl = 5 and len = "of_nat (28 + n)" and szrb = szrb
        and c = c' and a = a' and m' = mu and t = t and src = "v4s_get_src_addr (ho_router H) ip"] R(6,8,9) len small L(2) n_def
    unfolding udp_header_fields n16 by auto
  let ?u = "u\<lparr>us_mempool := mu, us_receivequeue := put t (Some r) (us_receivequeue u)\<rparr>"
  have "demux_ok (at_socket p (\<lambda>_. ?u) D) ps" using R(3,5) by (rule at_socket_demux_ok) simp_all
  moreover have "queue_elems t (us_receivequeue ?u) = queue_elems t (us_receivequeue u) @ [r]" using ring.enq_elems [OF R(7,8)] by simp
  moreover have "take n (rbuf_getData r) = data" using r(2,3) un n_def by simp
  moreover have "length ?frame = 42 + n" "take 6 ?frame = mac" using E S(6) n_def by simp_all
  ultimately show ?thesis
    using req wr send rcv r R(5)
    by (intro exI [of _ "?b P 42"] exI [of _ "?b data (42 + n)"] exI [of _ b''] exI [of _ ?frame] exI [of _ "at_socket p (\<lambda>_. ?u) D"] exI [of _ ?u] exI [of _ r])
       (simp del: of_nat_add append_assoc)
qed

text \<open>A host that does not answer.\<close>

definition unanswered :: "(nat \<Rightarrow> u64) \<Rightarrow> (nat \<Rightarrow> u64 list) \<Rightarrow> (nat \<Rightarrow> u64) \<Rightarrow> ((nat \<Rightarrow> bool) \<times> u64 \<times> (arrival list \<times> u64) list) list" where
  "unanswered start early late = map (\<lambda>i. (\<lambda>_. True, start i, map (\<lambda>t. ([], t)) (early i) @ [([], late i)])) [0, 1, 2]"

lemma prepare_arp_fails:
  assumes "m_state b = WritingState OR ResolveLinkLayerStateOption" and "m_interface b = Some j" and "memstart_ip nb = 14"
    and "sb_mem b = E @ v4_header_bytes p @ rest" and "length E = 14" and "p = fst (v4s_setupHeader R n ip q)"
    and "ipv4_lookup ms_to_ticks (v4s_dst_addr ip) (host_interface H j) xs arp = Some (None, out', arp')"
  shows "prepare_arp H ms_to_ticks xs proceed \<lparr>sg_buffer = nb\<lparr>nb_buffer := b\<rparr>, sg_ipv4 = ip', sg_arp = arp, sg_frames = out\<rparr> =
    Some (Inr \<lparr>sg_buffer = nb\<lparr>nb_buffer := b\<lparr>m_state := InvalidState\<rparr>\<rparr>, sg_ipv4 = ip', sg_arp = arp', sg_frames = out @ out'\<rparr>)"
proof -
  have s: "(WritingState OR ResolveLinkLayerStateOption) AND ResolveLinkLayerStateOption \<noteq> 0" by (simp add: state_defs)
  have d: "v4_get_dst_ipaddr (v4_header_at (drop 14 (sb_mem b))) = v4s_dst_addr ip"
    using assms(4,5) setupHeader_decodes(1,2) [OF assms(6)] by (simp add: v4_get_dst_ipaddr_def)
  show ?thesis
    using assms(1-3,7) s d by (simp add: prepare_arp_def Let_def set_state_def setState_def)
qed

text \<open>C36: The gateway is never asked. The hardware address of a packet that has to go through the gateway is looked up
  under the address of its destination, which is not on the link, and not under that of the gateway. So, whatever the
  cache knows about the gateway, the stack asks three times for the destination, a router that does not answer for others is
  silent, and after three seconds the request for a buffer fails; and the block that was allocated for it is never given back:
  the pool is as it was after the allocation.\<close>

theorem gateway_never_asked:
  assumes "v4s_interface ip = Some i" and "ho_ethernet H i" and "length (ho_address H i) = 6"
    and "v4s_using_gateway ip" and "resolved_by_arp (ipv4_gateway_addr (ho_router H))" and "ipv4_find (ipv4_gateway_addr (ho_router H)) arp = Some gw"
    and "find_entry (v4s_dst_addr ip) (static_entries arp) = None" and "ipv4_find (v4s_dst_addr ip) arp = None" and "pool_ready (\<lambda>_. True) arp"
    and "\<And>k t. k < 3 \<Longrightarrow> t \<in> set (early k) \<Longrightarrow> t < start k + ms_to_ticks 1000" and "\<And>k. k < 3 \<Longrightarrow> start k + ms_to_ticks 1000 \<le> late k"
    and "34 + unat ts + unat n + szsb < 2 ^ 32" and "mp_alloc c (34 + unat ts + unat n + szsb) m = (Some a, m')"
  shows "\<exists>arp'. net_requestSendBuffer H szsb c raw junk ts ms_to_ticks (unanswered start early late) transport (Some i) n ip arp m =
    Some (Inr (None, ip\<lparr>v4s_id := v4s_id ip + 1\<rparr>, arp',
      replicate 3 (request_bytes (ho_address H i) (if_ipv4_addr (interfaces (ho_router H) ! i)) (v4s_dst_addr ip)), m')) \<and>
    ipv4_find (ipv4_gateway_addr (ho_router H)) arp' = Some gw"
proof -
  let ?hop = "v4s_get_nexthop_ipaddr (ho_router H) ip"
  have hop: "?hop = ipv4_gateway_addr (ho_router H)" using assms(4) by (simp add: v4s_get_nexthop_ipaddr_def)
  have ifc: "if_hw_addr (host_interface H i) = ho_address H i" "if_ipv4_addr (host_interface H i) = if_ipv4_addr (interfaces (ho_router H) ! i)"
    by (simp_all add: host_interface_def v4_interface.defs)
  obtain arp' where arp': "ipv4_lookup ms_to_ticks (v4s_dst_addr ip) (host_interface H i) (unanswered start early late) arp =
      Some (None, replicate 3 (request_bytes (ho_address H i) (if_ipv4_addr (interfaces (ho_router H) ! i)) (v4s_dst_addr ip)), arp')"
      "entries arp' = entries arp"
    using unanswered_lookup_fails [OF assms(7-9), of "host_interface H i" early start ms_to_ticks late] assms(3,10,11)
    unfolding unanswered_def ifc by blast
  define k where "k = unat ts + unat n"
  define mem where "mem = map (\<lambda>k. raw (a + szsb + k)) [0..<34 + k]"
  have k: "34 + unat ts + unat n = 34 + k" by (simp add: k_def)
  define b where "b = \<lparr>sb_addr = a, m_memsize = 34 + ts + n, m_state = WritingState, m_interface = Some i, sb_data = a + szsb, sb_mem = mem\<rparr>"
  have e: "34 + ts + n = of_nat (34 + k)" by (simp add: k_def)
  have b: "sb_data b = getDataStart szsb b" "sb_mem b = take 14 mem @ take 20 (drop 14 mem) @ drop 34 mem" "m_interface b = Some i"
    using append_take_drop_id [of 14 mem] append_take_drop_id [of 20 "drop 14 mem"] by (simp_all add: b_def getDataStart_def)
  have N: "unat (m_memsize b) = 34 + k" unfolding b_def send_buffer.select_convs e using assms(12) k by (intro unat_of_nat_u32) simp
  have l: "length (take 14 mem) = 14" "length (take 20 (drop 14 mem)) = 20" by (simp_all add: mem_def)
  let ?E = "eth_set_src_hwaddr (ho_address H i) (eth_set_type ETH_TYPE_IPV4 (take 14 mem))"
  have lE: "length ?E = 14" using l(1) by (simp add: eth_set_src_hwaddr_def eth_set_type_def set16_def)
  let ?p = "fst (v4s_setupHeader (ho_router H) (of_nat (20 + k)) ip (v4_header_at (take 20 (drop 14 mem))))"
  let ?nb = "junk\<lparr>memstart_ethernet := 0, memstart_ip := 14, nextheaderfield_ip := 23\<rparr>"
  let ?b2 = "b\<lparr>sb_mem := ?E @ v4_header_bytes ?p @ drop 34 mem, sb_data := getDataStart szsb b + 34, m_state := WritingState OR ResolveLinkLayerStateOption\<rparr>"
  have s1: "prepareSendBuffer H szsb ms_to_ticks (unanswered start early late) transport \<lparr>sg_buffer = junk\<lparr>nb_buffer := b\<rparr>, sg_ipv4 = ip, sg_arp = arp, sg_frames = []\<rparr> =
      prepare_arp H ms_to_ticks (unanswered start early late) transport
        \<lparr>sg_buffer = ?nb\<lparr>nb_buffer := ?b2\<rparr>, sg_ipv4 = ip\<lparr>v4s_id := v4s_id ip + 1\<rparr>, sg_arp = arp, sg_frames = []\<rparr>"
    using assms(5) by (intro prepare_headers [OF assms(1,2) _ b(1,2) l N]) (simp add: hop)
  have s2: "prepare_arp H ms_to_ticks (unanswered start early late) transport
      \<lparr>sg_buffer = ?nb\<lparr>nb_buffer := ?b2\<rparr>, sg_ipv4 = ip\<lparr>v4s_id := v4s_id ip + 1\<rparr>, sg_arp = arp, sg_frames = []\<rparr> =
      Some (Inr \<lparr>sg_buffer = ?nb\<lparr>nb_buffer := ?b2\<lparr>m_state := InvalidState\<rparr>\<rparr>, sg_ipv4 = ip\<lparr>v4s_id := v4s_id ip + 1\<rparr>, sg_arp = arp',
        sg_frames = [] @ replicate 3 (request_bytes (ho_address H i) (if_ipv4_addr (interfaces (ho_router H) ! i)) (v4s_dst_addr ip))\<rparr>)"
    by (rule prepare_arp_fails [OF _ _ _ _ lE refl arp'(1)]) (simp_all add: b(3))
  have inst: "net_requestSendBuffer H szsb c raw junk ts ms_to_ticks (unanswered start early late) transport (Some i) n ip arp m =
    lbind (prepareSendBuffer H szsb ms_to_ticks (unanswered start early late) transport \<lparr>sg_buffer = junk\<lparr>nb_buffer := b\<rparr>, sg_ipv4 = ip, sg_arp = arp, sg_frames = []\<rparr>)
      (\<lambda>st. Some (Inr (if m_state (nb_buffer (sg_buffer st)) \<noteq> WritingState then None else Some (sg_buffer st),
                       sg_ipv4 st, sg_arp st, sg_frames st, m')))"
    using request_instance [OF assms(1,2,12,13)] unfolding b_def mem_def k by simp
  have "InvalidState \<noteq> WritingState" by (simp add: state_defs)
  then have "net_requestSendBuffer H szsb c raw junk ts ms_to_ticks (unanswered start early late) transport (Some i) n ip arp m =
    Some (Inr (None, ip\<lparr>v4s_id := v4s_id ip + 1\<rparr>, arp',
      replicate 3 (request_bytes (ho_address H i) (if_ipv4_addr (interfaces (ho_router H) ! i)) (v4s_dst_addr ip)), m'))"
    unfolding inst s1 s2 by simp
  moreover have "ipv4_find (ipv4_gateway_addr (ho_router H)) arp' = Some gw" using assms(6) arp'(2) by (simp add: ipv4_find_def)
  ultimately show ?thesis by blast
qed

text \<open>The last octet of an address decides whether it is multicast. An IPv4 address is kept in network order, so that its
  leftmost byte is the last octet. A next hop \<open>a.b.c.d\<close> with \<open>d\<close> from 224 to 239, on whatever net, gets its frames sent to the Ethernet
  multicast address \<open>01-00-5E-d'-c-a\<close>, where \<open>d'\<close> is \<open>d\<close> without its highest bit; a multicast group such as 224.0.0.1 is
  resolved by ARP like any host.\<close>

theorem multicast_by_last_octet:
  "set_link_destination (convert_ipv4_addr a b c d) off nb =
    (if a = 255 \<and> b = 255 \<and> c = 255 \<and> d = 255 then in_mem off ETH_HEADER_SIZE eth_set_dst_hwaddr_broadcast nb
     else if 224 \<le> d \<and> d \<le> 239 then in_mem off ETH_HEADER_SIZE (eth_set_dst_hwaddr [0x01, 0x00, 0x5e, d AND 0x7f, c, a]) nb
     else Inr (set_state (WritingState OR ResolveLinkLayerStateOption) nb))"
proof -
  let ?ip = "convert_ipv4_addr a b c d"
  have m: "(0xFF :: u8) = -1" by simp
  have bytes: "ucast ?ip = a" "ucast (drop_bit 8 ?ip) = b" "ucast (drop_bit 16 ?ip) = c" "ucast (drop_bit 24 ?ip) = d"
    using convert_ipv4_addr_inverse [of a b c d] unfolding convert_ipv4_addr_bytes_def m by simp_all
  have "?ip = -1 \<longleftrightarrow> a = 255 \<and> b = 255 \<and> c = 255 \<and> d = 255"
  proof
    assume "?ip = -1"
    moreover have "ucast (-1 :: u32) = (255 :: u8)" "ucast (drop_bit 8 (-1 :: u32)) = (255 :: u8)" "ucast (drop_bit 16 (-1 :: u32)) = (255 :: u8)"
      "ucast (drop_bit 24 (-1 :: u32)) = (255 :: u8)"
      by code_simp+
    ultimately show "a = 255 \<and> b = 255 \<and> c = 255 \<and> d = 255" using bytes by simp
  next
    assume "a = 255 \<and> b = 255 \<and> c = 255 \<and> d = 255"
    moreover have "convert_ipv4_addr 255 255 255 255 = -1" by code_simp
    ultimately show "?ip = -1" by simp
  qed
  then show ?thesis unfolding set_link_destination_def Let_def bytes by simp
qed

subsection \<open>Witnesses\<close>

definition witness_host :: host where
  "witness_host = \<lparr>ho_router = \<lparr>interfaces = [\<lparr>if_ipv4_addr = 0x0100000A, if_ipv4_subnetmask = 0x00FFFFFF, if_ipv4_up = True\<rparr>], ipv4_gateway_addr = 0xFE00000A\<rparr>,
     ho_address = \<lambda>_. [2, 0, 0, 0, 0, 1], ho_ethernet = \<lambda>_. True\<rparr>"

definition witness_route :: "bool \<Rightarrow> u32 \<Rightarrow> IPV4" where
  "witness_route gateway dst = \<lparr>v4s_interface = Some 0, v4s_using_gateway = gateway, v4s_dst_addr = dst, v4s_id = 7\<rparr>"

definition witness_buffer :: net_buffer where
  "witness_buffer = \<lparr>nb_buffer = \<lparr>sb_addr = 0, m_memsize = 0, m_state = 0, m_interface = None, sb_data = 0, sb_mem = []\<rparr>,
     memstart_ethernet = 0, memstart_ip = 0, memstart_transport = 0, nextheaderfield_ip = 0\<rparr>"

lemma witness_route_simps: "v4s_interface (witness_route g dst) = Some 0" "v4s_dst_addr (witness_route g dst) = dst"
  "ho_ethernet witness_host i" "length (ho_address witness_host i) = 6" "v4s_get_nexthop_ipaddr (ho_router witness_host) (witness_route False dst) = dst"
  "ho_address witness_host i = [2, 0, 0, 0, 0, 1]" "ipv4_gateway_addr (ho_router witness_host) = 0xFE00000A" "v4s_using_gateway (witness_route g dst) = g"
  "if_ipv4_addr (interfaces (ho_router witness_host) ! 0) = 0x0100000A"
  by (simp_all add: witness_route_def witness_host_def v4s_get_nexthop_ipaddr_def)

lemma witness_big_alloc: "\<exists>m'. mp_alloc (BasicMempool_config 64 1 4 1) 52 (BasicMempool (BasicMempool_config 64 1 4 1) 0 100) = (Some 0, m')"
  by (simp add: mp_alloc_def mp_alloc_big_def BasicMempool_def SingleMempool_def smp_alloc_def
      BasicMempool_config_def COUNT_BIG_def SIZE_BIG_def SIZE_SMALL_def COUNT_SMALL_def)

lemma known_address: "a \<noteq> 0 \<Longrightarrow> length hw = 6 \<Longrightarrow> ipv4_find a (ipv4_update a hw empty_cache) = Some hw"
  using find_update_same [OF empty_cache_ok(1), of a hw] by simp

theorem udp_crosses_the_wire_witness:
  "\<exists>b' b'' frame D' u' r. udp_send 8 b' = Inr (True, b'', Some frame) \<and>
     udp_frame_receive 8 (BasicMempool_config 32 1 4 1) 2 (\<lambda>_ _ _. None) \<lparr>if_ipv4_addr = 0x0200000A, if_ipv4_subnetmask = 0x00FFFFFF, if_ipv4_up = True\<rparr>
       (frame @ replicate 16 0) 60 witness_demux = Some (Inr (Queued 1 False False, D')) \<and>
     udp_sockets D' 1 = Some u' \<and> queue_elems 2 (us_receivequeue u') = [r] \<and> take 2 (rbuf_getData r) = [1, 2]"
proof -
  let ?ip = "witness_route False 0x0200000A" and ?hw = "[2, 0, 0, 0, 0, 2] :: u8 list" and ?u = "us_set_sport 53 witness_socket"
  let ?arp = "ipv4_update 0x0200000A ?hw empty_cache" and ?s = "us_set_dport 53 (us_set_sport 9 witness_socket)"
  obtain m' where m': "mp_alloc (BasicMempool_config 64 1 4 1) 52 (BasicMempool (BasicMempool_config 64 1 4 1) 0 100) = (Some 0, m')"
    using witness_big_alloc by blast
  obtain mu where mu: "mp_alloc (BasicMempool_config 32 1 4 1) 20 witness_pool = (Some 0, mu)" using witness_alloc [of 20] by auto
  have size: "udp4_size 2 = 12" by (simp add: udp4_padding_def udp4_size_def)
  have u: "us_receivequeue ?u = BasicRingbuffer [None, None]" "us_mempool ?u = witness_pool" "us_sport ?u = 53" "us_dport ?s = 53"
    "udp_sockets witness_demux 1 = Some ?u"
    by (simp_all add: us_set_sport_def us_set_dport_def witness_socket_def new_UDP_Socket_def witness_demux_def witness_sockets_def)
  have room: "\<not> isFull 2 (BasicRingbuffer [None, None] :: receive_buffer ringbuffer)"
    by (simp add: isFull_def rb_advance_def BasicRingbuffer_def BUFFERSIZE_def)
  have inv: "queue_inv 2 (BasicRingbuffer [None, None] :: receive_buffer ringbuffer)" by (rule fresh_queue_inv) (simp add: BUFFERSIZE_def)
  have look: "ipv4_lookup ucast 0x0200000A (host_interface witness_host 0) [] ?arp = Some (Some ?hw, [], ?arp)"
    using known_address [of "0x0200000A" ?hw] by (simp add: ipv4_lookup_def) (simp add: ipv4_update_def empty_cache_def)
  have res: "resolved_by_arp 0x0200000A" by code_simp
  note w = udp_crosses_the_wire [where data = "[1, 2]" and H = witness_host and ip = ?ip and i = 0 and xs = "[]" and arp = ?arp and mac = ?hw and out = "[]"
      and arp' = ?arp and c = "BasicMempool_config 64 1 4 1" and m = "BasicMempool (BasicMempool_config 64 1 4 1) 0 100" and szsb = 8 and a = 0 and m' = m'
      and ms_to_ticks = ucast and ifc = "\<lparr>if_ipv4_addr = 0x0200000A, if_ipv4_subnetmask = 0x00FFFFFF, if_ipv4_up = True\<rparr>" and D = witness_demux and ps = "[2, 1]"
      and p = 1 and u = ?u and s = ?s and t = 2 and c' = "BasicMempool_config 32 1 4 1" and a' = 0 and mu = mu and szrb = 8 and framelen = 60
      and behind = "replicate 16 0" and raw = "\<lambda>_. 0" and junk = witness_buffer and reassemble = "\<lambda>_ _ _. None"]
  show ?thesis
    using w witness_demux_ok m' mu look res room inv size
    by (simp add: witness_route_simps u u(5) [unfolded One_nat_def] MAX_FRAME_SIZE_def fresh_queue_elems) (elim exE conjE, intro exI conjI, assumption+, simp add: numeral_2_eq_2)
qed

theorem gateway_never_asked_witness:
  "\<exists>arp' m'. net_requestSendBuffer witness_host 8 (BasicMempool_config 64 1 4 1) (\<lambda>_. 0) witness_buffer 8 ucast
     (unanswered (\<lambda>_. 0) (\<lambda>_. [999]) (\<lambda>_. 1000)) (prepare_udp 8 witness_socket) (Some 0) 2 (witness_route True 0x08080808)
     (ipv4_update 0xFE00000A [2, 0, 0, 0, 0, 9] empty_cache) (BasicMempool (BasicMempool_config 64 1 4 1) 0 100) =
     Some (Inr (None, (witness_route True 0x08080808)\<lparr>v4s_id := 8\<rparr>, arp', replicate 3 (request_bytes [2, 0, 0, 0, 0, 1] 0x0100000A 0x08080808), m')) \<and>
     ipv4_find 0xFE00000A arp' = Some [2, 0, 0, 0, 0, 9]"
proof -
  let ?arp = "ipv4_update 0xFE00000A [2, 0, 0, 0, 0, 9] empty_cache"
  obtain m' where m': "mp_alloc (BasicMempool_config 64 1 4 1) 52 (BasicMempool (BasicMempool_config 64 1 4 1) 0 100) = (Some 0, m')"
    using witness_big_alloc by blast
  have arp: "ipv4_find 0xFE00000A ?arp = Some [2, 0, 0, 0, 0, 9]" "find_entry 0x08080808 (static_entries ?arp) = None"
    "ipv4_find 0x08080808 ?arp = None" "resolved_by_arp 0xFE00000A"
    by code_simp+
  have pool: "pool_ready (\<lambda>_. True) ?arp" using empty_cache_ok(2) [of "\<lambda>_. True"] by (simp add: pool_ready_def ipv4_update_def)
  have id: "v4s_id (witness_route True 0x08080808) + 1 = 8" by (simp add: witness_route_def)
  show ?thesis
    using gateway_never_asked [of "witness_route True 0x08080808" 0 witness_host ?arp "[2, 0, 0, 0, 0, 9]" "\<lambda>_. [999]" "\<lambda>_. 0" ucast "\<lambda>_. 1000" 8 2 8
        "BasicMempool_config 64 1 4 1" "BasicMempool (BasicMempool_config 64 1 4 1) 0 100" 0 m' "\<lambda>_. 0" witness_buffer "prepare_udp 8 witness_socket"]
      arp pool m' by (simp add: witness_route_simps id) blast
qed

end
