(* ===== verification/ICMP_Services.thy ===== *)
theory ICMP_Services
  imports IPv4_Ethernet Shared_Memory
begin

text \<open>
  What a host answers by itself over IPv4 (\<^verbatim>\<open>icmpv4\<close>): the way of a message to the handlers (\<^verbatim>\<open>IPv4_ICMP_Receive.ah\<close>),
  the reply to an echo request (\<^verbatim>\<open>IPv4_ICMP_Echo_Reply.ah\<close>), the errors for an unknown protocol or port
  (\<^verbatim>\<open>IPv4_ICMP_Protocol_Unreachable.ah\<close>, \<^verbatim>\<open>IPv4_ICMP_Port_Unreachable.ah\<close>), and the socket they all send through: it takes its
  buffers from the shared management memory and never frees them itself. The first lemmas say that a handler leaves only
  finished buffers behind; then an answer is followed through all layers, up to the frame on the wire and the host that asked.
\<close>

subsection \<open>Constants of \<open>ICMP_Packet\<close>\<close>

definition IPV4_TYPE_ICMP :: u8 where "IPV4_TYPE_ICMP = 1"
definition ICMP_TYPE_DESTINATION_UNREACHABLE :: u8 where "ICMP_TYPE_DESTINATION_UNREACHABLE = 3"
definition ICMP_CODE_PROTOCOL_UNREACHABLE :: u8 where "ICMP_CODE_PROTOCOL_UNREACHABLE = 2"
definition ICMP_CODE_PORT_UNREACHABLE :: u8 where "ICMP_CODE_PORT_UNREACHABLE = 3"
definition ICMP_TYPE_ECHO_REQUEST :: u8 where "ICMP_TYPE_ECHO_REQUEST = 8"
definition ICMP_TYPE_ECHO_REPLY :: u8 where "ICMP_TYPE_ECHO_REPLY = 0"
definition ICMP_CODE_ECHO :: u8 where "ICMP_CODE_ECHO = 0"

subsection \<open>The socket\<close>

text \<open>What the surroundings are and answer while one message is handled: the host; \<open>sizeof(SendBuffer)\<close>; the pool; what was in its
  memory and in the pointers of a new buffer; which frames the driver has sent; the clock; what happens during a lookup
  (see \<open>prepare_arp\<close>); and the MTU of each interface.\<close>

record environment =
  en_host :: host
  en_szsb :: nat
  en_pool :: pool_config
  en_raw :: "nat \<Rightarrow> u8"
  en_junk :: net_buffer
  en_sent :: "nat \<Rightarrow> bool"
  en_ticks :: "u32 \<Rightarrow> u64"
  en_lookup :: "((nat \<Rightarrow> bool) \<times> u64 \<times> (arrival list \<times> u64) list) list"
  en_mtu :: "nat \<Rightarrow> u32"

text \<open>The IPv4 part of \<open>ICMPv4_Socket\<close>, the ARP cache, the management memory with the objects in it, and the flag of \<open>Demux\<close>
  that asks for a direct response.\<close>

record icmp_host =
  ic_ipv4 :: IPV4
  ic_arp :: arp_cache
  ic_shared :: shared_memory
  ic_heap :: sb_heap
  mDirectResponse :: bool

type_synonym icmp_step = "icmp_host \<Rightarrow> (icmp_host \<times> u8 list list) outcome option"

definition prepare_icmp :: "nat \<Rightarrow> sending_step" where
  "prepare_icmp szsb =
     with_buffer (\<lambda>b. in_mem (nextheaderfield_ip b) 1 (\<lambda>_. [IPV4_TYPE_ICMP]) (b\<lparr>memstart_transport := data_offset szsb b\<rparr>))
       (\<lambda>st. Some (Inr st))"

definition icmp_requestSendBuffer ::
    "environment \<Rightarrow> nat option \<Rightarrow> u32 \<Rightarrow> icmp_host \<Rightarrow> (net_buffer option \<times> icmp_host \<times> u8 list list) outcome option" where
  "icmp_requestSendBuffer E ifc requestSize st =
     lbind (Some (estimateSendBufferMinSize (en_host E) 0 (ic_ipv4 st))) (\<lambda>estimate.
     lbind (Some (shm_createInstance (en_szsb E) (en_pool E) (en_raw E) (en_sent E) (estimate + requestSize) ifc (ic_heap st) (ic_shared st)))
       (\<lambda>(r, h, sm).
         let st = st\<lparr>ic_heap := h, ic_shared := sm\<rparr> in
         case r of
           None \<Rightarrow> Some (Inr (None, st, []))
         | Some b \<Rightarrow>
           lbind (prepareSendBuffer (en_host E) (en_szsb E) (en_ticks E) (en_lookup E) (prepare_icmp (en_szsb E))
               \<lparr>sg_buffer = (en_junk E)\<lparr>nb_buffer := b\<rparr>, sg_ipv4 = ic_ipv4 st, sg_arp = ic_arp st, sg_frames = []\<rparr>)
             (\<lambda>sg. let b = nb_buffer (sg_buffer sg) in
               Some (Inr (if m_state b \<noteq> WritingState then None else Some (sg_buffer sg),
                 st\<lparr>ic_ipv4 := sg_ipv4 sg, ic_arp := sg_arp sg, ic_heap := h(sb_addr b \<mapsto> b)\<rparr>, sg_frames sg)))))"

definition icmp_getMaxPayloadLength :: "environment \<Rightarrow> icmp_host \<Rightarrow> u32 outcome" where
  "icmp_getMaxPayloadLength E st =
     (case v4s_interface (ic_ipv4 st) of
        None \<Rightarrow> Inr (getMaxPayloadLength (en_pool E) False 0 0 (shm_pool (ic_shared st)))
      | Some i \<Rightarrow>
        obind (estimateSendBufferMinSize (en_host E) 0 (ic_ipv4 st)) (\<lambda>estimate.
        Inr (getMaxPayloadLength (en_pool E) True estimate (en_mtu E i) (shm_pool (ic_shared st)))))"

definition send_icmp_checksum :: "nat \<Rightarrow> net_buffer \<Rightarrow> net_buffer outcome" where
  "send_icmp_checksum szsb b =
     (let payloadsize = of_nat (data_offset szsb b - memstart_transport b) :: u16 in
      obind (in_mem (memstart_transport b) ICMP_HEADER_SIZE (icmp_set_checksum 0) b) (\<lambda>b.
      obind (ICMP_calc_checksum 0 (drop (memstart_transport b) (frame_memory b)) payloadsize) (\<lambda>c.
      in_mem (memstart_transport b) ICMP_HEADER_SIZE (icmp_set_checksum c) b)))"

definition icmp_send :: "nat \<Rightarrow> net_buffer \<Rightarrow> (net_buffer \<times> u8 list list) outcome" where
  "icmp_send szsb b =
     obind (send_ipv4_checksum b) (\<lambda>b.
     obind (send_icmp_checksum szsb b) (\<lambda>b.
     obind (send (nb_buffer b)) (\<lambda>(ok, s, frame).
       Inr (b\<lparr>nb_buffer := s\<rparr>, case frame of None \<Rightarrow> [] | Some f \<Rightarrow> [f]))))"

subsection \<open>The handlers\<close>

text \<open>The memory of a packet, and that of the message in it; both reach to the end of what the driver received.\<close>

definition packet_memory :: "IPv4_Packet \<Rightarrow> u8 list" where
  "packet_memory packet = v4_header_bytes packet @ v4_data packet"

definition icmp_memory :: "IPv4_Packet \<Rightarrow> u8 list" where
  "icmp_memory packet = drop (v4_get_data packet) (packet_memory packet)"

text \<open>What all handlers do: request a buffer, write the header and \<open>len\<close> bytes of \<open>payload\<close>, and send it.\<close>

definition icmp_respond :: "environment \<Rightarrow> nat \<Rightarrow> u32 \<Rightarrow> u8 \<Rightarrow> u8 \<Rightarrow> u32 \<Rightarrow> u8 list \<Rightarrow> u32 \<Rightarrow> icmp_step" where
  "icmp_respond E i requestSize type code quench payload len st =
     lbind (icmp_requestSendBuffer E (Some i) requestSize (st\<lparr>mDirectResponse := True\<rparr>)) (\<lambda>(sbi, st, out).
     case sbi of
       None \<Rightarrow> Some (Inr (st, out))
     | Some b \<Rightarrow>
       lbind (Some
           (obind (in_mem (data_offset (en_szsb E) b) ICMP_HEADER_SIZE (\<lambda>m. icmp_set_quench quench (icmp_set_code code (icmp_set_type type m))) b) (\<lambda>b.
            obind (net_write (en_szsb E) payload len (written (of_nat ICMP_HEADER_SIZE) b)) (icmp_send (en_szsb E)))))
         (\<lambda>(b, frames). Some (Inr (st\<lparr>ic_heap := (ic_heap st)(sb_addr (nb_buffer b) \<mapsto> nb_buffer b)\<rparr>, out @ frames))))"

text \<open>The answer goes to the sender of the packet.\<close>

definition icmp_set_destination :: "environment \<Rightarrow> IPv4_Packet \<Rightarrow> icmp_host \<Rightarrow> icmp_host" where
  "icmp_set_destination E packet st =
     st\<lparr>ic_ipv4 := v4s_set_dst_addr (ho_router (en_host E)) (v4_get_src_ipaddr packet) (ic_ipv4 st)\<rparr>"

definition icmp_echo_reply :: "environment \<Rightarrow> icmp_step \<Rightarrow> IPv4_Packet \<Rightarrow> u32 \<Rightarrow> nat \<Rightarrow> icmp_step" where
  "icmp_echo_reply E proceed packet payloadlen i st =
     (let icmp = icmp_memory packet in
      if icmp_get_type icmp = ICMP_TYPE_ECHO_REQUEST \<and> icmp_get_code icmp = ICMP_CODE_ECHO
      then let st = icmp_set_destination E packet st in
        lbind (Some (icmp_getMaxPayloadLength E st)) (\<lambda>m.
        let maxlen = ucast m :: u16;
            payloadlen = (if ucast maxlen < payloadlen then ucast maxlen else payloadlen) in
        icmp_respond E i payloadlen ICMP_TYPE_ECHO_REPLY 0 (icmp_get_quench icmp) (icmp_get_data icmp)
          (payloadlen - of_nat ICMP_HEADER_SIZE) st)
      else proceed st)"

definition icmp_unreachable :: "environment \<Rightarrow> u8 \<Rightarrow> IPv4_Packet \<Rightarrow> nat \<Rightarrow> icmp_step" where
  "icmp_unreachable E code packet i st =
     (let st = icmp_set_destination E packet st;
          echoErrornousPacketSize = v4_get_ihl packet * 4 + 8 in
      icmp_respond E i (ucast echoErrornousPacketSize + of_nat ICMP_HEADER_SIZE) ICMP_TYPE_DESTINATION_UNREACHABLE code 0
        (packet_memory packet) (ucast echoErrornousPacketSize) st)"

definition icmp_protocol_unreachable :: "environment \<Rightarrow> IPv4_Packet \<Rightarrow> nat \<Rightarrow> icmp_step" where
  "icmp_protocol_unreachable E = icmp_unreachable E ICMP_CODE_PROTOCOL_UNREACHABLE"

definition icmp_port_unreachable :: "environment \<Rightarrow> IPv4_Packet \<Rightarrow> nat \<Rightarrow> icmp_step" where
  "icmp_port_unreachable E = icmp_unreachable E ICMP_CODE_PORT_UNREACHABLE"

subsection \<open>Receiving\<close>

text \<open>The advice around \<open>ipv4_demux\<close>: \<open>icmpv4_demux\<close> takes a message with a valid checksum, \<open>proceed\<close> any other protocol, and
  \<open>dropped\<close> is the return without effect.\<close>

definition ipv4_icmp_receive ::
    "'a outcome option \<Rightarrow> (IPv4_Packet \<Rightarrow> u32 \<Rightarrow> 'a outcome option) \<Rightarrow> (IPv4_Packet \<Rightarrow> 'a outcome option) \<Rightarrow> IPv4_Packet \<Rightarrow> 'a outcome option" where
  "ipv4_icmp_receive dropped icmpv4_demux proceed packet =
     (if v4_get_protocol packet = IPV4_TYPE_ICMP
      then let payloadlen = ucast (v4_get_total_len packet) - ucast (v4_get_ihl packet) * 4 in
        if payloadlen < of_nat ICMP_HEADER_SIZE then dropped
        else lbind (Some (ICMP_checksum_valid 0 (icmp_memory packet) (ucast payloadlen))) (\<lambda>valid.
          if valid then icmpv4_demux packet payloadlen else dropped)
      else proceed packet)"

definition icmp_frame_receive ::
    "(IPv4_Packet \<Rightarrow> u32 \<Rightarrow> u16 \<Rightarrow> (IPv4_Packet \<times> u32) option) \<Rightarrow> v4_interface \<Rightarrow> 'a outcome option \<Rightarrow>
     (IPv4_Packet \<Rightarrow> u32 \<Rightarrow> 'a outcome option) \<Rightarrow> (IPv4_Packet \<Rightarrow> 'a outcome option) \<Rightarrow> u8 list \<Rightarrow> u32 \<Rightarrow> 'a outcome option" where
  "icmp_frame_receive reassemble ifc dropped icmpv4_demux proceed mem framelen =
     (case ipv4_frame_receive reassemble ifc mem framelen of
        None \<Rightarrow> dropped
      | Some verdict \<Rightarrow>
        lbind (Some verdict) (\<lambda>v. case v of
          Delivered packet len \<Rightarrow> ipv4_icmp_receive dropped icmpv4_demux proceed packet
        | _ \<Rightarrow> dropped))"

text \<open>A stack that knows no other protocol. Every frame clears the flag; a packet of another protocol gets an error.\<close>

definition icmp_input ::
    "environment \<Rightarrow> (IPv4_Packet \<Rightarrow> u32 \<Rightarrow> u16 \<Rightarrow> (IPv4_Packet \<times> u32) option) \<Rightarrow> nat \<Rightarrow> u8 list \<Rightarrow> u32 \<Rightarrow> icmp_step" where
  "icmp_input E reassemble i mem framelen st =
     (let st = st\<lparr>mDirectResponse := False\<rparr> in
      icmp_frame_receive reassemble (interfaces (ho_router (en_host E)) ! i) (Some (Inr (st, [])))
        (\<lambda>packet payloadlen. icmp_echo_reply E (\<lambda>st. Some (Inr (st, []))) packet payloadlen i st)
        (\<lambda>packet. icmp_protocol_unreachable E packet i st) mem framelen)"

subsection \<open>What the steps keep of a buffer\<close>

lemma lbind_ok: "lbind m f = Some (Inr y) \<longleftrightarrow> (\<exists>x. m = Some (Inr x) \<and> f x = Some (Inr y))"
  by (cases m rule: option.exhaust; cases "the m") auto

lemma obind_ok: "obind m f = Inr y \<longleftrightarrow> (\<exists>x. m = Inr x \<and> f x = Inr y)"
  by (cases m) auto

lemma in_mem_keeps:
  "in_mem off n f b = Inr b' \<Longrightarrow> sb_addr (nb_buffer b') = sb_addr (nb_buffer b) \<and> m_state (nb_buffer b') = m_state (nb_buffer b)"
  by (auto simp: in_mem_def split: if_splits)

lemma set_link_destination_keeps:
  "set_link_destination ip off b = Inr b' \<Longrightarrow> sb_addr (nb_buffer b') = sb_addr (nb_buffer b) \<and>
    m_state (nb_buffer b') \<in> {m_state (nb_buffer b), WritingState OR ResolveLinkLayerStateOption}"
  unfolding set_link_destination_def Let_def by (auto simp: set_state_def setState_def dest: in_mem_keeps split: if_splits)

lemma written_keeps [simp]:
  "sb_addr (nb_buffer (written n b)) = sb_addr (nb_buffer b)" "m_state (nb_buffer (written n b)) = m_state (nb_buffer b)"
  by (simp_all add: written_def writtenToDataPointer_def)

lemma set_state_keeps [simp]:
  "sb_addr (nb_buffer (set_state s b)) = sb_addr (nb_buffer b)" "m_state (nb_buffer (set_state s b)) = s"
  by (simp_all add: set_state_def setState_def)

lemma net_write_keeps:
  "net_write szsb d len b = Inr b' \<Longrightarrow> sb_addr (nb_buffer b') = sb_addr (nb_buffer b) \<and> m_state (nb_buffer b') = m_state (nb_buffer b)"
  by (auto simp: net_write_def obind_ok sb_write_def Let_def split: sum.splits)

text \<open>The preparation of a buffer in one of the states \<open>S\<close> ends with the same buffer, either ready to be written or invalid.\<close>

definition prepared :: "u8 set \<Rightarrow> nat \<Rightarrow> sending_step \<Rightarrow> bool" where
  "prepared S a proceed \<longleftrightarrow>
     (\<forall>st st'. m_state (nb_buffer (sg_buffer st)) \<in> S \<longrightarrow> sb_addr (nb_buffer (sg_buffer st)) = a \<longrightarrow> proceed st = Some (Inr st') \<longrightarrow>
       sb_addr (nb_buffer (sg_buffer st')) = a \<and> m_state (nb_buffer (sg_buffer st')) \<in> {WritingState, InvalidState})"

lemma preparedD:
  assumes "prepared S a proceed" and "proceed st = Some (Inr st')" and "m_state (nb_buffer (sg_buffer st)) \<in> S"
    and "sb_addr (nb_buffer (sg_buffer st)) = a"
  shows "sb_addr (nb_buffer (sg_buffer st')) = a \<and> m_state (nb_buffer (sg_buffer st')) \<in> {WritingState, InvalidState}"
  using assms unfolding prepared_def by blast

lemma with_buffer_prepared:
  assumes "prepared S' a proceed"
    and "\<And>b b'. m_state (nb_buffer b) \<in> S \<Longrightarrow> sb_addr (nb_buffer b) = a \<Longrightarrow> f b = Inr b' \<Longrightarrow> m_state (nb_buffer b') \<in> S' \<and> sb_addr (nb_buffer b') = a"
  shows "prepared S a (with_buffer f proceed)"
  unfolding prepared_def with_buffer_def lbind_ok
proof (intro allI impI)
  fix st st'
  assume st: "m_state (nb_buffer (sg_buffer st)) \<in> S" "sb_addr (nb_buffer (sg_buffer st)) = a"
    and "\<exists>x. Some (f (sg_buffer st)) = Some (Inr x) \<and> proceed (st\<lparr>sg_buffer := x\<rparr>) = Some (Inr st')"
  then obtain b where b: "f (sg_buffer st) = Inr b" "proceed (st\<lparr>sg_buffer := b\<rparr>) = Some (Inr st')" by auto
  show "sb_addr (nb_buffer (sg_buffer st')) = a \<and> m_state (nb_buffer (sg_buffer st')) \<in> {WritingState, InvalidState}"
    by (rule preparedD [OF assms(1) b(2)]) (use assms(2) [OF st b(1)] in simp_all)
qed

lemma prepare_icmp_prepared: "prepared {WritingState} a (prepare_icmp szsb)"
  unfolding prepare_icmp_def
  by (rule with_buffer_prepared [where S' = "{WritingState}"]) (auto simp: prepared_def dest: in_mem_keeps)

lemma prepare_arp_prepared:
  assumes "prepared {WritingState} a proceed"
  shows "prepared {WritingState, WritingState OR ResolveLinkLayerStateOption} a (prepare_arp H ms xs proceed)"
  unfolding prepared_def
proof (intro allI impI)
  fix st st'
  assume s: "m_state (nb_buffer (sg_buffer st)) \<in> {WritingState, WritingState OR ResolveLinkLayerStateOption}"
    and a: "sb_addr (nb_buffer (sg_buffer st)) = a" and r: "prepare_arp H ms xs proceed st = Some (Inr st')"
  show "sb_addr (nb_buffer (sg_buffer st')) = a \<and> m_state (nb_buffer (sg_buffer st')) \<in> {WritingState, InvalidState}"
  proof (cases "m_state (nb_buffer (sg_buffer st)) AND ResolveLinkLayerStateOption = 0")
    case True
    then have "m_state (nb_buffer (sg_buffer st)) \<in> {WritingState}" using s by (auto simp: state_defs)
    then show ?thesis using preparedD [OF assms, of st st'] r a True by (simp add: prepare_arp_def)
  next
    case False
    obtain hw out c where l: "(case hw of
          None \<Rightarrow> Some (Inr (st\<lparr>sg_arp := c, sg_frames := sg_frames st @ out, sg_buffer := set_state InvalidState (sg_buffer st)\<rparr>))
        | Some hw \<Rightarrow> with_buffer (\<lambda>b. obind (in_mem (memstart_ethernet b) ETH_HEADER_SIZE (eth_set_dst_hwaddr hw) b) (\<lambda>b. Inr (set_state WritingState b)))
            proceed (st\<lparr>sg_arp := c, sg_frames := sg_frames st @ out\<rparr>)) = Some (Inr st')"
    proof -
      obtain i where i: "m_interface (nb_buffer (sg_buffer st)) = Some i"
        using r False by (auto simp: prepare_arp_def split: option.splits)
      obtain hw out c where l: "ipv4_lookup ms (v4_get_dst_ipaddr (v4_header_at (drop (memstart_ip (sg_buffer st)) (frame_memory (sg_buffer st)))))
          (host_interface H i) xs (sg_arp st) = Some (hw, out, c)"
        using r False i by (auto simp: prepare_arp_def bind_eq_Some_conv)
      show thesis by (rule that [where hw = hw and c = c and out = out]) (use r False i l in \<open>simp add: prepare_arp_def Let_def split: option.splits\<close>)
    qed
    show ?thesis
    proof (cases hw)
      case None
      then show ?thesis using l a by auto
    next
      case (Some k)
      let ?f = "\<lambda>b. obind (in_mem (memstart_ethernet b) ETH_HEADER_SIZE (eth_set_dst_hwaddr k) b) (\<lambda>b. Inr (set_state WritingState b))"
      have "prepared UNIV a (with_buffer ?f proceed)"
        by (rule with_buffer_prepared [OF assms]) (auto simp: obind_ok dest: in_mem_keeps)
      from preparedD [OF this, of "st\<lparr>sg_arp := c, sg_frames := sg_frames st @ out\<rparr>" st'] show ?thesis using l a Some by simp
    qed
  qed
qed

lemma prepare_ipv4_prepared:
  assumes "prepared S a proceed"
  shows "prepared S a (prepare_ipv4 H szsb proceed)"
proof -
  have p: "prepared S a (\<lambda>st. proceed (st\<lparr>sg_ipv4 := ip\<rparr>))" for ip
    unfolding prepared_def by (intro allI impI) (rule preparedD [OF assms], assumption, simp_all)
  have f: "prepared S a (with_buffer (\<lambda>b. obind (in_mem off 20 g (b\<lparr>memstart_ip := off\<rparr>)) (\<lambda>b. Inr (written k b\<lparr>nextheaderfield_ip := off + 9\<rparr>)))
      (\<lambda>st. proceed (st\<lparr>sg_ipv4 := ip\<rparr>)))" for off g k ip
    by (rule with_buffer_prepared [OF p]) (auto simp: obind_ok dest: in_mem_keeps)
  show ?thesis unfolding prepared_def prepare_ipv4_def Let_def by (intro allI impI) (rule preparedD [OF f])
qed

lemma prepare_ethernet_prepared:
  assumes "prepared {WritingState, WritingState OR ResolveLinkLayerStateOption} a proceed"
  shows "prepared {WritingState} a (prepare_ethernet H szsb proceed)"
proof -
  have f: "prepared {WritingState} a (with_buffer (\<lambda>b. obind (in_mem off ETH_HEADER_SIZE g (written k (b\<lparr>memstart_ethernet := off\<rparr>))) (set_link_destination ip off)) proceed)"
    for off g k ip
    by (rule with_buffer_prepared [OF assms]) (auto simp: obind_ok dest!: in_mem_keeps set_link_destination_keeps)
  show ?thesis
    unfolding prepared_def
  proof (intro allI impI)
    fix st st'
    assume st: "m_state (nb_buffer (sg_buffer st)) \<in> {WritingState}" "sb_addr (nb_buffer (sg_buffer st)) = a"
      and r: "prepare_ethernet H szsb proceed st = Some (Inr st')"
    obtain i where i: "v4s_interface (sg_ipv4 st) = Some i" using r by (auto simp: prepare_ethernet_def split: option.splits)
    show "sb_addr (nb_buffer (sg_buffer st')) = a \<and> m_state (nb_buffer (sg_buffer st')) \<in> {WritingState, InvalidState}"
    proof (cases "ho_ethernet H i")
      case True
      then show ?thesis using r i st by (intro preparedD [OF f]) (auto simp: prepare_ethernet_def Let_def)
    next
      case False
      then show ?thesis using r i st by (intro preparedD [OF assms, of st st']) (auto simp: prepare_ethernet_def)
    qed
  qed
qed

lemma prepareSendBuffer_prepared: "prepared {WritingState} a (prepareSendBuffer H szsb ms xs (prepare_icmp szsb))"
  unfolding prepareSendBuffer_def
  by (intro prepare_ethernet_prepared prepare_ipv4_prepared prepare_arp_prepared prepare_icmp_prepared)

subsection \<open>Handlers leave finished buffers behind\<close>

definition finished :: "send_buffer \<Rightarrow> bool" where
  "finished b \<longleftrightarrow> m_state b \<in> {InvalidState, TransmittedState}"

definition shm_idle :: "pool_config \<Rightarrow> sb_heap \<Rightarrow> shared_memory \<Rightarrow> bool" where
  "shm_idle c h sm \<longleftrightarrow> shm_inv c h sm \<and> (\<forall>a b. Some a \<in> set (allocatedMemories sm) \<longrightarrow> h a = Some b \<longrightarrow> finished b)"

lemma shm_free_indices_subset:
  "shm_free_indices szsb c sent h ixs sm = Inr sm' \<Longrightarrow> Some a \<in> set (allocatedMemories sm') \<Longrightarrow> Some a \<in> set (allocatedMemories sm)"
proof (induction ixs arbitrary: sm)
  case (Cons i ixs)
  have "Some a \<in> set (allocatedMemories sm1) \<Longrightarrow> shm_remove szsb c sent h i sm = Inr (r, sm1) \<Longrightarrow> Some a \<in> set (allocatedMemories sm)" for r sm1
    using set_update_subset_insert [of "allocatedMemories sm" i None] by (auto simp: shm_remove_def split: if_splits option.splits sum.splits)
  then show ?case using Cons by (auto split: if_splits sum.splits)
qed simp

lemma shm_createInstance_live:
  assumes "shm_createInstance szsb c raw sent req ifc h sm = Inr (r, h', sm')" and "Some a \<in> set (allocatedMemories sm')"
  shows "(\<exists>b. r = Some b \<and> a = sb_addr b) \<or> Some a \<in> set (allocatedMemories sm) \<and> h' a = h a"
proof -
  obtain sm1 where f: "freeAllUnused szsb c sent h sm = Inr sm1" using assms(1) by (auto simp: shm_createInstance_def split: sum.splits)
  note sub = shm_free_indices_subset [OF f [unfolded freeAllUnused_def]]
  obtain r' m where cr: "createInstance szsb c raw req ifc (shm_pool sm1) = (r', m)" by fastforce
  show ?thesis
  proof (cases r')
    case None
    then show ?thesis using assms f cr sub by (auto simp: shm_createInstance_def)
  next
    case (Some b)
    then have e: "r = Some b" "h' = h(sb_addr b \<mapsto> b)" "sm' = snd (shm_insert (sb_addr b) (sm1\<lparr>shm_pool := m\<rparr>))"
      using assms(1) f cr by (auto simp: shm_createInstance_def)
    then have "a = sb_addr b \<or> Some a \<in> set (allocatedMemories sm1)"
      using assms(2) shm_insert_slots_set [of a "sb_addr b" "allocatedMemories sm1"] by (auto simp: shm_insert_def split: prod.splits)
    then show ?thesis using e sub by auto
  qed
qed

lemma shm_touch:
  "shm_inv c h sm \<Longrightarrow> sb_addr b = a \<Longrightarrow> shm_inv c (h(a \<mapsto> b)) sm"
  by (auto simp: shm_inv_def)

text \<open>A request gives a buffer to be written, or none, and then all buffers are finished.\<close>

lemma icmp_request_idle:
  assumes r: "icmp_requestSendBuffer E ifc n st = Some (Inr (r, st', out))" and idle: "shm_idle (en_pool E) (ic_heap st) (ic_shared st)"
  shows "case r of None \<Rightarrow> shm_idle (en_pool E) (ic_heap st') (ic_shared st')
    | Some b \<Rightarrow> m_state (nb_buffer b) = WritingState \<and>
        (\<forall>b'. sb_addr b' = sb_addr (nb_buffer b) \<longrightarrow> finished b' \<longrightarrow> shm_idle (en_pool E) ((ic_heap st')(sb_addr b' \<mapsto> b')) (ic_shared st'))"
proof -
  let ?c = "en_pool E"
  have inv: "shm_inv ?c (ic_heap st) (ic_shared st)" using idle by (simp add: shm_idle_def)
  obtain e where e: "estimateSendBufferMinSize (en_host E) 0 (ic_ipv4 st) = Inr e"
    using r by (auto simp: icmp_requestSendBuffer_def lbind_ok)
  obtain q h sm where cr: "shm_createInstance (en_szsb E) ?c (en_raw E) (en_sent E) (e + n) ifc (ic_heap st) (ic_shared st) = Inr (q, h, sm)"
      "shm_inv ?c h sm"
    using shm_createInstance_inv [OF inv] by blast
  note live = shm_createInstance_live [OF cr(1)]
  show ?thesis
  proof (cases q)
    case None
    have "shm_idle ?c h sm" using cr(2) live None idle by (fastforce simp: shm_idle_def)
    then show ?thesis using r e cr None by (auto simp: icmp_requestSendBuffer_def)
  next
    case (Some b0)
    let ?sg = "\<lparr>sg_buffer = (en_junk E)\<lparr>nb_buffer := b0\<rparr>, sg_ipv4 = ic_ipv4 st, sg_arp = ic_arp st, sg_frames = []\<rparr>"
    obtain sg where sg: "prepareSendBuffer (en_host E) (en_szsb E) (en_ticks E) (en_lookup E) (prepare_icmp (en_szsb E)) ?sg = Some (Inr sg)"
        "r = (if m_state (nb_buffer (sg_buffer sg)) \<noteq> WritingState then None else Some (sg_buffer sg))"
        "ic_heap st' = h(sb_addr (nb_buffer (sg_buffer sg)) \<mapsto> nb_buffer (sg_buffer sg))" "ic_shared st' = sm"
      using r e cr Some by (auto simp: icmp_requestSendBuffer_def lbind_ok Let_def)
    have "m_state b0 = WritingState"
      using cr(1) Some createInstance_ok(4) by (auto simp: shm_createInstance_def split: sum.splits prod.splits option.splits)
    then have st: "sb_addr (nb_buffer (sg_buffer sg)) = sb_addr b0" "m_state (nb_buffer (sg_buffer sg)) \<in> {WritingState, InvalidState}"
      using preparedD [OF prepareSendBuffer_prepared sg(1), of "sb_addr b0"] by simp_all
    have upd: "shm_idle ?c (h(sb_addr b' \<mapsto> b')) sm" if "sb_addr b' = sb_addr b0" "finished b'" for b'
      using shm_touch [OF cr(2), of b'] live Some idle that by (fastforce simp: shm_idle_def)
    show ?thesis
    proof (cases "m_state (nb_buffer (sg_buffer sg)) = WritingState")
      case True
      then show ?thesis using sg(2-4) st upd by auto
    next
      case False
      then have "finished (nb_buffer (sg_buffer sg))" using st(2) by (simp add: finished_def)
      then show ?thesis using False sg(2-4) st(1) upd by auto
    qed
  qed
qed

lemma icmp_send_finishes:
  assumes "icmp_send szsb b = Inr (b', fs)" and "m_state (nb_buffer b) = WritingState"
  shows "sb_addr (nb_buffer b') = sb_addr (nb_buffer b)" and "finished (nb_buffer b')"
proof -
  obtain b1 b2 ok s f where b: "send_ipv4_checksum b = Inr b1" "send_icmp_checksum szsb b1 = Inr b2" "send (nb_buffer b2) = Inr (ok, s, f)" "b' = b2\<lparr>nb_buffer := s\<rparr>"
    using assms(1) by (auto simp: icmp_send_def obind_ok split: option.splits)
  have "sb_addr (nb_buffer b1) = sb_addr (nb_buffer b) \<and> m_state (nb_buffer b1) = WritingState"
    using b(1) assms(2) by (auto simp: send_ipv4_checksum_def obind_ok split: if_splits dest!: in_mem_keeps)
  then have b2: "sb_addr (nb_buffer b2) = sb_addr (nb_buffer b) \<and> m_state (nb_buffer b2) = WritingState"
    using b(2) by (auto simp: send_icmp_checksum_def Let_def obind_ok dest!: in_mem_keeps)
  show "sb_addr (nb_buffer b') = sb_addr (nb_buffer b)" "finished (nb_buffer b')"
    using b(3,4) b2 by (auto simp: send_def setState_def finished_def split: option.splits if_splits)
qed

lemma icmp_respond_idle:
  assumes "icmp_respond E i n type code q p len st = Some (Inr (st', out))" and "shm_idle (en_pool E) (ic_heap st) (ic_shared st)"
  shows "shm_idle (en_pool E) (ic_heap st') (ic_shared st')"
proof -
  obtain r st1 out1 where rq: "icmp_requestSendBuffer E (Some i) n (st\<lparr>mDirectResponse := True\<rparr>) = Some (Inr (r, st1, out1))"
    using assms(1) by (auto simp: icmp_respond_def lbind_ok)
  note idle = icmp_request_idle [OF rq]
  show ?thesis
  proof (cases r)
    case None
    then show ?thesis using assms rq idle by (simp add: icmp_respond_def)
  next
    case (Some b)
    obtain b1 b2 b3 fs where f: "in_mem (data_offset (en_szsb E) b) ICMP_HEADER_SIZE (\<lambda>m. icmp_set_quench q (icmp_set_code code (icmp_set_type type m))) b = Inr b1"
        "net_write (en_szsb E) p len (written (of_nat ICMP_HEADER_SIZE) b1) = Inr b2" "icmp_send (en_szsb E) b2 = Inr (b3, fs)"
        "st' = st1\<lparr>ic_heap := (ic_heap st1)(sb_addr (nb_buffer b3) \<mapsto> nb_buffer b3)\<rparr>"
      using assms(1) rq Some by (auto simp: icmp_respond_def lbind_ok obind_ok)
    have b: "m_state (nb_buffer b) = WritingState" using idle Some assms(2) by simp
    have b2: "sb_addr (nb_buffer b2) = sb_addr (nb_buffer b) \<and> m_state (nb_buffer b2) = WritingState"
      using in_mem_keeps [OF f(1)] net_write_keeps [OF f(2)] b by simp
    show ?thesis using icmp_send_finishes [OF f(3)] b2 idle Some assms(2) f(4) by simp
  qed
qed

lemma set_destination_keeps [simp]:
  "ic_heap (icmp_set_destination E packet st) = ic_heap st" "ic_shared (icmp_set_destination E packet st) = ic_shared st"
  "ic_arp (icmp_set_destination E packet st) = ic_arp st"
  by (simp_all add: icmp_set_destination_def)

lemma icmp_unreachable_idle:
  "icmp_unreachable E code packet i st = Some (Inr (st', out)) \<Longrightarrow> shm_idle (en_pool E) (ic_heap st) (ic_shared st) \<Longrightarrow>
   shm_idle (en_pool E) (ic_heap st') (ic_shared st')"
  unfolding icmp_unreachable_def Let_def by (erule icmp_respond_idle) simp

lemma icmp_echo_reply_idle:
  assumes "icmp_echo_reply E proceed packet n i st = Some (Inr (st', out))" and "shm_idle (en_pool E) (ic_heap st) (ic_shared st)"
    and "proceed st = Some (Inr (st', out)) \<Longrightarrow> shm_idle (en_pool E) (ic_heap st') (ic_shared st')"
  shows "shm_idle (en_pool E) (ic_heap st') (ic_shared st')"
  using assms by (auto simp: icmp_echo_reply_def Let_def lbind_ok split: if_splits elim!: icmp_respond_idle)

lemma icmp_receive_cases:
  assumes "icmp_frame_receive reassemble ifc dropped demux proceed mem framelen = Some (Inr y)"
  shows "dropped = Some (Inr y) \<or> (\<exists>p n. demux p n = Some (Inr y)) \<or> (\<exists>p. proceed p = Some (Inr y))"
proof (cases "ipv4_frame_receive reassemble ifc mem framelen")
  case None
  then show ?thesis using assms by (simp add: icmp_frame_receive_def)
next
  case (Some verdict)
  then obtain v where v: "verdict = Inr v" using assms by (cases verdict) (auto simp: icmp_frame_receive_def)
  show ?thesis
  proof (cases v)
    case (Delivered p len)
    then show ?thesis using assms Some v by (auto simp: icmp_frame_receive_def ipv4_icmp_receive_def Let_def lbind_ok split: if_splits)
  qed (use assms Some v in \<open>auto simp: icmp_frame_receive_def\<close>)
qed

lemma icmp_input_idle:
  assumes "icmp_input E reassemble i mem framelen st = Some (Inr (st', out))" and "shm_idle (en_pool E) (ic_heap st) (ic_shared st)"
  shows "shm_idle (en_pool E) (ic_heap st') (ic_shared st')"
proof -
  let ?st = "st\<lparr>mDirectResponse := False\<rparr>"
  have idle: "shm_idle (en_pool E) (ic_heap ?st) (ic_shared ?st)" using assms(2) by simp
  from icmp_receive_cases [OF assms(1) [unfolded icmp_input_def Let_def]]
  consider "?st = st'" | p n where "icmp_echo_reply E (\<lambda>st. Some (Inr (st, []))) p n i ?st = Some (Inr (st', out))"
    | p where "icmp_unreachable E ICMP_CODE_PROTOCOL_UNREACHABLE p i ?st = Some (Inr (st', out))"
    by (auto simp: icmp_protocol_unreachable_def)
  then show ?thesis
  proof cases
    case 1
    then show ?thesis using assms(2) by auto
  next
    case 2
    then show ?thesis using idle by (rule icmp_echo_reply_idle) (use idle in auto)
  next
    case 3
    then show ?thesis using idle by (rule icmp_unreachable_idle)
  qed
qed

subsection \<open>Every history of the handlers\<close>

text \<open>The states that frames and errors for unknown ports lead to, from a management memory of which nothing is in use; everything
  around may be different each time, but for the pool and the size of the buffer objects.\<close>

inductive icmp_reach :: "nat \<Rightarrow> pool_config \<Rightarrow> basic_mempool \<Rightarrow> icmp_host \<Rightarrow> bool" for szsb c m0 where
  start: "ic_shared st = SharedMemory c m0 \<Longrightarrow> icmp_reach szsb c m0 st"
| frame: "icmp_reach szsb c m0 st \<Longrightarrow> en_szsb E = szsb \<Longrightarrow> en_pool E = c \<Longrightarrow>
    icmp_input E reassemble i mem framelen st = Some (Inr (st', out)) \<Longrightarrow> icmp_reach szsb c m0 st'"
| port: "icmp_reach szsb c m0 st \<Longrightarrow> en_szsb E = szsb \<Longrightarrow> en_pool E = c \<Longrightarrow>
    icmp_port_unreachable E packet i st = Some (Inr (st', out)) \<Longrightarrow> icmp_reach szsb c m0 st'"

lemma icmp_reach_idle:
  assumes "icmp_reach szsb c m0 st" and "basic.owns c m0 []"
  shows "shm_idle c (ic_heap st) (ic_shared st)"
  using assms
proof (induction rule: icmp_reach.induct)
  case (start st)
  then show ?case by (simp add: shm_idle_def shm_inv_def SharedMemory_def in_set_replicate)
next
  case (frame st E reassemble i mem framelen st' out)
  then show ?case using icmp_input_idle [of E reassemble i mem framelen st st' out] by simp
next
  case (port st E packet i st' out)
  then show ?case using icmp_unreachable_idle [of E _ packet i st st' out] by (simp add: icmp_port_unreachable_def)
qed

lemma remove_finished:
  assumes "shm_idle c h sm" and "i < SLOTS c" and "allocatedMemories sm ! i = Some a"
  obtains sm' where "shm_remove szsb c (\<lambda>_. True) h i sm = Inr (True, sm')" and "shm_idle c h sm'"
    and "allocatedMemories sm' = (allocatedMemories sm)[i := None]"
proof -
  have inv: "shm_inv c h sm" and len: "length (allocatedMemories sm) = SLOTS c" using assms(1) by (simp_all add: shm_idle_def shm_inv_def)
  obtain r sm' where r: "shm_remove szsb c (\<lambda>_. True) h i sm = Inr (r, sm')" "shm_inv c h sm'"
    using shm_remove_inv [OF inv assms(2,3)] by blast
  have "Some a \<in> set (allocatedMemories sm)" using assms(2,3) len nth_mem by metis
  then obtain b where b: "h a = Some b" "finished b" using assms(1) by (fastforce simp: shm_idle_def shm_inv_def)
  then have e: "r = True" "allocatedMemories sm' = (allocatedMemories sm)[i := None]"
    using r(1) assms(2,3) len by (auto simp: shm_remove_def hasBeenSend_def finished_def split: sum.splits)
  have "shm_idle c h sm'"
    using r(2) assms(1) set_update_subset_insert [of "allocatedMemories sm" i None] by (auto simp: shm_idle_def e(2))
  then show thesis using that r(1) e by auto
qed

lemma free_all_finished:
  "shm_idle c h sm \<Longrightarrow> set ixs \<subseteq> {..<SLOTS c} \<Longrightarrow>
   \<exists>sm'. shm_free_indices szsb c (\<lambda>_. True) h ixs sm = Inr sm' \<and> shm_idle c h sm' \<and>
     (\<forall>i < SLOTS c. allocatedMemories sm' ! i = (if i \<in> set ixs then None else allocatedMemories sm ! i))"
proof (induction ixs arbitrary: sm)
  case (Cons i ixs)
  have len: "length (allocatedMemories sm) = SLOTS c" using Cons.prems by (simp add: shm_idle_def shm_inv_def)
  show ?case
  proof (cases "allocatedMemories sm ! i")
    case None
    with Cons.IH [OF Cons.prems(1)] Cons.prems len show ?thesis by fastforce
  next
    case (Some a)
    obtain sm1 where sm1: "shm_remove szsb c (\<lambda>_. True) h i sm = Inr (True, sm1)" "shm_idle c h sm1"
        "allocatedMemories sm1 = (allocatedMemories sm)[i := None]"
      using remove_finished [OF Cons.prems(1) _ Some] Cons.prems(2) by auto
    from Cons.IH [OF sm1(2)] Cons.prems(2) obtain sm' where sm': "shm_free_indices szsb c (\<lambda>_. True) h ixs sm1 = Inr sm'" "shm_idle c h sm'"
        "\<forall>j < SLOTS c. allocatedMemories sm' ! j = (if j \<in> set ixs then None else allocatedMemories sm1 ! j)" by auto
    then show ?thesis using Some sm1 len Cons.prems(2) by (intro exI [of _ sm']) (auto simp: nth_list_update)
  qed
qed auto

lemma all_free_has_space:
  assumes "mp_inv c m" and "mp_avail m = mp_blocks c m" and "0 < count_big c"
  shows "smp_hasSpace (mempool_big m)"
proof (rule ccontr)
  assume "\<not> smp_hasSpace (mempool_big m)"
  then have "mp_avail m = set (smp_stack (mempool_small m))" by (simp add: mp_avail_def smp_stack_def smp_hasSpace_def)
  moreover have "set (smp_stack (mempool_small m)) \<subseteq> mp_small_blocks c m" using assms(1) by (simp add: mp_inv_def smp_inv_def mp_small_blocks_def)
  moreover have "smp_pool (mempool_big m) \<in> mp_big_blocks c m" using assms(3) by (auto simp: mp_big_blocks_def smp_blocks_def intro!: exI [of _ 0])
  ultimately show False using small_not_big [OF assms(1)] assms(2) by (auto simp: mp_blocks_def)
qed

lemma idle_frees_all:
  assumes "shm_idle c h sm" and "0 < count_big c" and "N \<le> size_big c"
  obtains sm1 a m where "freeAllUnused szsb c (\<lambda>_. True) h sm = Inr sm1" and "mp_alloc c N (shm_pool sm1) = (Some a, m)"
    and "allocatedMemories sm1 = replicate (SLOTS c) None" and "basic.owns c m [a]"
proof -
  obtain sm1 where f: "freeAllUnused szsb c (\<lambda>_. True) h sm = Inr sm1" "shm_idle c h sm1" "\<forall>i < SLOTS c. allocatedMemories sm1 ! i = None"
    using free_all_finished [OF assms(1), of "[0..<SLOTS c]" szsb] by (auto simp: freeAllUnused_def atLeast0LessThan)
  have inv: "shm_inv c h sm1" using f(2) by (simp add: shm_idle_def)
  have slots: "allocatedMemories sm1 = replicate (SLOTS c) None" using f(3) inv by (intro nth_equalityI) (auto simp: shm_inv_def)
  then have own: "basic.owns c (shm_pool sm1) []" using inv by (simp add: shm_inv_def)
  then have mp: "mp_inv c (shm_pool sm1)" "mp_avail (shm_pool sm1) = mp_blocks c (shm_pool sm1)"
    using basic.avail_blocks [of c "shm_pool sm1"] by (auto simp: basic.owns_def)
  have "fst (mp_alloc c N (shm_pool sm1)) \<noteq> None"
    using mp_alloc_max_free [OF mp(1)] all_free_has_space [OF mp assms(2)] assms(3) mp(1)
    by (auto simp: getMaxFreeBlockSize_def mp_inv_def smp_inv_def)
  then obtain a m where a: "mp_alloc c N (shm_pool sm1) = (Some a, m)" by (cases "mp_alloc c N (shm_pool sm1)") auto
  show thesis by (rule that [OF f(1) a slots basic.owns_alloc [OF own a]])
qed

lemma initial_owns:
  assumes "c = BasicMempool_config b1 c1 b2 c2" and "m0 = BasicMempool c base_big base_small" and "0 < b1" and "0 < b2"
    and "base_big + count_big c * size_big c \<le> base_small"
  shows "basic.owns c m0 []"
  using BasicMempool_owns BasicMempool_inv [OF assms(3,4,1,5)] assms(2) by blast

text \<open>C31: Answers never use up the memory. After any sequence of frames, whatever they hold, and of errors for unknown ports, every
  buffer in the management memory is finished: when the driver has sent what it got, the next request frees all of them,
  and gets a buffer if it fits into a big block. So no sequence of messages, answered or not, keeps a later one from
  being answered.\<close>

theorem icmp_memory_recovers:
  assumes reach: "icmp_reach szsb c m0 st" and m0: "c = BasicMempool_config b1 c1 b2 c2" "m0 = BasicMempool c base_big base_small"
    and sizes: "0 < b1" "0 < b2" and layout: "base_big + count_big c * size_big c \<le> base_small"
    and req: "0 < count_big c" "unat (req + of_nat szsb) \<le> size_big c"
  shows "\<exists>b h' sm'. shm_createInstance szsb c raw (\<lambda>_. True) req ifc (ic_heap st) (ic_shared st) = Inr (Some b, h', sm') \<and>
    slot_ptrs (allocatedMemories sm') = [sb_addr b] \<and> mp_avail (shm_pool sm') = mp_blocks c (shm_pool sm') - {sb_addr b}"
proof -
  obtain sm1 a m where f: "freeAllUnused szsb c (\<lambda>_. True) (ic_heap st) (ic_shared st) = Inr sm1"
      "mp_alloc c (unat (req + of_nat szsb)) (shm_pool sm1) = (Some a, m)" "allocatedMemories sm1 = replicate (SLOTS c) None" "basic.owns c m [a]"
    by (rule idle_frees_all [OF icmp_reach_idle [OF reach initial_owns [OF m0 sizes layout]] req])
  obtain b where b: "createInstance szsb c raw req ifc (shm_pool sm1) = (Some b, m)" "sb_addr b = a"
    using f(2) by (simp add: createInstance_def initStartPointer_def)
  have "SLOTS c = Suc (SLOTS c - 1)" using req(1) by (simp add: SLOTS_def)
  then have "shm_insert_slots a (allocatedMemories sm1) = (True, Some a # replicate (SLOTS c - 1) None)"
    unfolding f(3) by (metis replicate_Suc shm_insert_slots.simps(2))
  then have "shm_createInstance szsb c raw (\<lambda>_. True) req ifc (ic_heap st) (ic_shared st) =
      Inr (Some b, (ic_heap st)(a \<mapsto> b), sm1\<lparr>shm_pool := m, allocatedMemories := Some a # replicate (SLOTS c - 1) None\<rparr>)"
    using f(1) b by (simp add: shm_createInstance_def shm_insert_def)
  moreover have "mp_avail m = mp_blocks c m - {a}" using f(4) basic.avail_blocks [of c m] by (auto simp: basic.owns_def)
  ultimately show ?thesis using b(2) by simp
qed

subsection \<open>The frame of an answer\<close>

definition icmp_header :: "u8 \<Rightarrow> u8 \<Rightarrow> u16 \<Rightarrow> u32 \<Rightarrow> u8 list" where
  "icmp_header type code c q = [type, code] @ store16 (htons c) @ store32 q"

lemma length_icmp_header [simp]: "length (icmp_header type code c q) = 8"
  by (simp add: icmp_header_def)

lemma icmp_header_written:
  assumes "length m = 8"
  shows "\<exists>c. icmp_set_quench q (icmp_set_code code (icmp_set_type type m)) = icmp_header type code c q"
proof -
  obtain x0 x1 x2 x3 x4 x5 x6 x7 where m: "m = [x0, x1, x2, x3, x4, x5, x6, x7]" using assms by (rule length_8E)
  have h: "htons (htons (load16 x2 x3)) = load16 x2 x3" by (rule htons_involution)
  have "icmp_set_quench q (icmp_set_code code (icmp_set_type type m)) = icmp_header type code (htons (load16 x2 x3)) q"
    unfolding icmp_header_def h by (simp add: m icmp_fields set8_def set32_def put_bytes_def store16_load16)
  then show ?thesis by blast
qed

lemma icmp_header_checksum: "icmp_set_checksum c (icmp_header type code c' q) = icmp_header type code c q"
  by (simp add: icmp_header_def icmp_fields set16_def put_bytes_def store16_def)

lemma icmp_header_fields:
  "icmp_get_type (icmp_header type code c q @ r) = type" "icmp_get_code (icmp_header type code c q @ r) = code"
  "icmp_get_quench (icmp_header type code c q @ r) = q" "icmp_get_data (icmp_header type code c q @ r) = r"
  by (simp_all add: icmp_header_def icmp_fields get8_def get32_def store16_def store32_def load32_store32 ICMP_HEADER_SIZE_def)

lemma icmp_checksum_filled:
  assumes "length d = n" and "8 + n < 65536"
  obtains c where "ICMP_calc_checksum 0 (icmp_header type code 0 q @ d) (of_nat (8 + n)) = Inr c"
    and "\<And>rest. ICMP_checksum_valid 0 (icmp_header type code c q @ d @ rest) (of_nat (8 + n)) = Inr True"
proof -
  let ?l = "of_nat (8 + n) :: u16"
  have l: "unat ?l = 8 + n" using assms(2) by (intro unat_of_nat_u16) simp
  have h: "icmp_header type code c q @ r = [type, code] @ ucast (drop_bit 8 c) # ucast c # store32 q @ r" for c r
    by (simp add: icmp_header_def htons_bytes)
  have h0: "icmp_header type code 0 q @ d = [type, code] @ 0 # 0 # store32 q @ d" using h [of 0 d] by simp
  have small: "unat (0 :: u32) + be_sum (take (unat ?l) m) < 2 ^ 32" for m
  proof -
    have "length (take (unat ?l) m) \<le> 65535" using unat_u16_less [of ?l] by (simp del: unat_u16_less)
    then show ?thesis using be_sum_bound_u16 [of "take (unat ?l) m"] by simp
  qed
  obtain c where c: "ICMP_calc_checksum 0 ([type, code] @ 0 # 0 # store32 q @ d) ?l = Inr c"
      "ICMP_checksum_valid 0 ([type, code] @ ucast (drop_bit 8 c) # ucast c # store32 q @ d) ?l = Inr True"
    using icmp_sum.fill_in_valid [of ?l "[type, code]" "store32 q @ d" 0] l assms(1) by (auto simp del: of_nat_add)
  have "ICMP_checksum_valid 0 (icmp_header type code c q @ d @ rest) ?l = Inr True" for rest
  proof -
    have t: "take (unat ?l) (icmp_header type code c q @ d @ r) = icmp_header type code c q @ d" for r using l assms(1) by (simp del: of_nat_add)
    note v = icmp_sum.valid_iff [of ?l "icmp_header type code c q @ d @ rest" 0] icmp_sum.valid_iff [of ?l "icmp_header type code c q @ d @ []" 0]
    have "ICMP_checksum_valid 0 (icmp_header type code c q @ d @ rest) ?l = ICMP_checksum_valid 0 (icmp_header type code c q @ d @ []) ?l"
      using v l assms(1) small [of "icmp_header type code c q @ d @ rest"] small [of "icmp_header type code c q @ d @ []"] unfolding t
      by (simp del: of_nat_add)
    then show ?thesis using c(2) by (simp only: h append_Nil2)
  qed
  then show thesis using c(1) that h0 by metis
qed

text \<open>The packet, by that of a datagram of the same length.\<close>

definition icmp_packet :: "host \<Rightarrow> IPV4 \<Rightarrow> nat \<Rightarrow> IPv4_Packet \<Rightarrow> IPv4_Packet" where
  "icmp_packet H ip n q = v4_set_protocol IPV4_TYPE_ICMP (udp_packet H ip n q)"

lemma icmp_packet_is: "v4_set_protocol IPV4_TYPE_ICMP (fst (v4s_setupHeader (ho_router H) (of_nat (28 + n)) ip q)) = icmp_packet H ip n q"
  by (simp add: icmp_packet_def udp_packet_def v4_set_protocol_def)

lemma icmp_packet_fields:
  "v4_ihl (icmp_packet H ip n q) = 5" "v4_get_version (icmp_packet H ip n q) = IPV4_VERSION"
  "v4_get_total_len (icmp_packet H ip n q) = of_nat (28 + n)" "v4_get_fragment_offset (icmp_packet H ip n q) = 0"
  "v4_get_flags (icmp_packet H ip n q) = 0" "v4_get_ttl (icmp_packet H ip n q) = 64" "v4_get_src_ipaddr (icmp_packet H ip n q) = v4s_get_src_addr (ho_router H) ip"
  "v4_get_dst_ipaddr (icmp_packet H ip n q) = v4s_dst_addr ip" "v4_get_protocol (icmp_packet H ip n q) = IPV4_TYPE_ICMP"
  using udp_packet_fields(1-8) [of H ip n q]
  by (simp_all add: icmp_packet_def ipv4_fields v4_get_fragment_offset_def v4_get_flags_def del: of_nat_add)

lemma protocol_in_place:
  assumes "frame_memory b = E @ v4_header_bytes p @ rest" and "length E = 14"
  shows "in_mem 23 1 (\<lambda>_. [x]) b = Inr (b\<lparr>nb_buffer := (nb_buffer b)\<lparr>sb_mem := E @ v4_header_bytes (v4_set_protocol x p) @ rest\<rparr>\<rparr>)"
proof -
  let ?h = "v4_header_bytes p"
  have "frame_memory b = (E @ take 9 ?h) @ take 1 (drop 9 ?h) @ drop 10 ?h @ rest"
  proof -
    have "drop 9 ?h = take 1 (drop 9 ?h) @ drop 1 (drop 9 ?h)" by (rule append_take_drop_id [symmetric])
    then have "?h = take 9 ?h @ take 1 (drop 9 ?h) @ drop 10 ?h" using append_take_drop_id [of 9 ?h] by simp
    then show ?thesis using assms(1) by (metis append_assoc)
  qed
  moreover have "length (E @ take 9 ?h) = 23" "length (take 1 (drop 9 ?h)) = 1" using assms(2) by simp_all
  ultimately have "in_mem 23 1 (\<lambda>_. [x]) b = Inr (b\<lparr>nb_buffer := (nb_buffer b)\<lparr>sb_mem := (E @ take 9 ?h) @ [x] @ drop 10 ?h @ rest\<rparr>\<rparr>)"
    by (simp only: in_mem_split)
  then show ?thesis by (simp only: set_protocol_bytes [symmetric] append_assoc)
qed

lemma prepare_icmp_frame:
  assumes "sb_data b = getDataStart szsb b + 34" and "sb_mem b = E @ v4_header_bytes p @ rest" and "length E = 14" and "nextheaderfield_ip nb = 23"
  shows "prepare_icmp szsb \<lparr>sg_buffer = nb\<lparr>nb_buffer := b\<rparr>, sg_ipv4 = ip, sg_arp = arp, sg_frames = out\<rparr> = Some (Inr
    \<lparr>sg_buffer = nb\<lparr>nb_buffer := b\<lparr>sb_mem := E @ v4_header_bytes (v4_set_protocol IPV4_TYPE_ICMP p) @ rest\<rparr>, memstart_transport := 34\<rparr>,
      sg_ipv4 = ip, sg_arp = arp, sg_frames = out\<rparr>)"
proof -
  have off: "data_offset szsb (nb\<lparr>nb_buffer := b\<rparr>) = 34" using assms(1) by (simp add: data_offset_def)
  show ?thesis
    using protocol_in_place [of "nb\<lparr>nb_buffer := b, memstart_transport := 34\<rparr>" E p rest IPV4_TYPE_ICMP] assms(2-4)
    by (simp add: prepare_icmp_def with_buffer_def off field_order)
qed

lemma create_at:
  assumes "mp_alloc c (N + szsb) m = (Some a, m')" and "N + szsb < 2 ^ 32"
  shows "createInstance szsb c raw (of_nat N) ifc m =
    (Some \<lparr>sb_addr = a, m_memsize = of_nat N, m_state = WritingState, m_interface = ifc, sb_data = a + szsb, sb_mem = map (\<lambda>k. raw (a + szsb + k)) [0..<N]\<rparr>, m')"
proof -
  have "unat (of_nat N :: u32) = N" using assms(2) by (intro unat_of_nat_u32) simp
  moreover have "unat (of_nat N + of_nat szsb :: u32) = N + szsb"
    using assms(2) unat_of_nat_u32 [of "N + szsb"] by simp
  ultimately show ?thesis using assms(1) by (simp add: createInstance_def initStartPointer_def getDataStart_def)
qed

text \<open>A request of \<open>n\<close> bytes behind the header, for a destination whose hardware address is found.\<close>

lemma icmp_request_frame:
  assumes "v4s_interface (ic_ipv4 st) = Some j" and "ho_ethernet (en_host E) j" and "length (ho_address (en_host E) j) = 6"
    and "resolved_by_arp (v4s_get_nexthop_ipaddr (ho_router (en_host E)) (ic_ipv4 st))"
    and "ipv4_lookup (en_ticks E) (v4s_dst_addr (ic_ipv4 st)) (host_interface (en_host E) i) (en_lookup E) (ic_arp st) = Some (Some mac, out, arp')"
    and "length mac = 6"
    and "freeAllUnused (en_szsb E) (en_pool E) (en_sent E) (ic_heap st) (ic_shared st) = Inr sm1"
    and "mp_alloc (en_pool E) (42 + n + en_szsb E) (shm_pool sm1) = (Some a, m')" and "42 + n + en_szsb E < 2 ^ 32"
  obtains U P q B st' where "icmp_requestSendBuffer E (Some i) (of_nat (8 + n)) st = Some (Inr (Some
        ((en_junk E)\<lparr>memstart_ethernet := 0, memstart_ip := 14, nextheaderfield_ip := 23, memstart_transport := 34, nb_buffer := B\<rparr>), st', out))"
    and "B = \<lparr>sb_addr = a, m_memsize = of_nat (42 + n), m_state = WritingState, m_interface = Some i, sb_data = a + en_szsb E + 34,
          sb_mem = (mac @ ho_address (en_host E) j @ [0x08, 0x00]) @ v4_header_bytes (icmp_packet (en_host E) (ic_ipv4 st) n q) @ U @ P\<rparr>"
    and "length U = 8" and "length P = n"
proof -
  let ?H = "en_host E" and ?z = "en_szsb E" and ?ip = "ic_ipv4 st" and ?xs = "en_lookup E" and ?ms = "en_ticks E"
  define mem where "mem = map (\<lambda>k. en_raw E (a + ?z + k)) [0..<42 + n]"
  define F I U P where "F = take 14 mem" and "I = take 20 (drop 14 mem)" and "U = take 8 (drop 34 mem)" and "P = drop 42 mem"
  have l: "length F = 14" "length I = 20" "length U = 8" "length P = n" by (simp_all add: F_def I_def U_def P_def mem_def)
  have mem: "mem = F @ I @ U @ P"
    using append_take_drop_id [of 14 mem] append_take_drop_id [of 20 "drop 14 mem"] append_take_drop_id [of 8 "drop 34 mem"]
    by (simp add: F_def I_def U_def P_def)
  define b where "b = \<lparr>sb_addr = a, m_memsize = of_nat (42 + n), m_state = WritingState, m_interface = Some i, sb_data = a + ?z, sb_mem = mem\<rparr>"
  have b: "sb_data b = getDataStart ?z b" "sb_mem b = F @ I @ U @ P" "unat (m_memsize b) = 34 + (8 + n)" "m_interface b = Some i"
    using assms(9) unat_of_nat_u32 [of "42 + n"] by (simp_all add: b_def getDataStart_def mem del: of_nat_add)
  let ?F = "eth_set_src_hwaddr (ho_address ?H j) (eth_set_type ETH_TYPE_IPV4 F)" and ?p = "fst (v4s_setupHeader (ho_router ?H) (of_nat (28 + n)) ?ip (v4_header_at I))"
  have F: "length ?F = 14" "eth_set_dst_hwaddr mac ?F = mac @ ho_address ?H j @ [0x08, 0x00]" "length (eth_set_dst_hwaddr mac ?F) = 14"
    using l(1) assms(3,6) eth_header_bytes [OF l(1) assms(3,6)] by (simp_all add: eth_set_src_hwaddr_def eth_set_type_def set16_def)
  let ?nb' = "(en_junk E)\<lparr>memstart_ethernet := 0, memstart_ip := 14, nextheaderfield_ip := 23\<rparr>"
  let ?b2 = "b\<lparr>sb_mem := ?F @ v4_header_bytes ?p @ U @ P, sb_data := getDataStart ?z b + 34, m_state := WritingState OR ResolveLinkLayerStateOption\<rparr>"
  let ?b3 = "b\<lparr>sb_mem := eth_set_dst_hwaddr mac ?F @ v4_header_bytes ?p @ U @ P, sb_data := getDataStart ?z b + 34, m_state := WritingState\<rparr>"
  let ?b4 = "b\<lparr>sb_mem := eth_set_dst_hwaddr mac ?F @ v4_header_bytes (v4_set_protocol IPV4_TYPE_ICMP ?p) @ U @ P, sb_data := getDataStart ?z b + 34, m_state := WritingState\<rparr>"
  have s1: "prepareSendBuffer ?H ?z ?ms ?xs (prepare_icmp ?z) \<lparr>sg_buffer = (en_junk E)\<lparr>nb_buffer := b\<rparr>, sg_ipv4 = ?ip, sg_arp = ic_arp st, sg_frames = []\<rparr> =
      prepare_arp ?H ?ms ?xs (prepare_icmp ?z) \<lparr>sg_buffer = ?nb'\<lparr>nb_buffer := ?b2\<rparr>, sg_ipv4 = ?ip\<lparr>v4s_id := v4s_id ?ip + 1\<rparr>, sg_arp = ic_arp st, sg_frames = []\<rparr>"
    using prepare_headers [OF assms(1,2,4) b(1,2) l(1,2) b(3), of ?ms ?xs "prepare_icmp ?z" "en_junk E" "ic_arp st"] by (simp del: of_nat_add)
  have s2: "prepare_arp ?H ?ms ?xs proceed \<lparr>sg_buffer = ?nb'\<lparr>nb_buffer := ?b2\<rparr>, sg_ipv4 = ?ip\<lparr>v4s_id := v4s_id ?ip + 1\<rparr>, sg_arp = ic_arp st, sg_frames = []\<rparr> =
      proceed \<lparr>sg_buffer = ?nb'\<lparr>nb_buffer := ?b3\<rparr>, sg_ipv4 = ?ip\<lparr>v4s_id := v4s_id ?ip + 1\<rparr>, sg_arp = arp', sg_frames = out\<rparr>" for proceed
    using prepare_arp_frame [of ?b2 i ?nb' ?F ?p "U @ P" _ _ _ _ ?ms ?H ?xs "ic_arp st" mac out arp' proceed] b(4) F(1) assms(5)
    by (simp add: field_order del: of_nat_add)
  have s3: "prepare_icmp ?z \<lparr>sg_buffer = ?nb'\<lparr>nb_buffer := ?b3\<rparr>, sg_ipv4 = ?ip\<lparr>v4s_id := v4s_id ?ip + 1\<rparr>, sg_arp = arp', sg_frames = out\<rparr> = Some (Inr
      \<lparr>sg_buffer = ?nb'\<lparr>memstart_transport := 34, nb_buffer := ?b4\<rparr>, sg_ipv4 = ?ip\<lparr>v4s_id := v4s_id ?ip + 1\<rparr>, sg_arp = arp', sg_frames = out\<rparr>)"
    using prepare_icmp_frame [of ?b3 ?z "eth_set_dst_hwaddr mac ?F" ?p "U @ P" ?nb'] F(3)
    by (simp add: getDataStart_def field_order del: of_nat_add)
  have est: "estimateSendBufferMinSize ?H 0 ?ip = Inr 34"
    using assms(1,2) by (simp add: estimateSendBufferMinSize_def ETH_HEADER_SIZE_def v4s_getSpecificHeaderSize_def IPV4_MIN_HEADER_SIZE_def)
  have size: "(34 :: u32) + of_nat (8 + n) = of_nat (42 + n)" by simp
  have cr: "shm_createInstance ?z (en_pool E) (en_raw E) (en_sent E) (of_nat (42 + n)) (Some i) (ic_heap st) (ic_shared st) =
      Inr (Some b, (ic_heap st)(a \<mapsto> b), snd (shm_insert a (sm1\<lparr>shm_pool := m'\<rparr>)))"
    using assms(7) create_at [of "en_pool E" "42 + n" ?z "shm_pool sm1" a m' "en_raw E" "Some i"] assms(8,9)
    by (simp add: shm_createInstance_def b_def mem_def del: of_nat_add)
  have ab: "sb_addr b = a" by (simp add: b_def)
  have "icmp_requestSendBuffer E (Some i) (of_nat (8 + n)) st = Some (Inr (Some (?nb'\<lparr>memstart_transport := 34, nb_buffer := ?b4\<rparr>),
      st\<lparr>ic_ipv4 := ?ip\<lparr>v4s_id := v4s_id ?ip + 1\<rparr>, ic_arp := arp', ic_heap := (ic_heap st)(a \<mapsto> ?b4), ic_shared := snd (shm_insert a (sm1\<lparr>shm_pool := m'\<rparr>))\<rparr>, out))"
    unfolding icmp_requestSendBuffer_def est lbind_simps size cr using ab by (simp add: s1 s2 s3 Let_def del: of_nat_add)
  then show thesis
    by (rule that [where U = U and P = P and q = "v4_header_at I"])
       (simp_all add: F(2) icmp_packet_is l b_def getDataStart_def del: of_nat_add)
qed

lemma write_front:
  assumes "sb_data b = getDataStart szsb b + off" and "sb_mem b = pre @ P" and "length pre = off" and "length P = n" and "n \<le> length d"
    and "unat (m_memsize b) = off + n"
  shows "sb_write szsb d (of_nat n) b = Inr (b\<lparr>sb_mem := pre @ take n d, sb_data := getDataStart szsb b + off + n\<rparr>)"
proof -
  have n: "unat (of_nat n :: u32) = n" using assms(6) unat_u32_less [of "m_memsize b"] by (intro unat_of_nat_u32) (simp del: unat_u32_less)
  show ?thesis
    using assms n remaining_after [OF assms(1,6)] by (simp add: sb_write_def Let_def memcpy_def)
qed

lemma icmp_send_frame:
  assumes "frame_memory nb = F @ v4_header_bytes p @ icmp_header t k c0 q @ d" and "length F = 14" and "length d = n" and "8 + n < 65536"
    and "v4_ihl p = 5" and "v4_version p AND 0xF = v4_version p" and "memstart_ip nb = 14" and "memstart_transport nb = 34"
    and "data_offset szsb nb = 42 + n" and "m_state (nb_buffer nb) = WritingState" and "m_interface (nb_buffer nb) = Some i"
    and "unat (m_memsize (nb_buffer nb)) = 42 + n"
  obtains c c' nb' where "icmp_send szsb nb = Inr (nb', [F @ v4_header_bytes (p\<lparr>v4_hdr_checksum := c\<rparr>) @ icmp_header t k c' q @ d])"
    and "\<And>rest. v4_validPacketChecksum (p\<lparr>v4_hdr_checksum := c, v4_data := rest\<rparr>) = Inr True"
    and "\<And>rest. ICMP_checksum_valid 0 (icmp_header t k c' q @ d @ rest) (of_nat (8 + n)) = Inr True"
proof -
  obtain c where c: "\<And>rest. v4_computeChecksum (p\<lparr>v4_data := rest\<rparr>) = Inr (p\<lparr>v4_hdr_checksum := c, v4_data := rest\<rparr>)"
      "\<And>rest. v4_validPacketChecksum (p\<lparr>v4_hdr_checksum := c, v4_data := rest\<rparr>) = Inr True"
    using v4_checksum_filled [OF assms(5)] by blast
  obtain c' where c': "ICMP_calc_checksum 0 (icmp_header t k 0 q @ d) (of_nat (8 + n)) = Inr c'"
      "\<And>rest. ICMP_checksum_valid 0 (icmp_header t k c' q @ d @ rest) (of_nat (8 + n)) = Inr True"
    using icmp_checksum_filled [OF assms(3,4)] by blast
  let ?p = "p\<lparr>v4_hdr_checksum := c\<rparr>"
  have nibble: "v4_ihl p AND 0xF = v4_ihl p" by (simp add: assms(5))
  let ?mem = "\<lambda>q h. F @ v4_header_bytes q @ h @ d" and ?nb = "\<lambda>m. nb\<lparr>nb_buffer := (nb_buffer nb)\<lparr>sb_mem := m\<rparr>\<rparr>"
  have "v4_header_at (drop 14 (frame_memory nb)) = p\<lparr>v4_data := icmp_header t k c0 q @ d\<rparr>"
    using assms(1,2) v4_header_at_encode [OF nibble assms(6)] by simp
  moreover have "in_mem 14 20 (\<lambda>_. v4_header_bytes ?p) nb = Inr (?nb (?mem ?p (icmp_header t k c0 q)))"
    using assms(1,2) by (subst in_mem_split [of _ F "v4_header_bytes p" "icmp_header t k c0 q @ d"]) simp_all
  ultimately have ip: "send_ipv4_checksum nb = Inr (?nb (?mem ?p (icmp_header t k c0 q)))"
    using assms(1-3,7) c(1) by (simp add: send_ipv4_checksum_def)
  have sum: "in_mem 34 ICMP_HEADER_SIZE (icmp_set_checksum x) (?nb (?mem ?p (icmp_header t k y q))) = Inr (?nb (?mem ?p (icmp_header t k x q)))" for x y
    using assms(2) icmp_header_checksum [of x t k y q]
    by (subst in_mem_split [of _ "F @ v4_header_bytes ?p" "icmp_header t k y q" d]) (simp_all add: ICMP_HEADER_SIZE_def)
  have off: "data_offset szsb (?nb m) = 42 + n" for m using assms(9) by (simp add: data_offset_def getDataStart_def)
  have icmp: "send_icmp_checksum szsb (?nb (?mem ?p (icmp_header t k c0 q))) = Inr (?nb (?mem ?p (icmp_header t k c' q)))"
    using assms(2,8) c'(1) unfolding send_icmp_checksum_def Let_def off
    by (simp add: sum frame_memory_def del: of_nat_add)
  have "send (nb_buffer (?nb (?mem ?p (icmp_header t k c' q)))) =
      Inr (True, setState TransmittedState (nb_buffer (?nb (?mem ?p (icmp_header t k c' q)))), Some (?mem ?p (icmp_header t k c' q)))"
    using assms(2,3,10-12) by (simp add: send_def getSize_def)
  then have "icmp_send szsb nb = Inr (?nb (?mem ?p (icmp_header t k c' q))\<lparr>nb_buffer := setState TransmittedState (nb_buffer (?nb (?mem ?p (icmp_header t k c' q))))\<rparr>,
      [?mem ?p (icmp_header t k c' q)])"
    by (simp add: icmp_send_def ip icmp)
  then show thesis by (rule that [OF _ c(2) c'(2)])
qed

lemma icmp_respond_frame:
  assumes S: "v4s_interface (ic_ipv4 st) = Some j" "ho_ethernet (en_host E) j" "length (ho_address (en_host E) j) = 6"
      "resolved_by_arp (v4s_get_nexthop_ipaddr (ho_router (en_host E)) (ic_ipv4 st))"
      "ipv4_lookup (en_ticks E) (v4s_dst_addr (ic_ipv4 st)) (host_interface (en_host E) i) (en_lookup E) (ic_arp st) = Some (Some mac, out, arp')"
      "length mac = 6" "freeAllUnused (en_szsb E) (en_pool E) (en_sent E) (ic_heap st) (ic_shared st) = Inr sm1"
      "mp_alloc (en_pool E) (42 + n + en_szsb E) (shm_pool sm1) = (Some a, m')" "42 + n + en_szsb E < 2 ^ 32"
    and n: "8 + n < 65536" "n \<le> length payload"
  obtains st' q c c' where "icmp_respond E i (of_nat (8 + n)) type code quench payload (of_nat n) st = Some (Inr (st', out @
      [(mac @ ho_address (en_host E) j @ [0x08, 0x00]) @ v4_header_bytes (icmp_packet (en_host E) (ic_ipv4 st) n q\<lparr>v4_hdr_checksum := c\<rparr>) @
         icmp_header type code c' quench @ take n payload]))"
    and "\<And>rest. v4_validPacketChecksum (icmp_packet (en_host E) (ic_ipv4 st) n q\<lparr>v4_hdr_checksum := c, v4_data := rest\<rparr>) = Inr True"
    and "\<And>rest. ICMP_checksum_valid 0 (icmp_header type code c' quench @ take n payload @ rest) (of_nat (8 + n)) = Inr True"
proof -
  let ?z = "en_szsb E" and ?F = "mac @ ho_address (en_host E) j @ [0x08, 0x00]"
  have flag: "ic_ipv4 (st\<lparr>mDirectResponse := True\<rparr>) = ic_ipv4 st" "ic_arp (st\<lparr>mDirectResponse := True\<rparr>) = ic_arp st"
      "ic_heap (st\<lparr>mDirectResponse := True\<rparr>) = ic_heap st" "ic_shared (st\<lparr>mDirectResponse := True\<rparr>) = ic_shared st"
    by simp_all
  obtain U P q B st1 where rq: "icmp_requestSendBuffer E (Some i) (of_nat (8 + n)) (st\<lparr>mDirectResponse := True\<rparr>) = Some (Inr (Some
        ((en_junk E)\<lparr>memstart_ethernet := 0, memstart_ip := 14, nextheaderfield_ip := 23, memstart_transport := 34, nb_buffer := B\<rparr>), st1, out))"
    and B: "B = \<lparr>sb_addr = a, m_memsize = of_nat (42 + n), m_state = WritingState, m_interface = Some i, sb_data = a + ?z + 34,
          sb_mem = ?F @ v4_header_bytes (icmp_packet (en_host E) (ic_ipv4 st) n q) @ U @ P\<rparr>"
    and l: "length U = 8" "length P = n"
    by (rule icmp_request_frame [of "st\<lparr>mDirectResponse := True\<rparr>" j E i mac out arp' sm1 n a m', unfolded flag, OF S]) iprover
  let ?p = "icmp_packet (en_host E) (ic_ipv4 st) n q"
  let ?nb = "(en_junk E)\<lparr>memstart_ethernet := 0, memstart_ip := 14, nextheaderfield_ip := 23, memstart_transport := 34\<rparr>"
  have F: "length ?F = 14" using S(3,6) by simp
  have N: "unat (of_nat (42 + n) :: u32) = 42 + n" using S(9) by (intro unat_of_nat_u32) simp
  obtain c0 where c0: "icmp_set_quench quench (icmp_set_code code (icmp_set_type type U)) = icmp_header type code c0 quench"
    using icmp_header_written [OF l(1)] by blast
  let ?B = "\<lambda>k r. \<lparr>sb_addr = a, m_memsize = of_nat (42 + n), m_state = WritingState, m_interface = Some i, sb_data = a + ?z + k,
      sb_mem = ?F @ v4_header_bytes ?p @ icmp_header type code c0 quench @ r\<rparr>"
  have off: "data_offset ?z (?nb\<lparr>nb_buffer := B\<rparr>) = 34" by (simp add: data_offset_def getDataStart_def B)
  have h: "in_mem 34 ICMP_HEADER_SIZE (\<lambda>m. icmp_set_quench quench (icmp_set_code code (icmp_set_type type m))) (?nb\<lparr>nb_buffer := B\<rparr>) =
      Inr (?nb\<lparr>nb_buffer := ?B 34 P\<rparr>)"
    using F l by (subst in_mem_split [of _ "?F @ v4_header_bytes ?p" U P]) (simp_all add: B ICMP_HEADER_SIZE_def c0)
  have w: "written (of_nat ICMP_HEADER_SIZE) (?nb\<lparr>nb_buffer := ?B 34 P\<rparr>) = ?nb\<lparr>nb_buffer := ?B 42 P\<rparr>"
    by (simp add: written_def writtenToDataPointer_def ICMP_HEADER_SIZE_def)
  have "sb_write ?z payload (of_nat n) (?B 42 P) = Inr (?B (42 + n) (take n payload))"
    using write_front [of "?B 42 P" ?z 42 "?F @ v4_header_bytes ?p @ icmp_header type code c0 quench" P n payload] F l(2) n(2) N
    by (simp add: getDataStart_def add_ac del: of_nat_add)
  then have d: "net_write ?z payload (of_nat n) (?nb\<lparr>nb_buffer := ?B 42 P\<rparr>) = Inr (?nb\<lparr>nb_buffer := ?B (42 + n) (take n payload)\<rparr>)"
    by (simp add: net_write_def del: of_nat_add)
  have ver: "v4_version ?p AND 0xF = v4_version ?p" using icmp_packet_fields(2) [of "en_host E" "ic_ipv4 st" n q] by (simp add: v4_get_version_def IPV4_VERSION_def)
  have at: "frame_memory (?nb\<lparr>nb_buffer := ?B (42 + n) (take n payload)\<rparr>) = ?F @ v4_header_bytes ?p @ icmp_header type code c0 quench @ take n payload"
      "memstart_ip (?nb\<lparr>nb_buffer := ?B (42 + n) (take n payload)\<rparr>) = 14" "memstart_transport (?nb\<lparr>nb_buffer := ?B (42 + n) (take n payload)\<rparr>) = 34"
      "data_offset ?z (?nb\<lparr>nb_buffer := ?B (42 + n) (take n payload)\<rparr>) = 42 + n" "m_state (nb_buffer (?nb\<lparr>nb_buffer := ?B (42 + n) (take n payload)\<rparr>)) = WritingState"
      "m_interface (nb_buffer (?nb\<lparr>nb_buffer := ?B (42 + n) (take n payload)\<rparr>)) = Some i"
      "unat (m_memsize (nb_buffer (?nb\<lparr>nb_buffer := ?B (42 + n) (take n payload)\<rparr>))) = 42 + n"
    using N by (simp_all add: frame_memory_def data_offset_def getDataStart_def del: of_nat_add)
  have ld: "length (take n payload) = n" using n(2) by simp
  obtain c c' nb' where s: "icmp_send ?z (?nb\<lparr>nb_buffer := ?B (42 + n) (take n payload)\<rparr>) = Inr (nb', [?F @ v4_header_bytes (?p\<lparr>v4_hdr_checksum := c\<rparr>) @ icmp_header type code c' quench @ take n payload])"
      "\<And>rest. v4_validPacketChecksum (?p\<lparr>v4_hdr_checksum := c, v4_data := rest\<rparr>) = Inr True"
      "\<And>rest. ICMP_checksum_valid 0 (icmp_header type code c' quench @ take n payload @ rest) (of_nat (8 + n)) = Inr True"
    by (rule icmp_send_frame [OF at(1) F ld n(1) icmp_packet_fields(1) ver at(2-7)]) iprover
  have "icmp_respond E i (of_nat (8 + n)) type code quench payload (of_nat n) st = Some (Inr (st1\<lparr>ic_heap := (ic_heap st1)(sb_addr (nb_buffer nb') \<mapsto> nb_buffer nb')\<rparr>,
      out @ [?F @ v4_header_bytes (?p\<lparr>v4_hdr_checksum := c\<rparr>) @ icmp_header type code c' quench @ take n payload]))"
    unfolding icmp_respond_def rq lbind_simps by (simp add: off h w d s(1) del: of_nat_add append_assoc)
  then show thesis using s(2,3) by (rule that)
qed

subsection \<open>The answer that is received\<close>

lemma icmp_memory_behind:
  assumes "v4_ihl p = 5"
  shows "icmp_memory (p\<lparr>v4_data := r\<rparr>) = r"
proof -
  have "v4_get_data p = 20" using assms by (simp add: v4_get_data_def v4_get_ihl_def)
  then show ?thesis by (simp add: icmp_memory_def packet_memory_def)
qed

lemma icmp_frame_accepted:
  fixes p :: IPv4_Packet and framelen :: u32
  assumes p: "v4_ihl p = 5" "v4_get_version p = IPV4_VERSION" "v4_get_total_len p = of_nat (28 + n)" "v4_get_fragment_offset p = 0"
      "v4_get_flags p = 0" "v4_get_ttl p = 64" "v4_version p AND 0xF = v4_version p"
    and valid: "\<And>rest. v4_validPacketChecksum (p\<lparr>v4_data := rest\<rparr>) = Inr True"
    and ifc: "if_ipv4_up ifc" "v4_get_dst_ipaddr p = if_ipv4_addr ifc"
    and len: "n \<le> 1476" "42 + n \<le> unat framelen" "unat framelen \<le> MAX_FRAME_SIZE" "length mac = 6" "length hw = 6"
    and icmp: "v4_get_protocol p = IPV4_TYPE_ICMP" "ICMP_checksum_valid 0 r (of_nat (8 + n)) = Inr True"
  shows "icmp_frame_receive reassemble ifc dropped demux proceed ((mac @ hw @ [0x08, 0x00]) @ v4_header_bytes p @ r) framelen =
    demux (p\<lparr>v4_data := r\<rparr>) (of_nat (8 + n))"
proof -
  have ihl: "v4_get_ihl p = 5" using p(1) by (simp add: v4_get_ihl_def)
  have t: "ucast (of_nat (28 + n) :: u16) = (of_nat (28 + n) :: u32)"
    using len(1) unat_of_nat_u16 [of "28 + n"] unat_of_nat_u32 [of "28 + n"] by (simp add: word_unat_eq_iff del: of_nat_add)
  have pl: "ucast (v4_get_total_len p) - ucast (v4_get_ihl p) * 4 = (of_nat (8 + n) :: u32)" unfolding p(3) ihl t by simp
  have big: "\<not> (of_nat (8 + n) :: u32) < of_nat ICMP_HEADER_SIZE"
    using unat_of_nat_u32 [of "8 + n"] len(1) by (simp add: word_less_nat_alt ICMP_HEADER_SIZE_def del: of_nat_add)
  have v: "ICMP_checksum_valid 0 (icmp_memory (p\<lparr>v4_data := r\<rparr>)) (ucast (of_nat (8 + n) :: u32)) = Inr True"
    unfolding icmp_memory_behind [OF p(1)] ucast_of_nat_u16 by (rule icmp(2))
  have f: "v4_get_protocol (p\<lparr>v4_data := r\<rparr>) = IPV4_TYPE_ICMP" "ucast (v4_get_total_len (p\<lparr>v4_data := r\<rparr>)) - ucast (v4_get_ihl (p\<lparr>v4_data := r\<rparr>)) * 4 = (of_nat (8 + n) :: u32)"
    using icmp(1) pl by simp_all
  show ?thesis
    unfolding icmp_frame_receive_def frame_delivered [OF p valid ifc len] option.case lbind_simps ipv4_verdict.case ipv4_icmp_receive_def Let_def f(2) v
    using f(1) big by simp
qed

text \<open>The answer is one frame to the hardware address of the destination, which accepts it.\<close>

lemma icmp_respond_accepted:
  assumes S: "v4s_interface (ic_ipv4 st) = Some j" "ho_ethernet (en_host E) j" "length (ho_address (en_host E) j) = 6"
      "resolved_by_arp (v4s_get_nexthop_ipaddr (ho_router (en_host E)) (ic_ipv4 st))"
      "ipv4_lookup (en_ticks E) (v4s_dst_addr (ic_ipv4 st)) (host_interface (en_host E) i) (en_lookup E) (ic_arp st) = Some (Some mac, out, arp')"
      "length mac = 6" "freeAllUnused (en_szsb E) (en_pool E) (en_sent E) (ic_heap st) (ic_shared st) = Inr sm1"
      "mp_alloc (en_pool E) (42 + n + en_szsb E) (shm_pool sm1) = (Some a, m')" "42 + n + en_szsb E < 2 ^ 32"
    and n: "8 + n < 65536" "n \<le> length payload"
  shows "\<exists>st' frame. icmp_respond E i (of_nat (8 + n)) type code quench payload (of_nat n) st = Some (Inr (st', out @ [frame])) \<and>
    length frame = 42 + n \<and> take 6 frame = mac \<and>
    (\<forall>reassemble ifc dropped demux proceed behind framelen.
       if_ipv4_up ifc \<and> if_ipv4_addr ifc = v4s_dst_addr (ic_ipv4 st) \<and> 42 + n \<le> unat framelen \<and> unat framelen \<le> MAX_FRAME_SIZE \<longrightarrow>
       (\<exists>p. icmp_frame_receive reassemble ifc dropped demux proceed (frame @ behind) framelen = demux p (of_nat (8 + n)) \<and>
          v4_get_src_ipaddr p = if_ipv4_addr (interfaces (ho_router (en_host E)) ! j) \<and>
          icmp_get_type (icmp_memory p) = type \<and> icmp_get_code (icmp_memory p) = code \<and> icmp_get_quench (icmp_memory p) = quench \<and>
          take n (icmp_get_data (icmp_memory p)) = take n payload))"
proof -
  let ?H = "en_host E"
  obtain st' q c c' where r: "icmp_respond E i (of_nat (8 + n)) type code quench payload (of_nat n) st = Some (Inr (st', out @
        [(mac @ ho_address ?H j @ [0x08, 0x00]) @ v4_header_bytes (icmp_packet ?H (ic_ipv4 st) n q\<lparr>v4_hdr_checksum := c\<rparr>) @
         icmp_header type code c' quench @ take n payload]))"
      "\<And>rest. v4_validPacketChecksum (icmp_packet ?H (ic_ipv4 st) n q\<lparr>v4_hdr_checksum := c, v4_data := rest\<rparr>) = Inr True"
      "\<And>rest. ICMP_checksum_valid 0 (icmp_header type code c' quench @ take n payload @ rest) (of_nat (8 + n)) = Inr True"
    by (rule icmp_respond_frame [OF S n]) iprover
  let ?p = "icmp_packet ?H (ic_ipv4 st) n q\<lparr>v4_hdr_checksum := c\<rparr>"
  let ?frame = "(mac @ ho_address ?H j @ [0x08, 0x00]) @ v4_header_bytes ?p @ icmp_header type code c' quench @ take n payload"
  have f: "v4_ihl ?p = 5" "v4_get_version ?p = IPV4_VERSION" "v4_get_total_len ?p = of_nat (28 + n)" "v4_get_fragment_offset ?p = 0"
      "v4_get_flags ?p = 0" "v4_get_ttl ?p = 64" "v4_version ?p AND 0xF = v4_version ?p" "v4_get_protocol ?p = IPV4_TYPE_ICMP"
      "v4_get_src_ipaddr ?p = if_ipv4_addr (interfaces (ho_router ?H) ! j)" "v4_get_dst_ipaddr ?p = v4s_dst_addr (ic_ipv4 st)"
    using icmp_packet_fields [of ?H "ic_ipv4 st" n q] S(1)
    by (simp_all add: ipv4_fields v4_get_fragment_offset_def v4_get_flags_def IPV4_VERSION_def v4s_get_src_addr_def del: of_nat_add)
  have acc: "\<exists>p. icmp_frame_receive reassemble ifc dropped demux proceed (?frame @ behind) framelen = demux p (of_nat (8 + n)) \<and>
          v4_get_src_ipaddr p = if_ipv4_addr (interfaces (ho_router ?H) ! j) \<and>
          icmp_get_type (icmp_memory p) = type \<and> icmp_get_code (icmp_memory p) = code \<and> icmp_get_quench (icmp_memory p) = quench \<and>
          take n (icmp_get_data (icmp_memory p)) = take n payload"
    if ifc: "if_ipv4_up ifc \<and> if_ipv4_addr ifc = v4s_dst_addr (ic_ipv4 st) \<and> 42 + n \<le> unat framelen \<and> unat framelen \<le> MAX_FRAME_SIZE"
    for reassemble ifc dropped demux proceed behind framelen
  proof (rule exI [of _ "?p\<lparr>v4_data := icmp_header type code c' quench @ take n payload @ behind\<rparr>"])
    let ?r = "icmp_header type code c' quench @ take n payload @ behind"
    have d: "n \<le> 1476" using ifc by (simp add: MAX_FRAME_SIZE_def)
    have "icmp_frame_receive reassemble ifc dropped demux proceed ((mac @ ho_address ?H j @ [0x08, 0x00]) @ v4_header_bytes ?p @ ?r) framelen =
        demux (?p\<lparr>v4_data := ?r\<rparr>) (of_nat (8 + n))"
      using ifc d S(3,6) r(3) f(10) by (intro icmp_frame_accepted [OF f(1-7)] f(8) r(2)) simp_all
    moreover have "icmp_memory (?p\<lparr>v4_data := ?r\<rparr>) = ?r" by (rule icmp_memory_behind) (rule f(1))
    moreover have "v4_get_src_ipaddr (?p\<lparr>v4_data := ?r\<rparr>) = if_ipv4_addr (interfaces (ho_router ?H) ! j)" using f(9) by simp
    ultimately show "icmp_frame_receive reassemble ifc dropped demux proceed (?frame @ behind) framelen = demux (?p\<lparr>v4_data := ?r\<rparr>) (of_nat (8 + n)) \<and>
          v4_get_src_ipaddr (?p\<lparr>v4_data := ?r\<rparr>) = if_ipv4_addr (interfaces (ho_router ?H) ! j) \<and>
          icmp_get_type (icmp_memory (?p\<lparr>v4_data := ?r\<rparr>)) = type \<and> icmp_get_code (icmp_memory (?p\<lparr>v4_data := ?r\<rparr>)) = code \<and>
          icmp_get_quench (icmp_memory (?p\<lparr>v4_data := ?r\<rparr>)) = quench \<and> take n (icmp_get_data (icmp_memory (?p\<lparr>v4_data := ?r\<rparr>))) = take n payload"
      using n(2) by (simp only: icmp_header_fields append_assoc) simp
  qed
  have "length ?frame = 42 + n" "take 6 ?frame = mac" using S(3,6) n(2) by simp_all
  then show ?thesis using r(1) acc by blast
qed

text \<open>How much of a request is answered: as much as one buffer for the reply may hold, as \<open>getMaxPayloadLength\<close> says.\<close>

definition answered_length :: "environment \<Rightarrow> icmp_host \<Rightarrow> nat \<Rightarrow> nat" where
  "answered_length E st n = (case icmp_getMaxPayloadLength E st of Inl e \<Rightarrow> 0 | Inr m \<Rightarrow> min n (unat (ucast m :: u16)))"

lemma echo_request_is_answered:
  assumes "icmp_get_type (icmp_memory packet) = ICMP_TYPE_ECHO_REQUEST" and "icmp_get_code (icmp_memory packet) = ICMP_CODE_ECHO"
    and "st1 = icmp_set_destination E packet st" and "v4s_interface (ic_ipv4 st1) = Some j"
    and "unat n = k" and "answered_length E st1 k = 8 + d"
  shows "icmp_echo_reply E proceed packet n i st =
    icmp_respond E i (of_nat (8 + d)) ICMP_TYPE_ECHO_REPLY 0 (icmp_get_quench (icmp_memory packet)) (icmp_get_data (icmp_memory packet)) (of_nat d) st1"
proof -
  obtain m where m: "icmp_getMaxPayloadLength E st1 = Inr m"
    using assms(4) by (auto simp: icmp_getMaxPayloadLength_def estimateSendBufferMinSize_def)
  have u: "unat (ucast (ucast m :: u16) :: u32) = unat (ucast m :: u16)" by simp
  let ?l = "if ucast (ucast m :: u16) < n then ucast (ucast m :: u16) else n"
  have L: "unat ?l = 8 + d" using assms(5,6) m u by (simp add: answered_length_def word_less_nat_alt min_def split: if_splits)
  have w: "of_nat (unat x) = x" for x :: u32 by simp
  have l: "?l = of_nat (8 + d)" unfolding L [symmetric] w ..
  have "of_nat (8 + d) - of_nat ICMP_HEADER_SIZE = (of_nat d :: u32)" by (simp add: ICMP_HEADER_SIZE_def)
  then show ?thesis
    using assms(1,2) m unfolding icmp_echo_reply_def Let_def assms(3) [symmetric] by (simp add: l del: of_nat_add)
qed

lemma set_destination_addr: "v4s_dst_addr (ic_ipv4 (icmp_set_destination E packet st)) = v4_get_src_ipaddr packet"
  by (simp add: icmp_set_destination_def v4s_set_dst_addr_def v4s_resolveRoute_def Let_def)

lemma icmp_input_demux:
  assumes "ipv4_frame_receive reassemble (interfaces (ho_router (en_host E)) ! i) mem framelen = Some (Inr (Delivered packet len))"
    and "v4_get_protocol packet = IPV4_TYPE_ICMP" and "unat (v4_get_total_len packet) = 4 * unat (v4_get_ihl packet) + n" and "8 \<le> n"
    and "ICMP_checksum_valid 0 (icmp_memory packet) (of_nat n) = Inr True"
  shows "icmp_input E reassemble i mem framelen st =
    icmp_echo_reply E (\<lambda>st. Some (Inr (st, []))) packet (of_nat n) i (st\<lparr>mDirectResponse := False\<rparr>)" and "n < 65536"
proof -
  show n: "n < 65536" using assms(3) unat_u16_less [of "v4_get_total_len packet"] by (simp del: unat_u16_less)
  have "(ucast (v4_get_total_len packet) :: u32) = of_nat (unat (v4_get_total_len packet))" by (simp add: word_unat_eq_iff unat_of_nat_u32)
  moreover have "(ucast (v4_get_ihl packet) :: u32) = of_nat (unat (v4_get_ihl packet))" by (simp add: word_unat_eq_iff unat_of_nat_u32)
  ultimately have pl: "ucast (v4_get_total_len packet) - ucast (v4_get_ihl packet) * 4 = (of_nat n :: u32)" by (simp add: assms(3) del: of_nat_unat)
  have big: "\<not> (of_nat n :: u32) < of_nat ICMP_HEADER_SIZE"
    using unat_of_nat_u32 [of n] assms(4) n by (simp add: word_less_nat_alt ICMP_HEADER_SIZE_def)
  have v: "ICMP_checksum_valid 0 (icmp_memory packet) (ucast (of_nat n :: u32)) = Inr True" unfolding ucast_of_nat_u16 by (rule assms(5))
  show "icmp_input E reassemble i mem framelen st =
      icmp_echo_reply E (\<lambda>st. Some (Inr (st, []))) packet (of_nat n) i (st\<lparr>mDirectResponse := False\<rparr>)"
    unfolding icmp_input_def Let_def icmp_frame_receive_def assms(1) option.case lbind_simps ipv4_verdict.case ipv4_icmp_receive_def pl v
    using assms(2) big by simp
qed

text \<open>C4: An echo request is answered. When a valid request of \<open>n\<close> bytes reaches a host that knows, or learns in time, the hardware address
  of the sender, and the management memory has room, exactly one frame is sent after what ARP sends, to that address; and the
  host that asked, whatever else is in the memory behind the frame and however it was padded, takes it through every check of
  Ethernet, IPv4 and ICMP: an echo reply from the address that was asked, with the identification of the request and its data. The
  reply has as many bytes as the request, or as many as \<open>getMaxPayloadLength\<close> admits.\<close>

theorem echo_request_answered:
  assumes request: "ipv4_frame_receive reassemble (interfaces (ho_router (en_host E)) ! i) mem framelen = Some (Inr (Delivered packet len))"
      "v4_get_protocol packet = IPV4_TYPE_ICMP" "unat (v4_get_total_len packet) = 4 * unat (v4_get_ihl packet) + n" "8 \<le> n"
      "ICMP_checksum_valid 0 (icmp_memory packet) (of_nat n) = Inr True" "n \<le> length (icmp_memory packet)"
      "icmp_get_type (icmp_memory packet) = ICMP_TYPE_ECHO_REQUEST" "icmp_get_code (icmp_memory packet) = ICMP_CODE_ECHO"
    and st1: "st1 = icmp_set_destination E packet (st\<lparr>mDirectResponse := False\<rparr>)" "answered_length E st1 n = 8 + d"
    and S: "v4s_interface (ic_ipv4 st1) = Some j" "ho_ethernet (en_host E) j" "length (ho_address (en_host E) j) = 6"
      "resolved_by_arp (v4s_get_nexthop_ipaddr (ho_router (en_host E)) (ic_ipv4 st1))"
      "ipv4_lookup (en_ticks E) (v4s_dst_addr (ic_ipv4 st1)) (host_interface (en_host E) i) (en_lookup E) (ic_arp st1) = Some (Some mac, out, arp')"
      "length mac = 6" "freeAllUnused (en_szsb E) (en_pool E) (en_sent E) (ic_heap st1) (ic_shared st1) = Inr sh"
      "mp_alloc (en_pool E) (42 + d + en_szsb E) (shm_pool sh) = (Some a, m')" "42 + d + en_szsb E < 2 ^ 32"
  shows "\<exists>st' frame. icmp_input E reassemble i mem framelen st = Some (Inr (st', out @ [frame])) \<and> length frame = 42 + d \<and> take 6 frame = mac \<and>
    (\<forall>reassemble' ifc dropped demux proceed behind framelen'.
       if_ipv4_up ifc \<and> if_ipv4_addr ifc = v4_get_src_ipaddr packet \<and> 42 + d \<le> unat framelen' \<and> unat framelen' \<le> MAX_FRAME_SIZE \<longrightarrow>
       (\<exists>p. icmp_frame_receive reassemble' ifc dropped demux proceed (frame @ behind) framelen' = demux p (of_nat (8 + d)) \<and>
          v4_get_src_ipaddr p = if_ipv4_addr (interfaces (ho_router (en_host E)) ! j) \<and>
          icmp_get_type (icmp_memory p) = ICMP_TYPE_ECHO_REPLY \<and> icmp_get_code (icmp_memory p) = ICMP_CODE_ECHO \<and>
          icmp_get_quench (icmp_memory p) = icmp_get_quench (icmp_memory packet) \<and>
          take d (icmp_get_data (icmp_memory p)) = take d (icmp_get_data (icmp_memory packet))))"
proof -
  let ?q = "icmp_get_quench (icmp_memory packet)" and ?data = "icmp_get_data (icmp_memory packet)" and ?H = "en_host E"
  note input = icmp_input_demux [OF request(1-5)]
  have "8 + d \<le> n" using st1(2) by (auto simp: answered_length_def split: sum.splits)
  then have n: "8 + d < 65536" "d \<le> length ?data" using input(2) request(6) by (simp_all add: icmp_get_data_def ICMP_HEADER_SIZE_def)
  have un: "unat (of_nat n :: u32) = n" using input(2) by (intro unat_of_nat_u32) simp
  show ?thesis
    using icmp_respond_accepted [OF S n, of ICMP_TYPE_ECHO_REPLY 0 ?q]
    unfolding input(1) echo_request_is_answered [OF request(7,8) st1(1) S(1) un st1(2)] st1(1) set_destination_addr ICMP_CODE_ECHO_def .
qed

text \<open>An error quotes the packet it is about: its header with all options and eight bytes behind it, also when the packet
  ends before. Its sender accepts the message like an echo reply.\<close>

theorem unreachable_quotes_packet:
  assumes st1: "st1 = icmp_set_destination E packet st" and q: "n = 4 * unat (v4_get_ihl packet) + 8" "v4_ihl packet \<le> 15" "n \<le> length (packet_memory packet)"
    and S: "v4s_interface (ic_ipv4 st1) = Some j" "ho_ethernet (en_host E) j" "length (ho_address (en_host E) j) = 6"
      "resolved_by_arp (v4s_get_nexthop_ipaddr (ho_router (en_host E)) (ic_ipv4 st1))"
      "ipv4_lookup (en_ticks E) (v4s_dst_addr (ic_ipv4 st1)) (host_interface (en_host E) i) (en_lookup E) (ic_arp st1) = Some (Some mac, out, arp')"
      "length mac = 6" "freeAllUnused (en_szsb E) (en_pool E) (en_sent E) (ic_heap st1) (ic_shared st1) = Inr sm1"
      "mp_alloc (en_pool E) (42 + n + en_szsb E) (shm_pool sm1) = (Some a, m')" "42 + n + en_szsb E < 2 ^ 32"
  shows "\<exists>st' frame. icmp_unreachable E code packet i st = Some (Inr (st', out @ [frame])) \<and> length frame = 42 + n \<and> take 6 frame = mac \<and>
    (\<forall>reassemble ifc dropped demux proceed behind framelen.
       if_ipv4_up ifc \<and> if_ipv4_addr ifc = v4_get_src_ipaddr packet \<and> 42 + n \<le> unat framelen \<and> unat framelen \<le> MAX_FRAME_SIZE \<longrightarrow>
       (\<exists>p. icmp_frame_receive reassemble ifc dropped demux proceed (frame @ behind) framelen = demux p (of_nat (8 + n)) \<and>
          icmp_get_type (icmp_memory p) = ICMP_TYPE_DESTINATION_UNREACHABLE \<and> icmp_get_code (icmp_memory p) = code \<and>
          take n (icmp_get_data (icmp_memory p)) = take n (packet_memory packet)))"
proof -
  have i: "unat (v4_get_ihl packet) \<le> 15" using q(2) by (simp add: v4_get_ihl_def word_le_nat_alt)
  have "v4_get_ihl packet * 4 + 8 = of_nat n" by (simp add: q(1))
  moreover have "unat (of_nat n :: u8) = n" using i q(1) by (simp only: unat_of_nat) simp
  ultimately have u: "(ucast (v4_get_ihl packet * 4 + 8) :: u32) = of_nat n"
    using i q(1) unat_of_nat_u32 [of n] unat_ucast_u8_u32 [of "of_nat n"] by (simp only: word_unat_eq_iff) simp
  have l: "of_nat n + of_nat ICMP_HEADER_SIZE = (of_nat (8 + n) :: u32)" by (simp add: ICMP_HEADER_SIZE_def)
  have n: "8 + n < 65536" using i q(1) by simp
  show ?thesis
    using icmp_respond_accepted [OF S n q(3), of ICMP_TYPE_DESTINATION_UNREACHABLE code 0]
    unfolding icmp_unreachable_def Let_def u l st1 set_destination_addr by blast
qed

subsection \<open>How long a reply may be\<close>

lemma answered_length_value:
  assumes "v4s_interface (ic_ipv4 st) = Some j" and "ho_ethernet (en_host E) j" and "34 \<le> room" and "room < 65570" and "room \<le> unat (en_mtu E j)"
    and "getMaxFreeBlockSize (en_pool E) (shm_pool (ic_shared st)) = room \<and> room \<noteq> unat (en_mtu E j) \<or>
      room = unat (en_mtu E j) \<and> room \<le> getMaxFreeBlockSize (en_pool E) (shm_pool (ic_shared st)) \<and> getMaxFreeBlockSize (en_pool E) (shm_pool (ic_shared st)) < 2 ^ 32"
  shows "answered_length E st n = min n (room - 34)"
proof -
  let ?big = "getMaxFreeBlockSize (en_pool E) (shm_pool (ic_shared st))"
  have est: "estimateSendBufferMinSize (en_host E) 0 (ic_ipv4 st) = Inr 34"
    using assms(1,2) by (simp add: estimateSendBufferMinSize_def ETH_HEADER_SIZE_def v4s_getSpecificHeaderSize_def IPV4_MIN_HEADER_SIZE_def)
  have r: "unat (of_nat room :: u32) = room" using assms(4) by (intro unat_of_nat_u32) simp
  have "icmp_getMaxPayloadLength E st = Inr (of_nat room - of_nat 34)"
    using assms(6)
  proof
    assume m: "?big = room \<and> room \<noteq> unat (en_mtu E j)"
    then have "(of_nat ?big :: u32) < en_mtu E j" using r assms(5) by (simp add: word_less_nat_alt)
    then show ?thesis using assms(1) est m by (simp add: icmp_getMaxPayloadLength_def getMaxPayloadLength_def)
  next
    assume m: "room = unat (en_mtu E j) \<and> room \<le> ?big \<and> ?big < 2 ^ 32"
    then have "\<not> (of_nat ?big :: u32) < en_mtu E j" using unat_of_nat_u32 [of ?big] by (simp add: word_less_nat_alt)
    then show ?thesis using assms(1) est m by (simp add: icmp_getMaxPayloadLength_def getMaxPayloadLength_def)
  qed
  moreover have "unat (of_nat room - of_nat 34 :: u32) = room - 34" using unat_minus_of_nat_u32 [of 34 "of_nat room"] r assms(3) by simp
  then have "(of_nat room - of_nat 34 :: u32) = of_nat (room - 34)" using assms(3) by (simp add: of_nat_diff)
  then have "unat (ucast (of_nat room - of_nat 34 :: u32) :: u16) = room - 34" using assms(4) unat_of_nat_u16 [of "room - 34"] by (simp only: ucast_of_nat_u16)
  ultimately show ?thesis by (simp add: answered_length_def)
qed

text \<open>C37: A reply is cut although there is room for it. When every big block is still held by buffers that the driver has sent
  long ago, the largest free block is a small one, and \<open>getMaxPayloadLength\<close> shortens the reply to it; the request for
  the buffer then frees all the big blocks and takes one of them. The frame has the size of a small block, and the host that
  asked gets back less than it sent.\<close>

theorem echo_reply_truncated:
  assumes request: "ipv4_frame_receive reassemble (interfaces (ho_router (en_host E)) ! i) mem framelen = Some (Inr (Delivered packet len))"
      "v4_get_protocol packet = IPV4_TYPE_ICMP" "unat (v4_get_total_len packet) = 4 * unat (v4_get_ihl packet) + n" "8 \<le> n"
      "ICMP_checksum_valid 0 (icmp_memory packet) (of_nat n) = Inr True" "n \<le> length (icmp_memory packet)"
      "icmp_get_type (icmp_memory packet) = ICMP_TYPE_ECHO_REQUEST" "icmp_get_code (icmp_memory packet) = ICMP_CODE_ECHO"
    and st1: "st1 = icmp_set_destination E packet (st\<lparr>mDirectResponse := False\<rparr>)"
    and S: "v4s_interface (ic_ipv4 st1) = Some j" "ho_ethernet (en_host E) j" "length (ho_address (en_host E) j) = 6"
      "resolved_by_arp (v4s_get_nexthop_ipaddr (ho_router (en_host E)) (ic_ipv4 st1))"
      "ipv4_lookup (en_ticks E) (v4s_dst_addr (ic_ipv4 st1)) (host_interface (en_host E) i) (en_lookup E) (ic_arp st1) = Some (Some mac, out, arp')"
      "length mac = 6"
    and blocks: "shm_idle (en_pool E) (ic_heap st) (ic_shared st)" "en_sent E = (\<lambda>_. True)" "\<not> smp_hasSpace (mempool_big (shm_pool (ic_shared st)))"
      "smp_hasSpace (mempool_small (shm_pool (ic_shared st)))" "0 < count_big (en_pool E)"
    and sizes: "42 \<le> size_small (en_pool E)" "size_small (en_pool E) < 34 + n" "size_small (en_pool E) < unat (en_mtu E j)"
      "34 + n + en_szsb E \<le> size_big (en_pool E)" "34 + n + en_szsb E < 2 ^ 32"
  shows "\<exists>st' frame. icmp_input E reassemble i mem framelen st = Some (Inr (st', out @ [frame])) \<and> length frame = size_small (en_pool E) \<and>
    length frame < 34 + n"
proof -
  let ?c = "en_pool E" let ?d = "size_small ?c - 42"
  have keep: "ic_heap st1 = ic_heap st" "ic_shared st1 = ic_shared st" using st1 by simp_all
  have n: "n < 65536" by (rule icmp_input_demux(2) [OF request(1-5)])
  have small: "size_small ?c < 65570" using sizes(2) n by simp
  have len: "answered_length E st1 n = 8 + ?d"
    using answered_length_value [OF S(1,2), of "size_small ?c" n] sizes(1-3) small blocks(3,4) keep
    by (simp add: getMaxFreeBlockSize_def)
  obtain sm1 a m where f: "freeAllUnused (en_szsb E) ?c (en_sent E) (ic_heap st1) (ic_shared st1) = Inr sm1" "mp_alloc ?c (42 + ?d + en_szsb E) (shm_pool sm1) = (Some a, m)"
    by (rule idle_frees_all [OF blocks(1,5), of "42 + ?d + en_szsb E" "en_szsb E"]) (use sizes keep blocks(2) in simp_all)
  have "42 + ?d + en_szsb E < 2 ^ 32" using sizes by simp
  from echo_request_answered [OF request st1 len S f this]
  show ?thesis using sizes(1,2) by fastforce
qed

text \<open>C38: One request stops a host that has no route to its sender, for instance one without a gateway that gets a request with
  a forged address: the interface of the route is a null pointer, which is followed when the buffer for the reply is
  requested.\<close>

theorem unroutable_echo_crashes:
  assumes request: "ipv4_frame_receive reassemble (interfaces (ho_router (en_host E)) ! i) mem framelen = Some (Inr (Delivered packet len))"
      "v4_get_protocol packet = IPV4_TYPE_ICMP" "unat (v4_get_total_len packet) = 4 * unat (v4_get_ihl packet) + n" "8 \<le> n"
      "ICMP_checksum_valid 0 (icmp_memory packet) (of_nat n) = Inr True"
      "icmp_get_type (icmp_memory packet) = ICMP_TYPE_ECHO_REQUEST" "icmp_get_code (icmp_memory packet) = ICMP_CODE_ECHO"
    and route: "ipv4_find_route (ho_router (en_host E)) (v4_get_src_ipaddr packet) = None"
      "ipv4_find_route (ho_router (en_host E)) (ipv4_gateway_addr (ho_router (en_host E))) = None"
  shows "icmp_input E reassemble i mem framelen st = Some (Inl NullDeref)"
proof -
  let ?st = "icmp_set_destination E packet (st\<lparr>mDirectResponse := False\<rparr>)"
  have i: "v4s_interface (ic_ipv4 ?st) = None"
    using route by (simp add: icmp_set_destination_def v4s_set_dst_addr_def v4s_resolveRoute_def Let_def)
  have "icmp_respond E i k t c q p l ?st = Some (Inl NullDeref)" for k t c q p l
    using i by (simp add: icmp_respond_def icmp_requestSendBuffer_def estimateSendBufferMinSize_def)
  then show ?thesis
    using request(6,7) i unfolding icmp_input_demux(1) [OF request(1-5)] icmp_echo_reply_def Let_def
    by (simp add: icmp_getMaxPayloadLength_def)
qed

subsection \<open>Witnesses\<close>

text \<open>An echo request with two bytes of data from 10.0.0.2 or another address, and the packet in it.\<close>

definition witness_request :: "u8 list \<Rightarrow> u8 list" where
  "witness_request header = [2, 0, 0, 0, 0, 1, 2, 0, 0, 0, 0, 2, 8, 0] @ header @ [10, 0, 0, 1, 8, 0, 57, 253, 18, 52, 0, 1, 171, 205]"

definition witness_echo_packet :: "u16 \<Rightarrow> u32 \<Rightarrow> IPv4_Packet" where
  "witness_echo_packet c src = \<lparr>v4_ihl = 5, v4_version = 4, v4_tos = 0, v4_total_len = 0x1E00, v4_id = 0x0700, v4_flags_offset = 0, v4_ttl = 64,
     v4_protocol = 1, v4_hdr_checksum = c, v4_src = src, v4_dst = 0x0100000A, v4_data = [8, 0, 57, 253, 18, 52, 0, 1, 171, 205]\<rparr>"

definition witness_environment :: "pool_config \<Rightarrow> environment" where
  "witness_environment c = \<lparr>en_host = witness_host, en_szsb = 8, en_pool = c, en_raw = \<lambda>_. 0, en_junk = witness_buffer, en_sent = \<lambda>_. True,
     en_ticks = ucast, en_lookup = [], en_mtu = \<lambda>_. 1500\<rparr>"

definition witness_icmp_host :: "sb_heap \<Rightarrow> shared_memory \<Rightarrow> icmp_host" where
  "witness_icmp_host h sm = \<lparr>ic_ipv4 = witness_route False 0, ic_arp = ipv4_update 0x0200000A [2, 0, 0, 0, 0, 2] empty_cache, ic_shared = sm,
     ic_heap = h, mDirectResponse = False\<rparr>"

lemma witness_received:
  "ipv4_frame_receive (\<lambda>_ _ _. None) (interfaces (ho_router witness_host) ! 0)
     (witness_request [69, 0, 0, 30, 0, 7, 0, 0, 64, 1, 102, 214, 10, 0, 0, 2]) 44 = Some (Inr (Delivered (witness_echo_packet 0xD666 0x0200000A) 30))"
  "ipv4_frame_receive (\<lambda>_ _ _. None) (interfaces (ho_router witness_host) ! 0)
     (witness_request [69, 0, 0, 30, 0, 7, 0, 0, 64, 1, 96, 200, 8, 8, 8, 8]) 44 = Some (Inr (Delivered (witness_echo_packet 0xC860 0x08080808) 30))"
  by code_simp+

lemma witness_message:
  "v4_get_protocol (witness_echo_packet c src) = IPV4_TYPE_ICMP"
  "unat (v4_get_total_len (witness_echo_packet c src)) = 4 * unat (v4_get_ihl (witness_echo_packet c src)) + 10"
  "icmp_memory (witness_echo_packet c src) = [8, 0, 57, 253, 18, 52, 0, 1, 171, 205]" "v4_get_src_ipaddr (witness_echo_packet c src) = src"
  by (simp_all add: witness_echo_packet_def ipv4_fields IPV4_TYPE_ICMP_def ntohs_def htons_def)
     (simp add: icmp_memory_def packet_memory_def v4_header_bytes_def v4_get_data_def v4_get_ihl_def store16_def store32_def)

lemma witness_message_valid:
  "ICMP_checksum_valid 0 [8, 0, 57, 253, 18, 52, 0, 1, 171, 205] (of_nat 10) = Inr True"
  "icmp_get_type [8, 0, 57, 253, 18, 52, 0, 1, 171, 205] = ICMP_TYPE_ECHO_REQUEST" "icmp_get_code [8, 0, 57, 253, 18, 52, 0, 1, 171, 205] = ICMP_CODE_ECHO"
  by code_simp+

lemma witness_environment_simps [simp]:
  "en_host (witness_environment c) = witness_host" "en_szsb (witness_environment c) = 8" "en_pool (witness_environment c) = c"
  "en_sent (witness_environment c) = (\<lambda>_. True)" "en_ticks (witness_environment c) = ucast" "en_lookup (witness_environment c) = []"
  "en_mtu (witness_environment c) = (\<lambda>_. 1500)" "ic_shared (witness_icmp_host h sm) = sm" "ic_heap (witness_icmp_host h sm) = h"
  by (simp_all add: witness_environment_def witness_icmp_host_def)

lemma witness_destination:
  fixes c :: pool_config and h :: sb_heap and sm :: shared_memory and q :: u16
  defines "st1 \<equiv> icmp_set_destination (witness_environment c) (witness_echo_packet q 0x0200000A) (witness_icmp_host h sm\<lparr>mDirectResponse := False\<rparr>)"
  shows "v4s_interface (ic_ipv4 st1) = Some 0" and "resolved_by_arp (v4s_get_nexthop_ipaddr (ho_router witness_host) (ic_ipv4 st1))"
    and "ipv4_lookup ucast (v4s_dst_addr (ic_ipv4 st1)) (host_interface witness_host 0) [] (ic_arp st1) = Some (Some [2, 0, 0, 0, 0, 2], [], ic_arp st1)"
proof -
  have r: "ipv4_find_route (ho_router witness_host) 0x0200000A = Some 0" by code_simp
  have ip: "ic_ipv4 st1 = \<lparr>v4s_interface = Some 0, v4s_using_gateway = False, v4s_dst_addr = 0x0200000A, v4s_id = 7\<rparr>"
    unfolding st1_def icmp_set_destination_def witness_message witness_environment_simps
    by (simp add: v4s_set_dst_addr_def v4s_resolveRoute_def Let_def r witness_icmp_host_def witness_route_def)
  show "v4s_interface (ic_ipv4 st1) = Some 0" by (simp add: ip)
  have "resolved_by_arp 0x0200000A" by code_simp
  then show "resolved_by_arp (v4s_get_nexthop_ipaddr (ho_router witness_host) (ic_ipv4 st1))" by (simp add: ip v4s_get_nexthop_ipaddr_def)
  have a: "ic_arp st1 = ipv4_update 0x0200000A [2, 0, 0, 0, 0, 2] empty_cache" by (simp add: st1_def witness_icmp_host_def)
  show "ipv4_lookup ucast (v4s_dst_addr (ic_ipv4 st1)) (host_interface witness_host 0) [] (ic_arp st1) = Some (Some [2, 0, 0, 0, 0, 2], [], ic_arp st1)"
    unfolding a using known_address [of "0x0200000A" "[2, 0, 0, 0, 0, 2]"]
    by (simp add: ip ipv4_lookup_def) (simp add: ipv4_update_def empty_cache_def)
qed

lemma witness_pool_inv:
  assumes "0 < b1" and "0 < b2"
  shows "basic.owns (BasicMempool_config b1 1 b2 1) (BasicMempool (BasicMempool_config b1 1 b2 1) 0 (b1 + b2)) []"
  by (rule initial_owns [OF refl refl assms])
     (simp add: BasicMempool_config_def COUNT_BIG_def SIZE_BIG_def)

theorem echo_request_answered_witness:
  "\<exists>st' frame. icmp_input (witness_environment (BasicMempool_config 64 1 4 1)) (\<lambda>_ _ _. None) 0
      (witness_request [69, 0, 0, 30, 0, 7, 0, 0, 64, 1, 102, 214, 10, 0, 0, 2]) 44
      (witness_icmp_host Map.empty (SharedMemory (BasicMempool_config 64 1 4 1) (BasicMempool (BasicMempool_config 64 1 4 1) 0 68))) =
      Some (Inr (st', [frame])) \<and> length frame = 44 \<and> take 6 frame = [2, 0, 0, 0, 0, 2]"
proof -
  let ?c = "BasicMempool_config 64 1 4 1" let ?m = "BasicMempool ?c 0 68" let ?E = "witness_environment ?c"
  let ?st = "witness_icmp_host Map.empty (SharedMemory ?c ?m)"
  let ?st1 = "icmp_set_destination ?E (witness_echo_packet 0xD666 0x0200000A) (?st\<lparr>mDirectResponse := False\<rparr>)"
  have own: "basic.owns ?c ?m []" using witness_pool_inv [of 64 4] by simp
  have idle: "shm_idle ?c (ic_heap ?st) (ic_shared ?st)"
    using own by (simp add: shm_idle_def shm_inv_def SharedMemory_def in_set_replicate)
  have c: "0 < count_big ?c" "52 \<le> size_big ?c" by (simp_all add: BasicMempool_config_def COUNT_BIG_def SIZE_BIG_def)
  obtain sm1 a m' where f: "freeAllUnused 8 ?c (\<lambda>_. True) (ic_heap ?st) (ic_shared ?st) = Inr sm1" "mp_alloc ?c 52 (shm_pool sm1) = (Some a, m')"
    by (rule idle_frees_all [OF idle c])
  have "getMaxFreeBlockSize ?c ?m = 64"
    by (simp add: getMaxFreeBlockSize_def smp_hasSpace_def BasicMempool_def SingleMempool_def BasicMempool_config_def COUNT_BIG_def SIZE_BIG_def)
  then have len: "answered_length ?E ?st1 10 = 8 + 2"
    using answered_length_value [of ?st1 0 ?E 64 10] witness_destination(1) [where c = ?c and h = Map.empty and sm = "SharedMemory ?c ?m" and q = "0xD666"]
    by (simp add: SharedMemory_def witness_host_def)
  show ?thesis
    using echo_request_answered [where E = ?E and st = ?st and i = 0 and j = 0 and n = 10 and d = 2 and packet = "witness_echo_packet 0xD666 0x0200000A" and len = 30
        and reassemble = "\<lambda>_ _ _. None" and framelen = 44 and mem = "witness_request [69, 0, 0, 30, 0, 7, 0, 0, 64, 1, 102, 214, 10, 0, 0, 2]"
        and mac = "[2, 0, 0, 0, 0, 2]" and out = "[]" and a = a and m' = m' and sh = sm1, OF _ _ _ _ _ _ _ _ refl len]
      witness_received(1) witness_message witness_message_valid f
      witness_destination [where c = ?c and h = Map.empty and sm = "SharedMemory ?c ?m" and q = "0xD666"]
    by (simp add: witness_route_simps) blast
qed

theorem icmp_memory_recovers_witness:
  "\<exists>b h' sm'. shm_createInstance 8 (BasicMempool_config 64 1 4 1) (\<lambda>_. 0) (\<lambda>_. True) 44 None Map.empty
      (SharedMemory (BasicMempool_config 64 1 4 1) (BasicMempool (BasicMempool_config 64 1 4 1) 0 68)) = Inr (Some b, h', sm') \<and>
    slot_ptrs (allocatedMemories sm') = [sb_addr b]"
proof -
  let ?c = "BasicMempool_config 64 1 4 1" let ?m = "BasicMempool ?c 0 68"
  have r: "icmp_reach 8 ?c ?m (witness_icmp_host Map.empty (SharedMemory ?c ?m))" by (rule icmp_reach.start) simp
  have c: "0 + count_big ?c * size_big ?c \<le> 68" "0 < count_big ?c" "unat ((44 :: u32) + of_nat 8) \<le> size_big ?c"
    by (simp_all add: BasicMempool_config_def COUNT_BIG_def SIZE_BIG_def)
  show ?thesis using icmp_memory_recovers [OF r refl refl _ _ c, of "\<lambda>_. 0" None] by auto
qed

theorem echo_reply_truncated_witness:
  "\<exists>h sm st' frame. icmp_input (witness_environment (BasicMempool_config 100 1 42 1)) (\<lambda>_ _ _. None) 0
      (witness_request [69, 0, 0, 30, 0, 7, 0, 0, 64, 1, 102, 214, 10, 0, 0, 2]) 44 (witness_icmp_host h sm) =
      Some (Inr (st', [frame])) \<and> length frame = 42"
proof -
  let ?c = "BasicMempool_config 100 1 42 1" let ?m = "BasicMempool ?c 0 142" let ?E = "witness_environment ?c"
  have own: "basic.owns ?c ?m []" using witness_pool_inv [of 100 42] by simp
  obtain m1 where m1: "mp_alloc ?c 52 ?m = (Some 0, m1)" "\<not> smp_hasSpace (mempool_big m1)" "smp_hasSpace (mempool_small m1)"
    by (simp add: mp_alloc_def mp_alloc_big_def BasicMempool_def SingleMempool_def smp_alloc_def smp_hasSpace_def
        BasicMempool_config_def COUNT_BIG_def SIZE_BIG_def SIZE_SMALL_def COUNT_SMALL_def)
  let ?b = "\<lparr>sb_addr = 0, m_memsize = 44, m_state = TransmittedState, m_interface = Some 0, sb_data = 0, sb_mem = []\<rparr>"
  let ?h = "[0 \<mapsto> ?b] :: sb_heap" and ?sm = "\<lparr>shm_pool = m1, allocatedMemories = [Some 0, None]\<rparr>"
  let ?st = "witness_icmp_host ?h ?sm"
  have c: "0 < count_big ?c" "size_small ?c = 42" "size_big ?c = 100" "SLOTS ?c = 2"
    by (simp_all add: BasicMempool_config_def COUNT_BIG_def SIZE_BIG_def SIZE_SMALL_def COUNT_SMALL_def SLOTS_def)
  have idle: "shm_idle ?c ?h ?sm"
    using basic.owns_alloc [OF own m1(1)] c(4) by (simp add: shm_idle_def shm_inv_def finished_def)
  show ?thesis
    using echo_reply_truncated [where E = ?E and st = ?st and i = 0 and j = 0 and n = 10 and packet = "witness_echo_packet 0xD666 0x0200000A" and len = 30
        and reassemble = "\<lambda>_ _ _. None" and framelen = 44 and mem = "witness_request [69, 0, 0, 30, 0, 7, 0, 0, 64, 1, 102, 214, 10, 0, 0, 2]"
        and mac = "[2, 0, 0, 0, 0, 2]" and out = "[]", OF _ _ _ _ _ _ _ _ refl]
      witness_received(1) witness_message witness_message_valid m1(2,3) idle c
      witness_destination [where c = ?c and h = ?h and sm = ?sm and q = "0xD666"]
    by (simp add: witness_route_simps) blast
qed

theorem unroutable_echo_crashes_witness:
  "icmp_input (witness_environment (BasicMempool_config 64 1 4 1)\<lparr>en_host := witness_host\<lparr>ho_router := (ho_router witness_host)\<lparr>ipv4_gateway_addr := 0\<rparr>\<rparr>\<rparr>)
     (\<lambda>_ _ _. None) 0 (witness_request [69, 0, 0, 30, 0, 7, 0, 0, 64, 1, 96, 200, 8, 8, 8, 8]) 44
     (witness_icmp_host Map.empty (SharedMemory (BasicMempool_config 64 1 4 1) (BasicMempool (BasicMempool_config 64 1 4 1) 0 68))) = Some (Inl NullDeref)"
proof -
  let ?R = "(ho_router witness_host)\<lparr>ipv4_gateway_addr := 0\<rparr>"
  have r: "ipv4_find_route ?R 0x08080808 = None" "ipv4_find_route ?R 0 = None" by code_simp+
  show ?thesis
    by (rule unroutable_echo_crashes [where packet = "witness_echo_packet 0xC860 0x08080808" and n = 10 and len = 30])
       (use witness_received(2) witness_message witness_message_valid r in simp_all)
qed

end
