(* ===== verification/NDP_Cache.thy ===== *)
theory NDP_Cache
  imports IPv6_Messages
begin

text \<open>
  The neighbour cache of an interface: \<^verbatim>\<open>ipv6/ndpcache/NDPCache_Interface_Slice.ah\<close>, the strategy that lets entries expire
  (\<^verbatim>\<open>ipv6/ndpcache_expire\<close>), and address resolution over Ethernet (\<^verbatim>\<open>icmpv6/ndp\<close>, \<^verbatim>\<open>icmpv6/ndp_addr_resolve\<close>,
  \<^verbatim>\<open>ipv6/ethernet/Cache_Incoming_NDPCache.ah\<close>, \<^verbatim>\<open>ipv6/ethernet/NDPCache_BlockingLookup.ah\<close>). The entries lie in the
  memory of the interface, beside its addresses; an entry is the position of its first byte. Where the members that other
  slices add to an entry lie is an argument, and so is whether entries expire.
\<close>

subsection \<open>Entries\<close>

text \<open>The hardware address and the importance, as offsets from the start of an entry.\<close>

record ndp_config =
  hw_at :: nat
  expire_at :: nat
  ndp_expires :: bool

definition ndp_config_ok :: "memory_config \<Rightarrow> ndp_config \<Rightarrow> bool" where
  "ndp_config_ok C L \<longleftrightarrow> 19 \<le> hw_at L \<and> 19 \<le> expire_at L \<and> hw_at L + 6 \<le> entry_size C \<and> expire_at L < entry_size C \<and>
     (expire_at L < hw_at L \<or> hw_at L + 6 \<le> expire_at L)"

definition state_code :: "NDP_state \<Rightarrow> u8" where
  "state_code s = (case s of NDPCacheEntryState_Incomplete \<Rightarrow> 0 | NDPCacheEntryState_Stale \<Rightarrow> 1 | NDPCacheEntryState_Delay \<Rightarrow> 2
     | NDPCacheEntryState_Probe \<Rightarrow> 3 | NDPCacheEntryState_Reachable \<Rightarrow> 4)"

definition put_flag :: "nat \<Rightarrow> bool \<Rightarrow> u8 \<Rightarrow> u8" where
  "put_flag n b w = (if b then w OR push_bit n 1 else w AND NOT (push_bit n 1))"

definition ndp_hw :: "ndp_config \<Rightarrow> memory \<Rightarrow> nat \<Rightarrow> u8 list" where "ndp_hw L m p = take 6 (drop (p + hw_at L) m)"
definition expire_value :: "ndp_config \<Rightarrow> memory \<Rightarrow> nat \<Rightarrow> u8" where "expire_value L m p = m ! (p + expire_at L)"

definition set_ndp_ipv6 :: "nat \<Rightarrow> ipv6addr \<Rightarrow> memory \<Rightarrow> memory" where
  "set_ndp_ipv6 p addr m = put_bytes (p + 1) (take 16 (ipaddrB8 addr)) m"
definition set_ndp_hw :: "ndp_config \<Rightarrow> nat \<Rightarrow> u8 list \<Rightarrow> memory \<Rightarrow> memory" where
  "set_ndp_hw L p hw m = put_bytes (p + hw_at L) (take 6 hw) m"
definition set_ndp_state :: "nat \<Rightarrow> NDP_state \<Rightarrow> memory \<Rightarrow> memory" where "set_ndp_state p s m = m[p + 17 := state_code s]"
definition set_isRouter :: "nat \<Rightarrow> bool \<Rightarrow> memory \<Rightarrow> memory" where "set_isRouter p b m = m[p + 18 := put_flag 0 b (m ! (p + 18))]"
definition set_isRouting :: "nat \<Rightarrow> bool \<Rightarrow> memory \<Rightarrow> memory" where "set_isRouting p b m = m[p + 18 := put_flag 1 b (m ! (p + 18))]"
definition set_expire_value :: "ndp_config \<Rightarrow> nat \<Rightarrow> u8 \<Rightarrow> memory \<Rightarrow> memory" where "set_expire_value L p v m = m[p + expire_at L := v]"

text \<open>The loop \<^verbatim>\<open>while (entry = findEntry<type>(&nextEntry))\<close> whose body may change the memory and has a result besides; at the
  end \<open>nextEntry\<close> is where the last search began.\<close>

function for_entries :: "memory_config \<Rightarrow> u8 \<Rightarrow> (nat \<Rightarrow> 's \<times> memory \<Rightarrow> 's \<times> memory) \<Rightarrow> nat \<Rightarrow> 's \<times> memory \<Rightarrow> nat \<times> 's \<times> memory" where
  "for_entries C type body nextEntry st =
     (case findEntry C nextEntry type (snd st) of
        None \<Rightarrow> (nextEntry, st)
      | Some (p, nextEntry) \<Rightarrow> for_entries C type body nextEntry (body p st))"
  by pat_completeness auto
termination
proof (relation "measure (\<lambda>(C, type, body, nextEntry, st). cache_entries C - nextEntry)", simp)
  fix C :: memory_config and type :: u8 and body :: "nat \<Rightarrow> 's \<times> memory \<Rightarrow> 's \<times> memory" and nextEntry :: nat and st :: "'s \<times> memory"
    and x p nx
  assume "findEntry C nextEntry type (snd st) = Some x" and "(p, nx) = x"
  then have "find_slot C (cache_entries C - nextEntry) nextEntry type (snd st) = Some (p, nx)" by (simp add: findEntry_def)
  from find_slot_next [OF this]
  show "((C, type, body, nx, body p st), (C, type, body, nextEntry, st)) \<in> measure (\<lambda>(C, type, body, nextEntry, st). cache_entries C - nextEntry)"
    by auto
qed

declare for_entries.simps [simp del]

subsection \<open>The cache\<close>

definition ndpcache_findRouter :: "memory_config \<Rightarrow> memory \<Rightarrow> nat option" where
  "ndpcache_findRouter C m = find (\<lambda>p. ndp_isRouting m p) (visited_entries C 0 NDPCacheEntry_ID m)"

definition ndpcache_find :: "memory_config \<Rightarrow> ipv6addr \<Rightarrow> memory \<Rightarrow> nat option" where
  "ndpcache_find C addr m = find (\<lambda>p. compare_ipv6_addr addr (entry_ipv6 m p)) (visited_entries C 0 NDPCacheEntry_ID m)"

definition free_prefixes :: "memory_config \<Rightarrow> u8 \<Rightarrow> memory \<Rightarrow> memory" where
  "free_prefixes C pos m =
     snd (snd (for_entries C AddressEntry_ID
       (\<lambda>a (u, m). (u, if entry_routerEntryPosition m a = pos then freeEntry a m else m)) 0 ((), m)))"

definition freeNDPCacheEntry :: "memory_config \<Rightarrow> nat \<Rightarrow> memory \<Rightarrow> memory" where
  "freeNDPCacheEntry C p m =
     (let pos = getPosition C p in
      if pos = EntryUndefined then m
      else freeEntry p (if ndp_isRouter m p then free_prefixes C pos m else m))"

subsection \<open>Expiry\<close>

definition NDPCACHE_EXPIRE_RATE_PER_MINUTE :: u8 where "NDPCACHE_EXPIRE_RATE_PER_MINUTE = 2 * 3"
definition NDPCACHE_TRESHOLD_REQUIRE_SOLICITATION :: u8 where "NDPCACHE_TRESHOLD_REQUIRE_SOLICITATION = NDPCACHE_EXPIRE_RATE_PER_MINUTE * 3"
definition IMPORTANCE_good_to_know :: u8 where "IMPORTANCE_good_to_know = 50"
definition IMPORTANCE_solicitation_renew :: u8 where "IMPORTANCE_solicitation_renew = 70"
definition IMPORTANCE_router :: u8 where "IMPORTANCE_router = 100"
definition IMPORTANCE_always_keep :: u8 where "IMPORTANCE_always_keep = 255"

lemmas importance_defs = NDPCACHE_EXPIRE_RATE_PER_MINUTE_def NDPCACHE_TRESHOLD_REQUIRE_SOLICITATION_def IMPORTANCE_good_to_know_def
  IMPORTANCE_solicitation_renew_def IMPORTANCE_router_def IMPORTANCE_always_keep_def

definition suspect_unreachable :: "memory_config \<Rightarrow> ndp_config \<Rightarrow> ipv6addr \<Rightarrow> memory \<Rightarrow> memory" where
  "suspect_unreachable C L addr m =
     (case ndpcache_find C addr m of
        None \<Rightarrow> m
      | Some p \<Rightarrow> set_ndp_state p NDPCacheEntryState_Stale (set_expire_value L p 0 m))"

definition ipv6_router_entry_refresh :: "ndp_config \<Rightarrow> nat \<Rightarrow> memory \<Rightarrow> memory" where
  "ipv6_router_entry_refresh L p m = set_expire_value L p IMPORTANCE_router m"

definition ipv6_nonrouter_entry_refresh :: "ndp_config \<Rightarrow> nat \<Rightarrow> memory \<Rightarrow> memory" where
  "ipv6_nonrouter_entry_refresh L p m = set_expire_value L p IMPORTANCE_good_to_know m"

definition ipv6_useentry :: "ndp_config \<Rightarrow> nat \<Rightarrow> memory \<Rightarrow> memory" where
  "ipv6_useentry L p m =
     (if expire_value L m p < NDPCACHE_TRESHOLD_REQUIRE_SOLICITATION
      then if expire_value L m p = 1 then m
           else let m = set_expire_value L p 1 m in
             if ndp_isRouter m p then ipv6_router_entry_refresh L p m else ipv6_nonrouter_entry_refresh L p m
      else if expire_value L m p AND 1 \<noteq> 0
      then set_expire_value L p (expire_value L m p + (NDPCACHE_EXPIRE_RATE_PER_MINUTE - 1)) m
      else m)"

definition releaseOldEntries :: "memory_config \<Rightarrow> ndp_config \<Rightarrow> memory \<Rightarrow> u8 \<times> memory" where
  "releaseOldEntries C L m =
     snd (for_entries C NDPCacheEntry_ID
       (\<lambda>p (releasedEntries, m).
          if expire_value L m p < NDPCACHE_EXPIRE_RATE_PER_MINUTE then (releasedEntries + 1, freeNDPCacheEntry C p m)
          else if expire_value L m p \<noteq> 255
          then (releasedEntries, set_expire_value L p ((expire_value L m p - NDPCACHE_EXPIRE_RATE_PER_MINUTE) OR 1) m)
          else (releasedEntries, m)) 0 (0, m))"

definition releaseEntryBelowImportance :: "memory_config \<Rightarrow> ndp_config \<Rightarrow> u8 \<Rightarrow> memory \<Rightarrow> memory" where
  "releaseEntryBelowImportance C L importance_below_value m =
     (case fold (\<lambda>p (below, oldest).
             if expire_value L m p \<noteq> 255 \<and> expire_value L m p < below then (expire_value L m p, Some p) else (below, oldest))
           (visited_entries C 0 NDPCacheEntry_ID m) (importance_below_value, None) of
        (_, None) \<Rightarrow> m
      | (_, Some p) \<Rightarrow> freeNDPCacheEntry C p m)"

definition update_NDPCacheEntry_importance :: "ndp_config \<Rightarrow> nat \<Rightarrow> u8 \<Rightarrow> memory \<Rightarrow> memory" where
  "update_NDPCacheEntry_importance L p importance_level m = set_expire_value L p (expire_value L m p OR importance_level) m"

subsection \<open>Adding entries\<close>

definition dropUnused :: "memory_config \<Rightarrow> ndp_config \<Rightarrow> memory \<Rightarrow> memory" where
  "dropUnused C L m = (if ndp_expires L then releaseEntryBelowImportance C L IMPORTANCE_good_to_know m else m)"

definition entryConfirmed :: "ndp_config \<Rightarrow> nat \<Rightarrow> memory \<Rightarrow> memory" where
  "entryConfirmed L p m =
     (if \<not> ndp_expires L then m
      else if ndp_isRouter m p then update_NDPCacheEntry_importance L p IMPORTANCE_router m
      else update_NDPCacheEntry_importance L p IMPORTANCE_solicitation_renew m)"

definition reserveNDPCacheEntry :: "ndp_config \<Rightarrow> nat \<Rightarrow> memory \<Rightarrow> memory" where
  "reserveNDPCacheEntry L p m =
     (let m = (if ndp_expires L
               then set_expire_value L p (NDPCACHE_TRESHOLD_REQUIRE_SOLICITATION + NDPCACHE_EXPIRE_RATE_PER_MINUTE) m else m)
      in ndp_reserve p (m[p + 18 := 0]))"

definition addNDPCacheEntry ::
    "memory_config \<Rightarrow> ndp_config \<Rightarrow> ipv6addr \<Rightarrow> u8 list option \<Rightarrow> NDP_state \<Rightarrow> memory \<Rightarrow> nat option \<times> memory" where
  "addNDPCacheEntry C L addr hwaddr st m =
     (case ndpcache_find C addr m of
        Some p \<Rightarrow> (Some p, set_ndp_state p st m)
      | None \<Rightarrow>
        let m = (if findEntry C 0 FreeEntry_ID m = None then dropUnused C L m else m) in
        case findEntry C 0 FreeEntry_ID m of
          None \<Rightarrow> (None, m)
        | Some (p, _) \<Rightarrow>
          let m = set_ndp_ipv6 p addr m;
              m = (case hwaddr of None \<Rightarrow> m | Some hw \<Rightarrow> set_ndp_hw L p hw m);
              m = set_ndp_state p st m
          in (Some p, reserveNDPCacheEntry L p m))"

subsection \<open>Address resolution\<close>

definition getInterfaceIPv6AddressByScope :: "memory_config \<Rightarrow> IPv6_ADDRESS_SCOPE \<Rightarrow> memory \<Rightarrow> ipv6addr option" where
  "getInterfaceIPv6AddressByScope C scope m =
     map_option (entry_ipv6 m) (find (\<lambda>p. getIPv6AddressScope (entry_ipv6 m p) = scope) (visited_entries C 0 AddressEntry_ID m))"

text \<open>A neighbour message that the stack wants to send: source, destination, and the address it is about.\<close>

record ndp_message =
  nm_src :: ipv6addr
  nm_dst :: ipv6addr
  nm_target :: ipv6addr

definition unset_address :: ipv6addr where "unset_address = \<lparr>ipaddrB8 = replicate 16 0\<rparr>"

text \<open>The advice after every \<open>addNDPCacheEntry\<close>.\<close>

definition address_resolution_request :: "memory_config \<Rightarrow> bool \<Rightarrow> nat option \<Rightarrow> memory \<Rightarrow> ndp_message option" where
  "address_resolution_request C up entry m =
     (if \<not> up then None
      else case entry of
        None \<Rightarrow> None
      | Some p \<Rightarrow>
        if ndp_state m p = state_code NDPCacheEntryState_Reachable then None
        else map_option (\<lambda>src.
            \<lparr>nm_src = src,
             nm_dst = (if ndp_state m p \<noteq> state_code NDPCacheEntryState_Stale
                       then solicitedNode_multicast_addr (entry_ipv6 m p) unset_address else entry_ipv6 m p),
             nm_target = entry_ipv6 m p\<rparr>)
          (getInterfaceIPv6AddressByScope C IPV6_SCOPE_LINKLOCAL m))"

definition message_target :: "u8 list \<Rightarrow> ipv6addr" where "message_target message = \<lparr>ipaddrB8 = take 16 (drop 8 message)\<rparr>"

text \<open>The structures of both neighbour messages have 24 bytes before their options.\<close>

definition update_from_advertisement :: "memory_config \<Rightarrow> ndp_config \<Rightarrow> u8 list \<Rightarrow> u32 \<Rightarrow> memory \<Rightarrow> memory outcome" where
  "update_from_advertisement C L message payloadlen m =
     (case ndpcache_find C (message_target message) m of
        None \<Rightarrow> Inr m
      | Some p \<Rightarrow>
        let m = entryConfirmed L p (set_isRouter p (na_isRouter message) m) in
        obind (get_option_linklayer_address TargetLinkLayer message 24 payloadlen) (\<lambda>mac.
          case mac of
            None \<Rightarrow> Inr m
          | Some hw \<Rightarrow>
            if na_isOverride message \<or> ndp_state m p \<noteq> state_code NDPCacheEntryState_Reachable
            then Inr (set_ndp_state p NDPCacheEntryState_Reachable (set_ndp_hw L p hw m)) else Inr m))"

definition neighbor_advertisement_receive :: "memory_config \<Rightarrow> ndp_config \<Rightarrow> u8 list \<Rightarrow> u32 \<Rightarrow> v6_interface \<Rightarrow> memory outcome" where
  "neighbor_advertisement_receive C L message payloadlen ifc =
     (let m = if_addressmemory ifc in
      if get8 0 message = 136 \<and> get8 1 message = 0
      then if payloadlen < 24 then Inr m
           else if \<not> hasIPv6Address C (message_target message) ifc then Inr m
           else update_from_advertisement C L message (payloadlen - 24) m
      else Inr m)"

text \<open>The answer to a solicitation: \<open>buf\<close> is what the buffer held.\<close>

definition na_message :: "ipv6addr \<Rightarrow> u8 list \<Rightarrow> u8 \<Rightarrow> u8 list \<Rightarrow> u8 list outcome" where
  "na_message target address addressSize buf =
     obind (poke 0 136 buf) (\<lambda>buf. obind (poke 1 0 buf) (\<lambda>buf. obind (poke 5 0 buf) (\<lambda>buf.
     obind (poke_all 6 [0, 0] buf) (\<lambda>buf. obind (poke 4 0 buf) (\<lambda>buf.
     let buf = na_setOverride True (na_setResponse True (na_setRouter False buf)) in
     obind (poke_all 8 (take 16 (ipaddrB8 target)) buf) (\<lambda>buf.
     write_option_linklayer_address TargetLinkLayer 24 address addressSize buf))))))"

definition address_resolution_response :: "ipv6addr \<Rightarrow> u8 list \<Rightarrow> ndp_message" where
  "address_resolution_response src message = \<lparr>nm_src = message_target message, nm_dst = src, nm_target = message_target message\<rparr>"

definition update_from_solicitation ::
    "memory_config \<Rightarrow> ndp_config \<Rightarrow> bool \<Rightarrow> ipv6addr \<Rightarrow> u8 list \<Rightarrow> u32 \<Rightarrow> memory \<Rightarrow> (ndp_message option \<times> memory) outcome" where
  "update_from_solicitation C L up src message payloadlen m =
     obind (get_option_linklayer_address SourceLinkLayer message 24 payloadlen) (\<lambda>mac.
       case mac of
         None \<Rightarrow> Inr (None, m)
       | Some hw \<Rightarrow>
         if is_not_unspecified_ipv6_address src \<and> ndpcache_find C src m = None
         then case addNDPCacheEntry C L src (Some hw) NDPCacheEntryState_Stale m of
                (entry, m) \<Rightarrow> Inr (address_resolution_request C up entry m, m)
         else Inr (None, m))"

text \<open>\<open>src\<close> is the source of the packet; the result is the answer, the request that the update causes, and the memory.\<close>

definition neighbor_solicitation_receive ::
    "memory_config \<Rightarrow> ndp_config \<Rightarrow> ipv6addr \<Rightarrow> u8 list \<Rightarrow> u32 \<Rightarrow> v6_interface \<Rightarrow> (ndp_message option \<times> ndp_message option \<times> memory) outcome" where
  "neighbor_solicitation_receive C L src message payloadlen ifc =
     (let m = if_addressmemory ifc in
      if get8 0 message = 135 \<and> get8 1 message = 0
      then if payloadlen < 24 then Inr (None, None, m)
           else if \<not> hasIPv6Address C (message_target message) ifc then Inr (None, None, m)
           else obind (update_from_solicitation C L (isIPv6Up ifc) src message (payloadlen - 24) m) (\<lambda>(request, m).
             Inr (Some (address_resolution_response src message), request, m))
      else Inr (None, None, m))"

definition ETH_TYPE_IPV6 :: u16 where "ETH_TYPE_IPV6 = 0x86DD"

text \<open>Every frame with an IPv6 packet that is sent to the hardware address of the interface: its source address is 8 bytes behind the
  Ethernet header.\<close>

definition cache_incoming :: "memory_config \<Rightarrow> ndp_config \<Rightarrow> u8 list \<Rightarrow> u8 list \<Rightarrow> memory \<Rightarrow> memory" where
  "cache_incoming C L address frame m =
     (if eth_get_type frame \<noteq> ETH_TYPE_IPV6 then m
      else if take 6 (eth_get_dst_hwaddr frame) = take 6 address
      then case addNDPCacheEntry C L \<lparr>ipaddrB8 = take 16 (drop 8 (eth_get_data frame))\<rparr> (Some (eth_get_src_hwaddr frame))
             NDPCacheEntryState_Reachable m of
             (None, m) \<Rightarrow> m
           | (Some p, m) \<Rightarrow> update_NDPCacheEntry_importance L p IMPORTANCE_good_to_know m
      else m)"

subsection \<open>The blocking lookup\<close>

text \<open>What can arrive while the lookup waits: a frame, as far as the advice around the receipt of frames looks at it, and the neighbour
  messages that frames carry. No order is declared between the two, nor between the advice that answers a solicitation and the
  one that learns from it; here the answer comes last.\<close>

datatype ndp_arrival =
  Frame "u8 list"
| Advertisement "u8 list" u32
| Solicitation ipv6addr "u8 list" u32

fun ndp_arrives :: "memory_config \<Rightarrow> ndp_config \<Rightarrow> u8 list \<Rightarrow> ndp_arrival \<Rightarrow> v6_interface \<Rightarrow> v6_interface outcome" where
  "ndp_arrives C L address (Frame frame) ifc = Inr (ifc\<lparr>if_addressmemory := cache_incoming C L address frame (if_addressmemory ifc)\<rparr>)"
| "ndp_arrives C L address (Advertisement message len) ifc =
     obind (neighbor_advertisement_receive C L message len ifc) (\<lambda>m. Inr (ifc\<lparr>if_addressmemory := m\<rparr>))"
| "ndp_arrives C L address (Solicitation src message len) ifc =
     obind (neighbor_solicitation_receive C L src message len ifc) (\<lambda>(_, _, m). Inr (ifc\<lparr>if_addressmemory := m\<rparr>))"

fun ndp_arrivals :: "memory_config \<Rightarrow> ndp_config \<Rightarrow> u8 list \<Rightarrow> ndp_arrival list \<Rightarrow> v6_interface \<Rightarrow> v6_interface outcome" where
  "ndp_arrivals C L address [] ifc = Inr ifc"
| "ndp_arrivals C L address (a # as) ifc = obind (ndp_arrives C L address a ifc) (ndp_arrivals C L address as)"

definition is_NDPCacheEntry_reachable :: "nat \<Rightarrow> memory \<Rightarrow> bool" where
  "is_NDPCacheEntry_reachable p m \<longleftrightarrow> ndp_state m p = state_code NDPCacheEntryState_Reachable"

text \<open>One check of the condition of the loop per element; \<open>None\<close> means that the loop is still running.\<close>

fun block_until_neighbor_advertisement ::
    "memory_config \<Rightarrow> ndp_config \<Rightarrow> u8 list \<Rightarrow> u64 \<Rightarrow> nat \<Rightarrow> (ndp_arrival list \<times> u64) list \<Rightarrow> v6_interface \<Rightarrow> v6_interface outcome option" where
  "block_until_neighbor_advertisement C L address timeout p [] ifc = None"
| "block_until_neighbor_advertisement C L address timeout p ((as, now) # steps) ifc =
     (case ndp_arrivals C L address as ifc of
        Inl e \<Rightarrow> Some (Inl e)
      | Inr ifc \<Rightarrow>
        if now < timeout \<and> \<not> is_NDPCacheEntry_reachable p (if_addressmemory ifc)
        then block_until_neighbor_advertisement C L address timeout p steps ifc else Some (Inr ifc))"

text \<open>The preparation of a buffer: the entry that gives the hardware address of a frame to \<open>addr\<close>, if there is one, and the request that is sent.\<close>

definition ndp_lookup ::
    "memory_config \<Rightarrow> ndp_config \<Rightarrow> u8 list \<Rightarrow> ipv6addr \<Rightarrow> u64 \<Rightarrow> (ndp_arrival list \<times> u64) list \<Rightarrow> v6_interface \<Rightarrow>
     (nat option \<times> ndp_message option \<times> v6_interface) outcome option" where
  "ndp_lookup C L address addr timeout steps ifc =
     (case ndpcache_find C addr (if_addressmemory ifc) of
        Some p \<Rightarrow> Some (Inr (Some p, None, ifc))
      | None \<Rightarrow>
        case addNDPCacheEntry C L addr None NDPCacheEntryState_Incomplete (if_addressmemory ifc) of
          (None, m) \<Rightarrow> Some (Inr (ndpcache_findRouter C m, None, ifc\<lparr>if_addressmemory := m\<rparr>))
        | (Some p, m) \<Rightarrow>
          let request = address_resolution_request C (isIPv6Up ifc) (Some p) m in
          map_option (map_sum id (\<lambda>ifc.
              if \<not> is_NDPCacheEntry_reachable p (if_addressmemory ifc)
              then let m = freeEntry p (if_addressmemory ifc) in (ndpcache_findRouter C m, request, ifc\<lparr>if_addressmemory := m\<rparr>)
              else (Some p, request, ifc)))
            (block_until_neighbor_advertisement C L address timeout p steps (ifc\<lparr>if_addressmemory := m\<rparr>)))"

subsection \<open>Slots\<close>

lemma same_byte:
  assumes "x < entry_size C" and "y < entry_size C"
  shows "k * entry_size C + x = j * entry_size C + y \<longleftrightarrow> k = j \<and> x = y"
proof
  assume e: "k * entry_size C + x = j * entry_size C + y"
  have "(k * entry_size C + x) div entry_size C = k" "(j * entry_size C + y) div entry_size C = j" using assms by simp_all
  then show "k = j \<and> x = y" using e by auto
qed simp

lemma byte_inside: "memory_ok C m \<Longrightarrow> k < cache_entries C \<Longrightarrow> x < entry_size C \<Longrightarrow> k * entry_size C + x < length m"
  using slot_inside [of C k "cache_entries C" x] by (simp add: memory_ok_def)

lemma byte_zero_inside: "memory_ok C m \<Longrightarrow> k < cache_entries C \<Longrightarrow> k * entry_size C < length m"
  using byte_inside [of C m k 0] by (simp add: memory_ok_def config_ok_def)

lemma size_pos: "memory_ok C m \<Longrightarrow> 21 \<le> entry_size C" "memory_ok C m \<Longrightarrow> cache_entries C < 256"
  by (simp_all add: memory_ok_def config_ok_def)

definition slot_of :: "memory_config \<Rightarrow> memory \<Rightarrow> nat \<Rightarrow> nat \<Rightarrow> u8" where
  "slot_of C m k x = m ! (k * entry_size C + x)"

lemma slot_of_zero: "m ! (k * entry_size C) = slot_of C m k 0"
  by (simp add: slot_of_def)

lemma slot_of_update:
  assumes "memory_ok C m" and "k < cache_entries C" and "x < entry_size C" and "y < entry_size C" and "j < cache_entries C"
  shows "slot_of C (m[k * entry_size C + x := v]) j y = (if j = k \<and> y = x then v else slot_of C m j y)"
  using same_byte [OF assms(3,4), of k j] byte_inside [OF assms(1,2,3)] by (auto simp: slot_of_def nth_list_update)

lemma slot_of_update_zero:
  assumes "memory_ok C m" and "k < cache_entries C" and "y < entry_size C" and "j < cache_entries C"
  shows "slot_of C (m[k * entry_size C := v]) j y = (if j = k \<and> y = 0 then v else slot_of C m j y)"
  using slot_of_update [OF assms(1,2) _ assms(3,4), of 0 v] size_pos(1) [OF assms(1)] by simp

lemma slot_of_put:
  assumes "memory_ok C m" and "k < cache_entries C" and "x + length bs \<le> entry_size C" and "y < entry_size C" and "j < cache_entries C"
  shows "slot_of C (put_bytes (k * entry_size C + x) bs m) j y =
    (if j = k \<and> x \<le> y \<and> y < x + length bs then bs ! (y - x) else slot_of C m j y)"
proof -
  have l: "(k + 1) * entry_size C \<le> length m"
    using assms(1,2) mult_le_mono1 [of "Suc k" "cache_entries C" "entry_size C"] by (simp add: memory_ok_def)
  have i: "k * entry_size C + x + length bs \<le> length m" "j * entry_size C + y < length m"
    using l assms(3) byte_inside [OF assms(1,5,4)] by (simp_all add: algebra_simps)
  have "k * entry_size C + x \<le> j * entry_size C + y \<and> j * entry_size C + y < k * entry_size C + x + length bs \<longleftrightarrow>
      j = k \<and> x \<le> y \<and> y < x + length bs"
  proof
    assume h: "k * entry_size C + x \<le> j * entry_size C + y \<and> j * entry_size C + y < k * entry_size C + x + length bs"
    then obtain z where z: "j * entry_size C + y = k * entry_size C + (x + z)" "z < length bs"
      by (metis add.assoc le_Suc_ex nat_add_left_cancel_less)
    then have "x + z < entry_size C" using assms(3) by simp
    then show "j = k \<and> x \<le> y \<and> y < x + length bs" using z same_byte [of "x + z" C y k j] assms(4) by auto
  qed auto
  then show ?thesis unfolding slot_of_def nth_put [OF i] by auto
qed

lemma memory_ok_cong: "memory_ok C m \<Longrightarrow> length m' = length m \<Longrightarrow> memory_ok C m'"
  by (simp add: memory_ok_def)

subsection \<open>Loops over entries\<close>

lemma visited_step:
  assumes "memory_ok C m" and "findEntry C i type m = Some (p, j)"
  obtains k where "i \<le> k" and "k < cache_entries C" and "p = k * entry_size C" and "j = Suc k" and "m ! p = type"
    and "visited_entries C i type m = p # visited_entries C j type m"
proof -
  have "find_slot C (cache_entries C - i) i type m = Some (p, j)" using assms(2) by (simp add: findEntry_def)
  from find_slot_next [OF this] obtain k where k: "i \<le> k" "k < i + (cache_entries C - i)" "p = k * entry_size C" "j = k + 1" "m ! p = type"
    by blast
  have "k < cache_entries C" "j = Suc k" using k by simp_all
  moreover have "visited_entries C i type m = p # visited_entries C j type m" by (subst visited_entries.simps) (simp add: assms(2))
  ultimately show thesis using that k by blast
qed

text \<open>A body that leaves the types of the entries behind its own alone is run once for every entry.\<close>

lemma for_entries_fold:
  assumes "memory_ok C (snd st)"
    and body: "\<And>k st. memory_ok C (snd st) \<Longrightarrow> k < cache_entries C \<Longrightarrow> snd st ! (k * entry_size C) = type \<Longrightarrow> memory_ok C (snd (body (k * entry_size C) st)) \<and>
      (\<forall>l. k < l \<and> l < cache_entries C \<longrightarrow> (snd (body (k * entry_size C) st) ! (l * entry_size C) = type \<longleftrightarrow> snd st ! (l * entry_size C) = type))"
  shows "snd (for_entries C type body i st) = fold body (visited_entries C i type (snd st)) st"
  using assms(1)
proof (induction "cache_entries C - i" arbitrary: i st rule: less_induct)
  case less
  show ?case
  proof (cases "findEntry C i type (snd st)")
    case None
    then show ?thesis by (subst for_entries.simps, subst visited_entries.simps) simp
  next
    case (Some x)
    then obtain p j where x: "findEntry C i type (snd st) = Some (p, j)" by (cases x) simp
    from visited_step [OF less.prems x] obtain k where k: "i \<le> k" "k < cache_entries C" "p = k * entry_size C" "j = Suc k" "snd st ! p = type"
        "visited_entries C i type (snd st) = p # visited_entries C j type (snd st)" .
    let ?st = "body p st"
    have ok: "memory_ok C (snd ?st)" and t: "\<forall>l. k < l \<and> l < cache_entries C \<longrightarrow> (snd ?st ! (l * entry_size C) = type \<longleftrightarrow> snd st ! (l * entry_size C) = type)"
      using body [OF less.prems k(2)] k(3,5) by simp_all
    have "visited_entries C j type (snd ?st) = visited_entries C j type (snd st)"
      unfolding visited_from [OF ok] visited_from [OF less.prems] using t k(4) by (intro arg_cong [of _ _ "map _"] filter_cong) simp_all
    moreover have "snd (for_entries C type body j ?st) = fold body (visited_entries C j type (snd ?st)) ?st"
      using k by (intro less.hyps ok) simp
    ultimately show ?thesis using x k(6) by (subst for_entries.simps) simp
  qed
qed

lemma visited_all:
  "memory_ok C m \<Longrightarrow> visited_entries C 0 type m = map (\<lambda>k. k * entry_size C) (filter (\<lambda>k. slot_of C m k 0 = type) [0..<cache_entries C])"
  by (simp add: visited_from slot_of_def)

text \<open>The position of a slot.\<close>

lemma getPosition_slot: "memory_ok C m \<Longrightarrow> k < cache_entries C \<Longrightarrow> getPosition C (k * entry_size C) = of_nat k"
  using position_from_value [of C 0 k "cache_entries C"] by (simp add: getPosition_def memory_ok_def)

lemma position_of_nat: "memory_ok C m \<Longrightarrow> k < cache_entries C \<Longrightarrow> unat (of_nat k :: u8) = k"
  using size_pos(2) [of C m] by (intro unat_of_nat_u8) simp

subsection \<open>Neighbours in slots\<close>

definition is_neighbour :: "memory_config \<Rightarrow> memory \<Rightarrow> nat \<Rightarrow> bool" where
  "is_neighbour C m k \<longleftrightarrow> k < cache_entries C \<and> slot_of C m k 0 = NDPCacheEntry_ID"

definition slot_addr :: "memory_config \<Rightarrow> memory \<Rightarrow> nat \<Rightarrow> u8 list" where
  "slot_addr C m k = map (slot_of C m k) [1..<17]"

definition slot_hw :: "memory_config \<Rightarrow> ndp_config \<Rightarrow> memory \<Rightarrow> nat \<Rightarrow> u8 list" where
  "slot_hw C L m k = map (slot_of C m k) [hw_at L..<hw_at L + 6]"

definition same_slot :: "memory_config \<Rightarrow> memory \<Rightarrow> memory \<Rightarrow> nat \<Rightarrow> bool" where
  "same_slot C m m' k \<longleftrightarrow> (\<forall>x < entry_size C. slot_of C m' k x = slot_of C m k x)"

text \<open>What a caller sees: no address has two entries, and an address leads to a state and a hardware address.\<close>

definition ndp_unique :: "memory_config \<Rightarrow> memory \<Rightarrow> bool" where
  "ndp_unique C m \<longleftrightarrow> (\<forall>j k. is_neighbour C m j \<longrightarrow> is_neighbour C m k \<longrightarrow> slot_addr C m j = slot_addr C m k \<longrightarrow> j = k)"

definition neighbours :: "memory_config \<Rightarrow> ndp_config \<Rightarrow> memory \<Rightarrow> ipv6addr \<Rightarrow> (u8 \<times> u8 list) option" where
  "neighbours C L m addr = map_option (\<lambda>p. (ndp_state m p, ndp_hw L m p)) (ndpcache_find C addr m)"

lemma take_drop_nth: "off + n \<le> length m \<Longrightarrow> take n (drop off m) = map (\<lambda>x. m ! (off + x)) [0..<n]"
  by (intro nth_equalityI) simp_all

lemma slot_part:
  assumes "memory_ok C m" and "k < cache_entries C" and "x + n \<le> entry_size C"
  shows "take n (drop (k * entry_size C + x) m) = map (slot_of C m k) [x..<x + n]"
proof -
  have "k * entry_size C + x + n \<le> length m"
    using assms mult_le_mono1 [of "Suc k" "cache_entries C" "entry_size C"] by (simp add: memory_ok_def)
  then show ?thesis by (intro nth_equalityI) (simp_all add: slot_of_def add.assoc)
qed

lemma entry_in_slot:
  assumes "memory_ok C m" and "k < cache_entries C"
  shows "entry_ipv6 m (k * entry_size C) = \<lparr>ipaddrB8 = slot_addr C m k\<rparr>"
    "ndp_config_ok C L \<Longrightarrow> ndp_hw L m (k * entry_size C) = slot_hw C L m k"
  using slot_part [OF assms, of 1 16] slot_part [OF assms, of "hw_at L" 6] size_pos(1) [OF assms(1)]
  by (simp_all add: entry_ipv6_def slot_addr_def ndp_hw_def slot_hw_def ndp_config_ok_def)

lemma fields_in_slot:
  "ndp_state m (k * entry_size C) = slot_of C m k 17" "expire_value L m (k * entry_size C) = slot_of C m k (expire_at L)"
  "ndp_isRouter m (k * entry_size C) = bit (slot_of C m k 18) 0" "ndp_isRouting m (k * entry_size C) = bit (slot_of C m k 18) 1"
  "entry_routerEntryPosition m (k * entry_size C) = slot_of C m k 19"
  by (simp_all add: ndp_state_def expire_value_def ndp_isRouter_def ndp_isRouting_def entry_routerEntryPosition_def slot_of_def)

lemma slot_addr_length [simp]: "length (slot_addr C m k) = 16"
  by (simp add: slot_addr_def)

lemma find_map: "find P (map f xs) = map_option f (find (P \<circ> f) xs)"
  by (induction xs) simp_all

lemma find_filter: "find P (filter Q xs) = find (\<lambda>x. Q x \<and> P x) xs"
  by (induction xs) simp_all

lemma find_entry_slot:
  assumes "memory_ok C m"
  shows "ndpcache_find C addr m =
    map_option (\<lambda>k. k * entry_size C) (find (\<lambda>k. is_neighbour C m k \<and> slot_addr C m k = take 16 (ipaddrB8 addr)) [0..<cache_entries C])"
  unfolding ndpcache_find_def visited_all [OF assms] find_map find_filter
  by (intro arg_cong [of _ _ "map_option _"] find_cong)
     (auto simp: compare_ipv6_addr_def entry_in_slot [OF assms] is_neighbour_def)

lemma find_slot_neighbour:
  assumes "memory_ok C m" and "ndpcache_find C addr m = Some p"
  obtains k where "is_neighbour C m k" and "slot_addr C m k = take 16 (ipaddrB8 addr)" and "p = k * entry_size C" and "k < cache_entries C"
  using assms(2) unfolding find_entry_slot [OF assms(1)] by (auto simp: find_Some_iff)

lemma find_neighbour:
  assumes "memory_ok C m" and "ndp_unique C m" and "is_neighbour C m k" and "slot_addr C m k = take 16 (ipaddrB8 addr)"
  shows "ndpcache_find C addr m = Some (k * entry_size C)"
proof (cases "ndpcache_find C addr m")
  case None
  have "k < cache_entries C" using assms(3) by (simp add: is_neighbour_def)
  then show ?thesis using None assms(3,4) unfolding find_entry_slot [OF assms(1)] by (auto simp: find_None_iff)
next
  case (Some p)
  from find_slot_neighbour [OF assms(1) this] obtain j
    where "is_neighbour C m j" "slot_addr C m j = take 16 (ipaddrB8 addr)" "p = j * entry_size C" by blast
  moreover from this have "j = k" using assms(2-4) unfolding ndp_unique_def by metis
  ultimately show ?thesis using Some by simp
qed

lemma neighbours_Some:
  assumes "memory_ok C m" and "ndp_unique C m" and "ndp_config_ok C L"
  shows "neighbours C L m addr = Some v \<longleftrightarrow>
    (\<exists>k. is_neighbour C m k \<and> slot_addr C m k = take 16 (ipaddrB8 addr) \<and> v = (slot_of C m k 17, slot_hw C L m k))" (is "?l \<longleftrightarrow> ?r")
proof
  assume ?l
  then obtain p where p: "ndpcache_find C addr m = Some p" "v = (ndp_state m p, ndp_hw L m p)" by (auto simp: neighbours_def)
  from find_slot_neighbour [OF assms(1) p(1)] obtain k
    where k: "is_neighbour C m k" "slot_addr C m k = take 16 (ipaddrB8 addr)" "p = k * entry_size C" "k < cache_entries C" by blast
  then show ?r using p(2) entry_in_slot(2) [OF assms(1) k(4) assms(3)] by (auto simp: fields_in_slot)
next
  assume ?r
  then obtain k where k: "is_neighbour C m k" "slot_addr C m k = take 16 (ipaddrB8 addr)" "v = (slot_of C m k 17, slot_hw C L m k)" by blast
  then have "k < cache_entries C" by (simp add: is_neighbour_def)
  then show ?l using find_neighbour [OF assms(1,2) k(1,2)] k(3) entry_in_slot(2) [OF assms(1) _ assms(3)]
    by (simp add: neighbours_def fields_in_slot)
qed

lemma neighbours_None:
  assumes "memory_ok C m"
  shows "neighbours C L m addr = None \<longleftrightarrow> (\<forall>k. is_neighbour C m k \<longrightarrow> slot_addr C m k \<noteq> take 16 (ipaddrB8 addr))"
  unfolding neighbours_def find_entry_slot [OF assms] by (auto simp: find_None_iff is_neighbour_def)

lemma same_slot_fields:
  assumes "same_slot C m m' k" and "ndp_config_ok C L" and "config_ok C"
  shows "slot_addr C m' k = slot_addr C m k" "slot_hw C L m' k = slot_hw C L m k" "slot_of C m' k 17 = slot_of C m k 17"
    "is_neighbour C m' k \<longleftrightarrow> is_neighbour C m k"
  using assms by (auto simp: same_slot_def slot_addr_def slot_hw_def is_neighbour_def ndp_config_ok_def config_ok_def)

text \<open>A change of one entry.\<close>

definition only_slot :: "memory_config \<Rightarrow> memory \<Rightarrow> memory \<Rightarrow> nat \<Rightarrow> bool" where
  "only_slot C m m' k \<longleftrightarrow> memory_ok C m' \<and> (\<forall>j < cache_entries C. j \<noteq> k \<longrightarrow> is_neighbour C m' j = is_neighbour C m j \<and>
     (is_neighbour C m j \<longrightarrow> same_slot C m m' j))"

lemma entry_removed:
  assumes "memory_ok C m" and "ndp_config_ok C L" and "ndp_unique C m" and "only_slot C m m' k" and "is_neighbour C m k"
    and "\<not> is_neighbour C m' k"
  shows "ndp_unique C m'" "neighbours C L m' a = (if take 16 (ipaddrB8 a) = slot_addr C m k then None else neighbours C L m a)"
proof -
  have C: "config_ok C" and ok': "memory_ok C m'" using assms(1,4) by (simp_all add: memory_ok_def only_slot_def)
  have n: "is_neighbour C m' j \<longleftrightarrow> is_neighbour C m j \<and> j \<noteq> k" for j
    using assms(4,6) by (cases "j < cache_entries C") (auto simp: only_slot_def is_neighbour_def)
  have s: "slot_addr C m' j = slot_addr C m j \<and> slot_hw C L m' j = slot_hw C L m j \<and> slot_of C m' j 17 = slot_of C m j 17"
    if "is_neighbour C m' j" for j
    using that assms(4) n [of j] same_slot_fields [OF _ assms(2) C, of m m' j] by (auto simp: only_slot_def is_neighbour_def)
  show u: "ndp_unique C m'" using assms(3) n s unfolding ndp_unique_def by metis
  show "neighbours C L m' a = (if take 16 (ipaddrB8 a) = slot_addr C m k then None else neighbours C L m a)"
  proof (cases "take 16 (ipaddrB8 a) = slot_addr C m k")
    case True
    have "slot_addr C m' j \<noteq> take 16 (ipaddrB8 a)" if "is_neighbour C m' j" for j
      using that n s True assms(3,5) unfolding ndp_unique_def by metis
    then show ?thesis using True neighbours_None [OF ok'] by simp
  next
    case False
    have "neighbours C L m' a = Some v \<longleftrightarrow> neighbours C L m a = Some v" for v
      unfolding neighbours_Some [OF ok' u assms(2)] neighbours_Some [OF assms(1,3,2)] using n s False by metis
    then show ?thesis using False by (metis option.exhaust)
  qed
qed

lemma entry_written:
  assumes "memory_ok C m" and "ndp_config_ok C L" and "ndp_unique C m" and "only_slot C m m' k" and "is_neighbour C m' k"
    and "if is_neighbour C m k then slot_addr C m k = slot_addr C m' k else neighbours C L m \<lparr>ipaddrB8 = slot_addr C m' k\<rparr> = None"
  shows "ndp_unique C m'" "neighbours C L m' a =
    (if take 16 (ipaddrB8 a) = slot_addr C m' k then Some (slot_of C m' k 17, slot_hw C L m' k) else neighbours C L m a)"
proof -
  have C: "config_ok C" and ok': "memory_ok C m'" using assms(1,4) by (simp_all add: memory_ok_def only_slot_def)
  have n: "j \<noteq> k \<Longrightarrow> is_neighbour C m' j \<longleftrightarrow> is_neighbour C m j" for j
    using assms(4) by (cases "j < cache_entries C") (auto simp: only_slot_def is_neighbour_def)
  have s: "slot_addr C m' j = slot_addr C m j \<and> slot_hw C L m' j = slot_hw C L m j \<and> slot_of C m' j 17 = slot_of C m j 17"
    if "is_neighbour C m' j" "j \<noteq> k" for j
    using that assms(4) n [of j] same_slot_fields [OF _ assms(2) C, of m m' j] by (auto simp: only_slot_def is_neighbour_def)
  have new: "slot_addr C m j \<noteq> slot_addr C m' k" if "is_neighbour C m j" "j \<noteq> k" for j
  proof (cases "is_neighbour C m k")
    case True
    then show ?thesis using that assms(3,6) by (auto simp: ndp_unique_def)
  next
    case False
    then show ?thesis using that assms(6) neighbours_None [OF assms(1), of L "\<lparr>ipaddrB8 = slot_addr C m' k\<rparr>"] by simp
  qed
  show u: "ndp_unique C m'" unfolding ndp_unique_def using assms(3) n s new unfolding ndp_unique_def by metis
  show "neighbours C L m' a = (if take 16 (ipaddrB8 a) = slot_addr C m' k then Some (slot_of C m' k 17, slot_hw C L m' k) else neighbours C L m a)"
  proof (cases "take 16 (ipaddrB8 a) = slot_addr C m' k")
    case True
    then show ?thesis using neighbours_Some [OF ok' u assms(2), of a] assms(5) by auto
  next
    case False
    have k: "is_neighbour C m k \<Longrightarrow> slot_addr C m k = slot_addr C m' k" using assms(6) by (simp split: if_splits)
    have "neighbours C L m' a = Some v \<longleftrightarrow> neighbours C L m a = Some v" for v
      unfolding neighbours_Some [OF ok' u assms(2)] neighbours_Some [OF assms(1,3,2)] using n s False k by metis
    then show ?thesis using False by (metis option.exhaust)
  qed
qed

subsection \<open>Freeing entries\<close>

text \<open>The ids do not clash.\<close>

lemma entry_ids [simp]: "NDPCacheEntry_ID \<noteq> AddressEntry_ID" "AddressEntry_ID \<noteq> NDPCacheEntry_ID" "NDPCacheEntry_ID \<noteq> 0" "AddressEntry_ID \<noteq> 0"
    "FreeEntry_ID = 0"
  by (simp_all add: NDPCacheEntry_ID_def AddressEntry_ID_def FreeEntry_ID_def)

lemma free_some:
  assumes "memory_ok C m" and "set ks \<subseteq> {..<cache_entries C}" and "j < cache_entries C" and "y < entry_size C" and "distinct ks"
  shows "let m' = snd (fold (\<lambda>a (u, m). (u, if entry_routerEntryPosition m a = pos then freeEntry a m else m)) (map (\<lambda>k. k * entry_size C) ks) (u, m))
    in memory_ok C m' \<and> slot_of C m' j y = (if y = 0 \<and> j \<in> set ks \<and> slot_of C m j 19 = pos then 0 else slot_of C m j y)"
  using assms
proof (induction ks arbitrary: m)
  case Nil
  then show ?case by simp
next
  case (Cons k ks)
  let ?m = "if slot_of C m k 19 = pos then m[k * entry_size C := 0] else m"
  have ok: "memory_ok C ?m" using Cons.prems(1) memory_ok_cong by simp
  have k: "k < cache_entries C" using Cons.prems(2) by simp
  have v: "slot_of C ?m j x = (if x = 0 \<and> j = k \<and> slot_of C m k 19 = pos then 0 else slot_of C m j x)" if "x < entry_size C" for x
    using slot_of_update_zero [OF Cons.prems(1) k that Cons.prems(3), of 0] by auto
  have z: "slot_of C ?m j 19 = slot_of C m j 19" using v [of 19] size_pos(1) [OF Cons.prems(1)] by simp
  have "set ks \<subseteq> {..<cache_entries C}" "distinct ks" using Cons.prems by simp_all
  from Cons.IH [OF ok this(1) Cons.prems(3,4) this(2)] show ?case
    using v [OF Cons.prems(4)] z Cons.prems(5) by (auto simp: Let_def fields_in_slot freeEntry_def)
qed

lemma free_prefixes_slots:
  assumes "memory_ok C m" and "j < cache_entries C" and "y < entry_size C"
  shows "memory_ok C (free_prefixes C pos m)"
    "slot_of C (free_prefixes C pos m) j y =
      (if y = 0 \<and> slot_of C m j 0 = AddressEntry_ID \<and> slot_of C m j 19 = pos then 0 else slot_of C m j y)"
proof -
  let ?b = "\<lambda>a (u :: unit, m). (u, if entry_routerEntryPosition m a = pos then freeEntry a m else m)"
  have "snd (for_entries C AddressEntry_ID ?b 0 ((), m)) = fold ?b (visited_entries C 0 AddressEntry_ID (snd ((), m))) ((), m)"
  proof (rule for_entries_fold)
    show "memory_ok C (snd ((), m))" using assms(1) by simp
    fix k and st :: "unit \<times> memory"
    assume ok: "memory_ok C (snd st)" "k < cache_entries C"
    show "memory_ok C (snd (?b (k * entry_size C) st)) \<and> (\<forall>l. k < l \<and> l < cache_entries C \<longrightarrow>
        (snd (?b (k * entry_size C) st) ! (l * entry_size C) = AddressEntry_ID \<longleftrightarrow> snd st ! (l * entry_size C) = AddressEntry_ID))"
      using ok memory_ok_cong [OF ok(1)] slot_of_update_zero [OF ok, of 0 _ 0] size_pos(1) [OF ok(1)]
      by (cases st) (auto simp: freeEntry_def slot_of_zero)
  qed
  then have e: "free_prefixes C pos m =
      snd (fold ?b (map (\<lambda>k. k * entry_size C) (filter (\<lambda>k. slot_of C m k 0 = AddressEntry_ID) [0..<cache_entries C])) ((), m))"
    by (simp add: free_prefixes_def visited_all [OF assms(1)])
  have "set (filter (\<lambda>k. slot_of C m k 0 = AddressEntry_ID) [0..<cache_entries C]) \<subseteq> {..<cache_entries C}"
    "distinct (filter (\<lambda>k. slot_of C m k 0 = AddressEntry_ID) [0..<cache_entries C])" by auto
  from free_some [OF assms(1) this(1) assms(2,3) this(2), of pos "()"] assms(2)
  show "memory_ok C (free_prefixes C pos m)"
    "slot_of C (free_prefixes C pos m) j y =
      (if y = 0 \<and> slot_of C m j 0 = AddressEntry_ID \<and> slot_of C m j 19 = pos then 0 else slot_of C m j y)"
    unfolding e by (simp_all add: Let_def)
qed

lemma freeNDPCacheEntry_slots:
  assumes "memory_ok C m" and "k < cache_entries C" and "j < cache_entries C" and "y < entry_size C"
  shows "memory_ok C (freeNDPCacheEntry C (k * entry_size C) m)"
    "slot_of C (freeNDPCacheEntry C (k * entry_size C) m) j y =
      (if y = 0 \<and> (j = k \<or> bit (slot_of C m k 18) 0 \<and> slot_of C m j 0 = AddressEntry_ID \<and> slot_of C m j 19 = of_nat k) then 0
       else slot_of C m j y)"
proof -
  have g: "getPosition C (k * entry_size C) = of_nat k" by (rule getPosition_slot [OF assms(1,2)])
  have u: "(of_nat k :: u8) \<noteq> EntryUndefined"
  proof
    assume "(of_nat k :: u8) = EntryUndefined"
    then have "k = unat EntryUndefined" using position_of_nat [OF assms(1,2)] by simp
    then show False using assms(2) size_pos(2) [OF assms(1)] by (simp add: EntryUndefined_def)
  qed
  let ?m = "if bit (slot_of C m k 18) 0 then free_prefixes C (of_nat k) m else m"
  have f: "freeNDPCacheEntry C (k * entry_size C) m = ?m[k * entry_size C := 0]"
    using u by (simp add: freeNDPCacheEntry_def Let_def g freeEntry_def fields_in_slot)
  have ok: "memory_ok C ?m" using assms free_prefixes_slots(1) by simp
  then show "memory_ok C (freeNDPCacheEntry C (k * entry_size C) m)" unfolding f using memory_ok_cong by simp
  show "slot_of C (freeNDPCacheEntry C (k * entry_size C) m) j y =
      (if y = 0 \<and> (j = k \<or> bit (slot_of C m k 18) 0 \<and> slot_of C m j 0 = AddressEntry_ID \<and> slot_of C m j 19 = of_nat k) then 0
       else slot_of C m j y)"
    unfolding f slot_of_update_zero [OF ok assms(2,4,3)] using free_prefixes_slots(2) [OF assms(1,3,4)] by auto
qed

lemma freeNDPCacheEntry_neighbours:
  assumes "memory_ok C m" and "is_neighbour C m k"
  shows "only_slot C m (freeNDPCacheEntry C (k * entry_size C) m) k" "\<not> is_neighbour C (freeNDPCacheEntry C (k * entry_size C) m) k"
proof -
  have k: "k < cache_entries C" using assms(2) by (simp add: is_neighbour_def)
  note s = freeNDPCacheEntry_slots [OF assms(1) k]
  have z: "0 < entry_size C" using size_pos(1) [OF assms(1)] by simp
  show "only_slot C m (freeNDPCacheEntry C (k * entry_size C) m) k"
    using s(1) [OF k z] s(2) z by (auto simp: only_slot_def is_neighbour_def same_slot_def)
  show "\<not> is_neighbour C (freeNDPCacheEntry C (k * entry_size C) m) k"
    using s(2) [OF k z] by (simp add: is_neighbour_def)
qed

subsection \<open>The least important entry\<close>

definition least_below :: "u8 \<Rightarrow> (nat \<Rightarrow> u8) \<Rightarrow> nat list \<Rightarrow> nat option \<Rightarrow> bool" where
  "least_below b f ks r \<longleftrightarrow> (case r of
     None \<Rightarrow> \<forall>k \<in> set ks. f k = 255 \<or> b \<le> f k
   | Some k \<Rightarrow> k \<in> set ks \<and> f k \<noteq> 255 \<and> f k < b \<and> (\<forall>j \<in> set ks. f j = 255 \<or> f k \<le> f j))"

lemma fold_least:
  fixes f :: "nat \<Rightarrow> u8"
  defines "g \<equiv> \<lambda>k (below, oldest). if f k \<noteq> 255 \<and> f k < below then (f k, Some k) else (below, oldest)"
  shows "case fold g ks (b, None) of (below, r) \<Rightarrow> least_below b f ks r \<and> below = (case r of None \<Rightarrow> b | Some k \<Rightarrow> f k)"
proof (induction ks rule: rev_induct)
  case Nil
  then show ?case by (simp add: least_below_def)
next
  case (snoc x xs)
  obtain below r where r: "fold g xs (b, None) = (below, r)" by (cases "fold g xs (b, None)")
  then have i: "least_below b f xs r" "below = (case r of None \<Rightarrow> b | Some k \<Rightarrow> f k)" using snoc by simp_all
  show ?case
  proof (cases "f x \<noteq> 255 \<and> f x < below")
    case True
    then show ?thesis using i r by (cases r) (auto simp: g_def least_below_def)
  next
    case False
    then show ?thesis using i r by (cases r) (auto simp: g_def least_below_def)
  qed
qed

lemma releaseEntryBelowImportance_slots:
  assumes "memory_ok C m"
  obtains "\<forall>k. is_neighbour C m k \<longrightarrow> slot_of C m k (expire_at L) = 255 \<or> b \<le> slot_of C m k (expire_at L)"
    and "releaseEntryBelowImportance C L b m = m"
  | k where "is_neighbour C m k" and "slot_of C m k (expire_at L) < b" and "slot_of C m k (expire_at L) \<noteq> 255"
    and "\<forall>j. is_neighbour C m j \<longrightarrow> slot_of C m k (expire_at L) \<le> slot_of C m j (expire_at L)"
    and "releaseEntryBelowImportance C L b m = freeNDPCacheEntry C (k * entry_size C) m"
proof -
  let ?f = "expire_value L m"
  let ?g = "\<lambda>p (below, oldest). if ?f p \<noteq> 255 \<and> ?f p < below then (?f p, Some p) else (below, oldest)"
  obtain below r where e: "fold ?g (visited_entries C 0 NDPCacheEntry_ID m) (b, None) = (below, r)"
    by (cases "fold ?g (visited_entries C 0 NDPCacheEntry_ID m) (b, None)")
  then have l: "least_below b ?f (visited_entries C 0 NDPCacheEntry_ID m) r"
    using fold_least [where f = ?f and b = b and ks = "visited_entries C 0 NDPCacheEntry_ID m"] by simp
  have v: "set (visited_entries C 0 NDPCacheEntry_ID m) = (\<lambda>k. k * entry_size C) ` {k. is_neighbour C m k}"
    unfolding visited_all [OF assms] by (auto simp: is_neighbour_def)
  show thesis
  proof (cases r)
    case None
    then show thesis using that(1) l e v by (simp add: least_below_def fields_in_slot releaseEntryBelowImportance_def)
  next
    case (Some p)
    then obtain k where k: "is_neighbour C m k" "p = k * entry_size C" using l v by (auto simp: least_below_def)
    have le: "slot_of C m k (expire_at L) \<le> slot_of C m j (expire_at L)" if "is_neighbour C m j" for j
    proof (cases "slot_of C m j (expire_at L) = 255")
      case True
      then show ?thesis using unat_u8_less [of "slot_of C m k (expire_at L)"] by (simp add: word_le_nat_alt del: unat_u8_less)
    qed (use l Some v k that in \<open>auto simp: least_below_def fields_in_slot\<close>)
    show thesis
      using that(2) [OF k(1)] l Some v k le e by (simp add: least_below_def fields_in_slot releaseEntryBelowImportance_def)
  qed
qed

subsection \<open>Adding an entry\<close>

lemma find_free_slot:
  assumes "memory_ok C m" and "findEntry C 0 FreeEntry_ID m = Some (p, nx)"
  obtains k where "k < cache_entries C" and "p = k * entry_size C" and "slot_of C m k 0 = 0"
  using visited_step [OF assms] by (auto simp: slot_of_zero)

lemma no_free_slot:
  assumes "memory_ok C m"
  shows "findEntry C 0 FreeEntry_ID m = None \<longleftrightarrow> (\<forall>k < cache_entries C. slot_of C m k 0 \<noteq> 0)"
  by (simp add: findEntry_def find_slot_None slot_of_def)

text \<open>What the writers leave in the slots.\<close>

lemma set_ndp_state_slot:
  assumes "memory_ok C m" and "k < cache_entries C" and "j < cache_entries C" and "y < entry_size C"
  shows "memory_ok C (set_ndp_state (k * entry_size C) st m)"
    "slot_of C (set_ndp_state (k * entry_size C) st m) j y = (if j = k \<and> y = 17 then state_code st else slot_of C m j y)"
  using slot_of_update [OF assms(1,2) _ assms(4,3), of 17 "state_code st"] size_pos(1) [OF assms(1)] memory_ok_cong [OF assms(1)]
  by (simp_all add: set_ndp_state_def)

definition new_entry :: "memory_config \<Rightarrow> ndp_config \<Rightarrow> ipv6addr \<Rightarrow> u8 list option \<Rightarrow> NDP_state \<Rightarrow> memory \<Rightarrow> nat \<Rightarrow> memory" where
  "new_entry C L addr hwaddr st m p =
     (let m = set_ndp_ipv6 p addr m;
          m = (case hwaddr of None \<Rightarrow> m | Some hw \<Rightarrow> set_ndp_hw L p hw m);
          m = set_ndp_state p st m
      in reserveNDPCacheEntry L p m)"

lemma new_entry_slots:
  assumes "memory_ok C m" and "ndp_config_ok C L" and "k < cache_entries C" and "j < cache_entries C" and "y < entry_size C"
    and "length (ipaddrB8 addr) \<ge> 16" and "\<And>hw. hwaddr = Some hw \<Longrightarrow> 6 \<le> length hw"
  shows "memory_ok C (new_entry C L addr hwaddr st m (k * entry_size C))"
    "slot_of C (new_entry C L addr hwaddr st m (k * entry_size C)) j y =
      (if j \<noteq> k then slot_of C m j y
       else if y = 0 then NDPCacheEntry_ID else if y < 17 then ipaddrB8 addr ! (y - 1) else if y = 17 then state_code st
       else if y = 18 then 0
       else if ndp_expires L \<and> y = expire_at L then 24
       else case hwaddr of None \<Rightarrow> slot_of C m k y | Some hw \<Rightarrow> if hw_at L \<le> y \<and> y < hw_at L + 6 then hw ! (y - hw_at L) else slot_of C m k y)"
proof -
  let ?p = "k * entry_size C"
  let ?m1 = "put_bytes (?p + 1) (take 16 (ipaddrB8 addr)) m"
  let ?m2 = "case hwaddr of None \<Rightarrow> ?m1 | Some hw \<Rightarrow> put_bytes (?p + hw_at L) (take 6 hw) ?m1"
  let ?m3 = "?m2[?p + 17 := state_code st]"
  let ?m4 = "if ndp_expires L then ?m3[?p + expire_at L := 24] else ?m3"
  let ?m5 = "?m4[?p + 18 := 0]"
  have e: "new_entry C L addr hwaddr st m ?p = ?m5[?p := NDPCacheEntry_ID]"
    by (cases hwaddr) (simp_all add: new_entry_def Let_def set_ndp_ipv6_def set_ndp_hw_def set_ndp_state_def reserveNDPCacheEntry_def ndp_reserve_def
      set_expire_value_def importance_defs)
  have c: "19 \<le> hw_at L" "19 \<le> expire_at L" "hw_at L + 6 \<le> entry_size C" "expire_at L < entry_size C"
      "expire_at L < hw_at L \<or> hw_at L + 6 \<le> expire_at L" "21 \<le> entry_size C"
    using assms(2) size_pos(1) [OF assms(1)] by (simp_all add: ndp_config_ok_def)
  have in_slot: "?p + x + n \<le> length m" if "x + n \<le> entry_size C" for x n
    using that assms(1,3) mult_le_mono1 [of "Suc k" "cache_entries C" "entry_size C"] by (simp add: memory_ok_def)
  have ok1: "memory_ok C ?m1" using memory_ok_cong [OF assms(1)] in_slot [of 1 16] c(6) by simp
  have ok2: "memory_ok C ?m2"
    using ok1 memory_ok_cong [OF ok1] in_slot [of 1 16] in_slot [of "hw_at L" 6] c(3,6) assms(7) by (cases hwaddr) simp_all
  have ok3: "memory_ok C ?m3" using memory_ok_cong [OF ok2] by simp
  have ok4: "memory_ok C ?m4" using ok3 memory_ok_cong [OF ok3] by simp
  have ok5: "memory_ok C ?m5" using memory_ok_cong [OF ok4] by simp
  show "memory_ok C (new_entry C L addr hwaddr st m ?p)" unfolding e using memory_ok_cong [OF ok5] by simp
  have s1: "slot_of C ?m1 j y = (if j = k \<and> 1 \<le> y \<and> y < 17 then ipaddrB8 addr ! (y - 1) else slot_of C m j y)"
    using slot_of_put [OF assms(1,3) _ assms(5,4), of 1 "take 16 (ipaddrB8 addr)"] assms(6) c(6) by auto
  have s2: "slot_of C ?m2 j y = (case hwaddr of None \<Rightarrow> slot_of C ?m1 j y
      | Some hw \<Rightarrow> if j = k \<and> hw_at L \<le> y \<and> y < hw_at L + 6 then hw ! (y - hw_at L) else slot_of C ?m1 j y)"
    using slot_of_put [OF ok1 assms(3) _ assms(5,4), of "hw_at L"] assms(7) c(3) by (cases hwaddr) auto
  have s3: "slot_of C ?m3 j y = (if j = k \<and> y = 17 then state_code st else slot_of C ?m2 j y)"
    using slot_of_update [OF ok2 assms(3) _ assms(5,4), of 17] c(6) by simp
  have s4: "slot_of C ?m4 j y = (if ndp_expires L \<and> j = k \<and> y = expire_at L then 24 else slot_of C ?m3 j y)"
    using slot_of_update [OF ok3 assms(3) c(4) assms(5,4), of 24] by (cases "ndp_expires L") simp_all
  have s5: "slot_of C ?m5 j y = (if j = k \<and> y = 18 then 0 else slot_of C ?m4 j y)"
    using slot_of_update [OF ok4 assms(3) _ assms(5,4), of 18] c(6) by simp
  have s6: "slot_of C (new_entry C L addr hwaddr st m ?p) j y = (if j = k \<and> y = 0 then NDPCacheEntry_ID else slot_of C ?m5 j y)"
    unfolding e by (rule slot_of_update_zero [OF ok5 assms(3,5,4)])
  show "slot_of C (new_entry C L addr hwaddr st m ?p) j y =
      (if j \<noteq> k then slot_of C m j y
       else if y = 0 then NDPCacheEntry_ID else if y < 17 then ipaddrB8 addr ! (y - 1) else if y = 17 then state_code st
       else if y = 18 then 0
       else if ndp_expires L \<and> y = expire_at L then 24
       else case hwaddr of None \<Rightarrow> slot_of C m k y | Some hw \<Rightarrow> if hw_at L \<le> y \<and> y < hw_at L + 6 then hw ! (y - hw_at L) else slot_of C m k y)"
    unfolding s6 s5 s4 s3 s2 s1 using c by (cases hwaddr) auto
qed

lemma new_entry_neighbour:
  assumes "memory_ok C m" and "ndp_config_ok C L" and "k < cache_entries C" and "slot_of C m k 0 = 0"
    and "length (ipaddrB8 addr) \<ge> 16" and "\<And>hw. hwaddr = Some hw \<Longrightarrow> 6 \<le> length hw"
  shows "only_slot C m (new_entry C L addr hwaddr st m (k * entry_size C)) k"
    "is_neighbour C (new_entry C L addr hwaddr st m (k * entry_size C)) k" "\<not> is_neighbour C m k"
    "slot_addr C (new_entry C L addr hwaddr st m (k * entry_size C)) k = take 16 (ipaddrB8 addr)"
    "slot_of C (new_entry C L addr hwaddr st m (k * entry_size C)) k 17 = state_code st"
    "slot_hw C L (new_entry C L addr hwaddr st m (k * entry_size C)) k = (case hwaddr of None \<Rightarrow> slot_hw C L m k | Some hw \<Rightarrow> take 6 hw)"
proof -
  note s = new_entry_slots [where hwaddr = hwaddr and st = st, OF assms(1,2,3) _ _ assms(5,6)]
  have c: "19 \<le> hw_at L" "hw_at L + 6 \<le> entry_size C" "expire_at L < hw_at L \<or> hw_at L + 6 \<le> expire_at L" "21 \<le> entry_size C"
    using assms(2) size_pos(1) [OF assms(1)] by (simp_all add: ndp_config_ok_def)
  let ?m = "new_entry C L addr hwaddr st m (k * entry_size C)"
  have "memory_ok C ?m" using s(1) [OF assms(3), of 0] c(4) by simp
  then show "only_slot C m ?m k" using s(2) c(4) by (auto simp: only_slot_def is_neighbour_def same_slot_def)
  show "is_neighbour C ?m k" "slot_of C ?m k 17 = state_code st" using s(2) assms(3) c(4) by (simp_all add: is_neighbour_def)
  show "\<not> is_neighbour C m k" using assms(4) by (simp add: is_neighbour_def)
  show "slot_addr C ?m k = take 16 (ipaddrB8 addr)"
    using s(2) assms(3,5) c(4) by (intro nth_equalityI) (simp_all add: slot_addr_def)
  show "slot_hw C L ?m k = (case hwaddr of None \<Rightarrow> slot_hw C L m k | Some hw \<Rightarrow> take 6 hw)"
  proof (cases hwaddr)
    case None
    then show ?thesis using s(2) assms(3) c by (auto simp: slot_hw_def)
  next
    case (Some hw)
    then show ?thesis using s(2) assms(3) assms(6) c by (intro nth_equalityI) (auto simp: slot_hw_def)
  qed
qed

lemma addNDPCacheEntry_cases:
  "addNDPCacheEntry C L addr hwaddr st m =
     (case ndpcache_find C addr m of
        Some p \<Rightarrow> (Some p, set_ndp_state p st m)
      | None \<Rightarrow> let m = (if findEntry C 0 FreeEntry_ID m = None then dropUnused C L m else m) in
          case findEntry C 0 FreeEntry_ID m of None \<Rightarrow> (None, m) | Some (p, _) \<Rightarrow> (Some p, new_entry C L addr hwaddr st m p))"
  unfolding addNDPCacheEntry_def new_entry_def Let_def ..

text \<open>The cache as a map from the bytes of an address.\<close>

definition ndp_map :: "memory_config \<Rightarrow> ndp_config \<Rightarrow> memory \<Rightarrow> u8 list \<Rightarrow> (u8 \<times> u8 list) option" where
  "ndp_map C L m bs = (if length bs = 16 then neighbours C L m \<lparr>ipaddrB8 = bs\<rparr> else None)"

lemma ndp_map_addr: "length (ipaddrB8 addr) = 16 \<Longrightarrow> ndp_map C L m (ipaddrB8 addr) = neighbours C L m addr"
  by (simp add: ndp_map_def neighbours_def ndpcache_find_def compare_ipv6_addr_def)

lemma ndp_map_removed:
  assumes "memory_ok C m" and "ndp_config_ok C L" and "ndp_unique C m" and "only_slot C m m' k" and "is_neighbour C m k"
    and "\<not> is_neighbour C m' k"
  shows "ndp_map C L m' = (ndp_map C L m)(slot_addr C m k := None)"
  by (rule ext) (auto simp: ndp_map_def entry_removed(2) [OF assms])

lemma ndp_map_written:
  assumes "memory_ok C m" and "ndp_config_ok C L" and "ndp_unique C m" and "only_slot C m m' k" and "is_neighbour C m' k"
    and "if is_neighbour C m k then slot_addr C m k = slot_addr C m' k else ndp_map C L m (slot_addr C m' k) = None"
  shows "ndp_unique C m'" "ndp_map C L m' = (ndp_map C L m)(slot_addr C m' k \<mapsto> (slot_of C m' k 17, slot_hw C L m' k))"
proof -
  have n: "if is_neighbour C m k then slot_addr C m k = slot_addr C m' k else neighbours C L m \<lparr>ipaddrB8 = slot_addr C m' k\<rparr> = None"
    using assms(6) by (simp add: ndp_map_def split: if_splits)
  show "ndp_unique C m'" by (rule entry_written(1) [OF assms(1-5) n])
  show "ndp_map C L m' = (ndp_map C L m)(slot_addr C m' k \<mapsto> (slot_of C m' k 17, slot_hw C L m' k))"
    by (rule ext) (auto simp: ndp_map_def entry_written(2) [OF assms(1-5) n])
qed

lemma add_known_entry:
  assumes "memory_ok C m" and "ndp_config_ok C L" and "ndp_unique C m" and "length (ipaddrB8 addr) = 16"
    and "ndp_map C L m (ipaddrB8 addr) = Some (s, hw)" and "addNDPCacheEntry C L addr hwaddr st m = (r, m')"
  shows "memory_ok C m'" "ndp_unique C m'" "r \<noteq> None" "ndp_map C L m' = (ndp_map C L m)(ipaddrB8 addr \<mapsto> (state_code st, hw))"
    "ndpcache_find C addr m' = r"
proof -
  have "neighbours C L m addr = Some (s, hw)" using assms(5) by (simp add: ndp_map_addr [OF assms(4)])
  then obtain k where k: "is_neighbour C m k" "slot_addr C m k = ipaddrB8 addr" "hw = slot_hw C L m k"
    using neighbours_Some [OF assms(1,3,2), of addr "(s, hw)"] assms(4) by auto
  have kn: "k < cache_entries C" using k(1) by (simp add: is_neighbour_def)
  have "ndpcache_find C addr m = Some (k * entry_size C)" using find_neighbour [OF assms(1,3) k(1)] k(2) assms(4) by simp
  then have r: "r = Some (k * entry_size C)" "m' = set_ndp_state (k * entry_size C) st m"
    using assms(6) by (simp_all add: addNDPCacheEntry_def)
  have c: "21 \<le> entry_size C" "19 \<le> hw_at L" "hw_at L + 6 \<le> entry_size C"
    using assms(2) size_pos(1) [OF assms(1)] by (simp_all add: ndp_config_ok_def)
  note s = set_ndp_state_slot [where st = st, OF assms(1) kn]
  show ok: "memory_ok C m'" using s(1) [OF kn, of 0] c r by simp
  have o: "only_slot C m m' k" using ok s(2) c unfolding r by (auto simp: only_slot_def is_neighbour_def same_slot_def)
  have i: "is_neighbour C m' k" "slot_addr C m' k = slot_addr C m k" "slot_of C m' k 17 = state_code st" "slot_hw C L m' k = slot_hw C L m k"
    using s(2) [OF kn] c k(1) kn unfolding r by (auto simp: is_neighbour_def slot_addr_def slot_hw_def)
  show "r \<noteq> None" using r by simp
  have n: "if is_neighbour C m k then slot_addr C m k = slot_addr C m' k else ndp_map C L m (slot_addr C m' k) = None" using k i by simp
  show u: "ndp_unique C m'" by (rule ndp_map_written(1) [OF assms(1-3) o i(1) n])
  show "ndp_map C L m' = (ndp_map C L m)(ipaddrB8 addr \<mapsto> (state_code st, hw))"
    using ndp_map_written(2) [OF assms(1-3) o i(1) n] i k by simp
  show "ndpcache_find C addr m' = r" using find_neighbour [OF ok u i(1)] i(2) k(2) assms(4) r by simp
qed

lemma new_entry_map:
  assumes "memory_ok C m" and "ndp_config_ok C L" and "ndp_unique C m" and "length (ipaddrB8 addr) = 16"
    and "ndp_map C L m (ipaddrB8 addr) = None" and "findEntry C 0 FreeEntry_ID m = Some (p, nx)" and "\<And>hw. hwaddr = Some hw \<Longrightarrow> 6 \<le> length hw"
  shows "memory_ok C (new_entry C L addr hwaddr st m p)" "ndp_unique C (new_entry C L addr hwaddr st m p)"
    "ndp_map C L (new_entry C L addr hwaddr st m p) =
      (ndp_map C L m)(ipaddrB8 addr \<mapsto> (state_code st, case hwaddr of None \<Rightarrow> ndp_hw L m p | Some hw \<Rightarrow> take 6 hw))"
    "ndpcache_find C addr (new_entry C L addr hwaddr st m p) = Some p"
proof -
  from find_free_slot [OF assms(1,6)] obtain k where k: "k < cache_entries C" "p = k * entry_size C" "slot_of C m k 0 = 0" .
  have l: "16 \<le> length (ipaddrB8 addr)" using assms(4) by simp
  note n = new_entry_neighbour [where hwaddr = hwaddr, OF assms(1,2) k(1,3) l assms(7), folded k(2)]
  have new: "if is_neighbour C m k then slot_addr C m k = slot_addr C (new_entry C L addr hwaddr st m p) k
      else ndp_map C L m (slot_addr C (new_entry C L addr hwaddr st m p) k) = None"
    using n(3,4) assms(4,5) by simp
  show ok: "memory_ok C (new_entry C L addr hwaddr st m p)" using n(1) by (simp add: only_slot_def)
  show u: "ndp_unique C (new_entry C L addr hwaddr st m p)" by (rule ndp_map_written(1) [OF assms(1-3) n(1,2) new])
  show "ndp_map C L (new_entry C L addr hwaddr st m p) =
      (ndp_map C L m)(ipaddrB8 addr \<mapsto> (state_code st, case hwaddr of None \<Rightarrow> ndp_hw L m p | Some hw \<Rightarrow> take 6 hw))"
    using ndp_map_written(2) [OF assms(1-3) n(1,2) new] n(4-6) assms(4) entry_in_slot(2) [OF assms(1) k(1) assms(2)] k(2)
    by (simp split: option.splits)
  show "ndpcache_find C addr (new_entry C L addr hwaddr st m p) = Some p"
    using find_neighbour [OF ok u n(2), of addr] n(4) assms(4) k(2) by simp
qed

lemma unknown_not_found: "length (ipaddrB8 addr) = 16 \<Longrightarrow> ndp_map C L m (ipaddrB8 addr) = None \<Longrightarrow> ndpcache_find C addr m = None"
  by (simp add: ndp_map_addr) (simp add: neighbours_def)

lemma freed_entry:
  assumes "memory_ok C m" and "ndp_config_ok C L" and "ndp_unique C m" and "is_neighbour C m k"
  shows "memory_ok C (freeNDPCacheEntry C (k * entry_size C) m)" "ndp_unique C (freeNDPCacheEntry C (k * entry_size C) m)"
    "ndp_map C L (freeNDPCacheEntry C (k * entry_size C) m) = (ndp_map C L m)(slot_addr C m k := None)"
    "slot_of C (freeNDPCacheEntry C (k * entry_size C) m) k 0 = 0"
proof -
  note f = freeNDPCacheEntry_neighbours [OF assms(1,4)]
  have k: "k < cache_entries C" using assms(4) by (simp add: is_neighbour_def)
  show "memory_ok C (freeNDPCacheEntry C (k * entry_size C) m)" using f(1) by (simp add: only_slot_def)
  show "ndp_unique C (freeNDPCacheEntry C (k * entry_size C) m)" by (rule entry_removed(1) [OF assms(1-3) f(1) assms(4) f(2)])
  show "ndp_map C L (freeNDPCacheEntry C (k * entry_size C) m) = (ndp_map C L m)(slot_addr C m k := None)"
    by (rule ndp_map_removed [OF assms(1-3) f(1) assms(4) f(2)])
  show "slot_of C (freeNDPCacheEntry C (k * entry_size C) m) k 0 = 0"
    using freeNDPCacheEntry_slots(2) [OF assms(1) k k, of 0] size_pos(1) [OF assms(1)] by simp
qed

lemma add_new_entry:
  assumes "memory_ok C m" and "ndp_config_ok C L" and "ndp_unique C m" and "length (ipaddrB8 addr) = 16"
    and "ndp_map C L m (ipaddrB8 addr) = None" and "findEntry C 0 FreeEntry_ID m \<noteq> None" and "\<And>hw. hwaddr = Some hw \<Longrightarrow> length hw = 6"
    and "addNDPCacheEntry C L addr hwaddr st m = (r, m')"
  shows "memory_ok C m'" "ndp_unique C m'" "r \<noteq> None" "ndpcache_find C addr m' = r"
    "ndp_map C L m' = (ndp_map C L m)(ipaddrB8 addr \<mapsto> (state_code st, case hwaddr of None \<Rightarrow> ndp_hw L m (the r) | Some hw \<Rightarrow> hw))"
proof -
  obtain p nx where p: "findEntry C 0 FreeEntry_ID m = Some (p, nx)" using assms(6) by (cases "findEntry C 0 FreeEntry_ID m") auto
  have r: "r = Some p" "m' = new_entry C L addr hwaddr st m p"
    using assms(8) p unknown_not_found [OF assms(4,5)] by (simp_all add: addNDPCacheEntry_cases)
  have l: "6 \<le> length hw" if "hwaddr = Some hw" for hw using that assms(7) by simp
  note n = new_entry_map [OF assms(1-5) p l, of hwaddr st]
  show "memory_ok C m'" "ndp_unique C m'" "r \<noteq> None" "ndpcache_find C addr m' = r" using n(1,2,4) r by simp_all
  show "ndp_map C L m' = (ndp_map C L m)(ipaddrB8 addr \<mapsto> (state_code st, case hwaddr of None \<Rightarrow> ndp_hw L m (the r) | Some hw \<Rightarrow> hw))"
    using n(3) r assms(7) by (cases hwaddr) simp_all
qed

lemma add_to_full_cache:
  assumes "memory_ok C m" and "ndp_config_ok C L" and "ndp_unique C m" and "length (ipaddrB8 addr) = 16"
    and "ndp_map C L m (ipaddrB8 addr) = None" and "\<And>hw. hwaddr = Some hw \<Longrightarrow> 6 \<le> length hw"
    and "findEntry C 0 FreeEntry_ID m = None" and "ndp_expires L" and "addNDPCacheEntry C L addr hwaddr st m = (r, m')"
  obtains "r = None" and "m' = m" and "\<forall>k. is_neighbour C m k \<longrightarrow> slot_of C m k (expire_at L) = 255 \<or> 50 \<le> slot_of C m k (expire_at L)"
  | k hw where "is_neighbour C m k" and "slot_of C m k (expire_at L) < 50"
    and "\<forall>j. is_neighbour C m j \<longrightarrow> slot_of C m k (expire_at L) \<le> slot_of C m j (expire_at L)"
    and "r \<noteq> None" and "memory_ok C m'" and "ndp_unique C m'"
    and "ndp_map C L m' = (ndp_map C L m)(slot_addr C m k := None, ipaddrB8 addr \<mapsto> (state_code st, hw))"
    and "\<forall>h. hwaddr = Some h \<longrightarrow> hw = take 6 h"
proof -
  have a: "addNDPCacheEntry C L addr hwaddr st m =
      (let m = dropUnused C L m in
       case findEntry C 0 FreeEntry_ID m of None \<Rightarrow> (None, m) | Some (p, _) \<Rightarrow> (Some p, new_entry C L addr hwaddr st m p))"
    unfolding addNDPCacheEntry_cases unknown_not_found [OF assms(4,5)] using assms(7) by simp
  have d: "dropUnused C L m = releaseEntryBelowImportance C L 50 m" using assms(8) by (simp add: dropUnused_def importance_defs)
  show thesis
  proof (rule releaseEntryBelowImportance_slots [OF assms(1), of L 50])
    assume "\<forall>k. is_neighbour C m k \<longrightarrow> slot_of C m k (expire_at L) = 255 \<or> 50 \<le> slot_of C m k (expire_at L)"
      and "releaseEntryBelowImportance C L 50 m = m"
    then show thesis using that(1) assms(7,9) a d by (simp add: Let_def)
  next
    fix k assume k: "is_neighbour C m k" "slot_of C m k (expire_at L) < 50"
        "\<forall>j. is_neighbour C m j \<longrightarrow> slot_of C m k (expire_at L) \<le> slot_of C m j (expire_at L)"
      and e: "releaseEntryBelowImportance C L 50 m = freeNDPCacheEntry C (k * entry_size C) m"
    let ?m = "freeNDPCacheEntry C (k * entry_size C) m"
    note f = freed_entry [OF assms(1-3) k(1)]
    have kn: "k < cache_entries C" using k(1) by (simp add: is_neighbour_def)
    obtain p nx where p: "findEntry C 0 FreeEntry_ID ?m = Some (p, nx)" using no_free_slot [OF f(1)] f(4) kn by fastforce
    have r: "r = Some p" "m' = new_entry C L addr hwaddr st ?m p" using assms(9) a d e p by (simp_all add: Let_def)
    have n: "ndp_map C L ?m (ipaddrB8 addr) = None" using f(3) assms(5) by simp
    note w = new_entry_map [OF f(1) assms(2) f(2) assms(4) n p assms(6)]
    show thesis
      by (rule that(2) [OF k, of "case hwaddr of None \<Rightarrow> ndp_hw L ?m p | Some hw \<Rightarrow> take 6 hw"])
         (use w [where hwaddr = hwaddr and st = st] f(3) r in \<open>simp_all\<close>)
  qed
qed

subsection \<open>The cache is a map\<close>

text \<open>C22: A known address gets the new state and keeps its hardware address, even when another one is given; an unknown one is added
  when there is room. Other addresses stay as they are, and freeing an entry removes its address.\<close>

theorem neighbour_cache_refines_map:
  assumes "memory_ok C m" and "ndp_config_ok C L" and "ndp_unique C m" and "length (ipaddrB8 addr) = 16" and "length hwaddr = 6"
    and "findEntry C 0 FreeEntry_ID m \<noteq> None" and "addNDPCacheEntry C L addr (Some hwaddr) st m = (r, m')"
  shows "memory_ok C m' \<and> ndp_unique C m' \<and>
    ndp_map C L m' = (ndp_map C L m)(ipaddrB8 addr \<mapsto>
      (state_code st, case ndp_map C L m (ipaddrB8 addr) of None \<Rightarrow> hwaddr | Some (s, hw) \<Rightarrow> hw)) \<and>
    (\<exists>p. r = Some p \<and> ndpcache_find C addr m' = Some p \<and>
      ndp_map C L (freeNDPCacheEntry C p m') = (ndp_map C L m)(ipaddrB8 addr := None))"
proof -
  let ?v = "(state_code st, case ndp_map C L m (ipaddrB8 addr) of None \<Rightarrow> hwaddr | Some (s, hw) \<Rightarrow> hw)"
  have m: "memory_ok C m'" "ndp_unique C m'" "r \<noteq> None" "ndp_map C L m' = (ndp_map C L m)(ipaddrB8 addr \<mapsto> ?v)" "ndpcache_find C addr m' = r"
    using add_known_entry [OF assms(1-4) _ assms(7)] add_new_entry [OF assms(1-4) _ assms(6) _ assms(7)] assms(5)
    by (cases "ndp_map C L m (ipaddrB8 addr)"; force)+
  then obtain p where p: "r = Some p" "ndpcache_find C addr m' = Some p" by (cases r) simp_all
  from find_slot_neighbour [OF m(1) p(2)] obtain k
    where k: "is_neighbour C m' k" "slot_addr C m' k = take 16 (ipaddrB8 addr)" "p = k * entry_size C" by blast
  show ?thesis using m p freed_entry(3) [OF m(1) assms(2) m(2) k(1)] k assms(4) by simp
qed

subsection \<open>A round of expiry\<close>

abbreviation entry_expires :: "memory_config \<Rightarrow> ndp_config \<Rightarrow> memory \<Rightarrow> nat \<Rightarrow> bool" where
  "entry_expires C L m k \<equiv> slot_of C m k (expire_at L) < 6"

definition sweep_entry :: "memory_config \<Rightarrow> ndp_config \<Rightarrow> nat \<Rightarrow> u8 \<times> memory \<Rightarrow> u8 \<times> memory" where
  "sweep_entry C L p = (\<lambda>(releasedEntries, m).
     if expire_value L m p < NDPCACHE_EXPIRE_RATE_PER_MINUTE then (releasedEntries + 1, freeNDPCacheEntry C p m)
     else if expire_value L m p \<noteq> 255
     then (releasedEntries, set_expire_value L p ((expire_value L m p - NDPCACHE_EXPIRE_RATE_PER_MINUTE) OR 1) m)
     else (releasedEntries, m))"

text \<open>What a round leaves of an entry, and which prefixes go with their routers.\<close>

definition swept :: "memory_config \<Rightarrow> ndp_config \<Rightarrow> memory \<Rightarrow> nat \<Rightarrow> nat \<Rightarrow> u8" where
  "swept C L m k y =
     (if entry_expires C L m k then (if y = 0 then 0 else slot_of C m k y)
      else if y = expire_at L \<and> slot_of C m k y \<noteq> 255 then (slot_of C m k y - 6) OR 1 else slot_of C m k y)"

definition prefix_of :: "memory_config \<Rightarrow> memory \<Rightarrow> nat \<Rightarrow> nat \<Rightarrow> bool" where
  "prefix_of C m j k \<longleftrightarrow> slot_of C m j 0 = AddressEntry_ID \<and> bit (slot_of C m k 18) 0 \<and> slot_of C m j 19 = of_nat k"

lemma sweep_entry_slots:
  assumes "memory_ok C m" and "ndp_config_ok C L" and "is_neighbour C m k" and "j < cache_entries C" and "y < entry_size C"
  shows "memory_ok C (snd (sweep_entry C L (k * entry_size C) (c, m)))"
    "slot_of C (snd (sweep_entry C L (k * entry_size C) (c, m))) j y =
      (if j = k then swept C L m k y else if y = 0 \<and> entry_expires C L m k \<and> prefix_of C m j k then 0 else slot_of C m j y)"
    "fst (sweep_entry C L (k * entry_size C) (c, m)) = c + of_bool (entry_expires C L m k)"
proof -
  have k: "k < cache_entries C" "slot_of C m k 0 = NDPCacheEntry_ID" using assms(3) by (simp_all add: is_neighbour_def)
  have c: "expire_at L < entry_size C" "19 \<le> expire_at L" using assms(2) by (simp_all add: ndp_config_ok_def)
  note f = freeNDPCacheEntry_slots [OF assms(1) k(1) assms(4,5)]
  note u = slot_of_update [OF assms(1) k(1) c(1) assms(5,4)]
  note d = sweep_entry_def fields_in_slot importance_defs swept_def prefix_of_def set_expire_value_def
  show "memory_ok C (snd (sweep_entry C L (k * entry_size C) (c, m)))"
    using f(1) assms(1) memory_ok_cong [OF assms(1)] by (simp add: d)
  show "fst (sweep_entry C L (k * entry_size C) (c, m)) = c + of_bool (entry_expires C L m k)" by (simp add: d)
  show "slot_of C (snd (sweep_entry C L (k * entry_size C) (c, m))) j y =
      (if j = k then swept C L m k y else if y = 0 \<and> entry_expires C L m k \<and> prefix_of C m j k then 0 else slot_of C m j y)"
  proof (cases "entry_expires C L m k")
    case True
    then show ?thesis using f(2) k(2) by (auto simp: d)
  next
    case False
    then show ?thesis using u k(2) by (auto simp: d)
  qed
qed

lemma fold_sweep:
  assumes "memory_ok C m" and "ndp_config_ok C L" and "\<forall>k \<in> set ks. is_neighbour C m k" and "distinct ks"
  shows "memory_ok C (snd (fold (\<lambda>k. sweep_entry C L (k * entry_size C)) ks (c, m))) \<and>
    fst (fold (\<lambda>k. sweep_entry C L (k * entry_size C)) ks (c, m)) = c + of_nat (length (filter (entry_expires C L m) ks)) \<and>
    (\<forall>j < cache_entries C. \<forall>y < entry_size C. slot_of C (snd (fold (\<lambda>k. sweep_entry C L (k * entry_size C)) ks (c, m))) j y =
      (if j \<in> set ks then swept C L m j y
       else if y = 0 \<and> (\<exists>k \<in> set ks. entry_expires C L m k \<and> prefix_of C m j k) then 0 else slot_of C m j y))"
  using assms
proof (induction ks arbitrary: c m)
  case Nil
  then show ?case by simp
next
  case (Cons k ks)
  obtain c1 m1 where st: "sweep_entry C L (k * entry_size C) (c, m) = (c1, m1)" by (cases "sweep_entry C L (k * entry_size C) (c, m)")
  have k: "is_neighbour C m k" "k < cache_entries C" "k \<notin> set ks" using Cons.prems by (simp_all add: is_neighbour_def)
  have z: "0 < entry_size C" "18 < entry_size C" "19 < entry_size C" "expire_at L < entry_size C" "0 < expire_at L"
    using size_pos(1) [OF Cons.prems(1)] Cons.prems(2) by (simp_all add: ndp_config_ok_def)
  note s = sweep_entry_slots [OF Cons.prems(1,2) k(1), of _ _ c, unfolded st, simplified]
  have ok: "memory_ok C m1" using s(1) [OF k(2) z(1)] .
  have c1: "c1 = c + of_bool (entry_expires C L m k)" using s(3) [OF k(2) z(1)] .
  have same: "slot_of C m1 j y = slot_of C m j y" if "j \<in> set ks" "y < entry_size C" for j y
    using s(2) [of j y] that Cons.prems(3) k(3) by (auto simp: prefix_of_def is_neighbour_def)
  have n: "\<forall>j \<in> set ks. is_neighbour C m1 j" using same z(1) Cons.prems(3) by (auto simp: is_neighbour_def)
  have ex: "entry_expires C L m1 j \<longleftrightarrow> entry_expires C L m j" if "j \<in> set ks" for j using same [OF that z(4)] by simp
  have p: "prefix_of C m1 j l \<longleftrightarrow> prefix_of C m j l \<and> \<not> (entry_expires C L m k \<and> prefix_of C m j k)" if "l \<in> set ks" "j < cache_entries C" "j \<noteq> k" for j l
    using same [OF that(1) z(2)] s(2) [OF that(2) z(1)] s(2) [OF that(2) z(3)] that(3) by (auto simp: prefix_of_def)
  have pk: "\<not> prefix_of C m1 k l" for l
    using s(2) [OF k(2) z(1)] k(1) z(5) by (auto simp: prefix_of_def swept_def is_neighbour_def split: if_splits)
  have sw: "swept C L m1 j y = swept C L m j y" if "j \<in> set ks" "y < entry_size C" for j y
    using same [OF that] same [OF that(1) z(4)] by (auto simp: swept_def)
  have fl: "filter (entry_expires C L m1) ks = filter (entry_expires C L m) ks" using ex by (intro filter_cong) simp_all
  note IH = Cons.IH [OF ok Cons.prems(2) n, of c1]
  show ?case
  proof (intro conjI allI impI)
    show "memory_ok C (snd (fold (\<lambda>k. sweep_entry C L (k * entry_size C)) (k # ks) (c, m)))" using IH Cons.prems(4) st by simp
    show "fst (fold (\<lambda>k. sweep_entry C L (k * entry_size C)) (k # ks) (c, m)) = c + of_nat (length (filter (entry_expires C L m) (k # ks)))"
      using IH Cons.prems(4) st c1 fl by simp
    fix j y assume j: "j < cache_entries C" "y < entry_size C"
    have i: "slot_of C (snd (fold (\<lambda>k. sweep_entry C L (k * entry_size C)) (k # ks) (c, m))) j y =
        (if j \<in> set ks then swept C L m1 j y
         else if y = 0 \<and> (\<exists>l \<in> set ks. entry_expires C L m1 l \<and> prefix_of C m1 j l) then 0 else slot_of C m1 j y)"
      using IH Cons.prems(4) st j by simp
    show "slot_of C (snd (fold (\<lambda>k. sweep_entry C L (k * entry_size C)) (k # ks) (c, m))) j y =
        (if j \<in> set (k # ks) then swept C L m j y
         else if y = 0 \<and> (\<exists>l \<in> set (k # ks). entry_expires C L m l \<and> prefix_of C m j l) then 0 else slot_of C m j y)"
    proof (cases "j = k")
      case True
      then show ?thesis unfolding i using k(3) pk s(2) [OF j] by simp
    next
      case False
      then show ?thesis unfolding i using s(2) [OF j] sw [OF _ j(2)] ex p [OF _ j(1)] by auto
    qed
  qed
qed

lemma releaseOldEntries_slots:
  assumes "memory_ok C m" and "ndp_config_ok C L"
  shows "memory_ok C (snd (releaseOldEntries C L m))"
    "fst (releaseOldEntries C L m) = of_nat (length (filter (entry_expires C L m) (filter (is_neighbour C m) [0..<cache_entries C])))"
    "j < cache_entries C \<Longrightarrow> y < entry_size C \<Longrightarrow> slot_of C (snd (releaseOldEntries C L m)) j y =
      (if is_neighbour C m j then swept C L m j y
       else if y = 0 \<and> (\<exists>k. is_neighbour C m k \<and> entry_expires C L m k \<and> prefix_of C m j k) then 0 else slot_of C m j y)"
proof -
  let ?b = "sweep_entry C L" and ?ks = "filter (is_neighbour C m) [0..<cache_entries C]"
  have z: "0 < entry_size C" using size_pos(1) [OF assms(1)] by simp
  have "snd (for_entries C NDPCacheEntry_ID ?b 0 (0, m)) = fold ?b (visited_entries C 0 NDPCacheEntry_ID (snd (0 :: u8, m))) (0, m)"
  proof (rule for_entries_fold)
    show "memory_ok C (snd (0 :: u8, m))" using assms(1) by simp
    fix k and st :: "u8 \<times> memory"
    assume ok: "memory_ok C (snd st)" "k < cache_entries C" "snd st ! (k * entry_size C) = NDPCacheEntry_ID"
    then have n: "is_neighbour C (snd st) k" by (simp add: is_neighbour_def slot_of_zero)
    note s = sweep_entry_slots [OF ok(1) assms(2) n _ z, of _ "fst st", simplified]
    show "memory_ok C (snd (?b (k * entry_size C) st)) \<and> (\<forall>l. k < l \<and> l < cache_entries C \<longrightarrow>
        (snd (?b (k * entry_size C) st) ! (l * entry_size C) = NDPCacheEntry_ID \<longleftrightarrow> snd st ! (l * entry_size C) = NDPCacheEntry_ID))"
      using s(1) [OF ok(2)] s(2) by (auto simp: slot_of_zero prefix_of_def)
  qed
  moreover have "visited_entries C 0 NDPCacheEntry_ID (snd (0 :: u8, m)) = map (\<lambda>k. k * entry_size C) ?ks"
    unfolding visited_all [OF assms(1)] snd_conv by (intro arg_cong [of _ _ "map _"] filter_cong) (simp_all add: is_neighbour_def)
  ultimately have e: "releaseOldEntries C L m = fold (\<lambda>k. sweep_entry C L (k * entry_size C)) ?ks (0, m)"
    by (simp add: releaseOldEntries_def sweep_entry_def [abs_def] fold_map comp_def)
  have "\<forall>k \<in> set ?ks. is_neighbour C m k" "distinct ?ks" by auto
  note f = fold_sweep [OF assms this, of 0]
  show "memory_ok C (snd (releaseOldEntries C L m))" using f e by simp
  show "fst (releaseOldEntries C L m) = of_nat (length (filter (entry_expires C L m) ?ks))" using f e by simp
  show "j < cache_entries C \<Longrightarrow> y < entry_size C \<Longrightarrow> slot_of C (snd (releaseOldEntries C L m)) j y =
      (if is_neighbour C m j then swept C L m j y
       else if y = 0 \<and> (\<exists>k. is_neighbour C m k \<and> entry_expires C L m k \<and> prefix_of C m j k) then 0 else slot_of C m j y)"
    using f e by (auto simp: is_neighbour_def)
qed

text \<open>Rounds of expiry, one after the other.\<close>

definition expiry_rounds :: "memory_config \<Rightarrow> ndp_config \<Rightarrow> nat \<Rightarrow> memory \<Rightarrow> memory" where
  "expiry_rounds C L t m = ((\<lambda>m. snd (releaseOldEntries C L m)) ^^ t) m"

lemma expiry_rounds_Suc: "expiry_rounds C L (Suc t) m = snd (releaseOldEntries C L (expiry_rounds C L t m))"
  by (simp add: expiry_rounds_def)

lemma expiry_rounds_add: "expiry_rounds C L a (expiry_rounds C L b m) = expiry_rounds C L (a + b) m"
  by (simp add: expiry_rounds_def funpow_add)

lemma unat_next_u8: "unat (x :: u8) < 255 \<Longrightarrow> unat (x + 1) = unat x + 1"
  by (simp add: unat_word_ariths)

lemma even_rest: "even (n :: nat) \<Longrightarrow> Suc n div 6 = n div 6"
  by presburger

lemma aged_value:
  fixes v :: u8
  assumes "\<not> v < 6"
  shows "unat ((v - 6) OR 1) div 6 = unat v div 6 - 1" "(v - 6) OR 1 \<noteq> 255"
proof -
  have v: "6 \<le> unat v" "unat v < 256" using assms by (simp_all add: word_less_nat_alt not_less)
  have d: "unat (v - 6) = unat v - 6" using assms by (simp add: unat_sub word_le_nat_alt word_less_nat_alt not_less)
  have e: "even (v - 6) \<longleftrightarrow> even (unat (v - 6))" by transfer (simp add: even_nat_iff)
  have u: "unat ((v - 6) OR 1) = unat v - 6 + of_bool (even (unat v - 6))"
  proof (cases "even (v - 6)")
    case True
    have "unat (v - 6 + 1) = unat (v - 6) + 1" by (rule unat_next_u8) (use v d in linarith)
    then show ?thesis using True e d by (simp add: or_one_eq)
  qed (use e d in \<open>simp add: or_one_eq\<close>)
  have "(unat v - 6 + of_bool (even (unat v - 6))) div 6 = (unat v - 6) div 6"
  proof (cases "even (unat v - 6)")
    case True
    from even_rest [OF this] show ?thesis using True by simp
  qed simp
  then show "unat ((v - 6) OR 1) div 6 = unat v div 6 - 1" unfolding u using v(1) le_div_geq [of 6 "unat v"] by simp
  have "unat v - 6 + of_bool (even (unat v - 6)) < 255" using v by (cases "even (unat v - 6)") (simp_all del: unat_u8_less)
  then have "unat ((v - 6) OR 1) \<noteq> unat (255 :: u8)" unfolding u by simp
  then show "(v - 6) OR 1 \<noteq> 255" by metis
qed

lemma expiry_round_entry:
  assumes "memory_ok C m" and "ndp_config_ok C L" and "is_neighbour C m k"
  shows "is_neighbour C (snd (releaseOldEntries C L m)) k \<longleftrightarrow> \<not> entry_expires C L m k"
    "y < entry_size C \<Longrightarrow> y \<noteq> 0 \<Longrightarrow> y \<noteq> expire_at L \<Longrightarrow> slot_of C (snd (releaseOldEntries C L m)) k y = slot_of C m k y"
    "\<not> entry_expires C L m k \<Longrightarrow> slot_of C (snd (releaseOldEntries C L m)) k (expire_at L) =
      (if slot_of C m k (expire_at L) = 255 then 255 else (slot_of C m k (expire_at L) - 6) OR 1)"
proof -
  have k: "k < cache_entries C" using assms(3) by (simp add: is_neighbour_def)
  have c: "0 < entry_size C" "expire_at L < entry_size C" "0 < expire_at L"
    using assms(2) size_pos(1) [OF assms(1)] by (auto simp: ndp_config_ok_def)
  note r = releaseOldEntries_slots(3) [OF assms(1,2) k]
  show "is_neighbour C (snd (releaseOldEntries C L m)) k \<longleftrightarrow> \<not> entry_expires C L m k"
    using r [OF c(1)] assms(3) c(3) by (simp add: is_neighbour_def swept_def)
  show "y < entry_size C \<Longrightarrow> y \<noteq> 0 \<Longrightarrow> y \<noteq> expire_at L \<Longrightarrow> slot_of C (snd (releaseOldEntries C L m)) k y = slot_of C m k y"
    using r assms(3) by (simp add: swept_def)
  show "\<not> entry_expires C L m k \<Longrightarrow> slot_of C (snd (releaseOldEntries C L m)) k (expire_at L) =
      (if slot_of C m k (expire_at L) = 255 then 255 else (slot_of C m k (expire_at L) - 6) OR 1)"
    using r [OF c(2)] assms(3) by (simp add: swept_def)
qed

lemma no_entry_from_round:
  assumes "memory_ok C m" and "ndp_config_ok C L" and "\<not> is_neighbour C m k"
  shows "\<not> is_neighbour C (snd (releaseOldEntries C L m)) k"
proof (cases "k < cache_entries C")
  case True
  have "0 < entry_size C" using size_pos(1) [OF assms(1)] by simp
  from releaseOldEntries_slots(3) [OF assms(1,2) True this] show ?thesis using assms(3) True by (simp add: is_neighbour_def)
qed (simp add: is_neighbour_def)

lemma rounds_alive:
  assumes "memory_ok C m" and "ndp_config_ok C L" and "is_neighbour C m k" and "slot_of C m k (expire_at L) \<noteq> 255"
    and "t \<le> unat (slot_of C m k (expire_at L)) div 6"
  shows "memory_ok C (expiry_rounds C L t m) \<and> is_neighbour C (expiry_rounds C L t m) k \<and>
    (\<forall>y < entry_size C. y \<noteq> expire_at L \<longrightarrow> slot_of C (expiry_rounds C L t m) k y = slot_of C m k y) \<and>
    slot_of C (expiry_rounds C L t m) k (expire_at L) \<noteq> 255 \<and>
    unat (slot_of C (expiry_rounds C L t m) k (expire_at L)) div 6 = unat (slot_of C m k (expire_at L)) div 6 - t"
  using assms(5)
proof (induction t)
  case 0
  then show ?case using assms by (simp add: expiry_rounds_def)
next
  case (Suc t)
  let ?m = "expiry_rounds C L t m" and ?v = "slot_of C (expiry_rounds C L t m) k (expire_at L)"
  have i: "memory_ok C ?m" "is_neighbour C ?m k" "\<forall>y < entry_size C. y \<noteq> expire_at L \<longrightarrow> slot_of C ?m k y = slot_of C m k y"
      "?v \<noteq> 255" "unat ?v div 6 = unat (slot_of C m k (expire_at L)) div 6 - t" using Suc by simp_all
  have "1 \<le> unat ?v div 6" using i(5) Suc.prems by simp
  then have n: "\<not> entry_expires C L ?m k" by (simp add: word_less_nat_alt not_less)
  note r = expiry_round_entry [OF i(1) assms(2) i(2)]
  have "slot_of C (expiry_rounds C L (Suc t) m) k y = slot_of C m k y" if "y < entry_size C" "y \<noteq> expire_at L" for y
  proof (cases "y = 0")
    case True
    then show ?thesis using r(1) n assms(3) by (simp add: expiry_rounds_Suc is_neighbour_def)
  qed (use r(2) i(3) that in \<open>simp add: expiry_rounds_Suc\<close>)
  then show ?case
    using releaseOldEntries_slots(1) [OF i(1) assms(2)] r(1,3) n i(4,5) aged_value [of ?v] by (simp add: expiry_rounds_Suc)
qed

lemma rounds_over:
  assumes "memory_ok C m" and "ndp_config_ok C L" and "\<not> is_neighbour C m k"
  shows "memory_ok C (expiry_rounds C L t m) \<and> \<not> is_neighbour C (expiry_rounds C L t m) k"
proof (induction t)
  case 0
  then show ?case using assms by (simp add: expiry_rounds_def)
next
  case (Suc t)
  then show ?case using releaseOldEntries_slots(1) [OF _ assms(2)] no_entry_from_round [OF _ assms(2)] by (simp add: expiry_rounds_Suc)
qed


subsection \<open>The full cache\<close>

text \<open>When every entry is taken and the address is new, the least important neighbour makes room, if its importance is below 50;
  otherwise nothing changes and there is no entry.\<close>

theorem full_cache_evicts:
  assumes "memory_ok C m" and "ndp_config_ok C L" and "ndp_unique C m" and "length (ipaddrB8 addr) = 16" and "length hwaddr = 6"
    and "ndp_map C L m (ipaddrB8 addr) = None" and "\<forall>k < cache_entries C. slot_of C m k 0 \<noteq> 0" and "ndp_expires L"
    and "addNDPCacheEntry C L addr (Some hwaddr) st m = (r, m')"
  shows "if \<exists>k. is_neighbour C m k \<and> slot_of C m k (expire_at L) < 50
    then \<exists>k. is_neighbour C m k \<and> (\<forall>j. is_neighbour C m j \<longrightarrow> slot_of C m k (expire_at L) \<le> slot_of C m j (expire_at L)) \<and> r \<noteq> None \<and>
      ndp_map C L m' = (ndp_map C L m)(slot_addr C m k := None, ipaddrB8 addr \<mapsto> (state_code st, hwaddr))
    else r = None \<and> m' = m"
proof -
  have f: "findEntry C 0 FreeEntry_ID m = None" using no_free_slot [OF assms(1)] assms(7) by simp
  have l: "6 \<le> length hw" if "Some hwaddr = Some hw" for hw using that assms(5) by simp
  show ?thesis
  proof (rule add_to_full_cache [OF assms(1-4,6) l f assms(8,9)])
    assume "r = None" "m' = m" and n: "\<forall>k. is_neighbour C m k \<longrightarrow> slot_of C m k (expire_at L) = 255 \<or> 50 \<le> slot_of C m k (expire_at L)"
    moreover have "\<not> slot_of C m k (expire_at L) < 50" if "is_neighbour C m k" for k
      using n that by (auto simp: word_less_nat_alt word_le_nat_alt)
    ultimately show ?thesis by auto
  next
    fix k hw
    assume "is_neighbour C m k" "slot_of C m k (expire_at L) < 50"
      "\<forall>j. is_neighbour C m j \<longrightarrow> slot_of C m k (expire_at L) \<le> slot_of C m j (expire_at L)" "r \<noteq> None"
      "ndp_map C L m' = (ndp_map C L m)(slot_addr C m k := None, ipaddrB8 addr \<mapsto> (state_code st, hw))"
      "\<forall>h. Some hwaddr = Some h \<longrightarrow> hw = take 6 h"
    then show ?thesis using assms(5) by auto
  qed simp_all
qed

subsection \<open>Writing a known entry\<close>

text \<open>A change that only concerns the bytes of one neighbour behind its address.\<close>

definition changes_entry :: "memory_config \<Rightarrow> memory \<Rightarrow> memory \<Rightarrow> nat \<Rightarrow> bool" where
  "changes_entry C m m' k \<longleftrightarrow> only_slot C m m' k \<and> (\<forall>y < 17. slot_of C m' k y = slot_of C m k y)"

lemma changes_entry_refl: "memory_ok C m \<Longrightarrow> changes_entry C m m k"
  by (simp add: changes_entry_def only_slot_def same_slot_def)

lemma changes_entry_trans: "changes_entry C m m1 k \<Longrightarrow> changes_entry C m1 m2 k \<Longrightarrow> changes_entry C m m2 k"
  by (auto simp: changes_entry_def only_slot_def same_slot_def)

lemma changes_entry_entry:
  assumes "changes_entry C m m' k"
  shows "memory_ok C m'" "is_neighbour C m' k \<longleftrightarrow> is_neighbour C m k" "slot_addr C m' k = slot_addr C m k" "only_slot C m m' k"
  using assms by (auto simp: changes_entry_def only_slot_def is_neighbour_def slot_addr_def)

lemma changes_entry_byte:
  assumes "memory_ok C m" and "is_neighbour C m k" and "17 \<le> x" and "x < entry_size C"
  shows "changes_entry C m (m[k * entry_size C + x := v]) k"
proof -
  have k: "k < cache_entries C" using assms(2) by (simp add: is_neighbour_def)
  have c: "0 < entry_size C" "\<And>y. y < 17 \<Longrightarrow> y < entry_size C" using assms(3,4) by simp_all
  note s = slot_of_update [OF assms(1) k assms(4)]
  show ?thesis
    using s c(1) c(2) assms(3) memory_ok_cong [OF assms(1)] k by (auto simp: changes_entry_def only_slot_def is_neighbour_def same_slot_def)
qed

lemma changes_entry_hw:
  assumes "memory_ok C m" and "is_neighbour C m k" and "ndp_config_ok C L" and "length hw = 6"
  shows "changes_entry C m (set_ndp_hw L (k * entry_size C) hw m) k" "slot_hw C L (set_ndp_hw L (k * entry_size C) hw m) k = hw"
proof -
  have k: "k < cache_entries C" using assms(2) by (simp add: is_neighbour_def)
  have c: "19 \<le> hw_at L" "hw_at L + length hw \<le> entry_size C" using assms(3,4) by (simp_all add: ndp_config_ok_def)
  then have z: "0 < entry_size C" "\<And>y. y < 17 \<Longrightarrow> y < entry_size C" by simp_all
  have e: "set_ndp_hw L (k * entry_size C) hw m = put_bytes (k * entry_size C + hw_at L) hw m" using assms(4) by (simp add: set_ndp_hw_def)
  have "k * entry_size C + hw_at L + length hw \<le> length m"
    using c(2) k assms(1) mult_le_mono1 [of "Suc k" "cache_entries C" "entry_size C"] by (simp add: memory_ok_def)
  then have ok: "memory_ok C (put_bytes (k * entry_size C + hw_at L) hw m)" by (intro memory_ok_cong [OF assms(1)]) simp
  note s = slot_of_put [OF assms(1) k c(2)]
  show "changes_entry C m (set_ndp_hw L (k * entry_size C) hw m) k"
    unfolding e using s z c(1) ok k by (auto simp: changes_entry_def only_slot_def is_neighbour_def same_slot_def)
  show "slot_hw C L (set_ndp_hw L (k * entry_size C) hw m) k = hw"
    unfolding e using s c assms(4) k by (intro nth_equalityI) (simp_all add: slot_hw_def)
qed

lemma changes_entry_map:
  assumes "memory_ok C m" and "ndp_config_ok C L" and "ndp_unique C m" and "is_neighbour C m k" and "changes_entry C m m' k"
    and "slot_addr C m k = ipaddrB8 addr"
  shows "ndp_unique C m'" "ndpcache_find C addr m' = Some (k * entry_size C)"
    "ndp_map C L m' = (ndp_map C L m)(ipaddrB8 addr \<mapsto> (slot_of C m' k 17, slot_hw C L m' k))"
proof -
  note r = changes_entry_entry [OF assms(5)]
  have n: "is_neighbour C m' k" using r(2) assms(4) by simp
  have i: "if is_neighbour C m k then slot_addr C m k = slot_addr C m' k else ndp_map C L m (slot_addr C m' k) = None" using r assms(4) by simp
  show u: "ndp_unique C m'" by (rule ndp_map_written(1) [OF assms(1-3) r(4) n i])
  show "ndp_map C L m' = (ndp_map C L m)(ipaddrB8 addr \<mapsto> (slot_of C m' k 17, slot_hw C L m' k))"
    using ndp_map_written(2) [OF assms(1-3) r(4) n i] r(3) assms(6) by simp
  have "length (ipaddrB8 addr) = 16" using assms(6) slot_addr_length [of C m k] by simp
  then show "ndpcache_find C addr m' = Some (k * entry_size C)" using find_neighbour [OF r(1) u n, of addr] r(3) assms(6) by simp
qed

subsection \<open>The messages of the two hosts\<close>

lemma write_link_option:
  assumes "length pre = 24" and "length rest = 8" and "length hw = 6"
  shows "write_option_linklayer_address type 24 hw 6 (pre @ rest) = Inr (pre @ ndp_option (type, hw))"
proof -
  have "length rest = 6 + 2" using assms(2) by simp
  then obtain a b r where r: "rest = a # b # r" "length r = 6" using two_first by blast
  have p: "peek_all hw 0 6 = Inr hw" by (simp add: peek_all_def assms(3))
  have "poke_all 26 hw ((pre @ [type, 1]) @ r) = Inr ((pre @ [type, 1]) @ hw @ drop (length hw) r)"
    by (rule poke_all_behind) (use assms r in simp_all)
  then show ?thesis
    using poke_at [where pre = pre] assms r p by (simp add: write_option_linklayer_address_def ndp_option_def del: poke_all.simps)
qed

lemma read_link_option:
  assumes "length pre = 24" and "length hw = 6"
  shows "get_option_linklayer_address type (pre @ ndp_option (type, hw)) 24 8 = Inr (Some hw)"
  using ndp_search_first [of type hw 8 type pre "[]"] assms by (simp add: ndp_well_formed_def)

lemma na_message_bytes:
  assumes "length (ipaddrB8 target) = 16" and "length hw = 6" and "length buf = 32"
  shows "na_message target hw 6 buf = Inr ([136, 0] @ take 2 (drop 2 buf) @ [0x60, 0, 0, 0] @ ipaddrB8 target @ ndp_option (TargetLinkLayer, hw))"
proof -
  have "length buf = 30 + 2" using assms(3) by simp
  then obtain a b s where s: "buf = a # b # s" "length s = 28 + 2" using two_first [of buf 30] by auto
  then obtain c d t where t: "s = c # d # t" "length t = 26 + 2" using two_first [of s 28] by auto
  then obtain e f u where u: "t = e # f # u" "length u = 24 + 2" using two_first [of t 26] by auto
  then obtain g h rest where rest: "u = g # h # rest" "length rest = 24" using two_first [of u 24] by auto
  have buf: "buf = [a, b, c, d, e, f, g, h] @ rest" by (simp add: s t u rest)
  have flags: "na_setOverride True (na_setResponse True (na_setRouter False ([136, 0, c, d, 0, 0, 0, 0] @ rest))) = [136, 0, c, d, 0x60, 0, 0, 0] @ rest"
    by (simp add: na_setOverride_def na_setResponse_def na_setRouter_def set8_def get8_def put_bytes_def)
  have r: "poke_all 8 (ipaddrB8 target) ([136, 0, c, d, 0x60, 0, 0, 0] @ rest) =
      Inr ([136, 0, c, d, 0x60, 0, 0, 0] @ ipaddrB8 target @ drop (length (ipaddrB8 target)) rest)"
    by (rule poke_all_behind) (use assms rest in simp_all)
  have w: "write_option_linklayer_address TargetLinkLayer 24 hw 6 (([136, 0, c, d, 0x60, 0, 0, 0] @ ipaddrB8 target) @ drop 16 rest) =
      Inr (([136, 0, c, d, 0x60, 0, 0, 0] @ ipaddrB8 target) @ ndp_option (TargetLinkLayer, hw))"
    by (rule write_link_option) (use assms rest in simp_all)
  show ?thesis using flags r w assms(1) by (simp add: na_message_def buf poke_def)
qed

lemma ns_message_bytes:
  assumes "length (ipaddrB8 dst) = 16" and "length hw = 6" and "length buf = 32"
  shows "ns_message dst hw 6 buf = Inr ([135, 0] @ take 2 (drop 2 buf) @ [0, 0, 0, 0] @ ipaddrB8 dst @ ndp_option (SourceLinkLayer, hw))"
  using write_link_option [of "[135, 0] @ take 2 (drop 2 buf) @ [0, 0, 0, 0] @ ipaddrB8 dst" "drop 24 buf" hw SourceLinkLayer]
    solicitation_head [OF assms(1), of buf 8 hw 6] assms by simp

lemma slot_hw_cong: "(\<And>y. hw_at L \<le> y \<Longrightarrow> y < hw_at L + 6 \<Longrightarrow> slot_of C m' k y = slot_of C m k y) \<Longrightarrow> slot_hw C L m' k = slot_hw C L m k"
  by (simp add: slot_hw_def)

lemma message_fields:
  assumes "length (ipaddrB8 a) = 16" and "length xs = 2" and "message = [t, 0] @ xs @ [f, 0, 0, 0] @ ipaddrB8 a @ opt"
  shows "get8 0 message = t" "get8 1 message = 0" "get8 4 message = f" "message_target message = a"
  using assms by (cases a; cases xs; cases "tl xs"; simp add: get8_def message_target_def eval_nat_numeral)+

subsection \<open>Waiting for a neighbour\<close>

text \<open>An entry that is waited for: it is new, its state is Incomplete, and the other entries are as before.\<close>

lemma own_address_kept:
  assumes "memory_ok C (if_addressmemory ifc)" and "memory_ok C m'"
    and "\<And>j. j < cache_entries C \<Longrightarrow> (slot_of C m' j 0 = AddressEntry_ID \<longleftrightarrow> slot_of C (if_addressmemory ifc) j 0 = AddressEntry_ID) \<and>
      (slot_of C m' j 0 = AddressEntry_ID \<longrightarrow> same_slot C (if_addressmemory ifc) m' j)"
  shows "hasIPv6Address C a (ifc\<lparr>if_addressmemory := m'\<rparr>) = hasIPv6Address C a ifc"
proof -
  have p: "entry_prefixlen m (j * entry_size C) = slot_of C m j 17" for m j by (simp add: entry_prefixlen_def slot_of_def)
  have s: "slot_addr C m' j = slot_addr C (if_addressmemory ifc) j" "slot_of C m' j 17 = slot_of C (if_addressmemory ifc) j 17"
    if "j < cache_entries C" "slot_of C m' j 0 = AddressEntry_ID" for j
    using that assms(3) [of j] size_pos(1) [OF assms(1)] by (auto simp: same_slot_def slot_addr_def)
  show ?thesis
    unfolding hasIPv6Address_def using s assms(3)
    by (auto simp: visited_all [OF assms(1)] visited_all [OF assms(2)] list_ex_iff entry_in_slot(1) [OF assms(1)] entry_in_slot(1) [OF assms(2)] p)
qed

lemma awaited_entry:
  fixes ifc :: v6_interface
  defines "m \<equiv> if_addressmemory ifc"
  assumes "memory_ok C m" and "ndp_config_ok C L" and "ndp_unique C m" and "length (ipaddrB8 addr) = 16"
    and "ndp_map C L m (ipaddrB8 addr) = None" and "findEntry C 0 FreeEntry_ID m = Some (p, nx)"
  obtains k m1 where "addNDPCacheEntry C L addr None NDPCacheEntryState_Incomplete m = (Some p, m1)" and "p = k * entry_size C"
    and "memory_ok C m1" and "ndp_unique C m1" and "is_neighbour C m1 k" and "slot_addr C m1 k = ipaddrB8 addr"
    and "slot_of C m1 k 17 = 0" and "slot_hw C L m1 k = ndp_hw L m p"
    and "ndp_map C L m1 = (ndp_map C L m)(ipaddrB8 addr \<mapsto> (0, ndp_hw L m p))"
    and "\<And>a. hasIPv6Address C a (ifc\<lparr>if_addressmemory := m1\<rparr>) = hasIPv6Address C a ifc"
proof -
  define m1 where "m1 = new_entry C L addr None NDPCacheEntryState_Incomplete m p"
  have a: "addNDPCacheEntry C L addr None NDPCacheEntryState_Incomplete m = (Some p, m1)"
    using assms(7) unknown_not_found [OF assms(5,6)] by (simp add: addNDPCacheEntry_cases m1_def)
  from find_free_slot [OF assms(2,7)] obtain k where k: "k < cache_entries C" "p = k * entry_size C" "slot_of C m k 0 = 0" .
  have l: "16 \<le> length (ipaddrB8 addr)" using assms(5) by simp
  note n = new_entry_neighbour(1,2,4,5,6) [where hwaddr = None and st = NDPCacheEntryState_Incomplete, OF assms(2,3) k(1,3) l, folded k(2), folded m1_def, simplified]
  note s = new_entry_slots [where hwaddr = None and st = NDPCacheEntryState_Incomplete, OF assms(2,3) k(1) _ _ l, folded k(2), folded m1_def, simplified]
  note w = new_entry_map [where hwaddr = None and st = NDPCacheEntryState_Incomplete, OF assms(2-7), folded m1_def, simplified]
  have z: "0 < entry_size C" using size_pos(1) [OF assms(2)] by simp
  have own: "hasIPv6Address C x (ifc\<lparr>if_addressmemory := m1\<rparr>) = hasIPv6Address C x ifc" for x
    by (rule own_address_kept) (use assms(2) w(1) s(2) z k(3) in \<open>auto simp: m_def same_slot_def\<close>)
  show thesis
    by (rule that [OF a k(2) w(1,2) n(2)]) (use n w own assms(5) entry_in_slot(2) [OF assms(2) k(1) assms(3)] k(2) in \<open>simp_all add: state_code_def\<close>)
qed

lemma block_waits:
  "\<not> is_NDPCacheEntry_reachable p (if_addressmemory ifc) \<Longrightarrow> \<forall>t \<in> set waits. t < timeout \<Longrightarrow>
   block_until_neighbor_advertisement C L address timeout p (map (\<lambda>t. ([], t)) waits @ steps) ifc =
   block_until_neighbor_advertisement C L address timeout p steps ifc"
  by (induction waits) simp_all

lemma entryConfirmed_changes:
  assumes "memory_ok C m" and "ndp_config_ok C L" and "is_neighbour C m k"
  shows "changes_entry C m (entryConfirmed L (k * entry_size C) m) k"
proof -
  have "17 \<le> expire_at L" "expire_at L < entry_size C" using assms(2) by (simp_all add: ndp_config_ok_def)
  then show ?thesis
    using changes_entry_byte [OF assms(1,3), of "expire_at L"] changes_entry_refl [OF assms(1)]
    by (simp add: entryConfirmed_def update_NDPCacheEntry_importance_def set_expire_value_def)
qed

lemma advertisement_taken:
  assumes "memory_ok C (if_addressmemory ifc)" and "ndp_config_ok C L" and "ndp_unique C (if_addressmemory ifc)"
    and "is_neighbour C (if_addressmemory ifc) k" and "slot_addr C (if_addressmemory ifc) k = ipaddrB8 addr"
    and "length hw = 6" and "length buf = 32" and "na_message addr hw 6 buf = Inr message" and "hasIPv6Address C addr ifc"
  obtains m' where "neighbor_advertisement_receive C L message 32 ifc = Inr m'" and "changes_entry C (if_addressmemory ifc) m' k"
    and "slot_of C m' k 17 = state_code NDPCacheEntryState_Reachable" and "slot_hw C L m' k = hw"
proof -
  let ?m = "if_addressmemory ifc" and ?p = "k * entry_size C"
  have l: "length (ipaddrB8 addr) = 16" using assms(5) slot_addr_length [of C ?m k] by simp
  have msg: "message = [136, 0] @ take 2 (drop 2 buf) @ [0x60, 0, 0, 0] @ ipaddrB8 addr @ ndp_option (TargetLinkLayer, hw)"
    using assms(8) na_message_bytes [OF l assms(6,7)] by simp
  have "length (take 2 (drop 2 buf)) = 2" using assms(7) by simp
  note f = message_fields [OF l this msg]
  have fnd: "ndpcache_find C addr ?m = Some ?p" using find_neighbour [OF assms(1,3,4)] assms(5) l by simp
  have c: "18 < entry_size C" "17 < entry_size C" using size_pos(1) [OF assms(1)] by simp_all
  let ?m1 = "set_isRouter ?p (na_isRouter message) ?m"
  have r1: "changes_entry C ?m ?m1 k" unfolding set_isRouter_def by (rule changes_entry_byte [OF assms(1,4) _ c(1)]) simp
  let ?m2 = "entryConfirmed L ?p ?m1"
  have r2: "changes_entry C ?m ?m2 k"
    using changes_entry_trans [OF r1 entryConfirmed_changes [OF _ assms(2)]] changes_entry_entry [OF r1] assms(4) by simp
  note e2 = changes_entry_entry [OF r2]
  let ?m3 = "set_ndp_hw L ?p hw ?m2"
  have n2: "is_neighbour C ?m2 k" using e2(2) assms(4) by simp
  note h3 = changes_entry_hw [OF e2(1) n2 assms(2,6)]
  have r3: "changes_entry C ?m ?m3 k" by (rule changes_entry_trans [OF r2 h3(1)])
  note e3 = changes_entry_entry [OF r3]
  have n3: "is_neighbour C ?m3 k" using e3(2) assms(4) by simp
  let ?m4 = "set_ndp_state ?p NDPCacheEntryState_Reachable ?m3"
  have r4: "changes_entry C ?m ?m4 k"
    unfolding set_ndp_state_def by (rule changes_entry_trans [OF r3 changes_entry_byte [OF e3(1) n3 _ c(2)]]) simp
  have kn: "k < cache_entries C" using assms(4) by (simp add: is_neighbour_def)
  note s4 = set_ndp_state_slot [where st = NDPCacheEntryState_Reachable, OF e3(1) kn kn]
  have "slot_hw C L ?m4 k = slot_hw C L ?m3 k" by (rule slot_hw_cong) (use s4(2) assms(2) in \<open>auto simp: ndp_config_ok_def\<close>)
  then have hw: "slot_hw C L ?m4 k = hw" using h3(2) by simp
  have opt: "get_option_linklayer_address TargetLinkLayer message 24 8 = Inr (Some hw)"
    using read_link_option [of "[136, 0] @ take 2 (drop 2 buf) @ [0x60, 0, 0, 0] @ ipaddrB8 addr" hw TargetLinkLayer] msg l assms(6,7) by simp
  have "na_isOverride message" using f(3) by (simp add: na_isOverride_def)
  then have "neighbor_advertisement_receive C L message 32 ifc = Inr ?m4"
    using f assms(9) fnd opt by (simp add: neighbor_advertisement_receive_def update_from_advertisement_def Let_def)
  then show thesis using that r4 hw s4(2) c by simp
qed

text \<open>C23: A lookup of an unknown address ends with the hardware address that the neighbour has put into its advertisement, however
  often the clock is read before it arrives; the other entries are untouched.\<close>

theorem neighbour_resolves:
  assumes "memory_ok C (if_addressmemory ifc)" and "ndp_config_ok C L" and "ndp_unique C (if_addressmemory ifc)"
    and "length (ipaddrB8 addr) = 16" and "ndp_map C L (if_addressmemory ifc) (ipaddrB8 addr) = None"
    and "findEntry C 0 FreeEntry_ID (if_addressmemory ifc) \<noteq> None" and "hasIPv6Address C addr ifc"
    and "length hw = 6" and "length buf = 32" and "na_message addr hw 6 buf = Inr message" and "\<forall>t \<in> set waits. t < timeout"
  shows "\<exists>p request ifc'. ndp_lookup C L address addr timeout (map (\<lambda>t. ([], t)) waits @ ([Advertisement message 32], now) # steps) ifc =
      Some (Inr (Some p, request, ifc')) \<and>
    ndp_hw L (if_addressmemory ifc') p = hw \<and>
    ndp_map C L (if_addressmemory ifc') = (ndp_map C L (if_addressmemory ifc))(ipaddrB8 addr \<mapsto> (state_code NDPCacheEntryState_Reachable, hw))"
proof -
  obtain p nx where "findEntry C 0 FreeEntry_ID (if_addressmemory ifc) = Some (p, nx)"
    using assms(6) by (cases "findEntry C 0 FreeEntry_ID (if_addressmemory ifc)") auto
  from awaited_entry [OF assms(1-5) this] obtain k m1
    where a: "addNDPCacheEntry C L addr None NDPCacheEntryState_Incomplete (if_addressmemory ifc) = (Some p, m1)"
      and k: "p = k * entry_size C" "memory_ok C m1" "ndp_unique C m1" "is_neighbour C m1 k" "slot_addr C m1 k = ipaddrB8 addr" "slot_of C m1 k 17 = 0"
      and map: "ndp_map C L m1 = (ndp_map C L (if_addressmemory ifc))(ipaddrB8 addr \<mapsto> (0, ndp_hw L (if_addressmemory ifc) p))"
      and own: "\<And>a. hasIPv6Address C a (ifc\<lparr>if_addressmemory := m1\<rparr>) = hasIPv6Address C a ifc" by metis
  let ?ifc = "ifc\<lparr>if_addressmemory := m1\<rparr>"
  have "hasIPv6Address C addr ?ifc" using own assms(7) by simp
  from advertisement_taken [OF _ assms(2) _ _ _ assms(8-10) this] k obtain m2
    where m2: "neighbor_advertisement_receive C L message 32 ?ifc = Inr m2" "changes_entry C m1 m2 k"
      "slot_of C m2 k 17 = state_code NDPCacheEntryState_Reachable" "slot_hw C L m2 k = hw" by auto
  have reach: "\<not> is_NDPCacheEntry_reachable p m1" "is_NDPCacheEntry_reachable p m2"
    using k(1,6) m2(3) by (simp_all add: is_NDPCacheEntry_reachable_def fields_in_slot state_code_def)
  have "block_until_neighbor_advertisement C L address timeout p (map (\<lambda>t. ([], t)) waits @ ([Advertisement message 32], now) # steps) ?ifc =
      Some (Inr (ifc\<lparr>if_addressmemory := m2\<rparr>))"
    using block_waits [of p ?ifc waits timeout] reach assms(11) m2(1) by simp
  then have "ndp_lookup C L address addr timeout (map (\<lambda>t. ([], t)) waits @ ([Advertisement message 32], now) # steps) ifc =
      Some (Inr (Some p, address_resolution_request C (isIPv6Up ifc) (Some p) m1, ifc\<lparr>if_addressmemory := m2\<rparr>))"
    using unknown_not_found [OF assms(4,5)] a reach by (simp add: ndp_lookup_def Let_def)
  moreover have "ndp_map C L m2 = (ndp_map C L (if_addressmemory ifc))(ipaddrB8 addr \<mapsto> (state_code NDPCacheEntryState_Reachable, hw))"
    using changes_entry_map(3) [OF k(2) assms(2) k(3,4) m2(2) k(5)] map m2 by simp
  moreover have "ndp_hw L m2 p = hw"
    using entry_in_slot(2) [OF changes_entry_entry(1) [OF m2(2)] _ assms(2)] k(1,4) m2(4) by (simp add: is_neighbour_def)
  ultimately show ?thesis by auto
qed

lemma frame_confirms:
  assumes "memory_ok C m" and "ndp_config_ok C L" and "ndp_unique C m" and "is_neighbour C m k" and "slot_addr C m k = ipaddrB8 addr"
    and "eth_get_type frame = ETH_TYPE_IPV6" and "take 6 (eth_get_dst_hwaddr frame) = take 6 address"
    and "take 16 (drop 8 (eth_get_data frame)) = ipaddrB8 addr"
  shows "changes_entry C m (cache_incoming C L address frame m) k"
    "slot_of C (cache_incoming C L address frame m) k 17 = state_code NDPCacheEntryState_Reachable"
    "slot_hw C L (cache_incoming C L address frame m) k = slot_hw C L m k"
proof -
  let ?p = "k * entry_size C"
  have l: "length (ipaddrB8 addr) = 16" using assms(5) slot_addr_length [of C m k] by simp
  have kn: "k < cache_entries C" using assms(4) by (simp add: is_neighbour_def)
  have fnd: "ndpcache_find C \<lparr>ipaddrB8 = ipaddrB8 addr\<rparr> m = Some ?p" using find_neighbour [OF assms(1,3,4), of "\<lparr>ipaddrB8 = ipaddrB8 addr\<rparr>"] assms(5) l by simp
  let ?m1 = "set_ndp_state ?p NDPCacheEntryState_Reachable m"
  let ?m2 = "update_NDPCacheEntry_importance L ?p IMPORTANCE_good_to_know ?m1"
  have e: "cache_incoming C L address frame m = ?m2"
    using assms(6-8) fnd by (simp add: cache_incoming_def addNDPCacheEntry_def)
  have c: "17 < entry_size C" "17 \<le> expire_at L" "17 < hw_at L" "hw_at L + 6 \<le> entry_size C" "expire_at L < entry_size C" "expire_at L < hw_at L \<or> hw_at L + 6 \<le> expire_at L"
    "17 < expire_at L" using assms(2) size_pos(1) [OF assms(1)] by (simp_all add: ndp_config_ok_def)
  have r1: "changes_entry C m ?m1 k" unfolding set_ndp_state_def by (rule changes_entry_byte [OF assms(1,4) _ c(1)]) simp
  note e1 = changes_entry_entry [OF r1]
  have n1: "is_neighbour C ?m1 k" using e1(2) assms(4) by simp
  have r2: "changes_entry C ?m1 ?m2 k"
    unfolding update_NDPCacheEntry_importance_def set_expire_value_def by (rule changes_entry_byte [OF e1(1) n1 c(2,5)])
  show "changes_entry C m (cache_incoming C L address frame m) k" unfolding e by (rule changes_entry_trans [OF r1 r2])
  note s1 = set_ndp_state_slot(2) [where st = NDPCacheEntryState_Reachable, OF assms(1) kn kn]
  have s2: "slot_of C ?m2 k y = (if y = expire_at L then expire_value L ?m1 ?p OR IMPORTANCE_good_to_know else slot_of C ?m1 k y)"
    if "y < entry_size C" for y
    using slot_of_update [OF e1(1) kn c(5) that kn] by (simp add: update_NDPCacheEntry_importance_def set_expire_value_def)
  show "slot_of C (cache_incoming C L address frame m) k 17 = state_code NDPCacheEntryState_Reachable"
    unfolding e using s1 s2 c by simp
  show "slot_hw C L (cache_incoming C L address frame m) k = slot_hw C L m k"
    unfolding e using s1 s2 c by (intro slot_hw_cong) auto
qed

text \<open>A frame of the neighbour with any IPv6 packet that arrives first ends the wait as well. Its address is already in the cache, so
  only the state changes, and the lookup answers whatever six bytes the entry held before.\<close>

theorem early_frame_gives_stale_bytes:
  assumes "memory_ok C (if_addressmemory ifc)" and "ndp_config_ok C L" and "ndp_unique C (if_addressmemory ifc)"
    and "length (ipaddrB8 addr) = 16" and "ndp_map C L (if_addressmemory ifc) (ipaddrB8 addr) = None"
    and "findEntry C 0 FreeEntry_ID (if_addressmemory ifc) = Some (p, nx)"
    and "eth_get_type frame = ETH_TYPE_IPV6" and "take 6 (eth_get_dst_hwaddr frame) = take 6 address"
    and "take 16 (drop 8 (eth_get_data frame)) = ipaddrB8 addr" and "\<forall>t \<in> set waits. t < timeout"
  shows "\<exists>request ifc'. ndp_lookup C L address addr timeout (map (\<lambda>t. ([], t)) waits @ ([Frame frame], now) # steps) ifc =
      Some (Inr (Some p, request, ifc')) \<and>
    ndp_hw L (if_addressmemory ifc') p = ndp_hw L (if_addressmemory ifc) p"
proof -
  from awaited_entry [OF assms(1-6)] obtain k m1
    where a: "addNDPCacheEntry C L addr None NDPCacheEntryState_Incomplete (if_addressmemory ifc) = (Some p, m1)"
      and k: "p = k * entry_size C" "memory_ok C m1" "ndp_unique C m1" "is_neighbour C m1 k" "slot_addr C m1 k = ipaddrB8 addr" "slot_of C m1 k 17 = 0"
        "slot_hw C L m1 k = ndp_hw L (if_addressmemory ifc) p" by metis
  let ?ifc = "ifc\<lparr>if_addressmemory := m1\<rparr>" and ?m2 = "cache_incoming C L address frame m1"
  note f = frame_confirms [OF k(2) assms(2) k(3-5) assms(7-9)]
  have reach: "\<not> is_NDPCacheEntry_reachable p m1" "is_NDPCacheEntry_reachable p ?m2"
    using k(1,6) f(2) by (simp_all add: is_NDPCacheEntry_reachable_def fields_in_slot state_code_def)
  have "block_until_neighbor_advertisement C L address timeout p (map (\<lambda>t. ([], t)) waits @ ([Frame frame], now) # steps) ?ifc =
      Some (Inr (ifc\<lparr>if_addressmemory := ?m2\<rparr>))"
    using block_waits [of p ?ifc waits timeout] reach assms(10) by simp
  then have "ndp_lookup C L address addr timeout (map (\<lambda>t. ([], t)) waits @ ([Frame frame], now) # steps) ifc =
      Some (Inr (Some p, address_resolution_request C (isIPv6Up ifc) (Some p) m1, ifc\<lparr>if_addressmemory := ?m2\<rparr>))"
    using unknown_not_found [OF assms(4,5)] a reach by (simp add: ndp_lookup_def Let_def)
  moreover have "ndp_hw L ?m2 p = ndp_hw L (if_addressmemory ifc) p"
    using entry_in_slot(2) [OF changes_entry_entry(1) [OF f(1)] _ assms(2)] k f(3) by (simp add: is_neighbour_def)
  ultimately show ?thesis by auto
qed

subsection \<open>Answering solicitations\<close>

text \<open>A host answers a solicitation whenever one of its addresses has the prefix of the target, whether it owns the target or not; and
  the advertisement it then writes resolves the target to its own hardware address for the host that asked.\<close>

theorem answers_for_other_hosts:
  assumes "length (ipaddrB8 dst) = 16" and "length hw = 6" and "length buf = 32" and "ns_message dst hw 6 buf = Inr message"
    and "e \<in> set (visited_entries C 0 AddressEntry_ID (if_addressmemory ifc))"
    and "compare_ipv6_addr_prefix dst (entry_ipv6 (if_addressmemory ifc) e) (entry_prefixlen (if_addressmemory ifc) e)"
  shows "\<exists>request m'. neighbor_solicitation_receive C L src message 32 ifc =
      Inr (Some \<lparr>nm_src = dst, nm_dst = src, nm_target = dst\<rparr>, request, m')"
proof -
  have msg: "message = [135, 0] @ take 2 (drop 2 buf) @ [0, 0, 0, 0] @ ipaddrB8 dst @ ndp_option (SourceLinkLayer, hw)"
    using assms(4) ns_message_bytes [OF assms(1-3)] by simp
  have "length (take 2 (drop 2 buf)) = 2" using assms(3) by simp
  note f = message_fields [OF assms(1) this msg]
  have own: "hasIPv6Address C dst ifc" using assms(5,6) by (auto simp: hasIPv6Address_def list_ex_iff)
  have opt: "get_option_linklayer_address SourceLinkLayer message 24 8 = Inr (Some hw)"
    using read_link_option [of "[135, 0] @ take 2 (drop 2 buf) @ [0, 0, 0, 0] @ ipaddrB8 dst" hw SourceLinkLayer] msg assms(1-3) by simp
  show ?thesis
    using f own opt by (simp add: neighbor_solicitation_receive_def update_from_solicitation_def address_resolution_response_def Let_def split: prod.split)
qed

subsection \<open>Entries that are kept for ever\<close>

text \<open>The importance 255 means that an entry never expires. But it is odd, so using the entry adds 5 to it in eight bits, and the next
  round frees it.\<close>

theorem used_fixed_entry_is_lost:
  assumes "memory_ok C m" and "ndp_config_ok C L" and "is_neighbour C m k" and "slot_of C m k (expire_at L) = IMPORTANCE_always_keep"
  shows "is_neighbour C (snd (releaseOldEntries C L m)) k \<and>
    \<not> is_neighbour C (snd (releaseOldEntries C L (ipv6_useentry L (k * entry_size C) m))) k"
proof -
  let ?m = "ipv6_useentry L (k * entry_size C) m"
  have k: "k < cache_entries C" using assms(3) by (simp add: is_neighbour_def)
  have c: "expire_at L < entry_size C" "17 \<le> expire_at L" using assms(2) by (simp_all add: ndp_config_ok_def)
  have e: "?m = m[k * entry_size C + expire_at L := 255 + 5]"
    using assms(4) by (simp add: ipv6_useentry_def fields_in_slot importance_defs set_expire_value_def)
  have r: "changes_entry C m ?m k" unfolding e by (rule changes_entry_byte [OF assms(1,3) c(2,1)])
  have v: "slot_of C ?m k (expire_at L) = 255 + 5" unfolding e using slot_of_update [OF assms(1) k c(1) c(1) k] by simp
  have "is_neighbour C ?m k" using changes_entry_entry(2) [OF r] assms(3) by simp
  from expiry_round_entry(1) [OF changes_entry_entry(1) [OF r] assms(2) this] expiry_round_entry(1) [OF assms(1-3)]
  show ?thesis using v assms(4) by (simp add: IMPORTANCE_always_keep_def word_less_nat_alt)
qed

subsection \<open>Concrete caches\<close>

lemma no_neighbours:
  assumes "memory_ok C m" and "\<forall>k < cache_entries C. slot_of C m k 0 \<noteq> NDPCacheEntry_ID"
  shows "ndp_unique C m" "ndp_map C L m bs = None"
proof -
  have n: "\<not> is_neighbour C m k" for k using assms(2) by (simp add: is_neighbour_def)
  show "ndp_unique C m" "ndp_map C L m bs = None" using n neighbours_None [OF assms(1)] by (auto simp: ndp_unique_def ndp_map_def)
qed

text \<open>Two slots of 26 bytes: the first one is a link-local address, the second one is free.\<close>

definition sample_config :: memory_config where "sample_config = \<lparr>entry_size = 26, cache_entries = 2\<rparr>"
definition sample_layout :: ndp_config where "sample_layout = \<lparr>hw_at = 19, expire_at = 25, ndp_expires = True\<rparr>"
definition sample_interface :: v6_interface where
  "sample_interface = \<lparr>if_ipv6_up = True, if_addressmemory =
     [252, 0xfe, 0x80, 0, 0, 0, 0, 0, 0, 0, 0, 0, 0, 0, 0, 0, 1, 64, 1, 0, 0, 0, 0, 0, 0, 0] @ replicate 26 0\<rparr>"
definition sample_address :: ipv6addr where
  "sample_address = \<lparr>ipaddrB8 = [0xfe, 0x80, 0, 0, 0, 0, 0, 0, 0, 0, 0, 0, 0, 0, 0, 2]\<rparr>"
definition sample_full :: memory where
  "sample_full = [250, 0xfe, 0x80, 0, 0, 0, 0, 0, 0, 0, 0, 0, 0, 0, 0, 0, 3, 4, 0, 2, 0, 0, 0, 0, 3, 24] @
     [252, 0xfe, 0x80, 0, 0, 0, 0, 0, 0, 0, 0, 0, 0, 0, 0, 0, 1, 64, 1, 0, 0, 0, 0, 0, 0, 0]"

lemma sample_ok:
  "memory_ok sample_config (if_addressmemory sample_interface)" "memory_ok sample_config sample_full" "ndp_config_ok sample_config sample_layout"
  "length (ipaddrB8 sample_address) = 16" "hasIPv6Address sample_config sample_address sample_interface"
  "findEntry sample_config 0 FreeEntry_ID (if_addressmemory sample_interface) = Some (26, 2)"
  by code_simp+

lemma sample_unique:
  "ndp_unique sample_config (if_addressmemory sample_interface)" "ndp_map sample_config sample_layout (if_addressmemory sample_interface) bs = None"
proof -
  have "k = 0 \<or> k = 1" if "k < cache_entries sample_config" for k using that by (auto simp: sample_config_def)
  moreover have "slot_of sample_config (if_addressmemory sample_interface) 0 0 \<noteq> NDPCacheEntry_ID"
    "slot_of sample_config (if_addressmemory sample_interface) 1 0 \<noteq> NDPCacheEntry_ID" by code_simp+
  ultimately have "\<forall>k < cache_entries sample_config. slot_of sample_config (if_addressmemory sample_interface) k 0 \<noteq> NDPCacheEntry_ID" by metis
  from no_neighbours [OF sample_ok(1) this]
  show "ndp_unique sample_config (if_addressmemory sample_interface)"
    "ndp_map sample_config sample_layout (if_addressmemory sample_interface) bs = None" by simp_all
qed

lemma sample_full_neighbours: "is_neighbour sample_config sample_full k \<longleftrightarrow> k = 0"
proof -
  have "slot_of sample_config sample_full 0 0 = NDPCacheEntry_ID" "slot_of sample_config sample_full 1 0 \<noteq> NDPCacheEntry_ID" by code_simp+
  moreover have "k < cache_entries sample_config \<Longrightarrow> k = 0 \<or> k = 1" by (auto simp: sample_config_def)
  ultimately show ?thesis by (auto simp: is_neighbour_def) (simp add: sample_config_def)
qed

theorem neighbour_cache_refines_map_witness:
  "ndp_map sample_config sample_layout
     (snd (addNDPCacheEntry sample_config sample_layout sample_address (Some [2, 0, 0, 0, 0, 2]) NDPCacheEntryState_Reachable
       (if_addressmemory sample_interface))) (ipaddrB8 sample_address) = Some (4, [2, 0, 0, 0, 0, 2])"
proof -
  obtain r m' where a: "addNDPCacheEntry sample_config sample_layout sample_address (Some [2, 0, 0, 0, 0, 2]) NDPCacheEntryState_Reachable
      (if_addressmemory sample_interface) = (r, m')" by (cases "addNDPCacheEntry sample_config sample_layout sample_address (Some [2, 0, 0, 0, 0, 2]) NDPCacheEntryState_Reachable
      (if_addressmemory sample_interface)")
  have f: "findEntry sample_config 0 FreeEntry_ID (if_addressmemory sample_interface) \<noteq> None" using sample_ok(6) by simp
  from neighbour_cache_refines_map [OF sample_ok(1,3) sample_unique(1) sample_ok(4) _ f a] show ?thesis
    by (simp add: a sample_unique(2) state_code_def)
qed

theorem full_cache_evicts_witness:
  "\<exists>r m'. addNDPCacheEntry sample_config sample_layout sample_address (Some [2, 0, 0, 0, 0, 2]) NDPCacheEntryState_Reachable sample_full = (r, m') \<and>
     r \<noteq> None \<and> ndp_map sample_config sample_layout m' (slot_addr sample_config sample_full 0) = None \<and>
     ndp_map sample_config sample_layout m' (ipaddrB8 sample_address) = Some (4, [2, 0, 0, 0, 0, 2])"
proof -
  let ?C = sample_config and ?L = sample_layout
  obtain r m' where a: "addNDPCacheEntry ?C ?L sample_address (Some [2, 0, 0, 0, 0, 2]) NDPCacheEntryState_Reachable sample_full = (r, m')"
    by (cases "addNDPCacheEntry ?C ?L sample_address (Some [2, 0, 0, 0, 0, 2]) NDPCacheEntryState_Reachable sample_full")
  have u: "ndp_unique ?C sample_full" by (simp add: ndp_unique_def sample_full_neighbours)
  have d: "slot_addr ?C sample_full 0 \<noteq> ipaddrB8 sample_address" by code_simp
  have n: "ndp_map ?C ?L sample_full (ipaddrB8 sample_address) = None"
    using neighbours_None [OF sample_ok(2)] d by (simp add: ndp_map_def sample_full_neighbours sample_ok(4))
  have f: "\<forall>k < cache_entries ?C. slot_of ?C sample_full k 0 \<noteq> 0"
  proof (intro allI impI)
    fix k assume "k < cache_entries ?C"
    then have "k = 0 \<or> k = 1" by (auto simp: sample_config_def)
    moreover have "slot_of ?C sample_full 0 0 \<noteq> 0" "slot_of ?C sample_full 1 0 \<noteq> 0" by code_simp+
    ultimately show "slot_of ?C sample_full k 0 \<noteq> 0" by auto
  qed
  have e: "slot_of ?C sample_full 0 (expire_at ?L) < 50" "ndp_expires ?L" by code_simp+
  from full_cache_evicts [OF sample_ok(2,3) u sample_ok(4) _ n f e(2) a] show ?thesis
    using a d e(1) by (simp add: sample_full_neighbours state_code_def)
qed


theorem neighbour_resolves_witness:
  "\<exists>message p request ifc'. na_message sample_address [2, 0, 0, 0, 0, 2] 6 (replicate 32 0) = Inr message \<and>
     ndp_lookup sample_config sample_layout [2, 0, 0, 0, 0, 1] sample_address 1000 [([], 1), ([Advertisement message 32], 2)] sample_interface =
       Some (Inr (Some p, request, ifc')) \<and>
     ndp_hw sample_layout (if_addressmemory ifc') p = [2, 0, 0, 0, 0, 2]"
proof -
  obtain message where m: "na_message sample_address [2, 0, 0, 0, 0, 2] 6 (replicate 32 0) = Inr message"
    using na_message_bytes [OF sample_ok(4), of "[2, 0, 0, 0, 0, 2]" "replicate 32 0"] by auto
  from neighbour_resolves [where waits = "[1]" and now = 2 and timeout = 1000 and steps = "[]" and address = "[2, 0, 0, 0, 0, 1]", OF sample_ok(1,3) sample_unique(1) sample_ok(4) sample_unique(2) _ sample_ok(5) _ _ m]
  show ?thesis using m sample_ok(6) by auto
qed

theorem early_frame_gives_stale_bytes_witness:
  "\<exists>request ifc'. ndp_lookup sample_config sample_layout [2, 0, 0, 0, 0, 1] sample_address 1000
       [([Frame ([2, 0, 0, 0, 0, 1, 2, 0, 0, 0, 0, 2, 0x86, 0xdd, 0x60, 0, 0, 0, 0, 0, 58, 255] @ ipaddrB8 sample_address @ replicate 16 0)], 1)]
       sample_interface = Some (Inr (Some 26, request, ifc')) \<and>
     ndp_hw sample_layout (if_addressmemory ifc') 26 = [0, 0, 0, 0, 0, 0]"
proof -
  let ?f = "[2, 0, 0, 0, 0, 1, 2, 0, 0, 0, 0, 2, 0x86, 0xdd, 0x60, 0, 0, 0, 0, 0, 58, 255] @ ipaddrB8 sample_address @ replicate 16 0"
  have f: "eth_get_type ?f = ETH_TYPE_IPV6" "take 6 (eth_get_dst_hwaddr ?f) = take 6 [2, 0, 0, 0, 0, 1]"
    "take 16 (drop 8 (eth_get_data ?f)) = ipaddrB8 sample_address" by code_simp+
  have h: "ndp_hw sample_layout (if_addressmemory sample_interface) 26 = [0, 0, 0, 0, 0, 0]" by code_simp
  from early_frame_gives_stale_bytes [where waits = "[]" and now = 1 and timeout = 1000 and steps = "[]",
    OF sample_ok(1,3) sample_unique(1) sample_ok(4) sample_unique(2) sample_ok(6) f]
  show ?thesis using h by simp
qed

theorem answers_for_other_hosts_witness:
  "\<exists>message. ns_message sample_address [2, 0, 0, 0, 0, 3] 6 (replicate 32 0) = Inr message \<and>
     (\<forall>e \<in> set (visited_entries sample_config 0 AddressEntry_ID (if_addressmemory sample_interface)).
        entry_ipv6 (if_addressmemory sample_interface) e \<noteq> sample_address) \<and>
     (\<exists>request m'. neighbor_solicitation_receive sample_config sample_layout \<lparr>ipaddrB8 = replicate 16 1\<rparr> message 32 sample_interface =
        Inr (Some \<lparr>nm_src = sample_address, nm_dst = \<lparr>ipaddrB8 = replicate 16 1\<rparr>, nm_target = sample_address\<rparr>, request, m'))"
proof -
  obtain message where m: "ns_message sample_address [2, 0, 0, 0, 0, 3] 6 (replicate 32 0) = Inr message"
    using ns_message_bytes [OF sample_ok(4), of "[2, 0, 0, 0, 0, 3]" "replicate 32 0"] by auto
  have v: "visited_entries sample_config 0 AddressEntry_ID (if_addressmemory sample_interface) = [0]" by code_simp
  have p: "compare_ipv6_addr_prefix sample_address (entry_ipv6 (if_addressmemory sample_interface) 0) (entry_prefixlen (if_addressmemory sample_interface) 0)"
    "entry_ipv6 (if_addressmemory sample_interface) 0 \<noteq> sample_address" by code_simp+
  from answers_for_other_hosts [where L = sample_layout, OF sample_ok(4) _ _ m _ p(1)] show ?thesis using m p(2) by (simp add: v)
qed

theorem used_fixed_entry_is_lost_witness:
  "\<not> is_neighbour sample_config (snd (releaseOldEntries sample_config sample_layout (ipv6_useentry sample_layout 0 (sample_full[25 := 255])))) 0"
proof -
  have "memory_ok sample_config (sample_full[25 := 255])" "slot_of sample_config (sample_full[25 := 255]) 0 0 = NDPCacheEntry_ID"
    "slot_of sample_config (sample_full[25 := 255]) 0 (expire_at sample_layout) = IMPORTANCE_always_keep" "0 < cache_entries sample_config" by code_simp+
  then show ?thesis using used_fixed_entry_is_lost [of sample_config "sample_full[25 := 255]" sample_layout 0] sample_ok(3) by (simp add: is_neighbour_def)
qed

end
