(* ===== verification/Router_Discovery.thy ===== *)
theory Router_Discovery
  imports NDP_Cache
begin

text \<open>
  Addresses from router advertisements: \<^verbatim>\<open>icmpv6/ndp_router/Router_Advertisement.ah\<close>, the addresses of an interface
  (\<^verbatim>\<open>ipv6/Interface_IPv6_Slice.ah\<close> with \<^verbatim>\<open>ipv6/IPv6AddressSuffixEthernet.ah\<close> and \<^verbatim>\<open>ipv6/IPv6AddressSuffixPrivacyExtension.ah\<close>),
  their lifetimes (\<^verbatim>\<open>ipv6/address_prefix_expire\<close>) and the reaction to a duplicate
  (\<^verbatim>\<open>icmpv6/ndp_addr_duplication\<close>). The advertisement writes the lifetimes of an entry, so these are always woven in here. The
  messages that a new address causes are not part of the results.
\<close>

subsection \<open>Addresses of an interface\<close>

text \<open>The lifetimes, as offsets from the start of an entry.\<close>

record lifetime_config =
  valid_at :: nat
  preferred_at :: nat

definition lifetime_config_ok :: "memory_config \<Rightarrow> lifetime_config \<Rightarrow> bool" where
  "lifetime_config_ok C R \<longleftrightarrow> 21 \<le> valid_at R \<and> valid_at R + 4 \<le> preferred_at R \<and> preferred_at R + 4 \<le> entry_size C"

definition NoTimeExpire :: u32 where "NoTimeExpire = - 1"
definition valid_time_minutes :: "lifetime_config \<Rightarrow> memory \<Rightarrow> nat \<Rightarrow> u32" where "valid_time_minutes R m p = get32 (p + valid_at R) m"
definition preferred_time_minutes :: "lifetime_config \<Rightarrow> memory \<Rightarrow> nat \<Rightarrow> u32" where
  "preferred_time_minutes R m p = get32 (p + preferred_at R) m"
definition set_valid_time :: "lifetime_config \<Rightarrow> nat \<Rightarrow> u32 \<Rightarrow> memory \<Rightarrow> memory" where "set_valid_time R p v m = set32 (p + valid_at R) v m"
definition set_preferred_time :: "lifetime_config \<Rightarrow> nat \<Rightarrow> u32 \<Rightarrow> memory \<Rightarrow> memory" where
  "set_preferred_time R p v m = set32 (p + preferred_at R) v m"

definition set_entry_ipv6 :: "nat \<Rightarrow> ipv6addr \<Rightarrow> memory \<Rightarrow> memory" where
  "set_entry_ipv6 p addr m = put_bytes (p + 1) (take 16 (ipaddrB8 addr)) m"
definition set_prefixlen :: "nat \<Rightarrow> u8 \<Rightarrow> memory \<Rightarrow> memory" where "set_prefixlen p n m = m[p + 17 := n]"
definition set_stateflag :: "nat \<Rightarrow> u8 \<Rightarrow> memory \<Rightarrow> memory" where "set_stateflag p f m = m[p + 18 := f]"
definition set_isOnLink :: "nat \<Rightarrow> bool \<Rightarrow> memory \<Rightarrow> memory" where
  "set_isOnLink p b m = set_stateflag p (put_flag 2 b (entry_stateflag m p)) m"
definition set_toBeRemoved :: "nat \<Rightarrow> bool \<Rightarrow> memory \<Rightarrow> memory" where
  "set_toBeRemoved p b m = set_stateflag p (put_flag 3 b (entry_stateflag m p)) m"
definition set_routerEntryPosition :: "nat \<Rightarrow> u8 \<Rightarrow> memory \<Rightarrow> memory" where "set_routerEntryPosition p r m = m[p + 19 := r]"
definition set_hoplimit :: "nat \<Rightarrow> u8 \<Rightarrow> memory \<Rightarrow> memory" where "set_hoplimit p h m = m[p + 20 := h]"

definition ethernet_identifier :: "u8 list \<Rightarrow> ipv6addr \<Rightarrow> ipv6addr" where
  "ethernet_identifier hw addr =
     addr\<lparr>ipaddrB8 := (ipaddrB8 addr)[8 := put_flag 1 True (put_flag 0 False (hw ! 0)), 9 := hw ! 1, 10 := hw ! 2, 11 := 0xFF, 12 := 0xFE,
       13 := hw ! 3, 14 := hw ! 4, 15 := hw ! 5]\<rparr>"

definition random_identifier :: "u64 \<Rightarrow> ipv6addr \<Rightarrow> ipv6addr" where
  "random_identifier now addr =
     addr\<lparr>ipaddrB8 := (ipaddrB8 addr)[8 := put_flag 1 True (put_flag 0 False 0xab), 9 := 0xcd, 10 := ucast (drop_bit 16 now), 11 := 0xFF, 12 := 0xFE,
       13 := ucast (drop_bit 40 now), 14 := ucast (drop_bit 48 now), 15 := ucast (drop_bit 56 now)]\<rparr>"

definition setIPv6AddressState :: "nat \<Rightarrow> u8 \<Rightarrow> memory \<Rightarrow> memory" where
  "setIPv6AddressState p ipstate m = set_stateflag p ((entry_stateflag m p AND NOT 3) OR AddressEntryStateValid) m"

text \<open>\<open>identify\<close> is the advice that puts the identifier of the interface behind a prefix.\<close>

definition makeIPv6AddressByPrefix ::
    "memory_config \<Rightarrow> lifetime_config \<Rightarrow> (ipv6addr \<Rightarrow> ipv6addr) \<Rightarrow> ipv6addr \<Rightarrow> u8 \<Rightarrow> u8 \<Rightarrow> u8 \<Rightarrow> memory \<Rightarrow> nat option \<times> memory" where
  "makeIPv6AddressByPrefix C R identify prefix prefixlen ipstate routerEntryPosition m =
     (case findEntry C 0 FreeEntry_ID m of
        None \<Rightarrow> (None, m)
      | Some (p, _) \<Rightarrow>
        let m = set_entry_ipv6 p (identify prefix) m;
            m = set_prefixlen p prefixlen m;
            m = set_isOnLink p True (set_stateflag p 0 m);
            m = set_routerEntryPosition p routerEntryPosition m;
            m = setIPv6AddressState p ipstate (address_reserve p m)
        in (Some p, set_preferred_time R p NoTimeExpire (set_valid_time R p NoTimeExpire m)))"

text \<open>A duplicate of an own address: the last byte of the address changes.\<close>

definition is_duplicate_address :: "memory_config \<Rightarrow> ipv6addr \<Rightarrow> memory \<Rightarrow> bool \<times> memory" where
  "is_duplicate_address C addr m =
     (case find (\<lambda>p. compare_ipv6_addr addr (entry_ipv6 m p)) (visited_entries C 0 AddressEntry_ID m) of
        None \<Rightarrow> (False, m)
      | Some p \<Rightarrow>
        let m = freeEntry p m;
            m = m[p + 16 := m ! (p + 16) + 1];
            m = address_reserve p m
        in (True, setIPv6AddressState p AddressEntryStateTemporary m))"

definition IPV6_REFRESH_IN_MINUTES :: u32 where "IPV6_REFRESH_IN_MINUTES = 3"

definition refreshIPv6Addresses :: "memory_config \<Rightarrow> lifetime_config \<Rightarrow> memory \<Rightarrow> memory" where
  "refreshIPv6Addresses C R m =
     snd (snd (for_entries C AddressEntry_ID
       (\<lambda>p (u :: unit, m).
          if valid_time_minutes R m p = NoTimeExpire then (u, m)
          else if valid_time_minutes R m p \<le> IPV6_REFRESH_IN_MINUTES then (u, freeEntry p m)
          else let m = set_valid_time R p (valid_time_minutes R m p - IPV6_REFRESH_IN_MINUTES) m
               in (u, if preferred_time_minutes R m p \<le> IPV6_REFRESH_IN_MINUTES then set_preferred_time R p 0 m
                      else set_preferred_time R p (preferred_time_minutes R m p - IPV6_REFRESH_IN_MINUTES) m)) 0 ((), m)))"

subsection \<open>Router advertisements\<close>

function find_prefix :: "memory_config \<Rightarrow> u8 \<Rightarrow> ipv6addr \<Rightarrow> u8 \<Rightarrow> nat \<Rightarrow> memory \<Rightarrow> nat option \<times> nat" where
  "find_prefix C routerPosition prefix prefixlen nextEntry m =
     (case findEntry C nextEntry AddressEntry_ID m of
        None \<Rightarrow> (None, nextEntry)
      | Some (p, nextEntry) \<Rightarrow>
        if entry_routerEntryPosition m p = routerPosition \<and> compare_ipv6_addr_prefix (entry_ipv6 m p) prefix prefixlen
        then (Some p, nextEntry) else find_prefix C routerPosition prefix prefixlen nextEntry m)"
  by pat_completeness auto
termination
proof (relation "measure (\<lambda>(C, pos, prefix, n, nextEntry, m). cache_entries C - nextEntry)", simp)
  fix C :: memory_config and pos n :: u8 and prefix :: ipv6addr and nextEntry :: nat and m :: memory and x p nx
  assume "findEntry C nextEntry AddressEntry_ID m = Some x" and "(p, nx) = x"
  then have "find_slot C (cache_entries C - nextEntry) nextEntry AddressEntry_ID m = Some (p, nx)" by (simp add: findEntry_def)
  from find_slot_next [OF this]
  show "((C, pos, prefix, n, nx, m), (C, pos, prefix, n, nextEntry, m)) \<in> measure (\<lambda>(C, pos, prefix, n, nextEntry, m). cache_entries C - nextEntry)"
    by auto
qed

declare find_prefix.simps [simp del]

text \<open>The option at \<open>p\<close> of the message; all its fields are read.\<close>

definition update_prefix ::
    "memory_config \<Rightarrow> lifetime_config \<Rightarrow> (ipv6addr \<Rightarrow> ipv6addr) \<Rightarrow> u8 list \<Rightarrow> u8 \<Rightarrow> nat \<Rightarrow> nat \<Rightarrow> memory \<Rightarrow> (nat \<times> memory) outcome" where
  "update_prefix C R identify message routerPosition p nextEntry m =
     obind (peek_all message p 32) (\<lambda>_.
       case find_prefix C routerPosition (prefix_address message p) (prefix_length message p) nextEntry m of
         (found, nextEntry) \<Rightarrow>
           case (case found of Some a \<Rightarrow> (Some a, m)
                 | None \<Rightarrow> makeIPv6AddressByPrefix C R identify (prefix_address message p) (prefix_length message p) AddressEntryStateTemporary routerPosition m) of
             (None, m) \<Rightarrow> Inr (nextEntry, m)
           | (Some a, m) \<Rightarrow>
             let m = set_hoplimit a (ra_curHopLimit message) (set_toBeRemoved a False m);
                 m = set_valid_time R a (get_valid_lifetime message p) (set_isOnLink a (prefix_isOnLink message p) m)
             in Inr (nextEntry, set_preferred_time R a (get_preferred_lifetime message p) m))"

text \<open>The loop over the options may run for ever.\<close>

partial_function (option) router_prefixes ::
    "memory_config \<Rightarrow> lifetime_config \<Rightarrow> (ipv6addr \<Rightarrow> ipv6addr) \<Rightarrow> u8 list \<Rightarrow> u8 \<Rightarrow> nat option \<Rightarrow> u32 \<Rightarrow> nat \<Rightarrow> memory \<Rightarrow> memory outcome option" where
  "router_prefixes C R identify message routerPosition routerprefix payloadlen nextEntry m =
     (case routerprefix of
        None \<Rightarrow> Some (Inr m)
      | Some p \<Rightarrow>
        (case (if useForStatelessAddressConfiguration message p then update_prefix C R identify message routerPosition p nextEntry m
               else Inr (nextEntry, m)) of
           Inl e \<Rightarrow> Some (Inl e)
         | Inr (nextEntry, m) \<Rightarrow>
           (case get_prefix_option message p (payloadlen - 32) of
              Inl e \<Rightarrow> Some (Inl e)
            | Inr routerprefix \<Rightarrow> router_prefixes C R identify message routerPosition routerprefix (payloadlen - 32) nextEntry m)))"

definition ra_router_lifetime :: "u8 list \<Rightarrow> u16" where "ra_router_lifetime message = get16 6 message"
definition ra_reachable_time :: "u8 list \<Rightarrow> u32" where "ra_reachable_time message = get32 8 message"

definition flag_prefixes :: "memory_config \<Rightarrow> u8 \<Rightarrow> memory \<Rightarrow> nat \<times> memory" where
  "flag_prefixes C routerPosition m =
     (case for_entries C AddressEntry_ID
         (\<lambda>p (u :: unit, m). (u, if entry_routerEntryPosition m p = routerPosition then set_toBeRemoved p True m else m)) 0 ((), m) of
        (nextEntry, _, m) \<Rightarrow> (nextEntry, m))"

definition remove_flagged :: "memory_config \<Rightarrow> u8 \<Rightarrow> memory \<Rightarrow> memory" where
  "remove_flagged C routerPosition m =
     snd (snd (for_entries C AddressEntry_ID
       (\<lambda>p (u :: unit, m). (u, if entry_routerEntryPosition m p = routerPosition \<and> entry_toBeRemoved m p then freeEntry p m else m)) 0 ((), m)))"

text \<open>\<open>garbage\<close> is what the local buffer holds when the message has no link layer address.\<close>

definition router_advertisement_receive ::
    "memory_config \<Rightarrow> ndp_config \<Rightarrow> lifetime_config \<Rightarrow> (ipv6addr \<Rightarrow> ipv6addr) \<Rightarrow> u8 list \<Rightarrow> ipv6addr \<Rightarrow> u8 list \<Rightarrow> u32 \<Rightarrow> memory \<Rightarrow>
     memory outcome option" where
  "router_advertisement_receive C L R identify garbage src message payloadlen m =
     (if get8 0 message = 134 \<and> get8 1 message = 0
      then if payloadlen < 16 then Some (Inr m)
           else let payloadlen = payloadlen - 16 in
             case get_option_linklayer_address SourceLinkLayer message ra_options payloadlen of
               Inl e \<Rightarrow> Some (Inl e)
             | Inr mac \<Rightarrow>
               (case (case ndpcache_find C src m of
                       Some entry \<Rightarrow> (Some entry, m)
                     | None \<Rightarrow> addNDPCacheEntry C L src (Some (case mac of None \<Rightarrow> garbage | Some hw \<Rightarrow> hw))
                                (if mac \<noteq> None then NDPCacheEntryState_Stale else NDPCacheEntryState_Incomplete) m) of
                  (None, m) \<Rightarrow> Some (Inr m)
                | (Some entry, m) \<Rightarrow>
                  let m = (if mac \<noteq> None then update_NDPCacheEntry_importance L entry IMPORTANCE_router m else m);
                      m = set_isRouting entry (ra_router_lifetime message \<noteq> 0) m;
                      routerPosition = getPosition C entry
                  in case flag_prefixes C routerPosition m of
                       (nextEntry, m) \<Rightarrow>
                         (case (if ra_router_lifetime message = 0 \<and> ra_reachable_time message = 0 then Some (Inr m)
                                else case get_prefix_option message ra_options payloadlen of
                                       Inl e \<Rightarrow> Some (Inl e)
                                     | Inr routerprefix \<Rightarrow> router_prefixes C R identify message routerPosition routerprefix payloadlen nextEntry m) of
                            None \<Rightarrow> None
                          | Some (Inl e) \<Rightarrow> Some (Inl e)
                          | Some (Inr m) \<Rightarrow> Some (Inr (remove_flagged C routerPosition m))))
      else Some (Inr m))"

subsection \<open>A short option\<close>

lemma prefix_found:
  assumes "p + 1 < length data" and "data ! p = 3" and "data ! (p + 1) \<noteq> 0" and "8 * unat (data ! (p + 1)) \<le> unat n"
  shows "get_prefix_option data p n = Inr (Some p)"
proof -
  have "\<not> ucast (data ! (p + 1)) * 8 > n" using assms(4) unat_octets [of "data ! (p + 1)"] by (simp add: word_less_nat_alt not_less)
  moreover have "peek data (p + 1) = Inr (data ! (p + 1))" "peek data p = Inr (data ! p)" using assms(1) by (simp_all add: peek_def)
  ultimately show ?thesis using assms(2,3) by (subst get_prefix_option.simps) simp
qed

lemma prefix_skipped:
  assumes "p + 1 < length data" and "data ! p \<noteq> 3" and "data ! (p + 1) \<noteq> 0" and "8 * unat (data ! (p + 1)) \<le> unat n"
  shows "get_prefix_option data p n = get_prefix_option data (p + 8 * unat (data ! (p + 1))) (n - ucast (data ! (p + 1)) * 8)"
proof -
  have "\<not> ucast (data ! (p + 1)) * 8 > n" using assms(4) unat_octets [of "data ! (p + 1)"] by (simp add: word_less_nat_alt not_less)
  moreover have "peek data (p + 1) = Inr (data ! (p + 1))" "peek data p = Inr (data ! p)" using assms(1) by (simp_all add: peek_def)
  ultimately show ?thesis using assms(2,3) by (subst get_prefix_option.simps) simp
qed

lemma prefix_too_long:
  assumes "p + 1 < length data" and "unat n < 8 * unat (data ! (p + 1))"
  shows "get_prefix_option data p n = Inr None"
proof -
  have "ucast (data ! (p + 1)) * 8 > n" using assms(2) unat_octets [of "data ! (p + 1)"] by (simp add: word_less_nat_alt)
  moreover have "peek data (p + 1) = Inr (data ! (p + 1))" using assms(1) by (simp add: peek_def)
  ultimately show ?thesis by (subst get_prefix_option.simps) simp
qed

lemma minus_32_mod: "unat ((n :: u32) - 32) mod 32 = unat n mod 32"
proof (cases "32 \<le> unat n")
  case True
  then have "unat (n - 32) = unat n - 32" by (simp add: unat_sub word_le_nat_alt)
  then show ?thesis using le_mod_geq [OF True] by simp
next
  case False
  have "unat (of_nat (unat n + 4294967264) :: u32) = unat n + 4294967264" by (rule unat_of_nat_u32) (use False in simp)
  moreover have "n - 32 = of_nat (unat n + 4294967264)" by simp
  then have "unat (n - 32) = unat (of_nat (unat n + 4294967264) :: u32)" by (rule arg_cong)
  ultimately have "unat (n - 32) = unat n + 134217727 * 32" by linarith
  then show ?thesis by (simp only: mod_mult_self1)
qed

lemma short_option_loops:
  assumes "p + 1 < length short" and "short ! p = 3" and "short ! (p + 1) = 1" and "\<not> useForStatelessAddressConfiguration short p"
    and "router_prefixes C R identify message pos q n nextEntry m = Some r"
  shows "\<not> (message = short \<and> q = Some p \<and> 8 \<le> unat n mod 32)"
proof (rule router_prefixes.raw_induct [OF _ assms(5)])
  fix f :: "memory_config \<Rightarrow> lifetime_config \<Rightarrow> (ipv6addr \<Rightarrow> ipv6addr) \<Rightarrow> u8 list \<Rightarrow> u8 \<Rightarrow> nat option \<Rightarrow> u32 \<Rightarrow> nat \<Rightarrow> memory \<Rightarrow> memory outcome option"
    and C R identify message pos q n nextEntry m r
  assume IH: "\<And>C R identify message pos q n nextEntry m r. f C R identify message pos q n nextEntry m = Some r \<Longrightarrow>
      \<not> (message = short \<and> q = Some p \<and> 8 \<le> unat n mod 32)"
    and r: "(case q of None \<Rightarrow> Some (Inr m)
      | Some p \<Rightarrow>
        (case (if useForStatelessAddressConfiguration message p then update_prefix C R identify message pos p nextEntry m else Inr (nextEntry, m)) of
           Inl e \<Rightarrow> Some (Inl e)
         | Inr (nextEntry, m) \<Rightarrow>
           (case get_prefix_option message p (n - 32) of
              Inl e \<Rightarrow> Some (Inl e)
            | Inr q \<Rightarrow> f C R identify message pos q (n - 32) nextEntry m))) = Some r"
  show "\<not> (message = short \<and> q = Some p \<and> 8 \<le> unat n mod 32)"
  proof
    assume a: "message = short \<and> q = Some p \<and> 8 \<le> unat n mod 32"
    have n: "8 \<le> unat (n - 32) mod 32" using a by (simp add: minus_32_mod)
    then have "8 \<le> unat (n - 32)" by (meson le_trans mod_less_eq_dividend)
    then have "get_prefix_option short p (n - 32) = Inr (Some p)" using prefix_found [of p short "n - 32"] assms(1-3) by simp
    then have "f C R identify message pos (Some p) (n - 32) nextEntry m = Some r" using r a assms(4) by simp
    from IH [OF this] show False using a n by simp
  qed
qed

text \<open>C39: A router advertisement with a prefix option of one unit instead of four never returns from its handler: the loop takes the
  length of a whole option from what remains, which wraps around, and searches on from the option it has just seen. The host
  only has to know the sender, whom it adds to its neighbours when there is room.\<close>

theorem short_prefix_option_hangs:
  assumes "length hdr = 16" and "hdr ! 0 = 134" and "hdr ! 1 = 0" and "ra_router_lifetime hdr \<noteq> 0" and "length mac = 6"
    and "length opt = 6" and "0x40 AND opt ! 1 = 0" and "ndpcache_find C src m \<noteq> None"
  shows "router_advertisement_receive C L R identify garbage src (hdr @ ndp_option (SourceLinkLayer, mac) @ ndp_option (3, opt)) 32 m = None"
proof -
  let ?msg = "hdr @ ndp_option (SourceLinkLayer, mac) @ ndp_option (3, opt)"
  obtain e where e: "ndpcache_find C src m = Some e" using assms(8) by blast
  have opts: "ndp_option (SourceLinkLayer, mac) = 1 # 1 # mac" "ndp_option (3, opt) = 3 # 1 # opt"
    using assms(5,6) by (simp_all add: ndp_option_def SourceLinkLayer_def)
  have b: "?msg ! 0 = 134" "?msg ! 1 = 0" "?msg ! 16 = 1" "?msg ! 17 = 1" "?msg ! 24 = 3" "?msg ! 25 = 1" "?msg ! 27 = opt ! 1" "length ?msg = 32"
    using assms(1-3,5,6) by (simp_all add: opts nth_append)
  have life: "ra_router_lifetime ?msg = ra_router_lifetime hdr"
    using assms(1) by (simp add: ra_router_lifetime_def get16_def nth_append)
  have mac: "get_option_linklayer_address SourceLinkLayer ?msg 16 16 = Inr (Some mac)"
    using ndp_search_first [of SourceLinkLayer mac 16 SourceLinkLayer hdr "ndp_option (3, opt)"] assms(1,5) by (simp add: ndp_well_formed_def)
  have p: "get_prefix_option ?msg 16 16 = Inr (Some 24)"
    using prefix_skipped [of 16 ?msg 16] prefix_found [of 24 ?msg 8] b by simp
  have a: "\<not> useForStatelessAddressConfiguration ?msg 24" using b(7) assms(7) by (simp add: useForStatelessAddressConfiguration_def get8_def)
  have "router_prefixes C R identify ?msg pos (Some 24) 16 nextEntry m' \<noteq> Some r" for pos nextEntry m' r
    using short_option_loops [of 24 ?msg C R identify ?msg pos "Some 24" 16 nextEntry m' r] b a by auto
  then have n: "router_prefixes C R identify ?msg pos (Some 24) 16 nextEntry m' = None" for pos nextEntry m' by (cases "router_prefixes C R identify ?msg pos (Some 24) 16 nextEntry m'") auto
  show ?thesis
    using e mac p n life assms(4) b(1,2) by (simp add: router_advertisement_receive_def get8_def ra_options_def Let_def del: append.simps split: prod.split)
qed

subsection \<open>The second prefix\<close>

text \<open>An option is read alike whatever stands behind it.\<close>

lemma update_prefix_local:
  assumes "p + 32 \<le> length pre" and "5 \<le> length pre"
  shows "update_prefix C R identify (pre @ post) pos p nextEntry m = update_prefix C R identify pre pos p nextEntry m"
    "useForStatelessAddressConfiguration (pre @ post) p = useForStatelessAddressConfiguration pre p"
proof -
  have d: "take n (drop (p + k) (pre @ post)) = take n (drop (p + k) pre)" if "k + n \<le> 32" for n k
    using that assms(1) by (simp add: take_append drop_append)
  have g: "get8 (p + k) (pre @ post) = get8 (p + k) pre" if "k < 32" for k using that assms(1) by (simp add: get8_def nth_append)
  have g': "get32 (p + k) (pre @ post) = get32 (p + k) pre" if "k + 4 \<le> 32" for k using that assms(1) by (simp add: get32_def nth_append)
  have h: "get8 4 (pre @ post) = get8 4 pre" using assms(2) by (simp add: get8_def nth_append)
  have pk: "peek_all (pre @ post) p 32 = Inr (take 32 (drop p (pre @ post)))" "peek_all pre p 32 = Inr (take 32 (drop p pre))"
    using assms(1) by (simp_all add: peek_all_def)
  have f: "prefix_address (pre @ post) p = prefix_address pre p" "prefix_length (pre @ post) p = prefix_length pre p"
    "prefix_isOnLink (pre @ post) p = prefix_isOnLink pre p" "get_valid_lifetime (pre @ post) p = get_valid_lifetime pre p"
    "get_preferred_lifetime (pre @ post) p = get_preferred_lifetime pre p" "ra_curHopLimit (pre @ post) = ra_curHopLimit pre"
    using d [of 16 16] g [of 2] g [of 3] g' [of 4] g' [of 8] h
    by (simp_all only: prefix_address_def prefix_length_def prefix_isOnLink_def get_valid_lifetime_def get_preferred_lifetime_def ra_curHopLimit_def)
  show "update_prefix C R identify (pre @ post) pos p nextEntry m = update_prefix C R identify pre pos p nextEntry m"
    unfolding update_prefix_def f pk obind_simps ..
  show "useForStatelessAddressConfiguration (pre @ post) p = useForStatelessAddressConfiguration pre p"
    using g [of 3] by (simp add: useForStatelessAddressConfiguration_def)
qed

text \<open>What the loop does with two prefixes: the first one twice.\<close>

definition use_prefix :: "memory_config \<Rightarrow> lifetime_config \<Rightarrow> (ipv6addr \<Rightarrow> ipv6addr) \<Rightarrow> u8 list \<Rightarrow> u8 \<Rightarrow> nat \<Rightarrow> nat \<times> memory \<Rightarrow> (nat \<times> memory) outcome" where
  "use_prefix C R identify message pos p st =
     (if useForStatelessAddressConfiguration message p then update_prefix C R identify message pos p (fst st) (snd st) else Inr st)"

lemma loop_on_two_prefixes:
  assumes "length pre = 24" and "length bodyA = 30" and "length bodyB = 30"
  shows "router_prefixes C R identify (pre @ ndp_option (3, bodyA) @ ndp_option (3, bodyB)) pos (Some 24) 72 nextEntry m =
    Some (case obind (use_prefix C R identify (pre @ ndp_option (3, bodyA)) pos 24 (nextEntry, m)) (use_prefix C R identify (pre @ ndp_option (3, bodyA)) pos 24) of
      Inl e \<Rightarrow> Inl e | Inr (_, m) \<Rightarrow> Inr m)"
proof -
  let ?A = "pre @ ndp_option (3, bodyA)" let ?msg = "pre @ ndp_option (3, bodyA) @ ndp_option (3, bodyB)"
  have o: "ndp_option (3, bodyA) = 3 # 4 # bodyA" using assms(2) by (simp add: ndp_option_def)
  have b: "?msg ! 24 = 3" "?msg ! 25 = 4" "25 < length ?msg" using assms(1) by (simp_all add: o nth_append)
  have l: "24 + 32 \<le> length ?A" "5 \<le> length ?A" using assms by simp_all
  note u = update_prefix_local [where post = "ndp_option (3, bodyB)", OF l, unfolded append_assoc]
  have p: "get_prefix_option ?msg 24 40 = Inr (Some 24)" "get_prefix_option ?msg 24 8 = Inr None"
    using prefix_found [of 24 ?msg 40] prefix_too_long [of 24 ?msg 8] b by simp_all
  have step: "router_prefixes C R identify ?msg pos (Some 24) n nextEntry m =
      (case use_prefix C R identify ?A pos 24 (nextEntry, m) of Inl e \<Rightarrow> Some (Inl e)
       | Inr (nextEntry, m) \<Rightarrow> (case get_prefix_option ?msg 24 (n - 32) of Inl e \<Rightarrow> Some (Inl e)
          | Inr q \<Rightarrow> router_prefixes C R identify ?msg pos q (n - 32) nextEntry m))" for n nextEntry m
    by (subst router_prefixes.simps) (simp add: use_prefix_def u)
  have fin: "router_prefixes C R identify ?msg pos None n nextEntry m = Some (Inr m)" for n nextEntry m
    by (subst router_prefixes.simps) simp
  show ?thesis
    unfolding step [of 72] using p
    by (simp add: step [of 40] fin split: sum.split prod.split)
qed

text \<open>Of two prefixes in an advertisement the second one has no effect: the search for the next option starts at the one just
  seen instead of behind it, so the first prefix is handled twice and then the rest is too short. Addresses of the second
  prefix are never made.\<close>

theorem second_prefix_ignored:
  assumes "length hdr = 16" and "length mac = 6" and "length bodyA = 30" and "length bodyB = 30" and "length bodyB' = 30"
  shows "router_advertisement_receive C L R identify garbage src
      (hdr @ ndp_option (SourceLinkLayer, mac) @ ndp_option (3, bodyA) @ ndp_option (3, bodyB)) 88 m =
    router_advertisement_receive C L R identify garbage src
      (hdr @ ndp_option (SourceLinkLayer, mac) @ ndp_option (3, bodyA) @ ndp_option (3, bodyB')) 88 m"
proof -
  let ?msg = "\<lambda>B. hdr @ ndp_option (SourceLinkLayer, mac) @ ndp_option (3, bodyA) @ ndp_option (3, B)"
  have pre: "length (hdr @ ndp_option (SourceLinkLayer, mac)) = 24" using assms by simp
  have o: "ndp_option (SourceLinkLayer, mac) = 1 # 1 # mac" "ndp_option (3, bodyA) = 3 # 4 # bodyA"
    using assms(2,3) by (simp_all add: ndp_option_def SourceLinkLayer_def)
  have loop: "router_prefixes C R identify (?msg bodyB) pos (Some 24) 72 nextEntry m = router_prefixes C R identify (?msg bodyB') pos (Some 24) 72 nextEntry m"
    for pos nextEntry m
    using loop_on_two_prefixes [OF pre assms(3,4)] loop_on_two_prefixes [OF pre assms(3,5)] by simp
  have first: "get_prefix_option (?msg B) 16 72 = Inr (Some 24)" if "length B = 30" for B
  proof -
    have b: "?msg B ! 16 = 1" "?msg B ! 17 = 1" "?msg B ! 24 = 3" "?msg B ! 25 = 4" "25 < length (?msg B)"
      using assms(1-3) that by (simp_all add: o nth_append)
    show ?thesis using prefix_skipped [of 16 "?msg B" 72] prefix_found [of 24 "?msg B" 64] b by simp
  qed
  have mac: "get_option_linklayer_address SourceLinkLayer (?msg B) 16 72 = Inr (Some mac)" for B
    using ndp_search_first [of SourceLinkLayer mac 72 SourceLinkLayer hdr "ndp_option (3, bodyA) @ ndp_option (3, B)"] assms(1,2) by (simp add: ndp_well_formed_def)
  have h: "get8 0 (?msg B) = get8 0 hdr" "get8 1 (?msg B) = get8 1 hdr" "ra_router_lifetime (?msg B) = ra_router_lifetime hdr"
    "ra_reachable_time (?msg B) = ra_reachable_time hdr" for B
    using assms(1) by (simp_all add: get8_def ra_router_lifetime_def ra_reachable_time_def get16_def get32_def nth_append)
  have n: "(88 :: u32) - 16 = 72" "\<not> (88 :: u32) < 16" "ra_options = 16" by (simp_all add: ra_options_def)
  show ?thesis
    unfolding router_advertisement_receive_def h n Let_def mac first [OF assms(4)] first [OF assms(5)] sum.case loop ..
qed

subsection \<open>Loops that treat every entry alone\<close>

lemma same_slot_trans: "same_slot C m m1 j \<Longrightarrow> same_slot C m1 m2 j \<Longrightarrow> same_slot C m m2 j"
  by (simp add: same_slot_def)

lemma same_slot_refl [simp]: "same_slot C m m j"
  by (simp add: same_slot_def)

definition local_at :: "memory_config \<Rightarrow> (memory \<Rightarrow> memory) \<Rightarrow> nat \<Rightarrow> bool" where
  "local_at C f k \<longleftrightarrow> (\<forall>m. memory_ok C m \<longrightarrow> memory_ok C (f m) \<and> (\<forall>j < cache_entries C. j \<noteq> k \<longrightarrow> same_slot C m (f m) j))"

lemma fold_local:
  assumes "memory_ok C m" and "\<And>k. k < cache_entries C \<Longrightarrow> local_at C (f k) k" and "set ks \<subseteq> {..<cache_entries C}" and "distinct ks" and "j < cache_entries C"
  shows "memory_ok C (fold f ks m) \<and> (if j \<in> set ks then \<exists>m1. memory_ok C m1 \<and> same_slot C m m1 j \<and> same_slot C (f j m1) (fold f ks m) j
    else same_slot C m (fold f ks m) j)"
  using assms(1,3,4)
proof (induction ks arbitrary: m)
  case Nil
  then show ?case by simp
next
  case (Cons k ks)
  have l: "local_at C (f k) k" using assms(2) Cons.prems(2) by simp
  then have ok: "memory_ok C (f k m)" and s: "j \<noteq> k \<Longrightarrow> same_slot C m (f k m) j" using Cons.prems(1) assms(5) by (simp_all add: local_at_def)
  have "set ks \<subseteq> {..<cache_entries C}" "distinct ks" using Cons.prems by simp_all
  note IH = Cons.IH [OF ok this]
  show ?case
  proof (cases "j = k")
    case True
    then have "same_slot C (f k m) (fold f (k # ks) m) j" using IH Cons.prems(3) by simp
    then show ?thesis using True IH Cons.prems(1) same_slot_refl by auto
  next
    case False
    then show ?thesis using IH s [OF False] same_slot_trans by (auto split: if_splits)
  qed
qed

text \<open>Every entry of the type is treated once, as it was before the loop.\<close>

lemma sweep_slots:
  fixes f :: "nat \<Rightarrow> memory \<Rightarrow> memory"
  assumes "memory_ok C m" and "\<And>k. k < cache_entries C \<Longrightarrow> local_at C (f (k * entry_size C)) k" and "j < cache_entries C"
  shows "memory_ok C (snd (snd (for_entries C type (\<lambda>p (u :: unit, m). (u, f p m)) 0 ((), m))))"
    "if slot_of C m j 0 = type
     then \<exists>m1. memory_ok C m1 \<and> same_slot C m m1 j \<and>
       same_slot C (f (j * entry_size C) m1) (snd (snd (for_entries C type (\<lambda>p (u :: unit, m). (u, f p m)) 0 ((), m)))) j
     else same_slot C m (snd (snd (for_entries C type (\<lambda>p (u :: unit, m). (u, f p m)) 0 ((), m)))) j"
proof -
  let ?b = "\<lambda>p (u :: unit, m). (u, f p m)" and ?ks = "filter (\<lambda>k. slot_of C m k 0 = type) [0..<cache_entries C]"
  have z: "0 < entry_size C" using size_pos(1) [OF assms(1)] by simp
  have "snd (for_entries C type ?b 0 ((), m)) = fold ?b (visited_entries C 0 type (snd ((), m))) ((), m)"
  proof (rule for_entries_fold)
    show "memory_ok C (snd ((), m))" using assms(1) by simp
    fix k and st :: "unit \<times> memory"
    assume "memory_ok C (snd st)" "k < cache_entries C"
    then show "memory_ok C (snd (?b (k * entry_size C) st)) \<and> (\<forall>l. k < l \<and> l < cache_entries C \<longrightarrow>
        (snd (?b (k * entry_size C) st) ! (l * entry_size C) = type \<longleftrightarrow> snd st ! (l * entry_size C) = type))"
      using assms(2) [of k] z by (cases st) (auto simp: local_at_def same_slot_def slot_of_zero)
  qed
  moreover have "snd (fold (\<lambda>k (u :: unit, m). (u, h k m)) ks ((), m)) = fold h ks m" for h :: "nat \<Rightarrow> memory \<Rightarrow> memory" and ks m
    by (induction ks arbitrary: m) simp_all
  ultimately have e: "snd (snd (for_entries C type ?b 0 ((), m))) = fold (\<lambda>k. f (k * entry_size C)) ?ks m"
    by (simp add: visited_all [OF assms(1)] fold_map comp_def)
  have "set ?ks \<subseteq> {..<cache_entries C}" "distinct ?ks" by auto
  note r = fold_local [where f = "\<lambda>k. f (k * entry_size C)", OF assms(1,2) this assms(3)]
  show "memory_ok C (snd (snd (for_entries C type ?b 0 ((), m))))" unfolding e using r by simp
  show "if slot_of C m j 0 = type
     then \<exists>m1. memory_ok C m1 \<and> same_slot C m m1 j \<and> same_slot C (f (j * entry_size C) m1) (snd (snd (for_entries C type ?b 0 ((), m)))) j
     else same_slot C m (snd (snd (for_entries C type ?b 0 ((), m)))) j"
    unfolding e using r assms(3) by (auto split: if_splits)
qed

lemma for_entries_step:
  "findEntry C i type (snd st) = None \<Longrightarrow> for_entries C type body i st = (i, st)"
  "findEntry C i type (snd st) = Some (p, nx) \<Longrightarrow> for_entries C type body i st = for_entries C type body nx (body p st)"
  by (subst for_entries.simps, simp)+

lemma loop_ends_behind: "findEntry C (fst (for_entries C type body i st)) type (snd (snd (for_entries C type body i st))) = None"
proof (induction C type body i st rule: for_entries.induct)
  case (1 C type body i st)
  then show ?case by (cases "findEntry C i type (snd st)") (auto simp: for_entries_step)
qed

lemma findEntry_cong:
  assumes "\<And>k. k < cache_entries C \<Longrightarrow> slot_of C m' k 0 = type \<longleftrightarrow> slot_of C m k 0 = type"
  shows "findEntry C i type m' = findEntry C i type m"
proof -
  have "i + n \<le> cache_entries C \<Longrightarrow> find_slot C n i type m' = find_slot C n i type m" for n i
    using assms by (induction n arbitrary: i) (simp_all add: slot_of_zero)
  then show ?thesis by (cases "i \<le> cache_entries C") (simp_all add: findEntry_def)
qed

subsection \<open>Writing an entry\<close>

text \<open>\<open>m'\<close> is \<open>m\<close> with the bytes \<open>f\<close> in slot \<open>k\<close>.\<close>

definition slot_written :: "memory_config \<Rightarrow> memory \<Rightarrow> memory \<Rightarrow> nat \<Rightarrow> (nat \<Rightarrow> u8) \<Rightarrow> bool" where
  "slot_written C m m' k f \<longleftrightarrow> memory_ok C m' \<and> k < cache_entries C \<and> (\<forall>j < cache_entries C. j \<noteq> k \<longrightarrow> same_slot C m m' j) \<and>
     (\<forall>y < entry_size C. slot_of C m' k y = f y)"

lemma written_refl: "memory_ok C m \<Longrightarrow> k < cache_entries C \<Longrightarrow> slot_written C m m k (slot_of C m k)"
  by (simp add: slot_written_def)

lemma written_byte:
  assumes "slot_written C m m1 k f" and "x < entry_size C"
  shows "slot_written C m (m1[k * entry_size C + x := v]) k (f(x := v))"
proof -
  have ok: "memory_ok C m1" and k: "k < cache_entries C" using assms(1) by (simp_all add: slot_written_def)
  show ?thesis
    using assms slot_of_update [OF ok k assms(2)] memory_ok_cong [OF ok] by (auto simp: slot_written_def same_slot_def)
qed

lemma written_bytes:
  assumes "slot_written C m m1 k f" and "x + length bs \<le> entry_size C"
  shows "slot_written C m (put_bytes (k * entry_size C + x) bs m1) k (\<lambda>y. if x \<le> y \<and> y < x + length bs then bs ! (y - x) else f y)"
proof -
  have ok: "memory_ok C m1" and k: "k < cache_entries C" using assms(1) by (simp_all add: slot_written_def)
  have "k * entry_size C + x + length bs \<le> length m1"
    using assms(2) k ok mult_le_mono1 [of "Suc k" "cache_entries C" "entry_size C"] by (simp add: memory_ok_def)
  then have "memory_ok C (put_bytes (k * entry_size C + x) bs m1)" by (intro memory_ok_cong [OF ok]) simp
  then show ?thesis using assms slot_of_put [OF ok k assms(2)] by (auto simp: slot_written_def same_slot_def)
qed

lemma written_id:
  assumes "slot_written C m m1 k f"
  shows "slot_written C m (m1[k * entry_size C := v]) k (f(0 := v))"
  using written_byte [OF assms, of 0 v] size_pos(1) [of C m1] assms by (simp add: slot_written_def)

lemma written_flag:
  assumes "slot_written C m m1 k f"
  shows "slot_written C m (set_stateflag (k * entry_size C) (g (entry_stateflag m1 (k * entry_size C))) m1) k (f(18 := g (f 18)))"
proof -
  have "18 < entry_size C" using size_pos(1) [of C m1] assms by (simp add: slot_written_def)
  moreover from this have "entry_stateflag m1 (k * entry_size C) = f 18" using assms by (simp add: slot_written_def entry_stateflag_def slot_of_def)
  ultimately show ?thesis using written_byte [OF assms, of 18 "g (f 18)"] by (simp add: set_stateflag_def)
qed

lemma written_local: "k < cache_entries C \<Longrightarrow> (\<And>m. memory_ok C m \<Longrightarrow> \<exists>g. slot_written C m (f m) k g) \<Longrightarrow> local_at C f k"
  by (auto simp: local_at_def slot_written_def)

lemma set_toBeRemoved_written:
  assumes "memory_ok C m" and "k < cache_entries C"
  shows "slot_written C m (set_toBeRemoved (k * entry_size C) b m) k ((slot_of C m k)(18 := put_flag 3 b (slot_of C m k 18)))"
  using written_flag [OF written_refl [OF assms], of "put_flag 3 b"] by (simp add: set_toBeRemoved_def)

lemma freeEntry_written:
  assumes "memory_ok C m" and "k < cache_entries C"
  shows "slot_written C m (freeEntry (k * entry_size C) m) k ((slot_of C m k)(0 := 0))"
  using written_id [OF written_refl [OF assms]] by (simp add: freeEntry_def)

lemma written_slot: "slot_written C m m' k f \<Longrightarrow> j < cache_entries C \<Longrightarrow> y < entry_size C \<Longrightarrow> slot_of C m' j y = (if j = k then f y else slot_of C m j y)"
  by (auto simp: slot_written_def same_slot_def)

lemma small_offsets: "memory_ok C m \<Longrightarrow> x \<le> 20 \<Longrightarrow> x < entry_size C"
  using size_pos(1) [of C m] by simp

lemma flag_prefixes_slots:
  assumes "memory_ok C m" and "flag_prefixes C pos m = (ne, m')" and "j < cache_entries C" and "y < entry_size C"
  shows "memory_ok C m'" "findEntry C ne AddressEntry_ID m' = None"
    "slot_of C m' j y = (if y = 18 \<and> slot_of C m j 0 = AddressEntry_ID \<and> slot_of C m j 19 = pos then put_flag 3 True (slot_of C m j 18) else slot_of C m j y)"
proof -
  let ?f = "\<lambda>p m. if entry_routerEntryPosition m p = pos then set_toBeRemoved p True m else m"
  let ?r = "for_entries C AddressEntry_ID (\<lambda>p (u :: unit, m). (u, ?f p m)) 0 ((), m)"
  have r: "ne = fst ?r" "m' = snd (snd ?r)" using assms(2) by (auto simp: flag_prefixes_def split: prod.splits)
  have l: "local_at C (?f (k * entry_size C)) k" if "k < cache_entries C" for k
    using set_toBeRemoved_written [OF _ that] written_refl [OF _ that] by (intro written_local [OF that]) (auto split: if_split)
  note s = sweep_slots [where f = ?f and type = AddressEntry_ID, OF assms(1) l assms(3), folded r(2)]
  show "memory_ok C m'" by (rule s(1))
  show "findEntry C ne AddressEntry_ID m' = None" unfolding r by (rule loop_ends_behind)
  show "slot_of C m' j y = (if y = 18 \<and> slot_of C m j 0 = AddressEntry_ID \<and> slot_of C m j 19 = pos then put_flag 3 True (slot_of C m j 18) else slot_of C m j y)"
  proof (cases "slot_of C m j 0 = AddressEntry_ID")
    case True
    then obtain m1 where m1: "memory_ok C m1" "same_slot C m m1 j" "same_slot C (?f (j * entry_size C) m1) m' j" using s(2) by auto
    have e: "slot_of C m1 j 18 = slot_of C m j 18" "slot_of C m1 j 19 = slot_of C m j 19"
      using m1(2) small_offsets [OF assms(1), of 18] small_offsets [OF assms(1), of 19] by (simp_all add: same_slot_def)
    have y: "slot_of C m1 j y = slot_of C m j y" "slot_of C m' j y = slot_of C (?f (j * entry_size C) m1) j y"
      using m1(2,3) assms(4) by (simp_all add: same_slot_def)
    show ?thesis
      using True e y written_slot [OF set_toBeRemoved_written [OF m1(1) assms(3)] assms(3,4), of True] by (auto simp: fields_in_slot)
  next
    case False
    then show ?thesis using s(2) assms(4) by (simp add: same_slot_def)
  qed
qed

lemma remove_flagged_slots:
  assumes "memory_ok C m" and "j < cache_entries C" and "y < entry_size C"
  shows "memory_ok C (remove_flagged C pos m)"
    "slot_of C (remove_flagged C pos m) j y =
      (if y = 0 \<and> slot_of C m j 0 = AddressEntry_ID \<and> slot_of C m j 19 = pos \<and> bit (slot_of C m j 18) 3 then 0 else slot_of C m j y)"
proof -
  let ?f = "\<lambda>p m. if entry_routerEntryPosition m p = pos \<and> entry_toBeRemoved m p then freeEntry p m else m"
  have l: "local_at C (?f (k * entry_size C)) k" if "k < cache_entries C" for k
    using freeEntry_written [OF _ that] written_refl [OF _ that] by (intro written_local [OF that]) (auto split: if_split)
  note s = sweep_slots [where f = ?f and type = AddressEntry_ID, OF assms(1) l assms(2), folded remove_flagged_def]
  show "memory_ok C (remove_flagged C pos m)" by (rule s(1))
  show "slot_of C (remove_flagged C pos m) j y =
      (if y = 0 \<and> slot_of C m j 0 = AddressEntry_ID \<and> slot_of C m j 19 = pos \<and> bit (slot_of C m j 18) 3 then 0 else slot_of C m j y)"
  proof (cases "slot_of C m j 0 = AddressEntry_ID")
    case True
    then obtain m1 where m1: "memory_ok C m1" "same_slot C m m1 j" "same_slot C (?f (j * entry_size C) m1) (remove_flagged C pos m) j" using s(2) by auto
    have e: "slot_of C m1 j 18 = slot_of C m j 18" "slot_of C m1 j 19 = slot_of C m j 19"
      using m1(2) small_offsets [OF assms(1), of 18] small_offsets [OF assms(1), of 19] by (simp_all add: same_slot_def)
    have y: "slot_of C m1 j y = slot_of C m j y" "slot_of C (remove_flagged C pos m) j y = slot_of C (?f (j * entry_size C) m1) j y"
      using m1(2,3) assms(3) by (simp_all add: same_slot_def)
    have b: "entry_toBeRemoved m1 (j * entry_size C) = bit (slot_of C m1 j 18) 3" by (simp add: entry_toBeRemoved_def entry_stateflag_def slot_of_def)
    show ?thesis
      using True e y b written_slot [OF freeEntry_written [OF m1(1) assms(2)] assms(2,3)] by (auto simp: fields_in_slot)
  next
    case False
    then show ?thesis using s(2) assms(3) by (simp add: same_slot_def)
  qed
qed

subsection \<open>A new address\<close>

lemma written_ok: "slot_written C m m' k f \<Longrightarrow> memory_ok C m'"
  by (simp add: slot_written_def)

definition fresh_address :: "ipv6addr \<Rightarrow> u8 \<Rightarrow> u8 \<Rightarrow> nat \<Rightarrow> u8" where
  "fresh_address addr prefixlen pos y =
     (if y = 0 then AddressEntry_ID else if y < 17 then ipaddrB8 addr ! (y - 1) else if y = 17 then prefixlen else if y = 18 then 5 else pos)"

text \<open>The writers of the fields.\<close>

lemma written_size: "slot_written C m m1 k f \<Longrightarrow> x \<le> 20 \<Longrightarrow> x < entry_size C"
  using small_offsets by (auto simp: slot_written_def)

lemma written_fields:
  assumes "slot_written C m m1 k f"
  shows "length (ipaddrB8 a) = 16 \<Longrightarrow> slot_written C m (set_entry_ipv6 (k * entry_size C) a m1) k (\<lambda>y. if 1 \<le> y \<and> y < 17 then ipaddrB8 a ! (y - 1) else f y)"
    "slot_written C m (set_prefixlen (k * entry_size C) n m1) k (f(17 := n))"
    "slot_written C m (set_routerEntryPosition (k * entry_size C) r m1) k (f(19 := r))"
    "slot_written C m (set_hoplimit (k * entry_size C) h m1) k (f(20 := h))"
  using written_bytes [OF assms, of 1 "ipaddrB8 a"] written_byte [OF assms, of 17] written_byte [OF assms, of 19] written_byte [OF assms, of 20]
    written_size [OF assms, of 17] written_size [OF assms, of 19] written_size [OF assms, of 20]
  by (simp_all add: set_entry_ipv6_def set_prefixlen_def set_routerEntryPosition_def set_hoplimit_def)

lemma written_flags:
  assumes "slot_written C m m1 k f"
  shows "slot_written C m (set_isOnLink (k * entry_size C) b m1) k (f(18 := put_flag 2 b (f 18)))"
    "slot_written C m (set_toBeRemoved (k * entry_size C) b m1) k (f(18 := put_flag 3 b (f 18)))"
    "slot_written C m (set_stateflag (k * entry_size C) w m1) k (f(18 := w))"
  using written_flag [OF assms, of "put_flag 2 b"] written_flag [OF assms, of "put_flag 3 b"] written_flag [OF assms, of "\<lambda>_. w"]
  by (simp_all add: set_isOnLink_def set_toBeRemoved_def)

lemma written_state:
  "slot_written C m m1 k f \<Longrightarrow> slot_written C m (setIPv6AddressState (k * entry_size C) st m1) k (f(18 := (f 18 AND NOT 3) OR AddressEntryStateValid))"
  using written_flag [of C m m1 k f "\<lambda>w. (w AND NOT 3) OR AddressEntryStateValid"] by (simp add: setIPv6AddressState_def)

lemma written_reserve: "slot_written C m m1 k f \<Longrightarrow> slot_written C m (address_reserve (k * entry_size C) m1) k (f(0 := AddressEntry_ID))"
  using written_id by (simp add: address_reserve_def)

lemma written_times:
  assumes "slot_written C m m1 k f" and "lifetime_config_ok C R"
  shows "slot_written C m (set_valid_time R (k * entry_size C) v m1) k (\<lambda>y. if valid_at R \<le> y \<and> y < valid_at R + 4 then store32 v ! (y - valid_at R) else f y)"
    "slot_written C m (set_preferred_time R (k * entry_size C) v m1) k (\<lambda>y. if preferred_at R \<le> y \<and> y < preferred_at R + 4 then store32 v ! (y - preferred_at R) else f y)"
  using written_bytes [OF assms(1), of "valid_at R" "store32 v"] written_bytes [OF assms(1), of "preferred_at R" "store32 v"] assms(2)
  by (simp_all add: set_valid_time_def set_preferred_time_def set32_def lifetime_config_ok_def)

lemma makeIPv6AddressByPrefix_written:
  assumes "memory_ok C m" and "lifetime_config_ok C R" and "k < cache_entries C" and "findEntry C 0 FreeEntry_ID m = Some (k * entry_size C, nx)"
    and "length (ipaddrB8 (identify prefix)) = 16"
  shows "\<exists>m' f. makeIPv6AddressByPrefix C R identify prefix prefixlen st pos m = (Some (k * entry_size C), m') \<and> slot_written C m m' k f \<and>
    (\<forall>y < 20. f y = fresh_address (identify prefix) prefixlen pos y)"
proof -
  let ?p = "k * entry_size C" let ?a = "identify prefix"
  have c: "17 < entry_size C" "19 < entry_size C" "valid_at R + 4 \<le> entry_size C" "preferred_at R + 4 \<le> entry_size C" "1 + 16 \<le> entry_size C"
      "20 < valid_at R" "20 < preferred_at R"
    using assms(2) small_offsets [OF assms(1), of 17] small_offsets [OF assms(1), of 19] by (simp_all add: lifetime_config_ok_def)
  let ?m1 = "set_entry_ipv6 ?p ?a m"
  let ?m2 = "set_prefixlen ?p prefixlen ?m1"
  let ?m3 = "set_isOnLink ?p True (set_stateflag ?p 0 ?m2)"
  let ?m4 = "set_routerEntryPosition ?p pos ?m3"
  let ?m5 = "setIPv6AddressState ?p st (address_reserve ?p ?m4)"
  let ?m6 = "set_valid_time R ?p NoTimeExpire ?m5"
  let ?m7 = "set_preferred_time R ?p NoTimeExpire ?m6"
  have "makeIPv6AddressByPrefix C R identify prefix prefixlen st pos m = (Some ?p, ?m7)"
    using assms(4) by (simp add: makeIPv6AddressByPrefix_def Let_def)
  moreover have "\<exists>f. slot_written C m ?m7 k f \<and> (\<forall>y < 20. f y = fresh_address ?a prefixlen pos y)"
  proof -
    have w: "slot_written C m m k (slot_of C m k)" by (rule written_refl [OF assms(1,3)])
    show ?thesis
      by (rule exI, rule conjI,
          rule written_times(2) [OF written_times(1) [OF written_state [OF written_reserve [OF written_fields(3) [OF written_flags(1)
            [OF written_flags(3) [OF written_fields(2) [OF written_fields(1) [OF w assms(5)]]]]]]] assms(2)] assms(2)])
         (use c in \<open>auto simp: fresh_address_def put_flag_def AddressEntryStateValid_def\<close>)
  qed
  ultimately show ?thesis by blast
qed

lemma find_prefix_behind: "findEntry C ne AddressEntry_ID m = None \<Longrightarrow> find_prefix C pos prefix n ne m = (None, ne)"
  by (subst find_prefix.simps) simp

lemma times_in_slot:
  "valid_time_minutes R m (k * entry_size C) =
     load32 (slot_of C m k (valid_at R)) (slot_of C m k (valid_at R + 1)) (slot_of C m k (valid_at R + 2)) (slot_of C m k (valid_at R + 3))"
  "preferred_time_minutes R m (k * entry_size C) =
     load32 (slot_of C m k (preferred_at R)) (slot_of C m k (preferred_at R + 1)) (slot_of C m k (preferred_at R + 2)) (slot_of C m k (preferred_at R + 3))"
  by (simp_all add: valid_time_minutes_def preferred_time_minutes_def get32_def slot_of_def add.assoc)

text \<open>The address that a prefix option asks for, as the entry at \<open>p\<close>.\<close>

definition configured :: "lifetime_config \<Rightarrow> (ipv6addr \<Rightarrow> ipv6addr) \<Rightarrow> u8 list \<Rightarrow> u8 \<Rightarrow> nat \<Rightarrow> memory \<Rightarrow> nat \<Rightarrow> bool" where
  "configured R identify message pos opt m p \<longleftrightarrow>
     entry_id m p = AddressEntry_ID \<and> entry_ipv6 m p = identify (prefix_address message opt) \<and> entry_prefixlen m p = prefix_length message opt \<and>
     entry_state m p = AddressEntryStateValid \<and> entry_isOnLink m p = prefix_isOnLink message opt \<and> \<not> entry_toBeRemoved m p \<and>
     entry_routerEntryPosition m p = pos \<and> entry_hoplimit m p = ra_curHopLimit message \<and>
     valid_time_minutes R m p = get_valid_lifetime message opt \<and> preferred_time_minutes R m p = get_preferred_lifetime message opt"

lemma configured_slot:
  assumes "slot_written C m m' k f" and "lifetime_config_ok C R" and "length (ipaddrB8 addr) = 16"
    and "\<forall>y < 18. f y = fresh_address addr n pos y" and "f 18 = put_flag 2 onlink 5" and "f 19 = pos"
    and "f 20 = hop" and "\<forall>i < 4. f (valid_at R + i) = store32 valid ! i" and "\<forall>i < 4. f (preferred_at R + i) = store32 preferred ! i"
  shows "entry_id m' (k * entry_size C) = AddressEntry_ID" "entry_ipv6 m' (k * entry_size C) = addr" "entry_prefixlen m' (k * entry_size C) = n"
    "entry_state m' (k * entry_size C) = AddressEntryStateValid" "entry_isOnLink m' (k * entry_size C) = onlink"
    "\<not> entry_toBeRemoved m' (k * entry_size C)" "entry_routerEntryPosition m' (k * entry_size C) = pos" "entry_hoplimit m' (k * entry_size C) = hop"
    "valid_time_minutes R m' (k * entry_size C) = valid" "preferred_time_minutes R m' (k * entry_size C) = preferred"
proof -
  have w: "slot_of C m' k y = f y" if "y < entry_size C" for y using assms(1) that by (simp add: slot_written_def)
  have ok: "memory_ok C m'" and k: "k < cache_entries C" using assms(1) by (simp_all add: slot_written_def)
  have c: "\<And>x. x \<le> 20 \<Longrightarrow> x < entry_size C" "valid_at R + 4 \<le> entry_size C" "preferred_at R + 4 \<le> entry_size C"
    using small_offsets [OF ok] assms(2) by (simp_all add: lifetime_config_ok_def)
  have s18: "slot_of C m' k 18 = put_flag 2 onlink 5" using w [of 18] c(1) assms(5) by simp
  note d = entry_id_def entry_prefixlen_def entry_state_def entry_isOnLink_def entry_toBeRemoved_def entry_stateflag_def entry_hoplimit_def
  show "entry_id m' (k * entry_size C) = AddressEntry_ID" "entry_prefixlen m' (k * entry_size C) = n"
    "entry_routerEntryPosition m' (k * entry_size C) = pos" "entry_hoplimit m' (k * entry_size C) = hop"
    using w [of 0] w [of 17] w [of 19] w [of 20] c(1) [of 0] c(1) [of 17] c(1) [of 19] c(1) [of 20] assms(4,6,7)
    by (simp_all add: d slot_of_def fresh_address_def entry_routerEntryPosition_def)
  show "entry_state m' (k * entry_size C) = AddressEntryStateValid" "entry_isOnLink m' (k * entry_size C) = onlink" "\<not> entry_toBeRemoved m' (k * entry_size C)"
    using s18 by (cases onlink; simp add: d slot_of_def put_flag_def AddressEntryStateValid_def bit_simps)+
  have "slot_addr C m' k = ipaddrB8 addr"
    using w c(1) assms(3,4) by (intro nth_equalityI) (simp_all add: slot_addr_def fresh_address_def)
  then show "entry_ipv6 m' (k * entry_size C) = addr" using entry_in_slot(1) [OF ok k] by simp
  have v: "slot_of C m' k (valid_at R + i) = store32 valid ! i" "slot_of C m' k (preferred_at R + i) = store32 preferred ! i" if "i < 4" for i
    using that w c(2,3) assms(8,9) by simp_all
  show "valid_time_minutes R m' (k * entry_size C) = valid"
    using v(1) [of 0] v(1) [of 1] v(1) [of 2] v(1) [of 3] by (simp add: times_in_slot store32_def load32_store32 [unfolded store32_def])
  show "preferred_time_minutes R m' (k * entry_size C) = preferred"
    using v(2) [of 0] v(2) [of 1] v(2) [of 2] v(2) [of 3] by (simp add: times_in_slot store32_def load32_store32 [unfolded store32_def])
qed

lemma update_prefix_new:
  assumes "memory_ok C m" and "lifetime_config_ok C R" and "k < cache_entries C" and "findEntry C 0 FreeEntry_ID m = Some (k * entry_size C, nx)"
    and "length (ipaddrB8 (identify (prefix_address message p))) = 16" and "p + 32 \<le> length message"
    and "findEntry C ne AddressEntry_ID m = None"
  obtains m' f where "update_prefix C R identify message pos p ne m = Inr (ne, m')" and "slot_written C m m' k f"
    and "configured R identify message pos p m' (k * entry_size C)"
proof -
  let ?p = "k * entry_size C" and ?a = "identify (prefix_address message p)"
  from makeIPv6AddressByPrefix_written [where identify = identify and prefix = "prefix_address message p", OF assms(1-5)] obtain m1 f1
    where m1: "makeIPv6AddressByPrefix C R identify (prefix_address message p) (prefix_length message p) AddressEntryStateTemporary pos m = (Some ?p, m1)"
      and w1: "slot_written C m m1 k f1" and f1: "\<forall>y < 20. f1 y = fresh_address ?a (prefix_length message p) pos y" by blast
  let ?m2 = "set_hoplimit ?p (ra_curHopLimit message) (set_toBeRemoved ?p False m1)"
  let ?m3 = "set_valid_time R ?p (get_valid_lifetime message p) (set_isOnLink ?p (prefix_isOnLink message p) ?m2)"
  let ?m4 = "set_preferred_time R ?p (get_preferred_lifetime message p) ?m3"
  have u: "update_prefix C R identify message pos p ne m = Inr (ne, ?m4)"
    using assms(6) find_prefix_behind [OF assms(7)] m1 by (simp add: update_prefix_def peek_all_def Let_def)
  note w4 = written_times(2) [OF written_times(1) [OF written_flags(1) [OF written_fields(4) [OF written_flags(2) [OF w1]]] assms(2)] assms(2),
    of "get_preferred_lifetime message p" "get_valid_lifetime message p" "prefix_isOnLink message p" "ra_curHopLimit message" False]
  have R: "21 \<le> valid_at R" "valid_at R + 4 \<le> preferred_at R" using assms(2) by (simp_all add: lifetime_config_ok_def)
  have "configured R identify message pos p ?m4 ?p"
    unfolding configured_def
    by (intro conjI; rule configured_slot [where addr = ?a, OF w4 assms(2,5)])
       (use R f1 in \<open>auto simp: fresh_address_def put_flag_def\<close>)
  then show thesis using that u w4 by blast
qed

lemma configured_same:
  assumes "memory_ok C m" and "memory_ok C m'" and "k < cache_entries C" and "same_slot C m m' k" and "lifetime_config_ok C R"
    and "configured R identify message pos p m (k * entry_size C)"
  shows "configured R identify message pos p m' (k * entry_size C)"
proof -
  have s: "slot_of C m' k y = slot_of C m k y" if "y < entry_size C" for y using assms(4) that by (simp add: same_slot_def)
  have c: "x \<le> 20 \<Longrightarrow> x < entry_size C" "valid_at R + 4 \<le> entry_size C" "preferred_at R + 4 \<le> entry_size C" for x
    using small_offsets [OF assms(1)] assms(5) by (simp_all add: lifetime_config_ok_def)
  have a: "slot_addr C m' k = slot_addr C m k" using s c(1) by (simp add: slot_addr_def)
  have b: "m' ! (k * entry_size C + x) = m ! (k * entry_size C + x)" if "x \<le> 20" for x
    using s [of x] c(1) [of x] that by (simp add: slot_of_def)
  have t: "slot_of C m' k (valid_at R + i) = slot_of C m k (valid_at R + i)" "slot_of C m' k (preferred_at R + i) = slot_of C m k (preferred_at R + i)"
    if "i < 4" for i using that s c(2,3) by simp_all
  show ?thesis
    using assms(6) t(1) [of 0] t(1) [of 1] t(1) [of 2] t(1) [of 3] t(2) [of 0] t(2) [of 1] t(2) [of 2] t(2) [of 3]
    unfolding configured_def entry_in_slot(1) [OF assms(1,3)] entry_in_slot(1) [OF assms(2,3)] a times_in_slot
    by (simp add: entry_id_def entry_prefixlen_def entry_state_def entry_isOnLink_def entry_toBeRemoved_def entry_stateflag_def entry_hoplimit_def
      entry_routerEntryPosition_def b b [of 0, simplified])
qed

text \<open>One prefix of full length, behind a link layer address.\<close>

lemma loop_on_one_prefix:
  assumes "length pre = 24" and "length body = 30" and "0x40 AND body ! 1 \<noteq> 0"
  shows "router_prefixes C R identify (pre @ ndp_option (3, body)) pos (Some 24) 40 nextEntry m =
    Some (case update_prefix C R identify (pre @ ndp_option (3, body)) pos 24 nextEntry m of Inl e \<Rightarrow> Inl e | Inr (_, m) \<Rightarrow> Inr m)"
proof -
  let ?msg = "pre @ ndp_option (3, body)"
  have o: "ndp_option (3, body) = 3 # 4 # body" using assms(2) by (simp add: ndp_option_def)
  have b: "?msg ! 25 = 4" "25 < length ?msg" "?msg ! 27 = body ! 1" using assms(1,2) by (simp_all add: o nth_append)
  have p: "get_prefix_option ?msg 24 8 = Inr None" using prefix_too_long [of 24 ?msg 8] b by simp
  have a: "useForStatelessAddressConfiguration ?msg 24" using b(3) assms(3) by (simp add: useForStatelessAddressConfiguration_def get8_def)
  have fin: "router_prefixes C R identify ?msg pos None n nextEntry m = Some (Inr m)" for n nextEntry m
    by (subst router_prefixes.simps) simp
  show ?thesis by (subst router_prefixes.simps) (simp add: a p fin split: sum.split)
qed

lemma advertisement_with_prefix:
  fixes hdr mac body :: "u8 list"
  defines "message \<equiv> hdr @ ndp_option (SourceLinkLayer, mac) @ ndp_option (3, body)"
  assumes "length hdr = 16" and "hdr ! 0 = 134" and "hdr ! 1 = 0" and "ra_router_lifetime hdr \<noteq> 0" and "length mac = 6" and "length body = 30"
    and "0x40 AND body ! 1 \<noteq> 0" and "ndpcache_find C src m = Some e"
    and "flag_prefixes C (getPosition C e) (set_isRouting e True (update_NDPCacheEntry_importance L e IMPORTANCE_router m)) = (ne, m1)"
    and "update_prefix C R identify message (getPosition C e) 24 ne m1 = Inr (ne', m2)"
  shows "router_advertisement_receive C L R identify garbage src message 56 m = Some (Inr (remove_flagged C (getPosition C e) m2))"
proof -
  have opts: "ndp_option (SourceLinkLayer, mac) = 1 # 1 # mac" "ndp_option (3, body) = 3 # 4 # body"
    using assms(6,7) by (simp_all add: ndp_option_def SourceLinkLayer_def)
  have b: "message ! 0 = 134" "message ! 1 = 0" "message ! 16 = 1" "message ! 17 = 1" "message ! 24 = 3" "message ! 25 = 4" "25 < length message"
    using assms(2-4,6,7) by (simp_all add: message_def opts nth_append)
  have life: "ra_router_lifetime message = ra_router_lifetime hdr"
    using assms(2) by (simp add: message_def ra_router_lifetime_def get16_def nth_append)
  have mac: "get_option_linklayer_address SourceLinkLayer message 16 40 = Inr (Some mac)"
    using ndp_search_first [of SourceLinkLayer mac 40 SourceLinkLayer hdr "ndp_option (3, body)"] assms(2,6) by (simp add: message_def ndp_well_formed_def)
  have p: "get_prefix_option message 16 40 = Inr (Some 24)"
    using prefix_skipped [of 16 message 40] prefix_found [of 24 message 32] b by simp
  have pre: "length (hdr @ ndp_option (SourceLinkLayer, mac)) = 24" using assms(2,6) by simp
  have loop: "router_prefixes C R identify message pos (Some 24) 40 nextEntry m =
      Some (case update_prefix C R identify message pos 24 nextEntry m of Inl e \<Rightarrow> Inl e | Inr (_, m) \<Rightarrow> Inr m)" for pos nextEntry m
    using loop_on_one_prefix [OF pre assms(7,8)] by (simp add: message_def)
  show ?thesis
    using assms(5,9-11) mac p life b(1,2) by (simp add: router_advertisement_receive_def get8_def ra_options_def Let_def loop)
qed

text \<open>C5: A known router that sends one prefix replaces its addresses. All the addresses that the interface has from it are freed, also
  one of the same prefix: the search for it begins behind the last address, where the loop that flags them has ended. The new
  address takes the first free slot; when there is none the interface is left without an address of this router. Other
  addresses stay as they are.\<close>

theorem advertisement_replaces_addresses:
  fixes hdr mac body :: "u8 list"
  assumes "memory_ok C m" and "ndp_config_ok C L" and "lifetime_config_ok C R" and "is_neighbour C m r" and "ndpcache_find C src m = Some (r * entry_size C)"
    and "length hdr = 16" and "hdr ! 0 = 134" and "hdr ! 1 = 0" and "ra_router_lifetime hdr \<noteq> 0" and "length mac = 6" and "length body = 30"
    and "0x40 AND body ! 1 \<noteq> 0" and "\<forall>a. length (ipaddrB8 a) = 16 \<longrightarrow> length (ipaddrB8 (identify a)) = 16"
    and "message = hdr @ ndp_option (SourceLinkLayer, mac) @ ndp_option (3, body)"
  shows "\<exists>m'. router_advertisement_receive C L R identify garbage src message 56 m = Some (Inr m') \<and> memory_ok C m' \<and>
    (\<forall>j < cache_entries C. slot_of C m j 0 = AddressEntry_ID \<longrightarrow>
       (if slot_of C m j 19 = of_nat r then slot_of C m' j 0 = FreeEntry_ID else same_slot C m m' j)) \<and>
    (case findEntry C 0 FreeEntry_ID m of
       None \<Rightarrow> \<forall>j < cache_entries C. slot_of C m' j 0 = AddressEntry_ID \<longrightarrow> slot_of C m j 0 = AddressEntry_ID
     | Some (p, _) \<Rightarrow> configured R identify message (of_nat r) 24 m' p)"
proof -
  let ?p = "r * entry_size C"
  have rn: "r < cache_entries C" "slot_of C m r 0 = NDPCacheEntry_ID" using assms(4) by (simp_all add: is_neighbour_def)
  have pos: "getPosition C ?p = of_nat r" by (rule getPosition_slot [OF assms(1) rn(1)])
  have c: "expire_at L < entry_size C" "19 \<le> expire_at L" using assms(2) by (simp_all add: ndp_config_ok_def)
  let ?m2 = "set_isRouting ?p True (update_NDPCacheEntry_importance L ?p IMPORTANCE_router m)"
  have w2: "slot_written C m ?m2 r ((slot_of C m r)(expire_at L := expire_value L m ?p OR IMPORTANCE_router,
      18 := put_flag 1 True (update_NDPCacheEntry_importance L ?p IMPORTANCE_router m ! (?p + 18))))"
    unfolding set_isRouting_def update_NDPCacheEntry_importance_def set_expire_value_def
    by (rule written_byte [OF written_byte [OF written_refl [OF assms(1) rn(1)] c(1)]]) (rule small_offsets [OF assms(1)], simp)
  have ok2: "memory_ok C ?m2" by (rule written_ok [OF w2])
  have s2: "slot_of C ?m2 j y = slot_of C m j y" if "j < cache_entries C" "y < entry_size C" "j \<noteq> r" for j y using written_slot [OF w2 that(1,2)] that(3) by simp
  have z: "0 < entry_size C" "18 < entry_size C" "19 < entry_size C" using small_offsets [OF assms(1)] by simp_all
  have t2: "slot_of C ?m2 j 0 = slot_of C m j 0" if "j < cache_entries C" for j
    using written_slot [OF w2 that z(1)] c(2) by auto
  obtain ne m3 where m3: "flag_prefixes C (of_nat r) ?m2 = (ne, m3)" by (cases "flag_prefixes C (of_nat r) ?m2")
  note f = flag_prefixes_slots [OF ok2 m3]
  have ok3: "memory_ok C m3" using f(1) [OF rn(1) z(1)] .
  have behind: "findEntry C ne AddressEntry_ID m3 = None" using f(2) [OF rn(1) z(1)] .
  have t3: "slot_of C m3 j 0 = slot_of C m j 0" if "j < cache_entries C" for j using f(3) [OF that z(1)] t2 [OF that] by simp
  have free: "findEntry C 0 FreeEntry_ID m3 = findEntry C 0 FreeEntry_ID m" by (rule findEntry_cong) (simp add: t3)
  have len: "24 + 32 \<le> length message" using assms(6,10,11) by (simp add: assms(14))
  have id: "length (ipaddrB8 (identify (prefix_address message 24))) = 16" using assms(13) len by (simp add: prefix_address_def)
  have result: "router_advertisement_receive C L R identify garbage src message 56 m = Some (Inr (remove_flagged C (of_nat r) m4))"
    if "update_prefix C R identify message (of_nat r) 24 ne m3 = Inr (ne', m4)" for ne' m4
    using advertisement_with_prefix [OF assms(6-12,5), where R = R and identify = identify] m3 that by (simp add: pos assms(14))
  have old: "if slot_of C m j 19 = of_nat r then slot_of C (remove_flagged C (of_nat r) m4) j 0 = FreeEntry_ID else same_slot C m (remove_flagged C (of_nat r) m4) j"
    if "memory_ok C m4" "j < cache_entries C" "slot_of C m j 0 = AddressEntry_ID" "same_slot C m3 m4 j" for m4 j
  proof -
    have jr: "j \<noteq> r" using that(3) rn(2) by auto
    note s = f(3) [OF that(2)] s2 [OF that(2) _ jr]
    have m4: "slot_of C m4 j y = slot_of C m3 j y" if "y < entry_size C" for y using that \<open>same_slot C m3 m4 j\<close> by (simp add: same_slot_def)
    note rem = remove_flagged_slots(2) [OF that(1,2), of _ "of_nat r"]
    show ?thesis
    proof (cases "slot_of C m j 19 = of_nat r")
      case True
      then have "bit (slot_of C m4 j 18) 3" using m4 [OF z(2)] s(1) [OF z(2)] s(2) z that(3) by (simp add: put_flag_def bit_simps)
      then show ?thesis using True rem [OF z(1)] m4 [OF z(1)] m4 [OF z(3)] s(1) [OF z(1)] s(1) [OF z(3)] s(2) z that(3) by simp
    next
      case False
      then show ?thesis using rem m4 s z that(3) by (simp add: same_slot_def)
    qed
  qed
  show ?thesis
  proof (cases "findEntry C 0 FreeEntry_ID m")
    case None
    have "update_prefix C R identify message (of_nat r) 24 ne m3 = Inr (ne, m3)"
      using len find_prefix_behind [OF behind] None free by (simp add: update_prefix_def peek_all_def makeIPv6AddressByPrefix_def)
    note r = result [OF this]
    let ?m' = "remove_flagged C (of_nat r) m3"
    have "\<forall>j < cache_entries C. slot_of C ?m' j 0 = AddressEntry_ID \<longrightarrow> slot_of C m j 0 = AddressEntry_ID"
      using remove_flagged_slots(2) [OF ok3 _ z(1)] t3 by simp
    moreover have "\<forall>j < cache_entries C. slot_of C m j 0 = AddressEntry_ID \<longrightarrow>
        (if slot_of C m j 19 = of_nat r then slot_of C ?m' j 0 = FreeEntry_ID else same_slot C m ?m' j)"
      using old [OF ok3] same_slot_refl by blast
    ultimately show ?thesis using r remove_flagged_slots(1) [OF ok3 rn(1) z(1)] None by simp
  next
    case (Some x)
    then obtain p nx where x: "findEntry C 0 FreeEntry_ID m = Some (p, nx)" by (cases x) simp
    from find_free_slot [OF assms(1) this] obtain k where k: "k < cache_entries C" "p = k * entry_size C" "slot_of C m k 0 = 0" .
    have "findEntry C 0 FreeEntry_ID m3 = Some (k * entry_size C, nx)" using free x k(2) by simp
    from update_prefix_new [where identify = identify and message = message and p = 24, OF ok3 assms(3) k(1) this id len behind] obtain m4 g
      where u: "update_prefix C R identify message (of_nat r) 24 ne m3 = Inr (ne, m4)" and w: "slot_written C m3 m4 k g"
        and conf: "configured R identify message (of_nat r) 24 m4 (k * entry_size C)" by blast
    have ok4: "memory_ok C m4" by (rule written_ok [OF w])
    note rem = remove_flagged_slots [OF ok4]
    have "\<not> bit (slot_of C m4 k 18) 3" using conf by (simp add: configured_def entry_toBeRemoved_def entry_stateflag_def slot_of_def)
    then have "same_slot C m4 (remove_flagged C (of_nat r) m4) k" using rem(2) [OF k(1)] by (simp add: same_slot_def)
    note conf' = configured_same [OF ok4 rem(1) [OF k(1) z(1)] k(1) this assms(3) conf]
    let ?m' = "remove_flagged C (of_nat r) m4"
    have "\<forall>j < cache_entries C. slot_of C m j 0 = AddressEntry_ID \<longrightarrow>
        (if slot_of C m j 19 = of_nat r then slot_of C ?m' j 0 = FreeEntry_ID else same_slot C m ?m' j)"
    proof (intro allI impI)
      fix j assume j: "j < cache_entries C" "slot_of C m j 0 = AddressEntry_ID"
      then have "same_slot C m3 m4 j" using w k(3) by (auto simp: slot_written_def)
      from old [OF ok4 j this] show "if slot_of C m j 19 = of_nat r then slot_of C ?m' j 0 = FreeEntry_ID else same_slot C m ?m' j" .
    qed
    then show ?thesis using result [OF u] rem(1) [OF k(1) z(1)] conf' x k(2) by simp
  qed
qed

subsection \<open>Lifetimes\<close>

definition age_address :: "lifetime_config \<Rightarrow> nat \<Rightarrow> memory \<Rightarrow> memory" where
  "age_address R p m =
     (if valid_time_minutes R m p = NoTimeExpire then m
      else if valid_time_minutes R m p \<le> IPV6_REFRESH_IN_MINUTES then freeEntry p m
      else let m = set_valid_time R p (valid_time_minutes R m p - IPV6_REFRESH_IN_MINUTES) m
           in set_preferred_time R p (if preferred_time_minutes R m p \<le> IPV6_REFRESH_IN_MINUTES then 0
                else preferred_time_minutes R m p - IPV6_REFRESH_IN_MINUTES) m)"

lemma refreshIPv6Addresses_each:
  "refreshIPv6Addresses C R m = snd (snd (for_entries C AddressEntry_ID (\<lambda>p (u :: unit, m). (u, age_address R p m)) 0 ((), m)))"
proof -
  have "(\<lambda>p (u :: unit, m).
          if valid_time_minutes R m p = NoTimeExpire then (u, m)
          else if valid_time_minutes R m p \<le> IPV6_REFRESH_IN_MINUTES then (u, freeEntry p m)
          else let m = set_valid_time R p (valid_time_minutes R m p - IPV6_REFRESH_IN_MINUTES) m
               in (u, if preferred_time_minutes R m p \<le> IPV6_REFRESH_IN_MINUTES then set_preferred_time R p 0 m
                      else set_preferred_time R p (preferred_time_minutes R m p - IPV6_REFRESH_IN_MINUTES) m)) =
      (\<lambda>p (u, m). (u, age_address R p m))"
    by (intro ext) (auto simp: age_address_def Let_def)
  then show ?thesis by (simp only: refreshIPv6Addresses_def)
qed

lemma age_address_written:
  assumes "memory_ok C m" and "lifetime_config_ok C R" and "k < cache_entries C"
  shows "\<exists>f. slot_written C m (age_address R (k * entry_size C) m) k f"
proof -
  note w = written_refl [OF assms(1,3)]
  show ?thesis
    using w freeEntry_written [OF assms(1,3)] written_times(2) [OF written_times(1) [OF w assms(2)] assms(2)]
    unfolding age_address_def Let_def by (simp split: if_split) blast
qed

lemma same_slot_times:
  assumes "same_slot C m m' k" and "lifetime_config_ok C R"
  shows "valid_time_minutes R m' (k * entry_size C) = valid_time_minutes R m (k * entry_size C)"
proof -
  have "slot_of C m' k (valid_at R + i) = slot_of C m k (valid_at R + i)" if "i < 4" for i
    using assms that by (simp add: same_slot_def lifetime_config_ok_def)
  from this [of 0] this [of 1] this [of 2] this [of 3] show ?thesis by (simp add: times_in_slot)
qed

lemma age_address_valid:
  assumes "memory_ok C m" and "lifetime_config_ok C R" and "k < cache_entries C" and "slot_of C m k 0 = AddressEntry_ID"
  shows "valid_time_minutes R m (k * entry_size C) \<noteq> NoTimeExpire \<Longrightarrow> \<not> valid_time_minutes R m (k * entry_size C) \<le> 3 \<Longrightarrow>
      slot_of C (age_address R (k * entry_size C) m) k 0 = AddressEntry_ID \<and>
      valid_time_minutes R (age_address R (k * entry_size C) m) (k * entry_size C) = valid_time_minutes R m (k * entry_size C) - 3"
    "valid_time_minutes R m (k * entry_size C) \<noteq> NoTimeExpire \<Longrightarrow> valid_time_minutes R m (k * entry_size C) \<le> 3 \<Longrightarrow>
      slot_of C (age_address R (k * entry_size C) m) k 0 = 0"
    "valid_time_minutes R m (k * entry_size C) = NoTimeExpire \<Longrightarrow> age_address R (k * entry_size C) m = m"
proof -
  let ?p = "k * entry_size C"
  have c: "21 \<le> valid_at R" "valid_at R + 4 \<le> preferred_at R" "preferred_at R + 4 \<le> entry_size C" "0 < entry_size C"
    using assms(2) small_offsets [OF assms(1), of 0] by (simp_all add: lifetime_config_ok_def)
  show "valid_time_minutes R m ?p \<noteq> NoTimeExpire \<Longrightarrow> \<not> valid_time_minutes R m ?p \<le> 3 \<Longrightarrow>
      slot_of C (age_address R ?p m) k 0 = AddressEntry_ID \<and> valid_time_minutes R (age_address R ?p m) ?p = valid_time_minutes R m ?p - 3"
  proof -
    assume h: "valid_time_minutes R m ?p \<noteq> NoTimeExpire" "\<not> valid_time_minutes R m ?p \<le> 3"
    let ?m1 = "set_valid_time R ?p (valid_time_minutes R m ?p - 3) m"
    obtain v where v: "age_address R ?p m = set_preferred_time R ?p v ?m1" using h by (auto simp: age_address_def Let_def IPV6_REFRESH_IN_MINUTES_def)
    note w = written_times(2) [OF written_times(1) [OF written_refl [OF assms(1,3)] assms(2)] assms(2), of v "valid_time_minutes R m ?p - 3"]
    have s: "slot_of C (age_address R ?p m) k (valid_at R + i) = store32 (valid_time_minutes R m ?p - 3) ! i" if "i < 4" for i
      unfolding v using written_slot [OF w assms(3), of "valid_at R + i"] c that by simp
    have "slot_of C (age_address R ?p m) k 0 = AddressEntry_ID"
      unfolding v using written_slot [OF w assms(3), of 0] c assms(4) by simp
    then show ?thesis using s [of 0] s [of 1] s [of 2] s [of 3] by (simp add: times_in_slot store32_def load32_store32 [unfolded store32_def])
  qed
  show "valid_time_minutes R m ?p \<noteq> NoTimeExpire \<Longrightarrow> valid_time_minutes R m ?p \<le> 3 \<Longrightarrow> slot_of C (age_address R ?p m) k 0 = 0"
    using written_slot [OF freeEntry_written [OF assms(1,3)] assms(3) c(4)] by (simp add: age_address_def IPV6_REFRESH_IN_MINUTES_def)
  show "valid_time_minutes R m ?p = NoTimeExpire \<Longrightarrow> age_address R ?p m = m" by (simp add: age_address_def)
qed

lemma refresh_entry:
  assumes "memory_ok C m" and "lifetime_config_ok C R" and "k < cache_entries C"
  shows "memory_ok C (refreshIPv6Addresses C R m)"
    "if slot_of C m k 0 \<noteq> AddressEntry_ID then slot_of C (refreshIPv6Addresses C R m) k 0 \<noteq> AddressEntry_ID
     else if valid_time_minutes R m (k * entry_size C) = NoTimeExpire
     then slot_of C (refreshIPv6Addresses C R m) k 0 = AddressEntry_ID \<and> valid_time_minutes R (refreshIPv6Addresses C R m) (k * entry_size C) = NoTimeExpire
     else if valid_time_minutes R m (k * entry_size C) \<le> 3 then slot_of C (refreshIPv6Addresses C R m) k 0 = 0
     else slot_of C (refreshIPv6Addresses C R m) k 0 = AddressEntry_ID \<and>
       valid_time_minutes R (refreshIPv6Addresses C R m) (k * entry_size C) = valid_time_minutes R m (k * entry_size C) - 3"
proof -
  have z: "0 < entry_size C" using small_offsets [OF assms(1), of 0] by simp
  have l: "local_at C (age_address R (j * entry_size C)) j" if "j < cache_entries C" for j
    using age_address_written [OF _ assms(2) that] by (rule written_local [OF that])
  note s = sweep_slots [where f = "age_address R" and type = AddressEntry_ID, OF assms(1) l assms(3), folded refreshIPv6Addresses_each]
  show "memory_ok C (refreshIPv6Addresses C R m)" by (rule s(1))
  let ?m' = "refreshIPv6Addresses C R m" and ?p = "k * entry_size C"
  show "if slot_of C m k 0 \<noteq> AddressEntry_ID then slot_of C ?m' k 0 \<noteq> AddressEntry_ID
     else if valid_time_minutes R m ?p = NoTimeExpire then slot_of C ?m' k 0 = AddressEntry_ID \<and> valid_time_minutes R ?m' ?p = NoTimeExpire
     else if valid_time_minutes R m ?p \<le> 3 then slot_of C ?m' k 0 = 0
     else slot_of C ?m' k 0 = AddressEntry_ID \<and> valid_time_minutes R ?m' ?p = valid_time_minutes R m ?p - 3"
  proof (cases "slot_of C m k 0 = AddressEntry_ID")
    case True
    then obtain m1 where m1: "memory_ok C m1" "same_slot C m m1 k" "same_slot C (age_address R ?p m1) ?m' k" using s(2) by auto
    have e: "slot_of C m1 k 0 = AddressEntry_ID" "valid_time_minutes R m1 ?p = valid_time_minutes R m ?p"
      "slot_of C ?m' k 0 = slot_of C (age_address R ?p m1) k 0" "valid_time_minutes R ?m' ?p = valid_time_minutes R (age_address R ?p m1) ?p"
      using m1(2,3) True z same_slot_times [OF m1(2) assms(2)] same_slot_times [OF m1(3) assms(2)] by (simp_all add: same_slot_def)
    show ?thesis using True e age_address_valid [OF m1(1) assms(2,3) e(1)] by auto
  next
    case False
    then show ?thesis using s(2) z by (simp add: same_slot_def)
  qed
qed

lemma unat_no_expiry: "unat NoTimeExpire = 4294967295"
proof -
  have "NoTimeExpire = of_nat 4294967295" by (simp add: NoTimeExpire_def)
  moreover have "unat (of_nat 4294967295 :: u32) = 4294967295" by (rule unat_of_nat_u32) simp
  ultimately show ?thesis by metis
qed

text \<open>An address that no advertisement renews is there after as many refreshes as its lifetime holds three minutes, rounded up and less
  one; one without a limit stays.\<close>

theorem address_lifetime:
  assumes "memory_ok C m" and "lifetime_config_ok C R" and "k < cache_entries C" and "slot_of C m k 0 = AddressEntry_ID" and "0 < t"
  shows "slot_of C ((refreshIPv6Addresses C R ^^ t) m) k 0 = AddressEntry_ID \<longleftrightarrow>
    valid_time_minutes R m (k * entry_size C) = NoTimeExpire \<or> 3 * t < unat (valid_time_minutes R m (k * entry_size C))"
proof -
  let ?v = "valid_time_minutes R m (k * entry_size C)"
  let ?m = "\<lambda>t. (refreshIPv6Addresses C R ^^ t) m" and ?w = "\<lambda>t. valid_time_minutes R ((refreshIPv6Addresses C R ^^ t) m) (k * entry_size C)"
  have "memory_ok C (?m t) \<and>
      (if ?v = NoTimeExpire then slot_of C (?m t) k 0 = AddressEntry_ID \<and> ?w t = NoTimeExpire
       else if t = 0 \<or> 3 * t < unat ?v then slot_of C (?m t) k 0 = AddressEntry_ID \<and> unat (?w t) = unat ?v - 3 * t
       else slot_of C (?m t) k 0 \<noteq> AddressEntry_ID)" for t
  proof (induction t)
    case 0
    then show ?case using assms by simp
  next
    case (Suc t)
    then have ok: "memory_ok C (?m t)" by simp
    note r = refresh_entry [OF ok assms(2,3)]
    show ?case
    proof (cases "?v \<noteq> NoTimeExpire \<and> (t = 0 \<or> 3 * t < unat ?v)")
      case True
      then have p: "slot_of C (?m t) k 0 = AddressEntry_ID" "unat (?w t) = unat ?v - 3 * t" using Suc by simp_all
      have "unat ?v \<noteq> unat NoTimeExpire" using True by (metis word_unat_eq_iff)
      then have "unat ?v < unat NoTimeExpire" using unat_u32_less [of ?v] unat_no_expiry by linarith
      then have ne: "?w t \<noteq> NoTimeExpire" using p(2) by auto
      have le: "?w t \<le> 3 \<longleftrightarrow> unat ?v - 3 * t \<le> 3" using p(2) by (simp add: word_le_nat_alt)
      show ?thesis
      proof (cases "?w t \<le> 3")
        case True
        then show ?thesis using r p ne le \<open>?v \<noteq> NoTimeExpire \<and> _\<close> by auto
      next
        case False
        then have "unat (?w t - 3) = unat (?w t) - 3" by (simp add: unat_sub word_le_nat_alt)
        then show ?thesis using r p ne le False \<open>?v \<noteq> NoTimeExpire \<and> _\<close> by auto
      qed
    next
      case False
      then show ?thesis using Suc r by (auto split: if_splits)
    qed
  qed
  from this [of t] show ?thesis using assms(5) by (auto split: if_splits)
qed

subsection \<open>A concrete router\<close>

text \<open>Two slots of 29 bytes: the first one is the router, the second one is free.\<close>

definition router_config :: memory_config where "router_config = \<lparr>entry_size = 29, cache_entries = 2\<rparr>"
definition router_lifetimes :: lifetime_config where "router_lifetimes = \<lparr>valid_at = 21, preferred_at = 25\<rparr>"
definition router_memory :: memory where
  "router_memory = [250, 0xfe, 0x80, 0, 0, 0, 0, 0, 0, 0, 0, 0, 0, 0, 0, 0, 3, 4, 0, 2, 0, 0, 0, 0, 3, 100, 0, 0, 0] @ replicate 29 0"
definition router_address :: ipv6addr where
  "router_address = \<lparr>ipaddrB8 = [0xfe, 0x80, 0, 0, 0, 0, 0, 0, 0, 0, 0, 0, 0, 0, 0, 3]\<rparr>"
definition router_header :: "u8 list" where "router_header = [134, 0, 0, 0, 64, 0, 7, 8, 0, 0, 0, 0, 0, 0, 0, 0]"
definition router_prefix :: "u8 list" where
  "router_prefix = [64, 0xc0, 0, 0, 14, 16, 0, 0, 7, 8, 0, 0, 0, 0, 0x20, 1, 0x0d, 0xb8, 0, 0, 0, 0, 0, 0, 0, 0, 0, 0, 0, 0]"

lemma router_sample:
  "memory_ok router_config router_memory" "ndp_config_ok router_config sample_layout" "lifetime_config_ok router_config router_lifetimes"
  "slot_of router_config router_memory 0 0 = NDPCacheEntry_ID" "0 < cache_entries router_config"
  "ndpcache_find router_config router_address router_memory = Some 0" "findEntry router_config 0 FreeEntry_ID router_memory = Some (29, 2)"
  "length router_header = 16" "router_header ! 0 = 134" "router_header ! 1 = 0" "ra_router_lifetime router_header \<noteq> 0"
  "length router_prefix = 30" "0x40 AND router_prefix ! 1 \<noteq> 0"
  by code_simp+

theorem short_prefix_option_hangs_witness:
  "router_advertisement_receive router_config sample_layout router_lifetimes (ethernet_identifier [2, 0, 0, 0, 0, 1]) [0, 0, 0, 0, 0, 0] router_address
     (router_header @ ndp_option (SourceLinkLayer, [2, 0, 0, 0, 0, 3]) @ ndp_option (3, [64, 0, 0, 0, 0, 0])) 32 router_memory = None"
  by (rule short_prefix_option_hangs) (use router_sample in simp_all)

theorem advertisement_replaces_addresses_witness:
  "\<exists>m'. router_advertisement_receive router_config sample_layout router_lifetimes (ethernet_identifier [2, 0, 0, 0, 0, 1]) [0, 0, 0, 0, 0, 0] router_address
     (router_header @ ndp_option (SourceLinkLayer, [2, 0, 0, 0, 0, 3]) @ ndp_option (3, router_prefix)) 56 router_memory = Some (Inr m') \<and>
   entry_ipv6 m' 29 = \<lparr>ipaddrB8 = [0x20, 1, 0x0d, 0xb8, 0, 0, 0, 0, 2, 0, 0, 0xff, 0xfe, 0, 0, 1]\<rparr>"
proof -
  let ?msg = "router_header @ ndp_option (SourceLinkLayer, [2, 0, 0, 0, 0, 3]) @ ndp_option (3, router_prefix)"
  have n: "is_neighbour router_config router_memory 0" using router_sample(4,5) by (simp add: is_neighbour_def)
  have f: "ndpcache_find router_config router_address router_memory = Some (0 * entry_size router_config)" using router_sample(6) by simp
  have i: "\<forall>a. length (ipaddrB8 a) = 16 \<longrightarrow> length (ipaddrB8 (ethernet_identifier [2, 0, 0, 0, 0, 1] a)) = 16" by (simp add: ethernet_identifier_def)
  have a: "ethernet_identifier [2, 0, 0, 0, 0, 1] (prefix_address ?msg 24) = \<lparr>ipaddrB8 = [0x20, 1, 0x0d, 0xb8, 0, 0, 0, 0, 2, 0, 0, 0xff, 0xfe, 0, 0, 1]\<rparr>"
    by code_simp
  from advertisement_replaces_addresses [where garbage = "[0, 0, 0, 0, 0, 0]" and mac = "[2, 0, 0, 0, 0, 3]", OF router_sample(1-3) n f router_sample(8-11) _ router_sample(12,13) i refl,
    unfolded router_sample(7) option.case prod.case]
  show ?thesis using a by (auto simp: configured_def)
qed

theorem second_prefix_ignored_witness:
  "router_advertisement_receive router_config sample_layout router_lifetimes (ethernet_identifier [2, 0, 0, 0, 0, 1]) [0, 0, 0, 0, 0, 0] router_address
     (router_header @ ndp_option (SourceLinkLayer, [2, 0, 0, 0, 0, 3]) @ ndp_option (3, router_prefix) @ ndp_option (3, router_prefix[14 := 0x26])) 88 router_memory =
   router_advertisement_receive router_config sample_layout router_lifetimes (ethernet_identifier [2, 0, 0, 0, 0, 1]) [0, 0, 0, 0, 0, 0] router_address
     (router_header @ ndp_option (SourceLinkLayer, [2, 0, 0, 0, 0, 3]) @ ndp_option (3, router_prefix) @ ndp_option (3, replicate 30 0)) 88 router_memory"
  by (rule second_prefix_ignored) (use router_sample in simp_all)

end
