(* ===== verification/Spec2Isabelle.thy ===== *)
theory Spec2Isabelle
  imports TCP_Behaviour Shared_Memory Header_Compression IPv4_Reassembly IPv6_Messages Datagram_Sockets Family_Model TCP_Extensions TCP_Demux ICMP_Services Router_Discovery
begin

text \<open>
  A model of the IP stack in \<^verbatim>\<open>src/libipstack/src\<close> and of the tool that configures it, with the theorems that make it
  correct and those that show where it is not. Paths below are relative to \<^verbatim>\<open>src/libipstack/src\<close>.

  \<^bold>\<open>The program.\<close> The stack is written in AspectC++: classes hold the state and the basic operations, slices add members,
  and advice adds behaviour around them when a feature is selected. A frame comes from an interface, passes the checks of
  its network layer, and is handed to the socket that has its port, whose buffer or queue keeps a copy of the payload in
  a block of the socket's memory pool. A socket sends by requesting a buffer from its pool, writing into it the
  headers and the payload, and handing it to the interface, which reports later that it was transmitted. TCP keeps
  the sent buffers in a history until they are acknowledged.

  \<^bold>\<open>The theories, from the bottom.\<close>
  \<^item> \<^verbatim>\<open>Prelude\<close>: faults and results (\<open>outcome\<close>: a fault or a value), memory as a list of cells, words, arithmetic modulo a
    buffer size.
  \<^item> \<^verbatim>\<open>Ring_Buffer\<close> (\<^verbatim>\<open>util/Ringbuffer.h\<close>), \<^verbatim>\<open>Mem_Pool\<close> (\<^verbatim>\<open>util/Mempool.h\<close>), \<^verbatim>\<open>Buffers\<close> (\<^verbatim>\<open>SendBuffer.h\<close>, \<^verbatim>\<open>ReceiveBuffer.h\<close>,
    \<^verbatim>\<open>Socket_Send_Slice.ah\<close>), \<^verbatim>\<open>Shared_Memory\<close> (\<^verbatim>\<open>ip_management_memory\<close>): the containers. Each states the interface that
    its clients use as a locale (a bounded queue, an allocator of blocks, a tracked pool), and the model of the code is
    an interpretation of it.
  \<^item> \<^verbatim>\<open>Checksum\<close> (\<^verbatim>\<open>ip/InternetChecksum.h\<close>, \<^verbatim>\<open>ipv4\<close> and \<^verbatim>\<open>ipv6/InternetChecksum.h\<close>, \<^verbatim>\<open>Little_Endian.ah\<close>): byte order, the
    sums of 16 bit words, the checksum methods of all headers.
  \<^item> \<^verbatim>\<open>Address_Text\<close> (\<^verbatim>\<open>ipv6/IPv6AddressUtilities\<close>, \<^verbatim>\<open>ethernet/EthernetAddressUtilities\<close>): printing, parsing, comparing addresses.
  \<^item> \<^verbatim>\<open>Link_Frames\<close> (\<^verbatim>\<open>ethernet/Eth_Frame.h\<close>, \<^verbatim>\<open>arp\<close>, \<^verbatim>\<open>udp/UDP.h\<close>, \<^verbatim>\<open>icmpv4/ICMP.h\<close>, \<^verbatim>\<open>icmpv6/ICMPv6.h\<close>): headers as bytes at fixed
    offsets, the packets of ARP.
  \<^item> \<^verbatim>\<open>IPv4_Layer\<close> (\<^verbatim>\<open>ipv4/IPv4.h\<close>, \<^verbatim>\<open>ipv4/IPv4onSockets\<close>, \<^verbatim>\<open>router\<close>, \<^verbatim>\<open>ipv4/IPv4_Receive.ah\<close>): the packet, its length and
    checksum, routes, the sender and the receiver. \<^verbatim>\<open>IPv4_Reassembly\<close> (\<^verbatim>\<open>ipv4/fragmentation\<close>): the bitmap of
    received fragments and the buffer they are copied into.
  \<^item> \<^verbatim>\<open>Address_Memory\<close> (\<^verbatim>\<open>ipv6/AddressMemory.h\<close> and the entries kept in it), \<^verbatim>\<open>IPv6_Layer\<close> (\<^verbatim>\<open>ipv6/IPv6.h\<close>, \<^verbatim>\<open>ipv6/IPv6onSockets\<close>,
    \<^verbatim>\<open>ipv6/Router_IPv6_Slice.ah\<close>), \<^verbatim>\<open>IPv6_Messages\<close> (\<^verbatim>\<open>ipv6/ExtensionHeaderOptions.h\<close>, \<^verbatim>\<open>ipv6/ipv6_hopbyhopheader\<close>,
    \<^verbatim>\<open>icmpv6/ndp\<close>, \<^verbatim>\<open>icmpv6/ndp_router\<close>, \<^verbatim>\<open>icmpv6/mld\<close>), \<^verbatim>\<open>Header_Compression\<close> (\<^verbatim>\<open>6lowpan/IPv6iphc\<close>): IPv6.
  \<^item> \<^verbatim>\<open>Datagram_Sockets\<close> (\<^verbatim>\<open>udp\<close>, \<^verbatim>\<open>demux\<close>, \<^verbatim>\<open>ipv4/udp\<close>, \<^verbatim>\<open>ipv6/udp\<close>, \<^verbatim>\<open>tcp/Management_TCP_Socket\<close>): the list of bound sockets, the
    receive buffers with their sender, the way of a datagram.
  \<^item> \<^verbatim>\<open>ARP_Cache\<close> (\<^verbatim>\<open>arp\<close>, \<^verbatim>\<open>arp/ipv4\<close>): the cache of hardware addresses, an interpretation of a locale for caches that may
    forget, with requests, replies and the lookup that waits. \<^verbatim>\<open>IPv4_Ethernet\<close> (\<^verbatim>\<open>ipv4/ethernet\<close>, \<^verbatim>\<open>ethernet\<close>, \<^verbatim>\<open>ipv4/udp\<close>, the
    \<^verbatim>\<open>SendBuffer\<close> aspects): how the advice of all layers builds a frame around what a socket writes, and takes a received
    one apart; here a datagram goes all the way from one socket to another.
  \<^item> \<^verbatim>\<open>ICMP_Services\<close> (\<^verbatim>\<open>icmpv4\<close>, with \<^verbatim>\<open>ip_management_memory\<close>): echo replies and unreachable errors. A step relation
    of all histories of the handlers shows that they leave only finished buffers behind; an answer is followed up to the host that asked.
  \<^item> \<^verbatim>\<open>NDP_Cache\<close> (\<^verbatim>\<open>ipv6/ndpcache\<close>, \<^verbatim>\<open>ipv6/ndpcache_expire\<close>, \<^verbatim>\<open>icmpv6/ndp_addr_resolve\<close>): the neighbours in the address memory as a
    map, the rounds that let them expire, and the lookup that waits for an advertisement. A loop over the entries whose body changes
    the memory is a recursion on the slot of the next search; the lemmas see the memory slot by slot. \<^verbatim>\<open>Router_Discovery\<close>
    (\<^verbatim>\<open>icmpv6/ndp_router\<close>, \<^verbatim>\<open>icmpv6/ndp_addr_duplication\<close>, \<^verbatim>\<open>ipv6/address_prefix_expire\<close>): how advertisements make and free the
    addresses of an interface, and how long these live; the loop over the prefixes of a message is partial, since it need not end.
  \<^item> \<^verbatim>\<open>TCP_Segment\<close>, \<^verbatim>\<open>TCP_History\<close>, \<^verbatim>\<open>TCP_Receive_Buffer\<close>, \<^verbatim>\<open>TCP_Socket\<close>, \<^verbatim>\<open>TCP_Statemachine\<close> (\<^verbatim>\<open>tcp\<close>, \<^verbatim>\<open>tcp/tcp_history\<close>,
    \<^verbatim>\<open>tcp/tcp_receivebuffer\<close>, \<^verbatim>\<open>tcp/statemachine\<close>): TCP, one function per handler of the state machine. \<^verbatim>\<open>TCP_Transitions\<close>
    shows which states follow one another, \<^verbatim>\<open>TCP_Safety\<close> that no run loses or misuses memory, \<^verbatim>\<open>TCP_Behaviour\<close> what the
    operations do. \<^verbatim>\<open>TCP_Extensions\<close> (\<^verbatim>\<open>tcp/congestion_avoidance\<close>, \<^verbatim>\<open>rtt_estimation\<close>, \<^verbatim>\<open>retransmissionTracker\<close>, \<^verbatim>\<open>sws\<close>,
    \<^verbatim>\<open>tcp_options\<close>): the optional advice of TCP, woven around the operations of the socket.
  \<^item> \<^verbatim>\<open>Socket_List\<close> (the loops of \<^verbatim>\<open>udp/Demux_UDP_Slice.ah\<close> and \<^verbatim>\<open>tcp/Demux_TCP_Slice.ah\<close> over a list linked through the
    sockets), a locale for any kind of socket with a pointer to the next one, interpreted on both kinds. \<^verbatim>\<open>TCP_Demux\<close>
    (\<^verbatim>\<open>tcp/Demux_TCP_Slice.ah\<close>, \<^verbatim>\<open>tcp/Demux_TCP_Listen_Slice.ah\<close>, \<^verbatim>\<open>tcp/TCP_Listen.ah\<close>, \<^verbatim>\<open>ipv4/tcp\<close>, \<^verbatim>\<open>ipv6/tcp\<close>): the way of a
    segment to its socket, and how a socket accepts a connection.
  \<^item> \<^verbatim>\<open>Family_Model\<close> (\<^verbatim>\<open>../buildsystem/determine_relevant_files\<close>): the tool that selects the files of a configuration.

  \<^bold>\<open>How code becomes definitions.\<close> A class is a record, an object its value; methods return the changed record. Integers have
  the width of the code (\<open>unsigned\<close> and \<open>uint_fast16_t\<close> are 32 bit wide). Pointers are addresses or positions, a null
  pointer is \<open>None\<close>, and an access outside its memory, a dereferenced null pointer or the use of a freed block is a
  fault. Memory that has not been written is an argument. Features that are chosen at build time are arguments. What the
  interface, the clock, the rest of a frame or advice outside the model decides is an argument as well, so the
  theorems hold for every choice.

  \<^bold>\<open>Loops.\<close> Loops over arrays and lists are structural recursions or have a measure. A loop that need not end is a
  partial function in the option monad, and that it ends is a theorem (the search for a free port) or that it does not
  (the option parser, the prefixes of an advertisement, the check in the TCP \<open>bind\<close>). The loops of TCP that wait for events take the events as a list; the send loop takes fuel, and
  \<open>send_loop_terminates\<close> shows how much is enough.

  \<^bold>\<open>What the lemmas show.\<close> For a container: an invariant that every operation keeps, and that it implements a list, a
  table or a set of blocks. For a format: what is written is what is on the wire, and what is read back. For an
  algorithm: which result it gives on every input. For TCP: safety of every run, the state diagram, the handshake, the
  stream of bytes in both directions. Where the code goes wrong the theorem states on which inputs and how.

  \<^bold>\<open>Not modelled.\<close> The routers that sockets remember; the answers of ICMPv6 to echo requests and of the multicast listener, whose formats
  are modelled; the short address forms of the header compression. These are advice around what is modelled. The receiver of IPv4
  takes the payload that reassembly gives it as an argument, since the aspect is optional there. The JSON parser is a
  third-party library, hooks of the operating system and the public interface hold no logic of their own, and the
  examples only use the stack.
\<close>

end
